(* ===== verification/Prelude.thy ===== *)
theory Prelude
  imports Main "HOL-Library.Word"
begin

text \<open>
  Shared vocabulary of the development: machine-integer type synonyms, the counting loop
  that searches an index range (the shape of most scans in Axom's containers), and generic
  facts on lists, counting and words that the component theories rely on.
\<close>

unbundle bit_operations_syntax

section \<open>Types and rule collections\<close>

type_synonym uint8 = "8 word"
type_synonym uint64 = "64 word"
type_synonym int32 = "32 word"

named_theorems bounds_simps \<open>sizes and ranges of the containers\<close>
named_theorems keeps_inv \<open>operations that keep a component invariant\<close>

section \<open>Searching loops\<close>

text \<open>
  The loop \<^verbatim>\<open>for(i = lo; i < hi; i++) if(P(i)) return i;\<close> followed by
  \<^verbatim>\<open>return dflt\<close>.
\<close>

function for_find :: "(int \<Rightarrow> bool) \<Rightarrow> int \<Rightarrow> int \<Rightarrow> int \<Rightarrow> int" where
  "for_find P lo hi dflt =
     (if lo < hi then (if P lo then lo else for_find P (lo + 1) hi dflt) else dflt)"
  by pat_completeness auto
termination
  by (relation "measure (\<lambda>(P, lo, hi, dflt). nat (hi - lo))") auto

declare for_find.simps [simp del]

lemma for_find_step:
  "lo < hi \<Longrightarrow> P lo \<Longrightarrow> for_find P lo hi d = lo"
  "lo < hi \<Longrightarrow> \<not> P lo \<Longrightarrow> for_find P lo hi d = for_find P (lo + 1) hi d"
  "hi \<le> lo \<Longrightarrow> for_find P lo hi d = d"
  by (simp_all add: for_find.simps [of P lo hi d])

text \<open>The two possible outcomes: the least index with the property, or the default.\<close>

lemma for_find_cases:
  "(\<exists>i. for_find P lo hi d = i \<and> lo \<le> i \<and> i < hi \<and> P i \<and> (\<forall>j. lo \<le> j \<and> j < i \<longrightarrow> \<not> P j)) \<or>
   (for_find P lo hi d = d \<and> (\<forall>j. lo \<le> j \<and> j < hi \<longrightarrow> \<not> P j))"
proof (induction P lo hi d rule: for_find.induct)
  case (1 P lo hi d)
  consider "hi \<le> lo" | "lo < hi" "P lo" | "lo < hi" "\<not> P lo" by linarith
  then show ?case
  proof cases
    case 1
    then show ?thesis by (auto simp: for_find_step)
  next
    case 2
    then show ?thesis by (auto simp: for_find_step)
  next
    case 3
    have ff: "for_find P lo hi d = for_find P (lo + 1) hi d"
      using 3 by (simp add: for_find_step(2))
    have ext: "(\<forall>j. lo \<le> j \<and> j < k \<longrightarrow> \<not> P j) = (\<forall>j. lo + 1 \<le> j \<and> j < k \<longrightarrow> \<not> P j)" for k
      using \<open>\<not> P lo\<close> by (metis add1_zle_eq order_le_less)
    from "1.IH" [OF 3] show ?thesis
      unfolding ff ext by auto
  qed
qed

lemma for_find_Some:
  assumes "for_find P lo hi d = i" and "d < lo \<or> hi \<le> d" and "lo \<le> i" and "i < hi"
  shows "P i" and "\<And>j. lo \<le> j \<Longrightarrow> j < i \<Longrightarrow> \<not> P j"
  using for_find_cases [of P lo hi d] assms by auto

lemma for_find_None:
  assumes "for_find P lo hi d = d" and "d < lo \<or> hi \<le> d"
  shows "\<And>j. lo \<le> j \<Longrightarrow> j < hi \<Longrightarrow> \<not> P j"
  using for_find_cases [of P lo hi d] assms by auto

lemma for_find_range:
  "for_find P lo hi d = d \<or> (lo \<le> for_find P lo hi d \<and> for_find P lo hi d < hi)"
  using for_find_cases [of P lo hi d] by auto

lemma for_find_exists:
  assumes "lo \<le> j" and "j < hi" and "P j"
  shows "lo \<le> for_find P lo hi d \<and> for_find P lo hi d < hi \<and> P (for_find P lo hi d)"
  using for_find_cases [of P lo hi d] assms by auto

lemma for_find_cong:
  assumes "\<And>j. lo \<le> j \<Longrightarrow> j < hi \<Longrightarrow> P j = Q j"
  shows "for_find P lo hi d = for_find Q lo hi d"
  using assms
proof (induction P lo hi d rule: for_find.induct)
  case (1 P lo hi d)
  then show ?case
    by (simp add: for_find.simps [of P lo hi d] for_find.simps [of Q lo hi d])
qed

lemma for_find_split:
  assumes "lo \<le> mid" and "mid \<le> hi" and "d' < lo \<or> mid \<le> d'"
  shows "for_find P lo hi d =
           (let i = for_find P lo mid d' in if i = d' then for_find P mid hi d else i)"
  using assms
proof (induction P lo mid d' rule: for_find.induct)
  case (1 P lo mid d')
  show ?case
  proof (cases "lo < mid")
    case True
    then show ?thesis
      using "1.prems" "1.IH" by (cases "P lo") (auto simp: for_find_step Let_def)
  next
    case False
    with "1.prems" have "lo = mid" by simp
    then show ?thesis by (simp add: for_find_step)
  qed
qed

lemma for_find_shift:
  "for_find P (lo + c) (hi + c) (d + c) = for_find (\<lambda>i. P (i + c)) lo hi d + c"
proof (induction "\<lambda>i. P (i + c)" lo hi d rule: for_find.induct)
  case (1 lo hi d)
  have succ: "lo + c + 1 = lo + 1 + c" by simp
  show ?case
    using "1" by (cases "lo < hi"; cases "P (lo + c)") (simp_all add: for_find_step succ)
qed

section \<open>Integer division\<close>

lemma zdiv_less_iff:
  assumes "0 < (b :: int)"
  shows "a div b < c \<longleftrightarrow> a < c * b"
proof
  assume "a div b < c"
  then have "(a div b + 1) * b \<le> c * b" using assms by simp
  moreover have "a < (a div b + 1) * b"
    unfolding distrib_right mult_1
    using pos_mod_bound [OF assms, of a] div_mult_mod_eq [of a b] by linarith
  ultimately show "a < c * b" by linarith
next
  assume *: "a < c * b"
  show "a div b < c"
  proof (rule ccontr)
    assume "\<not> a div b < c"
    then have "c * b \<le> a div b * b" using assms by simp
    also have "\<dots> \<le> a"
      using assms pos_mod_sign [of b a] div_mult_mod_eq [of a b] by linarith
    finally show False using * by simp
  qed
qed

section \<open>Lists\<close>

lemma nth_list_update_in: "j < length xs \<Longrightarrow> xs[i := x] ! j = (if i = j then x else xs ! j)"
  by (cases "i < length xs") (auto simp: nth_list_update list_update_beyond)

lemma ex_nth_list_update:
  assumes "b < length xs" and "xs ! b = None"
  shows "(\<exists>i<length xs. xs[b := Some x] ! i = Some y) \<longleftrightarrow> y = x \<or> (\<exists>i<length xs. xs ! i = Some y)"
    (is "?L \<longleftrightarrow> ?R")
proof
  assume ?L
  then show ?R by (auto simp: nth_list_update_in split: if_splits)
next
  assume ?R
  then show ?L
  proof
    assume "\<exists>i<length xs. xs ! i = Some y"
    then obtain i where "i < length xs" "xs ! i = Some y" "i \<noteq> b"
      using assms(2) by fastforce
    then show ?L by (auto intro!: exI [of _ i])
  qed (use assms in auto)
qed

lemma upt_split_at:
  assumes "a \<le> r" and "r < n"
  shows "[a..<n] = [a..<r] @ r # [Suc r..<n]"
proof -
  have "[a..<n] = [a..<r] @ [r..<n]"
    using assms upt_add_eq_append [of a r "n - r"] by simp
  then show ?thesis using assms by (simp add: upt_conv_Cons)
qed

section \<open>Words\<close>

lemma unat_of_nat_small: "n < 2 ^ 64 \<Longrightarrow> unat (of_nat n :: uint64) = n"
  by (simp add: unat_of_nat)

end
