(* ===== verification/FlatTable.thy ===== *)
theory FlatTable
  imports Prelude "HOL-Library.Signed_Division"
begin

text \<open>
  The metadata table of the open-addressing hash map (\<^verbatim>\<open>core/detail/FlatTable.hpp\<close>):
  groups of 15 metadata bytes with an overflow byte, quadratic probing over a power-of-two
  number of groups, and the lookup policy built on them. The hash type of the policy is
  \<^verbatim>\<open>std::size_t\<close> on a 64-bit platform, so hashes are 64-bit words. Slot and
  bucket indices are \<open>int\<close>, as in the source, because \<open>-1\<close> marks "no slot".
\<close>

section \<open>Probing and hashing\<close>

definition getNext :: "nat \<Rightarrow> nat" where
  "getNext iter = iter + 1"

text \<open>The \<^verbatim>\<open>mxmxm\<close> bit mixer applied on top of the user's hash function.\<close>

definition HashMixer64 :: "('k \<Rightarrow> uint64) \<Rightarrow> 'k \<Rightarrow> uint64" where
  "HashMixer64 hashFunc key =
     (let hash = hashFunc key;
          hash = hash * 0xbf58476d1ce4e5b9;
          hash = hash XOR drop_bit 32 hash;
          hash = hash * 0x94d049bb133111eb;
          hash = hash XOR drop_bit 32 hash;
          hash = hash * 0x94d049bb133111eb
      in hash)"

section \<open>A group of buckets\<close>

record GroupBucket =
  ofw :: uint8
  slots :: "uint8 list"

abbreviation (input) EmptySlot :: uint8 where "EmptySlot \<equiv> 0"
abbreviation (input) Sentinel :: uint8 where "Sentinel \<equiv> 1"
abbreviation (input) InvalidSlot :: int where "InvalidSlot \<equiv> - 1"
abbreviation (input) NO_MATCH :: int where "NO_MATCH \<equiv> - 1"
abbreviation (input) GroupSize :: int where "GroupSize \<equiv> 15"

definition GroupBucket_init :: GroupBucket where
  "GroupBucket_init = \<lparr>ofw = 0, slots = replicate 15 0\<rparr>"

definition reduceHash :: "uint8 \<Rightarrow> uint8" where
  "reduceHash hash = (if hash < 2 then hash + 8 else hash)"

definition getEmptyBucket :: "GroupBucket \<Rightarrow> int" where
  "getEmptyBucket g = for_find (\<lambda>i. slots g ! nat i = EmptySlot) 0 GroupSize InvalidSlot"

definition nextFilledBucket :: "GroupBucket \<Rightarrow> int \<Rightarrow> int" where
  "nextFilledBucket g start_index =
     for_find (\<lambda>i. slots g ! nat i \<noteq> EmptySlot) (start_index + 1) GroupSize InvalidSlot"

text \<open>The visitor carries its captured variables as a state that the loop threads through.\<close>

definition visitHashBucket :: "GroupBucket \<Rightarrow> uint8 \<Rightarrow> (int \<Rightarrow> 's \<Rightarrow> 's) \<Rightarrow> 's \<Rightarrow> 's" where
  "visitHashBucket g hash visitor s =
     fold (\<lambda>i s. if slots g ! i = reduceHash hash then visitor (int i) s else s) [0..<15] s"

definition setBucket :: "GroupBucket \<Rightarrow> int \<Rightarrow> uint8 \<Rightarrow> GroupBucket" where
  "setBucket g index hash = g\<lparr>slots := (slots g)[nat index := reduceHash hash]\<rparr>"

definition clearSlot :: "GroupBucket \<Rightarrow> int \<Rightarrow> GroupBucket" where
  "clearSlot g index = g\<lparr>slots := (slots g)[nat index := EmptySlot]\<rparr>"

definition hashOfwBit :: "uint8 \<Rightarrow> uint8" where
  "hashOfwBit hash = push_bit (unat hash mod 8) 1"

definition setOverflow :: "GroupBucket \<Rightarrow> uint8 \<Rightarrow> GroupBucket" where
  "setOverflow g hash = g\<lparr>ofw := ofw g OR hashOfwBit hash\<rparr>"

definition getMaybeOverflowed :: "GroupBucket \<Rightarrow> uint8 \<Rightarrow> bool" where
  "getMaybeOverflowed g hash \<longleftrightarrow> ofw g AND hashOfwBit hash \<noteq> 0"

definition hasSentinel :: "GroupBucket \<Rightarrow> bool" where
  "hasSentinel g \<longleftrightarrow> slots g ! 14 = Sentinel"

definition setSentinel :: "GroupBucket \<Rightarrow> GroupBucket" where
  "setSentinel g = g\<lparr>slots := (slots g)[14 := Sentinel]\<rparr>"

section \<open>The sequential lookup policy\<close>

text \<open>
  The first group to probe: the \<open>k\<close> most significant bits of the hash, where the table
  has \<open>2 ^ k\<close> groups. The remaining groups follow by adding \<open>1, 2, 3, \<dots>\<close> modulo the
  number of groups. The shifts \<^verbatim>\<open>hash >> (64 - k)\<close> and \<^verbatim>\<open>1 << k\<close> are defined in C++ for \<open>1 \<le> k \<le> 30\<close>; the tables
  of \<^verbatim>\<open>FlatMap\<close> have \<open>1 \<le> k \<le> 27\<close> (\<open>table_shape\<close>).
\<close>

definition first_group :: "nat \<Rightarrow> uint64 \<Rightarrow> uint64" where
  "first_group ngroups_pow_2 hash =
     drop_bit (64 - ngroups_pow_2) hash AND (2 ^ ngroups_pow_2 - 1)"

definition next_group :: "uint64 \<Rightarrow> nat \<Rightarrow> nat \<Rightarrow> uint64" where
  "next_group curr_group iteration ngroups =
     (curr_group + of_nat (getNext iteration)) mod of_nat ngroups"

definition hash_8 :: "uint64 \<Rightarrow> uint8" where
  "hash_8 hash = ucast hash"

text \<open>
  \<^verbatim>\<open>probeEmptyIndex\<close>: the loop carries the metadata it marks, the current group
  and the first group and slot found empty so far.
\<close>

function probeEmptyIndex_loop ::
  "uint8 \<Rightarrow> nat \<Rightarrow> GroupBucket list \<Rightarrow> uint64 \<Rightarrow> int \<Rightarrow> int \<Rightarrow> GroupBucket list \<times> int \<times> int" where
  "probeEmptyIndex_loop h8 iteration metadata curr_group empty_group empty_bucket =
     (if iteration < length metadata then
        let g = metadata ! unat curr_group;
            tentative = getEmptyBucket g;
            (empty_group, empty_bucket) =
              (if tentative \<noteq> InvalidSlot \<and> empty_group = NO_MATCH
               then (int (unat curr_group), tentative) else (empty_group, empty_bucket))
        in if \<not> getMaybeOverflowed g h8 \<and> empty_group \<noteq> NO_MATCH
           then (metadata, empty_group, empty_bucket)
           else probeEmptyIndex_loop h8 (Suc iteration)
                  (if empty_group = NO_MATCH
                   then metadata[unat curr_group := setOverflow g h8] else metadata)
                  (next_group curr_group iteration (length metadata)) empty_group empty_bucket
      else (metadata, empty_group, empty_bucket))"
  by pat_completeness auto
termination
  by (relation "measure (\<lambda>(h8, it, md, cg, eg, eb). length md - it)") (auto split: if_splits)

declare probeEmptyIndex_loop.simps [simp del]

text \<open>
  \<^verbatim>\<open>empty_group\<close>, its product with \<^verbatim>\<open>GroupBucket::Size\<close> and the buckets of \<^verbatim>\<open>nextValidIndex\<close> below have type \<^verbatim>\<open>int\<close> in
  the code; here they are mathematical integers. The two agree for at most \<open>2 ^ 27\<close> groups, since then
  no product exceeds \<open>15 * 2 ^ 27 < 2 ^ 31\<close>; the map's invariant carries that bound.
\<close>

definition probeEmptyIndex :: "nat \<Rightarrow> GroupBucket list \<Rightarrow> uint64 \<Rightarrow> GroupBucket list \<times> int" where
  "probeEmptyIndex ngroups_pow_2 metadata hash =
     (let (metadata', empty_group, empty_bucket) =
            probeEmptyIndex_loop (hash_8 hash) 0 metadata (first_group ngroups_pow_2 hash)
              NO_MATCH NO_MATCH
      in (metadata', if empty_group \<noteq> NO_MATCH then empty_group * GroupSize + empty_bucket
                     else NO_MATCH))"

text \<open>
  \<^verbatim>\<open>probeIndex\<close>: \<^verbatim>\<open>on_hash_found\<close> returns whether to keep going, and the
  last visited slot of a group decides.
\<close>

function probeIndex_loop ::
  "GroupBucket list \<Rightarrow> uint8 \<Rightarrow> (int \<Rightarrow> 's \<Rightarrow> 's \<times> bool) \<Rightarrow> nat \<Rightarrow> uint64 \<Rightarrow> 's \<Rightarrow> 's" where
  "probeIndex_loop metadata h8 on_hash_found iteration curr_group s =
     (if iteration < length metadata then
        let g = metadata ! unat curr_group;
            (s, keep_going) =
              visitHashBucket g h8
                (\<lambda>i (s, _). on_hash_found (int (unat curr_group) * GroupSize + i) s) (s, True)
        in if \<not> getMaybeOverflowed g h8 \<or> \<not> keep_going then s
           else probeIndex_loop metadata h8 on_hash_found (Suc iteration)
                  (next_group curr_group iteration (length metadata)) s
      else s)"
  by pat_completeness auto
termination
  by (relation "measure (\<lambda>(md, h8, f, it, cg, s). length md - it)") auto

declare probeIndex_loop.simps [simp del]

definition probeIndex ::
  "nat \<Rightarrow> GroupBucket list \<Rightarrow> uint64 \<Rightarrow> (int \<Rightarrow> 's \<Rightarrow> 's \<times> bool) \<Rightarrow> 's \<Rightarrow> 's" where
  "probeIndex ngroups_pow_2 metadata hash on_hash_found s =
     probeIndex_loop metadata (hash_8 hash) on_hash_found 0 (first_group ngroups_pow_2 hash) s"

definition setBucketHash :: "GroupBucket list \<Rightarrow> int \<Rightarrow> uint64 \<Rightarrow> GroupBucket list" where
  "setBucketHash metadata bucket hash =
     (let group_index = nat (bucket div GroupSize); slot_index = bucket mod GroupSize
      in metadata[group_index := setBucket (metadata ! group_index) slot_index (ucast hash)])"

definition clearBucket :: "GroupBucket list \<Rightarrow> int \<Rightarrow> uint64 \<Rightarrow> GroupBucket list \<times> bool" where
  "clearBucket metadata bucket hash =
     (let group_index = nat (bucket div GroupSize); slot_index = bucket mod GroupSize;
          g = clearSlot (metadata ! group_index) slot_index
      in (metadata[group_index := g], getMaybeOverflowed g (ucast hash)))"

text \<open>
  \<^verbatim>\<open>nextValidIndex\<close>: the \<^verbatim>\<open>do ... while\<close> loop over groups. C++ division
  truncates (\<open>sdiv\<close>, \<open>smod\<close>), so \<open>last_bucket = -1\<close> starts at group \<open>0\<close>, slot \<open>-1\<close>.
\<close>

function nextValidIndex_loop :: "GroupBucket list \<Rightarrow> nat \<Rightarrow> int \<Rightarrow> int" where
  "nextValidIndex_loop metadata group_index slot_index =
     (let slot = nextFilledBucket (metadata ! group_index) slot_index
      in if slot = InvalidSlot then
           (if Suc group_index < length metadata
            then nextValidIndex_loop metadata (Suc group_index) (- 1)
            else int (Suc group_index) * GroupSize + (- 1))
         else int group_index * GroupSize + slot)"
  by pat_completeness auto
termination
  by (relation "measure (\<lambda>(md, g, s). length md - g)") auto

declare nextValidIndex_loop.simps [simp del]

definition nextValidIndex :: "GroupBucket list \<Rightarrow> int \<Rightarrow> int" where
  "nextValidIndex metadata last_bucket =
     (if last_bucket \<ge> int (length metadata) * GroupSize - 1 then last_bucket
      else nextValidIndex_loop metadata (nat (last_bucket sdiv GroupSize))
             (last_bucket smod GroupSize))"

section \<open>Quadratic probing visits every group\<close>

text \<open>The group probed at each iteration, and the same as an index into the metadata.\<close>

primrec probe :: "nat \<Rightarrow> uint64 \<Rightarrow> nat \<Rightarrow> uint64" where
  "probe k hash 0 = first_group k hash"
| "probe k hash (Suc i) = next_group (probe k hash i) i (2 ^ k)"

definition probed :: "nat \<Rightarrow> uint64 \<Rightarrow> nat \<Rightarrow> nat" where
  "probed k hash i = unat (probe k hash i)"

lemma first_group_eq: "first_group k hash = take_bit k (drop_bit (64 - k) hash)"
  by (simp add: first_group_def take_bit_eq_mask mask_eq_exp_minus_1)

lemma first_group_less:
  assumes "k \<le> 31"
  shows "unat (first_group k hash) < 2 ^ k"
proof -
  have "unat (first_group k hash) = take_bit k (unat (drop_bit (64 - k) hash))"
    by (simp add: first_group_eq unsigned_take_bit_eq)
  then show ?thesis by simp
qed

lemma unat_next_group:
  assumes "k \<le> 31" and "unat cg < 2 ^ k" and "i < 2 ^ k"
  shows "unat (next_group cg i (2 ^ k)) = (unat cg + Suc i) mod 2 ^ k"
proof -
  have k: "(2 :: nat) ^ k \<le> 2 ^ 31" using assms(1) by (intro power_increasing) auto
  have "unat (of_nat (Suc i) :: uint64) = Suc i"
    using assms(3) k by (intro unat_of_nat_small) simp
  moreover have "unat (of_nat (2 ^ k) :: uint64) = 2 ^ k"
    using k by (intro unat_of_nat_small) simp
  moreover have "unat (cg + of_nat (Suc i)) = unat cg + unat (of_nat (Suc i) :: uint64)"
    using assms k \<open>unat (of_nat (Suc i) :: uint64) = Suc i\<close> by (intro unat_add_lem [THEN iffD1]) simp
  ultimately show ?thesis
    unfolding next_group_def getNext_def Suc_eq_plus1 [symmetric] by (simp add: unat_mod)
qed

lemma probed_step:
  assumes "k \<le> 31" and "i < 2 ^ k" and "probed k hash i < 2 ^ k"
  shows "probed k hash (Suc i) = (probed k hash i + Suc i) mod 2 ^ k"
  using assms by (simp add: probed_def unat_next_group)

lemma probed_triangular:
  assumes "k \<le> 31" and "i \<le> 2 ^ k"
  shows "probed k hash i = (unat (first_group k hash) + (\<Sum>j\<le>i. j)) mod 2 ^ k"
  using assms(2)
proof (induction i)
  case 0
  then show ?case using assms(1) by (simp add: probed_def first_group_less)
next
  case (Suc i)
  then have IH: "probed k hash i = (unat (first_group k hash) + (\<Sum>j\<le>i. j)) mod 2 ^ k" by simp
  then have "probed k hash (Suc i) = (probed k hash i + Suc i) mod 2 ^ k"
    using Suc.prems assms(1) by (intro probed_step) auto
  also have "\<dots> = (unat (first_group k hash) + (\<Sum>j\<le>Suc i. j)) mod 2 ^ k"
    unfolding IH mod_add_left_eq by (simp add: algebra_simps)
  finally show ?case .
qed

lemma probed_less: "k \<le> 31 \<Longrightarrow> i \<le> 2 ^ k \<Longrightarrow> probed k hash i < 2 ^ k"
  by (simp add: probed_triangular)

text \<open>Two different triangular numbers below \<open>2 ^ k\<close> differ modulo \<open>2 ^ k\<close>.\<close>

lemma triangular_distinct:
  assumes "i < j" and "j < 2 ^ k"
  shows "(h + (\<Sum>l\<le>i. l)) mod 2 ^ k \<noteq> (h + (\<Sum>l\<le>j. l)) mod (2 :: nat) ^ k"
proof
  assume eq: "(h + (\<Sum>l\<le>i. l)) mod 2 ^ k = (h + (\<Sum>l\<le>j. l)) mod (2 :: nat) ^ k"
  have T: "2 * (\<Sum>l\<le>n. l) = n * Suc n" for n :: nat
    by (induction n) auto
  have mono: "(\<Sum>l\<le>i. l) \<le> (\<Sum>l\<le>j. l)"
    using assms(1) by (intro sum_mono2) auto
  define d where "d = (\<Sum>l\<le>j. l) - (\<Sum>l\<le>i. l)"
  have "2 ^ k dvd d"
    using eq mono mod_eq_dvd_iff_nat [of "h + (\<Sum>l\<le>i. l)" "h + (\<Sum>l\<le>j. l)" "2 ^ k"]
    unfolding d_def by auto
  moreover have "2 * d = (j - i) * (j + i + 1)"
  proof -
    have "2 * d = j * Suc j - i * Suc i"
      unfolding d_def by (simp only: diff_mult_distrib2 T)
    also have "\<dots> = (j - i) * (j + i + 1)"
      using assms(1) by (auto simp: algebra_simps less_iff_Suc_add)
    finally show ?thesis .
  qed
  ultimately have dvd: "2 ^ Suc k dvd (j - i) * (j + i + 1)"
    by (metis mult_dvd_mono dvd_refl power_Suc)
  have odd_dvd: "2 ^ Suc k dvd a" if "2 ^ Suc k dvd a * b" "odd b" for a b :: nat
    using that coprime_dvd_mult_left_iff [of "2 ^ Suc k" b a] by simp
  have "odd (j - i) \<or> odd (j + i + 1)" using assms(1) by presburger
  then show False
  proof
    assume "odd (j - i)"
    with odd_dvd [of "j + i + 1" "j - i"] dvd have "2 ^ Suc k dvd j + i + 1"
      by (simp add: mult.commute)
    with assms show False by (auto dest: dvd_imp_le)
  next
    assume "odd (j + i + 1)"
    with odd_dvd dvd have "2 ^ Suc k dvd j - i" by blast
    with assms show False by (auto dest: dvd_imp_le)
  qed
qed

lemma inj_on_probed: "k \<le> 31 \<Longrightarrow> inj_on (probed k hash) {..<2 ^ k}"
  by (rule linorder_inj_onI) (auto simp: probed_triangular dest: triangular_distinct)

lemma probed_surj: "k \<le> 31 \<Longrightarrow> probed k hash ` {..<2 ^ k} = {..<2 ^ k}"
  by (rule card_subset_eq) (auto simp: probed_less card_image inj_on_probed)

lemma probed_hits:
  assumes "k \<le> 31" and "g < 2 ^ k"
  obtains n where "n < 2 ^ k" and "probed k hash n = g"
  using probed_surj [OF assms(1), of hash] assms(2) by (metis imageE lessThan_iff)

section \<open>Group metadata\<close>

lemma reduceHash_ge_2: "reduceHash h \<ge> 2"
  by (auto simp: reduceHash_def word_less_nat_alt word_le_nat_alt unat_word_ariths)

lemma reduceHash_neq [simp]: "reduceHash h \<noteq> 0" "reduceHash h \<noteq> 1"
  using reduceHash_ge_2 [of h] by (auto simp: word_le_nat_alt)

lemma bit_hashOfwBit: "bit (hashOfwBit h) n \<longleftrightarrow> n = unat h mod 8"
  by (auto simp: hashOfwBit_def bit_exp_iff)

lemma getMaybeOverflowed_bit: "getMaybeOverflowed g h \<longleftrightarrow> bit (ofw g) (unat h mod 8)"
proof -
  have "ofw g AND hashOfwBit h = (if bit (ofw g) (unat h mod 8) then hashOfwBit h else 0)"
    by (rule bit_word_eqI) (auto simp: bit_and_iff bit_hashOfwBit)
  moreover have "hashOfwBit h \<noteq> 0"
    using bit_hashOfwBit [of h "unat h mod 8"] by auto
  ultimately show ?thesis by (simp add: getMaybeOverflowed_def)
qed

lemma overflow_setOverflow [simp]:
  "getMaybeOverflowed (setOverflow g h) h' \<longleftrightarrow>
     getMaybeOverflowed g h' \<or> unat h mod 8 = unat h' mod 8"
  by (auto simp: getMaybeOverflowed_bit setOverflow_def bit_or_iff bit_hashOfwBit)

lemma slots_setOverflow [simp]: "slots (setOverflow g h) = slots g"
  by (simp add: setOverflow_def)

lemma getEmptyBucket_slots_cong: "slots g = slots g' \<Longrightarrow> getEmptyBucket g = getEmptyBucket g'"
  by (simp add: getEmptyBucket_def)

lemma getEmptyBucket_found:
  assumes "getEmptyBucket g \<noteq> InvalidSlot"
  shows "0 \<le> getEmptyBucket g" and "getEmptyBucket g < 15"
    and "slots g ! nat (getEmptyBucket g) = EmptySlot"
  using assms for_find_cases [of "\<lambda>i. slots g ! nat i = 0" 0 15 "- 1"]
  by (auto simp: getEmptyBucket_def)

lemma getEmptyBucket_full:
  "getEmptyBucket g = InvalidSlot \<longleftrightarrow> (\<forall>i<15. slots g ! i \<noteq> EmptySlot)"
proof
  assume "getEmptyBucket g = InvalidSlot"
  then have "slots g ! nat i \<noteq> 0" if "0 \<le> i" "i < 15" for i
    using that for_find_None [of "\<lambda>i. slots g ! nat i = 0" 0 15 "- 1"]
    by (auto simp: getEmptyBucket_def)
  from this [of "int _"] show "\<forall>i<15. slots g ! i \<noteq> EmptySlot" by auto
next
  assume "\<forall>i<15. slots g ! i \<noteq> EmptySlot"
  then show "getEmptyBucket g = InvalidSlot"
    using getEmptyBucket_found [of g] by (metis nat_less_iff of_nat_numeral)
qed

section \<open>Finding an empty slot\<close>

definition mark_groups :: "uint8 \<Rightarrow> nat list \<Rightarrow> GroupBucket list \<Rightarrow> GroupBucket list" where
  "mark_groups h8 gs md = fold (\<lambda>g md. md[g := setOverflow (md ! g) h8]) gs md"

lemma mark_groups_simps [simp]:
  "mark_groups h8 [] md = md"
  "mark_groups h8 (g # gs) md = mark_groups h8 gs (md[g := setOverflow (md ! g) h8])"
  by (simp_all add: mark_groups_def)

lemma length_mark_groups [simp]: "length (mark_groups h8 gs md) = length md"
  by (induction gs arbitrary: md) auto

lemma slots_mark_groups [simp]:
  "i < length md \<Longrightarrow> slots (mark_groups h8 gs md ! i) = slots (md ! i)"
  by (induction gs arbitrary: md) (auto simp: nth_list_update_in)

lemma length_slots_mark_groups:
  "\<forall>g\<in>set md. length (slots g) = n \<Longrightarrow> \<forall>g\<in>set (mark_groups h8 gs md). length (slots g) = n"
  by (metis in_set_conv_nth length_mark_groups slots_mark_groups)

lemma overflow_mark_groups_mono:
  "i < length md \<Longrightarrow> getMaybeOverflowed (md ! i) h \<Longrightarrow> getMaybeOverflowed (mark_groups h8 gs md ! i) h"
  by (induction gs arbitrary: md) (auto simp: nth_list_update_in)

lemma overflow_mark_groups:
  "i < length md \<Longrightarrow> i \<in> set gs \<Longrightarrow> getMaybeOverflowed (mark_groups h8 gs md ! i) h8"
  by (induction gs arbitrary: md) (auto intro: overflow_mark_groups_mono)

lemma probeEmptyIndex_loop_done:
  "eg \<noteq> NO_MATCH \<Longrightarrow> probeEmptyIndex_loop h8 i md cg eg eb = (md, eg, eb)"
proof (induction h8 i md cg eg eb rule: probeEmptyIndex_loop.induct)
  case (1 h8 i md cg eg eb)
  then show ?case
    by (simp add: probeEmptyIndex_loop.simps [of h8 i md cg eg eb] Let_def)
qed

text \<open>
  From iteration \<open>i\<close> with nothing found yet, the loop marks every full group as overflowed
  until the first group \<open>probed n\<close> with an empty slot, and returns that slot.
\<close>

lemma probeEmptyIndex_loop_finds:
  assumes "k \<le> 31" and "length md = 2 ^ k" and "i \<le> n" and "n < 2 ^ k"
    and "\<And>j. i \<le> j \<Longrightarrow> j < n \<Longrightarrow> getEmptyBucket (md ! probed k hash j) = InvalidSlot"
    and "getEmptyBucket (md ! probed k hash n) \<noteq> InvalidSlot"
  shows "probeEmptyIndex_loop h8 i md (probe k hash i) NO_MATCH eb =
           (mark_groups h8 (map (probed k hash) [i..<n]) md,
            int (probed k hash n), getEmptyBucket (md ! probed k hash n))"
  using assms(2-6)
proof (induction "n - i" arbitrary: i md)
  case 0
  then have "i = n" by simp
  have "uint (probe k hash n) \<noteq> - 1" using uint_ge_0 [of "probe k hash n"] by linarith
  with 0 \<open>i = n\<close> show ?case
    by (simp add: probeEmptyIndex_loop.simps [of h8 n md] probed_def Let_def
        probeEmptyIndex_loop_done)
next
  case (Suc m)
  then have "i < n" and lt: "i < length md" by auto
  let ?md = "md[probed k hash i := setOverflow (md ! probed k hash i) h8]"
  have full: "getEmptyBucket (md ! probed k hash i) = InvalidSlot"
    using Suc.prems(4) \<open>i < n\<close> by simp
  have same: "getEmptyBucket (?md ! probed k hash j) = getEmptyBucket (md ! probed k hash j)" for j
    by (cases "probed k hash i < length md")
      (auto simp: nth_list_update list_update_beyond intro!: getEmptyBucket_slots_cong)
  have "probeEmptyIndex_loop h8 i md (probe k hash i) NO_MATCH eb =
          probeEmptyIndex_loop h8 (Suc i) ?md (probe k hash (Suc i)) NO_MATCH eb"
    using lt full Suc.prems(1)
    by (simp add: probeEmptyIndex_loop.simps [of h8 i md] probed_def [symmetric] Let_def)
  also have "\<dots> = (mark_groups h8 (map (probed k hash) [Suc i..<n]) ?md,
       int (probed k hash n), getEmptyBucket (?md ! probed k hash n))"
    using Suc.hyps Suc.prems same by (intro Suc.hyps) auto
  finally show ?case using \<open>i < n\<close> same by (simp add: upt_conv_Cons)
qed

lemma probeEmptyIndex_finds:
  assumes "k \<le> 31" and "length md = 2 ^ k"
    and "g < 2 ^ k" and "getEmptyBucket (md ! g) \<noteq> InvalidSlot"
  obtains n where "n < 2 ^ k"
    and "\<And>j. j < n \<Longrightarrow> getEmptyBucket (md ! probed k hash j) = InvalidSlot"
    and "getEmptyBucket (md ! probed k hash n) \<noteq> InvalidSlot"
    and "probeEmptyIndex k md hash =
           (mark_groups (hash_8 hash) (map (probed k hash) [0..<n]) md,
            int (probed k hash n) * 15 + getEmptyBucket (md ! probed k hash n))"
proof -
  obtain m where m: "m < 2 ^ k" "probed k hash m = g"
    using probed_hits [OF assms(1,3)] by blast
  define n where "n = (LEAST n. getEmptyBucket (md ! probed k hash n) \<noteq> InvalidSlot)"
  have n: "getEmptyBucket (md ! probed k hash n) \<noteq> InvalidSlot"
    unfolding n_def by (rule LeastI [of _ m]) (use m assms(4) in simp)
  have full: "getEmptyBucket (md ! probed k hash j) = InvalidSlot" if "j < n" for j
    using that not_less_Least unfolding n_def by blast
  have "n \<le> m" unfolding n_def by (rule Least_le) (use m assms(4) in simp)
  with m have lt: "n < 2 ^ k" by simp
  have "probeEmptyIndex k md hash =
           (mark_groups (hash_8 hash) (map (probed k hash) [0..<n]) md,
            int (probed k hash n) * 15 + getEmptyBucket (md ! probed k hash n))"
    using probeEmptyIndex_loop_finds [of k md 0 n hash "hash_8 hash" "- 1"] assms lt n full
    by (simp add: probeEmptyIndex_def)
  with that lt n full show thesis by blast
qed

section \<open>Iterating over the filled slots\<close>

text \<open>The metadata bytes as one array over all bucket indices.\<close>

definition slot_at :: "GroupBucket list \<Rightarrow> int \<Rightarrow> uint8" where
  "slot_at md i = slots (md ! nat (i div 15)) ! nat (i mod 15)"

lemma slot_at_group: "0 \<le> i \<Longrightarrow> i < 15 \<Longrightarrow> slot_at md (int g * 15 + i) = slots (md ! g) ! nat i"
  by (simp add: slot_at_def)

lemma nextValidIndex_loop_eq:
  assumes "g < length md" and "- 1 \<le> s" and "s < 15"
  shows "nextValidIndex_loop md g s =
           for_find (\<lambda>j. slot_at md j \<noteq> 0) (int g * 15 + s + 1) (int (length md) * 15)
             (int (length md) * 15 - 1)"
  using assms
proof (induction md g s rule: nextValidIndex_loop.induct)
  case (1 md g s)
  let ?P = "\<lambda>j. slot_at md j \<noteq> 0" and ?d = "int (length md) * 15 - 1"
  have shift: "for_find ?P (int g * 15 + s + 1) (int g * 15 + 15) (int g * 15 - 1) =
      int g * 15 + nextFilledBucket (md ! g) s"
  proof -
    have "for_find ?P (s + 1 + int g * 15) (15 + int g * 15) (- 1 + int g * 15) =
        for_find (\<lambda>i. ?P (i + int g * 15)) (s + 1) 15 (- 1) + int g * 15"
      by (rule for_find_shift)
    also have "for_find (\<lambda>i. ?P (i + int g * 15)) (s + 1) 15 (- 1) = nextFilledBucket (md ! g) s"
      unfolding nextFilledBucket_def
      using "1.prems" slot_at_group [of _ md g] by (intro for_find_cong) (simp add: add.commute)
    finally show ?thesis by (simp add: algebra_simps)
  qed
  have range: "nextFilledBucket (md ! g) s = - 1 \<or> 0 \<le> nextFilledBucket (md ! g) s"
    using for_find_range [of _ "s + 1" 15 "- 1"] "1.prems" unfolding nextFilledBucket_def
    by (smt (verit))
  have split: "for_find ?P (int g * 15 + s + 1) (int (length md) * 15) ?d =
     (if nextFilledBucket (md ! g) s = - 1
      then for_find ?P (int g * 15 + 15) (int (length md) * 15) ?d
      else int g * 15 + nextFilledBucket (md ! g) s)"
    using "1.prems" shift range
    by (subst for_find_split [where mid = "int g * 15 + 15" and d' = "int g * 15 - 1"]) auto
  show ?case
  proof (cases "nextFilledBucket (md ! g) s = - 1")
    case False
    then show ?thesis by (simp add: nextValidIndex_loop.simps [of md g s] split)
  next
    case True
    show ?thesis
    proof (cases "Suc g < length md")
      case less: True
      with True "1.IH" show ?thesis
        unfolding split by (simp add: nextValidIndex_loop.simps [of md g s] add.commute)
    next
      case False
      with "1.prems" have "length md = Suc g" by simp
      with True show ?thesis
        unfolding split by (simp add: nextValidIndex_loop.simps [of md g s] for_find_step)
    qed
  qed
qed

lemma nextValidIndex_eq:
  assumes "md \<noteq> []" and "- 1 \<le> i" and "i < int (length md) * 15 - 1"
  shows "nextValidIndex md i =
           for_find (\<lambda>j. slot_at md j \<noteq> 0) (i + 1) (int (length md) * 15)
             (int (length md) * 15 - 1)"
proof (cases "i = - 1")
  case True
  then show ?thesis
    using assms nextValidIndex_loop_eq [of 0 md "- 1"] 
    by (simp add: nextValidIndex_def signed_divide_int_def signed_modulo_int_def)
next
  case False
  then have "i sdiv 15 = i div 15" and "i smod 15 = i mod 15"
    using assms(2) by (auto simp: signed_divide_int_def signed_modulo_int_def sgn_if)
  moreover have "nat (i div 15) < length md" and "0 \<le> i div 15" and "0 \<le> i mod 15"
    using assms False by linarith+
  ultimately show ?thesis
    using assms False nextValidIndex_loop_eq [of "nat (i div 15)" md "i mod 15"]
    by (simp add: nextValidIndex_def algebra_simps)
qed

section \<open>Looking a hash up\<close>

text \<open>
  The callback of \<^verbatim>\<open>FlatMap::find\<close>: remember a bucket that satisfies \<open>P\<close> and
  ask to stop there.
\<close>

definition track :: "(int \<Rightarrow> bool) \<Rightarrow> int \<Rightarrow> int \<Rightarrow> int \<times> bool" where
  "track P x s = (if P x then (x, False) else (s, True))"

text \<open>Visiting one group, when at most the bucket \<open>idx\<close> satisfies \<open>P\<close>.\<close>

lemma visit_track_fold:
  assumes "\<And>i. i \<in> set is \<Longrightarrow> slots g ! i = reduceHash h8 \<Longrightarrow> P (b + int i) \<Longrightarrow> b + int i = idx"
  shows "fst (fold (\<lambda>i s. if slots g ! i = reduceHash h8
               then (case s of (s, _) \<Rightarrow> track P (b + int i) s) else s) is (s, True)) =
         (if \<exists>i\<in>set is. slots g ! i = reduceHash h8 \<and> P (b + int i) then idx else s) \<and>
         (\<not> (\<exists>i\<in>set is. slots g ! i = reduceHash h8 \<and> P (b + int i)) \<longrightarrow>
         snd (fold (\<lambda>i s. if slots g ! i = reduceHash h8
               then (case s of (s, _) \<Rightarrow> track P (b + int i) s) else s) is (s, True)))"
  using assms
proof (induction "is" rule: rev_induct)
  case Nil
  then show ?case by simp
next
  case (snoc x xs)
  then show ?case by (auto simp: track_def split: prod.splits)
qed

definition group_match :: "GroupBucket list \<Rightarrow> uint8 \<Rightarrow> (int \<Rightarrow> bool) \<Rightarrow> nat \<Rightarrow> bool" where
  "group_match md h8 P g \<longleftrightarrow> (\<exists>i<15. slots (md ! g) ! i = reduceHash h8 \<and> P (int g * 15 + int i))"

lemma visit_track:
  assumes "\<And>i. i < 15 \<Longrightarrow> slots (md ! g) ! i = reduceHash h8 \<Longrightarrow> P (int g * 15 + int i) \<Longrightarrow>
             int g * 15 + int i = idx"
    and "visitHashBucket (md ! g) h8 (\<lambda>i (s, _). track P (int g * 15 + i) s) (s, True) = (s', kg)"
  shows "s' = (if group_match md h8 P g then idx else s)"
    and "\<not> group_match md h8 P g \<Longrightarrow> kg"
  using visit_track_fold [of "[0..<15]" "md ! g" h8 P "int g * 15" idx s] assms
  by (auto simp: visitHashBucket_def group_match_def)

definition uniq_match :: "GroupBucket list \<Rightarrow> uint8 \<Rightarrow> (int \<Rightarrow> bool) \<Rightarrow> int \<Rightarrow> bool" where
  "uniq_match md h8 P idx \<longleftrightarrow>
     (\<forall>g<length md. \<forall>i<15. slots (md ! g) ! i = reduceHash h8 \<longrightarrow> P (int g * 15 + int i) \<longrightarrow>
        int g * 15 + int i = idx)"

lemma probeIndex_loop_track:
  assumes "k \<le> 31" and "length md = 2 ^ k" and "uniq_match md h8 P idx" and "i \<le> 2 ^ k"
  shows "probeIndex_loop md h8 (track P) i (probe k hash i) s =
          (if \<exists>n. i \<le> n \<and> n < 2 ^ k \<and> group_match md h8 P (probed k hash n) \<and>
                 (\<forall>j. i \<le> j \<and> j < n \<longrightarrow> getMaybeOverflowed (md ! probed k hash j) h8)
           then idx else s)"
  using assms(4)
proof (induction "2 ^ k - i" arbitrary: i s)
  case 0
  then have "i = 2 ^ k" by simp
  then show ?case by (auto simp: probeIndex_loop.simps [of md] assms(2))
next
  case (Suc m)
  let ?g = "probed k hash i" and ?ov = "\<lambda>j. getMaybeOverflowed (md ! probed k hash j) h8"
  let ?ex = "\<lambda>i. \<exists>n. i \<le> n \<and> n < 2 ^ k \<and> group_match md h8 P (probed k hash n) \<and>
                 (\<forall>j. i \<le> j \<and> j < n \<longrightarrow> ?ov j)"
  from Suc.hyps have lt: "i < 2 ^ k" by simp
  then have g: "?g < length md" using assms(1,2) probed_less [of k i hash] by simp
  obtain s' kg where v: "visitHashBucket (md ! ?g) h8 (\<lambda>i (s, _). track P (int ?g * 15 + i) s)
      (s, True) = (s', kg)" by fastforce
  have s': "s' = (if group_match md h8 P ?g then idx else s)"
    and kg: "\<not> group_match md h8 P ?g \<Longrightarrow> kg"
    using visit_track [OF _ v, of idx] assms(3) g unfolding uniq_match_def by blast+
  have IH: "probeIndex_loop md h8 (track P) (Suc i) (probe k hash (Suc i)) s' =
      (if ?ex (Suc i) then idx else s')"
    using Suc.hyps lt by (intro Suc.hyps) auto
  have unfold: "probeIndex_loop md h8 (track P) i (probe k hash i) s =
      (if \<not> ?ov i \<or> \<not> kg then s' else if ?ex (Suc i) then idx else s')"
    unfolding IH [symmetric] using lt v
    by (simp add: probeIndex_loop.simps [of md _ _ i] assms(2) probed_def Let_def)
  have ex_step: "?ex i \<longleftrightarrow> group_match md h8 P ?g \<or> ?ov i \<and> ?ex (Suc i)"
  proof
    assume "?ex i"
    then obtain n where n: "i \<le> n" "n < 2 ^ k" "group_match md h8 P (probed k hash n)"
      "\<forall>j. i \<le> j \<and> j < n \<longrightarrow> ?ov j" by blast
    then show "group_match md h8 P ?g \<or> ?ov i \<and> ?ex (Suc i)"
      by (cases "i = n") (auto intro!: exI [of _ n])
  next
    assume "group_match md h8 P ?g \<or> ?ov i \<and> ?ex (Suc i)"
    then show "?ex i"
      using lt by (metis le_refl Suc_leD not_less_eq_eq le_antisym le_less_Suc_eq not_less)
  qed
  show ?case
    unfolding unfold ex_step using s' kg by auto
qed

lemma probeIndex_track:
  assumes "k \<le> 31" and "length md = 2 ^ k" and "uniq_match md (hash_8 hash) P idx"
  shows "probeIndex k md hash (track P) s =
          (if \<exists>n<2 ^ k. group_match md (hash_8 hash) P (probed k hash n) \<and>
                 (\<forall>j<n. getMaybeOverflowed (md ! probed k hash j) (hash_8 hash))
           then idx else s)"
  using probeIndex_loop_track [OF assms, of 0 hash s] by (simp add: probeIndex_def)

section \<open>What the table guarantees\<close>

text \<open>
  C18. The probe sequence of any hash over \<open>2 ^ k\<close> groups is a permutation: within \<open>2 ^ k\<close>
  iterations of the 64-bit arithmetic of \<^verbatim>\<open>QuadraticProbing\<close> every group is visited
  exactly once, so a probe loop bounded by the number of groups misses no group.
\<close>

theorem quadratic_probing_permutes_groups:
  assumes "k \<le> 31"
  shows "bij_betw (\<lambda>i. unat (probe k hash i)) {..<2 ^ k} {..<2 ^ k}"
  using inj_on_probed [OF assms, of hash] probed_surj [OF assms, of hash]
  by (simp add: bij_betw_def probed_def [abs_def])

theorem quadratic_probing_permutes_groups_witness:
  "(3 :: nat) \<le> 31 \<and> bij_betw (\<lambda>i. unat (probe 3 0xDEADBEEF00000000 i)) {..<8} {..<8}"
  using quadratic_probing_permutes_groups [of 3 "0xDEADBEEF00000000"] by simp

text \<open>
  \<^verbatim>\<open>probeEmptyIndex\<close> on a table with at least one empty slot returns the index of
  an empty slot, and sets the overflow bit of the hash in every group it passed over; no slot
  is changed.
\<close>

theorem probe_empty_index_correct:
  assumes "k \<le> 31" and "length md = 2 ^ k" and "g < 2 ^ k" and "getEmptyBucket (md ! g) \<noteq> InvalidSlot"
  shows "\<exists>n<2 ^ k. \<exists>md'. probeEmptyIndex k md hash =
             (md', int (probed k hash n) * 15 + getEmptyBucket (md ! probed k hash n)) \<and>
           getEmptyBucket (md ! probed k hash n) \<noteq> InvalidSlot \<and>
           (\<forall>j<n. getEmptyBucket (md ! probed k hash j) = InvalidSlot) \<and>
           (\<forall>i<2 ^ k. slots (md' ! i) = slots (md ! i)) \<and>
           (\<forall>j<n. getMaybeOverflowed (md' ! probed k hash j) (hash_8 hash))"
proof -
  obtain n where n: "n < 2 ^ k"
    and full: "\<And>j. j < n \<Longrightarrow> getEmptyBucket (md ! probed k hash j) = InvalidSlot"
    and room: "getEmptyBucket (md ! probed k hash n) \<noteq> InvalidSlot"
    and res: "probeEmptyIndex k md hash =
           (mark_groups (hash_8 hash) (map (probed k hash) [0..<n]) md,
            int (probed k hash n) * 15 + getEmptyBucket (md ! probed k hash n))"
    using probeEmptyIndex_finds [OF assms, of hash] by metis
  let ?md = "mark_groups (hash_8 hash) (map (probed k hash) [0..<n]) md"
  have "\<forall>j<n. getMaybeOverflowed (?md ! probed k hash j) (hash_8 hash)"
    using n assms(2) probed_less [OF assms(1)] by (auto intro!: overflow_mark_groups)
  with n full room res assms(2) show ?thesis by (intro exI [of _ n]) auto
qed

theorem probe_empty_index_correct_witness:
  "\<exists>n<2. snd (probeEmptyIndex 1 [GroupBucket_init, GroupBucket_init] 5) = int (probed 1 5 n) * 15"
proof -
  have e: "getEmptyBucket GroupBucket_init = 0" by code_simp
  have nth: "[GroupBucket_init, GroupBucket_init] ! probed 1 5 n = GroupBucket_init" if "n < 2" for n
    using probed_less [of 1 n 5] that by (cases "probed 1 5 n") auto
  show ?thesis
    using probe_empty_index_correct [of 1 "[GroupBucket_init, GroupBucket_init]" 0 5] e nth by fastforce
qed

end
