(* ===== verification/BitUtilities.thy ===== *)
theory BitUtilities
  imports Prelude
begin

text \<open>
  Bit utilities of \<^verbatim>\<open>core/utilities/BitUtilities.hpp\<close>: the portable branches of
  \<^verbatim>\<open>countr_zero\<close> (isolate the lowest set bit, then binary masks) and
  \<^verbatim>\<open>countl_zero\<close> (binary search by arithmetic right shifts of a signed 32-bit
  word). The other preprocessor branches call compiler or GPU intrinsics.
\<close>

section \<open>Definitions\<close>

text \<open>\<^verbatim>\<open>countr_zero(std::uint64_t)\<close>: \<^verbatim>\<open>cnt\<close> starts at 64 and each mask test lowers it.\<close>

definition countr_zero_masks :: "uint64 \<Rightarrow> int" where
  "countr_zero_masks word =
     64 - (if word \<noteq> 0 then 1 else 0)
        - (if word AND 0x00000000FFFFFFFF \<noteq> 0 then 32 else 0)
        - (if word AND 0x0000FFFF0000FFFF \<noteq> 0 then 16 else 0)
        - (if word AND 0x00FF00FF00FF00FF \<noteq> 0 then 8 else 0)
        - (if word AND 0x0F0F0F0F0F0F0F0F \<noteq> 0 then 4 else 0)
        - (if word AND 0x3333333333333333 \<noteq> 0 then 2 else 0)
        - (if word AND 0x5555555555555555 \<noteq> 0 then 1 else 0)"

definition countr_zero :: "uint64 \<Rightarrow> int" where
  "countr_zero word = countr_zero_masks (word AND (- word))"

text \<open>
  \<^verbatim>\<open>countl_zero(std::int32_t)\<close>: one line
  \<^verbatim>\<open>y = word >> s; if(y != 0) { n -= s; word = y; }\<close> is a step on the pair of
  the word and the counter; the shift of a signed value is arithmetic.
\<close>

definition countl_zero_step :: "nat \<Rightarrow> int32 \<times> int \<Rightarrow> int32 \<times> int" where
  "countl_zero_step s wn =
     (let y = signed_drop_bit s (fst wn) in if y \<noteq> 0 then (y, snd wn - int s) else wn)"

definition countl_zero :: "int32 \<Rightarrow> int" where
  "countl_zero word =
     (let (w, n) = countl_zero_step 2 (countl_zero_step 4 (countl_zero_step 8
                     (countl_zero_step 16 (word, 32))));
          y = signed_drop_bit 1 w
      in if y \<noteq> 0 then n - 2 else n - sint w)"

section \<open>Trailing zeros\<close>

text \<open>The number of trailing zeros, as the least position of a set bit.\<close>

definition lowest_bit :: "uint64 \<Rightarrow> nat \<Rightarrow> bool" where
  "lowest_bit w k \<longleftrightarrow> k < 64 \<and> bit w k \<and> (\<forall>j<k. \<not> bit w j)"

lemma lowest_bit_exists:
  assumes "w \<noteq> 0"
  obtains k where "lowest_bit w k"
proof -
  from assms obtain n where "bit w n" by (auto simp: bit_eq_iff)
  define k where "k = (LEAST n. bit w n)"
  have "bit w k" unfolding k_def using \<open>bit w n\<close> by (rule LeastI)
  moreover have "\<not> bit w j" if "j < k" for j
    using that not_less_Least unfolding k_def by blast
  moreover have "k < 64" using \<open>bit w k\<close> by (auto dest: bit_imp_le_length)
  ultimately show thesis using that by (auto simp: lowest_bit_def)
qed

lemma bit_1_plus_double:
  "m < 64 \<Longrightarrow> bit (1 + 2 * r :: uint64) m = (if m = 0 then True else bit r (m - 1))"
  by (auto simp: even_bit_succ_iff bit_double_iff)

lemma isolate_lowest_bit:
  assumes "lowest_bit w k"
  shows "w AND (- w) = 2 ^ k"
proof -
  define q where "q = drop_bit (Suc k) w"
  have w: "w = push_bit k (1 + 2 * q)"
  proof (rule bit_word_eqI)
    fix n assume n: "n < LENGTH(64)"
    have "Suc (k + (n - Suc k)) = n" if "k < n" using that by simp
    with n assms bit_1_plus_double [of "n - k" q] show "bit w n = bit (push_bit k (1 + 2 * q)) n"
      by (auto simp: lowest_bit_def bit_push_bit_iff q_def bit_drop_bit_eq not_less le_less)
  qed
  then have neg: "- w = push_bit k (1 + 2 * (NOT q))"
    by (simp add: not_eq_complement push_bit_eq_mult algebra_simps)
  have "bit (w AND (- w)) n = bit (2 ^ k :: uint64) n" if "n < 64" for n
  proof -
    show ?thesis unfolding neg
      using that bit_1_plus_double [of "n - k"]
      by (subst w) (auto simp: bit_and_iff bit_push_bit_iff bit_exp_iff bit_not_iff)
  qed
  then show ?thesis by (auto intro: bit_word_eqI)
qed

lemma and_power_eq_0_iff: "(2 ^ k AND m = (0 :: uint64)) \<longleftrightarrow> \<not> (k < 64 \<and> bit m k)"
proof -
  have "2 ^ k AND m = (if bit m k then 2 ^ k else 0)" for m :: uint64
    by (auto simp: bit_eq_iff [where a = "_ AND _"] bit_and_iff bit_exp_iff)
  moreover have "(2 :: uint64) ^ k = 0 \<longleftrightarrow> \<not> k < 64"
    by (simp add: exp_eq_zero_iff not_less)
  ultimately show ?thesis by auto
qed

text \<open>What the seven mask tests leave of the counter when only bit \<open>k\<close> is set.\<close>

definition masks_at :: "nat \<Rightarrow> int" where
  "masks_at k = 63
     - (if bit (0x00000000FFFFFFFF :: uint64) k then 32 else 0)
     - (if bit (0x0000FFFF0000FFFF :: uint64) k then 16 else 0)
     - (if bit (0x00FF00FF00FF00FF :: uint64) k then 8 else 0)
     - (if bit (0x0F0F0F0F0F0F0F0F :: uint64) k then 4 else 0)
     - (if bit (0x3333333333333333 :: uint64) k then 2 else 0)
     - (if bit (0x5555555555555555 :: uint64) k then 1 else 0)"

lemma masks_at_eq:
  assumes "k < 64"
  shows "masks_at k = int k"
proof -
  have "map masks_at [0..<64] = map int [0..<64]"
    by (simp add: upt_rec masks_at_def del: map_eq_conv)
  with assms show ?thesis by simp
qed

lemma countr_zero_masks_power:
  assumes "k < 64"
  shows "countr_zero_masks (2 ^ k) = int k"
proof -
  have "(2 :: uint64) ^ k \<noteq> 0"
    using assms by (simp add: exp_eq_zero_iff)
  then have "countr_zero_masks (2 ^ k) = masks_at k"
    using assms unfolding countr_zero_masks_def masks_at_def and_power_eq_0_iff by auto
  with assms show ?thesis by (simp add: masks_at_eq)
qed

lemma countr_zero_eq: "lowest_bit w k \<Longrightarrow> countr_zero w = int k"
  by (simp add: countr_zero_def isolate_lowest_bit countr_zero_masks_power lowest_bit_def)

lemma countr_zero_0: "countr_zero 0 = 64"
  by (simp add: countr_zero_def countr_zero_masks_def)

section \<open>Leading zeros\<close>

text \<open>The same search on the signed value, where the arithmetic shift is division.\<close>

lemma signed_drop_bit_eq_0_iff: "signed_drop_bit s (w :: int32) = 0 \<longleftrightarrow> sint w div 2 ^ s = 0"
  by (metis drop_bit_eq_div sint_0 sint_signed_drop_bit_eq signed_word_eqI)

lemma countl_zero_step_sint:
  assumes "countl_zero_step s (w, n) = (w', n')"
  shows "if sint w div 2 ^ s \<noteq> 0 then sint w' = sint w div 2 ^ s \<and> n' = n - int s
         else sint w' = sint w \<and> n' = n"
  using assms
  by (auto simp: countl_zero_step_def Let_def signed_drop_bit_eq_0_iff sint_signed_drop_bit_eq
      drop_bit_eq_div split: if_splits)

text \<open>
  The search keeps the word equal to the original value shifted right by the amount the
  counter has gone down, and halves the number of candidate bits at every step.
\<close>

definition shifted_by :: "int \<Rightarrow> nat \<Rightarrow> int32 \<times> int \<Rightarrow> bool" where
  "shifted_by x bits wn \<longleftrightarrow>
     (\<exists>a. snd wn = 32 - int a \<and> sint (fst wn) = x div 2 ^ a) \<and>
     0 < sint (fst wn) \<and> sint (fst wn) < 2 ^ bits"

lemma countl_zero_step_shifted:
  assumes "shifted_by x (s + s) (w, n)"
  shows "shifted_by x s (countl_zero_step s (w, n))"
proof -
  obtain w' n' where step: "countl_zero_step s (w, n) = (w', n')" by fastforce
  note sint_step = countl_zero_step_sint [OF step]
  from assms obtain a where a: "n = 32 - int a" "sint w = x div 2 ^ a"
    and pos: "0 < sint w" and bnd: "sint w < 2 ^ s * 2 ^ s"
    by (auto simp: shifted_by_def power_add)
  show ?thesis
  proof (cases "sint w div 2 ^ s = 0")
    case True
    then have "sint w < 2 ^ s" using pos by (simp add: zdiv_eq_0_iff)
    with True sint_step a pos show ?thesis unfolding step shifted_by_def by auto
  next
    case False
    have "x div 2 ^ a div 2 ^ s = x div 2 ^ (a + s)"
      by (simp add: power_add zdiv_zmult2_eq)
    moreover have "0 \<le> sint w div 2 ^ s" using pos by (simp add: pos_imp_zdiv_nonneg_iff)
    moreover have "sint w div 2 ^ s < 2 ^ s"
      using bnd by (simp add: zdiv_less_iff)
    ultimately show ?thesis
      using False sint_step a unfolding step shifted_by_def by force
  qed
qed

lemma shifted_by_halve: "shifted_by x (s + s) wn \<Longrightarrow> shifted_by x s (countl_zero_step s wn)"
  by (cases wn) (simp add: countl_zero_step_shifted)

text \<open>A positive word: the result locates the most significant set bit.\<close>

lemma countl_zero_positive:
  assumes "0 < sint w"
  shows "\<exists>p. countl_zero w = 31 - int p \<and> 2 ^ p \<le> sint w \<and> sint w < 2 ^ Suc p"
proof -
  let ?x = "sint w"
  have "?x < 2 ^ 32" using sint_lt [of w] by simp
  with assms have "shifted_by ?x (16 + 16) (w, 32)"
    by (auto simp: shifted_by_def intro: exI [of _ 0])
  from shifted_by_halve [OF this]
  have "shifted_by ?x (8 + 8) (countl_zero_step 16 (w, 32))" by simp
  from shifted_by_halve [OF this]
  have "shifted_by ?x (4 + 4) (countl_zero_step 8 (countl_zero_step 16 (w, 32)))" by simp
  from shifted_by_halve [OF this]
  have "shifted_by ?x (2 + 2) (countl_zero_step 4 (countl_zero_step 8 (countl_zero_step 16 (w, 32))))"
    by simp
  from shifted_by_halve [OF this]
  obtain v n where v: "countl_zero_step 2 (countl_zero_step 4 (countl_zero_step 8
        (countl_zero_step 16 (w, 32)))) = (v, n)" and sh: "shifted_by ?x 2 (v, n)"
    by (metis surj_pair)
  then obtain a where a: "n = 32 - int a" "sint v = ?x div 2 ^ a" and v4: "0 < sint v" "sint v < 4"
    by (auto simp: shifted_by_def)
  have low: "sint v * 2 ^ a \<le> ?x" and up: "?x < (sint v + 1) * 2 ^ a"
    using zdiv_less_iff [of "2 ^ a" ?x "sint v + 1"] zdiv_less_iff [of "2 ^ a" ?x "sint v"] a
    by auto
  have top: "signed_drop_bit 1 v \<noteq> 0 \<longleftrightarrow> 2 \<le> sint v"
    using v4 by (auto simp: signed_drop_bit_eq_0_iff)
  show ?thesis
  proof (cases "2 \<le> sint v")
    case True
    have "2 * 2 ^ a \<le> sint v * 2 ^ a" and "(sint v + 1) * 2 ^ a \<le> 4 * 2 ^ a"
      using True v4 by (auto intro!: mult_right_mono)
    with low up have "2 * 2 ^ a \<le> ?x" "?x < 4 * 2 ^ a" by linarith+
    then have "2 ^ Suc a \<le> ?x" "?x < 2 ^ Suc (Suc a)" by simp_all
    with True top a show ?thesis
      by (intro exI [of _ "Suc a"]) (simp add: countl_zero_def v)
  next
    case False
    with v4 have "sint v = 1" by linarith
    with False top a low up show ?thesis
      by (intro exI [of _ a]) (simp add: countl_zero_def v)
  qed
qed

lemma countl_zero_negative:
  assumes "sint w < 0"
  shows "countl_zero w = 0"
proof -
  have step: "sint (fst (countl_zero_step s wn)) < 0 \<and> snd (countl_zero_step s wn) = snd wn - int s"
    if "sint (fst wn) < 0" for s wn
  proof -
    have "sint (fst wn) div 2 ^ s < 0" using that by (simp add: div_neg_pos_less0)
    then show ?thesis
      using countl_zero_step_sint [of s "fst wn" "snd wn"] by (auto simp: prod_eq_iff split: if_splits)
  qed
  let ?r = "countl_zero_step 2 (countl_zero_step 4 (countl_zero_step 8 (countl_zero_step 16 (w, 32))))"
  have "sint (fst ?r) < 0" "snd ?r = 2" using step assms by simp_all
  moreover from this have "signed_drop_bit 1 (fst ?r) \<noteq> 0" by (simp add: signed_drop_bit_eq_0_iff)
  ultimately show ?thesis by (simp add: countl_zero_def split_beta)
qed

section \<open>What the bit utilities guarantee\<close>

text \<open>
  \<^verbatim>\<open>countr_zero\<close> returns the index of the least significant set bit of every 64-bit
  word, and 64 for the zero word.
\<close>

theorem countr_zero_correct:
  "countr_zero w = (if w = 0 then 64 else int (LEAST k. bit w k))"
proof (cases "w = 0")
  case False
  then obtain k where k: "lowest_bit w k" by (rule lowest_bit_exists)
  then have "(LEAST k. bit w k) = k"
    by (intro Least_equality) (auto simp: lowest_bit_def not_less [symmetric])
  with k False show ?thesis by (simp add: countr_zero_eq)
qed (simp add: countr_zero_0)

text \<open>
  \<^verbatim>\<open>countl_zero\<close> counts the leading zeros of every signed 32-bit word: 32 for
  zero, 0 for a negative word, and for a positive one \<open>31 - p\<close> where \<open>p\<close> is the position of the
  most significant set bit, i.e. the floor of the base-2 logarithm.
\<close>

theorem countl_zero_correct:
  "if w = 0 then countl_zero w = 32
   else if sint w < 0 then countl_zero w = 0
   else \<exists>p. countl_zero w = 31 - int p \<and> 2 ^ p \<le> sint w \<and> sint w < 2 ^ Suc p"
proof -
  consider "w = 0" | "sint w < 0" | "0 < sint w"
    by (metis linorder_less_linear signed_word_eqI sint_0)
  then show ?thesis
  proof cases
    case 1
    then show ?thesis by (simp add: countl_zero_def countl_zero_step_def)
  next
    case 2
    with countl_zero_negative show ?thesis by auto
  next
    case 3
    with countl_zero_positive [of w] show ?thesis by (auto simp: not_less)
  qed
qed

end
