(* ===== verification/Containers.thy ===== *)
theory Containers
  imports Prelude
begin

text \<open>
  The contract of an associative container as its clients see it: the operations that
  change a container, their meaning on partial maps, and what a provider promises about
  each of them. The provider may restrict how many operations its promises survive
  (\<open>within N\<close> holds of a container that has absorbed at most \<open>N\<close> operations), because
  the tables of the library index their buckets with machine integers.
\<close>

datatype ('k, 'v) map_op = Insert 'k 'v | Assign 'k 'v | Erase 'k | Clear

text \<open>The reference semantics: \<open>Insert\<close> keeps an existing value, \<open>Assign\<close> replaces it.\<close>

fun spec_op :: "('k, 'v) map_op \<Rightarrow> ('k \<rightharpoonup> 'v) \<Rightarrow> ('k \<rightharpoonup> 'v)" where
  "spec_op (Insert key v) f = (if f key = None then f(key \<mapsto> v) else f)"
| "spec_op (Assign key v) f = f(key \<mapsto> v)"
| "spec_op (Erase key) f = f(key := None)"
| "spec_op Clear f = Map.empty"

fun run_ops :: "('op \<Rightarrow> 's \<Rightarrow> 's option) \<Rightarrow> 'op list \<Rightarrow> 's \<Rightarrow> 's option" where
  "run_ops run [] s = Some s"
| "run_ops run (op # ops) s = Option.bind (run op s) (run_ops run ops)"

lemma run_ops_append:
  "run_ops run (xs @ ys) s = Option.bind (run_ops run xs s) (run_ops run ys)"
proof (induction xs arbitrary: s)
  case (Cons x xs)
  then show ?case by (cases "run x s") simp_all
qed simp

locale assoc_container =
  fixes within :: "nat \<Rightarrow> 's \<Rightarrow> bool"
    and abs_map :: "'s \<Rightarrow> 'k \<Rightarrow> 'v option"
    and run_op :: "('k, 'v) map_op \<Rightarrow> 's \<Rightarrow> 's option"
    and look :: "'s \<Rightarrow> 'k \<Rightarrow> 'v option"
    and limit :: nat
  assumes op_refines: "\<lbrakk>within N s; N < limit\<rbrakk> \<Longrightarrow>
      \<exists>s'. run_op op s = Some s' \<and> within (Suc N) s' \<and> abs_map s' = spec_op op (abs_map s)"
    and look_abs: "within N s \<Longrightarrow> look s = abs_map s"
begin

lemma ops_refine:
  "within N s \<Longrightarrow> N + length ops \<le> limit \<Longrightarrow>
     \<exists>s'. run_ops run_op ops s = Some s' \<and> within (N + length ops) s' \<and>
          abs_map s' = fold spec_op ops (abs_map s)"
proof (induction ops arbitrary: N s)
  case Nil
  then show ?case by simp
next
  case (Cons op ops)
  then obtain s1 where s1: "run_op op s = Some s1" "within (Suc N) s1" "abs_map s1 = spec_op op (abs_map s)"
    using op_refines [of N s op] by auto
  with Cons.IH [OF s1(2)] Cons.prems(2) show ?case by auto
qed

lemma look_after_ops:
  assumes "within N s" and "N + length ops \<le> limit"
  shows "\<exists>s'. run_ops run_op ops s = Some s' \<and> look s' = fold spec_op ops (look s)"
proof -
  obtain s' where "run_ops run_op ops s = Some s'" "within (N + length ops) s'"
    "abs_map s' = fold spec_op ops (abs_map s)"
    using ops_refine [OF assms] by blast
  with look_abs assms(1) show ?thesis by metis
qed

text \<open>Operations on different keys commute, whatever state the container is in.\<close>

lemma assign_commute:
  assumes "within N s" and "N + 2 \<le> limit" and "a \<noteq> b"
  shows "\<exists>s1 s2. run_ops run_op [Assign a u, Assign b v] s = Some s1 \<and>
           run_ops run_op [Assign b v, Assign a u] s = Some s2 \<and> look s1 = look s2"
  using look_after_ops [OF assms(1), of "[Assign a u, Assign b v]"]
    look_after_ops [OF assms(1), of "[Assign b v, Assign a u]"] assms(2,3)
  by (fastforce simp: fun_upd_twist)

lemma insert_erase_restores:
  assumes "within N s" and "N + 2 \<le> limit" and "look s key = None"
  shows "\<exists>s'. run_ops run_op [Insert key v, Erase key] s = Some s' \<and> look s' = look s"
  using look_after_ops [OF assms(1), of "[Insert key v, Erase key]"] assms(2,3)
  by (auto simp: fun_upd_idem)

end

end
