(* ===== verification/FlatMap.thy ===== *)
theory FlatMap
  imports FlatTable BitUtilities Containers "HOL-Library.Monad_Syntax"
begin

text \<open>
  The hash map \<^verbatim>\<open>axom::FlatMap\<close> (\<^verbatim>\<open>core/FlatMap.hpp\<close>) over the metadata
  table of \<^verbatim>\<open>FlatTable\<close>. The template's hash functor is the parameter
  \<open>hf\<close>; a bucket is \<open>None\<close> while it holds no constructed pair.

  \<^verbatim>\<open>getEmplacePos\<close> may call \<^verbatim>\<open>rehash\<close>, which re-inserts every
  element and so calls \<^verbatim>\<open>getEmplacePos\<close> again. The recursion has no syntactic
  bound, so \<^verbatim>\<open>rehash\<close> is defined by a depth of nested calls; the lemmas show that
  depth 2 is always enough.

  Two floating-point expressions of the source are exact on the values they are used for
  and are written in integers: \<^verbatim>\<open>std::ceil((bucket_count + 1) / 15.0)\<close> is
  division rounding up, and \<^verbatim>\<open>(m_loadCount + 1) / (double)bucket_count() >= 0.875\<close> is
  \<open>8 * (m_loadCount + 1) \<ge> 7 * bucket_count\<close> (the quotient of two integers below \<open>2 ^ 51\<close> that is
  less than \<open>7/8\<close> is farther from it than the rounding error).
\<close>

section \<open>State\<close>

record ('k, 'v) FlatMap =
  m_numGroups2 :: nat
  m_size :: nat
  m_metadata :: "GroupBucket list"
  m_buckets :: "('k \<times> 'v) option list"
  m_loadCount :: nat

abbreviation (input) MIN_NUM_BUCKETS :: int where "MIN_NUM_BUCKETS \<equiv> 29"

definition bucket_count :: "('k, 'v) FlatMap \<Rightarrow> int" where
  "bucket_count m = int (length (m_buckets m))"

definition numGroups_for :: "int \<Rightarrow> int" where
  "numGroups_for bc = (bc + 1 + 14) div 15"

definition FlatMap_new :: "int \<Rightarrow> ('k, 'v) FlatMap" where
  "FlatMap_new bc =
     (let bc = max MIN_NUM_BUCKETS bc;
          numGroups2 = nat (31 - countl_zero (of_int (numGroups_for bc)));
          numGroupsRounded = 2 ^ numGroups2;
          numBuckets = numGroupsRounded * 15 - 1;
          metadata = replicate numGroupsRounded GroupBucket_init
      in \<lparr>m_numGroups2 = numGroups2, m_size = 0,
          m_metadata = metadata[numGroupsRounded - 1 := setSentinel (metadata ! (numGroupsRounded - 1))],
          m_buckets = replicate numBuckets None, m_loadCount = 0\<rparr>)"

section \<open>Lookup and iteration\<close>

text \<open>The key of the pair stored in a bucket.\<close>

definition bucket_key :: "('k, 'v) FlatMap \<Rightarrow> int \<Rightarrow> 'k option" where
  "bucket_key m i = map_option fst (m_buckets m ! nat i)"

definition find_key :: "('k \<Rightarrow> uint64) \<Rightarrow> ('k, 'v) FlatMap \<Rightarrow> 'k \<Rightarrow> int" where
  "find_key hf m key =
     probeIndex (m_numGroups2 m) (m_metadata m) (HashMixer64 hf key)
       (\<lambda>bucket_index found_iter.
          if bucket_key m bucket_index = Some key then (bucket_index, False)
          else (found_iter, True))
       (bucket_count m)"

definition contains :: "('k \<Rightarrow> uint64) \<Rightarrow> ('k, 'v) FlatMap \<Rightarrow> 'k \<Rightarrow> bool" where
  "contains hf m key \<longleftrightarrow> find_key hf m key \<noteq> bucket_count m"

definition count_key :: "('k \<Rightarrow> uint64) \<Rightarrow> ('k, 'v) FlatMap \<Rightarrow> 'k \<Rightarrow> int" where
  "count_key hf m key = (if contains hf m key then 1 else 0)"

datatype flat_map_error = Out_of_range

definition at_key :: "('k \<Rightarrow> uint64) \<Rightarrow> ('k, 'v) FlatMap \<Rightarrow> 'k \<Rightarrow> flat_map_error + 'v" where
  "at_key hf m key =
     (let it = find_key hf m key
      in if it = bucket_count m then Inl Out_of_range
         else Inr (snd (the (m_buckets m ! nat it))))"

definition begin_index :: "('k, 'v) FlatMap \<Rightarrow> int" where
  "begin_index m = nextValidIndex (m_metadata m) NO_MATCH"

text \<open>The indices a loop \<^verbatim>\<open>for(it = ...; it != end(); ++it)\<close> visits.\<close>

partial_function (option) indices_from :: "('k, 'v) FlatMap \<Rightarrow> int \<Rightarrow> int list option" where
  "indices_from m index =
     (if index < bucket_count m
      then Option.bind (indices_from m (nextValidIndex (m_metadata m) index)) (\<lambda>is. Some (index # is))
      else Some [])"

definition elements :: "('k, 'v) FlatMap \<Rightarrow> ('k \<times> 'v) list option" where
  "elements m =
     map_option (map (\<lambda>i. the (m_buckets m ! nat i))) (indices_from m (begin_index m))"

section \<open>Insertion and rehashing\<close>

definition getEmplacePos_by ::
  "(int \<Rightarrow> ('k, 'v) FlatMap \<Rightarrow> ('k, 'v) FlatMap option) \<Rightarrow> ('k \<Rightarrow> uint64) \<Rightarrow>
   ('k, 'v) FlatMap \<Rightarrow> 'k \<Rightarrow> (('k, 'v) FlatMap \<times> int \<times> bool) option" where
  "getEmplacePos_by rehash_to hf m key =
     (let hash = HashMixer64 hf key;
          existing_elem = find_key hf m key
      in if existing_elem \<noteq> bucket_count m then Some (m, existing_elem, False)
         else Option.bind
           (if 8 * (int (m_loadCount m) + 1) \<ge> 7 * bucket_count m
            then rehash_to (int (length (m_metadata m)) * 2 * 15 - 1) m else Some m)
           (\<lambda>m. let (metadata, newBucket) = probeEmptyIndex (m_numGroups2 m) (m_metadata m) hash;
                    metadata = setBucketHash metadata newBucket hash
                in Some (m\<lparr>m_metadata := metadata, m_size := m_size m + 1,
                           m_loadCount := m_loadCount m + 1\<rparr>, newBucket, True)))"

definition emplaceImpl :: "('k, 'v) FlatMap \<Rightarrow> int \<times> bool \<Rightarrow> bool \<Rightarrow> 'k \<times> 'v \<Rightarrow> ('k, 'v) FlatMap" where
  "emplaceImpl m pos assign_on_existence kv =
     (let bucketIndex = nat (fst pos); keyExistsAlready = \<not> snd pos
      in if \<not> keyExistsAlready then m\<lparr>m_buckets := (m_buckets m)[bucketIndex := Some kv]\<rparr>
         else if keyExistsAlready \<and> assign_on_existence
         then m\<lparr>m_buckets := (m_buckets m)[bucketIndex :=
                 map_option (\<lambda>old. (fst old, snd kv)) (m_buckets m ! bucketIndex)]\<rparr>
         else m)"

definition insert_by ::
  "(int \<Rightarrow> ('k, 'v) FlatMap \<Rightarrow> ('k, 'v) FlatMap option) \<Rightarrow> ('k \<Rightarrow> uint64) \<Rightarrow> bool \<Rightarrow>
   ('k, 'v) FlatMap \<Rightarrow> 'k \<times> 'v \<Rightarrow> (('k, 'v) FlatMap \<times> int \<times> bool) option" where
  "insert_by rehash_to hf assign m kv =
     map_option (\<lambda>(m, pos). (emplaceImpl m pos assign kv, pos))
       (getEmplacePos_by rehash_to hf m (fst kv))"

primrec insert_range_by ::
  "(int \<Rightarrow> ('k, 'v) FlatMap \<Rightarrow> ('k, 'v) FlatMap option) \<Rightarrow> ('k \<Rightarrow> uint64) \<Rightarrow>
   ('k, 'v) FlatMap \<Rightarrow> ('k \<times> 'v) list \<Rightarrow> ('k, 'v) FlatMap option" where
  "insert_range_by rehash_to hf m [] = Some m"
| "insert_range_by rehash_to hf m (kv # kvs) =
     Option.bind (insert_by rehash_to hf False m kv)
       (\<lambda>(m, _). insert_range_by rehash_to hf m kvs)"

text \<open>\<^verbatim>\<open>rehash(count)\<close>: build a map of \<^verbatim>\<open>max(m_size, count)\<close> buckets from the elements.\<close>

primrec rehash_depth ::
  "nat \<Rightarrow> ('k \<Rightarrow> uint64) \<Rightarrow> int \<Rightarrow> ('k, 'v) FlatMap \<Rightarrow> ('k, 'v) FlatMap option" where
  "rehash_depth 0 hf = (\<lambda>bc m. None)"
| "rehash_depth (Suc n) hf = (\<lambda>bc m.
     Option.bind (elements m)
       (insert_range_by (rehash_depth n hf) hf (FlatMap_new (max (int (m_size m)) bc))))"

definition rehash :: "('k \<Rightarrow> uint64) \<Rightarrow> ('k, 'v) FlatMap \<Rightarrow> int \<Rightarrow> ('k, 'v) FlatMap option" where
  "rehash hf m bc = rehash_depth 2 hf bc m"

definition reserve :: "('k \<Rightarrow> uint64) \<Rightarrow> ('k, 'v) FlatMap \<Rightarrow> int \<Rightarrow> ('k, 'v) FlatMap option" where
  "reserve hf m n = rehash hf m ((8 * n + 6) div 7)"

definition getEmplacePos ::
  "('k \<Rightarrow> uint64) \<Rightarrow> ('k, 'v) FlatMap \<Rightarrow> 'k \<Rightarrow> (('k, 'v) FlatMap \<times> int \<times> bool) option" where
  "getEmplacePos hf = getEmplacePos_by (rehash_depth 2 hf) hf"

definition insert_pair ::
  "('k \<Rightarrow> uint64) \<Rightarrow> ('k, 'v) FlatMap \<Rightarrow> 'k \<times> 'v \<Rightarrow> (('k, 'v) FlatMap \<times> int \<times> bool) option" where
  "insert_pair hf m kv =
     insert_by (rehash_depth 2 hf) hf False m kv"

definition insert_or_assign ::
  "('k \<Rightarrow> uint64) \<Rightarrow> ('k, 'v) FlatMap \<Rightarrow> 'k \<Rightarrow> 'v \<Rightarrow> (('k, 'v) FlatMap \<times> int \<times> bool) option" where
  "insert_or_assign hf m key v =
     insert_by (rehash_depth 2 hf) hf True m (key, v)"

definition try_emplace ::
  "('k \<Rightarrow> uint64) \<Rightarrow> ('k, 'v) FlatMap \<Rightarrow> 'k \<Rightarrow> 'v \<Rightarrow> (('k, 'v) FlatMap \<times> int \<times> bool) option" where
  "try_emplace hf m key v =
     insert_by (rehash_depth 2 hf) hf False m (key, v)"

text \<open>\<^verbatim>\<open>operator[]\<close> inserts the value-initialised \<open>default_v\<close> and returns the stored value.\<close>

definition index_operator ::
  "('k \<Rightarrow> uint64) \<Rightarrow> 'v \<Rightarrow> ('k, 'v) FlatMap \<Rightarrow> 'k \<Rightarrow> (('k, 'v) FlatMap \<times> 'v) option" where
  "index_operator hf default_v m key =
     map_option (\<lambda>(m, it, _). (m, snd (the (m_buckets m ! nat it)))) (try_emplace hf m key default_v)"

definition FlatMap_of_range ::
  "('k \<Rightarrow> uint64) \<Rightarrow> int \<Rightarrow> ('k \<times> 'v) list \<Rightarrow> int \<Rightarrow> ('k, 'v) FlatMap option" where
  "FlatMap_of_range hf num_elems kvs bc =
     insert_range_by (rehash_depth 2 hf) hf (FlatMap_new (max num_elems bc)) kvs"

section \<open>Removal and copies\<close>

definition erase_at :: "('k \<Rightarrow> uint64) \<Rightarrow> ('k, 'v) FlatMap \<Rightarrow> int \<Rightarrow> ('k, 'v) FlatMap \<times> int" where
  "erase_at hf m pos =
     (let hash = HashMixer64 hf (fst (the (m_buckets m ! nat pos)));
          (metadata, midSequence) = clearBucket (m_metadata m) pos hash;
          m = m\<lparr>m_metadata := metadata, m_buckets := (m_buckets m)[nat pos := None]\<rparr>;
          m = (if \<not> midSequence then m\<lparr>m_loadCount := m_loadCount m - 1\<rparr> else m)
      in (m, nextValidIndex (m_metadata m) pos))"

definition erase_key :: "('k \<Rightarrow> uint64) \<Rightarrow> ('k, 'v) FlatMap \<Rightarrow> 'k \<Rightarrow> ('k, 'v) FlatMap \<times> int" where
  "erase_key hf m key =
     (let it = find_key hf m key
      in if it \<noteq> bucket_count m then (fst (erase_at hf m it), 1) else (m, 0))"

definition clear_map :: "('k, 'v) FlatMap \<Rightarrow> ('k, 'v) FlatMap option" where
  "clear_map m =
     map_option (\<lambda>is.
       let metadata = map (\<lambda>_. GroupBucket_init) (m_metadata m)
       in m\<lparr>m_buckets := fold (\<lambda>i bs. bs[nat i := None]) is (m_buckets m),
            m_metadata := metadata[length metadata - 1 := setSentinel (metadata ! (length metadata - 1))],
            m_size := 0, m_loadCount := 0\<rparr>)
     (indices_from m (begin_index m))"

text \<open>The copy constructor copies the metadata and constructs only the valid buckets.\<close>

definition copy_map :: "('k, 'v) FlatMap \<Rightarrow> ('k, 'v) FlatMap option" where
  "copy_map other =
     (let m = other\<lparr>m_buckets := replicate (length (m_buckets other)) None\<rparr>
      in map_option
           (\<lambda>is. m\<lparr>m_buckets := fold (\<lambda>i bs. bs[nat i := m_buckets other ! nat i]) is (m_buckets m)\<rparr>)
           (indices_from m (begin_index m)))"

definition swap_maps :: "('k, 'v) FlatMap \<times> ('k, 'v) FlatMap \<Rightarrow> ('k, 'v) FlatMap \<times> ('k, 'v) FlatMap" where
  "swap_maps ab = (snd ab, fst ab)"

definition is_empty_map :: "('k, 'v) FlatMap \<Rightarrow> bool" where
  "is_empty_map m \<longleftrightarrow> m_size m = 0"

section \<open>The invariant and the abstraction to a partial map\<close>

text \<open>The hash byte and the probe sequence of a key in a map with \<open>2 ^ k\<close> groups.\<close>

abbreviation h8_of :: "('k \<Rightarrow> uint64) \<Rightarrow> 'k \<Rightarrow> uint8" where
  "h8_of hf key \<equiv> hash_8 (HashMixer64 hf key)"

abbreviation group_seq :: "('k \<Rightarrow> uint64) \<Rightarrow> nat \<Rightarrow> 'k \<Rightarrow> nat \<Rightarrow> nat" where
  "group_seq hf k key \<equiv> probed k (HashMixer64 hf key)"

text \<open>
  A key in group \<open>g\<close> is reachable when \<open>g\<close> is on its probe sequence and every earlier
  group of the sequence has the overflow bit of the key's hash set.
\<close>

definition reachable :: "('k \<Rightarrow> uint64) \<Rightarrow> nat \<Rightarrow> GroupBucket list \<Rightarrow> 'k \<Rightarrow> nat \<Rightarrow> bool" where
  "reachable hf k md key g \<longleftrightarrow>
     (\<exists>n<2 ^ k. group_seq hf k key n = g \<and>
        (\<forall>j<n. getMaybeOverflowed (md ! group_seq hf k key j) (h8_of hf key)))"

text \<open>
  Bucket indices pass through variables of type \<^verbatim>\<open>int\<close> (\<^verbatim>\<open>empty_group * GroupBucket::Size\<close> in \<^verbatim>\<open>probeEmptyIndex\<close>, the argument and the
  result of \<^verbatim>\<open>nextValidIndex\<close>). A well-formed table has at most \<open>2 ^ 27\<close> groups, so that all of them are below \<open>2 ^ 31\<close>; with \<open>2 ^ 28\<close>
  groups the products overflow.
\<close>

definition table_shape :: "('k, 'v) FlatMap \<Rightarrow> bool" where
  "table_shape m \<longleftrightarrow>
     1 \<le> m_numGroups2 m \<and> m_numGroups2 m \<le> 27 \<and>
     length (m_metadata m) = 2 ^ m_numGroups2 m \<and>
     length (m_buckets m) = 2 ^ m_numGroups2 m * 15 - 1 \<and>
     (\<forall>g\<in>set (m_metadata m). length (slots g) = 15) \<and>
     slot_at (m_metadata m) (bucket_count m) = 1"

definition slot_agrees :: "('k \<Rightarrow> uint64) \<Rightarrow> uint8 \<Rightarrow> ('k \<times> 'v) option \<Rightarrow> bool" where
  "slot_agrees hf byte b = (case b of None \<Rightarrow> byte = 0 | Some kv \<Rightarrow> byte = reduceHash (h8_of hf (fst kv)))"

definition filled :: "('k \<times> 'v) option list \<Rightarrow> nat set" where
  "filled bs = {i. i < length bs \<and> bs ! i \<noteq> None}"

definition fm_inv :: "('k \<Rightarrow> uint64) \<Rightarrow> ('k, 'v) FlatMap \<Rightarrow> bool" where
  "fm_inv hf m \<longleftrightarrow>
     table_shape m \<and>
     (\<forall>i<length (m_buckets m). slot_agrees hf (slot_at (m_metadata m) (int i)) (m_buckets m ! i)) \<and>
     (\<forall>i<length (m_buckets m). \<forall>kv. m_buckets m ! i = Some kv \<longrightarrow>
        reachable hf (m_numGroups2 m) (m_metadata m) (fst kv) (i div 15)) \<and>
     (\<forall>i\<in>filled (m_buckets m). \<forall>j\<in>filled (m_buckets m).
        fst (the (m_buckets m ! i)) = fst (the (m_buckets m ! j)) \<longrightarrow> i = j) \<and>
     card (filled (m_buckets m)) \<le> m_loadCount m \<and>
     card (filled (m_buckets m)) \<le> m_size m \<and>
     8 * int (m_loadCount m) < 7 * bucket_count m"

definition live :: "('k, 'v) FlatMap \<Rightarrow> ('k \<times> 'v) list" where
  "live m = List.map_filter id (m_buckets m)"

definition fm_map :: "('k, 'v) FlatMap \<Rightarrow> 'k \<rightharpoonup> 'v" where
  "fm_map m = map_of (live m)"

lemma set_live: "kv \<in> set (live m) \<longleftrightarrow> (\<exists>i<length (m_buckets m). m_buckets m ! i = Some kv)"
  by (force simp: live_def map_filter_def in_set_conv_nth image_iff)

lemma fm_inv_shape: "fm_inv hf m \<Longrightarrow> table_shape m"
  by (simp add: fm_inv_def)

lemma shape_bucket_count: "table_shape m \<Longrightarrow> bucket_count m = 2 ^ m_numGroups2 m * 15 - 1"
  by (simp add: table_shape_def bucket_count_def of_nat_diff)

lemma bucket_count_int:
  assumes "fm_inv hf m"
  shows "bucket_count m < 2 ^ 31 - 1"
proof -
  have "(2 :: int) ^ m_numGroups2 m \<le> 2 ^ 27"
    using fm_inv_shape [OF assms] by (intro power_increasing) (auto simp: table_shape_def)
  then show ?thesis using shape_bucket_count [OF fm_inv_shape [OF assms]] by simp
qed

lemma fm_inv_key_unique:
  assumes "fm_inv hf m" and "i < length (m_buckets m)" and "j < length (m_buckets m)"
    and "m_buckets m ! i = Some (key, v)" and "m_buckets m ! j = Some (key, w)"
  shows "i = j"
  using assms unfolding fm_inv_def filled_def by force

lemma fm_map_Some:
  assumes "fm_inv hf m"
  shows "fm_map m key = Some v \<longleftrightarrow> (\<exists>i<length (m_buckets m). m_buckets m ! i = Some (key, v))"
proof -
  have uniq: "v = w" if "(key, v) \<in> set (live m)" "(key, w) \<in> set (live m)" for v w
    using that fm_inv_key_unique [OF assms] unfolding set_live by fastforce
  have "fm_map m key = Some v \<longleftrightarrow> (key, v) \<in> set (live m)"
    unfolding fm_map_def
    by (metis uniq map_of_SomeD weak_map_of_SomeI)
  then show ?thesis by (simp add: set_live)
qed

lemma fm_map_None:
  assumes "fm_inv hf m"
  shows "fm_map m key = None \<longleftrightarrow> (\<forall>i<length (m_buckets m). \<forall>v. m_buckets m ! i \<noteq> Some (key, v))"
  using fm_map_Some [OF assms] by (metis not_None_eq)

section \<open>Lookup\<close>

lemma slot_match_in_range:
  assumes "table_shape m" and "g < 2 ^ m_numGroups2 m" and "i < 15"
    and "slots (m_metadata m ! g) ! i = reduceHash h"
  shows "g * 15 + i < length (m_buckets m)"
proof -
  have "slot_at (m_metadata m) (int g * 15 + int i) = reduceHash h"
    using assms slot_at_group [of "int i"] by simp
  then have "int g * 15 + int i \<noteq> bucket_count m"
    using assms(1) by (auto simp: table_shape_def)
  then have "g * 15 + i \<noteq> length (m_buckets m)"
    by (auto simp: bucket_count_def)
  moreover have "g * 15 + i < 2 ^ m_numGroups2 m * 15"
    using assms(2,3) by linarith
  moreover have "length (m_buckets m) = 2 ^ m_numGroups2 m * 15 - 1"
    using assms(1) by (simp add: table_shape_def)
  ultimately show ?thesis by linarith
qed

lemma slot_of_bucket:
  assumes "fm_inv hf m" and "m_buckets m ! i = Some (key, v)" and "i < length (m_buckets m)"
  shows "slots (m_metadata m ! (i div 15)) ! (i mod 15) = reduceHash (h8_of hf key)"
proof -
  have "slot_agrees hf (slot_at (m_metadata m) (int i)) (m_buckets m ! i)"
    using assms by (auto simp: fm_inv_def)
  moreover have "nat (int i div 15) = i div 15" and "nat (int i mod 15) = i mod 15"
    by (simp_all add: nat_div_distrib nat_mod_distrib)
  ultimately show ?thesis
    using assms(2) by (simp add: slot_agrees_def slot_at_def)
qed

lemma int_div_mod_15: "int (i div 15) * 15 + int (i mod 15) = int i"
  by (metis div_mult_mod_eq of_nat_add of_nat_mult of_nat_numeral)

lemma find_key_track:
  "find_key hf m key =
     probeIndex (m_numGroups2 m) (m_metadata m) (HashMixer64 hf key)
       (track (\<lambda>i. bucket_key m i = Some key)) (bucket_count m)"
  by (simp add: find_key_def track_def [abs_def])

lemma match_is_bucket:
  assumes "table_shape m" and "g < 2 ^ m_numGroups2 m" and "i < 15"
    and "slots (m_metadata m ! g) ! i = reduceHash h"
    and "bucket_key m (int g * 15 + int i) = Some key"
  shows "g * 15 + i < length (m_buckets m) \<and> (\<exists>v. m_buckets m ! (g * 15 + i) = Some (key, v))"
proof -
  have "nat (int g * 15 + int i) = g * 15 + i" by (simp add: nat_add_distrib nat_mult_distrib)
  with assms(5) have "\<exists>v. m_buckets m ! (g * 15 + i) = Some (key, v)"
    by (auto simp: bucket_key_def)
  with slot_match_in_range [OF assms(1-4)] show ?thesis by simp
qed

lemma find_key_present:
  assumes inv: "fm_inv hf m" and i: "i < length (m_buckets m)" and b: "m_buckets m ! i = Some (key, v)"
  shows "find_key hf m key = int i"
proof -
  let ?k = "m_numGroups2 m" and ?md = "m_metadata m" and ?P = "\<lambda>i. bucket_key m i = Some key"
  note shape = fm_inv_shape [OF inv]
  have k: "?k \<le> 31" and len: "length ?md = 2 ^ ?k"
    using shape by (auto simp: table_shape_def)
  have uniq: "uniq_match ?md (h8_of hf key) ?P (int i)"
    unfolding uniq_match_def
  proof (intro allI impI)
    fix g s
    assume "g < length ?md" "s < 15" "slots (?md ! g) ! s = reduceHash (h8_of hf key)"
      "bucket_key m (int g * 15 + int s) = Some key"
    with match_is_bucket [OF shape, of g s] len obtain w
      where "g * 15 + s < length (m_buckets m)" "m_buckets m ! (g * 15 + s) = Some (key, w)"
      by auto
    with fm_inv_key_unique [OF inv _ i _ b] have "g * 15 + s = i" by blast
    then show "int g * 15 + int s = int i" by auto
  qed
  have "reachable hf ?k ?md key (i div 15)"
    using inv i b unfolding fm_inv_def by fastforce
  moreover have "group_match ?md (h8_of hf key) ?P (i div 15)"
    unfolding group_match_def
    using slot_of_bucket [OF inv b i] b int_div_mod_15 [of i]
    by (intro exI [of _ "i mod 15"]) (simp add: bucket_key_def)
  ultimately have "\<exists>n<2 ^ ?k. group_match ?md (h8_of hf key) ?P (group_seq hf ?k key n) \<and>
      (\<forall>j<n. getMaybeOverflowed (?md ! group_seq hf ?k key j) (h8_of hf key))"
    unfolding reachable_def by metis
  then show ?thesis
    unfolding find_key_track probeIndex_track [OF k len uniq] by (rule if_P)
qed

lemma find_key_absent:
  assumes inv: "fm_inv hf m" and none: "fm_map m key = None"
  shows "find_key hf m key = bucket_count m"
proof -
  let ?k = "m_numGroups2 m" and ?md = "m_metadata m" and ?P = "\<lambda>i. bucket_key m i = Some key"
  note shape = fm_inv_shape [OF inv]
  have k: "?k \<le> 31" and len: "length ?md = 2 ^ ?k"
    using shape by (auto simp: table_shape_def)
  have no_match: "\<not> (slots (?md ! g) ! s = reduceHash h \<and> ?P (int g * 15 + int s))"
    if "g < 2 ^ ?k" "s < 15" for g s h
    using match_is_bucket [OF shape that] fm_map_None [OF inv, of key] none by blast
  then have uniq: "uniq_match ?md (h8_of hf key) ?P 0"
    using len by (auto simp: uniq_match_def)
  have "\<not> group_match ?md (h8_of hf key) ?P (probed ?k h n)" if "n < 2 ^ ?k" for n h
    using no_match probed_less [OF k, of n h] that by (auto simp: group_match_def)
  then show ?thesis
    unfolding find_key_track probeIndex_track [OF k len uniq] by auto
qed

lemma find_key_cases:
  assumes "fm_inv hf m"
  shows "(fm_map m key = None \<and> find_key hf m key = bucket_count m) \<or>
         (\<exists>i v. i < length (m_buckets m) \<and> m_buckets m ! i = Some (key, v) \<and>
                find_key hf m key = int i \<and> fm_map m key = Some v)"
proof (cases "fm_map m key")
  case None
  with find_key_absent [OF assms] show ?thesis by simp
next
  case (Some v)
  with fm_map_Some [OF assms] find_key_present [OF assms] show ?thesis by blast
qed

section \<open>Iteration visits every element once\<close>

lemma slot_filled_iff:
  assumes "fm_inv hf m" and "i < length (m_buckets m)"
  shows "slot_at (m_metadata m) (int i) \<noteq> 0 \<longleftrightarrow> m_buckets m ! i \<noteq> None"
proof -
  have "slot_agrees hf (slot_at (m_metadata m) (int i)) (m_buckets m ! i)"
    using assms by (auto simp: fm_inv_def)
  then show ?thesis by (auto simp: slot_agrees_def split: option.splits)
qed

lemma nextValidIndex_fm:
  assumes "fm_inv hf m" and "- 1 \<le> i" and "i < bucket_count m"
  shows "nextValidIndex (m_metadata m) i =
           for_find (\<lambda>j. m_buckets m ! nat j \<noteq> None) (i + 1) (bucket_count m) (bucket_count m)"
proof -
  let ?md = "m_metadata m" and ?n = "bucket_count m"
  note shape = fm_inv_shape [OF assms(1)]
  have n: "?n = int (length ?md) * 15 - 1" and ne: "?md \<noteq> []"
    using shape shape_bucket_count [OF shape] by (auto simp: table_shape_def)
  have sent: "slot_at ?md ?n \<noteq> 0" using shape by (simp add: table_shape_def)
  have "nextValidIndex ?md i = for_find (\<lambda>j. slot_at ?md j \<noteq> 0) (i + 1) (?n + 1) ?n"
    using nextValidIndex_eq [OF ne assms(2)] assms(3) n by simp
  also have "\<dots> = (let r = for_find (\<lambda>j. slot_at ?md j \<noteq> 0) (i + 1) ?n ?n
                in if r = ?n then for_find (\<lambda>j. slot_at ?md j \<noteq> 0) ?n (?n + 1) ?n else r)"
    by (rule for_find_split) (use assms(3) in auto)
  also have "\<dots> = for_find (\<lambda>j. slot_at ?md j \<noteq> 0) (i + 1) ?n ?n"
    using sent by (simp add: Let_def for_find_step)
  also have "\<dots> = for_find (\<lambda>j. m_buckets m ! nat j \<noteq> None) (i + 1) ?n ?n"
  proof (rule for_find_cong)
    fix j assume "i + 1 \<le> j" "j < ?n"
    with assms(2) slot_filled_iff [OF assms(1), of "nat j"]
    show "(slot_at ?md j \<noteq> 0) = (m_buckets m ! nat j \<noteq> None)"
      by (simp add: bucket_count_def)
  qed
  finally show ?thesis .
qed

lemma indices_from_next:
  assumes inv: "fm_inv hf m" and "- 1 \<le> i" and "i < bucket_count m"
  shows "indices_from m (nextValidIndex (m_metadata m) i) =
           Some (map int (filter (\<lambda>j. m_buckets m ! j \<noteq> None) [nat (i + 1)..<length (m_buckets m)]))"
  using assms(2,3)
proof (induction "nat (bucket_count m - i)" arbitrary: i rule: less_induct)
  case less
  let ?n = "bucket_count m" and ?P = "\<lambda>j. m_buckets m ! nat j \<noteq> None"
  define r where "r = nextValidIndex (m_metadata m) i"
  have r: "r = for_find ?P (i + 1) ?n ?n"
    unfolding r_def by (rule nextValidIndex_fm [OF inv less.prems])
  consider (none) "r = ?n" "\<And>j. i + 1 \<le> j \<Longrightarrow> j < ?n \<Longrightarrow> \<not> ?P j"
    | (some) "i + 1 \<le> r" "r < ?n" "?P r" "\<And>j. i + 1 \<le> j \<Longrightarrow> j < r \<Longrightarrow> \<not> ?P j"
    using for_find_cases [of ?P "i + 1" ?n ?n] unfolding r by blast
  then show ?case
  proof cases
    case none
    have "filter (\<lambda>j. m_buckets m ! j \<noteq> None) [nat (i + 1)..<length (m_buckets m)] = []"
      using none(2) [of "int _"] less.prems(1)
      by (fastforce simp: filter_empty_conv bucket_count_def nat_le_iff)
    with none(1) show ?thesis unfolding r_def [symmetric] by (simp add: indices_from.simps)
  next
    case some
    have "0 \<le> r" using some(1) less.prems(1) by simp
    have split: "[nat (i + 1)..<length (m_buckets m)] =
        [nat (i + 1)..<nat r] @ nat r # [nat (r + 1)..<length (m_buckets m)]"
      using some(1,2) \<open>0 \<le> r\<close> less.prems(1) upt_split_at [of "nat (i + 1)" "nat r" "length (m_buckets m)"]
      by (simp add: bucket_count_def nat_add_distrib nat_less_iff)
    have pre: "filter (\<lambda>j. m_buckets m ! j \<noteq> None) [nat (i + 1)..<nat r] = []"
      using some(4) [of "int _"] less.prems(1)
      by (fastforce simp: filter_empty_conv nat_le_iff zless_nat_eq_int_zless)
    have "indices_from m (nextValidIndex (m_metadata m) r) =
        Some (map int (filter (\<lambda>j. m_buckets m ! j \<noteq> None) [nat (r + 1)..<length (m_buckets m)]))"
      using some less.prems \<open>0 \<le> r\<close> by (intro less.hyps) auto
    then show ?thesis
      unfolding r_def [symmetric] split using some(2,3) \<open>0 \<le> r\<close> pre
      by (subst indices_from.simps) simp
  qed
qed

lemma indices_from_begin:
  assumes "fm_inv hf m"
  shows "indices_from m (begin_index m) =
           Some (map int (filter (\<lambda>j. m_buckets m ! j \<noteq> None) [0..<length (m_buckets m)]))"
  using indices_from_next [OF assms, of "- 1"] by (simp add: begin_index_def bucket_count_def)

lemma live_nth: "live m = map (\<lambda>i. the (m_buckets m ! i))
    (filter (\<lambda>j. m_buckets m ! j \<noteq> None) [0..<length (m_buckets m)])"
proof -
  let ?bs = "m_buckets m"
  have "live m = map the (filter (\<lambda>b. b \<noteq> None) ?bs)"
    by (simp add: live_def map_filter_def)
  also have "\<dots> = map the (filter (\<lambda>b. b \<noteq> None) (map ((!) ?bs) [0..<length ?bs]))"
    by (simp add: map_nth)
  finally show ?thesis by (simp add: filter_map comp_def)
qed

lemma elements_eq_live: "fm_inv hf m \<Longrightarrow> elements m = Some (live m)"
  by (simp add: elements_def indices_from_begin live_nth)

section \<open>Placing a new element\<close>

lemma filled_finite [simp]: "finite (filled bs)"
  by (simp add: filled_def)

lemma filled_put: "b < length bs \<Longrightarrow> filled (bs[b := Some x]) = insert b (filled bs)"
  by (auto simp: filled_def nth_list_update)

lemma filled_remove: "b < length bs \<Longrightarrow> filled (bs[b := None]) = filled bs - {b}"
  by (auto simp: filled_def nth_list_update)

lemma free_bucket_exists:
  assumes "fm_inv hf m"
  obtains i where "i < length (m_buckets m)" and "m_buckets m ! i = None"
proof -
  have "\<exists>i<length (m_buckets m). m_buckets m ! i = None"
  proof (rule ccontr)
    assume "\<not> ?thesis"
    then have "filled (m_buckets m) = {..<length (m_buckets m)}"
      by (auto simp: filled_def)
    then have "card (filled (m_buckets m)) = length (m_buckets m)" by simp
    moreover have "card (filled (m_buckets m)) \<le> m_loadCount m"
      and "8 * int (m_loadCount m) < 7 * int (length (m_buckets m))"
      using assms by (simp_all add: fm_inv_def bucket_count_def)
    ultimately show False by linarith
  qed
  with that show thesis by blast
qed

lemma reachable_mono:
  assumes "reachable hf k md key g" and "k \<le> 31"
    and "\<And>g h. g < 2 ^ k \<Longrightarrow> getMaybeOverflowed (md ! g) h \<Longrightarrow> getMaybeOverflowed (md' ! g) h"
  shows "reachable hf k md' key g"
proof -
  from assms(1) obtain n where n: "n < 2 ^ k" "group_seq hf k key n = g"
    "\<forall>j<n. getMaybeOverflowed (md ! group_seq hf k key j) (h8_of hf key)"
    by (auto simp: reachable_def)
  have "group_seq hf k key j < 2 ^ k" if "j < n" for j
    using probed_less [OF assms(2)] n(1) that by simp
  with n assms(3) show ?thesis unfolding reachable_def by blast
qed

text \<open>Storing a pair in a free bucket, seen from the metadata only.\<close>

definition puts_slot :: "nat \<Rightarrow> GroupBucket list \<Rightarrow> nat \<Rightarrow> uint8 \<Rightarrow> GroupBucket list \<Rightarrow> bool" where
  "puts_slot k md b byte md' \<longleftrightarrow>
     length md' = length md \<and> (\<forall>g\<in>set md'. length (slots g) = 15) \<and>
     (\<forall>j<2 ^ k * 15. slot_at md' (int j) = (if j = b then byte else slot_at md (int j))) \<and>
     (\<forall>g<2 ^ k. \<forall>h. getMaybeOverflowed (md ! g) h \<longrightarrow> getMaybeOverflowed (md' ! g) h)"

definition put_pair :: "('k, 'v) FlatMap \<Rightarrow> GroupBucket list \<Rightarrow> nat \<Rightarrow> 'k \<times> 'v \<Rightarrow> ('k, 'v) FlatMap" where
  "put_pair m md b kv = m\<lparr>m_metadata := md, m_size := m_size m + 1, m_loadCount := m_loadCount m + 1,
     m_buckets := (m_buckets m)[b := Some kv]\<rparr>"

lemma put_pair_map:
  assumes "b < length (m_buckets m)" and "m_buckets m ! b = None"
  shows "(\<exists>i<length (m_buckets (put_pair m md b (key, v))).
            m_buckets (put_pair m md b (key, v)) ! i = Some (key', w)) \<longleftrightarrow>
         (key', w) = (key, v) \<or> (\<exists>i<length (m_buckets m). m_buckets m ! i = Some (key', w))"
  using ex_nth_list_update [OF assms] by (simp add: put_pair_def)

lemma fm_inv_put_pair:
  assumes inv: "fm_inv hf m" and b: "b < length (m_buckets m)" "m_buckets m ! b = None"
    and absent: "fm_map m key = None"
    and puts: "puts_slot (m_numGroups2 m) (m_metadata m) b (reduceHash (h8_of hf key)) md"
    and reach: "reachable hf (m_numGroups2 m) md key (b div 15)"
    and room: "8 * (int (m_loadCount m) + 1) < 7 * bucket_count m"
  shows "fm_inv hf (put_pair m md b (key, v))" (is "fm_inv hf ?m")
proof -
  let ?k = "m_numGroups2 m" and ?bs = "m_buckets m"
  note shape = fm_inv_shape [OF inv]
  have len: "length ?bs = 2 ^ ?k * 15 - 1" and k: "?k \<le> 31"
    using shape by (auto simp: table_shape_def)
  then have lt: "length ?bs < 2 ^ ?k * 15" and in_range: "i < 2 ^ ?k * 15" if "i < length ?bs" for i
    using that by auto
  have "bucket_count ?m = bucket_count m" by (simp add: put_pair_def bucket_count_def)
  moreover have "slot_at md (bucket_count m) = slot_at (m_metadata m) (bucket_count m)"
    using puts lt [OF b(1)] b(1) unfolding bucket_count_def puts_slot_def by (auto simp del: of_nat_diff)
  ultimately have "table_shape ?m"
    using shape puts unfolding table_shape_def puts_slot_def by (simp add: put_pair_def)
  moreover have "slot_agrees hf (slot_at (m_metadata ?m) (int i)) (m_buckets ?m ! i)"
    if "i < length (m_buckets ?m)" for i
    using that inv puts in_range [of i] unfolding fm_inv_def puts_slot_def
    by (auto simp: put_pair_def nth_list_update slot_agrees_def)
  moreover have "reachable hf ?k md (fst kv) (i div 15)"
    if "i < length ?bs" "m_buckets ?m ! i = Some kv" for i kv
  proof (cases "i = b")
    case True
    with that reach show ?thesis by (auto simp: put_pair_def)
  next
    case False
    with that have "?bs ! i = Some kv" by (simp add: put_pair_def)
    with inv that(1) have "reachable hf ?k (m_metadata m) (fst kv) (i div 15)"
      unfolding fm_inv_def by blast
    then show ?thesis
      by (rule reachable_mono [OF _ k]) (use puts in \<open>auto simp: puts_slot_def\<close>)
  qed
  moreover have "i = j" if "i \<in> filled (m_buckets ?m)" "j \<in> filled (m_buckets ?m)"
    "fst (the (m_buckets ?m ! i)) = fst (the (m_buckets ?m ! j))" for i j
  proof -
    have new: "fst (the (?bs ! i)) \<noteq> key" if "i \<in> filled ?bs" for i
      using that fm_map_None [OF inv, of key] absent by (force simp: filled_def)
    have old: "i = j" if "i \<in> filled ?bs" "j \<in> filled ?bs" "fst (the (?bs ! i)) = fst (the (?bs ! j))" for i j
      using that inv unfolding fm_inv_def by blast
    have "b \<notin> filled ?bs" using b by (simp add: filled_def)
    with that new old b show ?thesis
      by (cases "i = b"; cases "j = b") (auto simp: put_pair_def filled_put)
  qed
  moreover have "card (filled (m_buckets ?m)) = card (filled ?bs) + 1"
    using b by (simp add: put_pair_def filled_put) (simp add: filled_def)
  ultimately show ?thesis
    using inv room unfolding fm_inv_def by (auto simp: put_pair_def bucket_count_def)
qed

lemma fm_map_put_pair:
  assumes "fm_inv hf m" and "fm_inv hf (put_pair m md b (key, v))"
    and "b < length (m_buckets m)" and "m_buckets m ! b = None" and "fm_map m key = None"
  shows "fm_map (put_pair m md b (key, v)) = (fm_map m)(key \<mapsto> v)"
proof
  fix key'
  have "fm_map (put_pair m md b (key, v)) key' = Some w \<longleftrightarrow> ((fm_map m)(key \<mapsto> v)) key' = Some w" for w
    using fm_map_Some [OF assms(1)] fm_map_None [OF assms(1), of key] assms(5)
    unfolding fm_map_Some [OF assms(2)] put_pair_map [OF assms(3,4)] by auto
  then show "fm_map (put_pair m md b (key, v)) key' = ((fm_map m)(key \<mapsto> v)) key'"
    by (metis not_None_eq)
qed

text \<open>The slot that \<^verbatim>\<open>probeEmptyIndex\<close> finds and \<^verbatim>\<open>setBucketHash\<close> fills.\<close>

lemma set_bucket_of_marked:
  assumes "k \<le> 31" and "length md = 2 ^ k" and "\<forall>g\<in>set md. length (slots g) = 15"
    and "g < 2 ^ k" and "e < 15"
  shows "puts_slot k md (g * 15 + e) (reduceHash (hash_8 hash))
           (setBucketHash (mark_groups h8 gs md) (int g * 15 + int e) hash)"
proof -
  let ?md = "mark_groups h8 gs md"
  let ?new = "setBucket (?md ! g) (int e) (ucast hash)"
  have set: "setBucketHash ?md (int g * 15 + int e) hash = ?md[g := ?new]"
    using assms(5) by (simp add: setBucketHash_def)
  have ofw: "getMaybeOverflowed ?new h = getMaybeOverflowed (?md ! g) h" for h
    by (simp add: getMaybeOverflowed_def setBucket_def)
  have len_slots: "length (slots (?md ! i)) = 15" if "i < 2 ^ k" for i
    using that assms(2,3) by simp
  have "length (slots g') = 15" if "g' \<in> set (?md[g := ?new])" for g'
    using that assms(2,4) len_slots
    by (auto simp: in_set_conv_nth nth_list_update_in setBucket_def split: if_splits)
  moreover have "slot_at (?md[g := ?new]) (int j) =
      (if j = g * 15 + e then reduceHash (hash_8 hash) else slot_at md (int j))"
    if "j < 2 ^ k * 15" for j
  proof -
    have jg: "j div 15 < 2 ^ k" using that by (simp add: less_mult_imp_div_less)
    have j: "nat (int j div 15) = j div 15" "nat (int j mod 15) = j mod 15"
      by (simp_all add: nat_div_distrib nat_mod_distrib)
    have eq: "j = g * 15 + e \<longleftrightarrow> j div 15 = g \<and> j mod 15 = e" using assms(5) by auto
    show ?thesis
      unfolding slot_at_def j eq using jg assms(2,4,5) len_slots [of g]
      by (auto simp: nth_list_update_in setBucket_def hash_8_def)
  qed
  moreover have "getMaybeOverflowed (?md[g := ?new] ! i) h"
    if "i < 2 ^ k" "getMaybeOverflowed (md ! i) h" for i h
    using that assms(2) ofw overflow_mark_groups_mono [of i md h h8 gs]
    by (auto simp: nth_list_update_in)
  ultimately show ?thesis
    unfolding puts_slot_def set by simp
qed

lemma free_group_exists:
  assumes inv: "fm_inv hf m"
  obtains g where "g < 2 ^ m_numGroups2 m" and "getEmptyBucket (m_metadata m ! g) \<noteq> InvalidSlot"
proof -
  let ?md = "m_metadata m" and ?bs = "m_buckets m"
  obtain i where i: "i < length ?bs" "?bs ! i = None" by (rule free_bucket_exists [OF inv])
  have "slot_at ?md (int i) = 0" using slot_filled_iff [OF inv i(1)] i(2) by simp
  then have "slots (?md ! (i div 15)) ! (i mod 15) = 0"
    by (simp add: slot_at_def nat_div_distrib nat_mod_distrib)
  then have "getEmptyBucket (?md ! (i div 15)) \<noteq> InvalidSlot"
    unfolding getEmptyBucket_full by (metis mod_less_divisor zero_less_numeral)
  moreover have "i div 15 < 2 ^ m_numGroups2 m"
    using i(1) fm_inv_shape [OF inv] by (simp add: table_shape_def less_mult_imp_div_less)
  ultimately show thesis using that by blast
qed

lemma marked_reachable:
  assumes "k \<le> 31" and "length md = 2 ^ k" and "\<forall>g\<in>set md. length (slots g) = 15"
    and "n < 2 ^ k" and "e < 15"
    and "md' = setBucketHash (mark_groups (h8_of hf key) (map (group_seq hf k key) [0..<n]) md)
                 (int (group_seq hf k key n) * 15 + int e) (HashMixer64 hf key)"
  shows "reachable hf k md' key (group_seq hf k key n)"
proof -
  let ?marked = "mark_groups (h8_of hf key) (map (group_seq hf k key) [0..<n]) md"
  have g: "group_seq hf k key j < 2 ^ k" if "j \<le> n" for j
    using probed_less [OF assms(1)] assms(4) that by simp
  have puts: "puts_slot k ?marked (group_seq hf k key n * 15 + e) (reduceHash (h8_of hf key)) md'"
    using set_bucket_of_marked [of k ?marked "group_seq hf k key n" e "HashMixer64 hf key" 0 "[]"]
      length_slots_mark_groups [OF assms(3)] assms g [of n] by simp
  have "getMaybeOverflowed (md' ! group_seq hf k key j) (h8_of hf key)" if "j < n" for j
  proof -
    have "getMaybeOverflowed (?marked ! group_seq hf k key j) (h8_of hf key)"
      using assms(2) that g [of j] by (intro overflow_mark_groups) auto
    then show ?thesis using puts g [of j] that by (simp add: puts_slot_def)
  qed
  with assms(4) show ?thesis unfolding reachable_def by blast
qed

lemma place_new:
  assumes inv: "fm_inv hf m" and absent: "fm_map m key = None"
    and room: "8 * (int (m_loadCount m) + 1) < 7 * bucket_count m"
  obtains b md where
    "probeEmptyIndex (m_numGroups2 m) (m_metadata m) (HashMixer64 hf key) = (md, int b)"
    and "b < length (m_buckets m)" and "m_buckets m ! b = None"
    and "\<And>v. fm_inv hf (put_pair m (setBucketHash md (int b) (HashMixer64 hf key)) b (key, v))"
    and "\<And>v. fm_map (put_pair m (setBucketHash md (int b) (HashMixer64 hf key)) b (key, v)) =
             (fm_map m)(key \<mapsto> v)"
proof -
  let ?k = "m_numGroups2 m" and ?md = "m_metadata m" and ?bs = "m_buckets m"
  let ?hash = "HashMixer64 hf key"
  note shape = fm_inv_shape [OF inv]
  have k: "?k \<le> 31" and len: "length ?md = 2 ^ ?k" and lbs: "length ?bs = 2 ^ ?k * 15 - 1"
    and slots15: "\<forall>g\<in>set ?md. length (slots g) = 15"
    using shape by (auto simp: table_shape_def)
  obtain g0 where g0: "g0 < 2 ^ ?k" "getEmptyBucket (?md ! g0) \<noteq> - 1"
    by (rule free_group_exists [OF inv])
  from probeEmptyIndex_finds [OF k len g0, of ?hash] obtain n where
    n: "n < 2 ^ ?k" "getEmptyBucket (?md ! probed ?k ?hash n) \<noteq> - 1"
    and found: "probeEmptyIndex ?k ?md ?hash =
      (mark_groups (hash_8 ?hash) (map (probed ?k ?hash) [0..<n]) ?md,
       int (probed ?k ?hash n) * 15 + getEmptyBucket (?md ! probed ?k ?hash n))" by blast
  let ?g = "probed ?k ?hash n"
  define e where "e = nat (getEmptyBucket (?md ! ?g))"
  define marked where "marked = mark_groups (hash_8 ?hash) (map (probed ?k ?hash) [0..<n]) ?md"
  have e: "e < 15" "slots (?md ! ?g) ! e = 0" "getEmptyBucket (?md ! ?g) = int e"
    using getEmptyBucket_found [OF n(2)] by (auto simp: e_def)
  have g: "?g < 2 ^ ?k" using probed_less [OF k] n(1) by simp
  define b where "b = ?g * 15 + e"
  have slot_b: "slot_at ?md (int b) = 0"
    using slot_at_group [of "int e" ?md ?g] e by (simp add: b_def)
  have "b \<noteq> length ?bs"
    using slot_b shape by (auto simp: table_shape_def bucket_count_def)
  moreover have "b < 2 ^ ?k * 15" using g e(1) unfolding b_def by linarith
  ultimately have b: "b < length ?bs" using lbs by linarith
  then have b_none: "?bs ! b = None" using slot_filled_iff [OF inv b] slot_b by metis
  let ?md' = "setBucketHash marked (int b) ?hash"
  have puts: "puts_slot ?k ?md b (reduceHash (h8_of hf key)) ?md'"
    using set_bucket_of_marked [OF k len slots15 g e(1)] by (simp add: b_def marked_def)
  have reach: "reachable hf ?k ?md' key (b div 15)"
    using marked_reachable [OF k len slots15 n(1) e(1), of ?md' hf key] e(1)
    by (simp add: b_def marked_def)
  have inv': "fm_inv hf (put_pair m ?md' b (key, v))" for v
    by (rule fm_inv_put_pair [OF inv b b_none absent puts reach room])
  have "fm_map (put_pair m ?md' b (key, v)) = (fm_map m)(key \<mapsto> v)" for v
    by (rule fm_map_put_pair [OF inv inv' b b_none absent])
  with that [of marked b] found b b_none inv' e(3) show thesis
    by (simp add: marked_def b_def)
qed

section \<open>A fresh map\<close>

lemma numGroups2_new:
  assumes "1 \<le> n" and "n < 2 ^ 31"
  obtains p where "nat (31 - countl_zero (of_int n)) = p" and "2 ^ p \<le> n" and "n < 2 ^ Suc p"
proof -
  have "sint (of_int n :: int32) = n"
    using assms by (simp add: sint_sbintrunc' signed_take_bit_int_eq_self_iff)
  with assms countl_zero_positive [of "of_int n"] that show thesis by auto
qed

lemma numGroups_for_bounds:
  assumes "29 \<le> bc" and "bc < 15 * 2 ^ 27"
  shows "2 \<le> numGroups_for bc" and "numGroups_for bc \<le> 2 ^ 27"
    and "bc < numGroups_for bc * 15" and "numGroups_for bc * 15 \<le> bc + 15"
  using assms unfolding numGroups_for_def by linarith+

lemma FlatMap_new_eq:
  assumes "bc < 15 * 2 ^ 27"
  obtains p where "1 \<le> p" and "p \<le> 27"
    and "2 ^ p \<le> numGroups_for (max 29 bc)" and "numGroups_for (max 29 bc) < 2 ^ Suc p"
    and "(FlatMap_new bc :: ('k, 'v) FlatMap) =
      \<lparr>m_numGroups2 = p, m_size = 0,
       m_metadata = (replicate (2 ^ p) GroupBucket_init)[2 ^ p - 1 := setSentinel GroupBucket_init],
       m_buckets = replicate (2 ^ p * 15 - 1) None, m_loadCount = 0\<rparr>"
proof -
  let ?n = "numGroups_for (max 29 bc)"
  have n: "2 \<le> ?n" "?n \<le> 2 ^ 27" using numGroups_for_bounds [of "max 29 bc"] assms by auto
  then obtain p where p: "nat (31 - countl_zero (of_int ?n)) = p" "2 ^ p \<le> ?n" "?n < 2 ^ Suc p"
    using numGroups2_new [of ?n] by auto
  have "1 \<le> p" using p(3) n(1) by (cases p) auto
  moreover have "p \<le> 27"
  proof (rule ccontr)
    assume "\<not> p \<le> 27"
    then have "(2 :: int) ^ 28 \<le> 2 ^ p" by (intro power_increasing) auto
    with p(2) n(2) show False by simp
  qed
  moreover have "(2 ^ p - 1 :: nat) < 2 ^ p" by simp
  ultimately show thesis
    using that [of p] p by (simp add: FlatMap_new_def Let_def)
qed

lemma last_slot_iff: "1 \<le> (P :: nat) \<Longrightarrow> j = P * 15 - 1 \<longleftrightarrow> j div 15 = P - 1 \<and> j mod 15 = 14"
proof (cases P)
  case (Suc Q)
  show ?thesis unfolding Suc by auto presburger
qed simp

text \<open>The state of a table of \<open>2 ^ p\<close> groups that holds no element.\<close>

abbreviation (input) empty_metadata :: "nat \<Rightarrow> GroupBucket list" where
  "empty_metadata p \<equiv> (replicate (2 ^ p) GroupBucket_init)[2 ^ p - 1 := setSentinel GroupBucket_init]"

lemma fm_inv_empty_table:
  assumes p: "1 \<le> p" "p \<le> 27" and k: "m_numGroups2 m = p" and md: "m_metadata m = empty_metadata p"
    and bs: "m_buckets m = replicate (2 ^ p * 15 - 1) None" and load: "m_loadCount m = 0"
  shows "fm_inv hf m" and "fm_map m = Map.empty"
proof -
  let ?md = "m_metadata m"
  have slot: "slot_at ?md (int j) = (if j = 2 ^ p * 15 - 1 then 1 else 0)" if "j < 2 ^ p * 15" for j
  proof -
    have "j div 15 < 2 ^ p" using that by (simp add: less_mult_imp_div_less)
    moreover have "j = 2 ^ p * 15 - 1 \<longleftrightarrow> j div 15 = 2 ^ p - 1 \<and> j mod 15 = 14"
      using last_slot_iff [of "2 ^ p" j] by simp
    ultimately show ?thesis
      by (auto simp: md slot_at_def nat_div_distrib nat_mod_distrib nth_list_update_in setSentinel_def
          GroupBucket_init_def)
  qed
  have "(1 :: nat) \<le> 2 ^ p" by simp
  then have "slot_at ?md (bucket_count m) = 1"
    using slot [of "2 ^ p * 15 - 1"] by (simp add: bucket_count_def bs)
  moreover have "\<forall>g\<in>set ?md. length (slots g) = 15"
    unfolding md
    by (auto simp: GroupBucket_init_def setSentinel_def dest!: set_update_subset_insert [THEN subsetD])
  ultimately have "table_shape m" using p by (simp add: table_shape_def k md bs)
  moreover have "filled (m_buckets m) = {}" by (auto simp: filled_def bs)
  moreover have "bucket_count m = 2 ^ p * 15 - 1" by (simp add: bucket_count_def bs)
  then have "0 < bucket_count m" using one_le_power [of "2 :: int" p] by linarith
  ultimately show "fm_inv hf m"
    unfolding fm_inv_def using slot by (auto simp: slot_agrees_def bs load)
  show "fm_map m = Map.empty" by (simp add: fm_map_def live_def map_filter_def bs)
qed

lemma fm_inv_new:
  assumes "bc < 15 * 2 ^ 27"
  shows "fm_inv hf (FlatMap_new bc :: ('k, 'v) FlatMap)"
    and "fm_map (FlatMap_new bc :: ('k, 'v) FlatMap) = Map.empty"
proof -
  obtain p where p: "1 \<le> p" "p \<le> 27"
    and new: "(FlatMap_new bc :: ('k, 'v) FlatMap) =
      \<lparr>m_numGroups2 = p, m_size = 0, m_metadata = empty_metadata p,
       m_buckets = replicate (2 ^ p * 15 - 1) None, m_loadCount = 0\<rparr>"
    using FlatMap_new_eq [OF assms] by metis
  show "fm_inv hf (FlatMap_new bc :: ('k, 'v) FlatMap)"
    and "fm_map (FlatMap_new bc :: ('k, 'v) FlatMap) = Map.empty"
    unfolding new by (rule fm_inv_empty_table [OF p]; simp)+
qed

section \<open>Insertion\<close>

text \<open>Overwriting the value of a stored key.\<close>

lemma fm_inv_assign:
  assumes inv: "fm_inv hf m" and i: "i < length (m_buckets m)" and b: "m_buckets m ! i = Some (key, old)"
  shows "fm_inv hf (m\<lparr>m_buckets := (m_buckets m)[i := Some (key, v)]\<rparr>)" (is "fm_inv hf ?m")
    and "fm_map (m\<lparr>m_buckets := (m_buckets m)[i := Some (key, v)]\<rparr>) = (fm_map m)(key \<mapsto> v)"
proof -
  have fill: "filled (m_buckets ?m) = filled (m_buckets m)"
    using i b by (auto simp: filled_def nth_list_update)
  have keys: "fst (the (m_buckets ?m ! j)) = fst (the (m_buckets m ! j))" for j
    using i b by (auto simp: nth_list_update)
  have agree: "slot_agrees hf byte (m_buckets ?m ! j) = slot_agrees hf byte (m_buckets m ! j)" for byte j
    using i b by (auto simp: nth_list_update slot_agrees_def)
  have count: "bucket_count ?m = bucket_count m" by (simp add: bucket_count_def)
  then have "table_shape ?m" using fm_inv_shape [OF inv] by (simp add: table_shape_def)
  moreover have "reachable hf (m_numGroups2 m) (m_metadata m) (fst kv) (j div 15)"
    if j: "j < length (m_buckets m)" "m_buckets ?m ! j = Some kv" for j kv
  proof -
    obtain kv' where "m_buckets m ! j = Some kv'" "fst kv' = fst kv"
      using j i b by (cases "j = i") (auto simp: nth_list_update)
    then show ?thesis using inv j(1) unfolding fm_inv_def by metis
  qed
  ultimately show inv': "fm_inv hf ?m"
    using inv fill keys agree count unfolding fm_inv_def by auto
  show "fm_map ?m = (fm_map m)(key \<mapsto> v)"
  proof
    fix key'
    have "m_buckets ?m ! j = Some (key', w) \<longleftrightarrow>
        (if key' = key then j = i \<and> w = v else m_buckets m ! j = Some (key', w))"
      if "j < length (m_buckets m)" for j w
      using that b fm_inv_key_unique [OF inv that i _ b] by (auto simp: nth_list_update_in)
    then have "fm_map ?m key' = Some w \<longleftrightarrow> ((fm_map m)(key \<mapsto> v)) key' = Some w" for w
      using i unfolding fm_map_Some [OF inv'] by (auto simp: fm_map_Some [OF inv])
    then show "fm_map ?m key' = ((fm_map m)(key \<mapsto> v)) key'" by (metis not_None_eq)
  qed
qed

lemma insert_by_existing:
  assumes inv: "fm_inv hf m" and some: "fm_map m key = Some old"
  obtains m' where "insert_by rh hf assign m (key, v) = Some (m', find_key hf m key, False)"
    and "fm_inv hf m'" and "fm_map m' = (if assign then (fm_map m)(key \<mapsto> v) else fm_map m)"
    and "m_size m' = m_size m" and "m_loadCount m' = m_loadCount m"
    and "m_numGroups2 m' = m_numGroups2 m" and "find_key hf m' key = find_key hf m key"
proof -
  from find_key_cases [OF inv, of key] some obtain i
    where i: "i < length (m_buckets m)" "m_buckets m ! i = Some (key, old)" "find_key hf m key = int i"
    by auto
  let ?m = "if assign then m\<lparr>m_buckets := (m_buckets m)[i := Some (key, v)]\<rparr> else m"
  have "insert_by rh hf assign m (key, v) = Some (?m, find_key hf m key, False)"
    using i by (simp add: insert_by_def getEmplacePos_by_def emplaceImpl_def Let_def bucket_count_def)
  moreover have "find_key hf ?m key = int i" if "fm_inv hf ?m"
    using i by (intro find_key_present [OF that, of i key "if assign then v else old"]) auto
  ultimately show thesis
    using that [of ?m] fm_inv_assign [OF inv i(1,2), of v] inv i(3) by (cases assign) auto
qed

lemma insert_by_room:
  assumes inv: "fm_inv hf m" and absent: "fm_map m key = None"
    and room: "8 * (int (m_loadCount m) + 1) < 7 * bucket_count m"
  obtains m' b where "insert_by rh hf assign m (key, v) = Some (m', int b, True)"
    and "fm_inv hf m'" and "fm_map m' = (fm_map m)(key \<mapsto> v)"
    and "m_numGroups2 m' = m_numGroups2 m" and "m_size m' = m_size m + 1"
    and "m_loadCount m' = m_loadCount m + 1"
    and "b < length (m_buckets m')" and "m_buckets m' ! b = Some (key, v)"
proof -
  obtain b md where
    probe: "probeEmptyIndex (m_numGroups2 m) (m_metadata m) (HashMixer64 hf key) = (md, int b)"
    and b: "b < length (m_buckets m)"
    and inv': "\<And>v. fm_inv hf (put_pair m (setBucketHash md (int b) (HashMixer64 hf key)) b (key, v))"
    and map': "\<And>v. fm_map (put_pair m (setBucketHash md (int b) (HashMixer64 hf key)) b (key, v)) =
             (fm_map m)(key \<mapsto> v)"
    using place_new [OF assms] by metis
  let ?m = "put_pair m (setBucketHash md (int b) (HashMixer64 hf key)) b (key, v)"
  have "insert_by rh hf assign m (key, v) = Some (?m, int b, True)"
    using probe room find_key_absent [OF inv absent]
    by (simp add: insert_by_def getEmplacePos_by_def emplaceImpl_def put_pair_def)
  with that [of ?m b] inv' map' b show thesis by (simp add: put_pair_def)
qed

text \<open>Inserting pairs with new, distinct keys while there is room for all of them.\<close>

lemma insert_range_by_room:
  assumes "fm_inv hf m" and "distinct (map fst kvs)" and "\<forall>kv\<in>set kvs. fm_map m (fst kv) = None"
    and "8 * (int (m_loadCount m) + int (length kvs)) < 7 * bucket_count m"
  shows "\<exists>m'. insert_range_by rh hf m kvs = Some m' \<and> fm_inv hf m' \<and>
           fm_map m' = fm_map m ++ map_of kvs \<and> m_numGroups2 m' = m_numGroups2 m \<and>
           m_size m' = m_size m + length kvs \<and> m_loadCount m' = m_loadCount m + length kvs"
  using assms
proof (induction kvs arbitrary: m)
  case Nil
  then show ?case by simp
next
  case (Cons kv kvs)
  obtain key v where kv: "kv = (key, v)" by fastforce
  have room: "8 * (int (m_loadCount m) + 1) < 7 * bucket_count m" using Cons.prems(4) by simp
  have absent: "fm_map m key = None" using Cons.prems(3) kv by simp
  obtain m1 b where m1: "insert_by rh hf False m (key, v) = Some (m1, int b, True)"
    "fm_inv hf m1" "fm_map m1 = (fm_map m)(key \<mapsto> v)" "m_numGroups2 m1 = m_numGroups2 m"
    "m_size m1 = m_size m + 1" "m_loadCount m1 = m_loadCount m + 1"
    using insert_by_room [OF Cons.prems(1) absent room] by metis
  have "bucket_count m1 = bucket_count m"
    using shape_bucket_count [OF fm_inv_shape] m1(2,4) Cons.prems(1) by metis
  then have "8 * (int (m_loadCount m1) + int (length kvs)) < 7 * bucket_count m1"
    using Cons.prems(4) m1(6) by simp
  moreover have key: "key \<notin> fst ` set kvs" and dist: "distinct (map fst kvs)"
    using Cons.prems(2) kv by auto
  then have "\<forall>kv\<in>set kvs. fm_map m1 (fst kv) = None"
    using Cons.prems(3) m1(3) by auto
  ultimately obtain m' where m': "insert_range_by rh hf m1 kvs = Some m'" "fm_inv hf m'"
    "fm_map m' = fm_map m1 ++ map_of kvs" "m_numGroups2 m' = m_numGroups2 m1"
    "m_size m' = m_size m1 + length kvs" "m_loadCount m' = m_loadCount m1 + length kvs"
    using Cons.IH [OF m1(2) dist] by blast
  have "map_of kvs key = None" using key by (simp add: map_of_eq_None_iff)
  then have map': "fm_map m' = fm_map m ++ map_of (kv # kvs)"
    unfolding m'(3) m1(3) kv by (auto simp: fun_eq_iff map_add_def split: option.splits)
  have "insert_range_by rh hf m (kv # kvs) = Some m'" using m1(1) m'(1) kv by simp
  with map' m1 m' show ?case by (metis One_nat_def add.assoc length_Cons plus_1_eq_Suc)
qed

section \<open>Rehashing\<close>

lemma distinct_live:
  assumes "fm_inv hf m"
  shows "distinct (map fst (live m))"
proof -
  have "inj_on (\<lambda>i. fst (the (m_buckets m ! i))) (filled (m_buckets m))"
    using assms unfolding fm_inv_def inj_on_def by blast
  moreover have "set (filter (\<lambda>j. m_buckets m ! j \<noteq> None) [0..<length (m_buckets m)]) = filled (m_buckets m)"
    by (auto simp: filled_def)
  ultimately show ?thesis
    by (simp add: live_nth distinct_map comp_def)
qed

lemma length_live: "length (live m) = card (filled (m_buckets m))"
proof -
  let ?is = "filter (\<lambda>j. m_buckets m ! j \<noteq> None) [0..<length (m_buckets m)]"
  have "length (live m) = card (set ?is)"
    unfolding live_nth length_map by (rule distinct_card [symmetric]) simp
  also have "set ?is = filled (m_buckets m)" by (auto simp: filled_def)
  finally show ?thesis .
qed

text \<open>Rehashing into a table that has room for every element keeps the contents.\<close>

lemma rehash_depth_room:
  assumes inv: "fm_inv hf m" and size: "max (int (m_size m)) bc < 15 * 2 ^ 27"
    and room: "8 * int (card (filled (m_buckets m))) <
        7 * bucket_count (FlatMap_new (max (int (m_size m)) bc) :: ('k, 'v) FlatMap)"
  shows "\<exists>m'. rehash_depth (Suc n) hf bc (m :: ('k, 'v) FlatMap) = Some m' \<and> fm_inv hf m' \<and>
           fm_map m' = fm_map m \<and> m_size m' = card (filled (m_buckets m)) \<and>
           m_loadCount m' = card (filled (m_buckets m)) \<and>
           m_numGroups2 m' = m_numGroups2 (FlatMap_new (max (int (m_size m)) bc) :: ('k, 'v) FlatMap)"
proof -
  let ?new = "FlatMap_new (max (int (m_size m)) bc) :: ('k, 'v) FlatMap"
  have zero: "m_size ?new = 0" "m_loadCount ?new = 0" by (simp_all add: FlatMap_new_def Let_def)
  obtain m' where m': "insert_range_by (rehash_depth n hf) hf ?new (live m) = Some m'" "fm_inv hf m'"
    "fm_map m' = fm_map ?new ++ map_of (live m)" "m_numGroups2 m' = m_numGroups2 ?new"
    "m_size m' = length (live m)" "m_loadCount m' = length (live m)"
    using insert_range_by_room [OF fm_inv_new(1) [OF size] distinct_live [OF inv],
        of "rehash_depth n hf"] room
    unfolding fm_inv_new(2) [OF size] zero length_live by auto
  have "fm_map m' = fm_map m"
    unfolding m'(3) fm_inv_new(2) [OF size] by (simp add: fm_map_def)
  with m' show ?thesis
    using elements_eq_live [OF inv] length_live [of m] by simp
qed

lemma new_count_ge:
  assumes "30 * 2 ^ k - 1 \<le> bc" and "bc < 15 * 2 ^ 27"
  shows "k < m_numGroups2 (FlatMap_new bc :: ('k, 'v) FlatMap)"
proof -
  have "(30 :: int) \<le> 30 * 2 ^ k" by simp
  with assms(1) have max: "max 29 bc = bc" by linarith
  obtain p where p: "numGroups_for bc < 2 ^ Suc p" "m_numGroups2 (FlatMap_new bc :: ('k, 'v) FlatMap) = p"
    using FlatMap_new_eq [OF assms(2), where 'k = 'k and 'v = 'v] unfolding max
    by (metis select_convs(1))
  have "2 ^ Suc k \<le> numGroups_for bc"
    using assms(1) unfolding numGroups_for_def by simp
  with p(1) have "(2 :: int) ^ Suc k < 2 ^ Suc p" by linarith
  with p(2) show ?thesis by simp
qed

text \<open>
  Growing when the load limit is reached: the new table has at least twice as many groups,
  so the nested insertions never rehash again.
\<close>

lemma grow_makes_room:
  assumes inv: "fm_inv hf (m :: ('k, 'v) FlatMap)" and k: "m_numGroups2 m < 27"
    and size: "int (m_size m) < 15 * 2 ^ 27"
  shows "\<exists>m'. rehash_depth (Suc n) hf (int (length (m_metadata m)) * 2 * 15 - 1) m = Some m' \<and>
           fm_inv hf m' \<and> fm_map m' = fm_map m \<and>
           8 * (int (m_loadCount m') + 1) < 7 * bucket_count m' \<and>
           m_size m' = card (filled (m_buckets m)) \<and> m_loadCount m' = card (filled (m_buckets m)) \<and>
           m_numGroups2 m' = m_numGroups2
             (FlatMap_new (max (int (m_size m)) (int (length (m_metadata m)) * 2 * 15 - 1)) :: ('k, 'v) FlatMap)"
proof -
  let ?k = "m_numGroups2 m" and ?bc = "int (length (m_metadata m)) * 2 * 15 - 1"
  let ?new = "FlatMap_new (max (int (m_size m)) ?bc) :: ('k, 'v) FlatMap"
  note shape = fm_inv_shape [OF inv]
  have len: "length (m_metadata m) = 2 ^ ?k" and cnt: "bucket_count m = 2 ^ ?k * 15 - 1"
    using shape shape_bucket_count [OF shape] by (auto simp: table_shape_def)
  have "(2 :: int) ^ Suc ?k \<le> 2 ^ 27" using k by (intro power_increasing) auto
  then have max: "max (int (m_size m)) ?bc < 15 * 2 ^ 27" using size len by simp
  have "?k < m_numGroups2 ?new" using len max by (intro new_count_ge) auto
  then have pow: "(2 :: int) ^ Suc ?k \<le> 2 ^ m_numGroups2 ?new" by (intro power_increasing) auto
  moreover have new: "bucket_count ?new = 2 ^ m_numGroups2 ?new * 15 - 1"
    by (rule shape_bucket_count [OF fm_inv_shape [OF fm_inv_new(1) [OF max]]])
  moreover have load: "card (filled (m_buckets m)) \<le> m_loadCount m" "8 * int (m_loadCount m) < 7 * bucket_count m"
    using inv by (auto simp: fm_inv_def)
  moreover have one: "(1 :: int) \<le> 2 ^ ?k" by simp
  ultimately have big: "8 * (int (card (filled (m_buckets m))) + 1) < 7 * bucket_count ?new"
    using cnt by simp
  obtain m' where m': "rehash_depth (Suc n) hf ?bc m = Some m'" "fm_inv hf m'" "fm_map m' = fm_map m"
    "m_loadCount m' = card (filled (m_buckets m))" "m_numGroups2 m' = m_numGroups2 ?new"
    "m_size m' = card (filled (m_buckets m))"
    using rehash_depth_room [OF inv max, of n] big by auto
  moreover have "bucket_count m' = bucket_count ?new"
    using shape_bucket_count [OF fm_inv_shape [OF m'(2)]] m'(5) new by simp
  ultimately show ?thesis using big by auto
qed

section \<open>Removal\<close>

lemma slot_clear:
  assumes "k \<le> 31" and "length md = 2 ^ k" and "\<forall>g\<in>set md. length (slots g) = 15" and "b < 2 ^ k * 15"
  shows "puts_slot k md b 0 (fst (clearBucket md (int b) hash))"
    and "snd (clearBucket md (int b) hash) = getMaybeOverflowed (md ! (b div 15)) (hash_8 hash)"
proof -
  let ?g = "b div 15" and ?e = "b mod 15"
  let ?new = "clearSlot (md ! ?g) (int ?e)"
  have b: "nat (int b div 15) = ?g" "int b mod 15 = int ?e" by (simp_all add: nat_div_distrib zmod_int)
  have clear: "clearBucket md (int b) hash = (md[?g := ?new], getMaybeOverflowed ?new (ucast hash))"
    by (simp only: clearBucket_def Let_def b)
  have g: "?g < 2 ^ k" using assms(4) by (simp add: less_mult_imp_div_less)
  have ofw: "getMaybeOverflowed ?new h = getMaybeOverflowed (md ! ?g) h" for h
    by (simp add: getMaybeOverflowed_def clearSlot_def)
  show "snd (clearBucket md (int b) hash) = getMaybeOverflowed (md ! ?g) (hash_8 hash)"
    by (simp add: clear ofw hash_8_def)
  have len_slots: "length (slots (md ! i)) = 15" if "i < 2 ^ k" for i
    using that assms(2,3) by simp
  have "length (slots g') = 15" if "g' \<in> set (md[?g := ?new])" for g'
    using that assms(2) g len_slots
    by (auto simp: in_set_conv_nth nth_list_update_in clearSlot_def split: if_splits)
  moreover have "slot_at (md[?g := ?new]) (int j) = (if j = b then 0 else slot_at md (int j))"
    if "j < 2 ^ k * 15" for j
  proof -
    have jg: "j div 15 < 2 ^ k" using that by (simp add: less_mult_imp_div_less)
    have j: "nat (int j div 15) = j div 15" "nat (int j mod 15) = j mod 15"
      by (simp_all add: nat_div_distrib nat_mod_distrib)
    have eq: "j = b \<longleftrightarrow> j div 15 = ?g \<and> j mod 15 = ?e" by (metis div_mult_mod_eq)
    show ?thesis
      unfolding slot_at_def j eq using jg assms(2) g len_slots [of ?g]
      by (auto simp: nth_list_update_in clearSlot_def)
  qed
  ultimately show "puts_slot k md b 0 (fst (clearBucket md (int b) hash))"
    unfolding puts_slot_def clear using ofw assms(2) g by (auto simp: nth_list_update_in)
qed

definition drop_pair :: "('k, 'v) FlatMap \<Rightarrow> GroupBucket list \<Rightarrow> nat \<Rightarrow> nat \<Rightarrow> ('k, 'v) FlatMap" where
  "drop_pair m md load b = m\<lparr>m_metadata := md, m_loadCount := load, m_buckets := (m_buckets m)[b := None]\<rparr>"

lemma fm_inv_drop_pair:
  assumes inv: "fm_inv hf m" and b: "b < length (m_buckets m)" "m_buckets m ! b \<noteq> None"
    and puts: "puts_slot (m_numGroups2 m) (m_metadata m) b 0 md"
    and load: "m_loadCount m \<le> Suc load" "load \<le> m_loadCount m"
  shows "fm_inv hf (drop_pair m md load b)" (is "fm_inv hf ?m")
proof -
  let ?k = "m_numGroups2 m" and ?bs = "m_buckets m"
  note shape = fm_inv_shape [OF inv]
  have len: "length ?bs = 2 ^ ?k * 15 - 1" and k: "?k \<le> 31"
    using shape by (auto simp: table_shape_def)
  then have lt: "length ?bs < 2 ^ ?k * 15" and in_range: "i < 2 ^ ?k * 15" if "i < length ?bs" for i
    using that by auto
  have cnt: "bucket_count ?m = bucket_count m" by (simp add: drop_pair_def bucket_count_def)
  moreover have "slot_at md (bucket_count m) = slot_at (m_metadata m) (bucket_count m)"
    using puts lt [OF b(1)] b(1) unfolding bucket_count_def puts_slot_def by (auto simp del: of_nat_diff)
  ultimately have "table_shape ?m"
    using shape puts unfolding table_shape_def puts_slot_def by (simp add: drop_pair_def)
  moreover have "slot_agrees hf (slot_at (m_metadata ?m) (int i)) (m_buckets ?m ! i)"
    if "i < length (m_buckets ?m)" for i
    using that inv puts in_range [of i] unfolding fm_inv_def puts_slot_def
    by (auto simp: drop_pair_def nth_list_update slot_agrees_def)
  moreover have "reachable hf ?k md (fst kv) (i div 15)"
    if i: "i < length ?bs" "m_buckets ?m ! i = Some kv" for i kv
  proof -
    from i b have "?bs ! i = Some kv"
      by (simp add: drop_pair_def nth_list_update_in split: if_splits)
    with inv i(1) have "reachable hf ?k (m_metadata m) (fst kv) (i div 15)"
      unfolding fm_inv_def by blast
    then show ?thesis
      by (rule reachable_mono [OF _ k]) (use puts in \<open>auto simp: puts_slot_def\<close>)
  qed
  moreover have fill: "filled (m_buckets ?m) = filled ?bs - {b}"
    using b by (simp add: drop_pair_def filled_remove)
  moreover have "i = j" if ij: "i \<in> filled (m_buckets ?m)" "j \<in> filled (m_buckets ?m)"
    "fst (the (m_buckets ?m ! i)) = fst (the (m_buckets ?m ! j))" for i j
    using ij inv unfolding fill fm_inv_def by (auto simp: drop_pair_def)
  moreover have "b \<in> filled ?bs" using b by (simp add: filled_def)
  then have "card (filled (m_buckets ?m)) + 1 = card (filled ?bs)"
    unfolding fill by (metis Suc_eq_plus1 card_Suc_Diff1 filled_finite)
  ultimately show ?thesis
    using inv load cnt unfolding fm_inv_def by (auto simp: drop_pair_def)
qed

lemma erase_at_eq:
  assumes inv: "fm_inv hf m" and i: "i < length (m_buckets m)" and b: "m_buckets m ! i = Some (key, v)"
  obtains md load where "fst (erase_at hf m (int i)) = drop_pair m md load i"
    and "fm_inv hf (drop_pair m md load i)" and "fm_map (drop_pair m md load i) = (fm_map m)(key := None)"
    and "snd (erase_at hf m (int i)) = nextValidIndex md (int i)" and "load \<le> m_loadCount m"
proof -
  let ?k = "m_numGroups2 m" and ?md = "m_metadata m"
  have shape: "?k \<le> 31" "length ?md = 2 ^ ?k" "\<forall>g\<in>set ?md. length (slots g) = 15" "i < 2 ^ ?k * 15"
    using fm_inv_shape [OF inv] i by (auto simp: table_shape_def)
  let ?c = "clearBucket ?md (int i) (HashMixer64 hf key)"
  define load where "load = (if snd ?c then m_loadCount m else m_loadCount m - 1)"
  let ?m = "drop_pair m (fst ?c) load i"
  have erase: "fst (erase_at hf m (int i)) = ?m" "snd (erase_at hf m (int i)) = nextValidIndex (fst ?c) (int i)"
    using b by (simp_all add: erase_at_def drop_pair_def load_def Let_def split_beta)
  have inv': "fm_inv hf ?m"
    using inv i b slot_clear(1) [OF shape] by (intro fm_inv_drop_pair) (auto simp: load_def)
  have "fm_map ?m = (fm_map m)(key := None)"
  proof
    fix key'
    have "m_buckets ?m ! j = Some (key', w) \<longleftrightarrow> key' \<noteq> key \<and> m_buckets m ! j = Some (key', w)"
      if "j < length (m_buckets m)" for j w
      using that b fm_inv_key_unique [OF inv that i _ b]
      by (auto simp: drop_pair_def nth_list_update_in)
    then have "fm_map ?m key' = Some w \<longleftrightarrow> ((fm_map m)(key := None)) key' = Some w" for w
      unfolding fm_map_Some [OF inv'] by (auto simp: drop_pair_def fm_map_Some [OF inv])
    then show "fm_map ?m key' = ((fm_map m)(key := None)) key'" by (metis not_None_eq)
  qed
  moreover have "load \<le> m_loadCount m" by (simp add: load_def)
  ultimately show thesis using that erase inv' by blast
qed

section \<open>Growth bounds\<close>

text \<open>
  \<open>N\<close> bounds the number of insertions so far; six times the number of groups stays within
  \<open>N + 12\<close>, so while fewer than \<open>2 ^ 29\<close> elements have been inserted a table has at most \<open>2 ^ 26\<close> groups and
  can grow once more within the \<open>2 ^ 27\<close> groups whose buckets an \<^verbatim>\<open>int\<close> can number.
\<close>

definition fm_within :: "('k \<Rightarrow> uint64) \<Rightarrow> nat \<Rightarrow> ('k, 'v) FlatMap \<Rightarrow> bool" where
  "fm_within hf N m \<longleftrightarrow>
     fm_inv hf m \<and> m_loadCount m \<le> m_size m \<and> m_size m \<le> N \<and> 6 * 2 ^ m_numGroups2 m \<le> N + 12"

lemma fm_within_mono: "fm_within hf N m \<Longrightarrow> N \<le> M \<Longrightarrow> fm_within hf M m"
  by (simp add: fm_within_def)

lemma fm_within_inv: "fm_within hf N m \<Longrightarrow> fm_inv hf m"
  by (simp add: fm_within_def)

lemma fm_within_limits:
  assumes "fm_within hf N m" and "N < 2 ^ 29"
  shows "m_numGroups2 m < 27" and "int (m_size m) < 15 * 2 ^ 27"
proof -
  have "2 ^ m_numGroups2 m < (2 :: nat) ^ 27" using assms by (simp add: fm_within_def)
  then show "m_numGroups2 m < 27" by (rule power_less_imp_less_exp [rotated]) simp
  show "int (m_size m) < 15 * 2 ^ 27" using assms by (simp add: fm_within_def)
qed

lemma new_groups_le:
  assumes "int M < 15 * 2 ^ 27"
  shows "2 ^ m_numGroups2 (FlatMap_new (int M) :: ('k, 'v) FlatMap) \<le> M div 15 + 2"
proof -
  obtain p where p: "2 ^ p \<le> numGroups_for (max 29 (int M))"
    "m_numGroups2 (FlatMap_new (int M) :: ('k, 'v) FlatMap) = p"
    using FlatMap_new_eq [OF assms, where 'k = 'k and 'v = 'v] by (metis select_convs(1))
  have "numGroups_for (max 29 (int M)) \<le> int (M div 15 + 2)"
    unfolding numGroups_for_def by (cases "29 \<le> M") (simp_all add: zdiv_int)
  with p(1) have "(2 :: int) ^ p \<le> int (M div 15 + 2)" by linarith
  then have "2 ^ p \<le> M div 15 + 2" by (metis of_nat_le_iff of_nat_numeral of_nat_power)
  with p(2) show ?thesis by simp
qed

lemma fm_within_new:
  assumes "int M < 15 * 2 ^ 27"
  shows "fm_within hf M (FlatMap_new (int M) :: ('k, 'v) FlatMap)"
proof -
  have "m_size (FlatMap_new (int M) :: ('k, 'v) FlatMap) = 0"
    "m_loadCount (FlatMap_new (int M) :: ('k, 'v) FlatMap) = 0"
    by (simp_all add: FlatMap_new_def Let_def)
  moreover have "6 * (M div 15 + 2) \<le> M + 12" by simp
  ultimately show ?thesis
    using fm_inv_new(1) [OF assms, of hf, where 'v = 'v]
      new_groups_le [OF assms, where 'k = 'k and 'v = 'v]
    unfolding fm_within_def by linarith
qed

section \<open>Every insertion succeeds\<close>

lemma grow_within:
  assumes within: "fm_within hf N (m :: ('k, 'v) FlatMap)" and N: "N < 2 ^ 29"
    and over: "\<not> 8 * (int (m_loadCount m) + 1) < 7 * bucket_count m"
  shows "\<exists>g. rehash_depth (Suc n) hf (int (length (m_metadata m)) * 2 * 15 - 1) m = Some g \<and>
           fm_inv hf g \<and> fm_map g = fm_map m \<and> 8 * (int (m_loadCount g) + 1) < 7 * bucket_count g \<and>
           m_size g \<le> N \<and> m_loadCount g = m_size g \<and> 6 * 2 ^ m_numGroups2 g \<le> N + 13"
proof -
  note inv = fm_within_inv [OF within]
  note shape = fm_inv_shape [OF inv]
  let ?G = "length (m_metadata m)"
  define M where "M = max (m_size m) (?G * 2 * 15 - 1)"
  have G: "?G = 2 ^ m_numGroups2 m" and cnt: "bucket_count m = int ?G * 15 - 1"
    using shape shape_bucket_count [OF shape] by (auto simp: table_shape_def)
  have bounds: "m_loadCount m \<le> N" "m_size m \<le> N" "6 * ?G \<le> N + 12" "1 \<le> ?G"
    using within G by (auto simp: fm_within_def)
  have M: "max (int (m_size m)) (int ?G * 2 * 15 - 1) = int M"
  proof -
    have "int ?G * 2 * 15 - 1 = int (?G * 2 * 15 - 1)" using bounds(4) by (simp add: of_nat_diff)
    then show ?thesis by (simp only: M_def of_nat_max)
  qed
  have "?G \<le> 2 ^ 26"
    using fm_within_limits(1) [OF within N] unfolding G by (intro power_increasing) auto
  then have "int M < 15 * 2 ^ 27" using bounds(2,4) N unfolding M_def by simp
  then have "2 ^ m_numGroups2 (FlatMap_new (int M) :: ('k, 'v) FlatMap) \<le> M div 15 + 2"
    by (rule new_groups_le)
  then have "6 * 2 ^ m_numGroups2 (FlatMap_new (int M) :: ('k, 'v) FlatMap) \<le> 6 * (M div 15 + 2)"
    by (rule mult_le_mono2)
  also have "6 * (M div 15 + 2) \<le> N + 13"
    using over bounds cnt unfolding M_def by (auto simp: max_def)
  finally have grp: "6 * 2 ^ m_numGroups2 (FlatMap_new (int M) :: ('k, 'v) FlatMap) \<le> N + 13" .
  have "card (filled (m_buckets m)) \<le> m_size m" using inv by (simp add: fm_inv_def)
  with grow_makes_room [OF inv fm_within_limits [OF within N], of n] grp bounds show ?thesis
    unfolding M by auto
qed

lemma insert_by_within:
  assumes within: "fm_within hf N (m :: ('k, 'v) FlatMap)" and N: "N < 2 ^ 29"
  obtains m' b fresh where
    "insert_by (rehash_depth (Suc n) hf) hf assign m (key, v) = Some (m', b, fresh)"
    and "fm_within hf (Suc N) m'" and "fresh \<longleftrightarrow> fm_map m key = None"
    and "fm_map m' = (if fresh \<or> assign then (fm_map m)(key \<mapsto> v) else fm_map m)"
    and "find_key hf m' key = b"
proof (cases "fm_map m key")
  case (Some old)
  note inv = fm_within_inv [OF within]
  obtain m' where m': "insert_by (rehash_depth (Suc n) hf) hf assign m (key, v) = Some (m', find_key hf m key, False)"
    "fm_inv hf m'" "fm_map m' = (if assign then (fm_map m)(key \<mapsto> v) else fm_map m)"
    "m_size m' = m_size m" "m_loadCount m' = m_loadCount m" "m_numGroups2 m' = m_numGroups2 m"
    "find_key hf m' key = find_key hf m key"
    by (rule insert_by_existing [OF inv Some])
  with that [of m' "find_key hf m key" False] Some within show thesis by (simp add: fm_within_def)
next
  case None
  let ?rh = "rehash_depth (Suc n) hf"
  note inv = fm_within_inv [OF within]
  have "\<exists>g. insert_by ?rh hf assign m (key, v) = insert_by ?rh hf assign g (key, v) \<and>
      fm_inv hf g \<and> fm_map g = fm_map m \<and> 8 * (int (m_loadCount g) + 1) < 7 * bucket_count g \<and>
      m_size g \<le> N \<and> m_loadCount g \<le> m_size g \<and> 6 * 2 ^ m_numGroups2 g \<le> N + 13"
  proof (cases "8 * (int (m_loadCount m) + 1) < 7 * bucket_count m")
    case True
    with within show ?thesis by (intro exI [of _ m]) (auto simp: fm_within_def)
  next
    case False
    then obtain g where g: "?rh (int (length (m_metadata m)) * 2 * 15 - 1) m = Some g"
      "fm_inv hf g" "fm_map g = fm_map m" "8 * (int (m_loadCount g) + 1) < 7 * bucket_count g"
      "m_size g \<le> N" "m_loadCount g = m_size g" "6 * 2 ^ m_numGroups2 g \<le> N + 13"
      using grow_within [OF within N] by blast
    have "insert_by ?rh hf assign m (key, v) = insert_by ?rh hf assign g (key, v)"
      using False g find_key_absent [OF inv None] find_key_absent [OF g(2), of key] None
      by (simp add: insert_by_def getEmplacePos_by_def Let_def del: rehash_depth.simps)
    with g show ?thesis by auto
  qed
  then obtain g where g: "insert_by ?rh hf assign m (key, v) = insert_by ?rh hf assign g (key, v)"
    "fm_inv hf g" "fm_map g = fm_map m" "8 * (int (m_loadCount g) + 1) < 7 * bucket_count g"
    "m_size g \<le> N" "m_loadCount g \<le> m_size g" "6 * 2 ^ m_numGroups2 g \<le> N + 13" by blast
  have absent: "fm_map g key = None" using g(3) None by simp
  obtain m' b where m': "insert_by ?rh hf assign g (key, v) = Some (m', int b, True)"
    "fm_inv hf m'" "fm_map m' = (fm_map g)(key \<mapsto> v)" "m_numGroups2 m' = m_numGroups2 g"
    "m_size m' = m_size g + 1" "m_loadCount m' = m_loadCount g + 1"
    "b < length (m_buckets m')" "m_buckets m' ! b = Some (key, v)"
    by (rule insert_by_room [OF g(2) absent g(4)])
  with that [of m' "int b" True] None g find_key_present [OF m'(2,7,8)] show thesis
    by (simp add: fm_within_def)
qed

lemma insert_range_within:
  assumes "fm_within hf N m" and "N + length kvs \<le> 2 ^ 29"
  shows "\<exists>m'. insert_range_by (rehash_depth (Suc n) hf) hf m kvs = Some m' \<and>
           fm_within hf (N + length kvs) m' \<and> fm_map m' = map_of kvs ++ fm_map m"
  using assms
proof (induction kvs arbitrary: m N)
  case Nil
  then show ?case by simp
next
  case (Cons kv kvs)
  obtain key v where kv: "kv = (key, v)" by fastforce
  have N: "N < 2 ^ 29" using Cons.prems(2) by simp
  obtain m1 b fresh where m1: "insert_by (rehash_depth (Suc n) hf) hf False m (key, v) = Some (m1, b, fresh)"
    "fm_within hf (Suc N) m1" "fresh \<longleftrightarrow> fm_map m key = None"
    "fm_map m1 = (if fresh \<or> False then (fm_map m)(key \<mapsto> v) else fm_map m)"
    by (rule insert_by_within [OF Cons.prems(1) N])
  obtain m' where m': "insert_range_by (rehash_depth (Suc n) hf) hf m1 kvs = Some m'"
    "fm_within hf (Suc N + length kvs) m'" "fm_map m' = map_of kvs ++ fm_map m1"
    using Cons.IH [OF m1(2)] Cons.prems(2) by auto
  have "map_of kvs ++ fm_map m1 = map_of (kv # kvs) ++ fm_map m"
    using m1(3,4) kv by (auto simp: fun_eq_iff map_add_def split: option.splits)
  with m1(1) m' kv show ?case by (auto simp del: rehash_depth.simps map_of.simps)
qed


section \<open>Rehashing and range construction always succeed\<close>

lemma rehash_within:
  assumes within: "fm_within hf N (m :: ('k, 'v) FlatMap)" and bc: "0 \<le> bc" and N: "2 * int N + bc \<le> 2 ^ 29"
  shows "\<exists>m'. rehash hf m bc = Some m' \<and> fm_within hf (2 * N + nat bc) m' \<and> fm_map m' = fm_map m"
proof -
  note inv = fm_within_inv [OF within]
  have card: "card (filled (m_buckets m)) \<le> m_size m" and size: "m_size m \<le> N"
    using inv within by (auto simp: fm_inv_def fm_within_def)
  define M where "M = max (m_size m) (nat bc)"
  have M: "max (int (m_size m)) bc = int M" using bc by (simp add: M_def)
  have M_le: "M \<le> N + nat bc" using size by (simp add: M_def)
  then have small: "int M < 15 * 2 ^ 27" using N bc by simp
  have fits: "M + length (live m) \<le> 2 ^ 29" using M_le N bc card size unfolding length_live by simp
  let ?new = "FlatMap_new (int M) :: ('k, 'v) FlatMap"
  obtain m' where m': "insert_range_by (rehash_depth (Suc 0) hf) hf ?new (live m) = Some m'"
    "fm_within hf (M + length (live m)) m'" "fm_map m' = map_of (live m) ++ fm_map ?new"
    using insert_range_within [OF fm_within_new [OF small] fits] by blast
  have "fm_map m' = fm_map m"
    using m'(3) fm_inv_new(2) [OF small, where 'k = 'k and 'v = 'v] by (simp add: fm_map_def)
  moreover have "fm_within hf (2 * N + nat bc) m'"
    using m'(2) M_le card size unfolding length_live by (elim fm_within_mono) linarith
  moreover have "rehash hf m bc = Some m'"
    using m'(1) elements_eq_live [OF inv] unfolding rehash_def M [symmetric] numeral_2_eq_2 by simp
  ultimately show ?thesis by blast
qed

lemma FlatMap_of_range_within:
  assumes "0 \<le> max num_elems bc" and "max num_elems bc + int (length kvs) \<le> 2 ^ 29"
  shows "\<exists>m'. FlatMap_of_range hf num_elems kvs bc = Some m' \<and>
           fm_within hf (nat (max num_elems bc) + length kvs) m' \<and>
           fm_map (m' :: ('k, 'v) FlatMap) = map_of kvs"
proof -
  define M where "M = nat (max num_elems bc)"
  have M: "max num_elems bc = int M" using assms(1) by (simp add: M_def)
  have small: "int M < 15 * 2 ^ 27" and fits: "M + length kvs \<le> 2 ^ 29" using assms M by simp_all
  let ?new = "FlatMap_new (int M) :: ('k, 'v) FlatMap"
  obtain m' where "insert_range_by (rehash_depth (Suc 1) hf) hf ?new kvs = Some m'"
    "fm_within hf (M + length kvs) m'" "fm_map m' = map_of kvs ++ fm_map ?new"
    using insert_range_within [OF fm_within_new [OF small] fits] by blast
  then show ?thesis
    using fm_inv_new(2) [OF small, where 'k = 'k and 'v = 'v]
    by (simp add: FlatMap_of_range_def M numeral_2_eq_2 del: rehash_depth.simps)
qed

section \<open>Erasing a key\<close>

lemma erase_key_within:
  assumes "fm_within hf N m"
  shows "fm_within hf N (fst (erase_key hf m key))"
    and "fm_map (fst (erase_key hf m key)) = (fm_map m)(key := None)"
    and "snd (erase_key hf m key) = (if fm_map m key = None then 0 else 1)"
    and "m_size (fst (erase_key hf m key)) = m_size m"
proof -
  note inv = fm_within_inv [OF assms]
  have "fm_within hf N (fst (erase_key hf m key)) \<and>
        fm_map (fst (erase_key hf m key)) = (fm_map m)(key := None) \<and>
        snd (erase_key hf m key) = (if fm_map m key = None then 0 else 1) \<and>
        m_size (fst (erase_key hf m key)) = m_size m"
  proof (cases "fm_map m key")
    case None
    then have "erase_key hf m key = (m, 0)" using find_key_absent [OF inv None] by (simp add: erase_key_def)
    with None assms show ?thesis by (simp add: fun_upd_idem)
  next
    case (Some v)
    with find_key_cases [OF inv, of key] obtain i where
      i: "i < length (m_buckets m)" "m_buckets m ! i = Some (key, v)" "find_key hf m key = int i" by auto
    obtain md load where e: "fst (erase_at hf m (int i)) = drop_pair m md load i"
      "fm_inv hf (drop_pair m md load i)" "fm_map (drop_pair m md load i) = (fm_map m)(key := None)"
      "load \<le> m_loadCount m"
      by (rule erase_at_eq [OF inv i(1,2)])
    have "erase_key hf m key = (drop_pair m md load i, 1)"
      using i e(1) by (simp add: erase_key_def bucket_count_def)
    moreover have "fm_within hf N (drop_pair m md load i)"
      using assms e(2,4) by (simp add: fm_within_def drop_pair_def)
    ultimately show ?thesis using e(3) Some by (simp add: drop_pair_def)
  qed
  then show "fm_within hf N (fst (erase_key hf m key))"
    and "fm_map (fst (erase_key hf m key)) = (fm_map m)(key := None)"
    and "snd (erase_key hf m key) = (if fm_map m key = None then 0 else 1)"
    and "m_size (fst (erase_key hf m key)) = m_size m" by blast+
qed


section \<open>Clearing and copying\<close>

lemma length_fold_update [simp]: "length (fold (\<lambda>i bs. bs[nat i := f i]) is bs) = length bs"
  by (induction "is" arbitrary: bs) simp_all

lemma fold_update_nth:
  assumes "j < length bs"
  shows "fold (\<lambda>i bs. bs[nat i := f (nat i)]) is bs ! j = (if j \<in> nat ` set is then f j else bs ! j)"
  using assms by (induction "is" arbitrary: bs) (auto simp: nth_list_update_in)

text \<open>The indices visited depend on the metadata only.\<close>

lemma indices_from_metadata:
  assumes "m_metadata a = m_metadata b" and "bucket_count a = bucket_count b"
    and "indices_from b i = Some is"
  shows "indices_from a i = Some is"
  using assms(3)
proof (induction "is" arbitrary: i)
  case (Cons j "is")
  then have "i < bucket_count b" and "j = i" and "indices_from b (nextValidIndex (m_metadata b) i) = Some is"
    by (auto simp: indices_from.simps [of b i] bind_eq_Some_conv split: if_splits)
  with Cons.IH assms(1,2) show ?case by (subst indices_from.simps) simp
next
  case Nil
  then have "\<not> i < bucket_count b"
    by (auto simp: indices_from.simps [of b i] bind_eq_Some_conv split: if_splits)
  with assms(2) show ?case by (subst indices_from.simps) simp
qed

lemma copy_map_eq:
  assumes "fm_inv hf m"
  shows "copy_map m = Some m"
proof -
  let ?bare = "m\<lparr>m_buckets := replicate (length (m_buckets m)) None\<rparr>"
  let ?is = "map int (filter (\<lambda>j. m_buckets m ! j \<noteq> None) [0..<length (m_buckets m)])"
  have "indices_from ?bare (begin_index ?bare) = Some ?is"
    using indices_from_metadata [OF _ _ indices_from_begin [OF assms], of ?bare]
    by (simp add: begin_index_def bucket_count_def)
  moreover have "fold (\<lambda>i bs. bs[nat i := m_buckets m ! nat i]) ?is
      (replicate (length (m_buckets m)) None) = m_buckets m"
    by (rule nth_equalityI) (auto simp: fold_update_nth image_iff simp del: not_None_eq)
  ultimately show ?thesis by (simp add: copy_map_def)
qed

lemma clear_map_eq:
  assumes inv: "fm_inv hf m"
  shows "\<exists>m'. clear_map m = Some m' \<and> fm_inv hf m' \<and> fm_map m' = Map.empty \<and> m_size m' = 0 \<and>
           m_loadCount m' = 0 \<and> m_numGroups2 m' = m_numGroups2 m"
proof -
  let ?is = "map int (filter (\<lambda>j. m_buckets m ! j \<noteq> None) [0..<length (m_buckets m)])"
  let ?k = "m_numGroups2 m"
  let ?m = "m\<lparr>m_buckets := replicate (2 ^ ?k * 15 - 1) None, m_metadata := empty_metadata ?k,
              m_size := 0, m_loadCount := 0\<rparr>"
  have shape: "1 \<le> ?k" "?k \<le> 27" "length (m_metadata m) = 2 ^ ?k" "length (m_buckets m) = 2 ^ ?k * 15 - 1"
    using fm_inv_shape [OF inv] by (auto simp: table_shape_def)
  have "fold (\<lambda>i bs. bs[nat i := None]) ?is (m_buckets m) = replicate (2 ^ ?k * 15 - 1) None"
    by (rule nth_equalityI) (auto simp: fold_update_nth [where f = "\<lambda>_. None"] image_iff shape(4) simp del: not_None_eq)
  then have "clear_map m = Some ?m"
    using indices_from_begin [OF inv] shape(3)
    by (simp add: clear_map_def Let_def map_replicate_const)
  moreover have "fm_inv hf ?m" and "fm_map ?m = Map.empty"
    by (rule fm_inv_empty_table [OF shape(1,2)]; simp)+
  ultimately show ?thesis by auto
qed

section \<open>The map as an associative container\<close>

text \<open>The public operations behind the vocabulary of \<open>Containers\<close>.\<close>

fun flat_map_op :: "('k \<Rightarrow> uint64) \<Rightarrow> ('k, 'v) map_op \<Rightarrow> ('k, 'v) FlatMap \<Rightarrow> ('k, 'v) FlatMap option" where
  "flat_map_op hf (Insert key v) m = map_option fst (insert_pair hf m (key, v))"
| "flat_map_op hf (Assign key v) m = map_option fst (insert_or_assign hf m key v)"
| "flat_map_op hf (Erase key) m = Some (fst (erase_key hf m key))"
| "flat_map_op hf Clear m = clear_map m"

definition flat_map_look :: "('k \<Rightarrow> uint64) \<Rightarrow> ('k, 'v) FlatMap \<Rightarrow> 'k \<Rightarrow> 'v option" where
  "flat_map_look hf m key = (case at_key hf m key of Inl _ \<Rightarrow> None | Inr v \<Rightarrow> Some v)"

lemma at_key_eq:
  assumes "fm_inv hf m"
  shows "at_key hf m key = (case fm_map m key of None \<Rightarrow> Inl Out_of_range | Some v \<Rightarrow> Inr v)"
  using find_key_cases [OF assms, of key] by (auto simp: at_key_def bucket_count_def)

lemma flat_map_look_eq: "fm_inv hf m \<Longrightarrow> flat_map_look hf m = fm_map m"
  by (auto simp: flat_map_look_def at_key_eq fun_eq_iff split: option.splits)

lemma flat_map_op_within:
  assumes within: "fm_within hf N (m :: ('k, 'v) FlatMap)" and N: "N < 2 ^ 29"
  shows "\<exists>m'. flat_map_op hf op m = Some m' \<and> fm_within hf (Suc N) m' \<and> fm_map m' = spec_op op (fm_map m)"
proof (cases op)
  case (Insert key v)
  obtain m' b fresh where "insert_by (rehash_depth (Suc 1) hf) hf False m (key, v) = Some (m', b, fresh)"
    "fm_within hf (Suc N) m'" "fresh \<longleftrightarrow> fm_map m key = None"
    "fm_map m' = (if fresh \<or> False then (fm_map m)(key \<mapsto> v) else fm_map m)"
    by (rule insert_by_within [OF assms])
  then show ?thesis
    unfolding Insert by (simp add: insert_pair_def numeral_2_eq_2 del: rehash_depth.simps)
next
  case (Assign key v)
  obtain m' b fresh where "insert_by (rehash_depth (Suc 1) hf) hf True m (key, v) = Some (m', b, fresh)"
    "fm_within hf (Suc N) m'" "fresh \<longleftrightarrow> fm_map m key = None"
    "fm_map m' = (if fresh \<or> True then (fm_map m)(key \<mapsto> v) else fm_map m)"
    by (rule insert_by_within [OF assms])
  then show ?thesis
    unfolding Assign by (simp add: insert_or_assign_def numeral_2_eq_2 del: rehash_depth.simps)
next
  case (Erase key)
  with erase_key_within(1,2) [OF within, of key] show ?thesis by (auto intro: fm_within_mono)
next
  case Clear
  then show ?thesis
    using clear_map_eq [OF fm_within_inv [OF within]] within by (auto simp: fm_within_def)
qed

interpretation fmap: assoc_container "fm_within hf" fm_map "flat_map_op hf" "flat_map_look hf" "2 ^ 29"
  for hf :: "'k \<Rightarrow> uint64"
  by unfold_locales (auto intro: flat_map_op_within simp: flat_map_look_eq fm_within_inv)

section \<open>What the map guarantees\<close>

lemma default_within:
  "fm_within hf 29 (FlatMap_new 29 :: ('k, 'v) FlatMap)"
  "fm_map (FlatMap_new 29 :: ('k, 'v) FlatMap) = Map.empty"
  "8 * (int (m_loadCount (FlatMap_new 29 :: ('k, 'v) FlatMap)) + 1) <
     7 * bucket_count (FlatMap_new 29 :: ('k, 'v) FlatMap)"
proof -
  have small: "int 29 < 15 * 2 ^ 27" by simp
  show "fm_within hf 29 (FlatMap_new 29 :: ('k, 'v) FlatMap)" using fm_within_new [OF small] by simp
  show "fm_map (FlatMap_new 29 :: ('k, 'v) FlatMap) = Map.empty" using fm_inv_new(2) [OF small] by simp
  have "nat (31 - countl_zero (of_int (numGroups_for 29))) = 1" by code_simp
  then show "8 * (int (m_loadCount (FlatMap_new 29 :: ('k, 'v) FlatMap)) + 1) <
     7 * bucket_count (FlatMap_new 29 :: ('k, 'v) FlatMap)"
    by (simp add: FlatMap_new_def bucket_count_def)
qed

lemma insert_into_default:
  obtains m where "insert_pair hf (FlatMap_new 29) (key, v) = Some (m, find_key hf m key, True)"
    and "fm_within hf 30 m" and "fm_map m = [key \<mapsto> v]"
proof -
  have lim: "(29 :: nat) < 2 ^ 29" by simp
  obtain m it fresh where "insert_by (rehash_depth (Suc 1) hf) hf False (FlatMap_new 29) (key, v) = Some (m, it, fresh)"
    "fm_within hf (Suc 29) m" "fresh \<longleftrightarrow> fm_map (FlatMap_new 29 :: ('a, 'b) FlatMap) key = None"
    "fm_map m = (if fresh \<or> False then (fm_map (FlatMap_new 29))(key \<mapsto> v) else fm_map (FlatMap_new 29))"
    "find_key hf m key = it"
    by (rule insert_by_within [OF default_within(1) lim])
  with that [of m] show thesis
    by (simp add: default_within(2) insert_pair_def numeral_2_eq_2 del: rehash_depth.simps)
qed

text \<open>
  C1. A default-constructed map behaves as a partial map: every sequence of fewer than
  \<open>2 ^ 29 - 28\<close> calls of \<^verbatim>\<open>insert\<close>, \<^verbatim>\<open>insert_or_assign\<close>,
  \<^verbatim>\<open>erase\<close> and \<^verbatim>\<open>clear\<close> runs to completion (all rehashes included), and
  afterwards \<^verbatim>\<open>at\<close> returns, or throws for, every key exactly what the reference
  semantics of the sequence says, whatever the hash function is.
\<close>

theorem flat_map_refines_partial_map:
  assumes "length ops + 29 \<le> 2 ^ 29"
  shows "\<exists>m. run_ops (flat_map_op hf) ops (FlatMap_new 29) = Some m \<and>
           (\<forall>key. at_key hf m key = (case fold spec_op ops Map.empty key of
                                       None \<Rightarrow> Inl Out_of_range | Some v \<Rightarrow> Inr v))"
proof -
  have small: "int 29 < 15 * 2 ^ 27" by simp
  let ?new = "FlatMap_new (int 29)"
  obtain m where m: "run_ops (flat_map_op hf) ops ?new = Some m"
    "fm_within hf (29 + length ops) m" "fm_map m = fold spec_op ops (fm_map ?new)"
    using fmap.ops_refine [OF fm_within_new [OF small], of ops] assms by auto
  have "fm_map m = fold spec_op ops Map.empty"
    unfolding m(3) by (subst fm_inv_new(2) [OF small]) (rule refl)
  with m(1) show ?thesis by (auto simp: at_key_eq [OF fm_within_inv [OF m(2)]])
qed

theorem flat_map_refines_partial_map_witness:
  "\<exists>m. run_ops (flat_map_op of_nat) [Insert 1 ''a'', Assign 2 ''b'', Erase 1] (FlatMap_new 29) = Some m \<and>
     at_key of_nat m (1 :: nat) = Inl Out_of_range \<and> at_key of_nat m 2 = Inr ''b''"
  using flat_map_refines_partial_map [of "[Insert 1 ''a'', Assign 2 ''b'', Erase 1]" "of_nat :: nat \<Rightarrow> uint64"]
  by (auto simp del: run_ops.simps)

text \<open>
  Lookup: in a well-formed map \<^verbatim>\<open>find\<close> returns \<^verbatim>\<open>end()\<close> exactly for the
  keys that are not stored, and otherwise the index of the bucket that holds the key;
  \<^verbatim>\<open>contains\<close> and \<^verbatim>\<open>count\<close> agree with it.
\<close>

theorem flat_map_find_correct:
  assumes "fm_inv hf m"
  shows "(case fm_map m key of
            None \<Rightarrow> find_key hf m key = bucket_count m
          | Some v \<Rightarrow> 0 \<le> find_key hf m key \<and> find_key hf m key < bucket_count m \<and>
                      m_buckets m ! nat (find_key hf m key) = Some (key, v)) \<and>
         (contains hf m key \<longleftrightarrow> key \<in> dom (fm_map m)) \<and>
         count_key hf m key = of_bool (key \<in> dom (fm_map m))"
  using find_key_cases [OF assms, of key]
  by (auto simp: contains_def count_key_def bucket_count_def dom_def)

theorem flat_map_find_correct_witness:
  "\<exists>m. insert_pair of_nat (FlatMap_new 29) (7 :: nat, ''a'') = Some (m, find_key of_nat m 7, True) \<and>
     fm_inv of_nat m \<and> m_buckets m ! nat (find_key of_nat m 7) = Some (7, ''a'') \<and>
     \<not> contains of_nat m 8 \<and> count_key of_nat m 7 = 1"
proof -
  obtain m where m: "insert_pair of_nat (FlatMap_new 29) (7 :: nat, ''a'') = Some (m, find_key of_nat m 7, True)"
    "fm_within of_nat 30 m" "fm_map m = [7 \<mapsto> ''a'']"
    by (rule insert_into_default)
  with flat_map_find_correct [OF fm_within_inv [OF m(2)], of 7] flat_map_find_correct [OF fm_within_inv [OF m(2)], of 8]
  show ?thesis by (intro exI [of _ m]) (auto simp: fm_within_inv)
qed

text \<open>
  C10. Insertion: \<^verbatim>\<open>insert\<close>, \<^verbatim>\<open>try_emplace\<close> (no assignment) and
  \<^verbatim>\<open>insert_or_assign\<close> return an iterator to the key's bucket together with whether
  the key was new, and change the map exactly as specified; a rehash in between is invisible.
  \<open>fm_within hf N m\<close> with \<open>N < 2 ^ 29\<close> covers every map that at most \<open>N\<close> insertions can have produced: the
  table after the operation has fewer than \<open>2 ^ 31 - 1\<close> buckets, so no bucket number leaves the range of \<^verbatim>\<open>int\<close>.
\<close>

theorem flat_map_insert_correct:
  assumes "fm_within hf N m" and "N < 2 ^ 29"
  shows "(\<exists>m' it. insert_pair hf m (key, v) = Some (m', it, fm_map m key = None) \<and>
             try_emplace hf m key v = insert_pair hf m (key, v) \<and>
             fm_within hf (Suc N) m' \<and> fm_map m' = spec_op (Insert key v) (fm_map m) \<and>
             find_key hf m' key = it \<and> bucket_count m' < 2 ^ 31 - 1) \<and>
         (\<exists>m' it. insert_or_assign hf m key v = Some (m', it, fm_map m key = None) \<and>
             fm_within hf (Suc N) m' \<and> fm_map m' = (fm_map m)(key \<mapsto> v) \<and>
             find_key hf m' key = it \<and> m_buckets m' ! nat it = Some (key, v) \<and>
             bucket_count m' < 2 ^ 31 - 1)"
proof -
  let ?rh = "rehash_depth (Suc 1) hf"
  obtain m1 it1 fresh1 where m1: "insert_by ?rh hf False m (key, v) = Some (m1, it1, fresh1)"
    "fm_within hf (Suc N) m1" "fresh1 \<longleftrightarrow> fm_map m key = None"
    "fm_map m1 = (if fresh1 \<or> False then (fm_map m)(key \<mapsto> v) else fm_map m)" "find_key hf m1 key = it1"
    by (rule insert_by_within [OF assms])
  obtain m2 it2 fresh2 where m2: "insert_by ?rh hf True m (key, v) = Some (m2, it2, fresh2)"
    "fm_within hf (Suc N) m2" "fresh2 \<longleftrightarrow> fm_map m key = None"
    "fm_map m2 = (if fresh2 \<or> True then (fm_map m)(key \<mapsto> v) else fm_map m)" "find_key hf m2 key = it2"
    by (rule insert_by_within [OF assms])
  have "m_buckets m2 ! nat it2 = Some (key, v)"
    using find_key_cases [OF fm_within_inv [OF m2(2)], of key] m2(4,5) by auto
  with m1 m2 bucket_count_int [OF fm_within_inv [OF m1(2)]] bucket_count_int [OF fm_within_inv [OF m2(2)]] show ?thesis
    by (simp add: insert_pair_def try_emplace_def insert_or_assign_def numeral_2_eq_2 del: rehash_depth.simps)
qed

theorem flat_map_insert_correct_witness:
  "fm_within of_nat 29 (FlatMap_new 29 :: (nat, string) FlatMap) \<and>
   (\<exists>m it. insert_or_assign of_nat (FlatMap_new 29) (7 :: nat) ''a'' = Some (m, it, True) \<and>
      fm_map m = [7 \<mapsto> ''a''] \<and> m_buckets m ! nat it = Some (7, ''a''))"
  using flat_map_insert_correct [OF default_within(1), where key = 7 and v = "''a''" and hf = of_nat]
  by (auto simp: default_within)

text \<open>
  C11. Erasure: \<^verbatim>\<open>erase(key)\<close> removes exactly that key, returns the number of
  elements removed, and keeps every other element findable (the tombstone-free scheme of
  overflow bits is sound). The table has fewer than \<open>2 ^ 31 - 1\<close> buckets, part of the invariant, so that the
  iterator that \<^verbatim>\<open>erase\<close> advances stays in the range of \<^verbatim>\<open>int\<close>.
\<close>

theorem flat_map_erase_correct:
  assumes "fm_within hf N m"
  shows "fm_within hf N (fst (erase_key hf m key)) \<and>
         fm_map (fst (erase_key hf m key)) = (fm_map m)(key := None) \<and>
         snd (erase_key hf m key) = of_bool (key \<in> dom (fm_map m)) \<and>
         (\<forall>other. other \<noteq> key \<longrightarrow>
            contains hf (fst (erase_key hf m key)) other = contains hf m other) \<and>
         bucket_count (fst (erase_key hf m key)) < 2 ^ 31 - 1"
proof -
  note e = erase_key_within [OF assms, of key]
  have "contains hf (fst (erase_key hf m key)) other = contains hf m other" if "other \<noteq> key" for other
    using find_key_cases [OF fm_within_inv [OF e(1)], of other] find_key_cases [OF fm_within_inv [OF assms], of other]
      e(2) that by (auto simp: contains_def bucket_count_def)
  with e bucket_count_int [OF fm_within_inv [OF e(1)]] show ?thesis by (auto simp: dom_def)
qed

theorem flat_map_erase_correct_witness:
  "\<exists>m. insert_pair of_nat (FlatMap_new 29) (7 :: nat, ''a'') = Some (m, find_key of_nat m 7, True) \<and>
     fm_within of_nat 30 m \<and> fm_map (fst (erase_key of_nat m 7)) = Map.empty \<and> snd (erase_key of_nat m 7) = 1"
proof -
  obtain m where m: "insert_pair of_nat (FlatMap_new 29) (7 :: nat, ''a'') = Some (m, find_key of_nat m 7, True)"
    "fm_within of_nat 30 m" "fm_map m = [7 \<mapsto> ''a'']"
    by (rule insert_into_default)
  with flat_map_erase_correct [OF m(2), of 7] show ?thesis by auto
qed

text \<open>
  C12. Iteration: a loop from \<^verbatim>\<open>begin()\<close> to \<^verbatim>\<open>end()\<close> terminates and visits every
  stored pair exactly once, in a well-formed table; such a table has fewer than \<open>2 ^ 31 - 1\<close> buckets, so the loop's \<^verbatim>\<open>int\<close>
  bucket numbers do not overflow.
\<close>

theorem flat_map_iteration_exact:
  assumes "fm_inv hf m"
  shows "\<exists>kvs. elements m = Some kvs \<and> distinct (map fst kvs) \<and>
           (\<forall>key v. (key, v) \<in> set kvs \<longleftrightarrow> fm_map m key = Some v) \<and>
           bucket_count m < 2 ^ 31 - 1"
  using elements_eq_live [OF assms] distinct_live [OF assms] bucket_count_int [OF assms] by (auto simp: fm_map_def)

theorem flat_map_iteration_exact_witness:
  "\<exists>m. insert_pair of_nat (FlatMap_new 29) (7 :: nat, ''a'') = Some (m, find_key of_nat m 7, True) \<and>
     fm_inv of_nat m \<and> (\<exists>kvs. elements m = Some kvs \<and> set kvs = {(7, ''a'')})"
proof -
  obtain m where m: "insert_pair of_nat (FlatMap_new 29) (7 :: nat, ''a'') = Some (m, find_key of_nat m 7, True)"
    "fm_within of_nat 30 m" "fm_map m = [7 \<mapsto> ''a'']"
    by (rule insert_into_default)
  obtain kvs where kvs: "elements m = Some kvs" "\<forall>key v. (key, v) \<in> set kvs \<longleftrightarrow> fm_map m key = Some v"
    using flat_map_iteration_exact [OF fm_within_inv [OF m(2)]] by blast
  have "p \<in> set kvs \<longleftrightarrow> p = (7, ''a'')" for p
    using kvs(2) unfolding m(3) by (cases p) (simp add: eq_commute)
  then have "set kvs = {(7, ''a'')}" by blast
  with m(1) fm_within_inv [OF m(2)] kvs(1) show ?thesis by blast
qed

text \<open>
  \<^verbatim>\<open>rehash(n)\<close> terminates (with at most one nested rehash, which the floor of the
  group count can cause) and changes no association.
\<close>

theorem flat_map_rehash_preserves:
  assumes "fm_within hf N m" and "0 \<le> n" and "2 * int N + n \<le> 2 ^ 29"
  shows "\<exists>m'. rehash hf m n = Some m' \<and> fm_within hf (2 * N + nat n) m' \<and> fm_map m' = fm_map m"
  by (rule rehash_within [OF assms])

theorem flat_map_rehash_preserves_witness:
  "\<exists>m m'. insert_pair of_nat (FlatMap_new 29) (7 :: nat, ''a'') = Some (m, find_key of_nat m 7, True) \<and>
     rehash of_nat m 100 = Some m' \<and> fm_map m' = [7 \<mapsto> ''a'']"
proof -
  obtain m where m: "insert_pair of_nat (FlatMap_new 29) (7 :: nat, ''a'') = Some (m, find_key of_nat m 7, True)"
    "fm_within of_nat 30 m" "fm_map m = [7 \<mapsto> ''a'']"
    by (rule insert_into_default)
  with flat_map_rehash_preserves [OF m(2), of 100] show ?thesis by auto
qed

text \<open>
  The range constructor keeps the first pair of every key, the copy constructor gives
  an equal map, and \<^verbatim>\<open>clear\<close> empties a map without changing its capacity.
\<close>

theorem flat_map_construct_copy_clear:
  assumes "int (length kvs) + max 0 bc \<le> 2 ^ 28"
  shows "\<exists>m. FlatMap_of_range hf (int (length kvs)) kvs bc = Some m \<and> fm_map m = map_of kvs \<and>
           copy_map m = Some m \<and>
           (\<exists>c. clear_map m = Some c \<and> fm_map c = Map.empty \<and> is_empty_map c \<and>
                bucket_count c = bucket_count m)"
proof -
  obtain m where m: "FlatMap_of_range hf (int (length kvs)) kvs bc = Some m"
    "fm_within hf (nat (max (int (length kvs)) bc) + length kvs) m" "fm_map m = map_of kvs"
  proof -
    have "0 \<le> max (int (length kvs)) bc" "max (int (length kvs)) bc + int (length kvs) \<le> 2 ^ 29"
      using assms by (auto simp: max_def split: if_splits)
    from FlatMap_of_range_within [OF this, of hf] that show thesis by blast
  qed
  note inv = fm_within_inv [OF m(2)]
  obtain c where c: "clear_map m = Some c" "fm_inv hf c" "fm_map c = Map.empty" "m_size c = 0"
    "m_numGroups2 c = m_numGroups2 m"
    using clear_map_eq [OF inv] by blast
  have "bucket_count c = bucket_count m"
    using shape_bucket_count [OF fm_inv_shape [OF c(2)]] shape_bucket_count [OF fm_inv_shape [OF inv]] c(5)
    by simp
  with m c copy_map_eq [OF inv] show ?thesis by (auto simp: is_empty_map_def)
qed

theorem flat_map_construct_copy_clear_witness:
  "\<exists>m. FlatMap_of_range of_nat 2 [(7 :: nat, ''a''), (7, ''b'')] 0 = Some m \<and>
     fm_map m = [7 \<mapsto> ''a''] \<and> copy_map m = Some m \<and> clear_map m \<noteq> None"
  using flat_map_construct_copy_clear [of "[(7 :: nat, ''a''), (7, ''b'')]" 0 of_nat]
  by auto

text \<open>
  The bucket-count constructor takes the floor of the base-2 logarithm of the group
  count: it may create about half of the buckets asked for, never less; a request of 30 buckets
  gives 29, although the class promises at least the number asked for.
\<close>

theorem flat_map_constructor_rounds_down:
  assumes "bc < 15 * 2 ^ 27"
  shows "bc \<le> 2 * bucket_count (FlatMap_new bc :: ('k, 'v) FlatMap) - 14 \<and>
         bucket_count (FlatMap_new 30 :: ('k, 'v) FlatMap) = 29"
proof -
  obtain p where p: "numGroups_for (max 29 bc) < 2 ^ Suc p"
    "(FlatMap_new bc :: ('k, 'v) FlatMap) =
      \<lparr>m_numGroups2 = p, m_size = 0, m_metadata = empty_metadata p,
       m_buckets = replicate (2 ^ p * 15 - 1) None, m_loadCount = 0\<rparr>"
    using FlatMap_new_eq [OF assms] by metis
  have "bucket_count (FlatMap_new bc :: ('k, 'v) FlatMap) = 2 ^ p * 15 - 1"
    unfolding p(2) by (simp add: bucket_count_def of_nat_diff)
  with p(1) have "bc \<le> 2 * bucket_count (FlatMap_new bc :: ('k, 'v) FlatMap) - 14"
    by (simp add: numGroups_for_def)
  moreover have "nat (31 - countl_zero (of_int (numGroups_for 30))) = 1"
    by code_simp
  ultimately show ?thesis by (simp add: FlatMap_new_def bucket_count_def)
qed

theorem flat_map_constructor_rounds_down_witness:
  "(60 :: int) < 15 * 2 ^ 27 \<and> 60 \<le> 2 * bucket_count (FlatMap_new 60 :: (nat, nat) FlatMap) - 14"
  using flat_map_constructor_rounds_down [of 60, where 'k = nat and 'v = nat] by simp

text \<open>
  \<^verbatim>\<open>erase\<close> never updates \<^verbatim>\<open>m_size\<close>: after inserting a new key and erasing
  it again the map has the associations it had before, but \<^verbatim>\<open>size()\<close> has grown
  by one, so \<^verbatim>\<open>empty()\<close> is false for a map that holds nothing.
\<close>

theorem flat_map_erase_leaks_size:
  assumes "fm_within hf N m" and "fm_map m key = None"
    and "8 * (int (m_loadCount m) + 1) < 7 * bucket_count m"
  shows "\<exists>m1 it. insert_pair hf m (key, v) = Some (m1, it, True) \<and>
           fm_map (fst (erase_key hf m1 key)) = fm_map m \<and>
           m_size (fst (erase_key hf m1 key)) = m_size m + 1 \<and>
           \<not> is_empty_map (fst (erase_key hf m1 key))"
proof -
  obtain m1 b where m1: "insert_pair hf m (key, v) = Some (m1, int b, True)" "fm_inv hf m1"
    "fm_map m1 = (fm_map m)(key \<mapsto> v)" "m_size m1 = m_size m + 1" "m_loadCount m1 = m_loadCount m + 1"
    "m_numGroups2 m1 = m_numGroups2 m"
    unfolding insert_pair_def
    by (rule insert_by_room [OF fm_within_inv [OF assms(1)] assms(2,3)])
  have "fm_within hf (Suc N) m1" using m1 assms(1) by (simp add: fm_within_def)
  from erase_key_within [OF this, of key] m1 assms(2) show ?thesis
    by (auto simp: is_empty_map_def fun_upd_idem)
qed

theorem flat_map_erase_leaks_size_witness:
  "\<exists>m it. insert_pair of_nat (FlatMap_new 29) (7 :: nat, ''a'') = Some (m, it, True) \<and>
     fm_map (fst (erase_key of_nat m 7)) = Map.empty \<and> \<not> is_empty_map (fst (erase_key of_nat m 7))"
  using flat_map_erase_leaks_size [OF default_within(1) fun_cong [OF default_within(2)] default_within(3),
    where key = 7 and v = "''a''" and hf = of_nat]
  by (auto simp: default_within)

end
