(* ===== verification/Popcount.thy ===== *)
theory Popcount
  imports BitUtilities
begin

text \<open>
  The portable branch of \<^verbatim>\<open>popcount\<close> of \<^verbatim>\<open>core/utilities/BitUtilities.hpp\<close>:
  the SWAR algorithm, which adds neighbouring 1-, 2- and 4-bit fields of a 64-bit word in parallel
  and sums the eight byte counts with one wrapping multiplication. The proof reads the word as a
  list of eight bytes, follows each step on every byte, and shows that the lanes never carry into
  each other.
\<close>

section \<open>Definition\<close>

definition popcount :: "uint64 \<Rightarrow> int" where
  "popcount word =
     (let w1 = word - (drop_bit 1 word AND 0x5555555555555555);
          w2 = (w1 AND 0x3333333333333333) + (drop_bit 2 w1 AND 0x3333333333333333);
          w3 = (w2 + drop_bit 4 w2) AND 0x0F0F0F0F0F0F0F0F
      in uint (drop_bit 56 (w3 * 0x0101010101010101)))"

section \<open>Words as lists of bytes\<close>

primrec of_bytes :: "nat list \<Rightarrow> nat" where
  "of_bytes [] = 0"
| "of_bytes (b # bs) = b + 256 * of_bytes bs"

abbreviation is_bytes :: "nat list \<Rightarrow> bool" where
  "is_bytes bs \<equiv> list_all (\<lambda>b. b < 256) bs"


lemma byte_iff: "(b :: nat) < 256 \<longleftrightarrow> take_bit 8 b = b"
  using take_bit_nat_eq_self_iff [of 8 b] by simp

lemma bit_byteD: "(b :: nat) < 256 \<Longrightarrow> bit b n \<Longrightarrow> n < 8"
  by (metis bit_take_bit_iff byte_iff)

lemma and_byte: "(b :: nat) < 256 \<Longrightarrow> b AND m < 256"
  by (metis byte_iff take_bit_and and.assoc take_bit_eq_mask and.commute)

lemma bit_cons_byte:
  assumes "(b :: nat) < 256"
  shows "bit (b + 256 * c) n = (if n < 8 then bit b n else bit c (n - 8))"
proof -
  have "int (b + 256 * c) = concat_bit 8 (int b) (int c)"
    using assms by (simp add: concat_bit_eq take_bit_eq_mod push_bit_eq_mult)
  then have "bit (b + 256 * c) n = bit (concat_bit 8 (int b) (int c)) n"
    by (metis bit_of_nat_iff_bit)
  then show ?thesis by (simp add: bit_concat_bit_iff bit_of_nat_iff_bit not_less)
qed

lemma and_cons_byte:
  assumes "(b :: nat) < 256" and "m < 256"
  shows "(b + 256 * c) AND (m + 256 * d) = (b AND m) + 256 * (c AND d)"
  using assms by (intro bit_eqI) (simp add: bit_and_iff bit_cons_byte and_byte)

lemma shift_and_cons_byte:
  assumes "(b :: nat) < 256" and "m < 2 ^ (8 - s)" and "s \<le> 8"
  shows "drop_bit s (b + 256 * c) AND (m + 256 * d) = (drop_bit s b AND m) + 256 * (drop_bit s c AND d)"
proof (rule bit_eqI)
  fix n
  have "(2 :: nat) ^ (8 - s) \<le> 2 ^ 8" by (rule power_increasing) simp_all
  with assms(2) have m: "m < 256" by simp
  have "take_bit (8 - s) m = m" using assms(2) by (simp add: take_bit_nat_eq_self_iff)
  then have mn: "n < 8 - s" if "bit m n" for n using that by (metis bit_take_bit_iff)
  have "drop_bit s b AND m < 256" using and_byte [OF m, of "drop_bit s b"] by (simp add: and.commute)
  moreover have "s + n < 8" if "bit m n" for n using mn [OF that] by simp
  moreover have "s + n - 8 = s + (n - 8)" if "\<not> n < 8" for n using that by simp
  ultimately show "bit (drop_bit s (b + 256 * c) AND (m + 256 * d)) n =
     bit ((drop_bit s b AND m) + 256 * (drop_bit s c AND d)) n"
    using assms(1) m by (auto simp: bit_and_iff bit_cons_byte bit_drop_bit_eq)
qed

lemma of_bytes_and: "is_bytes bs \<Longrightarrow> m < 256 \<Longrightarrow>
   of_bytes bs AND of_bytes (replicate (length bs) m) = of_bytes (map (\<lambda>b. b AND m) bs)"
  by (induction bs) (simp_all add: and_cons_byte)

lemma of_bytes_shift_and: "is_bytes bs \<Longrightarrow> m < 2 ^ (8 - s) \<Longrightarrow> s \<le> 8 \<Longrightarrow>
   drop_bit s (of_bytes bs) AND of_bytes (replicate (length bs) m) = of_bytes (map (\<lambda>b. drop_bit s b AND m) bs)"
  by (induction bs) (simp_all add: shift_and_cons_byte)

lemma of_bytes_add: "of_bytes (map f bs) + of_bytes (map g bs) = of_bytes (map (\<lambda>b. f b + g b) bs)"
  by (induction bs) simp_all

lemma of_bytes_diff: "\<forall>b\<in>set bs. g b \<le> f b \<Longrightarrow>
   of_bytes (map g bs) \<le> of_bytes (map f bs) \<and>
   of_bytes (map f bs) - of_bytes (map g bs) = of_bytes (map (\<lambda>b. f b - g b) bs)"
  by (induction bs) auto

lemma of_bytes_bound: "is_bytes bs \<Longrightarrow> of_bytes bs < 256 ^ length bs"
  by (induction bs) auto

primrec to_bytes :: "nat \<Rightarrow> nat \<Rightarrow> nat list" where
  "to_bytes 0 w = []"
| "to_bytes (Suc n) w = w mod 256 # to_bytes n (w div 256)"

lemma to_bytes: "length (to_bytes n w) = n" "is_bytes (to_bytes n w)"
    "w < 256 ^ n \<Longrightarrow> of_bytes (to_bytes n w) = w"
  by (induction n arbitrary: w) (auto simp: less_mult_imp_div_less mult.commute)

section \<open>The steps on one byte and on all bytes\<close>

text \<open>The byte as the sum of two nibbles.\<close>

definition pairs where "pairs b = b - (drop_bit 1 b AND 0x55 :: nat)"
definition nibbles where "nibbles b = (b AND 0x33) + (drop_bit 2 b AND 0x33 :: nat)"


definition byte_ok :: "nat \<Rightarrow> nat \<Rightarrow> bool" where
  "byte_ok b c \<longleftrightarrow> drop_bit 1 b AND 0x55 \<le> b \<and> pairs b < 256 \<and>
     nibbles (pairs b) div 16 \<le> 4 \<and> nibbles (pairs b) mod 16 \<le> 4 \<and>
     nibbles (pairs b) div 16 + nibbles (pairs b) mod 16 = c"

lemma byte_ok_bits: "byte_ok (of_bool b0 + 2 * (of_bool b1 + 2 * (of_bool b2 + 2 * (of_bool b3 +
    2 * (of_bool b4 + 2 * (of_bool b5 + 2 * (of_bool b6 + 2 * of_bool b7)))))))
    (of_bool b0 + of_bool b1 + of_bool b2 + of_bool b3 + of_bool b4 + of_bool b5 + of_bool b6 + of_bool b7)"
  by (cases b0; cases b1; cases b2; cases b3; cases b4; cases b5; cases b6; cases b7;
      simp add: byte_ok_def pairs_def nibbles_def del: add_2_eq_Suc add_2_eq_Suc')

lemma nat_bit_step: "(b :: nat) = of_bool (bit b 0) + 2 * (b div 2)"
  by (simp add: bit_0)

lemma byte_bits:
  assumes "(b :: nat) < 256"
  shows "b = of_bool (bit b 0) + 2 * (of_bool (bit b 1) + 2 * (of_bool (bit b 2) + 2 * (of_bool (bit b 3) +
    2 * (of_bool (bit b 4) + 2 * (of_bool (bit b 5) + 2 * (of_bool (bit b 6) + 2 * of_bool (bit b 7)))))))"
proof -
  have *: "drop_bit k b = of_bool (bit b k) + 2 * drop_bit (Suc k) b" for k
    using nat_bit_step [of "drop_bit k b"] by (simp add: drop_bit_Suc bit_drop_bit_eq drop_bit_half)
  have "drop_bit 8 b = 0" using assms by (simp add: drop_bit_eq_div)
  with * [of 0] * [of 1] * [of 2] * [of 3] * [of 4] * [of 5] * [of 6] * [of 7]
  show ?thesis by (simp add: eval_nat_numeral)
qed

text \<open>The number of set bits.\<close>

lemma card_bits_byte:
  assumes "(b :: nat) < 256"
  shows "card {n. bit b n} = of_bool (bit b 0) + of_bool (bit b 1) + of_bool (bit b 2) + of_bool (bit b 3) +
     of_bool (bit b 4) + of_bool (bit b 5) + of_bool (bit b 6) + of_bool (bit b 7)"
proof -
  have "{n. bit b n} = {n \<in> {..<8}. bit b n}" using bit_byteD [OF assms] by auto
  then have "card {n. bit b n} = (\<Sum>n<8. of_bool (bit b n))" by (simp add: sum.inter_filter [symmetric] Int_def)
  then show ?thesis by (simp add: eval_nat_numeral lessThan_Suc)
qed

lemma byte_ok: "b < 256 \<Longrightarrow> byte_ok b (card {n. bit b n})"
  using byte_bits [of b] card_bits_byte [of b] byte_ok_bits by metis

lemma finite_bits_nat [simp]: "finite {n. bit (b :: nat) n}"
proof (rule finite_subset)
  show "{n. bit b n} \<subseteq> {..<Suc b}"
    by (auto simp: bit_iff_odd less_Suc_eq_le) (metis div_less even_zero less_exp linorder_not_le order_less_trans)
qed simp

lemma card_bits_of_bytes: "is_bytes bs \<Longrightarrow> card {n. bit (of_bytes bs) n} = (\<Sum>b\<leftarrow>bs. card {n. bit b n})"
proof (induction bs)
  case (Cons b bs)
  let ?c = "of_bytes bs"
  have "{n. bit (b + 256 * ?c) n} = {n. bit b n} \<union> (+) 8 ` {n. bit ?c n}"
    using Cons.prems by (auto simp: bit_cons_byte image_iff dest: bit_byteD split: if_splits)
      (metis le_add_diff_inverse not_less)
  moreover have "{n. bit b n} \<inter> (+) 8 ` {n. bit ?c n} = {}"
    using Cons.prems by (auto dest: bit_byteD)
  ultimately show ?case
    using Cons by (simp add: card_Un_disjoint card_image)
qed (simp add: bot_fun_def)

lemma nibbles_bound: "b div 16 \<le> 4 \<Longrightarrow> b mod 16 \<le> 4 \<Longrightarrow> (b :: nat) < 0x45"
  using div_mult_mod_eq [of b 16] by linarith

lemma sum_nibbles:
  assumes "list_all (\<lambda>b. b div 16 \<le> 4 \<and> b mod 16 \<le> 4) bs"
  shows "(of_bytes bs + drop_bit 4 (of_bytes bs)) AND of_bytes (replicate (length bs) 15) =
     of_bytes (map (\<lambda>b. b div 16 + b mod 16) bs)"
  using assms
proof (induction bs)
  case (Cons b bs)
  let ?y = "of_bytes bs"
  have y: "?y mod 16 \<le> 4" 
  proof (cases bs)
    case (Cons c cs)
    have "(c + 16 * (16 * of_bytes cs)) mod 16 = c mod 16" by (rule mod_mult_self2)
    with Cons Cons.prems show ?thesis by simp
  qed simp
  have "b = 16 * (b div 16) + b mod 16" by simp
  with Cons.prems y have lt: "b + b div 16 + 16 * (?y mod 16) < 256" by simp linarith
  have "drop_bit 4 (b + 256 * ?y) = b div 16 + 16 * ?y" by (simp add: drop_bit_eq_div)
  moreover have "16 * ?y = 16 * (?y mod 16) + 256 * (?y div 16)"
    using mult_div_mod_eq [of 16 ?y] by linarith
  ultimately have sum: "b + 256 * ?y + drop_bit 4 (b + 256 * ?y) =
      (b + b div 16 + 16 * (?y mod 16)) + 256 * (?y + drop_bit 4 ?y)"
    by (simp add: drop_bit_eq_div)
  have "(b + b div 16 + 16 * (?y mod 16)) AND 15 = b div 16 + b mod 16"
  proof -
    have "(b + b div 16 + 16 * (?y mod 16)) mod 16 = (b mod 16 + b div 16) mod 16" by presburger
    then show ?thesis using Cons.prems using take_bit_eq_mask [of 4 "b + b div 16 + 16 * (?y mod 16)"]
      by (simp add: take_bit_eq_mod mask_eq_exp_minus_1)
  qed
  then show ?case
    using Cons and_cons_byte [OF lt, of 15 "?y + drop_bit 4 ?y"] by (simp only: of_bytes.simps sum) simp
qed simp


lemma sum_by_multiplication:
  assumes "length cs = 8" and "list_all (\<lambda>c. c \<le> 8) cs"
  shows "of_bytes cs * 0x0101010101010101 mod 2 ^ 64 div 2 ^ 56 = sum_list cs"
proof -
  obtain c0 c1 c2 c3 c4 c5 c6 c7 where cs: "cs = [c0, c1, c2, c3, c4, c5, c6, c7]"
    using assms(1) by (auto simp: eval_nat_numeral length_Suc_conv)
  note b = assms(2) [unfolded cs, simplified]
  define low where "low = of_bytes [c0, c0 + c1, c0 + c1 + c2, c0 + c1 + c2 + c3, c0 + c1 + c2 + c3 + c4,
     c0 + c1 + c2 + c3 + c4 + c5, c0 + c1 + c2 + c3 + c4 + c5 + c6]"
  define high where "high = of_bytes [c1 + c2 + c3 + c4 + c5 + c6 + c7, c2 + c3 + c4 + c5 + c6 + c7,
     c3 + c4 + c5 + c6 + c7, c4 + c5 + c6 + c7, c5 + c6 + c7, c6 + c7, c7]"
  have low: "low < 2 ^ 56" 
    unfolding low_def using b by (intro order_less_le_trans [OF of_bytes_bound]) simp_all
  have eq: "of_bytes cs * 0x0101010101010101 = (low + 2 ^ 56 * sum_list cs) + 2 ^ 64 * high"
    by (simp add: cs low_def high_def algebra_simps)
  have small: "low + 2 ^ 56 * sum_list cs < 2 ^ 64"
    using low b by (simp add: cs)
  have "of_bytes cs * 0x0101010101010101 mod 2 ^ 64 = low + 2 ^ 56 * sum_list cs"
    unfolding eq mod_mult_self2 using small by (rule mod_less)
  then show ?thesis using low by simp
qed


text \<open>The masks of the code, lane by lane.\<close>

lemma replicate_8: "replicate 8 m = [m, m, m, m, m, m, m, m]"
  by (simp add: eval_nat_numeral)

lemma byte_masks:
  "of_bytes (replicate 8 0x55) = 0x5555555555555555" "of_bytes (replicate 8 0x33) = 0x3333333333333333"
  "of_bytes (replicate 8 15) = 0x0F0F0F0F0F0F0F0F"
  by (simp_all add: replicate_8)

lemma unat_small_add: "unat (v :: uint64) + unat w < 2 ^ 64 \<Longrightarrow> unat (v + w) = unat v + unat w"
  by (simp add: unat_plus_if')

lemma swar_pairs:
  assumes "length bs = 8" and "is_bytes bs" and "unat (w :: uint64) = of_bytes bs"
    and "\<forall>b\<in>set bs. drop_bit 1 b AND 0x55 \<le> b"
  shows "unat (w - (drop_bit 1 w AND 0x5555555555555555)) = of_bytes (map pairs bs)"
proof -
  have "unat (drop_bit 1 w AND 0x5555555555555555) = of_bytes (map (\<lambda>b. drop_bit 1 b AND 0x55) bs)"
    using of_bytes_shift_and [of bs "0x55" 1] assms(1-3) byte_masks(1)
    by (simp add: unsigned_and_eq unat_drop_bit_eq)
  then show ?thesis
    using of_bytes_diff [of bs "\<lambda>b. drop_bit 1 b AND 0x55" id] assms(3,4)
    by (simp add: unat_sub word_le_nat_alt pairs_def [abs_def])
qed

lemma swar_nibbles:
  assumes "length bs = 8" and "is_bytes bs" and "unat (w :: uint64) = of_bytes bs" and "is_bytes (map nibbles bs)"
  shows "unat ((w AND 0x3333333333333333) + (drop_bit 2 w AND 0x3333333333333333)) =
     of_bytes (map nibbles bs)"
proof -
  have "unat (w AND 0x3333333333333333) = of_bytes (map (\<lambda>b. b AND 0x33) bs)"
    using of_bytes_and [of bs "0x33"] assms(1-3) byte_masks(2) by (simp add: unsigned_and_eq)
  moreover have "unat (drop_bit 2 w AND 0x3333333333333333) = of_bytes (map (\<lambda>b. drop_bit 2 b AND 0x33) bs)"
    using of_bytes_shift_and [of bs "0x33" 2] assms(1-3) byte_masks(2)
    by (simp add: unsigned_and_eq unat_drop_bit_eq)
  ultimately show ?thesis
    using of_bytes_add [of "\<lambda>b. b AND 0x33" bs "\<lambda>b. drop_bit 2 b AND 0x33"]
      of_bytes_bound [OF assms(4)] assms(1)
    by (subst unat_small_add) (simp_all add: nibbles_def [abs_def])
qed

lemma swar_bytes:
  assumes "length bs = 8" and "unat (w :: uint64) = of_bytes bs"
    and nib: "list_all (\<lambda>b. b div 16 \<le> 4 \<and> b mod 16 \<le> 4) bs"
  shows "unat ((w + drop_bit 4 w) AND 0x0F0F0F0F0F0F0F0F) = of_bytes (map (\<lambda>b. b div 16 + b mod 16) bs)"
proof -
  have "b < 0x45" if "b \<in> set bs" for b
    using nib that nibbles_bound by (simp add: list_all_iff)
  then have "is_bytes (map (\<lambda>b. b + b) bs)" by (force simp: list_all_iff)
  from of_bytes_bound [OF this] have "of_bytes bs + of_bytes bs < 2 ^ 64"
    using of_bytes_add [of id bs id] assms(1) by simp
  moreover have "drop_bit 4 (of_bytes bs) \<le> of_bytes bs" by (simp add: drop_bit_eq_div)
  ultimately have "unat (w + drop_bit 4 w) = of_bytes bs + drop_bit 4 (of_bytes bs)"
    by (subst unat_small_add) (simp_all add: assms(2) unat_drop_bit_eq)
  then show ?thesis
    using sum_nibbles [OF nib] assms(1) byte_masks(3) by (simp only: unsigned_and_eq) simp
qed

lemma popcount_eq: "popcount w = int (card {n. bit w n})"
proof -
  define bs where "bs = to_bytes 8 (unat w)"
  have bs: "length bs = 8" "is_bytes bs" "of_bytes bs = unat w"
    using to_bytes(1,2) [of 8 "unat w"] to_bytes(3) [of "unat w" 8] unsigned_less [of w]
    by (simp_all add: bs_def)
  have ok: "byte_ok b (card {n. bit b n})" if "b \<in> set bs" for b
    using that bs(2) by (intro byte_ok) (auto simp: list_all_iff)
  define w1 where "w1 = w - (drop_bit 1 w AND 0x5555555555555555)"
  define w2 where "w2 = (w1 AND 0x3333333333333333) + (drop_bit 2 w1 AND 0x3333333333333333)"
  define w3 where "w3 = (w2 + drop_bit 4 w2) AND 0x0F0F0F0F0F0F0F0F"
  let ?ps = "map pairs bs" and ?counts = "map (\<lambda>b. card {n. bit b n}) bs"
  have b: "\<forall>b\<in>set bs. drop_bit 1 b AND 0x55 \<le> b" "is_bytes ?ps"
      "list_all (\<lambda>b. b div 16 \<le> 4 \<and> b mod 16 \<le> 4) (map nibbles ?ps)"
      "map (\<lambda>b. b div 16 + b mod 16) (map nibbles ?ps) = ?counts" "list_all (\<lambda>c. c \<le> 8) ?counts"
    using ok by (force simp: byte_ok_def list_all_iff)+
  have "is_bytes (map nibbles ?ps)"
    using b(3) nibbles_bound by (fastforce simp: list_all_iff)
  then have "unat w3 = of_bytes ?counts"
    using swar_pairs [of bs w] swar_nibbles [of ?ps w1] swar_bytes [OF _ _ b(3), of w2] bs b(1,2)
    by (simp only: w1_def [symmetric] w2_def [symmetric] w3_def [symmetric] b(4) length_map)
  then have "unat (drop_bit 56 (w3 * 0x0101010101010101)) = sum_list ?counts"
    using sum_by_multiplication [OF _ b(5)] bs(1)
    by (simp add: unat_drop_bit_eq drop_bit_eq_div unat_word_ariths)
  also have "\<dots> = card {n. bit w n}"
    using card_bits_of_bytes [OF bs(2)] bs(3) by (simp add: bit_unsigned_iff)
  finally have "int (unat (drop_bit 56 (w3 * 0x0101010101010101))) = int (card {n. bit w n})"
    by (rule arg_cong)
  then show ?thesis
    unfolding popcount_def Let_def w1_def [symmetric] w2_def [symmetric] w3_def [symmetric]
    by (simp only: of_nat_unat)
qed

section \<open>What popcount guarantees\<close>

text \<open>
  \<^verbatim>\<open>popcount\<close> returns the number of set bits of every 64-bit word: no carry of the
  parallel additions crosses a lane, and the wrapping multiplication leaves the sum of the eight
  byte counts in the top byte. The result is therefore between 0 and 64, 0 exactly for the zero word
  and 64 exactly for the word of ones.
\<close>

theorem popcount_correct:
  "popcount w = int (card {n. bit w n}) \<and> 0 \<le> popcount w \<and> popcount w \<le> 64 \<and>
   (popcount w = 0 \<longleftrightarrow> w = 0) \<and> (popcount w = 64 \<longleftrightarrow> w = - 1)"
proof -
  have sub: "{n. bit w n} \<subseteq> {..<64}" by (auto dest: bit_imp_le_length)
  have fin: "finite {n. bit w n}" using finite_subset [OF sub] by simp
  have zero: "w = 0 \<longleftrightarrow> {n. bit w n} = {}"
    by (auto intro: bit_word_eqI)
  have ones: "w = - 1 \<longleftrightarrow> {n. bit w n} = {..<64}"
  proof
    assume "{n. bit w n} = {..<64}"
    then show "w = - 1" by (intro bit_word_eqI) (auto simp: set_eq_iff)
  qed auto
  have full: "card {n. bit w n} = 64 \<longleftrightarrow> {n. bit w n} = {..<64}"
  proof
    assume "card {n. bit w n} = 64"
    then show "{n. bit w n} = {..<64}" by (intro card_subset_eq [OF finite_lessThan sub]) simp
  qed simp
  have le: "card {n. bit w n} \<le> 64" using card_mono [OF finite_lessThan sub] by simp
  have none: "card {n. bit w n} = 0 \<longleftrightarrow> {n. bit w n} = {}" using fin by (rule card_0_eq)
  show ?thesis
    unfolding popcount_eq zero ones none [symmetric] full [symmetric] using le by linarith
qed

end
