(* ===== verification/BitSet.thy ===== *)
theory BitSet
  imports Popcount Containers
begin

text \<open>
  The bit set of slam (\<^verbatim>\<open>slam/BitSet.hpp\<close>, \<^verbatim>\<open>slam/BitSet.cpp\<close>): a run-time
  number of bits packed into an array of 64-bit words. Single-bit and whole-set operations, the
  four set operators, counting, the enumeration of the set bits and the validity predicate of the
  class are modelled; indices are C++ \<^verbatim>\<open>int\<close>s, unbounded here because a bit set is
  indexed below its own size. A failing \<^verbatim>\<open>SLIC_ASSERT\<close> is the result \<^term>\<open>None\<close>.
  The atomic variants are the same updates executed by RAJA.
\<close>

section \<open>State and operations\<close>

record BitSet =
  bs_data :: "uint64 list"
  bs_numBits :: int

abbreviation BitsPerWord :: int where "BitsPerWord \<equiv> 64"
abbreviation npos :: int where "npos \<equiv> -2"

text \<open>
  \<^verbatim>\<open>explicit BitSet(int numBits)\<close>: one word even for an empty set, all words zero.
\<close>

definition BitSet_new :: "int \<Rightarrow> BitSet option" where
  "BitSet_new numBits =
     (if numBits < 0 then None
      else let n = max numBits 0;
               numWords = (if n = 0 then 1 else 1 + (n - 1) div BitsPerWord)
           in Some \<lparr>bs_data = replicate (nat numWords) 0, bs_numBits = n\<rparr>)"

text \<open>
  \<^verbatim>\<open>mask(idx)\<close>, \<^verbatim>\<open>lastWordMask()\<close> and \<^verbatim>\<open>isLastWordFull()\<close>. All
  indices that reach them are non-negative, where truncating and flooring division agree.
\<close>

definition bit_mask :: "int \<Rightarrow> uint64" where
  "bit_mask idx = push_bit (nat (idx mod BitsPerWord)) 1"

definition lastWordMask :: "BitSet \<Rightarrow> uint64" where
  "lastWordMask bs = bit_mask (bs_numBits bs) - 1"

definition isLastWordFull :: "BitSet \<Rightarrow> bool" where
  "isLastWordFull bs \<longleftrightarrow> bs_numBits bs AND 63 = 0"

text \<open>\<^verbatim>\<open>checkValidIndex\<close>, and the word that holds the bit at an index.\<close>

definition checkValidIndex :: "BitSet \<Rightarrow> int \<Rightarrow> bool" where
  "checkValidIndex bs idx \<longleftrightarrow> 0 \<le> idx \<and> idx < bs_numBits bs"

definition getWord :: "BitSet \<Rightarrow> int \<Rightarrow> uint64" where
  "getWord bs idx = bs_data bs ! nat (idx div BitsPerWord)"

text \<open>
  The three single-bit updates assign to the reference that \<^verbatim>\<open>getWord(idx)\<close> returns after
  checking the index.
\<close>

definition assignWord :: "(uint64 \<Rightarrow> uint64) \<Rightarrow> BitSet \<Rightarrow> int \<Rightarrow> BitSet option" where
  "assignWord f bs idx =
     (if checkValidIndex bs idx
      then Some (bs\<lparr>bs_data := (bs_data bs)[nat (idx div BitsPerWord) := f (getWord bs idx)]\<rparr>)
      else None)"

definition BitSet_clear_bit :: "BitSet \<Rightarrow> int \<Rightarrow> BitSet option" where
  "BitSet_clear_bit bs idx = assignWord (\<lambda>w. w AND NOT (bit_mask idx)) bs idx"

definition BitSet_set_bit :: "BitSet \<Rightarrow> int \<Rightarrow> BitSet option" where
  "BitSet_set_bit bs idx = assignWord (\<lambda>w. w OR bit_mask idx) bs idx"

definition BitSet_flip_bit :: "BitSet \<Rightarrow> int \<Rightarrow> BitSet option" where
  "BitSet_flip_bit bs idx = assignWord (\<lambda>w. w XOR bit_mask idx) bs idx"

definition BitSet_test :: "BitSet \<Rightarrow> int \<Rightarrow> bool" where
  "BitSet_test bs idx \<longleftrightarrow>
     (0 \<le> idx \<and> idx < bs_numBits bs) \<and> getWord bs idx AND bit_mask idx \<noteq> 0"

text \<open>
  The whole-set operations: a loop over all words but the last, which is masked, so that bits past
  the size stay zero.
\<close>

definition words_but_last :: "(uint64 \<Rightarrow> uint64) \<Rightarrow> uint64 list \<Rightarrow> uint64 list" where
  "words_but_last f ws = map f (take (length ws - 1) ws) @ drop (length ws - 1) ws"

definition BitSet_clear_all :: "BitSet \<Rightarrow> BitSet" where
  "BitSet_clear_all bs = bs\<lparr>bs_data := map (\<lambda>_. 0) (bs_data bs)\<rparr>"

definition BitSet_set_all :: "BitSet \<Rightarrow> BitSet" where
  "BitSet_set_all bs =
     (if bs_numBits bs = 0 then bs
      else let ones = NOT 0; ws = words_but_last (\<lambda>_. ones) (bs_data bs)
           in bs\<lparr>bs_data := ws[length ws - 1 := (if isLastWordFull bs then ones else lastWordMask bs)]\<rparr>)"

definition BitSet_flip_all :: "BitSet \<Rightarrow> BitSet" where
  "BitSet_flip_all bs =
     (if bs_numBits bs = 0 then bs
      else let ones = NOT 0; ws = words_but_last (\<lambda>w. w XOR ones) (bs_data bs)
           in bs\<lparr>bs_data := ws[length ws - 1 :=
                ws ! (length ws - 1) XOR (if isLastWordFull bs then ones else lastWordMask bs)]\<rparr>)"

definition BitSet_count :: "BitSet \<Rightarrow> int" where
  "BitSet_count bs = foldl (\<lambda>ctr w. ctr + popcount w) 0 (bs_data bs)"

definition BitSet_isValid :: "BitSet \<Rightarrow> bool" where
  "BitSet_isValid bs \<longleftrightarrow>
     \<not> bs_numBits bs < 0 \<and>
     (if bs_numBits bs = 0 then \<not> (length (bs_data bs) \<noteq> 1 \<or> bs_data bs ! 0 \<noteq> 0)
      else (bs_numBits bs - 1) div BitsPerWord + 1 = int (length (bs_data bs)) \<and>
           (isLastWordFull bs \<or> getWord bs (bs_numBits bs) AND NOT (lastWordMask bs) = 0))"

text \<open>\<^verbatim>\<open>find_next\<close> and \<^verbatim>\<open>find_first\<close>.\<close>

definition find_in_words :: "BitSet \<Rightarrow> int \<Rightarrow> int" where
  "find_in_words bs startWordIdx =
     (let i = for_find (\<lambda>i. bs_data bs ! nat i \<noteq> 0) startWordIdx (int (length (bs_data bs))) npos
      in if i = npos then npos else i * BitsPerWord + countr_zero (bs_data bs ! nat i))"

definition find_next :: "BitSet \<Rightarrow> int \<Rightarrow> int" where
  "find_next bs idx =
     (if idx = npos \<or> bs_numBits bs \<le> idx + 1 then npos
      else if 0 \<le> idx
           then let startIdx = idx + 1;
                    startWordIdx = startIdx div BitsPerWord;
                    startOffset = nat (startIdx mod BitsPerWord);
                    startWord = drop_bit startOffset (bs_data bs ! nat startWordIdx)
                in if startWord \<noteq> 0
                   then startWordIdx * BitsPerWord + countr_zero (push_bit startOffset startWord)
                   else find_in_words bs (startWordIdx + 1)
           else find_in_words bs 0)"

definition find_first :: "BitSet \<Rightarrow> int" where
  "find_first bs = find_next bs (-1)"

text \<open>The compound assignments, their binary forms on a copy, and equality.\<close>

definition BitSet_assign_op :: "(uint64 \<Rightarrow> uint64 \<Rightarrow> uint64) \<Rightarrow> BitSet \<Rightarrow> BitSet \<Rightarrow> BitSet option" where
  "BitSet_assign_op f bs other =
     (if bs_numBits bs = bs_numBits other
      then Some (bs\<lparr>bs_data := map (\<lambda>i. f (bs_data bs ! i) (bs_data other ! i)) [0..<length (bs_data bs)]\<rparr>)
      else None)"

definition BitSet_or_assign :: "BitSet \<Rightarrow> BitSet \<Rightarrow> BitSet option" where
  "BitSet_or_assign bs other = BitSet_assign_op (\<lambda>v w. v OR w) bs other"

definition BitSet_or :: "BitSet \<Rightarrow> BitSet \<Rightarrow> BitSet option" where
  "BitSet_or lhs rhs = (let s = lhs in BitSet_or_assign s rhs)"

definition BitSet_and_assign :: "BitSet \<Rightarrow> BitSet \<Rightarrow> BitSet option" where
  "BitSet_and_assign bs other = BitSet_assign_op (\<lambda>v w. v AND w) bs other"

definition BitSet_and :: "BitSet \<Rightarrow> BitSet \<Rightarrow> BitSet option" where
  "BitSet_and lhs rhs = (let s = lhs in BitSet_and_assign s rhs)"

definition BitSet_xor_assign :: "BitSet \<Rightarrow> BitSet \<Rightarrow> BitSet option" where
  "BitSet_xor_assign bs other = BitSet_assign_op (\<lambda>v w. v XOR w) bs other"

definition BitSet_xor :: "BitSet \<Rightarrow> BitSet \<Rightarrow> BitSet option" where
  "BitSet_xor lhs rhs = (let s = lhs in BitSet_xor_assign s rhs)"

definition BitSet_diff_assign :: "BitSet \<Rightarrow> BitSet \<Rightarrow> BitSet option" where
  "BitSet_diff_assign bs other = BitSet_assign_op (\<lambda>v w. v AND NOT w) bs other"

definition BitSet_diff :: "BitSet \<Rightarrow> BitSet \<Rightarrow> BitSet option" where
  "BitSet_diff lhs rhs = (let s = lhs in BitSet_diff_assign s rhs)"

definition BitSet_eq :: "BitSet \<Rightarrow> BitSet \<Rightarrow> bool" where
  "BitSet_eq bs other \<longleftrightarrow> bs_numBits bs = bs_numBits other \<and> bs_data bs = bs_data other"

lemmas operator_assign_defs = BitSet_or_assign_def BitSet_and_assign_def BitSet_xor_assign_def BitSet_diff_assign_def
lemmas operator_defs = BitSet_or_def BitSet_and_def BitSet_xor_def BitSet_diff_def operator_assign_defs Let_def

lemma operators_on_copy:
  "BitSet_or_assign = BitSet_or" "BitSet_and_assign = BitSet_and"
  "BitSet_xor_assign = BitSet_xor" "BitSet_diff_assign = BitSet_diff"
  by (simp_all add: fun_eq_iff operator_defs)

section \<open>Bits of a word array\<close>

text \<open>The bit at position \<open>j\<close> of an array of words.\<close>

definition data_bit :: "uint64 list \<Rightarrow> nat \<Rightarrow> bool" where
  "data_bit ws j \<longleftrightarrow> bit (ws ! (j div 64)) (j mod 64)"

lemma bit_mask_eq: "bit_mask (int j) = 2 ^ (j mod 64)"
  by (simp add: bit_mask_def push_bit_eq_mult nat_mod_distrib)

lemma bit_bit_mask: "bit (bit_mask (int j)) n \<longleftrightarrow> n = j mod 64"
  by (auto simp: bit_mask_eq bit_exp_iff)

lemma test_mask: "w AND bit_mask (int j) \<noteq> 0 \<longleftrightarrow> bit w (j mod 64)"
  using and_power_eq_0_iff [of "j mod 64" w] by (simp add: bit_mask_eq and.commute)

lemma data_bits_eqI:
  assumes "length vs = length ws" and "\<And>j. j < 64 * length ws \<Longrightarrow> data_bit vs j = data_bit ws j"
  shows "vs = ws"
proof (rule nth_equalityI [OF assms(1)])
  fix i assume i: "i < length vs"
  show "vs ! i = ws ! i"
  proof (rule bit_word_eqI)
    fix n assume "n < LENGTH(64)"
    then have "(64 * i + n) div 64 = i" "(64 * i + n) mod 64 = n" "64 * i + n < 64 * length ws"
      using i assms(1) by simp_all
    with assms(2) [of "64 * i + n"] show "bit (vs ! i) n = bit (ws ! i) n"
      by (simp add: data_bit_def)
  qed
qed

section \<open>Validity\<close>

definition words_for :: "nat \<Rightarrow> nat" where
  "words_for n = (if n = 0 then 1 else (n - 1) div 64 + 1)"

lemma words_for_bounds: "n \<le> 64 * words_for n" "0 < words_for n"
  "j < n \<Longrightarrow> j div 64 < words_for n" "j < 64 * words_for n \<Longrightarrow> j div 64 < words_for n"
  by (auto simp: words_for_def)

lemma words_for_last:
  assumes "n mod 64 \<noteq> 0"
  shows "words_for n = n div 64 + 1"
proof -
  have "n - 1 = (n mod 64 - 1) + 64 * (n div 64)" using assms mod_mult_div_eq [of n 64] by simp
  moreover have "((n mod 64 - 1) + 64 * (n div 64)) div 64 = n div 64"
    using mod_less_divisor [of 64 n] by (subst div_mult_self2) simp_all
  ultimately show ?thesis using assms by (auto simp: words_for_def)
qed

lemma words_for_full:
  assumes "n \<noteq> 0" and "n mod 64 = 0"
  shows "64 * words_for n = n"
proof -
  obtain q where q: "n = 64 * Suc q" using assms by (metis dvd_def mod_0_imp_dvd mult_0_right not0_implies_Suc)
  have "(63 + 64 * q) div 64 = q" by simp
  then show ?thesis by (simp add: words_for_def q)
qed

lemma lastWordMask_eq: "bs_numBits bs = int n \<Longrightarrow> lastWordMask bs = mask (n mod 64)"
  by (simp add: lastWordMask_def bit_mask_eq mask_eq_exp_minus_1)

lemma isLastWordFull_iff: "bs_numBits bs = int n \<Longrightarrow> isLastWordFull bs \<longleftrightarrow> n mod 64 = 0"
proof -
  have "int n AND 63 = int n mod 64"
    using take_bit_eq_mask [of 6 "int n"] by (simp add: take_bit_eq_mod mask_eq_exp_minus_1)
  moreover have "int n mod 64 = int (n mod 64)" by (simp add: zmod_int)
  ultimately show "bs_numBits bs = int n \<Longrightarrow> ?thesis" by (simp add: isLastWordFull_def)
qed

lemma and_not_mask_eq_0: "(w :: uint64) AND NOT (mask k) = 0 \<longleftrightarrow> (\<forall>m<64. k \<le> m \<longrightarrow> \<not> bit w m)"
proof
  assume "w AND NOT (mask k) = 0"
  then show "\<forall>m<64. k \<le> m \<longrightarrow> \<not> bit w m"
    by (auto simp: bit_eq_iff bit_and_iff bit_not_iff bit_mask_iff not_less)
next
  assume "\<forall>m<64. k \<le> m \<longrightarrow> \<not> bit w m"
  then show "w AND NOT (mask k) = 0"
    by (intro bit_word_eqI) (auto simp: bit_and_iff bit_not_iff bit_mask_iff not_less)
qed

definition wf_bits :: "nat \<Rightarrow> uint64 list \<Rightarrow> bool" where
  "wf_bits n ws \<longleftrightarrow> length ws = words_for n \<and> (\<forall>j. n \<le> j \<and> j < 64 * length ws \<longrightarrow> \<not> data_bit ws j)"

lemma high_bits_iff:
  assumes "length ws = words_for n" and "n mod 64 \<noteq> 0"
  shows "(\<forall>j. n \<le> j \<and> j < 64 * length ws \<longrightarrow> \<not> data_bit ws j) \<longleftrightarrow>
     ws ! (n div 64) AND NOT (mask (n mod 64)) = 0" (is "?L \<longleftrightarrow> ?R")
proof
  assume ?L
  show ?R unfolding and_not_mask_eq_0
  proof (intro allI impI)
    fix m :: nat assume "m < 64" "n mod 64 \<le> m"
    moreover have "n = 64 * (n div 64) + n mod 64" by simp
    ultimately have "n \<le> 64 * (n div 64) + m" by linarith
    with \<open>m < 64\<close> show "\<not> bit (ws ! (n div 64)) m"
      using \<open>?L\<close> [rule_format, of "64 * (n div 64) + m"] assms by (simp add: words_for_last data_bit_def)
  qed
next
  assume ?R
  show ?L
  proof (intro allI impI)
    fix j assume j: "n \<le> j \<and> j < 64 * length ws"
    then have "j div 64 < n div 64 + 1"
      using assms words_for_last [of n] by (intro less_mult_imp_div_less) (simp add: mult.commute)
    then have "j div 64 = n div 64" using j div_le_mono [of n j 64] by simp
    moreover from this j have "n mod 64 \<le> j mod 64"
      by (metis div_mult_mod_eq nat_add_left_cancel_le)
    ultimately show "\<not> data_bit ws j" using \<open>?R\<close> by (simp add: and_not_mask_eq_0 data_bit_def)
  qed
qed

lemma isValid_iff: "BitSet_isValid bs \<longleftrightarrow> 0 \<le> bs_numBits bs \<and> wf_bits (nat (bs_numBits bs)) (bs_data bs)"
proof (cases "bs_numBits bs < 0")
  case False
  then obtain n where n: "bs_numBits bs = int n" by (metis nonneg_int_cases not_less)
  let ?ws = "bs_data bs"
  show ?thesis
  proof (cases "n = 0")
    case True
    have "(\<forall>j<64. \<not> data_bit ?ws j) \<longleftrightarrow> ?ws ! 0 = 0"
      using and_not_mask_eq_0 [of "?ws ! 0" 0] by (simp add: data_bit_def)
    with True n show ?thesis by (auto simp: BitSet_isValid_def wf_bits_def words_for_def)
  next
    case False
    have len: "(int n - 1) div 64 + 1 = int (length ?ws) \<longleftrightarrow> length ?ws = words_for n"
      using False by (auto simp: words_for_def zdiv_int of_nat_diff)
    have last: "getWord bs (int n) = ?ws ! (n div 64)"
      by (simp add: getWord_def nat_div_distrib)
    show ?thesis
    proof (cases "n mod 64 = 0")
      case True
      with False n len show ?thesis
        by (auto simp: BitSet_isValid_def wf_bits_def isLastWordFull_iff words_for_full)
    next
      case nz: False
      with False n len last high_bits_iff [of ?ws n] show ?thesis
        by (auto simp: BitSet_isValid_def wf_bits_def isLastWordFull_iff lastWordMask_eq)
    qed
  qed
qed (simp add: BitSet_isValid_def)

section \<open>The set a bit set denotes\<close>

definition bits :: "BitSet \<Rightarrow> int set" where
  "bits bs = {i. BitSet_test bs i}"

lemma test_eq:
  "bs_numBits bs = int n \<Longrightarrow> BitSet_test bs (int j) \<longleftrightarrow> j < n \<and> data_bit (bs_data bs) j"
  by (simp add: BitSet_test_def getWord_def test_mask data_bit_def nat_div_distrib)

lemma bits_eq:
  assumes "bs_numBits bs = int n"
  shows "bits bs = int ` {j. j < n \<and> data_bit (bs_data bs) j}"
proof (rule set_eqI)
  fix i
  have "0 \<le> i" if "BitSet_test bs i" using that by (simp add: BitSet_test_def)
  then show "i \<in> bits bs \<longleftrightarrow> i \<in> int ` {j. j < n \<and> data_bit (bs_data bs) j}"
    using test_eq [OF assms, of "nat i"] by (cases "0 \<le> i") (auto simp: bits_def image_iff)
qed

lemma image_bits:
  assumes "bs_numBits bs = int n"
  shows "int ` {j. j < n \<and> P (data_bit (bs_data bs) j)} = {i \<in> {0..<bs_numBits bs}. P (i \<in> bits bs)}"
proof -
  have "data_bit (bs_data bs) j \<longleftrightarrow> int j \<in> bits bs" if "j < n" for j
    using that by (auto simp: bits_eq [OF assms])
  then have "int ` {j. j < n \<and> P (data_bit (bs_data bs) j)} = int ` {j. j < n \<and> P (int j \<in> bits bs)}"
    by (intro arg_cong [where f = "image int"]) auto
  also have "\<dots> = {i \<in> {0..<bs_numBits bs}. P (i \<in> bits bs)}"
    using assms by (auto simp: image_iff) (metis nonneg_int_cases of_nat_less_iff)
  finally show ?thesis .
qed

lemma bits_range: "bits bs \<subseteq> {0..<bs_numBits bs}"
  by (auto simp: bits_def BitSet_test_def)

lemma finite_bits [simp]: "finite (bits bs)"
  using bits_range by (rule finite_subset) simp

lemma isValidE:
  assumes "BitSet_isValid bs"
  obtains n where "bs_numBits bs = int n" "wf_bits n (bs_data bs)"
  using assms isValid_iff [of bs] by (metis int_nat_eq)

text \<open>How an update of the words changes the set: it is enough to follow every stored bit.\<close>

lemma update_data:
  assumes "bs_numBits bs = int n" and "length ws = words_for n"
    and "\<And>j. j < 64 * words_for n \<Longrightarrow> data_bit ws j \<longleftrightarrow> j < n \<and> P j"
  shows "BitSet_isValid (bs\<lparr>bs_data := ws\<rparr>) \<and> bits (bs\<lparr>bs_data := ws\<rparr>) = int ` {j. j < n \<and> P j}"
proof
  show "BitSet_isValid (bs\<lparr>bs_data := ws\<rparr>)"
    using assms by (simp add: isValid_iff wf_bits_def)
  have "j < 64 * words_for n" if "j < n" for j using that words_for_bounds(1) [of n] by simp
  then show "bits (bs\<lparr>bs_data := ws\<rparr>) = int ` {j. j < n \<and> P j}"
    using assms by (auto simp: bits_eq [of "bs\<lparr>bs_data := ws\<rparr>" n])
qed

lemma wf_bitsD:
  assumes "wf_bits n ws"
  shows "length ws = words_for n" "j < 64 * words_for n \<Longrightarrow> data_bit ws j \<Longrightarrow> j < n"
  using assms by (auto simp: wf_bits_def not_less [symmetric])

lemma data_bit_update:
  "i < length ws \<Longrightarrow> data_bit (ws[i := w]) j \<longleftrightarrow> (if j div 64 = i then bit w (j mod 64) else data_bit ws j)"
  by (simp add: data_bit_def)

lemma assignWord_correct:
  assumes "BitSet_isValid bs" and "0 \<le> idx" and "idx < bs_numBits bs"
    and f: "\<And>w k. k < 64 \<Longrightarrow> bit (f w) k \<longleftrightarrow> (if int k = idx mod 64 then g (bit w k) else bit w k)"
  shows "\<exists>bs'. assignWord f bs idx = Some bs' \<and> BitSet_isValid bs' \<and> bs_numBits bs' = bs_numBits bs \<and>
    bits bs' = {i \<in> {0..<bs_numBits bs}. if i = idx then g (i \<in> bits bs) else i \<in> bits bs}"
proof -
  obtain n where n: "bs_numBits bs = int n" "wf_bits n (bs_data bs)"
    using assms(1) by (rule isValidE)
  obtain x where x: "idx = int x" "x < n" using assms(2,3) n(1) by (metis nonneg_int_cases of_nat_less_iff)
  let ?ws = "(bs_data bs)[x div 64 := f (bs_data bs ! (x div 64))]"
  have eq: "assignWord f bs idx = Some (bs\<lparr>bs_data := ?ws\<rparr>)"
    using x n(1) by (simp add: assignWord_def checkValidIndex_def getWord_def nat_div_distrib)
  have xw: "x div 64 < length (bs_data bs)" using x(2) n(2) by (simp add: wf_bitsD words_for_bounds)
  have "data_bit ?ws j \<longleftrightarrow> j < n \<and> (if j = x then g (data_bit (bs_data bs) j) else data_bit (bs_data bs) j)"
    if j: "j < 64 * words_for n" for j
  proof -
    have "j = x \<longleftrightarrow> j div 64 = x div 64 \<and> j mod 64 = x mod 64" by (metis div_mult_mod_eq)
    moreover have "int (j mod 64) = idx mod 64 \<longleftrightarrow> j mod 64 = x mod 64"
      unfolding x(1) using of_nat_mod [of x 64, where ?'a = int] of_nat_eq_iff [of "j mod 64" "x mod 64", where ?'a = int] by simp
    moreover have "data_bit ?ws j \<longleftrightarrow>
        (if j div 64 = x div 64 then bit (f (bs_data bs ! (j div 64))) (j mod 64) else data_bit (bs_data bs) j)"
      using data_bit_update [OF xw] by simp
    ultimately have "data_bit ?ws j \<longleftrightarrow> (if j = x then g (data_bit (bs_data bs) j) else data_bit (bs_data bs) j)"
      using f [of "j mod 64" "bs_data bs ! (j div 64)"] data_bit_def [of "bs_data bs" j]
      by (cases "j div 64 = x div 64"; cases "j mod 64 = x mod 64") simp_all
    with x(2) wf_bitsD(2) [OF n(2) j] show ?thesis by auto
  qed
  from update_data [OF n(1) _ this] have "BitSet_isValid (bs\<lparr>bs_data := ?ws\<rparr>)"
    "bits (bs\<lparr>bs_data := ?ws\<rparr>) = int ` {j. j < n \<and> (if j = x then g (data_bit (bs_data bs) j) else data_bit (bs_data bs) j)}"
    using n(2) by (simp_all add: wf_bitsD)
  then show ?thesis
    unfolding eq using n(1) x by (auto simp: bits_eq [OF n(1)] image_iff)
qed

section \<open>Single-bit and whole-set operations\<close>

lemma bit_mask_bit: "0 \<le> idx \<Longrightarrow> bit (bit_mask idx) k \<longleftrightarrow> int k = idx mod 64"
proof -
  assume "0 \<le> idx"
  then obtain j where "idx = int j" by (metis nonneg_int_cases)
  then show ?thesis using bit_bit_mask [of j k] by (metis of_nat_eq_iff of_nat_mod of_nat_numeral)
qed

lemma single_bit_ops:
  assumes "BitSet_isValid bs" and "0 \<le> idx" and "idx < bs_numBits bs"
  shows set_bit_ok: "\<exists>bs'. BitSet_set_bit bs idx = Some bs' \<and> BitSet_isValid bs' \<and>
      bs_numBits bs' = bs_numBits bs \<and> bits bs' = insert idx (bits bs)"
    and clear_bit_ok: "\<exists>bs'. BitSet_clear_bit bs idx = Some bs' \<and> BitSet_isValid bs' \<and>
      bs_numBits bs' = bs_numBits bs \<and> bits bs' = bits bs - {idx}"
    and flip_bit_ok: "\<exists>bs'. BitSet_flip_bit bs idx = Some bs' \<and> BitSet_isValid bs' \<and>
      bs_numBits bs' = bs_numBits bs \<and> bits bs' = (if idx \<in> bits bs then bits bs - {idx} else insert idx (bits bs))"
proof -
  have range: "i \<in> bits bs \<Longrightarrow> 0 \<le> i \<and> i < bs_numBits bs" for i using bits_range [of bs] by auto
  note m = bit_mask_bit [OF assms(2)]
  have "{i \<in> {0..<bs_numBits bs}. if i = idx then True else i \<in> bits bs} = insert idx (bits bs)"
    using range assms(2,3) by auto
  then show "\<exists>bs'. BitSet_set_bit bs idx = Some bs' \<and> BitSet_isValid bs' \<and>
      bs_numBits bs' = bs_numBits bs \<and> bits bs' = insert idx (bits bs)"
    using assignWord_correct [OF assms, of "\<lambda>w. w OR bit_mask idx" "\<lambda>_. True"]
    by (simp add: BitSet_set_bit_def bit_or_iff m)
  have "{i \<in> {0..<bs_numBits bs}. if i = idx then False else i \<in> bits bs} = bits bs - {idx}"
    using range by auto
  then show "\<exists>bs'. BitSet_clear_bit bs idx = Some bs' \<and> BitSet_isValid bs' \<and>
      bs_numBits bs' = bs_numBits bs \<and> bits bs' = bits bs - {idx}"
    using assignWord_correct [OF assms, of "\<lambda>w. w AND NOT (bit_mask idx)" "\<lambda>_. False"]
    by (simp add: BitSet_clear_bit_def bit_and_iff bit_not_iff m)
  have "{i \<in> {0..<bs_numBits bs}. if i = idx then i \<notin> bits bs else i \<in> bits bs} =
      (if idx \<in> bits bs then bits bs - {idx} else insert idx (bits bs))"
    using range assms(2,3) by auto
  then show "\<exists>bs'. BitSet_flip_bit bs idx = Some bs' \<and> BitSet_isValid bs' \<and>
      bs_numBits bs' = bs_numBits bs \<and> bits bs' = (if idx \<in> bits bs then bits bs - {idx} else insert idx (bits bs))"
    using assignWord_correct [OF assms, of "\<lambda>w. w XOR bit_mask idx" Not]
    by (simp add: BitSet_flip_bit_def bit_xor_iff m)
qed

lemma nth_words_but_last:
  assumes "i < length ws"
  shows "(words_but_last f ws)[length ws - 1 := v] ! i = (if i = length ws - 1 then v else f (ws ! i))"
  using assms by (auto simp: words_but_last_def nth_list_update nth_append)

lemma length_words_but_last [simp]: "length (words_but_last f ws) = length ws"
  by (simp add: words_but_last_def)

text \<open>The mask of the last word cuts the bits exactly at the size.\<close>

lemma last_mask_bit:
  assumes "bs_numBits bs = int n" and "n \<noteq> 0" and "j < 64 * words_for n"
  shows "(if j div 64 = words_for n - 1
          then bit (if isLastWordFull bs then NOT 0 else lastWordMask bs :: uint64) (j mod 64) else True) \<longleftrightarrow> j < n"
proof (cases "n mod 64 = 0")
  case True
  with assms show ?thesis by (simp add: isLastWordFull_iff words_for_full bit_not_iff)
next
  case False
  have n: "n = 64 * (n div 64) + n mod 64" and j: "j = 64 * (j div 64) + j mod 64" by simp_all
  have "j < n" if "j div 64 < n div 64"
    using that div_le_mono [of n j 64] by (simp add: not_less [symmetric])
  moreover have "j div 64 \<le> n div 64"
    using words_for_bounds(4) [OF assms(3)] words_for_last [OF False] by simp
  moreover have "j < n \<longleftrightarrow> j mod 64 < n mod 64" if "j div 64 = n div 64"
    using that n j by linarith
  ultimately show ?thesis
    using False assms(1) by (auto simp: isLastWordFull_iff lastWordMask_eq words_for_last bit_mask_iff)
qed

text \<open>
  Both whole-set loops combine every word with ones and the last word with its mask; \<open>h\<close> is what
  the combination does to one bit.
\<close>

lemma masked_words:
  assumes n: "bs_numBits bs = int n" "wf_bits n (bs_data bs)" "n \<noteq> 0"
    and h: "\<And>w m k. k < 64 \<Longrightarrow> bit (comb w m) k \<longleftrightarrow> h (bit w k) (bit m k)" and low: "\<not> h False False"
  defines "m \<equiv> (if isLastWordFull bs then NOT 0 else lastWordMask bs)" and "ws \<equiv> bs_data bs"
  defines "us \<equiv> (words_but_last (\<lambda>w. comb w (NOT 0)) ws)[length ws - 1 := comb (ws ! (length ws - 1)) m]"
  shows "BitSet_isValid (bs\<lparr>bs_data := us\<rparr>) \<and>
    bits (bs\<lparr>bs_data := us\<rparr>) = {i \<in> {0..<bs_numBits bs}. h (i \<in> bits bs) True}"
proof -
  note len = wf_bitsD(1) [OF n(2), folded ws_def]
  have "data_bit us j \<longleftrightarrow> j < n \<and> h (data_bit ws j) True" if j: "j < 64 * words_for n" for j
  proof -
    have w: "j div 64 < length ws" using j len by (simp add: words_for_bounds)
    have "data_bit us j \<longleftrightarrow> h (data_bit ws j) (j < n)"
      unfolding data_bit_def us_def nth_words_but_last [OF w]
      using last_mask_bit [OF n(1,3) j, folded m_def] len by (auto simp: h bit_not_iff)
    then show ?thesis
      using wf_bitsD(2) [OF n(2) j, folded ws_def] low by (cases "j < n"; cases "data_bit ws j") auto
  qed
  from update_data [OF n(1) _ this] len show ?thesis
    using image_bits [OF n(1), of "\<lambda>b. h b True"] by (simp add: us_def ws_def)
qed

lemma clear_all_ok:
  assumes "BitSet_isValid bs"
  shows "BitSet_isValid (BitSet_clear_all bs) \<and> bits (BitSet_clear_all bs) = {}"
proof -
  obtain n where n: "bs_numBits bs = int n" "wf_bits n (bs_data bs)" using assms by (rule isValidE)
  then show ?thesis
    using update_data [OF n(1), of "map (\<lambda>_. 0) (bs_data bs)" "\<lambda>_. False"]
    by (simp add: BitSet_clear_all_def data_bit_def wf_bitsD words_for_bounds)
qed

lemma set_flip_all_ok:
  assumes "BitSet_isValid bs"
  shows set_all_ok: "BitSet_isValid (BitSet_set_all bs) \<and> bits (BitSet_set_all bs) = {0..<bs_numBits bs}"
    and flip_all_ok: "BitSet_isValid (BitSet_flip_all bs) \<and>
      bits (BitSet_flip_all bs) = {0..<bs_numBits bs} - bits bs"
proof -
  obtain n where n: "bs_numBits bs = int n" "wf_bits n (bs_data bs)" using assms by (rule isValidE)
  note empty = bits_range [of bs]
  show "BitSet_isValid (BitSet_set_all bs) \<and> bits (BitSet_set_all bs) = {0..<bs_numBits bs}"
    using assms n(1) empty masked_words [OF n, of "\<lambda>_ m. m" "\<lambda>_ b. b"]
    by (cases "n = 0") (auto simp: BitSet_set_all_def Let_def)
  have last: "words_but_last f ws ! (length ws - Suc 0) = ws ! (length ws - Suc 0)" for f ws
    by (cases ws rule: rev_cases) (simp_all add: words_but_last_def nth_append)
  show "BitSet_isValid (BitSet_flip_all bs) \<and> bits (BitSet_flip_all bs) = {0..<bs_numBits bs} - bits bs"
  proof (cases "n = 0")
    case False
    then show ?thesis
      using n(1) masked_words [OF n False, of "\<lambda>w m. w XOR m" "\<lambda>b c. b \<noteq> c"]
      unfolding BitSet_flip_all_def
      by (cases "isLastWordFull bs") (simp_all add: Let_def last bit_xor_iff set_diff_eq)
  qed (use assms n(1) empty in \<open>auto simp: BitSet_flip_all_def\<close>)
qed

section \<open>Set operators, equality and counting\<close>

lemma assign_op_ok:
  assumes a: "BitSet_isValid a" and b: "BitSet_isValid b" and size: "bs_numBits a = bs_numBits b"
    and h: "\<And>v w k. k < 64 \<Longrightarrow> bit (f v w) k \<longleftrightarrow> h (bit v k) (bit w k)" and low: "\<not> h False False"
  shows "\<exists>s. BitSet_assign_op f a b = Some s \<and> BitSet_isValid s \<and> bs_numBits s = bs_numBits a \<and>
    bits s = {i \<in> {0..<bs_numBits a}. h (i \<in> bits a) (i \<in> bits b)}"
proof -
  obtain n where n: "bs_numBits a = int n" "wf_bits n (bs_data a)" using a by (rule isValidE)
  have nb: "bs_numBits b = int n" "wf_bits n (bs_data b)"
    using b n(1) size by (auto elim!: isValidE)
  let ?ws = "map (\<lambda>i. f (bs_data a ! i) (bs_data b ! i)) [0..<length (bs_data a)]"
  have "data_bit ?ws j \<longleftrightarrow> j < n \<and> h (int j \<in> bits a) (int j \<in> bits b)"
    if j: "j < 64 * words_for n" for j
  proof -
    have "j div 64 < length (bs_data a)" using n(2) j by (simp add: wf_bitsD words_for_bounds)
    then have "data_bit ?ws j \<longleftrightarrow> h (data_bit (bs_data a) j) (data_bit (bs_data b) j)"
      by (simp add: data_bit_def h)
    moreover have "int j \<in> bits a \<longleftrightarrow> data_bit (bs_data a) j" "int j \<in> bits b \<longleftrightarrow> data_bit (bs_data b) j"
      using wf_bitsD(2) [OF n(2) j] wf_bitsD(2) [OF nb(2) j] by (auto simp: bits_eq [OF n(1)] bits_eq [OF nb(1)])
    moreover have "\<not> data_bit (bs_data a) j \<and> \<not> data_bit (bs_data b) j" if "\<not> j < n"
      using that wf_bitsD(2) [OF n(2) j] wf_bitsD(2) [OF nb(2) j] by blast
    ultimately show ?thesis using low by (cases "j < n") auto
  qed
  from update_data [OF n(1) _ this] show ?thesis
    using n size wf_bitsD(1) [OF n(2)]
    by (auto simp: BitSet_assign_op_def image_iff) (metis nonneg_int_cases of_nat_less_iff)
qed

lemma set_operators_ok:
  assumes "BitSet_isValid a" and "BitSet_isValid b" and "bs_numBits a = bs_numBits b"
  shows or_ok: "\<exists>s. BitSet_or a b = Some s \<and> BitSet_isValid s \<and> bs_numBits s = bs_numBits a \<and> bits s = bits a \<union> bits b"
    and and_ok: "\<exists>s. BitSet_and a b = Some s \<and> BitSet_isValid s \<and> bs_numBits s = bs_numBits a \<and> bits s = bits a \<inter> bits b"
    and xor_ok: "\<exists>s. BitSet_xor a b = Some s \<and> BitSet_isValid s \<and> bs_numBits s = bs_numBits a \<and>
      bits s = (bits a - bits b) \<union> (bits b - bits a)"
    and diff_ok: "\<exists>s. BitSet_diff a b = Some s \<and> BitSet_isValid s \<and> bs_numBits s = bs_numBits a \<and> bits s = bits a - bits b"
proof -
  have r: "i \<in> bits a \<Longrightarrow> 0 \<le> i \<and> i < bs_numBits a" "i \<in> bits b \<Longrightarrow> 0 \<le> i \<and> i < bs_numBits a" for i
    using bits_range [of a] bits_range [of b] assms(3) by auto
  have sets: "{i \<in> {0..<bs_numBits a}. i \<in> bits a \<or> i \<in> bits b} = bits a \<union> bits b"
    "{i \<in> {0..<bs_numBits a}. i \<in> bits a \<and> i \<in> bits b} = bits a \<inter> bits b"
    "{i \<in> {0..<bs_numBits a}. (i \<in> bits a) \<noteq> (i \<in> bits b)} = (bits a - bits b) \<union> (bits b - bits a)"
    "{i \<in> {0..<bs_numBits a}. i \<in> bits a \<and> \<not> i \<in> bits b} = bits a - bits b"
    by (auto dest: r)
  note ok = assign_op_ok [OF assms]
  show "\<exists>s. BitSet_or a b = Some s \<and> BitSet_isValid s \<and> bs_numBits s = bs_numBits a \<and> bits s = bits a \<union> bits b"
    using ok [of "\<lambda>v w. v OR w" "\<lambda>p q. p \<or> q"] unfolding BitSet_or_def BitSet_or_assign_def Let_def sets by (simp add: bit_or_iff)
  show "\<exists>s. BitSet_and a b = Some s \<and> BitSet_isValid s \<and> bs_numBits s = bs_numBits a \<and> bits s = bits a \<inter> bits b"
    using ok [of "\<lambda>v w. v AND w" "\<lambda>p q. p \<and> q"] unfolding BitSet_and_def BitSet_and_assign_def Let_def sets by (simp add: bit_and_iff)
  show "\<exists>s. BitSet_xor a b = Some s \<and> BitSet_isValid s \<and> bs_numBits s = bs_numBits a \<and>
      bits s = (bits a - bits b) \<union> (bits b - bits a)"
    using ok [of "\<lambda>v w. v XOR w" "\<lambda>p q. p \<noteq> q"] unfolding BitSet_xor_def BitSet_xor_assign_def Let_def sets by (simp add: bit_xor_iff)
  show "\<exists>s. BitSet_diff a b = Some s \<and> BitSet_isValid s \<and> bs_numBits s = bs_numBits a \<and> bits s = bits a - bits b"
    using ok [of "\<lambda>v w. v AND NOT w" "\<lambda>p q. p \<and> \<not> q"] unfolding BitSet_diff_def BitSet_diff_assign_def Let_def sets
    by (simp add: bit_and_iff bit_not_iff)
qed

lemma BitSet_eq_iff:
  assumes "BitSet_isValid a" and "BitSet_isValid b"
  shows "BitSet_eq a b \<longleftrightarrow> bs_numBits a = bs_numBits b \<and> bits a = bits b"
proof
  assume "bs_numBits a = bs_numBits b \<and> bits a = bits b"
  then have size: "bs_numBits a = bs_numBits b" and eq: "bits a = bits b" by simp_all
  obtain n where n: "bs_numBits a = int n" "wf_bits n (bs_data a)" using assms(1) by (rule isValidE)
  have nb: "bs_numBits b = int n" "wf_bits n (bs_data b)"
    using assms(2) n(1) size by (auto elim!: isValidE)
  have "data_bit (bs_data a) j = data_bit (bs_data b) j" if j: "j < 64 * length (bs_data b)" for j
  proof -
    have j: "j < 64 * words_for n" using j wf_bitsD(1) [OF nb(2)] by simp
    have "int j \<in> bits a \<longleftrightarrow> data_bit (bs_data a) j" "int j \<in> bits b \<longleftrightarrow> data_bit (bs_data b) j"
      using wf_bitsD(2) [OF n(2) j] wf_bitsD(2) [OF nb(2) j] by (auto simp: bits_eq [OF n(1)] bits_eq [OF nb(1)])
    with eq show ?thesis by simp
  qed
  then have "bs_data a = bs_data b"
    using n(2) nb(2) by (intro data_bits_eqI) (simp_all add: wf_bitsD)
  with size show "BitSet_eq a b" by (simp add: BitSet_eq_def)
qed (auto simp: BitSet_eq_def bits_def BitSet_test_def getWord_def)

lemma count_words:
  "card {j. j < 64 * length ws \<and> data_bit ws j} = (\<Sum>w\<leftarrow>ws. card {n. bit w n})"
proof (induction ws)
  case (Cons w ws)
  let ?S = "{j. j < 64 * length ws \<and> data_bit ws j}"
  have bw: "n < 64" if "bit w n" for n using that by (auto dest: bit_imp_le_length)
  have cons: "data_bit (w # ws) j \<longleftrightarrow> (if j < 64 then bit w j else data_bit ws (j - 64))" for j
  proof (cases "j < 64")
    case False
    then have "j div 64 = Suc ((j - 64) div 64)" "j mod 64 = (j - 64) mod 64"
      using le_div_geq [of 64 j] le_mod_geq [of 64 j] by simp_all
    with False show ?thesis by (simp add: data_bit_def)
  qed (simp add: data_bit_def)
  have "{j. j < 64 * length (w # ws) \<and> data_bit (w # ws) j} = {n. bit w n} \<union> (+) 64 ` ?S" (is "?L = ?R")
  proof (rule set_eqI)
    fix j
    show "j \<in> ?L \<longleftrightarrow> j \<in> ?R"
    proof (cases "j < 64")
      case False
      then obtain k where "j = 64 + k" by (metis le_Suc_ex not_less)
      with bw [of j] show ?thesis by (auto simp: cons image_iff)
    qed (auto simp: cons)
  qed
  moreover have "{n. bit w n} \<inter> (+) 64 ` ?S = {}" by (auto dest: bw)
  moreover have "finite {n. bit w n}" by (rule finite_subset [of _ "{..<64}"]) (auto dest: bw)
  ultimately show ?case using Cons.IH by (simp add: card_Un_disjoint card_image)
qed simp

lemma count_ok:
  assumes "BitSet_isValid bs"
  shows "BitSet_count bs = int (card (bits bs))"
proof -
  obtain n where n: "bs_numBits bs = int n" "wf_bits n (bs_data bs)" using assms by (rule isValidE)
  have fold: "foldl (\<lambda>ctr w. ctr + popcount w) c ws = c + int (\<Sum>w\<leftarrow>ws. card {n. bit w n})" for c ws
    by (induction ws arbitrary: c) (simp_all add: popcount_eq)
  have "{j. j < n \<and> data_bit (bs_data bs) j} = {j. j < 64 * length (bs_data bs) \<and> data_bit (bs_data bs) j}"
    using wf_bitsD [OF n(2)] words_for_bounds(1) [of n] by auto
  then show ?thesis
    by (simp add: BitSet_count_def fold bits_eq [OF n(1)] card_image count_words)
qed

section \<open>Enumerating the set bits\<close>

text \<open>\<open>r\<close> is the first set bit at a position of at least \<open>s\<close>, or \<^term>\<open>npos\<close> if there is none.\<close>

definition first_bit_from :: "uint64 list \<Rightarrow> nat \<Rightarrow> int \<Rightarrow> bool" where
  "first_bit_from ws s r \<longleftrightarrow>
     (if r = npos then \<forall>j. s \<le> j \<and> j < 64 * length ws \<longrightarrow> \<not> data_bit ws j
      else \<exists>j. r = int j \<and> s \<le> j \<and> j < 64 * length ws \<and> data_bit ws j \<and>
               (\<forall>i. s \<le> i \<and> i < j \<longrightarrow> \<not> data_bit ws i))"

lemma nonzero_word:
  assumes "(w :: uint64) \<noteq> 0"
  obtains k where "countr_zero w = int k" "k < 64" "bit w k" "\<And>j. j < k \<Longrightarrow> \<not> bit w j"
  using lowest_bit_exists [OF assms] countr_zero_eq by (metis lowest_bit_def)

lemma zero_word_bits: "ws ! (j div 64) = 0 \<Longrightarrow> \<not> data_bit ws j"
  by (simp add: data_bit_def)

lemma data_bit_at: "k < 64 \<Longrightarrow> data_bit ws (64 * i + k) \<longleftrightarrow> bit (ws ! i) k"
  by (simp add: data_bit_def)

lemma div_less_64: "j < 64 * i \<longleftrightarrow> j div 64 < (i :: nat)"
  by (simp add: div_less_iff_less_mult mult.commute)

lemma offset_in_word:
  assumes "s \<le> (j :: nat)" and "j < 64 * (s div 64) + k"
  shows "\<exists>m. j = 64 * (s div 64) + m \<and> s mod 64 \<le> m \<and> m < k"
proof -
  have "64 * (s div 64) + s mod 64 = s" by simp
  with assms have "j = 64 * (s div 64) + (j - 64 * (s div 64))" "s mod 64 \<le> j - 64 * (s div 64)"
      "j - 64 * (s div 64) < k" by linarith+
  then show ?thesis by blast
qed

lemma find_in_words_spec:
  "first_bit_from (bs_data bs) (64 * s) (find_in_words bs (int s))"
proof -
  let ?ws = "bs_data bs"
  define i where "i = for_find (\<lambda>i. ?ws ! nat i \<noteq> 0) (int s) (int (length ?ws)) npos"
  have zero: "?ws ! (j div 64) = 0" if "64 * s \<le> j" "j < 64 * m" "\<forall>k. int s \<le> k \<and> k < int m \<longrightarrow> ?ws ! nat k = 0" for j m
    using that div_less_64 [of j m] div_less_64 [of j s] by (auto simp: not_less dest!: spec [of _ "int (j div 64)"])
  consider "i = npos" "\<forall>k. int s \<le> k \<and> k < int (length ?ws) \<longrightarrow> ?ws ! nat k = 0"
    | "int s \<le> i" "i < int (length ?ws)" "?ws ! nat i \<noteq> 0" "\<forall>k. int s \<le> k \<and> k < i \<longrightarrow> ?ws ! nat k = 0"
    using for_find_cases [of "\<lambda>i. ?ws ! nat i \<noteq> 0" "int s" "int (length ?ws)" npos] unfolding i_def by blast
  then show ?thesis
  proof cases
    case 1
    then have "find_in_words bs (int s) = npos" by (simp add: find_in_words_def i_def)
    moreover have "\<not> data_bit ?ws j" if "64 * s \<le> j" "j < 64 * length ?ws" for j
      using that 1(2) by (intro zero_word_bits zero)
    ultimately show ?thesis by (simp add: first_bit_from_def)
  next
    case 2
    define m where "m = nat i"
    have m: "i = int m" "s \<le> m" "m < length ?ws" using 2 by (auto simp: m_def)
    obtain k where k: "countr_zero (?ws ! m) = int k" "k < 64" "bit (?ws ! m) k" "\<And>j. j < k \<Longrightarrow> \<not> bit (?ws ! m) j"
      using 2(3) by (auto simp: m_def elim!: nonzero_word)
    have r: "find_in_words bs (int s) = int (64 * m + k)"
      using m(1) k(1) by (simp add: find_in_words_def i_def [symmetric] Let_def)
    have "\<not> data_bit ?ws j" if "64 * s \<le> j" "j < 64 * m + k" for j
    proof (cases "j < 64 * m")
      case True
      with that(1) 2(4) m(1) show ?thesis by (intro zero_word_bits zero) auto
    next
      case False
      then have "j = 64 * m + (j - 64 * m)" "j - 64 * m < k" using that by simp_all
      with k show ?thesis using data_bit_at [of "j - 64 * m" ?ws m] by simp
    qed
    moreover have "64 * s \<le> 64 * m + k" "64 * m + k < 64 * length ?ws" using m k(2) by linarith+
    ultimately show ?thesis
      using k data_bit_at [of k ?ws m] unfolding first_bit_from_def r by (auto intro!: exI [of _ "64 * m + k"])
  qed
qed

lemma first_bit_from_skip:
  assumes "first_bit_from ws (64 * (s div 64 + 1)) r" and "\<forall>j. s \<le> j \<and> j < 64 * (s div 64 + 1) \<longrightarrow> \<not> data_bit ws j"
  shows "first_bit_from ws s r"
proof -
  have "s \<le> 64 * (s div 64 + 1)" by simp
  with assms show ?thesis by (auto simp: first_bit_from_def not_less [symmetric] split: if_splits) (meson not_less order.trans)+
qed

lemma find_next_words:
  assumes "0 \<le> idx" and "idx + 1 < bs_numBits bs" and "BitSet_isValid bs"
  shows "first_bit_from (bs_data bs) (nat (idx + 1)) (find_next bs idx)"
proof -
  let ?ws = "bs_data bs"
  define s where "s = nat (idx + 1)"
  define w where "w = ?ws ! (s div 64)"
  have s: "idx + 1 = int s" "int s div 64 = int (s div 64)" "nat (int s mod 64) = s mod 64"
    using assms(1) by (simp_all add: s_def zdiv_int nat_mod_distrib)
  have len: "s div 64 < length ?ws"
    using assms(2,3) s(1) by (auto elim!: isValidE simp: wf_bitsD words_for_bounds)
  have shift: "bit (push_bit (s mod 64) (drop_bit (s mod 64) w)) k \<longleftrightarrow> s mod 64 \<le> k \<and> bit w k" if "k < 64" for k
    using that by (auto simp: bit_push_bit_iff bit_drop_bit_eq)
  have sdiv: "s = 64 * (s div 64) + s mod 64" by simp
  show ?thesis
  proof (cases "drop_bit (s mod 64) w = 0")
    case True
    have "\<not> data_bit ?ws j" if sj: "s \<le> j" "j < 64 * (s div 64 + 1)" for j
    proof -
      obtain m where "j = 64 * (s div 64) + m" "s mod 64 \<le> m" "m < 64"
        using offset_in_word [OF sj(1), of 64] sj(2) by auto
      with shift [of m] True data_bit_at [of m ?ws "s div 64"] show ?thesis by (simp add: w_def)
    qed
    moreover have "find_next bs idx = find_in_words bs (int (s div 64 + 1))"
      using assms(1,2) True unfolding of_nat_add of_nat_1 by (simp add: find_next_def Let_def s w_def)
    ultimately show ?thesis
      using find_in_words_spec [of bs "s div 64 + 1"] first_bit_from_skip [of ?ws s]
      unfolding s_def [symmetric] by metis
  next
    case False
    then have "push_bit (s mod 64) (drop_bit (s mod 64) w) \<noteq> 0"
    proof -
      from False obtain k where "bit w (s mod 64 + k)" by (auto simp: bit_eq_iff bit_drop_bit_eq)
      with shift [of "s mod 64 + k"] show ?thesis by (auto dest: bit_imp_le_length)
    qed
    then obtain k where k': "countr_zero (push_bit (s mod 64) (drop_bit (s mod 64) w)) = int k" "k < 64"
      "bit (push_bit (s mod 64) (drop_bit (s mod 64) w)) k"
      "\<And>j. j < k \<Longrightarrow> \<not> bit (push_bit (s mod 64) (drop_bit (s mod 64) w)) j"
      using nonzero_word by blast
    have k: "s mod 64 \<le> k" "bit w k" using k'(2,3) shift by simp_all
    have low: "\<not> bit w j" if "j < k" "s mod 64 \<le> j" for j
      using k'(4) [OF that(1)] shift [of j] that k'(2) by simp
    have r: "find_next bs idx = int (64 * (s div 64) + k)"
      using assms(1,2) False k'(1) by (simp add: find_next_def Let_def s w_def)
    have "\<not> data_bit ?ws j" if sj: "s \<le> j" "j < 64 * (s div 64) + k" for j
    proof -
      obtain m where "j = 64 * (s div 64) + m" "s mod 64 \<le> m" "m < k"
        using offset_in_word [OF sj] by blast
      with k'(2) low data_bit_at [of m ?ws "s div 64"] show ?thesis by (simp add: w_def)
    qed
    moreover have "s \<le> 64 * (s div 64) + k" "64 * (s div 64) + k < 64 * length ?ws" using len k(1) k'(2) sdiv by linarith+
    ultimately show ?thesis
      using k(2) k'(2) data_bit_at [of k ?ws "s div 64"] unfolding first_bit_from_def r s_def [symmetric]
      by (auto simp: w_def intro!: exI [of _ "64 * (s div 64) + k"])
  qed
qed

text \<open>Progress of the search on any state, which makes the enumeration loop terminate.\<close>

lemma find_in_words_ge: "find_in_words bs (int m) \<noteq> npos \<Longrightarrow> 64 * int m \<le> find_in_words bs (int m)"
  using find_in_words_spec [of bs m] by (auto simp: first_bit_from_def)

lemma find_next_progress:
  assumes "find_next bs idx \<noteq> npos"
  shows "idx < find_next bs idx \<and> idx + 1 < bs_numBits bs"
proof -
  have lt: "idx + 1 < bs_numBits bs" using assms by (auto simp: find_next_def split: if_splits)
  show ?thesis
  proof (cases "0 \<le> idx")
    case False
    then have "find_next bs idx = find_in_words bs (int 0)" using assms by (simp add: find_next_def split: if_splits)
    with find_in_words_ge [of bs 0] assms False lt show ?thesis by simp
  next
    case True
    define s where "s = nat (idx + 1)"
    have s: "idx + 1 = int s" "int s div 64 = int (s div 64)" "nat (int s mod 64) = s mod 64"
      using True by (simp_all add: s_def zdiv_int nat_mod_distrib)
    have sdiv: "s = 64 * (s div 64) + s mod 64" "s mod 64 < 64" by simp_all
    define w where "w = push_bit (s mod 64) (drop_bit (s mod 64) (bs_data bs ! (s div 64)))"
    have "int (s mod 64) \<le> countr_zero w" if "drop_bit (s mod 64) (bs_data bs ! (s div 64)) \<noteq> 0"
    proof (cases "w = 0")
      case False
      then obtain k where "countr_zero w = int k" "bit w k" using nonzero_word by blast
      then show ?thesis by (auto simp: w_def bit_push_bit_iff)
    qed (use sdiv(2) in \<open>simp add: countr_zero_0\<close>)
    moreover have "find_next bs idx = (if drop_bit (s mod 64) (bs_data bs ! (s div 64)) \<noteq> 0
        then int (s div 64) * 64 + countr_zero w else find_in_words bs (int (s div 64 + 1)))"
      using True lt unfolding of_nat_add of_nat_1 by (simp add: find_next_def Let_def s w_def)
    moreover have "int s = 64 * int (s div 64) + int (s mod 64)"
      using sdiv(1) by (metis of_nat_add of_nat_mult of_nat_numeral)
    ultimately have "int s \<le> find_next bs idx"
      using find_in_words_ge [of bs "s div 64 + 1"] assms sdiv(2) by (auto split: if_splits)
    with s(1) lt show ?thesis by simp
  qed
qed

text \<open>
  The enumeration of the class documentation:
  \<^verbatim>\<open>for(i = find_first(); i != npos; i = find_next(i))\<close>.
\<close>

function enumerate_from :: "BitSet \<Rightarrow> int \<Rightarrow> int list" where
  "enumerate_from bs idx = (if idx = npos then [] else idx # enumerate_from bs (find_next bs idx))"
  by pat_completeness auto
termination
proof (relation "measure (\<lambda>(bs, idx). if idx = npos then 0 else 1 + nat (bs_numBits bs - idx))")
  show "((bs, find_next bs idx), bs, idx)
      \<in> measure (\<lambda>(bs, idx). if idx = npos then 0 else 1 + nat (bs_numBits bs - idx))" if "idx \<noteq> npos" for bs idx
    using that find_next_progress [of bs idx] by auto
qed simp

declare enumerate_from.simps [simp del]

definition enumerate_bits :: "BitSet \<Rightarrow> int list" where
  "enumerate_bits bs = enumerate_from bs (find_first bs)"

text \<open>What \<^verbatim>\<open>find_next\<close> returns, on the set of bits.\<close>

definition next_in :: "int set \<Rightarrow> int \<Rightarrow> int \<Rightarrow> bool" where
  "next_in S idx r \<longleftrightarrow>
     (if r = npos then \<forall>i\<in>S. i \<le> idx else r \<in> S \<and> idx < r \<and> (\<forall>i\<in>S. idx < i \<longrightarrow> r \<le> i))"

lemma first_bit_next_in:
  assumes n: "bs_numBits bs = int n" "wf_bits n (bs_data bs)" and "-1 \<le> idx"
    and "first_bit_from (bs_data bs) (nat (idx + 1)) r"
  shows "next_in (bits bs) idx r"
proof -
  let ?S = "{j. j < n \<and> data_bit (bs_data bs) j}"
  have bits: "bits bs = int ` ?S" by (rule bits_eq [OF n(1)])
  have S: "j \<in> ?S \<longleftrightarrow> j < 64 * length (bs_data bs) \<and> data_bit (bs_data bs) j" for j
    using wf_bitsD [OF n(2)] words_for_bounds(1) [of n] by auto
  have gt: "idx < int j \<longleftrightarrow> nat (idx + 1) \<le> j" for j using assms(3) by auto
  show ?thesis
  proof (cases "r = npos")
    case True
    have "\<not> idx < int j" if "j \<in> ?S" for j
      using that assms(4) True unfolding S gt by (auto simp: first_bit_from_def)
    with True show ?thesis unfolding bits next_in_def by (auto simp: not_less)
  next
    case False
    with assms(4) obtain j where j: "r = int j" "nat (idx + 1) \<le> j"
      "j < 64 * length (bs_data bs)" "data_bit (bs_data bs) j"
      "\<forall>i. nat (idx + 1) \<le> i \<and> i < j \<longrightarrow> \<not> data_bit (bs_data bs) i"
      by (auto simp: first_bit_from_def)
    moreover from j(3,4) have "j \<in> ?S" unfolding S by blast
    ultimately show ?thesis
      using False gt unfolding bits next_in_def by (auto simp: not_less [symmetric])
  qed
qed

lemma find_next_ok:
  assumes "BitSet_isValid bs" and "-1 \<le> idx"
  shows "next_in (bits bs) idx (find_next bs idx)"
proof -
  obtain n where n: "bs_numBits bs = int n" "wf_bits n (bs_data bs)" using assms(1) by (rule isValidE)
  consider "bs_numBits bs \<le> idx + 1" | "idx = -1" "0 < bs_numBits bs" | "0 \<le> idx" "idx + 1 < bs_numBits bs"
    using assms(2) by linarith
  then show ?thesis
  proof cases
    case 1
    then show ?thesis using bits_range [of bs] by (auto simp: find_next_def next_in_def)
  next
    case 2
    then have "find_next bs idx = find_in_words bs (int 0)" by (simp add: find_next_def)
    with find_in_words_spec [of bs 0] first_bit_next_in [OF n assms(2)] 2 show ?thesis by simp
  next
    case 3
    then show ?thesis using find_next_words [OF 3 assms(1)] first_bit_next_in [OF n assms(2)] by simp
  qed
qed

lemma enumerate_from_ok:
  assumes "BitSet_isValid bs" and "next_in (bits bs) idx r" and "-1 \<le> idx"
  shows "sorted_wrt (<) (enumerate_from bs r) \<and> set (enumerate_from bs r) = {i \<in> bits bs. idx < i}"
  using assms
proof (induction bs r arbitrary: idx rule: enumerate_from.induct)
  case (1 bs r)
  show ?case
  proof (cases "r = npos")
    case True
    then show ?thesis using "1.prems"(2) by (auto simp: enumerate_from.simps [of bs npos] next_in_def)
  next
    case False
    from False "1.prems"(2) have r: "r \<in> bits bs" "idx < r" "\<forall>i\<in>bits bs. idx < i \<longrightarrow> r \<le> i"
      by (auto simp: next_in_def)
    then have "-1 \<le> r" using "1.prems"(3) by simp
    from "1.IH" [OF False "1.prems"(1) find_next_ok [OF "1.prems"(1) this] this] r False show ?thesis
      by (auto simp: enumerate_from.simps [of bs r])
  qed
qed

lemma new_ok:
  assumes "0 \<le> n"
  shows "\<exists>bs. BitSet_new n = Some bs \<and> BitSet_isValid bs \<and> bs_numBits bs = n \<and> bits bs = {}"
proof -
  obtain m where m: "n = int m" using assms by (metis nonneg_int_cases)
  let ?bs = "\<lparr>bs_data = replicate (words_for m) 0, bs_numBits = int m\<rparr>"
  have "nat (1 + (int m - 1) div 64) = words_for m" if "0 < m"
    using that by (simp add: words_for_def zdiv_int of_nat_diff nat_add_distrib)
  then have new: "BitSet_new n = Some ?bs"
    by (cases "m = 0") (simp_all add: BitSet_new_def m Let_def words_for_def)
  have "data_bit (replicate (words_for m) 0) j \<longleftrightarrow> j < m \<and> False" if "j < 64 * words_for m" for j
    using words_for_bounds(4) [OF that] by (simp add: data_bit_def)
  from update_data [of ?bs m, OF _ _ this] show ?thesis using m new by simp
qed

section \<open>The contract: a set algebra over a fixed universe\<close>

text \<open>
  What the clients of a bit set rely on: the operators between two sets of the same size succeed
  and denote the set operations, complement is taken in the universe, and equality is
  extensional. The laws between the operators follow from the contract alone.
\<close>

locale set_algebra =
  fixes invar :: "'s \<Rightarrow> bool" and universe :: "'s \<Rightarrow> 'a set" and elems :: "'s \<Rightarrow> 'a set"
    and union :: "'s \<Rightarrow> 's \<Rightarrow> 's option" and inter :: "'s \<Rightarrow> 's \<Rightarrow> 's option"
    and symdiff :: "'s \<Rightarrow> 's \<Rightarrow> 's option" and minus_op :: "'s \<Rightarrow> 's \<Rightarrow> 's option"
    and complement :: "'s \<Rightarrow> 's" and same :: "'s \<Rightarrow> 's \<Rightarrow> bool"
  assumes elems_sub: "invar s \<Longrightarrow> elems s \<subseteq> universe s"
    and union_law: "invar s \<Longrightarrow> invar t \<Longrightarrow> universe s = universe t \<Longrightarrow>
      \<exists>r. union s t = Some r \<and> invar r \<and> universe r = universe s \<and> elems r = elems s \<union> elems t"
    and inter_law: "invar s \<Longrightarrow> invar t \<Longrightarrow> universe s = universe t \<Longrightarrow>
      \<exists>r. inter s t = Some r \<and> invar r \<and> universe r = universe s \<and> elems r = elems s \<inter> elems t"
    and symdiff_law: "invar s \<Longrightarrow> invar t \<Longrightarrow> universe s = universe t \<Longrightarrow>
      \<exists>r. symdiff s t = Some r \<and> invar r \<and> universe r = universe s \<and>
          elems r = (elems s - elems t) \<union> (elems t - elems s)"
    and minus_law: "invar s \<Longrightarrow> invar t \<Longrightarrow> universe s = universe t \<Longrightarrow>
      \<exists>r. minus_op s t = Some r \<and> invar r \<and> universe r = universe s \<and> elems r = elems s - elems t"
    and complement_law: "invar s \<Longrightarrow> invar (complement s) \<and> universe (complement s) = universe s \<and>
      elems (complement s) = universe s - elems s"
    and same_law: "invar s \<Longrightarrow> invar t \<Longrightarrow> same s t \<longleftrightarrow> universe s = universe t \<and> elems s = elems t"
begin

lemma complement_involution: "invar s \<Longrightarrow> same (complement (complement s)) s"
  using complement_law [of s] complement_law [of "complement s"] elems_sub [of s]
  by (simp add: same_law double_diff)

lemma de_morgan:
  assumes "invar s" "invar t" "universe s = universe t"
  shows "\<exists>u i. union s t = Some u \<and> inter (complement s) (complement t) = Some i \<and> same (complement u) i"
proof -
  obtain u where u: "union s t = Some u" "invar u" "universe u = universe s" "elems u = elems s \<union> elems t"
    using union_law [OF assms] by blast
  obtain i where i: "inter (complement s) (complement t) = Some i" "invar i" "universe i = universe s"
    "elems i = elems (complement s) \<inter> elems (complement t)"
    using inter_law [of "complement s" "complement t"] complement_law assms by auto
  show ?thesis
    using u i complement_law [OF u(2)] complement_law [OF assms(1)] complement_law [OF assms(2)] assms(3)
    by (auto simp: same_law)
qed

lemma symdiff_as_differences:
  assumes "invar s" "invar t" "universe s = universe t"
  shows "\<exists>x u i m. symdiff s t = Some x \<and> union s t = Some u \<and> inter s t = Some i \<and> minus_op u i = Some m \<and> same x m"
proof -
  obtain u i x where *: "union s t = Some u" "invar u" "universe u = universe s" "elems u = elems s \<union> elems t"
    "inter s t = Some i" "invar i" "universe i = universe s" "elems i = elems s \<inter> elems t"
    "symdiff s t = Some x" "invar x" "universe x = universe s" "elems x = (elems s - elems t) \<union> (elems t - elems s)"
    using union_law [OF assms] inter_law [OF assms] symdiff_law [OF assms] by blast
  obtain m where m: "minus_op u i = Some m" "invar m" "universe m = universe s" "elems m = elems u - elems i"
    using minus_law [of u i] * by auto
  have "elems x = elems m" using * m by auto
  with * m show ?thesis by (auto simp: same_law)
qed

end

lemma flip_all_size [simp]: "bs_numBits (BitSet_flip_all bs) = bs_numBits bs"
  by (simp add: BitSet_flip_all_def Let_def)

lemma set_all_size [simp]: "bs_numBits (BitSet_set_all bs) = bs_numBits bs"
  by (simp add: BitSet_set_all_def Let_def)

lemma clear_all_size [simp]: "bs_numBits (BitSet_clear_all bs) = bs_numBits bs"
  by (simp add: BitSet_clear_all_def)

lemma universe_inj:
  assumes "BitSet_isValid a" and "BitSet_isValid b" and "{0..<bs_numBits a} = {0..<bs_numBits b}"
  shows "bs_numBits a = bs_numBits b"
proof -
  have "0 \<le> bs_numBits a" "0 \<le> bs_numBits b" using assms(1,2) by (simp_all add: isValid_iff)
  with assms(3) show ?thesis by (metis card_atLeastLessThan_int diff_zero int_nat_eq)
qed

interpretation bitset: set_algebra BitSet_isValid "\<lambda>bs. {0..<bs_numBits bs}" bits
  BitSet_or BitSet_and BitSet_xor BitSet_diff BitSet_flip_all BitSet_eq
proof unfold_locales
  fix s t :: BitSet
  assume st: "BitSet_isValid s" "BitSet_isValid t" "{0..<bs_numBits s} = {0..<bs_numBits t}"
  note ops = set_operators_ok [OF st(1,2) universe_inj [OF st]]
  show "\<exists>r. BitSet_or s t = Some r \<and> BitSet_isValid r \<and> {0..<bs_numBits r} = {0..<bs_numBits s} \<and> bits r = bits s \<union> bits t"
    using ops(1) by auto
  show "\<exists>r. BitSet_and s t = Some r \<and> BitSet_isValid r \<and> {0..<bs_numBits r} = {0..<bs_numBits s} \<and> bits r = bits s \<inter> bits t"
    using ops(2) by auto
  show "\<exists>r. BitSet_xor s t = Some r \<and> BitSet_isValid r \<and> {0..<bs_numBits r} = {0..<bs_numBits s} \<and>
      bits r = bits s - bits t \<union> (bits t - bits s)"
    using ops(3) by auto
  show "\<exists>r. BitSet_diff s t = Some r \<and> BitSet_isValid r \<and> {0..<bs_numBits r} = {0..<bs_numBits s} \<and> bits r = bits s - bits t"
    using ops(4) by auto
next
  fix s t :: BitSet
  assume "BitSet_isValid s" "BitSet_isValid t"
  then show "BitSet_eq s t \<longleftrightarrow> {0..<bs_numBits s} = {0..<bs_numBits t} \<and> bits s = bits t"
    using BitSet_eq_iff universe_inj by metis
qed (use bits_range flip_all_ok in auto)

section \<open>Sequences of calls\<close>

datatype bs_op = SetBit int | ClearBit int | FlipBit int | SetAll | ClearAll | FlipAll
  | OrWith BitSet | AndWith BitSet | XorWith BitSet | DiffWith BitSet

fun bs_run :: "bs_op \<Rightarrow> BitSet \<Rightarrow> BitSet option" where
  "bs_run (SetBit i) bs = BitSet_set_bit bs i"
| "bs_run (ClearBit i) bs = BitSet_clear_bit bs i"
| "bs_run (FlipBit i) bs = BitSet_flip_bit bs i"
| "bs_run SetAll bs = Some (BitSet_set_all bs)"
| "bs_run ClearAll bs = Some (BitSet_clear_all bs)"
| "bs_run FlipAll bs = Some (BitSet_flip_all bs)"
| "bs_run (OrWith other) bs = BitSet_or_assign bs other"
| "bs_run (AndWith other) bs = BitSet_and_assign bs other"
| "bs_run (XorWith other) bs = BitSet_xor_assign bs other"
| "bs_run (DiffWith other) bs = BitSet_diff_assign bs other"

text \<open>The same calls on a subset of \<open>{0..<n}\<close>; \<^term>\<open>None\<close> is the failing assertion.\<close>

fun set_run :: "int \<Rightarrow> bs_op \<Rightarrow> int set \<Rightarrow> int set option" where
  "set_run n (SetBit i) S = (if 0 \<le> i \<and> i < n then Some (insert i S) else None)"
| "set_run n (ClearBit i) S = (if 0 \<le> i \<and> i < n then Some (S - {i}) else None)"
| "set_run n (FlipBit i) S =
     (if 0 \<le> i \<and> i < n then Some (if i \<in> S then S - {i} else insert i S) else None)"
| "set_run n SetAll S = Some {0..<n}"
| "set_run n ClearAll S = Some {}"
| "set_run n FlipAll S = Some ({0..<n} - S)"
| "set_run n (OrWith other) S = (if n = bs_numBits other then Some (S \<union> bits other) else None)"
| "set_run n (AndWith other) S = (if n = bs_numBits other then Some (S \<inter> bits other) else None)"
| "set_run n (XorWith other) S =
     (if n = bs_numBits other then Some ((S - bits other) \<union> (bits other - S)) else None)"
| "set_run n (DiffWith other) S = (if n = bs_numBits other then Some (S - bits other) else None)"

fun operand_ok :: "bs_op \<Rightarrow> bool" where
  "operand_ok (OrWith other) = BitSet_isValid other"
| "operand_ok (AndWith other) = BitSet_isValid other"
| "operand_ok (XorWith other) = BitSet_isValid other"
| "operand_ok (DiffWith other) = BitSet_isValid other"
| "operand_ok op = True"

text \<open>One call refines its specification, failing calls included.\<close>

definition refines_set :: "int \<Rightarrow> int set option \<Rightarrow> BitSet option \<Rightarrow> bool" where
  "refines_set n spec res \<longleftrightarrow>
     (case res of None \<Rightarrow> spec = None
      | Some bs \<Rightarrow> spec = Some (bits bs) \<and> BitSet_isValid bs \<and> bs_numBits bs = n)"

lemma refines_SomeI:
  "\<exists>bs. res = Some bs \<and> BitSet_isValid bs \<and> bs_numBits bs = n \<and> bits bs = S \<Longrightarrow> refines_set n (Some S) res"
  by (auto simp: refines_set_def)

lemma single_bit_fails:
  assumes "\<not> (0 \<le> i \<and> i < bs_numBits bs)"
  shows "BitSet_set_bit bs i = None" "BitSet_clear_bit bs i = None" "BitSet_flip_bit bs i = None"
  using assms
  by (simp_all add: BitSet_set_bit_def BitSet_clear_bit_def BitSet_flip_bit_def assignWord_def checkValidIndex_def)

lemma operator_fails:
  assumes "bs_numBits bs \<noteq> bs_numBits other"
  shows "BitSet_or bs other = None" "BitSet_and bs other = None" "BitSet_xor bs other = None" "BitSet_diff bs other = None"
  using assms by (simp_all add: operator_defs BitSet_assign_op_def)

lemma bs_run_refines:
  assumes "BitSet_isValid bs" and "operand_ok op"
  shows "refines_set (bs_numBits bs) (set_run (bs_numBits bs) op (bits bs)) (bs_run op bs)"
proof -
  have single: "refines_set (bs_numBits bs) (set_run (bs_numBits bs) op (bits bs)) (bs_run op bs)"
    if "op \<in> {SetBit i, ClearBit i, FlipBit i}" for i
  proof (cases "0 \<le> i \<and> i < bs_numBits bs")
    case True
    then show ?thesis
      using that single_bit_ops [OF assms(1), of i] by (auto intro!: refines_SomeI simp del: bex_simps)
  next
    case False
    then show ?thesis using that single_bit_fails [OF False] by (auto simp: refines_set_def)
  qed
  have binary: "refines_set (bs_numBits bs) (set_run (bs_numBits bs) op (bits bs)) (bs_run op bs)"
    if "op \<in> {OrWith other, AndWith other, XorWith other, DiffWith other}" for other
  proof (cases "bs_numBits bs = bs_numBits other")
    case True
    moreover have "BitSet_isValid other" using that assms(2) by auto
    ultimately show ?thesis
      using that set_operators_ok [OF assms(1) _ True] by (auto simp: operators_on_copy intro!: refines_SomeI)
  next
    case False
    then show ?thesis using that operator_fails [OF False] by (auto simp: operators_on_copy refines_set_def)
  qed
  show ?thesis
  proof (cases op)
    case SetAll
    with set_all_ok [OF assms(1)] show ?thesis by (simp add: refines_set_def)
  next
    case ClearAll
    with clear_all_ok [OF assms(1)] show ?thesis by (simp add: refines_set_def)
  next
    case FlipAll
    with flip_all_ok [OF assms(1)] show ?thesis by (simp add: refines_set_def)
  qed (metis single binary insert_iff)+
qed

lemma run_refines:
  assumes "BitSet_isValid bs" and "list_all operand_ok ops"
  shows "refines_set (bs_numBits bs) (run_ops (set_run (bs_numBits bs)) ops (bits bs)) (run_ops bs_run ops bs)"
  using assms
proof (induction ops arbitrary: bs)
  case (Cons op ops)
  then have op: "refines_set (bs_numBits bs) (set_run (bs_numBits bs) op (bits bs)) (bs_run op bs)"
    by (simp add: bs_run_refines)
  show ?case
  proof (cases "bs_run op bs")
    case None
    with op show ?thesis by (simp add: refines_set_def)
  next
    case (Some a)
    with op have "set_run (bs_numBits bs) op (bits bs) = Some (bits a)" "BitSet_isValid a" "bs_numBits a = bs_numBits bs"
      by (simp_all add: refines_set_def)
    with Some Cons.IH [of a] Cons.prems(2) show ?thesis by simp
  qed
qed (simp add: refines_set_def)

section \<open>What a bit set guarantees\<close>

text \<open>
  C6. A bit set implements subsets of \<open>{0..<n}\<close>: every sequence of single-bit, whole-set and operator
  calls on a new bit set of \<open>n\<close> bits fails an assertion exactly when the specification has an index out
  of range or operands of different sizes, and otherwise leaves a valid bit set of the same size that
  holds exactly the specified set.
\<close>

theorem bitset_refines_sets:
  assumes "0 \<le> n" and "list_all operand_ok ops"
  shows "\<exists>bs. BitSet_new n = Some bs \<and>
    (case run_ops bs_run ops bs of
       None \<Rightarrow> run_ops (set_run n) ops {} = None
     | Some bs' \<Rightarrow> run_ops (set_run n) ops {} = Some {i. BitSet_test bs' i} \<and>
         BitSet_isValid bs' \<and> bs_numBits bs' = n)"
proof -
  obtain bs where bs: "BitSet_new n = Some bs" "BitSet_isValid bs" "bs_numBits bs = n" "bits bs = {}"
    using new_ok [OF assms(1)] by blast
  have "refines_set n (run_ops (set_run n) ops {}) (run_ops bs_run ops bs)"
    using run_refines [OF bs(2) assms(2)] bs(3,4) by simp
  with bs(1) show ?thesis
    by (auto simp: refines_set_def bits_def [symmetric] split: option.splits)
qed

theorem bitset_refines_sets_witness:
  "\<exists>bs. BitSet_new 70 = Some bs \<and>
    (case run_ops bs_run [SetBit 69, FlipAll, ClearBit 3] bs of
       None \<Rightarrow> run_ops (set_run 70) [SetBit 69, FlipAll, ClearBit 3] {} = None
     | Some bs' \<Rightarrow> run_ops (set_run 70) [SetBit 69, FlipAll, ClearBit 3] {} = Some {i. BitSet_test bs' i} \<and>
         BitSet_isValid bs' \<and> bs_numBits bs' = 70)"
  by (rule bitset_refines_sets) simp_all

text \<open>
  C19. On a valid bit set, \<^verbatim>\<open>count\<close> is the number of set bits, and the loop from
  \<^verbatim>\<open>find_first\<close> over \<^verbatim>\<open>find_next\<close> terminates and visits exactly the set bits,
  each once and in increasing order, so it makes \<^verbatim>\<open>count\<close> steps.
\<close>

theorem bitset_enumeration_exact:
  assumes "BitSet_isValid bs"
  shows "enumerate_bits bs = sorted_list_of_set {i. BitSet_test bs i} \<and>
    BitSet_count bs = int (card {i. BitSet_test bs i}) \<and>
    int (length (enumerate_bits bs)) = BitSet_count bs"
proof -
  have "next_in (bits bs) (-1) (find_first bs)"
    unfolding find_first_def by (rule find_next_ok [OF assms]) simp
  from enumerate_from_ok [OF assms this]
  have "sorted_wrt (<) (enumerate_bits bs)" "set (enumerate_bits bs) = bits bs"
    using bits_range [of bs] by (auto simp: enumerate_bits_def)
  then have "enumerate_bits bs = sorted_list_of_set (bits bs)"
    by (metis sorted_list_of_set.idem_if_sorted_distinct strict_sorted_iff)
  then show ?thesis using count_ok [OF assms] by (simp add: bits_def [symmetric])
qed

theorem bitset_enumeration_exact_witness:
  "enumerate_bits \<lparr>bs_data = [5, 2], bs_numBits = 70\<rparr> =
     sorted_list_of_set {i. BitSet_test \<lparr>bs_data = [5, 2], bs_numBits = 70\<rparr> i}"
proof -
  have "BitSet_isValid \<lparr>bs_data = [5, 2], bs_numBits = 70\<rparr>"
    by (simp add: BitSet_isValid_def isLastWordFull_def getWord_def lastWordMask_def bit_mask_def)
  from bitset_enumeration_exact [OF this] show ?thesis by simp
qed

text \<open>
  The operators of valid bit sets of one size agree with each other as set operations do, up to
  \<^verbatim>\<open>operator==\<close>: flipping the union is the intersection of the flipped sets, \<^verbatim>\<open>a ^ b\<close>
  is \<^verbatim>\<open>(a | b) - (a & b)\<close>, and flipping twice restores the set.
\<close>

theorem bitset_operator_laws:
  assumes "BitSet_isValid a" and "BitSet_isValid b" and "bs_numBits a = bs_numBits b"
  shows "(\<exists>u i. BitSet_or a b = Some u \<and> BitSet_and (BitSet_flip_all a) (BitSet_flip_all b) = Some i \<and>
            BitSet_eq (BitSet_flip_all u) i) \<and>
    (\<exists>x u i m. BitSet_xor a b = Some x \<and> BitSet_or a b = Some u \<and> BitSet_and a b = Some i \<and>
            BitSet_diff u i = Some m \<and> BitSet_eq x m) \<and>
    BitSet_eq (BitSet_flip_all (BitSet_flip_all a)) a"
  using bitset.de_morgan [of a b] bitset.symdiff_as_differences [of a b] bitset.complement_involution [of a] assms
  by simp

theorem bitset_operator_laws_witness:
  "BitSet_eq (BitSet_flip_all (BitSet_flip_all \<lparr>bs_data = [5, 2], bs_numBits = 70\<rparr>)) \<lparr>bs_data = [5, 2], bs_numBits = 70\<rparr>"
proof -
  have "BitSet_isValid \<lparr>bs_data = [5, 2], bs_numBits = 70\<rparr>"
    by (simp add: BitSet_isValid_def isLastWordFull_def getWord_def lastWordMask_def bit_mask_def)
  from bitset_operator_laws [OF this this] show ?thesis by simp
qed

end
