(* ===== verification/ItemCollection.thy ===== *)
theory ItemCollection
  imports Prelude
begin

text \<open>
  The interface \<^verbatim>\<open>sidre::ItemCollection\<close> (\<^verbatim>\<open>sidre/core/ItemCollection.hpp\<close>):
  its iterators, the scan of a slot vector that all three implementations use, and the
  contract of the class as a locale. An item pointer is a value of type \<open>'a\<close>, the null
  pointer is \<open>None\<close>; the callers insert non-null pointers only. An \<^verbatim>\<open>IndexType\<close> is
  an \<open>int\<close> and \<^verbatim>\<open>InvalidIndex\<close> is \<open>- 1\<close>; for indices of absolute value below \<open>2 ^ 31\<close> the
  test \<^verbatim>\<open>static_cast<unsigned>(idx) < m_items.size()\<close> is the range test written here.
\<close>

abbreviation (input) InvalidIndex :: int where "InvalidIndex \<equiv> - 1"

definition in_vector :: "int \<Rightarrow> 'a list \<Rightarrow> bool" where
  "in_vector idx xs \<longleftrightarrow> 0 \<le> idx \<and> idx < int (length xs)"

section \<open>Slot vectors\<close>

text \<open>\<^verbatim>\<open>hasItem\<close> and \<^verbatim>\<open>getItem\<close> on the vector of slots.\<close>

definition slot_hasItem :: "'a option list \<Rightarrow> int \<Rightarrow> bool" where
  "slot_hasItem items idx \<longleftrightarrow> in_vector idx items \<and> items ! nat idx \<noteq> None"

definition slot_getItem :: "'a option list \<Rightarrow> int \<Rightarrow> 'a option" where
  "slot_getItem items idx = (if slot_hasItem items idx then items ! nat idx else None)"

text \<open>
  \<^verbatim>\<open>while(idx < m_items.size() && m_items[idx] == nullptr) idx++;\<close> and the
  final test, from a given start.
\<close>

definition slot_scan :: "'a option list \<Rightarrow> int \<Rightarrow> int" where
  "slot_scan items idx =
     (if in_vector idx items
      then let idx = for_find (\<lambda>i. items ! nat i \<noteq> None) idx (int (length items)) (int (length items))
           in if in_vector idx items then idx else InvalidIndex
      else InvalidIndex)"

definition slot_firstValid :: "'a option list \<Rightarrow> int" where
  "slot_firstValid items = slot_scan items 0"

definition slot_nextValid :: "'a option list \<Rightarrow> int \<Rightarrow> int" where
  "slot_nextValid items idx =
     (if idx = InvalidIndex then InvalidIndex else slot_scan items (idx + 1))"

text \<open>The least element of a set above an index, or the invalid index.\<close>

definition least_above :: "int set \<Rightarrow> int \<Rightarrow> int" where
  "least_above A i = (if \<exists>j\<in>A. i < j then Min {j \<in> A. i < j} else InvalidIndex)"

lemma least_above_eqI:
  assumes "finite A" and "j \<in> A" and "i < j" and "\<And>k. k \<in> A \<Longrightarrow> i < k \<Longrightarrow> j \<le> k"
  shows "least_above A i = j"
proof -
  have "Min {j \<in> A. i < j} = j" using assms by (intro Min_eqI) auto
  with assms show ?thesis by (auto simp: least_above_def)
qed

lemma slot_getItem_eq:
  "slot_getItem items idx = (if 0 \<le> idx \<and> idx < int (length items) then items ! nat idx else None)"
  by (auto simp: slot_getItem_def slot_hasItem_def in_vector_def)

lemma dom_slot_getItem: "dom (slot_getItem items) \<subseteq> {0..<int (length items)}"
  by (auto simp: slot_getItem_eq split: if_splits)

lemma finite_dom_slot_getItem [simp]: "finite (dom (slot_getItem items))"
  by (rule finite_subset [OF dom_slot_getItem]) simp

lemma slot_getItem_update:
  assumes "0 \<le> i" and "i < int (length items)"
  shows "slot_getItem (items[nat i := x]) = (slot_getItem items)(i := x)"
  using assms by (auto simp: slot_getItem_eq fun_eq_iff nth_list_update_in)

lemma slot_getItem_append:
  "slot_getItem (items @ [x]) = (slot_getItem items)(int (length items) := x)"
  by (auto simp: slot_getItem_eq fun_eq_iff nth_append)

lemma slot_getItem_append_None:
  "slot_getItem (items @ replicate n None) = slot_getItem items"
  by (auto simp: slot_getItem_eq fun_eq_iff nth_append nat_less_iff)

lemma slot_getItem_Nil [simp]: "slot_getItem [] = Map.empty"
  by (auto simp: slot_getItem_eq fun_eq_iff)

lemma slot_scan_eq:
  assumes "- 1 \<le> i"
  shows "slot_scan items (i + 1) = least_above (dom (slot_getItem items)) i"
proof -
  let ?n = "int (length items)" and ?P = "\<lambda>i. items ! nat i \<noteq> None"
  have dom: "j \<in> dom (slot_getItem items) \<longleftrightarrow> 0 \<le> j \<and> j < ?n \<and> ?P j" for j
    by (auto simp: slot_getItem_eq split: if_splits)
  consider (none) "for_find ?P (i + 1) ?n ?n = ?n" "\<forall>j. i + 1 \<le> j \<and> j < ?n \<longrightarrow> \<not> ?P j"
    | (some) j where "for_find ?P (i + 1) ?n ?n = j" "i + 1 \<le> j" "j < ?n" "?P j"
        "\<forall>k. i + 1 \<le> k \<and> k < j \<longrightarrow> \<not> ?P k"
    using for_find_cases [of ?P "i + 1" ?n ?n] by blast
  then show ?thesis
  proof cases
    case none
    then have "\<not> (\<exists>j\<in>dom (slot_getItem items). i < j)" unfolding Bex_def dom by (auto simp: add1_zle_eq)
    with none(1) show ?thesis by (simp add: slot_scan_def least_above_def in_vector_def)
  next
    case some
    have "j \<le> k" if "k \<in> dom (slot_getItem items)" "i < k" for k
      using that some(5) unfolding dom by (metis add1_zle_eq not_less)
    then have "least_above (dom (slot_getItem items)) i = j"
      using some assms by (intro least_above_eqI) (auto simp: dom)
    with some assms show ?thesis by (simp add: slot_scan_def in_vector_def)
  qed
qed

lemma slot_firstValid_eq: "slot_firstValid items = least_above (dom (slot_getItem items)) (- 1)"
  using slot_scan_eq [of "- 1" items] by (simp add: slot_firstValid_def)

lemma slot_nextValid_eq: "0 \<le> i \<Longrightarrow> slot_nextValid items i = least_above (dom (slot_getItem items)) i"
  using slot_scan_eq [of i items] by (simp add: slot_nextValid_def)

text \<open>Occupied slots and free slots add up to the length of the vector.\<close>

lemma card_slots:
  assumes "distinct free" and "set free = {i. 0 \<le> i \<and> i < int (length items) \<and> items ! nat i = None}"
  shows "int (card (dom (slot_getItem items))) = int (length items) - int (length free)"
proof -
  have "dom (slot_getItem items) \<inter> set free = {}"
    unfolding assms(2) by (auto simp: slot_getItem_eq split: if_splits)
  moreover have "dom (slot_getItem items) \<union> set free = {0..<int (length items)}"
    unfolding assms(2) by (auto simp: slot_getItem_eq split: if_splits)
  ultimately have "card (dom (slot_getItem items)) + card (set free) = card {0..<int (length items)}"
    by (metis card_Un_disjoint finite_dom_slot_getItem finite_set)
  with distinct_card [OF assms(1)] show ?thesis by simp
qed

section \<open>Iterators\<close>

text \<open>
  An iterator is its position: \<^verbatim>\<open>iterator(coll, is_first)\<close>, \<^verbatim>\<open>advance(n)\<close>, and
  the range loop over a pair of iterators, which compares positions.
\<close>

definition iterator_at :: "int \<Rightarrow> bool \<Rightarrow> int" where
  "iterator_at firstValid is_first = (if is_first then firstValid else InvalidIndex)"

primrec advance :: "(int \<Rightarrow> int) \<Rightarrow> nat \<Rightarrow> int \<Rightarrow> int" where
  "advance nextValid 0 pos = pos"
| "advance nextValid (Suc n) pos = advance nextValid n (nextValid pos)"

partial_function (option) range_loop :: "(int \<Rightarrow> int) \<Rightarrow> int \<Rightarrow> int \<Rightarrow> int list option" where
  "range_loop nextValid pos stop =
     (if pos = stop then Some []
      else Option.bind (range_loop nextValid (advance nextValid 1 pos) stop) (\<lambda>is. Some (pos # is)))"

text \<open>\<^verbatim>\<open>iterator_adaptor\<close> and \<^verbatim>\<open>const_iterator_adaptor\<close>: begin, end, and \<^verbatim>\<open>cbegin\<close>, \<^verbatim>\<open>cend\<close>.\<close>

definition adaptor_range :: "int \<Rightarrow> int \<times> int" where
  "adaptor_range firstValid = (iterator_at firstValid True, iterator_at firstValid False)"

definition adaptor_crange :: "int \<Rightarrow> int \<times> int" where
  "adaptor_crange firstValid = (iterator_at firstValid True, iterator_at firstValid False)"

definition const_adaptor_range :: "int \<Rightarrow> int \<times> int" where
  "const_adaptor_range firstValid = (iterator_at firstValid True, iterator_at firstValid False)"

definition const_adaptor_crange :: "int \<Rightarrow> int \<times> int" where
  "const_adaptor_crange firstValid = (iterator_at firstValid True, iterator_at firstValid True)"

lemma range_loop_sorted:
  assumes fin: "finite A" and pos: "\<forall>j\<in>A. 0 \<le> j" and next_eq: "\<And>i. 0 \<le> i \<Longrightarrow> nextValid i = least_above A i"
    and i: "- 1 \<le> i"
  shows "range_loop nextValid (least_above A i) InvalidIndex = Some (sorted_list_of_set {j \<in> A. i < j})"
  using i
proof (induction "card {j \<in> A. i < j}" arbitrary: i rule: less_induct)
  case less
  let ?B = "{j \<in> A. i < j}"
  have finB: "finite ?B" using fin by simp
  show ?case
  proof (cases "?B = {}")
    case True
    then have "least_above A i = InvalidIndex" by (auto simp: least_above_def)
    with True show ?thesis unfolding True by (simp add: range_loop.simps)
  next
    case False
    define j where "j = Min ?B"
    have j: "j \<in> ?B" "least_above A i = j" and least: "\<And>k. k \<in> ?B \<Longrightarrow> j \<le> k"
      using False finB Min_in [OF finB False] by (auto simp: least_above_def j_def)
    have rest: "{k \<in> A. j < k} = ?B - {j}" using j least by force
    then have "card {k \<in> A. j < k} < card ?B" using j(1) finB by (metis card_Diff1_less)
    moreover have "0 \<le> j" using j(1) pos by auto
    ultimately have "range_loop nextValid (nextValid j) InvalidIndex =
        Some (sorted_list_of_set {k \<in> A. j < k})"
      using less.hyps [of j] next_eq [of j] by simp
    moreover have "sorted_list_of_set ?B = j # sorted_list_of_set {k \<in> A. j < k}"
      unfolding rest using sorted_list_of_set_nonempty [OF finB False] by (simp only: j_def)
    ultimately show ?thesis using \<open>0 \<le> j\<close> j(2) by (subst range_loop.simps) simp
  qed
qed

section \<open>The contract\<close>

text \<open>The calls that change a collection, as data, and their effect through an implementation.\<close>

datatype 'a coll_op = InsertItem string 'a | RemoveItem int | RemoveAllItems

fun coll_run ::
  "('s \<Rightarrow> string \<Rightarrow> 'a \<Rightarrow> 's \<times> int) \<Rightarrow> ('s \<Rightarrow> int \<Rightarrow> 's \<times> 'a option) \<Rightarrow> ('s \<Rightarrow> 's) \<Rightarrow>
   'a coll_op \<Rightarrow> 's \<Rightarrow> 's" where
  "coll_run ins rem clr (InsertItem name x) s = fst (ins s name x)"
| "coll_run ins rem clr (RemoveItem i) s = fst (rem s i)"
| "coll_run ins rem clr RemoveAllItems s = clr s"

fun coll_op_wf :: "(string \<Rightarrow> 'a \<Rightarrow> bool) \<Rightarrow> 'a coll_op \<Rightarrow> bool" where
  "coll_op_wf named (InsertItem name x) = named name x"
| "coll_op_wf named _ = True"

fun coll_op_removes :: "int \<Rightarrow> 'a coll_op \<Rightarrow> bool" where
  "coll_op_removes i (InsertItem name x) = False"
| "coll_op_removes i (RemoveItem j) = (i = j)"
| "coll_op_removes i RemoveAllItems = True"

locale item_collection =
  fixes coll_inv :: "'s \<Rightarrow> bool"
    and getItem :: "'s \<Rightarrow> int \<Rightarrow> 'a option"
    and getNumItems :: "'s \<Rightarrow> int"
    and getFirstValidIndex :: "'s \<Rightarrow> int"
    and getNextValidIndex :: "'s \<Rightarrow> int \<Rightarrow> int"
    and insertItem :: "'s \<Rightarrow> string \<Rightarrow> 'a \<Rightarrow> 's \<times> int"
    and removeItem :: "'s \<Rightarrow> int \<Rightarrow> 's \<times> 'a option"
    and removeAllItems :: "'s \<Rightarrow> 's"
    and well_named :: "string \<Rightarrow> 'a \<Rightarrow> bool"
    and accepts :: "'s \<Rightarrow> string \<Rightarrow> bool"
  assumes items_nonneg: "coll_inv s \<Longrightarrow> i \<in> dom (getItem s) \<Longrightarrow> 0 \<le> i"
    and items_finite: "coll_inv s \<Longrightarrow> finite (dom (getItem s))"
    and num_items: "coll_inv s \<Longrightarrow> getNumItems s = int (card (dom (getItem s)))"
    and first_index: "coll_inv s \<Longrightarrow> getFirstValidIndex s = least_above (dom (getItem s)) (- 1)"
    and next_index: "coll_inv s \<Longrightarrow> 0 \<le> i \<Longrightarrow> getNextValidIndex s i = least_above (dom (getItem s)) i"
    and insert_accepted: "\<lbrakk>coll_inv s; well_named name x; accepts s name\<rbrakk> \<Longrightarrow>
      \<exists>s' i. insertItem s name x = (s', i) \<and> coll_inv s' \<and> 0 \<le> i \<and> getItem s i = None \<and>
             getItem s' = (getItem s)(i \<mapsto> x)"
    and insert_refused: "\<lbrakk>coll_inv s; \<not> accepts s name\<rbrakk> \<Longrightarrow> insertItem s name x = (s, InvalidIndex)"
    and remove_item: "coll_inv s \<Longrightarrow>
      \<exists>s'. removeItem s i = (s', getItem s i) \<and> coll_inv s' \<and> getItem s' = (getItem s)(i := None)"
    and remove_all: "coll_inv s \<Longrightarrow> coll_inv (removeAllItems s) \<and> getItem (removeAllItems s) = Map.empty"
begin

abbreviation run_op :: "'a coll_op \<Rightarrow> 's \<Rightarrow> 's" where
  "run_op \<equiv> coll_run insertItem removeItem removeAllItems"

lemma run_op_inv: "coll_inv s \<Longrightarrow> coll_op_wf well_named op \<Longrightarrow> coll_inv (run_op op s)"
proof (cases op)
  case (InsertItem name x)
  assume "coll_inv s" "coll_op_wf well_named op"
  then show ?thesis
    using insert_accepted [of s name x] insert_refused [of s name x] InsertItem
    by (cases "accepts s name") auto
next
  case (RemoveItem i)
  assume "coll_inv s"
  with remove_item [of s i] RemoveItem show ?thesis by auto
qed (auto simp: remove_all)

lemma run_op_keeps:
  assumes "coll_inv s" and "coll_op_wf well_named op" and "getItem s i = Some x" and "\<not> coll_op_removes i op"
  shows "getItem (run_op op s) i = Some x"
proof (cases op)
  case (InsertItem name y)
  show ?thesis
    using insert_accepted [of s name y] insert_refused [of s name y] InsertItem assms
    by (cases "accepts s name") auto
next
  case (RemoveItem j)
  with remove_item [OF assms(1), of j] assms show ?thesis by auto
qed (use assms in auto)

text \<open>An item keeps its index for as long as it is in the collection.\<close>

lemma index_stable:
  assumes "coll_inv s" and "\<forall>op\<in>set ops. coll_op_wf well_named op \<and> \<not> coll_op_removes i op" and "getItem s i = Some x"
  shows "getItem (fold run_op ops s) i = Some x \<and> coll_inv (fold run_op ops s)"
  using assms
proof (induction ops arbitrary: s)
  case (Cons op ops)
  then show ?case by (simp add: run_op_keeps run_op_inv)
qed simp

lemma iterate_sorted:
  assumes "coll_inv s"
  shows "range_loop (getNextValidIndex s) (iterator_at (getFirstValidIndex s) True)
           (iterator_at (getFirstValidIndex s) False) =
         Some (sorted_list_of_set (dom (getItem s)))"
proof -
  have all: "{j \<in> dom (getItem s). - 1 < j} = dom (getItem s)"
    using items_nonneg [OF assms] by force
  show ?thesis
    using range_loop_sorted [OF items_finite [OF assms] _ next_index [OF assms], of "- 1"]
      items_nonneg [OF assms]
    unfolding iterator_at_def first_index [OF assms] all by simp
qed

lemma insert_then_remove:
  assumes "coll_inv s" and "well_named name x" and "accepts s name"
  shows "\<exists>s1 i s2. insertItem s name x = (s1, i) \<and> removeItem s1 i = (s2, Some x) \<and>
           getItem s2 = getItem s \<and> getNumItems s1 = getNumItems s + 1 \<and> getNumItems s2 = getNumItems s"
proof -
  obtain s1 i where s1: "insertItem s name x = (s1, i)" "coll_inv s1" "getItem s i = None"
    "getItem s1 = (getItem s)(i \<mapsto> x)"
    using insert_accepted [OF assms] by blast
  obtain s2 where s2: "removeItem s1 i = (s2, Some x)" "coll_inv s2" "getItem s2 = getItem s"
    using remove_item [OF s1(2), of i] s1(3,4) by (auto simp: fun_upd_idem)
  have "card (dom (getItem s1)) = card (dom (getItem s)) + 1"
    using s1(3,4) items_finite [OF assms(1)] by (simp add: domIff)
  with s1 s2 num_items assms(1) show ?thesis by auto
qed

end

section \<open>The adaptors\<close>

text \<open>
  \<^verbatim>\<open>const_iterator_adaptor::cend()\<close> is the begin position: the range from
  \<^verbatim>\<open>cbegin()\<close> to \<^verbatim>\<open>cend()\<close> of a const adaptor is empty for every collection,
  while the \<^verbatim>\<open>begin()\<close>/\<^verbatim>\<open>end()\<close> range of the same adaptor and the ranges of the
  non-const adaptor visit every item.
\<close>

theorem const_adaptor_crange_empty:
  "range_loop (slot_nextValid items) (fst (const_adaptor_crange (slot_firstValid items)))
       (snd (const_adaptor_crange (slot_firstValid items))) = Some [] \<and>
   range_loop (slot_nextValid items) (fst (const_adaptor_range (slot_firstValid items)))
       (snd (const_adaptor_range (slot_firstValid items))) =
     Some (sorted_list_of_set (dom (slot_getItem items)))"
proof -
  let ?A = "dom (slot_getItem items)" and ?first = "slot_firstValid items"
  have all: "{j \<in> ?A. - 1 < j} = ?A" using dom_slot_getItem [of items] by force
  have "range_loop (slot_nextValid items) ?first InvalidIndex = Some (sorted_list_of_set ?A)"
    using range_loop_sorted [of ?A "slot_nextValid items" "- 1"] slot_nextValid_eq dom_slot_getItem [of items]
    unfolding all slot_firstValid_eq by fastforce
  moreover have "range_loop (slot_nextValid items) ?first ?first = Some []"
    by (subst range_loop.simps) simp
  ultimately show ?thesis
    by (simp add: const_adaptor_crange_def const_adaptor_range_def iterator_at_def)
qed

end
