(* ===== verification/SidreCollections.thy ===== *)
theory SidreCollections
  imports ItemCollection
begin

text \<open>
  The three implementations of \<^verbatim>\<open>sidre::ItemCollection\<close>:
  \<^verbatim>\<open>IndexedCollection\<close>, \<^verbatim>\<open>ListCollection\<close> and \<^verbatim>\<open>MapCollection\<close>. A stack of
  free indices is a list whose head is the top. The name lookup of
  \<^verbatim>\<open>MapCollection\<close> (\<^verbatim>\<open>std::unordered_map\<close>) is a partial map, and the items' own
  \<^verbatim>\<open>getName()\<close> is the parameter \<open>name_of\<close>.
\<close>

section \<open>IndexedCollection\<close>

record 'a IndexedCollection =
  ic_items :: "'a option list"
  ic_free_ids :: "int list"
  ic_num_items :: int

definition IndexedCollection_new :: "'a IndexedCollection" where
  "IndexedCollection_new = \<lparr>ic_items = [], ic_free_ids = [], ic_num_items = 0\<rparr>"

definition IndexedCollection_getNumItems :: "'a IndexedCollection \<Rightarrow> int" where
  "IndexedCollection_getNumItems c = ic_num_items c"

definition IndexedCollection_hasItem :: "'a IndexedCollection \<Rightarrow> int \<Rightarrow> bool" where
  "IndexedCollection_hasItem c idx = slot_hasItem (ic_items c) idx"

definition IndexedCollection_getItem :: "'a IndexedCollection \<Rightarrow> int \<Rightarrow> 'a option" where
  "IndexedCollection_getItem c idx = slot_getItem (ic_items c) idx"

definition IndexedCollection_getFirstValidIndex :: "'a IndexedCollection \<Rightarrow> int" where
  "IndexedCollection_getFirstValidIndex c = slot_firstValid (ic_items c)"

definition IndexedCollection_getNextValidIndex :: "'a IndexedCollection \<Rightarrow> int \<Rightarrow> int" where
  "IndexedCollection_getNextValidIndex c idx = slot_nextValid (ic_items c) idx"

definition getLastAvailableEmptyIndex :: "'a IndexedCollection \<Rightarrow> int" where
  "getLastAvailableEmptyIndex c = int (length (ic_items c))"

definition isInHalfOpenRange :: "'a IndexedCollection \<Rightarrow> int \<Rightarrow> bool" where
  "isInHalfOpenRange c idx \<longleftrightarrow> idx \<ge> 0 \<and> idx < getLastAvailableEmptyIndex c"

definition isInClosedRange :: "'a IndexedCollection \<Rightarrow> int \<Rightarrow> bool" where
  "isInClosedRange c idx \<longleftrightarrow> idx \<ge> 0 \<and> idx \<le> getLastAvailableEmptyIndex c"

text \<open>The loop of \<^verbatim>\<open>getValidEmptyIndex\<close> drops stale entries from the top of the stack.\<close>

primrec drop_stale :: "'a IndexedCollection \<Rightarrow> int list \<Rightarrow> int list" where
  "drop_stale c [] = []"
| "drop_stale c (i # free) = (if IndexedCollection_hasItem c i then drop_stale c free else i # free)"

definition getValidEmptyIndex :: "'a IndexedCollection \<Rightarrow> 'a IndexedCollection \<times> int" where
  "getValidEmptyIndex c =
     (let free = drop_stale c (ic_free_ids c)
      in (c\<lparr>ic_free_ids := free\<rparr>,
          case free of [] \<Rightarrow> int (length (ic_items c)) | newIndex # _ \<Rightarrow> newIndex))"

definition IndexedCollection_insertItem_at :: "'a IndexedCollection \<Rightarrow> 'a \<Rightarrow> int \<Rightarrow> 'a IndexedCollection \<times> int" where
  "IndexedCollection_insertItem_at c item idx =
     (if IndexedCollection_hasItem c idx then (c, InvalidIndex)
      else if idx < 0 then (c, InvalidIndex)
      else
        let c = (if \<not> isInHalfOpenRange c idx
                 then fold (\<lambda>i c. c\<lparr>ic_free_ids := i # ic_free_ids c, ic_items := ic_items c @ [None]\<rparr>)
                        [getLastAvailableEmptyIndex c..idx - 1] c
                 else c)
        in if idx = getLastAvailableEmptyIndex c
           then (c\<lparr>ic_items := ic_items c @ [Some item], ic_num_items := ic_num_items c + 1\<rparr>, idx)
           else
             let c = (if ic_free_ids c \<noteq> [] \<and> hd (ic_free_ids c) = idx
                      then c\<lparr>ic_free_ids := tl (ic_free_ids c)\<rparr> else c);
                 c = (if ic_items c ! nat idx = None then c\<lparr>ic_num_items := ic_num_items c + 1\<rparr> else c)
             in (c\<lparr>ic_items := (ic_items c)[nat idx := Some item]\<rparr>, idx))"

definition IndexedCollection_insertItem :: "'a IndexedCollection \<Rightarrow> string \<Rightarrow> 'a \<Rightarrow> 'a IndexedCollection \<times> int" where
  "IndexedCollection_insertItem c name item =
     (let (c, idx) = getValidEmptyIndex c in IndexedCollection_insertItem_at c item idx)"

definition IndexedCollection_removeItem :: "'a IndexedCollection \<Rightarrow> int \<Rightarrow> 'a IndexedCollection \<times> 'a option" where
  "IndexedCollection_removeItem c idx =
     (if IndexedCollection_hasItem c idx
      then (c\<lparr>ic_items := (ic_items c)[nat idx := None], ic_free_ids := idx # ic_free_ids c,
              ic_num_items := ic_num_items c - 1\<rparr>, ic_items c ! nat idx)
      else (c, None))"

definition IndexedCollection_removeAllItems :: "'a IndexedCollection \<Rightarrow> 'a IndexedCollection" where
  "IndexedCollection_removeAllItems c = c\<lparr>ic_items := [], ic_free_ids := [], ic_num_items := 0\<rparr>"

section \<open>ListCollection\<close>

record 'a ListCollection =
  lc_items :: "'a option list"
  lc_free_ids :: "int list"
  lc_index_list :: "int list"

definition ListCollection_new :: "'a ListCollection" where
  "ListCollection_new = \<lparr>lc_items = [], lc_free_ids = [], lc_index_list = []\<rparr>"

definition ListCollection_getNumItems :: "'a ListCollection \<Rightarrow> int" where
  "ListCollection_getNumItems c = int (length (lc_items c)) - int (length (lc_free_ids c))"

definition ListCollection_hasItem :: "'a ListCollection \<Rightarrow> int \<Rightarrow> bool" where
  "ListCollection_hasItem c idx = slot_hasItem (lc_items c) idx"

definition ListCollection_getItem :: "'a ListCollection \<Rightarrow> int \<Rightarrow> 'a option" where
  "ListCollection_getItem c idx = slot_getItem (lc_items c) idx"

definition ListCollection_getFirstValidIndex :: "'a ListCollection \<Rightarrow> int" where
  "ListCollection_getFirstValidIndex c = slot_firstValid (lc_items c)"

definition ListCollection_getNextValidIndex :: "'a ListCollection \<Rightarrow> int \<Rightarrow> int" where
  "ListCollection_getNextValidIndex c idx = slot_nextValid (lc_items c) idx"

definition ListCollection_insertItem :: "'a ListCollection \<Rightarrow> string \<Rightarrow> 'a \<Rightarrow> 'a ListCollection \<times> int" where
  "ListCollection_insertItem c name item =
     (case lc_free_ids c of
        [] \<Rightarrow> let idx = int (length (lc_items c))
              in (c\<lparr>lc_index_list := lc_index_list c @ [idx], lc_items := lc_items c @ [Some item]\<rparr>, idx)
      | idx # free \<Rightarrow>
          (c\<lparr>lc_free_ids := free, lc_index_list := lc_index_list c @ [idx],
             lc_items := (lc_items c)[nat idx := Some item]\<rparr>, idx))"

definition ListCollection_removeItem :: "'a ListCollection \<Rightarrow> int \<Rightarrow> 'a ListCollection \<times> 'a option" where
  "ListCollection_removeItem c idx =
     (if ListCollection_hasItem c idx \<and> idx \<in> set (lc_index_list c)
      then (c\<lparr>lc_index_list := remove1 idx (lc_index_list c), lc_items := (lc_items c)[nat idx := None],
              lc_free_ids := idx # lc_free_ids c\<rparr>, lc_items c ! nat idx)
      else (c, None))"

definition ListCollection_removeAllItems :: "'a ListCollection \<Rightarrow> 'a ListCollection" where
  "ListCollection_removeAllItems c = c\<lparr>lc_items := [], lc_free_ids := [], lc_index_list := []\<rparr>"

section \<open>MapCollection\<close>

record 'a MapCollection =
  mc_items :: "'a option list"
  mc_free_ids :: "int list"
  mc_name2idx_map :: "string \<Rightarrow> int option"

definition MapCollection_new :: "'a MapCollection" where
  "MapCollection_new = \<lparr>mc_items = [], mc_free_ids = [], mc_name2idx_map = Map.empty\<rparr>"

definition MapCollection_getNumItems :: "'a MapCollection \<Rightarrow> int" where
  "MapCollection_getNumItems c = int (length (mc_items c)) - int (length (mc_free_ids c))"

definition MapCollection_hasItem_named :: "'a MapCollection \<Rightarrow> string \<Rightarrow> bool" where
  "MapCollection_hasItem_named c name \<longleftrightarrow> mc_name2idx_map c name \<noteq> None"

definition MapCollection_hasItem :: "'a MapCollection \<Rightarrow> int \<Rightarrow> bool" where
  "MapCollection_hasItem c idx = slot_hasItem (mc_items c) idx"

definition MapCollection_getItem_named :: "'a MapCollection \<Rightarrow> string \<Rightarrow> 'a option" where
  "MapCollection_getItem_named c name =
     (case mc_name2idx_map c name of None \<Rightarrow> None | Some idx \<Rightarrow> mc_items c ! nat idx)"

definition MapCollection_getItem :: "'a MapCollection \<Rightarrow> int \<Rightarrow> 'a option" where
  "MapCollection_getItem c idx = slot_getItem (mc_items c) idx"

definition MapCollection_getItemName :: "('a \<Rightarrow> string) \<Rightarrow> 'a MapCollection \<Rightarrow> int \<Rightarrow> string" where
  "MapCollection_getItemName name_of c idx =
     (if MapCollection_hasItem c idx then name_of (the (mc_items c ! nat idx)) else [])"

definition MapCollection_getItemIndex :: "'a MapCollection \<Rightarrow> string \<Rightarrow> int" where
  "MapCollection_getItemIndex c name =
     (case mc_name2idx_map c name of None \<Rightarrow> InvalidIndex | Some idx \<Rightarrow> idx)"

definition MapCollection_getFirstValidIndex :: "'a MapCollection \<Rightarrow> int" where
  "MapCollection_getFirstValidIndex c = slot_firstValid (mc_items c)"

definition MapCollection_getNextValidIndex :: "'a MapCollection \<Rightarrow> int \<Rightarrow> int" where
  "MapCollection_getNextValidIndex c idx = slot_nextValid (mc_items c) idx"

text \<open>The index is taken from the stack first and pushed back when the name is already there.\<close>

definition MapCollection_insertItem :: "'a MapCollection \<Rightarrow> string \<Rightarrow> 'a \<Rightarrow> 'a MapCollection \<times> int" where
  "MapCollection_insertItem c name item =
     (let use_recycled_index = (mc_free_ids c \<noteq> []);
          idx = (if use_recycled_index then hd (mc_free_ids c) else int (length (mc_items c)));
          c = (if use_recycled_index then c\<lparr>mc_free_ids := tl (mc_free_ids c)\<rparr> else c)
      in if mc_name2idx_map c name = None
         then let c = c\<lparr>mc_name2idx_map := (mc_name2idx_map c)(name \<mapsto> idx)\<rparr>
              in if use_recycled_index
                 then (c\<lparr>mc_items := (mc_items c)[nat idx := Some item]\<rparr>, idx)
                 else (c\<lparr>mc_items := mc_items c @ [Some item]\<rparr>, idx)
         else if use_recycled_index
              then (c\<lparr>mc_free_ids := idx # mc_free_ids c\<rparr>, InvalidIndex)
              else (c, InvalidIndex))"

definition MapCollection_removeItem_named :: "'a MapCollection \<Rightarrow> string \<Rightarrow> 'a MapCollection \<times> 'a option" where
  "MapCollection_removeItem_named c name =
     (case mc_name2idx_map c name of
        None \<Rightarrow> (c, None)
      | Some idx \<Rightarrow>
          (c\<lparr>mc_name2idx_map := (mc_name2idx_map c)(name := None), mc_items := (mc_items c)[nat idx := None],
             mc_free_ids := idx # mc_free_ids c\<rparr>, mc_items c ! nat idx))"

definition MapCollection_removeItem :: "('a \<Rightarrow> string) \<Rightarrow> 'a MapCollection \<Rightarrow> int \<Rightarrow> 'a MapCollection \<times> 'a option" where
  "MapCollection_removeItem name_of c idx =
     (if MapCollection_hasItem c idx
      then MapCollection_removeItem_named c (name_of (the (mc_items c ! nat idx)))
      else (c, None))"

definition MapCollection_removeAllItems :: "'a MapCollection \<Rightarrow> 'a MapCollection" where
  "MapCollection_removeAllItems c = c\<lparr>mc_items := [], mc_free_ids := [], mc_name2idx_map := Map.empty\<rparr>"

section \<open>Free slots\<close>

definition free_slots :: "'a option list \<Rightarrow> int set" where
  "free_slots items = {i. 0 \<le> i \<and> i < int (length items) \<and> items ! nat i = None}"

lemma free_slots_iff: "i \<in> free_slots items \<longleftrightarrow> 0 \<le> i \<and> i < int (length items) \<and> items ! nat i = None"
  by (simp add: free_slots_def)

lemma free_slots_update:
  assumes "0 \<le> i" and "i < int (length items)"
  shows "free_slots (items[nat i := x]) = (if x = None then insert i (free_slots items) else free_slots items - {i})"
  using assms by (auto simp: free_slots_iff nth_list_update_in split: if_splits)

lemma free_slots_append_Some: "free_slots (items @ [Some x]) = free_slots items"
  by (auto simp: free_slots_iff nth_append nat_less_iff split: if_splits)

lemma slot_getItem_free: "i \<in> free_slots items \<Longrightarrow> slot_getItem items i = None"
  by (simp add: slot_getItem_eq free_slots_iff)

lemma card_dom_insert:
  assumes "finite (dom f)" and "f i = None"
  shows "int (card (dom (f(i \<mapsto> x)))) = int (card (dom f)) + 1"
  using assms by (simp add: domIff)

lemma card_dom_remove:
  assumes "finite (dom f)" and "f i = Some x"
  shows "int (card (dom (f(i := None)))) = int (card (dom f)) - 1"
proof -
  have "i \<in> dom f" using assms(2) by blast
  then show ?thesis using assms(1) card_gt_0_iff [of "dom f"] by (auto simp: of_nat_diff)
qed

section \<open>IndexedCollection meets the contract\<close>

text \<open>
  The free stack may hold stale and repeated entries, but every entry is a slot of the
  vector and every empty slot is on the stack.
\<close>

definition ic_inv :: "'a IndexedCollection \<Rightarrow> bool" where
  "ic_inv c \<longleftrightarrow>
     ic_num_items c = int (card (dom (slot_getItem (ic_items c)))) \<and>
     set (ic_free_ids c) \<subseteq> {0..<int (length (ic_items c))} \<and>
     free_slots (ic_items c) \<subseteq> set (ic_free_ids c)"

lemma drop_stale_subset: "set (drop_stale c free) \<subseteq> set free"
  by (induction free) auto

lemma drop_stale_keeps:
  "i \<in> set free \<Longrightarrow> \<not> IndexedCollection_hasItem c i \<Longrightarrow> i \<in> set (drop_stale c free)"
  by (induction free) auto

lemma drop_stale_hd: "drop_stale c free = i # rest \<Longrightarrow> \<not> IndexedCollection_hasItem c i"
  by (induction free) (auto split: if_splits)

lemma hasItem_free: "i \<in> free_slots (ic_items c) \<Longrightarrow> \<not> IndexedCollection_hasItem c i"
  by (simp add: IndexedCollection_hasItem_def slot_hasItem_def free_slots_iff)

lemma not_hasItem_free:
  "\<not> IndexedCollection_hasItem c i \<Longrightarrow> 0 \<le> i \<Longrightarrow> i < int (length (ic_items c)) \<Longrightarrow> i \<in> free_slots (ic_items c)"
  by (simp add: IndexedCollection_hasItem_def slot_hasItem_def in_vector_def free_slots_iff)

text \<open>The slot chosen is a free one when there is any, the end of the vector otherwise.\<close>

lemma getValidEmptyIndex_spec:
  assumes "ic_inv c" and "getValidEmptyIndex c = (c', idx)"
  shows "ic_inv c'" and "ic_items c' = ic_items c"
    and "if free_slots (ic_items c) = {} then idx = int (length (ic_items c)) else idx \<in> free_slots (ic_items c)"
proof -
  let ?free = "drop_stale c (ic_free_ids c)"
  have c': "c' = c\<lparr>ic_free_ids := ?free\<rparr>"
    and idx: "idx = (case ?free of [] \<Rightarrow> int (length (ic_items c)) | i # _ \<Rightarrow> i)"
    using assms(2) by (auto simp: getValidEmptyIndex_def Let_def)
  have keep: "free_slots (ic_items c) \<subseteq> set ?free"
    using assms(1) drop_stale_keeps hasItem_free unfolding ic_inv_def by blast
  then show "ic_inv c'" "ic_items c' = ic_items c"
    using assms(1) drop_stale_subset [of c "ic_free_ids c"] unfolding c' ic_inv_def by auto
  show "if free_slots (ic_items c) = {} then idx = int (length (ic_items c)) else idx \<in> free_slots (ic_items c)"
  proof (cases ?free)
    case Nil
    with keep idx show ?thesis by auto
  next
    case (Cons i rest)
    then have "i \<in> set (ic_free_ids c)" using drop_stale_subset [of c "ic_free_ids c"] by auto
    then have "0 \<le> i" "i < int (length (ic_items c))" using assms(1) by (auto simp: ic_inv_def)
    then have "i \<in> free_slots (ic_items c)" by (rule not_hasItem_free [OF drop_stale_hd [OF Cons]])
    with idx Cons show ?thesis by auto
  qed
qed

lemma grow_slots:
  fixes c :: "'a IndexedCollection"
  shows "fold (\<lambda>i c. c\<lparr>ic_free_ids := i # ic_free_ids c, ic_items := ic_items c @ [None]\<rparr>) is c =
     c\<lparr>ic_free_ids := rev is @ ic_free_ids c, ic_items := ic_items c @ replicate (length is) None\<rparr>"
  by (induction "is" arbitrary: c) (auto simp: replicate_append_same [symmetric])

lemma insert_in_range:
  assumes inv: "ic_inv c" and i: "i \<in> free_slots (ic_items c)"
  shows "\<exists>c'. IndexedCollection_insertItem_at c x i = (c', i) \<and> ic_inv c' \<and>
           slot_getItem (ic_items c') = (slot_getItem (ic_items c))(i \<mapsto> x)"
proof -
  define free where "free = (if ic_free_ids c \<noteq> [] \<and> hd (ic_free_ids c) = i then tl (ic_free_ids c) else ic_free_ids c)"
  let ?c = "c\<lparr>ic_free_ids := free, ic_num_items := ic_num_items c + 1,
              ic_items := (ic_items c)[nat i := Some x]\<rparr>"
  have range: "0 \<le> i" "i < int (length (ic_items c))" and none: "slot_getItem (ic_items c) i = None"
    using i slot_getItem_free [OF i] by (auto simp: free_slots_iff)
  have "IndexedCollection_insertItem_at c x i = (?c, i)"
    using i hasItem_free [OF i] unfolding free_slots_iff
    by (simp add: IndexedCollection_insertItem_at_def Let_def isInHalfOpenRange_def
        getLastAvailableEmptyIndex_def free_def free_slots_iff)
  moreover have get: "slot_getItem (ic_items ?c) = (slot_getItem (ic_items c))(i \<mapsto> x)"
    using range by (simp add: slot_getItem_update)
  moreover have "set free \<subseteq> set (ic_free_ids c)" "set (ic_free_ids c) - {i} \<subseteq> set free"
    unfolding free_def by (cases "ic_free_ids c"; auto)+
  then have "set free \<subseteq> {0..<int (length (ic_items ?c))}" "free_slots (ic_items ?c) \<subseteq> set free"
    using inv range free_slots_update [OF range, of "Some x"] unfolding ic_inv_def by auto
  ultimately show ?thesis
    using inv card_dom_insert [OF finite_dom_slot_getItem none, of x] unfolding ic_inv_def by simp
qed

lemma insert_beyond:
  assumes inv: "ic_inv c" and i: "int (length (ic_items c)) \<le> i"
  shows "\<exists>c'. IndexedCollection_insertItem_at c x i = (c', i) \<and> ic_inv c' \<and>
           slot_getItem (ic_items c') = (slot_getItem (ic_items c))(i \<mapsto> x)"
proof -
  let ?n = "int (length (ic_items c))" and ?is = "[int (length (ic_items c))..i - 1]"
  let ?items = "ic_items c @ replicate (length ?is) None"
  let ?c = "c\<lparr>ic_free_ids := rev ?is @ ic_free_ids c, ic_items := ?items @ [Some x],
              ic_num_items := ic_num_items c + 1\<rparr>"
  have len: "int (length ?items) = i" using i by simp
  have "\<not> IndexedCollection_hasItem c i" "\<not> isInHalfOpenRange c i"
    using i by (auto simp: IndexedCollection_hasItem_def slot_hasItem_def in_vector_def
        isInHalfOpenRange_def getLastAvailableEmptyIndex_def)
  then have "IndexedCollection_insertItem_at c x i = (?c, i)"
    using i by (simp add: IndexedCollection_insertItem_at_def Let_def getLastAvailableEmptyIndex_def grow_slots)
  moreover have get: "slot_getItem (?items @ [Some x]) = (slot_getItem (ic_items c))(i \<mapsto> x)"
    unfolding slot_getItem_append slot_getItem_append_None len ..
  moreover have none: "slot_getItem (ic_items c) i = None" using i by (simp add: slot_getItem_eq)
  moreover have "free_slots (ic_items ?c) \<subseteq> set (ic_free_ids ?c)"
  proof
    fix j assume "j \<in> free_slots (ic_items ?c)"
    then have "j \<in> free_slots ?items" using free_slots_append_Some [of ?items x] by (simp del: append_assoc length_upto)
    then have "j \<in> free_slots (ic_items c) \<or> j \<in> set ?is"
      using i by (auto simp: free_slots_iff nth_append split: if_splits)
    with inv show "j \<in> set (ic_free_ids ?c)" by (auto simp: ic_inv_def)
  qed
  moreover have "set (ic_free_ids ?c) \<subseteq> {0..<int (length (ic_items ?c))}"
    using inv i by (auto simp: ic_inv_def)
  ultimately show ?thesis
    using inv card_dom_insert [OF finite_dom_slot_getItem none, of x] unfolding ic_inv_def by simp
qed

lemma IndexedCollection_insertItem_spec:
  assumes "ic_inv c"
  shows "\<exists>c' i. IndexedCollection_insertItem c name x = (c', i) \<and> ic_inv c' \<and> 0 \<le> i \<and>
           slot_getItem (ic_items c) i = None \<and> slot_getItem (ic_items c') = (slot_getItem (ic_items c))(i \<mapsto> x)"
proof -
  obtain c1 i where c1: "getValidEmptyIndex c = (c1, i)" by fastforce
  note spec = getValidEmptyIndex_spec [OF assms c1]
  have ins: "IndexedCollection_insertItem c name x = IndexedCollection_insertItem_at c1 x i"
    using c1 by (simp add: IndexedCollection_insertItem_def)
  show ?thesis
  proof (cases "free_slots (ic_items c) = {}")
    case True
    then have "i = int (length (ic_items c))" "slot_getItem (ic_items c) i = None"
      using spec(3) by (auto simp: slot_getItem_eq)
    with insert_beyond [OF spec(1), of i x] spec(2) show ?thesis by (auto simp: ins)
  next
    case False
    then have i: "i \<in> free_slots (ic_items c)" using spec(3) by simp
    with insert_in_range [OF spec(1), of i x] spec(2) slot_getItem_free [OF i] show ?thesis
      by (auto simp: ins free_slots_iff)
  qed
qed

lemma IndexedCollection_removeItem_spec:
  assumes "ic_inv c"
  shows "\<exists>c'. IndexedCollection_removeItem c i = (c', slot_getItem (ic_items c) i) \<and> ic_inv c' \<and>
           slot_getItem (ic_items c') = (slot_getItem (ic_items c))(i := None)"
proof (cases "slot_getItem (ic_items c) i")
  case None
  then have "IndexedCollection_removeItem c i = (c, None)"
    by (auto simp: IndexedCollection_removeItem_def IndexedCollection_hasItem_def slot_getItem_def slot_hasItem_def
        split: if_splits)
  with None assms show ?thesis by (simp add: fun_upd_idem)
next
  case (Some x)
  let ?c = "c\<lparr>ic_items := (ic_items c)[nat i := None], ic_free_ids := i # ic_free_ids c,
              ic_num_items := ic_num_items c - 1\<rparr>"
  have range: "0 \<le> i" "i < int (length (ic_items c))" and "ic_items c ! nat i = Some x"
    using Some by (auto simp: slot_getItem_eq split: if_splits)
  then have "IndexedCollection_removeItem c i = (?c, Some x)"
    by (simp add: IndexedCollection_removeItem_def IndexedCollection_hasItem_def slot_hasItem_def in_vector_def)
  moreover have "ic_inv ?c"
    using assms range card_dom_remove [OF finite_dom_slot_getItem Some] free_slots_update [OF range, of None]
    by (auto simp: ic_inv_def slot_getItem_update)
  ultimately show ?thesis using range Some by (simp add: slot_getItem_update)
qed

interpretation indexed: item_collection ic_inv IndexedCollection_getItem IndexedCollection_getNumItems
  IndexedCollection_getFirstValidIndex IndexedCollection_getNextValidIndex IndexedCollection_insertItem
  IndexedCollection_removeItem IndexedCollection_removeAllItems "\<lambda>name x. True" "\<lambda>c name. True"
  using dom_slot_getItem IndexedCollection_insertItem_spec IndexedCollection_removeItem_spec
  by unfold_locales
    (fastforce simp: IndexedCollection_getItem_def [abs_def] IndexedCollection_getNumItems_def
      IndexedCollection_getFirstValidIndex_def IndexedCollection_getNextValidIndex_def
      IndexedCollection_removeAllItems_def slot_firstValid_eq slot_nextValid_eq ic_inv_def free_slots_def)+

section \<open>Exact free lists\<close>

text \<open>In the other two classes the stack holds exactly the empty slots, each once.\<close>

definition slots_inv :: "'a option list \<Rightarrow> int list \<Rightarrow> bool" where
  "slots_inv items free \<longleftrightarrow> distinct free \<and> set free = free_slots items"

lemma slots_inv_count:
  "slots_inv items free \<Longrightarrow> int (length items) - int (length free) = int (card (dom (slot_getItem items)))"
  using card_slots [of free items] by (simp add: slots_inv_def free_slots_def)

lemma slots_inv_Nil [simp]: "slots_inv [] []"
  by (simp add: slots_inv_def free_slots_def)

lemma slots_inv_append:
  "slots_inv items [] \<Longrightarrow> slots_inv (items @ [Some x]) []"
  by (simp add: slots_inv_def free_slots_append_Some)

lemma slots_inv_recycle:
  assumes "slots_inv items (i # free)"
  shows "0 \<le> i" and "i < int (length items)" and "slot_getItem items i = None"
    and "slots_inv (items[nat i := Some x]) free"
    and "slot_getItem (items[nat i := Some x]) = (slot_getItem items)(i \<mapsto> x)"
proof -
  have i: "i \<in> free_slots items" using assms by (auto simp: slots_inv_def)
  then show range: "0 \<le> i" "i < int (length items)" by (auto simp: free_slots_iff)
  show "slot_getItem items i = None" by (rule slot_getItem_free [OF i])
  show "slots_inv (items[nat i := Some x]) free"
    using assms free_slots_update [OF range, of "Some x"] by (auto simp: slots_inv_def)
  show "slot_getItem (items[nat i := Some x]) = (slot_getItem items)(i \<mapsto> x)"
    by (rule slot_getItem_update [OF range])
qed

lemma slots_inv_release:
  assumes "slots_inv items free" and "slot_getItem items i = Some x"
  shows "0 \<le> i" and "i < int (length items)" and "items ! nat i = Some x"
    and "slots_inv (items[nat i := None]) (i # free)"
    and "slot_getItem (items[nat i := None]) = (slot_getItem items)(i := None)"
proof -
  show range: "0 \<le> i" "i < int (length items)" and x: "items ! nat i = Some x"
    using assms(2) by (auto simp: slot_getItem_eq split: if_splits)
  show "slots_inv (items[nat i := None]) (i # free)"
    using assms(1) free_slots_update [OF range, of None] x by (auto simp: slots_inv_def free_slots_iff)
  show "slot_getItem (items[nat i := None]) = (slot_getItem items)(i := None)"
    by (rule slot_getItem_update [OF range])
qed

lemma slot_hasItem_iff: "slot_hasItem items i \<longleftrightarrow> slot_getItem items i \<noteq> None"
  by (auto simp: slot_getItem_def slot_hasItem_def)

section \<open>ListCollection meets the contract\<close>

definition lc_inv :: "'a ListCollection \<Rightarrow> bool" where
  "lc_inv c \<longleftrightarrow> slots_inv (lc_items c) (lc_free_ids c) \<and>
     distinct (lc_index_list c) \<and> set (lc_index_list c) = dom (slot_getItem (lc_items c))"

lemma ListCollection_insertItem_spec:
  assumes "lc_inv c"
  shows "\<exists>c' i. ListCollection_insertItem c name x = (c', i) \<and> lc_inv c' \<and> 0 \<le> i \<and>
           slot_getItem (lc_items c) i = None \<and> slot_getItem (lc_items c') = (slot_getItem (lc_items c))(i \<mapsto> x)"
proof (cases "lc_free_ids c")
  case Nil
  let ?i = "int (length (lc_items c))"
  have none: "slot_getItem (lc_items c) ?i = None" by (simp add: slot_getItem_eq)
  with Nil assms show ?thesis
    by (auto simp: ListCollection_insertItem_def Let_def lc_inv_def slots_inv_append slot_getItem_append)
next
  case (Cons i free)
  have inv: "slots_inv (lc_items c) (i # free)" using assms Cons by (simp add: lc_inv_def)
  note rec = slots_inv_recycle [OF inv]
  with Cons assms show ?thesis
    by (auto simp: ListCollection_insertItem_def lc_inv_def)
qed

lemma ListCollection_removeItem_spec:
  assumes "lc_inv c"
  shows "\<exists>c'. ListCollection_removeItem c i = (c', slot_getItem (lc_items c) i) \<and> lc_inv c' \<and>
           slot_getItem (lc_items c') = (slot_getItem (lc_items c))(i := None)"
proof (cases "slot_getItem (lc_items c) i")
  case None
  with assms show ?thesis
    by (auto simp: ListCollection_removeItem_def ListCollection_hasItem_def slot_hasItem_iff fun_upd_idem)
next
  case (Some x)
  have inv: "slots_inv (lc_items c) (lc_free_ids c)" using assms by (simp add: lc_inv_def)
  note rel = slots_inv_release [OF inv Some]
  with Some assms show ?thesis
    by (auto simp: ListCollection_removeItem_def ListCollection_hasItem_def slot_hasItem_iff lc_inv_def)
qed

interpretation listed: item_collection lc_inv ListCollection_getItem ListCollection_getNumItems
  ListCollection_getFirstValidIndex ListCollection_getNextValidIndex ListCollection_insertItem
  ListCollection_removeItem ListCollection_removeAllItems "\<lambda>name x. True" "\<lambda>c name. True"
  using dom_slot_getItem ListCollection_insertItem_spec ListCollection_removeItem_spec
  by unfold_locales
    (fastforce simp: ListCollection_getItem_def [abs_def] ListCollection_getNumItems_def
      ListCollection_getFirstValidIndex_def ListCollection_getNextValidIndex_def
      ListCollection_removeAllItems_def slot_firstValid_eq slot_nextValid_eq lc_inv_def slots_inv_count)+

section \<open>MapCollection meets the contract\<close>

definition mc_inv :: "('a \<Rightarrow> string) \<Rightarrow> 'a MapCollection \<Rightarrow> bool" where
  "mc_inv name_of c \<longleftrightarrow> slots_inv (mc_items c) (mc_free_ids c) \<and>
     (\<forall>name i. mc_name2idx_map c name = Some i \<longleftrightarrow>
        (\<exists>x. slot_getItem (mc_items c) i = Some x \<and> name_of x = name))"

lemma mc_inv_lookup:
  assumes "mc_inv name_of c" and "mc_name2idx_map c name = Some i"
  obtains x where "slot_getItem (mc_items c) i = Some x" and "name_of x = name"
  using assms by (auto simp: mc_inv_def)

lemma MapCollection_insertItem_spec:
  assumes "mc_inv name_of c" and "name_of x = name" and "mc_name2idx_map c name = None"
  shows "\<exists>c' i. MapCollection_insertItem c name x = (c', i) \<and> mc_inv name_of c' \<and> 0 \<le> i \<and>
           slot_getItem (mc_items c) i = None \<and> slot_getItem (mc_items c') = (slot_getItem (mc_items c))(i \<mapsto> x)"
proof -
  have fresh: "name_of y \<noteq> name" if "slot_getItem (mc_items c) i = Some y" for i y
    using assms(1,3) that unfolding mc_inv_def by (metis option.distinct(1))
  have map: "(\<forall>name' j. ((mc_name2idx_map c)(name \<mapsto> i)) name' = Some j \<longleftrightarrow>
      (\<exists>y. ((slot_getItem (mc_items c))(i \<mapsto> x)) j = Some y \<and> name_of y = name'))"
    if "slot_getItem (mc_items c) i = None" for i
    using assms(1,2) fresh that by (auto simp: mc_inv_def)
  show ?thesis
  proof (cases "mc_free_ids c")
    case Nil
    let ?i = "int (length (mc_items c))"
    have none: "slot_getItem (mc_items c) ?i = None" by (simp add: slot_getItem_eq)
    have inv: "slots_inv (mc_items c) []" using assms(1) Nil by (simp add: mc_inv_def)
    from Nil assms(3) none map [OF none] slots_inv_append [OF inv, of x] show ?thesis
      by (intro exI) (auto simp: MapCollection_insertItem_def Let_def mc_inv_def slot_getItem_append)
  next
    case (Cons i free)
    have inv: "slots_inv (mc_items c) (i # free)" using assms(1) Cons by (simp add: mc_inv_def)
    note rec = slots_inv_recycle [OF inv]
    from Cons assms(3) rec map [OF rec(3)] show ?thesis
      by (intro exI) (auto simp: MapCollection_insertItem_def Let_def mc_inv_def)
  qed
qed

lemma MapCollection_insertItem_refused:
  "mc_name2idx_map c name \<noteq> None \<Longrightarrow> MapCollection_insertItem c name x = (c, InvalidIndex)"
  by (cases "mc_free_ids c") (auto simp: MapCollection_insertItem_def Let_def)

lemma MapCollection_removeItem_spec:
  assumes "mc_inv name_of c"
  shows "\<exists>c'. MapCollection_removeItem name_of c i = (c', slot_getItem (mc_items c) i) \<and> mc_inv name_of c' \<and>
           slot_getItem (mc_items c') = (slot_getItem (mc_items c))(i := None)"
proof (cases "slot_getItem (mc_items c) i")
  case None
  with assms show ?thesis
    by (auto simp: MapCollection_removeItem_def MapCollection_hasItem_def slot_hasItem_iff fun_upd_idem)
next
  case (Some x)
  have inv: "slots_inv (mc_items c) (mc_free_ids c)" using assms by (simp add: mc_inv_def)
  note rel = slots_inv_release [OF inv Some]
  let ?c = "c\<lparr>mc_name2idx_map := (mc_name2idx_map c)(name_of x := None),
              mc_items := (mc_items c)[nat i := None], mc_free_ids := i # mc_free_ids c\<rparr>"
  have idx: "mc_name2idx_map c (name_of x) = Some i" using assms Some by (auto simp: mc_inv_def)
  then have "MapCollection_removeItem name_of c i = (?c, Some x)"
    using Some rel(3)
    by (simp add: MapCollection_removeItem_def MapCollection_removeItem_named_def MapCollection_hasItem_def slot_hasItem_iff)
  moreover have "name_of y \<noteq> name_of x" if "slot_getItem (mc_items c) j = Some y" "j \<noteq> i" for j y
    using assms that idx unfolding mc_inv_def by (metis option.inject)
  then have "mc_inv name_of ?c"
    using assms rel(4,5) Some unfolding mc_inv_def by (auto simp: fun_upd_def)
  ultimately show ?thesis using rel(5) Some by simp
qed

interpretation mapped: item_collection "mc_inv name_of" MapCollection_getItem MapCollection_getNumItems
  MapCollection_getFirstValidIndex MapCollection_getNextValidIndex MapCollection_insertItem
  "MapCollection_removeItem name_of" MapCollection_removeAllItems "\<lambda>name x. name_of x = name"
  "\<lambda>c name. mc_name2idx_map c name = None"
  for name_of :: "'a \<Rightarrow> string"
proof unfold_locales
  have get: "MapCollection_getItem c = slot_getItem (mc_items c)" for c :: "'a MapCollection"
    by (simp add: MapCollection_getItem_def fun_eq_iff)
  fix c :: "'a MapCollection" and name x and i :: int
  assume inv: "mc_inv name_of c"
  show "finite (dom (MapCollection_getItem c))" by (simp add: get)
  show "MapCollection_getNumItems c = int (card (dom (MapCollection_getItem c)))"
    using inv by (simp add: get MapCollection_getNumItems_def slots_inv_count mc_inv_def)
  show "MapCollection_getFirstValidIndex c = least_above (dom (MapCollection_getItem c)) (- 1)"
    by (simp add: get MapCollection_getFirstValidIndex_def slot_firstValid_eq)
  show "mc_inv name_of (MapCollection_removeAllItems c) \<and> MapCollection_getItem (MapCollection_removeAllItems c) = Map.empty"
    by (simp add: get MapCollection_removeAllItems_def mc_inv_def)
  show "\<exists>c'. MapCollection_removeItem name_of c i = (c', MapCollection_getItem c i) \<and> mc_inv name_of c' \<and>
      MapCollection_getItem c' = (MapCollection_getItem c)(i := None)"
    unfolding get by (rule MapCollection_removeItem_spec [OF inv])
  show "0 \<le> i" if "i \<in> dom (MapCollection_getItem c)"
    using that dom_slot_getItem [of "mc_items c"] unfolding get by fastforce
  show "MapCollection_getNextValidIndex c i = least_above (dom (MapCollection_getItem c)) i" if "0 \<le> i"
    using that by (simp add: get MapCollection_getNextValidIndex_def slot_nextValid_eq)
  show "MapCollection_insertItem c name x = (c, InvalidIndex)" if "\<not> mc_name2idx_map c name = None"
    using that by (simp add: MapCollection_insertItem_refused)
  show "\<exists>c' i. MapCollection_insertItem c name x = (c', i) \<and> mc_inv name_of c' \<and> 0 \<le> i \<and>
      MapCollection_getItem c i = None \<and> MapCollection_getItem c' = (MapCollection_getItem c)(i \<mapsto> x)"
    if "name_of x = name" "mc_name2idx_map c name = None"
    unfolding get by (rule MapCollection_insertItem_spec [OF inv that])
qed

section \<open>What the collections guarantee\<close>

lemma sample_map_collection: "mc_inv id (fst (MapCollection_insertItem MapCollection_new ''a'' ''a''))"
proof -
  have new: "mc_inv id MapCollection_new" by (simp add: mc_inv_def MapCollection_new_def)
  show ?thesis
    using MapCollection_insertItem_spec [OF new, of "''a''" "''a''"] by (auto simp: MapCollection_new_def)
qed

text \<open>
  The promise of \<^verbatim>\<open>MapCollection\<close> to its clients: an item keeps its index through
  any sequence of insertions and removals that does not remove it, whatever slots are
  recycled in between.
\<close>

theorem map_collection_index_stable:
  assumes "mc_inv name_of c"
    and "\<forall>op\<in>set ops. coll_op_wf (\<lambda>name x. name_of x = name) op \<and> \<not> coll_op_removes i op"
    and "MapCollection_getItem c i = Some x"
  shows "MapCollection_getItem (fold (coll_run MapCollection_insertItem (MapCollection_removeItem name_of)
           MapCollection_removeAllItems) ops c) i = Some x"
  using mapped.index_stable [OF assms] by blast

theorem map_collection_index_stable_witness:
  "MapCollection_getItem (fold (coll_run MapCollection_insertItem (MapCollection_removeItem id)
     MapCollection_removeAllItems) [InsertItem ''b'' ''b'', RemoveItem 1, InsertItem ''c'' ''c'']
     (fst (MapCollection_insertItem MapCollection_new ''a'' ''a''))) 0 = Some ''a''"
proof -
  let ?c = "fst (MapCollection_insertItem MapCollection_new ''a'' ''a'')"
  have "MapCollection_getItem ?c 0 = Some ''a''" by code_simp
  with map_collection_index_stable [OF sample_map_collection, of "[InsertItem ''b'' ''b'', RemoveItem 1, InsertItem ''c'' ''c'']" 0 "''a''"]
  show ?thesis by simp
qed

text \<open>
  Names and indices of a \<^verbatim>\<open>MapCollection\<close> agree: lookup by name finds the item
  with that name, \<^verbatim>\<open>getItemIndex\<close> gives the index under which \<^verbatim>\<open>getItem\<close> returns it,
  and \<^verbatim>\<open>getItemName\<close> inverts it.
\<close>

theorem map_collection_names_agree:
  assumes "mc_inv name_of c"
  shows "(MapCollection_getItem_named c name = Some x \<longleftrightarrow>
            name_of x = name \<and> (\<exists>i. MapCollection_getItem c i = Some x)) \<and>
         (MapCollection_hasItem_named c name \<longleftrightarrow> MapCollection_getItemIndex c name \<noteq> InvalidIndex) \<and>
         (MapCollection_hasItem_named c name \<longrightarrow>
            MapCollection_getItem c (MapCollection_getItemIndex c name) = MapCollection_getItem_named c name \<and>
            MapCollection_getItemName name_of c (MapCollection_getItemIndex c name) = name)"
proof (cases "mc_name2idx_map c name")
  case None
  have "name_of x \<noteq> name" if "MapCollection_getItem c i = Some x" for i
    using assms None that unfolding mc_inv_def MapCollection_getItem_def by (metis option.distinct(1))
  with None show ?thesis
    by (auto simp: MapCollection_getItem_named_def MapCollection_hasItem_named_def MapCollection_getItemIndex_def)
next
  case (Some i)
  with assms obtain y where y: "slot_getItem (mc_items c) i = Some y" "name_of y = name" by (rule mc_inv_lookup)
  then have slot: "mc_items c ! nat i = Some y" "0 \<le> i" by (auto simp: slot_getItem_eq split: if_splits)
  have "j = i" if "MapCollection_getItem c j = Some x" "name_of x = name" for j
    using assms Some that unfolding mc_inv_def MapCollection_getItem_def by (metis option.inject)
  with Some y slot show ?thesis
    by (auto simp: MapCollection_getItem_named_def MapCollection_hasItem_named_def MapCollection_getItemIndex_def
        MapCollection_getItemName_def MapCollection_getItem_def MapCollection_hasItem_def slot_hasItem_iff)
qed

theorem map_collection_names_agree_witness:
  "mc_inv id (fst (MapCollection_insertItem MapCollection_new ''a'' ''a'')) \<and>
   MapCollection_getItemName id (fst (MapCollection_insertItem MapCollection_new ''a'' ''a''))
     (MapCollection_getItemIndex (fst (MapCollection_insertItem MapCollection_new ''a'' ''a'')) ''a'') = ''a''"
proof -
  let ?c = "fst (MapCollection_insertItem MapCollection_new ''a'' ''a'')"
  have "MapCollection_hasItem_named ?c ''a''" by code_simp
  with map_collection_names_agree [OF sample_map_collection, of "''a''"] sample_map_collection
  show ?thesis by blast
qed

text \<open>
  C17. \<^verbatim>\<open>MapCollection::insertItem\<close> refuses exactly the names that are already there,
  and a refused insertion leaves the collection as it was, the stack of free indices
  included; an accepted one stores the item at an unused index, and \<^verbatim>\<open>removeItem\<close> with that index
  restores the items.
\<close>

theorem map_collection_insert_correct:
  assumes "mc_inv name_of c" and "name_of x = name"
  shows "if MapCollection_hasItem_named c name
         then MapCollection_insertItem c name x = (c, InvalidIndex)
         else \<exists>c' i c''. MapCollection_insertItem c name x = (c', i) \<and> mc_inv name_of c' \<and>
                MapCollection_getItem c i = None \<and> MapCollection_getItem c' = (MapCollection_getItem c)(i \<mapsto> x) \<and>
                MapCollection_getNumItems c' = MapCollection_getNumItems c + 1 \<and>
                MapCollection_removeItem name_of c' i = (c'', Some x) \<and>
                MapCollection_getItem c'' = MapCollection_getItem c"
proof (cases "mc_name2idx_map c name")
  case (Some i)
  then show ?thesis by (simp add: MapCollection_hasItem_named_def MapCollection_insertItem_refused)
next
  case None
  with mapped.insert_accepted [OF assms] mapped.insert_then_remove [OF assms] show ?thesis
    by (fastforce simp: MapCollection_hasItem_named_def)
qed

theorem map_collection_insert_correct_witness:
  "mc_inv id MapCollection_new \<and>
   (\<exists>c i. MapCollection_insertItem MapCollection_new ''a'' ''a'' = (c, i) \<and> MapCollection_getNumItems c = 1)"
proof -
  have new: "mc_inv id MapCollection_new" by (simp add: mc_inv_def MapCollection_new_def)
  with map_collection_insert_correct [OF new, of "''a''" "''a''"] show ?thesis
    by (auto simp: MapCollection_hasItem_named_def MapCollection_new_def MapCollection_getNumItems_def)
qed

text \<open>
  \<^verbatim>\<open>IndexedCollection::insertItem(item, idx)\<close> refuses an occupied or a negative
  index and otherwise stores the item at exactly that index, growing the vector when
  needed; \<^verbatim>\<open>getValidEmptyIndex\<close> always returns an index that \<^verbatim>\<open>insertItem\<close>
  accepts, below the size of the vector whenever a slot is empty, in spite of stale entries on the stack.
\<close>

theorem indexed_collection_insert_correct:
  assumes "ic_inv c"
  shows "(if IndexedCollection_hasItem c idx \<or> idx < 0
          then IndexedCollection_insertItem_at c x idx = (c, InvalidIndex)
          else \<exists>c'. IndexedCollection_insertItem_at c x idx = (c', idx) \<and> ic_inv c' \<and>
                 IndexedCollection_getItem c' = (IndexedCollection_getItem c)(idx \<mapsto> x)) \<and>
         (let i = snd (getValidEmptyIndex c)
          in 0 \<le> i \<and> \<not> IndexedCollection_hasItem c i \<and>
             (i = getLastAvailableEmptyIndex c \<longleftrightarrow> free_slots (ic_items c) = {}))"
proof -
  have get: "IndexedCollection_getItem c = slot_getItem (ic_items c)" for c :: "'a IndexedCollection"
    by (simp add: IndexedCollection_getItem_def fun_eq_iff)
  have ins: "\<exists>c'. IndexedCollection_insertItem_at c x idx = (c', idx) \<and> ic_inv c' \<and>
      slot_getItem (ic_items c') = (slot_getItem (ic_items c))(idx \<mapsto> x)"
    if "\<not> IndexedCollection_hasItem c idx" "0 \<le> idx"
    using insert_in_range [OF assms not_hasItem_free [OF that]] insert_beyond [OF assms, of idx]
    by (cases "idx < int (length (ic_items c))") auto
  obtain c' i where v: "getValidEmptyIndex c = (c', i)" by fastforce
  have "0 \<le> i \<and> \<not> IndexedCollection_hasItem c i \<and>
      (i = getLastAvailableEmptyIndex c \<longleftrightarrow> free_slots (ic_items c) = {})"
    using getValidEmptyIndex_spec(3) [OF assms v] hasItem_free [of i c]
    by (auto simp: getLastAvailableEmptyIndex_def free_slots_iff IndexedCollection_hasItem_def
        slot_hasItem_def in_vector_def split: if_splits)
  with ins v show ?thesis by (auto simp: get IndexedCollection_insertItem_at_def)
qed

theorem indexed_collection_insert_correct_witness:
  "ic_inv IndexedCollection_new \<and>
   (\<exists>c. IndexedCollection_insertItem_at IndexedCollection_new True 3 = (c, 3) \<and> ic_inv c \<and>
      IndexedCollection_getItem c 3 = Some True)"
proof -
  have new: "ic_inv IndexedCollection_new"
    by (simp add: ic_inv_def IndexedCollection_new_def free_slots_def)
  have "\<not> IndexedCollection_hasItem (IndexedCollection_new :: bool IndexedCollection) 3" by code_simp
  with indexed_collection_insert_correct [OF new, of 3 True] new show ?thesis by auto
qed

text \<open>
  Iterating over an \<^verbatim>\<open>IndexedCollection\<close> or a \<^verbatim>\<open>ListCollection\<close> with their
  iterators terminates and visits the indices of the items, each once and in increasing
  order, as many as \<^verbatim>\<open>getNumItems\<close> says.
\<close>

theorem collections_iterate_all:
  assumes "ic_inv c" and "lc_inv d"
  shows "range_loop (IndexedCollection_getNextValidIndex c)
           (iterator_at (IndexedCollection_getFirstValidIndex c) True)
           (iterator_at (IndexedCollection_getFirstValidIndex c) False) =
         Some (sorted_list_of_set (dom (IndexedCollection_getItem c))) \<and>
         int (card (dom (IndexedCollection_getItem c))) = IndexedCollection_getNumItems c \<and>
         range_loop (ListCollection_getNextValidIndex d)
           (iterator_at (ListCollection_getFirstValidIndex d) True)
           (iterator_at (ListCollection_getFirstValidIndex d) False) =
         Some (sorted_list_of_set (dom (ListCollection_getItem d))) \<and>
         int (card (dom (ListCollection_getItem d))) = ListCollection_getNumItems d"
  using indexed.iterate_sorted [OF assms(1)] indexed.num_items [OF assms(1)]
    listed.iterate_sorted [OF assms(2)] listed.num_items [OF assms(2)] by simp

theorem collections_iterate_all_witness:
  "\<exists>d. ListCollection_insertItem ListCollection_new [] True = (d, 0) \<and> lc_inv d \<and>
     range_loop (ListCollection_getNextValidIndex d)
           (iterator_at (ListCollection_getFirstValidIndex d) True)
           (iterator_at (ListCollection_getFirstValidIndex d) False) = Some [0]"
proof -
  have ic: "ic_inv (IndexedCollection_new :: bool IndexedCollection)"
    by (simp add: ic_inv_def IndexedCollection_new_def free_slots_def)
  have new: "lc_inv (ListCollection_new :: bool ListCollection)" by (simp add: lc_inv_def ListCollection_new_def)
  obtain d i where d: "ListCollection_insertItem ListCollection_new [] True = (d, i)" "lc_inv d"
    "slot_getItem (lc_items d) = (slot_getItem [])(i \<mapsto> True)"
    using ListCollection_insertItem_spec [OF new, of "[]" True] by (auto simp: ListCollection_new_def)
  have "i = 0" using d(1) by (auto simp: ListCollection_insertItem_def ListCollection_new_def)
  moreover have "ListCollection_getItem d = [i \<mapsto> True]"
    using d(3) by (simp add: ListCollection_getItem_def fun_eq_iff)
  ultimately show ?thesis using collections_iterate_all [OF ic d(2)] d by auto
qed

end
