(* ===== verification/SidreStore.thy ===== *)
theory SidreStore
  imports SidreCollections
begin

text \<open>
  The Sidre data store: \<^verbatim>\<open>Buffer\<close> (\<^verbatim>\<open>sidre/core/Buffer.cpp\<close>), \<^verbatim>\<open>View\<close>
  (\<^verbatim>\<open>sidre/core/View.cpp\<close>, \<^verbatim>\<open>View.hpp\<close>) and the buffer table of \<^verbatim>\<open>DataStore\<close>
  (\<^verbatim>\<open>sidre/core/DataStore.cpp\<close>). Views and buffers point at each other, so the model
  has an explicit heap: objects are named by ids (the C++ pointers) and every operation maps a
  store to a store. Data is described with the types of the Conduit library, which is not
  part of the repository: its functions are the fields of the parameter \<open>E\<close>, and the properties
  name what they need of them. A \<^verbatim>\<open>Schema\<close> of a view is the \<^verbatim>\<open>DataType\<close> of its one leaf.
  Addresses of allocated blocks are never reused; \<open>mem_ok E n\<close> says whether an allocation of
  \<open>n\<close> bytes succeeds. Allocator ids and the bytes in the blocks are left out.
\<close>

section \<open>Conduit and the allocator, as parameters\<close>

record ('d, 'n) env =
  empty_dtype :: 'd
  is_empty :: "'d \<Rightarrow> bool"
  dtype_id :: "'d \<Rightarrow> int"
  number_of_elements :: "'d \<Rightarrow> int"
  strided_bytes :: "'d \<Rightarrow> int"
  total_strided_bytes :: "'d \<Rightarrow> int"
  element_bytes :: "'d \<Rightarrow> int"
  default_dtype :: "int \<Rightarrow> 'd"
  set_number_of_elements :: "'d \<Rightarrow> int \<Rightarrow> 'd"
  set_offset :: "'d \<Rightarrow> int \<Rightarrow> 'd"
  set_stride :: "'d \<Rightarrow> int \<Rightarrow> 'd"
  value_dtype :: "'n \<Rightarrow> 'd"
  string_dtype :: "string \<Rightarrow> 'd"
  no_type_id :: int
  mem_ok :: "int \<Rightarrow> bool"

section \<open>Objects\<close>

type_synonym ptr = nat
type_synonym buffer_id = nat
type_synonym view_id = nat

record 'd Buffer =
  b_index :: int
  b_views :: "view_id list"
  b_dtype :: 'd
  b_data :: "ptr option"

datatype State = EMPTY | BUFFER | EXTERNAL | SCALAR | STRING

text \<open>A view's Conduit node: reset, pointing at outside data, or holding a scalar or a string.\<close>

datatype ('d, 'n) node = NodeReset | NodeExternal 'd "ptr option" | NodeValue 'n | NodeString string

record ('d, 'n) View =
  v_data_buffer :: "buffer_id option"
  v_schema :: 'd
  v_node :: "('d, 'n) node"
  v_shape :: "int list"
  v_external_ptr :: "ptr option"
  v_state :: State
  v_is_applied :: bool

record ('d, 'n) store =
  buffer_coll :: "buffer_id IndexedCollection"
  buffers :: "buffer_id \<Rightarrow> 'd Buffer option"
  next_buffer :: buffer_id
  views :: "view_id \<Rightarrow> ('d, 'n) View option"
  live_blocks :: "ptr list"
  next_ptr :: ptr

abbreviation buffer :: "('d, 'n) store \<Rightarrow> buffer_id \<Rightarrow> 'd Buffer" where
  "buffer s b \<equiv> the (buffers s b)"

abbreviation view :: "('d, 'n) store \<Rightarrow> view_id \<Rightarrow> ('d, 'n) View" where
  "view s v \<equiv> the (views s v)"

definition upd_buffer :: "buffer_id \<Rightarrow> ('d Buffer \<Rightarrow> 'd Buffer) \<Rightarrow> ('d, 'n) store \<Rightarrow> ('d, 'n) store" where
  "upd_buffer b f s = s\<lparr>buffers := (buffers s)(b \<mapsto> f (buffer s b))\<rparr>"

definition upd_view :: "view_id \<Rightarrow> (('d, 'n) View \<Rightarrow> ('d, 'n) View) \<Rightarrow> ('d, 'n) store \<Rightarrow> ('d, 'n) store" where
  "upd_view v f s = s\<lparr>views := (views s)(v \<mapsto> f (view s v))\<rparr>"

text \<open>\<^verbatim>\<open>axom::allocate\<close>, \<^verbatim>\<open>deallocate\<close> and \<^verbatim>\<open>reallocate\<close> on the heap of blocks.\<close>

definition allocateBytes :: "('d, 'n) env \<Rightarrow> int \<Rightarrow> ('d, 'n) store \<Rightarrow> ('d, 'n) store \<times> ptr option" where
  "allocateBytes E n s =
     (if mem_ok E n
      then (s\<lparr>live_blocks := next_ptr s # live_blocks s, next_ptr := Suc (next_ptr s)\<rparr>, Some (next_ptr s))
      else (s, None))"

definition releaseBytes :: "ptr option \<Rightarrow> ('d, 'n) store \<Rightarrow> ('d, 'n) store" where
  "releaseBytes p s =
     (case p of None \<Rightarrow> s | Some a \<Rightarrow> s\<lparr>live_blocks := removeAll a (live_blocks s)\<rparr>)"

definition reallocateBytes :: "('d, 'n) env \<Rightarrow> ptr option \<Rightarrow> int \<Rightarrow> ('d, 'n) store \<Rightarrow> ('d, 'n) store \<times> ptr option" where
  "reallocateBytes E p n s =
     (if mem_ok E n \<or> n = 0 then allocateBytes E n (releaseBytes p s) else (s, None))"

section \<open>Buffer\<close>

definition Buffer_getNumViews :: "'d Buffer \<Rightarrow> int" where
  "Buffer_getNumViews b = int (length (b_views b))"

definition Buffer_getTypeID :: "('d, 'n) env \<Rightarrow> 'd Buffer \<Rightarrow> int" where
  "Buffer_getTypeID E b = dtype_id E (b_dtype b)"

definition Buffer_getTotalBytes :: "('d, 'n) env \<Rightarrow> 'd Buffer \<Rightarrow> int" where
  "Buffer_getTotalBytes E b = strided_bytes E (b_dtype b)"

definition Buffer_isAllocated :: "'d Buffer \<Rightarrow> bool" where
  "Buffer_isAllocated b \<longleftrightarrow> b_data b \<noteq> None"

definition Buffer_isDescribed :: "('d, 'n) env \<Rightarrow> 'd Buffer \<Rightarrow> bool" where
  "Buffer_isDescribed E b \<longleftrightarrow> \<not> is_empty E (b_dtype b)"

definition Buffer_describe :: "('d, 'n) env \<Rightarrow> buffer_id \<Rightarrow> int \<Rightarrow> int \<Rightarrow> ('d, 'n) store \<Rightarrow> ('d, 'n) store" where
  "Buffer_describe E b type num_elems s =
     (if Buffer_isAllocated (buffer s b) \<or> num_elems < 0 then s
      else upd_buffer b (\<lambda>bf. bf\<lparr>b_dtype := set_number_of_elements E (default_dtype E type) num_elems\<rparr>) s)"

definition Buffer_allocate :: "('d, 'n) env \<Rightarrow> buffer_id \<Rightarrow> ('d, 'n) store \<Rightarrow> ('d, 'n) store" where
  "Buffer_allocate E b s =
     (if \<not> Buffer_isDescribed E (buffer s b) \<or> Buffer_isAllocated (buffer s b) then s
      else let (s, data) = allocateBytes E (Buffer_getTotalBytes E (buffer s b)) s
           in if data \<noteq> None then upd_buffer b (\<lambda>bf. bf\<lparr>b_data := data\<rparr>) s else s)"

definition Buffer_allocate_typed :: "('d, 'n) env \<Rightarrow> buffer_id \<Rightarrow> int \<Rightarrow> int \<Rightarrow> ('d, 'n) store \<Rightarrow> ('d, 'n) store" where
  "Buffer_allocate_typed E b type num_elems s =
     (if Buffer_isAllocated (buffer s b) then s
      else Buffer_allocate E b (Buffer_describe E b type num_elems s))"

definition Buffer_reallocate :: "('d, 'n) env \<Rightarrow> buffer_id \<Rightarrow> int \<Rightarrow> ('d, 'n) store \<Rightarrow> ('d, 'n) store" where
  "Buffer_reallocate E b num_elems s =
     (if \<not> Buffer_isDescribed E (buffer s b) then s
      else if num_elems < 0 then s
      else
        let dtype = set_number_of_elements E (b_dtype (buffer s b)) num_elems;
            (s, new_data) = reallocateBytes E (b_data (buffer s b)) (strided_bytes E dtype) s
        in if num_elems = 0 \<or> new_data \<noteq> None
           then upd_buffer b (\<lambda>bf. bf\<lparr>b_dtype := dtype, b_data := new_data\<rparr>) s
           else s)"

section \<open>View: queries\<close>

definition View_isDescribed :: "('d, 'n) env \<Rightarrow> ('d, 'n) View \<Rightarrow> bool" where
  "View_isDescribed E v \<longleftrightarrow> \<not> is_empty E (v_schema v)"

definition View_hasBuffer :: "('d, 'n) View \<Rightarrow> bool" where
  "View_hasBuffer v \<longleftrightarrow> v_data_buffer v \<noteq> None"

definition View_isOpaque :: "('d, 'n) View \<Rightarrow> bool" where
  "View_isOpaque v \<longleftrightarrow> v_state v = EXTERNAL \<and> \<not> v_is_applied v"

definition View_getTypeID :: "('d, 'n) env \<Rightarrow> ('d, 'n) View \<Rightarrow> int" where
  "View_getTypeID E v = (if View_isDescribed E v then dtype_id E (v_schema v) else no_type_id E)"

definition View_getTotalBytes :: "('d, 'n) env \<Rightarrow> ('d, 'n) View \<Rightarrow> int" where
  "View_getTotalBytes E v = total_strided_bytes E (v_schema v)"

definition View_getNumElements :: "('d, 'n) env \<Rightarrow> ('d, 'n) View \<Rightarrow> int" where
  "View_getNumElements E v = number_of_elements E (v_schema v)"

definition View_getNumDimensions :: "('d, 'n) View \<Rightarrow> int" where
  "View_getNumDimensions v = int (length (v_shape v))"

text \<open>\<^verbatim>\<open>getShape(ndims, shape)\<close>: the returned count and the array it fills, or \<open>None\<close> when the array is untouched.\<close>

definition View_getShape :: "int \<Rightarrow> ('d, 'n) View \<Rightarrow> int \<times> int list option" where
  "View_getShape ndims v =
     (if nat (ndims mod 2 ^ 32) < length (v_shape v) then (- 1, None)
      else (int (length (v_shape v)),
            Some (v_shape v @ replicate (nat ndims - length (v_shape v)) 0)))"

definition View_isAllocated :: "('d, 'n) env \<Rightarrow> ('d, 'n) store \<Rightarrow> ('d, 'n) View \<Rightarrow> bool" where
  "View_isAllocated E s v =
     (case v_state v of
        EMPTY \<Rightarrow> False
      | BUFFER \<Rightarrow> View_isDescribed E v \<and> Buffer_isAllocated (buffer s (the (v_data_buffer v)))
      | EXTERNAL \<Rightarrow> True
      | STRING \<Rightarrow> True
      | SCALAR \<Rightarrow> True)"

definition isAllocateValid :: "('d, 'n) env \<Rightarrow> ('d, 'n) store \<Rightarrow> ('d, 'n) View \<Rightarrow> bool" where
  "isAllocateValid E s v =
     (case v_state v of
        EMPTY \<Rightarrow> View_isDescribed E v
      | BUFFER \<Rightarrow> View_isDescribed E v \<and> Buffer_getNumViews (buffer s (the (v_data_buffer v))) = 1
      | _ \<Rightarrow> False)"

definition isApplyValid :: "('d, 'n) env \<Rightarrow> ('d, 'n) store \<Rightarrow> ('d, 'n) View \<Rightarrow> bool" where
  "isApplyValid E s v =
     (if \<not> View_isDescribed E v then False
      else case v_state v of
        EXTERNAL \<Rightarrow> View_isDescribed E v
      | BUFFER \<Rightarrow> 0 \<le> View_getTotalBytes E v \<and>
                  View_getTotalBytes E v \<le> Buffer_getTotalBytes E (buffer s (the (v_data_buffer v)))
      | _ \<Rightarrow> False)"

datatype void_ptr = Null | Addr ptr | InNode

definition ptr_of :: "ptr option \<Rightarrow> void_ptr" where
  "ptr_of p = (case p of None \<Rightarrow> Null | Some a \<Rightarrow> Addr a)"

definition node_data_ptr :: "('d, 'n) node \<Rightarrow> void_ptr" where
  "node_data_ptr n =
     (case n of NodeReset \<Rightarrow> Null | NodeExternal _ p \<Rightarrow> ptr_of p | NodeValue _ \<Rightarrow> InNode | NodeString _ \<Rightarrow> InNode)"

definition View_getVoidPtr :: "('d, 'n) View \<Rightarrow> void_ptr" where
  "View_getVoidPtr v =
     (case v_state v of
        EMPTY \<Rightarrow> Null
      | EXTERNAL \<Rightarrow> if v_is_applied v then node_data_ptr (v_node v) else ptr_of (v_external_ptr v)
      | BUFFER \<Rightarrow> if v_is_applied v then node_data_ptr (v_node v) else Null
      | STRING \<Rightarrow> node_data_ptr (v_node v)
      | SCALAR \<Rightarrow> node_data_ptr (v_node v))"

definition getStateStringName :: "State \<Rightarrow> string" where
  "getStateStringName st =
     (case st of EMPTY \<Rightarrow> ''EMPTY'' | BUFFER \<Rightarrow> ''BUFFER'' | EXTERNAL \<Rightarrow> ''EXTERNAL''
      | SCALAR \<Rightarrow> ''SCALAR'' | STRING \<Rightarrow> ''STRING'')"

definition getStateId :: "string \<Rightarrow> State" where
  "getStateId name =
     (if name = ''EMPTY'' then EMPTY
      else if name = ''BUFFER'' then BUFFER
      else if name = ''EXTERNAL'' then EXTERNAL
      else if name = ''SCALAR'' then SCALAR
      else if name = ''STRING'' then STRING
      else if name = ''UNKNOWN'' then EMPTY
      else EMPTY)"

section \<open>View: description\<close>

text \<open>Descriptions change one view only; the functions below act on the view record.\<close>

definition describe_dtype :: "('d, 'n) env \<Rightarrow> 'd \<Rightarrow> ('d, 'n) View \<Rightarrow> ('d, 'n) View" where
  "describe_dtype E dtype v =
     v\<lparr>v_schema := dtype, v_shape := [number_of_elements E dtype], v_is_applied := False\<rparr>"

definition describe :: "('d, 'n) env \<Rightarrow> int \<Rightarrow> int \<Rightarrow> ('d, 'n) View \<Rightarrow> ('d, 'n) View" where
  "describe E type num_elems v =
     describe_dtype E (set_number_of_elements E (default_dtype E type) num_elems) v"

definition describe_shape :: "('d, 'n) env \<Rightarrow> int \<Rightarrow> int \<Rightarrow> int list option \<Rightarrow> ('d, 'n) View \<Rightarrow> ('d, 'n) View" where
  "describe_shape E type ndims shape v =
     (case shape of
        None \<Rightarrow> v
      | Some dims \<Rightarrow>
          let num_elems = (if ndims > 0 then prod_list (take (nat ndims) dims) else 0)
          in (describe E type num_elems v)\<lparr>v_shape := take (nat ndims) dims\<rparr>)"

definition undescribe :: "('d, 'n) env \<Rightarrow> ('d, 'n) View \<Rightarrow> ('d, 'n) View" where
  "undescribe E v = v\<lparr>v_schema := empty_dtype E, v_shape := []\<rparr>"

definition unapply :: "('d, 'n) View \<Rightarrow> ('d, 'n) View" where
  "unapply v = v\<lparr>v_node := NodeReset, v_is_applied := False\<rparr>"

definition setBufferViewToEmpty :: "('d, 'n) View \<Rightarrow> ('d, 'n) View" where
  "setBufferViewToEmpty v = unapply (v\<lparr>v_data_buffer := None, v_state := EMPTY\<rparr>)"

section \<open>Links between views and buffers\<close>

definition Buffer_deallocate :: "buffer_id \<Rightarrow> ('d, 'n) store \<Rightarrow> ('d, 'n) store" where
  "Buffer_deallocate b s =
     (if \<not> Buffer_isAllocated (buffer s b) then s
      else let s = releaseBytes (b_data (buffer s b)) s;
               s = upd_buffer b (\<lambda>bf. bf\<lparr>b_data := None\<rparr>) s
           in fold (\<lambda>v s. upd_view v unapply s) (b_views (buffer s b)) s)"

definition Buffer_attachToView :: "buffer_id \<Rightarrow> view_id \<Rightarrow> ('d, 'n) store \<Rightarrow> ('d, 'n) store" where
  "Buffer_attachToView b v s =
     (if v_data_buffer (view s v) = Some b
      then upd_buffer b (\<lambda>bf. bf\<lparr>b_views := List.insert v (b_views bf)\<rparr>) s else s)"

definition Buffer_detachFromView :: "buffer_id \<Rightarrow> view_id \<Rightarrow> ('d, 'n) store \<Rightarrow> ('d, 'n) store" where
  "Buffer_detachFromView b v s =
     (if v_data_buffer (view s v) = Some b \<and> v \<in> set (b_views (buffer s b))
      then upd_view v setBufferViewToEmpty
             (upd_buffer b (\<lambda>bf. bf\<lparr>b_views := removeAll v (b_views bf)\<rparr>) s)
      else s)"

definition Buffer_detachFromAllViews :: "buffer_id \<Rightarrow> ('d, 'n) store \<Rightarrow> ('d, 'n) store" where
  "Buffer_detachFromAllViews b s =
     upd_buffer b (\<lambda>bf. bf\<lparr>b_views := []\<rparr>)
       (fold (\<lambda>v s. upd_view v setBufferViewToEmpty s) (b_views (buffer s b)) s)"

section \<open>The buffer table of the data store\<close>

definition DataStore_hasBuffer :: "('d, 'n) store \<Rightarrow> int \<Rightarrow> bool" where
  "DataStore_hasBuffer s idx = IndexedCollection_hasItem (buffer_coll s) idx"

definition DataStore_getBuffer :: "('d, 'n) store \<Rightarrow> int \<Rightarrow> buffer_id option" where
  "DataStore_getBuffer s idx = IndexedCollection_getItem (buffer_coll s) idx"

definition DataStore_getNumBuffers :: "('d, 'n) store \<Rightarrow> int" where
  "DataStore_getNumBuffers s = IndexedCollection_getNumItems (buffer_coll s)"

definition DataStore_createBuffer :: "('d, 'n) env \<Rightarrow> ('d, 'n) store \<Rightarrow> ('d, 'n) store \<times> buffer_id" where
  "DataStore_createBuffer E s =
     (let (coll, newIndex) = getValidEmptyIndex (buffer_coll s);
          b = next_buffer s;
          buff = \<lparr>b_index = newIndex, b_views = [], b_dtype = empty_dtype E, b_data = None\<rparr>
      in (s\<lparr>buffer_coll := fst (IndexedCollection_insertItem_at coll b newIndex),
            buffers := (buffers s)(b \<mapsto> buff), next_buffer := Suc b\<rparr>, b))"

definition DataStore_createBuffer_typed :: "('d, 'n) env \<Rightarrow> int \<Rightarrow> int \<Rightarrow> ('d, 'n) store \<Rightarrow> ('d, 'n) store \<times> buffer_id" where
  "DataStore_createBuffer_typed E type num_elems s =
     (let (s, b) = DataStore_createBuffer E s in (Buffer_describe E b type num_elems s, b))"

text \<open>\<^verbatim>\<open>delete buff\<close> runs \<^verbatim>\<open>~Buffer\<close>, which releases the data.\<close>

definition DataStore_destroyBuffer :: "buffer_id option \<Rightarrow> ('d, 'n) store \<Rightarrow> ('d, 'n) store" where
  "DataStore_destroyBuffer buff s =
     (case buff of
        None \<Rightarrow> s
      | Some b \<Rightarrow>
          let s = Buffer_detachFromAllViews b s;
              s = s\<lparr>buffer_coll := fst (IndexedCollection_removeItem (buffer_coll s) (b_index (buffer s b)))\<rparr>;
              s = releaseBytes (b_data (buffer s b)) s
          in s\<lparr>buffers := (buffers s)(b := None)\<rparr>)"

definition DataStore_destroyBuffer_at :: "int \<Rightarrow> ('d, 'n) store \<Rightarrow> ('d, 'n) store" where
  "DataStore_destroyBuffer_at idx s = DataStore_destroyBuffer (DataStore_getBuffer s idx) s"

section \<open>View: applying a description to data\<close>

definition View_apply :: "('d, 'n) env \<Rightarrow> view_id \<Rightarrow> ('d, 'n) store \<Rightarrow> ('d, 'n) store" where
  "View_apply E v s =
     (if \<not> isApplyValid E s (view s v) then s
      else
        let data_pointer = (case v_data_buffer (view s v) of
                              Some b \<Rightarrow> b_data (buffer s b) | None \<Rightarrow> v_external_ptr (view s v))
        in upd_view v (\<lambda>vw. vw\<lparr>v_node := NodeExternal (v_schema vw) data_pointer, v_is_applied := True\<rparr>) s)"

definition View_apply_dtype :: "('d, 'n) env \<Rightarrow> view_id \<Rightarrow> 'd \<Rightarrow> ('d, 'n) store \<Rightarrow> ('d, 'n) store" where
  "View_apply_dtype E v dtype s =
     (if is_empty E dtype then s else View_apply E v (upd_view v (describe_dtype E dtype) s))"

definition strided_dtype :: "('d, 'n) env \<Rightarrow> 'd \<Rightarrow> int \<Rightarrow> int \<Rightarrow> int \<Rightarrow> 'd" where
  "strided_dtype E dtype num_elems offset stride =
     (let bytes_per_elem = element_bytes E dtype;
          dtype = set_number_of_elements E dtype num_elems;
          dtype = set_offset E dtype (offset * bytes_per_elem)
      in set_stride E dtype (stride * bytes_per_elem))"

definition View_apply_elems :: "('d, 'n) env \<Rightarrow> view_id \<Rightarrow> int \<Rightarrow> int \<Rightarrow> int \<Rightarrow> ('d, 'n) store \<Rightarrow> ('d, 'n) store" where
  "View_apply_elems E v num_elems offset stride s =
     (if num_elems < 0 then s
      else
        let dtype = v_schema (view s v);
            dtype = (if is_empty E dtype
                     then default_dtype E (Buffer_getTypeID E (buffer s (the (v_data_buffer (view s v)))))
                     else dtype)
        in View_apply E v (upd_view v (describe_dtype E (strided_dtype E dtype num_elems offset stride)) s))"

definition View_apply_typed :: "('d, 'n) env \<Rightarrow> view_id \<Rightarrow> int \<Rightarrow> int \<Rightarrow> int \<Rightarrow> int \<Rightarrow> ('d, 'n) store \<Rightarrow> ('d, 'n) store" where
  "View_apply_typed E v type num_elems offset stride s =
     (if type = no_type_id E \<or> num_elems < 0 then s
      else View_apply E v
             (upd_view v (describe_dtype E (strided_dtype E (default_dtype E type) num_elems offset stride)) s))"

definition View_apply_shape :: "('d, 'n) env \<Rightarrow> view_id \<Rightarrow> int \<Rightarrow> int \<Rightarrow> int list option \<Rightarrow> ('d, 'n) store \<Rightarrow> ('d, 'n) store" where
  "View_apply_shape E v type ndims shape s =
     (if type = no_type_id E \<or> ndims < 1 \<or> shape = None then s
      else View_apply E v (upd_view v (describe_shape E type ndims shape) s))"

section \<open>View: allocation\<close>

definition View_allocate :: "('d, 'n) env \<Rightarrow> view_id \<Rightarrow> ('d, 'n) store \<Rightarrow> ('d, 'n) store" where
  "View_allocate E v s =
     (if isAllocateValid E s (view s v)
      then
        let s = (if v_state (view s v) = EMPTY
                 then let (s, b) = DataStore_createBuffer E s;
                          s = upd_view v (\<lambda>vw. vw\<lparr>v_data_buffer := Some b\<rparr>) s;
                          s = Buffer_attachToView b v s
                      in upd_view v (\<lambda>vw. vw\<lparr>v_state := BUFFER\<rparr>) s
                 else s);
            dtype = v_schema (view s v);
            s = Buffer_allocate_typed E (the (v_data_buffer (view s v)))
                  (dtype_id E dtype) (number_of_elements E dtype) s
        in View_apply E v s
      else s)"

definition View_allocate_typed :: "('d, 'n) env \<Rightarrow> view_id \<Rightarrow> int \<Rightarrow> int \<Rightarrow> ('d, 'n) store \<Rightarrow> ('d, 'n) store" where
  "View_allocate_typed E v type num_elems s =
     (if type = no_type_id E \<or> num_elems < 0 then s
      else View_allocate E v (upd_view v (describe E type num_elems) s))"

text \<open>The element count of a shape, stopping at the first non-positive product.\<close>

primrec shape_elems :: "int \<Rightarrow> int list \<Rightarrow> int" where
  "shape_elems num_elems [] = num_elems"
| "shape_elems num_elems (d # ds) =
     (if num_elems * d \<le> 0 then num_elems * d else shape_elems (num_elems * d) ds)"

definition View_allocate_shape :: "('d, 'n) env \<Rightarrow> view_id \<Rightarrow> int \<Rightarrow> int \<Rightarrow> int list option \<Rightarrow> ('d, 'n) store \<Rightarrow> ('d, 'n) store" where
  "View_allocate_shape E v type ndims shape s =
     (case shape of
        None \<Rightarrow> s
      | Some dims \<Rightarrow>
          if ndims > 0 \<and> shape_elems 1 (take (nat ndims) dims) > 0 \<and> type \<noteq> no_type_id E
          then View_allocate E v (upd_view v (describe_shape E type ndims shape) s)
          else s)"

definition View_allocate_dtype :: "('d, 'n) env \<Rightarrow> view_id \<Rightarrow> 'd \<Rightarrow> ('d, 'n) store \<Rightarrow> ('d, 'n) store" where
  "View_allocate_dtype E v dtype s =
     (if is_empty E dtype then s else View_allocate E v (upd_view v (describe_dtype E dtype) s))"

definition View_reallocate :: "('d, 'n) env \<Rightarrow> view_id \<Rightarrow> int \<Rightarrow> ('d, 'n) store \<Rightarrow> ('d, 'n) store" where
  "View_reallocate E v num_elems s =
     (let vtype = dtype_id E (v_schema (view s v)) in
      if num_elems < 0 then s
      else if isAllocateValid E s (view s v)
      then
        if v_state (view s v) = EMPTY then View_allocate_typed E v vtype num_elems s
        else
          let b = the (v_data_buffer (view s v)) in
          if Buffer_isAllocated (buffer s b)
          then View_apply E v (Buffer_reallocate E b num_elems (upd_view v (describe E vtype num_elems) s))
          else View_allocate_typed E v vtype num_elems s
      else s)"

definition View_reallocate_dtype :: "('d, 'n) env \<Rightarrow> view_id \<Rightarrow> 'd \<Rightarrow> ('d, 'n) store \<Rightarrow> ('d, 'n) store" where
  "View_reallocate_dtype E v dtype s =
     (if \<not> View_isAllocated E s (view s v) then View_allocate_dtype E v dtype s
      else if is_empty E dtype \<or> \<not> isAllocateValid E s (view s v) \<or>
              dtype_id E dtype \<noteq> dtype_id E (v_schema (view s v)) then s
      else View_apply E v
             (Buffer_reallocate E (the (v_data_buffer (view s v))) (number_of_elements E dtype)
               (upd_view v (describe_dtype E dtype) s)))"

definition View_deallocate :: "('d, 'n) env \<Rightarrow> view_id \<Rightarrow> ('d, 'n) store \<Rightarrow> ('d, 'n) store" where
  "View_deallocate E v s =
     (if \<not> isAllocateValid E s (view s v) then s
      else case v_data_buffer (view s v) of None \<Rightarrow> s | Some b \<Rightarrow> Buffer_deallocate b s)"

section \<open>View: attaching buffers and setting data\<close>

definition View_detachBuffer :: "view_id \<Rightarrow> ('d, 'n) store \<Rightarrow> ('d, 'n) store \<times> buffer_id option" where
  "View_detachBuffer v s =
     (if v_state (view s v) = BUFFER
      then (Buffer_detachFromView (the (v_data_buffer (view s v))) v s, v_data_buffer (view s v))
      else (s, None))"

definition View_attachBuffer :: "('d, 'n) env \<Rightarrow> view_id \<Rightarrow> buffer_id option \<Rightarrow> ('d, 'n) store \<Rightarrow> ('d, 'n) store" where
  "View_attachBuffer E v buff s =
     (if v_state (view s v) = BUFFER \<and> buff = None
      then
        let (s, old_buffer) = View_detachBuffer v s;
            s = (if Buffer_getNumViews (buffer s (the old_buffer)) = 0
                 then DataStore_destroyBuffer old_buffer s else s)
        in upd_view v unapply s
      else if v_state (view s v) = EMPTY \<and> buff \<noteq> None
      then
        let s = upd_view v (\<lambda>vw. vw\<lparr>v_data_buffer := buff\<rparr>) s;
            s = Buffer_attachToView (the buff) v s;
            s = upd_view v (\<lambda>vw. vw\<lparr>v_state := BUFFER\<rparr>) s
        in if View_isDescribed E (view s v) \<and> Buffer_isAllocated (buffer s (the buff))
           then View_apply E v s else s
      else s)"

definition View_attachBuffer_typed :: "('d, 'n) env \<Rightarrow> view_id \<Rightarrow> int \<Rightarrow> int \<Rightarrow> buffer_id option \<Rightarrow> ('d, 'n) store \<Rightarrow> ('d, 'n) store" where
  "View_attachBuffer_typed E v type num_elems buff s =
     View_attachBuffer E v buff (upd_view v (describe E type num_elems) s)"

definition View_attachBuffer_shape ::
  "('d, 'n) env \<Rightarrow> view_id \<Rightarrow> int \<Rightarrow> int \<Rightarrow> int list option \<Rightarrow> buffer_id option \<Rightarrow> ('d, 'n) store \<Rightarrow> ('d, 'n) store" where
  "View_attachBuffer_shape E v type ndims shape buff s =
     (if shape = None then s else View_attachBuffer E v buff (upd_view v (describe_shape E type ndims shape) s))"

definition View_setExternalDataPtr :: "('d, 'n) env \<Rightarrow> view_id \<Rightarrow> ptr option \<Rightarrow> ('d, 'n) store \<Rightarrow> ('d, 'n) store" where
  "View_setExternalDataPtr E v external_ptr s =
     (if v_state (view s v) = EMPTY \<or> v_state (view s v) = EXTERNAL
      then
        if external_ptr = None
        then upd_view v (\<lambda>vw. (unapply vw)\<lparr>v_external_ptr := None, v_state := EMPTY\<rparr>) s
        else
          let s = upd_view v (\<lambda>vw. vw\<lparr>v_external_ptr := external_ptr, v_state := EXTERNAL\<rparr>) s
          in if View_isDescribed E (view s v) then View_apply E v s else s
      else s)"

definition View_setExternalDataPtr_typed ::
  "('d, 'n) env \<Rightarrow> view_id \<Rightarrow> int \<Rightarrow> int \<Rightarrow> ptr option \<Rightarrow> ('d, 'n) store \<Rightarrow> ('d, 'n) store" where
  "View_setExternalDataPtr_typed E v type num_elems external_ptr s =
     View_setExternalDataPtr E v external_ptr (upd_view v (describe E type num_elems) s)"

definition View_setExternalDataPtr_shape ::
  "('d, 'n) env \<Rightarrow> view_id \<Rightarrow> int \<Rightarrow> int \<Rightarrow> int list option \<Rightarrow> ptr option \<Rightarrow> ('d, 'n) store \<Rightarrow> ('d, 'n) store" where
  "View_setExternalDataPtr_shape E v type ndims shape external_ptr s =
     (if shape = None then s
      else View_setExternalDataPtr E v external_ptr (upd_view v (describe_shape E type ndims shape) s))"

definition View_setScalar :: "('d, 'n) env \<Rightarrow> view_id \<Rightarrow> 'n \<Rightarrow> ('d, 'n) store \<Rightarrow> ('d, 'n) store" where
  "View_setScalar E v value s =
     (if v_state (view s v) = EMPTY \<or> v_state (view s v) = SCALAR
      then upd_view v (\<lambda>vw. vw\<lparr>v_node := NodeValue value, v_schema := value_dtype E value, v_state := SCALAR,
                               v_is_applied := True, v_shape := [number_of_elements E (value_dtype E value)]\<rparr>) s
      else s)"

definition View_setString :: "('d, 'n) env \<Rightarrow> view_id \<Rightarrow> string \<Rightarrow> ('d, 'n) store \<Rightarrow> ('d, 'n) store" where
  "View_setString E v value s =
     (if v_state (view s v) = EMPTY \<or> v_state (view s v) = STRING
      then upd_view v (\<lambda>vw. vw\<lparr>v_node := NodeString value, v_schema := string_dtype E value, v_state := STRING,
                               v_is_applied := True, v_shape := [number_of_elements E (string_dtype E value)]\<rparr>) s
      else s)"

text \<open>\<^verbatim>\<open>clear()\<close>, without the attribute values.\<close>

definition View_clear :: "('d, 'n) env \<Rightarrow> view_id \<Rightarrow> ('d, 'n) store \<Rightarrow> ('d, 'n) store" where
  "View_clear E v s =
     (let s = (case v_state (view s v) of
                 EMPTY \<Rightarrow> upd_view v (undescribe E) s
               | BUFFER \<Rightarrow> upd_view v (undescribe E) (View_attachBuffer E v None s)
               | EXTERNAL \<Rightarrow> upd_view v (undescribe E) (View_setExternalDataPtr E v None s)
               | STRING \<Rightarrow> upd_view v (\<lambda>vw. undescribe E (unapply vw)) s
               | SCALAR \<Rightarrow> upd_view v (\<lambda>vw. undescribe E (unapply vw)) s)
      in upd_view v (\<lambda>vw. vw\<lparr>v_state := EMPTY\<rparr>) s)"

definition View_copyView :: "('d, 'n) env \<Rightarrow> view_id \<Rightarrow> view_id \<Rightarrow> ('d, 'n) store \<Rightarrow> ('d, 'n) store" where
  "View_copyView E v copy s =
     (let vw = view s v;
          s = (if View_isDescribed E vw then upd_view copy (describe_dtype E (v_schema vw)) s else s)
      in case v_state vw of
           EMPTY \<Rightarrow> s
         | STRING \<Rightarrow> upd_view copy (\<lambda>c. c\<lparr>v_node := v_node vw, v_state := v_state vw, v_is_applied := True\<rparr>) s
         | SCALAR \<Rightarrow> upd_view copy (\<lambda>c. c\<lparr>v_node := v_node vw, v_state := v_state vw, v_is_applied := True\<rparr>) s
         | EXTERNAL \<Rightarrow> View_setExternalDataPtr E copy (v_external_ptr vw) s
         | BUFFER \<Rightarrow> View_attachBuffer E copy (v_data_buffer vw) s)"

text \<open>\<^verbatim>\<open>importArrayNode\<close> for an array of data type \<open>array_dtype\<close>, without the copying of its elements.\<close>

definition View_importArrayNode :: "('d, 'n) env \<Rightarrow> view_id \<Rightarrow> bool \<Rightarrow> 'd \<Rightarrow> ('d, 'n) store \<Rightarrow> ('d, 'n) store" where
  "View_importArrayNode E v is_number array_dtype s =
     (if is_number
      then
        let s = (if v_state (view s v) = BUFFER then upd_view v setBufferViewToEmpty s else s)
        in if v_state (view s v) = EMPTY
           then
             let (s, b) = DataStore_createBuffer E s;
                 s = Buffer_allocate_typed E b (dtype_id E array_dtype) (number_of_elements E array_dtype) s;
                 s = View_attachBuffer E v (Some b) s
             in View_apply_typed E v (dtype_id E array_dtype) (number_of_elements E array_dtype) 0 1 s
           else s
      else s)"

definition View_new :: "('d, 'n) env \<Rightarrow> ('d, 'n) View" where
  "View_new E =
     \<lparr>v_data_buffer = None, v_schema = empty_dtype E, v_node = NodeReset, v_shape = [],
      v_external_ptr = None, v_state = EMPTY, v_is_applied = False\<rparr>"

definition View_create :: "('d, 'n) env \<Rightarrow> view_id \<Rightarrow> ('d, 'n) store \<Rightarrow> ('d, 'n) store" where
  "View_create E v s = s\<lparr>views := (views s)(v \<mapsto> View_new E)\<rparr>"

definition View_destroy :: "view_id \<Rightarrow> ('d, 'n) store \<Rightarrow> ('d, 'n) store" where
  "View_destroy v s =
     (let s = (case v_data_buffer (view s v) of None \<Rightarrow> s | Some b \<Rightarrow> Buffer_detachFromView b v s)
      in s\<lparr>views := (views s)(v := None)\<rparr>)"

definition DataStore_new :: "('d, 'n) store" where
  "DataStore_new =
     \<lparr>buffer_coll = IndexedCollection_new, buffers = Map.empty, next_buffer = 0, views = Map.empty,
      live_blocks = [], next_ptr = 0\<rparr>"

end
