(* ===== verification/SidreInvariant.thy ===== *)
theory SidreInvariant
  imports SidreStore
begin

text \<open>
  The invariant of the data store and that every operation keeps it: the pointers between
  views and buffers agree in both directions, a view's state agrees with what it holds, an
  applied view looks at the current data of its buffer and describes no more bytes than the buffer has (the
  offset of the view is not counted, as in \<^verbatim>\<open>isApplyValid\<close>), the table of buffers lists exactly the live ones, and the blocks of memory in use are exactly the
  buffers' data, each owned once.
\<close>

section \<open>The invariant\<close>

text \<open>
  An applied buffer view shows either nothing (it was applied to a buffer without data) or
  the buffer's current data, and then has no more bytes than the buffer. The bytes of a view are those from its first to its
  last element; where the first one lies, the offset, is not part of the comparison.
\<close>

definition shows_buffer :: "('d, 'n) env \<Rightarrow> 'd Buffer \<Rightarrow> ('d, 'n) View \<Rightarrow> bool" where
  "shows_buffer E bf vw \<longleftrightarrow>
     View_isDescribed E vw \<and>
     (v_node vw = NodeExternal (v_schema vw) None \<or>
      v_node vw = NodeExternal (v_schema vw) (b_data bf) \<and>
      0 \<le> View_getTotalBytes E vw \<and> View_getTotalBytes E vw \<le> Buffer_getTotalBytes E bf)"

definition view_ok :: "('d, 'n) env \<Rightarrow> (buffer_id \<Rightarrow> 'd Buffer option) \<Rightarrow> ('d, 'n) View \<Rightarrow> bool" where
  "view_ok E bufs vw \<longleftrightarrow>
     (v_state vw = BUFFER \<longleftrightarrow> v_data_buffer vw \<noteq> None) \<and>
     (v_state vw = EXTERNAL \<longleftrightarrow> v_external_ptr vw \<noteq> None) \<and>
     (v_state vw = EMPTY \<longrightarrow> \<not> v_is_applied vw) \<and>
     (v_state vw = EXTERNAL \<longrightarrow> v_is_applied vw \<longrightarrow>
        View_isDescribed E vw \<and> v_node vw = NodeExternal (v_schema vw) (v_external_ptr vw)) \<and>
     (\<forall>b. v_data_buffer vw = Some b \<longrightarrow> v_is_applied vw \<longrightarrow> shows_buffer E (the (bufs b)) vw)"

definition views_ok :: "('d, 'n) env \<Rightarrow> ('d, 'n) store \<Rightarrow> bool" where
  "views_ok E s \<longleftrightarrow> (\<forall>v vw. views s v = Some vw \<longrightarrow> view_ok E (buffers s) vw)"

definition links_ok :: "('d, 'n) store \<Rightarrow> bool" where
  "links_ok s \<longleftrightarrow>
     (\<forall>b v. (\<exists>bf. buffers s b = Some bf \<and> v \<in> set (b_views bf)) \<longleftrightarrow>
            (\<exists>vw. views s v = Some vw \<and> v_data_buffer vw = Some b)) \<and>
     (\<forall>b bf. buffers s b = Some bf \<longrightarrow> distinct (b_views bf))"

definition table_ok :: "('d, 'n) store \<Rightarrow> bool" where
  "table_ok s \<longleftrightarrow>
     ic_inv (buffer_coll s) \<and>
     (\<forall>i b. IndexedCollection_getItem (buffer_coll s) i = Some b \<longleftrightarrow>
            (\<exists>bf. buffers s b = Some bf \<and> b_index bf = i)) \<and>
     (\<forall>b\<ge>next_buffer s. buffers s b = None)"

definition block_of :: "('d, 'n) store \<Rightarrow> buffer_id \<Rightarrow> ptr option" where
  "block_of s b = Option.bind (buffers s b) b_data"

definition owns :: "(buffer_id \<Rightarrow> ptr option) \<Rightarrow> ptr list \<Rightarrow> ptr \<Rightarrow> bool" where
  "owns f blocks n \<longleftrightarrow> set blocks = ran f \<and> inj_on f (dom f) \<and> (\<forall>p\<in>set blocks. p < n)"

definition memory_ok :: "('d, 'n) store \<Rightarrow> bool" where
  "memory_ok s \<longleftrightarrow> owns (block_of s) (live_blocks s) (next_ptr s)"

text \<open>Buffers are described by a type and a number of elements only: strides and offsets belong to views.\<close>

definition sized_dtype :: "('d, 'n) env \<Rightarrow> 'd \<Rightarrow> bool" where
  "sized_dtype E d \<longleftrightarrow> d = empty_dtype E \<or> (\<exists>type n. d = set_number_of_elements E (default_dtype E type) n)"

definition dtypes_ok :: "('d, 'n) env \<Rightarrow> ('d, 'n) store \<Rightarrow> bool" where
  "dtypes_ok E s \<longleftrightarrow> (\<forall>b bf. buffers s b = Some bf \<longrightarrow> sized_dtype E (b_dtype bf))"

definition store_inv :: "('d, 'n) env \<Rightarrow> ('d, 'n) store \<Rightarrow> bool" where
  "store_inv E s \<longleftrightarrow> views_ok E s \<and> links_ok s \<and> table_ok s \<and> memory_ok s \<and> dtypes_ok E s"

text \<open>
  What the operations need of Conduit. \<^verbatim>\<open>set_number_of_elements\<close> changes the number only; the default type of
  a type id has neither offset nor padding, so \<open>n\<close> elements of it take \<open>n\<close> times the size of one. The type ids
  are those of Sidre's \<^verbatim>\<open>TypeID\<close>, numbers and characters, which have a positive size. Nothing is assumed of types with
  another stride or offset.
\<close>

definition env_laws :: "('d, 'n) env \<Rightarrow> bool" where
  "env_laws E \<longleftrightarrow>
     is_empty E (empty_dtype E) \<and>
     (\<forall>d. total_strided_bytes E d = strided_bytes E d) \<and>
     (\<forall>d n. is_empty E (set_number_of_elements E d n) = is_empty E d) \<and>
     (\<forall>d m n. set_number_of_elements E (set_number_of_elements E d m) n = set_number_of_elements E d n) \<and>
     (\<forall>type. \<not> is_empty E (default_dtype E type) \<longrightarrow> 0 < element_bytes E (default_dtype E type) \<and>
        (\<forall>n\<ge>0. strided_bytes E (set_number_of_elements E (default_dtype E type) n) = n * element_bytes E (default_dtype E type)))"

lemmas store_defs = views_ok_def links_ok_def table_ok_def memory_ok_def dtypes_ok_def

lemma dtypes_okI:
  assumes "store_inv E s"
    and "\<And>b bf. buffers t b = Some bf \<Longrightarrow> sized_dtype E (b_dtype bf) \<or> (\<exists>bf'. buffers s b = Some bf' \<and> b_dtype bf' = b_dtype bf)"
  shows "dtypes_ok E t"
  using assms unfolding store_inv_def dtypes_ok_def by metis

lemma dtypes_ok_cong: "buffers s = buffers t \<Longrightarrow> dtypes_ok E s = dtypes_ok E t"
  by (simp add: dtypes_ok_def)

section \<open>Changing one view\<close>

lemma store_inv_new: "store_inv E DataStore_new"
  by (simp add: store_inv_def store_defs DataStore_new_def IndexedCollection_new_def ic_inv_def
      free_slots_def IndexedCollection_getItem_def owns_def block_of_def [abs_def] inj_on_def)

lemma upd_view_simps [simp]:
  "buffers (upd_view v f s) = buffers s" "buffer_coll (upd_view v f s) = buffer_coll s"
  "next_buffer (upd_view v f s) = next_buffer s" "live_blocks (upd_view v f s) = live_blocks s"
  "next_ptr (upd_view v f s) = next_ptr s"
  "views (upd_view v f s) = (views s)(v \<mapsto> f (view s v))"
  by (simp_all add: upd_view_def)

lemma upd_buffer_simps [simp]:
  "views (upd_buffer b g s) = views s" "buffer_coll (upd_buffer b g s) = buffer_coll s"
  "next_buffer (upd_buffer b g s) = next_buffer s" "live_blocks (upd_buffer b g s) = live_blocks s"
  "next_ptr (upd_buffer b g s) = next_ptr s"
  "buffers (upd_buffer b g s) = (buffers s)(b \<mapsto> g (buffer s b))"
  by (simp_all add: upd_buffer_def)

lemma block_of_cong: "buffers s = buffers t \<Longrightarrow> block_of s = block_of t"
  by (auto simp: block_of_def fun_eq_iff)

lemma ok_cong:
  assumes "views s = views t" and "buffers s = buffers t"
  shows "views_ok E s = views_ok E t" and "links_ok s = links_ok t"
    and "buffer_coll s = buffer_coll t \<Longrightarrow> next_buffer s = next_buffer t \<Longrightarrow> table_ok s = table_ok t"
  using assms by (simp_all add: views_ok_def links_ok_def table_ok_def)

lemma table_ok_cong:
  "buffers s = buffers t \<Longrightarrow> buffer_coll s = buffer_coll t \<Longrightarrow> next_buffer s = next_buffer t \<Longrightarrow>
     table_ok s = table_ok t"
  by (simp add: table_ok_def)

lemma store_inv_upd_view [keeps_inv]:
  assumes "store_inv E s" and "views s v = Some vw" and "v_data_buffer (f vw) = v_data_buffer vw"
    and "view_ok E (buffers s) (f vw)"
  shows "store_inv E (upd_view v f s)"
proof -
  have "links_ok (upd_view v f s)"
    using assms(1,2,3) unfolding store_inv_def links_ok_def by auto
  with assms show ?thesis
    unfolding store_inv_def views_ok_def table_ok_def memory_ok_def dtypes_ok_def
    by (auto simp: block_of_cong [of "upd_view v f s" s])
qed

lemma store_inv_view_ok: "store_inv E s \<Longrightarrow> views s v = Some vw \<Longrightarrow> view_ok E (buffers s) vw"
  by (simp add: store_inv_def views_ok_def)

lemma store_inv_buffer_live:
  "store_inv E s \<Longrightarrow> views s v = Some vw \<Longrightarrow> v_data_buffer vw = Some b \<Longrightarrow>
     \<exists>bf. buffers s b = Some bf \<and> v \<in> set (b_views bf)"
  unfolding store_inv_def links_ok_def by blast

lemma describe_dtype_simps [simp]:
  "v_data_buffer (describe_dtype E d vw) = v_data_buffer vw" "v_state (describe_dtype E d vw) = v_state vw"
  "v_external_ptr (describe_dtype E d vw) = v_external_ptr vw" "\<not> v_is_applied (describe_dtype E d vw)"
  "v_schema (describe_dtype E d vw) = d"
  by (simp_all add: describe_dtype_def)

text \<open>Descriptions never touch the pointers of a view and leave it unapplied.\<close>

definition only_describes :: "(('d, 'n) View \<Rightarrow> ('d, 'n) View) \<Rightarrow> bool" where
  "only_describes f \<longleftrightarrow>
     (\<forall>vw. v_data_buffer (f vw) = v_data_buffer vw \<and> v_state (f vw) = v_state vw \<and>
           v_external_ptr (f vw) = v_external_ptr vw \<and> (\<not> v_is_applied (f vw) \<or> f vw = vw))"

lemma only_describes_intros [simp, intro]:
  "only_describes (describe_dtype E d)" "only_describes (describe E type n)"
  "only_describes (describe_shape E type ndims shape)"
  by (auto simp: only_describes_def describe_def describe_shape_def Let_def split: option.splits)

lemma only_describesD:
  assumes "only_describes f"
  shows "v_data_buffer (f vw) = v_data_buffer vw" and "v_state (f vw) = v_state vw"
    and "v_external_ptr (f vw) = v_external_ptr vw"
  using assms by (auto simp: only_describes_def)

lemma store_inv_describe [keeps_inv]:
  assumes "store_inv E s" and "views s v = Some vw" and "only_describes f"
  shows "store_inv E (upd_view v f s)"
proof (rule store_inv_upd_view [OF assms(1,2)])
  note ok = store_inv_view_ok [OF assms(1,2)]
  show "v_data_buffer (f vw) = v_data_buffer vw" using assms(3) by (rule only_describesD)
  show "view_ok E (buffers s) (f vw)"
    using ok assms(3) unfolding only_describes_def view_ok_def by metis
qed

lemma store_inv_apply [keeps_inv]:
  assumes "store_inv E s" and "views s v = Some vw"
  shows "store_inv E (View_apply E v s)"
proof (cases "isApplyValid E s vw")
  case False
  with assms show ?thesis by (simp add: View_apply_def)
next
  case True
  note ok = store_inv_view_ok [OF assms]
  let ?p = "case v_data_buffer vw of Some b \<Rightarrow> b_data (buffer s b) | None \<Rightarrow> v_external_ptr vw"
  let ?f = "\<lambda>vw :: ('a, 'b) View. vw\<lparr>v_node := NodeExternal (v_schema vw) ?p, v_is_applied := True\<rparr>"
  have "view_ok E (buffers s) (?f vw)"
    using ok True
    by (auto simp: view_ok_def isApplyValid_def shows_buffer_def View_isDescribed_def View_getTotalBytes_def
        split: if_splits State.splits)
  then have "store_inv E (upd_view v ?f s)"
    by (intro store_inv_upd_view [OF assms]) simp_all
  with True assms(2) show ?thesis by (simp add: View_apply_def Let_def cong: option.case_cong)
qed

lemma View_apply_views:
  assumes "views s v = Some vw"
  shows "\<exists>vw'. views (View_apply E v s) v = Some vw' \<and> v_data_buffer vw' = v_data_buffer vw \<and>
           v_schema vw' = v_schema vw \<and> v_state vw' = v_state vw \<and> v_external_ptr vw' = v_external_ptr vw"
    and "buffers (View_apply E v s) = buffers s"
  using assms by (auto simp: View_apply_def Let_def)

lemma store_inv_describe_apply [keeps_inv]:
  assumes "store_inv E s" and "views s v = Some vw" and "only_describes f"
  shows "store_inv E (View_apply E v (upd_view v f s))"
  using assms by (intro store_inv_apply [where vw = "f vw"] store_inv_describe) simp_all

section \<open>Changing one buffer\<close>

text \<open>
  A change of one buffer's data or description that keeps its links is safe when no view is
  applied to it, or when its views still show it.
\<close>

lemma views_ok_upd_buffer:
  assumes "store_inv E s" and "buffers s b = Some bf"
    and "\<And>v vw. views s v = Some vw \<Longrightarrow> v_data_buffer vw = Some b \<Longrightarrow> v_is_applied vw \<Longrightarrow> shows_buffer E (g bf) vw"
  shows "views_ok E (upd_buffer b g s)"
  using assms unfolding store_inv_def views_ok_def view_ok_def by (auto split: if_splits)

lemma links_ok_upd_buffer:
  assumes "store_inv E s" and "buffers s b = Some bf" and "b_views (g bf) = b_views bf"
  shows "links_ok (upd_buffer b g s)"
proof -
  have "(\<exists>bf'. buffers (upd_buffer b g s) b' = Some bf' \<and> v \<in> set (b_views bf')) \<longleftrightarrow>
        (\<exists>bf'. buffers s b' = Some bf' \<and> v \<in> set (b_views bf'))" for b' v
    using assms(2,3) by auto
  with assms show ?thesis unfolding store_inv_def links_ok_def by simp
qed

lemma table_ok_upd_buffer:
  assumes "store_inv E s" and "buffers s b = Some bf" and "b_index (g bf) = b_index bf"
  shows "table_ok (upd_buffer b g s)"
proof -
  have "b < next_buffer s" using assms(1,2) unfolding store_inv_def table_ok_def by (metis not_le option.distinct(1))
  moreover have "(\<exists>bf'. buffers (upd_buffer b g s) b' = Some bf' \<and> b_index bf' = i) \<longleftrightarrow>
        (\<exists>bf'. buffers s b' = Some bf' \<and> b_index bf' = i)" for b' i
    using assms(2,3) by auto
  ultimately show ?thesis using assms(1) unfolding store_inv_def table_ok_def by simp
qed

lemma dtypes_ok_upd_buffer:
  assumes "store_inv E s" and "buffers s b = Some bf" and "b_dtype (g bf) = b_dtype bf \<or> sized_dtype E (b_dtype (g bf))"
  shows "dtypes_ok E (upd_buffer b g s)"
  by (rule dtypes_okI [OF assms(1)]) (use assms(2,3) in \<open>auto split: if_splits\<close>)

lemma block_of_upd_buffer [simp]: "block_of (upd_buffer b g s) = (block_of s)(b := b_data (g (buffer s b)))"
  by (auto simp: block_of_def)

lemma memory_ok_same_data:
  assumes "memory_ok s" and "buffers s b = Some bf" and "b_data (g bf) = b_data bf"
  shows "memory_ok (upd_buffer b g s)"
proof -
  have "(block_of s)(b := b_data (g (buffer s b))) = block_of s" using assms(2,3) by (auto simp: block_of_def)
  with assms(1) show ?thesis by (simp add: memory_ok_def)
qed

lemma shows_buffer_cong:
  "b_data bf = b_data bf' \<Longrightarrow> b_dtype bf = b_dtype bf' \<Longrightarrow> shows_buffer E bf vw = shows_buffer E bf' vw"
  by (simp add: shows_buffer_def Buffer_getTotalBytes_def)

lemma store_inv_shows:
  "store_inv E s \<Longrightarrow> views s v = Some vw \<Longrightarrow> v_data_buffer vw = Some b \<Longrightarrow> v_is_applied vw \<Longrightarrow>
     shows_buffer E (buffer s b) vw"
  using store_inv_view_ok [of E s v vw] by (simp add: view_ok_def)

text \<open>No data is shown through the buffer's views.\<close>

definition unapplied :: "('d, 'n) store \<Rightarrow> buffer_id \<Rightarrow> bool" where
  "unapplied s b \<longleftrightarrow> (\<forall>v vw. views s v = Some vw \<longrightarrow> v_data_buffer vw = Some b \<longrightarrow> v_is_applied vw \<longrightarrow>
     v_node vw = NodeExternal (v_schema vw) None)"

lemma unapplied_shows:
  assumes "store_inv E s" and "unapplied s b" and "views s v = Some vw" and "v_data_buffer vw = Some b" and "v_is_applied vw"
  shows "shows_buffer E bf' vw"
  using store_inv_shows [OF assms(1,3,4,5)] assms by (auto simp: unapplied_def shows_buffer_def)

lemma unallocated_unapplied:
  assumes "store_inv E s" and "buffers s b = Some bf" and "\<not> Buffer_isAllocated bf"
  shows "unapplied s b"
  using assms store_inv_shows [OF assms(1)] unfolding unapplied_def shows_buffer_def Buffer_isAllocated_def
  by fastforce

lemma store_inv_upd_dtype:
  assumes "store_inv E s" and "buffers s b = Some bf" and "unapplied s b" and "sized_dtype E d"
  shows "store_inv E (upd_buffer b (\<lambda>bf. bf\<lparr>b_dtype := d\<rparr>) s)"
  using assms dtypes_ok_upd_buffer [OF assms(1,2), of "\<lambda>bf. bf\<lparr>b_dtype := d\<rparr>"] views_ok_upd_buffer [OF assms(1,2) unapplied_shows [OF assms(1,3)]] links_ok_upd_buffer [OF assms(1,2)]
    table_ok_upd_buffer [OF assms(1,2)] memory_ok_same_data [of s b bf]
  unfolding store_inv_def by simp

lemma store_inv_Buffer_describe [keeps_inv]:
  assumes "store_inv E s" and "buffers s b = Some bf"
  shows "store_inv E (Buffer_describe E b type n s)"
  using assms store_inv_upd_dtype [OF assms unallocated_unapplied [OF assms]] by (auto simp: Buffer_describe_def sized_dtype_def)

text \<open>Ownership of blocks: dropping a buffer's block, and giving a buffer a fresh one.\<close>

lemma owns_release:
  assumes "owns f blocks n"
  shows "owns (f(b := None)) (filter (\<lambda>p. f b \<noteq> Some p) blocks) n"
proof -
  have inj: "inj_on f (dom f)" and ran: "set blocks = ran f" using assms by (auto simp: owns_def)
  have "ran (f(b := None)) = {p \<in> ran f. f b \<noteq> Some p}"
    using inj unfolding inj_on_def ran_def dom_def by (auto split: if_splits)
  moreover have "inj_on (f(b := None)) (dom (f(b := None)))"
    using inj by (auto simp: inj_on_def)
  ultimately show ?thesis using assms ran by (auto simp: owns_def)
qed

lemma owns_fresh:
  assumes "owns f blocks n" and "f b = None"
  shows "owns (f(b \<mapsto> n)) (n # blocks) (Suc n)"
proof -
  have "n \<notin> ran f" using assms(1) by (auto simp: owns_def)
  then have "inj_on (f(b \<mapsto> n)) (dom (f(b \<mapsto> n)))"
    using assms by (auto simp: owns_def inj_on_def ran_def)
  moreover have "ran (f(b \<mapsto> n)) = insert n (ran f)" using assms(2) by simp
  ultimately show ?thesis using assms(1) by (auto simp: owns_def less_Suc_eq)
qed

lemma releaseBytes_simps [simp]:
  "buffers (releaseBytes p s) = buffers s" "views (releaseBytes p s) = views s"
  "buffer_coll (releaseBytes p s) = buffer_coll s" "next_buffer (releaseBytes p s) = next_buffer s"
  "next_ptr (releaseBytes p s) = next_ptr s"
  "live_blocks (releaseBytes p s) = filter (\<lambda>a. p \<noteq> Some a) (live_blocks s)"
  by (auto simp: releaseBytes_def removeAll_filter_not_eq split: option.splits)

lemma allocateBytes_simps [simp]:
  "buffers (fst (allocateBytes E n s)) = buffers s" "views (fst (allocateBytes E n s)) = views s"
  "buffer_coll (fst (allocateBytes E n s)) = buffer_coll s"
  "next_buffer (fst (allocateBytes E n s)) = next_buffer s"
  by (auto simp: allocateBytes_def)

lemma store_inv_Buffer_allocate [keeps_inv]:
  assumes inv: "store_inv E s" and b: "buffers s b = Some bf"
  shows "store_inv E (Buffer_allocate E b s)"
proof (cases "\<not> Buffer_isDescribed E bf \<or> Buffer_isAllocated bf \<or> \<not> mem_ok E (Buffer_getTotalBytes E bf)")
  case True
  with inv b show ?thesis by (auto simp: Buffer_allocate_def allocateBytes_def)
next
  case False
  let ?s = "s\<lparr>live_blocks := next_ptr s # live_blocks s, next_ptr := Suc (next_ptr s)\<rparr>"
  let ?g = "\<lambda>bf :: 'a Buffer. bf\<lparr>b_data := Some (next_ptr s)\<rparr>"
  have eq: "Buffer_allocate E b s = upd_buffer b ?g ?s"
    using False b by (simp add: Buffer_allocate_def allocateBytes_def)
  have none: "b_data bf = None" using False by (simp add: Buffer_isAllocated_def)
  have un: "unapplied s b" using False by (intro unallocated_unapplied [OF inv b]) simp
  have "memory_ok (upd_buffer b ?g ?s)"
  proof -
    have "block_of s b = None" using b none by (simp add: block_of_def)
    then have "owns ((block_of s)(b \<mapsto> next_ptr s)) (next_ptr s # live_blocks s) (Suc (next_ptr s))"
      using inv by (intro owns_fresh) (auto simp: store_inv_def memory_ok_def)
    then show ?thesis by (simp add: memory_ok_def block_of_cong [of ?s s])
  qed
  moreover have "views_ok E (upd_buffer b ?g s)" "links_ok (upd_buffer b ?g s)" "table_ok (upd_buffer b ?g s)" "dtypes_ok E (upd_buffer b ?g s)"
    using views_ok_upd_buffer [OF inv b unapplied_shows [OF inv un]] links_ok_upd_buffer [OF inv b]
      table_ok_upd_buffer [OF inv b] dtypes_ok_upd_buffer [OF inv b, of ?g] by simp_all
  ultimately show ?thesis
    unfolding eq store_inv_def using ok_cong [of "upd_buffer b ?g ?s" "upd_buffer b ?g s"]
      dtypes_ok_cong [of "upd_buffer b ?g ?s" "upd_buffer b ?g s"] by simp
qed

text \<open>The data of a described buffer has zero bytes exactly when it has no elements.\<close>

lemma env_lawsD:
  assumes "env_laws E"
  shows "is_empty E (empty_dtype E)" and "total_strided_bytes E d = strided_bytes E d"
    and "is_empty E (set_number_of_elements E d n) = is_empty E d"
    and "set_number_of_elements E (set_number_of_elements E d m) n = set_number_of_elements E d n"
  using assms by (simp_all add: env_laws_def)

lemma sized_dtype_resize:
  assumes "env_laws E" and "sized_dtype E d" and "\<not> is_empty E d" and "0 \<le> n"
  shows "strided_bytes E (set_number_of_elements E d n) = 0 \<longleftrightarrow> n = 0" and "sized_dtype E (set_number_of_elements E d n)"
proof -
  obtain type m where d: "d = set_number_of_elements E (default_dtype E type) m"
    using assms(1-3) env_lawsD(1) by (auto simp: sized_dtype_def)
  have "\<not> is_empty E (default_dtype E type)" using assms(1,3) by (simp add: d env_lawsD(3))
  then have "strided_bytes E (set_number_of_elements E (default_dtype E type) n) = n * element_bytes E (default_dtype E type)"
    "0 < element_bytes E (default_dtype E type)" using assms(1,4) by (auto simp: env_laws_def)
  then show "strided_bytes E (set_number_of_elements E d n) = 0 \<longleftrightarrow> n = 0" using assms(1) by (simp add: d env_lawsD(4))
  show "sized_dtype E (set_number_of_elements E d n)" using assms(1) by (auto simp: d env_lawsD(4) sized_dtype_def)
qed

lemma store_inv_dtype: "store_inv E s \<Longrightarrow> buffers s b = Some bf \<Longrightarrow> sized_dtype E (b_dtype bf)"
  by (simp add: store_inv_def dtypes_ok_def)

lemma Buffer_reallocate_eq:
  assumes "env_laws E" and "buffers s b = Some bf" and "sized_dtype E (b_dtype bf)"
  defines "d \<equiv> \<lambda>n. set_number_of_elements E (b_dtype bf) n"
  shows "Buffer_reallocate E b n s =
     (if is_empty E (b_dtype bf) \<or> n < 0 \<or> \<not> (mem_ok E (strided_bytes E (d n)) \<or> n = 0) then s
      else upd_buffer b (\<lambda>bf. bf\<lparr>b_dtype := d n, b_data := snd (allocateBytes E (strided_bytes E (d n)) s)\<rparr>)
             (fst (allocateBytes E (strided_bytes E (d n)) (releaseBytes (b_data bf) s))))"
proof (cases "is_empty E (b_dtype bf) \<or> n < 0")
  case True
  with assms(2) show ?thesis by (auto simp: Buffer_reallocate_def Buffer_isDescribed_def)
next
  case False
  have zero: "strided_bytes E (d n) = 0 \<longleftrightarrow> n = 0"
    using False sized_dtype_resize(1) [OF assms(1,3)] by (simp add: d_def)
  show ?thesis
  proof (cases "mem_ok E (strided_bytes E (d n)) \<or> n = 0")
    case True
    then have "reallocateBytes E (b_data bf) (strided_bytes E (d n)) s =
        allocateBytes E (strided_bytes E (d n)) (releaseBytes (b_data bf) s)"
      using zero by (simp add: reallocateBytes_def)
    moreover have "snd (allocateBytes E m (releaseBytes p s)) = snd (allocateBytes E m s)" for m p
      by (simp add: allocateBytes_def)
    moreover have "snd (allocateBytes E (strided_bytes E (d n)) s) \<noteq> None \<or> n = 0"
      using True by (auto simp: allocateBytes_def)
    ultimately show ?thesis
      using False True assms(2) unfolding d_def
      by (simp add: Buffer_reallocate_def Buffer_isDescribed_def Let_def split_beta) auto
  next
    case f: False
    then have "reallocateBytes E (b_data bf) (strided_bytes E (d n)) s = (s, None)"
      using zero by (simp add: reallocateBytes_def)
    with False f assms(2) show ?thesis
      unfolding d_def by (simp add: Buffer_reallocate_def Buffer_isDescribed_def Let_def)
  qed
qed

lemma store_inv_Buffer_reallocate [keeps_inv]:
  assumes inv: "store_inv E s" and b: "buffers s b = Some bf" and un: "unapplied s b" and E: "env_laws E"
  shows "store_inv E (Buffer_reallocate E b n s)"
proof (cases "Buffer_reallocate E b n s = s")
  case True
  with inv show ?thesis by simp
next
  case False
  note dt = store_inv_dtype [OF inv b]
  let ?d = "set_number_of_elements E (b_dtype bf) n"
  let ?m = "strided_bytes E ?d"
  let ?g = "\<lambda>bf :: 'a Buffer. bf\<lparr>b_dtype := ?d, b_data := snd (allocateBytes E ?m s)\<rparr>"
  let ?r = "fst (allocateBytes E ?m (releaseBytes (b_data bf) s))"
  have eq: "Buffer_reallocate E b n s = upd_buffer b ?g ?r"
    using False Buffer_reallocate_eq [OF E b dt, of n] by (auto split: if_splits)
  have "\<not> is_empty E (b_dtype bf)" "0 \<le> n" using False Buffer_reallocate_eq [OF E b dt, of n] by (auto split: if_splits)
  note sized = sized_dtype_resize(2) [OF E dt this]
  have own: "owns (block_of s) (live_blocks s) (next_ptr s)" using inv by (simp add: store_inv_def memory_ok_def)
  have old: "block_of s b = b_data bf" using b by (simp add: block_of_def)
  have rel: "owns ((block_of s)(b := None)) (filter (\<lambda>p. b_data bf \<noteq> Some p) (live_blocks s)) (next_ptr s)"
    using owns_release [OF own, of b] unfolding old .
  have blk: "block_of ?r = block_of s" by (rule block_of_cong) simp
  have "memory_ok (upd_buffer b ?g ?r)"
    using rel owns_fresh [OF rel, of b] unfolding memory_ok_def block_of_upd_buffer blk
    by (cases "mem_ok E ?m") (simp_all add: allocateBytes_def)
  moreover have "views_ok E (upd_buffer b ?g s)" "links_ok (upd_buffer b ?g s)" "table_ok (upd_buffer b ?g s)" "dtypes_ok E (upd_buffer b ?g s)"
    using views_ok_upd_buffer [OF inv b unapplied_shows [OF inv un]] links_ok_upd_buffer [OF inv b]
      table_ok_upd_buffer [OF inv b] dtypes_ok_upd_buffer [OF inv b, of ?g] sized by simp_all
  ultimately show ?thesis
    unfolding eq store_inv_def using ok_cong [of "upd_buffer b ?g ?r" "upd_buffer b ?g s"]
      dtypes_ok_cong [of "upd_buffer b ?g ?r" "upd_buffer b ?g s"] by simp
qed

section \<open>Changing all views of a buffer\<close>

lemma fold_upd_view:
  "buffers (fold (\<lambda>v s. upd_view v f s) vs s) = buffers s"
  "buffer_coll (fold (\<lambda>v s. upd_view v f s) vs s) = buffer_coll s"
  "next_buffer (fold (\<lambda>v s. upd_view v f s) vs s) = next_buffer s"
  "live_blocks (fold (\<lambda>v s. upd_view v f s) vs s) = live_blocks s"
  "next_ptr (fold (\<lambda>v s. upd_view v f s) vs s) = next_ptr s"
  by (induction vs arbitrary: s) simp_all

lemma fold_upd_view_views:
  assumes "distinct vs"
  shows "views (fold (\<lambda>v s. upd_view v f s) vs s) =
           (\<lambda>v. if v \<in> set vs then Some (f (view s v)) else views s v)"
  using assms by (induction vs arbitrary: s) (auto simp: fun_eq_iff)

lemma links_ok_views_of:
  assumes "links_ok s" and "buffers s b = Some bf"
  shows "v \<in> set (b_views bf) \<longleftrightarrow> (\<exists>vw. views s v = Some vw \<and> v_data_buffer vw = Some b)"
  using assms unfolding links_ok_def by force

lemma links_ok_same_links:
  assumes "links_ok t" and "buffers s = buffers t"
    and "\<And>v b. (\<exists>vw. views s v = Some vw \<and> v_data_buffer vw = Some b) \<longleftrightarrow>
                (\<exists>vw. views t v = Some vw \<and> v_data_buffer vw = Some b)"
  shows "links_ok s"
  using assms unfolding links_ok_def by simp

lemma links_ok_distinct: "links_ok s \<Longrightarrow> buffers s b = Some bf \<Longrightarrow> distinct (b_views bf)"
  by (auto simp: links_ok_def)

lemma view_ok_unapply:
  assumes "view_ok E bufs vw"
  shows "view_ok E bufs' (unapply vw)"
  using assms by (simp add: view_ok_def unapply_def)

lemma view_ok_empty:
  assumes "view_ok E bufs vw" and "v_data_buffer vw \<noteq> None"
  shows "view_ok E bufs' (setBufferViewToEmpty vw)"
  using assms by (auto simp: view_ok_def setBufferViewToEmpty_def unapply_def)

lemma view_ok_other_buffer:
  assumes "view_ok E bufs vw" and "\<And>b. v_data_buffer vw = Some b \<Longrightarrow> bufs' b = bufs b"
  shows "view_ok E bufs' vw"
  using assms by (simp add: view_ok_def)

lemma store_inv_Buffer_deallocate [keeps_inv]:
  assumes inv: "store_inv E s" and b: "buffers s b = Some bf"
  shows "store_inv E (Buffer_deallocate b s)"
proof (cases "Buffer_isAllocated bf")
  case False
  with inv b show ?thesis by (simp add: Buffer_deallocate_def)
next
  case True
  let ?g = "\<lambda>bf :: 'a Buffer. bf\<lparr>b_data := None\<rparr>"
  let ?s = "upd_buffer b ?g (releaseBytes (b_data bf) s)"
  let ?t = "fold (\<lambda>v s. upd_view v unapply s) (b_views bf) ?s"
  have eq: "Buffer_deallocate b s = ?t" using True b by (simp add: Buffer_deallocate_def Let_def)
  have links: "links_ok s" using inv by (simp add: store_inv_def)
  have vs: "views ?t = (\<lambda>v. if v \<in> set (b_views bf) then Some (unapply (view s v)) else views s v)"
    using fold_upd_view_views [OF links_ok_distinct [OF links b], of unapply ?s] by (auto simp: fun_eq_iff)
  have bs: "buffers ?t = (buffers s)(b \<mapsto> ?g bf)" using b by (simp add: fold_upd_view)
  note attached = links_ok_views_of [OF links b]
  have "view_ok E (buffers ?t) vw'" if "views ?t v = Some vw'" for v vw'
  proof (cases "v \<in> set (b_views bf)")
    case True
    then obtain vw where "views s v = Some vw" using attached by blast
    with that True store_inv_view_ok [OF inv] show ?thesis unfolding vs by (auto intro: view_ok_unapply)
  next
    case False
    with that have v: "views s v = Some vw'" unfolding vs by simp
    with False attached have "v_data_buffer vw' \<noteq> Some b" by blast
    with store_inv_view_ok [OF inv v] show ?thesis unfolding bs by (auto elim: view_ok_other_buffer)
  qed
  then have "views_ok E ?t" by (simp add: views_ok_def)
  moreover have "(\<exists>vw. views ?t v = Some vw \<and> v_data_buffer vw = Some b') \<longleftrightarrow>
      (\<exists>vw. views s v = Some vw \<and> v_data_buffer vw = Some b')" for v b'
    using attached [of v] unfolding vs by (auto simp: unapply_def)
  then have "links_ok ?t"
    using b by (intro links_ok_same_links [OF links_ok_upd_buffer [OF inv b, of ?g]]) (simp_all add: fold_upd_view)
  moreover have "table_ok ?t"
    using table_ok_upd_buffer [OF inv b, of ?g] b
    by (subst table_ok_cong [of _ "upd_buffer b ?g s"]) (simp_all add: fold_upd_view)
  moreover have "memory_ok ?t"
  proof -
    have own: "owns (block_of s) (live_blocks s) (next_ptr s)" using inv by (simp add: store_inv_def memory_ok_def)
    have old: "block_of s b = b_data bf" using b by (simp add: block_of_def)
    have "block_of ?t = (block_of s)(b := None)" using bs by (auto simp: block_of_def fun_eq_iff)
    with owns_release [OF own, of b] show ?thesis unfolding memory_ok_def old by (simp add: fold_upd_view)
  qed
  moreover have "dtypes_ok E ?t" by (rule dtypes_okI [OF inv]) (use b in \<open>auto simp: bs split: if_splits\<close>)
  ultimately show ?thesis unfolding eq store_inv_def by simp
qed

section \<open>Attaching and detaching\<close>

text \<open>Setting both ends of the link, and cutting it.\<close>

definition link :: "buffer_id \<Rightarrow> view_id \<Rightarrow> ('d, 'n) store \<Rightarrow> ('d, 'n) store" where
  "link b v s = upd_view v (\<lambda>vw. vw\<lparr>v_data_buffer := Some b, v_state := BUFFER\<rparr>)
                  (upd_buffer b (\<lambda>bf. bf\<lparr>b_views := List.insert v (b_views bf)\<rparr>) s)"

lemma link_eq:
  "upd_view v (\<lambda>vw. vw\<lparr>v_state := BUFFER\<rparr>)
     (Buffer_attachToView b v (upd_view v (\<lambda>vw. vw\<lparr>v_data_buffer := Some b\<rparr>) s)) = link b v s"
  by (simp add: link_def Buffer_attachToView_def upd_view_def upd_buffer_def)

lemma link_simps [simp]:
  "views (link b v s) = (views s)(v \<mapsto> (view s v)\<lparr>v_data_buffer := Some b, v_state := BUFFER\<rparr>)"
  "buffers (link b v s) = (buffers s)(b \<mapsto> (buffer s b)\<lparr>b_views := List.insert v (b_views (buffer s b))\<rparr>)"
  by (simp_all add: link_def)

lemma store_inv_link [keeps_inv]:
  assumes inv: "store_inv E s" and v: "views s v = Some vw" "v_state vw = EMPTY" and b: "buffers s b = Some bf"
  shows "store_inv E (link b v s)"
proof -
  let ?g = "\<lambda>bf :: 'a Buffer. bf\<lparr>b_views := List.insert v (b_views bf)\<rparr>"
  let ?vw = "vw\<lparr>v_data_buffer := Some b, v_state := BUFFER\<rparr>"
  have ok: "v_data_buffer vw = None" "\<not> v_is_applied vw" "v_external_ptr vw = None"
    using store_inv_view_ok [OF inv v(1)] v(2) by (auto simp: view_ok_def)
  have new: "view_ok E bufs ?vw" for bufs using ok by (simp add: view_ok_def)
  have old: "view_ok E (buffers (link b v s)) vw'" if "views s v' = Some vw'" for v' vw'
    using store_inv_view_ok [OF inv that] b
    by (auto simp: view_ok_def shows_buffer_def Buffer_getTotalBytes_def)
  have "views_ok E (link b v s)"
    using new old v(1) unfolding views_ok_def by (auto split: if_splits)
  moreover have "links_ok (link b v s)"
  proof -
    have links: "links_ok s" using inv by (simp add: store_inv_def)
    have "(\<exists>bf'. buffers (link b v s) b' = Some bf' \<and> v' \<in> set (b_views bf')) \<longleftrightarrow>
        (b' = b \<and> v' = v) \<or> (\<exists>bf'. buffers s b' = Some bf' \<and> v' \<in> set (b_views bf'))" for b' v'
      using b by auto
    moreover have "(\<exists>vw'. views (link b v s) v' = Some vw' \<and> v_data_buffer vw' = Some b') \<longleftrightarrow>
        (b' = b \<and> v' = v) \<or> (\<exists>vw'. views s v' = Some vw' \<and> v_data_buffer vw' = Some b')" for b' v'
      using v(1) ok(1) by auto
    ultimately show ?thesis using links b unfolding links_ok_def by auto
  qed
  moreover have "table_ok (link b v s)"
    using table_ok_upd_buffer [OF inv b, of ?g] by (subst table_ok_cong [of _ "upd_buffer b ?g s"]) (simp_all add: link_def)
  moreover have "memory_ok (link b v s)"
  proof -
    have "block_of (link b v s) = block_of s" using b by (auto simp: block_of_def fun_eq_iff)
    moreover have "live_blocks (link b v s) = live_blocks s" "next_ptr (link b v s) = next_ptr s"
      by (simp_all add: link_def)
    ultimately show ?thesis using inv by (simp add: store_inv_def memory_ok_def)
  qed
  moreover have "dtypes_ok E (link b v s)" by (rule dtypes_okI [OF inv]) (use b in \<open>auto split: if_splits\<close>)
  ultimately show ?thesis by (simp add: store_inv_def)
qed

lemma store_inv_detach [keeps_inv]:
  assumes inv: "store_inv E s" and v: "views s v = Some vw" "v_data_buffer vw = Some b"
  shows "store_inv E (Buffer_detachFromView b v s)"
    and "Buffer_detachFromView b v s =
           upd_view v setBufferViewToEmpty (upd_buffer b (\<lambda>bf. bf\<lparr>b_views := removeAll v (b_views bf)\<rparr>) s)"
proof -
  let ?g = "\<lambda>bf :: 'a Buffer. bf\<lparr>b_views := removeAll v (b_views bf)\<rparr>"
  let ?t = "upd_view v setBufferViewToEmpty (upd_buffer b ?g s)"
  obtain bf where b: "buffers s b = Some bf" "v \<in> set (b_views bf)"
    using store_inv_buffer_live [OF inv v] by blast
  then show eq: "Buffer_detachFromView b v s = ?t" using v by (simp add: Buffer_detachFromView_def)
  have old: "view_ok E (buffers ?t) vw'" if "views s v' = Some vw'" for v' vw'
    using store_inv_view_ok [OF inv that] b
    by (auto simp: view_ok_def shows_buffer_def Buffer_getTotalBytes_def)
  have "views_ok E ?t"
    using old v view_ok_empty [OF store_inv_view_ok [OF inv v(1)]] unfolding views_ok_def by (auto split: if_splits)
  moreover have "links_ok ?t"
  proof -
    have links: "links_ok s" using inv by (simp add: store_inv_def)
    have gone: "v_data_buffer (setBufferViewToEmpty x) = None" for x :: "('a, 'b) View"
      by (simp add: setBufferViewToEmpty_def unapply_def)
    have "(\<exists>bf'. buffers ?t b' = Some bf' \<and> v' \<in> set (b_views bf')) \<longleftrightarrow>
        \<not> (b' = b \<and> v' = v) \<and> (\<exists>bf'. buffers s b' = Some bf' \<and> v' \<in> set (b_views bf'))" for b' v'
      using b by auto
    moreover have "(\<exists>vw'. views ?t v' = Some vw' \<and> v_data_buffer vw' = Some b') \<longleftrightarrow>
        \<not> (b' = b \<and> v' = v) \<and> (\<exists>vw'. views s v' = Some vw' \<and> v_data_buffer vw' = Some b')" for b' v'
      using v gone by auto
    ultimately show ?thesis using links b unfolding links_ok_def by (auto simp: distinct_removeAll)
  qed
  moreover have "table_ok ?t"
    using table_ok_upd_buffer [OF inv b(1), of ?g] by (subst table_ok_cong [of _ "upd_buffer b ?g s"]) simp_all
  moreover have "memory_ok ?t"
  proof -
    have "block_of ?t = block_of s" using b by (auto simp: block_of_def fun_eq_iff)
    then show ?thesis using inv by (simp add: store_inv_def memory_ok_def)
  qed
  moreover have "dtypes_ok E ?t" by (rule dtypes_okI [OF inv]) (use b in \<open>auto split: if_splits\<close>)
  ultimately show "store_inv E (Buffer_detachFromView b v s)" unfolding eq by (simp add: store_inv_def)
qed

section \<open>Creating and destroying buffers\<close>

lemma createBuffer_eq:
  assumes inv: "store_inv E s" and c: "DataStore_createBuffer E s = (t, b)"
  shows "b = next_buffer s" and "views t = views s" and "live_blocks t = live_blocks s" and "next_ptr t = next_ptr s"
    and "\<exists>i. buffers t = (buffers s)(b \<mapsto> \<lparr>b_index = i, b_views = [], b_dtype = empty_dtype E, b_data = None\<rparr>) \<and>
           0 \<le> i \<and> IndexedCollection_getItem (buffer_coll s) i = None \<and> ic_inv (buffer_coll t) \<and>
           IndexedCollection_getItem (buffer_coll t) = (IndexedCollection_getItem (buffer_coll s))(i \<mapsto> b)"
    and "next_buffer t = Suc b"
proof -
  obtain coll i where v: "getValidEmptyIndex (buffer_coll s) = (coll, i)" by fastforce
  then show "b = next_buffer s" "views t = views s" "live_blocks t = live_blocks s" "next_ptr t = next_ptr s"
    "next_buffer t = Suc b"
    using c by (auto simp: DataStore_createBuffer_def Let_def)
  have ic: "ic_inv (buffer_coll s)" using inv by (simp add: store_inv_def table_ok_def)
  have "IndexedCollection_insertItem_at coll b i = IndexedCollection_insertItem (buffer_coll s) [] b"
    using v by (simp add: IndexedCollection_insertItem_def)
  then have "buffer_coll t = fst (IndexedCollection_insertItem (buffer_coll s) [] b)"
    and bufs: "buffers t = (buffers s)(b \<mapsto> \<lparr>b_index = i, b_views = [], b_dtype = empty_dtype E, b_data = None\<rparr>)"
    using c v by (auto simp: DataStore_createBuffer_def Let_def)
  moreover obtain c' j where ins: "IndexedCollection_insertItem (buffer_coll s) [] b = (c', j)" "ic_inv c'" "0 \<le> j"
    "IndexedCollection_getItem (buffer_coll s) j = None"
    "IndexedCollection_getItem c' = (IndexedCollection_getItem (buffer_coll s))(j \<mapsto> b)"
    using indexed.insert_accepted [OF ic, of "[]" b] by auto
  moreover have "j = i"
    using ins(1,3) v by (auto simp: IndexedCollection_insertItem_def
        IndexedCollection_insertItem_at_def Let_def split: if_splits)
  ultimately show "\<exists>i. buffers t = (buffers s)(b \<mapsto> \<lparr>b_index = i, b_views = [], b_dtype = empty_dtype E, b_data = None\<rparr>) \<and>
      0 \<le> i \<and> IndexedCollection_getItem (buffer_coll s) i = None \<and> ic_inv (buffer_coll t) \<and>
      IndexedCollection_getItem (buffer_coll t) = (IndexedCollection_getItem (buffer_coll s))(i \<mapsto> b)"
    by auto
qed

lemma store_inv_createBuffer [keeps_inv]:
  assumes inv: "store_inv E s" and c: "DataStore_createBuffer E s = (t, b)"
  shows "store_inv E t" and "buffers s b = None" and "\<exists>i. buffers t b = Some \<lparr>b_index = i, b_views = [], b_dtype = empty_dtype E, b_data = None\<rparr>"
    and "views t = views s"
proof -
  note eq = createBuffer_eq [OF assms]
  obtain i where t: "buffers t = (buffers s)(b \<mapsto> \<lparr>b_index = i, b_views = [], b_dtype = empty_dtype E, b_data = None\<rparr>)"
    "IndexedCollection_getItem (buffer_coll s) i = None" "ic_inv (buffer_coll t)"
    "IndexedCollection_getItem (buffer_coll t) = (IndexedCollection_getItem (buffer_coll s))(i \<mapsto> b)"
    using eq(5) by blast
  show fresh: "buffers s b = None" using inv eq(1) by (simp add: store_inv_def table_ok_def)
  show "views t = views s" by (rule eq(2))
  show "\<exists>i. buffers t b = Some \<lparr>b_index = i, b_views = [], b_dtype = empty_dtype E, b_data = None\<rparr>" using t(1) by auto
  have unlinked: "v_data_buffer vw \<noteq> Some b" if "views s v = Some vw" for v vw
    using store_inv_buffer_live [OF inv that, of b] fresh by auto
  have "views_ok E t"
    unfolding views_ok_def eq(2)
  proof (intro allI impI)
    fix v vw assume v: "views s v = Some vw"
    show "view_ok E (buffers t) vw"
      by (rule view_ok_other_buffer [OF store_inv_view_ok [OF inv v]]) (use unlinked [OF v] t(1) in auto)
  qed
  moreover have "links_ok t"
    using inv unlinked fresh unfolding store_inv_def links_ok_def eq(2) t(1) by auto
  moreover have "table_ok t"
  proof -
    have tab: "table_ok s" using inv by (simp add: store_inv_def)
    have "(IndexedCollection_getItem (buffer_coll t) j = Some b') \<longleftrightarrow> (\<exists>bf. buffers t b' = Some bf \<and> b_index bf = j)" for j b'
    proof (cases "b' = b")
      case True
      have "IndexedCollection_getItem (buffer_coll s) j \<noteq> Some b"
        using tab fresh unfolding table_ok_def by auto
      with True t(1,4) show ?thesis by auto
    next
      case False
      have "(IndexedCollection_getItem (buffer_coll t) j = Some b') \<longleftrightarrow>
          (IndexedCollection_getItem (buffer_coll s) j = Some b')"
        using False t(2,4) by auto
      with False tab t(1) show ?thesis unfolding table_ok_def by simp
    qed
    with tab t eq(1,6) show ?thesis unfolding table_ok_def by auto
  qed
  moreover have "memory_ok t"
  proof -
    have "block_of t = block_of s" using t(1) fresh by (auto simp: block_of_def fun_eq_iff)
    with inv eq(3,4) show ?thesis by (simp add: store_inv_def memory_ok_def)
  qed
  moreover have "dtypes_ok E t" by (rule dtypes_okI [OF inv]) (auto simp: t(1) sized_dtype_def split: if_splits)
  ultimately show "store_inv E t" by (simp add: store_inv_def)
qed

lemma destroyBuffer_eq:
  assumes inv: "store_inv E s" and b: "buffers s b = Some bf"
  defines "t \<equiv> DataStore_destroyBuffer (Some b) s"
  shows "views t = (\<lambda>v. if v \<in> set (b_views bf) then Some (setBufferViewToEmpty (view s v)) else views s v)"
    and "buffers t = (buffers s)(b := None)"
    and "buffer_coll t = fst (IndexedCollection_removeItem (buffer_coll s) (b_index bf))"
    and "next_buffer t = next_buffer s" and "next_ptr t = next_ptr s"
    and "live_blocks t = filter (\<lambda>p. b_data bf \<noteq> Some p) (live_blocks s)"
proof -
  have dist: "distinct (b_views bf)" using inv b by (auto simp: store_inv_def links_ok_def)
  show "views t = (\<lambda>v. if v \<in> set (b_views bf) then Some (setBufferViewToEmpty (view s v)) else views s v)"
    unfolding t_def using b fold_upd_view_views [OF dist, of setBufferViewToEmpty s]
    by (simp add: DataStore_destroyBuffer_def Buffer_detachFromAllViews_def Let_def)
  show "buffers t = (buffers s)(b := None)"
    "buffer_coll t = fst (IndexedCollection_removeItem (buffer_coll s) (b_index bf))"
    "next_buffer t = next_buffer s" "next_ptr t = next_ptr s"
    "live_blocks t = filter (\<lambda>p. b_data bf \<noteq> Some p) (live_blocks s)"
    unfolding t_def using b
    by (simp_all add: DataStore_destroyBuffer_def Buffer_detachFromAllViews_def Let_def fold_upd_view)
qed

lemma store_inv_destroyBuffer [keeps_inv]:
  assumes inv: "store_inv E s" and b: "buffers s b = Some bf"
  shows "store_inv E (DataStore_destroyBuffer (Some b) s)" (is "store_inv E ?t")
proof -
  note eq = destroyBuffer_eq [OF assms]
  have links: "links_ok s" and tab: "table_ok s" using inv by (auto simp: store_inv_def)
  note attached = links_ok_views_of [OF links b]
  have gone: "v_data_buffer (setBufferViewToEmpty x) = None" for x :: "('a, 'b) View"
    by (simp add: setBufferViewToEmpty_def unapply_def)
  have "view_ok E (buffers ?t) vw'" if "views ?t v = Some vw'" for v vw'
  proof (cases "v \<in> set (b_views bf)")
    case True
    then obtain vw where "views s v = Some vw" "v_data_buffer vw = Some b" using attached by blast
    with that True view_ok_empty [OF store_inv_view_ok [OF inv]] show ?thesis unfolding eq(1) by auto
  next
    case False
    with that have v: "views s v = Some vw'" unfolding eq(1) by simp
    with False attached have "v_data_buffer vw' \<noteq> Some b" by blast
    with store_inv_view_ok [OF inv v] show ?thesis unfolding eq(2) by (auto elim: view_ok_other_buffer)
  qed
  then have "views_ok E ?t" by (simp add: views_ok_def)
  moreover have "links_ok ?t"
    using links attached gone unfolding links_ok_def eq(1,2) by (auto split: if_splits)
  moreover have "table_ok ?t"
  proof -
    have ic: "ic_inv (buffer_coll s)" using tab by (simp add: table_ok_def)
    have at: "IndexedCollection_getItem (buffer_coll s) (b_index bf) = Some b" using tab b by (auto simp: table_ok_def)
    have rem: "ic_inv (buffer_coll ?t)" "IndexedCollection_getItem (buffer_coll ?t) =
        (IndexedCollection_getItem (buffer_coll s))(b_index bf := None)"
      using indexed.remove_item [OF ic, of "b_index bf"] unfolding eq(3) by auto
    have "(IndexedCollection_getItem (buffer_coll ?t) j = Some b') \<longleftrightarrow> (\<exists>bf. buffers ?t b' = Some bf \<and> b_index bf = j)" for j b'
    proof -
      have entry: "IndexedCollection_getItem (buffer_coll s) j = Some b' \<longleftrightarrow> (\<exists>bf. buffers s b' = Some bf \<and> b_index bf = j)"
        using tab unfolding table_ok_def by blast
      show ?thesis
      proof (cases "b' = b")
        case True
        with entry b show ?thesis unfolding rem(2) eq(2) by auto
      next
        case False
        with at have "((IndexedCollection_getItem (buffer_coll s))(b_index bf := None)) j = Some b' \<longleftrightarrow>
            IndexedCollection_getItem (buffer_coll s) j = Some b'" by auto
        with False entry show ?thesis unfolding rem(2) eq(2) by simp
      qed
    qed
    with tab rem(1) eq(2,4) show ?thesis unfolding table_ok_def by auto
  qed
  moreover have "memory_ok ?t"
  proof -
    have own: "owns (block_of s) (live_blocks s) (next_ptr s)" using inv by (simp add: store_inv_def memory_ok_def)
    have old: "block_of s b = b_data bf" using b by (simp add: block_of_def)
    have "block_of ?t = (block_of s)(b := None)" using eq(2) by (auto simp: block_of_def fun_eq_iff)
    with owns_release [OF own, of b] eq(5,6) show ?thesis unfolding memory_ok_def old by simp
  qed
  moreover have "dtypes_ok E ?t" by (rule dtypes_okI [OF inv]) (auto simp: eq(2) split: if_splits)
  ultimately show ?thesis by (simp add: store_inv_def)
qed

section \<open>The operations of a view\<close>

lemma Buffer_ops_views [simp]:
  "views (Buffer_describe E b type n s) = views s" "views (Buffer_allocate E b s) = views s"
  "views (Buffer_allocate_typed E b type n s) = views s" "views (Buffer_reallocate E b n s) = views s"
  by (auto simp: Buffer_describe_def Buffer_allocate_def Buffer_allocate_typed_def Buffer_reallocate_def
      reallocateBytes_def Let_def split_beta)

lemma Buffer_describe_live: "buffers s b = Some bf \<Longrightarrow> \<exists>bf'. buffers (Buffer_describe E b type n s) b = Some bf'"
  by (auto simp: Buffer_describe_def)

lemma store_inv_Buffer_allocate_typed [keeps_inv]:
  assumes "store_inv E s" and "buffers s b = Some bf"
  shows "store_inv E (Buffer_allocate_typed E b type n s)"
proof -
  obtain bf' where b: "buffers (Buffer_describe E b type n s) b = Some bf'" using Buffer_describe_live [OF assms(2)] by metis
  show ?thesis
    using assms store_inv_Buffer_allocate [OF store_inv_Buffer_describe [OF assms] b]
    by (simp add: Buffer_allocate_typed_def)
qed

text \<open>Before it allocates, an empty view gets a new buffer; a view with a buffer keeps it.\<close>

lemma store_inv_View_allocate [keeps_inv]:
  assumes inv: "store_inv E s" and v: "views s v = Some vw"
  shows "store_inv E (View_allocate E v s)"
proof (cases "isAllocateValid E s vw")
  case False
  with inv v show ?thesis by (simp add: View_allocate_def)
next
  case True
  have finish: "store_inv E (View_apply E v (Buffer_allocate_typed E b type n t))"
    if "store_inv E t" "views t v = Some vw'" "buffers t b = Some bf" for t vw' b bf type n
    using that by (intro store_inv_apply store_inv_Buffer_allocate_typed) auto
  show ?thesis
  proof (cases "v_state vw = EMPTY")
    case empty: True
    obtain t b where c: "DataStore_createBuffer E s = (t, b)" by fastforce
    note cr = store_inv_createBuffer [OF inv c]
    obtain bf where bf: "buffers t b = Some bf" using cr(3) by blast
    have "View_allocate E v s = View_apply E v (Buffer_allocate_typed E b (dtype_id E (v_schema vw))
        (number_of_elements E (v_schema vw)) (link b v t))"
      using True empty v c cr(4) by (simp add: View_allocate_def Let_def link_eq)
    with finish [OF store_inv_link [OF cr(1) _ empty bf]] v cr(4) bf show ?thesis by simp
  next
    case False
    then obtain b where b: "v_data_buffer vw = Some b"
      using True store_inv_view_ok [OF inv v] by (auto simp: isAllocateValid_def view_ok_def split: State.splits)
    then obtain bf where "buffers s b = Some bf" using store_inv_buffer_live [OF inv v] by blast
    from finish [OF inv v this] True False v b show ?thesis by (simp add: View_allocate_def Let_def)
  qed
qed

lemma store_inv_describe_allocate [keeps_inv]:
  assumes "store_inv E s" and "views s v = Some vw" and "only_describes f"
  shows "store_inv E (View_allocate E v (upd_view v f s))"
  using assms by (intro store_inv_View_allocate [where vw = "f vw"] store_inv_describe) simp_all

lemma store_inv_View_allocate_variants [keeps_inv]:
  assumes "store_inv E s" and "views s v = Some vw"
  shows "store_inv E (View_allocate_typed E v type n s)"
    and "store_inv E (View_allocate_shape E v type ndims shape s)"
    and "store_inv E (View_allocate_dtype E v d s)"
  using assms store_inv_describe_allocate [OF assms]
  by (auto simp: View_allocate_typed_def View_allocate_shape_def View_allocate_dtype_def split: option.split)

lemma store_inv_View_apply_variants [keeps_inv]:
  assumes "store_inv E s" and "views s v = Some vw"
  shows "store_inv E (View_apply_dtype E v d s)" and "store_inv E (View_apply_elems E v n off str s)"
    and "store_inv E (View_apply_typed E v type n off str s)"
    and "store_inv E (View_apply_shape E v type ndims shape s)"
  using assms store_inv_describe_apply [OF assms]
  by (auto simp: View_apply_dtype_def View_apply_elems_def View_apply_typed_def View_apply_shape_def Let_def)

text \<open>A view that may reallocate is the only view of its buffer, so once re-described nothing shows the old data.\<close>

lemma sole_view_unapplied:
  assumes inv: "store_inv E s" and v: "views s v = Some vw" and b: "v_data_buffer vw = Some b"
    and one: "Buffer_getNumViews (buffer s b) = 1" and f: "only_describes f" "\<not> v_is_applied (f vw)"
  shows "unapplied (upd_view v f s) b"
proof -
  obtain bf where bf: "buffers s b = Some bf" "v \<in> set (b_views bf)"
    using store_inv_buffer_live [OF inv v b] by blast
  have "b_views bf = [v]" using one bf by (auto simp: Buffer_getNumViews_def length_Suc_conv)
  have "v' = v" if "views s v' = Some vw'" "v_data_buffer vw' = Some b" for v' vw'
    using store_inv_buffer_live [OF inv that] bf(1) \<open>b_views bf = [v]\<close> by auto
  with v f show ?thesis unfolding unapplied_def by auto
qed

lemma store_inv_resize [keeps_inv]:
  assumes "store_inv E s" and "views s v = Some vw" and "v_data_buffer vw = Some b"
    and "Buffer_getNumViews (buffer s b) = 1" and "only_describes f" and "\<not> v_is_applied (f vw)" and "env_laws E"
  shows "store_inv E (View_apply E v (Buffer_reallocate E b n (upd_view v f s)))"
proof -
  obtain bf where bf: "buffers s b = Some bf" using store_inv_buffer_live [OF assms(1-3)] by blast
  have "store_inv E (Buffer_reallocate E b n (upd_view v f s))"
    using bf sole_view_unapplied [OF assms(1-6)] store_inv_describe [OF assms(1,2,5)] assms(7)
    by (intro store_inv_Buffer_reallocate [where bf = bf]) auto
  with assms(2) show ?thesis by (intro store_inv_apply [where vw = "f vw"]) auto
qed

lemma allocate_valid_buffer:
  assumes "store_inv E s" and "views s v = Some vw" and "isAllocateValid E s vw" and "v_state vw \<noteq> EMPTY"
  obtains b where "v_data_buffer vw = Some b" and "Buffer_getNumViews (buffer s b) = 1"
  using assms store_inv_view_ok [OF assms(1,2)]
  by (auto simp: isAllocateValid_def view_ok_def split: State.splits)

lemma describe_unapplied: "\<not> v_is_applied (describe E type n vw)" "\<not> v_is_applied (describe_dtype E d vw)"
  by (simp_all add: describe_def)

lemma store_inv_View_reallocate [keeps_inv]:
  assumes inv: "store_inv E s" and v: "views s v = Some vw" and E: "env_laws E"
  shows "store_inv E (View_reallocate E v n s)" and "store_inv E (View_reallocate_dtype E v d s)"
proof -
  note alloc = store_inv_View_allocate_variants [OF inv v]
  show "store_inv E (View_reallocate E v n s)"
  proof (cases "n < 0 \<or> \<not> isAllocateValid E s vw \<or> v_state vw = EMPTY")
    case True
    with inv v alloc(1) show ?thesis by (auto simp: View_reallocate_def Let_def)
  next
    case False
    then obtain b where b: "v_data_buffer vw = Some b" "Buffer_getNumViews (buffer s b) = 1"
      using allocate_valid_buffer [OF inv v] by blast
    from store_inv_resize [OF inv v b _ describe_unapplied(1) E] alloc(1) False v b show ?thesis
      by (auto simp: View_reallocate_def Let_def)
  qed
  show "store_inv E (View_reallocate_dtype E v d s)"
  proof (cases "\<not> View_isAllocated E s vw \<or> is_empty E d \<or> \<not> isAllocateValid E s vw \<or>
      dtype_id E d \<noteq> dtype_id E (v_schema vw)")
    case True
    with inv v alloc(3) show ?thesis by (auto simp: View_reallocate_dtype_def)
  next
    case False
    then have "v_state vw \<noteq> EMPTY" by (auto simp: View_isAllocated_def)
    then obtain b where b: "v_data_buffer vw = Some b" "Buffer_getNumViews (buffer s b) = 1"
      using False allocate_valid_buffer [OF inv v] by blast
    from store_inv_resize [OF inv v b _ describe_unapplied(2) E] False v b show ?thesis
      by (simp add: View_reallocate_dtype_def)
  qed
qed

lemma store_inv_View_deallocate [keeps_inv]:
  assumes inv: "store_inv E s" and v: "views s v = Some vw"
  shows "store_inv E (View_deallocate E v s)"
proof (cases "v_data_buffer vw")
  case None
  with inv v show ?thesis by (simp add: View_deallocate_def)
next
  case (Some b)
  then obtain bf where "buffers s b = Some bf" using store_inv_buffer_live [OF inv v] by blast
  with Some inv v store_inv_Buffer_deallocate [OF inv] show ?thesis by (simp add: View_deallocate_def)
qed

lemma setBufferViewToEmpty_simps [simp]:
  "v_state (setBufferViewToEmpty vw) = EMPTY" "v_data_buffer (setBufferViewToEmpty vw) = None"
  "v_external_ptr (setBufferViewToEmpty vw) = v_external_ptr vw" "v_schema (setBufferViewToEmpty vw) = v_schema vw"
  "\<not> v_is_applied (setBufferViewToEmpty vw)"
  by (simp_all add: setBufferViewToEmpty_def unapply_def)

text \<open>Dropping the buffer of a view leaves the view empty, and destroys the buffer when it was its last view.\<close>

lemma View_attachBuffer_None:
  assumes inv: "store_inv E s" and v: "views s v = Some vw" and b: "v_data_buffer vw = Some b"
  shows "store_inv E (View_attachBuffer E v None s)"
    and "\<exists>vw'. views (View_attachBuffer E v None s) v = Some vw' \<and> v_state vw' = EMPTY \<and> v_data_buffer vw' = None"
proof -
  have st: "v_state vw = BUFFER" using store_inv_view_ok [OF inv v] b by (simp add: view_ok_def)
  let ?d = "Buffer_detachFromView b v s"
  note det = store_inv_detach [OF inv v b]
  obtain bf where bf: "buffers s b = Some bf" using store_inv_buffer_live [OF inv v b] by blast
  have d: "views ?d v = Some (setBufferViewToEmpty vw)" "buffers ?d b = Some (bf\<lparr>b_views := removeAll v (b_views bf)\<rparr>)"
    using v bf unfolding det(2) by simp_all
  define t where "t = (if Buffer_getNumViews (buffer ?d b) = 0 then DataStore_destroyBuffer (Some b) ?d else ?d)"
  have eq: "View_attachBuffer E v None s = upd_view v unapply t"
    using v st b by (simp add: View_attachBuffer_def View_detachBuffer_def t_def)
  have "store_inv E t"
    unfolding t_def using det(1) store_inv_destroyBuffer [OF det(1) d(2)] by simp
  moreover have tv: "views t v = Some (setBufferViewToEmpty vw)"
    unfolding t_def using d destroyBuffer_eq(1) [OF det(1) d(2)] by (simp add: Buffer_getNumViews_def)
  moreover have "view_ok E (buffers t) (unapply (setBufferViewToEmpty vw))"
    using view_ok_unapply [OF store_inv_view_ok [OF \<open>store_inv E t\<close> tv]] .
  ultimately show "store_inv E (View_attachBuffer E v None s)"
    unfolding eq by (intro store_inv_upd_view) (auto simp: unapply_def)
  show "\<exists>vw'. views (View_attachBuffer E v None s) v = Some vw' \<and> v_state vw' = EMPTY \<and> v_data_buffer vw' = None"
    unfolding eq using tv by (simp add: unapply_def)
qed

lemma store_inv_View_attachBuffer [keeps_inv]:
  assumes inv: "store_inv E s" and v: "views s v = Some vw"
    and live: "\<And>b. buff = Some b \<Longrightarrow> \<exists>bf. buffers s b = Some bf"
  shows "store_inv E (View_attachBuffer E v buff s)"
proof (cases buff)
  case None
  show ?thesis
  proof (cases "v_data_buffer vw")
    case None
    with \<open>buff = None\<close> v store_inv_view_ok [OF inv v] inv show ?thesis
      by (simp add: View_attachBuffer_def view_ok_def)
  next
    case (Some b)
    with \<open>buff = None\<close> View_attachBuffer_None(1) [OF inv v] show ?thesis by simp
  qed
next
  case (Some b)
  then obtain bf where bf: "buffers s b = Some bf" using live by blast
  show ?thesis
  proof (cases "v_state vw = EMPTY")
    case True
    have "store_inv E (link b v s)" by (rule store_inv_link [OF inv v True bf])
    moreover have "store_inv E (View_apply E v (link b v s))"
      using v by (intro store_inv_apply [OF \<open>store_inv E (link b v s)\<close>]) simp
    ultimately show ?thesis
      using True Some v by (simp add: View_attachBuffer_def Let_def link_eq)
  next
    case False
    with Some inv v show ?thesis by (simp add: View_attachBuffer_def)
  qed
qed

lemma store_inv_describe_attach [keeps_inv]:
  assumes "store_inv E s" and "views s v = Some vw" and "only_describes f"
    and "\<And>b. buff = Some b \<Longrightarrow> \<exists>bf. buffers s b = Some bf"
  shows "store_inv E (View_attachBuffer E v buff (upd_view v f s))"
  using assms by (intro store_inv_View_attachBuffer [where vw = "f vw"] store_inv_describe) auto

lemma store_inv_View_attachBuffer_variants [keeps_inv]:
  assumes "store_inv E s" and "views s v = Some vw" and "\<And>b. buff = Some b \<Longrightarrow> \<exists>bf. buffers s b = Some bf"
  shows "store_inv E (View_attachBuffer_typed E v type n buff s)"
    and "store_inv E (View_attachBuffer_shape E v type ndims shape buff s)"
  using assms store_inv_describe_attach [OF assms(1,2) _ assms(3)]
  by (auto simp: View_attachBuffer_typed_def View_attachBuffer_shape_def)

lemma store_inv_View_setExternalDataPtr [keeps_inv]:
  assumes inv: "store_inv E s" and v: "views s v = Some vw"
  shows "store_inv E (View_setExternalDataPtr E v p s)"
proof (cases "v_state vw = EMPTY \<or> v_state vw = EXTERNAL")
  case False
  with inv v show ?thesis by (simp add: View_setExternalDataPtr_def)
next
  case True
  note ok = store_inv_view_ok [OF inv v]
  have nobuf: "v_data_buffer vw = None" using ok True by (auto simp: view_ok_def)
  show ?thesis
  proof (cases p)
    case None
    have "store_inv E (upd_view v (\<lambda>vw. (unapply vw)\<lparr>v_external_ptr := None, v_state := EMPTY\<rparr>) s)"
      using ok nobuf by (intro store_inv_upd_view [OF inv v]) (auto simp: unapply_def view_ok_def)
    with None True v show ?thesis by (auto simp: View_setExternalDataPtr_def)
  next
    case (Some a)
    let ?f = "\<lambda>vw :: ('a, 'b) View. vw\<lparr>v_external_ptr := p, v_state := EXTERNAL\<rparr>"
    show ?thesis
    proof (cases "View_isDescribed E vw")
      case False
      then have "\<not> v_is_applied vw" using ok True by (auto simp: view_ok_def)
      then have "store_inv E (upd_view v ?f s)"
        using ok nobuf Some by (intro store_inv_upd_view [OF inv v]) (auto simp: view_ok_def)
      with False Some True v show ?thesis by (auto simp: View_setExternalDataPtr_def View_isDescribed_def)
    next
      case described: True
      let ?h = "\<lambda>vw :: ('a, 'b) View. vw\<lparr>v_external_ptr := p, v_state := EXTERNAL,
                  v_node := NodeExternal (v_schema vw) p, v_is_applied := True\<rparr>"
      have "View_setExternalDataPtr E v p s = upd_view v ?h s"
        using described Some True v nobuf
        by (auto simp: View_setExternalDataPtr_def View_apply_def isApplyValid_def View_isDescribed_def Let_def upd_view_def)
      moreover have "store_inv E (upd_view v ?h s)"
        using nobuf Some described
        by (intro store_inv_upd_view [OF inv v]) (auto simp: view_ok_def View_isDescribed_def)
      ultimately show ?thesis by simp
    qed
  qed
qed

lemma store_inv_View_setExternal_variants [keeps_inv]:
  assumes "store_inv E s" and "views s v = Some vw"
  shows "store_inv E (View_setExternalDataPtr_typed E v type n p s)"
    and "store_inv E (View_setExternalDataPtr_shape E v type ndims shape p s)"
proof -
  have d: "store_inv E (View_setExternalDataPtr E v p (upd_view v f s))" if "only_describes f" for f
    using assms that by (intro store_inv_View_setExternalDataPtr [where vw = "f vw"] store_inv_describe) auto
  show "store_inv E (View_setExternalDataPtr_typed E v type n p s)"
    "store_inv E (View_setExternalDataPtr_shape E v type ndims shape p s)"
    using assms d by (auto simp: View_setExternalDataPtr_typed_def View_setExternalDataPtr_shape_def)
qed

lemma store_inv_View_setScalar [keeps_inv]:
  assumes "store_inv E s" and "views s v = Some vw"
  shows "store_inv E (View_setScalar E v value s)" and "store_inv E (View_setString E v str s)"
proof -
  note ok = store_inv_view_ok [OF assms]
  show "store_inv E (View_setScalar E v value s)"
  proof (cases "v_state vw = EMPTY \<or> v_state vw = SCALAR")
    case True
    then have "store_inv E (upd_view v (\<lambda>vw. vw\<lparr>v_node := NodeValue value, v_schema := value_dtype E value,
        v_state := SCALAR, v_is_applied := True, v_shape := [number_of_elements E (value_dtype E value)]\<rparr>) s)"
      using ok by (intro store_inv_upd_view [OF assms]) (auto simp: view_ok_def)
    with True assms show ?thesis by (auto simp: View_setScalar_def)
  qed (use assms in \<open>simp add: View_setScalar_def\<close>)
  show "store_inv E (View_setString E v str s)"
  proof (cases "v_state vw = EMPTY \<or> v_state vw = STRING")
    case True
    then have "store_inv E (upd_view v (\<lambda>vw. vw\<lparr>v_node := NodeString str, v_schema := string_dtype E str,
        v_state := STRING, v_is_applied := True, v_shape := [number_of_elements E (string_dtype E str)]\<rparr>) s)"
      using ok by (intro store_inv_upd_view [OF assms]) (auto simp: view_ok_def)
    with True assms show ?thesis by (auto simp: View_setString_def)
  qed (use assms in \<open>simp add: View_setString_def\<close>)
qed

lemma upd_view_twice: "upd_view v f (upd_view v g s) = upd_view v (\<lambda>vw. f (g vw)) s"
  by (simp add: upd_view_def)

lemma View_setExternalDataPtr_None:
  assumes "views s v = Some vw" and "v_state vw = EXTERNAL"
  shows "View_setExternalDataPtr E v None s =
           upd_view v (\<lambda>vw. (unapply vw)\<lparr>v_external_ptr := None, v_state := EMPTY\<rparr>) s"
  using assms by (simp add: View_setExternalDataPtr_def)

text \<open>\<^verbatim>\<open>clear\<close> brings every view back to the state of a new one, except for a stale node.\<close>

lemma View_clear_spec:
  assumes inv: "store_inv E s" and v: "views s v = Some vw"
  shows "store_inv E (View_clear E v s)"
    and "\<exists>vw'. views (View_clear E v s) v = Some vw' \<and> v_state vw' = EMPTY \<and> v_data_buffer vw' = None \<and>
           v_external_ptr vw' = None \<and> v_schema vw' = empty_dtype E \<and> v_shape vw' = [] \<and> \<not> v_is_applied vw'"
proof -
  note ok = store_inv_view_ok [OF inv v]
  let ?e = "\<lambda>vw :: ('a, 'b) View. (undescribe E vw)\<lparr>v_state := EMPTY\<rparr>"
  have main: "store_inv E (upd_view v f t) \<and> (\<exists>vw'. views (upd_view v f t) v = Some vw' \<and> v_state vw' = EMPTY \<and>
      v_data_buffer vw' = None \<and> v_external_ptr vw' = None \<and> v_schema vw' = empty_dtype E \<and> v_shape vw' = [] \<and>
      \<not> v_is_applied vw')"
    if t: "store_inv E t" "views t v = Some x" "v_data_buffer x = None"
      and f: "v_state (f x) = EMPTY" "v_data_buffer (f x) = None" "v_external_ptr (f x) = None"
        "v_schema (f x) = empty_dtype E" "v_shape (f x) = []" "\<not> v_is_applied (f x)" for t x f
    using t f by (auto intro!: store_inv_upd_view [OF t(1,2)] simp: view_ok_def)
  have "store_inv E (View_clear E v s) \<and> (\<exists>vw'. views (View_clear E v s) v = Some vw' \<and> v_state vw' = EMPTY \<and>
      v_data_buffer vw' = None \<and> v_external_ptr vw' = None \<and> v_schema vw' = empty_dtype E \<and> v_shape vw' = [] \<and>
      \<not> v_is_applied vw')"
  proof (cases "v_state vw")
    case EMPTY
    with v have "View_clear E v s = upd_view v ?e s" by (simp add: View_clear_def upd_view_twice)
    with main [OF inv v, of ?e] EMPTY ok show ?thesis by (simp add: view_ok_def undescribe_def)
  next
    case BUFFER
    then obtain b where b: "v_data_buffer vw = Some b" using ok by (auto simp: view_ok_def)
    let ?t = "View_attachBuffer E v None s"
    note att = View_attachBuffer_None [OF inv v b]
    obtain x where x: "views ?t v = Some x" "v_state x = EMPTY" "v_data_buffer x = None" using att(2) by blast
    have "View_clear E v s = upd_view v ?e ?t" using BUFFER v by (simp add: View_clear_def upd_view_twice)
    with main [OF att(1) x(1,3), of ?e] x store_inv_view_ok [OF att(1) x(1)] show ?thesis
      by (simp add: view_ok_def undescribe_def)
  next
    case EXTERNAL
    let ?f = "\<lambda>vw :: ('a, 'b) View. ?e ((unapply vw)\<lparr>v_external_ptr := None, v_state := EMPTY\<rparr>)"
    have "View_clear E v s = upd_view v ?f s"
      using EXTERNAL v by (simp add: View_clear_def View_setExternalDataPtr_None upd_view_twice)
    with main [OF inv v, of ?f] EXTERNAL ok show ?thesis by (simp add: view_ok_def undescribe_def unapply_def)
  next
    case SCALAR
    have "View_clear E v s = upd_view v (\<lambda>vw. ?e (unapply vw)) s" using SCALAR v by (simp add: View_clear_def upd_view_twice)
    with main [OF inv v, of "\<lambda>vw. ?e (unapply vw)"] SCALAR ok show ?thesis
      by (simp add: view_ok_def undescribe_def unapply_def)
  next
    case STRING
    have "View_clear E v s = upd_view v (\<lambda>vw. ?e (unapply vw)) s" using STRING v by (simp add: View_clear_def upd_view_twice)
    with main [OF inv v, of "\<lambda>vw. ?e (unapply vw)"] STRING ok show ?thesis
      by (simp add: view_ok_def undescribe_def unapply_def)
  qed
  then show "store_inv E (View_clear E v s)"
    and "\<exists>vw'. views (View_clear E v s) v = Some vw' \<and> v_state vw' = EMPTY \<and> v_data_buffer vw' = None \<and>
           v_external_ptr vw' = None \<and> v_schema vw' = empty_dtype E \<and> v_shape vw' = [] \<and> \<not> v_is_applied vw'"
    by blast+
qed

lemma store_inv_View_create [keeps_inv]:
  assumes inv: "store_inv E s" and new: "views s v = None"
  shows "store_inv E (View_create E v s)"
proof -
  have "views_ok E (View_create E v s)"
    using inv unfolding store_inv_def views_ok_def by (auto simp: View_create_def View_new_def view_ok_def)
  moreover have "links_ok (View_create E v s)"
    using inv new unfolding store_inv_def links_ok_def
    by (auto simp: View_create_def View_new_def)
  moreover have "table_ok (View_create E v s)" "memory_ok (View_create E v s)" "dtypes_ok E (View_create E v s)"
    using inv block_of_cong [of "View_create E v s" s]
    by (auto simp: store_inv_def table_ok_def memory_ok_def dtypes_ok_def View_create_def)
  ultimately show ?thesis by (simp add: store_inv_def)
qed

lemma store_inv_forget_view:
  assumes inv: "store_inv E s" and v: "views s v = Some vw" and none: "v_data_buffer vw = None"
  shows "store_inv E (s\<lparr>views := (views s)(v := None)\<rparr>)" (is "store_inv E ?t")
proof -
  have "views_ok E ?t" using inv by (auto simp: store_inv_def views_ok_def)
  moreover have "links_ok ?t" using inv v none unfolding store_inv_def links_ok_def by force
  moreover have "table_ok ?t" using inv by (simp add: store_inv_def table_ok_def)
  moreover have "memory_ok ?t" using inv by (simp add: store_inv_def memory_ok_def block_of_cong [of ?t s])
  moreover have "dtypes_ok E ?t" using inv by (simp add: store_inv_def dtypes_ok_def)
  ultimately show ?thesis by (simp add: store_inv_def)
qed

lemma store_inv_View_destroy [keeps_inv]:
  assumes inv: "store_inv E s" and v: "views s v = Some vw"
  shows "store_inv E (View_destroy v s)"
proof (cases "v_data_buffer vw")
  case None
  with v store_inv_forget_view [OF inv v] show ?thesis by (simp add: View_destroy_def)
next
  case (Some b)
  note det = store_inv_detach [OF inv v Some]
  have "views (Buffer_detachFromView b v s) v = Some (setBufferViewToEmpty vw)" using v unfolding det(2) by simp
  from store_inv_forget_view [OF det(1) this] Some v show ?thesis by (simp add: View_destroy_def Let_def)
qed

lemma store_inv_View_copyView [keeps_inv]:
  assumes inv: "store_inv E s" and v: "views s v = Some vw" and c: "views s c = Some cw" "v_state cw = EMPTY"
  shows "store_inv E (View_copyView E v c s)"
proof -
  note ok = store_inv_view_ok [OF inv v] and okc = store_inv_view_ok [OF inv c(1)]
  let ?f = "if View_isDescribed E vw then describe_dtype E (v_schema vw) else id"
  let ?t = "upd_view c ?f s"
  have id: "upd_view c id s = s" using c(1) by (simp add: upd_view_def map_upd_triv)
  have only: "only_describes ?f" by (simp add: only_describes_def)
  have t: "store_inv E ?t" by (rule store_inv_describe [OF inv c(1) only])
  have tc: "views ?t c = Some (?f cw)" "v_state (?f cw) = EMPTY"
    using c only_describesD(2) [OF only] by simp_all
  have step: "View_copyView E v c s = (case v_state vw of
           EMPTY \<Rightarrow> ?t
         | STRING \<Rightarrow> upd_view c (\<lambda>c. c\<lparr>v_node := v_node vw, v_state := v_state vw, v_is_applied := True\<rparr>) ?t
         | SCALAR \<Rightarrow> upd_view c (\<lambda>c. c\<lparr>v_node := v_node vw, v_state := v_state vw, v_is_applied := True\<rparr>) ?t
         | EXTERNAL \<Rightarrow> View_setExternalDataPtr E c (v_external_ptr vw) ?t
         | BUFFER \<Rightarrow> View_attachBuffer E c (v_data_buffer vw) ?t)"
    using v id by (simp add: View_copyView_def Let_def split: State.split)
  have okt: "view_ok E (buffers ?t) (?f cw)" by (rule store_inv_view_ok [OF t tc(1)])
  have holds: "store_inv E (upd_view c (\<lambda>c. c\<lparr>v_node := n, v_state := st, v_is_applied := True\<rparr>) ?t)"
    if "st \<noteq> EMPTY" "st \<noteq> BUFFER" "st \<noteq> EXTERNAL" for st n
    using okt tc(2) that unfolding view_ok_def by (intro store_inv_upd_view [OF t tc(1)]) (auto simp: view_ok_def)
  show ?thesis
  proof (cases "v_state vw")
    case BUFFER
    then obtain b where "v_data_buffer vw = Some b" using ok by (auto simp: view_ok_def)
    moreover then obtain bf where "buffers s b = Some bf" using store_inv_buffer_live [OF inv v] by blast
    ultimately show ?thesis
      unfolding step BUFFER using store_inv_View_attachBuffer [OF t tc(1), of "Some b"] by simp
  next
    case EXTERNAL
    show ?thesis unfolding step EXTERNAL using store_inv_View_setExternalDataPtr [OF t tc(1)] by simp
  next
    case SCALAR
    show ?thesis unfolding step SCALAR State.case by (rule holds) simp_all
  next
    case STRING
    show ?thesis unfolding step STRING State.case by (rule holds) simp_all
  qed (use t step in simp)
qed

lemma store_inv_View_importArrayNode [keeps_inv]:
  assumes inv: "store_inv E s" and v: "views s v = Some vw" and st: "v_state vw \<noteq> BUFFER"
  shows "store_inv E (View_importArrayNode E v is_number d s)"
proof (cases "is_number \<and> v_state vw = EMPTY")
  case False
  with inv v st show ?thesis by (auto simp: View_importArrayNode_def Let_def)
next
  case True
  obtain t b where c: "DataStore_createBuffer E s = (t, b)" by fastforce
  note cr = store_inv_createBuffer [OF inv c]
  obtain bf where bf: "buffers t b = Some bf" using cr(3) by blast
  let ?a = "Buffer_allocate_typed E b (dtype_id E d) (number_of_elements E d) t"
  have a: "store_inv E ?a" by (rule store_inv_Buffer_allocate_typed [OF cr(1) bf])
  have va: "views ?a v = Some vw" using v cr(4) by simp
  have "\<exists>bf'. buffers ?a b = Some bf'"
    using bf by (auto simp: Buffer_allocate_typed_def Buffer_allocate_def Buffer_describe_def Let_def split_beta)
  then have att: "store_inv E (View_attachBuffer E v (Some b) ?a)"
    by (intro store_inv_View_attachBuffer [OF a va]) auto
  have "views (View_attachBuffer E v (Some b) ?a) v \<noteq> None"
    using va by (simp add: View_attachBuffer_def Let_def View_apply_def)
  then obtain x where x: "views (View_attachBuffer E v (Some b) ?a) v = Some x" by blast
  with True v st c store_inv_View_apply_variants(3) [OF att x] show ?thesis
    by (simp add: View_importArrayNode_def Let_def)
qed

end
