(* ===== verification/StringUtilities.thy ===== *)
theory StringUtilities
  imports Prelude "HOL-Library.Sublist"
begin

text \<open>
  String utilities of \<^verbatim>\<open>core/utilities/StringUtilities.hpp\<close> and
  \<^verbatim>\<open>StringUtilities.cpp\<close>: prefix and suffix tests, splitting from the left and from the
  right, prefix handling and the two substring-rewriting loops. A \<^verbatim>\<open>std::string\<close> is a list
  of characters; positions returned by \<^verbatim>\<open>find\<close> are options (\<^term>\<open>None\<close> is
  \<^verbatim>\<open>npos\<close>) except in \<^verbatim>\<open>rsplitN\<close>, whose behaviour depends on the wrap-around of
  \<^verbatim>\<open>size_t\<close>.
\<close>

section \<open>Prefixes, suffixes and splitting\<close>

definition startsWith :: "string \<Rightarrow> string \<Rightarrow> bool" where
  "startsWith str pre \<longleftrightarrow> length pre \<le> length str \<and> take (length pre) str = pre"

definition startsWith_char :: "string \<Rightarrow> char \<Rightarrow> bool" where
  "startsWith_char str c \<longleftrightarrow> 1 \<le> length str \<and> str ! 0 = c"

definition endsWith :: "string \<Rightarrow> string \<Rightarrow> bool" where
  "endsWith str suf \<longleftrightarrow>
     length suf \<le> length str \<and> take (length suf) (drop (length str - length suf) str) = suf"

definition endsWith_char :: "string \<Rightarrow> char \<Rightarrow> bool" where
  "endsWith_char str c \<longleftrightarrow> 1 \<le> length str \<and> str ! (length str - 1) = c"

definition removeSuffix :: "string \<Rightarrow> string \<Rightarrow> string" where
  "removeSuffix str suf =
     (if suf \<noteq> [] \<and> endsWith str suf then take (length str - length suf) str else str)"

definition appendPrefix :: "string \<Rightarrow> string \<Rightarrow> char \<Rightarrow> string" where
  "appendPrefix pre name delim = (if pre = [] \<or> name = [] then name else pre @ [delim] @ name)"

definition removePrefix :: "string \<Rightarrow> string \<Rightarrow> char \<Rightarrow> string" where
  "removePrefix pre name delim =
     (if pre = [] then name
      else if startsWith name (pre @ [delim]) then drop (length pre) name
      else name)"

text \<open>
  \<^verbatim>\<open>split\<close>: repeated \<^verbatim>\<open>std::getline\<close> on a stream of the string. A read stops after
  the next delimiter; at the end of the stream it fails unless it extracted something.
\<close>

function split :: "string \<Rightarrow> char \<Rightarrow> string list" where
  "split str delim =
     (if str = [] then []
      else takeWhile (\<lambda>c. c \<noteq> delim) str # split (drop 1 (dropWhile (\<lambda>c. c \<noteq> delim) str)) delim)"
  by pat_completeness auto
termination
proof (relation "measure (\<lambda>(str, delim). length str)")
  fix str :: string and delim :: char
  assume "str \<noteq> []"
  then have "0 < length str" by simp
  moreover have "length (dropWhile (\<lambda>c. c \<noteq> delim) str) \<le> length str"
    by (rule length_dropWhile_le)
  ultimately show "((drop 1 (dropWhile (\<lambda>c. c \<noteq> delim) str), delim), str, delim)
      \<in> measure (\<lambda>(str, delim). length str)"
    unfolding in_measure prod.case length_drop by linarith
qed simp

declare split.simps [simp del]

text \<open>
  \<^verbatim>\<open>find_last_of(c, pos)\<close> on positions of type \<^verbatim>\<open>size_t\<close>, and \<^verbatim>\<open>rsplitN\<close> with its
  subtractions modulo \<open>2 ^ 64\<close>.
\<close>

definition size_npos :: nat where
  "size_npos = 2 ^ 64 - 1"

definition size_sub :: "nat \<Rightarrow> nat \<Rightarrow> nat" where
  "size_sub a b = (a + 2 ^ 64 - b) mod 2 ^ 64"

definition find_last_of :: "string \<Rightarrow> char \<Rightarrow> nat \<Rightarrow> nat" where
  "find_last_of str c pos =
     (case filter (\<lambda>i. str ! i = c) [0..<min (Suc pos) (length str)] of
        [] \<Rightarrow> size_npos | is \<Rightarrow> last is)"

definition substr :: "string \<Rightarrow> nat \<Rightarrow> nat \<Rightarrow> string" where
  "substr str pos n = take n (drop pos str)"

function rsplitN_loop :: "string \<Rightarrow> nat \<Rightarrow> char \<Rightarrow> nat \<Rightarrow> nat \<Rightarrow> string list \<Rightarrow> nat \<times> string list" where
  "rsplitN_loop str n delim last_pos pos result =
     (if pos \<noteq> size_npos \<and> length result < n - 1
      then rsplitN_loop str n delim pos (find_last_of str delim (size_sub pos 1))
             (result @ [substr str (pos + 1) (size_sub (size_sub last_pos pos) 1)])
      else (last_pos, result))"
  by pat_completeness auto
termination
  by (relation "measure (\<lambda>(str, n, delim, last_pos, pos, result). n - length result)") auto

declare rsplitN_loop.simps [simp del]

definition rsplitN :: "string \<Rightarrow> nat \<Rightarrow> char \<Rightarrow> string list" where
  "rsplitN str n delim =
     (let last_pos = size_npos; pos = find_last_of str delim (size_sub last_pos 1)
      in if n > 0 \<and> str \<noteq> []
         then let (last_pos, result) = rsplitN_loop str n delim last_pos pos []
              in rev (result @ [substr str 0 last_pos])
         else [])"

definition removeBeforeDelimiter :: "string \<Rightarrow> char \<Rightarrow> string" where
  "removeBeforeDelimiter str delim =
     (let pos = find_last_of str delim size_npos in drop ((pos + 1) mod 2 ^ 64) str)"

section \<open>Rewriting substrings\<close>

text \<open>\<^verbatim>\<open>find(substr, pos)\<close>: the first occurrence at or after a position.\<close>

fun find_str :: "string \<Rightarrow> string \<Rightarrow> nat option" where
  "find_str t [] = (if t = [] then Some 0 else None)"
| "find_str t (c # cs) = (if prefix t (c # cs) then Some 0 else map_option Suc (find_str t cs))"

definition find_from :: "string \<Rightarrow> string \<Rightarrow> nat \<Rightarrow> nat option" where
  "find_from s t pos =
     (if pos \<le> length s then map_option (\<lambda>i. pos + i) (find_str t (drop pos s)) else None)"

text \<open>
  \<^verbatim>\<open>removeAllInstances\<close>: the loop searches from the beginning again after every erasure.
  It need not end, so it is given fuel; \<^term>\<open>None\<close> is a loop that has not returned.
\<close>

fun removeAll_loop :: "nat \<Rightarrow> string \<Rightarrow> string \<Rightarrow> string option" where
  "removeAll_loop 0 result t = None"
| "removeAll_loop (Suc fuel) result t =
     (case find_from result t 0 of
        None \<Rightarrow> Some result
      | Some pos \<Rightarrow> removeAll_loop fuel (take pos result @ drop (pos + length t) result) t)"

definition removeAllInstances :: "nat \<Rightarrow> string \<Rightarrow> string \<Rightarrow> string option" where
  "removeAllInstances fuel target t = removeAll_loop fuel target t"

text \<open>\<^verbatim>\<open>replaceAllInstances\<close>: the search continues behind the replacement.\<close>

lemma find_str_bound: "find_str t s = Some i \<Longrightarrow> i + length t \<le> length s"
proof (induction t s arbitrary: i rule: find_str.induct)
  case (2 t c cs)
  then show ?case by (auto simp: prefix_length_le split: if_splits dest: prefix_length_le)
qed (simp split: if_splits)

lemma find_from_bound: "find_from s t p = Some i \<Longrightarrow> p \<le> i \<and> i + length t \<le> length s"
  by (fastforce simp: find_from_def split: if_splits dest!: find_str_bound)

function replaceAll_loop :: "string \<Rightarrow> string \<Rightarrow> string \<Rightarrow> nat \<Rightarrow> string" where
  "replaceAll_loop findstr replacestr result start =
     (if findstr = [] then result
      else case find_from result findstr start of
        None \<Rightarrow> result
      | Some pos \<Rightarrow>
          replaceAll_loop findstr replacestr
            (take pos result @ replacestr @ drop (pos + length findstr) result) (pos + length replacestr))"
  by pat_completeness auto
termination
proof (relation "measure (\<lambda>(f, r, result, start). length result - start)")
  fix f r result :: string and start pos :: nat
  assume "f \<noteq> []" and "find_from result f start = Some pos"
  then have "start \<le> pos" "pos + length f \<le> length result" "0 < length f"
    using find_from_bound by auto
  then show "((f, r, take pos result @ r @ drop (pos + length f) result, pos + length r), f, r, result, start)
      \<in> measure (\<lambda>(f, r, result, start). length result - start)"
    by (simp del: length_greater_0_conv)
qed simp

declare replaceAll_loop.simps [simp del]

definition replaceAllInstances :: "string \<Rightarrow> string \<Rightarrow> string \<Rightarrow> string" where
  "replaceAllInstances target findstr replacestr =
     (if findstr = replacestr \<or> findstr = [] then target
      else replaceAll_loop findstr replacestr target 0)"

section \<open>Splitting from the left\<close>

text \<open>The string with its tokens put back together.\<close>

fun join_with :: "char \<Rightarrow> string list \<Rightarrow> string" where
  "join_with d [] = []"
| "join_with d [x] = x"
| "join_with d (x # y # xs) = x @ [d] @ join_with d (y # xs)"

lemma join_with_Cons: "xs \<noteq> [] \<Longrightarrow> join_with d (x # xs) = x @ [d] @ join_with d xs"
  by (cases xs) simp_all

lemma join_with_append:
  "xs \<noteq> [] \<Longrightarrow> ys \<noteq> [] \<Longrightarrow> join_with d (xs @ ys) = join_with d xs @ [d] @ join_with d ys"
  by (induction d xs rule: join_with.induct) (simp_all add: join_with_Cons)

lemma split_Nil [simp]: "split [] d = []"
  by (simp add: split.simps)

lemma split_token: "d \<notin> set x \<Longrightarrow> split (x @ d # s) d = x # split s d"
  by (subst split.simps) (simp add: takeWhile_append dropWhile_append)

lemma split_single: "d \<notin> set x \<Longrightarrow> x \<noteq> [] \<Longrightarrow> split x d = [x]"
proof -
  assume "d \<notin> set x" "x \<noteq> []"
  moreover from this have "takeWhile (\<lambda>c. c \<noteq> d) x = x" "dropWhile (\<lambda>c. c \<noteq> d) x = []"
    by (auto simp: takeWhile_eq_all_conv)
  ultimately show ?thesis by (subst split.simps) (simp only: drop_Nil split_Nil if_False)
qed

lemma split_no_delim: "x \<in> set (split s d) \<Longrightarrow> d \<notin> set x"
proof (induction s d rule: split.induct)
  case (1 s d)
  then show ?case
    by (subst (asm) (2) split.simps) (auto dest: set_takeWhileD split: if_splits)
qed

lemma split_join:
  assumes "\<forall>x\<in>set xs. x \<noteq> [] \<and> d \<notin> set x"
  shows "split (join_with d xs) d = xs"
  using assms
proof (induction d xs rule: join_with.induct)
  case (3 d x y xs)
  then show ?case by (simp add: split_token)
qed (simp_all add: split_single)

section \<open>Splitting from the right\<close>

text \<open>
  While no delimiter is at position 0, every \<^verbatim>\<open>find_last_of\<close> of the loop looks strictly left of
  the previous one, and the collected tokens always extend the unread prefix to the whole string.
\<close>

lemma find_last_of_spec:
  assumes "length str < size_npos"
  shows "(find_last_of str c pos = size_npos \<and> (\<forall>i. i \<le> pos \<and> i < length str \<longrightarrow> str ! i \<noteq> c)) \<or>
    (find_last_of str c pos \<le> pos \<and> find_last_of str c pos < length str \<and> str ! find_last_of str c pos = c \<and>
     (\<forall>i. find_last_of str c pos < i \<and> i \<le> pos \<and> i < length str \<longrightarrow> str ! i \<noteq> c))"
proof -
  let ?is = "filter (\<lambda>i. str ! i = c) [0..<min (Suc pos) (length str)]"
  show ?thesis
  proof (cases "?is = []")
    case True
    then show ?thesis by (auto simp: find_last_of_def filter_empty_conv)
  next
    case False
    then have eq: "find_last_of str c pos = last ?is" by (cases ?is) (simp_all add: find_last_of_def)
    have mem: "last ?is \<in> set ?is" using False by (rule last_in_set)
    have "sorted_wrt (<) ?is" by (intro sorted_wrt_filter) simp
    then have le: "i \<le> last ?is" if "i \<in> set ?is" for i
    proof -
      have "?is = butlast ?is @ [last ?is]" using False by simp
      with \<open>sorted_wrt (<) ?is\<close> have "\<forall>j\<in>set (butlast ?is). j < last ?is"
        by (metis (no_types, lifting) list.set_intros(1) sorted_wrt_append)
      with that \<open>?is = butlast ?is @ [last ?is]\<close> show ?thesis
        by (metis (no_types, lifting) Un_iff append_is_Nil_conv empty_iff empty_set in_set_butlastD le_less set_ConsD set_append)
    qed
    have "\<not> last ?is < i" if "i \<le> pos" "i < length str" "str ! i = c" for i
      using le [of i] that by simp
    with mem show ?thesis unfolding eq by auto
  qed
qed

definition rsplit_inv :: "string \<Rightarrow> nat \<Rightarrow> char \<Rightarrow> nat \<Rightarrow> nat \<Rightarrow> string list \<Rightarrow> bool" where
  "rsplit_inv str n d last_pos pos result \<longleftrightarrow>
     (last_pos = size_npos \<or> last_pos < length str) \<and>
     join_with d (take last_pos str # rev result) = str \<and>
     (\<forall>x\<in>set result. d \<notin> set x) \<and> length result \<le> n - 1 \<and>
     (if pos = size_npos then d \<notin> set (take last_pos str)
      else pos < last_pos \<and> pos < length str \<and> str ! pos = d \<and> d \<notin> set (drop (Suc pos) (take last_pos str)))"

lemma size_sub_le: "b \<le> a \<Longrightarrow> a \<le> size_npos \<Longrightarrow> size_sub a b = a - b"
  by (simp add: size_sub_def mod_if size_npos_def)

lemma last_delim_inv:
  fixes str :: string and d :: char and lp :: nat
  assumes "length str < size_npos" and "0 < lp" and "lp = size_npos \<or> lp < length str"
  defines "pos \<equiv> find_last_of str d (size_sub lp 1)"
  shows "if pos = size_npos then d \<notin> set (take lp str)
    else pos < lp \<and> pos < length str \<and> str ! pos = d \<and> d \<notin> set (drop (Suc pos) (take lp str))"
proof -
  have sub: "size_sub lp 1 = lp - 1" using assms(1,2,3) by (intro size_sub_le) auto
  have idx: "\<exists>i. i \<le> lp - 1 \<and> i < length str \<and> str ! i = d \<and> k \<le> i" if "d \<in> set (drop k (take lp str))" for k
  proof -
    from that obtain i where "i < length (drop k (take lp str))" "drop k (take lp str) ! i = d"
      by (auto simp: in_set_conv_nth)
    moreover from this have "drop k (take lp str) ! i = str ! (k + i)" by (subst nth_drop) auto
    ultimately show ?thesis by (intro exI [of _ "k + i"]) auto
  qed
  from find_last_of_spec [OF assms(1), of d "lp - 1"] show ?thesis
  proof (elim disjE conjE)
    assume "find_last_of str d (lp - 1) = size_npos" "\<forall>i. i \<le> lp - 1 \<and> i < length str \<longrightarrow> str ! i \<noteq> d"
    with idx [of 0] show ?thesis unfolding pos_def sub by auto
  next
    assume *: "find_last_of str d (lp - 1) \<le> lp - 1" "find_last_of str d (lp - 1) < length str"
      "str ! find_last_of str d (lp - 1) = d"
      "\<forall>i. find_last_of str d (lp - 1) < i \<and> i \<le> lp - 1 \<and> i < length str \<longrightarrow> str ! i \<noteq> d"
    then have "d \<notin> set (drop (Suc (find_last_of str d (lp - 1))) (take lp str))"
      using idx by (metis Suc_le_lessD)
    with * assms(1,2) show ?thesis unfolding pos_def sub by auto
  qed
qed

lemma substr_before:
  assumes "pos < lp" and "lp = size_npos \<or> lp < length str" and "length str < size_npos" and "pos < length str"
  shows "substr str (pos + 1) (size_sub (size_sub lp pos) 1) = drop (Suc pos) (take lp str)"
proof -
  have "size_sub (size_sub lp pos) 1 = lp - pos - 1" using assms by (auto simp: size_sub_le)
  then show ?thesis by (simp add: substr_def drop_take)
qed

lemma take_split_at: "pos < lp \<Longrightarrow> pos < length str \<Longrightarrow>
   take lp str = take pos str @ [str ! pos] @ drop (Suc pos) (take lp str)"
  using id_take_nth_drop [of pos "take lp str"] by (simp add: min_def)

lemma rsplitN_loop_correct:
  assumes "length str < size_npos" and "str \<noteq> []" and "str ! 0 \<noteq> d" and "rsplit_inv str n d last_pos pos result"
    and "rsplitN_loop str n d last_pos pos result = (lp, res)"
  shows "\<exists>p. rsplit_inv str n d lp p res \<and> (p = size_npos \<or> n - 1 \<le> length res)"
  using assms
proof (induction str n d last_pos pos result rule: rsplitN_loop.induct)
  case (1 str n d last_pos pos result)
  show ?case
  proof (cases "pos \<noteq> size_npos \<and> length result < n - 1")
    case False
    then show ?thesis using "1.prems" by (subst (asm) rsplitN_loop.simps) (auto split: if_splits)
  next
    case True
    let ?tok = "substr str (pos + 1) (size_sub (size_sub last_pos pos) 1)"
    let ?pos' = "find_last_of str d (size_sub pos 1)"
    have inv: "pos < last_pos" "pos < length str" "str ! pos = d" "d \<notin> set (drop (Suc pos) (take last_pos str))"
      "last_pos = size_npos \<or> last_pos < length str" "join_with d (take last_pos str # rev result) = str"
      "\<forall>x\<in>set result. d \<notin> set x"
      using "1.prems"(4) True by (auto simp: rsplit_inv_def)
    have tok: "?tok = drop (Suc pos) (take last_pos str)" using inv "1.prems"(1) by (intro substr_before)
    have "0 < pos" using inv(3) "1.prems"(3) by (cases pos) auto
    with last_delim_inv [of str pos d] "1.prems"(1) inv(2)
    have nxt: "if ?pos' = size_npos then d \<notin> set (take pos str)
        else ?pos' < pos \<and> ?pos' < length str \<and> str ! ?pos' = d \<and> d \<notin> set (drop (Suc ?pos') (take pos str))"
      by simp
    have "join_with d (take pos str # ?tok # rev result) = join_with d (take last_pos str # rev result)"
      using inv(3) take_split_at [OF inv(1,2)] unfolding tok by (cases "rev result") (simp_all add: join_with_Cons)
    with nxt inv tok True have "rsplit_inv str n d pos ?pos' (result @ [?tok])"
      by (simp add: rsplit_inv_def split: if_splits)
    moreover have "rsplitN_loop str n d pos ?pos' (result @ [?tok]) = (lp, res)"
      using "1.prems"(5) True by (subst (asm) rsplitN_loop.simps) simp
    ultimately show ?thesis using "1.IH" [OF True "1.prems"(1-3)] by blast
  qed
qed

lemma rsplitN_tokens:
  assumes "length str < size_npos" and "str \<noteq> []" and "str ! 0 \<noteq> d" and "0 < n"
  shows "join_with d (rsplitN str n d) = str \<and> rsplitN str n d \<noteq> [] \<and> length (rsplitN str n d) \<le> n \<and>
    (\<forall>x\<in>set (tl (rsplitN str n d)). d \<notin> set x) \<and>
    (length (rsplitN str n d) < n \<longrightarrow> d \<notin> set (hd (rsplitN str n d)))"
proof -
  let ?pos = "find_last_of str d (size_sub size_npos 1)"
  obtain lp res where loop: "rsplitN_loop str n d size_npos ?pos [] = (lp, res)" by fastforce
  have "rsplit_inv str n d size_npos ?pos []"
    using last_delim_inv [of str size_npos d] assms(1,4) by (simp add: rsplit_inv_def split: if_splits)
  then obtain p where p: "rsplit_inv str n d lp p res" "p = size_npos \<or> n - 1 \<le> length res"
    using rsplitN_loop_correct [OF assms(1-3) _ loop] by blast
  have "rsplitN str n d = take lp str # rev res"
    using loop assms(2,4) by (simp add: rsplitN_def Let_def substr_def)
  with p assms(4) show ?thesis by (auto simp: rsplit_inv_def)
qed

section \<open>Rewriting substrings\<close>

lemma find_str_None: "find_str t s = None \<longleftrightarrow> \<not> sublist t s"
proof (induction t s rule: find_str.induct)
  case (2 t c cs)
  then show ?case by (simp add: sublist_Cons_right)
qed simp

lemma find_str_Some: "find_str t s = Some i \<Longrightarrow> prefix t (drop i s)"
  by (induction t s arbitrary: i rule: find_str.induct) (auto split: if_splits)

lemma removeAll_loop_terminates:
  assumes "t \<noteq> []" and "length target < fuel"
  shows "\<exists>r. removeAll_loop fuel target t = Some r \<and> \<not> sublist t r \<and> subseq r target"
  using assms(2)
proof (induction fuel arbitrary: target)
  case (Suc fuel)
  show ?case
  proof (cases "find_from target t 0")
    case None
    then have "\<not> sublist t target" by (simp add: find_from_def find_str_None)
    with None show ?thesis by simp
  next
    case (Some pos)
    let ?s = "take pos target @ drop (pos + length t) target"
    have b: "pos + length t \<le> length target" using find_from_bound [OF Some] by simp
    then have "length ?s < fuel" using assms(1) Suc.prems by (cases t) auto
    from Suc.IH [OF this] obtain r where r: "removeAll_loop fuel ?s t = Some r" "\<not> sublist t r" "subseq r ?s" by blast
    have "target = take pos target @ take (length t) (drop pos target) @ drop (pos + length t) target"
      by (metis add.commute append_take_drop_id drop_drop)
    then have "subseq ?s target"
      by (metis list_emb_append_mono subseq_order.refl subseq_drop_many)
    with r Some show ?thesis using subseq_order.trans by fastforce
  qed
qed simp

lemma find_str_empty [simp]: "find_str [] s = Some 0"
  by (cases s) simp_all

lemma removeAll_loop_empty: "removeAll_loop fuel target [] = None"
  by (induction fuel) (simp_all add: find_from_def)

text \<open>The left-to-right replacement that \<^verbatim>\<open>replaceAllInstances\<close> stands for.\<close>

function replace_spec :: "string \<Rightarrow> string \<Rightarrow> string \<Rightarrow> string" where
  "replace_spec f r s =
     (if s = [] \<or> f = [] then s
      else if prefix f s then r @ replace_spec f r (drop (length f) s)
      else hd s # replace_spec f r (tl s))"
  by pat_completeness auto
termination
  by (relation "measure (\<lambda>(f, r, s). length s)") auto

declare replace_spec.simps [simp del]

lemma replace_spec_find:
  assumes "f \<noteq> []"
  shows "replace_spec f r s =
    (case find_str f s of None \<Rightarrow> s
     | Some i \<Rightarrow> take i s @ r @ replace_spec f r (drop (i + length f) s))"
proof (induction s)
  case Nil
  then show ?case using assms by (simp add: replace_spec.simps)
next
  case (Cons c cs)
  show ?case
    using assms Cons.IH replace_spec.simps [of f r "c # cs"] by (auto split: option.splits)
qed

lemma replaceAll_loop_eq:
  assumes "f \<noteq> []" and "start \<le> length result"
  shows "replaceAll_loop f r result start = take start result @ replace_spec f r (drop start result)"
  using assms
proof (induction f r result start rule: replaceAll_loop.induct)
  case (1 f r result start)
  show ?case
  proof (cases "find_from result f start")
    case None
    then have "find_str f (drop start result) = None"
      using "1.prems"(2) by (simp add: find_from_def)
    with None "1.prems" replace_spec_find [OF "1.prems"(1), of r "drop start result"] show ?thesis
      by (simp add: replaceAll_loop.simps [of f r result start])
  next
    case (Some pos)
    let ?s = "take pos result @ r @ drop (pos + length f) result"
    obtain i where i: "find_str f (drop start result) = Some i" "pos = start + i"
      using Some "1.prems"(2) by (auto simp: find_from_def)
    have b: "start \<le> pos" "pos + length f \<le> length result" using find_from_bound [OF Some] by simp_all
    have "replaceAll_loop f r result start = replaceAll_loop f r ?s (pos + length r)"
      using Some "1.prems"(1) by (simp add: replaceAll_loop.simps [of f r result start])
    also have "\<dots> = take (pos + length r) ?s @ replace_spec f r (drop (pos + length r) ?s)"
      using "1.IH" [OF "1.prems"(1) Some] "1.prems"(1) b by simp
    also have "\<dots> = take pos result @ r @ replace_spec f r (drop (pos + length f) result)"
      using b by simp
    also have "take pos result = take start result @ take i (drop start result)"
      using i(2) by (simp add: take_add)
    also have "drop (pos + length f) result = drop (i + length f) (drop start result)"
      using i(2) by (simp add: add.commute add.left_commute)
    finally show ?thesis
      using replace_spec_find [OF "1.prems"(1), of r "drop start result"] i(1) by simp
  qed
qed

section \<open>Two comments that the code does not follow\<close>

text \<open>
  The header documents \<^verbatim>\<open>removePrefix("foo", "foo/bar")\<close> as \<^verbatim>\<open>bar\<close>; the delimiter stays
  in the result. A comment says \<^verbatim>\<open>removeBeforeDelimiter\<close> returns the empty string when there is
  no delimiter; it returns the whole string, because \<^verbatim>\<open>npos + 1\<close> wraps to 0.
\<close>

lemma removePrefix_keeps_delimiter:
  "pre \<noteq> [] \<Longrightarrow> removePrefix pre (pre @ [d] @ rest) d = d # rest"
  by (simp add: removePrefix_def startsWith_def)

lemma removeBeforeDelimiter_no_delimiter:
  assumes "d \<notin> set str"
  shows "removeBeforeDelimiter str d = str"
proof -
  have "filter (\<lambda>i. str ! i = d) [0..<min (Suc size_npos) (length str)] = []"
    using assms by (auto simp: filter_empty_conv)
  then show ?thesis by (simp add: removeBeforeDelimiter_def find_last_of_def size_npos_def)
qed

section \<open>What the string utilities guarantee\<close>

text \<open>
  \<^verbatim>\<open>rsplitN\<close> splits a non-empty string that does not begin with the delimiter from its
  right end: the tokens joined by the delimiter give the string back, there are at most \<open>n\<close> of them,
  no token but the first contains the delimiter, and the first contains it only if \<open>n\<close> tokens were
  used up.
\<close>

theorem rsplitN_correct:
  assumes "str \<noteq> []" and "\<not> startsWith_char str d" and "0 < n" and "length str < size_npos"
  shows "join_with d (rsplitN str n d) = str \<and> length (rsplitN str n d) \<le> n \<and>
    (\<forall>x\<in>set (tl (rsplitN str n d)). d \<notin> set x) \<and>
    (length (rsplitN str n d) < n \<longrightarrow> d \<notin> set (hd (rsplitN str n d)))"
proof -
  have "str ! 0 \<noteq> d" using assms(1,2) by (cases str) (simp_all add: startsWith_char_def)
  with rsplitN_tokens [OF assms(4,1) _ assms(3)] show ?thesis by blast
qed

theorem rsplitN_correct_witness:
  "join_with (CHR ''/'') (rsplitN ''a/b'' 2 (CHR ''/'')) = ''a/b'' \<and> length (rsplitN ''a/b'' 2 (CHR ''/'')) \<le> 2"
  using rsplitN_correct [of "''a/b''" "CHR ''/''" 2] by (simp add: startsWith_char_def size_npos_def)

text \<open>
  On a string that begins with the delimiter \<^verbatim>\<open>rsplitN\<close> goes wrong: the search position
  wraps around to \<^verbatim>\<open>npos\<close> and the last token is found again until \<open>n\<close> tokens are filled, so
  \<^verbatim>\<open>/a\<close> split into at most four tokens gives four tokens instead of two.
\<close>

theorem rsplitN_leading_delimiter:
  "rsplitN ''/a'' 4 (CHR ''/'') = ['''', ''a'', ''a'', ''a''] \<and>
   rsplitN ''/a'' 2 (CHR ''/'') = ['''', ''a'']"
proof -
  have pos: "find_last_of ''/a'' (CHR ''/'') (size_sub n 1) = 0" if "n = size_npos \<or> n = 0" for n
    using that by (auto simp: find_last_of_def size_sub_def size_npos_def min_def)
  have "size_npos \<noteq> 0" by (simp add: size_npos_def)
  moreover have "substr ''/a'' (0 + 1) (size_sub (size_sub n 0) 1) = ''a''" if "n = size_npos \<or> n = 0" for n
    using that by (auto simp: substr_def size_sub_def size_npos_def)
  ultimately show ?thesis
    using pos by (simp add: rsplitN_def Let_def rsplitN_loop.simps [of "''/a''"] substr_def)
qed

text \<open>
  \<^verbatim>\<open>removeAllInstances\<close> returns for every non-empty substring (as many rounds as the string
  has characters are enough): the result contains no instance any more and only characters of the
  target, in order. For the empty substring the loop never ends.
\<close>

theorem removeAllInstances_terminates:
  "(t \<noteq> [] \<longrightarrow> (\<exists>r. removeAllInstances (Suc (length target)) target t = Some r \<and>
       \<not> sublist t r \<and> subseq r target)) \<and>
   (\<forall>fuel. removeAllInstances fuel target [] = None)"
  using removeAll_loop_terminates [of t target "Suc (length target)"] removeAll_loop_empty
  by (simp add: removeAllInstances_def)

theorem removeAllInstances_terminates_witness:
  "\<exists>r. removeAllInstances (Suc (length ''aabb'')) ''aabb'' ''ab'' = Some r \<and> \<not> sublist ''ab'' r \<and> subseq r ''aabb''"
  using removeAllInstances_terminates [of "''ab''" "''aabb''"] by simp

text \<open>
  \<^verbatim>\<open>replaceAllInstances\<close>, which edits the string in place and continues searching behind
  each replacement, computes the left-to-right replacement of non-overlapping instances, and
  terminates also when the replacement contains the searched string.
\<close>

theorem replaceAllInstances_correct:
  "replaceAllInstances target f r = (if f = r then target else replace_spec f r target)"
  using replaceAll_loop_eq [of f 0 target r]
  by (auto simp: replaceAllInstances_def replace_spec.simps [of "[]"])

end
