(* ===== verification/Path.thy ===== *)
theory Path
  imports StringUtilities
begin

text \<open>
  \<^verbatim>\<open>axom::Path\<close> (\<^verbatim>\<open>core/Path.hpp\<close>, \<^verbatim>\<open>core/Path.cpp\<close>): a delimited name as a list
  of components, with the constructor from a string, the conversion back, joining, parent,
  base name and equality. The Sidre groups resolve their names through it.
\<close>

section \<open>Definitions\<close>

record Path =
  p_components :: "string list"
  p_delim :: char
  p_leading :: bool

definition Path_empty :: Path where
  "Path_empty = \<lparr>p_components = [], p_delim = CHR ''/'', p_leading = False\<rparr>"

definition Path_new :: "string \<Rightarrow> char \<Rightarrow> Path" where
  "Path_new path delim =
     (let leading = startsWith_char path delim;
          first_position = (if leading then 1 else 0);
          components =
            (if find_from path [delim] first_position \<noteq> None
             then filter (\<lambda>s. s \<noteq> []) (split path delim)
             else if path \<noteq> []
             then (if leading then (if length path > 1 then [drop 1 path] else []) else [path])
             else [])
      in \<lparr>p_components = components, p_delim = delim, p_leading = leading\<rparr>)"

abbreviation Path_parts :: "Path \<Rightarrow> string list" where
  "Path_parts \<equiv> p_components"

definition Path_join :: "Path list \<Rightarrow> char \<Rightarrow> Path" where
  "Path_join paths delim =
     \<lparr>p_components = concat (map p_components paths), p_delim = delim,
      p_leading = (if length paths \<noteq> 0 \<and> p_leading (hd paths) then True else False)\<rparr>"

definition Path_string :: "Path \<Rightarrow> string" where
  "Path_string p = (if p_leading p then [p_delim p] else []) @ join_with (p_delim p) (p_components p)"

definition Path_parent :: "Path \<Rightarrow> Path" where
  "Path_parent p =
     (if p_components p \<noteq> [] then p\<lparr>p_components := butlast (p_components p)\<rparr> else p)"

definition Path_baseName :: "Path \<Rightarrow> string" where
  "Path_baseName p = (if p_components p = [] then [] else last (p_components p))"

definition Path_dirName :: "Path \<Rightarrow> string" where
  "Path_dirName p = Path_string (Path_parent p)"

definition Path_split :: "Path \<Rightarrow> string \<times> string" where
  "Path_split p = (Path_dirName p, Path_baseName p)"

definition Path_eq :: "Path \<Rightarrow> Path \<Rightarrow> bool" where
  "Path_eq lhs rhs \<longleftrightarrow> Path_string lhs = Path_string rhs"

section \<open>Components\<close>

text \<open>A path whose components are non-empty and free of the delimiter.\<close>

definition path_ok :: "Path \<Rightarrow> bool" where
  "path_ok p \<longleftrightarrow> (\<forall>x\<in>set (p_components p). x \<noteq> [] \<and> p_delim p \<notin> set x)"

lemma find_char: "find_from s [d] p = None \<longleftrightarrow> \<not> (p \<le> length s \<and> d \<in> set (drop p s))"
proof -
  have "find_str [d] s = None \<longleftrightarrow> d \<notin> set s" for s
    by (induction s) (auto simp: prefix_Cons)
  then show ?thesis by (auto simp: find_from_def)
qed

text \<open>Whatever branch the constructor takes, the components are the non-empty tokens.\<close>

lemma Path_new_components: "p_components (Path_new s d) = filter (\<lambda>x. x \<noteq> []) (split s d)"
proof (cases "find_from s [d] (if startsWith_char s d then 1 else 0) \<noteq> None")
  case True
  then show ?thesis by (simp add: Path_new_def Let_def)
next
  case nofind: False
  show ?thesis
  proof (cases "startsWith_char s d")
    case True
    then obtain t where s: "s = d # t" by (cases s) (auto simp: startsWith_char_def)
    with nofind True have "d \<notin> set t" by (simp add: find_char)
    then have "split s d = [] # (if t = [] then [] else [t])"
      using split_token [of d "[]" t] s by (simp add: split_single)
    with nofind True s show ?thesis by (simp add: Path_new_def Let_def)
  next
    case False
    with nofind have "d \<notin> set s" by (simp add: find_char)
    with nofind False show ?thesis by (cases "s = []") (simp_all add: Path_new_def Let_def split_single)
  qed
qed

lemma Path_new_simps [simp]:
  "p_delim (Path_new s d) = d" "p_leading (Path_new s d) = startsWith_char s d"
  by (simp_all add: Path_new_def Let_def)

lemma Path_new_ok [simp]: "path_ok (Path_new s d)"
  by (auto simp: path_ok_def Path_new_components split_no_delim)

lemma startsWith_join:
  assumes "\<forall>x\<in>set xs. x \<noteq> [] \<and> d \<notin> set x"
  shows "\<not> startsWith_char (join_with d xs) d"
proof (cases xs)
  case (Cons x ys)
  then obtain c cs where "x = c # cs" "c \<noteq> d" using assms by (cases x) auto
  with Cons show ?thesis by (cases ys) (simp_all add: startsWith_char_def)
qed (simp add: startsWith_char_def)

lemma Path_new_string:
  assumes "path_ok p"
  shows "Path_new (Path_string p) (p_delim p) = p"
proof (rule Path.equality)
  let ?d = "p_delim p"
  have ok: "\<forall>x\<in>set (p_components p). x \<noteq> [] \<and> ?d \<notin> set x" using assms by (simp add: path_ok_def)
  have "split (Path_string p) ?d = (if p_leading p then [[]] else []) @ p_components p"
    using split_join [OF ok] split_token [of ?d "[]"] by (simp add: Path_string_def)
  moreover have "filter (\<lambda>x. x \<noteq> []) (p_components p) = p_components p" using ok by (simp add: filter_id_conv)
  ultimately show "p_components (Path_new (Path_string p) ?d) = p_components p"
    by (simp add: Path_new_components)
  show "p_leading (Path_new (Path_string p) ?d) = p_leading p"
    using startsWith_join [OF ok] by (auto simp: Path_string_def startsWith_char_def)
qed simp_all

lemma Path_parent_ok [simp]: "path_ok p \<Longrightarrow> path_ok (Path_parent p)"
  by (auto simp: path_ok_def Path_parent_def dest: in_set_butlastD)

lemma path_single: "x \<noteq> [] \<Longrightarrow> d \<notin> set x \<Longrightarrow>
   Path_new x d = \<lparr>p_components = [x], p_delim = d, p_leading = False\<rparr>"
  using Path_new_string [of "\<lparr>p_components = [x], p_delim = d, p_leading = False\<rparr>"]
  by (simp add: path_ok_def Path_string_def)

lemma Path_join_ok: "\<forall>p\<in>set ps. path_ok p \<and> p_delim p = d \<Longrightarrow> path_ok (Path_join ps d)"
  by (auto simp: path_ok_def Path_join_def)

text \<open>The directory name and the base name of a path, parsed and joined, are the path.\<close>

lemma Path_split_join:
  assumes "path_ok p" and "p_delim p = d"
  shows "Path_join [Path_new (Path_dirName p) d, Path_new (Path_baseName p) d] d = p"
proof -
  have "p_delim (Path_parent p) = d" using assms(2) by (simp add: Path_parent_def)
  then have dir: "Path_new (Path_dirName p) d = Path_parent p"
    using Path_new_string [OF Path_parent_ok [OF assms(1)]] by (simp add: Path_dirName_def)
  show ?thesis
  proof (cases "p_components p = []")
    case True
    then have "Path_new (Path_baseName p) d = \<lparr>p_components = [], p_delim = d, p_leading = False\<rparr>"
      by (simp add: Path_baseName_def Path_new_def startsWith_char_def find_from_def)
    with True assms(2) show ?thesis unfolding dir by (simp add: Path_join_def Path_parent_def)
  next
    case False
    then have "last (p_components p) \<noteq> []" "d \<notin> set (last (p_components p))" using assms by (auto simp: path_ok_def)
    with False assms(2) show ?thesis unfolding dir by (simp add: Path_join_def Path_parent_def Path_baseName_def path_single)
  qed
qed

section \<open>What paths guarantee\<close>

text \<open>
  C20. Converting a path that was built from a string back to a string and parsing it again gives the
  same path, so conversion normalises a name once; its components are never empty and never contain
  the delimiter. Two paths with one delimiter are equal exactly when they have the same components and agree on the leading delimiter,
  so \<^verbatim>\<open>/foo\<close> and \<^verbatim>\<open>foo\<close> differ. The path that \<^verbatim>\<open>join\<close> makes of paths with one delimiter has their components in order and the leading delimiter of the first, and
  survives printing and parsing. The two strings that \<^verbatim>\<open>split\<close> returns, \<^verbatim>\<open>dirName\<close> and \<^verbatim>\<open>baseName\<close>, parsed and joined again give
  the path.
\<close>

theorem path_roundtrip:
  "Path_new (Path_string (Path_new s d)) d = Path_new s d \<and>
   (\<forall>x\<in>set (Path_parts (Path_new s d)). x \<noteq> [] \<and> d \<notin> set x) \<and>
   (Path_eq (Path_new s d) (Path_new t d) \<longleftrightarrow>
      Path_parts (Path_new s d) = Path_parts (Path_new t d) \<and> startsWith_char s d = startsWith_char t d) \<and>
   (let p = Path_join (map (\<lambda>u. Path_new u d) us) d
    in Path_parts p = concat (map (\<lambda>u. Path_parts (Path_new u d)) us) \<and>
       p_leading p = (us \<noteq> [] \<and> startsWith_char (hd us) d) \<and> Path_new (Path_string p) d = p) \<and>
   (let (dir, base) = Path_split (Path_new s d)
    in dir = Path_dirName (Path_new s d) \<and> base = Path_baseName (Path_new s d) \<and>
       Path_join [Path_new dir d, Path_new base d] d = Path_new s d)"
proof -
  have inv: "Path_new (Path_string (Path_new u d)) d = Path_new u d" for u
    using Path_new_string [of "Path_new u d"] by simp
  have "Path_eq (Path_new s d) (Path_new t d) \<longleftrightarrow> Path_new s d = Path_new t d"
    unfolding Path_eq_def by (metis inv)
  moreover have "Path_new s d = Path_new t d \<longleftrightarrow>
      Path_parts (Path_new s d) = Path_parts (Path_new t d) \<and> startsWith_char s d = startsWith_char t d"
    using Path.equality [of "Path_new s d" "Path_new t d"] Path_new_simps by (metis old.unit.exhaust)
  moreover have "Path_new (Path_string (Path_join (map (\<lambda>u. Path_new u d) us) d)) d = Path_join (map (\<lambda>u. Path_new u d) us) d"
    using Path_new_string [OF Path_join_ok, of "map (\<lambda>u. Path_new u d) us" d] by (simp add: Path_join_def)
  moreover have "Path_parts (Path_join (map (\<lambda>u. Path_new u d) us) d) = concat (map (\<lambda>u. Path_parts (Path_new u d)) us)"
    by (simp add: Path_join_def comp_def)
  moreover have "p_leading (Path_join (map (\<lambda>u. Path_new u d) us) d) = (us \<noteq> [] \<and> startsWith_char (hd us) d)"
    by (cases us) (simp_all add: Path_join_def)
  moreover have "\<forall>x\<in>set (Path_parts (Path_new s d)). x \<noteq> [] \<and> d \<notin> set x"
    using Path_new_ok [of s d] by (simp add: path_ok_def)
  ultimately show ?thesis using inv Path_split_join [of "Path_new s d" d] by (simp add: Path_split_def)
qed

theorem path_roundtrip_witness:
  "Path_new (Path_string (Path_new ''/a//b/'' (CHR ''/''))) (CHR ''/'') = Path_new ''/a//b/'' (CHR ''/'') \<and>
   Path_join [Path_new (Path_dirName (Path_new ''/a//b/'' (CHR ''/''))) (CHR ''/''),
     Path_new (Path_baseName (Path_new ''/a//b/'' (CHR ''/''))) (CHR ''/'')] (CHR ''/'') = Path_new ''/a//b/'' (CHR ''/'') \<and>
   \<not> Path_eq (Path_new ''/foo'' (CHR ''/'')) (Path_new ''foo'' (CHR ''/''))"
  using path_roundtrip [of "''/a//b/''" "CHR ''/''" "[]" "[]"] path_roundtrip [of "''/foo''" "CHR ''/''" "''foo''" "[]"]
  by (simp add: Path_split_def startsWith_char_def)

end
