(* ===== verification/SidreGroup.thy ===== *)
theory SidreGroup
  imports SidreInvariant Path
begin

text \<open>
  The group tree of Sidre (\<^verbatim>\<open>sidre/core/Group.cpp\<close>, \<^verbatim>\<open>Group.hpp\<close>): groups own views and
  child groups in collections, in the map format (by name and index) or the list format (by index
  only). Groups, like views and buffers, are objects of an explicit heap: a \<^verbatim>\<open>Group*\<close> is an id,
  \<^verbatim>\<open>m_parent\<close>, \<^verbatim>\<open>m_owning_group\<close> and the two \<^verbatim>\<open>m_index\<close> fields are stored as
  the code stores them. The data of views and buffers is the store of the theories before, one
  component of the world. A failing assertion of a cast to the named collections and the use of a
  null pointer are the values of type \<open>fault\<close>.
\<close>

section \<open>Collections chosen at run time\<close>

text \<open>\<^verbatim>\<open>ItemCollection<T>*\<close>: a \<^verbatim>\<open>MapCollection\<close> or a \<^verbatim>\<open>ListCollection\<close>, with its virtual methods.\<close>

datatype 'a coll = MapColl "'a MapCollection" | ListColl "'a ListCollection"

fun coll_items :: "'a coll \<Rightarrow> 'a option list" where
  "coll_items (MapColl c) = mc_items c"
| "coll_items (ListColl c) = lc_items c"

fun coll_getNumItems :: "'a coll \<Rightarrow> int" where
  "coll_getNumItems (MapColl c) = MapCollection_getNumItems c"
| "coll_getNumItems (ListColl c) = ListCollection_getNumItems c"

fun coll_hasItem :: "'a coll \<Rightarrow> int \<Rightarrow> bool" where
  "coll_hasItem (MapColl c) idx = MapCollection_hasItem c idx"
| "coll_hasItem (ListColl c) idx = ListCollection_hasItem c idx"

fun coll_getItem :: "'a coll \<Rightarrow> int \<Rightarrow> 'a option" where
  "coll_getItem (MapColl c) idx = MapCollection_getItem c idx"
| "coll_getItem (ListColl c) idx = ListCollection_getItem c idx"

fun coll_first :: "'a coll \<Rightarrow> int" where
  "coll_first (MapColl c) = MapCollection_getFirstValidIndex c"
| "coll_first (ListColl c) = ListCollection_getFirstValidIndex c"

fun coll_next :: "'a coll \<Rightarrow> int \<Rightarrow> int" where
  "coll_next (MapColl c) idx = MapCollection_getNextValidIndex c idx"
| "coll_next (ListColl c) idx = ListCollection_getNextValidIndex c idx"

fun coll_insertItem :: "'a coll \<Rightarrow> string \<Rightarrow> 'a \<Rightarrow> 'a coll \<times> int" where
  "coll_insertItem (MapColl c) name x = (let (c, i) = MapCollection_insertItem c name x in (MapColl c, i))"
| "coll_insertItem (ListColl c) name x = (let (c, i) = ListCollection_insertItem c name x in (ListColl c, i))"

fun coll_removeItem :: "('a \<Rightarrow> string) \<Rightarrow> 'a coll \<Rightarrow> int \<Rightarrow> 'a coll \<times> 'a option" where
  "coll_removeItem name_of (MapColl c) idx = (let (c, x) = MapCollection_removeItem name_of c idx in (MapColl c, x))"
| "coll_removeItem name_of (ListColl c) idx = (let (c, x) = ListCollection_removeItem c idx in (ListColl c, x))"

fun coll_removeAllItems :: "'a coll \<Rightarrow> 'a coll" where
  "coll_removeAllItems (MapColl c) = MapColl (MapCollection_removeAllItems c)"
| "coll_removeAllItems (ListColl c) = ListColl (ListCollection_removeAllItems c)"

section \<open>State\<close>

type_synonym group_id = nat

record Group =
  g_name :: string
  g_index :: int
  g_parent :: "group_id option"
  g_is_list :: bool
  g_views :: "view_id coll"
  g_groups :: "group_id coll"

text \<open>
  The world: the store of buffers and view contents, the groups, and for every view its
  \<^verbatim>\<open>m_name\<close>, \<^verbatim>\<open>m_owning_group\<close> and \<^verbatim>\<open>m_index\<close>. The root group has id 0.
\<close>

record ('d, 'n) world =
  w_store :: "('d, 'n) store"
  w_groups :: "group_id \<Rightarrow> Group option"
  next_group :: group_id
  next_view :: view_id
  v_name :: "view_id \<Rightarrow> string"
  v_owner :: "view_id \<Rightarrow> group_id option"
  v_index :: "view_id \<Rightarrow> int"

abbreviation root :: group_id where "root \<equiv> 0"

abbreviation grp :: "('d, 'n) world \<Rightarrow> group_id \<Rightarrow> Group" where
  "grp w g \<equiv> the (w_groups w g)"

definition upd_group :: "group_id \<Rightarrow> (Group \<Rightarrow> Group) \<Rightarrow> ('d, 'n) world \<Rightarrow> ('d, 'n) world" where
  "upd_group g f w = w\<lparr>w_groups := (w_groups w)(g \<mapsto> f (grp w g))\<rparr>"

definition group_name :: "('d, 'n) world \<Rightarrow> group_id \<Rightarrow> string" where
  "group_name w g = g_name (grp w g)"

datatype fault = BadCast | NullDeref | OutOfFuel

fun res_bind :: "fault + 'a \<Rightarrow> ('a \<Rightarrow> fault + 'b) \<Rightarrow> fault + 'b" where
  "res_bind (Inl e) f = Inl e"
| "res_bind (Inr x) f = f x"

text \<open>\<^verbatim>\<open>Group::Group(name, datastore, is_list)\<close> and \<^verbatim>\<open>DataStore::DataStore()\<close>.\<close>

definition Group_new :: "string \<Rightarrow> bool \<Rightarrow> Group" where
  "Group_new name is_list =
     \<lparr>g_name = name, g_index = InvalidIndex, g_parent = None, g_is_list = is_list,
      g_views = (if is_list then ListColl ListCollection_new else MapColl MapCollection_new),
      g_groups = (if is_list then ListColl ListCollection_new else MapColl MapCollection_new)\<rparr>"

definition World_new :: "('d, 'n) world" where
  "World_new =
     \<lparr>w_store = DataStore_new, w_groups = [root \<mapsto> (Group_new [] False)\<lparr>g_parent := Some root\<rparr>],
      next_group = 1, next_view = 0, v_name = (\<lambda>_. []), v_owner = (\<lambda>_. None), v_index = (\<lambda>_. InvalidIndex)\<rparr>"

section \<open>Named collections and children\<close>

definition isUsingMap :: "Group \<Rightarrow> bool" where
  "isUsingMap G \<longleftrightarrow> \<not> g_is_list G"

definition getNamedViews :: "('d, 'n) world \<Rightarrow> group_id \<Rightarrow> fault + view_id MapCollection" where
  "getNamedViews w g = (case g_views (grp w g) of MapColl c \<Rightarrow> Inr c | ListColl _ \<Rightarrow> Inl BadCast)"

definition getNamedGroups :: "('d, 'n) world \<Rightarrow> group_id \<Rightarrow> fault + group_id MapCollection" where
  "getNamedGroups w g = (case g_groups (grp w g) of MapColl c \<Rightarrow> Inr c | ListColl _ \<Rightarrow> Inl BadCast)"

definition hasChildView :: "('d, 'n) world \<Rightarrow> group_id \<Rightarrow> string \<Rightarrow> bool" where
  "hasChildView w g name \<longleftrightarrow>
     isUsingMap (grp w g) \<and>
     (case getNamedViews w g of Inr c \<Rightarrow> MapCollection_hasItem_named c name | Inl _ \<Rightarrow> False)"

definition hasChildGroup :: "('d, 'n) world \<Rightarrow> group_id \<Rightarrow> string \<Rightarrow> bool" where
  "hasChildGroup w g name \<longleftrightarrow>
     isUsingMap (grp w g) \<and>
     (case getNamedGroups w g of Inr c \<Rightarrow> MapCollection_hasItem_named c name | Inl _ \<Rightarrow> False)"

definition getView_at :: "('d, 'n) world \<Rightarrow> group_id \<Rightarrow> int \<Rightarrow> view_id option" where
  "getView_at w g idx = coll_getItem (g_views (grp w g)) idx"

definition getGroup_at :: "('d, 'n) world \<Rightarrow> group_id \<Rightarrow> int \<Rightarrow> group_id option" where
  "getGroup_at w g idx = coll_getItem (g_groups (grp w g)) idx"

definition getViewIndex :: "('d, 'n) world \<Rightarrow> group_id \<Rightarrow> string \<Rightarrow> fault + int" where
  "getViewIndex w g name = res_bind (getNamedViews w g) (\<lambda>c. Inr (MapCollection_getItemIndex c name))"

definition getViewName :: "('d, 'n) world \<Rightarrow> group_id \<Rightarrow> int \<Rightarrow> fault + string" where
  "getViewName w g idx = res_bind (getNamedViews w g) (\<lambda>c. Inr (MapCollection_getItemName (v_name w) c idx))"

definition getGroupIndex :: "('d, 'n) world \<Rightarrow> group_id \<Rightarrow> string \<Rightarrow> fault + int" where
  "getGroupIndex w g name = res_bind (getNamedGroups w g) (\<lambda>c. Inr (MapCollection_getItemIndex c name))"

definition getGroupName :: "('d, 'n) world \<Rightarrow> group_id \<Rightarrow> int \<Rightarrow> fault + string" where
  "getGroupName w g idx = res_bind (getNamedGroups w g) (\<lambda>c. Inr (MapCollection_getItemName (group_name w) c idx))"

definition getNumViews :: "('d, 'n) world \<Rightarrow> group_id \<Rightarrow> int" where
  "getNumViews w g = coll_getNumItems (g_views (grp w g))"

definition getNumGroups :: "('d, 'n) world \<Rightarrow> group_id \<Rightarrow> int" where
  "getNumGroups w g = coll_getNumItems (g_groups (grp w g))"

section \<open>Attaching and detaching\<close>

text \<open>
  \<^verbatim>\<open>attachView\<close>; its assertion that the view has no owner is met by all callers, which attach
  new or just detached views. A refused attachment returns the null pointer.
\<close>

definition attachView :: "('d, 'n) world \<Rightarrow> group_id \<Rightarrow> view_id \<Rightarrow> ('d, 'n) world \<times> view_id option" where
  "attachView w g v =
     (if v_name w v \<noteq> [] \<and> hasChildView w g (v_name w v) then (w, None)
      else let (c, i) = coll_insertItem (g_views (grp w g)) (v_name w v) v;
               w = upd_group g (\<lambda>G. G\<lparr>g_views := c\<rparr>) w
           in (w\<lparr>v_owner := (v_owner w)(v := Some g), v_index := (v_index w)(v := i)\<rparr>, Some v))"

definition forget_owner :: "view_id option \<Rightarrow> ('d, 'n) world \<Rightarrow> ('d, 'n) world" where
  "forget_owner vp w =
     (case vp of None \<Rightarrow> w
      | Some v \<Rightarrow> w\<lparr>v_owner := (v_owner w)(v := None), v_index := (v_index w)(v := InvalidIndex)\<rparr>)"

definition detachView :: "('d, 'n) world \<Rightarrow> group_id \<Rightarrow> string \<Rightarrow> fault + ('d, 'n) world \<times> view_id option" where
  "detachView w g name =
     res_bind (getNamedViews w g) (\<lambda>c.
       let (c, vp) = MapCollection_removeItem_named c name
       in Inr (forget_owner vp (upd_group g (\<lambda>G. G\<lparr>g_views := MapColl c\<rparr>) w), vp))"

definition detachView_at :: "('d, 'n) world \<Rightarrow> group_id \<Rightarrow> int \<Rightarrow> ('d, 'n) world \<times> view_id option" where
  "detachView_at w g idx =
     (let (c, vp) = coll_removeItem (v_name w) (g_views (grp w g)) idx
      in (forget_owner vp (upd_group g (\<lambda>G. G\<lparr>g_views := c\<rparr>) w), vp))"

definition attachGroup :: "('d, 'n) world \<Rightarrow> group_id \<Rightarrow> group_id \<Rightarrow> ('d, 'n) world \<times> group_id option" where
  "attachGroup w g c =
     (if group_name w c \<noteq> [] \<and> hasChildGroup w g (group_name w c) then (w, None)
      else let w = upd_group c (\<lambda>C. C\<lparr>g_parent := Some g\<rparr>) w;
               (coll, i) = coll_insertItem (g_groups (grp w g)) (group_name w c) c;
               w = upd_group g (\<lambda>G. G\<lparr>g_groups := coll\<rparr>) w
           in (upd_group c (\<lambda>C. C\<lparr>g_index := i\<rparr>) w, Some c))"

definition orphan :: "group_id option \<Rightarrow> ('d, 'n) world \<Rightarrow> ('d, 'n) world" where
  "orphan child w =
     (case child of None \<Rightarrow> w
      | Some c \<Rightarrow> upd_group c (\<lambda>C. C\<lparr>g_parent := None, g_index := InvalidIndex\<rparr>) w)"

definition detachGroup :: "('d, 'n) world \<Rightarrow> group_id \<Rightarrow> string \<Rightarrow> fault + ('d, 'n) world \<times> group_id option" where
  "detachGroup w g name =
     res_bind (getNamedGroups w g) (\<lambda>c.
       let (c, child) = MapCollection_removeItem_named c name
       in Inr (orphan child (upd_group g (\<lambda>G. G\<lparr>g_groups := MapColl c\<rparr>) w), child))"

definition detachGroup_at :: "('d, 'n) world \<Rightarrow> group_id \<Rightarrow> int \<Rightarrow> ('d, 'n) world \<times> group_id option" where
  "detachGroup_at w g idx =
     (let (c, child) = coll_removeItem (group_name w) (g_groups (grp w g)) idx
      in (orphan child (upd_group g (\<lambda>G. G\<lparr>g_groups := c\<rparr>) w), child))"

section \<open>Creating groups and walking paths\<close>

text \<open>
  \<^verbatim>\<open>createGroup\<close> behind its call of \<^verbatim>\<open>walkPath\<close>: create a child of the group that owns the
  last component. A name of one component is resolved by \<^verbatim>\<open>walkPath\<close> to the group itself, so
  this is also what the recursive call inside \<^verbatim>\<open>walkPath\<close> does.
\<close>

definition createChildGroup :: "('d, 'n) world \<Rightarrow> group_id \<Rightarrow> string \<Rightarrow> bool \<Rightarrow> ('d, 'n) world \<times> group_id option" where
  "createChildGroup w g name is_list =
     (if name = [] \<or> hasChildGroup w g name \<or> hasChildView w g name then (w, None)
      else let new_group = next_group w;
               w = w\<lparr>w_groups := (w_groups w)(new_group \<mapsto> Group_new name is_list), next_group := Suc (next_group w)\<rparr>
           in attachGroup w g new_group)"

definition named_child :: "('d, 'n) world \<Rightarrow> group_id \<Rightarrow> string \<Rightarrow> group_id option" where
  "named_child w g name =
     (case getNamedGroups w g of Inr c \<Rightarrow> MapCollection_getItem_named c name | Inl _ \<Rightarrow> None)"

fun walk_parts :: "('d, 'n) world \<Rightarrow> group_id \<Rightarrow> string list \<Rightarrow> bool \<Rightarrow> ('d, 'n) world \<times> group_id option" where
  "walk_parts w g [] create = (w, Some g)"
| "walk_parts w g (part # parts) create =
     (if hasChildGroup w g part
      then (case named_child w g part of None \<Rightarrow> (w, None) | Some c \<Rightarrow> walk_parts w c parts create)
      else if create
      then (case createChildGroup w g part False of
              (w, None) \<Rightarrow> (w, None)
            | (w, Some c) \<Rightarrow> walk_parts w c parts create)
      else (w, None))"

text \<open>
  \<^verbatim>\<open>walkPath(path, create_groups_in_path)\<close> returns the group and overwrites the path with its
  last component; a path without components is left as it is. The const version has no test for
  the list format.
\<close>

abbreviation path_parts :: "string \<Rightarrow> string list" where
  "path_parts path \<equiv> Path_parts (Path_new path (CHR ''/''))"

definition walkPath :: "('d, 'n) world \<Rightarrow> group_id \<Rightarrow> string \<Rightarrow> bool \<Rightarrow> (('d, 'n) world \<times> group_id option) \<times> string" where
  "walkPath w g path create =
     (let parts = path_parts path
      in if length parts > 0
         then if g_is_list (grp w g) \<and> length parts > 1 then ((w, None), path)
              else (walk_parts w g (butlast parts) create, last parts)
         else ((w, Some g), path))"

definition walkPath_const :: "('d, 'n) world \<Rightarrow> group_id \<Rightarrow> string \<Rightarrow> group_id option \<times> string" where
  "walkPath_const w g path =
     (let parts = path_parts path
      in if length parts > 0
         then (snd (walk_parts w g (butlast parts) False), last parts)
         else (Some g, path))"

definition createGroup :: "('d, 'n) world \<Rightarrow> group_id \<Rightarrow> string \<Rightarrow> bool \<Rightarrow> ('d, 'n) world \<times> group_id option" where
  "createGroup w g path is_list =
     (case walkPath w g path True of
        ((w, None), name) \<Rightarrow> (w, None)
      | ((w, Some h), name) \<Rightarrow> createChildGroup w h name is_list)"

definition createUnnamedGroup :: "('d, 'n) world \<Rightarrow> group_id \<Rightarrow> bool \<Rightarrow> ('d, 'n) world \<times> group_id option" where
  "createUnnamedGroup w g is_list =
     (if g_is_list (grp w g)
      then let new_group = next_group w;
               w = w\<lparr>w_groups := (w_groups w)(new_group \<mapsto> Group_new [] is_list), next_group := Suc (next_group w)\<rparr>
           in attachGroup w g new_group
      else (w, None))"

definition hasView :: "('d, 'n) world \<Rightarrow> group_id \<Rightarrow> string \<Rightarrow> bool" where
  "hasView w g path =
     (case walkPath_const w g path of (None, name) \<Rightarrow> False | (Some h, name) \<Rightarrow> hasChildView w h name)"

definition hasGroup :: "('d, 'n) world \<Rightarrow> group_id \<Rightarrow> string \<Rightarrow> bool" where
  "hasGroup w g path =
     (case walkPath_const w g path of (None, name) \<Rightarrow> False | (Some h, name) \<Rightarrow> hasChildGroup w h name)"

definition getView :: "('d, 'n) world \<Rightarrow> group_id \<Rightarrow> string \<Rightarrow> fault + view_id option" where
  "getView w g path =
     (case walkPath w g path False of
        ((_, None), name) \<Rightarrow> Inr None
      | ((_, Some h), name) \<Rightarrow> res_bind (getNamedViews w h) (\<lambda>c. Inr (MapCollection_getItem_named c name)))"

definition getGroup :: "('d, 'n) world \<Rightarrow> group_id \<Rightarrow> string \<Rightarrow> fault + group_id option" where
  "getGroup w g path =
     (case walkPath w g path False of
        ((_, None), name) \<Rightarrow> Inr None
      | ((_, Some h), name) \<Rightarrow> res_bind (getNamedGroups w h) (\<lambda>c. Inr (MapCollection_getItem_named c name)))"

definition getView_const :: "('d, 'n) world \<Rightarrow> group_id \<Rightarrow> string \<Rightarrow> fault + view_id option" where
  "getView_const w g path =
     (case walkPath_const w g path of
        (None, name) \<Rightarrow> Inr None
      | (Some h, name) \<Rightarrow> res_bind (getNamedViews w h) (\<lambda>c. Inr (MapCollection_getItem_named c name)))"

definition getGroup_const :: "('d, 'n) world \<Rightarrow> group_id \<Rightarrow> string \<Rightarrow> fault + group_id option" where
  "getGroup_const w g path =
     (case walkPath_const w g path of
        (None, name) \<Rightarrow> Inr None
      | (Some h, name) \<Rightarrow> res_bind (getNamedGroups w h) (\<lambda>c. Inr (MapCollection_getItem_named c name)))"

section \<open>Creating views\<close>

text \<open>\<^verbatim>\<open>new View(intpath)\<close> and \<^verbatim>\<open>group->attachView(view)\<close>.\<close>

definition createChildView :: "('d, 'n) env \<Rightarrow> ('d, 'n) world \<Rightarrow> group_id \<Rightarrow> string \<Rightarrow> ('d, 'n) world \<times> view_id option" where
  "createChildView E w g name =
     (let v = next_view w;
          w = w\<lparr>w_store := View_create E v (w_store w), next_view := Suc (next_view w),
                v_name := (v_name w)(v := name), v_owner := (v_owner w)(v := None),
                v_index := (v_index w)(v := InvalidIndex)\<rparr>
      in (fst (attachView w g v), Some v))"

definition createView :: "('d, 'n) env \<Rightarrow> ('d, 'n) world \<Rightarrow> group_id \<Rightarrow> string \<Rightarrow> ('d, 'n) world \<times> view_id option" where
  "createView E w g path =
     (if path = []
      then if g_is_list (grp w g) then createChildView E w g [] else (w, None)
      else case walkPath w g path True of
             ((w, None), name) \<Rightarrow> (w, None)
           | ((w, Some h), name) \<Rightarrow>
               if name = [] \<or> hasChildView w h name \<or> hasChildGroup w h name then (w, None)
               else createChildView E w h name)"

text \<open>The other overloads act on the new view, if there is one.\<close>

definition with_view :: "(view_id \<Rightarrow> ('d, 'n) store \<Rightarrow> ('d, 'n) store) \<Rightarrow>
    ('d, 'n) world \<times> view_id option \<Rightarrow> ('d, 'n) world \<times> view_id option" where
  "with_view f wv =
     (case wv of (w, None) \<Rightarrow> (w, None) | (w, Some v) \<Rightarrow> (w\<lparr>w_store := f v (w_store w)\<rparr>, Some v))"

definition createView_typed ::
  "('d, 'n) env \<Rightarrow> ('d, 'n) world \<Rightarrow> group_id \<Rightarrow> string \<Rightarrow> int \<Rightarrow> int \<Rightarrow> ('d, 'n) world \<times> view_id option" where
  "createView_typed E w g path type num_elems =
     (if type = no_type_id E \<or> num_elems < 0 then (w, None)
      else with_view (\<lambda>v. upd_view v (describe E type num_elems)) (createView E w g path))"

definition createViewWithShape ::
  "('d, 'n) env \<Rightarrow> ('d, 'n) world \<Rightarrow> group_id \<Rightarrow> string \<Rightarrow> int \<Rightarrow> int \<Rightarrow> int list option \<Rightarrow> ('d, 'n) world \<times> view_id option" where
  "createViewWithShape E w g path type ndims shape =
     (if type = no_type_id E \<or> ndims < 0 \<or> shape = None then (w, None)
      else with_view (\<lambda>v. upd_view v (describe_shape E type ndims shape)) (createView E w g path))"

definition createView_dtype ::
  "('d, 'n) env \<Rightarrow> ('d, 'n) world \<Rightarrow> group_id \<Rightarrow> string \<Rightarrow> 'd \<Rightarrow> ('d, 'n) world \<times> view_id option" where
  "createView_dtype E w g path dtype =
     with_view (\<lambda>v. upd_view v (describe_dtype E dtype)) (createView E w g path)"

definition createView_buffer ::
  "('d, 'n) env \<Rightarrow> ('d, 'n) world \<Rightarrow> group_id \<Rightarrow> string \<Rightarrow> buffer_id option \<Rightarrow> ('d, 'n) world \<times> view_id option" where
  "createView_buffer E w g path buff =
     with_view (\<lambda>v. View_attachBuffer E v buff) (createView E w g path)"

definition createView_typed_buffer ::
  "('d, 'n) env \<Rightarrow> ('d, 'n) world \<Rightarrow> group_id \<Rightarrow> string \<Rightarrow> int \<Rightarrow> int \<Rightarrow> buffer_id option \<Rightarrow> ('d, 'n) world \<times> view_id option" where
  "createView_typed_buffer E w g path type num_elems buff =
     with_view (\<lambda>v. View_attachBuffer E v buff) (createView_typed E w g path type num_elems)"

definition createViewWithShape_buffer ::
  "('d, 'n) env \<Rightarrow> ('d, 'n) world \<Rightarrow> group_id \<Rightarrow> string \<Rightarrow> int \<Rightarrow> int \<Rightarrow> int list option \<Rightarrow> buffer_id option \<Rightarrow>
   ('d, 'n) world \<times> view_id option" where
  "createViewWithShape_buffer E w g path type ndims shape buff =
     with_view (\<lambda>v. View_attachBuffer E v buff) (createViewWithShape E w g path type ndims shape)"

definition createView_dtype_buffer ::
  "('d, 'n) env \<Rightarrow> ('d, 'n) world \<Rightarrow> group_id \<Rightarrow> string \<Rightarrow> 'd \<Rightarrow> buffer_id option \<Rightarrow> ('d, 'n) world \<times> view_id option" where
  "createView_dtype_buffer E w g path dtype buff =
     with_view (\<lambda>v. View_attachBuffer E v buff) (createView_dtype E w g path dtype)"

definition createView_external ::
  "('d, 'n) env \<Rightarrow> ('d, 'n) world \<Rightarrow> group_id \<Rightarrow> string \<Rightarrow> ptr option \<Rightarrow> ('d, 'n) world \<times> view_id option" where
  "createView_external E w g path p =
     with_view (\<lambda>v. View_setExternalDataPtr E v p) (createView E w g path)"

definition createView_typed_external ::
  "('d, 'n) env \<Rightarrow> ('d, 'n) world \<Rightarrow> group_id \<Rightarrow> string \<Rightarrow> int \<Rightarrow> int \<Rightarrow> ptr option \<Rightarrow> ('d, 'n) world \<times> view_id option" where
  "createView_typed_external E w g path type num_elems p =
     with_view (\<lambda>v. View_setExternalDataPtr E v p) (createView_typed E w g path type num_elems)"

definition createViewWithShape_external ::
  "('d, 'n) env \<Rightarrow> ('d, 'n) world \<Rightarrow> group_id \<Rightarrow> string \<Rightarrow> int \<Rightarrow> int \<Rightarrow> int list option \<Rightarrow> ptr option \<Rightarrow>
   ('d, 'n) world \<times> view_id option" where
  "createViewWithShape_external E w g path type ndims shape p =
     with_view (\<lambda>v. View_setExternalDataPtr E v p) (createViewWithShape E w g path type ndims shape)"

definition createView_dtype_external ::
  "('d, 'n) env \<Rightarrow> ('d, 'n) world \<Rightarrow> group_id \<Rightarrow> string \<Rightarrow> 'd \<Rightarrow> ptr option \<Rightarrow> ('d, 'n) world \<times> view_id option" where
  "createView_dtype_external E w g path dtype p =
     with_view (\<lambda>v. View_setExternalDataPtr E v p) (createView_dtype E w g path dtype)"

definition createViewAndAllocate ::
  "('d, 'n) env \<Rightarrow> ('d, 'n) world \<Rightarrow> group_id \<Rightarrow> string \<Rightarrow> int \<Rightarrow> int \<Rightarrow> ('d, 'n) world \<times> view_id option" where
  "createViewAndAllocate E w g path type num_elems =
     with_view (View_allocate E) (createView_typed E w g path type num_elems)"

definition createViewWithShapeAndAllocate ::
  "('d, 'n) env \<Rightarrow> ('d, 'n) world \<Rightarrow> group_id \<Rightarrow> string \<Rightarrow> int \<Rightarrow> int \<Rightarrow> int list option \<Rightarrow> ('d, 'n) world \<times> view_id option" where
  "createViewWithShapeAndAllocate E w g path type ndims shape =
     with_view (View_allocate E) (createViewWithShape E w g path type ndims shape)"

definition createViewAndAllocate_dtype ::
  "('d, 'n) env \<Rightarrow> ('d, 'n) world \<Rightarrow> group_id \<Rightarrow> string \<Rightarrow> 'd \<Rightarrow> ('d, 'n) world \<times> view_id option" where
  "createViewAndAllocate_dtype E w g path dtype =
     with_view (View_allocate E) (createView_dtype E w g path dtype)"

definition createViewScalar ::
  "('d, 'n) env \<Rightarrow> ('d, 'n) world \<Rightarrow> group_id \<Rightarrow> string \<Rightarrow> 'n \<Rightarrow> ('d, 'n) world \<times> view_id option" where
  "createViewScalar E w g path value =
     with_view (\<lambda>v. View_setScalar E v value) (createView E w g path)"

definition createViewString ::
  "('d, 'n) env \<Rightarrow> ('d, 'n) world \<Rightarrow> group_id \<Rightarrow> string \<Rightarrow> string \<Rightarrow> ('d, 'n) world \<times> view_id option" where
  "createViewString E w g path value =
     with_view (\<lambda>v. View_setString E v value) (createView E w g path)"

section \<open>Loops over a collection\<close>

text \<open>
  The loop \<^verbatim>\<open>while(indexIsValid(idx)) { body; idx = getNextValidIndex(idx); }\<close>, in which the
  body may change the collection. The fuel is the number of slots the collection has when the loop
  starts; a loop that uses it up is reported as \<^term>\<open>OutOfFuel\<close>.
\<close>

fun index_loop :: "nat \<Rightarrow> ('w \<Rightarrow> int \<Rightarrow> int) \<Rightarrow> ('w \<Rightarrow> int \<Rightarrow> fault + 'w) \<Rightarrow> int \<Rightarrow> 'w \<Rightarrow> fault + 'w" where
  "index_loop 0 nxt body idx w = (if idx = InvalidIndex then Inr w else Inl OutOfFuel)"
| "index_loop (Suc fuel) nxt body idx w =
     (if idx = InvalidIndex then Inr w
      else res_bind (body w idx) (\<lambda>w. index_loop fuel nxt body (nxt w idx) w))"

definition for_views :: "('d, 'n) world \<Rightarrow> group_id \<Rightarrow> (('d, 'n) world \<Rightarrow> int \<Rightarrow> fault + ('d, 'n) world) \<Rightarrow> fault + ('d, 'n) world" where
  "for_views w g body =
     index_loop (length (coll_items (g_views (grp w g)))) (\<lambda>w. coll_next (g_views (grp w g))) body
       (coll_first (g_views (grp w g))) w"

definition for_groups :: "('d, 'n) world \<Rightarrow> group_id \<Rightarrow> (('d, 'n) world \<Rightarrow> int \<Rightarrow> fault + ('d, 'n) world) \<Rightarrow> fault + ('d, 'n) world" where
  "for_groups w g body =
     index_loop (length (coll_items (g_groups (grp w g)))) (\<lambda>w. coll_next (g_groups (grp w g))) body
       (coll_first (g_groups (grp w g))) w"

section \<open>Destroying views\<close>

definition delete_view :: "view_id option \<Rightarrow> ('d, 'n) world \<Rightarrow> ('d, 'n) world" where
  "delete_view vp w = (case vp of None \<Rightarrow> w | Some v \<Rightarrow> w\<lparr>w_store := View_destroy v (w_store w)\<rparr>)"

definition destroyView :: "('d, 'n) world \<Rightarrow> group_id \<Rightarrow> string \<Rightarrow> fault + ('d, 'n) world" where
  "destroyView w g path =
     (case walkPath w g path False of
        ((_, None), name) \<Rightarrow> Inr w
      | ((_, Some h), name) \<Rightarrow> res_bind (detachView w h name) (\<lambda>(w, vp). Inr (delete_view vp w)))"

definition destroyView_at :: "('d, 'n) world \<Rightarrow> group_id \<Rightarrow> int \<Rightarrow> ('d, 'n) world" where
  "destroyView_at w g idx = (let (w, vp) = detachView_at w g idx in delete_view vp w)"

definition destroyViews :: "('d, 'n) world \<Rightarrow> group_id \<Rightarrow> fault + ('d, 'n) world" where
  "destroyViews w g =
     res_bind (for_views w g (\<lambda>w idx. Inr (destroyView_at w g idx)))
       (\<lambda>w. Inr (upd_group g (\<lambda>G. G\<lparr>g_views := coll_removeAllItems (g_views G)\<rparr>) w))"

definition destroyViewAndData_ptr :: "('d, 'n) world \<Rightarrow> view_id option \<Rightarrow> fault + ('d, 'n) world" where
  "destroyViewAndData_ptr w vp =
     (case vp of
        None \<Rightarrow> Inr w
      | Some v \<Rightarrow>
          (case v_owner w v of
             None \<Rightarrow> Inl NullDeref
           | Some h \<Rightarrow>
               res_bind (detachView w h (v_name w v)) (\<lambda>(w, _).
                 let (s, buff) = View_detachBuffer v (w_store w);
                     s = (case buff of None \<Rightarrow> s
                          | Some b \<Rightarrow> if Buffer_getNumViews (buffer s b) = 0 then DataStore_destroyBuffer (Some b) s else s)
                 in Inr (w\<lparr>w_store := View_destroy v s\<rparr>))))"

definition destroyViewAndData :: "('d, 'n) world \<Rightarrow> group_id \<Rightarrow> string \<Rightarrow> fault + ('d, 'n) world" where
  "destroyViewAndData w g path = res_bind (getView w g path) (destroyViewAndData_ptr w)"

definition destroyViewAndData_at :: "('d, 'n) world \<Rightarrow> group_id \<Rightarrow> int \<Rightarrow> fault + ('d, 'n) world" where
  "destroyViewAndData_at w g idx = destroyViewAndData_ptr w (getView_at w g idx)"

definition destroyViewsAndData :: "('d, 'n) world \<Rightarrow> group_id \<Rightarrow> fault + ('d, 'n) world" where
  "destroyViewsAndData w g =
     res_bind (for_views w g (\<lambda>w idx. destroyViewAndData_at w g idx))
       (\<lambda>w. Inr (upd_group g (\<lambda>G. G\<lparr>g_views := coll_removeAllItems (g_views G)\<rparr>) w))"

section \<open>Moving and copying views\<close>

definition moveView :: "('d, 'n) world \<Rightarrow> group_id \<Rightarrow> view_id option \<Rightarrow> fault + ('d, 'n) world \<times> view_id option" where
  "moveView w g vp =
     (case vp of
        None \<Rightarrow> Inr (w, None)
      | Some v \<Rightarrow>
          if v_owner w v = Some g then Inr (w, Some v)
          else if hasChildView w g (v_name w v) then Inr (w, None)
          else (case v_owner w v of
                  None \<Rightarrow> Inl NullDeref
                | Some h \<Rightarrow> res_bind (detachView w h (v_name w v)) (\<lambda>(w, _). Inr (fst (attachView w g v), Some v))))"

definition copyView :: "('d, 'n) env \<Rightarrow> ('d, 'n) world \<Rightarrow> group_id \<Rightarrow> view_id option \<Rightarrow> fault + ('d, 'n) world \<times> view_id option" where
  "copyView E w g vp =
     (case vp of
        None \<Rightarrow> Inr (w, None)
      | Some v \<Rightarrow>
          if hasChildView w g (v_name w v) then Inr (w, None)
          else (case createView E w g (v_name w v) of
                  (w, None) \<Rightarrow> Inl NullDeref
                | (w, Some copy) \<Rightarrow> Inr (w\<lparr>w_store := View_copyView E v copy (w_store w)\<rparr>, Some copy)))"

section \<open>Destroying groups\<close>

definition free_group :: "group_id \<Rightarrow> ('d, 'n) world \<Rightarrow> ('d, 'n) world" where
  "free_group g w = w\<lparr>w_groups := (w_groups w)(g := None)\<rparr>"

text \<open>
  \<^verbatim>\<open>destroyGroups\<close> deletes every child, and \<^verbatim>\<open>~Group\<close> destroys the views and the child
  groups of the deleted group; the recursion is given a depth.
\<close>

definition destroyGroups_by :: "(('d, 'n) world \<Rightarrow> group_id \<Rightarrow> fault + ('d, 'n) world) \<Rightarrow>
    ('d, 'n) world \<Rightarrow> group_id \<Rightarrow> fault + ('d, 'n) world" where
  "destroyGroups_by del w g =
     res_bind (for_groups w g (\<lambda>w idx. case getGroup_at w g idx of None \<Rightarrow> Inr w | Some c \<Rightarrow> del w c))
       (\<lambda>w. Inr (upd_group g (\<lambda>G. G\<lparr>g_groups := coll_removeAllItems (g_groups G)\<rparr>) w))"

primrec delete_group :: "nat \<Rightarrow> ('d, 'n) world \<Rightarrow> group_id \<Rightarrow> fault + ('d, 'n) world" where
  "delete_group 0 = (\<lambda>w g. Inl OutOfFuel)"
| "delete_group (Suc depth) = (\<lambda>w g.
     res_bind (destroyViews w g) (\<lambda>w.
     res_bind (destroyGroups_by (delete_group depth) w g) (\<lambda>w.
     Inr (free_group g w))))"

text \<open>A tree is never deeper than the number of groups that were ever created.\<close>

definition delete_group_ptr :: "group_id option \<Rightarrow> ('d, 'n) world \<Rightarrow> fault + ('d, 'n) world" where
  "delete_group_ptr gp w = (case gp of None \<Rightarrow> Inr w | Some c \<Rightarrow> delete_group (next_group w) w c)"

definition destroyGroups :: "('d, 'n) world \<Rightarrow> group_id \<Rightarrow> fault + ('d, 'n) world" where
  "destroyGroups w g = destroyGroups_by (delete_group (next_group w)) w g"

definition destroyGroup :: "('d, 'n) world \<Rightarrow> group_id \<Rightarrow> string \<Rightarrow> fault + ('d, 'n) world" where
  "destroyGroup w g path =
     (case walkPath w g path False of
        ((_, None), name) \<Rightarrow> Inr w
      | ((_, Some h), name) \<Rightarrow> res_bind (detachGroup w h name) (\<lambda>(w, c). delete_group_ptr c w))"

definition destroyGroup_at :: "('d, 'n) world \<Rightarrow> group_id \<Rightarrow> int \<Rightarrow> fault + ('d, 'n) world" where
  "destroyGroup_at w g idx = (let (w, c) = detachGroup_at w g idx in delete_group_ptr c w)"

text \<open>The variants that also destroy the buffers no view uses any more.\<close>

definition destroyGroupAndData_by :: "(('d, 'n) world \<Rightarrow> group_id \<Rightarrow> fault + ('d, 'n) world) \<Rightarrow>
    ('d, 'n) world \<times> group_id option \<Rightarrow> fault + ('d, 'n) world" where
  "destroyGroupAndData_by subtree wc =
     (case wc of
        (w, None) \<Rightarrow> Inr w
      | (w, Some c) \<Rightarrow> res_bind (subtree w c) (delete_group_ptr (Some c)))"

definition destroyGroupsAndData_by :: "(('d, 'n) world \<Rightarrow> group_id \<Rightarrow> fault + ('d, 'n) world) \<Rightarrow>
    ('d, 'n) world \<Rightarrow> group_id \<Rightarrow> fault + ('d, 'n) world" where
  "destroyGroupsAndData_by subtree w g =
     res_bind (for_groups w g (\<lambda>w idx. destroyGroupAndData_by subtree (detachGroup_at w g idx)))
       (\<lambda>w. Inr (upd_group g (\<lambda>G. G\<lparr>g_groups := coll_removeAllItems (g_groups G)\<rparr>) w))"

primrec destroySubtree :: "nat \<Rightarrow> ('d, 'n) world \<Rightarrow> group_id \<Rightarrow> fault + ('d, 'n) world" where
  "destroySubtree 0 = (\<lambda>w g. Inl OutOfFuel)"
| "destroySubtree (Suc depth) = (\<lambda>w g.
     res_bind (destroyViewsAndData w g) (\<lambda>w. destroyGroupsAndData_by (destroySubtree depth) w g))"

definition destroyGroupSubtreeAndData :: "('d, 'n) world \<Rightarrow> group_id \<Rightarrow> fault + ('d, 'n) world" where
  "destroyGroupSubtreeAndData w g = destroySubtree (next_group w) w g"

definition destroyGroupsAndData :: "('d, 'n) world \<Rightarrow> group_id \<Rightarrow> fault + ('d, 'n) world" where
  "destroyGroupsAndData w g = destroyGroupsAndData_by (destroySubtree (next_group w)) w g"

definition destroyGroupAndData :: "('d, 'n) world \<Rightarrow> group_id \<Rightarrow> string \<Rightarrow> fault + ('d, 'n) world" where
  "destroyGroupAndData w g path =
     (case walkPath w g path False of
        ((_, None), name) \<Rightarrow> Inr w
      | ((_, Some h), name) \<Rightarrow>
          res_bind (detachGroup w h name) (\<lambda>wc. destroyGroupAndData_by destroyGroupSubtreeAndData wc))"

definition destroyGroupAndData_at :: "('d, 'n) world \<Rightarrow> group_id \<Rightarrow> int \<Rightarrow> fault + ('d, 'n) world" where
  "destroyGroupAndData_at w g idx = destroyGroupAndData_by destroyGroupSubtreeAndData (detachGroup_at w g idx)"

section \<open>Moving, copying and renaming groups\<close>

definition moveGroup :: "('d, 'n) world \<Rightarrow> group_id \<Rightarrow> group_id option \<Rightarrow> fault + ('d, 'n) world \<times> group_id option" where
  "moveGroup w g gp =
     (case gp of
        None \<Rightarrow> Inr (w, None)
      | Some c \<Rightarrow>
          if hasChildGroup w g (group_name w c) then Inr (w, None)
          else (case g_parent (grp w c) of
                  None \<Rightarrow> Inl NullDeref
                | Some h \<Rightarrow> res_bind (detachGroup w h (group_name w c)) (\<lambda>(w, _). Inr (fst (attachGroup w g c), Some c))))"

primrec copyGroup_by :: "nat \<Rightarrow> ('d, 'n) env \<Rightarrow> ('d, 'n) world \<Rightarrow> group_id \<Rightarrow> group_id option \<Rightarrow>
    fault + ('d, 'n) world \<times> group_id option" where
  "copyGroup_by 0 = (\<lambda>E w g gp. Inl OutOfFuel)"
| "copyGroup_by (Suc depth) = (\<lambda>E w g gp.
     (case gp of
        None \<Rightarrow> Inr (w, None)
      | Some c \<Rightarrow>
          if hasChildGroup w g (group_name w c) then Inr (w, None)
          else (case createGroup w g (group_name w c) False of
                  (w, res) \<Rightarrow>
                    res_bind (for_groups w c (\<lambda>w idx.
                        case res of None \<Rightarrow> Inl NullDeref
                        | Some r \<Rightarrow> res_bind (copyGroup_by depth E w r (getGroup_at w c idx)) (\<lambda>(w, _). Inr w)))
                      (\<lambda>w. res_bind (for_views w c (\<lambda>w idx.
                          case res of None \<Rightarrow> Inl NullDeref
                          | Some r \<Rightarrow> res_bind (copyView E w r (getView_at w c idx)) (\<lambda>(w, _). Inr w)))
                        (\<lambda>w. Inr (w, res))))))"

definition copyGroup :: "('d, 'n) env \<Rightarrow> ('d, 'n) world \<Rightarrow> group_id \<Rightarrow> group_id option \<Rightarrow> fault + ('d, 'n) world \<times> group_id option" where
  "copyGroup E w g gp = copyGroup_by (next_group w) E w g gp"

definition Group_rename :: "('d, 'n) world \<Rightarrow> group_id \<Rightarrow> string \<Rightarrow> fault + ('d, 'n) world \<times> bool" where
  "Group_rename w g new_name =
     (if new_name = group_name w g then Inr (w, True)
      else if new_name = [] \<or> CHR ''/'' \<in> set new_name then Inr (w, False)
      else (case g_parent (grp w g) of
              Some p \<Rightarrow>
                if g \<noteq> root
                then if hasGroup w p new_name \<or> hasView w p new_name then Inr (w, False)
                     else res_bind (detachGroup w p (group_name w g)) (\<lambda>(w, detached).
                            let w = upd_group g (\<lambda>G. G\<lparr>g_name := new_name\<rparr>) w
                            in case detached of
                                 None \<Rightarrow> Inr (w, True)
                               | Some c \<Rightarrow> Inr (fst (attachGroup w p c), True))
                else Inr (upd_group g (\<lambda>G. G\<lparr>g_name := new_name\<rparr>) w, True)
            | None \<Rightarrow> Inr (upd_group g (\<lambda>G. G\<lparr>g_name := new_name\<rparr>) w, True)))"

definition View_rename :: "('d, 'n) world \<Rightarrow> view_id \<Rightarrow> string \<Rightarrow> fault + ('d, 'n) world \<times> bool" where
  "View_rename w v new_name =
     (if new_name = v_name w v then Inr (w, True)
      else case v_owner w v of
             None \<Rightarrow> Inl NullDeref
           | Some p \<Rightarrow>
               if new_name = [] \<or> CHR ''/'' \<in> set new_name then Inr (w, False)
               else if hasGroup w p new_name \<or> hasView w p new_name then Inr (w, False)
               else res_bind (detachView w p (v_name w v)) (\<lambda>(w, detached).
                      let w = w\<lparr>v_name := (v_name w)(v := new_name)\<rparr>
                      in case detached of
                           None \<Rightarrow> Inr (w, True)
                         | Some u \<Rightarrow> Inr (fst (attachView w p u), True)))"

section \<open>Paths of groups, and equivalence\<close>

text \<open>\<^verbatim>\<open>getPath\<close> climbs to the root; the loop is given as many steps as there are groups.\<close>

fun climb :: "nat \<Rightarrow> ('d, 'n) world \<Rightarrow> group_id option \<Rightarrow> string \<Rightarrow> fault + string" where
  "climb 0 w cur thePath = (if cur = Some root then Inr thePath else Inl OutOfFuel)"
| "climb (Suc fuel) w cur thePath =
     (if cur = Some root then Inr thePath
      else case cur of
             None \<Rightarrow> Inl NullDeref
           | Some g \<Rightarrow> climb fuel w (g_parent (grp w g)) (group_name w g @ [CHR ''/''] @ thePath))"

definition getPath :: "('d, 'n) world \<Rightarrow> group_id \<Rightarrow> fault + string" where
  "getPath w g =
     (case g_parent (grp w g) of
        None \<Rightarrow> Inl NullDeref
      | Some p \<Rightarrow> climb (next_group w) w (g_parent (grp w p)) (group_name w p))"

definition getPathName :: "('d, 'n) world \<Rightarrow> group_id \<Rightarrow> fault + string" where
  "getPathName w g =
     res_bind (getPath w g) (\<lambda>path.
       if length path < 1 then Inr (group_name w g) else Inr (path @ [CHR ''/''] @ group_name w g))"

definition View_getPathName :: "('d, 'n) world \<Rightarrow> view_id \<Rightarrow> fault + string" where
  "View_getPathName w v =
     (case v_owner w v of
        None \<Rightarrow> Inl NullDeref
      | Some g \<Rightarrow> res_bind (getPathName w g) (\<lambda>path.
          if length path < 1 then Inr (v_name w v) else Inr (path @ [CHR ''/''] @ v_name w v)))"

definition View_isEquivalentTo :: "('d, 'n) env \<Rightarrow> ('d, 'n) world \<Rightarrow> view_id \<Rightarrow> view_id \<Rightarrow> bool" where
  "View_isEquivalentTo E w v u \<longleftrightarrow>
     (let V = view (w_store w) v; U = view (w_store w) u
      in v_name w v = v_name w u \<and> View_getTypeID E V = View_getTypeID E U \<and> v_is_applied V = v_is_applied U \<and>
         View_hasBuffer V = View_hasBuffer U \<and> View_getTotalBytes E V = View_getTotalBytes E U)"

text \<open>The loops of \<^verbatim>\<open>isEquivalentTo\<close>, which stop at the first difference.\<close>

fun all_loop :: "nat \<Rightarrow> (int \<Rightarrow> int) \<Rightarrow> (int \<Rightarrow> fault + bool) \<Rightarrow> int \<Rightarrow> fault + bool" where
  "all_loop 0 nxt test idx = (if idx = InvalidIndex then Inr True else Inl OutOfFuel)"
| "all_loop (Suc fuel) nxt test idx =
     (if idx = InvalidIndex then Inr True
      else res_bind (test idx) (\<lambda>is_equiv. if is_equiv then all_loop fuel nxt test (nxt idx) else Inr False))"

definition all_items :: "'a coll \<Rightarrow> (int \<Rightarrow> fault + bool) \<Rightarrow> fault + bool" where
  "all_items c test = all_loop (length (coll_items c)) (coll_next c) test (coll_first c)"

definition deref :: "fault + 'a option \<Rightarrow> fault + 'a" where
  "deref r = res_bind r (\<lambda>p. case p of None \<Rightarrow> Inl NullDeref | Some x \<Rightarrow> Inr x)"

primrec isEquivalent_by :: "nat \<Rightarrow> ('d, 'n) env \<Rightarrow> ('d, 'n) world \<Rightarrow> group_id \<Rightarrow> group_id \<Rightarrow> bool \<Rightarrow> fault + bool" where
  "isEquivalent_by 0 = (\<lambda>E w g other checkName. Inl OutOfFuel)"
| "isEquivalent_by (Suc depth) = (\<lambda>E w g other checkName.
     (if (checkName \<and> group_name w g \<noteq> group_name w other) \<or>
         getNumViews w g \<noteq> getNumViews w other \<or> getNumGroups w g \<noteq> getNumGroups w other
      then Inr False
      else res_bind
        (all_items (g_views (grp w g)) (\<lambda>idx. res_bind (deref (Inr (getView_at w g idx))) (\<lambda>v.
           if hasChildView w other (v_name w v)
           then res_bind (deref (getView_const w other (v_name w v))) (\<lambda>u. Inr (View_isEquivalentTo E w v u))
           else Inr False)))
        (\<lambda>is_equiv.
           if is_equiv
           then all_items (g_groups (grp w g)) (\<lambda>idx. res_bind (deref (Inr (getGroup_at w g idx))) (\<lambda>c.
                  if hasChildGroup w other (group_name w c)
                  then res_bind (deref (getGroup_const w other (group_name w c))) (\<lambda>d. isEquivalent_by depth E w c d True)
                  else Inr False))
           else Inr False)))"

definition Group_isEquivalentTo :: "('d, 'n) env \<Rightarrow> ('d, 'n) world \<Rightarrow> group_id \<Rightarrow> group_id \<Rightarrow> bool \<Rightarrow> fault + bool" where
  "Group_isEquivalentTo E w g other checkName = isEquivalent_by (next_group w) E w g other checkName"

end
