(* ===== verification/SidreTree.thy ===== *)
theory SidreTree
  imports SidreGroup
begin

text \<open>
  The invariant of the group tree and that the operations of \<^verbatim>\<open>Group\<close> keep it: names, indices,
  parent and owner pointers agree with the collections, every group hangs below the root exactly
  once, and every view is owned by exactly one group. Operations that move objects pass through
  states in which a group or a view is detached, so the invariant is relative to the sets of
  detached groups and views.
\<close>

section \<open>The collections of a group\<close>

definition coll_ok :: "('a \<Rightarrow> string) \<Rightarrow> bool \<Rightarrow> 'a coll \<Rightarrow> bool" where
  "coll_ok name_of is_list c \<longleftrightarrow>
     (case c of
        MapColl m \<Rightarrow> \<not> is_list \<and> mc_inv name_of m \<and> mc_name2idx_map m [] = None
      | ListColl l \<Rightarrow> is_list \<and> lc_inv l)"

fun coll_accepts :: "'a coll \<Rightarrow> string \<Rightarrow> bool" where
  "coll_accepts (MapColl m) name \<longleftrightarrow> mc_name2idx_map m name = None"
| "coll_accepts (ListColl l) name \<longleftrightarrow> True"

fun coll_inv :: "('a \<Rightarrow> string) \<Rightarrow> 'a coll \<Rightarrow> bool" where
  "coll_inv name_of (MapColl m) = mc_inv name_of m"
| "coll_inv name_of (ListColl l) = lc_inv l"

lemma coll_ok_inv: "coll_ok name_of is_list c \<Longrightarrow> coll_inv name_of c"
  by (cases c) (auto simp: coll_ok_def)

text \<open>The virtual methods meet the contract of \<^verbatim>\<open>ItemCollection\<close> because both classes do.\<close>

interpretation anycoll: item_collection "coll_inv name_of" coll_getItem coll_getNumItems coll_first coll_next
  coll_insertItem "coll_removeItem name_of" coll_removeAllItems "\<lambda>name x. name_of x = name" coll_accepts
  for name_of :: "'a \<Rightarrow> string"
proof unfold_locales
  have get: "coll_getItem (MapColl m) = MapCollection_getItem m" "coll_getItem (ListColl l) = ListCollection_getItem l"
    for m l by (simp_all add: fun_eq_iff)
  fix c :: "'a coll" and name x and i :: int
  assume inv: "coll_inv name_of c"
  show "0 \<le> i" if "i \<in> dom (coll_getItem c)"
    using that inv mapped.items_nonneg listed.items_nonneg by (cases c) (fastforce simp: get)+
  show "finite (dom (coll_getItem c))"
    using inv mapped.items_finite listed.items_finite by (cases c) (auto simp: get)
  show "coll_getNumItems c = int (card (dom (coll_getItem c)))"
    using inv mapped.num_items listed.num_items by (cases c) (auto simp: get)
  show "coll_first c = least_above (dom (coll_getItem c)) (- 1)"
    using inv mapped.first_index listed.first_index by (cases c) (auto simp: get)
  show "coll_next c i = least_above (dom (coll_getItem c)) i" if "0 \<le> i"
    using inv that mapped.next_index listed.next_index by (cases c) (auto simp: get)
  show "\<exists>c' i. coll_insertItem c name x = (c', i) \<and> coll_inv name_of c' \<and> 0 \<le> i \<and> coll_getItem c i = None \<and>
      coll_getItem c' = (coll_getItem c)(i \<mapsto> x)" if "name_of x = name" "coll_accepts c name"
    using inv that mapped.insert_accepted [of name_of _ x name] listed.insert_accepted [of _ name x]
    by (cases c) (fastforce simp: get)+
  show "coll_insertItem c name x = (c, InvalidIndex)" if "\<not> coll_accepts c name"
    using inv that mapped.insert_refused [of name_of _ name x] by (cases c) auto
  show "\<exists>c'. coll_removeItem name_of c i = (c', coll_getItem c i) \<and> coll_inv name_of c' \<and>
      coll_getItem c' = (coll_getItem c)(i := None)"
    using inv mapped.remove_item [of name_of _ i] listed.remove_item [of _ i] by (cases c) (fastforce simp: get)+
  show "coll_inv name_of (coll_removeAllItems c) \<and> coll_getItem (coll_removeAllItems c) = Map.empty"
    using inv mapped.remove_all [of name_of] listed.remove_all by (cases c) (auto simp: get)
qed

lemma coll_ok_insert:
  assumes "coll_ok name_of is_list c" and "name_of x = name" and "coll_accepts c name" and "is_list \<or> name \<noteq> []"
  shows "\<exists>c' i. coll_insertItem c name x = (c', i) \<and> coll_ok name_of is_list c' \<and> 0 \<le> i \<and>
    coll_getItem c i = None \<and> coll_getItem c' = (coll_getItem c)(i \<mapsto> x)"
proof -
  obtain c' i where c': "coll_insertItem c name x = (c', i)" "coll_inv name_of c'" "0 \<le> i"
    "coll_getItem c i = None" "coll_getItem c' = (coll_getItem c)(i \<mapsto> x)"
    using anycoll.insert_accepted [OF coll_ok_inv [OF assms(1)] assms(2,3)] by blast
  have "coll_ok name_of is_list c'"
  proof (cases c)
    case (MapColl m)
    then obtain m' where m': "c' = MapColl m'" "MapCollection_insertItem m name x = (m', i)"
      using c'(1) by (auto split: prod.splits)
    then have "mc_name2idx_map m' = (mc_name2idx_map m)(name \<mapsto> i)"
      using assms(3) MapColl by (auto simp: MapCollection_insertItem_def Let_def split: if_splits)
    with assms(1,4) MapColl m' c'(2) show ?thesis by (simp add: coll_ok_def)
  next
    case (ListColl l)
    then obtain l' where "c' = ListColl l'" using c'(1) by (auto split: prod.splits)
    with assms(1) ListColl c'(2) show ?thesis by (simp add: coll_ok_def)
  qed
  with c' show ?thesis by blast
qed

lemma coll_ok_remove:
  assumes "coll_ok name_of is_list c"
  shows "\<exists>c'. coll_removeItem name_of c i = (c', coll_getItem c i) \<and> coll_ok name_of is_list c' \<and>
    coll_getItem c' = (coll_getItem c)(i := None)"
proof -
  obtain c' where c': "coll_removeItem name_of c i = (c', coll_getItem c i)" "coll_inv name_of c'"
    "coll_getItem c' = (coll_getItem c)(i := None)"
    using anycoll.remove_item [OF coll_ok_inv [OF assms]] by blast
  have "coll_ok name_of is_list c'"
  proof (cases c)
    case (MapColl m)
    then obtain m' x where m': "c' = MapColl m'" "MapCollection_removeItem name_of m i = (m', x)"
      using c'(1) by (auto split: prod.splits)
    then have "mc_name2idx_map m' n = None" if "mc_name2idx_map m n = None" for n
      using that by (auto simp: MapCollection_removeItem_def MapCollection_removeItem_named_def
          split: if_splits option.splits)
    with assms MapColl m'(1) c'(2) show ?thesis by (simp add: coll_ok_def)
  next
    case (ListColl l)
    then obtain l' where "c' = ListColl l'" using c'(1) by (auto split: prod.splits)
    with assms ListColl c'(2) show ?thesis by (simp add: coll_ok_def)
  qed
  with c' show ?thesis by blast
qed

lemma coll_ok_removeAll:
  assumes "coll_ok name_of is_list c"
  shows "coll_ok name_of' is_list (coll_removeAllItems c)" "coll_getItem (coll_removeAllItems c) = Map.empty"
  using assms anycoll.remove_all [OF coll_ok_inv [OF assms]]
  by (auto simp: coll_ok_def MapCollection_removeAllItems_def mc_inv_def split: coll.splits)

text \<open>Removing by name is removing the item that has the name.\<close>

lemma named_lookup:
  assumes "mc_inv name_of m"
  shows "MapCollection_hasItem_named m name \<longleftrightarrow> (\<exists>i x. MapCollection_getItem m i = Some x \<and> name_of x = name)"
    and "MapCollection_getItem_named m name = Some x \<longleftrightarrow> (\<exists>i. MapCollection_getItem m i = Some x \<and> name_of x = name)"
    and "mc_name2idx_map m name = Some i \<longleftrightarrow> (\<exists>x. MapCollection_getItem m i = Some x \<and> name_of x = name)"
    and "MapCollection_getItem_named m name = None \<longleftrightarrow> \<not> MapCollection_hasItem_named m name"
proof -
  show idx: "mc_name2idx_map m name = Some i \<longleftrightarrow> (\<exists>x. MapCollection_getItem m i = Some x \<and> name_of x = name)" for i
    using assms by (simp add: mc_inv_def MapCollection_getItem_def)
  show has: "MapCollection_hasItem_named m name \<longleftrightarrow> (\<exists>i x. MapCollection_getItem m i = Some x \<and> name_of x = name)"
    unfolding MapCollection_hasItem_named_def by (metis idx option.exhaust option.distinct(1))
  have slot: "mc_items m ! nat i = MapCollection_getItem m i" if "MapCollection_getItem m i \<noteq> None" for i
    using that by (auto simp: MapCollection_getItem_def slot_getItem_eq split: if_splits)
  have found: "\<exists>y. MapCollection_getItem m i = Some y \<and> name_of y = name \<and> MapCollection_getItem_named m name = Some y"
    if "mc_name2idx_map m name = Some i" for i
  proof -
    from that obtain y where y: "MapCollection_getItem m i = Some y" "name_of y = name" using idx by blast
    with that slot [of i] show ?thesis by (simp add: MapCollection_getItem_named_def)
  qed
  show "MapCollection_getItem_named m name = Some x \<longleftrightarrow> (\<exists>i. MapCollection_getItem m i = Some x \<and> name_of x = name)"
  proof (cases "mc_name2idx_map m name")
    case None
    then have "\<not> (MapCollection_getItem m i = Some x \<and> name_of x = name)" for i
      using idx [of i] by simp
    with None show ?thesis by (auto simp: MapCollection_getItem_named_def)
  next
    case (Some i)
    have "j = i" if "MapCollection_getItem m j = Some z" "name_of z = name" for j z
      using idx [of j] that Some by simp
    with found [OF Some] show ?thesis by force
  qed
  show "MapCollection_getItem_named m name = None \<longleftrightarrow> \<not> MapCollection_hasItem_named m name"
  proof (cases "mc_name2idx_map m name")
    case None
    then show ?thesis by (simp add: MapCollection_getItem_named_def MapCollection_hasItem_named_def)
  next
    case (Some i)
    with found [OF Some] show ?thesis by (auto simp: MapCollection_hasItem_named_def)
  qed
qed

lemma removeItem_named_eq:
  assumes "mc_inv name_of m"
  shows "MapCollection_removeItem_named m name =
    (case mc_name2idx_map m name of None \<Rightarrow> (m, None) | Some i \<Rightarrow> MapCollection_removeItem name_of m i)"
proof (cases "mc_name2idx_map m name")
  case (Some i)
  then obtain x where x: "slot_getItem (mc_items m) i = Some x" "name_of x = name"
    using assms by (auto elim: mc_inv_lookup)
  then have "mc_items m ! nat i = Some x" by (auto simp: slot_getItem_eq split: if_splits)
  with x Some show ?thesis
    by (simp add: MapCollection_removeItem_def MapCollection_hasItem_def slot_hasItem_iff)
qed (simp add: MapCollection_removeItem_named_def)

lemma coll_ok_cong:
  assumes "\<And>i x. coll_getItem c i = Some x \<Longrightarrow> name_of x = name_of' x"
  shows "coll_ok name_of is_list c \<longleftrightarrow> coll_ok name_of' is_list c"
proof (cases c)
  case (MapColl m)
  have "(\<exists>x. slot_getItem (mc_items m) i = Some x \<and> name_of x = name) \<longleftrightarrow>
      (\<exists>x. slot_getItem (mc_items m) i = Some x \<and> name_of' x = name)" for i name
    using assms MapColl by (auto simp: MapCollection_getItem_def)
  then show ?thesis using MapColl by (simp add: coll_ok_def mc_inv_def)
qed (simp add: coll_ok_def)

lemma coll_ok_new [simp]:
  "coll_ok name_of is_list (if is_list then ListColl ListCollection_new else MapColl MapCollection_new)"
  "coll_getItem (if is_list then ListColl ListCollection_new else MapColl MapCollection_new) = Map.empty"
  by (auto simp: coll_ok_def mc_inv_def MapCollection_new_def lc_inv_def ListCollection_new_def fun_eq_iff
      MapCollection_getItem_def ListCollection_getItem_def)

section \<open>The invariant\<close>

definition child :: "('d, 'n) world \<Rightarrow> group_id \<Rightarrow> int \<Rightarrow> group_id \<Rightarrow> bool" where
  "child w g i c \<longleftrightarrow> (\<exists>G. w_groups w g = Some G \<and> coll_getItem (g_groups G) i = Some c)"

definition owned :: "('d, 'n) world \<Rightarrow> group_id \<Rightarrow> int \<Rightarrow> view_id \<Rightarrow> bool" where
  "owned w g i v \<longleftrightarrow> (\<exists>G. w_groups w g = Some G \<and> coll_getItem (g_views G) i = Some v)"

abbreviation live_view :: "('d, 'n) world \<Rightarrow> view_id \<Rightarrow> bool" where
  "live_view w v \<equiv> views (w_store w) v \<noteq> None"

definition childrel :: "('d, 'n) world \<Rightarrow> (group_id \<times> group_id) set" where
  "childrel w = {(g, c). \<exists>i. child w g i c}"

text \<open>The groups below a group, itself included.\<close>

definition subtree :: "('d, 'n) world \<Rightarrow> group_id \<Rightarrow> group_id set" where
  "subtree w g = (childrel w)\<^sup>* `` {g}"

text \<open>
  The tree part of the invariant, relative to a set of detached groups: an index entry of a
  collection and the parent pointer and index of the child determine each other.
\<close>

definition groups_ok :: "('d, 'n) world \<Rightarrow> bool" where
  "groups_ok w \<longleftrightarrow>
     (\<exists>G. w_groups w root = Some G \<and> g_parent G = Some root \<and> \<not> g_is_list G) \<and>
     (\<forall>g G. w_groups w g = Some G \<longrightarrow> g < next_group w \<and> coll_ok (group_name w) (g_is_list G) (g_groups G))"

definition group_links :: "group_id set \<Rightarrow> ('d, 'n) world \<Rightarrow> bool" where
  "group_links D w \<longleftrightarrow>
     (\<forall>g i c. child w g i c \<longleftrightarrow>
        (\<exists>C. w_groups w c = Some C \<and> c \<notin> insert root D \<and> g_parent C = Some g \<and> g_index C = i)) \<and>
     (\<forall>c C. w_groups w c = Some C \<longrightarrow> c \<notin> D \<longrightarrow> g_parent C \<noteq> None) \<and>
     (\<forall>c\<in>D. w_groups w c \<noteq> None \<and> c \<noteq> root)"

definition rooted :: "group_id set \<Rightarrow> ('d, 'n) world \<Rightarrow> bool" where
  "rooted D w \<longleftrightarrow> (\<forall>g. w_groups w g \<noteq> None \<longrightarrow> (\<exists>r\<in>insert root D. (r, g) \<in> (childrel w)\<^sup>*))"

definition tree_ok :: "group_id set \<Rightarrow> ('d, 'n) world \<Rightarrow> bool" where
  "tree_ok D w \<longleftrightarrow> groups_ok w \<and> group_links D w \<and> rooted D w"

text \<open>The same for views and the groups that own them.\<close>

definition owners_ok :: "view_id set \<Rightarrow> ('d, 'n) world \<Rightarrow> bool" where
  "owners_ok DV w \<longleftrightarrow>
     (\<forall>g G. w_groups w g = Some G \<longrightarrow> coll_ok (v_name w) (g_is_list G) (g_views G)) \<and>
     (\<forall>g i v. owned w g i v \<longleftrightarrow> live_view w v \<and> v \<notin> DV \<and> v_owner w v = Some g \<and> v_index w v = i) \<and>
     (\<forall>v. live_view w v \<longrightarrow> v < next_view w \<and> (v \<notin> DV \<longrightarrow> v_owner w v \<noteq> None)) \<and>
     (\<forall>v\<in>DV. live_view w v)"

definition forest_inv :: "group_id set \<Rightarrow> view_id set \<Rightarrow> ('d, 'n) world \<Rightarrow> bool" where
  "forest_inv D DV w \<longleftrightarrow> tree_ok D w \<and> owners_ok DV w"

abbreviation tree_inv :: "('d, 'n) world \<Rightarrow> bool" where
  "tree_inv \<equiv> forest_inv {} {}"

lemma forest_invD:
  assumes "forest_inv D DV w"
  shows "tree_ok D w" "owners_ok DV w"
  using assms by (simp_all add: forest_inv_def)

lemma tree_okD:
  assumes "tree_ok D w"
  shows "groups_ok w" "group_links D w" "rooted D w"
  using assms by (simp_all add: tree_ok_def)

lemma groups_okD:
  assumes "groups_ok w" and "w_groups w g = Some G"
  shows "g < next_group w" "coll_ok (group_name w) (g_is_list G) (g_groups G)"
  using assms by (auto simp: groups_ok_def)

lemma owners_okD:
  assumes "owners_ok DV w"
  shows "w_groups w g = Some G \<Longrightarrow> coll_ok (v_name w) (g_is_list G) (g_views G)"
    "owned w g i v \<longleftrightarrow> live_view w v \<and> v \<notin> DV \<and> v_owner w v = Some g \<and> v_index w v = i"
    "live_view w v \<Longrightarrow> v < next_view w" "live_view w v \<Longrightarrow> v \<notin> DV \<Longrightarrow> v_owner w v \<noteq> None"
    "v \<in> DV \<Longrightarrow> live_view w v"
  using assms by (auto simp: owners_ok_def)

lemma group_linksD:
  assumes "group_links D w" and "child w g i c"
  obtains C where "w_groups w c = Some C" "c \<noteq> root" "c \<notin> D" "g_parent C = Some g" "g_index C = i"
  using assms unfolding group_links_def by (metis insert_iff)

lemma group_linksE:
  assumes "group_links D w" and "w_groups w c = Some C" and "c \<noteq> root" and "c \<notin> D"
  obtains g where "g_parent C = Some g" "child w g (g_index C) c"
proof -
  from assms have "g_parent C \<noteq> None" by (auto simp: group_links_def)
  then obtain g where "g_parent C = Some g" by blast
  with assms that show thesis unfolding group_links_def by (metis insert_iff)
qed

lemma group_linksI:
  assumes "\<And>g i c. child w g i c \<Longrightarrow> \<exists>C. w_groups w c = Some C \<and> c \<noteq> root \<and> c \<notin> D \<and> g_parent C = Some g \<and> g_index C = i"
    and "\<And>c C. w_groups w c = Some C \<Longrightarrow> c \<noteq> root \<Longrightarrow> c \<notin> D \<Longrightarrow> \<exists>g. g_parent C = Some g \<and> child w g (g_index C) c"
    and "\<And>C. w_groups w root = Some C \<Longrightarrow> g_parent C \<noteq> None"
    and "\<And>c. c \<in> D \<Longrightarrow> w_groups w c \<noteq> None \<and> c \<noteq> root"
  shows "group_links D w"
proof -
  have "child w g i c \<longleftrightarrow>
      (\<exists>C. w_groups w c = Some C \<and> c \<notin> insert root D \<and> g_parent C = Some g \<and> g_index C = i)" for g i c
  proof
    assume "\<exists>C. w_groups w c = Some C \<and> c \<notin> insert root D \<and> g_parent C = Some g \<and> g_index C = i"
    then obtain C where C: "w_groups w c = Some C" "c \<noteq> root" "c \<notin> D" "g_parent C = Some g" "g_index C = i" by blast
    with assms(2) [OF C(1-3)] show "child w g i c" by auto
  qed (use assms(1) in blast)
  moreover have "g_parent C \<noteq> None" if C: "w_groups w c = Some C" "c \<notin> D" for c C
    using assms(2) [OF C(1) _ C(2)] assms(3) [of C] C(1) by (cases "c = root") auto
  ultimately show ?thesis using assms(4) unfolding group_links_def by blast
qed

lemma child_live: "child w g i c \<Longrightarrow> w_groups w g \<noteq> None"
  by (auto simp: child_def)

lemma child_unique_parent:
  assumes "group_links D w" and "child w g i c" and "child w h j c"
  shows "g = h \<and> i = j"
  using group_linksD [OF assms(1,2)] group_linksD [OF assms(1,3)] by (metis option.inject)

lemma unique_parent_rel:
  assumes "group_links D w" and "(g, c) \<in> childrel w" and "(h, c) \<in> childrel w"
  shows "g = h"
  using assms child_unique_parent by (fastforce simp: childrel_def)

lemma no_parent_root:
  assumes "group_links D w" and "r \<in> insert root D"
  shows "(g, r) \<notin> childrel w"
  using assms group_linksD [OF assms(1)] by (auto simp: childrel_def)

text \<open>The child relation has no cycle: a cycle would have to enter at a root.\<close>

lemma acyclic_childrel:
  assumes "group_links D w" and "rooted D w"
  shows "acyclic (childrel w)"
  unfolding acyclic_def
proof (intro allI notI)
  fix g assume cyc: "(g, g) \<in> (childrel w)\<^sup>+"
  then have "w_groups w g \<noteq> None" using child_live by (fastforce simp: childrel_def dest!: tranclD)
  then obtain r where r: "r \<in> insert root D" "(r, g) \<in> (childrel w)\<^sup>*" using assms(2) by (auto simp: rooted_def)
  have "(x, x) \<notin> (childrel w)\<^sup>+" if "(r, x) \<in> (childrel w)\<^sup>*" for x
    using that
  proof (induction rule: rtrancl_induct)
    case base
    show ?case using no_parent_root [OF assms(1) r(1)] by (meson tranclD2)
  next
    case (step p c)
    show ?case
    proof
      assume "(c, c) \<in> (childrel w)\<^sup>+"
      then obtain y where y: "(c, y) \<in> (childrel w)\<^sup>*" "(y, c) \<in> childrel w" by (meson tranclD2)
      have "y = p" using unique_parent_rel [OF assms(1) y(2) step(2)] .
      with y step(2,3) show False by (meson rtrancl_into_trancl2)
    qed
  qed
  with r(2) cyc show False by blast
qed

lemma subtree_refl [simp]: "g \<in> subtree w g"
  by (simp add: subtree_def)

lemma subtree_child: "child w g i c \<Longrightarrow> subtree w c \<subseteq> subtree w g"
  by (auto simp: subtree_def childrel_def intro: converse_rtrancl_into_rtrancl)

lemma subtree_closed: "h \<in> subtree w g \<Longrightarrow> child w h i c \<Longrightarrow> c \<in> subtree w g"
  by (auto simp: subtree_def childrel_def intro: rtrancl_into_rtrancl)

lemma subtree_live:
  assumes "group_links D w" and "w_groups w g \<noteq> None"
  shows "h \<in> subtree w g \<Longrightarrow> w_groups w h \<noteq> None"
  unfolding subtree_def Image_singleton mem_Collect_eq
proof (induction rule: rtrancl_induct)
  case (step p c)
  then show ?case using assms(1) by (auto simp: childrel_def elim!: group_linksD)
qed (rule assms(2))

lemma subtree_strict:
  assumes "group_links D w" and "rooted D w" and "child w g i c"
  shows "g \<notin> subtree w c"
proof
  assume "g \<in> subtree w c"
  then have "(c, g) \<in> (childrel w)\<^sup>*" by (simp add: subtree_def)
  moreover have "(g, c) \<in> childrel w" using assms(3) by (auto simp: childrel_def)
  ultimately have "(g, g) \<in> (childrel w)\<^sup>+" by (rule rtrancl_into_trancl2 [rotated])
  with acyclic_childrel [OF assms(1,2)] show False by (simp add: acyclic_def)
qed

lemma live_finite: "groups_ok w \<Longrightarrow> finite {g. w_groups w g \<noteq> None}"
  by (rule finite_subset [of _ "{..<next_group w}"]) (auto simp: groups_ok_def)

lemma subtree_card:
  assumes "tree_ok D w" and "w_groups w g \<noteq> None"
  shows "finite (subtree w g)" "card (subtree w g) \<le> next_group w"
proof -
  have sub: "subtree w g \<subseteq> {..<next_group w}"
    using subtree_live [OF tree_okD(2) [OF assms(1)] assms(2)] tree_okD(1) [OF assms(1)]
    by (fastforce simp: groups_ok_def)
  then show "finite (subtree w g)" by (rule finite_subset) simp
  show "card (subtree w g) \<le> next_group w" using card_mono [OF _ sub] by simp
qed

section \<open>Looking up children\<close>

lemma hasChildGroup_iff:
  assumes "groups_ok w" and G: "w_groups w g = Some G"
  shows "hasChildGroup w g name \<longleftrightarrow> \<not> g_is_list G \<and> (\<exists>i c. child w g i c \<and> group_name w c = name)"
    and "coll_accepts (g_groups G) name \<longleftrightarrow> \<not> hasChildGroup w g name"
proof -
  note ok = groups_okD(2) [OF assms]
  show "hasChildGroup w g name \<longleftrightarrow> \<not> g_is_list G \<and> (\<exists>i c. child w g i c \<and> group_name w c = name)"
  proof (cases "g_groups G")
    case (MapColl m)
    with ok named_lookup(1) [of "group_name w" m name] G show ?thesis
      by (simp add: hasChildGroup_def isUsingMap_def getNamedGroups_def coll_ok_def child_def)
  next
    case (ListColl l)
    with ok G show ?thesis by (simp add: hasChildGroup_def isUsingMap_def coll_ok_def)
  qed
  show "coll_accepts (g_groups G) name \<longleftrightarrow> \<not> hasChildGroup w g name"
    using ok G by (cases "g_groups G")
      (simp_all add: hasChildGroup_def isUsingMap_def getNamedGroups_def coll_ok_def MapCollection_hasItem_named_def)
qed

lemma hasChildView_iff:
  assumes "owners_ok DV w" and G: "w_groups w g = Some G"
  shows "hasChildView w g name \<longleftrightarrow> \<not> g_is_list G \<and> (\<exists>i v. owned w g i v \<and> v_name w v = name)"
    and "coll_accepts (g_views G) name \<longleftrightarrow> \<not> hasChildView w g name"
proof -
  note ok = owners_okD(1) [OF assms]
  show "hasChildView w g name \<longleftrightarrow> \<not> g_is_list G \<and> (\<exists>i v. owned w g i v \<and> v_name w v = name)"
  proof (cases "g_views G")
    case (MapColl m)
    with ok named_lookup(1) [of "v_name w" m name] G show ?thesis
      by (simp add: hasChildView_def isUsingMap_def getNamedViews_def coll_ok_def owned_def)
  next
    case (ListColl l)
    with ok G show ?thesis by (simp add: hasChildView_def isUsingMap_def coll_ok_def)
  qed
  show "coll_accepts (g_views G) name \<longleftrightarrow> \<not> hasChildView w g name"
    using ok G by (cases "g_views G")
      (simp_all add: hasChildView_def isUsingMap_def getNamedViews_def coll_ok_def MapCollection_hasItem_named_def)
qed

lemma named_child_iff:
  assumes "groups_ok w" and G: "w_groups w g = Some G" and map: "\<not> g_is_list G"
  shows "named_child w g name = Some c \<longleftrightarrow> (\<exists>i. child w g i c \<and> group_name w c = name)"
proof (cases "g_groups G")
  case (MapColl m)
  with groups_okD(2) [OF assms(1,2)] named_lookup(2) [of "group_name w" m name c] G show ?thesis
    by (simp add: named_child_def getNamedGroups_def coll_ok_def child_def)
next
  case (ListColl l)
  with groups_okD(2) [OF assms(1,2)] map show ?thesis by (simp add: coll_ok_def)
qed

text \<open>What is below a group is stored under names that differ from each other.\<close>

lemma child_name_unique:
  assumes "groups_ok w" and G: "w_groups w g = Some G" and map: "\<not> g_is_list G"
    and "child w g i c" and "child w g j d" and "group_name w c = group_name w d"
  shows "c = d"
  using assms(4-6) named_child_iff [OF assms(1-3)] by (metis option.inject)

section \<open>What the two parts of the invariant depend on\<close>

definition tree_fields :: "('d, 'n) world \<Rightarrow> group_id \<Rightarrow> (string \<times> int \<times> group_id option \<times> bool \<times> group_id coll) option" where
  "tree_fields w g = map_option (\<lambda>G. (g_name G, g_index G, g_parent G, g_is_list G, g_groups G)) (w_groups w g)"

definition view_fields :: "('d, 'n) world \<Rightarrow> group_id \<Rightarrow> (bool \<times> view_id coll) option" where
  "view_fields w g = map_option (\<lambda>G. (g_is_list G, g_views G)) (w_groups w g)"

lemma tree_fields_get:
  assumes "tree_fields w' = tree_fields w" and "w_groups w g = Some G"
  obtains G' where "w_groups w' g = Some G'" "g_name G' = g_name G" "g_index G' = g_index G" "g_parent G' = g_parent G"
    "g_is_list G' = g_is_list G" "g_groups G' = g_groups G"
  using assms(2) that fun_cong [OF assms(1), of g] by (cases "w_groups w' g") (auto simp: tree_fields_def)

lemma tree_fields_live:
  assumes "tree_fields w' = tree_fields w"
  shows "w_groups w' g = None \<longleftrightarrow> w_groups w g = None"
  using fun_cong [OF assms, of g] by (auto simp: tree_fields_def)

lemma tree_fields_child:
  assumes eq: "tree_fields w' = tree_fields w"
  shows "child w' = child w" "childrel w' = childrel w" "subtree w' = subtree w"
proof -
  have "child w' g i c \<longleftrightarrow> child w g i c" for g i c
    using fun_cong [OF eq, of g] by (cases "w_groups w g"; cases "w_groups w' g") (auto simp: child_def tree_fields_def)
  then show "child w' = child w" by (simp add: fun_eq_iff)
  then show rel: "childrel w' = childrel w" by (simp add: childrel_def)
  show "subtree w' = subtree w" by (simp add: fun_eq_iff subtree_def rel)
qed

lemma tree_fields_name:
  assumes eq: "tree_fields w' = tree_fields w" and "w_groups w g \<noteq> None"
  shows "group_name w' g = group_name w g"
  using fun_cong [OF eq, of g] assms(2) by (auto simp: group_name_def tree_fields_def)

lemma child_names_eq:
  assumes "group_links D w" and "w_groups w g = Some G" and "\<And>c. w_groups w c \<noteq> None \<Longrightarrow> f c = group_name w c"
  shows "coll_ok f b (g_groups G) \<longleftrightarrow> coll_ok (group_name w) b (g_groups G)"
proof (rule coll_ok_cong)
  fix i x assume "coll_getItem (g_groups G) i = Some x"
  then have "child w g i x" using assms(2) by (simp add: child_def)
  with group_linksD [OF assms(1)] have "w_groups w x \<noteq> None" by (metis option.distinct(1))
  then show "f x = group_name w x" by (rule assms(3))
qed

lemma tree_ok_fields:
  assumes eq: "tree_fields w' = tree_fields w" and "next_group w' = next_group w" and ok: "tree_ok D w"
  shows "tree_ok D w'"
proof -
  note t = tree_okD [OF ok] and ch = tree_fields_child [OF eq]
  have orig: "\<exists>G. w_groups w g = Some G \<and> g_parent G = g_parent G' \<and> g_is_list G = g_is_list G' \<and> g_groups G = g_groups G' \<and>
      g_index G = g_index G'" if "w_groups w' g = Some G'" for g G'
    using that fun_cong [OF eq, of g] by (cases "w_groups w g") (auto simp: tree_fields_def)
  have "coll_ok (group_name w') (g_is_list G') (g_groups G')" "g < next_group w'" if "w_groups w' g = Some G'" for g G'
  proof -
    obtain G where G: "w_groups w g = Some G" "g_is_list G = g_is_list G'" "g_groups G = g_groups G'"
      using orig [OF \<open>w_groups w' g = Some G'\<close>] by auto
    show "coll_ok (group_name w') (g_is_list G') (g_groups G')"
      using groups_okD(2) [OF t(1) G(1)] child_names_eq [OF t(2) G(1) tree_fields_name [OF eq]] G(2,3) by simp
    show "g < next_group w'" using groups_okD(1) [OF t(1) G(1)] assms(2) by simp
  qed
  moreover obtain R where "w_groups w root = Some R" "g_parent R = Some root" "\<not> g_is_list R"
    using t(1) by (auto simp: groups_ok_def)
  then have "\<exists>G. w_groups w' root = Some G \<and> g_parent G = Some root \<and> \<not> g_is_list G"
    using tree_fields_get [OF eq] by metis
  ultimately have "groups_ok w'" by (auto simp: groups_ok_def)
  moreover have "group_links D w'"
  proof (rule group_linksI)
    show "\<exists>C. w_groups w' c = Some C \<and> c \<noteq> root \<and> c \<notin> D \<and> g_parent C = Some g \<and> g_index C = i" if "child w' g i c" for g i c
      using group_linksD [OF t(2), of g i c] that ch(1) tree_fields_get [OF eq, of c] by metis
    show "\<exists>g. g_parent C = Some g \<and> child w' g (g_index C) c" if "w_groups w' c = Some C" "c \<noteq> root" "c \<notin> D" for c C
      using orig [OF that(1)] group_linksE [OF t(2) _ that(2,3)] ch(1) by metis
    show "g_parent C \<noteq> None" if "w_groups w' root = Some C" for C
      using orig [OF that] t(1) by (auto simp: groups_ok_def)
    show "w_groups w' c \<noteq> None \<and> c \<noteq> root" if "c \<in> D" for c
      using that t(2) tree_fields_live [OF eq, of c] by (simp add: group_links_def)
  qed
  moreover have "rooted D w'" using t(3) tree_fields_live [OF eq] by (simp add: rooted_def ch)
  ultimately show ?thesis by (simp add: tree_ok_def)
qed

lemma owners_ok_fields:
  assumes eq: "view_fields w' = view_fields w" and "v_name w' = v_name w" and "v_owner w' = v_owner w"
    and "v_index w' = v_index w" and "next_view w' = next_view w"
    and dom: "dom (views (w_store w')) = dom (views (w_store w))" and ok: "owners_ok DV w"
  shows "owners_ok DV w'"
proof -
  have live: "live_view w' v \<longleftrightarrow> live_view w v" for v using dom by (metis domIff)
  have owned: "owned w' g i v \<longleftrightarrow> owned w g i v" for g i v
    using fun_cong [OF eq, of g] by (cases "w_groups w g"; cases "w_groups w' g") (auto simp: owned_def view_fields_def)
  have "coll_ok (v_name w) (g_is_list G) (g_views G)" if "w_groups w' g = Some G" for g G
    using that fun_cong [OF eq, of g] owners_okD(1) [OF ok, of g] by (cases "w_groups w g") (auto simp: view_fields_def)
  then show ?thesis using ok unfolding owners_ok_def owned live assms(2-5) by blast
qed

section \<open>Primitive changes of the tree\<close>

lemma upd_group_simps [simp]:
  "w_groups (upd_group g f w) = (w_groups w)(g \<mapsto> f (grp w g))" "w_store (upd_group g f w) = w_store w"
  "next_group (upd_group g f w) = next_group w" "next_view (upd_group g f w) = next_view w"
  "v_name (upd_group g f w) = v_name w" "v_owner (upd_group g f w) = v_owner w" "v_index (upd_group g f w) = v_index w"
  by (simp_all add: upd_group_def)

lemma upd_group_twice: "upd_group g f (upd_group g h w) = upd_group g (f \<circ> h) w"
  by (simp add: upd_group_def)

lemma tree_okI:
  assumes "\<exists>G. w_groups w root = Some G \<and> g_parent G = Some root \<and> \<not> g_is_list G"
    and "\<And>g G. w_groups w g = Some G \<Longrightarrow> g < next_group w"
    and "\<And>g G. w_groups w g = Some G \<Longrightarrow> coll_ok (group_name w) (g_is_list G) (g_groups G)"
    and "group_links D w" and "rooted D w"
  shows "tree_ok D w"
  using assms by (simp add: tree_ok_def groups_ok_def)

lemma tree_ok_root:
  assumes "tree_ok D w"
  obtains R where "w_groups w root = Some R" "g_parent R = Some root" "\<not> g_is_list R"
  using tree_okD(1) [OF assms] by (auto simp: groups_ok_def)

text \<open>A new group is created detached and without children.\<close>

definition new_group :: "string \<Rightarrow> bool \<Rightarrow> ('d, 'n) world \<Rightarrow> ('d, 'n) world" where
  "new_group name is_list w =
     w\<lparr>w_groups := (w_groups w)(next_group w \<mapsto> Group_new name is_list), next_group := Suc (next_group w)\<rparr>"

lemma tree_ok_new_group:
  fixes w :: "('d, 'n) world" and name :: string and is_list :: bool
  assumes ok: "tree_ok D w"
  defines "n \<equiv> next_group w" and "w' \<equiv> new_group name is_list w"
  shows "w_groups w n = None" and "tree_ok (insert n D) w'" and "child w' = child w" and "owned w' = owned w"
    and "owners_ok DV w \<Longrightarrow> owners_ok DV w'"
proof -
  note t = tree_okD [OF ok]
  have w': "w_groups w' = (w_groups w)(n \<mapsto> Group_new name is_list)" "next_group w' = Suc n" "w_store w' = w_store w"
    "v_name w' = v_name w" "v_owner w' = v_owner w" "v_index w' = v_index w" "next_view w' = next_view w"
    by (simp_all add: w'_def n_def new_group_def)
  have empty: "coll_getItem (g_groups (Group_new name is_list)) = Map.empty" "coll_getItem (g_views (Group_new name is_list)) = Map.empty"
    "g_is_list (Group_new name is_list) = is_list" "coll_ok f is_list (g_groups (Group_new name is_list))"
    "coll_ok f' is_list (g_views (Group_new name is_list))" for f f'
    by (simp_all add: Group_new_def)
  show none: "w_groups w n = None" using groups_okD(1) [OF t(1), of n] by (cases "w_groups w n") (auto simp: n_def)
  show ch: "child w' = child w" using none by (auto simp: child_def w' empty fun_eq_iff)
  show ow: "owned w' = owned w" using none by (auto simp: owned_def w' empty fun_eq_iff)
  have live: "c \<noteq> n" if "w_groups w c \<noteq> None" for c using that none by auto
  have name: "group_name w' c = group_name w c" if "w_groups w c \<noteq> None" for c
    using live [OF that] by (simp add: group_name_def w')
  obtain R where R: "w_groups w root = Some R" "g_parent R = Some root" "\<not> g_is_list R" by (rule tree_ok_root [OF ok])
  have nr: "n \<noteq> root" using none R(1) by (metis option.distinct(1))
  show "tree_ok (insert n D) w'"
  proof (rule tree_okI)
    show "\<exists>G. w_groups w' root = Some G \<and> g_parent G = Some root \<and> \<not> g_is_list G" using R nr by (simp add: w')
    show "g < next_group w'" if "w_groups w' g = Some G" for g G
      using that groups_okD(1) [OF t(1), of g] by (auto simp: w' n_def less_Suc_eq split: if_splits)
    show "coll_ok (group_name w') (g_is_list G) (g_groups G)" if "w_groups w' g = Some G" for g G
    proof (cases "g = n")
      case False
      with that have "w_groups w g = Some G" by (simp add: w')
      then show ?thesis using groups_okD(2) [OF t(1)] child_names_eq [OF t(2) _ name] by blast
    next
      case True
      with that show ?thesis by (auto simp: w' empty)
    qed
    show "group_links (insert n D) w'"
    proof (rule group_linksI, unfold ch)
      show "\<exists>C. w_groups w' c = Some C \<and> c \<noteq> root \<and> c \<notin> insert n D \<and> g_parent C = Some g \<and> g_index C = i" if "child w g i c" for g i c
        using group_linksD [OF t(2) that] live [of c] by (metis fun_upd_other insert_iff option.distinct(1) w'(1))
      show "\<exists>g. g_parent C = Some g \<and> child w g (g_index C) c" if "w_groups w' c = Some C" "c \<noteq> root" "c \<notin> insert n D" for c C
        using that group_linksE [OF t(2), of c C] by (auto simp: w')
      show "g_parent C \<noteq> None" if "w_groups w' root = Some C" for C using that R nr by (simp add: w')
      show "w_groups w' c \<noteq> None \<and> c \<noteq> root" if "c \<in> insert n D" for c
        using that t(2) nr by (auto simp: w' group_links_def)
    qed
    show "rooted (insert n D) w'" using t(3) by (auto simp: rooted_def childrel_def ch w')
  qed
  show "owners_ok DV w'" if v: "owners_ok DV w"
  proof -
    have "coll_ok (v_name w) (g_is_list G) (g_views G)" if "w_groups w' g = Some G" for g G
      using that owners_okD(1) [OF v, of g G] by (auto simp: w' empty split: if_splits)
    with v show ?thesis unfolding owners_ok_def ow w' by blast
  qed
qed

text \<open>Operations on the tree leave the views of every group and the names alone.\<close>

definition tree_frame :: "('d, 'n) world \<Rightarrow> ('d, 'n) world \<Rightarrow> bool" where
  "tree_frame w w' \<longleftrightarrow> w' = w\<lparr>w_groups := w_groups w'\<rparr> \<and> view_fields w' = view_fields w \<and> group_name w' = group_name w"

lemma view_fields_eqD:
  assumes "view_fields w' = view_fields w"
  shows "w_groups w' g = None \<longleftrightarrow> w_groups w g = None" "owned w' = owned w"
    "w_groups w' g = Some G' \<Longrightarrow> w_groups w g = Some G \<Longrightarrow> g_is_list G' = g_is_list G \<and> g_views G' = g_views G"
proof -
  have eq: "view_fields w' h = view_fields w h" for h using assms by simp
  show "w_groups w' g = None \<longleftrightarrow> w_groups w g = None" using eq [of g] by (auto simp: view_fields_def)
  show "owned w' = owned w"
  proof (intro ext)
    fix h i v show "owned w' h i v = owned w h i v"
      using eq [of h] by (cases "w_groups w h"; cases "w_groups w' h") (auto simp: owned_def view_fields_def)
  qed
  show "g_is_list G' = g_is_list G \<and> g_views G' = g_views G" if "w_groups w' g = Some G'" "w_groups w g = Some G"
    using eq [of g] that by (simp add: view_fields_def)
qed

lemma tree_frame_fields:
  assumes "tree_frame w w'"
  shows "w_store w' = w_store w" "next_group w' = next_group w" "next_view w' = next_view w" "v_name w' = v_name w"
    "v_owner w' = v_owner w" "v_index w' = v_index w" "group_name w' = group_name w" "view_fields w' = view_fields w"
  using assms unfolding tree_frame_def by (metis world.select_convs world.surjective world.update_convs(2))+

lemma tree_frame_views: "tree_frame w w' \<Longrightarrow> owners_ok DV w \<Longrightarrow> owners_ok DV w'"
  by (rule owners_ok_fields [of w' w]) (simp_all add: tree_frame_fields)

lemma tree_frame_trans: "tree_frame w w' \<Longrightarrow> tree_frame w' w'' \<Longrightarrow> tree_frame w w''"
  unfolding tree_frame_def by (metis world.surjective world.update_convs(2))

text \<open>A detached group is attached below a group that is not in its own subtree.\<close>

lemma rooted_attach:
  assumes "rooted D w" and rel: "childrel w' = insert (g, c) (childrel w)" and sub: "g \<notin> subtree w c"
    and live: "\<And>h. w_groups w' h = None \<longleftrightarrow> w_groups w h = None" and G: "w_groups w g \<noteq> None"
  shows "rooted (D - {c}) w'"
proof -
  have mono: "(childrel w)\<^sup>* \<subseteq> (childrel w')\<^sup>*" using rel by (intro rtrancl_mono) auto
  have "\<exists>r\<in>insert root D. (r, g) \<in> (childrel w)\<^sup>*" using assms(1) G by (simp add: rooted_def)
  then obtain r where r: "r \<in> insert root D" "(r, g) \<in> (childrel w)\<^sup>*" by blast
  then have rc: "r \<noteq> c" using sub by (auto simp: subtree_def)
  have "(r, g) \<in> (childrel w')\<^sup>*" "(g, c) \<in> childrel w'" using r(2) mono rel by auto
  then have gc: "(r, c) \<in> (childrel w')\<^sup>*" by (rule rtrancl_into_rtrancl)
  have "\<exists>r\<in>insert root (D - {c}). (r, h) \<in> (childrel w')\<^sup>*" if "w_groups w h \<noteq> None" for h
  proof -
    obtain q where q: "q \<in> insert root D" "(q, h) \<in> (childrel w)\<^sup>*" using assms(1) \<open>w_groups w h \<noteq> None\<close> by (auto simp: rooted_def)
    have "(r, h) \<in> (childrel w')\<^sup>*" if "q = c" using gc q(2) mono that by (meson rtrancl_trans subsetD)
    then show ?thesis using q r(1) rc mono by (cases "q = c") auto
  qed
  then show ?thesis by (simp add: rooted_def live)
qed

text \<open>Attaching a detached group to another group, whether or not that group lies below it.\<close>

lemma attachGroup_links:
  assumes ok: "tree_ok D w" and c: "c \<in> D" and G: "w_groups w g = Some G" and cg: "c \<noteq> g"
    and acc: "\<not> hasChildGroup w g (group_name w c)" and nm: "g_is_list G \<or> group_name w c \<noteq> []"
  obtains w' i C coll where "attachGroup w g c = (w', Some c)" "tree_frame w w'"
    "child w' = (\<lambda>h j x. child w h j x \<or> (h = g \<and> j = i \<and> x = c))" "w_groups w c = Some C" "c \<noteq> root"
    "coll_ok (group_name w) (g_is_list G) coll" "group_name w' = group_name w" "next_group w' = next_group w"
    "w_groups w' = (w_groups w)(g \<mapsto> G\<lparr>g_groups := coll\<rparr>, c \<mapsto> C\<lparr>g_parent := Some g, g_index := i\<rparr>)"
proof -
  note t = tree_okD [OF ok]
  obtain C where C: "w_groups w c = Some C" "c \<noteq> root" using t(2) c by (auto simp: group_links_def)
  obtain coll i where ins: "coll_insertItem (g_groups G) (group_name w c) c = (coll, i)"
    "coll_ok (group_name w) (g_is_list G) coll" "coll_getItem (g_groups G) i = None"
    "coll_getItem coll = (coll_getItem (g_groups G))(i \<mapsto> c)"
    using coll_ok_insert [OF groups_okD(2) [OF t(1) G], of c "group_name w c"]
      hasChildGroup_iff(2) [OF t(1) G] acc nm by auto
  define w' where "w' = w\<lparr>w_groups := (w_groups w)(g \<mapsto> G\<lparr>g_groups := coll\<rparr>, c \<mapsto> C\<lparr>g_parent := Some g, g_index := i\<rparr>)\<rparr>"
  have w': "w_groups w' h = (if h = c then Some (C\<lparr>g_parent := Some g, g_index := i\<rparr>) else if h = g then Some (G\<lparr>g_groups := coll\<rparr>)
      else w_groups w h)" "next_group w' = next_group w" for h
    by (simp_all add: w'_def)
  have nw: "group_name (upd_group c (\<lambda>C. C\<lparr>g_parent := p\<rparr>) w) c = group_name w c" for p
    by (simp add: group_name_def C)
  have att: "attachGroup w g c = (w', Some c)"
    using C G cg ins(1) acc by (simp add: attachGroup_def nw Let_def) (simp add: w'_def upd_group_def fun_upd_twist)
  have name: "group_name w' = group_name w" using C G by (auto simp: group_name_def w' fun_eq_iff)
  have frame: "tree_frame w w'"
    using C G name by (auto simp: tree_frame_def view_fields_def w' fun_eq_iff) (simp add: w'_def)
  have ch: "child w' = (\<lambda>h j x. child w h j x \<or> (h = g \<and> j = i \<and> x = c))"
    using C G cg ins(3,4) by (auto simp: child_def w' fun_eq_iff)
  show thesis by (rule that [OF att frame ch C ins(2) name w'(2)]) (simp add: w'_def)
qed

lemma attachGroup_effect:
  assumes ok: "tree_ok D w" and c: "c \<in> D" and G: "w_groups w g = Some G" and sub: "g \<notin> subtree w c"
    and acc: "\<not> hasChildGroup w g (group_name w c)" and nm: "g_is_list G \<or> group_name w c \<noteq> []"
  obtains w' i where "attachGroup w g c = (w', Some c)" "tree_ok (D - {c}) w'" "tree_frame w w'"
    "child w' = (\<lambda>h j x. child w h j x \<or> (h = g \<and> j = i \<and> x = c))"
proof -
  note t = tree_okD [OF ok]
  have cg: "c \<noteq> g" using sub by auto
  obtain w' i C coll where att: "attachGroup w g c = (w', Some c)" and frame: "tree_frame w w'"
    and ch: "child w' = (\<lambda>h j x. child w h j x \<or> (h = g \<and> j = i \<and> x = c))" and C: "w_groups w c = Some C" "c \<noteq> root"
    and ins: "coll_ok (group_name w) (g_is_list G) coll" and name: "group_name w' = group_name w" and next': "next_group w' = next_group w"
    and upd: "w_groups w' = (w_groups w)(g \<mapsto> G\<lparr>g_groups := coll\<rparr>, c \<mapsto> C\<lparr>g_parent := Some g, g_index := i\<rparr>)"
    by (rule attachGroup_links [OF ok c G cg acc nm])
  have w': "w_groups w' h = (if h = c then Some (C\<lparr>g_parent := Some g, g_index := i\<rparr>) else if h = g then Some (G\<lparr>g_groups := coll\<rparr>)
      else w_groups w h)" for h by (simp add: upd)
  have live: "w_groups w' h = None \<longleftrightarrow> w_groups w h = None" for h using C G by (simp add: w')
  have rel: "childrel w' = insert (g, c) (childrel w)" by (auto simp: childrel_def ch)
  obtain R where R: "w_groups w root = Some R" "g_parent R = Some root" "\<not> g_is_list R" by (rule tree_ok_root [OF ok])
  have "tree_ok (D - {c}) w'"
  proof (rule tree_okI)
    show root: "\<exists>G. w_groups w' root = Some G \<and> g_parent G = Some root \<and> \<not> g_is_list G" using R G C(2) by (auto simp: w')
    show "h < next_group w'" if "w_groups w' h = Some H" for h H
      using live [of h] that groups_okD(1) [OF t(1), of h] by (cases "w_groups w h") (auto simp: next')
    show "coll_ok (group_name w') (g_is_list H) (g_groups H)" if "w_groups w' h = Some H" for h H
      using that groups_okD(2) [OF t(1)] C(1) ins unfolding name by (auto simp: w' split: if_splits)
    show "group_links (D - {c}) w'"
    proof (rule group_linksI)
      show "\<exists>X. w_groups w' x = Some X \<and> x \<noteq> root \<and> x \<notin> D - {c} \<and> g_parent X = Some h \<and> g_index X = j" if "child w' h j x" for h j x
      proof (cases "child w h j x")
        case True
        then obtain X where X: "w_groups w x = Some X" "x \<noteq> root" "x \<notin> D" "g_parent X = Some h" "g_index X = j"
          by (rule group_linksD [OF t(2)])
        then have "x \<noteq> c" using c by auto
        with X G show ?thesis by (auto simp: w')
      next
        case False
        with that C(2) show ?thesis by (simp add: ch w')
      qed
      show "\<exists>h. g_parent X = Some h \<and> child w' h (g_index X) x" if x: "w_groups w' x = Some X" "x \<noteq> root" "x \<notin> D - {c}" for x X
      proof (cases "x = c")
        case False
        with x have "x \<notin> D" by simp
        obtain Y where "w_groups w x = Some Y" "g_parent Y = g_parent X" "g_index Y = g_index X"
          using x(1) False G by (auto simp: w' split: if_splits)
        with group_linksE [OF t(2) _ x(2) \<open>x \<notin> D\<close>] show ?thesis by (metis ch)
      next
        case True
        with x(1) show ?thesis by (auto simp: w' ch)
      qed
      show "g_parent X \<noteq> None" if "w_groups w' root = Some X" for X using that root by auto
      show "w_groups w' x \<noteq> None \<and> x \<noteq> root" if "x \<in> D - {c}" for x
        using that t(2) live [of x] by (simp add: group_links_def)
    qed
    show "rooted (D - {c}) w'" using rooted_attach [OF t(3) rel sub live] G by simp
  qed
  with att frame ch that show thesis by blast
qed

lemma coll_removeItem_absent: "coll_getItem c i = None \<Longrightarrow> coll_removeItem name_of c i = (c, None)"
  by (cases c) (auto simp: MapCollection_removeItem_def ListCollection_removeItem_def MapCollection_getItem_def
      ListCollection_getItem_def slot_getItem_eq MapCollection_hasItem_def ListCollection_hasItem_def slot_hasItem_iff)

lemma upd_group_same: "w_groups w g = Some G \<Longrightarrow> f G = G \<Longrightarrow> upd_group g f w = w"
  by (simp add: upd_group_def fun_upd_idem)

lemma detachGroup_at_absent:
  assumes "w_groups w g = Some G" and "coll_getItem (g_groups G) i = None"
  shows "detachGroup_at w g i = (w, None)"
  using assms by (simp add: detachGroup_at_def coll_removeItem_absent orphan_def upd_group_same)

lemma detachGroup_named:
  assumes ok: "groups_ok w" and G: "w_groups w g = Some G" and map: "\<not> g_is_list G"
  shows "child w g i c \<Longrightarrow> detachGroup w g (group_name w c) = Inr (detachGroup_at w g i)"
    and "\<not> hasChildGroup w g name \<Longrightarrow> detachGroup w g name = Inr (w, None)"
proof -
  obtain m where m: "g_groups G = MapColl m" "mc_inv (group_name w) m"
    using groups_okD(2) [OF ok G] map by (auto simp: coll_ok_def split: coll.splits)
  show "detachGroup w g (group_name w c) = Inr (detachGroup_at w g i)" if "child w g i c"
  proof -
    have "mc_name2idx_map m (group_name w c) = Some i"
      using that named_lookup(3) [OF m(2)] G m(1) by (auto simp: child_def)
    then show ?thesis
      using G m(1) by (simp add: detachGroup_def getNamedGroups_def detachGroup_at_def removeItem_named_eq [OF m(2)] split: prod.split)
  qed
  show "detachGroup w g name = Inr (w, None)" if "\<not> hasChildGroup w g name"
  proof -
    have "mc_name2idx_map m name = None"
      using that G map m(1) by (auto simp: hasChildGroup_def isUsingMap_def getNamedGroups_def MapCollection_hasItem_named_def)
    then show ?thesis
      using G m(1) by (simp add: detachGroup_def getNamedGroups_def removeItem_named_eq [OF m(2)] orphan_def upd_group_same)
  qed
qed

lemma rooted_detach:
  assumes "rooted D w" and rel: "childrel w' = childrel w - {(g, c)}"
    and live: "\<And>h. w_groups w' h = None \<longleftrightarrow> w_groups w h = None"
  shows "rooted (insert c D) w'"
proof -
  have "\<exists>r\<in>insert root (insert c D). (r, h) \<in> (childrel w')\<^sup>*" if "(r, h) \<in> (childrel w)\<^sup>*" "r \<in> insert root D" for r h
    using that
  proof (induction rule: rtrancl_induct)
    case (step p h)
    then obtain q where q: "q \<in> insert root (insert c D)" "(q, p) \<in> (childrel w')\<^sup>*" by blast
    show ?case
    proof (cases "h = c")
      case False
      with step(2) have "(p, h) \<in> childrel w'" by (simp add: rel)
      with q show ?thesis by (meson rtrancl_into_rtrancl)
    qed auto
  qed auto
  with assms(1) show ?thesis by (metis rooted_def live)
qed

lemma detachGroup_at_effect:
  assumes ok: "tree_ok D w" and gc: "child w g i c"
  obtains w' where "detachGroup_at w g i = (w', Some c)" "tree_ok (insert c D) w'" "tree_frame w w'"
    "child w' = (\<lambda>h j x. child w h j x \<and> x \<noteq> c)"
proof -
  note t = tree_okD [OF ok]
  obtain G where G: "w_groups w g = Some G" "coll_getItem (g_groups G) i = Some c" using gc by (auto simp: child_def)
  obtain C where C: "w_groups w c = Some C" "c \<noteq> root" "c \<notin> D" "g_parent C = Some g" "g_index C = i"
    by (rule group_linksD [OF t(2) gc])
  have cg: "c \<noteq> g" using subtree_strict [OF t(2,3) gc] by auto
  obtain coll where rem: "coll_removeItem (group_name w) (g_groups G) i = (coll, Some c)"
    "coll_ok (group_name w) (g_is_list G) coll" "coll_getItem coll = (coll_getItem (g_groups G))(i := None)"
    using coll_ok_remove [OF groups_okD(2) [OF t(1) G(1)], of i] G(2) by auto
  define w' where "w' = w\<lparr>w_groups := (w_groups w)(g \<mapsto> G\<lparr>g_groups := coll\<rparr>, c \<mapsto> C\<lparr>g_parent := None, g_index := InvalidIndex\<rparr>)\<rparr>"
  have w': "w_groups w' h = (if h = c then Some (C\<lparr>g_parent := None, g_index := InvalidIndex\<rparr>)
      else if h = g then Some (G\<lparr>g_groups := coll\<rparr>) else w_groups w h)" "next_group w' = next_group w" for h
    by (simp_all add: w'_def)
  have det: "detachGroup_at w g i = (w', Some c)"
    using C(1) G cg rem(1) by (simp add: detachGroup_at_def orphan_def w'_def upd_group_def)
  have name: "group_name w' = group_name w" using C G by (auto simp: group_name_def w' fun_eq_iff)
  have frame: "tree_frame w w'"
    using C G name by (auto simp: tree_frame_def view_fields_def w' fun_eq_iff) (simp add: w'_def)
  have only: "h = g \<and> j = i" if "child w h j c" for h j using child_unique_parent [OF t(2) that gc] .
  have ch: "child w' h j x \<longleftrightarrow> child w h j x \<and> x \<noteq> c" for h j x
  proof (cases "h = g")
    case True
    have "j \<noteq> i \<Longrightarrow> coll_getItem (g_groups G) j \<noteq> Some c" using only [of g j] G(1) by (auto simp: child_def)
    with True C(1) G cg show ?thesis by (cases "j = i") (auto simp: child_def w' rem(3))
  next
    case False
    then have "x \<noteq> c" if "child w h j x" using only that by blast
    with False C(1) show ?thesis by (auto simp: child_def w')
  qed
  have live: "w_groups w' h = None \<longleftrightarrow> w_groups w h = None" for h using C(1) G by (simp add: w')
  have rel: "childrel w' = childrel w - {(g, c)}" using only by (auto simp: childrel_def ch)
  obtain R where R: "w_groups w root = Some R" "g_parent R = Some root" "\<not> g_is_list R" by (rule tree_ok_root [OF ok])
  have "tree_ok (insert c D) w'"
  proof (rule tree_okI)
    show root: "\<exists>G. w_groups w' root = Some G \<and> g_parent G = Some root \<and> \<not> g_is_list G" using R G C(2) by (auto simp: w')
    show "h < next_group w'" if "w_groups w' h = Some H" for h H
      using live [of h] that groups_okD(1) [OF t(1), of h] by (cases "w_groups w h") (auto simp: w'(2))
    show "coll_ok (group_name w') (g_is_list H) (g_groups H)" if "w_groups w' h = Some H" for h H
      using that groups_okD(2) [OF t(1)] C(1) rem(2) unfolding name by (auto simp: w' split: if_splits)
    show "group_links (insert c D) w'"
    proof (rule group_linksI, unfold ch)
      show "\<exists>X. w_groups w' x = Some X \<and> x \<noteq> root \<and> x \<notin> insert c D \<and> g_parent X = Some h \<and> g_index X = j"
        if hx: "child w h j x \<and> x \<noteq> c" for h j x
      proof -
        obtain X where "w_groups w x = Some X" "x \<noteq> root" "x \<notin> D" "g_parent X = Some h" "g_index X = j"
          using hx group_linksD [OF t(2)] by blast
        with hx G show ?thesis by (auto simp: w')
      qed
      show "\<exists>h. g_parent X = Some h \<and> child w h (g_index X) x \<and> x \<noteq> c"
        if x: "w_groups w' x = Some X" "x \<noteq> root" "x \<notin> insert c D" for x X
      proof -
        from x have xc: "x \<noteq> c" "x \<notin> D" by auto
        then obtain Y where "w_groups w x = Some Y" "g_parent Y = g_parent X" "g_index Y = g_index X"
          using x(1) G by (auto simp: w' split: if_splits)
        with group_linksE [OF t(2) _ x(2) xc(2)] xc(1) show ?thesis by metis
      qed
      show "g_parent X \<noteq> None" if "w_groups w' root = Some X" for X using that root by auto
      show "w_groups w' x \<noteq> None \<and> x \<noteq> root" if "x \<in> insert c D" for x
        using that t(2) live [of x] C by (auto simp: group_links_def)
    qed
    show "rooted (insert c D) w'" by (rule rooted_detach [OF t(3) rel live])
  qed
  moreover have "child w' = (\<lambda>h j x. child w h j x \<and> x \<noteq> c)" by (simp add: fun_eq_iff ch)
  ultimately show thesis using det frame that by blast
qed

text \<open>A detached group without children and views is freed; a detached group is renamed.\<close>

lemma free_group_simps [simp]:
  "w_groups (free_group g w) = (w_groups w)(g := None)" "w_store (free_group g w) = w_store w"
  "next_group (free_group g w) = next_group w" "next_view (free_group g w) = next_view w"
  "v_name (free_group g w) = v_name w" "v_owner (free_group g w) = v_owner w" "v_index (free_group g w) = v_index w"
  by (simp_all add: free_group_def)

lemma group_name_upd_other: "h \<noteq> g \<Longrightarrow> group_name (upd_group g f w) h = group_name w h"
  by (simp add: group_name_def)

lemma tree_ok_rename:
  fixes w :: "('d, 'n) world" and name :: string and c :: group_id
  assumes ok: "tree_ok D w" and c: "c \<in> insert root D"
  defines "w' \<equiv> upd_group c (\<lambda>C. C\<lparr>g_name := name\<rparr>) w"
  shows "tree_ok D w'" and "child w' = child w" and "view_fields w' = view_fields w"
proof -
  note t = tree_okD [OF ok]
  obtain R where R: "w_groups w root = Some R" "g_parent R = Some root" "\<not> g_is_list R" by (rule tree_ok_root [OF ok])
  obtain C where C: "w_groups w c = Some C" using c R(1) t(2) by (auto simp: group_links_def)
  have w': "w_groups w' h = (if h = c then Some (C\<lparr>g_name := name\<rparr>) else w_groups w h)" "next_group w' = next_group w" for h
    by (simp_all add: w'_def C)
  show ch: "child w' = child w" using C by (auto simp: child_def w' fun_eq_iff)
  show "view_fields w' = view_fields w" using C by (auto simp: view_fields_def w' fun_eq_iff)
  have notc: "x \<noteq> c" if "child w g i x" for g i x using group_linksD [OF t(2) that] c by (metis insert_iff)
  show "tree_ok D w'"
  proof (rule tree_okI)
    show root: "\<exists>G. w_groups w' root = Some G \<and> g_parent G = Some root \<and> \<not> g_is_list G" using R C by (auto simp: w')
    show "h < next_group w'" if "w_groups w' h = Some H" for h H
      using that C groups_okD(1) [OF t(1)] by (auto simp: w' split: if_splits)
    show "coll_ok (group_name w') (g_is_list H) (g_groups H)" if H: "w_groups w' h = Some H" for h H
    proof -
      obtain H0 where H0: "w_groups w h = Some H0" "g_is_list H0 = g_is_list H" "g_groups H0 = g_groups H"
        using H C by (auto simp: w' split: if_splits)
      have "group_name w x = group_name w' x" if "coll_getItem (g_groups H) i = Some x" for i x
        using notc [of h i x] that H0 by (simp add: child_def w'_def group_name_upd_other)
      then have "coll_ok (group_name w) (g_is_list H) (g_groups H) = coll_ok (group_name w') (g_is_list H) (g_groups H)"
        by (rule coll_ok_cong)
      with groups_okD(2) [OF t(1) H0(1)] H0 show ?thesis by simp
    qed
    show "group_links D w'"
    proof (rule group_linksI, unfold ch)
      show "\<exists>X. w_groups w' x = Some X \<and> x \<noteq> root \<and> x \<notin> D \<and> g_parent X = Some h \<and> g_index X = j" if "child w h j x" for h j x
        using group_linksD [OF t(2) that] notc [OF that] by (metis w'(1))
      show "\<exists>h. g_parent X = Some h \<and> child w h (g_index X) x" if "w_groups w' x = Some X" "x \<noteq> root" "x \<notin> D" for x X
        using group_linksE [OF t(2), of x X] that c by (auto simp: w' split: if_splits)
      show "g_parent X \<noteq> None" if "w_groups w' root = Some X" for X using that root by auto
      show "w_groups w' x \<noteq> None \<and> x \<noteq> root" if "x \<in> D" for x
        using that t(2) by (auto simp: group_links_def w')
    qed
    show "rooted D w'" using t(3) C by (auto simp: rooted_def childrel_def ch w')
  qed
qed

section \<open>Primitive changes of the views\<close>

lemma dom_View_destroy [simp]: "dom (views (View_destroy v s)) = dom (views s) - {v}"
  by (auto simp: View_destroy_def Buffer_detachFromView_def setBufferViewToEmpty_def Let_def upd_view_def upd_buffer_def
      split: option.splits if_splits)

lemma owners_okI:
  assumes "\<And>g G. w_groups w g = Some G \<Longrightarrow> coll_ok (v_name w) (g_is_list G) (g_views G)"
    and "\<And>g i v. owned w g i v \<Longrightarrow> live_view w v \<and> v \<notin> DV \<and> v_owner w v = Some g \<and> v_index w v = i"
    and "\<And>v. live_view w v \<Longrightarrow> v < next_view w"
    and "\<And>v. live_view w v \<Longrightarrow> v \<notin> DV \<Longrightarrow> \<exists>g. v_owner w v = Some g \<and> owned w g (v_index w v) v"
    and "\<And>v. v \<in> DV \<Longrightarrow> live_view w v"
  shows "owners_ok DV w"
proof -
  have "owned w g i v \<longleftrightarrow> live_view w v \<and> v \<notin> DV \<and> v_owner w v = Some g \<and> v_index w v = i" for g i v
    using assms(2) [of g i v] assms(4) [of v] by auto
  moreover have "v_owner w v \<noteq> None" if "live_view w v" "v \<notin> DV" for v using assms(4) [OF that] by auto
  ultimately show ?thesis using assms(1,3,5) unfolding owners_ok_def by blast
qed

lemma owners_okE:
  assumes "owners_ok DV w" and "live_view w v" and "v \<notin> DV"
  obtains g where "v_owner w v = Some g" "owned w g (v_index w v) v"
  using owners_okD(2,4) [OF assms(1)] assms(2,3) by (metis not_Some_eq)

lemma owned_names_eq:
  assumes "owners_ok DV w" and "w_groups w g = Some G" and "\<And>v. live_view w v \<Longrightarrow> v \<notin> DV \<Longrightarrow> f v = v_name w v"
  shows "coll_ok f b (g_views G) \<longleftrightarrow> coll_ok (v_name w) b (g_views G)"
proof (rule coll_ok_cong)
  fix i x assume "coll_getItem (g_views G) i = Some x"
  then have "owned w g i x" using assms(2) by (simp add: owned_def)
  with owners_okD(2) [OF assms(1)] show "f x = v_name w x" by (metis assms(3))
qed

text \<open>Operations on the views of groups leave the tree alone.\<close>

definition view_frame :: "('d, 'n) world \<Rightarrow> ('d, 'n) world \<Rightarrow> bool" where
  "view_frame w w' \<longleftrightarrow>
     tree_fields w' = tree_fields w \<and> w' = w\<lparr>w_groups := w_groups w', v_owner := v_owner w', v_index := v_index w'\<rparr>"

lemma view_frame_fields:
  assumes "view_frame w w'"
  shows "w_store w' = w_store w" "next_group w' = next_group w" "next_view w' = next_view w" "v_name w' = v_name w"
    "tree_fields w' = tree_fields w"
proof -
  have e: "w' = w\<lparr>w_groups := w_groups w', v_owner := v_owner w', v_index := v_index w'\<rparr>" and
    t: "tree_fields w' = tree_fields w" using assms by (auto simp: view_frame_def)
  show "tree_fields w' = tree_fields w" by (rule t)
  show "w_store w' = w_store w" "next_group w' = next_group w" "next_view w' = next_view w" "v_name w' = v_name w"
    by (subst e, simp)+
qed

definition new_view :: "('d, 'n) env \<Rightarrow> string \<Rightarrow> ('d, 'n) world \<Rightarrow> ('d, 'n) world" where
  "new_view E name w =
     (let v = next_view w
      in w\<lparr>w_store := View_create E v (w_store w), next_view := Suc v, v_name := (v_name w)(v := name),
           v_owner := (v_owner w)(v := None), v_index := (v_index w)(v := InvalidIndex)\<rparr>)"

lemma new_view_simps [simp]:
  "w_groups (new_view E name w) = w_groups w" "next_group (new_view E name w) = next_group w"
  "w_store (new_view E name w) = View_create E (next_view w) (w_store w)" "next_view (new_view E name w) = Suc (next_view w)"
  "v_name (new_view E name w) = (v_name w)(next_view w := name)"
  "v_owner (new_view E name w) = (v_owner w)(next_view w := None)"
  "v_index (new_view E name w) = (v_index w)(next_view w := InvalidIndex)"
  by (simp_all add: new_view_def Let_def)

lemma owners_ok_new_view:
  assumes ok: "owners_ok DV w"
  shows "owners_ok (insert (next_view w) DV) (new_view E name w)" and "\<not> live_view w (next_view w)"
    and "owned (new_view E name w) = owned w" and "tree_fields (new_view E name w) = tree_fields w"
proof -
  let ?v = "next_view w" and ?w = "new_view E name w"
  show fresh: "\<not> live_view w ?v" using owners_okD(3) [OF ok, of ?v] by (metis less_irrefl)
  show ow: "owned ?w = owned w" by (simp add: fun_eq_iff owned_def)
  show "tree_fields ?w = tree_fields w" by (simp add: fun_eq_iff tree_fields_def)
  have live: "live_view ?w u \<longleftrightarrow> u = ?v \<or> live_view w u" for u by (auto simp: View_create_def)
  show "owners_ok (insert ?v DV) ?w"
  proof (rule owners_okI, unfold ow live)
    show "coll_ok (v_name ?w) (g_is_list G) (g_views G)" if "w_groups ?w g = Some G" for g G
      using that owners_okD(1) [OF ok, of g G] owned_names_eq [OF ok, of g G "v_name ?w"] fresh
      by (metis fun_upd_other new_view_simps(1,5))
    show "(u = ?v \<or> live_view w u) \<and> u \<notin> insert ?v DV \<and> v_owner ?w u = Some g \<and> v_index ?w u = i" if "owned w g i u" for g i u
      using owners_okD(2) [OF ok, of g i u] that fresh by auto
    show "u < next_view ?w" if "u = ?v \<or> live_view w u" for u
      using that owners_okD(3) [OF ok, of u] by auto
    show "\<exists>g. v_owner ?w u = Some g \<and> owned w g (v_index ?w u) u" if "u = ?v \<or> live_view w u" "u \<notin> insert ?v DV" for u
      using that owners_okE [OF ok, of u] by (metis fun_upd_other insertCI new_view_simps(6,7))
    show "u = ?v \<or> live_view w u" if "u \<in> insert ?v DV" for u using that owners_okD(5) [OF ok] by auto
  qed
qed

lemma attachView_effect:
  assumes ok: "owners_ok DV w" and v: "v \<in> DV" and G: "w_groups w g = Some G"
    and acc: "\<not> hasChildView w g (v_name w v)" and nm: "g_is_list G \<or> v_name w v \<noteq> []"
  obtains w' i where "attachView w g v = (w', Some v)" "owners_ok (DV - {v}) w'" "view_frame w w'"
    "owned w' = (\<lambda>h j u. owned w h j u \<or> (h = g \<and> j = i \<and> u = v))"
proof -
  obtain coll i where ins: "coll_insertItem (g_views G) (v_name w v) v = (coll, i)"
    "coll_ok (v_name w) (g_is_list G) coll" "coll_getItem (g_views G) i = None"
    "coll_getItem coll = (coll_getItem (g_views G))(i \<mapsto> v)"
    using coll_ok_insert [OF owners_okD(1) [OF ok G], of v "v_name w v"] hasChildView_iff(2) [OF ok G] acc nm by auto
  define w' where "w' = w\<lparr>w_groups := (w_groups w)(g \<mapsto> G\<lparr>g_views := coll\<rparr>),
      v_owner := (v_owner w)(v := Some g), v_index := (v_index w)(v := i)\<rparr>"
  have att: "attachView w g v = (w', Some v)"
    using G ins(1) acc by (simp add: attachView_def Let_def w'_def upd_group_def)
  have frame: "view_frame w w'" using G by (simp add: view_frame_def w'_def tree_fields_def fun_eq_iff)
  note w' = view_frame_fields [OF frame]
  have ow: "owned w' = (\<lambda>h j u. owned w h j u \<or> (h = g \<and> j = i \<and> u = v))"
    using G ins(3,4) by (auto simp: owned_def w'_def fun_eq_iff)
  have "owners_ok (DV - {v}) w'"
  proof (rule owners_okI, unfold w' ow)
    show "coll_ok (v_name w) (g_is_list H) (g_views H)" if "w_groups w' h = Some H" for h H
      using that owners_okD(1) [OF ok] G ins(2) by (auto simp: w'_def split: if_splits)
    show "live_view w u \<and> u \<notin> DV - {v} \<and> v_owner w' u = Some h \<and> v_index w' u = j"
      if "owned w h j u \<or> (h = g \<and> j = i \<and> u = v)" for h j u
      using that owners_okD(2) [OF ok, of h j u] owners_okD(5) [OF ok v] v by (auto simp: w'_def)
    show "u < next_view w" if "live_view w u" for u using that owners_okD(3) [OF ok] by blast
    show "\<exists>h. v_owner w' u = Some h \<and> (owned w h (v_index w' u) u \<or> h = g \<and> v_index w' u = i \<and> u = v)"
      if "live_view w u" "u \<notin> DV - {v}" for u
      using that owners_okE [OF ok that(1)] by (cases "u = v") (auto simp: w'_def)
    show "live_view w u" if "u \<in> DV - {v}" for u using that owners_okD(5) [OF ok] by blast
  qed
  with att frame ow that show thesis by blast
qed

lemma detachView_at_absent:
  assumes "w_groups w g = Some G" and "coll_getItem (g_views G) i = None"
  shows "detachView_at w g i = (w, None)"
  using assms by (simp add: detachView_at_def coll_removeItem_absent forget_owner_def upd_group_same)

lemma detachView_named:
  assumes ok: "owners_ok DV w" and G: "w_groups w g = Some G" and map: "\<not> g_is_list G"
  shows "owned w g i v \<Longrightarrow> detachView w g (v_name w v) = Inr (detachView_at w g i)"
    and "\<not> hasChildView w g name \<Longrightarrow> detachView w g name = Inr (w, None)"
proof -
  obtain m where m: "g_views G = MapColl m" "mc_inv (v_name w) m"
    using owners_okD(1) [OF ok G] map by (auto simp: coll_ok_def split: coll.splits)
  show "detachView w g (v_name w v) = Inr (detachView_at w g i)" if "owned w g i v"
  proof -
    have "mc_name2idx_map m (v_name w v) = Some i"
      using that named_lookup(3) [OF m(2)] G m(1) by (auto simp: owned_def)
    then show ?thesis
      using G m(1) by (simp add: detachView_def getNamedViews_def detachView_at_def removeItem_named_eq [OF m(2)] split: prod.split)
  qed
  show "detachView w g name = Inr (w, None)" if "\<not> hasChildView w g name"
  proof -
    have "mc_name2idx_map m name = None"
      using that G map m(1) by (auto simp: hasChildView_def isUsingMap_def getNamedViews_def MapCollection_hasItem_named_def)
    then show ?thesis
      using G m(1) by (simp add: detachView_def getNamedViews_def removeItem_named_eq [OF m(2)] forget_owner_def upd_group_same)
  qed
qed

lemma owned_unique:
  assumes "owners_ok DV w" and "owned w g i v" and "owned w h j v"
  shows "g = h \<and> i = j"
  using owners_okD(2) [OF assms(1)] assms(2,3) by (metis option.inject)

lemma detachView_at_effect:
  assumes ok: "owners_ok DV w" and gv: "owned w g i v"
  obtains w' where "detachView_at w g i = (w', Some v)" "owners_ok (insert v DV) w'" "view_frame w w'"
    "owned w' = (\<lambda>h j u. owned w h j u \<and> u \<noteq> v)"
    "v_owner w' = (v_owner w)(v := None)" "v_index w' = (v_index w)(v := InvalidIndex)"
    "\<exists>G coll. w_groups w g = Some G \<and> coll_ok (v_name w) (g_is_list G) coll \<and>
       coll_getItem coll = (coll_getItem (g_views G))(i := None) \<and> w_groups w' = (w_groups w)(g \<mapsto> G\<lparr>g_views := coll\<rparr>)"
proof -
  obtain G where G: "w_groups w g = Some G" "coll_getItem (g_views G) i = Some v" using gv by (auto simp: owned_def)
  have v: "live_view w v" "v \<notin> DV" "v_owner w v = Some g" "v_index w v = i" using gv owners_okD(2) [OF ok] by auto
  obtain coll where rem: "coll_removeItem (v_name w) (g_views G) i = (coll, Some v)"
    "coll_ok (v_name w) (g_is_list G) coll" "coll_getItem coll = (coll_getItem (g_views G))(i := None)"
    using coll_ok_remove [OF owners_okD(1) [OF ok G(1)], of i] G(2) by auto
  define w' where "w' = w\<lparr>w_groups := (w_groups w)(g \<mapsto> G\<lparr>g_views := coll\<rparr>),
      v_owner := (v_owner w)(v := None), v_index := (v_index w)(v := InvalidIndex)\<rparr>"
  have det: "detachView_at w g i = (w', Some v)"
    using G rem(1) by (simp add: detachView_at_def forget_owner_def w'_def upd_group_def)
  have frame: "view_frame w w'" using G by (simp add: view_frame_def w'_def tree_fields_def fun_eq_iff)
  note w' = view_frame_fields [OF frame]
  have ow: "owned w' h j u \<longleftrightarrow> owned w h j u \<and> u \<noteq> v" for h j u
  proof (cases "h = g")
    case True
    have "j \<noteq> i \<Longrightarrow> coll_getItem (g_views G) j \<noteq> Some v" using owned_unique [OF ok gv, of g j] G(1) by (auto simp: owned_def)
    with True G show ?thesis by (cases "j = i") (auto simp: owned_def w'_def rem(3))
  next
    case False
    then have "u \<noteq> v" if "owned w h j u" using owned_unique [OF ok gv] that by blast
    with False show ?thesis by (auto simp: owned_def w'_def)
  qed
  have "owners_ok (insert v DV) w'"
  proof (rule owners_okI, unfold w' ow)
    show "coll_ok (v_name w) (g_is_list H) (g_views H)" if "w_groups w' h = Some H" for h H
      using that owners_okD(1) [OF ok] G rem(2) by (auto simp: w'_def split: if_splits)
    show "live_view w u \<and> u \<notin> insert v DV \<and> v_owner w' u = Some h \<and> v_index w' u = j" if "owned w h j u \<and> u \<noteq> v" for h j u
      using that owners_okD(2) [OF ok, of h j u] by (auto simp: w'_def)
    show "u < next_view w" if "live_view w u" for u using that owners_okD(3) [OF ok] by blast
    show "\<exists>h. v_owner w' u = Some h \<and> owned w h (v_index w' u) u \<and> u \<noteq> v" if "live_view w u" "u \<notin> insert v DV" for u
      using that owners_okE [OF ok that(1)] by (auto simp: w'_def)
    show "live_view w u" if "u \<in> insert v DV" for u using that owners_okD(5) [OF ok] v(1) by blast
  qed
  moreover have "owned w' = (\<lambda>h j u. owned w h j u \<and> u \<noteq> v)" by (simp add: fun_eq_iff ow)
  ultimately show thesis using det frame that G(1) rem(2,3) by (simp add: w'_def) blast
qed

lemma owners_ok_store:
  assumes ok: "owners_ok DV w" and dom: "dom (views s') = dom (views (w_store w)) - X" and X: "X \<subseteq> DV"
  shows "owners_ok (DV - X) (w\<lparr>w_store := s'\<rparr>)" (is "owners_ok _ ?w")
proof (rule owners_okI)
  have ow: "owned ?w = owned w" by (simp add: fun_eq_iff owned_def)
  have live: "live_view ?w u \<longleftrightarrow> live_view w u \<and> u \<notin> X" for u using dom unfolding set_eq_iff by (simp add: domIff)
  show "coll_ok (v_name ?w) (g_is_list G) (g_views G)" if "w_groups ?w g = Some G" for g G
    using that owners_okD(1) [OF ok] by simp
  show "live_view ?w v \<and> v \<notin> DV - X \<and> v_owner ?w v = Some g \<and> v_index ?w v = i" if "owned ?w g i v" for g i v
    using that owners_okD(2) [OF ok] X unfolding ow live by auto
  show "v < next_view ?w" if "live_view ?w v" for v
    using that owners_okD(3) [OF ok] unfolding live by simp
  show "\<exists>g. v_owner ?w v = Some g \<and> owned ?w g (v_index ?w v) v" if "live_view ?w v" "v \<notin> DV - X" for v
    using that owners_okE [OF ok, of v] unfolding live ow by auto
  show "live_view ?w v" if "v \<in> DV - X" for v using that owners_okD(5) [OF ok] unfolding live by blast
qed

lemma owners_ok_rename:
  assumes ok: "owners_ok DV w" and v: "v \<in> DV"
  shows "owners_ok DV (w\<lparr>v_name := (v_name w)(v := name)\<rparr>)" (is "owners_ok _ ?w")
proof (rule owners_okI)
  have ow: "owned ?w = owned w" by (simp add: fun_eq_iff owned_def)
  show "coll_ok (v_name ?w) (g_is_list G) (g_views G)" if "w_groups ?w g = Some G" for g G
  proof -
    from that have G: "w_groups w g = Some G" by simp
    have "coll_ok (v_name ?w) (g_is_list G) (g_views G) = coll_ok (v_name w) (g_is_list G) (g_views G)"
      using v by (intro owned_names_eq [OF ok G]) auto
    with owners_okD(1) [OF ok G] show ?thesis by blast
  qed
  show "live_view ?w u \<and> u \<notin> DV \<and> v_owner ?w u = Some g \<and> v_index ?w u = i" if "owned ?w g i u" for g i u
    using that owners_okD(2) [OF ok] unfolding ow by simp
  show "u < next_view ?w" if "live_view ?w u" for u using that owners_okD(3) [OF ok] by simp
  show "\<exists>g. v_owner ?w u = Some g \<and> owned ?w g (v_index ?w u) u" if "live_view ?w u" "u \<notin> DV" for u
    using that owners_okE [OF ok, of u] unfolding ow by auto
  show "live_view ?w u" if "u \<in> DV" for u using that owners_okD(5) [OF ok] by simp
qed

end
