(* ===== verification/SidrePaths.thy ===== *)
theory SidrePaths
  imports SidreTree
begin

text \<open>
  Paths through the group tree: the walk of \<^verbatim>\<open>Group::walkPath\<close> with and without creating groups,
  creation of groups and views, lookup by path and the path names that \<^verbatim>\<open>getPathName\<close> returns.
  A list of names that leads from a group to a descendant is the inductive relation
  \<open>resolves\<close>; every lookup is related to it.
\<close>

section \<open>Walking and creating paths\<close>

text \<open>A world that only has more groups: what a creating walk makes of its world.\<close>

definition same_views :: "('d, 'n) world \<Rightarrow> ('d, 'n) world \<Rightarrow> bool" where
  "same_views w w' \<longleftrightarrow>
     w_store w' = w_store w \<and> next_view w' = next_view w \<and> v_name w' = v_name w \<and> v_owner w' = v_owner w \<and>
     v_index w' = v_index w \<and> owned w' = owned w"

definition keeps_group :: "('d, 'n) world \<Rightarrow> ('d, 'n) world \<Rightarrow> group_id \<Rightarrow> Group \<Rightarrow> bool" where
  "keeps_group w w' g G \<longleftrightarrow>
     (\<exists>G'. w_groups w' g = Some G' \<and> g_name G' = g_name G \<and> g_is_list G' = g_is_list G \<and> g_views G' = g_views G)"

definition world_ext :: "('d, 'n) world \<Rightarrow> ('d, 'n) world \<Rightarrow> bool" where
  "world_ext w w' \<longleftrightarrow>
     same_views w w' \<and> next_group w \<le> next_group w' \<and> (\<forall>g i c. child w g i c \<longrightarrow> child w' g i c) \<and>
     (\<forall>g G. w_groups w g = Some G \<longrightarrow> keeps_group w w' g G) \<and>
     (\<forall>g G. w_groups w g = None \<longrightarrow> w_groups w' g = Some G \<longrightarrow> \<not> g_is_list G)"

lemma world_ext_refl [simp]: "world_ext w w"
  by (simp add: world_ext_def same_views_def keeps_group_def)

lemma world_ext_same: "world_ext w w' \<Longrightarrow> same_views w w'"
  by (simp add: world_ext_def)

lemma world_ext_child: "world_ext w w' \<Longrightarrow> child w g i c \<Longrightarrow> child w' g i c"
  by (simp add: world_ext_def)

lemma world_ext_group:
  assumes "world_ext w w'" and "w_groups w g = Some G"
  obtains G' where "w_groups w' g = Some G'" "g_name G' = g_name G" "g_is_list G' = g_is_list G" "g_views G' = g_views G"
proof -
  from assms have "keeps_group w w' g G" by (simp add: world_ext_def)
  with that show thesis unfolding keeps_group_def by blast
qed

lemma world_ext_new: "world_ext w w' \<Longrightarrow> w_groups w g = None \<Longrightarrow> w_groups w' g = Some G \<Longrightarrow> \<not> g_is_list G"
  by (simp add: world_ext_def)

lemma world_ext_trans:
  assumes 1: "world_ext w w'" and 2: "world_ext w' w''"
  shows "world_ext w w''"
proof -
  have "keeps_group w w'' g G" if G: "w_groups w g = Some G" for g G
  proof -
    obtain G' where G': "w_groups w' g = Some G'" "g_name G' = g_name G" "g_is_list G' = g_is_list G" "g_views G' = g_views G"
      by (rule world_ext_group [OF 1 G])
    obtain G'' where "w_groups w'' g = Some G''" "g_name G'' = g_name G'" "g_is_list G'' = g_is_list G'" "g_views G'' = g_views G'"
      by (rule world_ext_group [OF 2 G'(1)])
    with G' show ?thesis by (simp add: keeps_group_def)
  qed
  moreover have "\<not> g_is_list G" if g: "w_groups w g = None" "w_groups w'' g = Some G" for g G
  proof (cases "w_groups w' g")
    case None
    then show ?thesis using world_ext_new [OF 2] g by blast
  next
    case (Some G')
    obtain G'' where "w_groups w'' g = Some G''" "g_is_list G'' = g_is_list G'" by (rule world_ext_group [OF 2 Some])
    with world_ext_new [OF 1 g(1) Some] g(2) show ?thesis by simp
  qed
  ultimately show ?thesis using 1 2 by (simp add: world_ext_def same_views_def)
qed

lemma world_ext_name:
  assumes "world_ext w w'" and "w_groups w g \<noteq> None"
  shows "group_name w' g = group_name w g" "w_groups w' g \<noteq> None"
  using world_ext_group [OF assms(1)] assms(2) by (metis group_name_def not_Some_eq option.sel)+

lemma new_group_no_descendants:
  assumes ok: "tree_ok D w" and gn: "g \<noteq> next_group w"
  shows "g \<notin> subtree (new_group name is_list w) (next_group w)"
proof
  note new = tree_ok_new_group(1) [OF ok] tree_ok_new_group(3) [OF ok, where name = name and is_list = is_list]
  assume "g \<in> subtree (new_group name is_list w) (next_group w)"
  then have "(next_group w, g) \<in> (childrel w)\<^sup>*" using new(2) by (simp add: subtree_def childrel_def)
  with gn obtain x where "(next_group w, x) \<in> childrel w" by (metis converse_rtranclE)
  then show False using new(1) child_live by (fastforce simp: childrel_def)
qed

lemma createChildGroup_effect:
  assumes inv: "forest_inv D DV w" and G: "w_groups w g = Some G"
    and free: "name \<noteq> []" "\<not> hasChildGroup w g name" "\<not> hasChildView w g name"
  obtains w' i where "createChildGroup w g name is_list = (w', Some (next_group w))" "forest_inv D DV w'"
    "child w' = (\<lambda>h j x. child w h j x \<or> (h = g \<and> j = i \<and> x = next_group w))"
    "owned w' = owned w" "w_groups w (next_group w) = None" "group_name w' (next_group w) = name"
    "g_is_list (grp w' (next_group w)) = is_list" "w_groups w' (next_group w) \<noteq> None" "\<not> is_list \<Longrightarrow> world_ext w w'"
    "getNamedViews w' g = getNamedViews w g"
proof -
  let ?n = "next_group w" and ?w1 = "new_group name is_list w"
  note ok = forest_invD(1) [OF inv]
  note new = tree_ok_new_group(1) [OF ok] tree_ok_new_group(2-5) [OF ok, where name = name and is_list = is_list]
  have gn: "g \<noteq> ?n" using G new(1) by auto
  have w1: "w_groups ?w1 = (w_groups w)(?n \<mapsto> Group_new name is_list)" "next_group ?w1 = Suc ?n"
    by (simp_all add: new_group_def)
  have nm: "group_name ?w1 ?n = name" by (simp add: group_name_def w1 Group_new_def)
  have has: "hasChildGroup ?w1 g x = hasChildGroup w g x" for x
    using gn by (simp add: hasChildGroup_def getNamedGroups_def w1)
  have nD: "?n \<notin> D" using new(1) tree_okD(2) [OF ok] by (auto simp: group_links_def)
  have sub: "g \<notin> subtree ?w1 ?n" by (rule new_group_no_descendants [OF ok gn])
  have G1: "w_groups ?w1 g = Some G" using G gn by (simp add: w1)
  obtain w' i where w': "attachGroup ?w1 g ?n = (w', Some ?n)" "tree_ok (insert ?n D - {?n}) w'" "tree_frame ?w1 w'"
    "child w' = (\<lambda>h j x. child ?w1 h j x \<or> (h = g \<and> j = i \<and> x = ?n))"
    by (rule attachGroup_effect [OF new(2) insertI1 G1 sub]) (use free has nm in auto)
  note f = tree_frame_fields [OF w'(3)]
  have cre: "createChildGroup w g name is_list = (w', Some ?n)"
    using free w'(1) by (simp add: createChildGroup_def new_group_def Let_def)
  have inv': "forest_inv D DV w'"
    using w'(2) nD tree_frame_views [OF w'(3) new(5)] forest_invD(2) [OF inv] by (simp add: forest_inv_def)
  note vf = view_fields_eqD [OF f(8)]
  have ow: "owned w' = owned w" using vf(2) new(4) by simp
  have ext: "world_ext w w'" if "\<not> is_list"
  proof -
    have "same_views w w'" using f ow by (simp add: same_views_def new_group_def)
    moreover have "keeps_group w w' h H"
      if "w_groups w h = Some H" for h H
    proof -
      have H1: "w_groups ?w1 h = Some H" using that new(1) by (auto simp: w1)
      then obtain H' where H': "w_groups w' h = Some H'" using vf(1) [of h] by auto
      moreover have "g_name H' = g_name H" using fun_cong [OF f(7), of h] H' H1 by (simp add: group_name_def)
      ultimately show ?thesis using vf(3) [OF H' H1] by (simp add: keeps_group_def)
    qed
    moreover have "\<not> g_is_list H" if "w_groups w h = None" "w_groups w' h = Some H" for h H
    proof -
      have hn: "h = ?n" using vf(1) [of h] that by (auto simp: w1 split: if_splits)
      have "w_groups ?w1 h = Some (Group_new name is_list)" using hn w1(1) by simp
      from vf(3) [OF that(2) this] \<open>\<not> is_list\<close> show ?thesis by (simp add: Group_new_def)
    qed
    ultimately show ?thesis using w'(4) new(3) f(2) w1(2) by (simp add: world_ext_def)
  qed
  have live: "w_groups w' ?n \<noteq> None" using vf(1) [of ?n] by (simp add: w1)
  then obtain N where N: "w_groups w' ?n = Some N" by blast
  have "g_is_list (grp w' ?n) = is_list" using vf(3) [OF N, of "Group_new name is_list"] N w1(1) by (simp add: Group_new_def)
  moreover have "getNamedViews w' g = getNamedViews w g"
  proof -
    obtain G' where G': "w_groups w' g = Some G'" using vf(1) [of g] G1 by auto
    with vf(3) [OF G' G1] G show ?thesis by (simp add: getNamedViews_def)
  qed
  ultimately show thesis
    using that [OF cre inv' _ ow new(1) _ _ live] ext w'(4) new(3) f(7) nm by auto
qed

lemma child_target_live: "group_links D w \<Longrightarrow> child w g i c \<Longrightarrow> w_groups w c \<noteq> None"
  by (erule group_linksD) auto

text \<open>A list of names leads from a group to a descendant.\<close>

inductive resolves :: "('d, 'n) world \<Rightarrow> group_id \<Rightarrow> string list \<Rightarrow> group_id \<Rightarrow> bool" for w where
  resolves_here: "resolves w g [] g"
| resolves_down: "child w g i c \<Longrightarrow> \<not> g_is_list (grp w g) \<Longrightarrow> resolves w c ps h \<Longrightarrow> resolves w g (group_name w c # ps) h"

inductive_cases resolves_NilE [elim!]: "resolves w g [] h"
inductive_cases resolves_ConsE: "resolves w g (p # ps) h"

lemma resolves_live: "resolves w g ps h \<Longrightarrow> group_links D w \<Longrightarrow> w_groups w g \<noteq> None \<Longrightarrow> w_groups w h \<noteq> None"
  by (induction rule: resolves.induct) (auto elim: group_linksD)

lemma resolves_append: "resolves w g ps h \<Longrightarrow> resolves w h qs k \<Longrightarrow> resolves w g (ps @ qs) k"
  by (induction rule: resolves.induct) (auto intro: resolves.intros)

lemma resolves_ext:
  assumes "resolves w g ps h" and "world_ext w w'" and "group_links D w"
  shows "resolves w' g ps h"
  using assms
proof (induction rule: resolves.induct)
  case (resolves_down g i c ps h)
  have C: "w_groups w c \<noteq> None" by (rule child_target_live [OF resolves_down.prems(2) resolves_down.hyps(1)])
  obtain G where G: "w_groups w g = Some G" using child_live [OF resolves_down.hyps(1)] by blast
  obtain G' where "w_groups w' g = Some G'" "g_is_list G' = g_is_list G" by (rule world_ext_group [OF resolves_down.prems(1) G])
  with G resolves_down.hyps(2) have "\<not> g_is_list (grp w' g)" by simp
  moreover have "group_name w' c = group_name w c" using world_ext_name(1) [OF resolves_down.prems(1)] C by simp
  moreover have "child w' g i c" using world_ext_child [OF resolves_down.prems(1) resolves_down.hyps(1)] .
  ultimately show ?case using resolves_down.IH [OF resolves_down.prems] resolves.resolves_down by metis
qed (rule resolves_here)

lemma walk_parts_False:
  assumes "tree_ok D w" and "w_groups w g \<noteq> None"
  shows "\<exists>r. walk_parts w g parts False = (w, r) \<and> (\<forall>h. r = Some h \<longleftrightarrow> resolves w g parts h)"
  using assms(2)
proof (induction parts arbitrary: g)
  case Nil
  then show ?case by (auto intro: resolves_here)
next
  case (Cons part parts)
  note t = tree_okD [OF assms(1)]
  obtain G where G: "w_groups w g = Some G" using Cons.prems by blast
  show ?case
  proof (cases "hasChildGroup w g part")
    case False
    then have "\<not> resolves w g (part # parts) h" for h
      using hasChildGroup_iff(1) [OF t(1) G] G by (auto elim!: resolves_ConsE)
    with False show ?thesis by simp
  next
    case True
    then obtain i c where c: "child w g i c" "group_name w c = part" "\<not> g_is_list G"
      using hasChildGroup_iff(1) [OF t(1) G] by blast
    have nc: "named_child w g part = Some c" using named_child_iff [OF t(1) G c(3)] c(1,2) by blast
    have "w_groups w c \<noteq> None" by (rule child_target_live [OF t(2) c(1)])
    from Cons.IH [OF this] obtain r where r: "walk_parts w c parts False = (w, r)" "\<forall>h. r = Some h \<longleftrightarrow> resolves w c parts h" by blast
    have "resolves w g (part # parts) h \<longleftrightarrow> resolves w c parts h" for h
    proof
      assume "resolves w g (part # parts) h"
      then obtain j d where "child w g j d" "group_name w d = part" "resolves w d parts h" by (auto elim: resolves_ConsE)
      with child_name_unique [OF t(1) G c(3) c(1)] c(2) show "resolves w c parts h" by metis
    next
      assume "resolves w c parts h"
      with c G show "resolves w g (part # parts) h" using resolves_down [of w g i c parts h] by simp
    qed
    with True nc r show ?thesis by simp
  qed
qed

abbreviation map_format :: "('d, 'n) world \<Rightarrow> bool" where
  "map_format w \<equiv> \<forall>h H. w_groups w h = Some H \<longrightarrow> \<not> g_is_list H"

lemma world_ext_map_format:
  assumes ext: "world_ext w w'" and "map_format w"
  shows "map_format w'"
proof (intro allI impI)
  fix h H assume H: "w_groups w' h = Some H"
  show "\<not> g_is_list H"
  proof (cases "w_groups w h")
    case None
    with world_ext_new [OF ext] H show ?thesis by blast
  next
    case (Some H0)
    obtain H' where "w_groups w' h = Some H'" "g_is_list H' = g_is_list H0" by (rule world_ext_group [OF ext Some])
    with Some H assms(2) show ?thesis by simp
  qed
qed

lemma walk_parts_True:
  assumes "forest_inv D DV w" and "w_groups w g \<noteq> None" and "walk_parts w g parts True = (w', r)"
  shows "forest_inv D DV w' \<and> world_ext w w' \<and>
    (\<forall>h. r = Some h \<longrightarrow> w_groups w' h \<noteq> None \<and> (map_format w \<longrightarrow> resolves w' g parts h))"
  using assms
proof (induction parts arbitrary: w g)
  case Nil
  then show ?case by (auto intro: resolves_here)
next
  case (Cons part parts)
  note t = tree_okD [OF forest_invD(1) [OF Cons.prems(1)]]
  obtain G where G: "w_groups w g = Some G" using Cons.prems(2) by blast
  have step: ?case
    if inv1: "forest_inv D DV w1" and c: "child w1 g i c" "group_name w1 c = part" and ext: "world_ext w w1"
      and run: "walk_parts w1 c parts True = (w', r)" for w1 i c
  proof -
    note t1 = tree_okD [OF forest_invD(1) [OF inv1]]
    have live: "w_groups w1 c \<noteq> None" by (rule child_target_live [OF t1(2) c(1)])
    note IH = Cons.IH [OF inv1 live run]
    then have ext': "world_ext w w'" using world_ext_trans [OF ext] by blast
    have "resolves w' g (part # parts) h" if h: "r = Some h" "map_format w" for h
    proof -
      have mf: "map_format w1" "map_format w'" using world_ext_map_format [OF ext h(2)] world_ext_map_format [OF ext' h(2)] by auto
      have "resolves w' c parts h" using IH h(1) mf(1) by blast
      moreover have "child w' g i c" "group_name w' c = part"
        using IH c world_ext_child [of w1 w'] world_ext_name(1) [of w1 w', OF _ live] by auto
      moreover have "\<not> g_is_list (grp w' g)" using mf(2) child_live [OF \<open>child w' g i c\<close>] by auto
      ultimately show ?thesis using resolves_down [of w' g i c parts h] by simp
    qed
    with IH ext' show ?thesis by blast
  qed
  show ?case
  proof (cases "hasChildGroup w g part")
    case True
    then obtain i c where c: "child w g i c" "group_name w c = part" "\<not> g_is_list G"
      using hasChildGroup_iff(1) [OF t(1) G] by blast
    then have "named_child w g part = Some c" using named_child_iff [OF t(1) G c(3)] by blast
    with True Cons.prems(3) step [OF Cons.prems(1) c(1,2) world_ext_refl] show ?thesis by simp
  next
    case False
    show ?thesis
    proof (cases "part = [] \<or> hasChildView w g part")
      case True
      with False Cons.prems show ?thesis by (simp add: createChildGroup_def)
    next
      case free: False
      obtain w1 i where w1: "createChildGroup w g part False = (w1, Some (next_group w))" "forest_inv D DV w1"
        "child w1 = (\<lambda>h j x. child w h j x \<or> (h = g \<and> j = i \<and> x = next_group w))"
        "group_name w1 (next_group w) = part" "world_ext w w1"
        by (rule createChildGroup_effect [OF Cons.prems(1) G, of part False]) (use free False in auto)
      show ?thesis
        by (rule step [OF w1(2) _ w1(4,5), of i]) (use w1(1,3) False Cons.prems(3) in auto)
    qed
  qed
qed

section \<open>Creating groups and views\<close>

lemma walkPath_True:
  assumes "forest_inv D DV w" and "w_groups w g \<noteq> None" and "walkPath w g path True = ((w', r), name)"
  shows "forest_inv D DV w'" "world_ext w w'" "r = Some h \<Longrightarrow> w_groups w' h \<noteq> None"
    "r = Some h \<Longrightarrow> map_format w \<Longrightarrow> path_parts path \<noteq> [] \<Longrightarrow>
       resolves w' g (butlast (path_parts path)) h \<and> name = last (path_parts path)"
proof -
  have *: "forest_inv D DV w' \<and> world_ext w w' \<and> (r = Some h \<longrightarrow> w_groups w' h \<noteq> None) \<and>
      (r = Some h \<longrightarrow> map_format w \<longrightarrow> path_parts path \<noteq> [] \<longrightarrow>
       resolves w' g (butlast (path_parts path)) h \<and> name = last (path_parts path))" for h
    using assms walk_parts_True [OF assms(1,2), of "butlast (path_parts path)" w' r]
    by (auto simp: walkPath_def Let_def split: if_splits)
  then show "forest_inv D DV w'" "world_ext w w'" by auto
  show "r = Some h \<Longrightarrow> w_groups w' h \<noteq> None" using * by blast
  show "r = Some h \<Longrightarrow> map_format w \<Longrightarrow> path_parts path \<noteq> [] \<Longrightarrow>
      resolves w' g (butlast (path_parts path)) h \<and> name = last (path_parts path)" using * by blast
qed

lemma createGroup_inv:
  assumes inv: "forest_inv D DV w" and g: "w_groups w g \<noteq> None" and cre: "createGroup w g path is_list = (w', r)"
  shows "forest_inv D DV w'" "same_views w w'"
proof -
  obtain w1 r1 name where walk: "walkPath w g path True = ((w1, r1), name)" by (metis prod.exhaust)
  note w1 = walkPath_True [OF inv g walk]
  have "forest_inv D DV w' \<and> same_views w w'"
  proof (cases r1)
    case None
    with cre walk w1 world_ext_same show ?thesis by (auto simp: createGroup_def)
  next
    case (Some h)
    then obtain H where H: "w_groups w1 h = Some H" using w1(3) by blast
    have cre': "createChildGroup w1 h name is_list = (w', r)" using cre walk Some by (simp add: createGroup_def)
    show ?thesis
    proof (cases "name = [] \<or> hasChildGroup w1 h name \<or> hasChildView w1 h name")
      case True
      with cre' w1 world_ext_same show ?thesis by (auto simp: createChildGroup_def)
    next
      case False
      obtain w2 i where w2: "createChildGroup w1 h name is_list = (w2, Some (next_group w1))" "forest_inv D DV w2"
        "owned w2 = owned w1"
        by (rule createChildGroup_effect [OF w1(1) H, of name is_list]) (use False in auto)
      have "w_store w2 = w_store w1 \<and> next_view w2 = next_view w1 \<and> v_name w2 = v_name w1 \<and> v_owner w2 = v_owner w1 \<and> v_index w2 = v_index w1"
        using w2(1) False by (auto simp: createChildGroup_def attachGroup_def Let_def split: if_splits prod.splits)
      with w2 cre' world_ext_same [OF w1(2)] show ?thesis by (simp add: same_views_def)
    qed
  qed
  then show "forest_inv D DV w'" "same_views w w'" by auto
qed

lemma createUnnamedGroup_inv:
  assumes inv: "forest_inv D DV w" and G: "w_groups w g = Some G" and cre: "createUnnamedGroup w g is_list = (w', r)"
  shows "forest_inv D DV w'" "same_views w w'" "r = (if g_is_list G then Some (next_group w) else None)"
proof -
  let ?n = "next_group w" and ?w1 = "new_group [] is_list w"
  note ok = forest_invD(1) [OF inv]
  note new = tree_ok_new_group(1) [OF ok] tree_ok_new_group(2-5) [OF ok, where name = "[]" and is_list = is_list]
  have "forest_inv D DV w' \<and> same_views w w' \<and> r = (if g_is_list G then Some (next_group w) else None)"
  proof (cases "g_is_list G")
    case False
    with cre G inv show ?thesis by (simp add: createUnnamedGroup_def same_views_def)
  next
    case True
    have gn: "g \<noteq> ?n" using G new(1) by auto
    have G1: "w_groups ?w1 g = Some G" using G gn by (simp add: new_group_def)
    have sub: "g \<notin> subtree ?w1 ?n" by (rule new_group_no_descendants [OF ok gn])
    have no: "\<not> hasChildGroup ?w1 g x" for x using True G1 by (simp add: hasChildGroup_def isUsingMap_def)
    have nD: "?n \<notin> D" using new(1) tree_okD(2) [OF ok] by (auto simp: group_links_def)
    obtain w2 i where w2: "attachGroup ?w1 g ?n = (w2, Some ?n)" "tree_ok (insert ?n D - {?n}) w2" "tree_frame ?w1 w2"
      by (rule attachGroup_effect [OF new(2) insertI1 G1 sub]) (use no True in auto)
    have "createUnnamedGroup w g is_list = (w2, Some ?n)"
      using True G w2(1) by (simp add: createUnnamedGroup_def new_group_def Let_def)
    moreover have "owned w2 = owned w" using view_fields_eqD(2) [OF tree_frame_fields(8) [OF w2(3)]] new(4) by simp
    ultimately show ?thesis
      using cre w2(2) nD tree_frame_views [OF w2(3) new(5)] forest_invD(2) [OF inv] True tree_frame_fields [OF w2(3)]
      by (simp add: forest_inv_def same_views_def new_group_def)
  qed
  then show "forest_inv D DV w'" "same_views w w'" "r = (if g_is_list G then Some (next_group w) else None)" by auto
qed

lemma forest_inv_view_frame:
  assumes "forest_inv D DV w" and "view_frame w w'" and "owners_ok DV' w'"
  shows "forest_inv D DV' w'"
proof -
  note f = view_frame_fields [OF assms(2)]
  have "tree_ok D w'" by (rule tree_ok_fields [OF f(5,2) forest_invD(1) [OF assms(1)]])
  with assms(3) show ?thesis by (simp add: forest_inv_def)
qed

lemma createChildView_effect:
  assumes inv: "forest_inv D DV w" and G: "w_groups w g = Some G"
    and free: "\<not> hasChildView w g name" "g_is_list G \<or> name \<noteq> []"
  obtains w' i where "createChildView E w g name = (w', Some (next_view w))" "forest_inv D DV w'"
    "owned w' = (\<lambda>h j u. owned w h j u \<or> (h = g \<and> j = i \<and> u = next_view w))"
    "tree_fields w' = tree_fields w" "w_store w' = View_create E (next_view w) (w_store w)"
    "v_name w' = (v_name w)(next_view w := name)" "\<not> live_view w (next_view w)" "next_group w' = next_group w"
proof -
  let ?v = "next_view w" and ?w1 = "new_view E name w"
  note ok = forest_invD(2) [OF inv]
  note new = owners_ok_new_view(2) [OF ok] owners_ok_new_view(1,3,4) [OF ok, where E = E and name = name]
  have vD: "?v \<notin> DV" using owners_okD(5) [OF ok] new(1) by blast
  have has: "hasChildView ?w1 g name = hasChildView w g name"
    by (simp add: hasChildView_def getNamedViews_def)
  have nm: "v_name ?w1 ?v = name" by simp
  obtain w' i where w': "attachView ?w1 g ?v = (w', Some ?v)" "owners_ok (insert ?v DV - {?v}) w'" "view_frame ?w1 w'"
    "owned w' = (\<lambda>h j u. owned ?w1 h j u \<or> (h = g \<and> j = i \<and> u = ?v))"
    by (rule attachView_effect [OF new(2) insertI1, of g G]) (use G free has nm in auto)
  note f = view_frame_fields [OF w'(3)]
  have tf: "tree_fields w' = tree_fields w" using f(5) new(4) by simp
  have "tree_ok D w'" by (rule tree_ok_fields [OF tf _ forest_invD(1) [OF inv]]) (simp add: f)
  then have inv': "forest_inv D DV w'" using w'(2) vD by (simp add: forest_inv_def)
  have "createChildView E w g name = (w', Some ?v)"
    using w'(1) by (simp add: createChildView_def new_view_def Let_def)
  then show thesis
    by (rule that [OF _ inv']) (use w'(4) new f tf in auto)
qed

lemma createView_effect:
  assumes inv: "forest_inv D DV w" and g: "w_groups w g \<noteq> None" and cre: "createView E w g path = (w', r)"
  shows "forest_inv D DV w'"
    and "r = None \<Longrightarrow> world_ext w w'"
    and "r = Some v \<Longrightarrow> v = next_view w \<and> \<not> live_view w v \<and> w_store w' = View_create E v (w_store w)"
proof -
  have "forest_inv D DV w' \<and> (r = None \<longrightarrow> world_ext w w') \<and>
    (r \<noteq> None \<longrightarrow> r = Some (next_view w) \<and> \<not> live_view w (next_view w) \<and> w_store w' = View_create E (next_view w) (w_store w))"
  proof (cases "path = []")
    case True
    obtain G where G: "w_groups w g = Some G" using g by blast
    show ?thesis
    proof (cases "g_is_list G")
      case list: True
      have "\<not> hasChildView w g []" using list G by (simp add: hasChildView_def isUsingMap_def)
      then obtain w2 i where "createChildView E w g [] = (w2, Some (next_view w))" "forest_inv D DV w2"
        "w_store w2 = View_create E (next_view w) (w_store w)" "\<not> live_view w (next_view w)"
        using createChildView_effect [OF inv G, of "[]" E] list by metis
      with cre True list G show ?thesis by (auto simp: createView_def)
    next
      case False
      with cre True G inv show ?thesis by (simp add: createView_def)
    qed
  next
    case False
    obtain w1 r1 name where walk: "walkPath w g path True = ((w1, r1), name)" by (metis prod.exhaust)
    note w1 = walkPath_True [OF inv g walk]
    show ?thesis
    proof (cases "r1 = None \<or> name = [] \<or> hasChildView w1 (the r1) name \<or> hasChildGroup w1 (the r1) name")
      case True
      then have "w' = w1 \<and> r = None" using cre walk False by (auto simp: createView_def split: option.splits if_splits)
      with w1 show ?thesis by simp
    next
      case ok: False
      then obtain h H where h: "r1 = Some h" "w_groups w1 h = Some H" using w1(3) by fastforce
      obtain w2 i where w2: "createChildView E w1 h name = (w2, Some (next_view w1))" "forest_inv D DV w2"
        "w_store w2 = View_create E (next_view w1) (w_store w1)" "\<not> live_view w1 (next_view w1)"
        using createChildView_effect [OF w1(1) h(2), of name E] ok h(1) by auto
      have "createView E w g path = (w2, Some (next_view w1))" using walk False ok h w2(1) by (simp add: createView_def)
      with cre w2 world_ext_same [OF w1(2)] show ?thesis by (auto simp: same_views_def)
    qed
  qed
  then show "forest_inv D DV w'" "r = None \<Longrightarrow> world_ext w w'"
    "r = Some v \<Longrightarrow> v = next_view w \<and> \<not> live_view w v \<and> w_store w' = View_create E v (w_store w)" by auto
qed

section \<open>Looking up paths\<close>

lemma walkPath_False:
  assumes "tree_ok D w" and "w_groups w g = Some G" and "\<not> g_is_list G" and "path_parts path \<noteq> []"
  shows "\<exists>r. walkPath w g path False = ((w, r), last (path_parts path)) \<and> walkPath_const w g path = (r, last (path_parts path)) \<and>
    (\<forall>h. r = Some h \<longleftrightarrow> resolves w g (butlast (path_parts path)) h)"
proof -
  obtain r where r: "walk_parts w g (butlast (path_parts path)) False = (w, r)"
    "\<forall>h. r = Some h \<longleftrightarrow> resolves w g (butlast (path_parts path)) h"
    using walk_parts_False [OF assms(1), of g "butlast (path_parts path)"] assms(2) by blast
  have "walkPath w g path False = ((w, r), last (path_parts path))"
    using r(1) assms(2-4) unfolding walkPath_def Let_def by simp
  moreover have "walkPath_const w g path = (r, last (path_parts path))"
    using r(1) assms(4) unfolding walkPath_const_def Let_def by simp
  ultimately show ?thesis using r(2) by blast
qed

lemma resolves_snoc:
  "resolves w g (ps @ [n]) c \<longleftrightarrow>
     (\<exists>h i. resolves w g ps h \<and> child w h i c \<and> group_name w c = n \<and> \<not> g_is_list (grp w h))" (is "?l \<longleftrightarrow> ?r g ps")
proof
  assume ?l
  then show "?r g ps"
  proof (induction ps arbitrary: g)
    case Nil
    then show ?case by (auto elim!: resolves_ConsE intro: resolves_here)
  next
    case (Cons p ps)
    then obtain i d where d: "child w g i d" "\<not> g_is_list (grp w g)" "p = group_name w d" "resolves w d (ps @ [n]) c"
      by (auto elim: resolves_ConsE)
    from Cons.IH [OF d(4)] obtain h j where "resolves w d ps h" "child w h j c" "group_name w c = n" "\<not> g_is_list (grp w h)" by blast
    with resolves_down [OF d(1,2)] d(3) show ?case by blast
  qed
next
  assume "?r g ps"
  then obtain h i where h: "resolves w g ps h" "child w h i c" "group_name w c = n" "\<not> g_is_list (grp w h)" by blast
  with resolves_append [OF h(1) resolves_down [OF h(2,4) resolves_here]] show ?l by simp
qed

text \<open>
  A lookup finds exactly the object that the names of the path lead to. Below, \<open>ps\<close> are the
  names before the last one.
\<close>

lemma getGroup_iff:
  assumes ok: "tree_ok D w" and mf: "map_format w" and g: "w_groups w g \<noteq> None" and path: "path_parts path = ps @ [n]"
  shows "getGroup w g path = Inr (Some c) \<longleftrightarrow> resolves w g (ps @ [n]) c" and "\<exists>r. getGroup w g path = Inr r"
    and "getGroup_const w g path = getGroup w g path"
proof -
  note t = tree_okD [OF ok]
  obtain G where G: "w_groups w g = Some G" "\<not> g_is_list G" using g mf by blast
  obtain r where r: "walkPath w g path False = ((w, r), n)" "walkPath_const w g path = (r, n)"
    "\<forall>h. r = Some h \<longleftrightarrow> resolves w g ps h"
    using walkPath_False [OF ok G, of path] path by auto
  have snoc: "resolves w g (ps @ [n]) c \<longleftrightarrow> (\<exists>h i. resolves w g ps h \<and> child w h i c \<and> group_name w c = n)" for c
    using resolves_snoc [of w g ps n c] mf child_live [of w] by fastforce
  have look: "\<exists>m. getNamedGroups w h = Inr m \<and> (MapCollection_getItem_named m n = Some c \<longleftrightarrow> (\<exists>i. child w h i c \<and> group_name w c = n))"
    if h: "resolves w g ps h" for h c
  proof -
    obtain H where H: "w_groups w h = Some H" "\<not> g_is_list H" using resolves_live [OF h t(2) g] mf by blast
    obtain m where m: "g_groups H = MapColl m" "mc_inv (group_name w) m"
      using groups_okD(2) [OF t(1) H(1)] H(2) by (auto simp: coll_ok_def split: coll.splits)
    with named_lookup(2) [OF m(2), of n c] H show ?thesis by (simp add: getNamedGroups_def child_def)
  qed
  show "\<exists>r. getGroup w g path = Inr r"
    using r look by (cases r) (fastforce simp: getGroup_def)+
  show "getGroup_const w g path = getGroup w g path" by (simp add: getGroup_def getGroup_const_def r split: option.split)
  show "getGroup w g path = Inr (Some c) \<longleftrightarrow> resolves w g (ps @ [n]) c"
  proof (cases r)
    case None
    then have "\<not> resolves w g ps h" for h using r(3) by auto
    with None show ?thesis by (simp add: getGroup_def r snoc)
  next
    case (Some h)
    then have h: "resolves w g ps k \<longleftrightarrow> k = h" for k using r(3) by (metis option.inject)
    obtain m where "getNamedGroups w h = Inr m" "MapCollection_getItem_named m n = Some c \<longleftrightarrow> (\<exists>i. child w h i c \<and> group_name w c = n)"
      using look [of h c] h by blast
    with Some h show ?thesis by (simp add: getGroup_def r(1) snoc)
  qed
qed

lemma getView_iff:
  assumes inv: "forest_inv D DV w" and mf: "map_format w" and g: "w_groups w g \<noteq> None" and path: "path_parts path = ps @ [n]"
  shows "getView w g path = Inr (Some v) \<longleftrightarrow> (\<exists>h i. resolves w g ps h \<and> owned w h i v \<and> v_name w v = n)"
    and "getView_const w g path = getView w g path" and "\<exists>r. getView w g path = Inr r"
proof -
  note ok = forest_invD [OF inv]
  note t = tree_okD [OF ok(1)]
  obtain G where G: "w_groups w g = Some G" "\<not> g_is_list G" using g mf by blast
  obtain r where r: "walkPath w g path False = ((w, r), n)" "walkPath_const w g path = (r, n)"
    "\<forall>h. r = Some h \<longleftrightarrow> resolves w g ps h"
    using walkPath_False [OF ok(1) G, of path] path by auto
  have look: "\<exists>m. getNamedViews w h = Inr m \<and> (MapCollection_getItem_named m n = Some v \<longleftrightarrow> (\<exists>i. owned w h i v \<and> v_name w v = n))"
    if h: "resolves w g ps h" for h v
  proof -
    obtain H where H: "w_groups w h = Some H" "\<not> g_is_list H" using resolves_live [OF h t(2) g] mf by blast
    obtain m where m: "g_views H = MapColl m" "mc_inv (v_name w) m"
      using owners_okD(1) [OF ok(2) H(1)] H(2) by (auto simp: coll_ok_def split: coll.splits)
    with named_lookup(2) [OF m(2), of n v] H show ?thesis by (simp add: getNamedViews_def owned_def)
  qed
  show "\<exists>r. getView w g path = Inr r"
    using r look by (cases r) (fastforce simp: getView_def)+
  show "getView_const w g path = getView w g path" by (simp add: getView_def getView_const_def r split: option.split)
  show "getView w g path = Inr (Some v) \<longleftrightarrow> (\<exists>h i. resolves w g ps h \<and> owned w h i v \<and> v_name w v = n)"
  proof (cases r)
    case None
    then have "\<not> resolves w g ps h" for h using r(3) by auto
    with None show ?thesis by (simp add: getView_def r)
  next
    case (Some h)
    then have h: "resolves w g ps k \<longleftrightarrow> k = h" for k using r(3) by (metis option.inject)
    obtain m where "getNamedViews w h = Inr m" "MapCollection_getItem_named m n = Some v \<longleftrightarrow> (\<exists>i. owned w h i v \<and> v_name w v = n)"
      using look [of h v] h by blast
    with Some h show ?thesis by (simp add: getView_def r(1))
  qed
qed

section \<open>Path names\<close>

lemma resolves_depth:
  assumes ok: "tree_ok D w" and "resolves w g ns h"
  shows "\<exists>gs. length gs = length ns \<and> distinct gs \<and> set gs \<subseteq> subtree w g - {g}"
  using assms(2)
proof (induction rule: resolves.induct)
  case (resolves_down g i c ps h)
  note t = tree_okD [OF ok]
  from resolves_down.IH obtain gs where gs: "length gs = length ps" "distinct gs" "set gs \<subseteq> subtree w c - {c}" by blast
  have "g \<notin> subtree w c" by (rule subtree_strict [OF t(2,3) resolves_down.hyps(1)])
  moreover have "c \<in> subtree w g" using subtree_closed [OF subtree_refl resolves_down.hyps(1)] .
  ultimately have "set (c # gs) \<subseteq> subtree w g - {g}" using gs(3) subtree_child [OF resolves_down.hyps(1)] by auto
  with gs show ?case by (intro exI [of _ "c # gs"]) auto
qed simp

lemma resolves_length:
  assumes ok: "tree_ok D w" and r: "resolves w g ns h" and g: "w_groups w g \<noteq> None"
  shows "length ns < next_group w"
proof -
  obtain gs where gs: "length gs = length ns" "distinct gs" "set gs \<subseteq> subtree w g - {g}" using resolves_depth [OF ok r] by blast
  note fin = subtree_card [OF ok g]
  have "length ns \<le> card (subtree w g - {g})" using gs fin(1) by (metis card_mono distinct_card finite_Diff)
  also have "\<dots> < card (subtree w g)" by (rule card_Diff1_less [OF fin(1) subtree_refl])
  finally show ?thesis using fin(2) by simp
qed

text \<open>Climbing from a group that the names \<open>ps\<close> lead to writes these names in front.\<close>

lemma climb_correct:
  assumes ok: "tree_ok D w"
  shows "resolves w root ps h \<Longrightarrow> length ps \<le> fuel \<Longrightarrow>
    climb fuel w (Some h) path = Inr (concat (map (\<lambda>p. p @ ''/'') ps) @ path)"
proof (induction ps arbitrary: h fuel path rule: rev_induct)
  case Nil
  then show ?case by (cases fuel) auto
next
  case (snoc n ps)
  note t = tree_okD [OF ok]
  obtain k i where k: "resolves w root ps k" "child w k i h" "group_name w h = n"
    using snoc.prems(1) resolves_snoc by metis
  obtain H where H: "w_groups w h = Some H" "h \<noteq> root" "g_parent H = Some k" by (rule group_linksD [OF t(2) k(2)])
  obtain f where f: "fuel = Suc f" "length ps \<le> f" using snoc.prems(2) by (cases fuel) auto
  show ?case using snoc.IH [OF k(1) f(2)] H f(1) k(3) by simp
qed

lemma join_concat: "concat (map (\<lambda>p. p @ [d]) ps) @ n = join_with d (ps @ [n])"
  by (induction ps) (simp_all add: join_with_Cons)

lemma getPathName_correct:
  assumes ok: "tree_ok D w" and name: "group_name w root = []" and r: "resolves w root ns g" and ne: "\<forall>p\<in>set ns. p \<noteq> []"
  shows "getPathName w g = Inr (join_with (CHR ''/'') ns)"
proof (cases ns rule: rev_cases)
  case Nil
  obtain R where "w_groups w root = Some R" "g_parent R = Some root" by (rule tree_ok_root [OF ok])
  moreover have "g = root" using r Nil by auto
  ultimately show ?thesis using name Nil by (cases "next_group w") (simp_all add: getPathName_def getPath_def)
next
  case (snoc ps n)
  note t = tree_okD [OF ok]
  obtain R where R: "w_groups w root = Some R" "g_parent R = Some root" by (rule tree_ok_root [OF ok])
  obtain p i where p: "resolves w root ps p" "child w p i g" "group_name w g = n" using r snoc resolves_snoc by metis
  obtain G where G: "w_groups w g = Some G" "g_parent G = Some p" by (rule group_linksD [OF t(2) p(2)])
  have len: "length ns < next_group w" using resolves_length [OF ok r] R(1) by simp
  show ?thesis
  proof (cases ps rule: rev_cases)
    case Nil
    then have "p = root" using p(1) by auto
    then have "getPath w g = Inr []" using G R name by (cases "next_group w") (simp_all add: getPath_def)
    with p(3) snoc Nil show ?thesis by (simp add: getPathName_def)
  next
    case pss: (snoc qs m)
    obtain q j where q: "resolves w root qs q" "child w q j p" "group_name w p = m" using p(1) pss resolves_snoc by metis
    obtain P where P: "w_groups w p = Some P" "g_parent P = Some q" by (rule group_linksD [OF t(2) q(2)])
    have "climb (next_group w) w (Some q) m = Inr (join_with (CHR ''/'') ps)"
      using climb_correct [OF ok q(1), of "next_group w" m] len snoc pss join_concat [of "CHR ''/''" qs m] by simp
    then have "getPath w g = Inr (join_with (CHR ''/'') ps)" using G P q(3) by (simp add: getPath_def)
    moreover have "join_with (CHR ''/'') ps \<noteq> []" using ne snoc pss by (cases qs) (simp_all add: join_with_Cons)
    ultimately show ?thesis
      using p(3) snoc join_with_append [of ps "[n]" "CHR ''/''"] pss by (simp add: getPathName_def)
  qed
qed

lemma path_parts_join:
  assumes "\<forall>p\<in>set ns. p \<noteq> [] \<and> CHR ''/'' \<notin> set p"
  shows "path_parts (join_with (CHR ''/'') ns) = ns"
  using split_join [OF assms] assms by (simp add: Path_new_components filter_id_conv)

end
