(* ===== verification/SidreDelete.thy ===== *)
theory SidreDelete
  imports SidrePaths
begin

text \<open>
  Deleting parts of the group tree. \<^verbatim>\<open>Group::~Group\<close> destroys the views and then the child groups of
  a group, while the collection above still points to what is being deleted, so its effect is stated
  without the invariant: from a world whose groups below \<open>g\<close> form a tree, exactly these groups and
  their views are removed, each view once. From this follow the invariant after a deletion and
  the termination of the recursion within its depth.
\<close>

section \<open>Loops over the indices of a collection\<close>

definition hd_index :: "int list \<Rightarrow> int" where
  "hd_index is = (case is of [] \<Rightarrow> InvalidIndex | i # _ \<Rightarrow> i)"

lemma hd_index_simps [simp]: "hd_index [] = InvalidIndex" "hd_index (i # is) = i"
  by (simp_all add: hd_index_def)

text \<open>
  The rule for \<^verbatim>\<open>while(indexIsValid(idx))\<close> loops: the body takes a property of the indices done so
  far to the same property of one more index, and the next index is the next one of the list.
\<close>

lemma index_loop_rule:
  assumes "\<And>done i todo w. is = done @ i # todo \<Longrightarrow> P done w \<Longrightarrow>
      \<exists>w'. body w i = Inr w' \<and> P (done @ [i]) w' \<and> nxt w' i = hd_index todo"
    and "\<forall>i\<in>set is. i \<noteq> InvalidIndex" and "length is \<le> fuel" and "P [] w"
  shows "\<exists>w'. index_loop fuel nxt body (hd_index is) w = Inr w' \<and> P is w'"
proof -
  have "\<exists>w'. index_loop fuel nxt body (hd_index todo) w = Inr w' \<and> P is w'"
    if "is = done @ todo" "length todo \<le> fuel" "P done w" for "done" todo fuel w
    using that
  proof (induction todo arbitrary: "done" fuel w)
    case Nil
    then show ?case by (cases fuel) auto
  next
    case (Cons i todo)
    obtain f where f: "fuel = Suc f" "length todo \<le> f" using Cons.prems(2) by (cases fuel) auto
    obtain w1 where w1: "body w i = Inr w1" "P (done @ [i]) w1" "nxt w1 i = hd_index todo"
      using assms(1) [OF Cons.prems(1,3)] by blast
    have "i \<noteq> InvalidIndex" using assms(2) Cons.prems(1) by simp
    with Cons.IH [of "done @ [i]" f w1] Cons.prems(1) f w1 show ?case by simp
  qed
  from this [of "[]" "is"] assms(3,4) show ?thesis by simp
qed

definition coll_indices :: "'a coll \<Rightarrow> int list" where
  "coll_indices c = sorted_list_of_set (dom (coll_getItem c))"

lemma least_above_sorted:
  assumes "finite A"
  shows "least_above A i = hd_index (sorted_list_of_set {j \<in> A. i < j})"
proof (cases "{j \<in> A. i < j} = {}")
  case True
  then have "\<not> (\<exists>j\<in>A. i < j)" by blast
  then show ?thesis by (simp add: least_above_def True)
next
  case False
  have "finite {j \<in> A. i < j}" using assms by simp
  with sorted_list_of_set_nonempty [OF this False] False show ?thesis by (auto simp: least_above_def)
qed

lemma coll_indices_props:
  assumes "coll_inv name_of c"
  shows "set (coll_indices c) = dom (coll_getItem c)" "sorted_wrt (<) (coll_indices c)"
    "\<forall>i\<in>set (coll_indices c). i \<noteq> InvalidIndex" "coll_first c = hd_index (coll_indices c)"
    "length (coll_indices c) \<le> length (coll_items c)"
proof -
  note fin = anycoll.items_finite [OF assms] and pos = anycoll.items_nonneg [OF assms]
  show s: "set (coll_indices c) = dom (coll_getItem c)" using fin by (simp add: coll_indices_def)
  show "sorted_wrt (<) (coll_indices c)" using fin by (simp add: coll_indices_def)
  show "\<forall>i\<in>set (coll_indices c). i \<noteq> InvalidIndex" unfolding s using pos by fastforce
  have "{j \<in> dom (coll_getItem c). - 1 < j} = dom (coll_getItem c)" using pos by fastforce
  then show "coll_first c = hd_index (coll_indices c)"
    using least_above_sorted [OF fin, of "- 1"] anycoll.first_index [OF assms] by (simp add: coll_indices_def)
  have "dom (coll_getItem c) \<subseteq> {0..<int (length (coll_items c))}"
  proof (cases c)
    case (MapColl m)
    then show ?thesis using dom_slot_getItem [of "mc_items m"] by (auto simp: MapCollection_getItem_def)
  next
    case (ListColl l)
    then show ?thesis using dom_slot_getItem [of "lc_items l"] by (auto simp: ListCollection_getItem_def)
  qed
  from card_mono [OF _ this] fin show "length (coll_indices c) \<le> length (coll_items c)" by (simp add: coll_indices_def)
qed

lemma coll_next_in:
  assumes inv: "coll_inv name_of c" and split: "coll_indices c = done @ i # todo" and inv': "coll_inv name_of' c'"
    and rest: "{j \<in> dom (coll_getItem c'). i < j} = {j \<in> dom (coll_getItem c). i < j}"
  shows "coll_next c' i = hd_index todo"
proof -
  note p = coll_indices_props [OF inv]
  have "i \<in> dom (coll_getItem c)" unfolding p(1) [symmetric] split by simp
  then have i: "0 \<le> i" by (rule anycoll.items_nonneg [OF inv])
  have ord: "\<forall>j\<in>set done. j < i" "\<forall>j\<in>set todo. i < j" "sorted_wrt (<) todo" using p(2) split by (auto simp: sorted_wrt_append)
  have "{j \<in> dom (coll_getItem c). i < j} = set todo"
    unfolding p(1) [symmetric] split using ord(1,2) by (auto dest: order_less_asym)
  moreover have "sorted_list_of_set (set todo) = todo"
    using ord(3) by (simp add: sorted_list_of_set.idem_if_sorted_distinct strict_sorted_iff)
  ultimately show ?thesis
    using anycoll.next_index [OF inv' i] least_above_sorted [OF anycoll.items_finite [OF inv'], of i] rest by simp
qed

section \<open>Destroying all views of a group\<close>

text \<open>Views are destroyed one after the other; the groups are not looked at.\<close>

definition forget_views :: "view_id list \<Rightarrow> ('d, 'n) world \<Rightarrow> ('d, 'n) world" where
  "forget_views vs w =
     w\<lparr>w_store := fold View_destroy vs (w_store w), v_owner := (\<lambda>v. if v \<in> set vs then None else v_owner w v),
       v_index := (\<lambda>v. if v \<in> set vs then InvalidIndex else v_index w v)\<rparr>"

lemma forget_views_simps [simp]:
  "w_groups (forget_views vs w) = w_groups w" "next_group (forget_views vs w) = next_group w"
  "next_view (forget_views vs w) = next_view w" "v_name (forget_views vs w) = v_name w"
  "w_store (forget_views vs w) = fold View_destroy vs (w_store w)"
  "v_owner (forget_views vs w) v = (if v \<in> set vs then None else v_owner w v)"
  "v_index (forget_views vs w) v = (if v \<in> set vs then InvalidIndex else v_index w v)"
  by (simp_all add: forget_views_def)

lemma forget_views_append: "forget_views us (forget_views vs w) = forget_views (vs @ us) w"
  by (auto simp: forget_views_def fun_eq_iff intro!: world.equality)

lemma dom_fold_View_destroy [simp]: "dom (views (fold View_destroy vs s)) = dom (views s) - set vs"
  by (induction vs arbitrary: s) auto

definition coll_values :: "'a coll \<Rightarrow> 'a list" where
  "coll_values c = map (\<lambda>i. the (coll_getItem c i)) (coll_indices c)"

lemma set_coll_values: "coll_inv name_of c \<Longrightarrow> set (coll_values c) = ran (coll_getItem c)"
  using coll_indices_props(1) [of name_of c] by (force simp: coll_values_def ran_def image_def dom_def)

text \<open>The world after the views with the indices \<open>done\<close> of group \<open>g\<close> were destroyed.\<close>

definition views_done :: "('d, 'n) world \<Rightarrow> group_id \<Rightarrow> Group \<Rightarrow> int list \<Rightarrow> ('d, 'n) world \<Rightarrow> bool" where
  "views_done w g G done w' \<longleftrightarrow>
     (\<exists>coll. coll_ok (v_name w) (g_is_list G) coll \<and> coll_getItem coll = (coll_getItem (g_views G)) |` (- set done) \<and>
        w' = upd_group g (\<lambda>_. G\<lparr>g_views := coll\<rparr>) (forget_views (map (\<lambda>i. the (coll_getItem (g_views G) i)) done) w))"

lemma destroyView_at_done:
  assumes G: "w_groups w g = Some G" and vd: "views_done w g G done w1"
    and i: "i \<notin> set done" "coll_getItem (g_views G) i = Some v"
  shows "views_done w g G (done @ [i]) (destroyView_at w1 g i)"
proof -
  obtain coll where c: "coll_ok (v_name w) (g_is_list G) coll" "coll_getItem coll = (coll_getItem (g_views G)) |` (- set done)"
    "w1 = upd_group g (\<lambda>_. G\<lparr>g_views := coll\<rparr>) (forget_views (map (\<lambda>i. the (coll_getItem (g_views G) i)) done) w)"
    using vd by (auto simp: views_done_def)
  obtain coll' where c': "coll_removeItem (v_name w) coll i = (coll', coll_getItem coll i)" "coll_ok (v_name w) (g_is_list G) coll'"
    "coll_getItem coll' = (coll_getItem coll)(i := None)"
    using coll_ok_remove [OF c(1)] by blast
  have item: "coll_getItem coll i = Some v" using c(2) i by simp
  have "coll_getItem coll' = (coll_getItem (g_views G)) |` (- set (done @ [i]))"
    using c(2) c'(3) by (auto simp: restrict_map_def fun_eq_iff)
  moreover have "destroyView_at w1 g i =
      upd_group g (\<lambda>_. G\<lparr>g_views := coll'\<rparr>) (forget_views (map (\<lambda>i. the (coll_getItem (g_views G) i)) (done @ [i])) w)"
    using c'(1) item i(2) unfolding c(3)
    by (auto simp: destroyView_at_def detachView_at_def delete_view_def forget_owner_def upd_group_def forget_views_def
        fun_eq_iff intro!: world.equality)
  ultimately show ?thesis using c'(2) by (auto simp: views_done_def)
qed

lemma destroyViews_effect:
  assumes G: "w_groups w g = Some G" and ok: "coll_ok (v_name w) (g_is_list G) (g_views G)"
  shows "\<exists>coll. destroyViews w g = Inr (upd_group g (\<lambda>_. G\<lparr>g_views := coll\<rparr>) (forget_views (coll_values (g_views G)) w)) \<and>
    coll_ok (v_name w) (g_is_list G) coll \<and> coll_getItem coll = Map.empty"
proof -
  let ?c = "g_views G"
  note inv = coll_ok_inv [OF ok] and p = coll_indices_props [OF coll_ok_inv [OF ok]]
  have "\<exists>w'. index_loop (length (coll_items ?c)) (\<lambda>w. coll_next (g_views (grp w g))) (\<lambda>w idx. Inr (destroyView_at w g idx))
      (hd_index (coll_indices ?c)) w = Inr w' \<and> views_done w g G (coll_indices ?c) w'"
  proof (rule index_loop_rule [OF _ p(3,5)])
    show "views_done w g G [] w"
      using ok G by (auto simp: views_done_def upd_group_same forget_views_def intro!: exI [of _ ?c] upd_group_same [symmetric])
    fix "done" i todo w1
    assume split: "coll_indices ?c = done @ i # todo" and vd: "views_done w g G done w1"
    have mem: "i \<in> dom (coll_getItem ?c)" "i \<notin> set done"
      using p(1,2) by (auto simp: split sorted_wrt_append)
    then obtain v where v: "coll_getItem ?c i = Some v" by blast
    note vd' = destroyView_at_done [OF G vd mem(2) v]
    obtain coll where c: "coll_ok (v_name w) (g_is_list G) coll" "coll_getItem coll = (coll_getItem ?c) |` (- set (done @ [i]))"
      "g_views (grp (destroyView_at w1 g i) g) = coll"
      using vd' unfolding views_done_def by auto
    have "\<forall>j\<in>set done. j < i" using p(2) by (simp add: split sorted_wrt_append)
    then have "coll_getItem coll j = coll_getItem ?c j" if "i < j" for j using that unfolding c(2) by (fastforce simp: restrict_map_def)
    then have "{j \<in> dom (coll_getItem coll). i < j} = {j \<in> dom (coll_getItem ?c). i < j}" by (auto simp: domIff)
    from coll_next_in [OF inv split coll_ok_inv [OF c(1)] this] vd' c(3)
    show "\<exists>w'. Inr (destroyView_at w1 g i) = Inr w' \<and> views_done w g G (done @ [i]) w' \<and> coll_next (g_views (grp w' g)) i = hd_index todo"
      by simp
  qed
  then obtain w' where w': "for_views w g (\<lambda>w idx. Inr (destroyView_at w g idx)) = Inr w'" "views_done w g G (coll_indices ?c) w'"
    using p(4) G by (auto simp: for_views_def)
  then obtain coll where c: "coll_ok (v_name w) (g_is_list G) coll" "w' = upd_group g (\<lambda>_. G\<lparr>g_views := coll\<rparr>) (forget_views (coll_values ?c) w)"
    by (auto simp: views_done_def coll_values_def)
  show ?thesis
    using w'(1) coll_ok_removeAll [OF c(1)] unfolding c(2)
    by (intro exI [of _ "coll_removeAllItems coll"]) (simp add: destroyViews_def upd_group_def)
qed

section \<open>Deleting a subtree\<close>

definition remove_tree :: "group_id set \<Rightarrow> view_id list \<Rightarrow> ('d, 'n) world \<Rightarrow> ('d, 'n) world" where
  "remove_tree S vs w = (forget_views vs w)\<lparr>w_groups := (\<lambda>h. if h \<in> S then None else w_groups w h)\<rparr>"

lemma remove_tree_simps [simp]:
  "w_groups (remove_tree S vs w) h = (if h \<in> S then None else w_groups w h)" "next_group (remove_tree S vs w) = next_group w"
  "next_view (remove_tree S vs w) = next_view w" "v_name (remove_tree S vs w) = v_name w"
  "w_store (remove_tree S vs w) = fold View_destroy vs (w_store w)"
  "v_owner (remove_tree S vs w) v = (if v \<in> set vs then None else v_owner w v)"
  "v_index (remove_tree S vs w) v = (if v \<in> set vs then InvalidIndex else v_index w v)"
  by (simp_all add: remove_tree_def)

lemma remove_tree_append: "remove_tree T us (remove_tree S vs w) = remove_tree (S \<union> T) (vs @ us) w"
  by (auto simp: remove_tree_def forget_views_def fun_eq_iff intro!: world.equality)

lemma remove_tree_none [simp]: "remove_tree {} [] w = w"
  by (auto simp: remove_tree_def forget_views_def)

definition views_below :: "('d, 'n) world \<Rightarrow> group_id set \<Rightarrow> view_id set" where
  "views_below w S = {v. \<exists>h\<in>S. \<exists>i. owned w h i v}"

text \<open>
  What deletion needs of the groups below \<open>g\<close>, whatever the rest of the world looks like: they
  are live, their collections are sound, they form a tree and no view is in two places.
\<close>

definition deletable :: "('d, 'n) world \<Rightarrow> group_id \<Rightarrow> bool" where
  "deletable w g \<longleftrightarrow>
     finite (subtree w g) \<and>
     (\<forall>h\<in>subtree w g. \<exists>H name_of. w_groups w h = Some H \<and> coll_ok (v_name w) (g_is_list H) (g_views H) \<and>
        coll_ok name_of (g_is_list H) (g_groups H)) \<and>
     (\<forall>h\<in>subtree w g. \<forall>i c. child w h i c \<longrightarrow> h \<notin> subtree w c) \<and>
     (\<forall>h\<in>subtree w g. \<forall>k\<in>subtree w g. \<forall>i j c. child w h i c \<longrightarrow> child w k j c \<longrightarrow> h = k \<and> i = j) \<and>
     (\<forall>h\<in>subtree w g. \<forall>k\<in>subtree w g. \<forall>i j v. owned w h i v \<longrightarrow> owned w k j v \<longrightarrow> h = k \<and> i = j)"

lemma subtree_agree:
  assumes agree: "\<And>h. h \<in> subtree w g \<Longrightarrow> w_groups w' h = w_groups w h"
  shows "subtree w' g = subtree w g"
proof -
  have ch: "child w' h i c \<longleftrightarrow> child w h i c" if "h \<in> subtree w g" for h i c using agree [OF that] by (simp add: child_def)
  have "(g, h) \<in> (childrel w')\<^sup>* \<Longrightarrow> (g, h) \<in> (childrel w)\<^sup>*" for h
  proof (induction rule: rtrancl_induct)
    case (step p c)
    then have "p \<in> subtree w g" by (simp add: subtree_def)
    with step ch have "(p, c) \<in> childrel w" by (auto simp: childrel_def)
    with step show ?case by (meson rtrancl_into_rtrancl)
  qed simp
  moreover have "(g, h) \<in> (childrel w)\<^sup>* \<Longrightarrow> (g, h) \<in> (childrel w')\<^sup>*" for h
  proof (induction rule: rtrancl_induct)
    case (step p c)
    then have "p \<in> subtree w g" by (simp add: subtree_def)
    with step ch have "(p, c) \<in> childrel w'" by (auto simp: childrel_def)
    with step show ?case by (meson rtrancl_into_rtrancl)
  qed simp
  ultimately show ?thesis by (auto simp: subtree_def)
qed

lemma subtree_trans: "h \<in> subtree w g \<Longrightarrow> subtree w h \<subseteq> subtree w g"
  by (auto simp: subtree_def intro: rtrancl_trans)

lemma deletable_agree:
  assumes del: "deletable w g" and agree: "\<And>h. h \<in> subtree w g \<Longrightarrow> w_groups w' h = w_groups w h" and nm: "v_name w' = v_name w"
  shows "deletable w' g" "subtree w' g = subtree w g" "views_below w' (subtree w' g) = views_below w (subtree w g)"
proof -
  show sub: "subtree w' g = subtree w g" using subtree_agree [of w g w'] agree by blast
  have ch: "child w' h i c \<longleftrightarrow> child w h i c" and ow: "owned w' h i v \<longleftrightarrow> owned w h i v" if "h \<in> subtree w g" for h i c v
    using agree [OF that] by (simp_all add: child_def owned_def)
  have sub': "subtree w' h = subtree w h" if "h \<in> subtree w g" for h
    using subtree_trans [OF that] agree by (intro subtree_agree) blast
  show "views_below w' (subtree w' g) = views_below w (subtree w g)" using ow by (auto simp: views_below_def sub)
  show "deletable w' g"
    unfolding deletable_def sub nm
  proof (intro conjI ballI allI impI)
    show "finite (subtree w g)" using del by (simp add: deletable_def)
  next
    fix h assume h: "h \<in> subtree w g"
    then show "\<exists>H name_of. w_groups w' h = Some H \<and> coll_ok (v_name w) (g_is_list H) (g_views H) \<and> coll_ok name_of (g_is_list H) (g_groups H)"
      using del agree [OF h] by (simp add: deletable_def)
  next
    fix h i c assume h: "h \<in> subtree w g" and "child w' h i c"
    then have c: "child w h i c" using ch by blast
    then have "h \<notin> subtree w c" using del h by (auto simp: deletable_def)
    with sub' [OF subtree_closed [OF h c]] show "h \<notin> subtree w' c" by simp
  next
    fix h k i j c assume "h \<in> subtree w g" "k \<in> subtree w g" "child w' h i c" "child w' k j c"
    then show "h = k" "i = j" using del ch unfolding deletable_def by metis+
  next
    fix h k i j v assume "h \<in> subtree w g" "k \<in> subtree w g" "owned w' h i v" "owned w' k j v"
    then show "h = k" "i = j" using del ow unfolding deletable_def by metis+
  qed
qed

lemma deletableD:
  assumes "deletable w g" and "h \<in> subtree w g"
  shows "\<exists>H name_of. w_groups w h = Some H \<and> coll_ok (v_name w) (g_is_list H) (g_views H) \<and> coll_ok name_of (g_is_list H) (g_groups H)"
    "child w h i c \<Longrightarrow> h \<notin> subtree w c"
    "k \<in> subtree w g \<Longrightarrow> child w h i c \<Longrightarrow> child w k j c \<Longrightarrow> h = k \<and> i = j"
    "k \<in> subtree w g \<Longrightarrow> owned w h i v \<Longrightarrow> owned w k j v \<Longrightarrow> h = k \<and> i = j"
proof -
  show "\<exists>H name_of. w_groups w h = Some H \<and> coll_ok (v_name w) (g_is_list H) (g_views H) \<and> coll_ok name_of (g_is_list H) (g_groups H)"
    using assms by (simp add: deletable_def)
  show "child w h i c \<Longrightarrow> h \<notin> subtree w c" using assms by (simp add: deletable_def)
  show "k \<in> subtree w g \<Longrightarrow> child w h i c \<Longrightarrow> child w k j c \<Longrightarrow> h = k \<and> i = j"
    using assms unfolding deletable_def by (meson)
  show "k \<in> subtree w g \<Longrightarrow> owned w h i v \<Longrightarrow> owned w k j v \<Longrightarrow> h = k \<and> i = j"
    using assms unfolding deletable_def by (meson)
qed

lemma deletable_child:
  assumes del: "deletable w g" and c: "child w g i c"
  shows "deletable w c" "subtree w c \<subset> subtree w g"
proof -
  have sub: "subtree w c \<subseteq> subtree w g" by (rule subtree_child [OF c])
  have "g \<notin> subtree w c" by (rule deletableD(2) [OF del subtree_refl c])
  with sub show "subtree w c \<subset> subtree w g" by auto
  show "deletable w c"
    unfolding deletable_def
  proof (intro conjI ballI allI impI)
    show "finite (subtree w c)" using del sub by (auto simp: deletable_def intro: finite_subset)
  qed (use deletableD [OF del] sub in blast)+
qed

text \<open>Different children of a group have nothing in common.\<close>

lemma deletable_disjoint:
  assumes del: "deletable w g" and c: "child w g i c" and d: "child w g j d" and ij: "i \<noteq> j"
  shows "subtree w c \<inter> subtree w d = {}" "views_below w (subtree w c) \<inter> views_below w (subtree w d) = {}"
proof -
  have sub: "subtree w c \<subseteq> subtree w g" "subtree w d \<subseteq> subtree w g" using subtree_child [OF c] subtree_child [OF d] by auto
  have up: "g \<notin> subtree w c" "g \<notin> subtree w d" using deletableD(2) [OF del subtree_refl] c d by auto
  have neq: "c \<noteq> d" using deletableD(3) [OF del subtree_refl subtree_refl c, of j] d ij by auto
  have last: "\<exists>p k. p \<in> subtree w x \<and> child w p k h" if "h \<in> subtree w x" "h \<noteq> x" for h x
  proof -
    have "(x, h) \<in> (childrel w)\<^sup>*" using that(1) by (simp add: subtree_def)
    with that(2) obtain p where "(x, p) \<in> (childrel w)\<^sup>*" "(p, h) \<in> childrel w" by (metis rtranclE)
    then show ?thesis by (auto simp: subtree_def childrel_def)
  qed
  have top: "c' \<notin> subtree w d'" if "child w g k c'" "child w g l d'" "c' \<noteq> d'" for k l c' d'
  proof
    assume "c' \<in> subtree w d'"
    then obtain p m where p: "p \<in> subtree w d'" "child w p m c'" using last [of c' d'] \<open>c' \<noteq> d'\<close> by blast
    have "p \<in> subtree w g" using p(1) subtree_child [OF \<open>child w g l d'\<close>] by blast
    then have "p = g" using deletableD(3) [OF del subtree_refl _ \<open>child w g k c'\<close> p(2)] by blast
    with p(1) deletableD(2) [OF del subtree_refl \<open>child w g l d'\<close>] show False by blast
  qed
  have "h \<notin> subtree w d" if "(c, h) \<in> (childrel w)\<^sup>*" for h
    using that
  proof (induction rule: rtrancl_induct)
    case base
    show ?case by (rule top [OF c d neq])
  next
    case (step p h)
    show ?case
    proof
      assume h: "h \<in> subtree w d"
      obtain m where m: "child w p m h" using step(2) by (auto simp: childrel_def)
      have p: "p \<in> subtree w c" using step(1) by (simp add: subtree_def)
      show False
      proof (cases "h = d")
        case True
        with deletableD(3) [OF del subtree_refl _ d] m p sub(1) have "p = g" by blast
        with p up(1) show False by blast
      next
        case False
        then obtain q l where q: "q \<in> subtree w d" "child w q l h" using last [OF h] by blast
        with deletableD(3) [OF del _ _ m q(2)] p sub have "p = q" by blast
        with q(1) step.IH show False by blast
      qed
    qed
  qed
  then show disj: "subtree w c \<inter> subtree w d = {}" by (auto simp: subtree_def)
  show "views_below w (subtree w c) \<inter> views_below w (subtree w d) = {}"
  proof (rule ccontr)
    assume "views_below w (subtree w c) \<inter> views_below w (subtree w d) \<noteq> {}"
    then obtain v h k m n where "h \<in> subtree w c" "k \<in> subtree w d" "owned w h m v" "owned w k n v" by (auto simp: views_below_def)
    with deletableD(4) [OF del, of h k m v n] sub disj show False by blast
  qed
qed

lemma views_below_Un: "views_below w (A \<union> B) = views_below w A \<union> views_below w B"
  by (auto simp: views_below_def)

definition children_trees :: "('d, 'n) world \<Rightarrow> Group \<Rightarrow> int set \<Rightarrow> group_id set" where
  "children_trees w G I = (\<Union>i\<in>I. subtree w (the (coll_getItem (g_groups G) i)))"

lemma destroyGroups_by_effect:
  assumes del: "deletable w g" and G: "w_groups w g = Some G" and cok: "coll_ok name_of (g_is_list G) (g_groups G)"
    and rec: "\<And>w' c. deletable w' c \<Longrightarrow> card (subtree w' c) < card (subtree w g) \<Longrightarrow>
      \<exists>vs. delete w' c = Inr (remove_tree (subtree w' c) vs w') \<and> distinct vs \<and> set vs = views_below w' (subtree w' c)"
  shows "\<exists>vs coll. destroyGroups_by delete w g = Inr (upd_group g (\<lambda>_. G\<lparr>g_groups := coll\<rparr>) (remove_tree (subtree w g - {g}) vs w)) \<and>
    distinct vs \<and> set vs = views_below w (subtree w g - {g}) \<and> coll_getItem coll = Map.empty \<and> (\<forall>f. coll_ok f (g_is_list G) coll)"
proof -
  let ?c = "g_groups G"
  note inv = coll_ok_inv [OF cok] and p = coll_indices_props [OF coll_ok_inv [OF cok]]
  have fin: "finite (subtree w g)" using del by (simp add: deletable_def)
  let ?P = "\<lambda>done w'. \<exists>us. w' = remove_tree (children_trees w G (set done)) us w \<and> distinct us \<and>
      set us = views_below w (children_trees w G (set done))"
  have "\<exists>w'. index_loop (length (coll_items ?c)) (\<lambda>w. coll_next (g_groups (grp w g)))
      (\<lambda>w idx. case getGroup_at w g idx of None \<Rightarrow> Inr w | Some c \<Rightarrow> delete w c) (hd_index (coll_indices ?c)) w = Inr w' \<and>
      ?P (coll_indices ?c) w'"
  proof (rule index_loop_rule [OF _ p(3,5)])
    show "?P [] w" by (auto simp: children_trees_def views_below_def intro!: exI [of _ "[]"])
    fix "done" i todo w1
    assume split: "coll_indices ?c = done @ i # todo" and "?P done w1"
    then obtain us where us: "w1 = remove_tree (children_trees w G (set done)) us w" "distinct us"
      "set us = views_below w (children_trees w G (set done))" by blast
    have mem: "i \<in> dom (coll_getItem ?c)" "i \<notin> set done" "set done \<subseteq> dom (coll_getItem ?c)"
      using p(1,2) by (auto simp: split sorted_wrt_append)
    then obtain c where c: "coll_getItem ?c i = Some c" by blast
    then have ch: "child w g i c" using G by (simp add: child_def)
    have other: "child w g j (the (coll_getItem ?c j))" if "j \<in> set done" for j using mem(3) that G by (force simp: child_def)
    have sep: "subtree w c \<inter> children_trees w G (set done) = {}"
      "views_below w (subtree w c) \<inter> views_below w (children_trees w G (set done)) = {}"
      using deletable_disjoint [OF del ch other] mem(2) unfolding children_trees_def views_below_def by blast+
    have gS: "g \<notin> children_trees w G (set done)"
      using deletableD(2) [OF del subtree_refl other] by (auto simp: children_trees_def)
    note dc = deletable_child [OF del ch]
    have agree: "w_groups w1 h = w_groups w h" if "h \<in> subtree w c" for h using that sep(1) us(1) by auto
    note d1 = deletable_agree [OF dc(1) agree]
    have card: "card (subtree w c) < card (subtree w g)" by (rule psubset_card_mono [OF fin dc(2)])
    obtain vs where vs: "delete w1 c = Inr (remove_tree (subtree w c) vs w1)" "distinct vs" "set vs = views_below w (subtree w c)"
      using rec [of w1 c] d1 us(1) card by auto
    have trees: "children_trees w G (set (done @ [i])) = children_trees w G (set done) \<union> subtree w c"
      using c by (auto simp: children_trees_def)
    have "remove_tree (subtree w c) vs w1 = remove_tree (children_trees w G (set (done @ [i]))) (us @ vs) w"
      unfolding us(1) remove_tree_append trees ..
    moreover have "distinct (us @ vs)" "set (us @ vs) = views_below w (children_trees w G (set (done @ [i])))"
      using us(2,3) vs(2,3) sep(2) unfolding trees views_below_Un by auto
    moreover have "getGroup_at w1 g i = Some c" using us(1) gS G c by (simp add: getGroup_at_def)
    moreover have "g \<notin> children_trees w G (set (done @ [i]))"
      unfolding trees using gS deletableD(2) [OF del subtree_refl ch] by blast
    moreover have "coll_next ?c i = hd_index todo" by (rule coll_next_in [OF inv split inv refl])
    ultimately show "\<exists>w'. (case getGroup_at w1 g i of None \<Rightarrow> Inr w1 | Some c \<Rightarrow> delete w1 c) = Inr w' \<and> ?P (done @ [i]) w' \<and>
        coll_next (g_groups (grp w' g)) i = hd_index todo"
      using vs(1) G by (intro exI [of _ "remove_tree (subtree w c) vs w1"]) auto
  qed
  then obtain vs where vs: "for_groups w g (\<lambda>w idx. case getGroup_at w g idx of None \<Rightarrow> Inr w | Some c \<Rightarrow> delete w c) =
      Inr (remove_tree (children_trees w G (set (coll_indices ?c))) vs w)" "distinct vs"
    "set vs = views_below w (children_trees w G (set (coll_indices ?c)))"
    using p(4) G by (auto simp: for_groups_def)
  have trees: "children_trees w G (set (coll_indices ?c)) = subtree w g - {g}"
  proof -
    have "h \<in> children_trees w G (dom (coll_getItem ?c))" if "h \<in> subtree w g" "h \<noteq> g" for h
    proof -
      have "(g, h) \<in> (childrel w)\<^sup>*" using that(1) by (simp add: subtree_def)
      with that(2) obtain c where c: "(g, c) \<in> childrel w" "(c, h) \<in> (childrel w)\<^sup>*" by (metis converse_rtranclE)
      then obtain i where "coll_getItem ?c i = Some c" using G by (auto simp: childrel_def child_def)
      moreover have "h \<in> subtree w c" using c(2) by (simp add: subtree_def)
      ultimately show ?thesis unfolding children_trees_def by (metis UN_I domI option.sel)
    qed
    moreover have "children_trees w G (dom (coll_getItem ?c)) \<subseteq> subtree w g - {g}"
      using G deletableD(2) [OF del subtree_refl] subtree_child [of w g] by (fastforce simp: children_trees_def child_def)
    ultimately show ?thesis unfolding p(1) by blast
  qed
  show ?thesis
    using vs coll_ok_removeAll [OF cok] G unfolding trees
    by (intro exI [of _ vs] exI [of _ "coll_removeAllItems ?c"]) (simp add: destroyGroups_by_def upd_group_def)
qed

lemma clear_views_tree:
  assumes del: "deletable w g" and G: "w_groups w g = Some G" and coll: "coll_ok (v_name w) (g_is_list G) coll" "coll_getItem coll = Map.empty"
    and w1: "w1 = upd_group g (\<lambda>_. G\<lparr>g_views := coll\<rparr>) (forget_views vs w)"
  shows "deletable w1 g" "subtree w1 = subtree w" "views_below w1 S = views_below w (S - {g})"
proof -
  have ch: "child w1 = child w" using G by (auto simp: w1 child_def fun_eq_iff)
  then have rel: "childrel w1 = childrel w" by (simp add: childrel_def)
  show sub: "subtree w1 = subtree w" by (simp add: fun_eq_iff subtree_def rel)
  have ow: "owned w1 h i v \<longleftrightarrow> h \<noteq> g \<and> owned w h i v" for h i v using coll(2) by (auto simp: w1 owned_def)
  show "views_below w1 S = views_below w (S - {g})" by (auto simp: views_below_def ow)
  show "deletable w1 g"
    unfolding deletable_def sub ch
  proof (intro conjI ballI allI impI)
    show "finite (subtree w g)" using del by (simp add: deletable_def)
  next
    fix h assume h: "h \<in> subtree w g"
    show "\<exists>H name_of. w_groups w1 h = Some H \<and> coll_ok (v_name w1) (g_is_list H) (g_views H) \<and> coll_ok name_of (g_is_list H) (g_groups H)"
      using deletableD(1) [OF del h] G coll(1) by (cases "h = g") (auto simp: w1)
  qed (use deletableD(2-4) [OF del] ow in blast)+
qed

text \<open>
  \<^verbatim>\<open>delete group\<close> removes exactly the groups below and their views, each view once; a depth of the
  number of groups below is enough.
\<close>

lemma coll_values_below:
  assumes del: "deletable w g" and G: "w_groups w g = Some G"
  shows "distinct (coll_values (g_views G))" "set (coll_values (g_views G)) = views_below w {g}"
proof -
  obtain H where "w_groups w g = Some H" "coll_ok (v_name w) (g_is_list H) (g_views H)" using deletableD(1) [OF del subtree_refl] by blast
  with G have ok: "coll_inv (v_name w) (g_views G)" by (simp add: coll_ok_inv)
  note p = coll_indices_props [OF ok]
  show "set (coll_values (g_views G)) = views_below w {g}"
    using set_coll_values [OF ok] G by (auto simp: views_below_def owned_def ran_def)
  have "i = j" if "i \<in> dom (coll_getItem (g_views G))" "j \<in> dom (coll_getItem (g_views G))"
    "the (coll_getItem (g_views G) i) = the (coll_getItem (g_views G) j)" for i j
  proof -
    from that obtain v where "coll_getItem (g_views G) i = Some v" "coll_getItem (g_views G) j = Some v" by auto
    then have "owned w g i v" "owned w g j v" using G by (simp_all add: owned_def)
    then show ?thesis using deletableD(4) [OF del subtree_refl subtree_refl] by blast
  qed
  moreover have "distinct (coll_indices (g_views G))" using p(2) by (simp add: strict_sorted_iff)
  ultimately show "distinct (coll_values (g_views G))" unfolding coll_values_def distinct_map p(1) by (blast intro: inj_onI)
qed

lemma delete_group_effect:
  "deletable w g \<Longrightarrow> card (subtree w g) \<le> n \<Longrightarrow>
    \<exists>vs. delete_group n w g = Inr (remove_tree (subtree w g) vs w) \<and> distinct vs \<and> set vs = views_below w (subtree w g)"
proof (induction n arbitrary: w g)
  case 0
  then have "subtree w g = {}" by (simp add: deletable_def)
  with subtree_refl [of g w] show ?case by blast
next
  case (Suc n)
  note del = Suc.prems(1)
  obtain G name_of where G: "w_groups w g = Some G" "coll_ok (v_name w) (g_is_list G) (g_views G)"
    "coll_ok name_of (g_is_list G) (g_groups G)"
    using deletableD(1) [OF del subtree_refl] by blast
  let ?us = "coll_values (g_views G)"
  obtain coll where coll: "destroyViews w g = Inr (upd_group g (\<lambda>_. G\<lparr>g_views := coll\<rparr>) (forget_views ?us w))"
    "coll_ok (v_name w) (g_is_list G) coll" "coll_getItem coll = Map.empty"
    using destroyViews_effect [OF G(1,2)] by blast
  define w1 where "w1 = upd_group g (\<lambda>_. G\<lparr>g_views := coll\<rparr>) (forget_views ?us w)"
  note t1 = clear_views_tree [OF del G(1) coll(2,3) w1_def]
  have G1: "w_groups w1 g = Some (G\<lparr>g_views := coll\<rparr>)" by (simp add: w1_def)
  have rec: "\<exists>vs. delete_group n w' c = Inr (remove_tree (subtree w' c) vs w') \<and> distinct vs \<and> set vs = views_below w' (subtree w' c)"
    if "deletable w' c" "card (subtree w' c) < card (subtree w1 g)" for w' :: "('a, 'b) world" and c
    using Suc.IH [OF that(1)] that(2) Suc.prems(2) t1(2) by simp
  have G1c: "coll_ok name_of (g_is_list (G\<lparr>g_views := coll\<rparr>)) (g_groups (G\<lparr>g_views := coll\<rparr>))" using G(3) by simp
  obtain vs coll2 where vs: "destroyGroups_by (delete_group n) w1 g =
      Inr (upd_group g (\<lambda>_. G\<lparr>g_views := coll, g_groups := coll2\<rparr>) (remove_tree (subtree w g - {g}) vs w1))"
    "distinct vs" "set vs = views_below w1 (subtree w g - {g})"
    using destroyGroups_by_effect [OF t1(1) G1 G1c rec] unfolding t1(2) by auto
  have gone: "free_group g (upd_group g f (remove_tree (subtree w g - {g}) vs w1)) = remove_tree (subtree w g) (?us @ vs) w" for f
    by (auto simp: free_group_def upd_group_def remove_tree_def forget_views_def w1_def fun_eq_iff intro!: world.equality)
  have "delete_group (Suc n) w g = Inr (remove_tree (subtree w g) (?us @ vs) w)"
    using coll(1) vs(1) gone by (simp add: w1_def [symmetric])
  moreover have "subtree w g = {g} \<union> (subtree w g - {g})" using subtree_refl by blast
  then have "views_below w (subtree w g) = views_below w {g} \<union> views_below w (subtree w g - {g})" by (metis views_below_Un)
  moreover have "views_below w {g} \<inter> views_below w (subtree w g - {g}) = {}"
    using deletableD(4) [OF del subtree_refl] by (fastforce simp: views_below_def)
  moreover have "views_below w1 (subtree w g - {g}) = views_below w (subtree w g - {g})" using t1(3) by simp
  ultimately show ?case using vs(2,3) coll_values_below [OF del G(1)] by (intro exI [of _ "?us @ vs"]) auto
qed

section \<open>The invariant after a deletion\<close>

lemma forest_inv_deletable:
  assumes inv: "forest_inv D DV w" and g: "w_groups w g \<noteq> None"
  shows "deletable w g" "card (subtree w g) \<le> next_group w"
proof -
  note ok = forest_invD [OF inv] and t = tree_okD [OF forest_invD(1) [OF inv]]
  show "card (subtree w g) \<le> next_group w" by (rule subtree_card(2) [OF ok(1) g])
  show "deletable w g"
    unfolding deletable_def
  proof (intro conjI ballI allI impI)
    show "finite (subtree w g)" by (rule subtree_card(1) [OF ok(1) g])
  next
    fix h assume "h \<in> subtree w g"
    then obtain H where H: "w_groups w h = Some H" using subtree_live [OF t(2) g] by blast
    then show "\<exists>H name_of. w_groups w h = Some H \<and> coll_ok (v_name w) (g_is_list H) (g_views H) \<and> coll_ok name_of (g_is_list H) (g_groups H)"
      using groups_okD(2) [OF t(1) H] owners_okD(1) [OF ok(2) H] by blast
  qed (use subtree_strict [OF t(2,3)] child_unique_parent [OF t(2)] owned_unique [OF ok(2)] in blast)+
qed

text \<open>
  Groups \<open>S\<close> disappear together with everything below them, and all entries for them disappear
  from the collections of the others.
\<close>

lemma tree_ok_prune:
  assumes ok: "tree_ok D w" and S: "root \<notin> S" "\<And>h i c. h \<in> S \<Longrightarrow> child w h i c \<Longrightarrow> c \<in> S"
    and gone: "\<And>h. h \<in> S \<Longrightarrow> w_groups w' h = None" and none: "\<And>h. w_groups w h = None \<Longrightarrow> w_groups w' h = None"
    and kept: "\<And>h H. h \<notin> S \<Longrightarrow> w_groups w h = Some H \<Longrightarrow> \<exists>H'. w_groups w' h = Some H' \<and> g_name H' = g_name H \<and>
      g_index H' = g_index H \<and> g_parent H' = g_parent H \<and> g_is_list H' = g_is_list H \<and>
      coll_ok (group_name w) (g_is_list H) (g_groups H') \<and> coll_getItem (g_groups H') = (\<lambda>i. case coll_getItem (g_groups H) i of
        Some c \<Rightarrow> if c \<in> S then None else Some c | None \<Rightarrow> None)"
    and same: "next_group w' = next_group w"
  shows "tree_ok (D - S) w'" and "child w' h i c \<longleftrightarrow> child w h i c \<and> h \<notin> S \<and> c \<notin> S"
proof -
  note t = tree_okD [OF ok]
  have live: "w_groups w' h \<noteq> None \<longleftrightarrow> w_groups w h \<noteq> None \<and> h \<notin> S" for h
    using gone [of h] none [of h] kept [of h] by (cases "h \<in> S"; cases "w_groups w h") auto
  have ch: "child w' h i c \<longleftrightarrow> child w h i c \<and> h \<notin> S \<and> c \<notin> S" for h i c
  proof (cases "h \<in> S \<or> w_groups w h = None")
    case True
    with live [of h] show ?thesis by (auto simp: child_def)
  next
    case False
    then obtain H where H: "h \<notin> S" "w_groups w h = Some H" by auto
    from kept [OF this] obtain H' where H': "w_groups w' h = Some H'" "coll_getItem (g_groups H') = (\<lambda>i. case coll_getItem (g_groups H) i of
        Some c \<Rightarrow> if c \<in> S then None else Some c | None \<Rightarrow> None)" by blast
    with H show ?thesis by (auto simp: child_def split: option.splits)
  qed
  then show "child w' h i c \<longleftrightarrow> child w h i c \<and> h \<notin> S \<and> c \<notin> S" .
  have name: "group_name w' c = group_name w c" if c: "w_groups w' c \<noteq> None" for c
  proof -
    obtain C where C: "c \<notin> S" "w_groups w c = Some C" using live [of c] c by auto
    with kept [OF C] show ?thesis by (auto simp: group_name_def)
  qed
  have orig: "\<exists>H. h \<notin> S \<and> w_groups w h = Some H \<and> g_parent H' = g_parent H \<and> g_index H' = g_index H \<and> g_is_list H' = g_is_list H \<and>
      coll_ok (group_name w) (g_is_list H) (g_groups H')" if h: "w_groups w' h = Some H'" for h H'
  proof -
    obtain H where H: "h \<notin> S" "w_groups w h = Some H" using live [of h] h by auto
    with kept [OF H] h show ?thesis by auto
  qed
  obtain R where R: "w_groups w root = Some R" "g_parent R = Some root" "\<not> g_is_list R" by (rule tree_ok_root [OF ok])
  show "tree_ok (D - S) w'"
  proof (rule tree_okI)
    show root: "\<exists>G. w_groups w' root = Some G \<and> g_parent G = Some root \<and> \<not> g_is_list G" using kept [OF S(1) R(1)] R by auto
    show "h < next_group w'" if "w_groups w' h = Some H" for h H using orig [OF that] groups_okD(1) [OF t(1)] same by auto
    have links: "group_links (D - S) w'"
    proof (rule group_linksI)
      show "\<exists>C. w_groups w' c = Some C \<and> c \<noteq> root \<and> c \<notin> D - S \<and> g_parent C = Some h \<and> g_index C = i" if hc: "child w' h i c" for h i c
      proof -
        obtain C where C: "w_groups w c = Some C" "c \<noteq> root" "c \<notin> D" "g_parent C = Some h" "g_index C = i"
          using hc ch group_linksD [OF t(2)] by blast
        then obtain C' where "w_groups w' c = Some C'" using live [of c] hc ch by auto
        with orig [OF this] C show ?thesis by auto
      qed
      show "\<exists>h. g_parent C = Some h \<and> child w' h (g_index C) c" if c: "w_groups w' c = Some C" "c \<noteq> root" "c \<notin> D - S" for c C
      proof -
        obtain C0 where C0: "c \<notin> S" "w_groups w c = Some C0" "g_parent C = g_parent C0" "g_index C = g_index C0" using orig [OF c(1)] by auto
        obtain h where h: "g_parent C0 = Some h" "child w h (g_index C0) c" using group_linksE [OF t(2) C0(2) c(2)] c(3) C0(1) by blast
        then have "h \<notin> S" using S(2) C0(1) by blast
        with h C0 ch show ?thesis by auto
      qed
      show "g_parent C \<noteq> None" if "w_groups w' root = Some C" for C using root that by auto
      show "w_groups w' c \<noteq> None \<and> c \<noteq> root" if "c \<in> D - S" for c using that t(2) live [of c] by (auto simp: group_links_def)
    qed
    show "group_links (D - S) w'" by (rule links)
    show "coll_ok (group_name w') (g_is_list H) (g_groups H)" if H: "w_groups w' h = Some H" for h H
    proof -
      have "group_name w' x = group_name w x" if "coll_getItem (g_groups H) i = Some x" for i x
      proof -
        have "child w' h i x" using H that by (simp add: child_def)
        then show ?thesis using name child_target_live [OF links] by blast
      qed
      then have "coll_ok (group_name w') (g_is_list H) (g_groups H) = coll_ok (group_name w) (g_is_list H) (g_groups H)" by (rule coll_ok_cong)
      with orig [OF H] show ?thesis by auto
    qed
    show "rooted (D - S) w'"
      unfolding rooted_def
    proof (intro allI impI)
      fix h assume "w_groups w' h \<noteq> None"
      then have h: "w_groups w h \<noteq> None" "h \<notin> S" using live by auto
      then obtain r where r: "r \<in> insert root D" "(r, h) \<in> (childrel w)\<^sup>*" using t(3) by (auto simp: rooted_def)
      have "h \<notin> S \<longrightarrow> r \<notin> S \<and> (r, h) \<in> (childrel w')\<^sup>*" using r(2)
      proof (induction rule: rtrancl_induct)
        case (step p c)
        then obtain i where i: "child w p i c" by (auto simp: childrel_def)
        show ?case
        proof
          assume "c \<notin> S"
          with i S(2) have "p \<notin> S" by blast
          with step.IH i \<open>c \<notin> S\<close> ch have "r \<notin> S" "(r, p) \<in> (childrel w')\<^sup>*" "(p, c) \<in> childrel w'" by (auto simp: childrel_def)
          then show "r \<notin> S \<and> (r, c) \<in> (childrel w')\<^sup>*" by (meson rtrancl_into_rtrancl)
        qed
      qed simp
      with h(2) r(1) show "\<exists>r\<in>insert root (D - S). (r, h) \<in> (childrel w')\<^sup>*" by blast
    qed
  qed
qed

lemma owners_ok_prune:
  assumes ok: "owners_ok DV w"
    and groups: "\<And>h H'. w_groups w' h = Some H' \<Longrightarrow> \<exists>H. w_groups w h = Some H \<and> coll_ok (v_name w) (g_is_list H') (g_views H') \<and>
      coll_getItem (g_views H') = (\<lambda>i. case coll_getItem (g_views H) i of Some v \<Rightarrow> if v \<in> X then None else Some v | None \<Rightarrow> None)"
    and gone: "\<And>h i v. w_groups w' h = None \<Longrightarrow> owned w h i v \<Longrightarrow> v \<in> X"
    and same: "v_name w' = v_name w" "next_view w' = next_view w" "dom (views (w_store w')) = dom (views (w_store w)) - X"
      "\<And>v. v \<notin> X \<Longrightarrow> v_owner w' v = v_owner w v \<and> v_index w' v = v_index w v"
  shows "owners_ok (DV - X) w'" and "owned w' h i v \<longleftrightarrow> owned w h i v \<and> v \<notin> X"
proof -
  have live: "live_view w' v \<longleftrightarrow> live_view w v \<and> v \<notin> X" for v using same(3) unfolding set_eq_iff by (simp add: domIff)
  have ow: "owned w' h i v \<longleftrightarrow> owned w h i v \<and> v \<notin> X" for h i v
  proof (cases "w_groups w' h")
    case None
    with gone [OF None] show ?thesis by (auto simp: owned_def)
  next
    case (Some H')
    from groups [OF Some] obtain H where "w_groups w h = Some H" "coll_getItem (g_views H') =
        (\<lambda>i. case coll_getItem (g_views H) i of Some v \<Rightarrow> if v \<in> X then None else Some v | None \<Rightarrow> None)" by blast
    with Some show ?thesis by (auto simp: owned_def split: option.splits)
  qed
  then show "owned w' h i v \<longleftrightarrow> owned w h i v \<and> v \<notin> X" .
  show "owners_ok (DV - X) w'"
  proof (rule owners_okI, unfold live ow same(1,2))
    show "coll_ok (v_name w) (g_is_list H) (g_views H)" if "w_groups w' h = Some H" for h H using groups [OF that] by blast
    show "(live_view w v \<and> v \<notin> X) \<and> v \<notin> DV - X \<and> v_owner w' v = Some h \<and> v_index w' v = i" if "owned w h i v \<and> v \<notin> X" for h i v
      using that owners_okD(2) [OF ok, of h i v] same(4) by auto
    show "v < next_view w" if "live_view w v \<and> v \<notin> X" for v using that owners_okD(3) [OF ok] by blast
    show "\<exists>h. v_owner w' v = Some h \<and> owned w h (v_index w' v) v \<and> v \<notin> X" if v: "live_view w v \<and> v \<notin> X" "v \<notin> DV - X" for v
      using owners_okE [OF ok, of v] v same(4) by (metis DiffI)
    show "live_view w v \<and> v \<notin> X" if "v \<in> DV - X" for v using that owners_okD(5) [OF ok] by blast
  qed
qed

section \<open>Destroying groups and views\<close>

lemma store_inv_fold_destroy:
  "store_inv E s \<Longrightarrow> distinct vs \<Longrightarrow> set vs \<subseteq> dom (views s) \<Longrightarrow> store_inv E (fold View_destroy vs s)"
proof (induction vs arbitrary: s)
  case (Cons v vs)
  then obtain vw where "views s v = Some vw" by auto
  note inv = store_inv_View_destroy [OF Cons.prems(1) this]
  have "set vs \<subseteq> dom (views (View_destroy v s))" using Cons.prems(2,3) by auto
  with Cons.IH [OF inv] Cons.prems(2) show ?case by simp
qed simp

lemma views_below_live: "owners_ok DV w \<Longrightarrow> views_below w S \<subseteq> dom (views (w_store w)) - DV"
  by (auto simp: views_below_def owners_okD(2))

lemma subtree_no_root:
  assumes "group_links D w" and "d \<in> insert root D" and "d \<in> subtree w c"
  shows "d = c"
proof (rule ccontr)
  assume "d \<noteq> c"
  moreover have "(c, d) \<in> (childrel w)\<^sup>*" using assms(3) by (simp add: subtree_def)
  ultimately obtain p where "(p, d) \<in> childrel w" by (metis rtranclE)
  with no_parent_root [OF assms(1,2)] show False by blast
qed

lemma map_case_id: "\<forall>i c. m i = Some c \<longrightarrow> c \<notin> S \<Longrightarrow> (\<lambda>i. case m i of Some c \<Rightarrow> if c \<in> S then None else Some c | None \<Rightarrow> None) = m"
  by (auto simp: fun_eq_iff split: option.splits)

lemma remove_tree_owners:
  assumes ok: "owners_ok DV w" and vs: "set vs = views_below w S"
  shows "owners_ok DV (remove_tree S vs w)" "owned (remove_tree S vs w) h i v \<longleftrightarrow> owned w h i v \<and> h \<notin> S"
proof -
  let ?w = "remove_tree S vs w"
  have disj: "DV - set vs = DV" using views_below_live [OF ok, of S] vs by blast
  have out: "v \<notin> set vs" if "owned w h i v" "h \<notin> S" for h i v
  proof
    assume "v \<in> set vs"
    then obtain k j where "k \<in> S" "owned w k j v" unfolding vs views_below_def by blast
    with owned_unique [OF ok that(1)] that(2) show False by blast
  qed
  have "\<exists>H0. w_groups w h = Some H0 \<and> coll_ok (v_name w) (g_is_list H) (g_views H) \<and>
      coll_getItem (g_views H) = (\<lambda>i. case coll_getItem (g_views H0) i of Some v \<Rightarrow> if v \<in> set vs then None else Some v | None \<Rightarrow> None)"
    if H: "w_groups ?w h = Some H" for h H
  proof -
    have h: "h \<notin> S" "w_groups w h = Some H" using H by (auto split: if_splits)
    then have "\<forall>i v. coll_getItem (g_views H) i = Some v \<longrightarrow> v \<notin> set vs" using out by (auto simp: owned_def)
    from map_case_id [OF this] h(2) owners_okD(1) [OF ok h(2)] show ?thesis by auto
  qed
  moreover have "v \<in> set vs" if "w_groups ?w h = None" "owned w h i v" for h i v
    using that vs by (auto simp: views_below_def owned_def split: if_splits)
  ultimately have *: "owners_ok (DV - set vs) ?w" "owned ?w h i v \<longleftrightarrow> owned w h i v \<and> v \<notin> set vs" for h i v
    using owners_ok_prune [OF ok, of ?w "set vs"] by auto
  then show "owners_ok DV ?w" using disj by simp
  show "owned ?w h i v \<longleftrightarrow> owned w h i v \<and> h \<notin> S" using *(2) [of h i v] out [of h i v] vs by (auto simp: views_below_def)
qed

text \<open>Deleting a detached group.\<close>

lemma delete_detached:
  assumes inv: "forest_inv D DV w" and c: "c \<in> D"
  shows "\<exists>vs. delete_group_ptr (Some c) w = Inr (remove_tree (subtree w c) vs w) \<and> distinct vs \<and>
    set vs = views_below w (subtree w c) \<and> forest_inv (D - {c}) DV (remove_tree (subtree w c) vs w)"
proof -
  note ok = forest_invD [OF inv] and t = tree_okD [OF forest_invD(1) [OF inv]]
  have live: "w_groups w c \<noteq> None" "c \<noteq> root" using t(2) c by (auto simp: group_links_def)
  let ?S = "subtree w c"
  obtain vs where vs: "delete_group (next_group w) w c = Inr (remove_tree ?S vs w)" "distinct vs" "set vs = views_below w ?S"
    using delete_group_effect [OF forest_inv_deletable [OF inv live(1)]] by blast
  have DS: "D - ?S = D - {c}" using subtree_no_root [OF t(2), of _ c] by auto
  have out: "x \<notin> ?S" if "child w h i x" "h \<notin> ?S" for h i x
  proof
    assume "x \<in> ?S"
    then have cx: "(c, x) \<in> (childrel w)\<^sup>*" by (simp add: subtree_def)
    have hx: "(h, x) \<in> childrel w" using \<open>child w h i x\<close> by (auto simp: childrel_def)
    have "x \<noteq> c" using no_parent_root [OF t(2)] c hx by blast
    with cx obtain p where "(c, p) \<in> (childrel w)\<^sup>*" "(p, x) \<in> childrel w" by (metis rtranclE)
    with unique_parent_rel [OF t(2) hx] \<open>h \<notin> ?S\<close> show False by (auto simp: subtree_def)
  qed
  have "tree_ok (D - ?S) (remove_tree ?S vs w)"
  proof (rule tree_ok_prune(1) [OF ok(1)])
    show "root \<notin> ?S" using subtree_no_root [OF t(2), of root c] live(2) by blast
    show "x \<in> ?S" if "h \<in> ?S" "child w h i x" for h i x by (rule subtree_closed [OF that])
    show "\<exists>H'. w_groups (remove_tree ?S vs w) h = Some H' \<and> g_name H' = g_name H \<and> g_index H' = g_index H \<and> g_parent H' = g_parent H \<and>
        g_is_list H' = g_is_list H \<and> coll_ok (group_name w) (g_is_list H) (g_groups H') \<and>
        coll_getItem (g_groups H') = (\<lambda>i. case coll_getItem (g_groups H) i of Some c \<Rightarrow> if c \<in> ?S then None else Some c | None \<Rightarrow> None)"
      if "h \<notin> ?S" "w_groups w h = Some H" for h H
    proof -
      have "\<forall>i x. coll_getItem (g_groups H) i = Some x \<longrightarrow> x \<notin> ?S" using out that by (auto simp: child_def)
      from map_case_id [OF this] groups_okD(2) [OF t(1) that(2)] that show ?thesis by simp
    qed
  qed auto
  then have "forest_inv (D - {c}) DV (remove_tree ?S vs w)"
    using remove_tree_owners(1) [OF ok(2) vs(3)] DS by (simp add: forest_inv_def)
  with vs show ?thesis by (auto simp: delete_group_ptr_def)
qed

end
