(* ===== verification/SidreMachine.thy ===== *)
theory SidreMachine
  imports SidreInvariant
begin

text \<open>
  The data store as a state machine: every public operation on views, buffers and the
  buffer table is a step, with the liveness of its arguments as guard; the invariant holds in
  every reachable store. Two operations have a further guard without which they break the
  invariant, which is proved at the end: reallocating a buffer directly while a view shows its
  data, and importing an array into a view that has a buffer.
\<close>

section \<open>Steps\<close>

inductive store_step :: "('d, 'n) env \<Rightarrow> ('d, 'n) store \<Rightarrow> ('d, 'n) store \<Rightarrow> bool" for E where
  step_view_create: "views s v = None \<Longrightarrow> store_step E s (View_create E v s)"
| step_view_destroy: "views s v = Some vw \<Longrightarrow> store_step E s (View_destroy v s)"
| step_allocate: "views s v = Some vw \<Longrightarrow> store_step E s (View_allocate E v s)"
| step_allocate_typed: "views s v = Some vw \<Longrightarrow> store_step E s (View_allocate_typed E v type n s)"
| step_allocate_shape: "views s v = Some vw \<Longrightarrow> store_step E s (View_allocate_shape E v type ndims shape s)"
| step_allocate_dtype: "views s v = Some vw \<Longrightarrow> store_step E s (View_allocate_dtype E v d s)"
| step_reallocate: "views s v = Some vw \<Longrightarrow> store_step E s (View_reallocate E v n s)"
| step_reallocate_dtype: "views s v = Some vw \<Longrightarrow> store_step E s (View_reallocate_dtype E v d s)"
| step_deallocate: "views s v = Some vw \<Longrightarrow> store_step E s (View_deallocate E v s)"
| step_apply: "views s v = Some vw \<Longrightarrow> store_step E s (View_apply E v s)"
| step_apply_dtype: "views s v = Some vw \<Longrightarrow> store_step E s (View_apply_dtype E v d s)"
| step_apply_elems: "views s v = Some vw \<Longrightarrow> View_isDescribed E vw \<or> View_hasBuffer vw \<Longrightarrow>
    store_step E s (View_apply_elems E v n off str s)"
| step_apply_typed: "views s v = Some vw \<Longrightarrow> store_step E s (View_apply_typed E v type n off str s)"
| step_apply_shape: "views s v = Some vw \<Longrightarrow> store_step E s (View_apply_shape E v type ndims shape s)"
| step_attach: "views s v = Some vw \<Longrightarrow> (\<forall>b. buff = Some b \<longrightarrow> buffers s b \<noteq> None) \<Longrightarrow>
    store_step E s (View_attachBuffer E v buff s)"
| step_attach_typed: "views s v = Some vw \<Longrightarrow> (\<forall>b. buff = Some b \<longrightarrow> buffers s b \<noteq> None) \<Longrightarrow>
    store_step E s (View_attachBuffer_typed E v type n buff s)"
| step_attach_shape: "views s v = Some vw \<Longrightarrow> (\<forall>b. buff = Some b \<longrightarrow> buffers s b \<noteq> None) \<Longrightarrow>
    store_step E s (View_attachBuffer_shape E v type ndims shape buff s)"
| step_detach: "views s v = Some vw \<Longrightarrow> store_step E s (fst (View_detachBuffer v s))"
| step_external: "views s v = Some vw \<Longrightarrow> store_step E s (View_setExternalDataPtr E v p s)"
| step_external_typed: "views s v = Some vw \<Longrightarrow> store_step E s (View_setExternalDataPtr_typed E v type n p s)"
| step_external_shape: "views s v = Some vw \<Longrightarrow>
    store_step E s (View_setExternalDataPtr_shape E v type ndims shape p s)"
| step_scalar: "views s v = Some vw \<Longrightarrow> store_step E s (View_setScalar E v value s)"
| step_string: "views s v = Some vw \<Longrightarrow> store_step E s (View_setString E v str s)"
| step_clear: "views s v = Some vw \<Longrightarrow> store_step E s (View_clear E v s)"
| step_copy: "views s v = Some vw \<Longrightarrow> views s c = Some cw \<Longrightarrow> v_state cw = EMPTY \<Longrightarrow>
    store_step E s (View_copyView E v c s)"
| step_import_array: "views s v = Some vw \<Longrightarrow> v_state vw \<noteq> BUFFER \<Longrightarrow>
    store_step E s (View_importArrayNode E v is_number d s)"
| step_create_buffer: "DataStore_createBuffer E s = (t, b) \<Longrightarrow> store_step E s t"
| step_create_buffer_typed: "DataStore_createBuffer_typed E type n s = (t, b) \<Longrightarrow> store_step E s t"
| step_destroy_buffer: "(\<forall>b. buff = Some b \<longrightarrow> buffers s b \<noteq> None) \<Longrightarrow> store_step E s (DataStore_destroyBuffer buff s)"
| step_destroy_buffer_at: "store_step E s (DataStore_destroyBuffer_at idx s)"
| step_buffer_describe: "buffers s b = Some bf \<Longrightarrow> store_step E s (Buffer_describe E b type n s)"
| step_buffer_allocate: "buffers s b = Some bf \<Longrightarrow> store_step E s (Buffer_allocate E b s)"
| step_buffer_allocate_typed: "buffers s b = Some bf \<Longrightarrow> store_step E s (Buffer_allocate_typed E b type n s)"
| step_buffer_deallocate: "buffers s b = Some bf \<Longrightarrow> store_step E s (Buffer_deallocate b s)"
| step_buffer_reallocate: "buffers s b = Some bf \<Longrightarrow> unapplied s b \<Longrightarrow> store_step E s (Buffer_reallocate E b n s)"

inductive reachable_store :: "('d, 'n) env \<Rightarrow> ('d, 'n) store \<Rightarrow> bool" for E where
  reach_new: "reachable_store E DataStore_new"
| reach_step: "reachable_store E s \<Longrightarrow> store_step E s t \<Longrightarrow> reachable_store E t"

section \<open>The invariant holds in every reachable store\<close>

lemma store_inv_destroyBuffer_opt:
  assumes "store_inv E s" and "\<forall>b. buff = Some b \<longrightarrow> buffers s b \<noteq> None"
  shows "store_inv E (DataStore_destroyBuffer buff s)"
proof (cases buff)
  case None
  with assms show ?thesis by (simp add: DataStore_destroyBuffer_def)
next
  case (Some b)
  with assms obtain bf where "buffers s b = Some bf" by auto
  with Some store_inv_destroyBuffer [OF assms(1)] show ?thesis by simp
qed

lemma store_inv_destroyBuffer_at:
  assumes "store_inv E s"
  shows "store_inv E (DataStore_destroyBuffer_at idx s)"
  unfolding DataStore_destroyBuffer_at_def
proof (rule store_inv_destroyBuffer_opt [OF assms], intro allI impI)
  fix b assume "DataStore_getBuffer s idx = Some b"
  then show "buffers s b \<noteq> None"
    using assms unfolding store_inv_def table_ok_def DataStore_getBuffer_def by auto
qed

lemma store_inv_View_detachBuffer:
  assumes "store_inv E s" and "views s v = Some vw"
  shows "store_inv E (fst (View_detachBuffer v s))"
proof (cases "v_data_buffer vw")
  case None
  with assms store_inv_view_ok [OF assms] show ?thesis by (simp add: View_detachBuffer_def view_ok_def)
next
  case (Some b)
  with assms store_inv_detach(1) [OF assms Some] show ?thesis by (simp add: View_detachBuffer_def)
qed

lemma store_inv_createBuffer_typed:
  assumes "store_inv E s" and "DataStore_createBuffer_typed E type n s = (t, b)"
  shows "store_inv E t"
proof -
  obtain t' where c: "DataStore_createBuffer E s = (t', b)" "t = Buffer_describe E b type n t'"
    using assms(2) by (auto simp: DataStore_createBuffer_typed_def split: prod.splits)
  note cr = store_inv_createBuffer [OF assms(1) c(1)]
  with c(2) store_inv_Buffer_describe [OF cr(1)] show ?thesis by auto
qed

lemmas store_inv_ops = store_inv_View_create store_inv_View_destroy store_inv_View_allocate
  store_inv_View_allocate_variants store_inv_View_reallocate store_inv_View_deallocate
  store_inv_apply store_inv_View_apply_variants store_inv_View_detachBuffer
  store_inv_View_setExternalDataPtr store_inv_View_setExternal_variants store_inv_View_setScalar
  View_clear_spec(1) store_inv_View_copyView store_inv_View_importArrayNode
  store_inv_createBuffer(1) store_inv_createBuffer_typed store_inv_destroyBuffer_opt store_inv_destroyBuffer_at
  store_inv_Buffer_describe store_inv_Buffer_allocate store_inv_Buffer_allocate_typed
  store_inv_Buffer_deallocate store_inv_Buffer_reallocate

lemma store_inv_step:
  assumes "store_step E s t" and "store_inv E s" and "env_laws E"
  shows "store_inv E t"
  using assms
proof (induction rule: store_step.induct)
  case (step_attach s v vw buff)
  then show ?case by (auto intro: store_inv_View_attachBuffer)
next
  case (step_attach_typed s v vw buff type n)
  then show ?case by (auto intro: store_inv_View_attachBuffer_variants)
next
  case (step_attach_shape s v vw buff type ndims shape)
  then show ?case by (auto intro: store_inv_View_attachBuffer_variants)
qed (auto intro: store_inv_ops)

lemma reachable_inv:
  assumes "reachable_store E s" and "env_laws E"
  shows "store_inv E s"
  using assms by (induction rule: reachable_store.induct) (auto intro: store_inv_new store_inv_step)

section \<open>Conduit types for arrays\<close>

text \<open>
  What an allocation needs of a type id: describing \<open>n\<close> elements of it gives a data type that
  has this id and this many elements, and a non-negative size.
\<close>

definition array_type :: "('d, 'n) env \<Rightarrow> int \<Rightarrow> bool" where
  "array_type E type \<longleftrightarrow>
     type \<noteq> no_type_id E \<and> \<not> is_empty E (default_dtype E type) \<and>
     (\<forall>n\<ge>0. dtype_id E (set_number_of_elements E (default_dtype E type) n) = type \<and>
            number_of_elements E (set_number_of_elements E (default_dtype E type) n) = n \<and>
            0 \<le> strided_bytes E (set_number_of_elements E (default_dtype E type) n))"

text \<open>
  A concrete instance: the type of an array is its type id, its number of elements, and its offset and stride in bytes, as in Conduit;
  elements take eight bytes, characters (type id 21) one. The bytes of an array reach from its first to its last element.
\<close>

type_synonym sample_dtype = "int \<times> int \<times> int \<times> int"

definition sample_element_bytes :: "int \<Rightarrow> int" where
  "sample_element_bytes type = (if type = 21 then 1 else 8)"

definition sample_strided_bytes :: "sample_dtype \<Rightarrow> int" where
  "sample_strided_bytes = (\<lambda>(type, n, offset, stride). if type = 0 then 0 else stride * (n - 1) + sample_element_bytes type)"

definition sample_env :: "(sample_dtype, int) env" where
  "sample_env =
     \<lparr>empty_dtype = (0, 0, 0, 0), is_empty = (\<lambda>(type, n, offset, stride). type = 0), dtype_id = fst, number_of_elements = (\<lambda>d. fst (snd d)),
      strided_bytes = sample_strided_bytes, total_strided_bytes = sample_strided_bytes, element_bytes = (\<lambda>d. sample_element_bytes (fst d)),
      default_dtype = (\<lambda>t. (t, 0, 0, sample_element_bytes t)), set_number_of_elements = (\<lambda>(type, n, offset, stride) m. (type, m, offset, stride)),
      set_offset = (\<lambda>(type, n, offset, stride) m. (type, n, m, stride)), set_stride = (\<lambda>(type, n, offset, stride) m. (type, n, offset, m)),
      value_dtype = (\<lambda>v. (4, 1, 0, 8)), string_dtype = (\<lambda>str. (21, int (length str), 0, 1)), no_type_id = 0, mem_ok = (\<lambda>n. True)\<rparr>"

lemma sample_env_laws: "env_laws sample_env" "array_type sample_env 4"
  by (auto simp: env_laws_def array_type_def sample_env_def sample_strided_bytes_def sample_element_bytes_def)

definition sample_store :: "(sample_dtype, int) store" where
  "sample_store = View_allocate_typed sample_env 7 4 10 (View_create sample_env 7 DataStore_new)"

lemma sample_reachable: "reachable_store sample_env sample_store"
proof -
  have "reachable_store sample_env (View_create sample_env 7 DataStore_new)"
    by (rule reach_step [OF reach_new step_view_create]) (simp add: DataStore_new_def)
  then show ?thesis
    unfolding sample_store_def by (rule reach_step [OF _ step_allocate_typed]) (simp add: View_create_def)
qed

lemma sample_store_view:
  "views sample_store 7 = Some \<lparr>v_data_buffer = Some 0, v_schema = (4, 10, 0, 8), v_node = NodeExternal (4, 10, 0, 8) (Some 0),
     v_shape = [10], v_external_ptr = None, v_state = BUFFER, v_is_applied = True\<rparr>"
  "buffers sample_store 0 = Some \<lparr>b_index = 0, b_views = [7], b_dtype = (4, 10, 0, 8), b_data = Some 0\<rparr>"
  "live_blocks sample_store = [0]"
  by code_simp+

section \<open>What the data store guarantees\<close>

text \<open>
  C3. In every store reachable by public operations the pointers between views and buffers
  agree in both directions, every view's state matches what it holds, the table of buffers
  lists exactly the live buffers under their own index, and the allocated blocks are exactly the data of
  the buffers, each with one owner (no leak, no double ownership).
\<close>

theorem sidre_store_invariant:
  assumes "reachable_store E s" and "env_laws E"
  shows "(\<forall>b v. (\<exists>bf. buffers s b = Some bf \<and> v \<in> set (b_views bf)) \<longleftrightarrow>
                (\<exists>vw. views s v = Some vw \<and> v_data_buffer vw = Some b)) \<and>
         (\<forall>v vw. views s v = Some vw \<longrightarrow>
            (v_state vw = BUFFER \<longleftrightarrow> v_data_buffer vw \<noteq> None) \<and>
            (v_state vw = EXTERNAL \<longleftrightarrow> v_external_ptr vw \<noteq> None) \<and>
            (v_state vw = EMPTY \<longrightarrow> \<not> v_is_applied vw)) \<and>
         (\<forall>i b. DataStore_getBuffer s i = Some b \<longleftrightarrow> (\<exists>bf. buffers s b = Some bf \<and> b_index bf = i)) \<and>
         set (live_blocks s) = {p. \<exists>b bf. buffers s b = Some bf \<and> b_data bf = Some p} \<and>
         (\<forall>b b' bf bf' p. buffers s b = Some bf \<and> buffers s b' = Some bf' \<and>
            b_data bf = Some p \<and> b_data bf' = Some p \<longrightarrow> b = b')"
proof -
  have inv: "store_inv E s" by (rule reachable_inv [OF assms])
  have own: "owns (block_of s) (live_blocks s) (next_ptr s)" using inv by (simp add: store_inv_def memory_ok_def)
  have blk: "block_of s b = Some p \<longleftrightarrow> (\<exists>bf. buffers s b = Some bf \<and> b_data bf = Some p)" for b p
    by (auto simp: block_of_def bind_eq_Some_conv)
  have "set (live_blocks s) = {p. \<exists>b bf. buffers s b = Some bf \<and> b_data bf = Some p}"
    using own blk unfolding owns_def ran_def by simp
  moreover have "b = b'" if "block_of s b = Some p" "block_of s b' = Some p" for b b' p
    using own that unfolding owns_def inj_on_def by (metis domI)
  then have "\<forall>b b' bf bf' p. buffers s b = Some bf \<and> buffers s b' = Some bf' \<and>
      b_data bf = Some p \<and> b_data bf' = Some p \<longrightarrow> b = b'"
    using blk by blast
  moreover have "\<forall>v vw. views s v = Some vw \<longrightarrow>
            (v_state vw = BUFFER \<longleftrightarrow> v_data_buffer vw \<noteq> None) \<and>
            (v_state vw = EXTERNAL \<longleftrightarrow> v_external_ptr vw \<noteq> None) \<and>
            (v_state vw = EMPTY \<longrightarrow> \<not> v_is_applied vw)"
    using store_inv_view_ok [OF inv] unfolding view_ok_def by metis
  ultimately show ?thesis
    using inv unfolding store_inv_def links_ok_def table_ok_def DataStore_getBuffer_def by simp
qed

theorem sidre_store_invariant_witness:
  "reachable_store sample_env sample_store \<and> DataStore_getBuffer sample_store 0 = Some 0 \<and>
   set (live_blocks sample_store) = {p. \<exists>b bf. buffers sample_store b = Some bf \<and> b_data bf = Some p}"
  using sidre_store_invariant [OF sample_reachable sample_env_laws(1)] sample_reachable sample_store_view(2)
  by auto

text \<open>
  C16. No dangling data: in every store that the operations of buffers and views reach, where \<^verbatim>\<open>Buffer::reallocate\<close> is called on buffers
  without applied views only, whenever a buffer view returns a non-null data pointer, the pointer
  is the current block of the view's buffer, the block is allocated, and the number of bytes that the view describes is at most
  that of the buffer. The offset of the view is not counted on either side, as in \<^verbatim>\<open>isApplyValid\<close>: that an element
  behind an offset lies inside the block does not follow.
\<close>

theorem sidre_view_data_valid:
  assumes "reachable_store E s" and "env_laws E" and "views s v = Some vw" and "v_state vw = BUFFER"
    and "View_getVoidPtr vw = Addr p"
  shows "\<exists>b bf. v_data_buffer vw = Some b \<and> buffers s b = Some bf \<and> b_data bf = Some p \<and> p \<in> set (live_blocks s) \<and>
           0 \<le> View_getTotalBytes E vw \<and> View_getTotalBytes E vw \<le> Buffer_getTotalBytes E bf"
proof -
  have inv: "store_inv E s" by (rule reachable_inv [OF assms(1,2)])
  obtain b where b: "v_data_buffer vw = Some b"
    using store_inv_view_ok [OF inv assms(3)] assms(4) by (auto simp: view_ok_def)
  then obtain bf where bf: "buffers s b = Some bf" using store_inv_buffer_live [OF inv assms(3)] by blast
  have applied: "v_is_applied vw" and node: "node_data_ptr (v_node vw) = Addr p"
    using assms(4,5) by (auto simp: View_getVoidPtr_def split: if_splits)
  have "shows_buffer E bf vw" using store_inv_shows [OF inv assms(3) b applied] bf by simp
  then have "b_data bf = Some p" "0 \<le> View_getTotalBytes E vw" "View_getTotalBytes E vw \<le> Buffer_getTotalBytes E bf"
    using node by (auto simp: shows_buffer_def node_data_ptr_def ptr_of_def split: option.splits)
  moreover have "p \<in> set (live_blocks s)"
    using inv bf \<open>b_data bf = Some p\<close> unfolding store_inv_def memory_ok_def owns_def ran_def block_of_def
    by (auto intro!: exI [of _ b])
  ultimately show ?thesis using b bf by blast
qed

theorem sidre_view_data_valid_witness:
  "\<exists>vw bf. views sample_store 7 = Some vw \<and> View_getVoidPtr vw = Addr 0 \<and> buffers sample_store 0 = Some bf \<and>
     b_data bf = Some 0 \<and> View_getTotalBytes sample_env vw \<le> Buffer_getTotalBytes sample_env bf"
proof -
  let ?vw = "view sample_store 7"
  have vw: "views sample_store 7 = Some ?vw" "v_state ?vw = BUFFER" "View_getVoidPtr ?vw = Addr 0" "v_data_buffer ?vw = Some 0"
    using sample_store_view(1) by (auto simp: View_getVoidPtr_def node_data_ptr_def ptr_of_def)
  from sidre_view_data_valid [OF sample_reachable sample_env_laws(1) vw(1,2,3)] vw show ?thesis by auto
qed

text \<open>
  An offset is not counted: ten elements from the fifth on of a buffer of ten elements are applied, although they reach forty
  bytes beyond it.
\<close>

theorem sidre_offset_not_counted:
  "\<exists>vw. views (View_apply_elems sample_env 7 10 5 1 sample_store) 7 = Some vw \<and> v_is_applied vw \<and> View_getVoidPtr vw = Addr 0 \<and>
     v_schema vw = (4, 10, 40, 8) \<and> View_getTotalBytes sample_env vw = 80 \<and> Buffer_getTotalBytes sample_env (buffer sample_store 0) = 80"
proof -
  let ?s = "View_apply_elems sample_env 7 10 5 1 sample_store"
  have "views ?s 7 \<noteq> None" "v_is_applied (view ?s 7)" "View_getVoidPtr (view ?s 7) = Addr 0" "v_schema (view ?s 7) = (4, 10, 40, 8)"
    "View_getTotalBytes sample_env (view ?s 7) = 80" "Buffer_getTotalBytes sample_env (buffer sample_store 0) = 80" by code_simp+
  then show ?thesis by (metis option.collapse)
qed

text \<open>
  Allocating an empty view: \<^verbatim>\<open>allocate(type, n)\<close> creates a new buffer, attaches it,
  gives it a fresh block of exactly the described size and applies the description, and leaves every
  other view alone.
\<close>

theorem sidre_view_allocate_correct:
  assumes "store_inv E s" and "env_laws E" and "array_type E type" and "0 \<le> n"
    and "mem_ok E (strided_bytes E (set_number_of_elements E (default_dtype E type) n))"
    and "views s v = Some vw" and "v_state vw = EMPTY"
  shows "\<exists>b vw' bf'. views (View_allocate_typed E v type n s) = (views s)(v \<mapsto> vw') \<and> buffers s b = None \<and>
           v_data_buffer vw' = Some b \<and> v_state vw' = BUFFER \<and> v_is_applied vw' \<and> v_shape vw' = [n] \<and>
           buffers (View_allocate_typed E v type n s) = (buffers s)(b \<mapsto> bf') \<and> b_views bf' = [v] \<and>
           View_getVoidPtr vw' = Addr (next_ptr s) \<and> b_data bf' = Some (next_ptr s) \<and>
           next_ptr s \<notin> set (live_blocks s) \<and> View_getTotalBytes E vw' = Buffer_getTotalBytes E bf'"
proof -
  let ?d = "set_number_of_elements E (default_dtype E type) n"
  let ?vw = "describe E type n vw"
  define s1 where "s1 = upd_view v (describe E type n) s"
  have ty: "type \<noteq> no_type_id E" "dtype_id E ?d = type" "number_of_elements E ?d = n" "0 \<le> strided_bytes E ?d"
    "\<not> is_empty E ?d"
    using assms(2,3,4) by (auto simp: array_type_def env_lawsD)
  have inv1: "store_inv E s1" unfolding s1_def by (rule store_inv_describe [OF assms(1,6)]) simp
  have v1: "views s1 v = Some ?vw" using assms(6) by (simp add: s1_def)
  have d: "v_schema ?vw = ?d" "v_state ?vw = EMPTY" "v_shape ?vw = [n]"
    using ty assms(7) by (simp_all add: describe_def describe_dtype_def)
  obtain t b where c: "DataStore_createBuffer E s1 = (t, b)" by fastforce
  note cr = store_inv_createBuffer [OF inv1 c] and ce = createBuffer_eq [OF inv1 c]
  obtain i where bt: "buffers t = (buffers s1)(b \<mapsto> \<lparr>b_index = i, b_views = [], b_dtype = empty_dtype E, b_data = None\<rparr>)"
    using ce(5) by blast
  let ?bf = "\<lparr>b_index = i, b_views = [v], b_dtype = ?d, b_data = Some (next_ptr s)\<rparr>"
  let ?a = "Buffer_allocate_typed E b type n (link b v t)"
  have run: "View_allocate_typed E v type n s = View_apply E v ?a"
    using ty assms(4) v1 d c cr(4)
    by (simp add: View_allocate_typed_def View_allocate_def s1_def [symmetric] isAllocateValid_def
        View_isDescribed_def Let_def link_eq)
  have np: "next_ptr (link b v t) = next_ptr s" using ce(4) by (simp add: link_def s1_def)
  have ba: "buffers ?a = (buffers s)(b \<mapsto> ?bf)"
    using bt ty assms(4,5) np
    by (simp add: Buffer_allocate_typed_def Buffer_describe_def Buffer_allocate_def Buffer_isAllocated_def
        Buffer_isDescribed_def Buffer_getTotalBytes_def allocateBytes_def s1_def List.insert_def)
  let ?w = "?vw\<lparr>v_data_buffer := Some b, v_state := BUFFER\<rparr>"
  have va: "views ?a = (views s)(v \<mapsto> ?w)" using cr(4) v1 by (simp add: s1_def)
  have "isApplyValid E ?a ?w"
    using ba d ty assms(2) by (simp add: isApplyValid_def View_isDescribed_def View_getTotalBytes_def
        Buffer_getTotalBytes_def env_lawsD(2))
  then have ap: "View_apply E v ?a = upd_view v (\<lambda>vw. vw\<lparr>v_node := NodeExternal (v_schema vw) (Some (next_ptr s)), v_is_applied := True\<rparr>) ?a"
    using va ba by (simp add: View_apply_def)
  have fresh: "next_ptr s \<notin> set (live_blocks s)" using assms(1) by (auto simp: store_inv_def memory_ok_def owns_def)
  have bn: "buffers s b = None" using cr(2) by (simp add: s1_def)
  show ?thesis
    unfolding run ap
  proof (intro exI conjI)
    let ?x = "?w\<lparr>v_node := NodeExternal ?d (Some (next_ptr s)), v_is_applied := True\<rparr>"
    show "views (upd_view v (\<lambda>vw. vw\<lparr>v_node := NodeExternal (v_schema vw) (Some (next_ptr s)), v_is_applied := True\<rparr>) ?a) =
        (views s)(v \<mapsto> ?x)"
      unfolding upd_view_simps va using d by simp
    show "buffers (upd_view v (\<lambda>vw. vw\<lparr>v_node := NodeExternal (v_schema vw) (Some (next_ptr s)), v_is_applied := True\<rparr>) ?a) =
        (buffers s)(b \<mapsto> ?bf)"
      unfolding upd_view_simps by (rule ba)
    show "View_getTotalBytes E ?x = Buffer_getTotalBytes E ?bf"
      using d(1) assms(2) by (simp add: View_getTotalBytes_def Buffer_getTotalBytes_def env_lawsD(2))
  qed (use fresh bn d in \<open>simp_all add: View_getVoidPtr_def node_data_ptr_def ptr_of_def\<close>)
qed

theorem sidre_view_allocate_correct_witness:
  "\<exists>b vw' bf'. buffers (View_create sample_env 7 DataStore_new) b = None \<and>
     views (View_allocate_typed sample_env 7 4 10 (View_create sample_env 7 DataStore_new)) 7 = Some vw' \<and>
     v_is_applied vw' \<and> buffers (View_allocate_typed sample_env 7 4 10 (View_create sample_env 7 DataStore_new)) b = Some bf' \<and>
     b_views bf' = [7]"
proof -
  have inv: "store_inv sample_env (View_create sample_env 7 DataStore_new)"
    by (rule store_inv_View_create [OF store_inv_new]) (simp add: DataStore_new_def)
  have mem: "mem_ok sample_env (strided_bytes sample_env (set_number_of_elements sample_env (default_dtype sample_env 4) 10))"
    by (simp add: sample_env_def)
  have vw: "views (View_create sample_env 7 DataStore_new) 7 = Some (View_new sample_env)" "v_state (View_new sample_env) = EMPTY"
    by (simp_all add: View_create_def View_new_def)
  show ?thesis
    using sidre_view_allocate_correct [OF inv sample_env_laws _ mem vw] by fastforce
qed

text \<open>
  Destroying a buffer: exactly the views attached to it become empty and unapplied,
  keeping their descriptions; its block is released and its index is free again; all other views and
  buffers are unchanged.
\<close>

theorem sidre_destroy_buffer_correct:
  assumes "store_inv E s" and "buffers s b = Some bf"
  shows "store_inv E (DataStore_destroyBuffer (Some b) s) \<and>
         buffers (DataStore_destroyBuffer (Some b) s) = (buffers s)(b := None) \<and>
         DataStore_getBuffer (DataStore_destroyBuffer (Some b) s) (b_index bf) = None \<and>
         (\<forall>p. b_data bf = Some p \<longrightarrow> p \<notin> set (live_blocks (DataStore_destroyBuffer (Some b) s))) \<and>
         (\<forall>v vw. views s v = Some vw \<longrightarrow>
            (if v_data_buffer vw = Some b
             then views (DataStore_destroyBuffer (Some b) s) v =
                    Some (vw\<lparr>v_data_buffer := None, v_state := EMPTY, v_node := NodeReset, v_is_applied := False\<rparr>)
             else views (DataStore_destroyBuffer (Some b) s) v = Some vw))"
proof -
  note eq = destroyBuffer_eq [OF assms]
  have links: "links_ok s" and ic: "ic_inv (buffer_coll s)" using assms(1) by (auto simp: store_inv_def table_ok_def)
  have "DataStore_getBuffer (DataStore_destroyBuffer (Some b) s) (b_index bf) = None"
    using indexed.remove_item [OF ic, of "b_index bf"] unfolding DataStore_getBuffer_def eq(3) by auto
  with eq store_inv_destroyBuffer [OF assms] links_ok_views_of [OF links assms(2)] show ?thesis
    by (auto simp: setBufferViewToEmpty_def unapply_def)
qed

theorem sidre_destroy_buffer_correct_witness:
  "\<exists>vw. views (DataStore_destroyBuffer (Some 0) sample_store) 7 = Some vw \<and> v_state vw = EMPTY \<and>
     buffers (DataStore_destroyBuffer (Some 0) sample_store) 0 = None"
  using sidre_destroy_buffer_correct [OF reachable_inv [OF sample_reachable sample_env_laws(1)] sample_store_view(2)]
    sample_store_view(1)
  by auto

text \<open>
  \<^verbatim>\<open>View::clear()\<close> returns a view in any state to the undescribed empty state; if it
  held the last reference to a buffer, the buffer is destroyed.
\<close>

theorem sidre_view_clear_correct:
  assumes "store_inv E s" and "views s v = Some vw"
  shows "store_inv E (View_clear E v s) \<and>
         (\<exists>vw'. views (View_clear E v s) v = Some vw' \<and> v_state vw' = EMPTY \<and> v_data_buffer vw' = None \<and>
            v_external_ptr vw' = None \<and> v_schema vw' = empty_dtype E \<and> v_shape vw' = [] \<and> \<not> v_is_applied vw') \<and>
         (\<forall>b. v_data_buffer vw = Some b \<longrightarrow>
            (buffers (View_clear E v s) b = None \<longleftrightarrow> b_views (buffer s b) = [v]))"
proof -
  have "buffers (View_clear E v s) b = None \<longleftrightarrow> b_views (buffer s b) = [v]" if b: "v_data_buffer vw = Some b" for b
  proof -
    have st: "v_state vw = BUFFER" using store_inv_view_ok [OF assms] b by (simp add: view_ok_def)
    obtain bf where bf: "buffers s b = Some bf" "v \<in> set (b_views bf)"
      using store_inv_buffer_live [OF assms b] by blast
    have dist: "distinct (b_views bf)" using bf(1) assms(1) by (auto simp: store_inv_def links_ok_def)
    note det = store_inv_detach [OF assms b]
    let ?d = "Buffer_detachFromView b v s" and ?bf = "bf\<lparr>b_views := removeAll v (b_views bf)\<rparr>"
    have d: "buffers ?d b = Some ?bf" using bf(1) unfolding det(2) by simp
    have "buffers (View_clear E v s) b = (if removeAll v (b_views bf) = [] then None else Some ?bf)"
      using st assms(2) b d destroyBuffer_eq(2) [OF det(1) d]
      by (simp add: View_clear_def View_attachBuffer_def View_detachBuffer_def Buffer_getNumViews_def)
    moreover have "removeAll v (b_views bf) = [] \<longleftrightarrow> b_views bf = [v]"
      using bf(2) dist by (cases "b_views bf") (auto simp: removeAll_id split: if_splits)
    ultimately show ?thesis using bf(1) by simp
  qed
  with View_clear_spec [OF assms] show ?thesis by blast
qed

theorem sidre_view_clear_correct_witness:
  "buffers (View_clear sample_env 7 sample_store) 0 = None \<and>
   store_inv sample_env (View_clear sample_env 7 sample_store)"
  using sidre_view_clear_correct [OF reachable_inv [OF sample_reachable sample_env_laws(1)] sample_store_view(1)]
    sample_store_view(2)
  by simp

text \<open>
  \<^verbatim>\<open>Buffer::reallocate\<close> called on a buffer while a view shows its data leaves the view
  applied to the released block: the view still returns the old address, which is no longer
  allocated. (\<^verbatim>\<open>Buffer::deallocate\<close> un-applies the views; \<^verbatim>\<open>reallocate\<close> does not.)
\<close>

theorem sidre_buffer_reallocate_dangles:
  assumes "store_inv E s" and "env_laws E" and "views s v = Some vw" and "v_state vw = BUFFER" and "v_data_buffer vw = Some b"
    and "View_getVoidPtr vw = Addr p" and "buffers s b = Some bf" and "Buffer_isDescribed E bf" and "0 \<le> n"
    and "mem_ok E (strided_bytes E (set_number_of_elements E (b_dtype bf) n))"
  shows "views (Buffer_reallocate E b n s) v = Some vw \<and> p \<notin> set (live_blocks (Buffer_reallocate E b n s))"
proof -
  have applied: "v_is_applied vw" and node: "node_data_ptr (v_node vw) = Addr p"
    using assms(4,6) by (auto simp: View_getVoidPtr_def split: if_splits)
  have "shows_buffer E bf vw" using store_inv_shows [OF assms(1,3,5) applied] assms(7) by simp
  then have data: "b_data bf = Some p"
    using node by (auto simp: shows_buffer_def node_data_ptr_def ptr_of_def split: option.splits)
  have "block_of s b = Some p" using data assms(7) by (simp add: block_of_def)
  then have "p \<in> set (live_blocks s)" "p < next_ptr s"
    using assms(1) unfolding store_inv_def memory_ok_def owns_def by (auto simp: ranI)
  then have "p \<notin> set (live_blocks (Buffer_reallocate E b n s))"
    using Buffer_reallocate_eq [OF assms(2,7) store_inv_dtype [OF assms(1,7)], of n] assms(8-10) data
    by (simp add: Buffer_isDescribed_def allocateBytes_def)
  with assms(3) show ?thesis by simp
qed

theorem sidre_buffer_reallocate_dangles_witness:
  "store_inv sample_env sample_store \<and>
   (\<exists>vw. views (Buffer_reallocate sample_env 0 20 sample_store) 7 = Some vw \<and> View_getVoidPtr vw = Addr 0) \<and>
   0 \<notin> set (live_blocks (Buffer_reallocate sample_env 0 20 sample_store))"
proof -
  let ?vw = "view sample_store 7"
  have inv: "store_inv sample_env sample_store" by (rule reachable_inv [OF sample_reachable sample_env_laws(1)])
  have vw: "views sample_store 7 = Some ?vw" "v_state ?vw = BUFFER" "v_data_buffer ?vw = Some 0" "View_getVoidPtr ?vw = Addr 0"
    using sample_store_view(1) by (auto simp: View_getVoidPtr_def node_data_ptr_def ptr_of_def)
  have desc: "Buffer_isDescribed sample_env \<lparr>b_index = 0, b_views = [7], b_dtype = (4, 10, 0, 8), b_data = Some 0\<rparr>"
    and mem: "mem_ok sample_env n" for n
    by (simp_all add: Buffer_isDescribed_def sample_env_def)
  show ?thesis
    using sidre_buffer_reallocate_dangles [OF inv sample_env_laws(1) vw sample_store_view(2) desc, of 20] inv vw mem
    by fastforce
qed

text \<open>
  \<^verbatim>\<open>View::importArrayNode\<close> on a view that has a buffer empties the view without telling the
  buffer: afterwards the view is attached to a new buffer while the old buffer still lists it
  among its views, so the two directions of the link disagree.
\<close>

theorem sidre_import_array_breaks_links:
  assumes "store_inv E s" and "views s v = Some vw" and "v_data_buffer vw = Some b" and "dtype_id E d \<noteq> no_type_id E"
    and "0 \<le> number_of_elements E d"
  shows "v \<in> set (b_views (buffer (View_importArrayNode E v True d s) b)) \<and>
         v_data_buffer (view (View_importArrayNode E v True d s) v) \<noteq> Some b \<and>
         \<not> links_ok (View_importArrayNode E v True d s)"
proof -
  obtain bf where bf: "buffers s b = Some bf" "v \<in> set (b_views bf)" using store_inv_buffer_live [OF assms(1-3)] by blast
  have st: "v_state vw = BUFFER" using store_inv_view_ok [OF assms(1,2)] assms(3) by (simp add: view_ok_def)
  let ?e = "upd_view v setBufferViewToEmpty s"
  obtain t n where c: "DataStore_createBuffer E ?e = (t, n)" by fastforce
  have t: "n = next_buffer s" "views t = views ?e"
    using c by (auto simp: DataStore_createBuffer_def Let_def split_beta)
  have ne: "n \<noteq> b" using t(1) bf(1) assms(1) by (auto simp: store_inv_def table_ok_def)
  have tb: "buffers t b = Some bf"
    using c ne bf(1) by (auto simp: DataStore_createBuffer_def Let_def split_beta)
  let ?a = "Buffer_allocate_typed E n (dtype_id E d) (number_of_elements E d) t"
  have a: "buffers ?a b = Some bf" "views ?a v = Some (setBufferViewToEmpty vw)"
    using t tb ne assms(2)
    by (auto simp: Buffer_allocate_typed_def Buffer_allocate_def Buffer_describe_def Let_def split_beta)
  let ?l = "View_attachBuffer E v (Some n) ?a"
  have l: "buffers ?l b = Some bf" "\<exists>x. views ?l v = Some x \<and> v_data_buffer x = Some n"
    using a ne by (auto simp: View_attachBuffer_def Let_def link_eq View_apply_def)
  have run: "View_importArrayNode E v True d s = View_apply_typed E v (dtype_id E d) (number_of_elements E d) 0 1 ?l"
    using st c assms(2) by (simp add: View_importArrayNode_def Let_def)
  have f: "buffers (View_importArrayNode E v True d s) b = Some bf"
    "\<exists>x. views (View_importArrayNode E v True d s) v = Some x \<and> v_data_buffer x = Some n"
    unfolding run using l assms(4,5) by (auto simp: View_apply_typed_def View_apply_def Let_def)
  moreover from f(2) ne bf(2) have "\<not> links_ok (View_importArrayNode E v True d s)"
    using links_ok_views_of [OF _ f(1), of v] by auto
  ultimately show ?thesis using bf(2) ne by auto
qed

theorem sidre_import_array_breaks_links_witness:
  "store_inv sample_env sample_store \<and> \<not> links_ok (View_importArrayNode sample_env 7 True (4, 3, 0, 8) sample_store)"
  using sidre_import_array_breaks_links [OF reachable_inv [OF sample_reachable sample_env_laws(1)] sample_store_view(1), of 0 "(4, 3, 0, 8)"]
    reachable_inv [OF sample_reachable sample_env_laws(1)]
  by (simp add: sample_env_def)

text \<open>
  Setting an external pointer with a description on a scalar or string view is refused
  only after the description has been replaced: the view stays scalar or string but is no longer
  applied, against the documented rule that scalar and string views always are.
\<close>

theorem sidre_external_on_scalar_unapplies:
  assumes "views s v = Some vw" and "v_state vw = SCALAR \<or> v_state vw = STRING"
  shows "\<exists>vw'. views (View_setExternalDataPtr_typed E v type n p s) v = Some vw' \<and> v_state vw' = v_state vw \<and>
           \<not> v_is_applied vw' \<and> v_node vw' = v_node vw \<and>
           v_schema vw' = set_number_of_elements E (default_dtype E type) n"
  using assms
  by (auto simp: View_setExternalDataPtr_typed_def View_setExternalDataPtr_def describe_def describe_dtype_def)

theorem sidre_external_on_scalar_unapplies_witness:
  "\<exists>vw. views (View_setExternalDataPtr_typed sample_env 7 4 10 (Some 5)
       (View_setScalar sample_env 7 42 (View_create sample_env 7 DataStore_new))) 7 = Some vw \<and>
     v_state vw = SCALAR \<and> \<not> v_is_applied vw"
proof -
  let ?s = "View_setScalar sample_env 7 42 (View_create sample_env 7 DataStore_new)"
  have v: "views ?s 7 = Some (view ?s 7)" "v_state (view ?s 7) = SCALAR" by code_simp+
  from sidre_external_on_scalar_unapplies [OF v(1), of sample_env 4 10 "Some 5"] v show ?thesis by auto
qed

text \<open>The state names written by \<^verbatim>\<open>exportTo\<close> are read back by \<^verbatim>\<open>importFrom\<close> as the same state.\<close>

theorem sidre_state_name_roundtrip:
  "getStateId (getStateStringName st) = st"
  by (cases st) (simp_all add: getStateId_def getStateStringName_def)

end
