(* ===== verification/SidreWorld.thy ===== *)
theory SidreWorld
  imports SidreDelete SidreMachine
begin

text \<open>
  Every operation of \<^verbatim>\<open>Group\<close> keeps the invariant of the world: the tree of groups, the owners of
  the views and the store of buffers and view contents are consistent. Where a loop or a recursion is
  bounded in the model, the statements are about the calls that return; that the deletion of
  groups always returns is part of the lemmas on \<^verbatim>\<open>destroyGroup\<close> and \<^verbatim>\<open>destroyGroups\<close>.
\<close>

section \<open>The invariant of the world\<close>

definition world_ok :: "('d, 'n) env \<Rightarrow> group_id set \<Rightarrow> view_id set \<Rightarrow> ('d, 'n) world \<Rightarrow> bool" where
  "world_ok E D DV w \<longleftrightarrow> forest_inv D DV w \<and> store_inv E (w_store w)"

abbreviation world_inv :: "('d, 'n) env \<Rightarrow> ('d, 'n) world \<Rightarrow> bool" where
  "world_inv E \<equiv> world_ok E {} {}"

lemma world_okD:
  assumes "world_ok E D DV w"
  shows "forest_inv D DV w" "store_inv E (w_store w)" "tree_ok D w" "owners_ok DV w" "groups_ok w" "group_links D w"
  using assms by (auto simp: world_ok_def forest_inv_def tree_ok_def)

lemma forest_inv_store:
  assumes inv: "forest_inv D DV w" and dom: "dom (views s') = dom (views (w_store w)) - X" and X: "X \<subseteq> DV"
  shows "forest_inv D (DV - X) (w\<lparr>w_store := s'\<rparr>)"
proof -
  have "tree_fields (w\<lparr>w_store := s'\<rparr>) = tree_fields w" by (simp add: tree_fields_def fun_eq_iff)
  then have "tree_ok D (w\<lparr>w_store := s'\<rparr>)" by (rule tree_ok_fields) (simp_all add: forest_invD(1) [OF inv])
  with owners_ok_store [OF forest_invD(2) [OF inv] dom X] show ?thesis by (simp add: forest_inv_def)
qed

lemma world_ok_store:
  assumes "world_ok E D DV w" and "dom (views s') = dom (views (w_store w))" and "store_inv E s'"
  shows "world_ok E D DV (w\<lparr>w_store := s'\<rparr>)"
  using assms forest_inv_store [of D DV w s' "{}"] by (simp add: world_ok_def)

lemma world_ok_view_frame:
  assumes "world_ok E D DV w" and "view_frame w w'" and "owners_ok DV' w'"
  shows "world_ok E D DV' w'"
  using assms forest_inv_view_frame [of D DV w w' DV'] view_frame_fields(1) [OF assms(2)] by (simp add: world_ok_def)

lemma world_ok_tree_frame:
  assumes "world_ok E D DV w" and "tree_frame w w'" and "tree_ok D' w'"
  shows "world_ok E D' DV w'"
  using assms tree_frame_views [OF assms(2)] tree_frame_fields(1) [OF assms(2)] by (simp add: world_ok_def forest_inv_def)

text \<open>A detached view is destroyed.\<close>

lemma world_ok_View_destroy:
  assumes ok: "world_ok E D DV w" and v: "v \<in> DV"
  shows "world_ok E D (DV - {v}) (w\<lparr>w_store := View_destroy v (w_store w)\<rparr>)"
proof -
  obtain vw where "views (w_store w) v = Some vw" using owners_okD(5) [OF world_okD(4) [OF ok] v] by blast
  from store_inv_View_destroy [OF world_okD(2) [OF ok] this] forest_inv_store [OF world_okD(1) [OF ok], of _ "{v}"] v
  show ?thesis by (simp add: world_ok_def)
qed

definition outside :: "group_id set \<Rightarrow> ('d, 'n) world \<Rightarrow> ('d, 'n) world \<Rightarrow> bool" where
  "outside S w w' \<longleftrightarrow> (\<forall>h. h \<notin> S \<longrightarrow> w_groups w' h = w_groups w h)"

lemma world_ok_detachView:
  assumes ok: "world_ok E D DV w" and v: "owned w g i v"
  obtains w' where "detachView_at w g i = (w', Some v)" "world_ok E D (insert v DV) w'" "view_frame w w'" "v \<notin> DV"
    "owned w' = (\<lambda>h j u. owned w h j u \<and> u \<noteq> v)" "outside {g} w w'"
proof -
  obtain w' where w': "detachView_at w g i = (w', Some v)" "owners_ok (insert v DV) w'" "view_frame w w'"
    "owned w' = (\<lambda>h j u. owned w h j u \<and> u \<noteq> v)"
    "\<exists>G coll. w_groups w g = Some G \<and> coll_ok (v_name w) (g_is_list G) coll \<and>
       coll_getItem coll = (coll_getItem (g_views G))(i := None) \<and> w_groups w' = (w_groups w)(g \<mapsto> G\<lparr>g_views := coll\<rparr>)"
    by (rule detachView_at_effect [OF world_okD(4) [OF ok] v])
  moreover have "v \<notin> DV" using owners_okD(2) [OF world_okD(4) [OF ok]] v by blast
  moreover have "outside {g} w w'" using w'(5) by (auto simp: outside_def)
  ultimately show thesis using that world_ok_view_frame [OF ok w'(3,2)] by blast
qed

lemma world_ok_attachView:
  assumes ok: "world_ok E D DV w" and "v \<in> DV" and "w_groups w g = Some G" and "\<not> hasChildView w g (v_name w v)"
    and "g_is_list G \<or> v_name w v \<noteq> []"
  shows "world_ok E D (DV - {v}) (fst (attachView w g v))" and "view_frame w (fst (attachView w g v))"
proof -
  obtain w' where w': "attachView w g v = (w', Some v)" "owners_ok (DV - {v}) w'" "view_frame w w'"
    by (rule attachView_effect [OF world_okD(4) [OF ok] assms(2-5)])
  with world_ok_view_frame [OF ok w'(3,2)]
  show "world_ok E D (DV - {v}) (fst (attachView w g v))" "view_frame w (fst (attachView w g v))" by simp_all
qed

lemma destroyView_at_ok:
  assumes ok: "world_ok E D DV w" and G: "w_groups w g = Some G"
  shows "world_ok E D DV (destroyView_at w g i)"
proof (cases "coll_getItem (g_views G) i")
  case None
  with ok detachView_at_absent [OF G] show ?thesis by (simp add: destroyView_at_def delete_view_def)
next
  case (Some v)
  then have "owned w g i v" using G by (simp add: owned_def)
  then obtain w' where w': "detachView_at w g i = (w', Some v)" "world_ok E D (insert v DV) w'" "v \<notin> DV"
    by (rule world_ok_detachView [OF ok])
  from world_ok_View_destroy [OF w'(2) insertI1] w'(1,3) show ?thesis by (simp add: destroyView_at_def delete_view_def)
qed

text \<open>Detaching by name is detaching at the index of the name, in a group of the map format.\<close>

lemma detachView_cases:
  assumes ok: "owners_ok DV w" and G: "w_groups w g = Some G" and det: "detachView w g name = Inr r"
  obtains (absent) "r = (w, None)" "\<not> hasChildView w g name"
  | (found) i v where "owned w g i v" "v_name w v = name" "r = detachView_at w g i" "\<not> g_is_list G"
proof -
  have map: "\<not> g_is_list G"
    using det G owners_okD(1) [OF ok G] by (auto simp: detachView_def getNamedViews_def coll_ok_def split: coll.splits)
  show thesis
  proof (cases "hasChildView w g name")
    case False
    with detachView_named(2) [OF ok G map] det absent show thesis by auto
  next
    case True
    then obtain i v where "owned w g i v" "v_name w v = name" using hasChildView_iff(1) [OF ok G] by blast
    with detachView_named(1) [OF ok G map] det found map show thesis by auto
  qed
qed

lemma detachGroup_cases:
  assumes ok: "groups_ok w" and G: "w_groups w g = Some G" and det: "detachGroup w g name = Inr r"
  obtains (absent) "r = (w, None)" "\<not> hasChildGroup w g name"
  | (found) i c where "child w g i c" "group_name w c = name" "r = detachGroup_at w g i" "\<not> g_is_list G"
proof -
  have map: "\<not> g_is_list G"
    using det G groups_okD(2) [OF ok G] by (auto simp: detachGroup_def getNamedGroups_def coll_ok_def split: coll.splits)
  show thesis
  proof (cases "hasChildGroup w g name")
    case False
    with detachGroup_named(2) [OF ok G map] det absent show thesis by auto
  next
    case True
    then obtain i c where "child w g i c" "group_name w c = name" using hasChildGroup_iff(1) [OF ok G] by blast
    with detachGroup_named(1) [OF ok G map] det found map show thesis by auto
  qed
qed

lemma walkPath_False_live:
  assumes ok: "tree_ok D w" and g: "w_groups w g \<noteq> None" and walk: "walkPath w g path False = ((w', Some h), name)"
  shows "w_groups w h \<noteq> None"
proof -
  obtain r where r: "walk_parts w g (butlast (path_parts path)) False = (w, r)"
    "\<forall>h. r = Some h \<longleftrightarrow> resolves w g (butlast (path_parts path)) h"
    using walk_parts_False [OF ok g] by blast
  have "h = g \<or> resolves w g (butlast (path_parts path)) h"
    using walk r unfolding walkPath_def Let_def by (auto split: if_splits)
  with g resolves_live [OF _ tree_okD(2) [OF ok] g] show ?thesis by blast
qed

lemma destroyView_ok:
  assumes ok: "world_ok E D DV w" and g: "w_groups w g \<noteq> None" and des: "destroyView w g path = Inr w'"
  shows "world_ok E D DV w'"
proof -
  obtain w0 r name where walk: "walkPath w g path False = ((w0, r), name)" by (metis prod.exhaust)
  show ?thesis
  proof (cases r)
    case None
    with des walk ok show ?thesis by (simp add: destroyView_def)
  next
    case (Some h)
    obtain H where H: "w_groups w h = Some H" using walkPath_False_live [OF world_okD(3) [OF ok] g] walk Some by blast
    obtain r' where r': "detachView w h name = Inr r'" using des walk Some by (cases "detachView w h name") (auto simp: destroyView_def)
    from world_okD(4) [OF ok] H r' show ?thesis
    proof (cases rule: detachView_cases)
      case absent
      with des walk Some r' ok show ?thesis by (simp add: destroyView_def delete_view_def)
    next
      case (found i v)
      then have "w' = destroyView_at w h i" using des walk Some r' by (simp add: destroyView_def destroyView_at_def split: prod.splits)
      with destroyView_at_ok [OF ok H] show ?thesis by simp
    qed
  qed
qed

section \<open>Operations that destroy\<close>

text \<open>An empty collection may be replaced by another empty one.\<close>

lemma clear_views_ok:
  assumes ok: "world_ok E D DV w" and G: "w_groups w g = Some G" and none: "\<And>i v. \<not> owned w g i v"
    and coll: "coll_ok (v_name w) (g_is_list G) coll" "coll_getItem coll = Map.empty"
  shows "world_ok E D DV (upd_group g (\<lambda>_. G\<lparr>g_views := coll\<rparr>) w)" (is "world_ok E D DV ?w")
proof -
  have tf: "tree_fields ?w = tree_fields w" using G by (simp add: tree_fields_def fun_eq_iff)
  have "tree_ok D ?w" by (rule tree_ok_fields [OF tf _ world_okD(3) [OF ok]]) simp
  moreover have "owners_ok (DV - {}) ?w"
  proof (rule owners_ok_prune(1) [OF world_okD(4) [OF ok]])
    show "\<exists>H0. w_groups w h = Some H0 \<and> coll_ok (v_name w) (g_is_list H) (g_views H) \<and>
        coll_getItem (g_views H) = (\<lambda>i. case coll_getItem (g_views H0) i of Some v \<Rightarrow> if v \<in> {} then None else Some v | None \<Rightarrow> None)"
      if "w_groups ?w h = Some H" for h H
    proof (cases "h = g")
      case True
      have "coll_getItem (g_views G) i = None" for i using none [of i] G by (cases "coll_getItem (g_views G) i") (auto simp: owned_def)
      with True that G coll show ?thesis by (auto simp: fun_eq_iff)
    next
      case False
      with that owners_okD(1) [OF world_okD(4) [OF ok], of h H] show ?thesis by (auto simp: fun_eq_iff split: option.splits)
    qed
  qed (auto simp: owned_def split: if_splits)
  ultimately show ?thesis using world_okD(2) [OF ok] by (simp add: world_ok_def forest_inv_def)
qed

lemma clear_groups_ok:
  assumes ok: "world_ok E D DV w" and G: "w_groups w g = Some G" and none: "\<And>i c. \<not> child w g i c"
    and coll: "coll_ok (group_name w) (g_is_list G) coll" "coll_getItem coll = Map.empty"
  shows "world_ok E D DV (upd_group g (\<lambda>_. G\<lparr>g_groups := coll\<rparr>) w)" (is "world_ok E D DV ?w")
proof -
  have vf: "view_fields ?w = view_fields w" using G by (simp add: view_fields_def fun_eq_iff)
  have "owners_ok DV ?w" by (rule owners_ok_fields [OF vf _ _ _ _ _ world_okD(4) [OF ok]]) simp_all
  moreover have "tree_ok (D - {}) ?w"
  proof (rule tree_ok_prune(1) [OF world_okD(3) [OF ok]])
    show "\<exists>H'. w_groups ?w h = Some H' \<and> g_name H' = g_name H \<and> g_index H' = g_index H \<and> g_parent H' = g_parent H \<and>
        g_is_list H' = g_is_list H \<and> coll_ok (group_name w) (g_is_list H) (g_groups H') \<and>
        coll_getItem (g_groups H') = (\<lambda>i. case coll_getItem (g_groups H) i of Some c \<Rightarrow> if c \<in> {} then None else Some c | None \<Rightarrow> None)"
      if "h \<notin> {}" "w_groups w h = Some H" for h H
    proof (cases "h = g")
      case True
      have "coll_getItem (g_groups G) i = None" for i using none [of i] G by (cases "coll_getItem (g_groups G) i") (auto simp: child_def)
      with True that G coll show ?thesis by (auto simp: fun_eq_iff)
    next
      case False
      with that groups_okD(2) [OF world_okD(5) [OF ok], of h H] show ?thesis by (auto simp: fun_eq_iff split: option.splits)
    qed
  qed (auto simp: G)
  ultimately show ?thesis using world_okD(2) [OF ok] by (simp add: world_ok_def forest_inv_def)
qed

text \<open>
  A loop over indices that shrinks the collection: the next index is the least one left, so the
  collection is empty when the loop ends. This needs no bound on the number of iterations.
\<close>

lemma index_loop_partial:
  assumes step: "\<And>i w w'. i \<noteq> InvalidIndex \<Longrightarrow> P i w \<Longrightarrow> body w i = Inr w' \<Longrightarrow> P (nxt w' i) w'"
  shows "P i w \<Longrightarrow> index_loop fuel nxt body i w = Inr w' \<Longrightarrow> P InvalidIndex w'"
proof (induction fuel arbitrary: i w)
  case (Suc fuel)
  show ?case
  proof (cases "i = InvalidIndex")
    case False
    then obtain w1 where w1: "body w i = Inr w1" "index_loop fuel nxt body (nxt w1 i) w1 = Inr w'"
      using Suc.prems(2) by (cases "body w i") auto
    show ?thesis by (rule Suc.IH [OF step [OF False Suc.prems(1) w1(1)] w1(2)])
  qed (use Suc.prems in simp)
qed (auto split: if_splits)

definition rest_from :: "int \<Rightarrow> (int \<Rightarrow> 'a option) \<Rightarrow> bool" where
  "rest_from i m \<longleftrightarrow> (if i = InvalidIndex then m = Map.empty else 0 \<le> i \<and> (\<forall>j\<in>dom m. i \<le> j))"

lemma rest_from_Min:
  assumes fin: "finite (dom m)" and ne: "dom m \<noteq> {}" and pos: "\<And>i. i \<in> dom m \<Longrightarrow> 0 \<le> i"
  shows "rest_from (Min (dom m)) m"
proof -
  have "0 \<le> Min (dom m)" by (rule pos [OF Min_in [OF fin ne]])
  then have "Min (dom m) \<noteq> InvalidIndex" by simp
  with \<open>0 \<le> Min (dom m)\<close> Min_le [OF fin] show ?thesis unfolding rest_from_def by auto
qed

lemma rest_from_first:
  assumes "coll_inv name_of c"
  shows "rest_from (coll_first c) (coll_getItem c)"
proof (cases "dom (coll_getItem c) = {}")
  case True
  then show ?thesis using anycoll.first_index [OF assms] by (simp add: rest_from_def least_above_def)
next
  case False
  let ?A = "dom (coll_getItem c)"
  note fin = anycoll.items_finite [OF assms] and pos = anycoll.items_nonneg [OF assms]
  have eq: "{j \<in> ?A. - 1 < j} = ?A" using pos by fastforce
  have "coll_first c = Min ?A" using anycoll.first_index [OF assms] False eq unfolding least_above_def by auto
  with rest_from_Min [OF fin False pos] show ?thesis by simp
qed

lemma rest_from_next:
  assumes "coll_inv name_of c" and "0 \<le> i" and "\<forall>j\<in>dom (coll_getItem c). i < j"
  shows "rest_from (coll_next c i) (coll_getItem c)"
proof (cases "dom (coll_getItem c) = {}")
  case True
  then show ?thesis using anycoll.next_index [OF assms(1,2)] by (simp add: rest_from_def least_above_def)
next
  case False
  let ?A = "dom (coll_getItem c)"
  note fin = anycoll.items_finite [OF assms(1)] and pos = anycoll.items_nonneg [OF assms(1)]
  have eq: "{j \<in> ?A. i < j} = ?A" using assms(3) by auto
  have "coll_next c i = Min ?A" using anycoll.next_index [OF assms(1,2)] False eq unfolding least_above_def by auto
  with rest_from_Min [OF fin False pos] show ?thesis by simp
qed

lemma for_views_shrinks:
  assumes ok: "world_ok E D DV w" and G: "w_groups w g = Some G" and run: "for_views w g body = Inr w'" and Q: "Q w"
    and step: "\<And>w i w' G. world_ok E D DV w \<Longrightarrow> Q w \<Longrightarrow> w_groups w g = Some G \<Longrightarrow> body w i = Inr w' \<Longrightarrow>
      world_ok E D DV w' \<and> Q w' \<and> (\<exists>G'. w_groups w' g = Some G' \<and> coll_getItem (g_views G') = (coll_getItem (g_views G))(i := None))"
  shows "world_ok E D DV (upd_group g (\<lambda>G. G\<lparr>g_views := coll_removeAllItems (g_views G)\<rparr>) w') \<and> Q w'"
proof -
  let ?P = "\<lambda>i w. world_ok E D DV w \<and> Q w \<and> (\<exists>G. w_groups w g = Some G \<and> rest_from i (coll_getItem (g_views G)))"
  have "?P InvalidIndex w'"
  proof (rule index_loop_partial [where P = ?P])
    show "index_loop (length (coll_items (g_views (grp w g)))) (\<lambda>w. coll_next (g_views (grp w g))) body
        (coll_first (g_views (grp w g))) w = Inr w'" using run by (simp add: for_views_def)
    show "?P (coll_first (g_views (grp w g))) w"
      using ok Q G rest_from_first [OF coll_ok_inv [OF owners_okD(1) [OF world_okD(4) [OF ok] G]]] by simp
    fix i w1 w2 assume i: "i \<noteq> InvalidIndex" and P: "?P i w1" and b: "body w1 i = Inr w2"
    from P obtain G1 where G1: "world_ok E D DV w1" "Q w1" "w_groups w1 g = Some G1" "rest_from i (coll_getItem (g_views G1))" by blast
    obtain G2 where G2: "world_ok E D DV w2" "Q w2" "w_groups w2 g = Some G2" "coll_getItem (g_views G2) = (coll_getItem (g_views G1))(i := None)"
      using step [OF G1(1-3) b] by blast
    have "0 \<le> i" "\<forall>j\<in>dom (coll_getItem (g_views G2)). i < j" using G1(4) i G2(4) by (auto simp: rest_from_def order_less_le)
    with rest_from_next [OF coll_ok_inv [OF owners_okD(1) [OF world_okD(4) [OF G2(1)] G2(3)]]] G2(1-3)
    show "?P (coll_next (g_views (grp w2 g)) i) w2" by simp
  qed
  then obtain G' where G': "world_ok E D DV w'" "Q w'" "w_groups w' g = Some G'" "coll_getItem (g_views G') = Map.empty" by (auto simp: rest_from_def)
  have eq: "upd_group g (\<lambda>G. G\<lparr>g_views := coll_removeAllItems (g_views G)\<rparr>) w' = upd_group g (\<lambda>_. G'\<lparr>g_views := coll_removeAllItems (g_views G')\<rparr>) w'"
    using G'(3) by (simp add: upd_group_def)
  have none: "\<not> owned w' g i v" for i v using G'(3,4) by (simp add: owned_def)
  show ?thesis
    unfolding eq using clear_views_ok [OF G'(1,3) none coll_ok_removeAll [OF owners_okD(1) [OF world_okD(4) [OF G'(1)] G'(3)]]] G'(2) by blast
qed

lemma for_groups_shrinks:
  assumes ok: "world_ok E D DV w" and G: "w_groups w g = Some G" and run: "for_groups w g body = Inr w'" and Q: "Q w"
    and step: "\<And>w i w' G. world_ok E D DV w \<Longrightarrow> Q w \<Longrightarrow> w_groups w g = Some G \<Longrightarrow> body w i = Inr w' \<Longrightarrow>
      world_ok E D DV w' \<and> Q w' \<and> (\<exists>G'. w_groups w' g = Some G' \<and> coll_getItem (g_groups G') = (coll_getItem (g_groups G))(i := None))"
  shows "world_ok E D DV (upd_group g (\<lambda>G. G\<lparr>g_groups := coll_removeAllItems (g_groups G)\<rparr>) w') \<and> Q w'"
proof -
  let ?P = "\<lambda>i w. world_ok E D DV w \<and> Q w \<and> (\<exists>G. w_groups w g = Some G \<and> rest_from i (coll_getItem (g_groups G)))"
  have "?P InvalidIndex w'"
  proof (rule index_loop_partial [where P = ?P])
    show "index_loop (length (coll_items (g_groups (grp w g)))) (\<lambda>w. coll_next (g_groups (grp w g))) body
        (coll_first (g_groups (grp w g))) w = Inr w'" using run by (simp add: for_groups_def)
    show "?P (coll_first (g_groups (grp w g))) w"
      using ok Q G rest_from_first [OF coll_ok_inv [OF groups_okD(2) [OF world_okD(5) [OF ok] G]]] by simp
    fix i w1 w2 assume i: "i \<noteq> InvalidIndex" and P: "?P i w1" and b: "body w1 i = Inr w2"
    from P obtain G1 where G1: "world_ok E D DV w1" "Q w1" "w_groups w1 g = Some G1" "rest_from i (coll_getItem (g_groups G1))" by blast
    obtain G2 where G2: "world_ok E D DV w2" "Q w2" "w_groups w2 g = Some G2" "coll_getItem (g_groups G2) = (coll_getItem (g_groups G1))(i := None)"
      using step [OF G1(1-3) b] by blast
    have "0 \<le> i" "\<forall>j\<in>dom (coll_getItem (g_groups G2)). i < j" using G1(4) i G2(4) by (auto simp: rest_from_def order_less_le)
    with rest_from_next [OF coll_ok_inv [OF groups_okD(2) [OF world_okD(5) [OF G2(1)] G2(3)]]] G2(1-3)
    show "?P (coll_next (g_groups (grp w2 g)) i) w2" by simp
  qed
  then obtain G' where G': "world_ok E D DV w'" "Q w'" "w_groups w' g = Some G'" "coll_getItem (g_groups G') = Map.empty" by (auto simp: rest_from_def)
  have eq: "upd_group g (\<lambda>G. G\<lparr>g_groups := coll_removeAllItems (g_groups G)\<rparr>) w' = upd_group g (\<lambda>_. G'\<lparr>g_groups := coll_removeAllItems (g_groups G')\<rparr>) w'"
    using G'(3) by (simp add: upd_group_def)
  have none: "\<not> child w' g i c" for i c using G'(3,4) by (simp add: child_def)
  show ?thesis
    unfolding eq using clear_groups_ok [OF G'(1,3) none coll_ok_removeAll [OF groups_okD(2) [OF world_okD(5) [OF G'(1)] G'(3)]]] G'(2) by blast
qed

text \<open>What is left in the collection after a view or a group was taken out.\<close>

lemma items_without:
  assumes "\<And>j x. (coll_getItem c' j = Some x) = (coll_getItem c j = Some x \<and> x \<noteq> v)" and "coll_getItem c i = Some v"
    and "\<And>j. coll_getItem c j = Some v \<Longrightarrow> j = i"
  shows "coll_getItem c' = (coll_getItem c)(i := None)"
proof
  fix j show "coll_getItem c' j = ((coll_getItem c)(i := None)) j"
  proof (cases "j = i")
    case True
    then have "coll_getItem c' j \<noteq> Some x" for x using assms(1) [of j x] assms(2) by auto
    with True show ?thesis by auto
  next
    case False
    then have "coll_getItem c' j = Some x \<longleftrightarrow> coll_getItem c j = Some x" for x using assms(1) [of j x] assms(3) [of j] by auto
    with False show ?thesis by (cases "coll_getItem c j"; cases "coll_getItem c' j") auto
  qed
qed

lemma owned_items_without:
  assumes ok: "owners_ok DV w" and gv: "owned w g i v" and ow: "owned w' = (\<lambda>h j u. owned w h j u \<and> u \<noteq> v)"
    and G: "w_groups w g = Some G" and G': "w_groups w' g = Some G'"
  shows "coll_getItem (g_views G') = (coll_getItem (g_views G))(i := None)"
proof (rule items_without)
  show "(coll_getItem (g_views G') j = Some x) = (coll_getItem (g_views G) j = Some x \<and> x \<noteq> v)" for j x
    using fun_cong [OF fun_cong [OF fun_cong [OF ow, of g], of j], of x] G G' by (simp add: owned_def)
  show "coll_getItem (g_views G) i = Some v" using gv G by (simp add: owned_def)
  show "j = i" if "coll_getItem (g_views G) j = Some v" for j
    using owned_unique [OF ok gv, of g j] that G by (simp add: owned_def)
qed

lemma destroyView_at_items:
  assumes ok: "world_ok E D DV w" and G: "w_groups w g = Some G"
  shows "\<exists>G'. w_groups (destroyView_at w g i) g = Some G' \<and> coll_getItem (g_views G') = (coll_getItem (g_views G))(i := None)"
proof (cases "coll_getItem (g_views G) i")
  case None
  with G detachView_at_absent [OF G None] show ?thesis by (simp add: destroyView_at_def delete_view_def fun_upd_idem)
next
  case (Some v)
  then have gv: "owned w g i v" using G by (simp add: owned_def)
  then obtain w' where w': "detachView_at w g i = (w', Some v)" "view_frame w w'" "owned w' = (\<lambda>h j u. owned w h j u \<and> u \<noteq> v)"
    by (rule world_ok_detachView [OF ok])
  obtain G' where G': "w_groups w' g = Some G'" using tree_fields_get [OF view_frame_fields(5) [OF w'(2)] G] by blast
  from owned_items_without [OF world_okD(4) [OF ok] gv w'(3) G G'] w'(1) G' show ?thesis by (simp add: destroyView_at_def delete_view_def)
qed

lemma destroyViews_ok:
  assumes ok: "world_ok E D DV w" and G: "w_groups w g \<noteq> None" and des: "destroyViews w g = Inr w'"
  shows "world_ok E D DV w'"
proof -
  obtain G where G: "w_groups w g = Some G" using assms(2) by blast
  obtain w1 where w1: "for_views w g (\<lambda>w idx. Inr (destroyView_at w g idx)) = Inr w1"
    "w' = upd_group g (\<lambda>G. G\<lparr>g_views := coll_removeAllItems (g_views G)\<rparr>) w1"
    using des unfolding destroyViews_def by (cases "for_views w g (\<lambda>w idx. Inr (destroyView_at w g idx))") auto
  show ?thesis
    unfolding w1(2) using for_views_shrinks [OF ok G w1(1), of "\<lambda>_. True"] destroyView_at_ok destroyView_at_items by blast
qed

text \<open>\<^verbatim>\<open>destroyViewAndData\<close>: the buffer of the view is destroyed when no other view uses it.\<close>

lemma dom_destroy_unused:
  assumes "Buffer_getNumViews (buffer s b) = 0"
  shows "dom (views (DataStore_destroyBuffer (Some b) s)) = dom (views s)"
proof -
  have "b_views (buffer s b) = []" using assms by (simp add: Buffer_getNumViews_def)
  then show ?thesis by (simp add: DataStore_destroyBuffer_def Buffer_detachFromAllViews_def releaseBytes_def Let_def upd_buffer_def split: option.split)
qed

lemma destroy_data_ok:
  assumes inv: "store_inv E s" and v: "views s v = Some vw" and det: "View_detachBuffer v s = (s1, buff)"
    and s2: "s2 = (case buff of None \<Rightarrow> s1
       | Some b \<Rightarrow> if Buffer_getNumViews (buffer s1 b) = 0 then DataStore_destroyBuffer (Some b) s1 else s1)"
  shows "store_inv E s2" "dom (views s2) = dom (views s)"
proof -
  have s1: "store_inv E s1" using store_inv_View_detachBuffer [OF inv v] det by simp
  have d1: "dom (views s1) = dom (views s)"
    using det v by (auto simp: View_detachBuffer_def Buffer_detachFromView_def upd_view_def upd_buffer_def split: if_splits)
  have live: "buffers s1 b \<noteq> None" if "buff = Some b" for b
  proof -
    have "v_data_buffer vw = Some b" using det v that by (auto simp: View_detachBuffer_def split: if_splits)
    then obtain bf where "buffers s b = Some bf" using store_inv_buffer_live [OF inv v] by blast
    then show ?thesis using det that v by (auto simp: View_detachBuffer_def Buffer_detachFromView_def upd_view_def upd_buffer_def split: if_splits)
  qed
  have s2': "s2 = s1 \<or> (\<exists>b. buff = Some b \<and> Buffer_getNumViews (buffer s1 b) = 0 \<and> s2 = DataStore_destroyBuffer (Some b) s1)"
    unfolding s2 by (cases buff) auto
  then show "store_inv E s2" using s1 store_inv_destroyBuffer [OF s1] live by blast
  show "dom (views s2) = dom (views s)" using s2' d1 dom_destroy_unused by metis
qed

lemma destroyViewAndData_ptr_ok:
  assumes ok: "world_ok E D DV w" and gv: "owned w g i v" and des: "destroyViewAndData_ptr w (Some v) = Inr w'"
  shows "world_ok E D DV w'" "w_groups w g = Some G \<Longrightarrow>
    \<exists>G'. w_groups w' g = Some G' \<and> coll_getItem (g_views G') = (coll_getItem (g_views G))(i := None)"
    "outside {g} w w'" "tree_fields w' = tree_fields w" "next_group w' = next_group w"
proof -
  have v: "v_owner w v = Some g" "live_view w v" "v \<notin> DV" using owners_okD(2) [OF world_okD(4) [OF ok]] gv by auto
  obtain G where G: "w_groups w g = Some G" using gv by (auto simp: owned_def)
  obtain r where r: "detachView w g (v_name w v) = Inr r"
    using des v(1) by (cases "detachView w g (v_name w v)") (auto simp: destroyViewAndData_ptr_def)
  have r_eq: "r = detachView_at w g i"
    using world_okD(4) [OF ok] G r
  proof (cases rule: detachView_cases)
    case absent
    have "\<not> g_is_list G" using r G owners_okD(1) [OF world_okD(4) [OF ok] G]
      by (auto simp: detachView_def getNamedViews_def coll_ok_def split: coll.splits)
    with absent gv show ?thesis using hasChildView_iff(1) [OF world_okD(4) [OF ok] G] by blast
  next
    case (found j u)
    with r gv detachView_named(1) [OF world_okD(4) [OF ok] G] show ?thesis by auto
  qed
  obtain w1 where w1: "detachView_at w g i = (w1, Some v)" "world_ok E D (insert v DV) w1" "view_frame w w1"
    "owned w1 = (\<lambda>h j u. owned w h j u \<and> u \<noteq> v)" "outside {g} w w1" by (rule world_ok_detachView [OF ok gv])
  obtain s1 buff where s1: "View_detachBuffer v (w_store w1) = (s1, buff)" by (cases "View_detachBuffer v (w_store w1)")
  define s2 where "s2 = (case buff of None \<Rightarrow> s1
       | Some b \<Rightarrow> if Buffer_getNumViews (buffer s1 b) = 0 then DataStore_destroyBuffer (Some b) s1 else s1)"
  have w': "w' = w1\<lparr>w_store := View_destroy v s2\<rparr>"
    using des v(1) r r_eq w1(1) s1 by (simp add: destroyViewAndData_ptr_def Let_def s2_def)
  obtain vw where vw: "views (w_store w1) v = Some vw" using owners_okD(5) [OF world_okD(4) [OF w1(2)] insertI1] by blast
  note s2 = destroy_data_ok [OF world_okD(2) [OF w1(2)] vw s1 s2_def]
  have "world_ok E D (insert v DV) (w1\<lparr>w_store := s2\<rparr>)" by (rule world_ok_store [OF w1(2) s2(2,1)])
  from world_ok_View_destroy [OF this insertI1] v(3) show "world_ok E D DV w'" by (simp add: w')
  show "outside {g} w w'" using w1(5) by (simp add: outside_def w')
  show "tree_fields w' = tree_fields w" using view_frame_fields(5) [OF w1(3)] by (simp add: w' tree_fields_def fun_eq_iff)
  show "next_group w' = next_group w" using view_frame_fields(2) [OF w1(3)] by (simp add: w')
  show "\<exists>G'. w_groups w' g = Some G' \<and> coll_getItem (g_views G') = (coll_getItem (g_views G))(i := None)" if G0: "w_groups w g = Some G" for G
  proof -
    obtain G' where G': "w_groups w1 g = Some G'" using tree_fields_get [OF view_frame_fields(5) [OF w1(3)] G0] by blast
    with owned_items_without [OF world_okD(4) [OF ok] gv w1(4) G0 G'] show ?thesis by (simp add: w')
  qed
qed

lemma destroyViewAndData_at_ok:
  assumes ok: "world_ok E D DV w" and G: "w_groups w g = Some G" and des: "destroyViewAndData_at w g i = Inr w'"
  shows "world_ok E D DV w'" "\<exists>G'. w_groups w' g = Some G' \<and> coll_getItem (g_views G') = (coll_getItem (g_views G))(i := None)"
    "outside {g} w w'" "tree_fields w' = tree_fields w" "next_group w' = next_group w"
proof -
  have "world_ok E D DV w' \<and> (\<exists>G'. w_groups w' g = Some G' \<and> coll_getItem (g_views G') = (coll_getItem (g_views G))(i := None)) \<and>
    outside {g} w w' \<and> tree_fields w' = tree_fields w \<and> next_group w' = next_group w"
  proof (cases "coll_getItem (g_views G) i")
    case None
    with des G ok show ?thesis
      by (simp add: destroyViewAndData_at_def getView_at_def destroyViewAndData_ptr_def fun_upd_idem outside_def)
  next
    case (Some v)
    then have "owned w g i v" "destroyViewAndData_ptr w (Some v) = Inr w'"
      using G des by (simp_all add: owned_def destroyViewAndData_at_def getView_at_def)
    from destroyViewAndData_ptr_ok [OF ok this] G show ?thesis by blast
  qed
  then show "world_ok E D DV w'" "\<exists>G'. w_groups w' g = Some G' \<and> coll_getItem (g_views G') = (coll_getItem (g_views G))(i := None)"
    "outside {g} w w'" "tree_fields w' = tree_fields w" "next_group w' = next_group w" by auto
qed

lemma outside_trans: "outside S w w' \<Longrightarrow> outside S w' w'' \<Longrightarrow> outside S w w''"
  by (simp add: outside_def)

lemma outside_mono: "outside S w w' \<Longrightarrow> S \<subseteq> T \<Longrightarrow> outside T w w'"
  by (auto simp: outside_def)

lemma destroyViewsAndData_ok:
  assumes ok: "world_ok E D DV w" and G: "w_groups w g \<noteq> None" and des: "destroyViewsAndData w g = Inr w'"
  shows "world_ok E D DV w'" "outside {g} w w'" "tree_fields w' = tree_fields w" "next_group w' = next_group w"
proof -
  obtain G where G: "w_groups w g = Some G" using assms(2) by blast
  obtain w1 where w1: "for_views w g (\<lambda>w idx. destroyViewAndData_at w g idx) = Inr w1"
    "w' = upd_group g (\<lambda>G. G\<lparr>g_views := coll_removeAllItems (g_views G)\<rparr>) w1"
    using des unfolding destroyViewsAndData_def by (cases "for_views w g (\<lambda>w idx. destroyViewAndData_at w g idx)") auto
  let ?Q = "\<lambda>x. outside {g} w x \<and> tree_fields x = tree_fields w \<and> next_group x = next_group w"
  have "world_ok E D DV w' \<and> ?Q w1"
    unfolding w1(2)
  proof (rule for_views_shrinks [OF ok G w1(1)])
    show "?Q w" by (simp add: outside_def)
    fix x i x' X assume x: "world_ok E D DV x" "?Q x" "w_groups x g = Some X" "destroyViewAndData_at x g i = Inr x'"
    note x' = destroyViewAndData_at_ok [OF x(1,3,4)]
    with x(2) outside_trans [of "{g}" w x x']
    show "world_ok E D DV x' \<and> ?Q x' \<and> (\<exists>G'. w_groups x' g = Some G' \<and> coll_getItem (g_views G') = (coll_getItem (g_views X))(i := None))"
      by auto
  qed
  then show "world_ok E D DV w'" "outside {g} w w'" "next_group w' = next_group w" by (auto simp: w1(2) outside_def)
  have eq: "tree_fields w1 = tree_fields w" using \<open>world_ok E D DV w' \<and> ?Q w1\<close> by blast
  obtain G1 where "w_groups w1 g = Some G1" using tree_fields_get [OF eq G] by blast
  then have "tree_fields w' = tree_fields w1" by (simp add: w1(2) tree_fields_def fun_eq_iff)
  with eq show "tree_fields w' = tree_fields w" by simp
qed

lemma named_view_lookup:
  assumes ok: "owners_ok DV w" and H: "w_groups w h = Some H" and get: "getNamedViews w h = Inr c" "MapCollection_getItem_named c name = Some v"
  shows "\<exists>i. owned w h i v \<and> v_name w v = name"
proof -
  obtain m where m: "g_views H = MapColl m" "mc_inv (v_name w) m"
    using get(1) H owners_okD(1) [OF ok H] by (auto simp: getNamedViews_def coll_ok_def split: coll.splits)
  with get H named_lookup(2) [OF m(2)] show ?thesis by (auto simp: getNamedViews_def owned_def)
qed

lemma getView_owned:
  assumes ok: "world_ok E D DV w" and g: "w_groups w g \<noteq> None" and get: "getView w g path = Inr (Some v)"
  shows "\<exists>h i. owned w h i v"
proof -
  obtain w0 r name where walk: "walkPath w g path False = ((w0, r), name)" by (metis prod.exhaust)
  with get obtain h c where h: "r = Some h" "getNamedViews w h = Inr c" "MapCollection_getItem_named c name = Some v"
    by (cases r; cases "getNamedViews w (the r)") (auto simp: getView_def)
  obtain H where "w_groups w h = Some H" using walkPath_False_live [OF world_okD(3) [OF ok] g] walk h(1) by blast
  from named_view_lookup [OF world_okD(4) [OF ok] this h(2,3)] show ?thesis by blast
qed

lemma destroyViewAndData_ok:
  assumes ok: "world_ok E D DV w" and g: "w_groups w g \<noteq> None" and des: "destroyViewAndData w g path = Inr w'"
  shows "world_ok E D DV w'"
proof -
  obtain vp where vp: "getView w g path = Inr vp" "destroyViewAndData_ptr w vp = Inr w'"
    using des by (cases "getView w g path") (auto simp: destroyViewAndData_def)
  show ?thesis
  proof (cases vp)
    case None
    with vp ok show ?thesis by (simp add: destroyViewAndData_ptr_def)
  next
    case (Some v)
    obtain h i where "owned w h i v" using getView_owned [OF ok g] vp(1) Some by blast
    with destroyViewAndData_ptr_ok(1) [OF ok] vp(2) Some show ?thesis by blast
  qed
qed

text \<open>Destroying a group: it is detached, then deleted with everything below it.\<close>

lemma world_ok_detachGroup:
  assumes ok: "world_ok E D DV w" and c: "child w g i c"
  obtains w' where "detachGroup_at w g i = (w', Some c)" "world_ok E (insert c D) DV w'" "tree_frame w w'" "c \<notin> D"
    "child w' = (\<lambda>h j x. child w h j x \<and> x \<noteq> c)" "outside {g, c} w w'"
proof -
  obtain w' where w': "detachGroup_at w g i = (w', Some c)" "tree_ok (insert c D) w'" "tree_frame w w'"
    "child w' = (\<lambda>h j x. child w h j x \<and> x \<noteq> c)" by (rule detachGroup_at_effect [OF world_okD(3) [OF ok] c])
  moreover have "c \<notin> D" by (rule group_linksD [OF world_okD(6) [OF ok] c])
  moreover have "outside {g, c} w w'"
    using w'(1) by (auto simp: detachGroup_at_def orphan_def outside_def upd_group_def split: prod.splits)
  ultimately show thesis using that world_ok_tree_frame [OF ok w'(3,2)] by blast
qed

lemma delete_group_ok:
  assumes ok: "world_ok E D DV w" and c: "c \<in> D"
  obtains w' vs where "delete_group_ptr (Some c) w = Inr w'" "world_ok E (D - {c}) DV w'" "w' = remove_tree (subtree w c) vs w"
    "distinct vs" "set vs = views_below w (subtree w c)"
proof -
  obtain vs where vs: "delete_group_ptr (Some c) w = Inr (remove_tree (subtree w c) vs w)" "distinct vs"
    "set vs = views_below w (subtree w c)" "forest_inv (D - {c}) DV (remove_tree (subtree w c) vs w)"
    using delete_detached [OF world_okD(1) [OF ok] c] by blast
  have "store_inv E (fold View_destroy vs (w_store w))"
    using store_inv_fold_destroy [OF world_okD(2) [OF ok] vs(2)] vs(3) views_below_live [OF world_okD(4) [OF ok]] by blast
  with vs(4) have "world_ok E (D - {c}) DV (remove_tree (subtree w c) vs w)" by (simp add: world_ok_def)
  with vs that show thesis by blast
qed

lemma child_items_without:
  assumes ok: "group_links D w" and gc: "child w g i c" and ch: "child w' = (\<lambda>h j x. child w h j x \<and> x \<noteq> c)"
    and G: "w_groups w g = Some G" and G': "w_groups w' g = Some G'"
  shows "coll_getItem (g_groups G') = (coll_getItem (g_groups G))(i := None)"
proof (rule items_without)
  show "(coll_getItem (g_groups G') j = Some x) = (coll_getItem (g_groups G) j = Some x \<and> x \<noteq> c)" for j x
    using fun_cong [OF fun_cong [OF fun_cong [OF ch, of g], of j], of x] G G' by (simp add: child_def)
  show "coll_getItem (g_groups G) i = Some c" using gc G by (simp add: child_def)
  show "j = i" if "coll_getItem (g_groups G) j = Some c" for j
    using child_unique_parent [OF ok gc, of g j] that G by (simp add: child_def)
qed

text \<open>The groups below the detached group are the ones that were below it before.\<close>

lemma detach_subtree:
  assumes ok: "tree_ok D w" and gc: "child w g i c" and ch: "child w' = (\<lambda>h j x. child w h j x \<and> x \<noteq> c)"
  shows "subtree w' c = subtree w c" "g \<notin> subtree w c"
proof -
  note t = tree_okD [OF ok]
  show g: "g \<notin> subtree w c" by (rule subtree_strict [OF t(2,3) gc])
  have "(c, h) \<in> (childrel w)\<^sup>* \<Longrightarrow> (c, h) \<in> (childrel w')\<^sup>*" for h
  proof (induction rule: rtrancl_induct)
    case (step p h)
    then obtain j where j: "child w p j h" by (auto simp: childrel_def)
    have "h \<noteq> c"
    proof
      assume "h = c"
      then have "p = g" using child_unique_parent [OF t(2) gc] j by blast
      with step(1) g show False by (simp add: subtree_def)
    qed
    with j have "(p, h) \<in> childrel w'" by (auto simp: childrel_def ch)
    with step(3) show ?case by (meson rtrancl_into_rtrancl)
  qed simp
  moreover have "childrel w' \<subseteq> childrel w" by (auto simp: childrel_def ch)
  then have "(childrel w')\<^sup>* \<subseteq> (childrel w)\<^sup>*" by (rule rtrancl_mono)
  ultimately show "subtree w' c = subtree w c" by (auto simp: subtree_def)
qed

lemma destroyGroup_at_ok:
  assumes ok: "world_ok E D DV w" and gc: "child w g i c"
  obtains w' vs w1 where "destroyGroup_at w g i = Inr w'" "world_ok E D DV w'" "tree_frame w w1"
    "child w1 = (\<lambda>h j x. child w h j x \<and> x \<noteq> c)" "w' = remove_tree (subtree w c) vs w1"
    "distinct vs" "set vs = views_below w (subtree w c)" "g \<notin> subtree w c"
proof -
  obtain w1 where w1: "detachGroup_at w g i = (w1, Some c)" "world_ok E (insert c D) DV w1" "tree_frame w w1" "c \<notin> D"
    "child w1 = (\<lambda>h j x. child w h j x \<and> x \<noteq> c)" by (rule world_ok_detachGroup [OF ok gc])
  note sub = detach_subtree [OF world_okD(3) [OF ok] gc w1(5)]
  obtain w' vs where w': "delete_group_ptr (Some c) w1 = Inr w'" "world_ok E (insert c D - {c}) DV w'" "w' = remove_tree (subtree w1 c) vs w1"
    "distinct vs" "set vs = views_below w1 (subtree w1 c)" by (rule delete_group_ok [OF w1(2) insertI1])
  have "views_below w1 S = views_below w S" for S
    using view_fields_eqD(2) [OF tree_frame_fields(8) [OF w1(3)]] by (simp add: views_below_def)
  with that [of w' w1 vs] w' w1 sub show thesis by (simp add: destroyGroup_at_def)
qed

lemma destroyGroup_ok:
  assumes ok: "world_ok E D DV w" and g: "w_groups w g \<noteq> None" and des: "destroyGroup w g path = Inr w'"
  shows "world_ok E D DV w'"
proof -
  obtain w0 r name where walk: "walkPath w g path False = ((w0, r), name)" by (metis prod.exhaust)
  show ?thesis
  proof (cases r)
    case None
    with des walk ok show ?thesis by (simp add: destroyGroup_def)
  next
    case (Some h)
    obtain H where H: "w_groups w h = Some H" using walkPath_False_live [OF world_okD(3) [OF ok] g] walk Some by blast
    obtain r' where r': "detachGroup w h name = Inr r'" using des walk Some by (cases "detachGroup w h name") (auto simp: destroyGroup_def)
    from world_okD(5) [OF ok] H r' show ?thesis
    proof (cases rule: detachGroup_cases)
      case absent
      with des walk Some r' ok show ?thesis by (simp add: destroyGroup_def delete_group_ptr_def)
    next
      case (found i c)
      obtain w2 where w2: "destroyGroup_at w h i = Inr w2" "world_ok E D DV w2" by (rule destroyGroup_at_ok [OF ok found(1)])
      with found des walk Some r' show ?thesis by (simp add: destroyGroup_def destroyGroup_at_def split: prod.splits)
    qed
  qed
qed

lemma destroyGroup_index_ok:
  assumes ok: "world_ok E D DV w" and G: "w_groups w g = Some G" and des: "destroyGroup_at w g i = Inr w'"
  shows "world_ok E D DV w'"
proof (cases "coll_getItem (g_groups G) i")
  case None
  with des detachGroup_at_absent [OF G None] ok show ?thesis by (simp add: destroyGroup_at_def delete_group_ptr_def)
next
  case (Some c)
  then have "child w g i c" using G by (simp add: child_def)
  then obtain w2 where "destroyGroup_at w g i = Inr w2" "world_ok E D DV w2" by (rule destroyGroup_at_ok [OF ok])
  with des show ?thesis by simp
qed

text \<open>\<^verbatim>\<open>destroyGroups\<close> deletes the children while they are still in the collection, and then clears it.\<close>

lemma destroyGroups_ok:
  assumes ok: "world_ok E D DV w" and G: "w_groups w g = Some G"
  obtains vs coll where "destroyGroups w g = Inr (upd_group g (\<lambda>_. G\<lparr>g_groups := coll\<rparr>) (remove_tree (subtree w g - {g}) vs w))"
    "world_ok E D DV (upd_group g (\<lambda>_. G\<lparr>g_groups := coll\<rparr>) (remove_tree (subtree w g - {g}) vs w))"
    "distinct vs" "set vs = views_below w (subtree w g - {g})" "coll_getItem coll = Map.empty"
proof -
  note t = tree_okD [OF world_okD(3) [OF ok]]
  let ?S = "subtree w g - {g}"
  have live: "w_groups w g \<noteq> None" using G by simp
  note del = forest_inv_deletable [OF world_okD(1) [OF ok] live]
  have rec: "\<exists>vs. delete_group (next_group w) w' c = Inr (remove_tree (subtree w' c) vs w') \<and> distinct vs \<and> set vs = views_below w' (subtree w' c)"
    if "deletable w' c" "card (subtree w' c) < card (subtree w g)" for w' :: "('a, 'b) world" and c
    using delete_group_effect [OF that(1)] that(2) del(2) by simp
  obtain vs coll where vs: "destroyGroups w g = Inr (upd_group g (\<lambda>_. G\<lparr>g_groups := coll\<rparr>) (remove_tree ?S vs w))"
    "distinct vs" "set vs = views_below w ?S" "coll_getItem coll = Map.empty" "\<forall>f. coll_ok f (g_is_list G) coll"
    using destroyGroups_by_effect [OF del(1) G groups_okD(2) [OF t(1) G] rec] unfolding destroyGroups_def by auto
  let ?w = "upd_group g (\<lambda>_. G\<lparr>g_groups := coll\<rparr>) (remove_tree ?S vs w)"
  have DS: "D - ?S = D" "root \<notin> ?S" using subtree_no_root [OF t(2), of _ g] by auto
  have out: "x \<notin> ?S" if "child w h i x" "h \<notin> ?S" "h \<noteq> g" for h i x
  proof
    assume x: "x \<in> ?S"
    then have gx: "(g, x) \<in> (childrel w)\<^sup>*" "x \<noteq> g" by (auto simp: subtree_def)
    then obtain p where p: "(g, p) \<in> (childrel w)\<^sup>*" "(p, x) \<in> childrel w" by (metis rtranclE)
    have "p = h" using unique_parent_rel [OF t(2) p(2)] \<open>child w h i x\<close> by (auto simp: childrel_def)
    with p(1) that(2,3) show False by (auto simp: subtree_def)
  qed
  have "tree_ok (D - ?S) ?w"
  proof (rule tree_ok_prune(1) [OF world_okD(3) [OF ok] DS(2)])
    show "x \<in> ?S" if "h \<in> ?S" "child w h i x" for h i x
      using that subtree_closed [of h w g i x] subtree_strict [OF t(2,3) that(2)] by (cases "x = g") auto
    show "\<exists>H'. w_groups ?w h = Some H' \<and> g_name H' = g_name H \<and> g_index H' = g_index H \<and> g_parent H' = g_parent H \<and>
        g_is_list H' = g_is_list H \<and> coll_ok (group_name w) (g_is_list H) (g_groups H') \<and>
        coll_getItem (g_groups H') = (\<lambda>i. case coll_getItem (g_groups H) i of Some c \<Rightarrow> if c \<in> ?S then None else Some c | None \<Rightarrow> None)"
      if h: "h \<notin> ?S" "w_groups w h = Some H" for h H
    proof (cases "h = g")
      case True
      have "c \<in> ?S" if "coll_getItem (g_groups G) i = Some c" for i c
      proof -
        have "child w g i c" using that G by (simp add: child_def)
        then show ?thesis using subtree_closed [OF subtree_refl] subtree_strict [OF t(2,3)] by fastforce
      qed
      with True h G vs(4,5) show ?thesis by (auto simp: fun_eq_iff split: option.splits)
    next
      case False
      have "\<forall>i x. coll_getItem (g_groups H) i = Some x \<longrightarrow> x \<notin> ?S" using out [of h] False h by (auto simp: child_def)
      from map_case_id [OF this] groups_okD(2) [OF t(1) h(2)] h False show ?thesis by simp
    qed
  qed (auto simp: G split: if_splits)
  moreover have "owners_ok DV ?w"
  proof (rule owners_ok_fields [OF _ _ _ _ _ _ remove_tree_owners(1) [OF world_okD(4) [OF ok] vs(3)]])
    show "view_fields ?w = view_fields (remove_tree ?S vs w)" using G by (simp add: view_fields_def fun_eq_iff)
  qed simp_all
  moreover have "store_inv E (fold View_destroy vs (w_store w))"
    using store_inv_fold_destroy [OF world_okD(2) [OF ok] vs(2)] vs(3) views_below_live [OF world_okD(4) [OF ok]] by blast
  ultimately have "world_ok E D DV ?w" using DS(1) by (simp add: world_ok_def forest_inv_def)
  with vs that show thesis by blast
qed

text \<open>
  \<^verbatim>\<open>destroyGroupSubtreeAndData\<close> changes only the groups below its group, and leaves no pointer out
  of them.
\<close>

definition closed_in :: "group_id set \<Rightarrow> ('d, 'n) world \<Rightarrow> bool" where
  "closed_in S w \<longleftrightarrow> (\<forall>h\<in>S. \<forall>i c. child w h i c \<longrightarrow> c \<in> S)"

lemma closed_in_subtree: "closed_in (subtree w g) w"
  by (auto simp: closed_in_def intro: subtree_closed)

lemma subtree_in_closed:
  assumes "closed_in S w" and "g \<in> S"
  shows "subtree w g \<subseteq> S"
proof -
  have "h \<in> S" if "(g, h) \<in> (childrel w)\<^sup>*" for h
    using that by (induction rule: rtrancl_induct) (use assms in \<open>auto simp: closed_in_def childrel_def\<close>)
  then show ?thesis by (auto simp: subtree_def)
qed

definition confined :: "group_id set \<Rightarrow> ('d, 'n) world \<Rightarrow> ('d, 'n) world \<Rightarrow> bool" where
  "confined S w w' \<longleftrightarrow> outside S w w' \<and> closed_in S w'"

lemma destroyGroupAndData_by_step:
  assumes sub: "\<And>w c w'. world_ok E (insert c D) DV w \<Longrightarrow> w_groups w c \<noteq> None \<Longrightarrow> del w c = Inr w' \<Longrightarrow>
      world_ok E (insert c D) DV w' \<and> confined (subtree w c) w w'"
    and ok: "world_ok E D DV x" and S: "confined S w x" "g \<in> S" and X: "w_groups x g = Some X"
    and des: "destroyGroupAndData_by del (detachGroup_at x g i) = Inr x'"
  shows "world_ok E D DV x' \<and> confined S w x' \<and>
    (\<exists>G'. w_groups x' g = Some G' \<and> coll_getItem (g_groups G') = (coll_getItem (g_groups X))(i := None))"
proof (cases "coll_getItem (g_groups X) i")
  case None
  with des detachGroup_at_absent [OF X None] ok S X show ?thesis by (simp add: destroyGroupAndData_by_def fun_upd_idem)
next
  case (Some c)
  then have gc: "child x g i c" using X by (simp add: child_def)
  obtain x1 where x1: "detachGroup_at x g i = (x1, Some c)" "world_ok E (insert c D) DV x1" "tree_frame x x1" "c \<notin> D"
    "child x1 = (\<lambda>h j y. child x h j y \<and> y \<noteq> c)" "outside {g, c} x x1" by (rule world_ok_detachGroup [OF ok gc])
  note st = detach_subtree [OF world_okD(3) [OF ok] gc x1(5)]
  obtain x2 where x2: "del x1 c = Inr x2" "delete_group_ptr (Some c) x2 = Inr x'"
    using des x1(1) by (cases "del x1 c") (auto simp: destroyGroupAndData_by_def)
  have c1: "w_groups x1 c \<noteq> None" using world_okD(6) [OF x1(2)] by (simp add: group_links_def)
  have x2': "world_ok E (insert c D) DV x2" "outside (subtree x1 c) x1 x2" "closed_in (subtree x1 c) x2"
    using sub [OF x1(2) c1 x2(1)] by (auto simp: confined_def)
  obtain vs where vs: "world_ok E (insert c D - {c}) DV x'" "x' = remove_tree (subtree x2 c) vs x2"
    using delete_group_ok [OF x2'(1) insertI1] x2(2) by (metis Inr_inject)
  have sub2: "subtree x2 c \<subseteq> subtree x c" using subtree_in_closed [OF x2'(3) subtree_refl] st(1) by simp
  have cS: "subtree x c \<subseteq> S" using S gc subtree_in_closed [of S x c] by (auto simp: confined_def closed_in_def)
  have ch2: "child x h j y \<or> (h \<in> subtree x c \<and> y \<in> subtree x c)" if "child x' h j y" for h j y
  proof (cases "h \<in> subtree x c")
    case True
    with that x2'(3) st(1) vs(2) show ?thesis by (auto simp: closed_in_def child_def split: if_splits)
  next
    case False
    then have "w_groups x2 h = w_groups x1 h" using x2'(2) st(1) by (simp add: outside_def)
    with that vs(2) have "child x1 h j y" by (auto simp: child_def split: if_splits)
    with x1(5) show ?thesis by simp
  qed
  have "outside S x x1" by (rule outside_mono [OF x1(6)]) (use S(2) cS subtree_refl in blast)
  moreover have "outside S x1 x2" using outside_mono [OF x2'(2)] st(1) cS by simp
  moreover have "outside S x2 x'" using sub2 cS unfolding outside_def vs(2) by auto
  ultimately have "outside S w x'" using S(1) outside_trans unfolding confined_def by blast
  moreover have "closed_in S x'"
    unfolding closed_in_def
  proof (intro ballI allI impI)
    fix h j y assume "h \<in> S" "child x' h j y"
    with ch2 [of h j y] S(1) cS show "y \<in> S" by (auto simp: confined_def closed_in_def)
  qed
  moreover obtain X1 where X1: "w_groups x1 g = Some X1" using view_fields_eqD(1) [OF tree_frame_fields(8) [OF x1(3)], of g] X by auto
  moreover have "w_groups x' g = Some X1" using X1 st x2'(2) sub2 vs(2) by (auto simp: outside_def)
  ultimately show ?thesis
    using vs(1) x1(4) child_items_without [OF world_okD(6) [OF ok] gc x1(5) X X1] by (simp add: confined_def)
qed

lemma destroyGroupsAndData_by_ok:
  assumes sub: "\<And>w c w'. world_ok E (insert c D) DV w \<Longrightarrow> w_groups w c \<noteq> None \<Longrightarrow> del w c = Inr w' \<Longrightarrow>
      world_ok E (insert c D) DV w' \<and> confined (subtree w c) w w'"
    and ok: "world_ok E D DV w" and g: "w_groups w g \<noteq> None" and des: "destroyGroupsAndData_by del w g = Inr w'"
  shows "world_ok E D DV w' \<and> confined (subtree w g) w w'"
proof -
  obtain G where G: "w_groups w g = Some G" using g by blast
  let ?body = "\<lambda>w idx. destroyGroupAndData_by del (detachGroup_at w g idx)"
  obtain w1 where w1: "for_groups w g ?body = Inr w1" "w' = upd_group g (\<lambda>G. G\<lparr>g_groups := coll_removeAllItems (g_groups G)\<rparr>) w1"
    using des unfolding destroyGroupsAndData_by_def by (cases "for_groups w g ?body") auto
  have "world_ok E D DV w' \<and> confined (subtree w g) w w1"
    unfolding w1(2)
  proof (rule for_groups_shrinks [OF ok G w1(1)])
    show "confined (subtree w g) w w" using closed_in_subtree by (simp add: confined_def outside_def)
    show "world_ok E D DV x' \<and> confined (subtree w g) w x' \<and>
        (\<exists>G'. w_groups x' g = Some G' \<and> coll_getItem (g_groups G') = (coll_getItem (g_groups X))(i := None))"
      if "world_ok E D DV x" "confined (subtree w g) w x" "w_groups x g = Some X" "?body x i = Inr x'" for x i x' X
      by (rule destroyGroupAndData_by_step [OF sub that(1,2) subtree_refl that(3,4)])
  qed
  moreover have "coll_getItem (coll_removeAllItems c) = Map.empty" for c :: "group_id coll"
    by (cases c) (auto simp: fun_eq_iff MapCollection_removeAllItems_def ListCollection_removeAllItems_def MapCollection_getItem_def ListCollection_getItem_def)
  ultimately show ?thesis by (auto simp: confined_def outside_def closed_in_def child_def w1(2) split: if_splits)
qed

lemma destroySubtree_ok:
  "world_ok E D DV w \<Longrightarrow> w_groups w g \<noteq> None \<Longrightarrow> destroySubtree n w g = Inr w' \<Longrightarrow>
    world_ok E D DV w' \<and> confined (subtree w g) w w'"
proof (induction n arbitrary: D w g w')
  case (Suc n)
  obtain w1 where w1: "destroyViewsAndData w g = Inr w1" "destroyGroupsAndData_by (destroySubtree n) w1 g = Inr w'"
    using Suc.prems(3) by (cases "destroyViewsAndData w g") auto
  note v = destroyViewsAndData_ok [OF Suc.prems(1,2) w1(1)]
  have g1: "w_groups w1 g \<noteq> None" using tree_fields_live [OF v(3)] Suc.prems(2) by simp
  have "world_ok E D DV w' \<and> confined (subtree w1 g) w1 w'"
    by (rule destroyGroupsAndData_by_ok [OF Suc.IH v(1) g1 w1(2)])
  moreover have "outside (subtree w g) w w1" by (rule outside_mono [OF v(2)]) simp
  ultimately show ?case using tree_fields_child(3) [OF v(3)] outside_trans unfolding confined_def by metis
qed simp

lemma destroyGroupsAndData_ok:
  assumes "world_ok E D DV w" and "w_groups w g \<noteq> None"
  shows "destroyGroupsAndData w g = Inr w' \<Longrightarrow> world_ok E D DV w'"
    and "destroyGroupSubtreeAndData w g = Inr w' \<Longrightarrow> world_ok E D DV w'"
proof -
  show "destroyGroupsAndData w g = Inr w' \<Longrightarrow> world_ok E D DV w'"
    using destroyGroupsAndData_by_ok [of E D DV "destroySubtree (next_group w)" w g w'] destroySubtree_ok assms
    unfolding destroyGroupsAndData_def by blast
  show "destroyGroupSubtreeAndData w g = Inr w' \<Longrightarrow> world_ok E D DV w'"
    using destroySubtree_ok [OF assms] unfolding destroyGroupSubtreeAndData_def by blast
qed

lemma destroyGroupAndData_index_ok:
  assumes ok: "world_ok E D DV w" and G: "w_groups w g = Some G" and des: "destroyGroupAndData_at w g i = Inr w'"
  shows "world_ok E D DV w'"
proof -
  have "confined (subtree w g) w w" using closed_in_subtree by (simp add: confined_def outside_def)
  moreover have "world_ok E (insert c D) DV x' \<and> confined (subtree x c) x x'"
    if "world_ok E (insert c D) DV x" "w_groups x c \<noteq> None" "destroyGroupSubtreeAndData x c = Inr x'" for x x' c
    using that destroySubtree_ok unfolding destroyGroupSubtreeAndData_def by blast
  ultimately show ?thesis
    using destroyGroupAndData_by_step [OF _ ok _ subtree_refl G] des unfolding destroyGroupAndData_at_def by blast
qed

lemma destroyGroupAndData_ok:
  assumes ok: "world_ok E D DV w" and g: "w_groups w g \<noteq> None" and des: "destroyGroupAndData w g path = Inr w'"
  shows "world_ok E D DV w'"
proof -
  obtain w0 r name where walk: "walkPath w g path False = ((w0, r), name)" by (metis prod.exhaust)
  show ?thesis
  proof (cases r)
    case None
    with des walk ok show ?thesis by (simp add: destroyGroupAndData_def)
  next
    case (Some h)
    obtain H where H: "w_groups w h = Some H" using walkPath_False_live [OF world_okD(3) [OF ok] g] walk Some by blast
    obtain r' where r': "detachGroup w h name = Inr r'" using des walk Some by (cases "detachGroup w h name") (auto simp: destroyGroupAndData_def)
    from world_okD(5) [OF ok] H r' show ?thesis
    proof (cases rule: detachGroup_cases)
      case absent
      with des walk Some r' ok show ?thesis by (simp add: destroyGroupAndData_def destroyGroupAndData_by_def)
    next
      case (found i c)
      then have "destroyGroupAndData_at w h i = Inr w'" using des walk Some r' by (simp add: destroyGroupAndData_def destroyGroupAndData_at_def)
      with destroyGroupAndData_index_ok [OF ok H] show ?thesis by blast
    qed
  qed
qed

section \<open>Moving, copying and renaming\<close>

lemma coll_ok_named:
  assumes "coll_ok name_of False c" and "coll_getItem c i = Some x"
  shows "name_of x \<noteq> []"
proof -
  obtain m where m: "c = MapColl m" "mc_inv name_of m" "mc_name2idx_map m [] = None"
    using assms(1) by (auto simp: coll_ok_def split: coll.splits)
  show ?thesis using named_lookup(3) [OF m(2), of "[]" i] m(1,3) assms(2) by auto
qed

lemma owned_named:
  assumes "owners_ok DV w" and "owned w g i v" and "w_groups w g = Some G" and "\<not> g_is_list G"
  shows "v_name w v \<noteq> []"
  using coll_ok_named [of "v_name w" "g_views G" i v] owners_okD(1) [OF assms(1,3)] assms(2-4) by (simp add: owned_def)

lemma child_named:
  assumes "groups_ok w" and "child w g i c" and "w_groups w g = Some G" and "\<not> g_is_list G"
  shows "group_name w c \<noteq> []"
  using coll_ok_named [of "group_name w" "g_groups G" i c] groups_okD(2) [OF assms(1,3)] assms(2-4) by (simp add: child_def)

text \<open>A view is taken out of its group by name and put into a group that has no view of its name.\<close>

lemma detach_named_view:
  assumes ok: "world_ok E D DV w" and hv: "owned w h j v" and det: "detachView w h (v_name w v) = Inr r"
  obtains w1 where "r = (w1, Some v)" "world_ok E D (insert v DV) w1" "view_frame w w1" "v \<notin> DV" "v_name w v \<noteq> []"
    "owned w1 = (\<lambda>g i u. owned w g i u \<and> u \<noteq> v)"
proof -
  obtain H where H: "w_groups w h = Some H" using hv by (auto simp: owned_def)
  have map: "\<not> g_is_list H"
    using det H owners_okD(1) [OF world_okD(4) [OF ok] H] by (auto simp: detachView_def getNamedViews_def coll_ok_def split: coll.splits)
  have r: "r = detachView_at w h j" using detachView_named(1) [OF world_okD(4) [OF ok] H map hv] det by simp
  obtain w1 where w1: "detachView_at w h j = (w1, Some v)" "world_ok E D (insert v DV) w1" "view_frame w w1" "v \<notin> DV"
    "owned w1 = (\<lambda>g i u. owned w g i u \<and> u \<noteq> v)" by (rule world_ok_detachView [OF ok hv])
  show thesis by (rule that [OF _ w1(2-4) owned_named [OF world_okD(4) [OF ok] hv H map] w1(5)]) (simp add: r w1(1))
qed

lemma detach_named_group:
  assumes ok: "world_ok E D DV w" and hc: "child w h j c" and det: "detachGroup w h (group_name w c) = Inr r"
  obtains w1 where "r = (w1, Some c)" "world_ok E (insert c D) DV w1" "tree_frame w w1" "c \<notin> D" "group_name w c \<noteq> []"
    "child w1 = (\<lambda>g i x. child w g i x \<and> x \<noteq> c)"
proof -
  obtain H where H: "w_groups w h = Some H" using hc by (auto simp: child_def)
  have map: "\<not> g_is_list H"
    using det H groups_okD(2) [OF world_okD(5) [OF ok] H] by (auto simp: detachGroup_def getNamedGroups_def coll_ok_def split: coll.splits)
  have r: "r = detachGroup_at w h j" using detachGroup_named(1) [OF world_okD(5) [OF ok] H map hc] det by simp
  obtain w1 where w1: "detachGroup_at w h j = (w1, Some c)" "world_ok E (insert c D) DV w1" "tree_frame w w1" "c \<notin> D"
    "child w1 = (\<lambda>g i x. child w g i x \<and> x \<noteq> c)" by (rule world_ok_detachGroup [OF ok hc])
  show thesis by (rule that [OF _ w1(2-4) child_named [OF world_okD(5) [OF ok] hc H map] w1(5)]) (simp add: r w1(1))
qed

lemma attach_view_ok:
  assumes ok: "world_ok E D (insert v DV) w1" and "v \<notin> DV" and G: "w_groups w1 g \<noteq> None" and nm: "v_name w1 v \<noteq> []"
    and free: "\<not> hasChildView w1 g (v_name w1 v)"
  shows "world_ok E D DV (fst (attachView w1 g v))"
proof -
  obtain G where "w_groups w1 g = Some G" using G by blast
  from world_ok_attachView(1) [OF ok insertI1 this free] nm assms(2) show ?thesis by simp
qed

lemma attach_group_ok:
  assumes ok: "world_ok E (insert c D) DV w1" and "c \<notin> D" and G: "w_groups w1 g \<noteq> None" and nm: "group_name w1 c \<noteq> []"
    and free: "\<not> hasChildGroup w1 g (group_name w1 c)" and sub: "g \<notin> subtree w1 c"
  shows "world_ok E D DV (fst (attachGroup w1 g c))"
proof -
  obtain G where G: "w_groups w1 g = Some G" using G by blast
  obtain w' where w': "attachGroup w1 g c = (w', Some c)" "tree_ok (insert c D - {c}) w'" "tree_frame w1 w'"
    by (rule attachGroup_effect [OF world_okD(3) [OF ok] insertI1 G sub free]) (use nm in auto)
  from world_ok_tree_frame [OF ok w'(3,2)] w'(1) assms(2) show ?thesis by simp
qed

lemma hasChildView_less:
  assumes "owners_ok DV w" and "owners_ok DV' w1" and "w_groups w g = Some G" and "w_groups w1 g = Some G1"
    and "g_is_list G1 = g_is_list G" and "v_name w1 = v_name w" and "\<And>i v. owned w1 g i v \<Longrightarrow> owned w g i v"
  shows "hasChildView w1 g name \<Longrightarrow> hasChildView w g name"
  using hasChildView_iff(1) [OF assms(1,3)] hasChildView_iff(1) [OF assms(2,4)] assms(5-7) by metis

lemma hasChildGroup_less:
  assumes "groups_ok w" and "groups_ok w1" and "w_groups w g = Some G" and "w_groups w1 g = Some G1"
    and "g_is_list G1 = g_is_list G" and "group_name w1 = group_name w" and "\<And>i c. child w1 g i c \<Longrightarrow> child w g i c"
  shows "hasChildGroup w1 g name \<Longrightarrow> hasChildGroup w g name"
  using hasChildGroup_iff(1) [OF assms(1,3)] hasChildGroup_iff(1) [OF assms(2,4)] assms(5-7) by metis

lemma moveView_ok:
  assumes ok: "world_ok E D DV w" and g: "w_groups w g \<noteq> None" and hv: "owned w h j v" and mv: "moveView w g (Some v) = Inr (w', r)"
  shows "world_ok E D DV w'"
proof -
  have own: "v_owner w v = Some h" using owners_okD(2) [OF world_okD(4) [OF ok]] hv by blast
  show ?thesis
  proof (cases "h = g \<or> hasChildView w g (v_name w v)")
    case True
    with mv own ok show ?thesis by (auto simp: moveView_def split: if_splits)
  next
    case False
    obtain x where x: "detachView w h (v_name w v) = Inr x"
      using mv own False by (cases "detachView w h (v_name w v)") (auto simp: moveView_def)
    obtain w1 where w1: "x = (w1, Some v)" "world_ok E D (insert v DV) w1" "view_frame w w1" "v \<notin> DV" "v_name w v \<noteq> []"
      "owned w1 = (\<lambda>g i u. owned w g i u \<and> u \<noteq> v)" by (rule detach_named_view [OF ok hv x])
    note f = view_frame_fields [OF w1(3)]
    obtain G where G: "w_groups w g = Some G" using g by blast
    obtain G1 where G1: "w_groups w1 g = Some G1" "g_is_list G1 = g_is_list G" by (rule tree_fields_get [OF f(5) G])
    have "\<not> hasChildView w1 g (v_name w1 v)"
      using hasChildView_less [OF world_okD(4) [OF ok] world_okD(4) [OF w1(2)] G G1 f(4)] w1(6) False f(4) by auto
    then have "world_ok E D DV (fst (attachView w1 g v))"
      by (intro attach_view_ok [OF w1(2,4)]) (use G1 w1(5) f(4) in auto)
    with mv own False x w1(1) show ?thesis by (simp add: moveView_def)
  qed
qed

text \<open>The first half of \<^verbatim>\<open>moveGroup\<close>: the group is taken out of its parent, and its name is still free in the target.\<close>

lemma moveGroup_detached:
  assumes ok: "world_ok E D DV w" and G: "w_groups w g = Some G" and hc: "child w h j c"
    and free: "\<not> hasChildGroup w g (group_name w c)" and x: "detachGroup w h (group_name w c) = Inr x"
  obtains w1 G1 where "x = (w1, Some c)" "world_ok E (insert c D) DV w1" "tree_frame w w1" "c \<notin> D" "group_name w1 c \<noteq> []"
    "child w1 = (\<lambda>g i x. child w g i x \<and> x \<noteq> c)" "w_groups w1 g = Some G1" "\<not> hasChildGroup w1 g (group_name w1 c)"
    "moveGroup w g (Some c) = Inr (fst (attachGroup w1 g c), Some c)"
proof -
  obtain C where C: "w_groups w c = Some C" "g_parent C = Some h" by (rule group_linksD [OF world_okD(6) [OF ok] hc])
  obtain w1 where w1: "x = (w1, Some c)" "world_ok E (insert c D) DV w1" "tree_frame w w1" "c \<notin> D" "group_name w c \<noteq> []"
    "child w1 = (\<lambda>g i x. child w g i x \<and> x \<noteq> c)" by (rule detach_named_group [OF ok hc x])
  note f = tree_frame_fields [OF w1(3)]
  obtain G1 where G1: "w_groups w1 g = Some G1" using G view_fields_eqD(1) [OF f(8), of g] by auto
  have list: "g_is_list G1 = g_is_list G" using view_fields_eqD(3) [OF f(8) G1 G] by blast
  have "\<not> hasChildGroup w1 g (group_name w1 c)"
    using hasChildGroup_less [OF world_okD(5) [OF ok] world_okD(5) [OF w1(2)] G G1 list f(7)] w1(6) free f(7) by auto
  moreover have "moveGroup w g (Some c) = Inr (fst (attachGroup w1 g c), Some c)"
    using C free x w1(1) by (simp add: moveGroup_def)
  ultimately show thesis by (intro that [OF w1(1-4) _ w1(6) G1]) (use w1(5) f(7) in auto)
qed

lemma moveGroup_ok:
  assumes ok: "world_ok E D DV w" and g: "w_groups w g \<noteq> None" and hc: "child w h j c" and sub: "g \<notin> subtree w c"
    and mv: "moveGroup w g (Some c) = Inr (w', r)"
  shows "world_ok E D DV w'"
proof -
  obtain C where C: "w_groups w c = Some C" "g_parent C = Some h" by (rule group_linksD [OF world_okD(6) [OF ok] hc])
  obtain G where G: "w_groups w g = Some G" using g by blast
  show ?thesis
  proof (cases "hasChildGroup w g (group_name w c)")
    case True
    with mv ok show ?thesis by (simp add: moveGroup_def)
  next
    case False
    obtain x where x: "detachGroup w h (group_name w c) = Inr x"
      using mv C False by (cases "detachGroup w h (group_name w c)") (auto simp: moveGroup_def)
    obtain w1 G1 where w1: "world_ok E (insert c D) DV w1" "c \<notin> D" "group_name w1 c \<noteq> []"
      "child w1 = (\<lambda>g i x. child w g i x \<and> x \<noteq> c)" "w_groups w1 g = Some G1" "\<not> hasChildGroup w1 g (group_name w1 c)"
      "moveGroup w g (Some c) = Inr (fst (attachGroup w1 g c), Some c)"
      by (rule moveGroup_detached [OF ok G hc False x])
    have "g \<notin> subtree w1 c" using detach_subtree(1) [OF world_okD(3) [OF ok] hc w1(4)] sub by simp
    then have "world_ok E D DV (fst (attachGroup w1 g c))"
      by (intro attach_group_ok [OF w1(1,2)]) (use w1 in auto)
    with mv w1(7) show ?thesis by simp
  qed
qed

text \<open>
  Moving a group to a group below it: every group below the moved one stays allocated, in a cycle that
  the root does not reach.
\<close>

lemma moveGroup_below:
  assumes ok: "world_ok E {} DV w" and hc: "child w h j c" and H: "w_groups w h = Some H" "\<not> g_is_list H"
    and below: "g \<in> subtree w c" "g \<noteq> c" and free: "\<not> hasChildGroup w g (group_name w c)"
  shows "\<exists>w'. moveGroup w g (Some c) = Inr (w', Some c) \<and> (c, c) \<in> (childrel w')\<^sup>+ \<and>
    (\<forall>x. (c, x) \<in> (childrel w)\<^sup>* \<longrightarrow> w_groups w' x \<noteq> None \<and> (c, x) \<in> (childrel w')\<^sup>* \<and> (root, x) \<notin> (childrel w')\<^sup>*)"
proof -
  note t = tree_okD [OF world_okD(3) [OF ok]]
  obtain C where C: "w_groups w c = Some C" "c \<noteq> root" by (rule group_linksD [OF t(2) hc])
  have live: "w_groups w x \<noteq> None" if "(c, x) \<in> (childrel w)\<^sup>*" for x
    using that C(1) by (cases rule: rtranclE) (auto simp: childrel_def elim: group_linksD [OF t(2)])
  then obtain G where G: "w_groups w g = Some G" using below(1) by (auto simp: subtree_def)
  obtain w1 G1 where w1: "world_ok E (insert c {}) DV w1" "tree_frame w w1" "c \<notin> {}" "group_name w1 c \<noteq> []"
    "child w1 = (\<lambda>g i x. child w g i x \<and> x \<noteq> c)" "w_groups w1 g = Some G1" "\<not> hasChildGroup w1 g (group_name w1 c)"
    "moveGroup w g (Some c) = Inr (fst (attachGroup w1 g c), Some c)"
    by (rule moveGroup_detached [OF ok G hc free detachGroup_named(1) [OF t(1) H hc]])
  obtain w' i C1 coll where w': "attachGroup w1 g c = (w', Some c)" "tree_frame w1 w'" "child w' = (\<lambda>h j x. child w1 h j x \<or> (h = g \<and> j = i \<and> x = c))"
    by (rule attachGroup_links [OF world_okD(3) [OF w1(1)] insertI1 w1(6) _ w1(7)]) (use below(2) w1(4) in auto)
  have rel: "childrel w' = insert (g, c) {(p, x) \<in> childrel w. x \<noteq> c}" by (auto simp: childrel_def w'(3) w1(5))
  have kept: "(c, x) \<in> (childrel w')\<^sup>*" if "(c, x) \<in> (childrel w)\<^sup>*" for x
  proof -
    have "(c, x) \<in> (childrel w1)\<^sup>*"
      using that detach_subtree(1) [OF world_okD(3) [OF ok] hc w1(5)] by (auto simp: subtree_def)
    moreover have "childrel w1 \<subseteq> childrel w'" by (auto simp: childrel_def w'(3))
    ultimately show ?thesis using rtrancl_mono by blast
  qed
  have out: "(c, x) \<notin> (childrel w)\<^sup>*" if "(root, x) \<in> (childrel w')\<^sup>*" for x
    using that
  proof (induction rule: rtrancl_induct)
    case base
    show ?case using no_parent_root [OF t(2), of root] C(2) by (auto elim: rtranclE)
  next
    case (step p x)
    then have px: "(p, x) \<in> childrel w" "x \<noteq> c" using below(1) by (auto simp: rel subtree_def)
    show ?case
    proof
      assume "(c, x) \<in> (childrel w)\<^sup>*"
      then obtain q where "(c, q) \<in> (childrel w)\<^sup>*" "(q, x) \<in> childrel w" using px(2) by (auto elim: rtranclE)
      with unique_parent_rel [OF t(2) px(1)] step.IH show False by blast
    qed
  qed
  have "(c, c) \<in> (childrel w')\<^sup>+" using kept [of g] below(1) rel by (auto simp: subtree_def intro: rtrancl_into_trancl1)
  moreover have "w_groups w' x \<noteq> None" if "(c, x) \<in> (childrel w)\<^sup>*" for x
    using live [OF that] view_fields_eqD(1) [OF tree_frame_fields(8) [OF w1(2)], of x]
      view_fields_eqD(1) [OF tree_frame_fields(8) [OF w'(2)], of x] by simp
  ultimately show ?thesis using w1(8) w'(1) kept out by auto
qed

lemma path_parts_single: "name \<noteq> [] \<Longrightarrow> CHR ''/'' \<notin> set name \<Longrightarrow> path_parts name = [name]"
  by (simp add: path_single)

lemma hasView_single: "name \<noteq> [] \<Longrightarrow> CHR ''/'' \<notin> set name \<Longrightarrow> hasView w g name = hasChildView w g name"
  by (simp add: hasView_def walkPath_const_def path_parts_single)

lemma hasGroup_single: "name \<noteq> [] \<Longrightarrow> CHR ''/'' \<notin> set name \<Longrightarrow> hasGroup w g name = hasChildGroup w g name"
  by (simp add: hasGroup_def walkPath_const_def path_parts_single)

lemma View_rename_ok:
  assumes ok: "world_ok E D DV w" and hv: "owned w p j v" and ren: "View_rename w v name = Inr (w', r)"
  shows "world_ok E D DV w'"
proof -
  have own: "v_owner w v = Some p" using owners_okD(2) [OF world_okD(4) [OF ok]] hv by blast
  show ?thesis
  proof (cases "name = v_name w v \<or> name = [] \<or> CHR ''/'' \<in> set name \<or> hasGroup w p name \<or> hasView w p name")
    case True
    with ren own ok show ?thesis by (auto simp: View_rename_def split: if_splits)
  next
    case False
    obtain x where x: "detachView w p (v_name w v) = Inr x"
      using ren own False by (cases "detachView w p (v_name w v)") (auto simp: View_rename_def)
    obtain w1 where w1: "x = (w1, Some v)" "world_ok E D (insert v DV) w1" "view_frame w w1" "v \<notin> DV"
      "owned w1 = (\<lambda>g i u. owned w g i u \<and> u \<noteq> v)" by (rule detach_named_view [OF ok hv x])
    note f = view_frame_fields [OF w1(3)]
    define w2 where "w2 = w1\<lparr>v_name := (v_name w1)(v := name)\<rparr>"
    have tf: "tree_fields w2 = tree_fields w1" by (simp add: w2_def tree_fields_def fun_eq_iff)
    have "tree_ok D w2" by (rule tree_ok_fields [OF tf _ world_okD(3) [OF w1(2)]]) (simp add: w2_def)
    moreover have "owners_ok (insert v DV) w2" unfolding w2_def by (rule owners_ok_rename [OF world_okD(4) [OF w1(2)] insertI1])
    ultimately have w2: "world_ok E D (insert v DV) w2" using world_okD(2) [OF w1(2)] by (simp add: world_ok_def forest_inv_def w2_def)
    obtain P where P: "w_groups w p = Some P" using hv by (auto simp: owned_def)
    obtain P1 where P1: "w_groups w1 p = Some P1" "g_is_list P1 = g_is_list P" by (rule tree_fields_get [OF f(5) P])
    have P2: "w_groups w2 p = Some P1" using P1 by (simp add: w2_def)
    have "\<not> hasChildView w p name" using False hasView_single by blast
    moreover have "owned w2 = owned w1" by (simp add: fun_eq_iff owned_def w2_def)
    ultimately have "\<not> hasChildView w2 p name"
      using hasChildView_iff(1) [OF world_okD(4) [OF ok] P, of name] hasChildView_iff(1) [OF world_okD(4) [OF w2] P2, of name] P1(2) f(4)
      by (auto simp: w1(5) w2_def split: if_splits)
    then have "world_ok E D DV (fst (attachView w2 p v))"
      by (intro attach_view_ok [OF w2 w1(4)]) (use P2 False in \<open>auto simp: w2_def\<close>)
    with ren own False x w1(1) show ?thesis by (simp add: View_rename_def w2_def)
  qed
qed

lemma Group_rename_ok:
  assumes ok: "world_ok E D DV w" and G: "w_groups w g = Some G" and gD: "g \<notin> D" and ren: "Group_rename w g name = Inr (w', r)"
  shows "world_ok E D DV w'"
proof (cases "name = group_name w g \<or> name = [] \<or> CHR ''/'' \<in> set name")
  case True
  with ren ok show ?thesis by (auto simp: Group_rename_def split: if_splits)
next
  case valid: False
  let ?ren = "\<lambda>w. upd_group g (\<lambda>G. G\<lparr>g_name := name\<rparr>) w"
  have ren_ok: "world_ok E D' DV (?ren x)" "child (?ren x) = child x" "view_fields (?ren x) = view_fields x"
    if "world_ok E D' DV x" "g \<in> insert root D'" for x :: "('a, 'b) world" and D'
  proof -
    note t = tree_ok_rename [OF world_okD(3) [OF that(1)] that(2), where name = name]
    show "child (?ren x) = child x" "view_fields (?ren x) = view_fields x" by (rule t(2), rule t(3))
    have "owners_ok DV (?ren x)" by (rule owners_ok_fields [OF t(3) _ _ _ _ _ world_okD(4) [OF that(1)]]) simp_all
    with t(1) world_okD(2) [OF that(1)] show "world_ok E D' DV (?ren x)" by (simp add: world_ok_def forest_inv_def)
  qed
  show ?thesis
  proof (cases "g = root")
    case True
    with ren valid ren_ok(1) [OF ok] show ?thesis by (auto simp: Group_rename_def split: option.splits)
  next
    case False
    obtain p where p: "g_parent G = Some p" "child w p (g_index G) g" by (rule group_linksE [OF world_okD(6) [OF ok] G False gD])
    show ?thesis
    proof (cases "hasGroup w p name \<or> hasView w p name")
      case True
      with ren valid False p G ok show ?thesis by (auto simp: Group_rename_def)
    next
      case free: False
      obtain x where x: "detachGroup w p (group_name w g) = Inr x"
        using ren valid False p(1) G free by (cases "detachGroup w p (group_name w g)") (auto simp: Group_rename_def)
      obtain w1 where w1: "x = (w1, Some g)" "world_ok E (insert g D) DV w1" "tree_frame w w1" "g \<notin> D"
        "child w1 = (\<lambda>h i x. child w h i x \<and> x \<noteq> g)" by (rule detach_named_group [OF ok p(2) x])
      note f = tree_frame_fields [OF w1(3)] and r1 = ren_ok [OF w1(2)]
      obtain P where P: "w_groups w p = Some P" using p(2) by (auto simp: child_def)
      have vf: "view_fields (?ren w1) = view_fields w" using r1(3) f(8) by simp
      then obtain P2 where P2: "w_groups (?ren w1) p = Some P2" using view_fields_eqD(1) [OF vf, of p] P by auto
      have list: "g_is_list P2 = g_is_list P" using view_fields_eqD(3) [OF vf P2 P] by blast
      have names: "group_name (?ren w1) h = group_name w h" if "h \<noteq> g" for h using that f(7) by (simp add: group_name_upd_other)
      have gn: "group_name (?ren w1) g = name" by (simp add: group_name_def)
      have "\<not> hasChildGroup w p name" using free hasGroup_single valid by blast
      then have no: "\<not> hasChildGroup (?ren w1) p name"
        using hasChildGroup_iff(1) [OF world_okD(5) [OF ok] P, of name] hasChildGroup_iff(1) [OF world_okD(5) [OF r1(1)] P2, of name] list names
        by (auto simp: r1(2) w1(5))
      have "subtree (?ren w1) g = subtree w g"
        using detach_subtree(1) [OF world_okD(3) [OF ok] p(2) w1(5)] r1(2) by (simp add: subtree_def childrel_def)
      moreover have "p \<notin> subtree w g" using subtree_strict [OF tree_okD(2,3) [OF world_okD(3) [OF ok]] p(2)] .
      ultimately have "world_ok E D DV (fst (attachGroup (?ren w1) p g))"
        by (intro attach_group_ok [OF r1(1) w1(4)]) (use P2 no valid gn in auto)
      with ren valid False p(1) G free x w1(1) show ?thesis by (simp add: Group_rename_def)
    qed
  qed
qed

section \<open>Views created with data\<close>

text \<open>Operations on one live view neither create nor remove views.\<close>

lemma dom_upd_view: "views s v \<noteq> None \<Longrightarrow> dom (views (upd_view v f s)) = dom (views s)"
  by auto

lemma dom_View_apply: "views s v \<noteq> None \<Longrightarrow> dom (views (View_apply E v s)) = dom (views s)"
  by (auto simp: View_apply_def Let_def)

lemma views_Buffer_attachToView [simp]: "views (Buffer_attachToView b v s) = views s"
  by (simp add: Buffer_attachToView_def)

lemma views_Buffer_allocate_typed [simp]: "views (Buffer_allocate_typed E b type n s) = views s"
  by (auto simp: Buffer_allocate_typed_def Buffer_allocate_def Buffer_describe_def allocateBytes_def Let_def split: prod.splits if_splits)

lemma views_createBuffer [simp]: "views (fst (DataStore_createBuffer E s)) = views s"
  by (simp add: DataStore_createBuffer_def Let_def split: prod.split)

lemma dom_View_attachBuffer:
  assumes "views s v = Some vw" and "v_state vw = EMPTY"
  shows "dom (views (View_attachBuffer E v buff s)) = dom (views s)"
  using assms by (auto simp: View_attachBuffer_def Let_def dom_View_apply)

lemma dom_View_setExternalDataPtr:
  assumes "views s v = Some vw"
  shows "dom (views (View_setExternalDataPtr E v p s)) = dom (views s)"
  using assms by (auto simp: View_setExternalDataPtr_def Let_def dom_View_apply)

lemma dom_View_setScalar:
  assumes "views s v = Some vw"
  shows "dom (views (View_setScalar E v value s)) = dom (views s)" "dom (views (View_setString E v str s)) = dom (views s)"
  using assms by (auto simp: View_setScalar_def View_setString_def)

lemma dom_View_allocate:
  assumes "views s v = Some vw"
  shows "dom (views (View_allocate E v s)) = dom (views s)"
proof -
  have live: "dom (views (View_apply E v s')) = dom (views s')" if "v \<in> dom (views s')" for s' :: "('a, 'b) store"
    using that dom_View_apply by blast
  obtain s1 b where c: "DataStore_createBuffer E s = (s1, b)" by (cases "DataStore_createBuffer E s")
  then have "views s1 = views s" using views_createBuffer [of E s] by simp
  then show ?thesis using assms by (simp add: View_allocate_def Let_def c live insert_absorb domI)
qed

lemma dom_View_copyView:
  assumes "views s c = Some cw" and "v_state cw = EMPTY"
  shows "dom (views (View_copyView E v c s)) = dom (views s)"
proof -
  define s1 where "s1 = (if View_isDescribed E (view s v) then upd_view c (describe_dtype E (v_schema (view s v))) s else s)"
  have "\<exists>cw1. views s1 c = Some cw1 \<and> v_state cw1 = EMPTY \<and> dom (views s1) = dom (views s)"
    using assms by (auto simp: s1_def)
  then obtain cw1 where c1: "views s1 c = Some cw1" "v_state cw1 = EMPTY" "dom (views s1) = dom (views s)" by blast
  have "dom (views (upd_view c f s1)) = dom (views s1)" for f using c1(1) by (intro dom_upd_view) simp
  with c1(3) dom_View_attachBuffer [OF c1(1,2)] dom_View_setExternalDataPtr [OF c1(1)] show ?thesis
    unfolding View_copyView_def Let_def s1_def [symmetric] by (simp split: State.split)
qed

text \<open>The result of a creation: the view, if there is one, is still empty.\<close>

definition created :: "('d, 'n) env \<Rightarrow> group_id set \<Rightarrow> view_id set \<Rightarrow> (buffer_id \<Rightarrow> 'd Buffer option) \<Rightarrow> ('d, 'n) world \<times> view_id option \<Rightarrow> bool" where
  "created E D DV B wv \<longleftrightarrow>
     world_ok E D DV (fst wv) \<and> buffers (w_store (fst wv)) = B \<and>
     (\<forall>v. snd wv = Some v \<longrightarrow> (\<exists>vw. views (w_store (fst wv)) v = Some vw \<and> v_state vw = EMPTY))"

lemma createView_created:
  assumes ok: "world_ok E D DV w" and g: "w_groups w g \<noteq> None"
  shows "created E D DV (buffers (w_store w)) (createView E w g path)"
proof -
  obtain w' r where cre: "createView E w g path = (w', r)" by (cases "createView E w g path")
  note c = createView_effect [OF world_okD(1) [OF ok] g cre]
  show ?thesis
  proof (cases r)
    case None
    with c(1,2) world_ext_same [of w w'] world_okD(2) [OF ok] cre show ?thesis by (simp add: created_def world_ok_def same_views_def)
  next
    case (Some v)
    then have v: "\<not> live_view w v" "w_store w' = View_create E v (w_store w)" using c(3) by auto
    then have "store_inv E (w_store w')" using store_inv_View_create [OF world_okD(2) [OF ok]] by simp
    with c(1) Some v(2) cre show ?thesis by (simp add: created_def world_ok_def View_create_def View_new_def)
  qed
qed

lemma created_none: "world_ok E D DV w \<Longrightarrow> created E D DV (buffers (w_store w)) (w, None)"
  by (simp add: created_def)

lemma created_describe:
  assumes c: "created E D DV B wv" and f: "only_describes f"
  shows "created E D DV B (with_view (\<lambda>v. upd_view v f) wv)"
proof (cases "snd wv")
  case None
  with c show ?thesis by (cases wv) (simp add: with_view_def)
next
  case (Some v)
  then obtain w where wv: "wv = (w, Some v)" by (cases wv) auto
  then obtain vw where vw: "views (w_store w) v = Some vw" "v_state vw = EMPTY" using c by (auto simp: created_def)
  have ok: "world_ok E D DV w" using c wv by (simp add: created_def)
  have "world_ok E D DV (w\<lparr>w_store := upd_view v f (w_store w)\<rparr>)"
    by (rule world_ok_store [OF ok dom_upd_view store_inv_describe [OF world_okD(2) [OF ok] vw(1) f]]) (simp add: vw(1))
  with c wv vw only_describesD(2) [OF f] show ?thesis by (simp add: created_def with_view_def)
qed

lemma created_with:
  assumes c: "created E D DV B wv"
    and f: "\<And>v s vw. store_inv E s \<Longrightarrow> buffers s = B \<Longrightarrow> views s v = Some vw \<Longrightarrow> v_state vw = EMPTY \<Longrightarrow>
      store_inv E (f v s) \<and> dom (views (f v s)) = dom (views s)"
  shows "world_ok E D DV (fst (with_view f wv))"
proof (cases "snd wv")
  case None
  with c show ?thesis by (cases wv) (simp add: with_view_def created_def)
next
  case (Some v)
  then obtain w where wv: "wv = (w, Some v)" by (cases wv) auto
  then obtain vw where vw: "views (w_store w) v = Some vw" "v_state vw = EMPTY" "buffers (w_store w) = B" using c by (auto simp: created_def)
  have ok: "world_ok E D DV w" using c wv by (simp add: created_def)
  from world_ok_store [OF ok] f [OF world_okD(2) [OF ok] vw(3,1,2)] wv show ?thesis by (simp add: with_view_def)
qed

lemma created_typed:
  assumes "world_ok E D DV w" and "w_groups w g \<noteq> None"
  shows "created E D DV (buffers (w_store w)) (createView_typed E w g path type n)"
    and "created E D DV (buffers (w_store w)) (createViewWithShape E w g path type ndims shape)"
    and "created E D DV (buffers (w_store w)) (createView_dtype E w g path d)"
  using created_none [OF assms(1)] created_describe [OF createView_created [OF assms, of path]]
  by (simp_all add: createView_typed_def createViewWithShape_def createView_dtype_def)

text \<open>Every way of creating a view keeps the invariant.\<close>

lemmas created_ops = createView_created created_typed

lemma create_buffer_ok:
  assumes "created E D DV B wv" and "\<And>b. buff = Some b \<Longrightarrow> B b \<noteq> None"
  shows "world_ok E D DV (fst (with_view (\<lambda>v. View_attachBuffer E v buff) wv))"
  by (rule created_with [OF assms(1)]) (use store_inv_View_attachBuffer dom_View_attachBuffer assms(2) in blast)

lemma create_external_ok:
  assumes "created E D DV B wv"
  shows "world_ok E D DV (fst (with_view (\<lambda>v. View_setExternalDataPtr E v p) wv))"
  by (rule created_with [OF assms]) (use store_inv_View_setExternalDataPtr dom_View_setExternalDataPtr in blast)

lemma create_allocate_ok:
  assumes "created E D DV B wv"
  shows "world_ok E D DV (fst (with_view (View_allocate E) wv))"
  by (rule created_with [OF assms]) (use store_inv_View_allocate dom_View_allocate in blast)

lemma create_scalar_ok:
  assumes "created E D DV B wv"
  shows "world_ok E D DV (fst (with_view (\<lambda>v. View_setScalar E v value) wv))"
    and "world_ok E D DV (fst (with_view (\<lambda>v. View_setString E v str) wv))"
proof -
  show "world_ok E D DV (fst (with_view (\<lambda>v. View_setScalar E v value) wv))"
    by (rule created_with [OF assms]) (auto simp: dom_View_setScalar(1) intro: store_inv_View_setScalar(1))
  show "world_ok E D DV (fst (with_view (\<lambda>v. View_setString E v str) wv))"
    by (rule created_with [OF assms]) (auto simp: dom_View_setScalar(2) intro: store_inv_View_setScalar(2))
qed

section \<open>Copying views and groups\<close>

lemma createChildView_groups: "w_groups w h \<noteq> None \<Longrightarrow> w_groups (fst (createChildView E w g name)) h \<noteq> None"
  by (auto simp: createChildView_def attachView_def Let_def split: prod.splits)

lemma attachGroup_groups: "w_groups w h \<noteq> None \<Longrightarrow> w_groups (fst (attachGroup w g c)) h \<noteq> None"
  by (auto simp: attachGroup_def Let_def split: prod.splits)

lemma createChildGroup_groups: "w_groups w h \<noteq> None \<Longrightarrow> w_groups (fst (createChildGroup w g name is_list)) h \<noteq> None"
  by (simp add: createChildGroup_def Let_def attachGroup_groups del: not_None_eq)

lemma createChildGroup_live:
  "createChildGroup w g name is_list = (w', Some c) \<Longrightarrow> w_groups w' c \<noteq> None"
  by (auto simp: createChildGroup_def attachGroup_def Let_def split: if_splits prod.splits)

lemma createView_keeps_groups:
  assumes "forest_inv D DV w" and "w_groups w g \<noteq> None" and "createView E w g path = (w', r)" and h: "w_groups w h \<noteq> None"
  shows "w_groups w' h \<noteq> None"
proof -
  obtain w1 r1 name where walk: "walkPath w g path True = ((w1, r1), name)" by (metis prod.exhaust)
  have h1: "w_groups w1 h \<noteq> None" using world_ext_name(2) [OF walkPath_True(2) [OF assms(1,2) walk] h] .
  have "w' = w \<or> w' = w1 \<or> (\<exists>k n r. createChildView E w k n = (w', r)) \<or> (\<exists>k n r. createChildView E w1 k n = (w', r))"
    using assms(3) walk by (auto simp: createView_def split: if_splits option.splits)
  with h h1 createChildView_groups show ?thesis by (metis fst_conv)
qed

lemma createGroup_keeps_groups:
  assumes "forest_inv D DV w" and "w_groups w g \<noteq> None" and "createGroup w g path is_list = (w', r)"
  shows "w_groups w h \<noteq> None \<Longrightarrow> w_groups w' h \<noteq> None" "r = Some c \<Longrightarrow> w_groups w' c \<noteq> None"
proof -
  obtain w1 r1 name where walk: "walkPath w g path True = ((w1, r1), name)" by (metis prod.exhaust)
  note ext = world_ext_name(2) [OF walkPath_True(2) [OF assms(1,2) walk]]
  show "w_groups w' h \<noteq> None" if "w_groups w h \<noteq> None"
    using assms(3) walk ext [OF that] createChildGroup_groups [of w1 h _ name is_list]
    by (auto simp: createGroup_def split: option.splits) (metis fst_conv not_Some_eq)
  show "w_groups w' c \<noteq> None" if "r = Some c"
    using assms(3) walk that createChildGroup_live [of w1 _ name is_list w' c] by (auto simp: createGroup_def split: option.splits)
qed

lemma copyView_ok:
  assumes ok: "world_ok E D DV w" and g: "w_groups w g \<noteq> None" and vp: "\<And>v. vp = Some v \<Longrightarrow> live_view w v"
    and cp: "copyView E w g vp = Inr (w', r)"
  shows "world_ok E D DV w'" "w_groups w h \<noteq> None \<Longrightarrow> w_groups w' h \<noteq> None" "live_view w v \<Longrightarrow> live_view w' v"
proof -
  have "world_ok E D DV w' \<and> (\<forall>h. w_groups w h \<noteq> None \<longrightarrow> w_groups w' h \<noteq> None) \<and> (\<forall>v. live_view w v \<longrightarrow> live_view w' v)"
  proof (cases "vp = None \<or> hasChildView w g (v_name w (the vp))")
    case True
    with cp ok show ?thesis by (cases vp) (auto simp: copyView_def)
  next
    case False
    then obtain v where v: "vp = Some v" "live_view w v" using vp by auto
    obtain w1 copy where w1: "createView E w g (v_name w v) = (w1, Some copy)"
      using cp False v by (auto simp: copyView_def split: prod.splits option.splits)
    note c = createView_created [OF ok g, of "v_name w v"] and eff = createView_effect [OF world_okD(1) [OF ok] g w1]
    have ok1: "world_ok E D DV w1" using c w1 by (simp add: created_def)
    obtain cw where cw: "views (w_store w1) copy = Some cw" "v_state cw = EMPTY" using c w1 by (auto simp: created_def)
    have keep: "live_view w u \<Longrightarrow> live_view w1 u" for u using eff(3) by (simp add: View_create_def)
    then obtain vw where vw: "views (w_store w1) v = Some vw" using v(2) by blast
    have w': "w' = w1\<lparr>w_store := View_copyView E v copy (w_store w1)\<rparr>" using cp v(1) False w1 by (simp add: copyView_def)
    have dom: "dom (views (w_store w')) = dom (views (w_store w1))" using dom_View_copyView [OF cw] by (simp add: w')
    have "world_ok E D DV w'"
      unfolding w' by (rule world_ok_store [OF ok1 dom_View_copyView [OF cw] store_inv_View_copyView [OF world_okD(2) [OF ok1] vw cw]])
    moreover have "live_view w' u" if "live_view w u" for u using keep [OF that] dom by (metis domIff)
    moreover have "w_groups w' h \<noteq> None" if "w_groups w h \<noteq> None" for h
      using createView_keeps_groups [OF world_okD(1) [OF ok] g w1 that] by (simp add: w')
    ultimately show ?thesis by blast
  qed
  then show "world_ok E D DV w'" "w_groups w h \<noteq> None \<Longrightarrow> w_groups w' h \<noteq> None" "live_view w v \<Longrightarrow> live_view w' v" by blast+
qed

text \<open>Copying keeps every group and view that exists; the recursion ends with its depth.\<close>

definition grows :: "('d, 'n) world \<Rightarrow> ('d, 'n) world \<Rightarrow> bool" where
  "grows w w' \<longleftrightarrow> (\<forall>h. w_groups w h \<noteq> None \<longrightarrow> w_groups w' h \<noteq> None) \<and> (\<forall>v. live_view w v \<longrightarrow> live_view w' v)"

lemma grows_trans: "grows w w' \<Longrightarrow> grows w' w'' \<Longrightarrow> grows w w''"
  by (simp add: grows_def)

lemma for_groups_invariant:
  assumes "for_groups w g body = Inr w'" and "P w" and "\<And>w i w'. P w \<Longrightarrow> body w i = Inr w' \<Longrightarrow> P w'"
  shows "P w'"
  using index_loop_partial [where P = "\<lambda>_. P" and nxt = "\<lambda>w. coll_next (g_groups (grp w g))" and body = body] assms
  unfolding for_groups_def by blast

lemma for_views_invariant:
  assumes "for_views w g body = Inr w'" and "P w" and "\<And>w i w'. P w \<Longrightarrow> body w i = Inr w' \<Longrightarrow> P w'"
  shows "P w'"
  using index_loop_partial [where P = "\<lambda>_. P" and nxt = "\<lambda>w. coll_next (g_views (grp w g))" and body = body] assms
  unfolding for_views_def by blast

lemma getGroup_at_live:
  assumes "world_ok E D DV w" and "w_groups w g \<noteq> None" and "getGroup_at w g i = Some c"
  shows "w_groups w c \<noteq> None"
proof -
  obtain G where "w_groups w g = Some G" using assms(2) by blast
  with assms(3) have "child w g i c" by (simp add: getGroup_at_def child_def)
  with child_target_live [OF world_okD(6) [OF assms(1)]] show ?thesis by blast
qed

lemma getView_at_live:
  assumes "world_ok E D DV w" and "w_groups w g \<noteq> None" and "getView_at w g i = Some v"
  shows "live_view w v"
proof -
  obtain G where "w_groups w g = Some G" using assms(2) by blast
  with assms(3) have "owned w g i v" by (simp add: getView_at_def owned_def)
  with owners_okD(2) [OF world_okD(4) [OF assms(1)]] show ?thesis by blast
qed

lemma copyGroup_by_ok:
  "world_ok E D DV w \<Longrightarrow> w_groups w g \<noteq> None \<Longrightarrow> (\<And>c. gp = Some c \<Longrightarrow> w_groups w c \<noteq> None) \<Longrightarrow>
    copyGroup_by n E w g gp = Inr (w', r) \<Longrightarrow> world_ok E D DV w' \<and> grows w w'"
proof (induction n arbitrary: w g gp w' r)
  case (Suc n)
  show ?case
  proof (cases "gp = None \<or> hasChildGroup w g (group_name w (the gp))")
    case True
    with Suc.prems(1,4) show ?thesis by (cases gp) (auto simp: grows_def)
  next
    case False
    then obtain c where c: "gp = Some c" "w_groups w c \<noteq> None" using Suc.prems(3) by auto
    obtain w1 res where w1: "createGroup w g (group_name w c) False = (w1, res)" by (cases "createGroup w g (group_name w c) False")
    note inv1 = createGroup_inv [OF world_okD(1) [OF Suc.prems(1)] Suc.prems(2) w1]
    note keep1 = createGroup_keeps_groups [OF world_okD(1) [OF Suc.prems(1)] Suc.prems(2) w1]
    have ok1: "world_ok E D DV w1" using inv1 world_okD(2) [OF Suc.prems(1)] by (simp add: world_ok_def same_views_def)
    have g1: "grows w w1" using keep1(1) inv1(2) by (auto simp: grows_def same_views_def)
    let ?P = "\<lambda>x. world_ok E D DV x \<and> grows w1 x"
    let ?gbody = "\<lambda>w idx. case res of None \<Rightarrow> Inl NullDeref
        | Some r \<Rightarrow> res_bind (copyGroup_by n E w r (getGroup_at w c idx)) (\<lambda>(w, _). Inr w)"
    let ?vbody = "\<lambda>w idx. case res of None \<Rightarrow> Inl NullDeref
        | Some r \<Rightarrow> res_bind (copyView E w r (getView_at w c idx)) (\<lambda>(w, _). Inr w)"
    obtain w2 where w2: "for_groups w1 c ?gbody = Inr w2" "for_views w2 c ?vbody = Inr w'"
      using Suc.prems(4) c(1) False w1 by (cases "for_groups w1 c ?gbody"; cases "for_views (projr (for_groups w1 c ?gbody)) c ?vbody") auto
    have c1: "w_groups x c \<noteq> None" if "grows w1 x" for x using that keep1(1) [OF c(2)] by (simp add: grows_def)
    have r1: "w_groups x k \<noteq> None" if "grows w1 x" "res = Some k" for x k using that keep1(2) by (simp add: grows_def)
    have gstep: "?P x'" if x: "?P x" "?gbody x i = Inr x'" for x i x'
    proof -
      obtain k r' where k: "res = Some k" "copyGroup_by n E x k (getGroup_at x c i) = Inr (x', r')"
        using x(2) by (cases res; cases "copyGroup_by n E x (the res) (getGroup_at x c i)") auto
      have "world_ok E D DV x' \<and> grows x x'"
        by (rule Suc.IH [OF _ _ _ k(2)]) (use x(1) r1 k(1) c1 getGroup_at_live in blast)+
      with x(1) grows_trans show ?thesis by blast
    qed
    have P1: "?P w1" using ok1 by (simp add: grows_def)
    have P2: "?P w2" by (rule for_groups_invariant [where P = ?P, OF w2(1) P1 gstep])
    have vstep: "?P x'" if x: "?P x" "?vbody x i = Inr x'" for x i x'
    proof -
      obtain k r' where k: "res = Some k" "copyView E x k (getView_at x c i) = Inr (x', r')"
        using x(2) by (cases res; cases "copyView E x (the res) (getView_at x c i)") auto
      have okx: "world_ok E D DV x" "w_groups x k \<noteq> None" "w_groups x c \<noteq> None" using x(1) r1 k(1) c1 by auto
      have vl: "live_view x v" if "getView_at x c i = Some v" for v by (rule getView_at_live [OF okx(1,3) that])
      have "world_ok E D DV x'" "grows x x'"
        using copyView_ok [OF okx(1,2) vl k(2)] unfolding grows_def by blast+
      with x(1) grows_trans show ?thesis by blast
    qed
    have "?P w'" by (rule for_views_invariant [where P = ?P, OF w2(2) P2 vstep])
    with g1 grows_trans show ?thesis by blast
  qed
qed simp

end
