(* ===== verification/SidreTreeMachine.thy ===== *)
theory SidreTreeMachine
  imports SidreWorld
begin

text \<open>
  The data store with its group tree as a state machine: every public operation of groups, and every
  operation on views and buffers, is a step; the invariant holds in every reachable world. The
  properties of the group tree follow: unique owners and names, round trips of creation and lookup
  and of path names, and the exact effect of destroying a group. Two theorems show where the code
  does not do what it means to: views of list-format groups, and moving a group into itself.
\<close>

section \<open>Steps\<close>

text \<open>
  A public operation of a group, called with groups and views that exist, or an operation on
  views and buffers. Moving a group has a guard that the code does not check: the target must not be
  below the group itself.
\<close>

inductive world_step :: "('d, 'n) env \<Rightarrow> ('d, 'n) world \<Rightarrow> ('d, 'n) world \<Rightarrow> bool" for E where
  step_createGroup: "w_groups w g \<noteq> None \<Longrightarrow> createGroup w g path is_list = (w', r) \<Longrightarrow> world_step E w w'"
| step_createUnnamedGroup: "w_groups w g \<noteq> None \<Longrightarrow> createUnnamedGroup w g is_list = (w', r) \<Longrightarrow> world_step E w w'"
| step_createView: "w_groups w g \<noteq> None \<Longrightarrow> createView E w g path = (w', r) \<Longrightarrow> world_step E w w'"
| step_createView_typed: "w_groups w g \<noteq> None \<Longrightarrow> createView_typed E w g path type n = (w', r) \<Longrightarrow> world_step E w w'"
| step_createViewWithShape: "w_groups w g \<noteq> None \<Longrightarrow> createViewWithShape E w g path type ndims shape = (w', r) \<Longrightarrow> world_step E w w'"
| step_createView_dtype: "w_groups w g \<noteq> None \<Longrightarrow> createView_dtype E w g path d = (w', r) \<Longrightarrow> world_step E w w'"
| step_createView_buffer: "w_groups w g \<noteq> None \<Longrightarrow> (\<forall>b. buff = Some b \<longrightarrow> buffers (w_store w) b \<noteq> None) \<Longrightarrow>
    createView_buffer E w g path buff = (w', r) \<Longrightarrow> world_step E w w'"
| step_createView_typed_buffer: "w_groups w g \<noteq> None \<Longrightarrow> (\<forall>b. buff = Some b \<longrightarrow> buffers (w_store w) b \<noteq> None) \<Longrightarrow>
    createView_typed_buffer E w g path type n buff = (w', r) \<Longrightarrow> world_step E w w'"
| step_createViewWithShape_buffer: "w_groups w g \<noteq> None \<Longrightarrow> (\<forall>b. buff = Some b \<longrightarrow> buffers (w_store w) b \<noteq> None) \<Longrightarrow>
    createViewWithShape_buffer E w g path type ndims shape buff = (w', r) \<Longrightarrow> world_step E w w'"
| step_createView_dtype_buffer: "w_groups w g \<noteq> None \<Longrightarrow> (\<forall>b. buff = Some b \<longrightarrow> buffers (w_store w) b \<noteq> None) \<Longrightarrow>
    createView_dtype_buffer E w g path d buff = (w', r) \<Longrightarrow> world_step E w w'"
| step_createView_external: "w_groups w g \<noteq> None \<Longrightarrow> createView_external E w g path p = (w', r) \<Longrightarrow> world_step E w w'"
| step_createView_typed_external: "w_groups w g \<noteq> None \<Longrightarrow> createView_typed_external E w g path type n p = (w', r) \<Longrightarrow> world_step E w w'"
| step_createViewWithShape_external: "w_groups w g \<noteq> None \<Longrightarrow>
    createViewWithShape_external E w g path type ndims shape p = (w', r) \<Longrightarrow> world_step E w w'"
| step_createView_dtype_external: "w_groups w g \<noteq> None \<Longrightarrow> createView_dtype_external E w g path d p = (w', r) \<Longrightarrow> world_step E w w'"
| step_createViewAndAllocate: "w_groups w g \<noteq> None \<Longrightarrow> createViewAndAllocate E w g path type n = (w', r) \<Longrightarrow> world_step E w w'"
| step_createViewWithShapeAndAllocate: "w_groups w g \<noteq> None \<Longrightarrow>
    createViewWithShapeAndAllocate E w g path type ndims shape = (w', r) \<Longrightarrow> world_step E w w'"
| step_createViewAndAllocate_dtype: "w_groups w g \<noteq> None \<Longrightarrow> createViewAndAllocate_dtype E w g path d = (w', r) \<Longrightarrow> world_step E w w'"
| step_createViewScalar: "w_groups w g \<noteq> None \<Longrightarrow> createViewScalar E w g path value = (w', r) \<Longrightarrow> world_step E w w'"
| step_createViewString: "w_groups w g \<noteq> None \<Longrightarrow> createViewString E w g path str = (w', r) \<Longrightarrow> world_step E w w'"
| step_destroyView: "w_groups w g \<noteq> None \<Longrightarrow> destroyView w g path = Inr w' \<Longrightarrow> world_step E w w'"
| step_destroyView_at: "w_groups w g \<noteq> None \<Longrightarrow> destroyView_at w g idx = w' \<Longrightarrow> world_step E w w'"
| step_destroyViews: "w_groups w g \<noteq> None \<Longrightarrow> destroyViews w g = Inr w' \<Longrightarrow> world_step E w w'"
| step_destroyViewAndData: "w_groups w g \<noteq> None \<Longrightarrow> destroyViewAndData w g path = Inr w' \<Longrightarrow> world_step E w w'"
| step_destroyViewAndData_at: "w_groups w g \<noteq> None \<Longrightarrow> destroyViewAndData_at w g idx = Inr w' \<Longrightarrow> world_step E w w'"
| step_destroyViewsAndData: "w_groups w g \<noteq> None \<Longrightarrow> destroyViewsAndData w g = Inr w' \<Longrightarrow> world_step E w w'"
| step_moveView: "w_groups w g \<noteq> None \<Longrightarrow> live_view w v \<Longrightarrow> moveView w g (Some v) = Inr (w', r) \<Longrightarrow> world_step E w w'"
| step_copyView: "w_groups w g \<noteq> None \<Longrightarrow> live_view w v \<Longrightarrow> copyView E w g (Some v) = Inr (w', r) \<Longrightarrow> world_step E w w'"
| step_destroyGroup: "w_groups w g \<noteq> None \<Longrightarrow> destroyGroup w g path = Inr w' \<Longrightarrow> world_step E w w'"
| step_destroyGroup_at: "w_groups w g \<noteq> None \<Longrightarrow> destroyGroup_at w g idx = Inr w' \<Longrightarrow> world_step E w w'"
| step_destroyGroups: "w_groups w g \<noteq> None \<Longrightarrow> destroyGroups w g = Inr w' \<Longrightarrow> world_step E w w'"
| step_destroyGroupAndData: "w_groups w g \<noteq> None \<Longrightarrow> destroyGroupAndData w g path = Inr w' \<Longrightarrow> world_step E w w'"
| step_destroyGroupAndData_at: "w_groups w g \<noteq> None \<Longrightarrow> destroyGroupAndData_at w g idx = Inr w' \<Longrightarrow> world_step E w w'"
| step_destroyGroupsAndData: "w_groups w g \<noteq> None \<Longrightarrow> destroyGroupsAndData w g = Inr w' \<Longrightarrow> world_step E w w'"
| step_destroyGroupSubtreeAndData: "w_groups w g \<noteq> None \<Longrightarrow> destroyGroupSubtreeAndData w g = Inr w' \<Longrightarrow> world_step E w w'"
| step_moveGroup: "w_groups w g \<noteq> None \<Longrightarrow> w_groups w c \<noteq> None \<Longrightarrow> g \<notin> subtree w c \<Longrightarrow>
    moveGroup w g (Some c) = Inr (w', r) \<Longrightarrow> world_step E w w'"
| step_copyGroup: "w_groups w g \<noteq> None \<Longrightarrow> w_groups w c \<noteq> None \<Longrightarrow> copyGroup E w g (Some c) = Inr (w', r) \<Longrightarrow> world_step E w w'"
| step_Group_rename: "w_groups w g \<noteq> None \<Longrightarrow> Group_rename w g name = Inr (w', r) \<Longrightarrow> world_step E w w'"
| step_View_rename: "live_view w v \<Longrightarrow> View_rename w v name = Inr (w', r) \<Longrightarrow> world_step E w w'"
| step_data: "store_step E (w_store w) s \<Longrightarrow> dom (views s) = dom (views (w_store w)) \<Longrightarrow> world_step E w (w\<lparr>w_store := s\<rparr>)"

inductive reachable_world :: "('d, 'n) env \<Rightarrow> ('d, 'n) world \<Rightarrow> bool" for E where
  world_new: "reachable_world E World_new"
| world_next: "reachable_world E w \<Longrightarrow> world_step E w w' \<Longrightarrow> reachable_world E w'"

section \<open>The invariant holds in every reachable world\<close>

lemma world_inv_new: "world_inv E (World_new :: ('d, 'n) world)"
proof -
  let ?W = "World_new :: ('d, 'n) world"
  have G: "w_groups ?W g = Some G \<longleftrightarrow> g = root \<and> G = (Group_new [] False)\<lparr>g_parent := Some root\<rparr>" for g G
    by (auto simp: World_new_def)
  have ch: "\<not> child ?W g i c" and ow: "\<not> owned ?W g i v" for g i c v
    by (auto simp: child_def owned_def G Group_new_def MapCollection_getItem_def MapCollection_new_def)
  have coll: "coll_ok f False (MapColl MapCollection_new)" for f :: "'c \<Rightarrow> string" using coll_ok_new(1) [of f False] by simp
  have "tree_ok {} ?W"
  proof (rule tree_okI)
    show "group_links {} ?W" by (rule group_linksI) (use ch in \<open>auto simp: G\<close>)
    show "rooted {} ?W" by (auto simp: rooted_def World_new_def)
    show "g < next_group ?W" if "w_groups ?W g = Some G" for g G using that by (auto simp: G) (simp add: World_new_def)
  qed (auto simp: G Group_new_def coll)
  moreover have "owners_ok {} ?W"
    by (rule owners_okI) (use ow in \<open>auto simp: G Group_new_def coll, auto simp: World_new_def DataStore_new_def\<close>)
  moreover have "w_store ?W = DataStore_new" by (simp add: World_new_def)
  ultimately show ?thesis using store_inv_new by (simp add: world_ok_def forest_inv_def)
qed

lemma owned_of_live:
  assumes "world_inv E w" and "live_view w v"
  obtains g i where "owned w g i v"
  using owners_okE [OF world_okD(4) [OF assms(1)] assms(2)] by blast

lemma copyGroup_ok:
  assumes "world_inv E w" and "w_groups w g \<noteq> None" and "w_groups w c \<noteq> None" and "copyGroup E w g (Some c) = Inr (w', r)"
  shows "world_inv E w'"
  using copyGroup_by_ok [OF assms(1,2), of "Some c" "next_group w" w' r] assms(3,4) by (simp add: copyGroup_def)

lemma moveGroup_step_ok:
  assumes ok: "world_inv E w" and g: "w_groups w g \<noteq> None" and c: "w_groups w c \<noteq> None" and sub: "g \<notin> subtree w c"
    and mv: "moveGroup w g (Some c) = Inr (w', r)"
  shows "world_inv E w'"
proof -
  obtain C where C: "w_groups w c = Some C" using c by blast
  have "c \<noteq> root"
  proof
    assume "c = root"
    then have "g \<in> subtree w c" using tree_okD(3) [OF world_okD(3) [OF ok]] g by (auto simp: rooted_def subtree_def)
    with sub show False by blast
  qed
  then obtain h where "child w h (g_index C) c" using group_linksE [OF world_okD(6) [OF ok] C] by blast
  from moveGroup_ok [OF ok g this sub mv] show ?thesis .
qed

lemma Group_rename_step_ok:
  assumes "world_inv E w" and "w_groups w g \<noteq> None" and "Group_rename w g name = Inr (w', r)"
  shows "world_inv E w'"
  using Group_rename_ok [OF assms(1) _ _ assms(3)] assms(2) by blast

lemma same_views_ok:
  assumes "world_ok E D DV w" and "forest_inv D DV w'" and "same_views w w'"
  shows "world_ok E D DV w'"
  using assms by (simp add: world_ok_def same_views_def)

lemma created_fst: "created E D DV B (w', r) \<Longrightarrow> world_ok E D DV w'"
  by (simp add: created_def)

lemma createView_variants_ok:
  assumes ok: "world_ok E D DV w" and g: "w_groups w g \<noteq> None"
  shows "world_ok E D DV (fst (createView E w g path))" "world_ok E D DV (fst (createView_typed E w g path type n))"
    "world_ok E D DV (fst (createViewWithShape E w g path type ndims shape))" "world_ok E D DV (fst (createView_dtype E w g path d))"
    "world_ok E D DV (fst (createView_external E w g path p))" "world_ok E D DV (fst (createView_typed_external E w g path type n p))"
    "world_ok E D DV (fst (createViewWithShape_external E w g path type ndims shape p))"
    "world_ok E D DV (fst (createView_dtype_external E w g path d p))"
    "world_ok E D DV (fst (createViewAndAllocate E w g path type n))"
    "world_ok E D DV (fst (createViewWithShapeAndAllocate E w g path type ndims shape))"
    "world_ok E D DV (fst (createViewAndAllocate_dtype E w g path d))"
    "world_ok E D DV (fst (createViewScalar E w g path value))" "world_ok E D DV (fst (createViewString E w g path str))"
    "(\<And>b. buff = Some b \<Longrightarrow> buffers (w_store w) b \<noteq> None) \<Longrightarrow> world_ok E D DV (fst (createView_buffer E w g path buff))"
    "(\<And>b. buff = Some b \<Longrightarrow> buffers (w_store w) b \<noteq> None) \<Longrightarrow> world_ok E D DV (fst (createView_typed_buffer E w g path type n buff))"
    "(\<And>b. buff = Some b \<Longrightarrow> buffers (w_store w) b \<noteq> None) \<Longrightarrow> world_ok E D DV (fst (createViewWithShape_buffer E w g path type ndims shape buff))"
    "(\<And>b. buff = Some b \<Longrightarrow> buffers (w_store w) b \<noteq> None) \<Longrightarrow> world_ok E D DV (fst (createView_dtype_buffer E w g path d buff))"
  unfolding createView_external_def createView_typed_external_def createViewWithShape_external_def createView_dtype_external_def
    createViewAndAllocate_def createViewWithShapeAndAllocate_def createViewAndAllocate_dtype_def createViewScalar_def createViewString_def
    createView_buffer_def createView_typed_buffer_def createViewWithShape_buffer_def createView_dtype_buffer_def
  using created_ops [OF ok g, unfolded created_def]
  by (simp_all add: create_external_ok [OF created_ops(1) [OF ok g]] create_external_ok [OF created_ops(2) [OF ok g]]
      create_external_ok [OF created_ops(3) [OF ok g]] create_external_ok [OF created_ops(4) [OF ok g]]
      create_allocate_ok [OF created_ops(2) [OF ok g]] create_allocate_ok [OF created_ops(3) [OF ok g]]
      create_allocate_ok [OF created_ops(4) [OF ok g]] create_scalar_ok [OF created_ops(1) [OF ok g]]
      create_buffer_ok [OF created_ops(1) [OF ok g]] create_buffer_ok [OF created_ops(2) [OF ok g]]
      create_buffer_ok [OF created_ops(3) [OF ok g]] create_buffer_ok [OF created_ops(4) [OF ok g]])

lemma world_inv_step:
  assumes "world_step E w w'" and ok: "world_inv E w" and env: "env_laws E"
  shows "world_inv E w'"
  using assms(1)
proof cases
  case (step_createGroup g path is_list r)
  then show ?thesis using createGroup_inv [OF world_okD(1) [OF ok]] same_views_ok [OF ok] by blast
next
  case (step_createUnnamedGroup g is_list r)
  then show ?thesis using createUnnamedGroup_inv(1,2) [OF world_okD(1) [OF ok]] same_views_ok [OF ok] by blast
next
  case (step_moveView g v r)
  then show ?thesis using owned_of_live [OF ok] moveView_ok [OF ok] by metis
next
  case (step_copyView g v r)
  then show ?thesis using copyView_ok(1) [OF ok, of g "Some v" w' r] by simp
next
  case (step_View_rename v name r)
  then show ?thesis using owned_of_live [OF ok] View_rename_ok [OF ok] by metis
next
  case (step_destroyGroups g)
  then obtain G where G: "w_groups w g = Some G" by blast
  from destroyGroups_ok [OF ok this] step_destroyGroups(2) show ?thesis by (metis Inr_inject)
next
  case (step_data s)
  then show ?thesis using world_ok_store [OF ok] store_inv_step [OF _ world_okD(2) [OF ok] env] by blast
qed (use createView_variants_ok [OF ok] destroyView_ok [OF ok] destroyView_at_ok [OF ok] destroyViews_ok [OF ok] destroyViewAndData_ok [OF ok]
    destroyViewAndData_at_ok(1) [OF ok] destroyViewsAndData_ok(1) [OF ok] destroyGroup_ok [OF ok] destroyGroup_index_ok [OF ok]
    destroyGroupAndData_ok [OF ok] destroyGroupAndData_index_ok [OF ok] destroyGroupsAndData_ok [OF ok] moveGroup_step_ok [OF ok]
    copyGroup_ok [OF ok] Group_rename_step_ok [OF ok] in \<open>metis fst_conv not_None_eq\<close>)+

lemma reachable_world_inv: "reachable_world E w \<Longrightarrow> env_laws E \<Longrightarrow> world_inv E w"
  by (induction rule: reachable_world.induct) (auto intro: world_inv_new world_inv_step)

section \<open>A sample world\<close>

definition sample_world :: "(sample_dtype, int) world" where
  "sample_world = fst (createViewString sample_env (fst (createGroup World_new root ''a/b'' False)) root ''a/b/v'' ''x'')"

lemma sample_world_reachable: "reachable_world sample_env sample_world"
proof -
  let ?W = "World_new :: (sample_dtype, int) world"
  have inv: "world_inv sample_env ?W" by (rule world_inv_new)
  have r: "w_groups ?W root \<noteq> None" by (simp add: World_new_def)
  obtain w1 x where w1: "createGroup ?W root ''a/b'' False = (w1, x)" by (cases "createGroup ?W root ''a/b'' False")
  have 1: "reachable_world sample_env w1" by (rule world_next [OF world_new step_createGroup [OF r w1]])
  have r1: "w_groups w1 root \<noteq> None" by (rule createGroup_keeps_groups(1) [OF world_okD(1) [OF inv] r w1 r])
  obtain w2 y where w2: "createViewString sample_env w1 root ''a/b/v'' ''x'' = (w2, y)" by (cases "createViewString sample_env w1 root ''a/b/v'' ''x''")
  have "reachable_world sample_env w2" by (rule world_next [OF 1 step_createViewString [OF r1 w2]])
  then show ?thesis by (simp add: sample_world_def w1 w2)
qed

lemma sample_world_eval:
  "getGroup sample_world root ''a/b'' = Inr (Some 2)"
  "getView sample_world root ''a/b/v'' = Inr (Some 0)"
  "getPathName sample_world 2 = Inr ''a/b''"
  "next_group sample_world = 3" "next_view sample_world = 1"
  by code_simp+

lemma sample_world_groups: "w_groups sample_world g \<noteq> None \<Longrightarrow> g < 3"
  using groups_okD(1) [OF world_okD(5) [OF reachable_world_inv [OF sample_world_reachable sample_env_laws(1)]]] sample_world_eval(4) by fastforce

lemma sample_world_maps: "map_format sample_world"
proof (intro allI impI)
  fix h H assume H: "w_groups sample_world h = Some H"
  then have "h \<in> {0, 1, 2}" using sample_world_groups [of h] by auto
  moreover have "list_all (\<lambda>h. \<not> g_is_list (grp sample_world h)) [0, 1, 2]" by code_simp
  ultimately show "\<not> g_is_list H" using H by auto
qed

lemma owned_name_unique:
  assumes ok: "owners_ok DV w" and G: "w_groups w g = Some G" and map: "\<not> g_is_list G"
    and "owned w g i u" and "owned w g j v" and "v_name w u = v_name w v"
  shows "u = v"
proof -
  obtain m where m: "g_views G = MapColl m" "mc_inv (v_name w) m"
    using owners_okD(1) [OF ok G] map by (auto simp: coll_ok_def split: coll.splits)
  show ?thesis using assms(4-6) G m(1) named_lookup(2) [OF m(2), of "v_name w v"] by (auto simp: owned_def) (metis option.inject)
qed


lemma walk_parts_resolved:
  "resolves w g ps h \<Longrightarrow> tree_ok D w \<Longrightarrow> walk_parts w g ps create = (w, Some h)"
proof (induction rule: resolves.induct)
  case (resolves_down g i c ps h)
  note t = tree_okD [OF resolves_down.prems]
  obtain G where G: "w_groups w g = Some G" using child_live [OF resolves_down.hyps(1)] by blast
  then have map: "\<not> g_is_list G" using resolves_down.hyps(2) by simp
  have "hasChildGroup w g (group_name w c)" using hasChildGroup_iff(1) [OF t(1) G] map resolves_down.hyps(1) by blast
  moreover have "named_child w g (group_name w c) = Some c" using named_child_iff [OF t(1) G map] resolves_down.hyps(1) by blast
  ultimately show ?case using resolves_down.IH [OF resolves_down.prems] by simp
qed simp














section \<open>What the group tree guarantees\<close>

text \<open>
  C2. In every reachable data store the groups form a tree: a group other than the root is in
  exactly one collection, that of its parent, at the index it records, and hangs below the root; a
  view is in exactly one collection, that of its owning group, at the index it records; different
  children of a map-format group have different names, and so have its views; and the buffers
  and view contents satisfy the invariant of the store.
\<close>

theorem sidre_tree_invariant:
  assumes "reachable_world E w" and "env_laws E"
  shows "(\<forall>c C. w_groups w c = Some C \<and> c \<noteq> root \<longrightarrow>
            (\<exists>g. g_parent C = Some g \<and> (\<forall>h i. child w h i c \<longleftrightarrow> h = g \<and> i = g_index C)) \<and> (root, c) \<in> (childrel w)\<^sup>+) \<and>
         (\<forall>v. live_view w v \<longrightarrow>
            (\<exists>g. v_owner w v = Some g \<and> (\<forall>h i. owned w h i v \<longleftrightarrow> h = g \<and> i = v_index w v))) \<and>
         (\<forall>g G. w_groups w g = Some G \<and> \<not> g_is_list G \<longrightarrow>
            (\<forall>i j c d. child w g i c \<and> child w g j d \<and> group_name w c = group_name w d \<longrightarrow> c = d) \<and>
            (\<forall>i j u v. owned w g i u \<and> owned w g j v \<and> v_name w u = v_name w v \<longrightarrow> u = v)) \<and>
         store_inv E (w_store w)"
proof -
  note ok = reachable_world_inv [OF assms]
  note t = tree_okD [OF world_okD(3) [OF ok]] and o = world_okD(4) [OF ok]
  have A: "(\<exists>g. g_parent C = Some g \<and> (\<forall>h i. child w h i c \<longleftrightarrow> h = g \<and> i = g_index C)) \<and> (root, c) \<in> (childrel w)\<^sup>+"
    if c: "w_groups w c = Some C \<and> c \<noteq> root" for c C
  proof -
    obtain g where g: "g_parent C = Some g" "child w g (g_index C) c" using group_linksE [OF t(2)] c by blast
    have "h = g \<and> i = g_index C" if "child w h i c" for h i using child_unique_parent [OF t(2) that g(2)] .
    with g have "\<exists>g. g_parent C = Some g \<and> (\<forall>h i. child w h i c \<longleftrightarrow> h = g \<and> i = g_index C)" by blast
    moreover have "(root, c) \<in> (childrel w)\<^sup>*" using t(3) c by (auto simp: rooted_def)
    then have "(root, c) \<in> (childrel w)\<^sup>+" using c by (metis rtranclD)
    ultimately show ?thesis by blast
  qed
  have B: "\<exists>g. v_owner w v = Some g \<and> (\<forall>h i. owned w h i v \<longleftrightarrow> h = g \<and> i = v_index w v)" if "live_view w v" for v
    using owners_okE [OF o that] owners_okD(2) [OF o] that by (metis empty_iff option.inject)
  have C: "(\<forall>i j c d. child w g i c \<and> child w g j d \<and> group_name w c = group_name w d \<longrightarrow> c = d) \<and>
      (\<forall>i j u v. owned w g i u \<and> owned w g j v \<and> v_name w u = v_name w v \<longrightarrow> u = v)"
    if "w_groups w g = Some G \<and> \<not> g_is_list G" for g G
    using child_name_unique [OF t(1), of g G] owned_name_unique [OF o, of g G] that by blast
  show ?thesis by (intro conjI [OF _ conjI [OF _ conjI]] allI impI) (fact A B C world_okD(2) [OF ok])+
qed

theorem sidre_tree_invariant_witness:
  "reachable_world sample_env sample_world \<and> store_inv sample_env (w_store sample_world) \<and> (root, 2) \<in> (childrel sample_world)\<^sup>+"
proof -
  have "w_groups sample_world 2 \<noteq> None" by code_simp
  then obtain C where "w_groups sample_world 2 = Some C" by blast
  moreover note main = sidre_tree_invariant [OF sample_world_reachable sample_env_laws(1)]
  moreover have "(2 :: nat) \<noteq> root" by simp
  ultimately have "(root, 2) \<in> (childrel sample_world)\<^sup>+" by blast
  with main sample_world_reachable show ?thesis by blast
qed



text \<open>
  C14. Path names: in a tree of map-format groups whose root keeps its empty name, the group
  that proper names \<open>ns\<close> lead to from the root reports exactly these names joined by the delimiter as
  its path name, and looking this path up from the root finds the group again; the same holds for the
  views of the group.
\<close>

theorem sidre_path_name_roundtrip:
  assumes "reachable_world E w" and "env_laws E" and "map_format w" and "group_name w root = []"
    and "resolves w root ns c" and "ns \<noteq> []" and "\<forall>p\<in>set ns. p \<noteq> [] \<and> CHR ''/'' \<notin> set p"
  shows "getPathName w c = Inr (join_with (CHR ''/'') ns) \<and> getGroup w root (join_with (CHR ''/'') ns) = Inr (Some c) \<and>
    (\<forall>i v. owned w c i v \<and> CHR ''/'' \<notin> set (v_name w v) \<longrightarrow>
       View_getPathName w v = Inr (join_with (CHR ''/'') (ns @ [v_name w v])) \<and>
       getView w root (join_with (CHR ''/'') (ns @ [v_name w v])) = Inr (Some v))"
proof -
  note ok = reachable_world_inv [OF assms(1,2)]
  note inv = world_okD(1) [OF ok] and t = world_okD(3) [OF ok]
  obtain R where "w_groups w root = Some R" by (rule tree_ok_root [OF t])
  then have r: "w_groups w root \<noteq> None" by simp
  have name: "getPathName w c = Inr (join_with (CHR ''/'') ns)" by (rule getPathName_correct [OF t assms(4,5)]) (use assms(7) in auto)
  obtain ps n where ns: "ns = ps @ [n]" using assms(6) by (cases ns rule: rev_cases) auto
  have "getGroup w root (join_with (CHR ''/'') ns) = Inr (Some c)"
    using getGroup_iff(1) [OF t assms(3) r, of _ ps n] path_parts_join [OF assms(7)] assms(5) ns by simp
  moreover have "View_getPathName w v = Inr (join_with (CHR ''/'') (ns @ [v_name w v])) \<and>
      getView w root (join_with (CHR ''/'') (ns @ [v_name w v])) = Inr (Some v)"
    if v: "owned w c i v" "CHR ''/'' \<notin> set (v_name w v)" for i v
  proof -
    obtain C where C: "w_groups w c = Some C" using v(1) by (auto simp: owned_def)
    have vn: "v_name w v \<noteq> []" using owned_named [OF world_okD(4) [OF ok] v(1) C] assms(3) C by blast
    have own: "v_owner w v = Some c" using owners_okD(2) [OF world_okD(4) [OF ok]] v(1) by blast
    have "join_with (CHR ''/'') ns \<noteq> []" using assms(6,7) ns by (cases ps) (auto simp: join_with_Cons)
    with name own have "View_getPathName w v = Inr (join_with (CHR ''/'') (ns @ [v_name w v]))"
      using join_with_append [OF assms(6), of "[v_name w v]" "CHR ''/''"] by (cases "join_with (CHR ''/'') ns") (simp_all add: View_getPathName_def)
    moreover have "path_parts (join_with (CHR ''/'') (ns @ [v_name w v])) = ns @ [v_name w v]"
      by (rule path_parts_join) (use assms(7) vn v(2) in auto)
    then have "getView w root (join_with (CHR ''/'') (ns @ [v_name w v])) = Inr (Some v)"
      using getView_iff(1) [OF inv assms(3) r, of _ ns "v_name w v"] assms(5) v(1) by blast
    ultimately show ?thesis by blast
  qed
  ultimately show ?thesis using name by blast
qed

theorem sidre_path_name_roundtrip_witness:
  "getPathName sample_world 2 = Inr ''a/b'' \<and> getGroup sample_world root ''a/b'' = Inr (Some 2) \<and>
   View_getPathName sample_world 0 = Inr ''a/b/v''"
proof -
  note ok = reachable_world_inv [OF sample_world_reachable sample_env_laws(1)]
  have r: "w_groups sample_world root \<noteq> None" "group_name sample_world root = []" by code_simp+
  have "path_parts ''a/b'' = [''a''] @ [''b'']" by code_simp
  then have res: "resolves sample_world root [''a'', ''b''] 2"
    using getGroup_iff(1) [OF world_okD(3) [OF ok] sample_world_maps r(1), of "''a/b''" "[''a'']" "''b''" 2] sample_world_eval(1) by simp
  have "coll_getItem (g_views (grp sample_world 2)) 0 = Some 0" "w_groups sample_world 2 \<noteq> None" by code_simp+
  then have own: "owned sample_world 2 0 0" by (auto simp: owned_def)
  have vn: "v_name sample_world 0 = ''v''" by code_simp
  from sidre_path_name_roundtrip [OF sample_world_reachable sample_env_laws(1) sample_world_maps r(2) res] own vn
  show ?thesis by auto
qed

lemma subtree_member:
  assumes "resolves w g ps c"
  shows "c \<in> subtree w g"
  using assms by (induction rule: resolves.induct) (auto dest: subtree_child)

lemma resolves_not_below:
  assumes ok: "tree_ok D w" and r: "resolves w g (p # ps) c"
  shows "g \<notin> subtree w c"
proof
  assume "g \<in> subtree w c"
  moreover obtain i d where d: "child w g i d" "resolves w d ps c" using r by (auto elim: resolves_ConsE)
  then have "c \<in> subtree w d" by (intro subtree_member)
  ultimately have "g \<in> subtree w d" using subtree_trans by blast
  with subtree_strict [OF tree_okD(2,3) [OF ok] d(1)] show False by blast
qed

lemma resolves_shrink:
  assumes "resolves w' g ps h" and "\<And>h i x. child w' h i x \<Longrightarrow> child w h i x \<and> group_name w' x = group_name w x"
    and "map_format w"
  shows "resolves w g ps h"
  using assms(1)
proof (induction rule: resolves.induct)
  case (resolves_down g i c ps h)
  have c: "child w g i c" "group_name w' c = group_name w c" using assms(2) [OF resolves_down.hyps(1)] by auto
  have "\<not> g_is_list (grp w g)" using child_live [OF c(1)] assms(3) by auto
  from resolves.resolves_down [OF c(1) this resolves_down.IH] c(2) show ?case by simp
qed (rule resolves_here)

lemma destroyGroup_found:
  assumes ok: "world_inv E w" and mf: "map_format w" and g: "w_groups w g \<noteq> None" and path: "path_parts path = ps @ [n]"
    and c: "resolves w g (ps @ [n]) c"
  obtains h i where "resolves w g ps h" "child w h i c" "group_name w c = n" "destroyGroup w g path = destroyGroup_at w h i"
proof -
  note t = world_okD(3) [OF ok]
  obtain h i where h: "resolves w g ps h" "child w h i c" "group_name w c = n" using c resolves_snoc by metis
  obtain G where G: "w_groups w g = Some G" "\<not> g_is_list G" using g mf by blast
  obtain H where H: "w_groups w h = Some H" "\<not> g_is_list H" using child_live [OF h(2)] mf by blast
  have "walk_parts w g ps False = (w, Some h)" by (rule walk_parts_resolved [OF h(1) t])
  then have "walkPath w g path False = ((w, Some h), n)" using G path unfolding walkPath_def Let_def by simp
  moreover have "detachGroup w h n = Inr (detachGroup_at w h i)" using detachGroup_named(1) [OF world_okD(5) [OF ok] H h(2)] h(3) by simp
  ultimately have "destroyGroup w g path = destroyGroup_at w h i" by (simp add: destroyGroup_def destroyGroup_at_def split: prod.split)
  with h that show thesis by blast
qed

text \<open>
  C15. In a tree of map-format groups \<^verbatim>\<open>destroyGroup(path)\<close> of a group returns, and removes exactly the group that the path names, every group
  below it and every view these groups own, each view once; all other groups stay, with their
  children; the path then names no group.
\<close>

theorem sidre_destroy_group_exact:
  assumes "reachable_world E w" and "env_laws E" and "map_format w" and "w_groups w g \<noteq> None" and "path_parts path \<noteq> []"
    and "getGroup w g path = Inr (Some c)"
  shows "\<exists>w' vs. destroyGroup w g path = Inr w' \<and>
    (\<forall>h. w_groups w' h \<noteq> None \<longleftrightarrow> w_groups w h \<noteq> None \<and> h \<notin> subtree w c) \<and>
    (\<forall>h i x. child w' h i x \<longleftrightarrow> child w h i x \<and> x \<notin> subtree w c) \<and>
    distinct vs \<and> set vs = views_below w (subtree w c) \<and> w_store w' = fold View_destroy vs (w_store w) \<and>
    (\<forall>v. live_view w' v \<longleftrightarrow> live_view w v \<and> v \<notin> set vs) \<and> getGroup w' g path = Inr None"
proof -
  note ok = reachable_world_inv [OF assms(1,2)]
  note t = tree_okD [OF world_okD(3) [OF ok]]
  let ?S = "subtree w c"
  obtain ps n where path: "path_parts path = ps @ [n]" using assms(5) by (cases "path_parts path" rule: rev_cases) auto
  have c: "resolves w g (ps @ [n]) c" using getGroup_iff(1) [OF world_okD(3) [OF ok] assms(3,4) path] assms(6) by blast
  obtain k j where k: "resolves w g ps k" "child w k j c" "group_name w c = n" "destroyGroup w g path = destroyGroup_at w k j"
    by (rule destroyGroup_found [OF ok assms(3,4) path c])
  obtain w' vs w1 where w': "destroyGroup_at w k j = Inr w'" "world_inv E w'" "tree_frame w w1"
    "child w1 = (\<lambda>h i x. child w h i x \<and> x \<noteq> c)" "w' = remove_tree ?S vs w1" "distinct vs" "set vs = views_below w ?S"
    by (rule destroyGroup_at_ok [OF ok k(2)])
  note f = tree_frame_fields [OF w'(3)]
  have live: "w_groups w' h \<noteq> None \<longleftrightarrow> w_groups w h \<noteq> None \<and> h \<notin> ?S" for h
    using view_fields_eqD(1) [OF f(8), of h] by (auto simp: w'(5))
  have ch: "child w' h i x \<longleftrightarrow> child w h i x \<and> x \<notin> ?S" for h i x
  proof -
    have "child w' h i x \<longleftrightarrow> child w h i x \<and> x \<noteq> c \<and> h \<notin> ?S"
      using fun_cong [OF fun_cong [OF fun_cong [OF w'(4), of h], of i], of x] by (auto simp: w'(5) child_def)
    also have "\<dots> \<longleftrightarrow> child w h i x \<and> x \<notin> ?S"
    proof (intro iffI conjI; elim conjE)
      assume hx: "child w h i x" and "x \<noteq> c" "h \<notin> ?S"
      show "x \<notin> ?S"
      proof
        assume "x \<in> ?S"
        then have "(c, x) \<in> (childrel w)\<^sup>*" by (simp add: subtree_def)
        with \<open>x \<noteq> c\<close> obtain p where p: "(c, p) \<in> (childrel w)\<^sup>*" "(p, x) \<in> childrel w" by (metis rtranclE)
        have "(h, x) \<in> childrel w" using hx by (auto simp: childrel_def)
        then have "p = h" by (rule unique_parent_rel [OF t(2) p(2)])
        with p(1) \<open>h \<notin> ?S\<close> show False by (simp add: subtree_def)
      qed
    qed (use subtree_refl subtree_closed in blast)+
    finally show ?thesis .
  qed
  have nm: "group_name w' x = group_name w x" if "w_groups w' x \<noteq> None" for x
    using that live [of x] fun_cong [OF f(7), of x] by (simp add: w'(5) group_name_def)
  have mf': "map_format w'"
  proof (intro allI impI)
    fix h H assume H: "w_groups w' h = Some H"
    then have "w_groups w1 h = Some H" by (simp add: w'(5) split: if_splits)
    moreover obtain H0 where "w_groups w h = Some H0" using live [of h] H by auto
    ultimately show "\<not> g_is_list H" using view_fields_eqD(3) [OF f(8)] assms(3) by metis
  qed
  have "g \<notin> ?S" using resolves_not_below [OF world_okD(3) [OF ok]] c by (cases "ps @ [n]") auto
  then have g': "w_groups w' g \<noteq> None" using live assms(4) by blast
  note look = getGroup_iff [OF world_okD(3) [OF w'(2)] mf' g' path]
  have "getGroup w' g path \<noteq> Inr (Some d)" for d
  proof
    assume "getGroup w' g path = Inr (Some d)"
    then have d: "resolves w' g (ps @ [n]) d" using look(1) by blast
    have "resolves w g (ps @ [n]) d"
      by (rule resolves_shrink [OF d _ assms(3)]) (use ch nm child_target_live [OF world_okD(6) [OF w'(2)]] in blast)
    then have "d = c" using getGroup_iff(1) [OF world_okD(3) [OF ok] assms(3,4) path] assms(6) by (metis Inr_inject option.inject)
    with resolves_live [OF d world_okD(6) [OF w'(2)] g'] live [of c] show False by simp
  qed
  then have "getGroup w' g path = Inr None" using look(2) by (metis not_None_eq)
  moreover have "w_store w' = fold View_destroy vs (w_store w)" using f(1) by (simp add: w'(5))
  moreover from this have "live_view w' v \<longleftrightarrow> live_view w v \<and> v \<notin> set vs" for v
    using dom_fold_View_destroy [of vs "w_store w"] by (metis DiffD1 DiffD2 DiffI domIff)
  ultimately show ?thesis using w'(1,6,7) k(4) live ch by (intro exI [of _ w'] exI [of _ vs]) simp
qed

theorem sidre_destroy_group_exact_witness:
  "\<exists>w'. destroyGroup sample_world root ''a'' = Inr w' \<and> getGroup w' root ''a'' = Inr None"
proof -
  have r: "w_groups sample_world root \<noteq> None" by code_simp
  have p: "path_parts ''a'' \<noteq> []" "getGroup sample_world root ''a'' = Inr (Some 1)" by code_simp+
  from sidre_destroy_group_exact [OF sample_world_reachable sample_env_laws(1) sample_world_maps r p] show ?thesis by blast
qed

text \<open>
  Groups of the list format cannot hand out or destroy views with their data: for a view
  \<open>v\<close> owned by a list-format group, the lookup by name, \<^verbatim>\<open>destroyViewsAndData\<close>, moving the view to
  another group and renaming it all reach the cast of the view collection to a named one, which is
  invalid for a list.
\<close>

theorem sidre_list_format_faults:
  assumes "reachable_world E w" and "env_laws E" and "w_groups w g = Some G" and "g_is_list G" and "owned w g i v"
    and "name \<noteq> []" and "CHR ''/'' \<notin> set name"
  shows "getView w g name = Inl BadCast \<and> destroyViewsAndData w g = Inl BadCast \<and>
    (\<forall>h. h \<noteq> g \<and> \<not> hasChildView w h (v_name w v) \<longrightarrow> moveView w h (Some v) = Inl BadCast) \<and>
    (name \<noteq> v_name w v \<longrightarrow> View_rename w v name = Inl BadCast)"
proof -
  note ok = reachable_world_inv [OF assms(1,2)]
  note own = owners_okD(1,2) [OF world_okD(4) [OF ok]]
  obtain l where l: "g_views G = ListColl l" using own(1) [OF assms(3)] assms(4) by (auto simp: coll_ok_def split: coll.splits)
  have cast: "getNamedViews w g = Inl BadCast" using l assms(3) by (simp add: getNamedViews_def)
  then have det: "detachView w g n = Inl BadCast" for n by (simp add: detachView_def)
  have v: "v_owner w v = Some g" using own(2) assms(5) by blast
  have nogroup: "\<not> hasChildGroup w g n" "\<not> hasChildView w g n" for n using assms(3,4) by (simp_all add: hasChildGroup_def hasChildView_def isUsingMap_def)
  have "walkPath w g name False = ((w, Some g), name)"
    using path_parts_single [OF assms(6,7)] unfolding walkPath_def Let_def by simp
  then have "getView w g name = Inl BadCast" using cast by (simp add: getView_def)
  moreover have "destroyViewsAndData w g = Inl BadCast"
  proof -
    let ?c = "g_views G"
    note p = coll_indices_props [OF coll_ok_inv [OF own(1) [OF assms(3)]]]
    have i: "i \<in> dom (coll_getItem ?c)" using assms(3,5) by (auto simp: owned_def)
    then obtain j js where js: "coll_indices ?c = j # js" using p(1) by (cases "coll_indices ?c") auto
    have "j \<in> dom (coll_getItem ?c)" "j \<noteq> InvalidIndex" using p(1,3) js by auto
    then obtain u where u: "coll_getItem ?c j = Some u" by blast
    then have "owned w g j u" using assms(3) by (simp add: owned_def)
    then have "v_owner w u = Some g" using own(2) by blast
    then have "destroyViewAndData_at w g j = Inl BadCast"
      using u assms(3) det by (simp add: destroyViewAndData_at_def getView_at_def destroyViewAndData_ptr_def)
    moreover obtain f where "length (coll_items ?c) = Suc f" using p(5) js by (cases "length (coll_items ?c)") auto
    ultimately have "for_views w g (\<lambda>w idx. destroyViewAndData_at w g idx) = Inl BadCast"
      using p(4) js assms(3) \<open>j \<noteq> InvalidIndex\<close> by (simp add: for_views_def)
    then show ?thesis by (simp add: destroyViewsAndData_def)
  qed
  moreover have "moveView w h (Some v) = Inl BadCast" if "h \<noteq> g" "\<not> hasChildView w h (v_name w v)" for h
    using that v det by (simp add: moveView_def)
  moreover have "View_rename w v name = Inl BadCast" if "name \<noteq> v_name w v"
    using that v det assms(6,7) nogroup by (simp add: View_rename_def hasGroup_single hasView_single)
  ultimately show ?thesis by blast
qed

text \<open>A world with a list-format group that owns a view.\<close>

definition sample_list_world :: "(sample_dtype, int) world" where
  "sample_list_world = fst (createView sample_env (fst (createGroup World_new root ''l'' True)) 1 [])"

lemma sample_list_world_reachable: "reachable_world sample_env sample_list_world"
proof -
  let ?W = "World_new :: (sample_dtype, int) world"
  have inv: "world_inv sample_env ?W" by (rule world_inv_new)
  have r: "w_groups ?W root \<noteq> None" by (simp add: World_new_def)
  obtain w1 x where w1: "createGroup ?W root ''l'' True = (w1, x)" by (cases "createGroup ?W root ''l'' True")
  have 1: "reachable_world sample_env w1" by (rule world_next [OF world_new step_createGroup [OF r w1]])
  have "snd (createGroup ?W root ''l'' True) = Some 1" by code_simp
  then have r1: "w_groups w1 1 \<noteq> None" using createGroup_keeps_groups(2) [OF world_okD(1) [OF inv] r w1] w1 by simp
  obtain w2 y where w2: "createView sample_env w1 1 [] = (w2, y)" by (cases "createView sample_env w1 1 []")
  have "reachable_world sample_env w2" by (rule world_next [OF 1 step_createView [OF r1 w2]])
  then show ?thesis by (simp add: sample_list_world_def w1 w2 del: One_nat_def)
qed

theorem sidre_list_format_faults_witness:
  "getView sample_list_world 1 ''v'' = Inl BadCast \<and> destroyViewsAndData sample_list_world 1 = Inl BadCast"
proof -
  have e: "w_groups sample_list_world 1 \<noteq> None" "g_is_list (grp sample_list_world 1)"
    "coll_getItem (g_views (grp sample_list_world 1)) 0 = Some 0" by code_simp+
  then obtain G where G: "w_groups sample_list_world 1 = Some G" by blast
  with e have "g_is_list G" "owned sample_list_world 1 0 0" by (simp_all add: owned_def)
  from sidre_list_format_faults [OF sample_list_world_reachable sample_env_laws(1) G this, of "''v''"] show ?thesis by simp
qed

text \<open>
  C21. \<^verbatim>\<open>moveGroup\<close> does not check that the target is outside the moved group. In every reachable world, moving a
  group \<open>c\<close> out of its map-format parent into a group \<open>g\<close> properly below it, which has no child group of the name of \<open>c\<close>,
  returns \<open>c\<close> as a successful move does; afterwards \<open>c\<close> is a descendant of itself, and \<open>c\<close> and every group that was below it is still
  allocated, still below \<open>c\<close> and no longer reachable from the root, so the tree invariant is lost.
\<close>

theorem sidre_move_group_cycle:
  assumes "reachable_world E w" and "env_laws E" and "child w h j c" and "w_groups w h = Some H" and "\<not> g_is_list H"
    and "g \<in> subtree w c" and "g \<noteq> c" and "\<not> hasChildGroup w g (group_name w c)"
  shows "\<exists>w'. moveGroup w g (Some c) = Inr (w', Some c) \<and> (c, c) \<in> (childrel w')\<^sup>+ \<and> \<not> tree_inv w' \<and>
    (\<forall>x. (c, x) \<in> (childrel w)\<^sup>* \<longrightarrow> w_groups w' x \<noteq> None \<and> (c, x) \<in> (childrel w')\<^sup>* \<and> (root, x) \<notin> (childrel w')\<^sup>*)"
proof -
  obtain w' where w': "moveGroup w g (Some c) = Inr (w', Some c)" "(c, c) \<in> (childrel w')\<^sup>+"
    "\<forall>x. (c, x) \<in> (childrel w)\<^sup>* \<longrightarrow> w_groups w' x \<noteq> None \<and> (c, x) \<in> (childrel w')\<^sup>* \<and> (root, x) \<notin> (childrel w')\<^sup>*"
    using moveGroup_below [OF reachable_world_inv [OF assms(1,2)] assms(3-8)] by blast
  from w'(3) [rule_format, of c] have "\<not> rooted {} w'" unfolding rooted_def by blast
  then have "\<not> tree_inv w'" using tree_okD(3) forest_invD(1) by blast
  with w' show ?thesis by blast
qed

theorem sidre_move_group_cycle_witness:
  "\<exists>w'. moveGroup sample_world 2 (Some 1) = Inr (w', Some 1) \<and> (1, 1) \<in> (childrel w')\<^sup>+ \<and> (root, 1) \<notin> (childrel w')\<^sup>*"
proof -
  have e: "w_groups sample_world root \<noteq> None" "\<not> g_is_list (grp sample_world root)" "coll_getItem (g_groups (grp sample_world root)) 0 = Some 1"
    "w_groups sample_world 1 \<noteq> None" "coll_getItem (g_groups (grp sample_world 1)) 0 = Some 2"
    "\<not> hasChildGroup sample_world 2 (group_name sample_world 1)" by code_simp+
  then obtain R G where R: "w_groups sample_world root = Some R" "w_groups sample_world 1 = Some G" by blast
  with e have c: "child sample_world root 0 1" "child sample_world 1 0 2" "\<not> g_is_list R" by (simp_all add: child_def)
  then have "2 \<in> subtree sample_world 1" by (auto simp: subtree_def childrel_def)
  from sidre_move_group_cycle [OF sample_world_reachable sample_env_laws(1) c(1) R(1) c(3) this _ e(6)]
  show ?thesis by auto
qed

end
