(* ===== verification/SidreAttributes.thy ===== *)
theory SidreAttributes
  imports SidreDelete "HOL-Library.AList"
begin

text \<open>
  Attributes of the data store (\<^verbatim>\<open>sidre/core/Attribute.hpp\<close>, \<^verbatim>\<open>AttrValues.hpp\<close>, \<^verbatim>\<open>AttrValues.cpp\<close>, the
  attribute methods of \<^verbatim>\<open>DataStore\<close> and \<^verbatim>\<open>View\<close>): named metadata with a default value that a view may
  override. The data store keeps the attributes in a \<^verbatim>\<open>MapCollection\<close>, and a view keeps a vector of
  values indexed by the attribute's position there.
\<close>

section \<open>Nodes and attributes\<close>

text \<open>
  The Conduit nodes that hold attribute values: empty (\<^term>\<open>None\<close>), a scalar with the type id of
  the C++ type it was set with, or a string.
\<close>

datatype 'n attr_value = ScalarValue int 'n | StringValue string

datatype type_id = EMPTY_ID | CHAR8_STR_ID | SCALAR_ID int

fun node_type :: "'n attr_value option \<Rightarrow> type_id" where
  "node_type None = EMPTY_ID"
| "node_type (Some (ScalarValue t x)) = SCALAR_ID t"
| "node_type (Some (StringValue s)) = CHAR8_STR_ID"

type_synonym attr_id = nat

record 'n Attribute =
  a_name :: string
  a_index :: int
  a_default :: "'n attr_value option"

definition Attribute_new :: "string \<Rightarrow> 'n Attribute" where
  "Attribute_new name = \<lparr>a_name = name, a_index = InvalidIndex, a_default = None\<rparr>"

definition Attribute_getTypeID :: "'n Attribute \<Rightarrow> type_id" where
  "Attribute_getTypeID a = node_type (a_default a)"

definition setDefaultScalar :: "int \<Rightarrow> 'n \<Rightarrow> 'n Attribute \<Rightarrow> 'n Attribute \<times> bool" where
  "setDefaultScalar arg_id x a =
     (if a_default a = None \<or> SCALAR_ID arg_id = node_type (a_default a)
      then (a\<lparr>a_default := Some (ScalarValue arg_id x)\<rparr>, True) else (a, False))"

definition setDefaultString :: "string \<Rightarrow> 'n Attribute \<Rightarrow> 'n Attribute \<times> bool" where
  "setDefaultString x a =
     (if a_default a = None \<or> CHAR8_STR_ID = node_type (a_default a)
      then (a\<lparr>a_default := Some (StringValue x)\<rparr>, True) else (a, False))"

definition setDefaultNodeRef :: "'n attr_value option \<Rightarrow> 'n Attribute \<Rightarrow> 'n Attribute \<times> bool" where
  "setDefaultNodeRef node a = (a\<lparr>a_default := node\<rparr>, True)"

section \<open>The values of a view\<close>

text \<open>
  \<^verbatim>\<open>std::vector<Node>* m_values\<close>: the null pointer until the first value is set. The index of an
  attribute is compared as a \<^verbatim>\<open>size_t\<close>, so an invalid index is beyond every vector.
\<close>

type_synonym 'n AttrValues = "'n attr_value option list option"

definition AttrValues_hasValue :: "'n Attribute option \<Rightarrow> 'n AttrValues \<Rightarrow> bool" where
  "AttrValues_hasValue attr vals =
     (case (attr, vals) of
        (Some a, Some vs) \<Rightarrow> in_vector (a_index a) vs \<and> vs ! nat (a_index a) \<noteq> None
      | _ \<Rightarrow> False)"

definition AttrValues_setToDefault :: "'n Attribute option \<Rightarrow> 'n AttrValues \<Rightarrow> 'n AttrValues \<times> bool" where
  "AttrValues_setToDefault attr vals =
     (case attr of
        None \<Rightarrow> (vals, False)
      | Some a \<Rightarrow>
          (case vals of
             None \<Rightarrow> (vals, True)
           | Some vs \<Rightarrow> if in_vector (a_index a) vs then (Some (vs[nat (a_index a) := None]), True) else (vals, True)))"

definition AttrValues_createNode :: "int \<Rightarrow> 'n AttrValues \<Rightarrow> 'n attr_value option list" where
  "AttrValues_createNode iattr vals =
     (let vs = (case vals of None \<Rightarrow> [] | Some vs \<Rightarrow> vs)
      in if in_vector iattr vs then vs else vs @ replicate (nat (iattr + 1) - length vs) None)"

definition AttrValues_setNode :: "'n Attribute \<Rightarrow> 'n attr_value option \<Rightarrow> 'n AttrValues \<Rightarrow> 'n AttrValues \<times> bool" where
  "AttrValues_setNode a node vals =
     (Some ((AttrValues_createNode (a_index a) vals)[nat (a_index a) := node]), True)"

definition AttrValues_setScalar :: "'n Attribute \<Rightarrow> int \<Rightarrow> 'n \<Rightarrow> 'n AttrValues \<Rightarrow> 'n AttrValues \<times> bool" where
  "AttrValues_setScalar a arg_id x vals =
     (if SCALAR_ID arg_id \<noteq> Attribute_getTypeID a then (vals, False)
      else (Some ((AttrValues_createNode (a_index a) vals)[nat (a_index a) := Some (ScalarValue arg_id x)]), True))"

definition AttrValues_setString :: "'n Attribute \<Rightarrow> string \<Rightarrow> 'n AttrValues \<Rightarrow> 'n AttrValues \<times> bool" where
  "AttrValues_setString a x vals =
     (if CHAR8_STR_ID \<noteq> Attribute_getTypeID a then (vals, False)
      else (Some ((AttrValues_createNode (a_index a) vals)[nat (a_index a) := Some (StringValue x)]), True))"

definition AttrValues_clear :: "'n AttrValues \<Rightarrow> 'n AttrValues" where
  "AttrValues_clear vals = None"

definition AttrValues_getValueNodeRef :: "'n Attribute option \<Rightarrow> 'n AttrValues \<Rightarrow> 'n attr_value option" where
  "AttrValues_getValueNodeRef attr vals =
     (case attr of
        None \<Rightarrow> None
      | Some a \<Rightarrow>
          (case vals of
             None \<Rightarrow> a_default a
           | Some vs \<Rightarrow>
               if \<not> in_vector (a_index a) vs then a_default a
               else if vs ! nat (a_index a) = None then a_default a else vs ! nat (a_index a)))"

text \<open>
  \<^verbatim>\<open>getString\<close> checks the type of the attribute and then reads the node with Conduit's string accessor,
  which must not be called on a node of another type: that is the fault \<^term>\<open>BadCast\<close>.
\<close>

definition AttrValues_getString :: "'n Attribute option \<Rightarrow> 'n AttrValues \<Rightarrow> fault + string option" where
  "AttrValues_getString attr vals =
     (case attr of
        None \<Rightarrow> Inr None
      | Some a \<Rightarrow>
          if Attribute_getTypeID a \<noteq> CHAR8_STR_ID then Inr None
          else (case AttrValues_getValueNodeRef attr vals of Some (StringValue s) \<Rightarrow> Inr (Some s) | _ \<Rightarrow> Inl BadCast))"

definition getFirstValidAttrValueIndex :: "'n AttrValues \<Rightarrow> int" where
  "getFirstValidAttrValueIndex vals =
     (case vals of
        None \<Rightarrow> InvalidIndex
      | Some vs \<Rightarrow> for_find (\<lambda>i. vs ! nat i \<noteq> None) 0 (int (length vs)) InvalidIndex)"

definition getNextValidAttrValueIndex :: "'n AttrValues \<Rightarrow> int \<Rightarrow> fault + int" where
  "getNextValidAttrValueIndex vals idx =
     (if idx = InvalidIndex then Inr InvalidIndex
      else case vals of
             None \<Rightarrow> Inl NullDeref
           | Some vs \<Rightarrow>
               let idx = for_find (\<lambda>i. vs ! nat i \<noteq> None) (idx + 1) (int (length vs)) (int (length vs))
               in Inr (if in_vector idx vs then idx else InvalidIndex))"

section \<open>The attributes of the data store\<close>

text \<open>
  The attribute collection, the attribute objects, and the values of each view. The indices of a
  collection belong to pointers, written as numbers here.
\<close>

record 'n attr_store =
  at_coll :: "attr_id MapCollection"
  at_attrs :: "attr_id \<Rightarrow> 'n Attribute option"
  at_next :: attr_id
  at_values :: "view_id \<Rightarrow> 'n AttrValues"

definition attr_store_new :: "'n attr_store" where
  "attr_store_new = \<lparr>at_coll = MapCollection_new, at_attrs = Map.empty, at_next = 0, at_values = (\<lambda>_. None)\<rparr>"

definition attr_name :: "'n attr_store \<Rightarrow> attr_id \<Rightarrow> string" where
  "attr_name s a = a_name (the (at_attrs s a))"

definition upd_attr :: "attr_id \<Rightarrow> ('n Attribute \<Rightarrow> 'n Attribute) \<Rightarrow> 'n attr_store \<Rightarrow> 'n attr_store" where
  "upd_attr a f s = s\<lparr>at_attrs := (at_attrs s)(a := map_option f (at_attrs s a))\<rparr>"

definition DataStore_getNumAttributes :: "'n attr_store \<Rightarrow> int" where
  "DataStore_getNumAttributes s = MapCollection_getNumItems (at_coll s)"

definition DataStore_hasAttribute_named :: "'n attr_store \<Rightarrow> string \<Rightarrow> bool" where
  "DataStore_hasAttribute_named s name = MapCollection_hasItem_named (at_coll s) name"

definition DataStore_hasAttribute :: "'n attr_store \<Rightarrow> int \<Rightarrow> bool" where
  "DataStore_hasAttribute s idx = MapCollection_hasItem (at_coll s) idx"

definition DataStore_getAttribute :: "'n attr_store \<Rightarrow> int \<Rightarrow> attr_id option" where
  "DataStore_getAttribute s idx = MapCollection_getItem (at_coll s) idx"

definition DataStore_getAttribute_named :: "'n attr_store \<Rightarrow> string \<Rightarrow> attr_id option" where
  "DataStore_getAttribute_named s name = MapCollection_getItem_named (at_coll s) name"

definition createAttributeEmpty :: "string \<Rightarrow> 'n attr_store \<Rightarrow> 'n attr_store \<times> attr_id option" where
  "createAttributeEmpty name s =
     (if name = [] \<or> DataStore_hasAttribute_named s name then (s, None)
      else let a = at_next s;
               (c, i) = MapCollection_insertItem (at_coll s) name a
           in (s\<lparr>at_coll := c, at_attrs := (at_attrs s)(a \<mapsto> (Attribute_new name)\<lparr>a_index := i\<rparr>), at_next := Suc a\<rparr>, Some a))"

definition createAttributeScalar :: "string \<Rightarrow> int \<Rightarrow> 'n \<Rightarrow> 'n attr_store \<Rightarrow> 'n attr_store \<times> attr_id option" where
  "createAttributeScalar name t x s =
     (case createAttributeEmpty name s of
        (s, None) \<Rightarrow> (s, None)
      | (s, Some a) \<Rightarrow> (upd_attr a (\<lambda>A. fst (setDefaultScalar t x A)) s, Some a))"

definition createAttributeString :: "string \<Rightarrow> string \<Rightarrow> 'n attr_store \<Rightarrow> 'n attr_store \<times> attr_id option" where
  "createAttributeString name x s =
     (case createAttributeEmpty name s of
        (s, None) \<Rightarrow> (s, None)
      | (s, Some a) \<Rightarrow> (upd_attr a (\<lambda>A. fst (setDefaultString x A)) s, Some a))"

definition destroyAttribute_at :: "int \<Rightarrow> 'n attr_store \<Rightarrow> 'n attr_store" where
  "destroyAttribute_at idx s =
     (case MapCollection_removeItem (attr_name s) (at_coll s) idx of
        (c, None) \<Rightarrow> s\<lparr>at_coll := c\<rparr>
      | (c, Some a) \<Rightarrow> s\<lparr>at_coll := c, at_attrs := (at_attrs s)(a := None)\<rparr>)"

definition destroyAttribute_ptr :: "attr_id option \<Rightarrow> 'n attr_store \<Rightarrow> fault + 'n attr_store" where
  "destroyAttribute_ptr attr s =
     (case attr of
        None \<Rightarrow> Inl NullDeref
      | Some a \<Rightarrow> Inr (destroyAttribute_at (a_index (the (at_attrs s a))) s))"

definition destroyAttribute :: "string \<Rightarrow> 'n attr_store \<Rightarrow> fault + 'n attr_store" where
  "destroyAttribute name s = destroyAttribute_ptr (DataStore_getAttribute_named s name) s"

definition destroyAllAttributes :: "'n attr_store \<Rightarrow> fault + 'n attr_store" where
  "destroyAllAttributes s =
     index_loop (length (mc_items (at_coll s))) (\<lambda>s. MapCollection_getNextValidIndex (at_coll s))
       (\<lambda>s idx. Inr (destroyAttribute_at idx s)) (MapCollection_getFirstValidIndex (at_coll s)) s"

section \<open>Attribute values of views\<close>

definition deref_attr :: "'n attr_store \<Rightarrow> attr_id option \<Rightarrow> 'n Attribute option" where
  "deref_attr s attr = Option.bind attr (at_attrs s)"

definition View_getAttribute :: "'n attr_store \<Rightarrow> int \<Rightarrow> attr_id option" where
  "View_getAttribute s idx = DataStore_getAttribute s idx"

definition View_getAttribute_named :: "'n attr_store \<Rightarrow> string \<Rightarrow> attr_id option" where
  "View_getAttribute_named s name = DataStore_getAttribute_named s name"

definition View_hasAttributeValue :: "'n attr_store \<Rightarrow> view_id \<Rightarrow> attr_id option \<Rightarrow> bool" where
  "View_hasAttributeValue s v attr = AttrValues_hasValue (deref_attr s attr) (at_values s v)"

definition View_hasAttributeValue_at :: "'n attr_store \<Rightarrow> view_id \<Rightarrow> int \<Rightarrow> bool" where
  "View_hasAttributeValue_at s v idx = View_hasAttributeValue s v (View_getAttribute s idx)"

definition View_hasAttributeValue_named :: "'n attr_store \<Rightarrow> view_id \<Rightarrow> string \<Rightarrow> bool" where
  "View_hasAttributeValue_named s v name = View_hasAttributeValue s v (View_getAttribute_named s name)"

definition set_values :: "view_id \<Rightarrow> 'n attr_store \<Rightarrow> 'n AttrValues \<times> bool \<Rightarrow> 'n attr_store \<times> bool" where
  "set_values v s r = (s\<lparr>at_values := (at_values s)(v := fst r)\<rparr>, snd r)"

definition View_setAttributeToDefault :: "view_id \<Rightarrow> attr_id option \<Rightarrow> 'n attr_store \<Rightarrow> 'n attr_store \<times> bool" where
  "View_setAttributeToDefault v attr s = set_values v s (AttrValues_setToDefault (deref_attr s attr) (at_values s v))"

definition View_setAttributeToDefault_at :: "view_id \<Rightarrow> int \<Rightarrow> 'n attr_store \<Rightarrow> 'n attr_store \<times> bool" where
  "View_setAttributeToDefault_at v idx s = View_setAttributeToDefault v (View_getAttribute s idx) s"

definition View_setAttributeToDefault_named :: "view_id \<Rightarrow> string \<Rightarrow> 'n attr_store \<Rightarrow> 'n attr_store \<times> bool" where
  "View_setAttributeToDefault_named v name s = View_setAttributeToDefault v (View_getAttribute_named s name) s"

definition View_setAttributeScalar :: "view_id \<Rightarrow> attr_id option \<Rightarrow> int \<Rightarrow> 'n \<Rightarrow> 'n attr_store \<Rightarrow> 'n attr_store \<times> bool" where
  "View_setAttributeScalar v attr t x s =
     (case attr of
        None \<Rightarrow> (s, False)
      | Some a \<Rightarrow> set_values v s (AttrValues_setScalar (the (at_attrs s a)) t x (at_values s v)))"

definition View_setAttributeScalar_at :: "view_id \<Rightarrow> int \<Rightarrow> int \<Rightarrow> 'n \<Rightarrow> 'n attr_store \<Rightarrow> 'n attr_store \<times> bool" where
  "View_setAttributeScalar_at v idx t x s = View_setAttributeScalar v (View_getAttribute s idx) t x s"

definition View_setAttributeScalar_named :: "view_id \<Rightarrow> string \<Rightarrow> int \<Rightarrow> 'n \<Rightarrow> 'n attr_store \<Rightarrow> 'n attr_store \<times> bool" where
  "View_setAttributeScalar_named v name t x s = View_setAttributeScalar v (View_getAttribute_named s name) t x s"

definition View_setAttributeString :: "view_id \<Rightarrow> attr_id option \<Rightarrow> string \<Rightarrow> 'n attr_store \<Rightarrow> 'n attr_store \<times> bool" where
  "View_setAttributeString v attr x s =
     (case attr of
        None \<Rightarrow> (s, False)
      | Some a \<Rightarrow> set_values v s (AttrValues_setString (the (at_attrs s a)) x (at_values s v)))"

definition View_setAttributeString_at :: "view_id \<Rightarrow> int \<Rightarrow> string \<Rightarrow> 'n attr_store \<Rightarrow> 'n attr_store \<times> bool" where
  "View_setAttributeString_at v idx x s = View_setAttributeString v (View_getAttribute s idx) x s"

definition View_setAttributeString_named :: "view_id \<Rightarrow> string \<Rightarrow> string \<Rightarrow> 'n attr_store \<Rightarrow> 'n attr_store \<times> bool" where
  "View_setAttributeString_named v name x s = View_setAttributeString v (View_getAttribute_named s name) x s"

definition View_getAttributeNodeRef :: "'n attr_store \<Rightarrow> view_id \<Rightarrow> attr_id option \<Rightarrow> 'n attr_value option" where
  "View_getAttributeNodeRef s v attr = AttrValues_getValueNodeRef (deref_attr s attr) (at_values s v)"

definition View_getAttributeNodeRef_at :: "'n attr_store \<Rightarrow> view_id \<Rightarrow> int \<Rightarrow> 'n attr_value option" where
  "View_getAttributeNodeRef_at s v idx = View_getAttributeNodeRef s v (View_getAttribute s idx)"

definition View_getAttributeNodeRef_named :: "'n attr_store \<Rightarrow> view_id \<Rightarrow> string \<Rightarrow> 'n attr_value option" where
  "View_getAttributeNodeRef_named s v name = View_getAttributeNodeRef s v (View_getAttribute_named s name)"

definition View_getAttributeString :: "'n attr_store \<Rightarrow> view_id \<Rightarrow> attr_id option \<Rightarrow> fault + string option" where
  "View_getAttributeString s v attr = AttrValues_getString (deref_attr s attr) (at_values s v)"

text \<open>The attribute part of \<^verbatim>\<open>View::clear\<close>; a new view has no values.\<close>

definition View_clear_attributes :: "view_id \<Rightarrow> 'n attr_store \<Rightarrow> 'n attr_store" where
  "View_clear_attributes v s = s\<lparr>at_values := (at_values s)(v := AttrValues_clear (at_values s v))\<rparr>"

section \<open>Saving and restoring\<close>

text \<open>
  A Conduit object as the list of its named children: \<^verbatim>\<open>node[name] = value\<close> replaces a child or
  appends one. Names with a slash would be paths, which is not represented.
\<close>

type_synonym 'n object = "(string \<times> 'n attr_value option) list"

definition View_exportAttribute :: "'n attr_store \<Rightarrow> view_id \<Rightarrow> fault + 'n object option" where
  "View_exportAttribute s v =
     (let vals = at_values s v; aidx = getFirstValidAttrValueIndex vals
      in if aidx = InvalidIndex then Inr None
         else res_bind
           (index_loop (length (the vals)) (\<lambda>node idx. projr (getNextValidAttrValueIndex vals idx))
              (\<lambda>node idx.
                 case View_getAttribute s idx of
                   None \<Rightarrow> Inl NullDeref
                 | Some a \<Rightarrow> Inr (AList.update (attr_name s a) (View_getAttributeNodeRef s v (Some a)) node))
              aidx [])
           (\<lambda>node. Inr (Some node)))"

definition import_child :: "view_id \<Rightarrow> string \<times> 'n attr_value option \<Rightarrow> 'n attr_store \<Rightarrow> 'n attr_store" where
  "import_child v entry s =
     (case View_getAttribute_named s (fst entry) of
        None \<Rightarrow> s
      | Some a \<Rightarrow> fst (set_values v s (AttrValues_setNode (the (at_attrs s a)) (snd entry) (at_values s v))))"

definition View_importAttribute :: "view_id \<Rightarrow> 'n object option \<Rightarrow> 'n attr_store \<Rightarrow> 'n attr_store" where
  "View_importAttribute v attribute s = (case attribute of None \<Rightarrow> s | Some node \<Rightarrow> fold (import_child v) node s)"

definition load_child :: "string \<times> 'n attr_value option \<Rightarrow> 'n attr_store \<Rightarrow> fault + 'n attr_store" where
  "load_child entry s =
     (case (if \<not> DataStore_hasAttribute_named s (fst entry) then createAttributeEmpty (fst entry) s
            else (s, DataStore_getAttribute_named s (fst entry))) of
        (s, None) \<Rightarrow> Inl NullDeref
      | (s, Some a) \<Rightarrow> Inr (upd_attr a (\<lambda>A. fst (setDefaultNodeRef (snd entry) A)) s))"

primrec load_children :: "'n object \<Rightarrow> 'n attr_store \<Rightarrow> fault + 'n attr_store" where
  "load_children [] s = Inr s"
| "load_children (entry # node) s = res_bind (load_child entry s) (load_children node)"

definition loadAttributeLayout :: "'n object option \<Rightarrow> 'n attr_store \<Rightarrow> fault + 'n attr_store" where
  "loadAttributeLayout attribute s = (case attribute of None \<Rightarrow> Inr s | Some node \<Rightarrow> load_children node s)"

text \<open>The range-for over \<^verbatim>\<open>attributes()\<close>; \<^term>\<open>None\<close> would be a loop that does not end.\<close>

definition saveAttributeLayout :: "'n attr_store \<Rightarrow> ('n object \<times> bool) option" where
  "saveAttributeLayout s =
     (let (b, e) = const_adaptor_range (MapCollection_getFirstValidIndex (at_coll s))
      in map_option
           (\<lambda>is. (fold (\<lambda>i. let a = the (DataStore_getAttribute s i)
                           in AList.update (attr_name s a) (a_default (the (at_attrs s a)))) is [],
                  is \<noteq> []))
           (range_loop (MapCollection_getNextValidIndex (at_coll s)) b e))"

section \<open>Values as a partial map\<close>

text \<open>The vector of values seen as a partial map on indices, and every operation on it.\<close>

definition value_at :: "'n AttrValues \<Rightarrow> int \<Rightarrow> 'n attr_value option" where
  "value_at vals = (case vals of None \<Rightarrow> Map.empty | Some vs \<Rightarrow> slot_getItem vs)"

lemma finite_value_at: "finite (dom (value_at vals))"
  by (simp add: value_at_def split: option.split)

lemma value_at_nonneg: "i \<in> dom (value_at vals) \<Longrightarrow> 0 \<le> i"
  using dom_slot_getItem by (fastforce simp: value_at_def split: option.splits)

lemma hasValue_iff [simp]: "AttrValues_hasValue (Some a) vals \<longleftrightarrow> value_at vals (a_index a) \<noteq> None"
  by (simp add: AttrValues_hasValue_def value_at_def slot_getItem_def slot_hasItem_def split: option.split)

lemma getValueNodeRef_eq [simp]:
  "AttrValues_getValueNodeRef (Some a) vals = (case value_at vals (a_index a) of None \<Rightarrow> a_default a | Some x \<Rightarrow> Some x)"
  by (auto simp: AttrValues_getValueNodeRef_def value_at_def slot_getItem_def slot_hasItem_def split: option.splits)

lemma slot_getItem_replicate: "slot_getItem (vs @ replicate n None) = slot_getItem vs"
  by (induction n) (simp_all add: replicate_append_same [symmetric] slot_getItem_append_None flip: append_assoc del: replicate.simps)

lemma createNode_range: "0 \<le> i \<Longrightarrow> i < int (length (AttrValues_createNode i vals))"
  by (auto simp: AttrValues_createNode_def in_vector_def Let_def)

lemma value_at_createNode: "slot_getItem (AttrValues_createNode i vals) = value_at vals"
  by (auto simp: AttrValues_createNode_def Let_def value_at_def slot_getItem_replicate fun_eq_iff split: option.split)

lemma slot_getItem_set:
  assumes "0 \<le> i" and "i < int (length vs)"
  shows "slot_getItem (vs[nat i := x]) = (slot_getItem vs)(i := x)"
  using assms by (rule slot_getItem_update)

lemma value_at_setNode [simp]:
  assumes "0 \<le> a_index a"
  shows "value_at (fst (AttrValues_setNode a node vals)) = (value_at vals)(a_index a := node)"
  using slot_getItem_set [OF assms createNode_range [OF assms]]
  by (simp add: AttrValues_setNode_def value_at_createNode) (simp add: value_at_def)

lemma setScalar_eq:
  "AttrValues_setScalar a t x vals =
     (if SCALAR_ID t = Attribute_getTypeID a then AttrValues_setNode a (Some (ScalarValue t x)) vals else (vals, False))"
  by (simp add: AttrValues_setScalar_def AttrValues_setNode_def)

lemma setString_eq:
  "AttrValues_setString a x vals =
     (if CHAR8_STR_ID = Attribute_getTypeID a then AttrValues_setNode a (Some (StringValue x)) vals else (vals, False))"
  by (simp add: AttrValues_setString_def AttrValues_setNode_def)

lemma value_at_setToDefault [simp]:
  "value_at (fst (AttrValues_setToDefault (Some a) vals)) = (value_at vals)(a_index a := None)"
proof (cases vals)
  case None
  then show ?thesis by (simp add: AttrValues_setToDefault_def value_at_def)
next
  case (Some vs)
  show ?thesis
  proof (cases "in_vector (a_index a) vs")
    case True
    with Some slot_getItem_set [of "a_index a" vs None] show ?thesis
      by (simp add: AttrValues_setToDefault_def value_at_def in_vector_def)
  next
    case False
    then have "slot_getItem vs (a_index a) = None" by (simp add: slot_getItem_def slot_hasItem_def)
    with Some False show ?thesis by (simp add: AttrValues_setToDefault_def value_at_def fun_upd_idem)
  qed
qed

lemma for_find_default: "for_find P lo hi d = (if for_find P lo hi hi < hi then for_find P lo hi hi else d)"
proof (induction P lo hi d rule: for_find.induct)
  case (1 P lo hi d)
  then show ?case by (subst (1 2 3) for_find.simps) simp
qed

lemma for_find_ge: "lo \<le> d \<Longrightarrow> lo \<le> for_find P lo hi d \<or> hi \<le> lo"
  using for_find_cases [of P lo hi d] by auto

lemma value_index_first: "getFirstValidAttrValueIndex vals = least_above (dom (value_at vals)) (- 1)"
proof (cases vals)
  case None
  then show ?thesis by (simp add: getFirstValidAttrValueIndex_def value_at_def least_above_def)
next
  case (Some vs)
  have "for_find (\<lambda>i. vs ! nat i \<noteq> None) 0 (int (length vs)) InvalidIndex = slot_firstValid vs"
    using for_find_default [of "\<lambda>i. vs ! nat i \<noteq> None" 0 "int (length vs)" InvalidIndex]
      for_find_ge [of 0 "int (length vs)" "\<lambda>i. vs ! nat i \<noteq> None" "int (length vs)"]
    by (cases vs) (simp_all add: for_find_step(3) slot_firstValid_def slot_scan_def in_vector_def Let_def del: length_Cons)
  with Some slot_firstValid_eq show ?thesis by (simp add: getFirstValidAttrValueIndex_def value_at_def)
qed

lemma value_index_next:
  assumes "0 \<le> i" and "i \<in> dom (value_at vals)"
  shows "getNextValidAttrValueIndex vals i = Inr (least_above (dom (value_at vals)) i)"
proof -
  obtain vs where vs: "vals = Some vs" using assms(2) by (cases vals) (auto simp: value_at_def)
  have i: "i < int (length vs)" using assms(2) dom_slot_getItem [of vs] by (auto simp: vs value_at_def)
  have "for_find (\<lambda>j. vs ! nat j \<noteq> None) (int (length vs)) (int (length vs)) (int (length vs)) = int (length vs)"
    by (subst for_find.simps) simp
  then have "getNextValidAttrValueIndex vals i = Inr (slot_nextValid vs i)"
    using assms(1) i by (cases "i + 1 = int (length vs)") (auto simp: vs getNextValidAttrValueIndex_def slot_nextValid_def slot_scan_def in_vector_def Let_def)
  with slot_nextValid_eq [OF assms(1), of vs] show ?thesis by (simp add: vs value_at_def)
qed

section \<open>The invariant\<close>

text \<open>
  The collection and the attribute objects agree: each attribute is in the collection at the index it
  records and under its name, and nothing else is there.
\<close>

definition attr_inv :: "'n attr_store \<Rightarrow> bool" where
  "attr_inv s \<longleftrightarrow> mc_inv (attr_name s) (at_coll s) \<and>
     (\<forall>a A. at_attrs s a = Some A \<longrightarrow> a < at_next s \<and> a_name A \<noteq> [] \<and> MapCollection_getItem (at_coll s) (a_index A) = Some a) \<and>
     (\<forall>i a. MapCollection_getItem (at_coll s) i = Some a \<longrightarrow> (\<exists>A. at_attrs s a = Some A \<and> a_index A = i))"

lemma attr_invD:
  assumes "attr_inv s"
  shows "mc_inv (attr_name s) (at_coll s)"
    and "at_attrs s a = Some A \<Longrightarrow> a < at_next s" and "at_attrs s a = Some A \<Longrightarrow> a_name A \<noteq> []"
    and "at_attrs s a = Some A \<Longrightarrow> MapCollection_getItem (at_coll s) (a_index A) = Some a"
    and "MapCollection_getItem (at_coll s) i = Some a \<Longrightarrow> \<exists>A. at_attrs s a = Some A \<and> a_index A = i"
  using assms by (auto simp: attr_inv_def)

lemma attr_index_nonneg: "attr_inv s \<Longrightarrow> at_attrs s a = Some A \<Longrightarrow> 0 \<le> a_index A"
  using mapped.items_nonneg [OF attr_invD(1)] attr_invD(4) by (metis domI)

lemma attr_index_inj:
  assumes "attr_inv s" and "at_attrs s a = Some A" and "at_attrs s b = Some B" and "a_index A = a_index B"
  shows "a = b"
  using attr_invD(4) [OF assms(1,2)] attr_invD(4) [OF assms(1,3)] assms(4) by simp

lemma attr_named_iff:
  assumes "attr_inv s"
  shows "DataStore_getAttribute_named s name = Some a \<longleftrightarrow> (\<exists>A. at_attrs s a = Some A \<and> a_name A = name)"
    and "DataStore_hasAttribute_named s name \<longleftrightarrow> (\<exists>a A. at_attrs s a = Some A \<and> a_name A = name)"
proof -
  note look = named_lookup [OF attr_invD(1) [OF assms], of name]
  show "DataStore_getAttribute_named s name = Some a \<longleftrightarrow> (\<exists>A. at_attrs s a = Some A \<and> a_name A = name)"
    unfolding DataStore_getAttribute_named_def look(2) attr_name_def
    using attr_invD(4,5) [OF assms] by (metis option.sel)
  show "DataStore_hasAttribute_named s name \<longleftrightarrow> (\<exists>a A. at_attrs s a = Some A \<and> a_name A = name)"
    unfolding DataStore_hasAttribute_named_def look(1) attr_name_def
    using attr_invD(4,5) [OF assms] by (metis option.sel)
qed

lemma mc_inv_cong:
  assumes "\<And>i x. MapCollection_getItem m i = Some x \<Longrightarrow> name_of x = name_of' x"
  shows "mc_inv name_of m \<longleftrightarrow> mc_inv name_of' m"
proof -
  have "(\<exists>x. slot_getItem (mc_items m) i = Some x \<and> name_of x = name) \<longleftrightarrow>
      (\<exists>x. slot_getItem (mc_items m) i = Some x \<and> name_of' x = name)" for i name
    using assms by (auto simp: MapCollection_getItem_def)
  then show ?thesis by (simp add: mc_inv_def)
qed

lemma attr_inv_new [simp]: "attr_inv attr_store_new"
  by (simp add: attr_inv_def attr_store_new_def mc_inv_def MapCollection_new_def MapCollection_getItem_def)

text \<open>Updates that keep names and indices, and changes of values, keep the invariant.\<close>

lemma attr_inv_upd:
  assumes "attr_inv s" and "\<And>A. a_name (f A) = a_name A \<and> a_index (f A) = a_index A"
  shows "attr_inv (upd_attr a f s)"
proof -
  have "attr_name (upd_attr a f s) b = attr_name s b" if "at_attrs s b \<noteq> None" for b
    using that assms(2) by (auto simp: attr_name_def upd_attr_def)
  then have "mc_inv (attr_name (upd_attr a f s)) (at_coll s)"
    using attr_invD(1) [OF assms(1)] mc_inv_cong [of "at_coll s" "attr_name s"] attr_invD(5) [OF assms(1)] by (metis option.distinct(1))
  moreover have "\<exists>B. at_attrs (upd_attr a f s) b = Some B \<and> a_index B = i" if "MapCollection_getItem (at_coll s) i = Some b" for i b
    using attr_invD(5) [OF assms(1) that] assms(2) by (auto simp: upd_attr_def)
  ultimately show ?thesis using assms unfolding attr_inv_def by (auto simp: upd_attr_def split: if_splits)
qed

lemma attr_inv_values [simp]: "attr_inv (s\<lparr>at_values := f\<rparr>) \<longleftrightarrow> attr_inv s"
  by (simp add: attr_inv_def attr_name_def [abs_def])

lemma setDefault_keeps:
  "a_name (fst (setDefaultScalar t x A)) = a_name A" "a_index (fst (setDefaultScalar t x A)) = a_index A"
  "a_name (fst (setDefaultString y A)) = a_name A" "a_index (fst (setDefaultString y A)) = a_index A"
  "a_name (fst (setDefaultNodeRef n A)) = a_name A" "a_index (fst (setDefaultNodeRef n A)) = a_index A"
  by (simp_all add: setDefaultScalar_def setDefaultString_def setDefaultNodeRef_def)

lemma createAttributeEmpty_effect:
  assumes inv: "attr_inv s" and name: "name \<noteq> []" "\<not> DataStore_hasAttribute_named s name"
  obtains s' i where "createAttributeEmpty name s = (s', Some (at_next s))" "attr_inv s'" "0 \<le> i"
    "MapCollection_insertItem (at_coll s) name (at_next s) = (at_coll s', i)"
    "at_attrs s' = (at_attrs s)(at_next s \<mapsto> \<lparr>a_name = name, a_index = i, a_default = None\<rparr>)"
    "at_values s' = at_values s" "at_attrs s (at_next s) = None"
proof -
  let ?a = "at_next s" and ?f = "(attr_name s)(at_next s := name)"
  have new: "at_attrs s ?a = None" using attr_invD(2) [OF inv, of ?a] by fastforce
  have "mc_inv ?f (at_coll s)"
    using attr_invD(1) [OF inv] mc_inv_cong [of "at_coll s" "attr_name s" ?f] attr_invD(5) [OF inv] new by (metis fun_upd_other option.distinct(1))
  moreover have "mc_name2idx_map (at_coll s) name = None" using name(2) by (simp add: DataStore_hasAttribute_named_def MapCollection_hasItem_named_def)
  ultimately obtain c i where c: "MapCollection_insertItem (at_coll s) name ?a = (c, i)" "mc_inv ?f c" "0 \<le> i"
    "MapCollection_getItem (at_coll s) i = None" "MapCollection_getItem c = (MapCollection_getItem (at_coll s))(i \<mapsto> ?a)"
    using mapped.insert_accepted [of ?f "at_coll s" ?a name] by auto
  let ?s = "s\<lparr>at_coll := c, at_attrs := (at_attrs s)(?a \<mapsto> \<lparr>a_name = name, a_index = i, a_default = None\<rparr>), at_next := Suc ?a\<rparr>"
  have cre: "createAttributeEmpty name s = (?s, Some ?a)"
    using name c(1) by (simp add: createAttributeEmpty_def Attribute_new_def Let_def)
  have "attr_name ?s = ?f" by (auto simp: attr_name_def)
  then have "mc_inv (attr_name ?s) c" using c(2) by simp
  moreover have "b < Suc ?a" if "at_attrs s b = Some B" for b B using attr_invD(2) [OF inv that] by simp
  moreover have "MapCollection_getItem c (a_index B) = Some b" if "at_attrs s b = Some B" for b B
    using attr_invD(4) [OF inv that] c(4) by (auto simp: c(5))
  ultimately have "attr_inv ?s"
    using name(1) attr_invD(3,5) [OF inv] new by (fastforce simp: attr_inv_def c(5))
  with cre c(1,3) new that [of ?s i] show thesis by simp
qed

lemma destroyAttribute_at_effect:
  assumes inv: "attr_inv s"
  shows "attr_inv (destroyAttribute_at i s)" "at_values (destroyAttribute_at i s) = at_values s"
    "MapCollection_getItem (at_coll (destroyAttribute_at i s)) = (MapCollection_getItem (at_coll s))(i := None)"
    "at_attrs (destroyAttribute_at i s) b = (if MapCollection_getItem (at_coll s) i = Some b then None else at_attrs s b)"
proof -
  obtain c where c: "MapCollection_removeItem (attr_name s) (at_coll s) i = (c, MapCollection_getItem (at_coll s) i)"
    "mc_inv (attr_name s) c" "MapCollection_getItem c = (MapCollection_getItem (at_coll s))(i := None)"
    using mapped.remove_item [OF attr_invD(1) [OF inv]] by blast
  let ?g = "MapCollection_getItem (at_coll s) i" and ?s = "destroyAttribute_at i s"
  have s: "at_coll ?s = c" "at_values ?s = at_values s" "at_next ?s = at_next s"
    "at_attrs ?s = (\<lambda>b. if ?g = Some b then None else at_attrs s b)"
    using c(1) by (auto simp: destroyAttribute_at_def fun_eq_iff split: option.split)
  show "at_values ?s = at_values s" "MapCollection_getItem (at_coll ?s) = (MapCollection_getItem (at_coll s))(i := None)"
    "at_attrs ?s b = (if ?g = Some b then None else at_attrs s b)" using s c(3) by auto
  have other: "?g \<noteq> Some b" if "MapCollection_getItem c j = Some b" for j b
    using that attr_invD(5) [OF inv] unfolding c(3) by (metis fun_upd_apply option.distinct(1) option.inject)
  have "mc_inv (attr_name ?s) c"
    using c(2) mc_inv_cong [of c "attr_name s" "attr_name ?s"] other by (simp add: attr_name_def s)
  moreover have "MapCollection_getItem c (a_index A) = Some a" if "at_attrs s a = Some A" "?g \<noteq> Some a" for a A
    using attr_invD(4) [OF inv that(1)] that(2) by (auto simp: c(3))
  moreover have "\<exists>A. at_attrs ?s a = Some A \<and> a_index A = j" if "MapCollection_getItem c j = Some a" for j a
    using other [OF that] that attr_invD(5) [OF inv, of j a] by (auto simp: s c(3) split: if_splits)
  ultimately show "attr_inv ?s"
    using attr_invD(2,3) [OF inv] unfolding attr_inv_def s by (auto split: if_splits)
qed

lemma destroyAttribute_recycles:
  assumes inv: "attr_inv s" and a: "at_attrs s a = Some A"
    and ins: "MapCollection_insertItem (at_coll (destroyAttribute_at (a_index A) s)) name b = (c, i)"
    and free: "\<not> DataStore_hasAttribute_named (destroyAttribute_at (a_index A) s) name"
  shows "i = a_index A"
proof -
  let ?c = "at_coll s"
  have get: "MapCollection_getItem ?c (a_index A) = Some a" by (rule attr_invD(4) [OF inv a])
  then have "mc_name2idx_map ?c (attr_name s a) = Some (a_index A)" using named_lookup(3) [OF attr_invD(1) [OF inv]] by blast
  moreover have "MapCollection_hasItem ?c (a_index A)" "mc_items ?c ! nat (a_index A) = Some a"
    using get by (auto simp: MapCollection_getItem_def MapCollection_hasItem_def slot_getItem_def split: if_splits)
  ultimately have "mc_free_ids (at_coll (destroyAttribute_at (a_index A) s)) = a_index A # mc_free_ids ?c"
    by (simp add: destroyAttribute_at_def MapCollection_removeItem_def MapCollection_removeItem_named_def)
  with ins free show ?thesis
    by (auto simp: MapCollection_insertItem_def DataStore_hasAttribute_named_def MapCollection_hasItem_named_def Let_def split: if_splits)
qed

text \<open>The two creating operations, through the one that creates an attribute without a default.\<close>

lemma createAttribute_cases:
  assumes "attr_inv s"
  shows "attr_inv (fst (createAttributeEmpty name s))"
    and "attr_inv (fst (createAttributeScalar name t x s))" and "attr_inv (fst (createAttributeString name y s))"
proof -
  show empty: "attr_inv (fst (createAttributeEmpty name s))"
  proof (cases "name = [] \<or> DataStore_hasAttribute_named s name")
    case True
    with assms show ?thesis by (simp add: createAttributeEmpty_def)
  next
    case False
    then show ?thesis using createAttributeEmpty_effect [OF assms, of name] by (metis fst_conv)
  qed
  then show "attr_inv (fst (createAttributeScalar name t x s))" "attr_inv (fst (createAttributeString name y s))"
    by (auto simp: createAttributeScalar_def createAttributeString_def setDefault_keeps intro: attr_inv_upd split: prod.split option.split)
qed

lemma set_values_simps [simp]:
  "attr_inv (fst (set_values v s r)) \<longleftrightarrow> attr_inv s" "snd (set_values v s r) = snd r"
  "at_attrs (fst (set_values v s r)) = at_attrs s" "at_coll (fst (set_values v s r)) = at_coll s"
  "at_values (fst (set_values v s r)) = (at_values s)(v := fst r)"
  by (simp_all add: set_values_def)

lemma attr_inv_set:
  assumes "attr_inv s"
  shows "attr_inv (fst (View_setAttributeScalar v a t x s))" "attr_inv (fst (View_setAttributeString v a y s))"
    "attr_inv (fst (View_setAttributeToDefault v a s))" "attr_inv (View_clear_attributes v s)"
  using assms
  by (auto simp: View_setAttributeScalar_def View_setAttributeString_def View_setAttributeToDefault_def
      View_clear_attributes_def split: option.split)

lemma attr_inv_import: "attr_inv s \<Longrightarrow> attr_inv (View_importAttribute v obj s)"
proof -
  have entry: "attr_inv s \<Longrightarrow> attr_inv (import_child v e s)" for e and s :: "'a attr_store"
    by (simp add: import_child_def split: option.split)
  have "attr_inv s \<Longrightarrow> attr_inv (fold (import_child v) node s)" for node and s :: "'a attr_store"
    by (induction node arbitrary: s) (simp_all add: entry)
  then show "attr_inv s \<Longrightarrow> attr_inv (View_importAttribute v obj s)" by (simp add: View_importAttribute_def split: option.split)
qed

lemma load_child_inv:
  assumes "attr_inv s" and "load_child e s = Inr s'"
  shows "attr_inv s'"
proof -
  let ?r = "if \<not> DataStore_hasAttribute_named s (fst e) then createAttributeEmpty (fst e) s else (s, DataStore_getAttribute_named s (fst e))"
  have "attr_inv (fst ?r)" using assms(1) createAttribute_cases(1) by auto
  with assms(2) show ?thesis by (auto simp: load_child_def setDefault_keeps intro!: attr_inv_upd split: prod.splits option.splits)
qed

lemma load_children_inv: "attr_inv s \<Longrightarrow> load_children node s = Inr s' \<Longrightarrow> attr_inv s'"
proof (induction node arbitrary: s)
  case (Cons e node)
  then obtain s1 where "load_child e s = Inr s1" "load_children node s1 = Inr s'" by (cases "load_child e s") auto
  with Cons load_child_inv show ?case by blast
qed simp

lemma destroyAllAttributes_effect:
  assumes inv: "attr_inv s"
  shows "\<exists>s'. destroyAllAttributes s = Inr s' \<and> attr_inv s' \<and> at_attrs s' = Map.empty \<and> at_values s' = at_values s"
proof -
  let ?c = "MapColl (at_coll s)"
  have ci: "coll_inv (attr_name s) ?c" using attr_invD(1) [OF inv] by simp
  note p = coll_indices_props [OF ci]
  have get: "coll_getItem ?c = MapCollection_getItem (at_coll s)" by (simp add: fun_eq_iff)
  let ?P = "\<lambda>done s'. attr_inv s' \<and> at_values s' = at_values s \<and>
      MapCollection_getItem (at_coll s') = MapCollection_getItem (at_coll s) |` (- set done)"
  have "\<exists>s'. index_loop (length (mc_items (at_coll s))) (\<lambda>s. MapCollection_getNextValidIndex (at_coll s))
      (\<lambda>s idx. Inr (destroyAttribute_at idx s)) (hd_index (coll_indices ?c)) s = Inr s' \<and> ?P (coll_indices ?c) s'"
  proof (rule index_loop_rule)
    show "\<forall>i\<in>set (coll_indices ?c). i \<noteq> InvalidIndex" by (rule p(3))
    show "length (coll_indices ?c) \<le> length (mc_items (at_coll s))" using p(5) by simp
    show "?P [] s" using inv by (simp add: fun_eq_iff restrict_map_def)
    fix "done" i todo s1 assume split: "coll_indices ?c = done @ i # todo" and P: "?P done s1"
    let ?s = "destroyAttribute_at i s1"
    note eff = destroyAttribute_at_effect [OF conjunct1 [OF P], of i]
    have get': "MapCollection_getItem (at_coll ?s) = MapCollection_getItem (at_coll s) |` (- set (done @ [i]))"
      using P eff(3) by (auto simp: fun_eq_iff restrict_map_def)
    have "\<forall>j\<in>set done. j < i" using p(2) by (simp add: split sorted_wrt_append)
    then have "{j \<in> dom (coll_getItem (MapColl (at_coll ?s))). i < j} = {j \<in> dom (coll_getItem ?c). i < j}"
      using get' by (force simp: restrict_map_def split: if_splits)
    then have "coll_next (MapColl (at_coll ?s)) i = hd_index todo"
      by (intro coll_next_in [OF ci split, of "attr_name ?s"]) (use attr_invD(1) [OF eff(1)] in simp_all)
    with eff(1,2) get' P show "\<exists>s'. Inr ?s = Inr s' \<and> ?P (done @ [i]) s' \<and> MapCollection_getNextValidIndex (at_coll s') i = hd_index todo"
      by simp
  qed
  then obtain s' where s': "destroyAllAttributes s = Inr s'" "?P (coll_indices ?c) s'"
    using p(4) by (auto simp: destroyAllAttributes_def)
  have "MapCollection_getItem (at_coll s') = Map.empty"
    using s'(2) p(1) unfolding get by (auto simp: fun_eq_iff restrict_map_def domIff)
  then have "at_attrs s' = Map.empty" using attr_invD(4) [of s'] s'(2) by (metis not_None_eq)
  with s' show ?thesis by blast
qed

section \<open>The machine\<close>

text \<open>Every public operation on attributes and on the attribute values of views; pointers are live or null.\<close>

inductive attr_step :: "'n attr_store \<Rightarrow> 'n attr_store \<Rightarrow> bool" where
  step_create_scalar: "attr_step s (fst (createAttributeScalar name t x s))"
| step_create_string: "attr_step s (fst (createAttributeString name y s))"
| step_destroy_at: "attr_step s (destroyAttribute_at i s)"
| step_destroy_named: "destroyAttribute name s = Inr s' \<Longrightarrow> attr_step s s'"
| step_destroy_all: "destroyAllAttributes s = Inr s' \<Longrightarrow> attr_step s s'"
| step_default_scalar: "attr_step s (upd_attr a (\<lambda>A. fst (setDefaultScalar t x A)) s)"
| step_default_string: "attr_step s (upd_attr a (\<lambda>A. fst (setDefaultString y A)) s)"
| step_default_node: "attr_step s (upd_attr a (\<lambda>A. fst (setDefaultNodeRef n A)) s)"
| step_set_scalar: "attr = None \<or> at_attrs s (the attr) \<noteq> None \<Longrightarrow> attr_step s (fst (View_setAttributeScalar v attr t x s))"
| step_set_string: "attr = None \<or> at_attrs s (the attr) \<noteq> None \<Longrightarrow> attr_step s (fst (View_setAttributeString v attr y s))"
| step_to_default: "attr = None \<or> at_attrs s (the attr) \<noteq> None \<Longrightarrow> attr_step s (fst (View_setAttributeToDefault v attr s))"
| step_clear_view: "attr_step s (View_clear_attributes v s)"
| step_import: "attr_step s (View_importAttribute v obj s)"
| step_load: "loadAttributeLayout obj s = Inr s' \<Longrightarrow> attr_step s s'"

inductive reachable_attrs :: "'n attr_store \<Rightarrow> bool" where
  attrs_new: "reachable_attrs attr_store_new"
| attrs_next: "reachable_attrs s \<Longrightarrow> attr_step s s' \<Longrightarrow> reachable_attrs s'"

lemma attr_step_inv: "attr_step s s' \<Longrightarrow> attr_inv s \<Longrightarrow> attr_inv s'"
proof (induction rule: attr_step.induct)
  case (step_destroy_named name s s')
  then show ?case using destroyAttribute_at_effect(1) by (auto simp: destroyAttribute_def destroyAttribute_ptr_def split: option.splits)
next
  case (step_destroy_all s s')
  then show ?case using destroyAllAttributes_effect by fastforce
next
  case (step_load obj s s')
  then show ?case using load_children_inv by (auto simp: loadAttributeLayout_def split: option.splits)
qed (simp_all add: createAttribute_cases destroyAttribute_at_effect(1) attr_inv_upd setDefault_keeps attr_inv_set attr_inv_import)

lemma reachable_attrs_inv: "reachable_attrs s \<Longrightarrow> attr_inv s"
  by (induction rule: reachable_attrs.induct) (auto intro: attr_step_inv)

section \<open>What attributes guarantee\<close>

text \<open>
  C22. An attribute value set on a view with the type of the attribute is the one read back, and no other
  value of any view changes; \<^verbatim>\<open>setAttributeToDefault\<close> takes it back; a value of another type is refused
  and nothing changes.
\<close>

theorem sidre_attribute_set_get:
  assumes "reachable_attrs s" and "at_attrs s a = Some A"
  shows "(SCALAR_ID t = Attribute_getTypeID A \<longrightarrow>
           (\<exists>s'. View_setAttributeScalar v (Some a) t x s = (s', True) \<and> View_hasAttributeValue s' v (Some a) \<and>
              View_getAttributeNodeRef s' v (Some a) = Some (ScalarValue t x) \<and>
              (\<forall>u b. (u, b) \<noteq> (v, a) \<longrightarrow> View_hasAttributeValue s' u (Some b) = View_hasAttributeValue s u (Some b) \<and>
                 View_getAttributeNodeRef s' u (Some b) = View_getAttributeNodeRef s u (Some b)) \<and>
              (\<exists>s''. View_setAttributeToDefault v (Some a) s' = (s'', True) \<and> \<not> View_hasAttributeValue s'' v (Some a) \<and>
                 View_getAttributeNodeRef s'' v (Some a) = a_default A))) \<and>
         (SCALAR_ID t \<noteq> Attribute_getTypeID A \<longrightarrow> View_setAttributeScalar v (Some a) t x s = (s, False))"
proof (intro conjI impI)
  note inv = reachable_attrs_inv [OF assms(1)]
  note idx = attr_index_nonneg [OF inv assms(2)]
  let ?r = "View_setAttributeScalar v (Some a) t x s" and ?d = "\<lambda>s. View_setAttributeToDefault v (Some a) s"
  assume t: "SCALAR_ID t = Attribute_getTypeID A"
  have r: "?r = set_values v s (AttrValues_setNode A (Some (ScalarValue t x)) (at_values s v))"
    using assms(2) t by (simp add: View_setAttributeScalar_def setScalar_eq)
  have v: "value_at (at_values (fst ?r) u) = (if u = v then (value_at (at_values s v))(a_index A \<mapsto> ScalarValue t x) else value_at (at_values s u))" for u
    using value_at_setNode [OF idx] by (simp add: r)
  have same: "at_attrs (fst ?r) = at_attrs s" by (simp add: r)
  have other: "View_hasAttributeValue (fst ?r) u (Some b) = View_hasAttributeValue s u (Some b) \<and>
      View_getAttributeNodeRef (fst ?r) u (Some b) = View_getAttributeNodeRef s u (Some b)" if "(u, b) \<noteq> (v, a)" for u b
  proof (cases "at_attrs s b")
    case None
    then show ?thesis using same by (simp add: View_hasAttributeValue_def View_getAttributeNodeRef_def deref_attr_def AttrValues_hasValue_def AttrValues_getValueNodeRef_def)
  next
    case (Some B)
    then have "u = v \<Longrightarrow> a_index B \<noteq> a_index A" using that attr_index_inj [OF inv assms(2) Some] by auto
    with Some same v [of u] show ?thesis by (simp add: View_hasAttributeValue_def View_getAttributeNodeRef_def deref_attr_def)
  qed
  have "snd (?d (fst ?r))" using assms(2) same by (simp add: View_setAttributeToDefault_def deref_attr_def AttrValues_setToDefault_def split: option.split)
  moreover have "\<not> View_hasAttributeValue (fst (?d (fst ?r))) v (Some a) \<and> View_getAttributeNodeRef (fst (?d (fst ?r))) v (Some a) = a_default A"
    using assms(2) same by (simp add: View_setAttributeToDefault_def View_hasAttributeValue_def View_getAttributeNodeRef_def deref_attr_def)
  moreover have "snd ?r" by (simp add: r AttrValues_setNode_def)
  moreover have "View_hasAttributeValue (fst ?r) v (Some a) \<and> View_getAttributeNodeRef (fst ?r) v (Some a) = Some (ScalarValue t x)"
    using assms(2) same v [of v] by (simp add: View_hasAttributeValue_def View_getAttributeNodeRef_def deref_attr_def)
  ultimately show "\<exists>s'. ?r = (s', True) \<and> View_hasAttributeValue s' v (Some a) \<and>
      View_getAttributeNodeRef s' v (Some a) = Some (ScalarValue t x) \<and>
      (\<forall>u b. (u, b) \<noteq> (v, a) \<longrightarrow> View_hasAttributeValue s' u (Some b) = View_hasAttributeValue s u (Some b) \<and>
         View_getAttributeNodeRef s' u (Some b) = View_getAttributeNodeRef s u (Some b)) \<and>
      (\<exists>s''. ?d s' = (s'', True) \<and> \<not> View_hasAttributeValue s'' v (Some a) \<and> View_getAttributeNodeRef s'' v (Some a) = a_default A)"
    using other by (intro exI [of _ "fst ?r"] exI [of _ "fst (?d (fst ?r))"] conjI allI impI) (simp_all add: prod_eq_iff)
next
  assume "SCALAR_ID t \<noteq> Attribute_getTypeID A"
  with assms(2) show "View_setAttributeScalar v (Some a) t x s = (s, False)"
    by (simp add: View_setAttributeScalar_def setScalar_eq set_values_def)
qed

text \<open>A data store with an integer attribute \<^verbatim>\<open>color\<close> that is set on view 7.\<close>

definition sample_attrs :: "int attr_store" where
  "sample_attrs = fst (View_setAttributeScalar 7 (Some 0) 4 5 (fst (createAttributeScalar ''color'' 4 1 attr_store_new)))"

lemma sample_attrs_eval:
  "at_attrs sample_attrs 0 = Some \<lparr>a_name = ''color'', a_index = 0, a_default = Some (ScalarValue 4 1)\<rparr>"
  "View_hasAttributeValue sample_attrs 7 (Some 0)" "View_getAttributeNodeRef sample_attrs 7 (Some 0) = Some (ScalarValue 4 5)"
  by code_simp+

lemma sample_attrs_reachable: "reachable_attrs sample_attrs"
proof -
  let ?s = "fst (createAttributeScalar ''color'' 4 1 attr_store_new) :: int attr_store"
  have "at_attrs ?s 0 \<noteq> None" by code_simp
  then show ?thesis
    unfolding sample_attrs_def by (intro attrs_next [OF attrs_next [OF attrs_new step_create_scalar] step_set_scalar]) simp
qed

theorem sidre_attribute_set_get_witness:
  "\<exists>s'. View_setAttributeScalar 7 (Some 0) 4 9 sample_attrs = (s', True) \<and> View_getAttributeNodeRef s' 7 (Some 0) = Some (ScalarValue 4 9)"
  using sidre_attribute_set_get [OF sample_attrs_reachable sample_attrs_eval(1), of 4 7 9] by (auto simp: Attribute_getTypeID_def)

text \<open>
  The loop of \<^verbatim>\<open>exportAttribute\<close> does not depend on the node it fills for its order, so it is a
  fold over the set indices.
\<close>

primrec res_fold :: "('w \<Rightarrow> 'i \<Rightarrow> fault + 'w) \<Rightarrow> 'i list \<Rightarrow> 'w \<Rightarrow> fault + 'w" where
  "res_fold body [] w = Inr w"
| "res_fold body (i # is) w = res_bind (body w i) (res_fold body is)"

lemma index_loop_fold:
  assumes "sorted_wrt (<) is" and "\<forall>i\<in>set is. i \<noteq> InvalidIndex" and "length is \<le> fuel"
    and "\<And>done i todo w. is = done @ i # todo \<Longrightarrow> nxt w i = hd_index todo"
  shows "index_loop fuel nxt body (hd_index is) w = res_fold body is w"
proof -
  have "index_loop fuel nxt body (hd_index todo) w = res_fold body todo w" if "is = done @ todo" "length todo \<le> fuel" for "done" todo fuel w
    using that
  proof (induction todo arbitrary: "done" fuel w)
    case Nil
    then show ?case by (cases fuel) auto
  next
    case (Cons i todo)
    obtain f where f: "fuel = Suc f" "length todo \<le> f" using Cons.prems(2) by (cases fuel) auto
    have "index_loop f nxt body (hd_index todo) w1 = res_fold body todo w1" for w1
      using Cons.IH [of "done @ [i]" f w1] Cons.prems(1) f(2) by simp
    moreover have "i \<noteq> InvalidIndex" using assms(2) Cons.prems(1) by simp
    ultimately show ?case using f(1) assms(4) [OF Cons.prems(1)] by (cases "body w i") simp_all
  qed
  from this [of "[]" "is"] assms(3) show ?thesis by simp
qed

lemma least_above_split:
  assumes fin: "finite D" and split: "sorted_list_of_set D = done @ i # todo"
  shows "least_above D i = hd_index todo"
proof -
  have D: "D = set done \<union> {i} \<union> set todo" using arg_cong [OF split, of set] fin by auto
  have ord: "sorted_wrt (<) (done @ i # todo)" using strict_sorted_list_of_set [of D] by (simp only: split)
  then have "\<forall>j\<in>set done. j < i" "\<forall>j\<in>set todo. i < j" by (auto simp: sorted_wrt_append)
  then have "{j \<in> D. i < j} = set todo" unfolding D by (auto dest: order_less_asym)
  moreover have "sorted_list_of_set (set todo) = todo"
    using ord by (simp add: sorted_wrt_append sorted_list_of_set.idem_if_sorted_distinct strict_sorted_iff)
  ultimately show ?thesis using least_above_sorted [OF fin, of i] by simp
qed

definition export_entry :: "'n attr_store \<Rightarrow> view_id \<Rightarrow> 'n object \<Rightarrow> int \<Rightarrow> fault + 'n object" where
  "export_entry s v node idx =
     (case View_getAttribute s idx of
        None \<Rightarrow> Inl NullDeref
      | Some a \<Rightarrow> Inr (AList.update (attr_name s a) (View_getAttributeNodeRef s v (Some a)) node))"

lemma exportAttribute_fold:
  "View_exportAttribute s v =
     (if dom (value_at (at_values s v)) = {} then Inr None
      else res_bind (res_fold (export_entry s v) (sorted_list_of_set (dom (value_at (at_values s v)))) []) (\<lambda>node. Inr (Some node)))"
proof -
  let ?vals = "at_values s v" let ?D = "dom (value_at ?vals)" let ?is = "sorted_list_of_set ?D"
  have fin: "finite ?D" by (rule finite_value_at)
  have pos: "0 \<le> i" if "i \<in> ?D" for i using value_at_nonneg that .
  have first: "getFirstValidAttrValueIndex ?vals = hd_index ?is"
  proof -
    have "{j \<in> ?D. - 1 < j} = ?D" using pos by fastforce
    then show ?thesis using least_above_sorted [OF fin, of "- 1"] by (simp add: value_index_first)
  qed
  show ?thesis
  proof (cases "?D = {}")
    case True
    then show ?thesis using first by (simp add: View_exportAttribute_def)
  next
    case False
    then obtain vs where vs: "?vals = Some vs" by (cases ?vals) (auto simp: value_at_def)
    have "?D \<subseteq> {0..<int (length vs)}" using dom_slot_getItem [of vs] by (simp add: vs value_at_def)
    from card_mono [OF _ this] have len: "length ?is \<le> length vs" by simp
    have "projr (getNextValidAttrValueIndex ?vals i) = hd_index todo" if "?is = done @ i # todo" for "done" i todo
    proof -
      have "i \<in> ?D" using arg_cong [OF that, of set] fin by auto
      then show ?thesis using value_index_next [of i ?vals] pos least_above_split [OF fin that] by simp
    qed
    moreover have valid: "\<forall>i\<in>set ?is. i \<noteq> InvalidIndex" using pos fin by force
    ultimately have "index_loop (length vs) (\<lambda>node idx. projr (getNextValidAttrValueIndex ?vals idx)) (export_entry s v) (hd_index ?is) []
        = res_fold (export_entry s v) ?is []"
      by (intro index_loop_fold len) auto
    moreover obtain i "is" where "?is = i # is" using False fin by (cases ?is) auto
    with valid have "hd_index ?is \<noteq> InvalidIndex" by simp
    ultimately show ?thesis using False first vs by (simp add: View_exportAttribute_def export_entry_def [abs_def] Let_def)
  qed
qed

lemma hasAttribute_iff: "DataStore_hasAttribute s i \<longleftrightarrow> View_getAttribute s i \<noteq> None"
  by (auto simp: DataStore_hasAttribute_def View_getAttribute_def DataStore_getAttribute_def MapCollection_hasItem_def
      MapCollection_getItem_def slot_getItem_def slot_hasItem_def)

text \<open>A set index without an attribute makes the export dereference a null pointer.\<close>

lemma export_stale:
  assumes "View_getAttribute s i = None" and "value_at (at_values s v) i \<noteq> None"
  shows "View_exportAttribute s v = Inl NullDeref"
proof -
  have "res_fold (export_entry s v) is node = Inl NullDeref" if "i \<in> set is" for "is" node
    using that
  proof (induction "is" arbitrary: node)
    case (Cons j "is")
    then show ?case using assms(1) by (cases "View_getAttribute s j") (auto simp: export_entry_def)
  qed simp
  moreover have "i \<in> dom (value_at (at_values s v))" using assms(2) by blast
  moreover from this have "dom (value_at (at_values s v)) \<noteq> {}" by blast
  ultimately show ?thesis using finite_value_at [of "at_values s v"] by (simp add: exportAttribute_fold)
qed

text \<open>
  Destroying an attribute does not detach it from the views that have a value for it, against
  the documentation: exporting such a view then dereferences a null pointer, and the next attribute
  to be created, of any type and default, takes over the index and with it the old value of the view.
  When the new attribute is a string and the old value a scalar, reading it goes wrong.
\<close>

theorem sidre_attribute_stale_value:
  assumes "reachable_attrs s" and "at_attrs s a = Some A" and "View_hasAttributeValue s v (Some a)"
    and "name \<noteq> []" and "\<forall>b B. at_attrs s b = Some B \<and> a_name B = name \<longrightarrow> b = a"
  shows "View_exportAttribute (destroyAttribute_at (a_index A) s) v = Inl NullDeref \<and>
    (\<exists>s' b. createAttributeString name y (destroyAttribute_at (a_index A) s) = (s', Some b) \<and>
       View_hasAttributeValue s' v (Some b) \<and> View_getAttributeNodeRef s' v (Some b) = View_getAttributeNodeRef s v (Some a) \<and>
       (\<forall>t x. View_getAttributeNodeRef s v (Some a) = Some (ScalarValue t x) \<longrightarrow> View_getAttributeString s' v (Some b) = Inl BadCast))"
proof -
  note inv = reachable_attrs_inv [OF assms(1)]
  let ?d = "destroyAttribute_at (a_index A) s"
  note eff = destroyAttribute_at_effect [OF inv, of "a_index A"]
  have get: "MapCollection_getItem (at_coll s) (a_index A) = Some a" by (rule attr_invD(4) [OF inv assms(2)])
  have val: "value_at (at_values s v) (a_index A) \<noteq> None" using assms(2,3) by (simp add: View_hasAttributeValue_def deref_attr_def)
  have "View_getAttribute ?d (a_index A) = None" by (simp add: View_getAttribute_def DataStore_getAttribute_def eff(3))
  moreover have "value_at (at_values ?d v) (a_index A) \<noteq> None" using val eff(2) by simp
  ultimately have export: "View_exportAttribute ?d v = Inl NullDeref" by (rule export_stale)
  have free: "\<not> DataStore_hasAttribute_named ?d name"
    using assms(5) get unfolding attr_named_iff(2) [OF eff(1)] by (auto simp: eff(4) split: if_splits)
  obtain s1 i where s1: "createAttributeEmpty name ?d = (s1, Some (at_next ?d))"
    "MapCollection_insertItem (at_coll ?d) name (at_next ?d) = (at_coll s1, i)"
    "at_attrs s1 = (at_attrs ?d)(at_next ?d \<mapsto> \<lparr>a_name = name, a_index = i, a_default = None\<rparr>)" "at_values s1 = at_values ?d"
    by (rule createAttributeEmpty_effect [OF eff(1) assms(4) free])
  have i: "i = a_index A" by (rule destroyAttribute_recycles [OF inv assms(2) s1(2) free])
  let ?s = "upd_attr (at_next ?d) (\<lambda>A. fst (setDefaultString y A)) s1" and ?b = "at_next ?d"
  have cre: "createAttributeString name y ?d = (?s, Some ?b)" using s1(1) by (simp add: createAttributeString_def)
  have at: "at_attrs ?s ?b = Some \<lparr>a_name = name, a_index = a_index A, a_default = Some (StringValue y)\<rparr>" "at_values ?s = at_values s"
    using s1(3,4) i eff(2) by (simp_all add: upd_attr_def setDefaultString_def)
  obtain z where z: "value_at (at_values s v) (a_index A) = Some z" using val by blast
  have "View_hasAttributeValue ?s v (Some ?b)" "View_getAttributeNodeRef ?s v (Some ?b) = Some z" "View_getAttributeNodeRef s v (Some a) = Some z"
    using at z assms(2) by (simp_all add: View_hasAttributeValue_def View_getAttributeNodeRef_def deref_attr_def)
  moreover have "View_getAttributeString ?s v (Some ?b) = Inl BadCast" if "Some z = Some (ScalarValue t x)" for t x
    using at z that by (simp add: View_getAttributeString_def AttrValues_getString_def deref_attr_def Attribute_getTypeID_def)
  ultimately show ?thesis using export cre by (intro conjI exI [of _ ?s] exI [of _ ?b]) auto
qed

theorem sidre_attribute_stale_value_witness:
  "View_exportAttribute (destroyAttribute_at 0 sample_attrs) 7 = Inl NullDeref \<and>
   (\<exists>s' b. createAttributeString ''label'' ''none'' (destroyAttribute_at 0 sample_attrs) = (s', Some b) \<and>
      View_getAttributeString s' 7 (Some b) = Inl BadCast)"
proof -
  have "at_next sample_attrs = 1" by code_simp
  then have "b = 0" if "at_attrs sample_attrs b = Some B" for b B
    using attr_invD(2) [OF reachable_attrs_inv [OF sample_attrs_reachable] that] by simp
  then have "\<forall>b B. at_attrs sample_attrs b = Some B \<and> a_name B = ''label'' \<longrightarrow> b = 0" by blast
  from sidre_attribute_stale_value [OF sample_attrs_reachable sample_attrs_eval(1,2) _ this, of "''none''"] sample_attrs_eval(3)
  show ?thesis by auto
qed

section \<open>Export and import\<close>

lemma update_append: "k \<notin> fst ` set node \<Longrightarrow> AList.update k x node = node @ [(k, x)]"
  by (induction node) auto

lemma export_entries:
  assumes inv: "attr_inv s" and "distinct is" and "\<forall>i\<in>set is. View_getAttribute s i \<noteq> None"
    and "\<forall>i\<in>set is. attr_name s (the (View_getAttribute s i)) \<notin> fst ` set node"
  shows "res_fold (export_entry s v) is node =
    Inr (node @ map (\<lambda>i. (attr_name s (the (View_getAttribute s i)), View_getAttributeNodeRef s v (View_getAttribute s i))) is)"
  using assms(2-)
proof (induction "is" arbitrary: node)
  case (Cons i "is")
  obtain a where a: "View_getAttribute s i = Some a" using Cons.prems(2) by auto
  have "attr_name s (the (View_getAttribute s j)) \<noteq> attr_name s a" if j: "j \<in> set is" for j
  proof
    obtain b where b: "View_getAttribute s j = Some b" using Cons.prems(2) j by auto
    assume "attr_name s (the (View_getAttribute s j)) = attr_name s a"
    then have eq: "attr_name s a = attr_name s b" by (simp add: b)
    have "mc_name2idx_map (at_coll s) (attr_name s a) = Some i" "mc_name2idx_map (at_coll s) (attr_name s b) = Some j"
      using named_lookup(3) [OF attr_invD(1) [OF inv]] a b by (auto simp: View_getAttribute_def DataStore_getAttribute_def)
    with eq j Cons.prems(1) show False by simp
  qed
  then have "\<forall>j\<in>set is. attr_name s (the (View_getAttribute s j)) \<notin>
      fst ` set (node @ [(attr_name s a, View_getAttributeNodeRef s v (Some a))])"
    using Cons.prems(3) by simp
  with Cons.IH [of "node @ [(attr_name s a, View_getAttributeNodeRef s v (Some a))]"] Cons.prems a show ?case
    by (simp add: export_entry_def update_append)
qed simp

lemma import_entries:
  assumes "attr_inv s" and "\<forall>i\<in>set is. View_getAttribute s i \<noteq> None"
    and "at_coll s0 = at_coll s" and "at_attrs s0 = at_attrs s"
    and "s' = fold (import_child u) (map (\<lambda>i. (attr_name s (the (View_getAttribute s i)), val i)) is) s0"
  shows "at_coll s' = at_coll s \<and> at_attrs s' = at_attrs s \<and>
    value_at (at_values s' u) = (\<lambda>j. if j \<in> set is then val j else value_at (at_values s0 u) j)"
  unfolding assms(5) using assms(2-4)
proof (induction "is" arbitrary: s0)
  case (Cons i "is")
  obtain a where a: "View_getAttribute s i = Some a" using Cons.prems(1) by auto
  then have get: "MapCollection_getItem (at_coll s) i = Some a" by (simp add: View_getAttribute_def DataStore_getAttribute_def)
  then obtain A where A: "at_attrs s a = Some A" "a_index A = i" using attr_invD(5) [OF assms(1)] by blast
  have "View_getAttribute_named s (attr_name s a) = Some a"
    using attr_named_iff(1) [OF assms(1)] A by (simp add: View_getAttribute_named_def attr_name_def)
  then have named: "View_getAttribute_named s0 (attr_name s a) = Some a"
    using Cons.prems(2) by (simp add: View_getAttribute_named_def DataStore_getAttribute_named_def)
  let ?s = "import_child u (attr_name s a, val i) s0"
  have "0 \<le> a_index A" by (rule attr_index_nonneg [OF assms(1) A(1)])
  then have s: "at_coll ?s = at_coll s" "at_attrs ?s = at_attrs s" "value_at (at_values ?s u) = (value_at (at_values s0 u))(i := val i)"
    using named A Cons.prems(2,3) by (simp_all add: import_child_def)
  from Cons.IH [of ?s] Cons.prems(1) s a show ?case by (auto simp: fun_eq_iff)
qed simp

text \<open>
  C23. The attribute values of a view survive export and import: if every value belongs to an
  attribute of the data store, exporting a view returns, and importing the result into a cleared view
  gives it exactly the values of the first one. Names with a slash are paths for Conduit and are excluded.
\<close>

theorem sidre_attribute_export_import:
  assumes "reachable_attrs s" and "\<forall>a A. at_attrs s a = Some A \<longrightarrow> CHR ''/'' \<notin> set (a_name A)"
    and "\<forall>i. value_at (at_values s v) i \<noteq> None \<longrightarrow> DataStore_hasAttribute s i"
  shows "\<exists>obj. View_exportAttribute s v = Inr obj \<and>
    (\<forall>b. View_hasAttributeValue (View_importAttribute u obj (View_clear_attributes u s)) u b = View_hasAttributeValue s v b \<and>
         View_getAttributeNodeRef (View_importAttribute u obj (View_clear_attributes u s)) u b = View_getAttributeNodeRef s v b)"
proof -
  note inv = reachable_attrs_inv [OF assms(1)]
  let ?vals = "value_at (at_values s v)" let ?is = "sorted_list_of_set (dom ?vals)"
  let ?val = "\<lambda>i. View_getAttributeNodeRef s v (View_getAttribute s i)" and ?nm = "\<lambda>i. attr_name s (the (View_getAttribute s i))"
  have ids: "set ?is = dom ?vals" using finite_value_at [of "at_values s v"] by simp
  have has: "\<forall>i\<in>set ?is. View_getAttribute s i \<noteq> None" unfolding ids using assms(3) hasAttribute_iff by blast
  have val: "?val i = ?vals i" if i: "i \<in> dom ?vals" for i
  proof -
    obtain a where a: "View_getAttribute s i = Some a" using has i ids by blast
    then obtain A where "at_attrs s a = Some A" "a_index A = i"
      using attr_invD(5) [OF inv] by (auto simp: View_getAttribute_def DataStore_getAttribute_def)
    with a i show ?thesis by (auto simp: View_getAttributeNodeRef_def deref_attr_def)
  qed
  let ?s0 = "View_clear_attributes u s"
  have s0: "at_coll ?s0 = at_coll s" "at_attrs ?s0 = at_attrs s" "value_at (at_values ?s0 u) = Map.empty"
    by (simp_all add: View_clear_attributes_def AttrValues_clear_def value_at_def)
  obtain obj where obj: "View_exportAttribute s v = Inr obj" "View_importAttribute u obj ?s0 = fold (import_child u) (map (\<lambda>i. (?nm i, ?val i)) ?is) ?s0"
  proof (cases "dom ?vals = {}")
    case True
    with that [of None] show thesis by (simp add: exportAttribute_fold View_importAttribute_def)
  next
    case False
    with that [of "Some (map (\<lambda>i. (?nm i, ?val i)) ?is)"] export_entries [OF inv _ has, of "[]" v] show thesis
      by (simp add: exportAttribute_fold View_importAttribute_def)
  qed
  let ?s = "View_importAttribute u obj ?s0"
  have s: "at_attrs ?s = at_attrs s" "value_at (at_values ?s u) = ?vals"
    using import_entries [OF inv has s0(1,2) refl, of u ?val] val s0(3) ids unfolding obj(2) by (auto simp: fun_eq_iff domIff)
  have "View_hasAttributeValue ?s u b = View_hasAttributeValue s v b \<and> View_getAttributeNodeRef ?s u b = View_getAttributeNodeRef s v b" for b
  proof (cases "deref_attr s b")
    case None
    then show ?thesis using s(1) by (simp add: View_hasAttributeValue_def View_getAttributeNodeRef_def deref_attr_def AttrValues_hasValue_def AttrValues_getValueNodeRef_def)
  next
    case (Some B)
    then show ?thesis using s by (simp add: View_hasAttributeValue_def View_getAttributeNodeRef_def deref_attr_def)
  qed
  with obj(1) show ?thesis by blast
qed

theorem sidre_attribute_export_import_witness:
  "\<exists>obj. View_exportAttribute sample_attrs 7 = Inr obj \<and>
     View_getAttributeNodeRef (View_importAttribute 8 obj (View_clear_attributes 8 sample_attrs)) 8 (Some 0) = Some (ScalarValue 4 5)"
proof -
  note inv = reachable_attrs_inv [OF sample_attrs_reachable]
  have "at_next sample_attrs = 1" by code_simp
  then have b: "b = 0" if "at_attrs sample_attrs b = Some B" for b B using attr_invD(2) [OF inv that] by simp
  have slash: "\<forall>a A. at_attrs sample_attrs a = Some A \<longrightarrow> CHR ''/'' \<notin> set (a_name A)" using b sample_attrs_eval(1) by fastforce
  have "at_values sample_attrs 7 = Some [Some (ScalarValue 4 5)]" "DataStore_hasAttribute sample_attrs 0" by code_simp+
  then have "\<forall>i. value_at (at_values sample_attrs 7) i \<noteq> None \<longrightarrow> DataStore_hasAttribute sample_attrs i"
    by (auto simp: value_at_def slot_getItem_def slot_hasItem_def in_vector_def split: if_splits) (metis int_one_le_iff_zero_less leD le_less)
  from sidre_attribute_export_import [OF sample_attrs_reachable slash this, of 8] sample_attrs_eval(3) show ?thesis by metis
qed

section \<open>The attribute layout of a data store\<close>

definition default_named :: "'n attr_store \<Rightarrow> string \<Rightarrow> 'n attr_value option option" where
  "default_named s name = map_option (\<lambda>a. a_default (the (at_attrs s a))) (DataStore_getAttribute_named s name)"

lemma default_named_iff:
  assumes "attr_inv s"
  shows "default_named s name = Some d \<longleftrightarrow> (\<exists>a A. at_attrs s a = Some A \<and> a_name A = name \<and> a_default A = d)"
proof -
  have "default_named s name = Some d \<longleftrightarrow> (\<exists>a. DataStore_getAttribute_named s name = Some a \<and> a_default (the (at_attrs s a)) = d)"
    by (auto simp: default_named_def)
  then show ?thesis unfolding attr_named_iff(1) [OF assms] by (metis option.sel)
qed

lemma load_child_new:
  assumes inv: "attr_inv s" and name: "name \<noteq> []" "\<not> DataStore_hasAttribute_named s name"
  shows "\<exists>s'. load_child (name, d) s = Inr s' \<and> attr_inv s' \<and> default_named s' = (default_named s)(name \<mapsto> d)"
proof -
  obtain s1 i where s1: "createAttributeEmpty name s = (s1, Some (at_next s))" "attr_inv s1"
    "at_attrs s1 = (at_attrs s)(at_next s \<mapsto> \<lparr>a_name = name, a_index = i, a_default = None\<rparr>)" "at_attrs s (at_next s) = None"
    by (rule createAttributeEmpty_effect [OF inv name])
  let ?s = "upd_attr (at_next s) (\<lambda>A. fst (setDefaultNodeRef d A)) s1"
  have at: "at_attrs ?s = (at_attrs s)(at_next s \<mapsto> \<lparr>a_name = name, a_index = i, a_default = d\<rparr>)"
    by (simp add: upd_attr_def s1(3) setDefaultNodeRef_def)
  have inv': "attr_inv ?s" by (intro attr_inv_upd s1(2)) (simp add: setDefault_keeps)
  have fresh: "a_name A \<noteq> name" if "at_attrs s a = Some A" for a A using name(2) attr_named_iff(2) [OF inv] that by blast
  have "default_named ?s m = Some e \<longleftrightarrow> ((default_named s)(name \<mapsto> d)) m = Some e" for m e
  proof (cases "m = name")
    case True
    then show ?thesis unfolding default_named_iff [OF inv'] at using fresh by (auto split: if_splits)
  next
    case False
    then show ?thesis unfolding default_named_iff [OF inv'] at using default_named_iff [OF inv, of m e] s1(4)
      by (simp add: fun_upd_apply) (metis option.distinct(1) option.inject Attribute.select_convs(1))
  qed
  then have "default_named ?s = (default_named s)(name \<mapsto> d)" by (intro ext) (metis option.exhaust)
  moreover have "load_child (name, d) s = Inr ?s" using name(2) s1(1) by (simp add: load_child_def)
  ultimately show ?thesis using inv' by blast
qed

lemma load_children_new:
  assumes "attr_inv s" and "distinct (map fst node)" and "[] \<notin> fst ` set node" and "\<forall>name\<in>fst ` set node. default_named s name = None"
  shows "\<exists>s'. load_children node s = Inr s' \<and> attr_inv s' \<and> default_named s' = default_named s ++ map_of node"
  using assms
proof (induction node arbitrary: s)
  case (Cons e node)
  obtain name d where e: "e = (name, d)" by (cases e)
  have "name \<noteq> []" using Cons.prems(3) e by auto
  moreover have "\<not> DataStore_hasAttribute_named s name"
    using Cons.prems(4) e attr_named_iff [OF Cons.prems(1), of name] by (auto simp: default_named_def)
  ultimately obtain s1 where s1: "load_child e s = Inr s1" "attr_inv s1" "default_named s1 = (default_named s)(name \<mapsto> d)"
    using load_child_new [OF Cons.prems(1)] e by blast
  have "\<forall>m\<in>fst ` set node. default_named s1 m = None" using Cons.prems(2,4) s1(3) e by auto
  then obtain s' where s': "load_children node s1 = Inr s'" "attr_inv s'" "default_named s' = default_named s1 ++ map_of node"
    using Cons.IH [OF s1(2)] Cons.prems(2,3) by auto
  have "map_of node name = None" using Cons.prems(2) e by (simp add: map_of_eq_None_iff)
  then have "default_named s1 ++ map_of node = default_named s ++ map_of (e # node)" by (auto simp: s1(3) e map_add_def fun_eq_iff split: option.split)
  with s1(1) s' show ?case by (simp only: load_children.simps res_bind.simps) blast
qed simp

lemma fold_update_new:
  assumes "distinct is" and "inj_on f (set is)" and "\<forall>i\<in>set is. f i \<notin> fst ` set node"
  shows "fold (\<lambda>i. AList.update (f i) (g i)) is node = node @ map (\<lambda>i. (f i, g i)) is"
  using assms
proof (induction "is" arbitrary: node)
  case (Cons i "is")
  have "f i \<notin> f ` set is" using Cons.prems(1,2) by auto
  then have "\<forall>j\<in>set is. f j \<notin> fst ` set (node @ [(f i, g i)])" using Cons.prems(3) by auto (metis image_eqI)
  with Cons.IH [of "node @ [(f i, g i)]"] Cons.prems show ?case by (simp add: update_append)
qed simp

lemma saveAttributeLayout_eq:
  assumes inv: "attr_inv s"
  defines "is \<equiv> sorted_list_of_set (dom (DataStore_getAttribute s))"
  shows "saveAttributeLayout s = Some (map (\<lambda>i. let a = the (DataStore_getAttribute s i) in (attr_name s a, a_default (the (at_attrs s a)))) is, is \<noteq> [])"
    and "set is = dom (DataStore_getAttribute s)" and "distinct is"
    and "inj_on (\<lambda>i. attr_name s (the (DataStore_getAttribute s i))) (set is)"
proof -
  let ?f = "\<lambda>i. attr_name s (the (DataStore_getAttribute s i))"
  have get: "DataStore_getAttribute s = MapCollection_getItem (at_coll s)" by (simp add: DataStore_getAttribute_def fun_eq_iff)
  show ids: "set is = dom (DataStore_getAttribute s)" "distinct is"
    using mapped.items_finite [OF attr_invD(1) [OF inv]] by (simp_all add: is_def get)
  have "mc_name2idx_map (at_coll s) (?f i) = Some i" if "i \<in> dom (DataStore_getAttribute s)" for i
    using that named_lookup(3) [OF attr_invD(1) [OF inv]] unfolding get by fastforce
  then show inj: "inj_on ?f (set is)" unfolding ids by (intro inj_onI) (metis option.inject)
  have "range_loop (MapCollection_getNextValidIndex (at_coll s)) (fst (const_adaptor_range (MapCollection_getFirstValidIndex (at_coll s))))
      (snd (const_adaptor_range (MapCollection_getFirstValidIndex (at_coll s)))) = Some is"
    using mapped.iterate_sorted [OF attr_invD(1) [OF inv]] by (simp add: const_adaptor_range_def is_def get)
  then show "saveAttributeLayout s = Some (map (\<lambda>i. let a = the (DataStore_getAttribute s i) in (attr_name s a, a_default (the (at_attrs s a)))) is, is \<noteq> [])"
    using fold_update_new [OF ids(2) inj, of "[]" "\<lambda>i. a_default (the (at_attrs s (the (DataStore_getAttribute s i))))"]
    by (simp add: saveAttributeLayout_def const_adaptor_range_def Let_def)
qed

text \<open>
  The layout of the attributes survives saving and loading: \<^verbatim>\<open>saveAttributeLayout\<close> returns, and loading its
  result into a new data store gives attributes with the same names and default values. Names with a
  slash are excluded as above.
\<close>

theorem sidre_attribute_layout_roundtrip:
  assumes "reachable_attrs s" and "\<forall>a A. at_attrs s a = Some A \<longrightarrow> CHR ''/'' \<notin> set (a_name A)"
  shows "\<exists>node has s'. saveAttributeLayout s = Some (node, has) \<and> loadAttributeLayout (Some node) attr_store_new = Inr s' \<and>
    default_named s' = default_named s"
proof -
  note inv = reachable_attrs_inv [OF assms(1)]
  let ?is = "sorted_list_of_set (dom (DataStore_getAttribute s))"
  let ?node = "map (\<lambda>i. let a = the (DataStore_getAttribute s i) in (attr_name s a, a_default (the (at_attrs s a)))) ?is"
  note save = saveAttributeLayout_eq [OF inv]
  have item: "\<exists>a A. DataStore_getAttribute s i = Some a \<and> at_attrs s a = Some A" if "i \<in> dom (DataStore_getAttribute s)" for i
    using that attr_invD(5) [OF inv] by (fastforce simp: DataStore_getAttribute_def)
  have fst: "map fst ?node = map (\<lambda>i. attr_name s (the (DataStore_getAttribute s i))) ?is" by (simp add: Let_def)
  have d: "distinct (map fst ?node)" unfolding fst using save(3,4) by (simp add: distinct_map)
  have "[] \<notin> fst ` set ?node"
    using item attr_invD(3) [OF inv] save(2) by (fastforce simp: Let_def attr_name_def image_iff)
  moreover have "default_named attr_store_new = (Map.empty :: string \<Rightarrow> 'a attr_value option option)"
    by (simp add: default_named_def fun_eq_iff DataStore_getAttribute_named_def attr_store_new_def MapCollection_new_def MapCollection_getItem_named_def)
  ultimately obtain s' where s': "load_children ?node attr_store_new = Inr s'" "default_named s' = map_of ?node"
    using load_children_new [OF attr_inv_new d] by auto
  have eq: "map_of ?node name = Some e \<longleftrightarrow> default_named s name = Some e" for name e
  proof -
    let ?D = "dom (DataStore_getAttribute s)"
    have "map_of ?node name = Some e \<longleftrightarrow> (name, e) \<in> set ?node" using d by simp
    also have "\<dots> \<longleftrightarrow> (\<exists>i\<in>?D. attr_name s (the (DataStore_getAttribute s i)) = name \<and> a_default (the (at_attrs s (the (DataStore_getAttribute s i)))) = e)"
      unfolding set_map save(2) by (auto simp: Let_def)
    also have "\<dots> \<longleftrightarrow> (\<exists>i a A. DataStore_getAttribute s i = Some a \<and> at_attrs s a = Some A \<and> a_name A = name \<and> a_default A = e)"
      unfolding attr_name_def using item by (metis domI option.sel)
    also have "\<dots> \<longleftrightarrow> default_named s name = Some e"
      unfolding default_named_iff [OF inv] using attr_invD(4) [OF inv] by (metis DataStore_getAttribute_def)
    finally show ?thesis .
  qed
  have "default_named s' = default_named s"
  proof
    fix name show "default_named s' name = default_named s name"
      unfolding s'(2) using eq [of name] by (cases "default_named s name"; cases "map_of ?node name") auto
  qed
  with save(1) s'(1) show ?thesis by (auto simp: loadAttributeLayout_def)
qed

end
