(* ===== verification/Morton.thy ===== *)
theory Morton
  imports Prelude
begin

text \<open>
  Morton indices of \<^verbatim>\<open>spin/MortonIndex.hpp\<close>: the bits of the coordinates of a grid point are
  interleaved into one index. The code spreads and gathers bits in a logarithmic number of
  steps with tables of masks; the lemmas show that the result is the interleaving, bit by bit. The
  type of Morton indices is \<^verbatim>\<open>std::uint64_t\<close> (\<^verbatim>\<open>std::size_t\<close> in the hash functor), coordinates are
  unsigned words of any width.
\<close>

unbundle bit_operations_syntax

section \<open>The code\<close>

text \<open>\<^verbatim>\<open>GetB\<close> and \<^verbatim>\<open>GetS\<close> of the two- and three-dimensional classes.\<close>

definition GetB_2D :: "nat \<Rightarrow> uint64" where
  "GetB_2D i = [0x5555555555555555, 0x3333333333333333, 0x0F0F0F0F0F0F0F0F, 0x00FF00FF00FF00FF,
     0x0000FFFF0000FFFF, 0x00000000FFFFFFFF] ! i"

definition GetS_2D :: "nat \<Rightarrow> nat" where
  "GetS_2D i = [1, 2, 4, 8, 16, 32] ! i"

definition GetB_3D :: "nat \<Rightarrow> uint64" where
  "GetB_3D i = [0x9249249249249249, 0x30C30C30C30C30C3, 0xF00F00F00F00F00F, 0x00FF0000FF0000FF,
     0xFFFF00000000FFFF, 0x00000000FFFFFFFF] ! i"

definition GetS_3D :: "nat \<Rightarrow> nat" where
  "GetS_3D i = [2, 4, 8, 16, 32, 0] ! i"

text \<open>\<^verbatim>\<open>NumReps\<close> of a 64-bit type, and the bounds of the loops.\<close>

abbreviation NumReps :: nat where "NumReps \<equiv> 5"

definition expandBits :: "(nat \<Rightarrow> 'm::len word) \<Rightarrow> (nat \<Rightarrow> nat) \<Rightarrow> nat \<Rightarrow> 'm word \<Rightarrow> 'm word" where
  "expandBits B S max_iter x = fold (\<lambda>i x. (x OR push_bit (S i) x) AND B i) (rev [0..<Suc max_iter]) x"

definition contractBits :: "(nat \<Rightarrow> 'm::len word) \<Rightarrow> (nat \<Rightarrow> nat) \<Rightarrow> nat \<Rightarrow> 'm word \<Rightarrow> 'm word" where
  "contractBits B S max_iter x = fold (\<lambda>i x. (x OR drop_bit (S i) x) AND B (Suc i)) [0..<max_iter] x"

abbreviation expand_2D :: "uint64 \<Rightarrow> uint64" where "expand_2D \<equiv> expandBits GetB_2D GetS_2D NumReps"
abbreviation expand_3D :: "uint64 \<Rightarrow> uint64" where "expand_3D \<equiv> expandBits GetB_3D GetS_3D 4"
abbreviation contract_2D :: "uint64 \<Rightarrow> uint64" where "contract_2D \<equiv> contractBits GetB_2D GetS_2D NumReps"
abbreviation contract_3D :: "uint64 \<Rightarrow> uint64" where "contract_3D \<equiv> contractBits GetB_3D GetS_3D NumReps"

definition mortonize_2D :: "'c::len word \<Rightarrow> 'c word \<Rightarrow> uint64" where
  "mortonize_2D x y = expand_2D (ucast x) OR push_bit 1 (expand_2D (ucast y))"

definition demortonize_2D :: "uint64 \<Rightarrow> 'c::len word \<times> 'c word" where
  "demortonize_2D morton =
     (let b0 = GetB_2D 0
      in (ucast (contract_2D (morton AND b0)), ucast (contract_2D (drop_bit 1 morton AND b0))))"

definition mortonize_3D :: "'c::len word \<Rightarrow> 'c word \<Rightarrow> 'c word \<Rightarrow> uint64" where
  "mortonize_3D x y z =
     (let b5 = GetB_3D 5
      in expand_3D (ucast x AND b5) OR push_bit 1 (expand_3D (ucast y AND b5)) OR push_bit 2 (expand_3D (ucast z AND b5)))"

definition demortonize_3D :: "uint64 \<Rightarrow> 'c::len word \<times> 'c word \<times> 'c word" where
  "demortonize_3D morton =
     (let b0 = GetB_3D 0
      in (ucast (contract_3D (morton AND b0)), ucast (contract_3D (drop_bit 1 morton AND b0)),
          ucast (contract_3D (drop_bit 2 morton AND b0))))"

text \<open>\<^verbatim>\<open>PointHash\<close> of four coordinates: the Morton index of two Morton indices.\<close>

definition PointHash_4D :: "'c::len word \<Rightarrow> 'c word \<Rightarrow> 'c word \<Rightarrow> 'c word \<Rightarrow> uint64" where
  "PointHash_4D p0 p1 p2 p3 = mortonize_2D (mortonize_2D p0 p2) (mortonize_2D p1 p3)"

text \<open>\<^verbatim>\<open>maxSetBit\<close> on 64-bit coordinates.\<close>

definition MaxBit_B :: "nat \<Rightarrow> uint64" where
  "MaxBit_B i = [0x2, 0xC, 0xF0, 0xFF00, 0xFFFF0000, 0xFFFFFFFF00000000] ! i"

definition MaxBit_S :: "nat \<Rightarrow> nat" where
  "MaxBit_S i = [1, 2, 4, 8, 16, 32] ! i"

definition maxSetBit_step :: "nat \<Rightarrow> uint64 \<times> nat \<Rightarrow> uint64 \<times> nat" where
  "maxSetBit_step i = (\<lambda>(x, res). if x AND MaxBit_B i \<noteq> 0 then (drop_bit (MaxBit_S i) x, res OR MaxBit_S i) else (x, res))"

definition maxSetBit :: "uint64 \<Rightarrow> nat" where
  "maxSetBit x = snd (fold maxSetBit_step (rev [0..<Suc NumReps]) (x, 0))"

section \<open>Functions that act bit by bit\<close>

text \<open>
  Spreading and gathering preserve zero and bitwise or, so they are determined by what they do to
  the words with a single bit.
\<close>

locale bit_linear =
  fixes f :: "'m::len word \<Rightarrow> 'm word"
  assumes f_zero: "f 0 = 0" and f_or: "f (x OR y) = f x OR f y"
begin

lemma bit_take: "bit (f (take_bit k x)) n \<longleftrightarrow> (\<exists>i<k. bit x i \<and> bit (f (2 ^ i)) n)"
proof (induction k)
  case (Suc k)
  have "take_bit (Suc k) x = take_bit k x OR (if bit x k then 2 ^ k else 0)"
    by (rule bit_eqI) (auto simp: bit_simps less_Suc_eq)
  then show ?case using Suc by (auto simp: f_or f_zero less_Suc_eq bit_or_iff)
qed (simp add: f_zero)

lemma bit_image: "bit (f x) n \<longleftrightarrow> (\<exists>i<LENGTH('m). bit x i \<and> bit (f (2 ^ i)) n)"
  using bit_take [of "LENGTH('m)" x n] take_bit_length_eq [of x] by simp

end

lemma bit_linear_fold:
  assumes "\<And>i. bit_linear (g i)"
  shows "bit_linear (fold g is)"
proof (induction "is")
  case Nil
  show ?case by unfold_locales simp_all
next
  case (Cons i "is")
  show ?case
    using bit_linear.f_zero [OF assms, of i] bit_linear.f_zero [OF Cons.IH] bit_linear.f_or [OF assms, of i] bit_linear.f_or [OF Cons.IH]
    by unfold_locales simp_all
qed

lemma bit_linear_steps:
  "bit_linear (\<lambda>x. (x OR push_bit s x) AND b)" "bit_linear (\<lambda>x. (x OR drop_bit s x) AND b)" "bit_linear (\<lambda>x. drop_bit s x AND b)"
  by unfold_locales (auto intro!: bit_word_eqI simp: bit_simps)

lemma bit_linear_comp: "bit_linear f \<Longrightarrow> bit_linear g \<Longrightarrow> bit_linear (\<lambda>x. f (g x))"
  by (simp add: bit_linear_def)

lemma bit_linear_expand: "bit_linear (expandBits B S n)"
  unfolding expandBits_def [abs_def] by (intro bit_linear_fold bit_linear_steps)

lemma bit_linear_contract: "bit_linear (\<lambda>x. contractBits B S n (drop_bit s x AND b))"
  unfolding contractBits_def [abs_def] by (rule bit_linear_comp [OF bit_linear_fold bit_linear_steps(3)]) (rule bit_linear_steps)

interpretation expand2: bit_linear expand_2D by (rule bit_linear_expand)
interpretation expand3: bit_linear expand_3D by (rule bit_linear_expand)
interpretation contract2: bit_linear "\<lambda>x. contract_2D (drop_bit s x AND b)" for s b by (rule bit_linear_contract)
interpretation contract3: bit_linear "\<lambda>x. contract_3D (drop_bit s x AND b)" for s b by (rule bit_linear_contract)

section \<open>Words with one bit\<close>

text \<open>One pass of each loop, so that the unrolled loops can be evaluated from the inside.\<close>

definition expand_step :: "nat \<Rightarrow> uint64 \<Rightarrow> uint64 \<Rightarrow> uint64" where
  "expand_step s b x = (x OR push_bit s x) AND b"

definition contract_step :: "nat \<Rightarrow> uint64 \<Rightarrow> uint64 \<Rightarrow> uint64" where
  "contract_step s b x = (x OR drop_bit s x) AND b"

lemma upto_lists:
  "rev [0..<Suc NumReps] = [5, 4, 3, 2, 1, 0]" "rev [0..<Suc 4] = [4, 3, 2, 1, 0]" "[0..<NumReps] = [0, 1, 2, 3, 4]"
  "[0..<64] = [0, 1, 2, 3, 4, 5, 6, 7, 8, 9, 10, 11, 12, 13, 14, 15, 16, 17, 18, 19, 20, 21, 22, 23, 24, 25, 26, 27, 28, 29, 30, 31,
     32, 33, 34, 35, 36, 37, 38, 39, 40, 41, 42, 43, 44, 45, 46, 47, 48, 49, 50, 51, 52, 53, 54, 55, 56, 57, 58, 59, 60, 61, 62, 63]"
  "[0..<22] = [0, 1, 2, 3, 4, 5, 6, 7, 8, 9, 10, 11, 12, 13, 14, 15, 16, 17, 18, 19, 20, 21]"
  by code_simp+

lemmas morton_tables = GetB_2D_def GetS_2D_def GetB_3D_def GetS_3D_def

lemma unrolled:
  "expand_2D x = expand_step 1 0x5555555555555555 (expand_step 2 0x3333333333333333 (expand_step 4 0x0F0F0F0F0F0F0F0F
     (expand_step 8 0x00FF00FF00FF00FF (expand_step 16 0x0000FFFF0000FFFF (expand_step 32 0x00000000FFFFFFFF x)))))"
  "contract_2D x = contract_step 16 0x00000000FFFFFFFF (contract_step 8 0x0000FFFF0000FFFF (contract_step 4 0x00FF00FF00FF00FF
     (contract_step 2 0x0F0F0F0F0F0F0F0F (contract_step 1 0x3333333333333333 x))))"
  "expand_3D x = expand_step 2 0x9249249249249249 (expand_step 4 0x30C30C30C30C30C3 (expand_step 8 0xF00F00F00F00F00F
     (expand_step 16 0x00FF0000FF0000FF (expand_step 32 0xFFFF00000000FFFF x))))"
  "contract_3D x = contract_step 32 0x00000000FFFFFFFF (contract_step 16 0xFFFF00000000FFFF (contract_step 8 0x00FF0000FF0000FF
     (contract_step 4 0xF00F00F00F00F00F (contract_step 2 0x30C30C30C30C30C3 x))))"
  unfolding expandBits_def contractBits_def upto_lists expand_step_def [symmetric] contract_step_def [symmetric]
  by (simp_all add: morton_tables)

lemma one_bit_table:
  "list_all (\<lambda>i. expand_2D (2 ^ i) = (if i < 32 then 2 ^ (2 * i) else 0)) [0..<64]"
  "list_all (\<lambda>i. contract_2D (2 ^ i AND GetB_2D 0) = (if even i then 2 ^ (i div 2) else 0)) [0..<64]"
  "list_all (\<lambda>i. expand_3D (2 ^ i) = 2 ^ (3 * i)) [0..<22]"
  "list_all (\<lambda>i. contract_3D (2 ^ i AND GetB_3D 0) = (if i mod 3 = 0 then 2 ^ (i div 3) else 0)) [0..<64]"
  unfolding upto_lists unrolled list.pred_inject GetB_2D_def GetB_3D_def
  by (simp_all add: expand_step_def contract_step_def)

lemma one_bit:
  "i < 64 \<Longrightarrow> expand_2D (2 ^ i) = (if i < 32 then 2 ^ (2 * i) else 0)"
  "i < 64 \<Longrightarrow> contract_2D (2 ^ i AND GetB_2D 0) = (if even i then 2 ^ (i div 2) else 0)"
  "i < 22 \<Longrightarrow> expand_3D (2 ^ i) = 2 ^ (3 * i)"
  "i < 64 \<Longrightarrow> contract_3D (2 ^ i AND GetB_3D 0) = (if i mod 3 = 0 then 2 ^ (i div 3) else 0)"
  using one_bit_table by (simp_all add: list_all_iff)

section \<open>Spreading and gathering, bit by bit\<close>

lemma bit_exp_word: "bit (2 ^ i :: uint64) n \<longleftrightarrow> i = n \<and> n < 64"
  by (auto simp: bit_simps)

lemma bit_expand_2D: "bit (expand_2D x) n \<longleftrightarrow> even n \<and> n < 64 \<and> bit x (n div 2)"
proof -
  have "bit (expand_2D x) n \<longleftrightarrow> (\<exists>i<64. bit x i \<and> i < 32 \<and> 2 * i = n)"
    unfolding expand2.bit_image [of x n] by (intro ex_cong1) (auto simp: one_bit bit_exp_word split: if_splits)
  also have "\<dots> \<longleftrightarrow> even n \<and> n < 64 \<and> bit x (n div 2)" by (auto intro!: exI [of _ "n div 2"])
  finally show ?thesis .
qed

lemma bit_expand_3D:
  assumes "\<And>i. bit x i \<Longrightarrow> i < 22"
  shows "bit (expand_3D x) n \<longleftrightarrow> n mod 3 = 0 \<and> n < 64 \<and> bit x (n div 3)"
proof -
  have "bit (expand_3D x) n \<longleftrightarrow> (\<exists>i<64. bit x i \<and> i < 22 \<and> 3 * i = n \<and> n < 64)"
    unfolding expand3.bit_image [of x n] using assms by (intro ex_cong1) (auto simp: one_bit bit_exp_word)
  also have "\<dots> \<longleftrightarrow> n mod 3 = 0 \<and> n < 64 \<and> bit x (n div 3)" by (auto intro!: exI [of _ "n div 3"] simp: assms)
  finally show ?thesis .
qed

lemma drop_bit_exp_word: "drop_bit s (2 ^ i :: uint64) = (if s \<le> i \<and> i < 64 then 2 ^ (i - s) else 0)"
  by (rule bit_word_eqI) (auto simp: bit_simps)

lemma bit_contract_2D: "bit (contract_2D (drop_bit s x AND GetB_2D 0)) n \<longleftrightarrow> n < 32 \<and> bit x (2 * n + s)"
proof -
  have "contract_2D (drop_bit s (2 ^ i) AND GetB_2D 0) = (if s \<le> i \<and> even (i - s) then 2 ^ ((i - s) div 2) else 0)" if "i < 64" for i
    using that one_bit(2) [of "i - s"] contract2.f_zero [of s] by (simp add: drop_bit_exp_word)
  then have "bit (contract_2D (drop_bit s x AND GetB_2D 0)) n \<longleftrightarrow> (\<exists>i<64. bit x i \<and> s \<le> i \<and> even (i - s) \<and> (i - s) div 2 = n)"
    by (subst contract2.bit_image, intro ex_cong1) (auto simp: bit_exp_word split: if_splits)
  also have "\<dots> \<longleftrightarrow> n < 32 \<and> bit x (2 * n + s)"
    using bit_imp_le_length [of x "2 * n + s"] by (auto intro!: exI [of _ "2 * n + s"])
  finally show ?thesis .
qed

lemma bit_contract_3D: "bit (contract_3D (drop_bit s x AND GetB_3D 0)) n \<longleftrightarrow> bit x (3 * n + s)"
proof -
  have "contract_3D (drop_bit s (2 ^ i) AND GetB_3D 0) = (if s \<le> i \<and> (i - s) mod 3 = 0 then 2 ^ ((i - s) div 3) else 0)" if "i < 64" for i
    using that one_bit(4) [of "i - s"] contract3.f_zero [of s] by (simp add: drop_bit_exp_word)
  then have "bit (contract_3D (drop_bit s x AND GetB_3D 0)) n \<longleftrightarrow> (\<exists>i<64. bit x i \<and> s \<le> i \<and> (i - s) mod 3 = 0 \<and> (i - s) div 3 = n)"
    by (subst contract3.bit_image, intro ex_cong1) (auto simp: bit_exp_word split: if_splits)
  also have "\<dots> \<longleftrightarrow> bit x (3 * n + s)"
    using bit_imp_le_length [of x "3 * n + s"] by (auto intro!: exI [of _ "3 * n + s"])
  finally show ?thesis .
qed

section \<open>Morton indices\<close>

lemma bit_mortonize_2D:
  "bit (mortonize_2D x y) j \<longleftrightarrow> j < 64 \<and> bit (if even j then x else y) (j div 2)"
proof -
  have "bit (mortonize_2D x y) j \<longleftrightarrow> bit (expand_2D (ucast x)) j \<or> 1 \<le> j \<and> j < 64 \<and> bit (expand_2D (ucast y)) (j - 1)"
    unfolding mortonize_2D_def bit_or_iff bit_push_bit_iff by auto
  then show ?thesis by (cases j) (auto simp: bit_expand_2D bit_ucast_iff)
qed

lemma bit_demortonize_2D:
  "bit (fst (demortonize_2D m :: 'c::len word \<times> 'c word)) n \<longleftrightarrow> n < LENGTH('c) \<and> n < 32 \<and> bit m (2 * n)"
  "bit (snd (demortonize_2D m :: 'c::len word \<times> 'c word)) n \<longleftrightarrow> n < LENGTH('c) \<and> n < 32 \<and> bit m (2 * n + 1)"
  using bit_contract_2D [of 0 m n] bit_contract_2D [of 1 m n]
  by (auto simp: demortonize_2D_def Let_def bit_ucast_iff)

lemma small_bits: "x < 2 ^ k \<Longrightarrow> bit (x :: 'c::len word) i \<Longrightarrow> i < k"
  by (metis bit_take_bit_iff less_mask_eq take_bit_eq_mask)

lemma bit_mortonize_3D:
  assumes "x < 2 ^ 21" and "y < 2 ^ 21" and "z < 2 ^ 21"
  shows "bit (mortonize_3D x y z) j \<longleftrightarrow> (\<exists>k<21. j = 3 * k \<and> bit x k \<or> j = 3 * k + 1 \<and> bit y k \<or> j = 3 * k + 2 \<and> bit z k)"
proof -
  have masked: "bit (ucast c AND GetB_3D 5) i \<longleftrightarrow> i < 21 \<and> bit c i" if "c < 2 ^ 21" for c :: "'a word" and i
  proof -
    have "GetB_3D 5 = mask 32" by (simp add: GetB_3D_def mask_eq_exp_minus_1)
    then show ?thesis using small_bits [OF that, of i] bit_imp_le_length [of c i] by (auto simp: bit_and_iff bit_ucast_iff bit_mask_iff)
  qed
  have e: "bit (expand_3D (ucast c AND GetB_3D 5)) n \<longleftrightarrow> (\<exists>k<21. n = 3 * k \<and> bit c k)" if "c < 2 ^ 21" for c :: "'a word" and n
    using small_bits [OF that, of "n div 3"] by (subst bit_expand_3D) (auto simp: masked [OF that] intro!: exI [of _ "n div 3"])
  have "bit (mortonize_3D x y z) j \<longleftrightarrow> bit (expand_3D (ucast x AND GetB_3D 5)) j \<or> 1 \<le> j \<and> j < 64 \<and> bit (expand_3D (ucast y AND GetB_3D 5)) (j - 1)
      \<or> 2 \<le> j \<and> j < 64 \<and> bit (expand_3D (ucast z AND GetB_3D 5)) (j - 2)"
    unfolding mortonize_3D_def Let_def bit_or_iff bit_push_bit_iff by auto
  also have "\<dots> \<longleftrightarrow> (\<exists>k<21. j = 3 * k \<and> bit x k \<or> j = 3 * k + 1 \<and> bit y k \<or> j = 3 * k + 2 \<and> bit z k)"
    unfolding e [OF assms(1)] e [OF assms(2)] e [OF assms(3)] by (auto simp: eval_nat_numeral)
  finally show ?thesis .
qed

lemma three_apart:
  fixes k l :: nat
  shows "3 * k \<noteq> Suc (3 * l)" "Suc (3 * k) \<noteq> 3 * l" "3 * k \<noteq> Suc (Suc (3 * l))" "Suc (Suc (3 * k)) \<noteq> 3 * l"
    "3 * k \<noteq> Suc (3 * l)" "Suc (3 * k) \<noteq> Suc (Suc (3 * l))" "Suc (Suc (3 * k)) \<noteq> Suc (3 * l)"
  by presburger+

lemma bit_mortonize_3D_at:
  assumes "x < 2 ^ 21" and "y < 2 ^ 21" and "z < 2 ^ 21"
  shows "bit (mortonize_3D x y z) (3 * k) \<longleftrightarrow> bit x k" "bit (mortonize_3D x y z) (3 * k + 1) \<longleftrightarrow> bit y k"
    "bit (mortonize_3D x y z) (3 * k + 2) \<longleftrightarrow> bit z k"
proof -
  have small: "l < 21" if "bit x l \<or> bit y l \<or> bit z l" for l using that assms small_bits by blast
  show "bit (mortonize_3D x y z) (3 * k) \<longleftrightarrow> bit x k" "bit (mortonize_3D x y z) (3 * k + 1) \<longleftrightarrow> bit y k"
    "bit (mortonize_3D x y z) (3 * k + 2) \<longleftrightarrow> bit z k"
    unfolding bit_mortonize_3D [OF assms] using small by (simp_all add: three_apart) blast+
qed

lemma three_cases:
  fixes j :: nat
  obtains k where "j = 3 * k" | k where "j = 3 * k + 1" | k where "j = 3 * k + 2"
proof -
  have "j = 3 * (j div 3) \<or> j = 3 * (j div 3) + 1 \<or> j = 3 * (j div 3) + 2" by presburger
  with that show thesis by metis
qed

lemma three_div_mod:
  fixes k :: nat
  shows "(3 * k) div 3 = k" "(3 * k + 1) div 3 = k" "(3 * k + 2) div 3 = k" "(3 * k) mod 3 = 0" "(3 * k + 1) mod 3 = 1" "(3 * k + 2) mod 3 = 2"
  by presburger+

lemma bit_demortonize_3D:
  "bit (fst (demortonize_3D m :: 'c::len word \<times> 'c word \<times> 'c word)) n \<longleftrightarrow> n < LENGTH('c) \<and> bit m (3 * n)"
  "bit (fst (snd (demortonize_3D m :: 'c::len word \<times> 'c word \<times> 'c word))) n \<longleftrightarrow> n < LENGTH('c) \<and> bit m (3 * n + 1)"
  "bit (snd (snd (demortonize_3D m :: 'c::len word \<times> 'c word \<times> 'c word))) n \<longleftrightarrow> n < LENGTH('c) \<and> bit m (3 * n + 2)"
  using bit_contract_3D [of 0 m n] bit_contract_3D [of 1 m n] bit_contract_3D [of 2 m n]
  by (auto simp: demortonize_3D_def Let_def bit_ucast_iff)
text \<open>
  C24. \<^verbatim>\<open>mortonize\<close> in two dimensions interleaves the bits of its arguments, the even bits from
  \<open>x\<close> and the odd bits from \<open>y\<close>; \<^verbatim>\<open>demortonize\<close> takes the index of a point with
  coordinates below \<open>2 ^ 32\<close> back to the point, and every index is the index of the point it is
  taken to when the coordinates have at least 32 bits.
\<close>

theorem morton_2D_interleaves:
  fixes x y :: "'c::len word"
  shows "(\<forall>j. bit (mortonize_2D x y) j \<longleftrightarrow> j < 64 \<and> bit (if even j then x else y) (j div 2)) \<and>
    (x < 2 ^ 32 \<and> y < 2 ^ 32 \<or> LENGTH('c) \<le> 32 \<longrightarrow> demortonize_2D (mortonize_2D x y) = (x, y)) \<and>
    (32 \<le> LENGTH('c) \<longrightarrow> case_prod mortonize_2D (demortonize_2D m :: 'c word \<times> 'c word) = m)"
proof (intro conjI impI)
  show "\<forall>j. bit (mortonize_2D x y) j \<longleftrightarrow> j < 64 \<and> bit (if even j then x else y) (j div 2)" using bit_mortonize_2D by blast
  let ?d = "demortonize_2D (mortonize_2D x y) :: 'c word \<times> 'c word"
  assume "x < 2 ^ 32 \<and> y < 2 ^ 32 \<or> LENGTH('c) \<le> 32"
  then have small: "n < 32" if "bit x n \<or> bit y n" for n
    using that small_bits [of x 32 n] small_bits [of y 32 n] bit_imp_le_length [of x n] bit_imp_le_length [of y n] by auto
  have "fst ?d = x" by (rule bit_word_eqI) (use small in \<open>auto simp: bit_demortonize_2D bit_mortonize_2D\<close>)
  moreover have "snd ?d = y" by (rule bit_word_eqI) (use small in \<open>fastforce simp: bit_demortonize_2D bit_mortonize_2D\<close>)
  ultimately show "?d = (x, y)" by (simp add: prod_eq_iff)
next
  let ?d = "demortonize_2D m :: 'c word \<times> 'c word"
  assume len: "32 \<le> LENGTH('c)"
  have "mortonize_2D (fst ?d) (snd ?d) = m"
    by (rule bit_word_eqI) (use len in \<open>auto simp: bit_demortonize_2D bit_mortonize_2D less_mult_imp_div_less\<close>)
  then show "case_prod mortonize_2D ?d = m" by (simp add: case_prod_unfold)
qed

theorem morton_2D_interleaves_witness:
  "demortonize_2D (mortonize_2D (6 :: 32 word) 3) = (6 :: 32 word, 3)"
  using morton_2D_interleaves [of "6 :: 32 word" 3] by simp

lemma below_exp:
  assumes "k < LENGTH('c)" and "\<And>n. bit c n \<Longrightarrow> n < k"
  shows "(c :: 'c::len word) < 2 ^ k"
proof -
  have "take_bit k c = c" by (rule bit_word_eqI) (use assms in \<open>auto simp: bit_take_bit_iff\<close>)
  then show ?thesis using assms(1) by (metis and_mask_less_size take_bit_eq_mask word_size)
qed

lemma four_bits: "(j :: nat) mod 4 = (if even j then if even (j div 2) then 0 else 2 else if even (j div 2) then 1 else 3)"
  by presburger

text \<open>
  In three dimensions, for coordinates below \<open>2 ^ 21\<close>: the index interleaves the bits of the three
  coordinates and stays below \<open>2 ^ 63\<close>, and \<^verbatim>\<open>demortonize\<close> takes it back to the point. Conversely every
  index below \<open>2 ^ 63\<close> is the index of the point it is taken to. The hash of a point in four dimensions
  interleaves the low sixteen bits of the four coordinates.
\<close>

theorem morton_3D_4D_interleave:
  fixes x y z p0 p1 p2 p3 :: "'c::len word"
  shows "(x < 2 ^ 21 \<and> y < 2 ^ 21 \<and> z < 2 ^ 21 \<longrightarrow>
      (\<forall>j. bit (mortonize_3D x y z) j \<longleftrightarrow> j < 63 \<and> bit ([x, y, z] ! (j mod 3)) (j div 3)) \<and>
      demortonize_3D (mortonize_3D x y z) = (x, y, z)) \<and>
    (21 < LENGTH('c) \<and> m < 2 ^ 63 \<longrightarrow>
      (case demortonize_3D m :: 'c word \<times> 'c word \<times> 'c word of (x, y, z) \<Rightarrow> mortonize_3D x y z) = m) \<and>
    (\<forall>j. bit (PointHash_4D p0 p1 p2 p3) j \<longleftrightarrow> j < 64 \<and> bit ([p0, p1, p2, p3] ! (j mod 4)) (j div 4))"
proof (intro conjI impI)
  assume s: "x < 2 ^ 21 \<and> y < 2 ^ 21 \<and> z < 2 ^ 21"
  then have "x < 2 ^ 21" "y < 2 ^ 21" "z < 2 ^ 21" by auto
  note at = bit_mortonize_3D_at [OF this]
  have small: "k < 21" if "bit x k \<or> bit y k \<or> bit z k" for k using that s small_bits by blast
  show "\<forall>j. bit (mortonize_3D x y z) j \<longleftrightarrow> j < 63 \<and> bit ([x, y, z] ! (j mod 3)) (j div 3)"
  proof
    fix j show "bit (mortonize_3D x y z) j \<longleftrightarrow> j < 63 \<and> bit ([x, y, z] ! (j mod 3)) (j div 3)"
    proof (cases j rule: three_cases)
      case (1 k)
      show ?thesis unfolding 1 three_div_mod at using small [of k] by auto
    next
      case (2 k)
      show ?thesis unfolding 2 three_div_mod at using small [of k] by auto
    next
      case (3 k)
      show ?thesis unfolding 3 three_div_mod at using small [of k] by auto
    qed
  qed
  let ?d = "demortonize_3D (mortonize_3D x y z) :: 'c word \<times> 'c word \<times> 'c word"
  have "fst ?d = x" "fst (snd ?d) = y" "snd (snd ?d) = z"
    by (rule bit_word_eqI, simp only: bit_demortonize_3D at simp_thms)+
  then show "?d = (x, y, z)" by (simp add: prod_eq_iff)
next
  let ?d = "demortonize_3D m :: 'c word \<times> 'c word \<times> 'c word"
  assume a: "21 < LENGTH('c) \<and> m < 2 ^ 63"
  then have m: "j < 63" if "bit m j" for j using that small_bits by blast
  have lt: "fst ?d < 2 ^ 21" "fst (snd ?d) < 2 ^ 21" "snd (snd ?d) < 2 ^ 21"
    by (rule below_exp, use a in simp, use m in \<open>force simp: bit_demortonize_3D\<close>)+
  have k: "k < LENGTH('c)" if "bit m (3 * k) \<or> bit m (3 * k + 1) \<or> bit m (3 * k + 2)" for k using that m a by fastforce
  have "bit (mortonize_3D (fst ?d) (fst (snd ?d)) (snd (snd ?d))) j = bit m j" for j
  proof (cases j rule: three_cases)
    case (1 l)
    show ?thesis unfolding 1 bit_mortonize_3D_at [OF lt] bit_demortonize_3D using k by blast
  next
    case (2 l)
    show ?thesis unfolding 2 bit_mortonize_3D_at [OF lt] bit_demortonize_3D using k by blast
  next
    case (3 l)
    show ?thesis unfolding 3 bit_mortonize_3D_at [OF lt] bit_demortonize_3D using k by blast
  qed
  then show "(case ?d of (x, y, z) \<Rightarrow> mortonize_3D x y z) = m" by (auto intro: bit_word_eqI simp: case_prod_unfold)
next
  have d4: "j div 4 = j div 2 div 2" for j :: nat by (simp add: div_mult2_eq [symmetric])
  show "\<forall>j. bit (PointHash_4D p0 p1 p2 p3) j \<longleftrightarrow> j < 64 \<and> bit ([p0, p1, p2, p3] ! (j mod 4)) (j div 4)"
    by (auto simp: PointHash_4D_def bit_mortonize_2D four_bits d4 less_mult_imp_div_less)
qed

theorem morton_3D_4D_interleave_witness:
  "demortonize_3D (mortonize_3D (5 :: 32 word) 7 1000000) = (5 :: 32 word, 7, 1000000)"
  using morton_3D_4D_interleave [of "5 :: 32 word" 7 1000000] by simp

section \<open>The highest set bit\<close>

text \<open>
  One step with shift \<open>w\<close>: the mask holds the upper half of a number below \<open>2 ^ (2 * w)\<close>, so the
  test asks whether the number is at least \<open>2 ^ w\<close>.
\<close>

definition max_bit_inv :: "uint64 \<Rightarrow> nat \<Rightarrow> uint64 \<times> nat \<Rightarrow> bool" where
  "max_bit_inv x0 w = (\<lambda>(x, res). x = drop_bit res x0 \<and> x \<noteq> 0 \<and> (\<forall>n. bit x n \<longrightarrow> n < w) \<and> w dvd res)"

lemma max_bit_step:
  assumes inv: "max_bit_inv x0 (2 * 2 ^ i) (x, res)" and i: "i < 6"
    and B: "\<And>n. bit (MaxBit_B i) n \<longleftrightarrow> 2 ^ i \<le> n \<and> n < 2 * 2 ^ i" and S: "MaxBit_S i = 2 ^ i"
  shows "max_bit_inv x0 (2 ^ i) (maxSetBit_step i (x, res))"
proof -
  have x: "x = drop_bit res x0" "x \<noteq> 0" "\<And>n. bit x n \<Longrightarrow> n < 2 * 2 ^ i" "2 * 2 ^ i dvd res" using inv by (auto simp: max_bit_inv_def)
  have test: "x AND MaxBit_B i \<noteq> 0 \<longleftrightarrow> (\<exists>n. bit x n \<and> 2 ^ i \<le> n)"
    using x(3) bit_imp_le_length [of x] by (auto simp: bit_eq_iff bit_and_iff B)
  have dvd: "2 ^ i dvd res" using x(4) by (rule dvd_mult_right)
  show ?thesis
  proof (cases "x AND MaxBit_B i = 0")
    case True
    then have "n < 2 ^ i" if "bit x n" for n using that test by (meson linorder_not_le)
    with True x dvd show ?thesis by (simp add: maxSetBit_step_def max_bit_inv_def)
  next
    case False
    have "res OR 2 ^ i = res + 2 ^ i"
    proof -
      obtain q where "res = 2 ^ i * (2 * q)" using x(4) by (auto simp: dvd_def ac_simps)
      then have "\<not> bit res i" by (simp add: bit_iff_odd)
      then have "res AND 2 ^ i = 0" by (intro bit_eqI) (auto simp: bit_and_iff bit_exp_iff)
      then show ?thesis by (simp add: disjunctive_add_eq_or)
    qed
    moreover obtain n where n: "bit x n" "2 ^ i \<le> n" using False test by blast
    have "drop_bit (2 ^ i) x \<noteq> 0"
    proof
      assume "drop_bit (2 ^ i) x = 0"
      then have "\<not> bit (drop_bit (2 ^ i) x) (n - 2 ^ i)" by simp
      with n show False by (simp add: bit_drop_bit_eq)
    qed
    moreover have "m < 2 ^ i" if "bit (drop_bit (2 ^ i) x) m" for m using x(3) [of "m + 2 ^ i"] that by (simp add: bit_drop_bit_eq add.commute)
    ultimately show ?thesis using False x(1) dvd by (auto simp: maxSetBit_step_def max_bit_inv_def S add.commute)
  qed
qed

lemma max_bit_masks: "i < 6 \<Longrightarrow> MaxBit_S i = 2 ^ i \<and> (\<forall>n. bit (MaxBit_B i) n \<longleftrightarrow> 2 ^ i \<le> n \<and> n < 2 * 2 ^ i)"
proof -
  have B: "MaxBit_B i = mask (2 * 2 ^ i) AND NOT (mask (2 ^ i)) \<and> MaxBit_S i = 2 ^ i" if "i < 6"
  proof -
    from that consider "i = 0" | "i = 1" | "i = 2" | "i = 3" | "i = 4" | "i = 5" by linarith
    then show ?thesis by cases (simp_all add: MaxBit_B_def MaxBit_S_def mask_eq_exp_minus_1)
  qed
  assume "i < 6"
  then have "2 * 2 ^ i \<le> (64 :: nat)" using power_increasing [of i 5 "2 :: nat"] by simp
  with B [OF \<open>i < 6\<close>] show ?thesis by (auto simp: bit_and_iff bit_not_iff bit_mask_iff)
qed

lemma max_bit_loop:
  assumes "max_bit_inv x (2 ^ k) st" and "k \<le> 6"
  shows "max_bit_inv x 1 (fold maxSetBit_step (rev [0..<k]) st)"
  using assms
proof (induction k arbitrary: st)
  case (Suc k)
  have "max_bit_inv x (2 ^ k) (maxSetBit_step k (fst st, snd st))"
    by (rule max_bit_step) (use Suc.prems max_bit_masks [of k] in auto)
  with Suc show ?case by simp
qed simp

text \<open>
  \<^verbatim>\<open>maxSetBit\<close> returns the index of the highest set bit of every 64-bit word other than zero, and
  zero for zero.
\<close>

theorem maxSetBit_correct:
  "(x \<noteq> 0 \<longrightarrow> bit x (maxSetBit x) \<and> (\<forall>n. bit x n \<longrightarrow> n \<le> maxSetBit x)) \<and> maxSetBit 0 = 0"
proof (intro conjI impI)
  assume "x \<noteq> 0"
  then have "max_bit_inv x (2 ^ 6) (x, 0)" using bit_imp_le_length [of x] by (auto simp: max_bit_inv_def)
  then have inv: "max_bit_inv x 1 (fold maxSetBit_step (rev [0..<6]) (x, 0))" by (rule max_bit_loop) simp
  obtain y r where yr: "fold maxSetBit_step (rev [0..<6]) (x, 0) = (y, r)" by fastforce
  then have r: "maxSetBit x = r" by (simp add: maxSetBit_def eval_nat_numeral)
  have y: "y = drop_bit r x" "y \<noteq> 0" "\<And>n. bit y n \<Longrightarrow> n = 0" using inv unfolding yr by (auto simp: max_bit_inv_def)
  obtain n where "bit y n" using y(2) by (auto simp: bit_eq_iff)
  then have "bit y 0" using y(3) by blast
  then show "bit x (maxSetBit x)" by (simp add: r y(1) bit_drop_bit_eq)
  show "\<forall>n. bit x n \<longrightarrow> n \<le> maxSetBit x"
  proof (intro allI impI)
    fix n assume "bit x n"
    then show "n \<le> maxSetBit x" using y(3) [of "n - r"] unfolding r y(1) by (cases "r \<le> n") (auto simp: bit_drop_bit_eq)
  qed
next
  show "maxSetBit 0 = 0" unfolding maxSetBit_def upto_lists by (simp add: maxSetBit_step_def)
qed

theorem maxSetBit_correct_witness: "bit (1000 :: uint64) (maxSetBit 1000)"
  using maxSetBit_correct [of 1000] by simp

end
