(* ===== verification/MortonWidths.thy ===== *)
theory MortonWidths
  imports Morton
begin

text \<open>
  Morton indices of grid points at the widths that the levels of an octree use: \<^verbatim>\<open>Mortonizer\<close> of \<^verbatim>\<open>spin/MortonIndex.hpp\<close> with
  \<^verbatim>\<open>CoordType\<close> the signed index type and \<^verbatim>\<open>MortonIndexType\<close> an unsigned type of 16, 32 or 64 bits, in two and three dimensions.
  The locales \<open>spreading\<close> and \<open>gathering\<close> are the contracts of \<^verbatim>\<open>expandBits\<close> and \<^verbatim>\<open>contractBits\<close>; both are
  interpreted at every width.
\<close>

unbundle bit_operations_syntax

section \<open>The code\<close>

definition NumReps_of :: "'m::len itself \<Rightarrow> nat" where
  "NumReps_of _ = (if LENGTH('m) = 64 then 5 else if LENGTH('m) = 32 then 4 else if LENGTH('m) = 16 then 3 else 2)"

definition GetB2 :: "nat \<Rightarrow> 'm::len word" where
  "GetB2 i = ucast (GetB_2D i)"

definition GetB3 :: "nat \<Rightarrow> 'm::len word" where
  "GetB3 i = ucast (GetB_3D i)"

definition expand2 :: "'m::len word \<Rightarrow> 'm word" where
  "expand2 x = expandBits GetB2 GetS_2D (NumReps_of TYPE('m)) x"

definition contract2 :: "'m::len word \<Rightarrow> 'm word" where
  "contract2 x = contractBits GetB2 GetS_2D (NumReps_of TYPE('m)) x"

definition expand3 :: "'m::len word \<Rightarrow> 'm word" where
  "expand3 x = expandBits GetB3 GetS_3D (NumReps_of TYPE('m) - 1) x"

definition contract3 :: "'m::len word \<Rightarrow> 'm word" where
  "contract3 x = contractBits GetB3 GetS_3D (NumReps_of TYPE('m)) x"

definition mortonize2 :: "int \<Rightarrow> int \<Rightarrow> 'm::len word" where
  "mortonize2 x y = expand2 (word_of_int x) OR push_bit 1 (expand2 (word_of_int y))"

definition demortonize2 :: "'m::len word \<Rightarrow> int list" where
  "demortonize2 m = [uint (contract2 (m AND GetB2 0)), uint (contract2 (drop_bit 1 m AND GetB2 0))]"

definition mortonize3 :: "int \<Rightarrow> int \<Rightarrow> int \<Rightarrow> 'm::len word" where
  "mortonize3 x y z = expand3 (word_of_int x AND GetB3 5) OR push_bit 1 (expand3 (word_of_int y AND GetB3 5)) OR
     push_bit 2 (expand3 (word_of_int z AND GetB3 5))"

definition demortonize3 :: "'m::len word \<Rightarrow> int list" where
  "demortonize3 m = [uint (contract3 (m AND GetB3 0)), uint (contract3 (drop_bit 1 m AND GetB3 0)),
     uint (contract3 (drop_bit 2 m AND GetB3 0))]"

text \<open>The choice of the instance, by the number of coordinates and the width of the index type.\<close>

definition mortonize_at :: "'m::len itself \<Rightarrow> int list \<Rightarrow> nat" where
  "mortonize_at _ pt = (case pt of [x, y] \<Rightarrow> unat (mortonize2 x y :: 'm word) | [x, y, z] \<Rightarrow> unat (mortonize3 x y z :: 'm word) | _ \<Rightarrow> 0)"

definition mortonize :: "nat \<Rightarrow> int list \<Rightarrow> nat" where
  "mortonize w pt = (if w = 16 then mortonize_at TYPE(16) pt else if w = 32 then mortonize_at TYPE(32) pt else mortonize_at TYPE(64) pt)"

definition demortonize_at :: "'m::len itself \<Rightarrow> nat \<Rightarrow> nat \<Rightarrow> int list" where
  "demortonize_at _ dim m = (if dim = 2 then demortonize2 (of_nat m :: 'm word) else demortonize3 (of_nat m :: 'm word))"

definition demortonize :: "nat \<Rightarrow> nat \<Rightarrow> nat \<Rightarrow> int list" where
  "demortonize w dim m = (if w = 16 then demortonize_at TYPE(16) dim m else if w = 32 then demortonize_at TYPE(32) dim m
     else demortonize_at TYPE(64) dim m)"

section \<open>Spreading and gathering at every width\<close>

locale spreading = bit_linear f for f :: "'m::len word \<Rightarrow> 'm word" +
  fixes d k :: nat
  assumes pos: "0 < d" and fits: "d * k \<le> LENGTH('m)" and one: "i < k \<Longrightarrow> f (2 ^ i) = 2 ^ (d * i)"
begin

lemma bit_spread:
  assumes "\<And>i. bit x i \<Longrightarrow> i < k"
  shows "bit (f x) n \<longleftrightarrow> d dvd n \<and> bit x (n div d)"
proof -
  have le: "d * i < LENGTH('m)" if "i < k" for i
    using that pos fits by (metis le_less_trans mult_less_cancel1 nat_less_le not_le order.trans)
  have "i < LENGTH('m)" if "bit x i" for i using that bit_imp_le_length by blast
  moreover have "bit (f (2 ^ i)) n \<longleftrightarrow> d * i = n" if "i < k" for i using one [OF that] le [OF that] by (auto simp: bit_simps)
  ultimately have "bit (f x) n \<longleftrightarrow> (\<exists>i. bit x i \<and> d * i = n)" unfolding bit_image [of x n] using assms by blast
  also have "\<dots> \<longleftrightarrow> d dvd n \<and> bit x (n div d)" using pos by (auto simp: dvd_def)
  finally show ?thesis .
qed

end

locale gathering = bit_linear f for f :: "'m::len word \<Rightarrow> 'm word" +
  fixes d :: nat and b :: "'m word"
  assumes pos: "0 < d" and one: "i < LENGTH('m) \<Longrightarrow> f (2 ^ i AND b) = (if d dvd i then 2 ^ (i div d) else 0)"
begin

lemma bit_gather: "bit (f (drop_bit s x AND b)) n \<longleftrightarrow> bit x (d * n + s)"
proof -
  have lin: "bit_linear (\<lambda>x. f (drop_bit s x AND b))"
    using bit_linear_axioms bit_linear_steps(3) by (rule bit_linear_comp)
  have drop: "drop_bit s (2 ^ i :: 'm word) = (if s \<le> i \<and> i < LENGTH('m) then 2 ^ (i - s) else 0)" for i
    by (rule bit_word_eqI) (auto simp: bit_simps)
  have "f (drop_bit s (2 ^ i) AND b) = (if s \<le> i \<and> d dvd (i - s) then 2 ^ ((i - s) div d) else 0)" if "i < LENGTH('m)" for i
    using that one [of "i - s"] f_zero by (simp add: drop)
  moreover have "(i - s) div d < LENGTH('m)" if "i < LENGTH('m)" for i
    using that div_le_dividend [of "i - s" d] by linarith
  ultimately have "bit (f (drop_bit s x AND b)) n \<longleftrightarrow> (\<exists>i<LENGTH('m). bit x i \<and> s \<le> i \<and> d dvd (i - s) \<and> (i - s) div d = n)"
    by (subst bit_linear.bit_image [OF lin], intro ex_cong1) (auto simp: bit_simps split: if_splits)
  also have "\<dots> \<longleftrightarrow> bit x (d * n + s)"
  proof
    assume "\<exists>i<LENGTH('m). bit x i \<and> s \<le> i \<and> d dvd (i - s) \<and> (i - s) div d = n"
    then obtain i where "bit x i" "s \<le> i" "i - s = d * n" by auto
    then show "bit x (d * n + s)" by (metis le_add_diff_inverse2)
  next
    assume "bit x (d * n + s)"
    then show "\<exists>i<LENGTH('m). bit x i \<and> s \<le> i \<and> d dvd (i - s) \<and> (i - s) div d = n"
      using bit_imp_le_length [of x "d * n + s"] pos by (intro exI [of _ "d * n + s"]) simp
  qed
  finally show ?thesis .
qed

end

text \<open>The loops on words with one bit.\<close>

definition expand_pass :: "nat \<Rightarrow> 'm::len word \<Rightarrow> 'm word \<Rightarrow> 'm word" where
  "expand_pass s b x = (x OR push_bit s x) AND b"

definition contract_pass :: "nat \<Rightarrow> 'm::len word \<Rightarrow> 'm word \<Rightarrow> 'm word" where
  "contract_pass s b x = (x OR drop_bit s x) AND b"

lemma upto_narrow:
  "rev [0..<Suc 3] = [3, 2, 1, 0]" "rev [0..<Suc 2] = [2, 1, 0]" "[0..<3] = [0, 1, 2]" "[0..<4] = [0, 1, 2, 3]"
  "[0..<32] = [0, 1, 2, 3, 4, 5, 6, 7, 8, 9, 10, 11, 12, 13, 14, 15, 16, 17, 18, 19, 20, 21, 22, 23, 24, 25, 26, 27, 28, 29, 30, 31]"
  "[0..<10] = [0, 1, 2, 3, 4, 5, 6, 7, 8, 9]"
  by code_simp+

lemma masks32:
  "(GetB2 0 :: 32 word) = 0x55555555" "(GetB2 (Suc 0) :: 32 word) = 0x33333333" "(GetB2 2 :: 32 word) = 0x0F0F0F0F"
  "(GetB2 3 :: 32 word) = 0x00FF00FF" "(GetB2 4 :: 32 word) = 0xFFFF"
  "(GetB3 0 :: 32 word) = 0x49249249" "(GetB3 (Suc 0) :: 32 word) = 0xC30C30C3" "(GetB3 2 :: 32 word) = 0x0F00F00F"
  "(GetB3 3 :: 32 word) = 0xFF0000FF" "(GetB3 4 :: 32 word) = 0xFFFF"
  by (simp_all add: GetB2_def GetB3_def morton_tables)

lemma unrolled32:
  "expandBits GetB2 GetS_2D 4 x = expand_pass 1 0x55555555 (expand_pass 2 0x33333333 (expand_pass 4 0x0F0F0F0F
     (expand_pass 8 0x00FF00FF (expand_pass 16 0xFFFF (x :: 32 word)))))"
  "contractBits GetB2 GetS_2D 4 x = contract_pass 8 0xFFFF (contract_pass 4 0x00FF00FF (contract_pass 2 0x0F0F0F0F (contract_pass 1 0x33333333 x)))"
  "expandBits GetB3 GetS_3D 3 x = expand_pass 2 0x49249249 (expand_pass 4 0xC30C30C3 (expand_pass 8 0x0F00F00F (expand_pass 16 0xFF0000FF x)))"
  "contractBits GetB3 GetS_3D 4 x = contract_pass 16 0xFFFF (contract_pass 8 0xFF0000FF (contract_pass 4 0x0F00F00F (contract_pass 2 0xC30C30C3 x)))"
  unfolding expandBits_def contractBits_def upto_narrow upto_lists expand_pass_def [symmetric] contract_pass_def [symmetric]
  by (simp_all add: masks32 masks32(3,8) [unfolded numeral_2_eq_2] GetS_2D_def GetS_3D_def)

lemma one_bit_table32:
  "list_all (\<lambda>i. expandBits GetB2 GetS_2D 4 (2 ^ i :: 32 word) = (if i < 16 then 2 ^ (2 * i) else 0)) [0..<32]"
  "list_all (\<lambda>i. contractBits GetB2 GetS_2D 4 (2 ^ i AND GetB2 0 :: 32 word) = (if even i then 2 ^ (i div 2) else 0)) [0..<32]"
  "list_all (\<lambda>i. expandBits GetB3 GetS_3D 3 (2 ^ i :: 32 word) = 2 ^ (3 * i)) [0..<10]"
  "list_all (\<lambda>i. contractBits GetB3 GetS_3D 4 (2 ^ i AND GetB3 0 :: 32 word) = (if i mod 3 = 0 then 2 ^ (i div 3) else 0)) [0..<32]"
  unfolding upto_narrow unrolled32 list.pred_inject GetB2_def GetB3_def GetB_2D_def GetB_3D_def
  by (simp_all add: expand_pass_def contract_pass_def)

lemma one_bit_table16:
  "list_all (\<lambda>i. expandBits GetB2 GetS_2D 3 (2 ^ i :: 16 word) = (if i < 8 then 2 ^ (2 * i) else 0)) [0..<16]"
  "list_all (\<lambda>i. contractBits GetB2 GetS_2D 3 (2 ^ i AND GetB2 0 :: 16 word) = (if even i then 2 ^ (i div 2) else 0)) [0..<16]"
  "list_all (\<lambda>i. expandBits GetB3 GetS_3D 2 (2 ^ i :: 16 word) = 2 ^ (3 * i)) [0..<5]"
  "list_all (\<lambda>i. contractBits GetB3 GetS_3D 3 (2 ^ i AND GetB3 0 :: 16 word) = (if i mod 3 = 0 then 2 ^ (i div 3) else 0)) [0..<16]"
  by code_simp+

lemma tables64: "(GetB2 :: nat \<Rightarrow> 64 word) = GetB_2D" "(GetB3 :: nat \<Rightarrow> 64 word) = GetB_3D"
  by (auto simp: GetB2_def GetB3_def)

lemma reps [simp]: "NumReps_of TYPE(16) = 3" "NumReps_of TYPE(32) = 4" "NumReps_of TYPE(64) = 5"
  by (simp_all add: NumReps_of_def)

lemma bit_linear_contractBits: "bit_linear (contractBits B S n)"
  unfolding contractBits_def [abs_def] by (intro bit_linear_fold bit_linear_steps)

lemma linear:
  "bit_linear expand2" "bit_linear contract2" "bit_linear expand3" "bit_linear contract3"
  unfolding expand2_def [abs_def] expand3_def [abs_def] contract2_def [abs_def] contract3_def [abs_def]
  by (rule bit_linear_expand bit_linear_contractBits)+

lemmas width_defs = expand2_def expand3_def contract2_def contract3_def

interpretation s2_16: spreading "expand2 :: 16 word \<Rightarrow> 16 word" 2 8
  using linear(1) one_bit_table16(1) by (auto intro!: spreading.intro spreading_axioms.intro simp: width_defs list_all_iff)

interpretation s2_32: spreading "expand2 :: 32 word \<Rightarrow> 32 word" 2 16
  using linear(1) one_bit_table32(1) by (auto intro!: spreading.intro spreading_axioms.intro simp: width_defs list_all_iff)

interpretation s2_64: spreading "expand2 :: 64 word \<Rightarrow> 64 word" 2 32
  using linear(1) one_bit(1) by (auto intro!: spreading.intro spreading_axioms.intro simp: width_defs tables64)

interpretation s3_16: spreading "expand3 :: 16 word \<Rightarrow> 16 word" 3 5
  using linear(3) one_bit_table16(3) by (auto intro!: spreading.intro spreading_axioms.intro simp: width_defs list_all_iff)

interpretation s3_32: spreading "expand3 :: 32 word \<Rightarrow> 32 word" 3 10
  using linear(3) one_bit_table32(3) by (auto intro!: spreading.intro spreading_axioms.intro simp: width_defs list_all_iff)

interpretation s3_64: spreading "expand3 :: 64 word \<Rightarrow> 64 word" 3 21
  using linear(3) one_bit(3) by (auto intro!: spreading.intro spreading_axioms.intro simp: width_defs tables64)

lemma gatheringI:
  "bit_linear f \<Longrightarrow> 0 < d \<Longrightarrow> (\<And>i. i < LENGTH('m) \<Longrightarrow> f (2 ^ i AND b) = (if i mod d = 0 then 2 ^ (i div d) else 0)) \<Longrightarrow>
    gathering (f :: 'm::len word \<Rightarrow> 'm word) d b"
  by (simp add: gathering_def gathering_axioms_def dvd_eq_mod_eq_0)

interpretation g2_16: gathering "contract2 :: 16 word \<Rightarrow> 16 word" 2 "GetB2 0"
  using one_bit_table16(2) by (intro gatheringI linear) (auto simp: width_defs list_all_iff even_iff_mod_2_eq_zero)

interpretation g2_32: gathering "contract2 :: 32 word \<Rightarrow> 32 word" 2 "GetB2 0"
  using one_bit_table32(2) by (intro gatheringI linear) (auto simp: width_defs list_all_iff even_iff_mod_2_eq_zero)

interpretation g2_64: gathering "contract2 :: 64 word \<Rightarrow> 64 word" 2 "GetB2 0"
  using one_bit(2) by (intro gatheringI linear) (auto simp: width_defs tables64 even_iff_mod_2_eq_zero)

interpretation g3_16: gathering "contract3 :: 16 word \<Rightarrow> 16 word" 3 "GetB3 0"
  using one_bit_table16(4) by (intro gatheringI linear) (auto simp: width_defs list_all_iff)

interpretation g3_32: gathering "contract3 :: 32 word \<Rightarrow> 32 word" 3 "GetB3 0"
  using one_bit_table32(4) by (intro gatheringI linear) (auto simp: width_defs list_all_iff)

interpretation g3_64: gathering "contract3 :: 64 word \<Rightarrow> 64 word" 3 "GetB3 0"
  using one_bit(4) by (intro gatheringI linear) (auto simp: width_defs tables64)

section \<open>Morton indices of grid points\<close>

lemma bit_small_int: "0 \<le> c \<Longrightarrow> c < 2 ^ k \<Longrightarrow> bit (c :: int) i \<Longrightarrow> i < k"
  by (metis bit_take_bit_iff take_bit_int_eq_self)

lemma bit_GetB3_5: "bit (GetB3 5 :: 'm::len word) n \<longleftrightarrow> n < LENGTH('m) \<and> n < 32"
proof -
  have "GetB_3D 5 = mask 32" by (simp add: GetB_3D_def mask_eq_exp_minus_1)
  then show ?thesis by (auto simp: GetB3_def bit_simps)
qed

text \<open>The index of two and of three coordinates with at most \<open>k\<close> bits, over the contract of spreading.\<close>

lemma bit_mortonize2:
  assumes S: "spreading (expand2 :: 'm::len word \<Rightarrow> 'm word) 2 k" and c: "0 \<le> x" "x < 2 ^ k" "0 \<le> y" "y < 2 ^ k"
  shows "bit (mortonize2 x y :: 'm word) j \<longleftrightarrow> bit ([x, y] ! (j mod 2)) (j div 2)"
proof -
  have e: "bit (expand2 (word_of_int c :: 'm word)) n \<longleftrightarrow> even n \<and> bit c (n div 2)" if "0 \<le> c" "c < 2 ^ k" for c n
  proof -
    have "k \<le> LENGTH('m)" using spreading.fits [OF S] by simp
    then show ?thesis using bit_small_int [OF that] by (subst spreading.bit_spread [OF S]) (auto simp: bit_simps dest: order.strict_trans2)
  qed
  have len: "j < LENGTH('m)" if "bit y (j div 2)"
    using bit_small_int [OF c(3,4) that] spreading.fits [OF S] by linarith
  show ?thesis
  proof (cases "even j")
    case True
    then show ?thesis unfolding mortonize2_def bit_or_iff bit_push_bit_iff by (cases j) (auto simp: e [OF c(1,2)] e [OF c(3,4)])
  next
    case False
    then have "(j - 1) div 2 = j div 2" "j mod 2 = 1" "even (j - 1)" by presburger+
    then show ?thesis using False len unfolding mortonize2_def bit_or_iff bit_push_bit_iff by (auto simp: e [OF c(1,2)] e [OF c(3,4)])
  qed
qed

lemma bit_mortonize3:
  assumes S: "spreading (expand3 :: 'm::len word \<Rightarrow> 'm word) 3 k" "k \<le> 32"
    and c: "0 \<le> x" "x < 2 ^ k" "0 \<le> y" "y < 2 ^ k" "0 \<le> z" "z < 2 ^ k"
  shows "bit (mortonize3 x y z :: 'm word) j \<longleftrightarrow> bit ([x, y, z] ! (j mod 3)) (j div 3)"
proof -
  have k: "k \<le> LENGTH('m)" using spreading.fits [OF S(1)] by simp
  have e: "bit (expand3 (word_of_int c AND GetB3 5 :: 'm word)) n \<longleftrightarrow> n mod 3 = 0 \<and> bit c (n div 3)" if "0 \<le> c" "c < 2 ^ k" for c n
  proof -
    have m: "bit (word_of_int c AND GetB3 5 :: 'm word) i \<longleftrightarrow> bit c i" for i
      using bit_small_int [OF that, of i] k S(2) by (auto simp: bit_and_iff bit_word_of_int_iff bit_GetB3_5)
    show ?thesis by (subst spreading.bit_spread [OF S(1)]) (auto simp: m bit_small_int [OF that] dvd_eq_mod_eq_0)
  qed
  have len: "j < LENGTH('m)" if "bit c (j div 3)" "0 \<le> c" "c < 2 ^ k" for c :: int
    using bit_small_int [OF that(2,3,1)] spreading.fits [OF S(1)] by linarith
  have b: "bit (mortonize3 x y z :: 'm word) j \<longleftrightarrow> j mod 3 = 0 \<and> bit x (j div 3) \<or>
      1 \<le> j \<and> j < LENGTH('m) \<and> (j - 1) mod 3 = 0 \<and> bit y ((j - 1) div 3) \<or>
      2 \<le> j \<and> j < LENGTH('m) \<and> (j - 2) mod 3 = 0 \<and> bit z ((j - 2) div 3)"
    unfolding mortonize3_def bit_or_iff bit_push_bit_iff e [OF c(1,2)] e [OF c(3,4)] e [OF c(5,6)] by auto
  consider "j mod 3 = 0" | "j mod 3 = 1" | "j mod 3 = 2" by linarith
  then show ?thesis
  proof cases
    case 1
    then have "1 \<le> j \<Longrightarrow> (j - 1) mod 3 \<noteq> 0" "2 \<le> j \<Longrightarrow> (j - 2) mod 3 \<noteq> 0" by presburger+
    with 1 show ?thesis unfolding b by auto
  next
    case 2
    then have "(j - 1) mod 3 = 0" "(j - 1) div 3 = j div 3" "2 \<le> j \<Longrightarrow> (j - 2) mod 3 \<noteq> 0" "1 \<le> j" by presburger+
    with 2 show ?thesis unfolding b using len [OF _ c(3,4)] by auto
  next
    case 3
    then have "(j - 1) mod 3 \<noteq> 0" "(j - 2) mod 3 = 0" "(j - 2) div 3 = j div 3" "2 \<le> j" by presburger+
    with 3 show ?thesis unfolding b using len [OF _ c(5,6)] by auto
  qed
qed

text \<open>A number whose bits are those of the coordinates in turn.\<close>

definition interleaves :: "nat \<Rightarrow> int list \<Rightarrow> bool" where
  "interleaves m pt \<longleftrightarrow> (\<forall>j. bit m j \<longleftrightarrow> bit (pt ! (j mod length pt)) (j div length pt))"

definition morton_dims :: "nat \<Rightarrow> nat \<Rightarrow> bool" where
  "morton_dims w dim \<longleftrightarrow> w \<in> {16, 32, 64} \<and> dim \<in> {2, 3}"

lemma length_two_three: "length pt = 2 \<Longrightarrow> \<exists>x y. pt = [x, y]" "length pt = 3 \<Longrightarrow> \<exists>x y z. pt = [x, y, z]"
  by (auto simp: eval_nat_numeral length_Suc_conv)

lemma bit_unat_word: "bit (unat m) j \<longleftrightarrow> bit (m :: 'm::len word) j"
  by (auto simp: bit_unsigned_iff dest: bit_imp_le_length)

lemma bit_uint_word: "bit (uint m) j \<longleftrightarrow> bit (m :: 'm::len word) j"
  by (auto simp: bit_unsigned_iff dest: bit_imp_le_length)

lemma mortonize_widths:
  "mortonize 16 pt = mortonize_at TYPE(16) pt" "mortonize 32 pt = mortonize_at TYPE(32) pt" "mortonize 64 pt = mortonize_at TYPE(64) pt"
  by (simp_all add: mortonize_def)

lemma mortonize_interleaves:
  assumes "morton_dims w (length pt)" and "\<And>c. c \<in> set pt \<Longrightarrow> 0 \<le> c \<and> c < 2 ^ (w div length pt)"
  shows "interleaves (mortonize w pt) pt"
proof -
  consider x y where "pt = [x, y]" | x y z where "pt = [x, y, z]"
    using assms(1) length_two_three [of pt] by (auto simp: morton_dims_def)
  then show ?thesis
  proof cases
    case 1
    have l: "length pt = 2" by (simp add: 1)
    have w: "w = 16 \<or> w = 32 \<or> w = 64" using assms(1) by (simp add: morton_dims_def)
    have c: "0 \<le> x" "x < 2 ^ (w div 2)" "0 \<le> y" "y < 2 ^ (w div 2)" using assms(2) [unfolded l] by (auto simp: 1)
    note M = bit_mortonize2 [OF s2_16.spreading_axioms, of x y] bit_mortonize2 [OF s2_32.spreading_axioms, of x y]
      bit_mortonize2 [OF s2_64.spreading_axioms, of x y]
    from w show ?thesis unfolding interleaves_def l
    proof (elim disjE)
      assume w: "w = 16"
      then have k: "w div 2 = 8" by simp
      show "\<forall>j. bit (mortonize w pt) j \<longleftrightarrow> bit (pt ! (j mod 2)) (j div 2)"
        unfolding w mortonize_widths mortonize_at_def 1 list.case bit_unat_word by (intro allI M(1)) (use c in \<open>simp_all only: k\<close>)
    next
      assume w: "w = 32"
      then have k: "w div 2 = 16" by simp
      show "\<forall>j. bit (mortonize w pt) j \<longleftrightarrow> bit (pt ! (j mod 2)) (j div 2)"
        unfolding w mortonize_widths mortonize_at_def 1 list.case bit_unat_word by (intro allI M(2)) (use c in \<open>simp_all only: k\<close>)
    next
      assume w: "w = 64"
      then have k: "w div 2 = 32" by simp
      show "\<forall>j. bit (mortonize w pt) j \<longleftrightarrow> bit (pt ! (j mod 2)) (j div 2)"
        unfolding w mortonize_widths mortonize_at_def 1 list.case bit_unat_word by (intro allI M(3)) (use c in \<open>simp_all only: k\<close>)
    qed
  next
    case 2
    have l: "length pt = 3" by (simp add: 2)
    have w: "w = 16 \<or> w = 32 \<or> w = 64" using assms(1) by (simp add: morton_dims_def)
    have c: "0 \<le> x" "x < 2 ^ (w div 3)" "0 \<le> y" "y < 2 ^ (w div 3)" "0 \<le> z" "z < 2 ^ (w div 3)"
      using assms(2) [unfolded l] by (auto simp: 2)
    have leq32: "5 \<le> (32::nat)" "10 \<le> (32::nat)" "21 \<le> (32::nat)" by simp_all
    note M = bit_mortonize3 [OF s3_16.spreading_axioms leq32(1), of x y z] bit_mortonize3 [OF s3_32.spreading_axioms leq32(2), of x y z]
      bit_mortonize3 [OF s3_64.spreading_axioms leq32(3), of x y z]
    from w show ?thesis unfolding interleaves_def l
    proof (elim disjE)
      assume w: "w = 16"
      then have k: "w div 3 = 5" by simp
      show "\<forall>j. bit (mortonize w pt) j \<longleftrightarrow> bit (pt ! (j mod 3)) (j div 3)"
        unfolding w mortonize_widths mortonize_at_def 2 list.case bit_unat_word by (intro allI M(1)) (use c in \<open>simp_all only: k\<close>)
    next
      assume w: "w = 32"
      then have k: "w div 3 = 10" by simp
      show "\<forall>j. bit (mortonize w pt) j \<longleftrightarrow> bit (pt ! (j mod 3)) (j div 3)"
        unfolding w mortonize_widths mortonize_at_def 2 list.case bit_unat_word by (intro allI M(2)) (use c in \<open>simp_all only: k\<close>)
    next
      assume w: "w = 64"
      then have k: "w div 3 = 21" by simp
      show "\<forall>j. bit (mortonize w pt) j \<longleftrightarrow> bit (pt ! (j mod 3)) (j div 3)"
        unfolding w mortonize_widths mortonize_at_def 2 list.case bit_unat_word by (intro allI M(3)) (use c in \<open>simp_all only: k\<close>)
    qed
  qed
qed

text \<open>What interleaving means for the number: uniqueness, bounds, parents and children.\<close>

lemma interleaves_bit:
  assumes "interleaves m pt" and "i < length pt"
  shows "bit m (length pt * n + i) \<longleftrightarrow> bit (pt ! i) n"
proof -
  have "0 < length pt" using assms(2) by linarith
  then have "(length pt * n + i) div length pt = n" "(length pt * n + i) mod length pt = i" using assms(2) by simp_all
  then show ?thesis using assms(1) by (simp only: interleaves_def)
qed

lemma interleaves_unique: "interleaves m pt \<Longrightarrow> interleaves m' pt \<Longrightarrow> m = m'"
  by (rule bit_eqI) (simp add: interleaves_def)

lemma interleaves_inject:
  assumes "interleaves m pt" and "interleaves m pt'" and "length pt = length pt'"
  shows "pt = pt'"
proof (rule nth_equalityI [OF assms(3)])
  fix i
  assume "i < length pt"
  then show "pt ! i = pt' ! i"
    using interleaves_bit [OF assms(1), of i] interleaves_bit [OF assms(2), of i] assms(3) by (intro bit_eqI) simp
qed

lemma interleaves_less:
  assumes "interleaves m pt" and "pt \<noteq> []" and "\<And>c. c \<in> set pt \<Longrightarrow> 0 \<le> c \<and> c < 2 ^ k"
  shows "m < 2 ^ (length pt * k)"
proof -
  have "j < length pt * k" if "bit m j" for j
  proof -
    have "j mod length pt < length pt" using assms(2) by simp
    then have "j div length pt < k" using that assms(1,3) bit_small_int unfolding interleaves_def by (metis nth_mem)
    then show ?thesis using assms(2) by (simp add: div_less_iff_less_mult mult.commute)
  qed
  then have "take_bit (length pt * k) m = m" by (intro bit_eqI) (auto simp: bit_take_bit_iff)
  then show ?thesis by (metis take_bit_nat_less_exp)
qed

lemma interleaves_parent:
  assumes "interleaves m pt" and "pt \<noteq> []"
  shows "interleaves (m div 2 ^ length pt) (map (\<lambda>c. c div 2) pt)"
proof -
  have "bit (m div 2 ^ length pt) j \<longleftrightarrow> bit (map (\<lambda>c. c div 2) pt ! (j mod length pt)) (j div length pt)" for j
  proof -
    have "bit (m div 2 ^ length pt) j \<longleftrightarrow> bit m (length pt + j)" by (simp add: bit_drop_bit_eq flip: drop_bit_eq_div)
    moreover have "(length pt + j) div length pt = Suc (j div length pt)" "(length pt + j) mod length pt = j mod length pt" "j mod length pt < length pt"
      using assms(2) by (simp_all add: div_add_self1)
    ultimately show ?thesis using assms(1) by (simp add: interleaves_def bit_Suc)
  qed
  then show ?thesis by (simp add: interleaves_def)
qed

text \<open>The position of a block among its siblings: the lowest bit of each coordinate.\<close>

definition low_bits :: "int list \<Rightarrow> nat" where
  "low_bits pt = horner_sum (\<lambda>c. nat (c mod 2)) 2 pt"

lemma bit_low_bits: "bit (low_bits pt) j \<longleftrightarrow> j < length pt \<and> odd (pt ! j)"
proof (induction pt arbitrary: j)
  case (Cons c pt)
  have "low_bits (c # pt) = of_bool (odd c) + 2 * low_bits pt" by (simp add: low_bits_def mod_2_eq_odd)
  then show ?case using Cons by (cases j) (auto simp: bit_0 bit_Suc)
qed (simp add: low_bits_def)

lemma interleaves_offset:
  assumes "interleaves m pt"
  shows "m mod 2 ^ length pt = low_bits pt"
proof -
  have "bit m j \<longleftrightarrow> odd (pt ! j)" if "j < length pt" for j using interleaves_bit [OF assms that, of 0] by (simp add: bit_0)
  then have "take_bit (length pt) m = low_bits pt" by (intro bit_eqI) (auto simp: bit_take_bit_iff bit_low_bits)
  then show ?thesis by (simp add: take_bit_eq_mod)
qed

lemma low_bits_less: "low_bits pt < 2 ^ length pt"
proof -
  have "take_bit (length pt) (low_bits pt) = low_bits pt" by (intro bit_eqI) (auto simp: bit_take_bit_iff bit_low_bits)
  then show ?thesis by (metis take_bit_nat_less_exp)
qed

lemma bit_of_nat_word: "m < 2 ^ LENGTH('m) \<Longrightarrow> bit (of_nat m :: 'm::len word) j \<longleftrightarrow> bit m j"
  by (metis bit_unat_word mod_less unat_of_nat)

lemma bit_demortonize2:
  assumes G: "gathering (contract2 :: 'm::len word \<Rightarrow> 'm word) 2 (GetB2 0)" and m: "m < 2 ^ LENGTH('m)"
  shows "bit (demortonize2 (of_nat m :: 'm word) ! 0) n \<longleftrightarrow> bit m (2 * n + 0)" "bit (demortonize2 (of_nat m :: 'm word) ! 1) n \<longleftrightarrow> bit m (2 * n + 1)"
  using gathering.bit_gather [OF G, of 0 "of_nat m" n] gathering.bit_gather [OF G, of 1 "of_nat m" n]
  by (simp_all only: demortonize2_def nth_Cons_0 One_nat_def nth_Cons_Suc bit_uint_word bit_of_nat_word [OF m] drop_bit_0 id_apply)

lemma bit_demortonize3:
  assumes G: "gathering (contract3 :: 'm::len word \<Rightarrow> 'm word) 3 (GetB3 0)" and m: "m < 2 ^ LENGTH('m)"
  shows "bit (demortonize3 (of_nat m :: 'm word) ! 0) n \<longleftrightarrow> bit m (3 * n + 0)" "bit (demortonize3 (of_nat m :: 'm word) ! 1) n \<longleftrightarrow> bit m (3 * n + 1)"
    "bit (demortonize3 (of_nat m :: 'm word) ! 2) n \<longleftrightarrow> bit m (3 * n + 2)"
  using gathering.bit_gather [OF G, of 0 "of_nat m" n] gathering.bit_gather [OF G, of 1 "of_nat m" n] gathering.bit_gather [OF G, of 2 "of_nat m" n]
  by (simp_all only: demortonize3_def nth_Cons_0 One_nat_def numeral_2_eq_2 nth_Cons_Suc bit_uint_word bit_of_nat_word [OF m] drop_bit_0 id_apply)

lemmas demortonized = bit_demortonize2 [OF g2_16.gathering_axioms] bit_demortonize2 [OF g2_32.gathering_axioms] bit_demortonize2 [OF g2_64.gathering_axioms]
  bit_demortonize3 [OF g3_16.gathering_axioms] bit_demortonize3 [OF g3_32.gathering_axioms] bit_demortonize3 [OF g3_64.gathering_axioms]

lemma bit_demortonize:
  assumes "morton_dims w dim" and "m < 2 ^ w"
  shows "length (demortonize w dim m) = dim" and "i < dim \<Longrightarrow> bit (demortonize w dim m ! i) n \<longleftrightarrow> bit m (dim * n + i)"
    and "c \<in> set (demortonize w dim m) \<Longrightarrow> 0 \<le> c"
proof -
  have w: "w = 16 \<or> w = 32 \<or> w = 64" and d: "dim = 2 \<or> dim = 3" using assms(1) by (auto simp: morton_dims_def)
  show "length (demortonize w dim m) = dim" using w d by (auto simp: demortonize_def demortonize_at_def demortonize2_def demortonize3_def)
  show "0 \<le> c" if "c \<in> set (demortonize w dim m)"
    using that w d by (auto simp: demortonize_def demortonize_at_def demortonize2_def demortonize3_def split: if_splits)
  show "bit (demortonize w dim m ! i) n \<longleftrightarrow> bit m (dim * n + i)" if "i < dim"
  proof -
    have i: "i = 0 \<or> i = 1 \<or> i = 2 \<and> dim = 3" using that d by auto
    show ?thesis
      using w d i assms(2) unfolding demortonize_def demortonize_at_def
      by (elim disjE conjE) (simp_all add: demortonized [of m] del: One_nat_def)
  qed
qed

lemma demortonize_interleaves:
  assumes "morton_dims w dim" and "m < 2 ^ w"
  shows "interleaves m (demortonize w dim m)"
proof -
  have "0 < dim" using assms(1) by (auto simp: morton_dims_def)
  then have "bit (demortonize w dim m ! (j mod dim)) (j div dim) \<longleftrightarrow> bit m j" for j
    using bit_demortonize(2) [OF assms, of "j mod dim" "j div dim"] by simp
  then show ?thesis using bit_demortonize(1) [OF assms] by (simp add: interleaves_def)
qed

lemma demortonize_bound:
  assumes "morton_dims w dim" and "m < 2 ^ (dim * (w div dim))" and "c \<in> set (demortonize w dim m)"
  shows "0 \<le> c \<and> c < 2 ^ (w div dim)"
proof -
  have "(2::nat) ^ (dim * (w div dim)) \<le> 2 ^ w" by (intro power_increasing) simp_all
  then have m: "m < 2 ^ w" using assms(2) by (rule less_le_trans [rotated])
  obtain i where i: "i < dim" "c = demortonize w dim m ! i" using assms(3) bit_demortonize(1) [OF assms(1) m] by (auto simp: in_set_conv_nth)
  have "take_bit (dim * (w div dim)) m = m" using assms(2) by (simp add: take_bit_nat_eq_self)
  then have "\<not> bit m (dim * n + i)" if "w div dim \<le> n" for n
    using that by (metis bit_take_bit_iff mult_le_mono2 not_le trans_le_add1)
  then have "take_bit (w div dim) c = c"
    using bit_demortonize(2) [OF assms(1) m i(1)] i(2) by (intro bit_eqI) (use not_le in \<open>auto simp: bit_take_bit_iff\<close>)
  then show ?thesis by (metis take_bit_int_less_exp take_bit_nonnegative)
qed

text \<open>
  C30. At every width of the index type and in two and three dimensions, \<^verbatim>\<open>mortonize\<close> interleaves the bits of coordinates that fit, and
  it is a bijection between those points and the indices below the corresponding power of two, with the inverse \<^verbatim>\<open>demortonize\<close>.
\<close>

theorem morton_widths_roundtrip:
  assumes "w \<in> {16, 32, 64}" and "dim \<in> {2, 3}"
  shows "(length pt = dim \<and> list_all (\<lambda>c. 0 \<le> c \<and> c < 2 ^ (w div dim)) pt \<longrightarrow>
      demortonize w dim (mortonize w pt) = pt \<and> mortonize w pt < 2 ^ (dim * (w div dim)) \<and>
      (\<forall>i < dim. \<forall>n. bit (mortonize w pt) (dim * n + i) \<longleftrightarrow> bit (pt ! i) n)) \<and>
    (m < 2 ^ (dim * (w div dim)) \<longrightarrow> mortonize w (demortonize w dim m) = m)"
proof -
  have d: "morton_dims w dim" using assms by (simp add: morton_dims_def)
  have le: "(2::nat) ^ (dim * (w div dim)) \<le> 2 ^ w" by (intro power_increasing) simp_all
  have "demortonize w dim (mortonize w pt) = pt \<and> mortonize w pt < 2 ^ (dim * (w div dim)) \<and>
      (\<forall>i < dim. \<forall>n. bit (mortonize w pt) (dim * n + i) \<longleftrightarrow> bit (pt ! i) n)"
    if pt: "length pt = dim" "list_all (\<lambda>c. 0 \<le> c \<and> c < 2 ^ (w div dim)) pt"
  proof -
    have ne: "pt \<noteq> []" using assms(2) pt(1) by auto
    have I: "interleaves (mortonize w pt) pt" using mortonize_interleaves [of w pt] d pt by (auto simp: list_all_iff)
    have less: "mortonize w pt < 2 ^ (dim * (w div dim))" using interleaves_less [OF I ne] pt by (auto simp: list_all_iff)
    then have w: "mortonize w pt < 2 ^ w" using le by (rule less_le_trans)
    have "demortonize w dim (mortonize w pt) = pt"
      using interleaves_inject [OF demortonize_interleaves [OF d w] I] bit_demortonize(1) [OF d w] pt(1) by simp
    then show ?thesis using less interleaves_bit [OF I] pt(1) by (auto simp: mult.commute)
  qed
  moreover have "mortonize w (demortonize w dim m) = m" if m: "m < 2 ^ (dim * (w div dim))"
  proof -
    have w: "m < 2 ^ w" using m le by (rule less_le_trans)
    have "interleaves (mortonize w (demortonize w dim m)) (demortonize w dim m)"
      using mortonize_interleaves [of w "demortonize w dim m"] demortonize_bound [OF d m] bit_demortonize(1) [OF d w] d by auto
    then show ?thesis using interleaves_unique demortonize_interleaves [OF d w] by blast
  qed
  ultimately show ?thesis by blast
qed

theorem morton_widths_roundtrip_witness: "demortonize 16 3 (mortonize 16 [31, 0, 7]) = [31, 0, 7] \<and> mortonize 32 (demortonize 32 3 12345) = 12345"
  using morton_widths_roundtrip [of 16 3 "[31, 0, 7]" 0] morton_widths_roundtrip [of 32 3 "[]" 12345] by simp

end
