(* ===== verification/OctreeLevel.thy ===== *)
theory OctreeLevel
  imports MortonWidths "HOL-Library.AList"
begin

text \<open>
  The levels of an octree: \<^verbatim>\<open>BlockData\<close> of \<^verbatim>\<open>spin/OctreeBase.hpp\<close>, \<^verbatim>\<open>spin/Brood.hpp\<close>, and the two implementations \<^verbatim>\<open>DenseOctreeLevel\<close> and
  \<^verbatim>\<open>SparseOctreeLevel\<close> of the interface \<^verbatim>\<open>spin/OctreeLevel.hpp\<close>. A level holds broods, the data of all siblings below
  one block of the level above. The dense level has an array of all broods in Morton order, the sparse ones a hash map whose keys are Morton
  indices of 16, 32 or 64 bits or grid points. A failed assertion and an access outside an array are the value \<open>None\<close>.
\<close>

unbundle bit_operations_syntax

section \<open>Block data\<close>

type_synonym GridPt = "int list"

type_synonym BlockData = int

type_synonym BroodData = "BlockData list"

definition NON_BLOCK :: BlockData where "NON_BLOCK = NOT 0"

definition bd_isLeaf :: "BlockData \<Rightarrow> bool" where "bd_isLeaf d \<longleftrightarrow> d \<ge> 0"

definition bd_isBlock :: "BlockData \<Rightarrow> bool" where "bd_isBlock d \<longleftrightarrow> d \<noteq> NON_BLOCK"

definition bd_getID :: "BlockData \<Rightarrow> int" where "bd_getID d = (if bd_isLeaf d then d else NOT d)"

definition bd_setInternal :: "BlockData \<Rightarrow> BlockData" where "bd_setInternal d = (if bd_isLeaf d then NOT d else d)"

text \<open>
  \<^verbatim>\<open>BroodData()\<close>: the constructor of \<^verbatim>\<open>NumericArray\<close> fills the array with one default-constructed value, after its elements were
  default-constructed too. \<open>gen\<close> is the static counter \<^verbatim>\<open>idGenerator\<close>.
\<close>

definition new_brood :: "nat \<Rightarrow> int \<Rightarrow> BroodData \<times> int" where
  "new_brood dim gen = (replicate (2 ^ dim) gen, gen + 1 + 2 ^ dim)"

section \<open>Broods\<close>

text \<open>The type of the representation of a point: an unsigned Morton index of some width, or the point itself.\<close>

datatype rep = Morton nat | Points

datatype key = Index nat | Pt GridPt

definition half :: "int \<Rightarrow> int" where
  "half c = (if c < 0 then - ((- c) div 2) else c div 2)"

definition point_offset :: "GridPt \<Rightarrow> int" where
  "point_offset pt = fold (\<lambda>i off. off OR push_bit i (pt ! i AND 1)) [0..<length pt] 0"

fun Brood :: "nat \<Rightarrow> rep \<Rightarrow> GridPt \<Rightarrow> key \<times> nat" where
  "Brood dim (Morton w) pt = (let m = mortonize w pt in (Index (drop_bit dim m), m AND (2 ^ dim - 1)))"
| "Brood dim Points pt = (Pt (map half pt), nat (point_offset pt))"

fun reconstructGridPt :: "nat \<Rightarrow> rep \<Rightarrow> key \<Rightarrow> nat \<Rightarrow> GridPt" where
  "reconstructGridPt dim (Morton w) (Index m) off = demortonize w dim ((push_bit dim m + off) mod 2 ^ w)"
| "reconstructGridPt dim rep (Pt pt) off =
     map (\<lambda>i. push_bit 1 (pt ! i) + (if off AND push_bit i 1 \<noteq> 0 then 1 else 0)) [0..<length pt]"
| "reconstructGridPt dim Points (Index m) off = []"

fun convertPoint :: "rep \<Rightarrow> GridPt \<Rightarrow> key" where
  "convertPoint (Morton w) pt = Index (mortonize w pt)"
| "convertPoint Points pt = Pt pt"

section \<open>Levels\<close>

datatype TreeBlockStatus = BlockNotInTree | LeafBlock | InternalBlock

text \<open>
  A dense level with its array and block count, a sparse level with its map. The map is the list of its pairs in
  iteration order, which is unspecified; new pairs are put at the end.
\<close>

datatype OctreeLevel =
    Dense nat "BroodData list" int
  | Sparse nat rep "(key \<times> BroodData) list"

fun level :: "OctreeLevel \<Rightarrow> nat" where
  "level (Dense lev data n) = lev"
| "level (Sparse lev rep m) = lev"

definition maxCoord :: "nat \<Rightarrow> int" where
  "maxCoord lev = push_bit lev 1 - 1"

definition level_inBounds :: "nat \<Rightarrow> GridPt \<Rightarrow> bool" where
  "level_inBounds lev pt = list_all (\<lambda>c. \<not> (c < 0 \<or> c > maxCoord lev)) pt"

definition DenseOctreeLevel :: "nat \<Rightarrow> nat \<Rightarrow> int \<Rightarrow> OctreeLevel \<times> int" where
  "DenseOctreeLevel dim lev gen =
     (let rowsize = (if lev > 0 then 2 ^ (lev - 1) else 1); broodCapacity = rowsize ^ dim
      in (Dense lev (replicate broodCapacity (replicate (2 ^ dim) NON_BLOCK)) 0, gen + int broodCapacity * (1 + 2 ^ dim)))"

definition SparseOctreeLevel :: "rep \<Rightarrow> nat \<Rightarrow> OctreeLevel" where
  "SparseOctreeLevel rep lev = Sparse lev rep []"

definition dense_at :: "nat \<Rightarrow> BroodData list \<Rightarrow> GridPt \<Rightarrow> BlockData option" where
  "dense_at dim data pt =
     (case Brood dim (Morton 16) pt of
        (Index i, off) \<Rightarrow> if i < length data then Some (data ! i ! off) else None
      | (Pt p, off) \<Rightarrow> None)"

fun level_hasBlock :: "nat \<Rightarrow> OctreeLevel \<Rightarrow> GridPt \<Rightarrow> bool option" where
  "level_hasBlock dim (Dense lev data n) pt = map_option bd_isBlock (dense_at dim data pt)"
| "level_hasBlock dim (Sparse lev rep m) pt = Some (map_of m (fst (Brood dim rep pt)) \<noteq> None)"

fun level_blockStatus :: "nat \<Rightarrow> OctreeLevel \<Rightarrow> GridPt \<Rightarrow> TreeBlockStatus option" where
  "level_blockStatus dim (Dense lev data n) pt =
     (if \<not> level_inBounds lev pt then Some BlockNotInTree
      else map_option (\<lambda>d. if bd_isBlock d then if bd_isLeaf d then LeafBlock else InternalBlock else BlockNotInTree) (dense_at dim data pt))"
| "level_blockStatus dim (Sparse lev rep m) pt =
     (case Brood dim rep pt of (k, off) \<Rightarrow>
        (case map_of m k of
           None \<Rightarrow> Some BlockNotInTree
         | Some bd \<Rightarrow> Some (if bd_isLeaf (bd ! off) then LeafBlock else InternalBlock)))"

definition level_isLeaf :: "nat \<Rightarrow> OctreeLevel \<Rightarrow> GridPt \<Rightarrow> bool option" where
  "level_isLeaf dim l pt = map_option (\<lambda>s. s = LeafBlock) (level_blockStatus dim l pt)"

definition level_isInternal :: "nat \<Rightarrow> OctreeLevel \<Rightarrow> GridPt \<Rightarrow> bool option" where
  "level_isInternal dim l pt = map_option (\<lambda>s. s = InternalBlock) (level_blockStatus dim l pt)"

text \<open>The root is alone in its brood.\<close>

definition only_first :: "BroodData \<Rightarrow> BroodData" where
  "only_first bd = map (\<lambda>j. if j = 0 then bd ! j else NON_BLOCK) [0..<length bd]"

fun addAllChildren :: "nat \<Rightarrow> GridPt \<Rightarrow> OctreeLevel \<times> int \<Rightarrow> (OctreeLevel \<times> int) option" where
  "addAllChildren dim pt (Dense lev data n, gen) =
     (if \<not> level_inBounds lev pt then None
      else let i = mortonize 16 pt; (bd, gen) = new_brood dim gen in
        if i \<ge> length data then None
        else if lev = 0 then Some (Dense lev ((data[i := bd])[0 := only_first (data[i := bd] ! 0)]) (n + 1), gen)
        else Some (Dense lev (data[i := bd]) (n + 2 ^ dim), gen))"
| "addAllChildren dim pt (Sparse lev rep m, gen) =
     (if \<not> level_inBounds lev pt then None
      else let k = convertPoint rep pt;
               (bd, gen) = (case map_of m k of Some bd \<Rightarrow> (bd, gen) | None \<Rightarrow> new_brood dim gen)
           in Some (Sparse lev rep (AList.update k (if lev = 0 then only_first bd else bd) m), gen))"

text \<open>The non-constant \<^verbatim>\<open>operator[]\<close>, with what is done to the data; a sparse level makes a new brood for a block it does not have.\<close>

fun level_modify :: "nat \<Rightarrow> GridPt \<Rightarrow> (BlockData \<Rightarrow> BlockData) \<Rightarrow> OctreeLevel \<times> int \<Rightarrow> (OctreeLevel \<times> int) option" where
  "level_modify dim pt f (Dense lev data n, gen) =
     (case Brood dim (Morton 16) pt of
        (Index i, off) \<Rightarrow> if i < length data then Some (Dense lev (data[i := (data ! i)[off := f (data ! i ! off)]]) n, gen) else None
      | (Pt p, off) \<Rightarrow> None)"
| "level_modify dim pt f (Sparse lev rep m, gen) =
     (case Brood dim rep pt of (k, off) \<Rightarrow>
        (case (case map_of m k of Some bd \<Rightarrow> (bd, gen) | None \<Rightarrow> new_brood dim gen) of
           (bd, gen) \<Rightarrow> Some (Sparse lev rep (AList.update k (bd[off := f (bd ! off)]) m), gen)))"

text \<open>The constant \<^verbatim>\<open>operator[]\<close>.\<close>

fun level_at :: "nat \<Rightarrow> OctreeLevel \<Rightarrow> GridPt \<Rightarrow> BlockData option" where
  "level_at dim (Dense lev data n) pt =
     Option.bind (dense_at dim data pt) (\<lambda>d. if bd_isBlock d then Some d else None)"
| "level_at dim (Sparse lev rep m) pt = (case Brood dim rep pt of (k, off) \<Rightarrow> map_option (\<lambda>bd. bd ! off) (map_of m k))"

text \<open>The brood that is stored for a parent point, and the constant \<^verbatim>\<open>getBroodData\<close>, which on a sparse level asserts \<^verbatim>\<open>hasBlock\<close> of the parent point.\<close>

fun brood_data :: "OctreeLevel \<Rightarrow> GridPt \<Rightarrow> BroodData option" where
  "brood_data (Dense lev data n) pt = (let i = mortonize 16 pt in if i < length data then Some (data ! i) else None)"
| "brood_data (Sparse lev rep m) pt = map_of m (convertPoint rep pt)"

fun getBroodData :: "nat \<Rightarrow> OctreeLevel \<Rightarrow> GridPt \<Rightarrow> BroodData option" where
  "getBroodData dim (Dense lev data n) pt = brood_data (Dense lev data n) pt"
| "getBroodData dim (Sparse lev rep m) pt =
     (if level_hasBlock dim (Sparse lev rep m) pt \<noteq> Some True then None else brood_data (Sparse lev rep m) pt)"

fun level_empty :: "OctreeLevel \<Rightarrow> bool" where
  "level_empty (Dense lev data n) = (n = 0)"
| "level_empty (Sparse lev rep m) = (m = [])"

fun numBlocks :: "nat \<Rightarrow> OctreeLevel \<Rightarrow> int" where
  "numBlocks dim (Dense lev data n) = n"
| "numBlocks dim (Sparse lev rep m) = (if m = [] then 0 else if lev = 0 then 1 else int (length m) * 2 ^ dim)"

fun level_broods :: "OctreeLevel \<Rightarrow> BroodData list" where
  "level_broods (Dense lev data n) = data"
| "level_broods (Sparse lev rep m) = map snd m"

definition numLeafBlocks :: "OctreeLevel \<Rightarrow> int" where
  "numLeafBlocks l = (if level_empty l then 0 else int (length (filter bd_isLeaf (concat (level_broods l)))))"

definition numInternalBlocks :: "nat \<Rightarrow> OctreeLevel \<Rightarrow> int" where
  "numInternalBlocks dim l = numBlocks dim l - numLeafBlocks l"

section \<open>Iterators\<close>

text \<open>A brood and a position in it. The iterator of a dense level skips what is not a block.\<close>

type_synonym block_iter = "nat \<times> nat"

fun it_step :: "nat \<Rightarrow> OctreeLevel \<Rightarrow> block_iter \<Rightarrow> block_iter" where
  "it_step dim l (idx, off) = (if Suc off = 2 ^ dim \<or> level l = 0 then (Suc idx, 0) else (idx, Suc off))"

fun it_skips :: "OctreeLevel \<Rightarrow> block_iter \<Rightarrow> bool" where
  "it_skips (Dense lev data n) (idx, off) \<longleftrightarrow> idx < length data \<and> \<not> bd_isBlock (data ! idx ! off)"
| "it_skips (Sparse lev rep m) it \<longleftrightarrow> False"

fun it_increment :: "nat \<Rightarrow> nat \<Rightarrow> OctreeLevel \<Rightarrow> block_iter \<Rightarrow> block_iter option" where
  "it_increment 0 dim l it = None"
| "it_increment (Suc fuel) dim l it = (let it = it_step dim l it in if it_skips l it then it_increment fuel dim l it else Some it)"

definition it_begin :: "nat \<Rightarrow> nat \<Rightarrow> OctreeLevel \<Rightarrow> block_iter option" where
  "it_begin fuel dim l = (if it_skips l (0, 0) then it_increment fuel dim l (0, 0) else Some (0, 0))"

definition it_end :: "OctreeLevel \<Rightarrow> block_iter" where
  "it_end l = (length (level_broods l), 0)"

fun it_pt :: "nat \<Rightarrow> OctreeLevel \<Rightarrow> block_iter \<Rightarrow> GridPt" where
  "it_pt dim (Dense lev data n) (idx, off) = reconstructGridPt dim (Morton 16) (Index idx) off"
| "it_pt dim (Sparse lev rep m) (idx, off) = reconstructGridPt dim rep (fst (m ! idx)) off"

text \<open>\<^verbatim>\<open>for(it = begin(); it != end(); ++it)\<close>: the points that are visited.\<close>

fun visit :: "nat \<Rightarrow> nat \<Rightarrow> nat \<Rightarrow> OctreeLevel \<Rightarrow> block_iter \<Rightarrow> GridPt list option" where
  "visit 0 fuel dim l it = None"
| "visit (Suc n) fuel dim l it =
     (if it = it_end l then Some []
      else Option.bind (it_increment fuel dim l it) (\<lambda>it'. map_option ((#) (it_pt dim l it)) (visit n fuel dim l it')))"

section \<open>Points of a level\<close>

definition inb :: "nat \<Rightarrow> nat \<Rightarrow> GridPt \<Rightarrow> bool" where
  "inb dim lev pt \<longleftrightarrow> length pt = dim \<and> (\<forall>c \<in> set pt. 0 \<le> c \<and> c < 2 ^ lev)"

lemma inb_level_inBounds: "inb dim lev pt \<longleftrightarrow> length pt = dim \<and> level_inBounds lev pt"
  by (auto simp: inb_def level_inBounds_def list_all_iff maxCoord_def push_bit_eq_mult not_less)

lemma half_nonneg: "0 \<le> c \<Longrightarrow> half c = c div 2"
  by (simp add: half_def)

lemma map_half: "inb dim lev pt \<Longrightarrow> map half pt = map (\<lambda>c. c div 2) pt"
  by (auto simp: inb_def half_nonneg)

lemma inb_half: "inb dim lev pt \<Longrightarrow> inb dim (lev - 1) (map half pt)"
  by (cases lev) (auto simp: inb_def half_nonneg)

lemma inb_0: "inb dim 0 pt \<longleftrightarrow> pt = replicate dim 0"
proof
  assume "inb dim 0 pt"
  then have "length pt = dim" "c = 0" if "c \<in> set pt" for c using that by (force simp: inb_def)+
  then show "pt = replicate dim 0" using \<open>inb dim 0 pt\<close> by (metis inb_def replicate_length_same)
qed (simp add: inb_def)

text \<open>The child of a point at a position among the siblings, the inverse of taking the parent and the low bits.\<close>

definition child_pt :: "GridPt \<Rightarrow> nat \<Rightarrow> GridPt" where
  "child_pt q off = map (\<lambda>i. 2 * (q ! i) + of_bool (bit off i)) [0..<length q]"

lemma child_pt_inb: "inb dim (lev - 1) q \<Longrightarrow> 0 < lev \<Longrightarrow> inb dim lev (child_pt q off)"
proof -
  assume q: "inb dim (lev - 1) q" and "0 < lev"
  then have e: "(2::int) ^ lev = 2 * 2 ^ (lev - 1)" by (cases lev) simp_all
  have "0 \<le> q ! i \<and> q ! i < 2 ^ (lev - 1)" if "i < length q" for i using q nth_mem [OF that] by (auto simp: inb_def)
  then have "0 \<le> 2 * (q ! i) + of_bool (bit off i) \<and> 2 * (q ! i) + of_bool (bit off i) < (2::int) ^ lev" if "i < length q" for i
    using that unfolding e by (cases "bit off i") fastforce+
  then show ?thesis using q by (auto simp: inb_def child_pt_def)
qed

lemma child_pt_parent: "map (\<lambda>c. c div 2) (child_pt q off) = q"
  by (rule nth_equalityI) (auto simp: child_pt_def)

lemma low_bits_child_pt: "off < 2 ^ length q \<Longrightarrow> low_bits (child_pt q off) = off"
proof (rule bit_eqI)
  fix j
  assume "off < 2 ^ length q"
  then have "bit off j \<Longrightarrow> j < length q" by (metis bit_take_bit_iff take_bit_nat_eq_self)
  then show "bit (low_bits (child_pt q off)) j \<longleftrightarrow> bit off j" by (auto simp: bit_low_bits child_pt_def)
qed

lemma child_pt_low_bits: "child_pt (map (\<lambda>c. c div 2) pt) (low_bits pt) = pt"
  by (rule nth_equalityI) (auto simp: child_pt_def bit_low_bits)

lemma point_eqI: "map (\<lambda>c. c div 2) pt = map (\<lambda>c. c div 2) pt' \<Longrightarrow> low_bits pt = low_bits pt' \<Longrightarrow> pt = pt'"
  by (metis child_pt_low_bits)

lemma bit_shifted_low: "bit (push_bit n (c AND 1 :: int)) j \<longleftrightarrow> j = n \<and> odd c"
proof -
  have "push_bit n (c AND 1) = (if odd c then 2 ^ n else 0)" by (simp add: and_one_eq push_bit_eq_mult mod_2_eq_odd)
  then show ?thesis by (simp add: bit_exp_iff)
qed

lemma point_offset_low_bits: "point_offset pt = int (low_bits pt)"
proof -
  have "bit (fold (\<lambda>i off. off OR push_bit i (pt ! i AND 1)) [0..<n] 0) j \<longleftrightarrow> j < n \<and> odd (pt ! j)" for n j
  proof (induction n)
    case (Suc n)
    then show ?case unfolding upt_Suc_append [OF le0] fold_append comp_apply fold_simps bit_or_iff bit_shifted_low less_Suc_eq by blast
  qed simp
  moreover have "bit (int (low_bits pt)) j \<longleftrightarrow> bit (low_bits pt) j" for j by (rule bit_of_nat_iff_bit)
  ultimately show ?thesis unfolding point_offset_def by (intro bit_eqI) (simp add: bit_low_bits)
qed

text \<open>The representations are one-to-one on the points of a level that they fit.\<close>

definition rep_fits :: "nat \<Rightarrow> nat \<Rightarrow> rep \<Rightarrow> bool" where
  "rep_fits dim lev rep \<longleftrightarrow> (case rep of Morton w \<Rightarrow> morton_dims w dim \<and> dim * lev \<le> w | Points \<Rightarrow> True)"

lemma rep_fits_mono: "rep_fits dim lev rep \<Longrightarrow> lev' \<le> lev \<Longrightarrow> rep_fits dim lev' rep"
  by (auto simp: rep_fits_def intro: order.trans mult_le_mono2 split: rep.splits)

lemma rep_fits_interleaves:
  assumes "rep_fits dim lev (Morton w)" and "inb dim lev pt"
  shows "interleaves (mortonize w pt) pt" and "mortonize w pt < 2 ^ (dim * lev)" and "pt \<noteq> []"
proof -
  have d: "morton_dims w dim" "dim * lev \<le> w" "length pt = dim" "0 < dim" using assms by (auto simp: rep_fits_def inb_def morton_dims_def)
  then have "lev \<le> w div dim" by (metis div_le_mono nonzero_mult_div_cancel_left not_gr0)
  then have "(2::int) ^ lev \<le> 2 ^ (w div dim)" by simp
  then have "0 \<le> c \<and> c < 2 ^ (w div dim)" if "c \<in> set pt" for c using assms(2) that unfolding inb_def by (meson less_le_trans)
  then show i: "interleaves (mortonize w pt) pt" using d by (intro mortonize_interleaves) auto
  show ne: "pt \<noteq> []" using d by auto
  show "mortonize w pt < 2 ^ (dim * lev)"
    using interleaves_less [OF i ne, of lev] assms(2) d(3) by (auto simp: inb_def)
qed

lemma Brood_fits:
  assumes "rep_fits dim lev rep" and "inb dim lev pt"
  shows "Brood dim rep pt = (convertPoint rep (map half pt), low_bits pt)"
proof (cases rep)
  case (Morton w)
  note I = rep_fits_interleaves [OF assms [unfolded Morton]]
  have len: "length pt = dim" using assms(2) by (simp add: inb_def)
  have "interleaves (mortonize w (map half pt)) (map half pt)"
    using rep_fits_mono [OF assms(1), of "lev - 1"] inb_half [OF assms(2)] unfolding Morton by (intro rep_fits_interleaves(1)) auto
  then have "mortonize w pt div 2 ^ dim = mortonize w (map half pt)"
    using interleaves_parent [OF I(1,3)] interleaves_unique len map_half [OF assms(2)] by metis
  moreover have "mortonize w pt AND (2 ^ dim - 1) = low_bits pt"
    using interleaves_offset [OF I(1)] len by (simp add: take_bit_eq_mod [symmetric] take_bit_eq_mask mask_eq_exp_minus_1)
  ultimately show ?thesis by (simp add: Morton drop_bit_eq_div)
qed (simp add: point_offset_low_bits)

lemma convertPoint_inject:
  assumes "rep_fits dim lev rep" and "inb dim lev p" and "inb dim lev q"
  shows "convertPoint rep p = convertPoint rep q \<longleftrightarrow> p = q"
proof (cases rep)
  case (Morton w)
  note I = rep_fits_interleaves(1) [OF assms(1) [unfolded Morton] assms(2)] rep_fits_interleaves(1) [OF assms(1) [unfolded Morton] assms(3)]
  have "length p = length q" using assms(2,3) by (simp add: inb_def)
  with I show ?thesis using interleaves_inject [of "mortonize w p" p q] by (auto simp: Morton)
qed simp

lemma reconstruct_fits:
  assumes "rep_fits dim lev rep" and "inb dim (lev - 1) q" and c: "inb dim lev (child_pt q off)" and "off < 2 ^ dim"
  shows "reconstructGridPt dim rep (convertPoint rep q) off = child_pt q off"
proof (cases rep)
  case (Morton w)
  let ?c = "child_pt q off"
  have len: "length q = dim" using assms(2) by (simp add: inb_def)
  note I = rep_fits_interleaves [OF assms(1) [unfolded Morton] c]
  have "Brood dim (Morton w) ?c = (convertPoint (Morton w) q, off)"
    using Brood_fits [OF assms(1) [unfolded Morton] c] child_pt_parent [of q off] low_bits_child_pt [of off q] assms(4) map_half [OF c] len by simp
  then have "mortonize w ?c div 2 ^ dim = mortonize w q" "mortonize w ?c mod 2 ^ dim = off"
    by (auto simp: drop_bit_eq_div Let_def take_bit_eq_mod [symmetric] take_bit_eq_mask mask_eq_exp_minus_1)
  then have m: "push_bit dim (mortonize w q) + off = mortonize w ?c" by (metis div_mult_mod_eq push_bit_eq_mult)
  have w: "morton_dims w dim" "dim * lev \<le> w" using assms(1) by (auto simp: rep_fits_def Morton)
  then have less: "mortonize w ?c < 2 ^ w" using I(2) by (meson less_le_trans one_le_numeral power_increasing)
  have "interleaves (mortonize w ?c) (demortonize w dim (mortonize w ?c))" using demortonize_interleaves [OF w(1) less] .
  then have "demortonize w dim (mortonize w ?c) = ?c"
    using interleaves_inject [OF _ I(1)] bit_demortonize(1) [OF w(1) less] c by (simp add: inb_def)
  then show ?thesis using m less by (simp add: Morton)
next
  case Points
  have "(off AND push_bit i 1 \<noteq> 0) = bit off i" for i :: nat by (simp add: and_exp_eq_0_iff_not_bit push_bit_eq_mult)
  then show ?thesis by (simp add: Points child_pt_def)
qed

section \<open>The contract of a level\<close>

definition datum_status :: "BlockData \<Rightarrow> TreeBlockStatus" where
  "datum_status d = (if bd_isBlock d then if bd_isLeaf d then LeafBlock else InternalBlock else BlockNotInTree)"

lemma datum_status_simps:
  "datum_status d = BlockNotInTree \<longleftrightarrow> d = NON_BLOCK" "0 < d \<Longrightarrow> datum_status d = LeafBlock"
  "datum_status d = LeafBlock \<longleftrightarrow> 0 \<le> d" "d \<noteq> 0 \<Longrightarrow> datum_status d = LeafBlock \<Longrightarrow> datum_status (bd_setInternal d) = InternalBlock"
  by (auto simp: datum_status_def bd_isBlock_def bd_isLeaf_def NON_BLOCK_def bd_setInternal_def not_int_def)

text \<open>
  What the tree relies on. \<open>inb dim lev\<close> are the points of the level; their parents are points of the level above (of the same level for
  the root). \<open>modify\<close> stands for access to the data of a block.
\<close>

locale octree_level =
  fixes dim lev :: nat
    and ok :: "'l \<Rightarrow> bool"
    and status :: "'l \<Rightarrow> GridPt \<Rightarrow> TreeBlockStatus option"
    and has :: "'l \<Rightarrow> GridPt \<Rightarrow> bool option"
    and add :: "GridPt \<Rightarrow> 'l \<times> int \<Rightarrow> ('l \<times> int) option"
    and modify :: "GridPt \<Rightarrow> (BlockData \<Rightarrow> BlockData) \<Rightarrow> 'l \<times> int \<Rightarrow> ('l \<times> int) option"
  assumes status_total: "ok l \<Longrightarrow> inb dim lev pt \<Longrightarrow> \<exists>s. status l pt = Some s \<and> has l pt = Some (s \<noteq> BlockNotInTree)"
    and add_status: "\<lbrakk>ok l; inb dim (lev - 1) q; 0 < g; \<And>pt. inb dim lev pt \<Longrightarrow> map half pt = q \<Longrightarrow> status l pt = Some BlockNotInTree\<rbrakk> \<Longrightarrow>
      \<exists>l' g'. add q (l, g) = Some (l', g') \<and> ok l' \<and> g \<le> g' \<and>
        (\<forall>pt. inb dim lev pt \<longrightarrow> status l' pt = (if map half pt = q then Some LeafBlock else status l pt))"
    and internal_status: "\<lbrakk>ok l; inb dim lev pt; status l pt = Some LeafBlock\<rbrakk> \<Longrightarrow>
      \<exists>l'. modify pt bd_setInternal (l, g) = Some (l', g) \<and> ok l' \<and>
        (\<forall>p. inb dim lev p \<longrightarrow> status l' p = (if p = pt then Some InternalBlock else status l p))"
begin

lemma has_status: "ok l \<Longrightarrow> inb dim lev pt \<Longrightarrow> has l pt = Some (status l pt \<noteq> Some BlockNotInTree)"
  using status_total by fastforce

text \<open>New children are leaves, and become internal one at a time.\<close>

lemma add_then_internal:
  assumes "ok l" and "inb dim (lev - 1) q" and "0 < g" and "inb dim lev pt" and "map half pt = q"
    and "\<And>pt. inb dim lev pt \<Longrightarrow> map half pt = q \<Longrightarrow> status l pt = Some BlockNotInTree"
  shows "\<exists>l' l'' g'. add q (l, g) = Some (l', g') \<and> modify pt bd_setInternal (l', g') = Some (l'', g') \<and> ok l'' \<and>
    (\<forall>p. inb dim lev p \<longrightarrow> status l'' p =
      (if p = pt then Some InternalBlock else if map half p = q then Some LeafBlock else status l p))"
proof -
  obtain l' g' where l': "add q (l, g) = Some (l', g')" "ok l'"
      "\<And>pt. inb dim lev pt \<Longrightarrow> status l' pt = (if map half pt = q then Some LeafBlock else status l pt)"
    using add_status [OF assms(1-3,6)] by blast
  have "status l' pt = Some LeafBlock" using l'(3) [OF assms(4)] assms(5) by simp
  then obtain l'' where l'': "modify pt bd_setInternal (l', g') = Some (l'', g')" "ok l''"
      "\<And>p. inb dim lev p \<Longrightarrow> status l'' p = (if p = pt then Some InternalBlock else status l' p)"
    using internal_status [OF l'(2) assms(4), of g'] by blast
  show ?thesis using l'(1) l''(1,2) l''(3) l'(3) by auto
qed

end

text \<open>What a store of broods promises: broods are found by the parent, and the status is read off the data.\<close>

locale brood_level =
  fixes dim lev :: nat
    and ok :: "'l \<Rightarrow> bool"
    and brood :: "'l \<Rightarrow> GridPt \<Rightarrow> BroodData option"
    and status :: "'l \<Rightarrow> GridPt \<Rightarrow> TreeBlockStatus option"
    and has :: "'l \<Rightarrow> GridPt \<Rightarrow> bool option"
    and add :: "GridPt \<Rightarrow> 'l \<times> int \<Rightarrow> ('l \<times> int) option"
    and modify :: "GridPt \<Rightarrow> (BlockData \<Rightarrow> BlockData) \<Rightarrow> 'l \<times> int \<Rightarrow> ('l \<times> int) option"
  assumes status_brood: "ok l \<Longrightarrow> inb dim lev pt \<Longrightarrow>
      status l pt = Some (case brood l (map half pt) of None \<Rightarrow> BlockNotInTree | Some b \<Rightarrow> datum_status (b ! low_bits pt))"
    and has_brood: "ok l \<Longrightarrow> inb dim lev pt \<Longrightarrow>
      has l pt = Some (case brood l (map half pt) of None \<Rightarrow> False | Some b \<Rightarrow> datum_status (b ! low_bits pt) \<noteq> BlockNotInTree)"
    and brood_data: "ok l \<Longrightarrow> inb dim (lev - 1) q \<Longrightarrow> brood l q = Some b \<Longrightarrow>
      length b = 2 ^ dim \<and> 0 \<notin> set b \<and> (lev = 0 \<longrightarrow> (\<forall>j. 0 < j \<and> j < 2 ^ dim \<longrightarrow> b ! j = NON_BLOCK))"
    and add_brood: "\<lbrakk>ok l; inb dim (lev - 1) q; 0 < g; \<And>b. brood l q = Some b \<Longrightarrow> set b \<subseteq> {NON_BLOCK}\<rbrakk> \<Longrightarrow>
      \<exists>l' g' b. add q (l, g) = Some (l', g') \<and> ok l' \<and> g \<le> g' \<and> b ! 0 = g \<and> (0 < lev \<longrightarrow> b = replicate (2 ^ dim) g) \<and>
        (\<forall>p. inb dim (lev - 1) p \<longrightarrow> brood l' p = (if p = q then Some b else brood l p))"
    and modify_brood: "\<lbrakk>ok l; inb dim lev pt; brood l (map half pt) = Some b; bd_isBlock (b ! low_bits pt);
        f (b ! low_bits pt) \<noteq> 0; bd_isBlock (f (b ! low_bits pt))\<rbrakk> \<Longrightarrow>
      \<exists>l'. modify pt f (l, g) = Some (l', g) \<and> ok l' \<and>
        (\<forall>p. inb dim (lev - 1) p \<longrightarrow> brood l' p = (if p = map half pt then Some (b[low_bits pt := f (b ! low_bits pt)]) else brood l p))"
begin

lemma offset_less: "inb dim lev pt \<Longrightarrow> low_bits pt < 2 ^ dim"
  using low_bits_less [of pt] by (auto simp: inb_def)

lemma same_position: "inb dim lev p \<Longrightarrow> inb dim lev pt \<Longrightarrow> map half p = map half pt \<Longrightarrow> low_bits p = low_bits pt \<Longrightarrow> p = pt"
  by (metis map_half point_eqI)

text \<open>Children of \<open>q\<close> that are all absent leave no block in the brood.\<close>

lemma vacant:
  assumes "ok l" and q: "inb dim (lev - 1) q" and "brood l q = Some b"
    and none: "\<And>pt. inb dim lev pt \<Longrightarrow> map half pt = q \<Longrightarrow> status l pt = Some BlockNotInTree"
  shows "set b \<subseteq> {NON_BLOCK}"
proof -
  note B = brood_data [OF assms(1-3)]
  have "b ! j = NON_BLOCK" if j: "j < 2 ^ dim" for j
  proof (cases "lev = 0")
    case True
    have r: "inb dim lev q" "map half q = q" using q True by (auto simp: inb_0 half_def)
    have "low_bits q = 0" using q True by (intro bit_eqI) (simp add: inb_0 bit_low_bits)
    then have "b ! 0 = NON_BLOCK" using none [OF r] status_brood [OF assms(1) r(1)] assms(3) r(2) by (simp add: datum_status_simps)
    then show ?thesis using B True j by (cases "j = 0") auto
  next
    case False
    let ?c = "child_pt q j"
    have c: "inb dim lev ?c" using child_pt_inb [OF q] False by simp
    moreover have "map half ?c = q" "low_bits ?c = j"
      using map_half [OF c] child_pt_parent low_bits_child_pt [of j q] j q by (auto simp: inb_def)
    ultimately show ?thesis using none [of ?c] status_brood [OF assms(1), of ?c] assms(3) by (simp add: datum_status_simps)
  qed
  then show ?thesis using B by (auto simp: in_set_conv_nth)
qed

lemma status_after_add:
  assumes "ok l" and l': "ok l'" and q: "inb dim (lev - 1) q" "0 < g" and b: "b ! 0 = g" "0 < lev \<longrightarrow> b = replicate (2 ^ dim) g"
    and find: "\<And>p. inb dim (lev - 1) p \<Longrightarrow> brood l' p = (if p = q then Some b else brood l p)" and pt: "inb dim lev pt"
  shows "status l' pt = (if map half pt = q then Some LeafBlock else status l pt)"
proof -
  have "b ! low_bits pt = g"
  proof (cases "lev = 0")
    case True
    then have "low_bits pt = 0" using pt by (intro bit_eqI) (simp add: inb_0 bit_low_bits)
    then show ?thesis using b(1) by simp
  qed (use b(2) offset_less [OF pt] in simp)
  then show ?thesis
    using find [OF inb_half [OF pt]] status_brood [OF l' pt] status_brood [OF assms(1) pt] q(2) by (simp add: datum_status_simps)
qed

end

sublocale brood_level \<subseteq> octree_level dim lev ok status has add modify
proof
  fix l pt
  assume a: "ok l" "inb dim lev pt"
  show "\<exists>s. status l pt = Some s \<and> has l pt = Some (s \<noteq> BlockNotInTree)"
    using status_brood [OF a] has_brood [OF a] by (auto split: option.splits)
next
  fix l q and g :: int
  assume a: "ok l" "inb dim (lev - 1) q" "0 < g" and none: "\<And>pt. inb dim lev pt \<Longrightarrow> map half pt = q \<Longrightarrow> status l pt = Some BlockNotInTree"
  obtain l' g' b where l': "add q (l, g) = Some (l', g')" "ok l'" "g \<le> g'" "b ! 0 = g" "0 < lev \<longrightarrow> b = replicate (2 ^ dim) g"
      "\<And>p. inb dim (lev - 1) p \<Longrightarrow> brood l' p = (if p = q then Some b else brood l p)"
    using add_brood [OF a vacant [OF a(1,2) _ none]] by metis
  then show "\<exists>l' g'. add q (l, g) = Some (l', g') \<and> ok l' \<and> g \<le> g' \<and>
      (\<forall>pt. inb dim lev pt \<longrightarrow> status l' pt = (if map half pt = q then Some LeafBlock else status l pt))"
    using status_after_add [OF a(1) l'(2) a(2,3) l'(4,5,6)] by blast
next
  fix l pt and g :: int
  assume a: "ok l" "inb dim lev pt" and leaf: "status l pt = Some LeafBlock"
  then obtain b where b: "brood l (map half pt) = Some b" "datum_status (b ! low_bits pt) = LeafBlock"
    using status_brood [OF a] by (auto split: option.splits)
  have d: "length b = 2 ^ dim" "b ! low_bits pt \<noteq> 0"
    using brood_data [OF a(1) inb_half [OF a(2)] b(1)] offset_less [OF a(2)] by (auto simp: in_set_conv_nth)
  let ?d = "bd_setInternal (b ! low_bits pt)"
  have i: "datum_status ?d = InternalBlock" using datum_status_simps(4) [OF d(2) b(2)] .
  have nz: "bd_isBlock (b ! low_bits pt)" "?d \<noteq> 0" "bd_isBlock ?d"
    using b(2) i d(2) by (auto simp: datum_status_def bd_isLeaf_def split: if_splits)
  obtain l' where l': "modify pt bd_setInternal (l, g) = Some (l', g)" "ok l'"
      "\<And>p. inb dim (lev - 1) p \<Longrightarrow> brood l' p = (if p = map half pt then Some (b[low_bits pt := ?d]) else brood l p)"
    using modify_brood [OF a b(1) nz(1), of bd_setInternal g] nz by blast
  have "status l' p = (if p = pt then Some InternalBlock else status l p)" if p: "inb dim lev p" for p
    using l'(3) [OF inb_half [OF p]] status_brood [OF l'(2) p] status_brood [OF a(1) p] b(1) i same_position [OF p a(2)]
      d(1) offset_less [OF a(2)] by (cases "low_bits p = low_bits pt") auto
  then show "\<exists>l'. modify pt bd_setInternal (l, g) = Some (l', g) \<and> ok l' \<and>
      (\<forall>p. inb dim lev p \<longrightarrow> status l' p = (if p = pt then Some InternalBlock else status l p))"
    using l'(1,2) by blast
qed


section \<open>Dense and sparse levels\<close>

definition brood_ok :: "nat \<Rightarrow> nat \<Rightarrow> BroodData \<Rightarrow> bool" where
  "brood_ok dim lev b \<longleftrightarrow> length b = 2 ^ dim \<and> 0 \<notin> set b \<and> (lev = 0 \<longrightarrow> (\<forall>j. 0 < j \<and> j < 2 ^ dim \<longrightarrow> b ! j = NON_BLOCK))"

definition block_count :: "BroodData list \<Rightarrow> int" where
  "block_count data = int (length (filter bd_isBlock (concat data)))"

fun level_ok :: "nat \<Rightarrow> nat \<Rightarrow> OctreeLevel \<Rightarrow> bool" where
  "level_ok dim lev (Dense lv data n) \<longleftrightarrow> lv = lev \<and> rep_fits dim lev (Morton 16) \<and> length data = 2 ^ (dim * (lev - 1)) \<and>
     (\<forall>b \<in> set data. brood_ok dim lev b) \<and> n = block_count data"
| "level_ok dim lev (Sparse lv rep m) \<longleftrightarrow> lv = lev \<and> 0 < lev \<and> rep_fits dim lev rep \<and> distinct (map fst m) \<and>
     (\<forall>(k, b) \<in> set m. brood_ok dim lev b \<and> NON_BLOCK \<notin> set b \<and> (\<exists>q. inb dim (lev - 1) q \<and> k = convertPoint rep q))"

lemma brood_ok_new: "0 < g \<Longrightarrow> 0 < lev \<Longrightarrow> brood_ok dim lev (replicate (2 ^ dim) g) \<and> NON_BLOCK \<notin> set (replicate (2 ^ dim) g)"
  by (auto simp: brood_ok_def NON_BLOCK_def)

lemma brood_ok_first: "0 < g \<Longrightarrow> brood_ok dim 0 (only_first (replicate (2 ^ dim) g))"
  by (auto simp: brood_ok_def only_first_def NON_BLOCK_def)

lemma brood_ok_set: "brood_ok dim lev b \<Longrightarrow> off < 2 ^ dim \<Longrightarrow> bd_isBlock (b ! off) \<Longrightarrow> d \<noteq> 0 \<Longrightarrow> brood_ok dim lev (b[off := d])"
  using set_update_subset_insert [of b off d] by (auto simp: brood_ok_def bd_isBlock_def nth_list_update)

lemma block_count_update:
  assumes "i < length data"
  shows "block_count (data[i := b]) = block_count data + int (length (filter bd_isBlock b)) - int (length (filter bd_isBlock (data ! i)))"
  using assms by (induction data arbitrary: i) (auto simp: block_count_def split: nat.splits)

lemma filter_set_block:
  "off < length b \<Longrightarrow> bd_isBlock (b ! off) \<Longrightarrow> bd_isBlock d \<Longrightarrow> length (filter bd_isBlock (b[off := d])) = length (filter bd_isBlock b)"
  by (induction b arbitrary: off) (auto split: nat.splits)

lemma length_filter_none: "set b \<subseteq> {NON_BLOCK} \<Longrightarrow> length (filter bd_isBlock b) = 0"
  by (auto simp: filter_empty_conv bd_isBlock_def)

lemma length_filter_first: "0 < g \<Longrightarrow> length (filter bd_isBlock (only_first (replicate (2 ^ dim) g))) = 1"
proof -
  assume "0 < g"
  have "[0..<2 ^ dim] = 0 # [1..<2 ^ dim]" by (simp add: upt_conv_Cons)
  then have "only_first (replicate (2 ^ dim) g) = g # replicate (2 ^ dim - 1) NON_BLOCK"
    by (auto simp: only_first_def map_replicate_const [symmetric] intro!: nth_equalityI)
  then show ?thesis using \<open>0 < g\<close> by (simp add: bd_isBlock_def NON_BLOCK_def)
qed

text \<open>The dense level.\<close>

lemma dense_index:
  assumes "level_ok dim lev (Dense lv data n)" and "inb dim (lev - 1) q"
  shows "mortonize 16 q < length data" and "brood_data (Dense lv data n) q = Some (data ! mortonize 16 q)"
    and "brood_ok dim lev (data ! mortonize 16 q)"
proof -
  have "rep_fits dim (lev - 1) (Morton 16)" using assms(1) rep_fits_mono [of dim lev "Morton 16" "lev - 1"] by simp
  then show less: "mortonize 16 q < length data" using rep_fits_interleaves(2) [OF _ assms(2), of 16] assms(1) by simp
  then show "brood_data (Dense lv data n) q = Some (data ! mortonize 16 q)" by simp
  show "brood_ok dim lev (data ! mortonize 16 q)" using assms(1) less by simp
qed

lemma dense_index_eq:
  assumes "level_ok dim lev (Dense lv data n)" and "inb dim (lev - 1) p" and "inb dim (lev - 1) q"
  shows "mortonize 16 p = mortonize 16 q \<longleftrightarrow> p = q"
  using convertPoint_inject [of dim "lev - 1" "Morton 16" p q] rep_fits_mono [of dim lev "Morton 16" "lev - 1"] assms by simp

lemma dense_Brood:
  assumes "level_ok dim lev (Dense lv data n)" and "inb dim lev pt"
  shows "Brood dim (Morton 16) pt = (Index (mortonize 16 (map half pt)), low_bits pt)"
  using Brood_fits [of dim lev "Morton 16" pt] assms by (simp del: Brood.simps)

lemma dense_at_brood:
  assumes "level_ok dim lev (Dense lv data n)" and "inb dim lev pt"
  shows "dense_at dim data pt = Some (data ! mortonize 16 (map half pt) ! low_bits pt)"
  unfolding dense_at_def dense_Brood [OF assms] using dense_index(1) [OF assms(1) inb_half [OF assms(2)]] by simp

lemma dense_replace:
  assumes ok: "level_ok dim lev (Dense lv data n)" and q: "inb dim (lev - 1) q" and b: "brood_ok dim lev b"
    and n': "n' = n + int (length (filter bd_isBlock b)) - int (length (filter bd_isBlock (data ! mortonize 16 q)))"
  shows "level_ok dim lev (Dense lv (data[mortonize 16 q := b]) n')"
    and "inb dim (lev - 1) p \<Longrightarrow> brood_data (Dense lv (data[mortonize 16 q := b]) n') p = (if p = q then Some b else brood_data (Dense lv data n) p)"
proof -
  note i = dense_index(1) [OF ok q]
  show ok': "level_ok dim lev (Dense lv (data[mortonize 16 q := b]) n')"
    using ok b set_update_subset_insert [of data "mortonize 16 q" b] block_count_update [OF i, of b] n' by auto
  show "brood_data (Dense lv (data[mortonize 16 q := b]) n') p = (if p = q then Some b else brood_data (Dense lv data n) p)"
    if "inb dim (lev - 1) p"
    using dense_index_eq [OF ok that q] dense_index(1) [OF ok that] i by (auto simp: nth_list_update)
qed

lemma dense_add:
  assumes ok: "level_ok dim lev (Dense lv data n)" and q: "inb dim (lev - 1) q" and g: "0 < g" and vac: "set (data ! mortonize 16 q) \<subseteq> {NON_BLOCK}"
  shows "\<exists>l' g' b. addAllChildren dim q (Dense lv data n, g) = Some (l', g') \<and> level_ok dim lev l' \<and> g \<le> g' \<and> b ! 0 = g \<and>
    (0 < lev \<longrightarrow> b = replicate (2 ^ dim) g) \<and>
    (\<forall>p. inb dim (lev - 1) p \<longrightarrow> brood_data l' p = (if p = q then Some b else brood_data (Dense lv data n) p))"
proof -
  let ?i = "mortonize 16 q"
  note i = dense_index(1) [OF ok q]
  have lv: "lv = lev" using ok by simp
  have in_q: "level_inBounds lev q"
  proof -
    have "(2::int) ^ (lev - 1) \<le> 2 ^ lev" by simp
    then have "inb dim lev q" using q unfolding inb_def by (meson less_le_trans)
    then show ?thesis by (simp add: inb_level_inBounds)
  qed
  have none: "length (filter bd_isBlock (data ! ?i)) = 0" using vac by (rule length_filter_none)
  show ?thesis
  proof (cases "lev = 0")
    case True
    let ?b = "only_first (replicate (2 ^ dim) g)"
    have "length data = 1" using ok True by simp
    then have i0: "?i = 0" using i by simp
    have "addAllChildren dim q (Dense lv data n, g) = Some (Dense lv (data[?i := ?b]) (n + 1), g + 1 + 2 ^ dim)"
      using i in_q True lv i0 by (simp add: new_brood_def)
    moreover have "?b ! 0 = g" by (simp add: only_first_def)
    moreover have "brood_ok dim lev ?b" "n + 1 = n + int (length (filter bd_isBlock ?b)) - int (length (filter bd_isBlock (data ! ?i)))"
      using brood_ok_first [OF g, of dim] length_filter_first [OF g, of dim] none True by simp_all
    note R = dense_replace [OF ok q this]
    ultimately show ?thesis using R True
      by (intro exI [of _ "Dense lv (data[?i := ?b]) (n + 1)"] exI [of _ "g + 1 + 2 ^ dim"] exI [of _ ?b])
        (simp del: addAllChildren.simps brood_data.simps level_ok.simps)
  next
    case False
    let ?b = "replicate (2 ^ dim) g"
    have "addAllChildren dim q (Dense lv data n, g) = Some (Dense lv (data[?i := ?b]) (n + 2 ^ dim), g + 1 + 2 ^ dim)"
      using i in_q False lv by (simp add: new_brood_def not_le)
    moreover have "int (length (filter bd_isBlock ?b)) = 2 ^ dim" using g by (simp add: bd_isBlock_def NON_BLOCK_def)
    then have "brood_ok dim lev ?b" "n + 2 ^ dim = n + int (length (filter bd_isBlock ?b)) - int (length (filter bd_isBlock (data ! ?i)))"
      using brood_ok_new [OF g, of lev dim] none False by simp_all
    note R = dense_replace [OF ok q this]
    ultimately show ?thesis using R
      by (intro exI [of _ "Dense lv (data[?i := ?b]) (n + 2 ^ dim)"] exI [of _ "g + 1 + 2 ^ dim"] exI [of _ ?b])
        (simp del: addAllChildren.simps brood_data.simps level_ok.simps)
  qed
qed

lemma dense_modify:
  assumes ok: "level_ok dim lev (Dense lv data n)" and pt: "inb dim lev pt" and b: "b = data ! mortonize 16 (map half pt)"
    and d: "bd_isBlock (b ! low_bits pt)" "f (b ! low_bits pt) \<noteq> 0" "bd_isBlock (f (b ! low_bits pt))"
  shows "\<exists>l'. level_modify dim pt f (Dense lv data n, g) = Some (l', g) \<and> level_ok dim lev l' \<and>
    (\<forall>p. inb dim (lev - 1) p \<longrightarrow> brood_data l' p = (if p = map half pt then Some (b[low_bits pt := f (b ! low_bits pt)]) else brood_data (Dense lv data n) p))"
proof -
  note q = inb_half [OF pt] and i = dense_index [OF ok inb_half [OF pt]]
  have off: "low_bits pt < 2 ^ dim" using low_bits_less [of pt] pt by (simp add: inb_def)
  let ?b = "b[low_bits pt := f (b ! low_bits pt)]"
  have "brood_ok dim lev ?b" using i(3) off d b by (intro brood_ok_set) auto
  moreover have "length (filter bd_isBlock ?b) = length (filter bd_isBlock b)"
    using i(3) off d b by (intro filter_set_block) (auto simp: brood_ok_def)
  ultimately have R: "level_ok dim lev (Dense lv (data[mortonize 16 (map half pt) := ?b]) n)"
      "inb dim (lev - 1) p \<Longrightarrow> brood_data (Dense lv (data[mortonize 16 (map half pt) := ?b]) n) p = (if p = map half pt then Some ?b else brood_data (Dense lv data n) p)" for p
    using dense_replace [OF ok q, of ?b n] b by auto
  have "level_modify dim pt f (Dense lv data n, g) = Some (Dense lv (data[mortonize 16 (map half pt) := ?b]) n, g)"
    unfolding level_modify.simps dense_Brood [OF ok pt] using i(1) b by simp
  then show ?thesis using R by blast
qed

text \<open>The sparse levels.\<close>

lemma set_AList_update: "set (AList.update k v m) \<subseteq> insert (k, v) (set m)"
  by (induction m) auto

lemma sparse_entry:
  assumes "level_ok dim lev (Sparse lv rep m)" and "map_of m k = Some b"
  shows "brood_ok dim lev b" and "NON_BLOCK \<notin> set b" and "\<exists>q. inb dim (lev - 1) q \<and> k = convertPoint rep q"
  using assms map_of_SomeD [OF assms(2)] by auto

lemma sparse_Brood:
  assumes "level_ok dim lev (Sparse lv rep m)" and "inb dim lev pt"
  shows "Brood dim rep pt = (convertPoint rep (map half pt), low_bits pt)"
  using Brood_fits [of dim lev rep pt] assms by simp

lemma sparse_replace:
  assumes ok: "level_ok dim lev (Sparse lv rep m)" and q: "inb dim (lev - 1) q" and b: "brood_ok dim lev b" "NON_BLOCK \<notin> set b"
  shows "level_ok dim lev (Sparse lv rep (AList.update (convertPoint rep q) b m))"
    and "inb dim (lev - 1) p \<Longrightarrow>
      brood_data (Sparse lv rep (AList.update (convertPoint rep q) b m)) p = (if p = q then Some b else brood_data (Sparse lv rep m) p)"
proof -
  show "level_ok dim lev (Sparse lv rep (AList.update (convertPoint rep q) b m))"
    using ok q b set_AList_update [of "convertPoint rep q" b m] by (fastforce simp: distinct_update)
  have "rep_fits dim (lev - 1) rep" using ok rep_fits_mono [of dim lev rep "lev - 1"] by simp
  then show "brood_data (Sparse lv rep (AList.update (convertPoint rep q) b m)) p = (if p = q then Some b else brood_data (Sparse lv rep m) p)"
    if "inb dim (lev - 1) p" using convertPoint_inject [of dim "lev - 1" rep p q] q that by (simp add: update_conv')
qed

lemma inb_weaken: "inb dim (lev - 1) q \<Longrightarrow> level_inBounds lev q"
proof -
  assume q: "inb dim (lev - 1) q"
  have "(2::int) ^ (lev - 1) \<le> 2 ^ lev" by simp
  then have "inb dim lev q" using q unfolding inb_def by (meson less_le_trans)
  then show ?thesis by (simp add: inb_level_inBounds)
qed

lemma sparse_add:
  assumes ok: "level_ok dim lev (Sparse lv rep m)" and q: "inb dim (lev - 1) q" and g: "0 < g" and none: "map_of m (convertPoint rep q) = None"
  shows "\<exists>l' g' b. addAllChildren dim q (Sparse lv rep m, g) = Some (l', g') \<and> level_ok dim lev l' \<and> g \<le> g' \<and> b ! 0 = g \<and>
    (0 < lev \<longrightarrow> b = replicate (2 ^ dim) g) \<and>
    (\<forall>p. inb dim (lev - 1) p \<longrightarrow> brood_data l' p = (if p = q then Some b else brood_data (Sparse lv rep m) p))"
proof -
  let ?b = "replicate (2 ^ dim) g"
  have lev: "lv = lev" "0 < lev" using ok by auto
  have "addAllChildren dim q (Sparse lv rep m, g) = Some (Sparse lv rep (AList.update (convertPoint rep q) ?b m), g + 1 + 2 ^ dim)"
    using inb_weaken [OF q] none lev by (simp add: new_brood_def)
  then show ?thesis
    using sparse_replace [OF ok q, of ?b] brood_ok_new [OF g lev(2), of dim]
    by (intro exI [of _ "Sparse lv rep (AList.update (convertPoint rep q) ?b m)"] exI [of _ "g + 1 + 2 ^ dim"] exI [of _ ?b])
      (simp del: addAllChildren.simps brood_data.simps level_ok.simps)
qed

lemma sparse_modify:
  assumes ok: "level_ok dim lev (Sparse lv rep m)" and pt: "inb dim lev pt" and b: "map_of m (convertPoint rep (map half pt)) = Some b"
    and d: "bd_isBlock (b ! low_bits pt)" "f (b ! low_bits pt) \<noteq> 0" "bd_isBlock (f (b ! low_bits pt))"
  shows "\<exists>l'. level_modify dim pt f (Sparse lv rep m, g) = Some (l', g) \<and> level_ok dim lev l' \<and>
    (\<forall>p. inb dim (lev - 1) p \<longrightarrow> brood_data l' p = (if p = map half pt then Some (b[low_bits pt := f (b ! low_bits pt)]) else brood_data (Sparse lv rep m) p))"
proof -
  have off: "low_bits pt < 2 ^ dim" using low_bits_less [of pt] pt by (simp add: inb_def)
  let ?b = "b[low_bits pt := f (b ! low_bits pt)]"
  note E = sparse_entry [OF ok b]
  have "brood_ok dim lev ?b" using E(1) off d by (intro brood_ok_set) auto
  moreover have "NON_BLOCK \<notin> set ?b" using E(2) d set_update_subset_insert [of b "low_bits pt" "f (b ! low_bits pt)"] by (auto simp: bd_isBlock_def)
  moreover have "level_modify dim pt f (Sparse lv rep m, g) = Some (Sparse lv rep (AList.update (convertPoint rep (map half pt)) ?b m), g)"
    using b by (simp add: sparse_Brood [OF ok pt])
  ultimately show ?thesis using sparse_replace [OF ok inb_half [OF pt], of ?b] by blast
qed

text \<open>Both kinds of level fulfil the contract.\<close>

lemma level_status_brood:
  assumes ok: "level_ok dim lev l" and pt: "inb dim lev pt"
  shows "level_blockStatus dim l pt = Some (case brood_data l (map half pt) of None \<Rightarrow> BlockNotInTree | Some b \<Rightarrow> datum_status (b ! low_bits pt))"
    and "level_hasBlock dim l pt = Some (case brood_data l (map half pt) of None \<Rightarrow> False | Some b \<Rightarrow> datum_status (b ! low_bits pt) \<noteq> BlockNotInTree)"
proof -
  have off: "low_bits pt < 2 ^ dim" using low_bits_less [of pt] pt by (simp add: inb_def)
  have s: "datum_status d = (if bd_isLeaf d then LeafBlock else InternalBlock)" "datum_status d \<noteq> BlockNotInTree" if "d \<noteq> NON_BLOCK" for d
    using that by (auto simp: datum_status_def bd_isBlock_def)
  show "level_blockStatus dim l pt = Some (case brood_data l (map half pt) of None \<Rightarrow> BlockNotInTree | Some b \<Rightarrow> datum_status (b ! low_bits pt))"
  proof (cases l)
    case (Dense lv data n)
    then show ?thesis
      using pt ok dense_at_brood [of dim lev lv data n pt] dense_index(2) [of dim lev lv data n "map half pt"] inb_half [OF pt]
      by (simp add: inb_level_inBounds datum_status_def [abs_def] del: brood_data.simps)
  next
    case (Sparse lv rep m)
    note E = sparse_entry [OF ok [unfolded Sparse], of "convertPoint rep (map half pt)"]
    have "b ! low_bits pt \<noteq> NON_BLOCK" if "map_of m (convertPoint rep (map half pt)) = Some b" for b
      using E(1,2) [OF that] off by (auto simp: brood_ok_def in_set_conv_nth)
    then show ?thesis using s sparse_Brood [OF ok [unfolded Sparse] pt] by (simp add: Sparse split: option.splits)
  qed
  show "level_hasBlock dim l pt = Some (case brood_data l (map half pt) of None \<Rightarrow> False | Some b \<Rightarrow> datum_status (b ! low_bits pt) \<noteq> BlockNotInTree)"
  proof (cases l)
    case (Dense lv data n)
    then show ?thesis
      using ok dense_at_brood [of dim lev lv data n pt] dense_index(2) [of dim lev lv data n "map half pt"] pt inb_half [OF pt]
      by (simp add: datum_status_def del: brood_data.simps)
  next
    case (Sparse lv rep m)
    note E = sparse_entry [OF ok [unfolded Sparse], of "convertPoint rep (map half pt)"]
    have "b ! low_bits pt \<noteq> NON_BLOCK" if "map_of m (convertPoint rep (map half pt)) = Some b" for b
      using E(1,2) [OF that] off by (auto simp: brood_ok_def in_set_conv_nth)
    then show ?thesis using s(2) sparse_Brood [OF ok [unfolded Sparse] pt] by (simp add: Sparse split: option.splits)
  qed
qed

interpretation tree_level: brood_level dim lev "level_ok dim lev" brood_data "level_blockStatus dim" "level_hasBlock dim" "addAllChildren dim" "level_modify dim"
  for dim lev
proof
  fix l q b
  assume a: "level_ok dim lev l" "inb dim (lev - 1) q" "brood_data l q = Some b"
  have "brood_ok dim lev b"
  proof (cases l)
    case (Dense lv data n)
    then show ?thesis using a dense_index(2,3) [of dim lev lv data n q] by simp
  next
    case (Sparse lv rep m)
    then show ?thesis using a sparse_entry(1) [of dim lev lv rep m] by simp
  qed
  then show "length b = 2 ^ dim \<and> 0 \<notin> set b \<and> (lev = 0 \<longrightarrow> (\<forall>j. 0 < j \<and> j < 2 ^ dim \<longrightarrow> b ! j = NON_BLOCK))"
    by (simp add: brood_ok_def)
next
  fix l q and g :: int
  assume a: "level_ok dim lev l" "inb dim (lev - 1) q" "0 < g" and vac: "\<And>b. brood_data l q = Some b \<Longrightarrow> set b \<subseteq> {NON_BLOCK}"
  show "\<exists>l' g' b. addAllChildren dim q (l, g) = Some (l', g') \<and> level_ok dim lev l' \<and> g \<le> g' \<and> b ! 0 = g \<and> (0 < lev \<longrightarrow> b = replicate (2 ^ dim) g) \<and>
      (\<forall>p. inb dim (lev - 1) p \<longrightarrow> brood_data l' p = (if p = q then Some b else brood_data l p))"
  proof (cases l)
    case (Dense lv data n)
    then show ?thesis using dense_add [of dim lev lv data n q g] a vac dense_index(2) [of dim lev lv data n q] by blast
  next
    case (Sparse lv rep m)
    have "map_of m (convertPoint rep q) = None"
    proof (rule ccontr)
      assume "map_of m (convertPoint rep q) \<noteq> None"
      then obtain b where b: "map_of m (convertPoint rep q) = Some b" by auto
      then have "set b \<subseteq> {NON_BLOCK}" "NON_BLOCK \<notin> set b" "length b = 2 ^ dim"
        using vac [of b] sparse_entry [OF a(1) [unfolded Sparse] b] by (auto simp: Sparse brood_ok_def)
      then show False by (cases b) auto
    qed
    then show ?thesis using sparse_add [of dim lev lv rep m q g] a unfolding Sparse by blast
  qed
next
  fix l pt b f and g :: int
  assume a: "level_ok dim lev l" "inb dim lev pt" "brood_data l (map half pt) = Some b"
    and d: "bd_isBlock (b ! low_bits pt)" "f (b ! low_bits pt) \<noteq> 0" "bd_isBlock (f (b ! low_bits pt))"
  show "\<exists>l'. level_modify dim pt f (l, g) = Some (l', g) \<and> level_ok dim lev l' \<and>
      (\<forall>p. inb dim (lev - 1) p \<longrightarrow> brood_data l' p = (if p = map half pt then Some (b[low_bits pt := f (b ! low_bits pt)]) else brood_data l p))"
  proof (cases l)
    case (Dense lv data n)
    have "b = data ! mortonize 16 (map half pt)" using a(3) dense_index(2) [OF a(1) [unfolded Dense] inb_half [OF a(2)]] by (simp add: Dense)
    then show ?thesis using dense_modify [OF a(1) [unfolded Dense] a(2)] d unfolding Dense by blast
  next
    case (Sparse lv rep m)
    have "map_of m (convertPoint rep (map half pt)) = Some b" using a(3) by (simp add: Sparse)
    then show ?thesis using sparse_modify [OF a(1) [unfolded Sparse] a(2)] d unfolding Sparse by blast
  qed
qed (simp_all only: level_status_brood)

section \<open>Iteration\<close>

text \<open>The positions of an iterator in order: \<open>s\<close> per brood, one at level zero.\<close>

definition slots :: "nat \<Rightarrow> OctreeLevel \<Rightarrow> nat" where
  "slots dim l = (if level l = 0 then 1 else 2 ^ dim)"

definition it_of :: "nat \<Rightarrow> nat \<Rightarrow> block_iter" where
  "it_of s t = (t div s, t mod s)"

definition stops :: "OctreeLevel \<Rightarrow> nat" where
  "stops l = length (level_broods l)"

lemma slots_pos: "0 < slots dim l"
  by (simp add: slots_def)

lemma it_step_of: "it_step dim l (it_of (slots dim l) t) = it_of (slots dim l) (Suc t)"
proof (cases "level l = 0")
  case False
  then have s: "slots dim l = 2 ^ dim" by (simp add: slots_def)
  show ?thesis
    unfolding it_of_def s using False by (auto simp: mod_Suc div_Suc)
qed (simp add: it_of_def slots_def)

lemma it_end_of: "it_end l = it_of (slots dim l) (stops l * slots dim l)"
  using slots_pos [of dim l] by (simp add: it_end_def it_of_def stops_def)

lemma it_of_inject: "0 < s \<Longrightarrow> it_of s t = it_of s u \<longleftrightarrow> t = u"
  by (auto simp: it_of_def) (metis div_mult_mod_eq)

lemma no_skip_end: "\<not> it_skips l (it_of (slots dim l) (stops l * slots dim l))"
  unfolding it_end_of [symmetric] by (cases l) (simp_all add: it_end_def)

lemma increment_of:
  assumes "t < stops l * slots dim l" and "stops l * slots dim l - t \<le> fuel"
  shows "\<exists>t'. it_increment fuel dim l (it_of (slots dim l) t) = Some (it_of (slots dim l) t') \<and> t < t' \<and> t' \<le> stops l * slots dim l \<and>
    (\<forall>u. t < u \<and> u < t' \<longrightarrow> it_skips l (it_of (slots dim l) u)) \<and> \<not> it_skips l (it_of (slots dim l) t')"
  using assms
proof (induction fuel arbitrary: t)
  case (Suc fuel)
  show ?case
  proof (cases "it_skips l (it_of (slots dim l) (Suc t))")
    case True
    then have less: "Suc t < stops l * slots dim l" using Suc.prems(1) no_skip_end [of l dim] by (metis Suc_lessI)
    have "stops l * slots dim l - Suc t \<le> fuel" using Suc.prems(2) by linarith
    with Suc.IH [OF less] obtain t' where "it_increment fuel dim l (it_of (slots dim l) (Suc t)) = Some (it_of (slots dim l) t')" "Suc t < t'" "t' \<le> stops l * slots dim l"
        "\<forall>u. Suc t < u \<and> u < t' \<longrightarrow> it_skips l (it_of (slots dim l) u)" "\<not> it_skips l (it_of (slots dim l) t')"
      by blast
    moreover from this have "\<forall>u. t < u \<and> u < t' \<longrightarrow> it_skips l (it_of (slots dim l) u)" using True by (metis Suc_lessI)
    ultimately show ?thesis using True by (intro exI [of _ t']) (simp add: it_step_of)
  next
    case False
    then show ?thesis using Suc.prems(1) by (intro exI [of _ "Suc t"]) (auto simp: it_step_of)
  qed
qed simp

lemma filter_upt_skip:
  "t < t' \<Longrightarrow> t' \<le> N \<Longrightarrow> P t \<Longrightarrow> (\<forall>u. t < u \<and> u < t' \<longrightarrow> \<not> P u) \<Longrightarrow> filter P [t..<N] = t # filter P [t'..<N]"
proof -
  assume a: "t < t'" "t' \<le> N" "P t" "\<forall>u. t < u \<and> u < t' \<longrightarrow> \<not> P u"
  have "[t..<N] = t # [Suc t..<t'] @ [t'..<N]" using a(1,2) upt_add_eq_append [of "Suc t" t' "N - t'"] by (simp add: upt_conv_Cons)
  moreover have "filter P [Suc t..<t'] = []" using a(4) by (auto simp: filter_empty_conv)
  ultimately show ?thesis using a(3) by simp
qed

lemma visit_of:
  assumes "stops l * slots dim l - t < k" and "t \<le> stops l * slots dim l" and "t = stops l * slots dim l \<or> \<not> it_skips l (it_of (slots dim l) t)"
    and fuel: "stops l * slots dim l \<le> fuel"
  shows "visit k fuel dim l (it_of (slots dim l) t) =
    Some (map (\<lambda>u. it_pt dim l (it_of (slots dim l) u)) (filter (\<lambda>u. \<not> it_skips l (it_of (slots dim l) u)) [t..<stops l * slots dim l]))"
  using assms(1-3)
proof (induction k arbitrary: t)
  case (Suc k)
  let ?N = "stops l * slots dim l" and ?it = "it_of (slots dim l)"
  show ?case
  proof (cases "t = ?N")
    case True
    then show ?thesis by (simp add: it_end_of [of l dim])
  next
    case False
    then have t: "t < ?N" "\<not> it_skips l (?it t)" using Suc.prems by auto
    obtain t' where t': "it_increment fuel dim l (?it t) = Some (?it t')" "t < t'" "t' \<le> ?N"
        "\<forall>u. t < u \<and> u < t' \<longrightarrow> it_skips l (?it u)" "\<not> it_skips l (?it t')"
      using increment_of [OF t(1) order.trans [OF diff_le_self fuel]] by blast
    have "visit k fuel dim l (?it t') = Some (map (\<lambda>u. it_pt dim l (?it u)) (filter (\<lambda>u. \<not> it_skips l (?it u)) [t'..<?N]))"
      using Suc.IH [of t'] Suc.prems(1) t'(2,3,5) t(1) by linarith
    then show ?thesis
      using t' False filter_upt_skip [of t t' ?N "\<lambda>u. \<not> it_skips l (?it u)"] t(2) it_of_inject [OF slots_pos, of dim l t ?N]
      by (simp add: it_end_of [of l dim])
  qed
qed simp

lemma begin_visit:
  assumes "stops l * slots dim l < k" and "stops l * slots dim l \<le> fuel"
  shows "\<exists>it. it_begin fuel dim l = Some it \<and> visit k fuel dim l it =
    Some (map (\<lambda>u. it_pt dim l (it_of (slots dim l) u)) (filter (\<lambda>u. \<not> it_skips l (it_of (slots dim l) u)) [0..<stops l * slots dim l]))"
proof -
  let ?N = "stops l * slots dim l" and ?it = "it_of (slots dim l)"
  have z: "?it 0 = (0, 0)" by (simp add: it_of_def)
  show ?thesis
  proof (cases "it_skips l (?it 0)")
    case True
    then have pos: "0 < ?N" using slots_pos [of dim l] by (cases l) (auto simp: it_of_def stops_def)
    obtain t' where t': "it_increment fuel dim l (?it 0) = Some (?it t')" "0 < t'" "t' \<le> ?N"
        "\<forall>u. 0 < u \<and> u < t' \<longrightarrow> it_skips l (?it u)" "\<not> it_skips l (?it t')"
      using increment_of [OF pos order.trans [OF diff_le_self assms(2)]] by blast
    have "[0..<?N] = [0..<t'] @ [t'..<?N]" using t'(3) upt_add_eq_append [of 0 t' "?N - t'"] by simp
    moreover have "it_skips l (?it u)" if "u < t'" for u using t'(4) True that by (cases "u = 0") auto
    then have "filter (\<lambda>u. \<not> it_skips l (?it u)) [0..<t'] = []" by (simp add: filter_empty_conv)
    ultimately show ?thesis
      using t' True visit_of [of l dim t' k fuel] assms(1,2) by (simp add: it_begin_def z)
  next
    case False
    then show ?thesis using visit_of [of l dim 0 k fuel] assms(1,2) by (simp add: it_begin_def z)
  qed
qed

text \<open>The parents of the broods in the order of iteration.\<close>

definition parents :: "nat \<Rightarrow> nat \<Rightarrow> OctreeLevel \<Rightarrow> GridPt list \<Rightarrow> bool" where
  "parents dim lev l qs \<longleftrightarrow> length qs = stops l \<and> distinct qs \<and> (\<forall>q \<in> set qs. inb dim (lev - 1) q) \<and>
     (\<forall>i < stops l. brood_data l (qs ! i) = Some (level_broods l ! i)) \<and>
     (\<forall>q b. inb dim (lev - 1) q \<longrightarrow> brood_data l q = Some b \<longrightarrow> q \<in> set qs) \<and>
     (\<forall>i off. i < stops l \<longrightarrow> off < 2 ^ dim \<longrightarrow> inb dim lev (child_pt (qs ! i) off) \<longrightarrow> it_pt dim l (i, off) = child_pt (qs ! i) off)"

lemma demortonize_inb:
  assumes "rep_fits dim lev (Morton w)" and "m < 2 ^ (dim * lev)"
  shows "inb dim lev (demortonize w dim m)" and "mortonize w (demortonize w dim m) = m"
proof -
  have w: "morton_dims w dim" "dim * lev \<le> w" "0 < dim" using assms(1) by (auto simp: rep_fits_def morton_dims_def)
  have m: "m < 2 ^ w" using assms(2) w(2) by (meson less_le_trans one_le_numeral power_increasing)
  note B = bit_demortonize [OF w(1) m]
  have "c < 2 ^ lev" if c: "c \<in> set (demortonize w dim m)" for c
  proof -
    obtain i where i: "i < dim" "c = demortonize w dim m ! i" using c B(1) by (metis in_set_conv_nth)
    have "n < lev" if "bit c n" for n
    proof -
      have "bit m (dim * n + i)" using that B(2) [OF i(1)] i(2) by simp
      then have "dim * n + i < dim * lev" using assms(2) by (metis bit_take_bit_iff take_bit_nat_eq_self)
      then have "dim * n < dim * lev" by linarith
      then show ?thesis by simp
    qed
    then have "take_bit lev c = c" by (intro bit_eqI) (auto simp: bit_take_bit_iff)
    then show ?thesis by (metis take_bit_int_less_exp)
  qed
  then show i: "inb dim lev (demortonize w dim m)" using B(1,3) by (auto simp: inb_def)
  show "mortonize w (demortonize w dim m) = m"
    using rep_fits_interleaves(1) [OF assms(1) i] demortonize_interleaves [OF w(1) m] by (rule interleaves_unique)
qed

lemma dense_parents:
  assumes ok: "level_ok dim lev (Dense lv data n)"
  shows "parents dim lev (Dense lv data n) (map (demortonize 16 dim) [0..<length data])"
proof -
  have f: "rep_fits dim lev (Morton 16)" and len: "length data = 2 ^ (dim * (lev - 1))" using ok by auto
  note f' = rep_fits_mono [OF f, of "lev - 1"]
  have D: "inb dim (lev - 1) (demortonize 16 dim i)" "mortonize 16 (demortonize 16 dim i) = i" if "i < length data" for i
    using demortonize_inb [of dim "lev - 1" 16 i] f' that len by auto
  have "inj_on (demortonize 16 dim) {0..<length data}" by (rule inj_onI) (metis D(2) atLeastLessThan_iff)
  moreover have "q \<in> set (map (demortonize 16 dim) [0..<length data])" if q: "inb dim (lev - 1) q" for q
  proof -
    have less: "mortonize 16 q < length data" using dense_index(1) [OF ok q] .
    have "demortonize 16 dim (mortonize 16 q) = q"
      using D(2) [OF less] dense_index_eq [OF ok D(1) [OF less] q] by simp
    then show ?thesis using less by force
  qed
  moreover have "it_pt dim (Dense lv data n) (i, off) = child_pt (demortonize 16 dim i) off"
    if "i < length data" "off < 2 ^ dim" "inb dim lev (child_pt (demortonize 16 dim i) off)" for i off
    using reconstruct_fits [OF f D(1) [OF that(1)] that(3,2)] D(2) [OF that(1)] by simp
  ultimately show ?thesis
    using D by (auto simp: parents_def stops_def distinct_map)
qed

lemma sparse_parents:
  assumes ok: "level_ok dim lev (Sparse lv rep m)"
  shows "\<exists>qs. parents dim lev (Sparse lv rep m) qs"
proof -
  have f: "rep_fits dim lev rep" and d: "distinct (map fst m)" using ok by auto
  have "\<exists>q. inb dim (lev - 1) q \<and> fst (m ! i) = convertPoint rep q" if "i < length m" for i
    using ok nth_mem [OF that] by (auto simp: case_prod_beta)
  then obtain qs where qs: "length qs = length m" "\<And>i. i < length m \<Longrightarrow> inb dim (lev - 1) (qs ! i) \<and> fst (m ! i) = convertPoint rep (qs ! i)"
    using Skolem_list_nth [of "length m" "\<lambda>i q. inb dim (lev - 1) q \<and> fst (m ! i) = convertPoint rep q"] by auto
  have m: "map_of m (convertPoint rep (qs ! i)) = Some (snd (m ! i))" if "i < length m" for i
    using d qs(2) [OF that] nth_mem [OF that] by (metis map_of_eq_Some_iff prod.collapse)
  have "distinct qs" using d qs by (metis distinct_conv_nth length_map nth_map)
  moreover have "q \<in> set qs" if q: "inb dim (lev - 1) q" "map_of m (convertPoint rep q) = Some b" for q b
  proof -
    obtain i where i: "i < length m" "m ! i = (convertPoint rep q, b)" using map_of_SomeD [OF q(2)] by (metis in_set_conv_nth)
    have "rep_fits dim (lev - 1) rep" using rep_fits_mono [OF f, of "lev - 1"] by simp
    then have "q = qs ! i" using qs(2) [OF i(1)] i(2) convertPoint_inject [of dim "lev - 1" rep q "qs ! i"] q(1) by simp
    then show ?thesis using i(1) qs(1) by simp
  qed
  moreover have "it_pt dim (Sparse lv rep m) (i, off) = child_pt (qs ! i) off"
    if "i < length m" "off < 2 ^ dim" "inb dim lev (child_pt (qs ! i) off)" for i off
    using reconstruct_fits [OF f _ that(3,2)] qs(2) [OF that(1)] by simp
  ultimately have "parents dim lev (Sparse lv rep m) qs"
    using qs m unfolding parents_def by (auto simp: stops_def in_set_conv_nth)
  then show ?thesis ..
qed

lemma level_parents: "level_ok dim lev l \<Longrightarrow> \<exists>qs. parents dim lev l qs"
  using dense_parents sparse_parents by (cases l) blast+

lemma concat_slots:
  assumes "\<And>b. b \<in> set bs \<Longrightarrow> length b = s" and "0 < s"
  shows "concat bs = map (\<lambda>t. bs ! (t div s) ! (t mod s)) [0..<length bs * s]"
  using assms(1)
proof (induction bs)
  case (Cons b bs)
  have b: "length b = s" using Cons.prems by simp
  have "[0..<length (b # bs) * s] = [0..<s] @ map (\<lambda>t. t + s) [0..<length bs * s]"
    using upt_add_eq_append [of 0 s "length bs * s"] by (simp add: map_add_upt add.commute)
  moreover have "map (\<lambda>t. (b # bs) ! (t div s) ! (t mod s)) [0..<s] = b"
    using b by (intro nth_equalityI) auto
  moreover have "(b # bs) ! ((t + s) div s) ! ((t + s) mod s) = bs ! (t div s) ! (t mod s)" for t
    using assms(2) by (simp add: div_add_self2)
  ultimately show ?case using Cons by (simp add: comp_def)
qed simp

text \<open>The data at a position, and what is known of the position.\<close>

definition datum_of :: "nat \<Rightarrow> OctreeLevel \<Rightarrow> nat \<Rightarrow> BlockData" where
  "datum_of s l t = level_broods l ! (t div s) ! (t mod s)"

lemma level_ok_no: "level_ok dim lev l \<Longrightarrow> level l = lev"
  by (cases l) auto

lemma slots_less: "t mod slots dim l < 2 ^ dim"
  by (auto simp: slots_def)

lemma brood_at_stop:
  assumes ok: "level_ok dim lev l" and i: "i < stops l"
  shows "brood_ok dim lev (level_broods l ! i)" and "level_broods l ! i \<in> set (level_broods l)"
proof -
  show m: "level_broods l ! i \<in> set (level_broods l)" using i by (simp add: stops_def)
  show "brood_ok dim lev (level_broods l ! i)" using ok m by (cases l) auto
qed

lemma stop_position:
  assumes ok: "level_ok dim lev l" and P: "parents dim lev l qs" and t: "t < stops l * slots dim l"
  defines "c \<equiv> child_pt (qs ! (t div slots dim l)) (t mod slots dim l)"
  shows "inb dim lev c" and "it_pt dim l (it_of (slots dim l) t) = c" and "level_blockStatus dim l c = Some (datum_status (datum_of (slots dim l) l t))"
    and "it_skips l (it_of (slots dim l) t) \<longleftrightarrow> datum_status (datum_of (slots dim l) l t) = BlockNotInTree"
    and "map half c = qs ! (t div slots dim l)" and "low_bits c = t mod slots dim l" and "t div slots dim l < stops l"
proof -
  let ?s = "slots dim l"
  show i: "t div ?s < stops l" using t slots_pos [of dim l] by (simp add: less_mult_imp_div_less)
  have "length qs = stops l" "\<forall>q \<in> set qs. inb dim (lev - 1) q" using P unfolding parents_def by blast+
  then have q: "inb dim (lev - 1) (qs ! (t div ?s))" using i nth_mem by metis
  then have q': "length (qs ! (t div ?s)) = dim" by (simp add: inb_def)
  have lv: "level l = lev" using level_ok_no [OF ok] .
  show c: "inb dim lev c"
  proof (cases "lev = 0")
    case True
    then have "qs ! (t div ?s) = replicate dim 0" "t mod ?s = 0" using q lv by (auto simp: inb_0 slots_def)
    then show ?thesis using True by (auto simp: c_def child_pt_def inb_def)
  qed (use child_pt_inb [OF q] c_def in simp)
  have "it_pt dim l (t div ?s, t mod ?s) = child_pt (qs ! (t div ?s)) (t mod ?s)"
    using P i slots_less [of t dim l] c unfolding parents_def c_def by blast
  then show "it_pt dim l (it_of ?s t) = c" by (simp only: it_of_def c_def)
  show h: "map half c = qs ! (t div ?s)" using map_half [OF c] child_pt_parent by (simp add: c_def)
  show lb: "low_bits c = t mod ?s" using low_bits_child_pt [of "t mod ?s" "qs ! (t div ?s)"] slots_less [of t dim l] q' by (simp add: c_def)
  have "brood_data l (qs ! (t div ?s)) = Some (level_broods l ! (t div ?s))" using P i unfolding parents_def by blast
  then show "level_blockStatus dim l c = Some (datum_status (datum_of ?s l t))"
    using level_status_brood(1) [OF ok c] h lb by (simp add: datum_of_def)
  show "it_skips l (it_of ?s t) \<longleftrightarrow> datum_status (datum_of ?s l t) = BlockNotInTree"
  proof (cases l)
    case (Dense lv data n)
    then show ?thesis using i by (simp add: it_of_def datum_of_def stops_def datum_status_simps(1) bd_isBlock_def)
  next
    case (Sparse lv rep m)
    have "t mod ?s < length (level_broods l ! (t div ?s))" using brood_at_stop(1) [OF ok i] slots_less [of t dim l] by (simp add: brood_ok_def)
    then have "datum_of ?s l t \<in> set (level_broods l ! (t div ?s))" by (simp add: datum_of_def)
    moreover have "NON_BLOCK \<notin> set (level_broods l ! (t div ?s))" using brood_at_stop(2) [OF ok i] ok by (auto simp: Sparse)
    ultimately show ?thesis by (auto simp: Sparse datum_status_simps(1))
  qed
qed

text \<open>The data of all stops are the blocks of the broods, up to the siblings of the root.\<close>

lemma stop_data:
  assumes ok: "level_ok dim lev l" and P: "\<not> P NON_BLOCK"
  shows "length (filter P (concat (level_broods l))) = length (filter (\<lambda>t. P (datum_of (slots dim l) l t)) [0..<stops l * slots dim l])"
proof (cases "lev = 0")
  case False
  have s: "slots dim l = 2 ^ dim" using level_ok_no [OF ok] False by (simp add: slots_def)
  have "length b = 2 ^ dim" if "b \<in> set (level_broods l)" for b
    using that brood_at_stop(1) [OF ok] by (auto simp: in_set_conv_nth stops_def brood_ok_def)
  then have "concat (level_broods l) = map (\<lambda>t. datum_of (2 ^ dim) l t) [0..<stops l * 2 ^ dim]"
    using concat_slots [of "level_broods l" "2 ^ dim"] by (simp add: datum_of_def stops_def)
  then show ?thesis by (simp add: s filter_map comp_def)
next
  case True
  then obtain data n where l: "l = Dense 0 data n" using ok by (cases l) auto
  then obtain b where b: "data = [b]" "brood_ok dim 0 b" using ok True by (cases data) auto
  have len: "length b = 2 ^ dim" using b(2) by (simp add: brood_ok_def)
  then have "b = b ! 0 # tl b" by (cases b) auto
  moreover have "filter P (tl b) = []"
    using b(2) P len by (auto simp: filter_empty_conv in_set_conv_nth brood_ok_def nth_tl)
  ultimately have "length (filter P b) = (if P (b ! 0) then 1 else 0)" by (metis filter.simps list.size(3,4) add.commute add_0 One_nat_def)
  then show ?thesis by (simp add: l b(1) stops_def slots_def datum_of_def)
qed

lemma stops_points:
  assumes ok: "level_ok dim lev l" and P: "parents dim lev l qs"
  defines "pt \<equiv> \<lambda>t. child_pt (qs ! (t div slots dim l)) (t mod slots dim l)"
  shows "inj_on pt {0..<stops l * slots dim l}"
    and "pt ` {t. t < stops l * slots dim l \<and> datum_status (datum_of (slots dim l) l t) \<noteq> BlockNotInTree} =
      {p. inb dim lev p \<and> level_hasBlock dim l p = Some True}"
proof -
  let ?s = "slots dim l" and ?N = "stops l * slots dim l"
  have D: "distinct qs" "length qs = stops l" using P unfolding parents_def by blast+
  note S = stop_position [OF ok P, folded pt_def]
  show "inj_on pt {0..<?N}"
  proof (rule inj_onI)
    fix t u
    assume "t \<in> {0..<?N}" "u \<in> {0..<?N}" and e: "pt t = pt u"
    then have t: "t < ?N" "u < ?N" by auto
    have "qs ! (t div ?s) = qs ! (u div ?s)" using S(5) [OF t(1)] S(5) [OF t(2)] e by (simp add: pt_def)
    then have "t div ?s = u div ?s" using nth_eq_iff_index_eq [OF D(1)] S(7) [OF t(1)] S(7) [OF t(2)] D(2) by metis
    moreover have "t mod ?s = u mod ?s" using S(6) [OF t(1)] S(6) [OF t(2)] e by (simp add: pt_def)
    ultimately show "t = u" by (metis div_mult_mod_eq)
  qed
  have has: "level_hasBlock dim l p = Some (level_blockStatus dim l p \<noteq> Some BlockNotInTree)" if "inb dim lev p" for p
    using tree_level.has_status [OF ok that] .
  show "pt ` {t. t < ?N \<and> datum_status (datum_of ?s l t) \<noteq> BlockNotInTree} = {p. inb dim lev p \<and> level_hasBlock dim l p = Some True}"
  proof (intro equalityI subsetI)
    fix p
    assume "p \<in> pt ` {t. t < ?N \<and> datum_status (datum_of ?s l t) \<noteq> BlockNotInTree}"
    then obtain t where t: "t < ?N" "datum_status (datum_of ?s l t) \<noteq> BlockNotInTree" "p = pt t" by auto
    then show "p \<in> {p. inb dim lev p \<and> level_hasBlock dim l p = Some True}"
      using S(1,3) [OF t(1)] has by (simp add: pt_def)
  next
    fix p
    assume "p \<in> {p. inb dim lev p \<and> level_hasBlock dim l p = Some True}"
    then have p: "inb dim lev p" "level_hasBlock dim l p = Some True" by auto
    then obtain b where b: "brood_data l (map half p) = Some b" using level_status_brood(2) [OF ok p(1)] by (auto split: option.splits)
    then have "map half p \<in> set qs" using P inb_half [OF p(1)] unfolding parents_def by blast
    then obtain i where i: "i < stops l" "qs ! i = map half p" using D(2) by (metis in_set_conv_nth)
    have low: "low_bits p < ?s"
    proof (cases "lev = 0")
      case True
      then have "low_bits p = 0" using p(1) by (intro bit_eqI) (simp add: inb_0 bit_low_bits)
      then show ?thesis using slots_pos by simp
    next
      case False
      then show ?thesis using low_bits_less [of p] p(1) level_ok_no [OF ok] by (simp add: slots_def inb_def)
    qed
    let ?t = "i * ?s + low_bits p"
    have dm: "?t div ?s = i" "?t mod ?s = low_bits p" using low slots_pos [of dim l] by simp_all
    have "Suc i * ?s \<le> ?N" using i(1) by (intro mult_le_mono1) simp
    then have t: "?t < ?N" using low by simp
    have "pt ?t = p" using dm i(2) child_pt_low_bits [of p] map_half [OF p(1)] by (simp add: pt_def)
    then show "p \<in> pt ` {t. t < ?N \<and> datum_status (datum_of ?s l t) \<noteq> BlockNotInTree}"
      using t p(2) S(3) [OF t] has [OF p(1)] by (intro image_eqI [of _ _ ?t]) (auto simp: pt_def)
  qed
qed

lemma visited:
  assumes ok: "level_ok dim lev l" and P: "parents dim lev l qs" and "stops l * slots dim l < k" and "stops l * slots dim l \<le> fuel"
  shows "\<exists>it. it_begin fuel dim l = Some it \<and> visit k fuel dim l it =
    Some (map (\<lambda>t. child_pt (qs ! (t div slots dim l)) (t mod slots dim l))
      (filter (\<lambda>t. datum_status (datum_of (slots dim l) l t) \<noteq> BlockNotInTree) [0..<stops l * slots dim l]))"
proof -
  have "filter (\<lambda>u. \<not> it_skips l (it_of (slots dim l) u)) [0..<stops l * slots dim l] =
      filter (\<lambda>t. datum_status (datum_of (slots dim l) l t) \<noteq> BlockNotInTree) [0..<stops l * slots dim l]"
    using stop_position(4) [OF ok P] by (intro filter_cong) auto
  moreover have "map (\<lambda>u. it_pt dim l (it_of (slots dim l) u)) (filter Q [0..<stops l * slots dim l]) =
      map (\<lambda>t. child_pt (qs ! (t div slots dim l)) (t mod slots dim l)) (filter Q [0..<stops l * slots dim l])" for Q
    using stop_position(2) [OF ok P] by (intro map_cong) auto
  ultimately show ?thesis using begin_visit [OF assms(3,4)] by auto
qed

lemma counted:
  assumes ok: "level_ok dim lev l"
  shows "numBlocks dim l = int (length (filter (\<lambda>t. datum_status (datum_of (slots dim l) l t) \<noteq> BlockNotInTree) [0..<stops l * slots dim l]))"
    and "numLeafBlocks l = int (length (filter (\<lambda>t. datum_status (datum_of (slots dim l) l t) = LeafBlock) [0..<stops l * slots dim l]))"
proof -
  let ?s = "slots dim l" and ?N = "stops l * slots dim l"
  obtain qs where P: "parents dim lev l qs" using level_parents [OF ok] by blast
  have nb: "datum_status d \<noteq> BlockNotInTree \<longleftrightarrow> bd_isBlock d" "datum_status d = LeafBlock \<longleftrightarrow> bd_isLeaf d" for d
    by (auto simp: datum_status_simps bd_isBlock_def bd_isLeaf_def)
  have blocks: "int (length (filter bd_isBlock (concat (level_broods l)))) = int (length (filter (\<lambda>t. datum_status (datum_of ?s l t) \<noteq> BlockNotInTree) [0..<?N]))"
    using stop_data [OF ok, of bd_isBlock] by (simp add: nb bd_isBlock_def)
  have leaves: "length (filter bd_isLeaf (concat (level_broods l))) = length (filter (\<lambda>t. datum_status (datum_of ?s l t) = LeafBlock) [0..<?N])"
    using stop_data [OF ok, of bd_isLeaf] by (simp add: nb bd_isLeaf_def NON_BLOCK_def)
  show n: "numBlocks dim l = int (length (filter (\<lambda>t. datum_status (datum_of ?s l t) \<noteq> BlockNotInTree) [0..<?N]))"
  proof (cases l)
    case (Dense lv data n)
    have "numBlocks dim l = int (length (filter bd_isBlock (concat (level_broods l))))" using ok by (simp add: Dense block_count_def)
    then show ?thesis using blocks by (rule trans)
  next
    case (Sparse lv rep m)
    then have "filter (\<lambda>t. datum_status (datum_of ?s l t) \<noteq> BlockNotInTree) [0..<?N] = [0..<?N]"
      using stop_position(4) [OF ok P] by (intro filter_True) (auto simp: Sparse)
    moreover have "0 < lv" "?s = 2 ^ dim" using ok by (auto simp: Sparse slots_def)
    ultimately show ?thesis by (simp add: Sparse stops_def)
  qed
  have "length (filter (\<lambda>t. datum_status (datum_of ?s l t) = LeafBlock) [0..<?N]) = 0" if "level_empty l"
  proof -
    have "numBlocks dim l = 0" using that by (cases l) auto
    then have "filter (\<lambda>t. datum_status (datum_of ?s l t) \<noteq> BlockNotInTree) [0..<?N] = []" using n by simp
    then show ?thesis by (auto simp: filter_empty_conv)
  qed
  then show "numLeafBlocks l = int (length (filter (\<lambda>t. datum_status (datum_of ?s l t) = LeafBlock) [0..<?N]))"
    using leaves by (simp add: numLeafBlocks_def)
qed

text \<open>
  The assertion of the constant \<^verbatim>\<open>getBroodData\<close> of a sparse level takes the parent point for a point of the level itself: a brood
  that was just added is refused when the level has no brood of the parent of that point.
\<close>

lemma getBroodData_refuses:
  assumes "level_ok dim lev (Sparse lv rep m)" and "inb dim lev q" and "map_of m (convertPoint rep (map half q)) = None"
  shows "getBroodData dim (Sparse lv rep m) q = None"
  using assms sparse_Brood [OF assms(1,2)] by simp

text \<open>
  C32. Iteration over a level, dense or sparse, from \<^verbatim>\<open>begin()\<close> to \<^verbatim>\<open>end()\<close> comes to an end and visits every block of the level
  exactly once, each with its own grid point; \<^verbatim>\<open>numBlocks\<close> is the number of blocks that are visited and
  \<^verbatim>\<open>numLeafBlocks\<close> the number of leaves among them.
\<close>

theorem octree_level_iteration_exact:
  assumes "level_ok dim lev l"
  defines "N \<equiv> length (level_broods l) * 2 ^ dim"
  shows "\<exists>it pts. it_begin N dim l = Some it \<and> visit (Suc N) N dim l it = Some pts \<and> distinct pts \<and>
    set pts = {pt. inb dim lev pt \<and> level_hasBlock dim l pt = Some True} \<and>
    numBlocks dim l = int (length pts) \<and> numLeafBlocks l = int (length (filter (\<lambda>pt. level_isLeaf dim l pt = Some True) pts))"
proof -
  let ?s = "slots dim l" and ?M = "stops l * slots dim l"
  have "?s \<le> 2 ^ dim" by (simp add: slots_def)
  then have N: "?M \<le> N" by (simp add: N_def stops_def)
  obtain qs where P: "parents dim lev l qs" using level_parents [OF assms(1)] by blast
  let ?pt = "\<lambda>t. child_pt (qs ! (t div ?s)) (t mod ?s)" and ?ts = "filter (\<lambda>t. datum_status (datum_of ?s l t) \<noteq> BlockNotInTree) [0..<?M]"
  note S = stops_points [OF assms(1) P]
  obtain it where it: "it_begin N dim l = Some it" "visit (Suc N) N dim l it = Some (map ?pt ?ts)"
    using visited [OF assms(1) P, of "Suc N" N] N by auto
  have "inj_on ?pt (set ?ts)" using S(1) by (rule inj_on_subset) auto
  then have "distinct (map ?pt ?ts)" by (simp add: distinct_map)
  moreover have "set (map ?pt ?ts) = {pt. inb dim lev pt \<and> level_hasBlock dim l pt = Some True}"
    using S(2) by (simp add: conj_commute)
  moreover have "length (filter (\<lambda>pt. level_isLeaf dim l pt = Some True) (map ?pt ?ts)) =
      length (filter (\<lambda>t. datum_status (datum_of ?s l t) = LeafBlock) [0..<?M])"
  proof -
    have "level_isLeaf dim l (?pt t) = Some True \<longleftrightarrow> datum_status (datum_of ?s l t) = LeafBlock" if "t \<in> set [0..<?M]" for t
      using stop_position(3) [OF assms(1) P, of t] that by (simp add: level_isLeaf_def)
    then have "filter (\<lambda>t. datum_status (datum_of ?s l t) \<noteq> BlockNotInTree \<and> level_isLeaf dim l (?pt t) = Some True) [0..<?M] =
        filter (\<lambda>t. datum_status (datum_of ?s l t) = LeafBlock) [0..<?M]" by (intro filter_cong) auto
    then show ?thesis by (simp add: filter_map comp_def conj_commute)
  qed
  ultimately show ?thesis using it counted [OF assms(1)] by (intro exI [of _ it] exI [of _ "map ?pt ?ts"]) simp
qed

theorem octree_level_iteration_exact_witness:
  "\<exists>it pts. it_begin 4 2 (Dense 1 [[5, 5, - 6, 5]] 4) = Some it \<and> visit (Suc 4) 4 2 (Dense 1 [[5, 5, - 6, 5]] 4) it = Some pts \<and> distinct pts \<and>
     set pts = {pt. inb 2 1 pt \<and> level_hasBlock 2 (Dense 1 [[5, 5, - 6, 5]] 4) pt = Some True}"
proof -
  have "level_ok 2 1 (Dense 1 [[5, 5, - 6, 5]] 4)"
    by (simp add: rep_fits_def morton_dims_def brood_ok_def block_count_def bd_isBlock_def NON_BLOCK_def)
  from octree_level_iteration_exact [OF this] show ?thesis by auto
qed

end
