(* ===== verification/Octree.thy ===== *)
theory Octree
  imports OctreeLevel
begin

text \<open>
  The octree of \<^verbatim>\<open>spin/OctreeBase.hpp\<close>: block indices, and the tree as an array of levels. There are as many levels as
  \<^verbatim>\<open>axom::IndexType\<close> has digits, 31 by default and 63 when it has 64 bits; the number is a parameter of the constructor. Coordinates are integers without a
  width; those of the blocks on these levels are representable. The shift that gives the largest coordinate is defined for the levels of the tree only. A failed assertion and an access outside the array of levels are the
  value \<open>None\<close>.
\<close>

unbundle bit_operations_syntax

section \<open>Block indices\<close>

record BlockIndex =
  m_pt :: GridPt
  m_lev :: int

definition block :: "GridPt \<Rightarrow> int \<Rightarrow> BlockIndex" where
  "block pt lev = \<lparr>m_pt = pt, m_lev = lev\<rparr>"

definition parentPt :: "BlockIndex \<Rightarrow> GridPt" where
  "parentPt b = map half (m_pt b)"

definition parentLevel :: "BlockIndex \<Rightarrow> int" where "parentLevel b = m_lev b - 1"

definition childLevel :: "BlockIndex \<Rightarrow> int" where "childLevel b = m_lev b + 1"

definition childPt :: "nat \<Rightarrow> int \<Rightarrow> BlockIndex \<Rightarrow> GridPt option" where
  "childPt dim childIndex b =
     (if \<not> (0 \<le> childIndex \<and> childIndex < 2 ^ dim) then None
      else Some (map (\<lambda>d. push_bit 1 (m_pt b ! d) + (if childIndex AND push_bit d 1 \<noteq> 0 then 1 else 0)) [0..<dim]))"

definition neighborPt :: "nat \<Rightarrow> GridPt \<Rightarrow> BlockIndex \<Rightarrow> GridPt" where
  "neighborPt dim offset b = map (\<lambda>i. m_pt b ! i + offset ! i) [0..<dim]"

definition BlockIndex_parent :: "BlockIndex \<Rightarrow> BlockIndex" where
  "BlockIndex_parent b = block (parentPt b) (parentLevel b)"

definition BlockIndex_child :: "nat \<Rightarrow> int \<Rightarrow> BlockIndex \<Rightarrow> BlockIndex option" where
  "BlockIndex_child dim childIndex b = map_option (\<lambda>pt. block pt (childLevel b)) (childPt dim childIndex b)"

definition faceNeighbor :: "nat \<Rightarrow> int \<Rightarrow> BlockIndex \<Rightarrow> BlockIndex option" where
  "faceNeighbor dim neighborIndex b =
     (if \<not> (0 \<le> neighborIndex \<and> neighborIndex < 2 * int dim) then None
      else let offset = (replicate dim 0)[nat (neighborIndex div 2) := (if neighborIndex mod 2 = 0 then -1 else 1)]
           in Some (block (neighborPt dim offset b) (m_lev b)))"

text \<open>\<^verbatim>\<open>operator<\<close>: by level, then by the coordinates.\<close>

fun pt_less :: "GridPt \<Rightarrow> GridPt \<Rightarrow> bool" where
  "pt_less (x # xs) (y # ys) \<longleftrightarrow> (if x < y then True else if x > y then False else pt_less xs ys)"
| "pt_less _ _ \<longleftrightarrow> False"

definition BlockIndex_less :: "BlockIndex \<Rightarrow> BlockIndex \<Rightarrow> bool" where
  "BlockIndex_less a b \<longleftrightarrow> (if m_lev a < m_lev b then True else if m_lev a > m_lev b then False else pt_less (m_pt a) (m_pt b))"

text \<open>
  A shift by a negative level is undefined; \<^verbatim>\<open>isValid\<close> checks the level first. So is one by the number of digits \<open>D\<close> or more. \<^verbatim>\<open>inBounds\<close> of the
  tree excludes the levels above \<open>D\<close>; at level \<open>D\<close> itself, with arithmetic that wraps around, it gives the largest coordinate as here.
\<close>

definition maxCoordAtLevel :: "int \<Rightarrow> int" where
  "maxCoordAtLevel lev = push_bit (nat lev) 1 - 1"

definition BlockIndex_inBounds :: "BlockIndex \<Rightarrow> bool" where
  "BlockIndex_inBounds b \<longleftrightarrow> list_all (\<lambda>c. \<not> (c < 0 \<or> c > maxCoordAtLevel (m_lev b))) (m_pt b)"

definition BlockIndex_isValid :: "BlockIndex \<Rightarrow> bool" where
  "BlockIndex_isValid b \<longleftrightarrow> m_lev b \<ge> 0 \<and> BlockIndex_inBounds b"

definition isDescendantOf :: "BlockIndex \<Rightarrow> BlockIndex \<Rightarrow> bool" where
  "isDescendantOf b ancestor =
     (let levelDiff = m_lev b - m_lev ancestor in
      if levelDiff < 0 \<or> m_lev b < 0 \<or> m_lev ancestor < 0 then False
      else m_pt ((BlockIndex_parent ^^ nat levelDiff) b) = m_pt ancestor)"

definition invalid_index :: "nat \<Rightarrow> BlockIndex" where "invalid_index dim = block (replicate dim 0) (-1)"

section \<open>The octree\<close>

record OctreeBase =
  o_levels :: "OctreeLevel list"
  o_gen :: int

definition maxLeafLevel :: "OctreeBase \<Rightarrow> nat" where "maxLeafLevel oct = length (o_levels oct)"

definition MAX_DENSE_LEV :: nat where "MAX_DENSE_LEV = 4"

definition rep_of :: "nat \<Rightarrow> nat \<Rightarrow> rep" where
  "rep_of dim lev = (if lev \<le> 16 div dim then Morton 16 else if lev \<le> 32 div dim then Morton 32
     else if lev \<le> 64 div dim then Morton 64 else Points)"

definition new_level :: "nat \<Rightarrow> nat \<Rightarrow> int \<Rightarrow> OctreeLevel \<times> int" where
  "new_level dim i gen = (if i \<le> MAX_DENSE_LEV then DenseOctreeLevel dim i gen else (SparseOctreeLevel (rep_of dim i) i, gen))"

fun new_levels :: "nat \<Rightarrow> nat \<Rightarrow> int \<Rightarrow> OctreeLevel list \<times> int" where
  "new_levels dim 0 gen = ([], gen)"
| "new_levels dim (Suc n) gen =
     (let (ls, gen) = new_levels dim n gen; (l, gen) = new_level dim n gen in (ls @ [l], gen))"

definition Octree_root :: "nat \<Rightarrow> BlockIndex" where "Octree_root dim = block (replicate dim 0) 0"

definition put_level :: "int \<Rightarrow> OctreeLevel \<times> int \<Rightarrow> OctreeBase \<Rightarrow> OctreeBase" where
  "put_level lev lg oct = \<lparr>o_levels = (o_levels oct)[nat lev := fst lg], o_gen = snd lg\<rparr>"

definition getOctreeLevel :: "int \<Rightarrow> OctreeBase \<Rightarrow> OctreeLevel option" where
  "getOctreeLevel lev oct = (if 0 \<le> lev \<and> lev < int (length (o_levels oct)) then Some (o_levels oct ! nat lev) else None)"

definition Octree_new :: "nat \<Rightarrow> nat \<Rightarrow> int \<Rightarrow> OctreeBase option" where
  "Octree_new digits dim gen =
     (case new_levels dim digits gen of (ls, gen) \<Rightarrow>
        let oct = \<lparr>o_levels = ls, o_gen = gen\<rparr> in
        Option.bind (getOctreeLevel (m_lev (Octree_root dim)) oct) (\<lambda>l.
        map_option (\<lambda>lg. put_level (m_lev (Octree_root dim)) lg oct) (addAllChildren dim (m_pt (Octree_root dim)) (l, o_gen oct))))"

definition isLevelValid :: "int \<Rightarrow> OctreeBase \<Rightarrow> bool" where
  "isLevelValid lev oct \<longleftrightarrow> lev \<ge> 0 \<and> lev \<le> int (maxLeafLevel oct)"

definition Octree_isLeaf :: "nat \<Rightarrow> BlockIndex \<Rightarrow> OctreeBase \<Rightarrow> bool option" where
  "Octree_isLeaf dim b oct =
     (if isLevelValid (m_lev b) oct then Option.bind (getOctreeLevel (m_lev b) oct) (\<lambda>l. level_isLeaf dim l (m_pt b)) else Some False)"

definition Octree_isInternal :: "nat \<Rightarrow> BlockIndex \<Rightarrow> OctreeBase \<Rightarrow> bool option" where
  "Octree_isInternal dim b oct =
     (if isLevelValid (m_lev b) oct then Option.bind (getOctreeLevel (m_lev b) oct) (\<lambda>l. level_isInternal dim l (m_pt b)) else Some False)"

text \<open>The static casts, with the assertions that the level has the type that is cast to.\<close>

fun checkCast :: "nat \<Rightarrow> int \<Rightarrow> OctreeLevel \<Rightarrow> bool" where
  "checkCast dim lev (Dense lv data n) \<longleftrightarrow> lev \<le> int MAX_DENSE_LEV"
| "checkCast dim lev (Sparse lv rep m) \<longleftrightarrow> lev > int MAX_DENSE_LEV \<and> rep = rep_of dim (nat lev)"

definition typed_level :: "nat \<Rightarrow> int \<Rightarrow> OctreeBase \<Rightarrow> OctreeLevel option" where
  "typed_level dim lev oct = Option.bind (getOctreeLevel lev oct) (\<lambda>l. if checkCast dim lev l then Some l else None)"

definition Octree_hasBlock :: "nat \<Rightarrow> BlockIndex \<Rightarrow> OctreeBase \<Rightarrow> bool option" where
  "Octree_hasBlock dim b oct =
     (if \<not> isLevelValid (m_lev b) oct then Some False
      else Option.bind (typed_level dim (m_lev b) oct) (\<lambda>l. level_hasBlock dim l (m_pt b)))"

definition Octree_blockStatus :: "nat \<Rightarrow> BlockIndex \<Rightarrow> OctreeBase \<Rightarrow> TreeBlockStatus option" where
  "Octree_blockStatus dim b oct =
     (if \<not> isLevelValid (m_lev b) oct then Some BlockNotInTree
      else Option.bind (typed_level dim (m_lev b) oct) (\<lambda>l. level_blockStatus dim l (m_pt b)))"

definition Octree_inBounds :: "BlockIndex \<Rightarrow> OctreeBase \<Rightarrow> bool" where
  "Octree_inBounds b oct \<longleftrightarrow> isLevelValid (m_lev b) oct \<and> BlockIndex_inBounds b"

definition refineLeaf :: "nat \<Rightarrow> BlockIndex \<Rightarrow> OctreeBase \<Rightarrow> OctreeBase option" where
  "refineLeaf dim leafBlock oct =
     (if Octree_isLeaf dim leafBlock oct \<noteq> Some True then None
      else Option.bind (getOctreeLevel (m_lev leafBlock) oct) (\<lambda>l.
           Option.bind (level_modify dim (m_pt leafBlock) bd_setInternal (l, o_gen oct)) (\<lambda>lg.
           let oct = put_level (m_lev leafBlock) lg oct in
           Option.bind (getOctreeLevel (childLevel leafBlock) oct) (\<lambda>cl.
           map_option (\<lambda>lg. put_level (childLevel leafBlock) lg oct) (addAllChildren dim (m_pt leafBlock) (cl, o_gen oct))))))"

text \<open>\<^verbatim>\<open>operator[]\<close>, to read the data of a block or to set it.\<close>

definition Octree_at :: "nat \<Rightarrow> BlockIndex \<Rightarrow> OctreeBase \<Rightarrow> BlockData option" where
  "Octree_at dim b oct =
     (if Octree_hasBlock dim b oct \<noteq> Some True then None
      else Option.bind (typed_level dim (m_lev b) oct) (\<lambda>l. level_at dim l (m_pt b)))"

definition Octree_setData :: "nat \<Rightarrow> BlockIndex \<Rightarrow> int \<Rightarrow> OctreeBase \<Rightarrow> OctreeBase option" where
  "Octree_setData dim b blockID oct =
     (if Octree_hasBlock dim b oct \<noteq> Some True then None
      else Option.bind (typed_level dim (m_lev b) oct) (\<lambda>l.
           map_option (\<lambda>lg. put_level (m_lev b) lg oct) (level_modify dim (m_pt b) (\<lambda>d. blockID) (l, o_gen oct))))"

text \<open>The loop of \<^verbatim>\<open>coveringLeafBlock\<close> over the ancestors.\<close>

fun nearest_ancestor :: "nat \<Rightarrow> nat \<Rightarrow> BlockIndex \<Rightarrow> OctreeBase \<Rightarrow> BlockIndex option" where
  "nearest_ancestor 0 dim b oct = None"
| "nearest_ancestor (Suc fuel) dim b oct =
     (case Octree_hasBlock dim b oct of
        None \<Rightarrow> None
      | Some True \<Rightarrow> Some b
      | Some False \<Rightarrow> nearest_ancestor fuel dim (BlockIndex_parent b) oct)"

definition coveringLeafBlock :: "nat \<Rightarrow> nat \<Rightarrow> BlockIndex \<Rightarrow> bool \<Rightarrow> OctreeBase \<Rightarrow> BlockIndex option" where
  "coveringLeafBlock fuel dim b checkInBounds oct =
     (if checkInBounds \<and> \<not> Octree_inBounds b oct then Some (invalid_index dim)
      else case Octree_blockStatus dim b oct of
             None \<Rightarrow> None
           | Some BlockNotInTree \<Rightarrow>
               Option.bind (nearest_ancestor fuel dim (BlockIndex_parent b) oct) (\<lambda>ancBlk.
               if Octree_isLeaf dim ancBlk oct = Some True then Some ancBlk else None)
           | Some LeafBlock \<Rightarrow> Some b
           | Some InternalBlock \<Rightarrow> Some (invalid_index dim))"

section \<open>Parents and children of block indices\<close>

definition vb :: "nat \<Rightarrow> BlockIndex \<Rightarrow> bool" where
  "vb dim b \<longleftrightarrow> 0 \<le> m_lev b \<and> inb dim (nat (m_lev b)) (m_pt b)"

lemma block_sel [simp]: "m_pt (block pt lev) = pt" "m_lev (block pt lev) = lev" "block (m_pt b) (m_lev b) = b"
  "block p l = block q k \<longleftrightarrow> p = q \<and> l = k"
  by (simp_all add: block_def)

lemma BlockIndex_inBounds_iff: "BlockIndex_inBounds b \<longleftrightarrow> level_inBounds (nat (m_lev b)) (m_pt b)"
  by (simp add: BlockIndex_inBounds_def level_inBounds_def maxCoordAtLevel_def maxCoord_def)

lemma vb_isValid: "vb dim b \<longleftrightarrow> length (m_pt b) = dim \<and> BlockIndex_isValid b"
  by (auto simp: vb_def BlockIndex_isValid_def BlockIndex_inBounds_iff inb_level_inBounds)

lemma bit_nat_index: "0 \<le> i \<Longrightarrow> bit (nat i) d \<longleftrightarrow> bit i d"
  by (metis bit_of_nat_iff_bit int_nat_eq)

lemma childPt_eq:
  assumes "length (m_pt b) = dim" and "0 \<le> ci" and "ci < 2 ^ dim"
  shows "childPt dim ci b = Some (child_pt (m_pt b) (nat ci))"
proof -
  have "(ci AND push_bit d 1 \<noteq> 0) \<longleftrightarrow> bit (nat ci) d" for d
    using assms(2) by (simp add: bit_nat_index and_exp_eq_0_iff_not_bit push_bit_eq_mult)
  then show ?thesis using assms by (simp add: childPt_def child_pt_def)
qed

lemma nat_index_less: "0 \<le> ci \<Longrightarrow> ci < 2 ^ dim \<Longrightarrow> nat ci < 2 ^ dim"
  by (simp add: nat_less_iff)

lemma child_of:
  assumes b: "vb dim b" and ci: "0 \<le> ci" "ci < 2 ^ dim"
  shows "BlockIndex_child dim ci b = Some (block (child_pt (m_pt b) (nat ci)) (m_lev b + 1))"
    and "vb dim (block (child_pt (m_pt b) (nat ci)) (m_lev b + 1))"
    and "BlockIndex_parent (block (child_pt (m_pt b) (nat ci)) (m_lev b + 1)) = b"
    and "low_bits (child_pt (m_pt b) (nat ci)) = nat ci"
proof -
  have len: "length (m_pt b) = dim" using b by (simp add: vb_def inb_def)
  show "BlockIndex_child dim ci b = Some (block (child_pt (m_pt b) (nat ci)) (m_lev b + 1))"
    by (simp add: BlockIndex_child_def childPt_eq [OF len ci] childLevel_def)
  have "nat (m_lev b + 1) - 1 = nat (m_lev b)" "0 < nat (m_lev b + 1)" using b by (auto simp: vb_def)
  then have c: "inb dim (nat (m_lev b + 1)) (child_pt (m_pt b) (nat ci))"
    using child_pt_inb [of dim "nat (m_lev b + 1)" "m_pt b" "nat ci"] b by (simp add: vb_def)
  then show "vb dim (block (child_pt (m_pt b) (nat ci)) (m_lev b + 1))" using b by (simp add: vb_def)
  show "BlockIndex_parent (block (child_pt (m_pt b) (nat ci)) (m_lev b + 1)) = b"
    using map_half [OF c] child_pt_parent [of "m_pt b" "nat ci"] by (simp add: BlockIndex_parent_def parentPt_def parentLevel_def)
  show "low_bits (child_pt (m_pt b) (nat ci)) = nat ci" using low_bits_child_pt [of "nat ci" "m_pt b"] nat_index_less [OF ci] len by simp
qed

lemma parent_of:
  assumes b: "vb dim b" and l: "0 < m_lev b"
  shows "vb dim (BlockIndex_parent b)" and "BlockIndex_child dim (int (low_bits (m_pt b))) (BlockIndex_parent b) = Some b"
proof -
  have e: "nat (m_lev b - 1) = nat (m_lev b) - 1" using l by simp
  show p: "vb dim (BlockIndex_parent b)"
    using inb_half [of dim "nat (m_lev b)" "m_pt b"] b l e by (simp add: vb_def BlockIndex_parent_def parentPt_def parentLevel_def)
  have "inb dim (nat (m_lev b)) (m_pt b)" "length (m_pt b) = dim" using b by (auto simp: vb_def inb_def)
  then have "child_pt (map half (m_pt b)) (low_bits (m_pt b)) = m_pt b" "int (low_bits (m_pt b)) < 2 ^ dim"
    using map_half child_pt_low_bits [of "m_pt b"] low_bits_less [of "m_pt b"] by (metis, metis of_nat_less_iff of_nat_numeral of_nat_power)
  then show "BlockIndex_child dim (int (low_bits (m_pt b))) (BlockIndex_parent b) = Some b"
    using child_of(1) [OF p, of "int (low_bits (m_pt b))"] by (simp add: BlockIndex_parent_def parentPt_def parentLevel_def)
qed

lemma unit_offsets: "i < dim \<Longrightarrow> j < dim \<Longrightarrow> v' = - v \<Longrightarrow> (replicate dim 0)[i := v] ! j + (replicate dim 0)[i := v'] ! j = (0 :: int)"
  by (simp add: nth_list_update)

lemma neighbor_back:
  assumes "length (m_pt b) = dim" and "0 \<le> k" and "k < 2 * int dim"
  shows "\<exists>n. faceNeighbor dim k b = Some n \<and> m_lev n = m_lev b \<and> length (m_pt n) = dim \<and> n \<noteq> b \<and>
    faceNeighbor dim (if even k then k + 1 else k - 1) n = Some b"
proof -
  let ?i = "nat (k div 2)" and ?k = "if even k then k + 1 else k - 1"
  define o1 where "o1 = (replicate dim 0)[?i := (if k mod 2 = 0 then -1 else 1 :: int)]"
  define o2 where "o2 = (replicate dim 0)[?i := (if ?k mod 2 = 0 then -1 else 1 :: int)]"
  have i: "?i < dim" using assms(2,3) by linarith
  have k': "0 \<le> ?k" "?k < 2 * int dim" "?k div 2 = k div 2" "(?k mod 2 = 0) = (k mod 2 \<noteq> 0)" using assms(2,3) by presburger+
  have f: "faceNeighbor dim k b = Some (block (neighborPt dim o1 b) (m_lev b))"
    using assms(2,3) by (simp add: faceNeighbor_def o1_def)
  let ?n = "block (neighborPt dim o1 b) (m_lev b)"
  have len: "length (neighborPt dim o1 b) = dim" by (simp add: neighborPt_def)
  have "(if ?k mod 2 = 0 then -1 else 1 :: int) = - (if k mod 2 = 0 then -1 else 1)" unfolding k'(4) by simp
  then have z: "o1 ! j + o2 ! j = 0" if "j < dim" for j
    unfolding o1_def o2_def using unit_offsets [OF i that] by blast
  have ret: "neighborPt dim o2 ?n = m_pt b"
    by (rule nth_equalityI) (use assms(1) z in \<open>auto simp: neighborPt_def add.assoc\<close>)
  have "faceNeighbor dim ?k ?n = Some b"
    unfolding faceNeighbor_def o2_def [symmetric] using k'(1,2) ret by (simp only: k'(3) o2_def [symmetric] Let_def) simp
  moreover have "neighborPt dim o1 b ! ?i \<noteq> m_pt b ! ?i" using i by (simp add: neighborPt_def o1_def)
  then have "?n \<noteq> b" by (metis block_sel(1))
  ultimately show ?thesis using f len by auto
qed

lemma vb_coord:
  assumes "vb dim b" and "x \<in> set (m_pt b)"
  shows "0 \<le> x \<and> x < 2 ^ nat (m_lev b)"
  using assms by (auto simp: vb_def inb_def)

lemma neighbor_coord:
  assumes "vb dim b" and "faceNeighbor dim k b = Some n" and "x \<in> set (m_pt n)"
  shows "- 1 \<le> x \<and> x \<le> 2 ^ nat (m_lev b)"
proof -
  have len: "length (m_pt b) = dim" using assms(1) by (simp add: vb_def inb_def)
  obtain i v where iv: "m_pt n = neighborPt dim ((replicate dim 0)[i := v]) b" "v = - 1 \<or> v = (1 :: int)"
    using assms(2) by (auto simp: faceNeighbor_def Let_def split: if_splits)
  then obtain j where j: "j < dim" "x = m_pt b ! j + (replicate dim 0)[i := v] ! j" using assms(3) by (auto simp: neighborPt_def)
  have "0 \<le> m_pt b ! j \<and> m_pt b ! j < 2 ^ nat (m_lev b)" using vb_coord [OF assms(1), of "m_pt b ! j"] j(1) len by simp
  then show ?thesis using j iv(2) by (cases "j = i") auto
qed

text \<open>
  C33. Block indices of any dimension on the levels below the \<open>D\<close> digits of the coordinates (31 or 63), where the shift of \<^verbatim>\<open>inBounds\<close> is
  defined: a child of a valid block above the last level is a valid block, its parent is the block again, and its number
  among the siblings can be read off the low bits of its coordinates; every valid block below the root is that child of its
  parent. A face neighbor differs from the block and has the block as its own neighbor across the same face. The coordinates of children and neighbors are
  representable.
\<close>

theorem block_index_navigation:
  assumes "length (m_pt b) = dim" and "BlockIndex_isValid b" and "D \<in> {31, 63}" and "m_lev b < int D"
  shows "(m_lev b + 1 < int D \<longrightarrow> (\<forall>ci. 0 \<le> ci \<and> ci < 2 ^ dim \<longrightarrow> (\<exists>c. BlockIndex_child dim ci b = Some c \<and> BlockIndex_isValid c \<and>
      BlockIndex_parent c = b \<and> point_offset (m_pt c) = ci \<and> (\<forall>x. x \<in> set (m_pt c) \<longrightarrow> 0 \<le> x \<and> x < 2 ^ D)))) \<and>
    (0 < m_lev b \<longrightarrow> BlockIndex_isValid (BlockIndex_parent b) \<and>
      BlockIndex_child dim (point_offset (m_pt b)) (BlockIndex_parent b) = Some b) \<and>
    (\<forall>k. 0 \<le> k \<and> k < 2 * int dim \<longrightarrow> (\<exists>n. faceNeighbor dim k b = Some n \<and> n \<noteq> b \<and> m_lev n = m_lev b \<and>
      faceNeighbor dim (if even k then k + 1 else k - 1) n = Some b \<and> (\<forall>x. x \<in> set (m_pt n) \<longrightarrow> - 1 \<le> x \<and> x < 2 ^ D)))"
proof -
  have b: "vb dim b" using assms(1,2) by (simp add: vb_isValid)
  have less: "(2 :: int) ^ nat l < 2 ^ D" if "l < int D" for l using that assms(3) by (intro power_strict_increasing) auto
  have "\<exists>c. BlockIndex_child dim ci b = Some c \<and> BlockIndex_isValid c \<and> BlockIndex_parent c = b \<and> point_offset (m_pt c) = ci \<and>
      (\<forall>x. x \<in> set (m_pt c) \<longrightarrow> 0 \<le> x \<and> x < 2 ^ D)" if "m_lev b + 1 < int D" "0 \<le> ci" "ci < 2 ^ dim" for ci
  proof -
    note C = child_of [OF b that(2,3)]
    have "0 \<le> x \<and> x < 2 ^ D" if "x \<in> set (child_pt (m_pt b) (nat ci))" for x
      using vb_coord [OF C(2), of x] that less [OF \<open>m_lev b + 1 < int D\<close>] unfolding block_sel by linarith
    then show ?thesis using C that(2) by (simp add: point_offset_low_bits vb_isValid)
  qed
  moreover have "BlockIndex_isValid (BlockIndex_parent b)" "BlockIndex_child dim (point_offset (m_pt b)) (BlockIndex_parent b) = Some b"
    if "0 < m_lev b" using parent_of [OF b that] by (simp_all add: point_offset_low_bits vb_isValid)
  moreover have "\<exists>n. faceNeighbor dim k b = Some n \<and> n \<noteq> b \<and> m_lev n = m_lev b \<and>
      faceNeighbor dim (if even k then k + 1 else k - 1) n = Some b \<and> (\<forall>x. x \<in> set (m_pt n) \<longrightarrow> - 1 \<le> x \<and> x < 2 ^ D)"
    if "0 \<le> k" "k < 2 * int dim" for k
    using neighbor_back [OF assms(1) that] neighbor_coord [OF b] less [OF assms(4)] by (meson le_less_trans)
  ultimately show ?thesis by blast
qed

theorem block_index_navigation_witness:
  "BlockIndex_child 2 (point_offset [5, 2]) (BlockIndex_parent (block [5, 2] 3)) = Some (block [5, 2] 3)"
proof -
  have "BlockIndex_isValid (block [5, 2] 3)" by (simp add: BlockIndex_isValid_def BlockIndex_inBounds_def maxCoordAtLevel_def)
  then show ?thesis using block_index_navigation [of "block [5, 2] 3" 2 31] by simp
qed

section \<open>The tree as a set of internal blocks\<close>

definition spec_status :: "(GridPt \<times> nat) set \<Rightarrow> GridPt \<Rightarrow> nat \<Rightarrow> TreeBlockStatus" where
  "spec_status I pt lev =
     (if (pt, lev) \<in> I then InternalBlock else if lev = 0 \<or> (map half pt, lev - 1) \<in> I then LeafBlock else BlockNotInTree)"

definition internals_ok :: "nat \<Rightarrow> nat \<Rightarrow> (GridPt \<times> nat) set \<Rightarrow> bool" where
  "internals_ok D dim I \<longleftrightarrow> (\<forall>(pt, lev) \<in> I. inb dim lev pt \<and> Suc lev < D \<and> (0 < lev \<longrightarrow> (map half pt, lev - 1) \<in> I))"

definition level_shows :: "nat \<Rightarrow> (GridPt \<times> nat) set \<Rightarrow> nat \<Rightarrow> OctreeLevel \<Rightarrow> bool" where
  "level_shows dim I i l \<longleftrightarrow> level_ok dim i l \<and> checkCast dim (int i) l \<and>
     (\<forall>pt. inb dim i pt \<longrightarrow> level_blockStatus dim l pt = Some (spec_status I pt i))"

definition oct_rep :: "nat \<Rightarrow> nat \<Rightarrow> (GridPt \<times> nat) set \<Rightarrow> OctreeBase \<Rightarrow> bool" where
  "oct_rep D dim I oct \<longleftrightarrow> D \<in> {31, 63} \<and> dim \<in> {2, 3} \<and> length (o_levels oct) = D \<and> 0 < o_gen oct \<and> internals_ok D dim I \<and>
     (\<forall>i < D. level_shows dim I i (o_levels oct ! i))"

lemma checkCast_add: "addAllChildren dim q (l, g) = Some (l', g') \<Longrightarrow> checkCast dim' lev l' = checkCast dim' lev l"
  by (cases l) (auto simp: Let_def new_brood_def split: if_splits option.splits)

lemma checkCast_modify: "level_modify dim pt f (l, g) = Some (l', g') \<Longrightarrow> checkCast dim' lev l' = checkCast dim' lev l"
  by (cases l) (auto simp: new_brood_def Let_def split: if_splits option.splits prod.splits key.splits)

lemma oct_repD:
  assumes "oct_rep D dim I oct" and "i < D"
  shows "level_ok dim i (o_levels oct ! i)" and "checkCast dim (int i) (o_levels oct ! i)"
    and "inb dim i pt \<Longrightarrow> level_blockStatus dim (o_levels oct ! i) pt = Some (spec_status I pt i)"
    and "getOctreeLevel (int i) oct = Some (o_levels oct ! i)" and "isLevelValid (int i) oct"
  using assms by (auto simp: oct_rep_def level_shows_def getOctreeLevel_def isLevelValid_def maxLeafLevel_def)

text \<open>Valid blocks on the levels of the tree.\<close>

definition tree_block :: "nat \<Rightarrow> nat \<Rightarrow> BlockIndex \<Rightarrow> bool" where
  "tree_block D dim b \<longleftrightarrow> vb dim b \<and> m_lev b < int D"

lemma tree_blockE:
  assumes "tree_block D dim b"
  obtains i where "b = block (m_pt b) (int i)" and "m_lev b = int i" and "i < D" and "inb dim i (m_pt b)"
proof
  show "m_lev b = int (nat (m_lev b))" "nat (m_lev b) < D" "inb dim (nat (m_lev b)) (m_pt b)" "b = block (m_pt b) (int (nat (m_lev b)))"
    using assms by (auto simp: tree_block_def vb_def)
qed

abbreviation block_status :: "(GridPt \<times> nat) set \<Rightarrow> BlockIndex \<Rightarrow> TreeBlockStatus" where
  "block_status I b \<equiv> spec_status I (m_pt b) (nat (m_lev b))"

lemma queries:
  assumes oct: "oct_rep D dim I oct" and b: "tree_block D dim b"
  shows "Octree_blockStatus dim b oct = Some (block_status I b)" and "Octree_hasBlock dim b oct = Some (block_status I b \<noteq> BlockNotInTree)"
    and "Octree_isLeaf dim b oct = Some (block_status I b = LeafBlock)" and "Octree_isInternal dim b oct = Some (block_status I b = InternalBlock)"
proof -
  obtain i where i: "m_lev b = int i" "i < D" "inb dim i (m_pt b)" using b by (rule tree_blockE)
  note D = oct_repD [OF oct i(2)]
  have t: "typed_level dim (int i) oct = Some (o_levels oct ! i)" using D(2,4) by (simp add: typed_level_def)
  show "Octree_blockStatus dim b oct = Some (block_status I b)" using D(3,5) i t by (simp add: Octree_blockStatus_def)
  show "Octree_hasBlock dim b oct = Some (block_status I b \<noteq> BlockNotInTree)"
    using tree_level.has_status [OF D(1) i(3)] D(3) [OF i(3)] D(5) i(1) t by (simp add: Octree_hasBlock_def)
  show "Octree_isLeaf dim b oct = Some (block_status I b = LeafBlock)" "Octree_isInternal dim b oct = Some (block_status I b = InternalBlock)"
    using D(3) [OF i(3)] D(4,5) i(1) by (simp_all add: Octree_isLeaf_def Octree_isInternal_def level_isLeaf_def level_isInternal_def)
qed

section \<open>The tree of the root\<close>

lemma rep_of_fits: "dim \<in> {2, 3} \<Longrightarrow> rep_fits dim lev (rep_of dim lev)"
  by (auto simp: rep_of_def rep_fits_def morton_dims_def)

lemma new_level_ok:
  assumes dim: "dim \<in> {2, 3}"
  shows "level_shows dim {} i (fst (new_level dim i g)) \<or> i = 0" and "level_ok dim i (fst (new_level dim i g))"
    and "checkCast dim (int i) (fst (new_level dim i g))" and "g \<le> snd (new_level dim i g)"
    and "inb dim i pt \<Longrightarrow> level_blockStatus dim (fst (new_level dim i g)) pt = Some BlockNotInTree"
proof -
  let ?l = "fst (new_level dim i g)"
  show g: "g \<le> snd (new_level dim i g)" by (simp add: new_level_def DenseOctreeLevel_def Let_def)
  have dense: "?l = Dense i (replicate (2 ^ (dim * (i - 1))) (replicate (2 ^ dim) NON_BLOCK)) 0" if "i \<le> 4"
    using that by (simp add: new_level_def MAX_DENSE_LEV_def DenseOctreeLevel_def Let_def power_mult [symmetric] mult.commute)
  show c: "checkCast dim (int i) ?l"
    by (simp add: new_level_def MAX_DENSE_LEV_def DenseOctreeLevel_def SparseOctreeLevel_def Let_def)
  show ok: "level_ok dim i ?l"
  proof (cases "i \<le> 4")
    case True
    have "dim * i \<le> 16" using True dim by auto
    then have "rep_fits dim i (Morton 16)" using dim by (auto simp: rep_fits_def morton_dims_def)
    then show ?thesis unfolding dense [OF True]
      by (auto simp: brood_ok_def block_count_def NON_BLOCK_def bd_isBlock_def filter_empty_conv)
  next
    case False
    then show ?thesis using rep_of_fits [OF dim] by (simp add: new_level_def MAX_DENSE_LEV_def SparseOctreeLevel_def)
  qed
  show s: "level_blockStatus dim ?l pt = Some BlockNotInTree" if "inb dim i pt" for pt
  proof (cases "i \<le> 4")
    case True
    have off: "low_bits pt < 2 ^ dim" using low_bits_less [of pt] that by (simp add: inb_def)
    have "brood_data ?l (map half pt) = Some (replicate (2 ^ dim) NON_BLOCK)"
      using dense_index(1,2) [OF ok [unfolded dense [OF True]] inb_half [OF that]] unfolding dense [OF True] by simp
    then show ?thesis using level_status_brood(1) [OF ok that] off by (simp add: datum_status_simps)
  next
    case False
    then show ?thesis by (simp add: new_level_def MAX_DENSE_LEV_def SparseOctreeLevel_def split: prod.splits)
  qed
  then show "level_shows dim {} i ?l \<or> i = 0" using ok c by (auto simp: level_shows_def spec_status_def)
qed

lemma new_levels_ok:
  assumes "dim \<in> {2, 3}"
  shows "length (fst (new_levels dim n g)) = n \<and> g \<le> snd (new_levels dim n g) \<and>
    (\<forall>i < n. \<exists>g'. fst (new_levels dim n g) ! i = fst (new_level dim i g'))"
proof (induction n)
  case (Suc n)
  obtain ls g1 where n: "new_levels dim n g = (ls, g1)" by fastforce
  obtain l g2 where l: "new_level dim n g1 = (l, g2)" by fastforce
  have "g1 \<le> g2" using new_level_ok(4) [OF assms, of g1 n] l by simp
  moreover have "\<exists>g'. (ls @ [l]) ! i = fst (new_level dim i g')" if "i < Suc n" for i
  proof (cases "i = n")
    case True
    then show ?thesis using Suc n l by (intro exI [of _ g1]) (simp add: nth_append)
  next
    case False
    then show ?thesis using Suc n that by (auto simp: nth_append)
  qed
  ultimately show ?case using Suc n l by auto
qed simp

lemma Octree_new_ok:
  assumes D: "D \<in> {31, 63}" and dim: "dim \<in> {2, 3}" and g: "0 < g"
  shows "\<exists>oct. Octree_new D dim g = Some oct \<and> oct_rep D dim {} oct"
proof -
  obtain ls g1 where n: "new_levels dim D g = (ls, g1)" by fastforce
  have L: "length ls = D" "0 < g1" "\<And>i. i < D \<Longrightarrow> \<exists>g'. ls ! i = fst (new_level dim i g')"
    using new_levels_ok [OF dim, of D g] n g by auto
  have r: "inb dim (0 - 1) (replicate dim 0)" "inb dim 0 (replicate dim 0)" by (auto simp: inb_def)
  obtain g' where l0: "ls ! 0 = fst (new_level dim 0 g')" using L(3) [of 0] D by auto
  have ok0: "level_ok dim 0 (ls ! 0)" using new_level_ok(2) [OF dim] l0 by simp
  obtain l g2 where l: "addAllChildren dim (replicate dim 0) (ls ! 0, g1) = Some (l, g2)" "level_ok dim 0 l" "g1 \<le> g2"
      "\<And>pt. inb dim 0 pt \<Longrightarrow> level_blockStatus dim l pt = (if map half pt = replicate dim 0 then Some LeafBlock else level_blockStatus dim (ls ! 0) pt)"
    using tree_level.add_status [OF ok0 r(1) L(2)] new_level_ok(5) [OF dim, of 0] l0 by auto
  let ?oct = "\<lparr>o_levels = ls[0 := l], o_gen = g2\<rparr>"
  have "ls \<noteq> []" using L(1) D by auto
  then have "Octree_new D dim g = Some ?oct"
    using l(1) by (simp add: Octree_new_def n Octree_root_def getOctreeLevel_def put_level_def)
  moreover have "level_shows dim {} i (ls[0 := l] ! i)" if i: "i < D" for i
  proof (cases "i = 0")
    case True
    have "checkCast dim 0 l" using checkCast_add [OF l(1)] new_level_ok(3) [OF dim, of 0 g'] l0 by simp
    moreover have "map half pt = replicate dim 0" if "inb dim 0 pt" for pt using that by (auto simp: inb_0 half_def)
    ultimately show ?thesis using l(2,4) True L(1) D by (auto simp: level_shows_def spec_status_def)
  next
    case False
    obtain g3 where "ls ! i = fst (new_level dim i g3)" using L(3) [OF i] by blast
    then show ?thesis using new_level_ok(1) [OF dim, of i g3] False by simp
  qed
  ultimately show ?thesis using D dim L(1,2) l(3) by (auto simp: oct_rep_def internals_ok_def)
qed

section \<open>Refinement\<close>

text \<open>What becomes of the status of every block when a leaf is refined.\<close>

lemma internals_okD:
  assumes "internals_ok D dim I" and "(pt, lev) \<in> I"
  shows "inb dim lev pt" and "Suc lev < D" and "0 < lev \<Longrightarrow> (map half pt, lev - 1) \<in> I"
  using assms by (auto simp: internals_ok_def)

lemma spec_status_refined:
  assumes I: "internals_ok D dim I" and leaf: "spec_status I pt lev = LeafBlock"
  shows "spec_status (insert (pt, lev) I) p i =
    (if p = pt \<and> i = lev then InternalBlock else if i = Suc lev \<and> map half p = pt then LeafBlock else spec_status I p i)"
proof -
  have "(pt, lev) \<notin> I" using leaf by (auto simp: spec_status_def split: if_splits)
  then have "(p, Suc lev) \<notin> I" if "map half p = pt" for p using internals_okD(3) [OF I, of p "Suc lev"] that by auto
  then show ?thesis by (auto simp: spec_status_def)
qed

lemma child_absent:
  assumes I: "internals_ok D dim I" and leaf: "spec_status I pt lev = LeafBlock" and "map half p = pt"
  shows "spec_status I p (Suc lev) = BlockNotInTree"
proof -
  have n: "(pt, lev) \<notin> I" using leaf by (auto simp: spec_status_def split: if_splits)
  then have "(p, Suc lev) \<notin> I" using internals_okD(3) [OF I, of p "Suc lev"] assms(3) by auto
  with n show ?thesis using assms(3) by (simp add: spec_status_def)
qed

lemma internals_ok_refined:
  assumes "internals_ok D dim I" and "inb dim lev pt" and "Suc lev < D" and "spec_status I pt lev = LeafBlock"
  shows "internals_ok D dim (insert (pt, lev) I)"
  using assms by (auto simp: internals_ok_def spec_status_def split: if_splits)

lemma refine_ok:
  assumes oct: "oct_rep D dim I oct" and b: "tree_block D dim b" and lev: "m_lev b + 1 < int D" and leaf: "block_status I b = LeafBlock"
  shows "\<exists>oct'. refineLeaf dim b oct = Some oct' \<and> oct_rep D dim (insert (m_pt b, nat (m_lev b)) I) oct'"
proof -
  obtain i where i: "m_lev b = int i" "i < D" "inb dim i (m_pt b)" using b by (rule tree_blockE)
  have si: "Suc i < D" using lev i(1) by simp
  let ?ls = "o_levels oct" and ?pt = "m_pt b" and ?I = "insert (m_pt b, i) I"
  have len: "length ?ls = D" and g: "0 < o_gen oct" and I: "internals_ok D dim I" and dim: "dim \<in> {2, 3}"
    using oct by (auto simp: oct_rep_def)
  note D = oct_repD [OF oct i(2)] and E = oct_repD [OF oct si]
  have leaf': "spec_status I ?pt i = LeafBlock" using leaf i(1) by simp
  have st: "level_blockStatus dim (?ls ! i) ?pt = Some LeafBlock" using D(3) [OF i(3)] leaf' by simp
  obtain l where l: "level_modify dim ?pt bd_setInternal (?ls ! i, o_gen oct) = Some (l, o_gen oct)" "level_ok dim i l"
      "\<And>p. inb dim i p \<Longrightarrow> level_blockStatus dim l p = (if p = ?pt then Some InternalBlock else level_blockStatus dim (?ls ! i) p)"
    using tree_level.internal_status [OF D(1) i(3) st, of "o_gen oct"] by blast
  have q: "inb dim (Suc i - 1) ?pt" using i(3) by simp
  have none: "level_blockStatus dim (?ls ! Suc i) p = Some BlockNotInTree" if "inb dim (Suc i) p" "map half p = ?pt" for p
    using E(3) [OF that(1)] child_absent [OF I leaf' that(2)] by simp
  obtain c g' where c: "addAllChildren dim ?pt (?ls ! Suc i, o_gen oct) = Some (c, g')" "level_ok dim (Suc i) c" "o_gen oct \<le> g'"
      "\<And>p. inb dim (Suc i) p \<Longrightarrow> level_blockStatus dim c p = (if map half p = ?pt then Some LeafBlock else level_blockStatus dim (?ls ! Suc i) p)"
    using tree_level.add_status [OF E(1) q g none] by blast
  let ?oct = "\<lparr>o_levels = ?ls[i := l, Suc i := c], o_gen = g'\<rparr>"
  have n: "nat (int i + 1) = Suc i" by simp
  have "refineLeaf dim b oct = Some ?oct"
    using queries(3) [OF oct b] leaf D(4) l(1) c(1) i(1) si len by (simp add: refineLeaf_def childLevel_def getOctreeLevel_def put_level_def n)
  moreover have "level_shows dim ?I j (?ls[i := l, Suc i := c] ! j)" if j: "j < D" for j
  proof -
    note S = spec_status_refined [OF I leaf', of _ j]
    consider "j = i" | "j = Suc i" | "j \<noteq> i" "j \<noteq> Suc i" by blast
    then show ?thesis
    proof cases
      case 1
      then show ?thesis using l(2,3) D(2,3) checkCast_modify [OF l(1)] len j S by (simp add: level_shows_def)
    next
      case 2
      then show ?thesis using c(2,4) E(2,3) checkCast_add [OF c(1)] len j S by (simp add: level_shows_def)
    next
      case 3
      then show ?thesis using oct_repD [OF oct j] S by (simp add: level_shows_def)
    qed
  qed
  ultimately show ?thesis
    using internals_ok_refined [OF I i(3) si leaf'] len g c(3) dim i(1) oct by (simp add: oct_rep_def)
qed

section \<open>Ancestors\<close>

definition ancestor :: "nat \<Rightarrow> BlockIndex \<Rightarrow> BlockIndex" where
  "ancestor n b = (BlockIndex_parent ^^ n) b"

lemma ancestor_simps [simp]: "ancestor 0 b = b" "ancestor (Suc n) b = BlockIndex_parent (ancestor n b)"
  "ancestor n (BlockIndex_parent b) = ancestor (Suc n) b"
  by (simp_all add: ancestor_def funpow_swap1)

lemma ancestor_lev [simp]: "m_lev (ancestor n b) = m_lev b - int n"
  by (induction n) (simp_all add: BlockIndex_parent_def parentLevel_def)

lemma ancestor_add: "ancestor m (ancestor n b) = ancestor (m + n) b"
  by (simp add: ancestor_def funpow_add)

lemma ancestor_tree_block: "tree_block D dim b \<Longrightarrow> int n \<le> m_lev b \<Longrightarrow> tree_block D dim (ancestor n b)"
proof (induction n)
  case (Suc n)
  then have t: "tree_block D dim (ancestor n b)" and "0 < m_lev (ancestor n b)" by auto
  then have "vb dim (BlockIndex_parent (ancestor n b))" using parent_of(1) by (simp add: tree_block_def)
  then show ?case using t by (simp add: tree_block_def BlockIndex_parent_def parentLevel_def)
qed simp

lemma isDescendantOf_iff: "isDescendantOf b a \<longleftrightarrow> 0 \<le> m_lev a \<and> (\<exists>n. int n \<le> m_lev b \<and> ancestor n b = a)"
proof
  assume d: "isDescendantOf b a"
  let ?n = "nat (m_lev b - m_lev a)"
  from d have l: "m_lev a \<le> m_lev b" "0 \<le> m_lev a" "m_pt (ancestor ?n b) = m_pt a"
    by (auto simp: isDescendantOf_def Let_def ancestor_def split: if_splits)
  then have "ancestor ?n b = a" using ancestor_lev [of ?n b] by (metis block_sel(3) diff_ge_0_iff_ge diff_diff_eq2 add_diff_cancel_left' int_nat_eq)
  then show "0 \<le> m_lev a \<and> (\<exists>n. int n \<le> m_lev b \<and> ancestor n b = a)" using l by (intro conjI exI [of _ ?n]) auto
next
  assume "0 \<le> m_lev a \<and> (\<exists>n. int n \<le> m_lev b \<and> ancestor n b = a)"
  then obtain n where "0 \<le> m_lev a" "int n \<le> m_lev b" "ancestor n b = a" by blast
  moreover from this have "m_lev a = m_lev b - int n" using ancestor_lev [of n b] by simp
  ultimately show "isDescendantOf b a" by (auto simp: isDescendantOf_def Let_def ancestor_def)
qed

text \<open>The proper ancestors of a block in the tree are internal; the parent of a block outside is outside or a leaf.\<close>

lemma parent_status:
  assumes I: "internals_ok D dim I" and b: "tree_block D dim b" "0 < m_lev b"
  shows "block_status I b \<noteq> BlockNotInTree \<longleftrightarrow> block_status I (BlockIndex_parent b) = InternalBlock"
proof -
  obtain i where i: "m_lev b = int i" "i < D" "inb dim i (m_pt b)" using b(1) by (rule tree_blockE)
  have "nat (int i - 1) = i - 1" by simp
  then show ?thesis
    using internals_okD(3) [OF I, of "m_pt b" i] i(1) b(2)
    by (auto simp: spec_status_def BlockIndex_parent_def parentPt_def parentLevel_def)
qed

lemma ancestors_internal:
  assumes I: "internals_ok D dim I" and b: "tree_block D dim b" "block_status I b \<noteq> BlockNotInTree" and n: "0 < n" "int n \<le> m_lev b"
  shows "block_status I (ancestor n b) = InternalBlock"
  using n
proof (induction n)
  case (Suc n)
  have t: "tree_block D dim (ancestor n b)" "0 < m_lev (ancestor n b)" using Suc.prems ancestor_tree_block [OF b(1), of n] by auto
  have "block_status I (ancestor n b) \<noteq> BlockNotInTree"
    using Suc b(2) by (cases n) auto
  then show ?case using parent_status [OF I t] by simp
qed simp

lemma nearest_ok:
  assumes oct: "oct_rep D dim I oct" and b: "tree_block D dim b" "block_status I b \<noteq> InternalBlock" and "m_lev b < int fuel"
  shows "\<exists>n. int n \<le> m_lev b \<and> nearest_ancestor fuel dim b oct = Some (ancestor n b) \<and> block_status I (ancestor n b) = LeafBlock"
  using b assms(4)
proof (induction fuel arbitrary: b)
  case 0
  then show ?case by (simp add: tree_block_def vb_def)
next
  case (Suc fuel)
  have I: "internals_ok D dim I" using oct by (simp add: oct_rep_def)
  note has = queries(2) [OF oct Suc.prems(1)]
  show ?case
  proof (cases "block_status I b = BlockNotInTree")
    case False
    then have "block_status I b = LeafBlock" using Suc.prems(2) TreeBlockStatus.exhaust by blast
    then show ?thesis using has Suc.prems(1) by (intro exI [of _ 0]) (simp add: tree_block_def vb_def)
  next
    case True
    then have l: "0 < m_lev b" using Suc.prems(1) by (cases "m_lev b = 0") (auto simp: spec_status_def tree_block_def vb_def split: if_splits)
    have p: "tree_block D dim (BlockIndex_parent b)" using ancestor_tree_block [OF Suc.prems(1), of 1] l by simp
    have lp: "m_lev (BlockIndex_parent b) = m_lev b - 1" by (simp add: BlockIndex_parent_def parentLevel_def)
    have "block_status I (BlockIndex_parent b) \<noteq> InternalBlock" using parent_status [OF I Suc.prems(1) l] True by simp
    then obtain n where "int n \<le> m_lev b - 1" "nearest_ancestor fuel dim (BlockIndex_parent b) oct = Some (ancestor n (BlockIndex_parent b))"
        "block_status I (ancestor n (BlockIndex_parent b)) = LeafBlock"
      using Suc.IH [OF p] Suc.prems(3) lp by auto
    then show ?thesis using has True by (intro exI [of _ "Suc n"]) simp
  qed
qed

lemma leaf_above_unique:
  assumes I: "internals_ok D dim I" and b: "tree_block D dim b" and m: "int m \<le> m_lev b" "block_status I (ancestor m b) = LeafBlock"
    and n: "int n \<le> m_lev b" "block_status I (ancestor n b) = LeafBlock"
  shows "ancestor m b = ancestor n b"
proof -
  have less: False if "int k \<le> m_lev b" "block_status I (ancestor k b) = LeafBlock" "int l \<le> m_lev b" "block_status I (ancestor l b) = LeafBlock" "k < l" for k l
  proof -
    have "ancestor l b = ancestor (l - k) (ancestor k b)" using that(5) by (simp add: ancestor_add)
    moreover have "block_status I (ancestor (l - k) (ancestor k b)) = InternalBlock"
      using ancestors_internal [OF I ancestor_tree_block [OF b that(1)], of "l - k"] that by (simp add: of_nat_diff)
    ultimately show False using that(4) by simp
  qed
  show ?thesis using less [of m n] less [of n m] m n by (cases m n rule: linorder_cases) auto
qed

section \<open>Reachable trees\<close>

inductive octree_reachable :: "nat \<Rightarrow> nat \<Rightarrow> OctreeBase \<Rightarrow> bool" where
  reach_new: "D \<in> {31, 63} \<Longrightarrow> dim \<in> {2, 3} \<Longrightarrow> 0 < gen \<Longrightarrow> Octree_new D dim gen = Some oct \<Longrightarrow> octree_reachable D dim oct"
| reach_refine: "octree_reachable D dim oct \<Longrightarrow> tree_block D dim b \<Longrightarrow> refineLeaf dim b oct = Some oct' \<Longrightarrow> octree_reachable D dim oct'"

lemma refine_last:
  assumes "oct_rep D dim I oct" and "tree_block D dim b" and "\<not> m_lev b + 1 < int D"
  shows "refineLeaf dim b oct = None"
proof -
  have "getOctreeLevel (m_lev b + 1) (put_level k lg oct) = None" for k lg
    using assms by (auto simp: getOctreeLevel_def put_level_def oct_rep_def)
  then show ?thesis
    by (cases "getOctreeLevel (m_lev b) oct"; cases "level_modify dim (m_pt b) bd_setInternal (the (getOctreeLevel (m_lev b) oct), o_gen oct)")
      (simp_all add: refineLeaf_def childLevel_def Let_def)
qed

lemma reachable_rep: "octree_reachable D dim oct \<Longrightarrow> \<exists>I. oct_rep D dim I oct"
proof (induction rule: octree_reachable.induct)
  case (reach_new D dim gen oct)
  then show ?case using Octree_new_ok [of D dim gen] by fastforce
next
  case (reach_refine D dim oct b oct')
  then obtain I where I: "oct_rep D dim I oct" by blast
  have "Octree_isLeaf dim b oct = Some True" using reach_refine.hyps(3) by (auto simp: refineLeaf_def split: if_splits)
  then have "block_status I b = LeafBlock" using queries(3) [OF I reach_refine.hyps(2)] by simp
  moreover have "m_lev b + 1 < int D" using refine_last [OF I reach_refine.hyps(2)] reach_refine.hyps(3) by fastforce
  ultimately show ?case using refine_ok [OF I reach_refine.hyps(2)] reach_refine.hyps(3) by fastforce
qed

text \<open>
  C7. The octree is a tree in every reachable state: all queries about valid blocks on its 31 or 63 levels return, the root is in the tree, a block below the root
  is in the tree exactly when its parent is an internal block, and a block is a leaf or internal exactly when it is in the
  tree, never both. It does not matter whether the level of a block is a dense array or a hash map, nor which width its Morton indices have.
\<close>

theorem octree_invariant:
  assumes "octree_reachable D dim oct" and "tree_block D dim b"
  shows "\<exists>leaf internal. Octree_isLeaf dim b oct = Some leaf \<and> Octree_isInternal dim b oct = Some internal \<and>
    Octree_hasBlock dim b oct = Some (leaf \<or> internal) \<and> \<not> (leaf \<and> internal) \<and> (m_lev b = 0 \<longrightarrow> leaf \<or> internal) \<and>
    (0 < m_lev b \<longrightarrow> Octree_isInternal dim (BlockIndex_parent b) oct = Some (leaf \<or> internal))"
proof -
  obtain I where I: "oct_rep D dim I oct" using reachable_rep [OF assms(1)] by blast
  have ok: "internals_ok D dim I" using I by (simp add: oct_rep_def)
  note Q = queries [OF I assms(2)]
  have s: "block_status I b \<noteq> BlockNotInTree \<longleftrightarrow> block_status I b = LeafBlock \<or> block_status I b = InternalBlock"
    by (cases "block_status I b") auto
  have "block_status I b \<noteq> BlockNotInTree" if "m_lev b = 0" using that by (simp add: spec_status_def)
  moreover have "Octree_isInternal dim (BlockIndex_parent b) oct = Some (block_status I b \<noteq> BlockNotInTree)" if "0 < m_lev b"
    using queries(4) [OF I, of "BlockIndex_parent b"] ancestor_tree_block [OF assms(2), of 1] that parent_status [OF ok assms(2) that] by simp
  ultimately show ?thesis using Q(2-4) s by auto
qed

text \<open>
  C8. \<^verbatim>\<open>refineLeaf\<close> on a leaf above the last level returns a reachable tree in which that leaf is internal, its children
  are leaves, and every other block has the status it had before.
\<close>

theorem octree_refine_exact:
  assumes "octree_reachable D dim oct" and "tree_block D dim b" and "Octree_isLeaf dim b oct = Some True" and "m_lev b + 1 < int D"
  shows "\<exists>oct'. refineLeaf dim b oct = Some oct' \<and> octree_reachable D dim oct' \<and>
    (\<forall>c. tree_block D dim c \<longrightarrow> Octree_blockStatus dim c oct' =
      (if c = b then Some InternalBlock else if BlockIndex_parent c = b then Some LeafBlock else Octree_blockStatus dim c oct))"
proof -
  obtain I where I: "oct_rep D dim I oct" using reachable_rep [OF assms(1)] by blast
  have ok: "internals_ok D dim I" using I by (simp add: oct_rep_def)
  have leaf: "block_status I b = LeafBlock" using queries(3) [OF I assms(2)] assms(3) by simp
  obtain oct' where o: "refineLeaf dim b oct = Some oct'" "oct_rep D dim (insert (m_pt b, nat (m_lev b)) I) oct'"
    using refine_ok [OF I assms(2,4) leaf] by blast
  have "Octree_blockStatus dim c oct' =
      (if c = b then Some InternalBlock else if BlockIndex_parent c = b then Some LeafBlock else Octree_blockStatus dim c oct)"
    if c: "tree_block D dim c" for c
  proof -
    have lv: "0 \<le> m_lev c" "0 \<le> m_lev b" using c assms(2) by (auto simp: tree_block_def vb_def)
    have "c = b \<longleftrightarrow> m_pt c = m_pt b \<and> nat (m_lev c) = nat (m_lev b)" using lv by (cases c; cases b) auto
    moreover have "BlockIndex_parent c = b \<longleftrightarrow> nat (m_lev c) = Suc (nat (m_lev b)) \<and> map half (m_pt c) = m_pt b"
      using lv by (cases c; cases b) (auto simp: BlockIndex_parent_def parentPt_def parentLevel_def block_def)
    ultimately show ?thesis using queries(1) [OF o(2) c] queries(1) [OF I c] spec_status_refined [OF ok leaf] by simp
  qed
  then show ?thesis using o(1) reach_refine [OF assms(1,2) o(1)] by blast
qed

text \<open>
  C9. The leaves of a reachable tree cover the domain without overlap: for a valid block that is not internal \<^verbatim>\<open>coveringLeafBlock\<close> returns
  after at most as many steps as the level of the block, with the only leaf that the block is a descendant of; for an internal
  block and for one out of bounds it returns the invalid index.
\<close>

theorem octree_covering_leaf:
  assumes "octree_reachable D dim oct" and "tree_block D dim b"
  shows "(Octree_isInternal dim b oct = Some True \<longrightarrow> coveringLeafBlock D dim b check oct = Some (invalid_index dim)) \<and>
    (Octree_isInternal dim b oct = Some False \<longrightarrow> (\<exists>r. coveringLeafBlock D dim b check oct = Some r \<and> tree_block D dim r \<and>
      (\<forall>a. tree_block D dim a \<longrightarrow> (Octree_isLeaf dim a oct = Some True \<and> isDescendantOf b a \<longleftrightarrow> a = r)))) \<and>
    (\<not> Octree_inBounds c oct \<longrightarrow> coveringLeafBlock D dim c True oct = Some (invalid_index dim))"
proof -
  obtain I where I: "oct_rep D dim I oct" using reachable_rep [OF assms(1)] by blast
  have ok: "internals_ok D dim I" using I by (simp add: oct_rep_def)
  note Q = queries [OF I assms(2)]
  have lev: "0 \<le> m_lev b" "m_lev b < int D" "BlockIndex_inBounds b" "isLevelValid (m_lev b) oct"
    using assms(2) I by (auto simp: tree_block_def oct_rep_def maxLeafLevel_def vb_isValid BlockIndex_isValid_def isLevelValid_def)
  then have inside: "Octree_inBounds b oct" by (simp add: Octree_inBounds_def)
  have "\<exists>r. coveringLeafBlock D dim b check oct = Some r \<and> tree_block D dim r \<and>
      (\<forall>a. tree_block D dim a \<longrightarrow> (Octree_isLeaf dim a oct = Some True \<and> isDescendantOf b a \<longleftrightarrow> a = r))"
    if ni: "block_status I b \<noteq> InternalBlock"
  proof -
    obtain n where n: "int n \<le> m_lev b" "nearest_ancestor (Suc D) dim b oct = Some (ancestor n b)" "block_status I (ancestor n b) = LeafBlock"
      using nearest_ok [OF I assms(2) ni, of "Suc D"] lev(2) by auto
    have t: "tree_block D dim (ancestor n b)" using ancestor_tree_block [OF assms(2) n(1)] .
    have "coveringLeafBlock D dim b check oct = Some (ancestor n b)"
    proof (cases "block_status I b = LeafBlock")
      case True
      then have "ancestor n b = ancestor 0 b" using leaf_above_unique [OF ok assms(2) n(1,3), of 0] lev(1) by simp
      then show ?thesis using True Q(1) inside by (simp add: coveringLeafBlock_def)
    next
      case False
      then have no: "block_status I b = BlockNotInTree" using ni TreeBlockStatus.exhaust by blast
      have "nearest_ancestor D dim (BlockIndex_parent b) oct = Some (ancestor n b)"
        using n(2) Q(2) no nearest_ancestor.simps(2) [of D dim b oct] by simp
      then show ?thesis using no Q(1) inside queries(3) [OF I t] n(3) by (simp add: coveringLeafBlock_def)
    qed
    moreover have "Octree_isLeaf dim a oct = Some True \<and> isDescendantOf b a \<longleftrightarrow> a = ancestor n b" if a: "tree_block D dim a" for a
    proof
      assume "Octree_isLeaf dim a oct = Some True \<and> isDescendantOf b a"
      then obtain m where "int m \<le> m_lev b" "ancestor m b = a" "block_status I a = LeafBlock"
        using queries(3) [OF I a] by (auto simp: isDescendantOf_iff)
      then show "a = ancestor n b" using leaf_above_unique [OF ok assms(2) _ _ n(1,3), of m] by simp
    next
      assume e: "a = ancestor n b"
      then have "isDescendantOf b a" using n(1) by (auto simp: isDescendantOf_iff)
      then show "Octree_isLeaf dim a oct = Some True \<and> isDescendantOf b a" using queries(3) [OF I a] n(3) e by simp
    qed
    ultimately show ?thesis using t by blast
  qed
  moreover have "coveringLeafBlock D dim b check oct = Some (invalid_index dim)" if "block_status I b = InternalBlock"
    using that Q(1) inside by (simp add: coveringLeafBlock_def)
  ultimately show ?thesis using Q(4) by (auto simp: coveringLeafBlock_def)
qed


section \<open>The tree of one block, and accesses outside the tree\<close>

lemma fresh_tree:
  "octree_reachable 31 2 (the (Octree_new 31 2 1))" "oct_rep 31 2 {} (the (Octree_new 31 2 1))" "tree_block 31 2 (Octree_root 2)" "m_lev (Octree_root 2) + 1 < int 31"
  "Octree_isLeaf 2 (Octree_root 2) (the (Octree_new 31 2 1)) = Some True"
proof -
  obtain oct where o: "Octree_new 31 2 1 = Some oct" "oct_rep 31 2 {} oct" using Octree_new_ok [of 31 2 1] by auto
  then show r: "octree_reachable 31 2 (the (Octree_new 31 2 1))" "oct_rep 31 2 {} (the (Octree_new 31 2 1))" using reach_new [of 31 2 1 oct] by auto
  show t: "tree_block 31 2 (Octree_root 2)" "m_lev (Octree_root 2) + 1 < int 31"
    by (simp_all add: tree_block_def vb_def Octree_root_def inb_def)
  show "Octree_isLeaf 2 (Octree_root 2) (the (Octree_new 31 2 1)) = Some True" using queries(3) [OF r(2) t(1)] by (simp add: spec_status_def Octree_root_def)
qed

lemma interleaves_ge:
  assumes m: "interleaves m pt" and i: "i < length pt" and "2 ^ k \<le> pt ! i"
  shows "2 ^ (length pt * k) \<le> m"
proof (rule ccontr)
  assume "\<not> 2 ^ (length pt * k) \<le> m"
  then have "take_bit (length pt * k) m = m" by (simp add: take_bit_nat_eq_self)
  then have high: "\<not> bit m j" if "length pt * k \<le> j" for j using that by (metis bit_take_bit_iff not_le)
  have "\<not> bit (pt ! i) n" if "k \<le> n" for n
    using high [of "n * length pt + i"] that interleaves_bit [OF m i, of n] by (simp add: mult.commute trans_le_add1)
  then have "take_bit k (pt ! i) = pt ! i" by (intro bit_eqI) (use not_le in \<open>auto simp: bit_take_bit_iff\<close>)
  then show False using assms(3) by (metis not_le take_bit_int_less_exp)
qed

lemma dense_outside:
  assumes ok: "level_ok dim lev (Dense lv data n)" and lev: "0 < lev" "dim \<in> {2, 3}" and pt: "inb dim (16 div dim) pt" "\<not> inb dim lev pt"
  shows "level_hasBlock dim (Dense lv data n) pt = None" and "level_blockStatus dim (Dense lv data n) pt = Some BlockNotInTree"
proof -
  have f: "rep_fits dim (16 div dim) (Morton 16)" using lev(2) by (auto simp: rep_fits_def morton_dims_def)
  have len: "length pt = dim" using pt(1) by (simp add: inb_def)
  obtain c where "c \<in> set pt" "2 ^ lev \<le> c" "0 \<le> c" using pt by (auto simp: inb_def not_less)
  then obtain i where i: "i < dim" "2 ^ lev \<le> pt ! i" "0 \<le> pt ! i" using len by (auto simp: in_set_conv_nth)
  have "(2::int) ^ lev = 2 * 2 ^ (lev - 1)" using lev(1) by (cases lev) simp_all
  then have h: "2 ^ (lev - 1) \<le> map half pt ! i" using i len by (simp add: half_nonneg)
  have "interleaves (mortonize 16 (map half pt)) (map half pt)"
    using rep_fits_interleaves(1) [OF rep_fits_mono [OF f, of "16 div dim - 1"] inb_half [OF pt(1)]] by simp
  then have "length data \<le> mortonize 16 (map half pt)" using interleaves_ge [OF _ _ h] i(1) len ok by simp
  then show "level_hasBlock dim (Dense lv data n) pt = None"
    using Brood_fits [OF f pt(1)] by (simp add: dense_at_def del: Brood.simps)
  have "\<not> level_inBounds lev pt" using pt(2) len by (simp add: inb_level_inBounds)
  then show "level_blockStatus dim (Dense lv data n) pt = Some BlockNotInTree" using ok by simp
qed

text \<open>
  C34. Where the queries leave the memory of the tree, with \<open>D\<close> levels (31 or 63): \<^verbatim>\<open>isLevelValid\<close> accepts level \<open>D\<close>, which the array of
  levels does not have, so the queries about such blocks fail; a leaf of the last level, \<open>D - 1\<close>, cannot be refined; and on the dense levels from 1 to 4
  \<^verbatim>\<open>hasBlock\<close> reads past the array of broods for a block with a coordinate that is too large for its level, where \<^verbatim>\<open>blockStatus\<close> answers that the
  block is not in the tree. This is stated for coordinates that the 16-bit Morton index of these levels represents; larger ones are cut
  off and name another brood.
\<close>

theorem octree_outside_errors:
  assumes "octree_reachable D dim oct"
  shows "(m_lev b = int D \<longrightarrow> isLevelValid (m_lev b) oct \<and> Octree_isLeaf dim b oct = None \<and> Octree_isInternal dim b oct = None \<and>
      Octree_hasBlock dim b oct = None \<and> Octree_blockStatus dim b oct = None) \<and>
    (tree_block D dim b \<and> m_lev b = int D - 1 \<longrightarrow> refineLeaf dim b oct = None) \<and>
    (0 < m_lev b \<and> m_lev b \<le> 4 \<and> length (m_pt b) = dim \<and> list_all (\<lambda>c. 0 \<le> c \<and> c < 2 ^ (16 div dim)) (m_pt b) \<and> \<not> Octree_inBounds b oct \<longrightarrow>
      Octree_hasBlock dim b oct = None \<and> Octree_blockStatus dim b oct = Some BlockNotInTree)"
proof -
  obtain I where I: "oct_rep D dim I oct" using reachable_rep [OF assms(1)] by blast
  then have len: "length (o_levels oct) = D" and dim: "dim \<in> {2, 3}" and D: "D \<in> {31, 63}" by (auto simp: oct_rep_def)
  have "isLevelValid (int D) oct" "getOctreeLevel (int D) oct = None" using len by (simp_all add: isLevelValid_def maxLeafLevel_def getOctreeLevel_def)
  then have first: "m_lev b = int D \<longrightarrow> isLevelValid (m_lev b) oct \<and> Octree_isLeaf dim b oct = None \<and> Octree_isInternal dim b oct = None \<and>
      Octree_hasBlock dim b oct = None \<and> Octree_blockStatus dim b oct = None"
    by (simp add: Octree_isLeaf_def Octree_isInternal_def Octree_hasBlock_def Octree_blockStatus_def typed_level_def)
  have second: "refineLeaf dim b oct = None" if "tree_block D dim b" "m_lev b = int D - 1"
    using refine_last [OF I that(1)] that(2) by simp
  have "Octree_hasBlock dim b oct = None \<and> Octree_blockStatus dim b oct = Some BlockNotInTree"
    if b: "0 < m_lev b" "m_lev b \<le> 4" "length (m_pt b) = dim" "list_all (\<lambda>c. 0 \<le> c \<and> c < 2 ^ (16 div dim)) (m_pt b)" "\<not> Octree_inBounds b oct"
  proof -
    let ?i = "nat (m_lev b)"
    have i: "?i < D" "int ?i = m_lev b" "0 < ?i" using b(1,2) D by auto
    note E = oct_repD [OF I i(1), unfolded i(2)]
    obtain lv data n where l: "o_levels oct ! ?i = Dense lv data n" using E(2) b(2) by (cases "o_levels oct ! ?i") (auto simp: MAX_DENSE_LEV_def)
    have "\<not> inb dim ?i (m_pt b)" using b(3,5) E(5) by (simp add: inb_level_inBounds Octree_inBounds_def BlockIndex_inBounds_iff)
    moreover have "inb dim (16 div dim) (m_pt b)" using b(3,4) by (simp add: inb_def list_all_iff)
    ultimately show ?thesis
      using dense_outside [OF E(1) [unfolded l] i(3) dim] E(2,4,5) l by (simp add: Octree_hasBlock_def Octree_blockStatus_def typed_level_def)
  qed
  with second show ?thesis by (intro conjI first) simp_all
qed

text \<open>
  C31. Every static cast of a level to the type that belongs to its number is right in every reachable tree, and the object it gives is
  well formed: all broods have \<open>2 ^ dim\<close> members, a dense level has a brood for every possible parent and counts its blocks, and a sparse level has
  every key once, of an index type that can tell all parents apart.
\<close>

theorem octree_levels_typed:
  assumes "octree_reachable D dim oct" and "0 \<le> lev" and "lev < int D"
  shows "\<exists>l. typed_level dim lev oct = Some l \<and> int (level l) = lev \<and> (\<forall>bd. bd \<in> set (level_broods l) \<longrightarrow> length bd = 2 ^ dim) \<and>
    (case l of
       Dense lv data n \<Rightarrow> lev \<le> 4 \<and> length data = 2 ^ (dim * (lv - 1)) \<and> n = int (length (filter bd_isBlock (concat data)))
     | Sparse lv rep m \<Rightarrow> 4 < lev \<and> distinct (map fst m) \<and> (\<forall>w. rep = Morton w \<longrightarrow> dim * lv \<le> w))"
proof -
  obtain I where I: "oct_rep D dim I oct" using reachable_rep [OF assms(1)] by blast
  let ?i = "nat lev"
  have i: "?i < D" "int ?i = lev" using assms(2,3) by auto
  note D = oct_repD [OF I i(1), unfolded i(2)]
  have "typed_level dim lev oct = Some (o_levels oct ! ?i)" using D(2,4) by (simp add: typed_level_def)
  then show ?thesis using D(1,2) assms(2)
    by (cases "o_levels oct ! ?i") (auto simp: MAX_DENSE_LEV_def brood_ok_def block_count_def rep_fits_def split: rep.splits)
qed

theorem octree_levels_typed_witness: "\<exists>l. typed_level 2 7 (the (Octree_new 31 2 1)) = Some l \<and> int (level l) = 7"
  using octree_levels_typed [OF fresh_tree(1), of 7] by auto

theorem octree_invariant_witness: "Octree_hasBlock 2 (Octree_root 2) (the (Octree_new 31 2 1)) = Some True"
  using octree_invariant [OF fresh_tree(1,3)] by (auto simp: Octree_root_def)

theorem octree_refine_exact_witness:
  "\<exists>oct. refineLeaf 2 (Octree_root 2) (the (Octree_new 31 2 1)) = Some oct \<and> Octree_blockStatus 2 (block [1, 0] 1) oct = Some LeafBlock"
proof -
  have "tree_block 31 2 (block [1, 0] 1)" "block [1, 0] 1 \<noteq> Octree_root 2" "BlockIndex_parent (block [1, 0] 1) = Octree_root 2"
    by (simp_all add: tree_block_def vb_def inb_def Octree_root_def BlockIndex_parent_def parentPt_def parentLevel_def half_def
        numeral_2_eq_2)
  then show ?thesis using octree_refine_exact [OF fresh_tree(1,3,5,4)] by auto
qed

theorem octree_covering_leaf_witness: "coveringLeafBlock 31 2 (block [5, 2] 3) True (the (Octree_new 31 2 1)) = Some (Octree_root 2)"
proof -
  have b: "tree_block 31 2 (block [5, 2] 3)" by (simp add: tree_block_def vb_def inb_def)
  have "Octree_isInternal 2 (block [5, 2] 3) (the (Octree_new 31 2 1)) = Some False"
    using queries(4) [OF fresh_tree(2) b] by (simp add: spec_status_def)
  moreover have "isDescendantOf (block [5, 2] 3) (Octree_root 2)"
    by (simp add: isDescendantOf_def Octree_root_def BlockIndex_parent_def parentPt_def parentLevel_def half_def numeral_2_eq_2 numeral_3_eq_3)
  ultimately show ?thesis using octree_covering_leaf [OF fresh_tree(1) b, of True] fresh_tree(3,5) by metis
qed

theorem octree_outside_errors_witness:
  "Octree_hasBlock 2 (block [2, 0] 1) (the (Octree_new 31 2 1)) = None \<and> Octree_blockStatus 2 (block [2, 0] 1) (the (Octree_new 31 2 1)) = Some BlockNotInTree"
proof -
  have "\<not> Octree_inBounds (block [2, 0] 1) (the (Octree_new 31 2 1))" by (simp add: Octree_inBounds_def BlockIndex_inBounds_def maxCoordAtLevel_def)
  then show ?thesis using octree_outside_errors [OF fresh_tree(1), of "block [2, 0] 1"] by simp
qed

end
