(* ===== verification/CoreArray.thy ===== *)
theory CoreArray
  imports Prelude
begin

text \<open>
  The dynamic array \<^verbatim>\<open>axom::Array\<close> in one dimension (\<^verbatim>\<open>core/Array.hpp\<close>) and the host operations on its
  memory (\<^verbatim>\<open>core/ArrayBase.hpp\<close>, \<^verbatim>\<open>ArrayOpsBase\<close>). The block of memory is a list of slots that know
  whether an object lives in them, so construction, moves in overlapping ranges and destruction are
  visible: reading raw memory is a fault, and objects whose memory is reused or released without
  running their destructor are counted, those that hold an element and those that were moved from apart.
  The element type has a destructor and its constructors do not throw; operations run on the host and the
  assertions of a debug build are checked. Sizes and capacities are of type \<^verbatim>\<open>IndexType\<close>, 32 bits wide
  by default and 64 on request: the array carries the largest value of the build, and where the code would compute a larger one the
  model reports the overflow. Memory is never exhausted.
\<close>

section \<open>Memory\<close>

datatype 'a slot = Raw | Live 'a | MovedFrom

datatype arr_fault = AssertFailed | BadAccess | UseAfterFree | Overflow

fun arr_bind :: "arr_fault + 'b \<Rightarrow> ('b \<Rightarrow> arr_fault + 'c) \<Rightarrow> arr_fault + 'c" where
  "arr_bind (Inl e) f = Inl e"
| "arr_bind (Inr x) f = f x"

record 'a block =
  b_slots :: "'a slot list"
  b_lost :: nat
  b_husks :: nat

fun is_Live :: "'a slot \<Rightarrow> bool" where
  "is_Live (Live x) = True"
| "is_Live _ = False"

fun is_MovedFrom :: "'a slot \<Rightarrow> bool" where
  "is_MovedFrom MovedFrom = True"
| "is_MovedFrom _ = False"

text \<open>
  Placement new, the destructor, and construction from a moved object, at one position. Constructing over an
  object that was not destroyed ends its life without a destructor: \<^verbatim>\<open>b_lost\<close> counts the elements that
  are overwritten in this way, \<^verbatim>\<open>b_husks\<close> the moved-from objects.
\<close>

definition construct :: "nat \<Rightarrow> 'a \<Rightarrow> 'a block \<Rightarrow> arr_fault + 'a block" where
  "construct i x b =
     (if i < length (b_slots b)
      then Inr (b\<lparr>b_slots := (b_slots b)[i := Live x], b_lost := b_lost b + (if is_Live (b_slots b ! i) then 1 else 0),
        b_husks := b_husks b + (if is_MovedFrom (b_slots b ! i) then 1 else 0)\<rparr>)
      else Inl BadAccess)"

definition destroy_at :: "nat \<Rightarrow> 'a block \<Rightarrow> arr_fault + 'a block" where
  "destroy_at i b =
     (if i < length (b_slots b) \<and> b_slots b ! i \<noteq> Raw then Inr (b\<lparr>b_slots := (b_slots b)[i := Raw]\<rparr>) else Inl BadAccess)"

definition read_at :: "nat \<Rightarrow> 'a block \<Rightarrow> arr_fault + 'a" where
  "read_at i b =
     (if i < length (b_slots b) then case b_slots b ! i of Live x \<Rightarrow> Inr x | _ \<Rightarrow> Inl BadAccess else Inl BadAccess)"

definition move_at :: "nat \<Rightarrow> nat \<Rightarrow> 'a block \<Rightarrow> arr_fault + 'a block" where
  "move_at src dst b =
     arr_bind (read_at src b) (\<lambda>x. construct dst x (b\<lparr>b_slots := (b_slots b)[src := MovedFrom]\<rparr>))"

section \<open>ArrayOpsBase\<close>

text \<open>\<^verbatim>\<open>fill_range\<close>, \<^verbatim>\<open>fill\<close> and \<^verbatim>\<open>init\<close> construct in order of positions.\<close>

primrec fill_range :: "nat \<Rightarrow> 'a list \<Rightarrow> 'a block \<Rightarrow> arr_fault + 'a block" where
  "fill_range begin [] b = Inr b"
| "fill_range begin (x # xs) b = arr_bind (construct begin x b) (fill_range (Suc begin) xs)"

definition ArrayOps_fill :: "nat \<Rightarrow> nat \<Rightarrow> 'a \<Rightarrow> 'a block \<Rightarrow> arr_fault + 'a block" where
  "ArrayOps_fill begin nelems x b = fill_range begin (replicate nelems x) b"

definition ArrayOps_init :: "'a \<Rightarrow> nat \<Rightarrow> nat \<Rightarrow> 'a block \<Rightarrow> arr_fault + 'a block" where
  "ArrayOps_init dflt begin nelems b = fill_range begin (replicate nelems dflt) b"

primrec ArrayOps_destroy :: "nat \<Rightarrow> nat \<Rightarrow> 'a block \<Rightarrow> arr_fault + 'a block" where
  "ArrayOps_destroy begin 0 b = Inr b"
| "ArrayOps_destroy begin (Suc n) b = arr_bind (destroy_at begin b) (ArrayOps_destroy (Suc begin) n)"

text \<open>\<^verbatim>\<open>move\<close>: upwards from the last element, downwards from the first.\<close>

primrec move_backward :: "nat \<Rightarrow> nat \<Rightarrow> nat \<Rightarrow> 'a block \<Rightarrow> arr_fault + 'a block" where
  "move_backward src dst 0 b = Inr b"
| "move_backward src dst (Suc n) b = arr_bind (move_at (src + n) (dst + n) b) (move_backward src dst n)"

primrec move_forward :: "nat \<Rightarrow> nat \<Rightarrow> nat \<Rightarrow> 'a block \<Rightarrow> arr_fault + 'a block" where
  "move_forward src dst 0 b = Inr b"
| "move_forward src dst (Suc n) b = arr_bind (move_at src dst b) (move_forward (Suc src) (Suc dst) n)"

definition ArrayOps_move :: "nat \<Rightarrow> nat \<Rightarrow> nat \<Rightarrow> 'a block \<Rightarrow> arr_fault + 'a block" where
  "ArrayOps_move src_begin src_end dst b =
     (if src_begin \<ge> src_end then Inr b
      else if src_begin < dst then move_backward src_begin dst (src_end - src_begin) b
      else if src_begin > dst then move_forward src_begin dst (src_end - src_begin) b
      else Inr b)"

text \<open>
  \<^verbatim>\<open>realloc_move\<close> constructs in a new block from the objects of the old one, then destroys those; the caller
  releases the old block, and whatever still lives there is lost.
\<close>

primrec move_across :: "nat \<Rightarrow> nat \<Rightarrow> 'a block \<times> 'a block \<Rightarrow> arr_fault + 'a block \<times> 'a block" where
  "move_across i 0 bs = Inr bs"
| "move_across i (Suc n) bs =
     arr_bind (read_at i (snd bs)) (\<lambda>x.
     arr_bind (construct i x (fst bs)) (\<lambda>new.
     move_across (Suc i) n (new, (snd bs)\<lparr>b_slots := (b_slots (snd bs))[i := MovedFrom]\<rparr>)))"

definition realloc_move :: "nat \<Rightarrow> 'a block \<Rightarrow> 'a block \<Rightarrow> arr_fault + 'a block \<times> 'a block" where
  "realloc_move nelems new values =
     arr_bind (move_across 0 nelems (new, values)) (\<lambda>(new, values).
     arr_bind (ArrayOps_destroy 0 nelems values) (\<lambda>values. Inr (new, values)))"

section \<open>Array\<close>

text \<open>
  The capacity is the length of the block, \<^verbatim>\<open>a_index_max\<close> the largest value of \<^verbatim>\<open>IndexType\<close>. \<^verbatim>\<open>a_grow\<close> is the floating-point product
  \<^verbatim>\<open>capacity() * m_resize_ratio + 0.5\<close> cast to \<^verbatim>\<open>IndexType\<close>, and \<^verbatim>\<open>a_ratio_ok\<close> says that the ratio
  is at least one.
\<close>

record 'a Array =
  a_block :: "'a block"
  a_num_elements :: int
  a_grow :: "int \<Rightarrow> int"
  a_ratio_ok :: bool
  a_index_max :: int

definition capacity :: "'a Array \<Rightarrow> int" where
  "capacity A = int (length (b_slots (a_block A)))"

definition live_count :: "'a slot list \<Rightarrow> nat" where
  "live_count xs = length (filter is_Live xs)"

definition husk_count :: "'a slot list \<Rightarrow> nat" where
  "husk_count xs = length (filter is_MovedFrom xs)"

definition updateNumElements :: "int \<Rightarrow> 'a Array \<Rightarrow> arr_fault + 'a Array" where
  "updateNumElements n A =
     (if n \<ge> 0 \<and> n \<le> capacity A then Inr (A\<lparr>a_num_elements := n\<rparr>) else Inl AssertFailed)"

text \<open>\<^verbatim>\<open>axom::allocate\<close> returns raw memory; \<^verbatim>\<open>axom::deallocate\<close> drops the old block.\<close>

definition setCapacity :: "int \<Rightarrow> 'a Array \<Rightarrow> arr_fault + 'a Array" where
  "setCapacity new_capacity A =
     (if new_capacity < 0 then Inl AssertFailed
      else arr_bind (if new_capacity < a_num_elements A then updateNumElements new_capacity A else Inr A) (\<lambda>A.
        let new_data = \<lparr>b_slots = replicate (nat new_capacity) Raw, b_lost = b_lost (a_block A), b_husks = b_husks (a_block A)\<rparr>
        in arr_bind (realloc_move (nat (a_num_elements A)) new_data (a_block A)) (\<lambda>(new_data, old).
           Inr (A\<lparr>a_block := new_data\<lparr>b_lost := b_lost new_data + live_count (b_slots old),
             b_husks := b_husks new_data + husk_count (b_slots old)\<rparr>\<rparr>))))"

definition blockSize :: int where "blockSize = 1"

definition dynamicRealloc :: "int \<Rightarrow> 'a Array \<Rightarrow> arr_fault + 'a Array" where
  "dynamicRealloc new_num_elements A =
     (if \<not> a_ratio_ok A then Inl AssertFailed
      else if a_grow A (capacity A) > a_index_max A then Inl Overflow
      else let new_capacity = max (a_grow A (capacity A)) new_num_elements;
               remainder = new_capacity mod blockSize;
               new_capacity = (if remainder \<noteq> 0 then new_capacity + (blockSize - remainder) else new_capacity)
           in setCapacity new_capacity A)"

definition reserveForInsert :: "int \<Rightarrow> int \<Rightarrow> 'a Array \<Rightarrow> arr_fault + 'a Array" where
  "reserveForInsert n pos A =
     (if n < 0 \<or> pos < 0 \<or> pos > a_num_elements A then Inl AssertFailed
      else if n = 0 then Inr A
      else let new_size = a_num_elements A + n
           in if new_size > a_index_max A then Inl Overflow
              else arr_bind (if new_size > capacity A then dynamicRealloc new_size A else Inr A) (\<lambda>A.
              arr_bind (ArrayOps_move (nat pos) (nat (a_num_elements A)) (nat (pos + n)) (a_block A)) (\<lambda>b.
              updateNumElements new_size (A\<lparr>a_block := b\<rparr>))))"

definition on_block :: "('a block \<Rightarrow> arr_fault + 'a block) \<Rightarrow> 'a Array \<Rightarrow> arr_fault + 'a Array" where
  "on_block f A = arr_bind (f (a_block A)) (\<lambda>b. Inr (A\<lparr>a_block := b\<rparr>))"

text \<open>
  \<^verbatim>\<open>initialize(num_elements, capacity, default_construct)\<close> of a new array; \<open>dflt\<close> is what \<^verbatim>\<open>T()\<close>
  constructs. The default resize ratio is two.
\<close>

definition Array_empty :: "int \<Rightarrow> 'a Array" where
  "Array_empty M = \<lparr>a_block = \<lparr>b_slots = [], b_lost = 0, b_husks = 0\<rparr>, a_num_elements = 0, a_grow = (\<lambda>c. 2 * c),
     a_ratio_ok = True, a_index_max = M\<rparr>"

definition MIN_DEFAULT_CAPACITY :: int where "MIN_DEFAULT_CAPACITY = 32"

definition Array_initialize :: "'a \<Rightarrow> int \<Rightarrow> int \<Rightarrow> bool \<Rightarrow> 'a Array \<Rightarrow> arr_fault + 'a Array" where
  "Array_initialize dflt num_elements cap default_construct A =
     (if num_elements < 0 then Inl AssertFailed
      else let cap = (if cap < 0 \<or> num_elements > cap then 0 else cap);
               cap = (if cap = 0 then if num_elements > MIN_DEFAULT_CAPACITY then num_elements else MIN_DEFAULT_CAPACITY else cap)
           in arr_bind (setCapacity cap A) (\<lambda>A.
              arr_bind (if default_construct then on_block (ArrayOps_init dflt 0 (nat num_elements)) A else Inr A) (\<lambda>A.
              updateNumElements num_elements A)))"

definition Array_new :: "int \<Rightarrow> 'a \<Rightarrow> int \<Rightarrow> int \<Rightarrow> arr_fault + 'a Array" where
  "Array_new M dflt num_elements cap = Array_initialize dflt num_elements cap True (Array_empty M)"

definition initialize_from_other :: "'a list \<Rightarrow> 'a Array \<Rightarrow> arr_fault + 'a Array" where
  "initialize_from_other other_data A =
     (if int (length other_data) > a_index_max A then Inl Overflow
      else arr_bind (setCapacity (int (length other_data)) A) (\<lambda>A.
           arr_bind (on_block (fill_range 0 other_data) A) (\<lambda>A.
           updateNumElements (int (length other_data)) A)))"

definition Array_of_list :: "int \<Rightarrow> 'a list \<Rightarrow> arr_fault + 'a Array" where
  "Array_of_list M elems = initialize_from_other elems (Array_empty M)"

text \<open>The elements, read through \<^verbatim>\<open>data()\<close>: reading raw memory is a fault.\<close>

primrec read_range :: "nat \<Rightarrow> nat \<Rightarrow> 'a block \<Rightarrow> arr_fault + 'a list" where
  "read_range i 0 b = Inr []"
| "read_range i (Suc n) b = arr_bind (read_at i b) (\<lambda>x. arr_bind (read_range (Suc i) n b) (\<lambda>xs. Inr (x # xs)))"

definition Array_elems :: "'a Array \<Rightarrow> arr_fault + 'a list" where
  "Array_elems A = read_range 0 (nat (a_num_elements A)) (a_block A)"

text \<open>The copy constructor default-constructs the elements and copies over them.\<close>

definition Array_copy :: "'a \<Rightarrow> 'a Array \<Rightarrow> arr_fault + 'a Array" where
  "Array_copy dflt other =
     arr_bind (Array_initialize dflt (a_num_elements other) (capacity other) True (Array_empty (a_index_max other))) (\<lambda>A.
     arr_bind (Array_elems other) (\<lambda>xs. on_block (fill_range 0 xs) A))"

definition Array_clear :: "'a Array \<Rightarrow> arr_fault + 'a Array" where
  "Array_clear A =
     (if a_num_elements A > 0
      then arr_bind (on_block (ArrayOps_destroy 0 (nat (a_num_elements A))) A) (updateNumElements 0)
      else Inr A)"

definition Array_assign :: "'a Array \<Rightarrow> 'a Array \<Rightarrow> arr_fault + 'a Array" where
  "Array_assign other A =
     arr_bind (Array_clear A) (\<lambda>A.
     arr_bind (setCapacity (capacity other) (A\<lparr>a_grow := a_grow other, a_ratio_ok := a_ratio_ok other\<rparr>)) (\<lambda>A.
     arr_bind (Array_elems other) (\<lambda>xs.
     arr_bind (on_block (fill_range 0 xs) A) (updateNumElements (a_num_elements other)))))"

definition Array_fill :: "'a \<Rightarrow> 'a Array \<Rightarrow> arr_fault + 'a Array" where
  "Array_fill x A =
     arr_bind (on_block (ArrayOps_destroy 0 (nat (a_num_elements A))) A)
       (on_block (ArrayOps_fill 0 (nat (a_num_elements A)) x))"

definition Array_fill_range :: "'a \<Rightarrow> int \<Rightarrow> int \<Rightarrow> 'a Array \<Rightarrow> arr_fault + 'a Array" where
  "Array_fill_range x n pos A =
     (if pos < 0 then Inl AssertFailed
      else if pos + n > a_index_max A then Inl Overflow
      else if pos + n > a_num_elements A then Inl AssertFailed
      else arr_bind (on_block (ArrayOps_destroy (nat pos) (nat n)) A) (on_block (ArrayOps_fill (nat pos) (nat n) x)))"

text \<open>\<^verbatim>\<open>set\<close> and the insertion of a range take a pointer to the elements, which may be null.\<close>

definition Array_set :: "'a list option \<Rightarrow> int \<Rightarrow> 'a Array \<Rightarrow> arr_fault + 'a Array" where
  "Array_set elements pos A =
     (case elements of None \<Rightarrow> Inl AssertFailed
      | Some vs \<Rightarrow>
          if pos < 0 then Inl AssertFailed
          else if pos + int (length vs) > a_index_max A then Inl Overflow
          else if pos + int (length vs) > a_num_elements A then Inl AssertFailed
          else arr_bind (on_block (ArrayOps_destroy (nat pos) (length vs)) A) (on_block (fill_range (nat pos) vs)))"

text \<open>Insertion of a value, of \<open>n\<close> copies of a value, and of a range, none of which is in the array itself.\<close>

definition Array_emplace :: "int \<Rightarrow> 'a \<Rightarrow> 'a Array \<Rightarrow> arr_fault + 'a Array" where
  "Array_emplace pos x A = arr_bind (reserveForInsert 1 pos A) (on_block (construct (nat pos) x))"

definition Array_insert :: "int \<Rightarrow> 'a \<Rightarrow> 'a Array \<Rightarrow> arr_fault + 'a Array" where
  "Array_insert pos x A = arr_bind (reserveForInsert 1 pos A) (on_block (construct (nat pos) x))"

definition Array_insert_range :: "int \<Rightarrow> 'a list option \<Rightarrow> 'a Array \<Rightarrow> arr_fault + 'a Array" where
  "Array_insert_range pos values A =
     (case values of None \<Rightarrow> Inl AssertFailed
      | Some xs \<Rightarrow> arr_bind (reserveForInsert (int (length xs)) pos A) (on_block (fill_range (nat pos) xs)))"

definition Array_insert_n :: "int \<Rightarrow> int \<Rightarrow> 'a \<Rightarrow> 'a Array \<Rightarrow> arr_fault + 'a Array" where
  "Array_insert_n pos n x A = arr_bind (reserveForInsert n pos A) (on_block (ArrayOps_fill (nat pos) (nat n) x))"

definition Array_emplace_back :: "'a \<Rightarrow> 'a Array \<Rightarrow> arr_fault + 'a Array" where
  "Array_emplace_back x A = Array_emplace (a_num_elements A) x A"

definition Array_push_back :: "'a \<Rightarrow> 'a Array \<Rightarrow> arr_fault + 'a Array" where
  "Array_push_back x A = Array_emplace_back x A"

text \<open>
  Insertion of a value that is a reference to element \<open>i\<close> of the same array: the reference points into
  the block as it was before \<^verbatim>\<open>reserveForInsert\<close>.
\<close>

definition Array_insert_ref :: "int \<Rightarrow> nat \<Rightarrow> 'a Array \<Rightarrow> arr_fault + 'a Array" where
  "Array_insert_ref pos i A =
     arr_bind (reserveForInsert 1 pos A) (\<lambda>A'.
       if a_num_elements A + 1 > capacity A then Inl UseAfterFree
       else arr_bind (read_at i (a_block A')) (\<lambda>x. on_block (construct (nat pos) x) A'))"

text \<open>
  Assignment of an initializer list inserts into the cleared array, from the pointer \<^verbatim>\<open>begin()\<close>; for an empty
  list the pointer is unspecified, so \<open>None\<close> is an empty list whose pointer is null. The move constructor and the move
  assignment take the block over and leave an empty array with the default ratio; the destructor returns
  how many elements and how many moved-from objects were never destroyed in the life of the array.
\<close>

definition Array_assign_list :: "'a list option \<Rightarrow> 'a Array \<Rightarrow> arr_fault + 'a Array" where
  "Array_assign_list elems A = arr_bind (Array_clear A) (Array_insert_range 0 elems)"

definition Array_move_construct :: "'a Array \<Rightarrow> 'a Array \<times> 'a Array" where
  "Array_move_construct other = (other, Array_empty (a_index_max other))"

definition Array_delete :: "'a Array \<Rightarrow> arr_fault + nat \<times> nat" where
  "Array_delete A = arr_bind (Array_clear A) (\<lambda>A.
     Inr (b_lost (a_block A) + live_count (b_slots (a_block A)), b_husks (a_block A) + husk_count (b_slots (a_block A))))"

definition Array_move_assign :: "'a Array \<Rightarrow> 'a Array \<Rightarrow> arr_fault + 'a Array \<times> 'a Array" where
  "Array_move_assign other A =
     arr_bind (Array_delete A) (\<lambda>(lost, husks).
       Inr (other\<lparr>a_block := (a_block other)\<lparr>b_lost := b_lost (a_block other) + lost,
              b_husks := b_husks (a_block other) + husks\<rparr>\<rparr>, Array_empty (a_index_max other)))"

definition Array_erase :: "int \<Rightarrow> 'a Array \<Rightarrow> arr_fault + 'a Array \<times> int" where
  "Array_erase pos A =
     (if pos < 0 \<or> pos \<ge> a_num_elements A then Inl AssertFailed
      else arr_bind (on_block (ArrayOps_destroy (nat pos) 1) A) (\<lambda>A.
           arr_bind (on_block (ArrayOps_move (nat (pos + 1)) (nat (a_num_elements A)) (nat pos)) A) (\<lambda>A.
           arr_bind (updateNumElements (a_num_elements A - 1) A) (\<lambda>A. Inr (A, pos)))))"

definition Array_erase_range :: "int \<Rightarrow> int \<Rightarrow> 'a Array \<Rightarrow> arr_fault + 'a Array \<times> int" where
  "Array_erase_range first stop A =
     (if first < 0 \<or> first \<ge> a_num_elements A \<or> stop < first \<or> stop > a_num_elements A then Inl AssertFailed
      else if first = stop then Inr (A, stop)
      else arr_bind (on_block (ArrayOps_destroy (nat first) (nat (stop - first))) A) (\<lambda>A.
           arr_bind (on_block (ArrayOps_move (nat stop) (nat (a_num_elements A)) (nat first)) A) (\<lambda>A.
           arr_bind (updateNumElements (a_num_elements A - (stop - first)) A) (\<lambda>A. Inr (A, first)))))"

definition Array_reserve :: "int \<Rightarrow> 'a Array \<Rightarrow> arr_fault + 'a Array" where
  "Array_reserve cap A = (if cap > capacity A then setCapacity cap A else Inr A)"

definition Array_shrink :: "'a Array \<Rightarrow> arr_fault + 'a Array" where
  "Array_shrink A = setCapacity (a_num_elements A) A"

text \<open>\<^verbatim>\<open>resizeImpl\<close>: without a value to copy the new elements are default-constructed.\<close>

definition Array_resize :: "'a \<Rightarrow> int \<Rightarrow> bool \<Rightarrow> 'a option \<Rightarrow> 'a Array \<Rightarrow> arr_fault + 'a Array" where
  "Array_resize dflt n construct_with_values value A =
     (if n < 0 then Inl AssertFailed
      else let prev = a_num_elements A
           in arr_bind (if n > capacity A then dynamicRealloc n A else Inr A) (\<lambda>A.
              arr_bind
                (if prev < n \<and> construct_with_values
                 then on_block (case value of Some x \<Rightarrow> ArrayOps_fill (nat prev) (nat (n - prev)) x
                                            | None \<Rightarrow> ArrayOps_init dflt (nat prev) (nat (n - prev))) A
                 else if prev > n then on_block (ArrayOps_destroy (nat n) (nat (prev - n))) A
                 else Inr A)
                (updateNumElements n)))"

definition Array_swap :: "'a Array \<times> 'a Array \<Rightarrow> 'a Array \<times> 'a Array" where
  "Array_swap = (\<lambda>(A, B). (B, A))"

definition setResizeRatio :: "(int \<Rightarrow> int) \<Rightarrow> bool \<Rightarrow> 'a Array \<Rightarrow> 'a Array" where
  "setResizeRatio grow ok A = A\<lparr>a_grow := grow, a_ratio_ok := ok\<rparr>"

definition Array_front :: "'a Array \<Rightarrow> arr_fault + 'a" where
  "Array_front A = (if a_num_elements A = 0 then Inl AssertFailed else read_at 0 (a_block A))"

definition Array_back :: "'a Array \<Rightarrow> arr_fault + 'a" where
  "Array_back A = (if a_num_elements A = 0 then Inl AssertFailed else read_at (nat (a_num_elements A - 1)) (a_block A))"


section \<open>The loops\<close>

abbreviation no_Live :: "'a slot list \<Rightarrow> bool" where "no_Live xs \<equiv> \<forall>s\<in>set xs. \<not> is_Live s"

lemma live_count_simps [simp]:
  "live_count [] = 0"
  "live_count (s # xs) = (if is_Live s then Suc (live_count xs) else live_count xs)"
  "live_count (xs @ ys) = live_count xs + live_count ys"
  "live_count (map Live vs) = length vs"
  "no_Live xs \<Longrightarrow> live_count xs = 0"
  by (auto simp: live_count_def filter_empty_conv)

lemma husk_count_simps [simp]:
  "husk_count [] = 0"
  "husk_count (s # xs) = (if is_MovedFrom s then Suc (husk_count xs) else husk_count xs)"
  "husk_count (xs @ ys) = husk_count xs + husk_count ys"
  "husk_count (map Live vs) = 0"
  "husk_count (replicate n Raw) = 0"
  by (auto simp: husk_count_def)

lemma construct_append:
  "construct (length pre) x (b\<lparr>b_slots := pre @ s # post\<rparr>) =
     Inr (b\<lparr>b_slots := pre @ Live x # post, b_lost := b_lost b + live_count [s], b_husks := b_husks b + husk_count [s]\<rparr>)"
  by (cases b) (simp add: construct_def)

text \<open>Constructing in a range overwrites exactly the objects that were there.\<close>

lemma fill_range_eq:
  "length mid = length xs \<Longrightarrow>
     fill_range (length pre) xs (b\<lparr>b_slots := pre @ mid @ post\<rparr>) =
       Inr (b\<lparr>b_slots := pre @ map Live xs @ post, b_lost := b_lost b + live_count mid, b_husks := b_husks b + husk_count mid\<rparr>)"
proof (induction xs arbitrary: pre mid b)
  case (Cons x xs)
  then obtain s mid' where mid: "mid = s # mid'" "length mid' = length xs" by (cases mid) auto
  show ?case
    using Cons.IH [of mid' "pre @ [Live x]" "b\<lparr>b_lost := b_lost b + live_count [s], b_husks := b_husks b + husk_count [s]\<rparr>"] mid
    by (cases b) (auto simp: construct_def split: if_splits)
qed simp

lemma destroy_eq:
  "Raw \<notin> set mid \<Longrightarrow>
     ArrayOps_destroy (length pre) (length mid) (b\<lparr>b_slots := pre @ mid @ post\<rparr>) =
       Inr (b\<lparr>b_slots := pre @ replicate (length mid) Raw @ post\<rparr>)"
proof (induction mid arbitrary: pre)
  case (Cons s mid)
  then show ?case
    using Cons.IH [of "pre @ [Raw]"] by (auto simp: destroy_at_def)
qed simp

lemma read_append: "b_slots b = pre @ Live x # post \<Longrightarrow> read_at (length pre) b = Inr x"
  by (simp add: read_at_def)

text \<open>Moving a range up over slots without elements, and down: each move leaves one more moved-from object.\<close>

lemma move_backward_eq:
  assumes "no_Live mid" and "mid \<noteq> []"
  shows "\<exists>junk h. length junk = length mid \<and> no_Live junk \<and> h + husk_count junk = b_husks b + husk_count mid + length ys \<and>
     move_backward (length pre) (length pre + length mid) (length ys) (b\<lparr>b_slots := pre @ map Live ys @ mid @ post\<rparr>) =
       Inr (b\<lparr>b_slots := pre @ junk @ map Live ys @ post, b_husks := h\<rparr>)"
  using assms
proof (induction ys arbitrary: mid post b rule: rev_induct)
  case Nil
  then show ?case by (intro exI [of _ mid] exI [of _ "b_husks b"]) simp
next
  case (snoc y ys)
  obtain mid' s where mid: "mid = mid' @ [s]" using snoc.prems(2) by (cases mid rule: rev_cases) auto
  let ?mid = "MovedFrom # mid'"
  let ?b = "b\<lparr>b_husks := b_husks b + husk_count [s]\<rparr>"
  have "move_at (length pre + length ys) (length pre + length mid + length ys) (b\<lparr>b_slots := pre @ map Live (ys @ [y]) @ mid @ post\<rparr>)
      = Inr (?b\<lparr>b_slots := pre @ map Live ys @ ?mid @ Live y # post\<rparr>)"
    using construct_append [of "pre @ map Live ys @ ?mid" y s post b]
      read_append [of "b\<lparr>b_slots := pre @ map Live (ys @ [y]) @ mid @ post\<rparr>" "pre @ map Live ys" y] snoc.prems(1)
    by (simp add: move_at_def mid list_update_append add.commute add.left_commute)
  moreover obtain junk h where "length junk = length ?mid" "no_Live junk"
    "h + husk_count junk = b_husks ?b + husk_count ?mid + length ys"
    "move_backward (length pre) (length pre + length ?mid) (length ys) (?b\<lparr>b_slots := pre @ map Live ys @ ?mid @ Live y # post\<rparr>) =
       Inr (?b\<lparr>b_slots := pre @ junk @ map Live ys @ Live y # post, b_husks := h\<rparr>)"
    using snoc.IH [of ?mid ?b "Live y # post"] snoc.prems(1) by (auto simp: mid)
  ultimately show ?case by (intro exI [of _ junk] exI [of _ h]) (simp add: mid)
qed

lemma move_forward_eq:
  assumes "no_Live mid" and "mid \<noteq> []"
  shows "\<exists>junk h. length junk = length mid \<and> no_Live junk \<and> h + husk_count junk = b_husks b + husk_count mid + length ys \<and>
     move_forward (length pre + length mid) (length pre) (length ys) (b\<lparr>b_slots := pre @ mid @ map Live ys @ post\<rparr>) =
       Inr (b\<lparr>b_slots := pre @ map Live ys @ junk @ post, b_husks := h\<rparr>)"
  using assms
proof (induction ys arbitrary: pre mid b)
  case Nil
  then show ?case by (intro exI [of _ mid] exI [of _ "b_husks b"]) simp
next
  case (Cons y ys)
  obtain s mid' where mid: "mid = s # mid'" using Cons.prems(2) by (cases mid) auto
  let ?mid = "mid' @ [MovedFrom]"
  let ?b = "b\<lparr>b_husks := b_husks b + husk_count [s]\<rparr>"
  have "move_at (length pre + length mid) (length pre) (b\<lparr>b_slots := pre @ mid @ map Live (y # ys) @ post\<rparr>)
      = Inr (?b\<lparr>b_slots := (pre @ [Live y]) @ ?mid @ map Live ys @ post\<rparr>)"
    using construct_append [of pre y s "mid' @ MovedFrom # map Live ys @ post" b]
      read_append [of "b\<lparr>b_slots := pre @ mid @ map Live (y # ys) @ post\<rparr>" "pre @ mid" y] Cons.prems(1)
    by (simp add: move_at_def mid list_update_append)
  moreover obtain junk h where "length junk = length ?mid" "no_Live junk"
    "h + husk_count junk = b_husks ?b + husk_count ?mid + length ys"
    "move_forward (length (pre @ [Live y]) + length ?mid) (length (pre @ [Live y])) (length ys)
         (?b\<lparr>b_slots := (pre @ [Live y]) @ ?mid @ map Live ys @ post\<rparr>) =
       Inr (?b\<lparr>b_slots := (pre @ [Live y]) @ map Live ys @ junk @ post, b_husks := h\<rparr>)"
    using Cons.IH [of ?mid ?b "pre @ [Live y]"] Cons.prems(1) by (auto simp: mid)
  ultimately show ?case by (intro exI [of _ junk] exI [of _ h]) (simp add: mid)
qed

lemma move_across_eq:
  assumes "length raw = length ys" and "no_Live raw" and "husk_count raw = 0" and "length dn = length junk" and "no_Live junk"
  shows "\<exists>junk'. length junk' = length junk + length ys \<and> Raw \<notin> set (drop (length junk) junk') \<and> no_Live junk' \<and>
     take (length junk) junk' = junk \<and>
     move_across (length dn) (length ys) (n\<lparr>b_slots := dn @ raw @ post\<rparr>, b\<lparr>b_slots := junk @ map Live ys @ rest\<rparr>) =
       Inr (n\<lparr>b_slots := dn @ map Live ys @ post\<rparr>, b\<lparr>b_slots := junk' @ rest\<rparr>)"
  using assms
proof (induction ys arbitrary: raw dn junk)
  case Nil
  then show ?case by auto
next
  case (Cons y ys)
  obtain s raw' where raw: "raw = s # raw'" "\<not> is_Live s" "\<not> is_MovedFrom s"
    using Cons.prems(1,2,3) by (cases raw; auto split: if_splits)+
  from Cons.IH [of raw' "dn @ [Live y]" "junk @ [MovedFrom]"] Cons.prems raw obtain junk' where
    j: "length junk' = length junk + Suc (length ys)" "Raw \<notin> set (drop (Suc (length junk)) junk')" "no_Live junk'"
      "take (Suc (length junk)) junk' = junk @ [MovedFrom]"
      "move_across (Suc (length dn)) (length ys)
         (n\<lparr>b_slots := dn @ Live y # raw' @ post\<rparr>, b\<lparr>b_slots := junk @ MovedFrom # map Live ys @ rest\<rparr>) =
       Inr (n\<lparr>b_slots := dn @ Live y # map Live ys @ post\<rparr>, b\<lparr>b_slots := junk' @ rest\<rparr>)"
    by auto
  have d: "drop (length junk) junk' = MovedFrom # drop (Suc (length junk)) junk'"
    using j(1,4) by (metis add_Suc_right append_eq_conv_conj append_take_drop_id Cons_nth_drop_Suc less_add_Suc1 nth_append_length nth_take lessI)
  have t: "take (length junk) junk' = junk" using j(4) by (metis append_eq_conv_conj take_Suc_conv_app_nth take_take min.absorb1 le_add1 plus_1_eq_Suc add.commute)
  show ?case
    using j d t read_append [of "b\<lparr>b_slots := junk @ map Live (y # ys) @ rest\<rparr>" junk y] Cons.prems(4)
      construct_append [of dn y s "raw' @ post" n] raw
    by (intro exI [of _ junk']) (simp add: list_update_append)
qed

section \<open>What an array holds\<close>

text \<open>
  The array holds the list \<open>xs\<close>: the slots below the size hold its elements, those above it no object,
  and the resize ratio is valid.
\<close>

definition arr_rep :: "'a list \<Rightarrow> 'a Array \<Rightarrow> bool" where
  "arr_rep xs A \<longleftrightarrow> a_num_elements A = int (length xs) \<and> a_ratio_ok A \<and> length xs \<le> length (b_slots (a_block A)) \<and>
     take (length xs) (b_slots (a_block A)) = map Live xs \<and> no_Live (drop (length xs) (b_slots (a_block A)))"

abbreviation lost :: "'a Array \<Rightarrow> nat" where "lost A \<equiv> b_lost (a_block A)"

text \<open>The moved-from objects that nothing will destroy: those overwritten so far, and those still in the block.\<close>

definition husks :: "'a Array \<Rightarrow> nat" where
  "husks A = b_husks (a_block A) + husk_count (b_slots (a_block A))"

text \<open>
  What a call leaves as it is: the elements lost, the resize ratio and the width of the indices. A call on \<open>A\<close>
  that \<open>yields\<close>: it returns, leaves the array holding \<open>xs\<close>, with the capacity \<open>c\<close> and \<open>h\<close> moved-from objects.
\<close>

definition like :: "'a Array \<Rightarrow> 'a Array \<Rightarrow> bool" where
  "like A B \<longleftrightarrow> lost B = lost A \<and> a_grow B = a_grow A \<and> a_index_max B = a_index_max A"

definition yields :: "'a Array \<Rightarrow> nat \<Rightarrow> int \<Rightarrow> 'a list \<Rightarrow> arr_fault + 'a Array \<Rightarrow> bool" where
  "yields A h c xs r \<longleftrightarrow> (\<exists>B. r = Inr B \<and> arr_rep xs B \<and> like A B \<and> husks B = h \<and> capacity B = c)"

lemma like_refl [simp]: "like A A" by (simp add: like_def)

lemma like_trans: "like A B \<Longrightarrow> like B C \<Longrightarrow> like A C" by (simp add: like_def)

lemma yields_like: "yields B h c xs r \<Longrightarrow> like A B \<Longrightarrow> yields A h c xs r"
  by (auto simp: yields_def like_def)

lemma arr_repE:
  assumes "arr_rep xs A"
  obtains rest where "b_slots (a_block A) = map Live xs @ rest" and "no_Live rest"
    and "a_num_elements A = int (length xs)" and "a_ratio_ok A" and "capacity A = int (length xs + length rest)"
proof
  let ?s = "b_slots (a_block A)"
  show s: "?s = map Live xs @ drop (length xs) ?s" using assms by (metis arr_rep_def append_take_drop_id)
  show "capacity A = int (length xs + length (drop (length xs) ?s))" using assms by (simp add: arr_rep_def capacity_def)
qed (use assms in \<open>auto simp: arr_rep_def\<close>)

lemma arr_repI:
  "b_slots (a_block A) = map Live xs @ rest \<Longrightarrow> no_Live rest \<Longrightarrow> a_num_elements A = int (length xs) \<Longrightarrow> a_ratio_ok A \<Longrightarrow>
     arr_rep xs A"
  by (simp add: arr_rep_def)

lemma yieldsI: "r = Inr B \<Longrightarrow> arr_rep xs B \<Longrightarrow> like A B \<Longrightarrow> husks B = h \<Longrightarrow> capacity B = c \<Longrightarrow> yields A h c xs r"
  by (auto simp: yields_def)

lemma yieldsE:
  assumes "yields A h c xs r"
  obtains B where "r = Inr B" and "arr_rep xs B" and "like A B" and "husks B = h" and "capacity B = c"
  using assms by (auto simp: yields_def)

lemma yields_bind:
  "yields A h c xs r \<Longrightarrow> (\<And>B. arr_rep xs B \<Longrightarrow> like A B \<Longrightarrow> husks B = h \<Longrightarrow> capacity B = c \<Longrightarrow> yields A h' c' ys (f B)) \<Longrightarrow>
     yields A h' c' ys (arr_bind r f)"
  by (auto simp: yields_def)

lemma block_split: "b_slots b = xs \<Longrightarrow> b = b\<lparr>b_slots := xs\<rparr>" by simp

text \<open>Growing and shrinking the block.\<close>

lemma realloc_move_eq:
  assumes "b_slots values = map Live xs @ rest" and "length xs \<le> c"
  shows "realloc_move (length xs) \<lparr>b_slots = replicate c Raw, b_lost = l, b_husks = h\<rparr> values =
    Inr (\<lparr>b_slots = map Live xs @ replicate (c - length xs) Raw, b_lost = l, b_husks = h\<rparr>,
      values\<lparr>b_slots := replicate (length xs) Raw @ rest\<rparr>)"
proof -
  let ?new = "\<lparr>b_slots = replicate (length xs) Raw @ replicate (c - length xs) Raw, b_lost = l, b_husks = h\<rparr>"
  obtain junk where j: "length junk = length xs" "Raw \<notin> set junk" "no_Live junk"
    "move_across 0 (length xs) (?new, values) =
      Inr (\<lparr>b_slots = map Live xs @ replicate (c - length xs) Raw, b_lost = l, b_husks = h\<rparr>, values\<lparr>b_slots := junk @ rest\<rparr>)"
    using move_across_eq [of "replicate (length xs) Raw" xs "[]" "[]" "replicate (c - length xs) Raw" "\<lparr>b_slots = [], b_lost = l, b_husks = h\<rparr>" rest "values"]
      block_split [OF assms(1), symmetric] by auto
  have "ArrayOps_destroy 0 (length xs) (values\<lparr>b_slots := junk @ rest\<rparr>) = Inr (values\<lparr>b_slots := replicate (length xs) Raw @ rest\<rparr>)"
    using destroy_eq [of junk "[]" rest "values"] j by simp
  moreover have "replicate c Raw = replicate (length xs) Raw @ replicate (c - length xs) (Raw :: 'a slot)"
    using assms(2) by (metis le_add_diff_inverse replicate_add)
  ultimately show ?thesis using j(4) by (simp add: realloc_move_def)
qed

lemma setCapacity_ok:
  assumes "arr_rep xs A" and "int (length xs) \<le> c"
  shows "yields A (husks A) c xs (setCapacity c A)"
proof -
  from assms(1) obtain rest where r: "b_slots (a_block A) = map Live xs @ rest" "no_Live rest"
    "a_num_elements A = int (length xs)" "a_ratio_ok A" by (rule arr_repE)
  let ?A = "A\<lparr>a_block := \<lparr>b_slots = map Live xs @ replicate (nat c - length xs) Raw, b_lost = lost A,
    b_husks = b_husks (a_block A) + husk_count rest\<rparr>\<rparr>"
  have "no_Live (replicate (length xs) Raw @ rest)" using r(2) by auto
  then have "setCapacity c A = Inr ?A"
    using assms(2) realloc_move_eq [OF r(1), of "nat c" "lost A" "b_husks (a_block A)"] r(3) by (simp add: setCapacity_def le_nat_iff)
  then show ?thesis
    by (rule yieldsI) (use assms(2) r in \<open>auto simp: like_def husks_def capacity_def intro!: arr_repI\<close>)
qed

lemma dynamicRealloc_ok:
  assumes "arr_rep xs A" and "int (length xs) \<le> n"
  shows "if a_grow A (capacity A) > a_index_max A then dynamicRealloc n A = Inl Overflow
    else yields A (husks A) (max (a_grow A (capacity A)) n) xs (dynamicRealloc n A)"
  using setCapacity_ok [OF assms(1), of "max (a_grow A (capacity A)) n"] assms
  by (auto simp: dynamicRealloc_def blockSize_def arr_rep_def)

text \<open>The capacity an array grows to when it must hold \<open>n\<close> elements.\<close>

definition grown :: "int \<Rightarrow> (int \<Rightarrow> int) \<Rightarrow> int \<Rightarrow> int \<Rightarrow> arr_fault + int" where
  "grown M g n c = (if n \<le> c then Inr c else if g c > M then Inl Overflow else Inr (max (g c) n))"

lemma grown_le: "grown M g n c = Inr c' \<Longrightarrow> n \<le> c'"
  by (auto simp: grown_def split: if_splits)

lemma make_room:
  assumes "arr_rep xs A" and "int (length xs) \<le> n \<or> n \<le> capacity A"
  shows "case grown (a_index_max A) (a_grow A) n (capacity A) of
      Inl e \<Rightarrow> (if n > capacity A then dynamicRealloc n A else Inr A) = Inl e
    | Inr c \<Rightarrow> yields A (husks A) c xs (if n > capacity A then dynamicRealloc n A else Inr A)"
  using assms(1) assms(2) dynamicRealloc_ok [OF assms(1), of n]
  by (cases "n > capacity A"; cases "a_grow A (capacity A) > a_index_max A")
    (auto simp: grown_def split: if_splits intro!: yieldsI [of _ A])

text \<open>After \<^verbatim>\<open>reserveForInsert\<close> there are \<open>n\<close> slots without objects at the position.\<close>

lemma move_apart:
  assumes "n \<le> length rest" and "no_Live rest" and "0 < n" and "pos \<le> length xs"
    and "b_slots b = map Live xs @ rest"
  shows "\<exists>junk h. length junk = n \<and> no_Live junk \<and>
    h + husk_count (junk @ drop n rest) = b_husks b + husk_count rest + (length xs - pos) \<and>
    ArrayOps_move pos (length xs) (pos + n) b =
      Inr (b\<lparr>b_slots := map Live (take pos xs) @ junk @ map Live (drop pos xs) @ drop n rest, b_husks := h\<rparr>)"
proof -
  have nl: "no_Live (take n rest)" "no_Live (drop n rest)" using assms(2) by (auto dest: in_set_takeD in_set_dropD)
  have b: "b = b\<lparr>b_slots := map Live (take pos xs) @ map Live (drop pos xs) @ take n rest @ drop n rest\<rparr>"
    using assms(5) by (simp add: map_append [symmetric] del: map_append)
  have "husk_count rest = husk_count (take n rest) + husk_count (drop n rest)"
    by (metis append_take_drop_id husk_count_simps(3))
  moreover obtain junk h where "length junk = n" "no_Live junk"
    "h + husk_count junk = b_husks b + husk_count (take n rest) + (length xs - pos)"
    "move_backward pos (pos + n) (length xs - pos) b =
      Inr (b\<lparr>b_slots := map Live (take pos xs) @ junk @ map Live (drop pos xs) @ drop n rest, b_husks := h\<rparr>)"
    using move_backward_eq [OF nl(1), of b "drop pos xs" "map Live (take pos xs)" "drop n rest"] assms(1,3,4) b [symmetric]
    by (cases "rest = []") (auto simp: min_absorb2)
  ultimately show ?thesis using assms(3,4)
    by (intro exI [of _ junk] exI [of _ h]) (auto simp: ArrayOps_move_def)
qed

lemma reserveForInsert_ok:
  assumes "arr_rep xs A" and "pos \<le> length xs" and "0 < n" and "int (length xs + n) \<le> a_index_max A"
  shows "case grown (a_index_max A) (a_grow A) (int (length xs + n)) (capacity A) of
      Inl e \<Rightarrow> reserveForInsert (int n) (int pos) A = Inl e
    | Inr c \<Rightarrow> \<exists>A' junk rest. reserveForInsert (int n) (int pos) A = Inr A' \<and> length junk = n \<and> no_Live junk \<and> no_Live rest \<and>
        b_slots (a_block A') = map Live (take pos xs) @ junk @ map Live (drop pos xs) @ rest \<and>
        a_num_elements A' = int (length xs + n) \<and> a_ratio_ok A' \<and> like A A' \<and> husks A' = husks A + (length xs - pos) \<and> capacity A' = c"
proof -
  let ?new_size = "int (length xs + n)"
  have len: "a_num_elements A = int (length xs)" using assms(1) by (simp add: arr_rep_def)
  note room = make_room [OF assms(1), of ?new_size]
  have size: "a_num_elements A + int n = ?new_size" "nat (int pos + int n) = pos + n" by (simp_all add: len nat_int_add)
  have eq: "reserveForInsert (int n) (int pos) A =
      arr_bind (if ?new_size > capacity A then dynamicRealloc ?new_size A else Inr A) (\<lambda>A.
      arr_bind (ArrayOps_move pos (nat (a_num_elements A)) (pos + n) (a_block A)) (\<lambda>b. updateNumElements ?new_size (A\<lparr>a_block := b\<rparr>)))"
    using assms(2-4) len unfolding reserveForInsert_def Let_def size by simp
  show ?thesis
  proof (cases "grown (a_index_max A) (a_grow A) ?new_size (capacity A)")
    case (Inl e)
    then show ?thesis using room unfolding eq by auto
  next
    case (Inr c)
    then obtain A1 where A1: "(if ?new_size > capacity A then dynamicRealloc ?new_size A else Inr A) = Inr A1"
      "arr_rep xs A1" "like A A1" "husks A1 = husks A" "capacity A1 = c"
      using room by (auto elim: yieldsE)
    from A1(2) obtain rest where r: "b_slots (a_block A1) = map Live xs @ rest" "no_Live rest"
      "a_num_elements A1 = int (length xs)" "a_ratio_ok A1" "capacity A1 = int (length xs + length rest)" by (rule arr_repE)
    have n: "n \<le> length rest" using grown_le [OF Inr] A1(5) r(5) by simp
    obtain junk h where j: "length junk = n" "no_Live junk"
      "h + husk_count (junk @ drop n rest) = b_husks (a_block A1) + husk_count rest + (length xs - pos)"
      "ArrayOps_move pos (length xs) (pos + n) (a_block A1) =
        Inr ((a_block A1)\<lparr>b_slots := map Live (take pos xs) @ junk @ map Live (drop pos xs) @ drop n rest, b_husks := h\<rparr>)"
      using move_apart [OF n r(2) assms(3,2) r(1)] by auto
    define A2 where "A2 = A1\<lparr>a_block := (a_block A1)\<lparr>b_slots := map Live (take pos xs) @ junk @ map Live (drop pos xs) @ drop n rest,
        b_husks := h\<rparr>, a_num_elements := ?new_size\<rparr>"
    have "reserveForInsert (int n) (int pos) A = Inr A2"
      unfolding A2_def eq A1(1) using j(1,4) r(3) assms(2) n by (simp add: updateNumElements_def capacity_def)
    moreover have "no_Live (drop n rest)" using r(2) by (auto dest: in_set_dropD)
    moreover have "husks A2 = husks A + (length xs - pos)"
      using j(3) A1(4) r(1) by (simp add: husks_def A2_def)
    moreover have "capacity A2 = c" using A1(5) r(5) j(1) n assms(2) by (simp add: A2_def capacity_def)
    ultimately show ?thesis using j(1,2) r(4) A1(3) Inr
      by (simp, intro exI [of _ A2] conjI exI [of _ junk] exI [of _ "drop n rest"]) (auto simp: A2_def like_def)
  qed
qed

section \<open>The operations on the list\<close>

lemma arr_rep_range:
  assumes "arr_rep xs A" and "pos + n \<le> length xs"
  obtains rest where "a_block A = (a_block A)\<lparr>b_slots := map Live (take pos xs) @ map Live (take n (drop pos xs)) @ map Live (drop (pos + n) xs) @ rest\<rparr>"
    and "no_Live rest" and "husks A = b_husks (a_block A) + husk_count rest" and "capacity A = int (length xs + length rest)"
proof -
  from assms(1) obtain rest where r: "b_slots (a_block A) = map Live xs @ rest" "no_Live rest"
    "capacity A = int (length xs + length rest)" by (rule arr_repE)
  have "xs = take pos xs @ take n (drop pos xs) @ drop (pos + n) xs"
    by (metis append_take_drop_id drop_drop add.commute)
  then have "map Live xs @ rest = map Live (take pos xs) @ map Live (take n (drop pos xs)) @ map Live (drop (pos + n) xs) @ rest"
    by (metis append.assoc map_append)
  moreover have "husks A = b_husks (a_block A) + husk_count rest" by (simp add: husks_def r(1))
  ultimately show ?thesis using that r block_split by metis
qed

text \<open>Destroying a range of elements, and constructing others in their place.\<close>

lemma destroy_range:
  assumes "arr_rep xs A" and "pos + n \<le> length xs"
  obtains rest where "on_block (ArrayOps_destroy pos n) A =
      Inr (A\<lparr>a_block := (a_block A)\<lparr>b_slots := map Live (take pos xs) @ replicate n Raw @ map Live (drop (pos + n) xs) @ rest\<rparr>\<rparr>)"
    and "no_Live rest" and "husks A = b_husks (a_block A) + husk_count rest" and "capacity A = int (length xs + length rest)"
proof -
  let ?mid = "map Live (take n (drop pos xs))"
  from assms obtain rest where r: "a_block A = (a_block A)\<lparr>b_slots := map Live (take pos xs) @ ?mid @ map Live (drop (pos + n) xs) @ rest\<rparr>"
    "no_Live rest" "husks A = b_husks (a_block A) + husk_count rest" "capacity A = int (length xs + length rest)" by (rule arr_rep_range)
  have "ArrayOps_destroy pos n (a_block A) = Inr ((a_block A)\<lparr>b_slots := map Live (take pos xs) @ replicate n Raw @ map Live (drop (pos + n) xs) @ rest\<rparr>)"
    by (subst r(1)) (use destroy_eq [of ?mid "map Live (take pos xs)" "map Live (drop (pos + n) xs) @ rest" "a_block A"] assms(2) in \<open>auto simp: min_absorb2\<close>)
  then show ?thesis using that r(2-) by (simp add: on_block_def)
qed

lemma replace_range:
  assumes "arr_rep xs A" and "pos + length vs \<le> length xs"
  shows "yields A (husks A) (capacity A) (take pos xs @ vs @ drop (pos + length vs) xs)
    (arr_bind (on_block (ArrayOps_destroy pos (length vs)) A) (on_block (fill_range pos vs)))"
proof -
  from assms obtain rest where d: "on_block (ArrayOps_destroy pos (length vs)) A =
      Inr (A\<lparr>a_block := (a_block A)\<lparr>b_slots := map Live (take pos xs) @ replicate (length vs) Raw @ map Live (drop (pos + length vs) xs) @ rest\<rparr>\<rparr>)"
    "no_Live rest" "husks A = b_husks (a_block A) + husk_count rest" "capacity A = int (length xs + length rest)" by (rule destroy_range)
  have "fill_range pos vs ((a_block A)\<lparr>b_slots := map Live (take pos xs) @ replicate (length vs) Raw @ map Live (drop (pos + length vs) xs) @ rest\<rparr>) =
    Inr ((a_block A)\<lparr>b_slots := map Live (take pos xs) @ map Live vs @ map Live (drop (pos + length vs) xs) @ rest\<rparr>)"
    using fill_range_eq [of "replicate (length vs) Raw" vs "map Live (take pos xs)" "map Live (drop (pos + length vs) xs) @ rest" "a_block A"] assms(2) by (simp add: min_absorb2)
  then have "arr_bind (on_block (ArrayOps_destroy pos (length vs)) A) (on_block (fill_range pos vs)) =
      Inr (A\<lparr>a_block := (a_block A)\<lparr>b_slots := map Live (take pos xs @ vs @ drop (pos + length vs) xs) @ rest\<rparr>\<rparr>)"
    by (simp add: d(1)) (simp add: on_block_def)
  then show ?thesis
    by (rule yieldsI) (use assms d(2-) in \<open>auto simp: arr_rep_def like_def husks_def capacity_def\<close>)
qed

text \<open>Constructing in the gap that \<^verbatim>\<open>reserveForInsert\<close> made.\<close>

lemma insert_range_ok:
  assumes "arr_rep xs A" and "pos \<le> length xs" and "vs \<noteq> []" and "int (length xs + length vs) \<le> a_index_max A"
  shows "case grown (a_index_max A) (a_grow A) (int (length xs + length vs)) (capacity A) of
      Inl e \<Rightarrow> arr_bind (reserveForInsert (int (length vs)) (int pos) A) (on_block (fill_range pos vs)) = Inl e
    | Inr c \<Rightarrow> yields A (husks A + (length xs - pos)) c (take pos xs @ vs @ drop pos xs)
        (arr_bind (reserveForInsert (int (length vs)) (int pos) A) (on_block (fill_range pos vs)))"
proof (cases "grown (a_index_max A) (a_grow A) (int (length xs + length vs)) (capacity A)")
  case (Inl e)
  then show ?thesis using reserveForInsert_ok [OF assms(1,2) _ assms(4)] assms(3) by simp
next
  case (Inr c)
  then obtain A' junk rest where r: "reserveForInsert (int (length vs)) (int pos) A = Inr A'" "length junk = length vs"
    "no_Live junk" "no_Live rest" "b_slots (a_block A') = map Live (take pos xs) @ junk @ map Live (drop pos xs) @ rest"
    "a_num_elements A' = int (length xs + length vs)" "a_ratio_ok A'" "like A A'" "husks A' = husks A + (length xs - pos)" "capacity A' = c"
    using reserveForInsert_ok [OF assms(1,2) _ assms(4)] assms(3) by auto
  have "fill_range pos vs (a_block A') =
    Inr ((a_block A')\<lparr>b_slots := map Live (take pos xs) @ map Live vs @ map Live (drop pos xs) @ rest, b_husks := b_husks (a_block A') + husk_count junk\<rparr>)"
    by (subst block_split [OF r(5)])
      (use fill_range_eq [of junk vs "map Live (take pos xs)" "map Live (drop pos xs) @ rest" "a_block A'"] r(2,3) assms(2) in \<open>simp add: min_absorb2\<close>)
  then have "arr_bind (reserveForInsert (int (length vs)) (int pos) A) (on_block (fill_range pos vs)) =
      Inr (A'\<lparr>a_block := (a_block A')\<lparr>b_slots := map Live (take pos xs @ vs @ drop pos xs) @ rest, b_husks := b_husks (a_block A') + husk_count junk\<rparr>\<rparr>)"
    by (simp add: r(1)) (simp add: on_block_def)
  moreover have "husks A' = b_husks (a_block A') + husk_count junk + husk_count rest" by (simp add: husks_def r(5))
  ultimately show ?thesis unfolding Inr sum.case
    by (elim yieldsI) (use r(2,4-) assms(2) in \<open>auto simp: arr_rep_def like_def husks_def capacity_def\<close>)
qed

lemma construct_fill: "construct i x = fill_range i [x]"
proof
  fix b show "construct i x b = fill_range i [x] b" by (cases "construct i x b") auto
qed

lemma arr_bind_assoc: "arr_bind (arr_bind r f) g = arr_bind r (\<lambda>x. arr_bind (f x) g)"
  by (cases r) auto

lemma erase_ok:
  assumes "arr_rep xs A" and "pos + n \<le> length xs" and "0 < n"
  shows "yields A (husks A + (length xs - (pos + n))) (capacity A) (take pos xs @ drop (pos + n) xs)
    (arr_bind (on_block (ArrayOps_destroy pos n) A) (\<lambda>A.
     arr_bind (on_block (ArrayOps_move (pos + n) (nat (a_num_elements A)) pos) A) (\<lambda>A.
     updateNumElements (a_num_elements A - int n) A)))"
proof -
  have len: "a_num_elements A = int (length xs)" and ok: "a_ratio_ok A" using assms(1) by (auto simp: arr_rep_def)
  from assms(1,2) obtain rest where d: "on_block (ArrayOps_destroy pos n) A =
      Inr (A\<lparr>a_block := (a_block A)\<lparr>b_slots := map Live (take pos xs) @ replicate n Raw @ map Live (drop (pos + n) xs) @ rest\<rparr>\<rparr>)"
    "no_Live rest" "husks A = b_husks (a_block A) + husk_count rest" "capacity A = int (length xs + length rest)" by (rule destroy_range)
  obtain junk h where j: "length junk = n" "no_Live junk" "h + husk_count junk = b_husks (a_block A) + (length xs - (pos + n))"
    "move_forward (pos + n) pos (length xs - (pos + n)) ((a_block A)\<lparr>b_slots := map Live (take pos xs) @ replicate n Raw @ map Live (drop (pos + n) xs) @ rest\<rparr>) =
      Inr ((a_block A)\<lparr>b_slots := map Live (take pos xs) @ map Live (drop (pos + n) xs) @ junk @ rest, b_husks := h\<rparr>)"
    using move_forward_eq [of "replicate n Raw" "a_block A" "drop (pos + n) xs" "map Live (take pos xs)" rest] assms(2,3)
    by (auto simp: min_absorb2)
  define tail where "tail = (if pos + n < length xs then junk else replicate n Raw) @ rest"
  define k where "k = (if pos + n < length xs then h else b_husks (a_block A))"
  have tail: "no_Live tail" "length tail = n + length rest" "k + husk_count tail = husks A + (length xs - (pos + n))"
    using j(1-3) d(2,3) by (auto simp: tail_def k_def)
  have "ArrayOps_move (pos + n) (length xs) pos ((a_block A)\<lparr>b_slots := map Live (take pos xs) @ replicate n Raw @ map Live (drop (pos + n) xs) @ rest\<rparr>) =
      Inr ((a_block A)\<lparr>b_slots := map Live (take pos xs) @ map Live (drop (pos + n) xs) @ tail, b_husks := k\<rparr>)"
    using j(4) assms(2,3) by (auto simp: ArrayOps_move_def tail_def k_def)
  then have "arr_bind (on_block (ArrayOps_destroy pos n) A) (\<lambda>A.
     arr_bind (on_block (ArrayOps_move (pos + n) (nat (a_num_elements A)) pos) A) (\<lambda>A.
     updateNumElements (a_num_elements A - int n) A)) =
     Inr (A\<lparr>a_block := (a_block A)\<lparr>b_slots := map Live (take pos xs @ drop (pos + n) xs) @ tail, b_husks := k\<rparr>,
       a_num_elements := int (length xs) - int n\<rparr>)"
    using assms(2) len tail(2) by (simp add: d(1)) (simp add: on_block_def updateNumElements_def capacity_def)
  then show ?thesis
    by (rule yieldsI) (use assms(2) ok tail d(4) in \<open>auto simp: arr_rep_def like_def husks_def capacity_def\<close>)
qed

text \<open>Changing the number of elements at the end.\<close>

lemma fill_eqs: "ArrayOps_fill i n x = fill_range i (replicate n x)" "ArrayOps_init dflt i n = fill_range i (replicate n dflt)"
  by (auto simp: ArrayOps_fill_def ArrayOps_init_def)

lemma fill_tail:
  assumes "arr_rep xs A" and "int (length xs + length vs) \<le> capacity A"
  shows "yields A (husks A) (capacity A) (xs @ vs) (arr_bind (on_block (fill_range (length xs) vs) A) (updateNumElements (int (length xs + length vs))))"
proof -
  from assms(1) obtain rest where r: "b_slots (a_block A) = map Live xs @ rest" "no_Live rest"
    "a_num_elements A = int (length xs)" "a_ratio_ok A" "capacity A = int (length xs + length rest)" by (rule arr_repE)
  let ?n = "length vs"
  have nl: "no_Live (take ?n rest)" "no_Live (drop ?n rest)" using r(2) by (auto dest: in_set_takeD in_set_dropD)
  have n: "?n \<le> length rest" using assms(2) r(5) by simp
  have b: "a_block A = (a_block A)\<lparr>b_slots := map Live xs @ take ?n rest @ drop ?n rest\<rparr>" by (rule block_split) (simp add: r(1))
  have "fill_range (length xs) vs (a_block A) = Inr ((a_block A)\<lparr>b_slots := map Live xs @ map Live vs @ drop ?n rest, b_husks := b_husks (a_block A) + husk_count (take ?n rest)\<rparr>)"
    by (subst b) (use fill_range_eq [of "take ?n rest" vs "map Live xs" "drop ?n rest" "a_block A"] n nl(1) in simp)
  then have "arr_bind (on_block (fill_range (length xs) vs) A) (updateNumElements (int (length xs + length vs))) =
      Inr (A\<lparr>a_block := (a_block A)\<lparr>b_slots := map Live (xs @ vs) @ drop ?n rest, b_husks := b_husks (a_block A) + husk_count (take ?n rest)\<rparr>, a_num_elements := int (length xs + length vs)\<rparr>)"
    by (simp add: on_block_def updateNumElements_def capacity_def)
  moreover have "husks A = b_husks (a_block A) + husk_count (take ?n rest) + husk_count (drop ?n rest)"
    using husk_count_simps(3) [of "take ?n rest" "drop ?n rest"] by (simp add: husks_def r(1))
  ultimately show ?thesis by (elim yieldsI) (use r(4,5) nl(2) n in \<open>auto simp: arr_rep_def like_def husks_def capacity_def\<close>)
qed

lemma destroy_tail:
  assumes "arr_rep xs A" and "n \<le> length xs"
  shows "yields A (husks A) (capacity A) (take n xs) (arr_bind (on_block (ArrayOps_destroy n (length xs - n)) A) (updateNumElements (int n)))"
proof -
  have ok: "a_ratio_ok A" using assms(1) by (auto simp: arr_rep_def)
  from assms(1) obtain rest where d: "on_block (ArrayOps_destroy n (length xs - n)) A =
      Inr (A\<lparr>a_block := (a_block A)\<lparr>b_slots := map Live (take n xs) @ replicate (length xs - n) Raw @ map Live (drop (n + (length xs - n)) xs) @ rest\<rparr>\<rparr>)"
    "no_Live rest" "husks A = b_husks (a_block A) + husk_count rest" "capacity A = int (length xs + length rest)"
    by (rule destroy_range [of xs A n "length xs - n"]) (use assms(2) in auto)
  then have "arr_bind (on_block (ArrayOps_destroy n (length xs - n)) A) (updateNumElements (int n)) =
      Inr (A\<lparr>a_block := (a_block A)\<lparr>b_slots := map Live (take n xs) @ replicate (length xs - n) Raw @ rest\<rparr>, a_num_elements := int n\<rparr>)"
    using assms(2) by (simp add: updateNumElements_def capacity_def)
  then show ?thesis by (rule yieldsI) (use ok assms(2) d(2-) in \<open>auto simp: arr_rep_def like_def husks_def capacity_def\<close>)
qed

lemma updateNumElements_same: "arr_rep xs A \<Longrightarrow> yields A (husks A) (capacity A) xs (updateNumElements (int (length xs)) A)"
  by (rule yieldsI [of _ A]) (auto simp: updateNumElements_def arr_rep_def capacity_def)

lemma Array_clear_ok: "arr_rep xs A \<Longrightarrow> yields A (husks A) (capacity A) [] (Array_clear A)"
proof (cases "xs = []")
  case False
  assume "arr_rep xs A"
  then show ?thesis using False destroy_tail [of xs A 0] by (simp add: Array_clear_def arr_rep_def [of xs])
qed (auto simp: Array_clear_def arr_rep_def yields_def)

lemma resize_ok:
  assumes "arr_rep xs A" and "0 \<le> n"
  shows "case grown (a_index_max A) (a_grow A) n (capacity A) of Inl e \<Rightarrow> Array_resize dflt n True v A = Inl e
    | Inr c \<Rightarrow> yields A (husks A) c (take (nat n) xs @ replicate (nat n - length xs) (case v of Some x \<Rightarrow> x | None \<Rightarrow> dflt))
        (Array_resize dflt n True v A)"
proof -
  let ?x = "case v of Some x \<Rightarrow> x | None \<Rightarrow> dflt"
  have len: "a_num_elements A = int (length xs)" and le: "int (length xs) \<le> capacity A"
    using assms(1) by (auto simp: arr_rep_def capacity_def)
  have room: "case grown (a_index_max A) (a_grow A) n (capacity A) of
      Inl e \<Rightarrow> (if n > capacity A then dynamicRealloc n A else Inr A) = Inl e
    | Inr c \<Rightarrow> yields A (husks A) c xs (if n > capacity A then dynamicRealloc n A else Inr A)"
    using make_room [OF assms(1), of n] le by linarith
  have fill: "(case v of Some x \<Rightarrow> ArrayOps_fill k m x | None \<Rightarrow> ArrayOps_init dflt k m) = fill_range k (replicate m ?x)" for k m
    by (simp add: fill_eqs split: option.split)
  show ?thesis
  proof (cases "grown (a_index_max A) (a_grow A) n (capacity A)")
    case (Inl e)
    then show ?thesis using room assms(2) unfolding Array_resize_def Let_def by auto
  next
    case (Inr c)
    then obtain A1 where A1: "(if n > capacity A then dynamicRealloc n A else Inr A) = Inr A1"
      "arr_rep xs A1" "like A A1" "husks A1 = husks A" "capacity A1 = c" using room by (auto elim: yieldsE)
    have n: "n \<le> capacity A1" using grown_le [OF Inr] A1(5) by simp
    consider "int (length xs) < n" | "n < int (length xs)" | "n = int (length xs)" by linarith
    then have "yields A1 (husks A1) (capacity A1) (take (nat n) xs @ replicate (nat n - length xs) ?x) (Array_resize dflt n True v A)"
    proof cases
      case 1
      then show ?thesis
        using fill_tail [OF A1(2), of "replicate (nat n - length xs) ?x"] A1(1) assms(2) len n
        by (simp add: Array_resize_def fill nat_diff_distrib')
    next
      case 2
      then show ?thesis
        using destroy_tail [OF A1(2), of "nat n"] A1(1) assms(2) len by (simp add: Array_resize_def nat_diff_distrib')
    next
      case 3
      then show ?thesis
        unfolding Array_resize_def Let_def A1(1) using updateNumElements_same [OF A1(2)] len by simp
    qed
    then show ?thesis using yields_like [OF _ A1(3)] A1(4,5) Inr by auto
  qed
qed

text \<open>New arrays, and reading.\<close>

lemma read_range_eq: "b_slots b = pre @ map Live ys @ post \<Longrightarrow> read_range (length pre) (length ys) b = Inr ys"
proof (induction ys arbitrary: pre)
  case (Cons y ys)
  then show ?case using Cons.IH [of "pre @ [Live y]"] read_append [of b pre y "map Live ys @ post"] by simp
qed simp

lemma Array_elems_eq: "arr_rep xs A \<Longrightarrow> Array_elems A = Inr xs"
  by (auto simp: Array_elems_def elim!: arr_repE intro: read_range_eq [of _ "[]", simplified])

lemma arr_rep_empty: "arr_rep [] (Array_empty M)" "husks (Array_empty M) = 0" "capacity (Array_empty M) = 0"
  "a_index_max (Array_empty M) = M" "a_grow (Array_empty M) = (\<lambda>c. 2 * c)" "lost (Array_empty M) = 0"
  by (auto simp: arr_rep_def Array_empty_def husks_def capacity_def)

lemma initialize_from_other_ok:
  assumes "arr_rep [] A" and "int (length vs) \<le> a_index_max A"
  shows "yields A (husks A) (int (length vs)) vs (initialize_from_other vs A)"
proof -
  obtain A1 where A1: "setCapacity (int (length vs)) A = Inr A1" "arr_rep [] A1" "like A A1" "husks A1 = husks A" "capacity A1 = int (length vs)"
    using setCapacity_ok [OF assms(1), of "int (length vs)"] by (auto elim: yieldsE)
  then have "yields A1 (husks A1) (capacity A1) vs (initialize_from_other vs A)"
    using fill_tail [of "[]" A1 vs] assms(2) by (simp add: initialize_from_other_def)
  then show ?thesis using yields_like [OF _ A1(3)] A1(4,5) by auto
qed

text \<open>The capacity of a new array.\<close>

definition initial_capacity :: "int \<Rightarrow> int \<Rightarrow> int" where
  "initial_capacity n c = (if 0 < c \<and> n \<le> c then c else max n MIN_DEFAULT_CAPACITY)"

lemma Array_initialize_ok:
  assumes "0 \<le> n"
  shows "yields (Array_empty M) 0 (initial_capacity n c) (replicate (nat n) dflt) (Array_initialize dflt n c True (Array_empty M))"
proof -
  let ?cap = "if c < 0 \<or> n > c then 0 else c"
  have cap: "(if ?cap = 0 then if n > MIN_DEFAULT_CAPACITY then n else MIN_DEFAULT_CAPACITY else ?cap) = initial_capacity n c"
    "n \<le> initial_capacity n c" using assms by (auto simp: initial_capacity_def MIN_DEFAULT_CAPACITY_def)
  obtain A1 where A1: "setCapacity (initial_capacity n c) (Array_empty M :: 'a Array) = Inr A1" "arr_rep [] A1" "like (Array_empty M) A1"
    "husks A1 = 0" "capacity A1 = initial_capacity n c"
    using setCapacity_ok [OF arr_rep_empty(1), of "initial_capacity n c" M, where 'a = 'a] assms cap(2)
    by (auto elim!: yieldsE simp: arr_rep_empty(2))
  have "yields A1 (husks A1) (capacity A1) (replicate (nat n) dflt) (Array_initialize dflt n c True (Array_empty M))"
    unfolding Array_initialize_def Let_def cap(1)
    using fill_tail [OF A1(2), of "replicate (nat n) dflt"] A1(1,5) assms cap(2) by (simp add: fill_eqs)
  then show ?thesis using yields_like [OF _ A1(3)] A1(4,5) by auto
qed

section \<open>Sequences of calls\<close>

primrec run_calls :: "('op \<Rightarrow> 's \<Rightarrow> 'e + 's) \<Rightarrow> 'op list \<Rightarrow> 's \<Rightarrow> 'e + 's" where
  "run_calls step [] s = Inr s"
| "run_calls step (op # ops) s = (case step op s of Inl e \<Rightarrow> Inl e | Inr s' \<Rightarrow> run_calls step ops s')"

text \<open>
  A fallible component that simulates an abstract one: where a step of the specification returns, so does the step
  of the component, in a related state, and where the specification fails the step fails with the same error.
\<close>

locale fallible_refinement =
  fixes step :: "'op \<Rightarrow> 's \<Rightarrow> 'e + 's"
    and spec :: "'op \<Rightarrow> 'x \<Rightarrow> 'e + 'x"
    and rep :: "'x \<Rightarrow> 's \<Rightarrow> bool"
  assumes step_returns: "rep x s \<Longrightarrow> spec op x = Inr y \<Longrightarrow> \<exists>s'. step op s = Inr s' \<and> rep y s'"
    and step_fails: "rep x s \<Longrightarrow> spec op x = Inl e \<Longrightarrow> step op s = Inl e"
begin

lemma calls_refine:
  "rep x s \<Longrightarrow> (case run_calls spec ops x of Inr y \<Rightarrow> \<exists>s'. run_calls step ops s = Inr s' \<and> rep y s' | Inl e \<Rightarrow> run_calls step ops s = Inl e)"
proof (induction ops arbitrary: x s)
  case (Cons op ops)
  show ?case
  proof (cases "spec op x")
    case (Inl e)
    then show ?thesis using step_fails [OF Cons.prems] by simp
  next
    case (Inr y)
    then obtain s' where "step op s = Inr s'" "rep y s'" using step_returns [OF Cons.prems] by blast
    then show ?thesis using Cons.IH [of y s'] Inr by (simp split: sum.splits)
  qed
qed simp

end

datatype 'a arr_op =
    PushBack 'a | Emplace int 'a | InsertAt int 'a | InsertRange int "'a list option" | InsertN int int 'a
  | EraseAt int | EraseRange int int | Fill 'a | FillRange 'a int int | SetRange "'a list option" int | ClearAll
  | Resize int | ResizeValue int 'a | Reserve int | Shrink | AssignList "'a list option" | Assign "'a list"

fun array_step :: "'a \<Rightarrow> 'a arr_op \<Rightarrow> 'a Array \<Rightarrow> arr_fault + 'a Array" where
  "array_step dflt (PushBack x) A = Array_push_back x A"
| "array_step dflt (Emplace pos x) A = Array_emplace pos x A"
| "array_step dflt (InsertAt pos x) A = Array_insert pos x A"
| "array_step dflt (InsertRange pos values) A = Array_insert_range pos values A"
| "array_step dflt (InsertN pos n x) A = Array_insert_n pos n x A"
| "array_step dflt (EraseAt pos) A = arr_bind (Array_erase pos A) (\<lambda>(A, it). Inr A)"
| "array_step dflt (EraseRange first stop) A = arr_bind (Array_erase_range first stop A) (\<lambda>(A, it). Inr A)"
| "array_step dflt (Fill x) A = Array_fill x A"
| "array_step dflt (FillRange x n pos) A = Array_fill_range x n pos A"
| "array_step dflt (SetRange elements pos) A = Array_set elements pos A"
| "array_step dflt ClearAll A = Array_clear A"
| "array_step dflt (Resize n) A = Array_resize dflt n True None A"
| "array_step dflt (ResizeValue n x) A = Array_resize dflt n True (Some x) A"
| "array_step dflt (Reserve c) A = Array_reserve c A"
| "array_step dflt Shrink A = Array_shrink A"
| "array_step dflt (AssignList elems) A = Array_assign_list elems A"
| "array_step dflt (Assign vs) A = arr_bind (Array_of_list (a_index_max A) vs) (\<lambda>other. Array_assign other A)"

text \<open>
  The same calls on lists, with the capacity of the array and the number of moved-from objects that are never
  destroyed. An insertion moves every element behind the position once, an erasure every element behind
  the erased ones; the capacity doubles when it does not suffice. \<open>M\<close> is the largest value of \<^verbatim>\<open>IndexType\<close>.
\<close>

type_synonym 'a arr_spec = "'a list \<times> int \<times> nat"

abbreviation twice :: "int \<Rightarrow> int" where "twice c \<equiv> 2 * c"

definition list_insert :: "int \<Rightarrow> int \<Rightarrow> 'a list \<Rightarrow> 'a arr_spec \<Rightarrow> arr_fault + 'a arr_spec" where
  "list_insert M pos vs = (\<lambda>(xs, c, h).
     if pos < 0 \<or> pos > int (length xs) then Inl AssertFailed
     else if vs = [] then Inr (xs, c, h)
     else if int (length xs + length vs) > M then Inl Overflow
     else arr_bind (grown M twice (int (length xs + length vs)) c) (\<lambda>c.
       Inr (take (nat pos) xs @ vs @ drop (nat pos) xs, c, h + (length xs - nat pos))))"

definition list_erase :: "nat \<Rightarrow> nat \<Rightarrow> 'a arr_spec \<Rightarrow> arr_fault + 'a arr_spec" where
  "list_erase first stop = (\<lambda>(xs, c, h). Inr (take first xs @ drop stop xs, c, h + (if first = stop then 0 else length xs - stop)))"

definition list_replace :: "int \<Rightarrow> int \<Rightarrow> int \<Rightarrow> 'a list \<Rightarrow> 'a arr_spec \<Rightarrow> arr_fault + 'a arr_spec" where
  "list_replace M pos n vs = (\<lambda>(xs, c, h).
     if pos < 0 then Inl AssertFailed
     else if pos + n > M then Inl Overflow
     else if pos + n > int (length xs) then Inl AssertFailed
     else Inr (take (nat pos) xs @ vs @ drop (nat pos + nat n) xs, c, h))"

definition list_resize :: "int \<Rightarrow> int \<Rightarrow> 'a \<Rightarrow> 'a arr_spec \<Rightarrow> arr_fault + 'a arr_spec" where
  "list_resize M n x = (\<lambda>(xs, c, h).
     if n < 0 then Inl AssertFailed
     else arr_bind (grown M twice n c) (\<lambda>c. Inr (take (nat n) xs @ replicate (nat n - length xs) x, c, h)))"

fun list_step :: "int \<Rightarrow> 'a \<Rightarrow> 'a arr_op \<Rightarrow> 'a arr_spec \<Rightarrow> arr_fault + 'a arr_spec" where
  "list_step M dflt (PushBack x) (xs, c, h) = list_insert M (int (length xs)) [x] (xs, c, h)"
| "list_step M dflt (Emplace pos x) s = list_insert M pos [x] s"
| "list_step M dflt (InsertAt pos x) s = list_insert M pos [x] s"
| "list_step M dflt (InsertRange pos values) s =
     (case values of None \<Rightarrow> Inl AssertFailed | Some vs \<Rightarrow> list_insert M pos vs s)"
| "list_step M dflt (InsertN pos n x) s =
     (if n < 0 then Inl AssertFailed else list_insert M pos (replicate (nat n) x) s)"
| "list_step M dflt (EraseAt pos) (xs, c, h) =
     (if 0 \<le> pos \<and> pos < int (length xs) then list_erase (nat pos) (Suc (nat pos)) (xs, c, h) else Inl AssertFailed)"
| "list_step M dflt (EraseRange first stop) (xs, c, h) =
     (if 0 \<le> first \<and> first < int (length xs) \<and> first \<le> stop \<and> stop \<le> int (length xs)
      then list_erase (nat first) (nat stop) (xs, c, h) else Inl AssertFailed)"
| "list_step M dflt (Fill x) (xs, c, h) = Inr (replicate (length xs) x, c, h)"
| "list_step M dflt (FillRange x n pos) s = list_replace M pos n (replicate (nat n) x) s"
| "list_step M dflt (SetRange elements pos) s =
     (case elements of None \<Rightarrow> Inl AssertFailed | Some vs \<Rightarrow> list_replace M pos (int (length vs)) vs s)"
| "list_step M dflt ClearAll (xs, c, h) = Inr ([], c, h)"
| "list_step M dflt (Resize n) s = list_resize M n dflt s"
| "list_step M dflt (ResizeValue n x) s = list_resize M n x s"
| "list_step M dflt (Reserve cap) (xs, c, h) = Inr (xs, max c cap, h)"
| "list_step M dflt Shrink (xs, c, h) = Inr (xs, int (length xs), h)"
| "list_step M dflt (AssignList elems) (xs, c, h) =
     (case elems of None \<Rightarrow> Inl AssertFailed | Some vs \<Rightarrow> list_insert M 0 vs ([], c, h))"
| "list_step M dflt (Assign vs) (xs, c, h) =
     (if int (length vs) > M then Inl Overflow else Inr (vs, int (length vs), h))"

text \<open>A call on \<open>A\<close> that does what the specification says, in arrays with the default resize ratio.\<close>

definition meets :: "'a Array \<Rightarrow> arr_fault + 'a arr_spec \<Rightarrow> arr_fault + 'a Array \<Rightarrow> bool" where
  "meets A s r \<longleftrightarrow> (case s of Inl e \<Rightarrow> r = Inl e | Inr (xs, c, h) \<Rightarrow> yields A h c xs r)"

lemma meets_simps [simp]: "meets A (Inl e) r \<longleftrightarrow> r = Inl e" "meets A (Inr (xs, c, h)) r \<longleftrightarrow> yields A h c xs r"
  by (simp_all add: meets_def)

lemma meets_like: "meets B s r \<Longrightarrow> like A B \<Longrightarrow> meets A s r"
  by (auto simp: meets_def yields_like split: sum.splits)

lemma list_insert_refines:
  assumes "arr_rep xs A" and "a_grow A = twice"
  shows "meets A (list_insert (a_index_max A) pos vs (xs, capacity A, husks A))
    (arr_bind (reserveForInsert (int (length vs)) pos A) (on_block (fill_range (nat pos) vs)))"
proof -
  have len: "a_num_elements A = int (length xs)" using assms(1) by (simp add: arr_rep_def)
  consider "pos < 0 \<or> pos > int (length xs)" | "0 \<le> pos" "pos \<le> int (length xs)" "vs = []"
    | "0 \<le> pos" "pos \<le> int (length xs)" "vs \<noteq> []" "int (length xs + length vs) > a_index_max A"
    | "0 \<le> pos" "pos \<le> int (length xs)" "vs \<noteq> []" "int (length xs + length vs) \<le> a_index_max A" by linarith
  then show ?thesis
  proof cases
    case 1
    then show ?thesis using len by (auto simp: list_insert_def reserveForInsert_def)
  next
    case 2
    then show ?thesis using len assms(1)
      by (auto simp: list_insert_def reserveForInsert_def on_block_def intro!: yieldsI [of _ A])
  next
    case 3
    then show ?thesis using len by (simp add: list_insert_def reserveForInsert_def Let_def)
  next
    case 4
    then have pos: "nat pos \<le> length xs" "int (nat pos) = pos" by auto
    show ?thesis
      using insert_range_ok [OF assms(1) pos(1) 4(3,4), unfolded pos(2)] 4 assms(2)
      by (cases "grown (a_index_max A) twice (int (length xs + length vs)) (capacity A)") (simp_all add: list_insert_def)
  qed
qed

lemma erase_refines:
  assumes "arr_rep xs A" and "pos + n \<le> length xs" and "0 < n"
  shows "yields A (husks A + (length xs - (pos + n))) (capacity A) (take pos xs @ drop (pos + n) xs) (arr_bind
    (arr_bind (on_block (ArrayOps_destroy pos n) A) (\<lambda>A.
     arr_bind (on_block (ArrayOps_move (pos + n) (nat (a_num_elements A)) pos) A) (\<lambda>A.
     arr_bind (updateNumElements (a_num_elements A - int n) A) (\<lambda>A. Inr (A, it))))) (\<lambda>(A, it). Inr A))"
proof -
  have "arr_bind r Inr = r" for r :: "arr_fault + 'a Array" by (cases r) auto
  then show ?thesis using erase_ok [OF assms] by (simp add: arr_bind_assoc)
qed

lemma Array_assign_ok:
  fixes A :: "'a Array"
  assumes "arr_rep xs A" and "arr_rep vs B"
  shows "yields (A\<lparr>a_grow := a_grow B\<rparr>) (husks A) (capacity B) vs (Array_assign B A)"
proof -
  obtain A1 where A1: "Array_clear A = Inr A1" "arr_rep [] A1" "like A A1" "husks A1 = husks A"
    using Array_clear_ok [OF assms(1)] by (auto elim: yieldsE)
  let ?A = "A1\<lparr>a_grow := a_grow B, a_ratio_ok := a_ratio_ok B\<rparr>"
  have rep: "arr_rep [] ?A" using A1(2) assms(2) by (simp add: arr_rep_def)
  have B: "int (length vs) \<le> capacity B" "a_num_elements B = int (length vs)"
    using assms(2) by (simp_all add: arr_rep_def capacity_def)
  obtain A2 where A2: "setCapacity (capacity B) ?A = Inr A2" "arr_rep [] A2" "like ?A A2" "husks A2 = husks ?A" "capacity A2 = capacity B"
    using setCapacity_ok [OF rep, of "capacity B"] by (auto simp: capacity_def elim: yieldsE)
  have "yields A2 (husks A2) (capacity A2) vs (Array_assign B A)"
    using fill_tail [OF A2(2), of vs] Array_elems_eq [OF assms(2)] A1(1) A2(1,5) B by (simp add: Array_assign_def)
  moreover have "like (A\<lparr>a_grow := a_grow B\<rparr>) A2" "husks A2 = husks A"
    using A1(3,4) A2(3,4) by (auto simp: like_def husks_def)
  ultimately show ?thesis using yields_like A2(5) by auto
qed

lemma yields_same: "arr_rep xs A \<Longrightarrow> yields A (husks A) (capacity A) xs (Inr A)"
  by (auto simp: yields_def)

lemma Array_of_list_ok: "int (length vs) \<le> M \<Longrightarrow> yields (Array_empty M) 0 (int (length vs)) vs (Array_of_list M vs)"
  using initialize_from_other_ok [OF arr_rep_empty(1), of vs M] by (simp add: Array_of_list_def arr_rep_empty)

text \<open>Every call refines the call on lists.\<close>

lemma fill_range_refines:
  assumes "arr_rep xs A"
  shows "meets A (list_replace (a_index_max A) pos n (replicate (nat n) x) (xs, capacity A, husks A)) (Array_fill_range x n pos A)"
proof -
  have len: "a_num_elements A = int (length xs)" using assms by (simp add: arr_rep_def)
  show ?thesis
  proof (cases "0 \<le> pos \<and> pos + n \<le> a_index_max A \<and> pos + n \<le> int (length xs)")
    case True
    show ?thesis
    proof (cases "n < 0")
      case True
      then show ?thesis using \<open>_ \<and> _\<close> len yields_same [OF assms]
        by (simp add: Array_fill_range_def list_replace_def on_block_def fill_eqs)
    next
      case False
      with True have "nat pos + nat n \<le> length xs" by linarith
      then show ?thesis
        using replace_range [OF assms, of "nat pos" "replicate (nat n) x"] \<open>_ \<and> _\<close> len
        by (simp add: Array_fill_range_def list_replace_def fill_eqs)
    qed
  next
    case False
    then show ?thesis using len by (auto simp: Array_fill_range_def list_replace_def)
  qed
qed

lemma set_refines:
  assumes "arr_rep xs A"
  shows "meets A (list_replace (a_index_max A) pos (int (length vs)) vs (xs, capacity A, husks A)) (Array_set (Some vs) pos A)"
proof -
  have len: "a_num_elements A = int (length xs)" using assms by (simp add: arr_rep_def)
  show ?thesis
  proof (cases "0 \<le> pos \<and> pos + int (length vs) \<le> a_index_max A \<and> pos + int (length vs) \<le> int (length xs)")
    case True
    then have "nat pos + length vs \<le> length xs" by linarith
    then show ?thesis using True replace_range [OF assms, of "nat pos" vs] len by (simp add: Array_set_def list_replace_def)
  next
    case False
    then show ?thesis using len by (auto simp: Array_set_def list_replace_def)
  qed
qed

lemma resize_refines:
  assumes "arr_rep xs A" and "a_grow A = twice"
  shows "meets A (list_resize (a_index_max A) n (case v of Some x \<Rightarrow> x | None \<Rightarrow> dflt) (xs, capacity A, husks A)) (Array_resize dflt n True v A)"
proof (cases "n < 0")
  case False
  then show ?thesis using resize_ok [OF assms(1), where n = n and v = v and dflt = dflt] assms(2)
    by (cases "grown (a_index_max A) twice n (capacity A)") (simp_all add: list_resize_def)
qed (simp add: list_resize_def Array_resize_def)

lemma array_step_refines:
  assumes "arr_rep xs A" and "a_grow A = twice"
  shows "meets A (list_step (a_index_max A) dflt op (xs, capacity A, husks A)) (array_step dflt op A)"
proof -
  have len: "a_num_elements A = int (length xs)" using assms by (simp add: arr_rep_def)
  note ins = list_insert_refines [OF assms]
  show ?thesis
  proof (cases op)
    case (PushBack x)
    then show ?thesis using ins [where pos = "int (length xs)" and vs = "[x]"] len
      by (simp add: Array_push_back_def Array_emplace_back_def Array_emplace_def construct_fill)
  next
    case (Emplace pos x)
    then show ?thesis using ins [where pos = pos and vs = "[x]"] by (simp add: Array_emplace_def construct_fill)
  next
    case (InsertAt pos x)
    then show ?thesis using ins [where pos = pos and vs = "[x]"] by (simp add: Array_insert_def construct_fill)
  next
    case (InsertRange pos vs)
    then show ?thesis using ins [where pos = pos] by (cases vs) (simp_all add: Array_insert_range_def)
  next
    case (InsertN pos n x)
    then show ?thesis using ins [where pos = pos and vs = "replicate (nat n) x"]
      by (cases "0 \<le> n") (simp_all add: Array_insert_n_def fill_eqs reserveForInsert_def [of n])
  next
    case (EraseAt pos)
    show ?thesis
    proof (cases "0 \<le> pos \<and> pos < int (length xs)")
      case True
      moreover have "nat (pos + 1) = nat pos + 1" using True by linarith
      ultimately show ?thesis using erase_refines [OF assms(1), of "nat pos" 1 pos] len EraseAt
        by (simp add: Array_erase_def list_erase_def nat_less_iff Suc_le_eq)
    next
      case False
      then show ?thesis using EraseAt len by (auto simp: Array_erase_def)
    qed
  next
    case (EraseRange first stop)
    show ?thesis
    proof (cases "0 \<le> first \<and> first < int (length xs) \<and> first \<le> stop \<and> stop \<le> int (length xs)")
      case True
      then have "int (nat stop - nat first) = stop - first" "nat (stop - first) = nat stop - nat first"
        "nat first + (nat stop - nat first) = nat stop" by auto
      with True show ?thesis using erase_refines [OF assms(1), of "nat first" "nat stop - nat first" first] len EraseRange yields_same [OF assms(1)]
        by (cases "first = stop") (auto simp: Array_erase_range_def list_erase_def nat_le_iff)
    next
      case False
      then show ?thesis using EraseRange len by (auto simp: Array_erase_range_def)
    qed
  next
    case (Fill x)
    then show ?thesis using replace_range [OF assms(1), of 0 "replicate (length xs) x"] len
      by (simp add: Array_fill_def fill_eqs)
  next
    case (FillRange x n pos)
    then show ?thesis using fill_range_refines [OF assms(1)] by simp
  next
    case (SetRange elements pos)
    then show ?thesis using set_refines [OF assms(1)] by (cases elements) (simp_all add: Array_set_def)
  next
    case ClearAll
    then show ?thesis using Array_clear_ok [OF assms(1)] by simp
  next
    case (Resize n)
    then show ?thesis using resize_refines [OF assms, where v = None and dflt = dflt and n = n] by simp
  next
    case (ResizeValue n x)
    then show ?thesis using resize_refines [OF assms, where v = "Some x" and dflt = dflt and n = n] by simp
  next
    case (Reserve c)
    then show ?thesis using setCapacity_ok [OF assms(1), of c] yields_same [OF assms(1)] assms(1)
      by (auto simp: Array_reserve_def arr_rep_def capacity_def max_def)
  next
    case Shrink
    then show ?thesis using setCapacity_ok [OF assms(1)] len by (simp add: Array_shrink_def)
  next
    case (AssignList elems)
    obtain A1 where A1: "Array_clear A = Inr A1" "arr_rep [] A1" "like A A1" "husks A1 = husks A" "capacity A1 = capacity A"
      using Array_clear_ok [OF assms(1)] by (auto elim: yieldsE)
    have "meets A1 (list_insert (a_index_max A) 0 vs ([], capacity A, husks A)) (Array_assign_list (Some vs) A)" for vs
      using list_insert_refines [OF A1(2), of 0 vs] A1 assms(2) by (simp add: Array_assign_list_def Array_insert_range_def like_def)
    then have "meets A (list_insert (a_index_max A) 0 vs ([], capacity A, husks A)) (Array_assign_list (Some vs) A)" for vs
      by (rule meets_like [OF _ A1(3)])
    then show ?thesis using AssignList A1(1) by (cases elems) (simp_all add: Array_assign_list_def Array_insert_range_def)
  next
    case (Assign vs)
    show ?thesis
    proof (cases "int (length vs) \<le> a_index_max A")
      case True
      then obtain B where "Array_of_list (a_index_max A) vs = Inr B" "arr_rep vs B" "like (Array_empty (a_index_max A)) B"
        "capacity B = int (length vs)" using Array_of_list_ok [of vs "a_index_max A"] by (auto elim: yieldsE)
      then show ?thesis using Array_assign_ok [OF assms(1), of vs B] Assign True assms(2)
        by (simp add: like_def Array_empty_def) (metis (full_types) Array.surjective Array.update_convs(3))
    next
      case False
      then show ?thesis using Assign by (simp add: Array_of_list_def initialize_from_other_def Array_empty_def)
    qed
  qed
qed

text \<open>The array as a provider of the contract, with no element lost.\<close>

definition arr_refines :: "int \<Rightarrow> 'a arr_spec \<Rightarrow> 'a Array \<Rightarrow> bool" where
  "arr_refines M = (\<lambda>(xs, c, h) A. arr_rep xs A \<and> lost A = 0 \<and> a_grow A = twice \<and> a_index_max A = M \<and> capacity A = c \<and> husks A = h)"

interpretation arr: fallible_refinement "array_step dflt" "list_step M dflt" "arr_refines M"
  for dflt :: 'a and M
proof unfold_locales
  fix s :: "'a arr_spec" and t A op e
  obtain xs c h where s: "s = (xs, c, h)" by (cases s)
  assume A: "arr_refines M s A"
  then have "meets A (list_step M dflt op s) (array_step dflt op A)"
    using array_step_refines [of xs A dflt op] by (auto simp: arr_refines_def s)
  then show "\<exists>A'. array_step dflt op A = Inr A' \<and> arr_refines M t A'" if "list_step M dflt op s = Inr t"
    using A that by (cases t) (auto simp: arr_refines_def s like_def elim!: yieldsE)
  show "array_step dflt op A = Inl e" if "list_step M dflt op s = Inl e"
    using \<open>meets _ _ _\<close> that by simp
qed

lemma Array_delete_ok: "arr_rep xs A \<Longrightarrow> Array_delete A = Inr (lost A, husks A)"
  using Array_clear_ok [of xs A] by (auto simp: Array_delete_def yields_def arr_rep_def like_def husks_def)

lemma arr_rep_size: "arr_rep xs A \<Longrightarrow> a_num_elements A = int (length xs) \<and> a_num_elements A \<le> capacity A"
  by (simp add: arr_rep_def capacity_def)

lemma arr_bind_Inr: "arr_bind r f = Inr y \<longleftrightarrow> (\<exists>x. r = Inr x \<and> f x = Inr y)"
  by (cases r) auto

lemma arr_bind_Inl: "arr_bind r f = Inl e \<longleftrightarrow> r = Inl e \<or> (\<exists>x. r = Inr x \<and> f x = Inl e)"
  by (cases r) auto

text \<open>
  The arguments of a call are of type \<^verbatim>\<open>IndexType\<close>. Then every capacity is, and the only errors are a failed assertion
  and an overflow.
\<close>

fun op_fits :: "int \<Rightarrow> 'a arr_op \<Rightarrow> bool" where
  "op_fits M (Resize n) \<longleftrightarrow> n \<le> M"
| "op_fits M (ResizeValue n x) \<longleftrightarrow> n \<le> M"
| "op_fits M (Reserve c) \<longleftrightarrow> c \<le> M"
| "op_fits M _ \<longleftrightarrow> True"

lemma grown_fits: "grown M twice n c = Inr c' \<Longrightarrow> n \<le> M \<Longrightarrow> c \<le> M \<Longrightarrow> n \<le> c' \<and> c' \<le> M"
  by (auto simp: grown_def split: if_splits)

lemma list_step_fits:
  assumes "list_step M dflt op (xs, c, h) = Inr (xs', c', h')" and "op_fits M op" and "int (length xs) \<le> c" and "c \<le> M"
  shows "int (length xs') \<le> c' \<and> c' \<le> M"
proof -
  have ins: "int (length xs') \<le> c' \<and> c' \<le> M"
    if "list_insert M pos vs (ys, c, h) = Inr (xs', c', h')" "int (length ys) \<le> c" for pos vs ys
    using that assms(4) by (auto simp: list_insert_def arr_bind_Inr split: if_splits dest!: grown_fits)
  have res: "int (length xs') \<le> c' \<and> c' \<le> M" if "list_resize M n x (xs, c, h) = Inr (xs', c', h')" "n \<le> M" for n x
    using that assms(4) by (auto simp: list_resize_def arr_bind_Inr split: if_splits dest!: grown_fits)
  have rep: "int (length xs') \<le> c' \<and> c' \<le> M"
    if "list_replace M pos n vs (xs, c, h) = Inr (xs', c', h')" "length vs = nat n" for pos n vs
    using that assms(3,4) by (auto simp: list_replace_def split: if_splits)
  show ?thesis
    using assms by (cases op) (auto simp: list_erase_def split: if_splits option.splits dest: ins res rep)
qed

lemma list_step_faults: "list_step M dflt op s = Inl e \<Longrightarrow> e = AssertFailed \<or> e = Overflow"
proof -
  have ins: "e = AssertFailed \<or> e = Overflow" if "list_insert M pos vs s = Inl e" for pos vs and s :: "'a arr_spec"
    using that by (cases s) (auto simp: list_insert_def grown_def arr_bind_Inl split: if_splits)
  have res: "e = AssertFailed \<or> e = Overflow" if "list_resize M n x s = Inl e" for n x and s :: "'a arr_spec"
    using that by (cases s) (auto simp: list_resize_def grown_def arr_bind_Inl split: if_splits)
  have rep: "e = AssertFailed \<or> e = Overflow" if "list_replace M pos n vs s = Inl e" for pos n vs and s :: "'a arr_spec"
    using that by (cases s) (auto simp: list_replace_def split: if_splits)
  assume "list_step M dflt op s = Inl e"
  then show ?thesis by (cases s; cases op) (auto simp: list_erase_def split: if_splits option.splits dest: ins res rep)
qed

lemma run_calls_fits:
  assumes "run_calls (list_step M dflt) ops (xs, c, h) = Inr (xs', c', h')" and "list_all (op_fits M) ops"
    and "int (length xs) \<le> c" and "c \<le> M"
  shows "c' \<le> M"
  using assms
proof (induction ops arbitrary: xs c h)
  case (Cons op ops)
  then obtain ys d k where "list_step M dflt op (xs, c, h) = Inr (ys, d, k)" by (auto split: sum.splits)
  then show ?case using Cons list_step_fits [of M dflt op xs c h ys d k] by auto
qed simp

lemma run_calls_faults: "run_calls (list_step M dflt) ops s = Inl e \<Longrightarrow> e = AssertFailed \<or> e = Overflow"
  by (induction ops arbitrary: s) (auto split: sum.splits dest: list_step_faults)

text \<open>The copy constructor: the default-constructed elements are overwritten.\<close>

lemma Array_copy_ok:
  fixes A :: "'a Array"
  assumes "arr_rep xs A"
  shows "\<exists>C. Array_copy dflt A = Inr C \<and> arr_rep xs C \<and> lost C = length xs \<and> husks C = 0 \<and> a_grow C = (\<lambda>c. 2 * c)"
proof -
  have len: "a_num_elements A = int (length xs)" using assms by (simp add: arr_rep_def)
  obtain I where I: "Array_initialize dflt (a_num_elements A) (capacity A) True (Array_empty (a_index_max A)) = Inr I"
    "arr_rep (replicate (length xs) dflt) I" "like (Array_empty (a_index_max A)) I" "husks I = 0"
    using Array_initialize_ok [of "a_num_elements A" "a_index_max A" "capacity A" dflt] len by (auto elim: yieldsE)
  have like: "lost I = 0" "a_grow I = (\<lambda>c. 2 * c)" using I(3) by (simp_all add: like_def arr_rep_empty)
  from I(2) obtain rest where r: "b_slots (a_block I) = map Live (replicate (length xs) dflt) @ rest" "no_Live rest"
    "a_num_elements I = int (length (replicate (length xs) dflt))" "a_ratio_ok I" by (rule arr_repE)
  have husks: "b_husks (a_block I) = 0" "husk_count rest = 0" using I(4) r(1) by (simp_all add: husks_def)
  have "husk_count (map Live (replicate (length xs) dflt)) = 0" "live_count (map Live (replicate (length xs) dflt)) = length xs"
    using husk_count_simps(4) live_count_simps(4) by (metis length_replicate)+
  then have "fill_range 0 xs (a_block I) = Inr ((a_block I)\<lparr>b_slots := map Live xs @ rest, b_lost := length xs\<rparr>)"
    by (subst block_split [OF r(1)])
      (use fill_range_eq [of "map Live (replicate (length xs) dflt)" xs "[]" rest "a_block I"] like(1) husks(1) in \<open>simp del: map_replicate\<close>)
  then show ?thesis using I(1) Array_elems_eq [OF assms] like(2) r(2-4) husks
    by (simp add: Array_copy_def on_block_def arr_rep_def husks_def)
qed

lemma read_element: "arr_rep xs A \<Longrightarrow> i < length xs \<Longrightarrow> read_at i (a_block A) = Inr (xs ! i)"
  by (auto simp: read_at_def nth_append elim!: arr_repE)

lemma front_back:
  "arr_rep xs A \<Longrightarrow> Array_front A = (if xs = [] then Inl AssertFailed else Inr (hd xs))"
  "arr_rep xs A \<Longrightarrow> Array_back A = (if xs = [] then Inl AssertFailed else Inr (List.last xs))"
  using read_element [of xs A 0] read_element [of xs A "length xs - 1"] arr_rep_size [of xs A]
  by (auto simp: Array_front_def Array_back_def hd_conv_nth last_conv_nth nat_diff_distrib')

text \<open>
  C5. A new array of \<open>n\<close> elements holds \<open>n\<close> default values, and every sequence of calls on it has the same
  effect as on a list, for either width of \<^verbatim>\<open>IndexType\<close> (\<open>M\<close> is its largest value, the arguments are at most \<open>M\<close>). Where the calls on the list return, so do those on
  the array: the elements read back are those of the list, \<^verbatim>\<open>front\<close> and \<^verbatim>\<open>back\<close> are its ends, the size is the length of the
  list and within the capacity, which is the specified one and at most \<open>M\<close>. The destructor at the end leaves no object that holds an element and was
  never destroyed, and no object is destroyed twice (that would be a bad access); but exactly \<open>h\<close> moved-from objects are never destroyed, one for each element that an insertion or an
  erasure has shifted. Where a call on lists fails, the array fails in the same way: an assertion (a bad position, a negative number, a
  null pointer), or a size or capacity that \<^verbatim>\<open>IndexType\<close> cannot represent. There is no other failure: raw or released memory is never read.
\<close>

theorem array_refines_list:
  assumes "0 \<le> n" and "n \<le> M" and "c \<le> M" and "MIN_DEFAULT_CAPACITY \<le> M" and "list_all (op_fits M) ops"
  shows "\<exists>A0. Array_new M dflt n c = Inr A0 \<and>
    (case run_calls (list_step M dflt) ops (replicate (nat n) dflt, initial_capacity n c, 0) of
       Inr (xs, cap, h) \<Rightarrow> \<exists>A. run_calls (array_step dflt) ops A0 = Inr A \<and> Array_elems A = Inr xs \<and>
         a_num_elements A = int (length xs) \<and> a_num_elements A \<le> capacity A \<and> capacity A = cap \<and> cap \<le> M \<and>
         Array_delete A = Inr (0, h) \<and>
         Array_front A = (if xs = [] then Inl AssertFailed else Inr (hd xs)) \<and>
         Array_back A = (if xs = [] then Inl AssertFailed else Inr (List.last xs))
     | Inl e \<Rightarrow> run_calls (array_step dflt) ops A0 = Inl e \<and> (e = AssertFailed \<or> e = Overflow))"
proof -
  let ?s0 = "(replicate (nat n) dflt, initial_capacity n c, 0)"
  obtain A0 where A0: "Array_new M dflt n c = Inr A0" "arr_refines M ?s0 A0"
    using Array_initialize_ok [OF assms(1), of M c dflt]
    by (auto simp: Array_new_def arr_refines_def like_def arr_rep_empty elim!: yieldsE)
  have c0: "int (length (replicate (nat n) dflt)) \<le> initial_capacity n c" "initial_capacity n c \<le> M"
    using assms(1-4) by (auto simp: initial_capacity_def)
  show ?thesis
  proof (cases "run_calls (list_step M dflt) ops ?s0")
    case (Inl e)
    then show ?thesis using arr.calls_refine [OF A0(2), of dflt ops] A0(1) run_calls_faults [OF Inl] by simp
  next
    case (Inr s)
    obtain xs cap h where s: "s = (xs, cap, h)" by (cases s)
    obtain A where A: "run_calls (array_step dflt) ops A0 = Inr A" "arr_rep xs A" "lost A = 0" "capacity A = cap" "husks A = h"
      using Inr arr.calls_refine [OF A0(2), of dflt ops] by (auto simp: arr_refines_def s)
    then show ?thesis
      using Inr s A0(1) Array_elems_eq [OF A(2)] Array_delete_ok [OF A(2)] arr_rep_size [OF A(2)] front_back [OF A(2)]
        run_calls_fits [OF Inr [unfolded s] assms(5) c0] by simp
  qed
qed

theorem array_refines_list_witness:
  "\<exists>A0 A. Array_new (2 ^ 31 - 1) (0::int) 2 0 = Inr A0 \<and>
     run_calls (array_step 0) [PushBack 1, InsertAt 0 2, EraseAt 1, Resize 4] A0 = Inr A \<and>
     Array_elems A = Inr [2, 0, 1, 0] \<and> Array_delete A = Inr (0, 5)"
proof -
  let ?ops = "[PushBack 1, InsertAt 0 2, EraseAt 1, Resize 4] :: int arr_op list"
  have "run_calls (list_step (2 ^ 31 - 1) (0::int)) ?ops (replicate (nat 2) 0, initial_capacity 2 0, 0) = Inr ([2, 0, 1, 0], 32, 5)"
    by code_simp
  then show ?thesis
    using array_refines_list [of 2 "2 ^ 31 - 1" 0 ?ops "0::int"] by (auto simp: MIN_DEFAULT_CAPACITY_def)
qed

text \<open>
  Copies. The copy constructor gives an array with the same elements, but it constructs the copies over
  the default-constructed elements of \<^verbatim>\<open>initialize\<close>: as many objects as the array has elements are never
  destroyed. Construction from another array, and assignment, lose none and give the same elements, and
  the assignment takes over the resize ratio where the copy constructor does not. The move constructor and
  the move assignment hand the elements over and leave an empty array.
\<close>

theorem array_copies:
  fixes xs ys :: "'a list"
  assumes "int (length xs) \<le> M" and "int (length ys) \<le> M"
  shows "\<exists>A B. Array_of_list M xs = Inr A \<and> Array_of_list M ys = Inr B \<and>
    (\<exists>C. Array_copy dflt (setResizeRatio grow True A) = Inr C \<and> Array_elems C = Inr xs \<and>
      Array_delete C = Inr (length xs, 0) \<and> a_grow C = (\<lambda>c. 2 * c)) \<and>
    (\<exists>C. Array_assign (setResizeRatio grow True A) B = Inr C \<and> Array_elems C = Inr xs \<and> Array_delete C = Inr (0, 0) \<and> a_grow C = grow) \<and>
    (\<exists>C D. Array_move_construct A = (C, D) \<and> Array_elems C = Inr xs \<and> Array_delete C = Inr (0, 0) \<and> Array_elems D = Inr []) \<and>
    (\<exists>C D. Array_move_assign A B = Inr (C, D) \<and> Array_elems C = Inr xs \<and> Array_delete C = Inr (0, 0) \<and> Array_elems D = Inr [])"
proof -
  obtain A where A: "Array_of_list M xs = Inr A" "arr_rep xs A" "lost A = 0" "husks A = 0"
    using Array_of_list_ok [OF assms(1)] by (auto simp: like_def arr_rep_empty elim!: yieldsE)
  obtain B where B: "Array_of_list M ys = Inr B" "arr_rep ys B" "lost B = 0" "husks B = 0"
    using Array_of_list_ok [OF assms(2)] by (auto simp: like_def arr_rep_empty elim!: yieldsE)
  have R: "arr_rep xs (setResizeRatio grow True A)" "a_grow (setResizeRatio grow True A) = grow"
    using A(2) by (simp_all add: setResizeRatio_def arr_rep_def)
  obtain C1 where C1: "Array_copy dflt (setResizeRatio grow True A) = Inr C1" "arr_rep xs C1" "lost C1 = length xs" "husks C1 = 0"
    "a_grow C1 = (\<lambda>c. 2 * c)" using Array_copy_ok [OF R(1), of dflt] by blast
  obtain C3 where C3: "Array_assign (setResizeRatio grow True A) B = Inr C3" "arr_rep xs C3" "lost C3 = 0" "husks C3 = 0" "a_grow C3 = grow"
    using Array_assign_ok [OF B(2) R(1)] B(3,4) R(2) by (auto simp: like_def elim!: yieldsE)
  have C5: "Array_move_assign A B = Inr (A, Array_empty (a_index_max A))"
    using Array_delete_ok [OF B(2)] B(3,4) by (simp add: Array_move_assign_def)
  note held = Array_elems_eq Array_delete_ok
  show ?thesis
    using A(1,3,4) B(1) C1(1,3-) C3(1,3-) C5 held [OF C1(2)] held [OF C3(2)] held [OF A(2)]
      Array_elems_eq [OF arr_rep_empty(1), where 'a = 'a]
    by (simp add: Array_move_construct_def)
qed

text \<open>The slots after \<^verbatim>\<open>reserveForInsert(1, pos)\<close> seen through a reference to element \<open>i\<close>.\<close>

lemma read_after_shift:
  assumes "b_slots b = map Live (take pos xs) @ [s] @ map Live (drop pos xs) @ rest" and "\<not> is_Live s"
    and "pos \<le> length xs" and "i < length xs"
  shows "read_at i b = (if i < pos then Inr (xs ! i) else if i = pos then Inl BadAccess else Inr (xs ! (i - 1)))"
proof -
  have "read_at i b = (case b_slots b ! i of Live x \<Rightarrow> Inr x | _ \<Rightarrow> Inl BadAccess)"
    using assms(1,3,4) by (simp add: read_at_def)
  moreover have "b_slots b ! i = (if i < pos then Live (xs ! i) else if i = pos then s else Live (xs ! (i - 1)))"
  proof -
    have "i - pos = Suc k \<Longrightarrow> pos + k = i - Suc 0" for k by simp
    then show ?thesis using assms(1,3,4) by (auto simp: nth_append nth_Cons min_absorb2 split: nat.splits)
  qed
  ultimately show ?thesis using assms(2) by (cases s) auto
qed

lemma Array_insert_ref_room:
  assumes "arr_rep xs B" and "pos \<le> length xs" and "i < length xs" and "int (length xs) < capacity B" and "capacity B \<le> a_index_max B"
  shows "if i = pos then Array_insert_ref (int pos) i B = Inl BadAccess
    else \<exists>C. Array_insert_ref (int pos) i B = Inr C \<and>
       Array_elems C = Inr (take pos xs @ xs ! (if i < pos then i else i - 1) # drop pos xs)"
proof -
  have len: "a_num_elements B = int (length xs)" using assms(1) by (simp add: arr_rep_def)
  have fits: "int (length xs + 1) \<le> a_index_max B" using assms(4,5) by simp
  have grown: "grown (a_index_max B) (a_grow B) (int (length xs + 1)) (capacity B) = Inr (capacity B)"
    using assms(4) by (simp add: grown_def)
  obtain B' junk rest where r: "reserveForInsert 1 (int pos) B = Inr B'" "length junk = 1" "no_Live junk" "no_Live rest"
    "b_slots (a_block B') = map Live (take pos xs) @ junk @ map Live (drop pos xs) @ rest"
    using reserveForInsert_ok [OF assms(1,2) _ fits] unfolding grown by auto
  then obtain s where s: "junk = [s]" "\<not> is_Live s" by (cases junk) auto
  define x where "x = xs ! (if i < pos then i else i - 1)"
  have eq: "Array_insert_ref (int pos) i B =
      arr_bind (if i = pos then Inl BadAccess else Inr x) (\<lambda>x. arr_bind (reserveForInsert 1 (int pos) B) (on_block (fill_range pos [x])))"
    using read_after_shift [OF r(5) [unfolded s(1)] s(2) assms(2,3)] r(1) len assms(4)
    by (simp add: Array_insert_ref_def construct_fill x_def)
  have "yields B (husks B + (length xs - pos)) (capacity B) (take pos xs @ [x] @ drop pos xs)
      (arr_bind (reserveForInsert 1 (int pos) B) (on_block (fill_range pos [x])))"
    using insert_range_ok [OF assms(1,2), of "[x]"] fits grown by simp
  then show ?thesis using eq Array_elems_eq by (fastforce simp: x_def elim!: yieldsE)
qed

text \<open>
  Inserting an element of the array into the array itself. When the array is full, as one built from a
  list always is, the element is read from the block that was just released. When there is room, the
  elements from the position on are moved up before the reference is read: an element before the position
  is inserted correctly, the one at the position is read after it was moved from, and for an element behind
  the position its predecessor is inserted instead.
\<close>

theorem array_insert_own_element:
  assumes "pos \<le> length xs" and "i < length xs" and "length xs < c" and "int c \<le> M" and "2 * int (length xs) \<le> M"
  shows "\<exists>A B. Array_of_list M xs = Inr A \<and> Array_reserve (int c) A = Inr B \<and>
    Array_insert_ref (int pos) i A = Inl UseAfterFree \<and>
    (if i = pos then Array_insert_ref (int pos) i B = Inl BadAccess
     else \<exists>C. Array_insert_ref (int pos) i B = Inr C \<and>
       Array_elems C = Inr (take pos xs @ xs ! (if i < pos then i else i - 1) # drop pos xs))"
proof -
  obtain A where A: "Array_of_list M xs = Inr A" "arr_rep xs A" "like (Array_empty M) A" "capacity A = int (length xs)"
    using Array_of_list_ok [of xs M] assms(5) by (auto elim: yieldsE)
  have size: "a_num_elements A = int (length xs)" and M: "a_index_max A = M" "a_grow A = (\<lambda>c. 2 * c)"
    using A(2,3) by (simp_all add: arr_rep_def like_def arr_rep_empty)
  have "grown (a_index_max A) (a_grow A) (int (length xs + 1)) (capacity A) = Inr (max (2 * int (length xs)) (int (length xs + 1)))"
    using A(4) M assms(5) by (simp add: grown_def)
  then have full: "Array_insert_ref (int pos) i A = Inl UseAfterFree"
    using reserveForInsert_ok [OF A(2) assms(1), of 1] A(4) size M assms(3,4) by (auto simp: Array_insert_ref_def)
  obtain B where B: "Array_reserve (int c) A = Inr B" "arr_rep xs B" "like A B" "capacity B = int c"
    using setCapacity_ok [OF A(2), of "int c"] assms(3) A(4) by (auto simp: Array_reserve_def elim: yieldsE)
  then have "capacity B \<le> a_index_max B" using M(1) assms(4) by (simp add: like_def)
  then show ?thesis using A(1) full B Array_insert_ref_room [OF B(2) assms(1,2)] assms(3) by auto
qed

theorem array_insert_own_element_witness:
  "\<exists>A B C. Array_of_list 100 [10, 20, 30 :: int] = Inr A \<and> Array_reserve 4 A = Inr B \<and>
     Array_insert_ref 0 2 A = Inl UseAfterFree \<and> Array_insert_ref 0 2 B = Inr C \<and> Array_elems C = Inr [20, 10, 20, 30]"
  using array_insert_own_element [of 0 "[10, 20, 30 :: int]" 2 4 100] by auto

end
