(* ===== verification/ArrayMapping.thy ===== *)
theory ArrayMapping
  imports Prelude "HOL-Library.Multiset" "HOL-Library.Signed_Division"
begin

text \<open>
  The mapping between multidimensional and flat indices of \<^verbatim>\<open>core/MDMapping.hpp\<close>, which arrays and views of several dimensions use: strides, and
  the directions from the slowest to the fastest. Indices are integers without a width: \<^verbatim>\<open>IndexType\<close> has 32 bits by default
  and 64 as an option, so the properties bound the extents by the largest index \<open>M\<close> and show that no product or sum then leaves its range
  (\<open>no_overflow\<close>). The arrays of an object that is not initialised have some contents: the
  initialisers take the object as it was, and \<^verbatim>\<open>toMultiIndex\<close> the contents of its result array before it is filled. A failed
  assertion, the abort of the program and a division by zero are the value \<open>None\<close>.
\<close>

unbundle bit_operations_syntax

section \<open>The code\<close>

datatype ArrayStrideOrder = ARBITRARY | ROW | COLUMN | BOTH

record MDMapping =
  m_strides :: "int list"
  m_slowestDirs :: "nat list"

definition column_strides :: "nat \<Rightarrow> int list \<Rightarrow> int \<Rightarrow> int list \<Rightarrow> int list" where
  "column_strides dim shape fastest s = fold (\<lambda>d s. s[d := s ! (d - 1) * shape ! (d - 1)]) [1..<dim] (s[0 := fastest])"

definition row_strides :: "nat \<Rightarrow> int list \<Rightarrow> int \<Rightarrow> int list \<Rightarrow> int list" where
  "row_strides dim shape fastest s = fold (\<lambda>d s. s[d := s ! (d + 1) * shape ! (d + 1)]) (rev [0..<dim - 1]) (s[dim - 1 := fastest])"

definition initializeShape :: "nat \<Rightarrow> int list \<Rightarrow> ArrayStrideOrder \<Rightarrow> int \<Rightarrow> MDMapping \<Rightarrow> MDMapping option" where
  "initializeShape dim shape order fastest m =
     (if \<not> (order = COLUMN \<or> order = ROW \<or> (dim = 1 \<and> order = BOTH)) \<or> \<not> fastest > 0 then None
      else if order = COLUMN
        then Some \<lparr>m_strides = column_strides dim shape fastest (m_strides m), m_slowestDirs = map (\<lambda>d. dim - 1 - d) [0..<dim]\<rparr>
        else Some \<lparr>m_strides = row_strides dim shape fastest (m_strides m), m_slowestDirs = [0..<dim]\<rparr>)"

fun permutation_loop :: "nat \<Rightarrow> int list \<Rightarrow> bool list \<Rightarrow> bool" where
  "permutation_loop dim [] found = True"
| "permutation_loop dim (v # vs) found =
     (if v < 0 \<or> v \<ge> int dim then False else if found ! nat v then False else permutation_loop dim vs (found[nat v := True]))"

definition isPermutation :: "nat \<Rightarrow> int list \<Rightarrow> bool" where
  "isPermutation dim v = permutation_loop dim v (replicate dim False)"

definition dirs_strides :: "nat \<Rightarrow> int list \<Rightarrow> nat list \<Rightarrow> int \<Rightarrow> int list \<Rightarrow> int list" where
  "dirs_strides dim shape dirs fastest s =
     fold (\<lambda>d s. s[dirs ! d := s ! (dirs ! (d + 1)) * shape ! (dirs ! (d + 1))]) (rev [0..<dim - 1]) (s[dirs ! (dim - 1) := fastest])"

definition initializeShape_dirs :: "nat \<Rightarrow> int list \<Rightarrow> int list \<Rightarrow> int \<Rightarrow> MDMapping \<Rightarrow> MDMapping option" where
  "initializeShape_dirs dim shape slowestDirs fastest m =
     (if \<not> isPermutation dim slowestDirs then None
      else let dirs = map nat slowestDirs
           in Some \<lparr>m_strides = dirs_strides dim shape dirs fastest (m_strides m), m_slowestDirs = dirs\<rparr>)"

definition initializeShape_like :: "nat \<Rightarrow> int list \<Rightarrow> MDMapping \<Rightarrow> MDMapping \<Rightarrow> MDMapping option" where
  "initializeShape_like dim shape orderSource m = initializeShape_dirs dim shape (map int (m_slowestDirs orderSource)) 1 m"

definition MDMapping_empty :: "nat \<Rightarrow> ArrayStrideOrder \<Rightarrow> MDMapping \<Rightarrow> MDMapping option" where
  "MDMapping_empty dim order m = initializeShape dim (replicate dim 0) order 1 m"

definition stridesAreUnique :: "nat \<Rightarrow> int list \<Rightarrow> bool" where
  "stridesAreUnique dim strides = (\<not> fold (\<lambda>d repeats. fold (\<lambda>e repeats. repeats \<or> strides ! d = strides ! e) [0..<d] repeats) [1..<dim] False)"

definition sort_step :: "int list \<Rightarrow> nat \<Rightarrow> nat \<Rightarrow> nat list \<Rightarrow> nat list" where
  "sort_step strides s d dirs =
     (if strides ! (dirs ! s) < strides ! (dirs ! d) then dirs[s := dirs ! d, d := dirs ! s] else dirs)"

definition sort_dirs :: "nat \<Rightarrow> int list \<Rightarrow> nat list \<Rightarrow> nat list" where
  "sort_dirs dim strides dirs = fold (\<lambda>s. fold (sort_step strides s) [s..<dim]) [0..<dim] dirs"

definition initializeStrides_pref :: "nat \<Rightarrow> int list \<Rightarrow> ArrayStrideOrder \<Rightarrow> MDMapping option" where
  "initializeStrides_pref dim strides orderPref =
     (if \<not> (orderPref = COLUMN \<or> orderPref = ROW) then None
      else Some \<lparr>m_strides = strides,
        m_slowestDirs = sort_dirs dim strides (map (\<lambda>d. if orderPref = ROW then d else dim - 1 - d) [0..<dim])\<rparr>)"

definition initializeStrides :: "nat \<Rightarrow> int list \<Rightarrow> MDMapping option" where
  "initializeStrides dim strides = (if \<not> stridesAreUnique dim strides then None else initializeStrides_pref dim strides ROW)"

definition fastestStrideLength :: "nat \<Rightarrow> MDMapping \<Rightarrow> int" where
  "fastestStrideLength dim m = m_strides m ! (m_slowestDirs m ! (dim - 1))"

definition getStrideOrder :: "nat \<Rightarrow> MDMapping \<Rightarrow> ArrayStrideOrder" where
  "getStrideOrder dim m =
     [ARBITRARY, ROW, COLUMN, BOTH] !
       fold (\<lambda>d ord. ord AND (if m_slowestDirs m ! d < m_slowestDirs m ! (d + 1) then 1 else 2)) [0..<dim - 1] (3 :: nat)"

definition dot_product :: "int list \<Rightarrow> int list \<Rightarrow> nat \<Rightarrow> int" where
  "dot_product u v dim = fold (\<lambda>i res. res + u ! i * v ! i) [1..<dim] (u ! 0 * v ! 0)"

definition toFlatIndex :: "nat \<Rightarrow> MDMapping \<Rightarrow> int list \<Rightarrow> int" where
  "toFlatIndex dim m multiIndex = dot_product multiIndex (m_strides m) dim"

fun multi_loop :: "int list \<Rightarrow> nat list \<Rightarrow> int list \<Rightarrow> int \<Rightarrow> int list option" where
  "multi_loop strides [] multiIndex flatIndex = Some multiIndex"
| "multi_loop strides (dir # dirs) multiIndex flatIndex =
     (if strides ! dir = 0 then None
      else let q = flatIndex sdiv (strides ! dir)
           in multi_loop strides dirs (multiIndex[dir := q]) (flatIndex - q * strides ! dir))"

definition toMultiIndex :: "int list \<Rightarrow> MDMapping \<Rightarrow> int \<Rightarrow> int list option" where
  "toMultiIndex multiIndex m flatIndex = multi_loop (m_strides m) (m_slowestDirs m) multiIndex flatIndex"

text \<open>Every product and every partial sum of a dot product is an index.\<close>

definition no_overflow :: "int \<Rightarrow> nat \<Rightarrow> int list \<Rightarrow> int list \<Rightarrow> bool" where
  "no_overflow M dim u v \<longleftrightarrow> (\<forall>d < dim. 0 \<le> u ! d * v ! d \<and> u ! d * v ! d \<le> M) \<and>
     (\<forall>n \<le> dim. 0 < n \<longrightarrow> 0 \<le> dot_product u v n \<and> dot_product u v n \<le> M)"

section \<open>Permutations and unique strides\<close>

lemma permutation_loop_iff:
  "length found = dim \<Longrightarrow> permutation_loop dim vs found \<longleftrightarrow> distinct vs \<and> (\<forall>v \<in> set vs. 0 \<le> v \<and> v < int dim \<and> \<not> found ! nat v)"
proof (induction vs arbitrary: found)
  case (Cons v vs)
  show ?case
  proof (cases "0 \<le> v \<and> v < int dim")
    case True
    then have "found[nat v := True] ! nat u \<longleftrightarrow> u = v \<or> found ! nat u" if "0 \<le> u" for u
      using that Cons.prems by (cases "u = v") auto
    then have "permutation_loop dim vs (found[nat v := True]) \<longleftrightarrow>
        distinct vs \<and> (\<forall>u \<in> set vs. 0 \<le> u \<and> u < int dim \<and> u \<noteq> v \<and> \<not> found ! nat u)"
      using Cons.IH [of "found[nat v := True]"] Cons.prems by auto
    then show ?thesis using True by auto
  qed auto
qed simp

lemma isPermutation_iff: "isPermutation dim v \<longleftrightarrow> distinct v \<and> set v \<subseteq> {0..<int dim}"
proof -
  have "\<not> replicate dim False ! nat u" if "0 \<le> u" "u < int dim" for u using that by simp
  then show ?thesis unfolding isPermutation_def by (subst permutation_loop_iff) (simp, fastforce)
qed

abbreviation dir_list :: "nat \<Rightarrow> nat list \<Rightarrow> bool" where
  "dir_list dim dirs \<equiv> mset dirs = mset [0..<dim]"

lemma dir_listD:
  assumes "dir_list dim dirs"
  shows "distinct dirs" and "set dirs = {..<dim}" and "length dirs = dim"
proof -
  show "distinct dirs" using mset_eq_imp_distinct_iff [OF assms] by simp
  show "set dirs = {..<dim}" using mset_eq_setD [OF assms] by (simp add: atLeast0LessThan)
  show "length dirs = dim" using mset_eq_length [OF assms] by simp
qed

lemma isPermutation_dirs:
  assumes "isPermutation dim v" and "length v = dim"
  shows "dir_list dim (map nat v)"
proof -
  have v: "distinct v" "set v \<subseteq> {0..<int dim}" using assms(1) by (auto simp: isPermutation_iff)
  have d: "distinct (map nat v)" unfolding distinct_map
  proof (intro conjI v(1) inj_onI)
    fix x y
    assume "x \<in> set v" "y \<in> set v" "nat x = nat y"
    moreover from this have "0 \<le> x" "0 \<le> y" using v(2) by auto
    ultimately show "x = y" by simp
  qed
  have "set (map nat v) \<subseteq> {..<dim}" using v(2) by (auto simp: nat_less_iff)
  moreover have "card (set (map nat v)) = dim" using distinct_card [OF d] assms(2) by simp
  ultimately have "set (map nat v) = {..<dim}" by (simp add: card_subset_eq)
  then show ?thesis using set_eq_iff_mset_eq_distinct [OF d distinct_upt [of 0 dim]] by (simp add: atLeast0LessThan)
qed

lemma isPermutation_int:
  assumes "dir_list dim dirs"
  shows "isPermutation dim (map int dirs)"
proof -
  have "set (map int dirs) \<subseteq> {0..<int dim}" unfolding set_map dir_listD(2) [OF assms] by auto
  then show ?thesis using dir_listD(1) [OF assms] by (simp add: isPermutation_iff distinct_map)
qed

lemma fold_or: "fold (\<lambda>e r. r \<or> P e) xs r \<longleftrightarrow> r \<or> (\<exists>e \<in> set xs. P e)"
  by (induction xs arbitrary: r) auto

lemma stridesAreUnique_iff: "length strides = dim \<Longrightarrow> stridesAreUnique dim strides \<longleftrightarrow> distinct strides"
proof -
  assume len: "length strides = dim"
  have "stridesAreUnique dim strides \<longleftrightarrow> (\<forall>d \<in> {1..<dim}. \<forall>e \<in> {0..<d}. strides ! d \<noteq> strides ! e)"
    unfolding stridesAreUnique_def fold_or by simp
  also have "\<dots> \<longleftrightarrow> (\<forall>d < dim. \<forall>e < d. strides ! d \<noteq> strides ! e)"
  proof (intro iffI allI impI)
    fix d e
    assume "\<forall>d \<in> {1..<dim}. \<forall>e \<in> {0..<d}. strides ! d \<noteq> strides ! e" and "d < dim" "e < d"
    moreover from this have "d \<in> {1..<dim}" "e \<in> {0..<d}" by auto
    ultimately show "strides ! d \<noteq> strides ! e" by blast
  qed auto
  also have "\<dots> \<longleftrightarrow> distinct strides" 
  proof
    assume d: "\<forall>d < dim. \<forall>e < d. strides ! d \<noteq> strides ! e"
    have "strides ! i \<noteq> strides ! j" if "i < dim" "j < dim" "i \<noteq> j" for i j
      using d [rule_format, of i j] d [rule_format, of j i] that by (cases i j rule: linorder_cases) auto
    then show "distinct strides" unfolding distinct_conv_nth len by blast
  next
    assume "distinct strides"
    then show "\<forall>d < dim. \<forall>e < d. strides ! d \<noteq> strides ! e" using len by (auto simp: nth_eq_iff_index_eq)
  qed
  finally show ?thesis .
qed

section \<open>The strides of a shape\<close>

fun strides_for :: "int \<Rightarrow> int list \<Rightarrow> int list \<Rightarrow> nat list \<Rightarrow> bool" where
  "strides_for f shape strides [] \<longleftrightarrow> True"
| "strides_for f shape strides (d # ds) \<longleftrightarrow> strides ! d = f * prod_list (map ((!) shape) ds) \<and> strides_for f shape strides ds"

lemma strides_for_update: "d \<notin> set ds \<Longrightarrow> strides_for f shape (s[d := v]) ds \<longleftrightarrow> strides_for f shape s ds"
  by (induction ds) (auto simp: nth_list_update)

lemma dirs_strides_length: "length (dirs_strides dim shape dirs f s) = length s"
proof -
  have "length (fold (\<lambda>d s. s[dirs ! d := s ! (dirs ! (d + 1)) * shape ! (dirs ! (d + 1))]) ds s) = length s" for ds s
    by (induction ds arbitrary: s) auto
  then show ?thesis by (simp add: dirs_strides_def)
qed

lemma dirs_strides_for:
  assumes "dir_list dim dirs" and "length s = dim" and "0 < dim"
  shows "strides_for f shape (dirs_strides dim shape dirs f s) dirs"
proof -
  note D = dir_listD [OF assms(1)]
  let ?step = "\<lambda>d s. s[dirs ! d := s ! (dirs ! (d + 1)) * shape ! (dirs ! (d + 1))]"
  let ?s = "\<lambda>k. fold ?step (rev [dim - 1 - k..<dim - 1]) (s[dirs ! (dim - 1) := f])"
  have bound: "dirs ! i < dim" if "i < dim" for i using that D nth_mem [of i dirs] by auto
  have len: "length (fold ?step ds s) = length s" for ds s by (induction ds arbitrary: s) auto
  have "strides_for f shape (?s k) (drop (dim - 1 - k) dirs)" if "k < dim" for k
    using that
  proof (induction k)
    case 0
    have "drop (dim - 1) dirs = [dirs ! (dim - 1)]" using D(3) assms(3) Cons_nth_drop_Suc [of "dim - 1" dirs] by simp
    then show ?case using bound [of "dim - 1"] assms(2,3) by simp
  next
    case (Suc k)
    let ?i = "dim - 1 - Suc k"
    have i: "Suc ?i = dim - 1 - k" "Suc ?i < dim" using Suc.prems by auto
    have c: "drop ?i dirs = dirs ! ?i # drop (Suc ?i) dirs" "drop (Suc ?i) dirs = dirs ! Suc ?i # drop (Suc (Suc ?i)) dirs"
      using i(2) D(3) by (auto simp: Cons_nth_drop_Suc)
    have "[?i..<dim - 1] = ?i # [Suc ?i..<dim - 1]" using i(2) by (intro upt_conv_Cons) simp
    then have e: "?s (Suc k) = ?step ?i (?s k)" using i(1) by simp
    define t where "t = ?s k"
    have IH: "strides_for f shape t (drop (Suc ?i) dirs)" "length t = dim"
      using Suc i(1) assms(2) len [of "rev [dim - 1 - k..<dim - 1]" "s[dirs ! (dim - 1) := f]"] by (simp_all add: t_def)
    have "distinct (drop ?i dirs)" using D(1) by simp
    then have "dirs ! ?i \<notin> set (drop (Suc ?i) dirs)" unfolding c(1) by simp
    moreover have "t ! (dirs ! Suc ?i) * shape ! (dirs ! Suc ?i) = f * prod_list (map ((!) shape) (drop (Suc ?i) dirs))"
      using IH(1) unfolding c(2) by simp
    moreover have "dirs ! ?i < length t" using bound [of ?i] i(2) IH(2) by simp
    ultimately show ?case
      using IH(1) unfolding e c(1) t_def [symmetric] by (simp add: strides_for_update)
  qed
  from this [of "dim - 1"] show ?thesis using assms(3) by (simp add: dirs_strides_def)
qed

text \<open>Row- and column-major order are permutations.\<close>

lemma row_strides_dirs: "row_strides dim shape f s = dirs_strides dim shape [0..<dim] f s" if "0 < dim"
  unfolding row_strides_def dirs_strides_def using that by (intro fold_cong) auto

lemma column_strides_dirs: "column_strides dim shape f s = dirs_strides dim shape (map (\<lambda>d. dim - 1 - d) [0..<dim]) f s" if "0 < dim"
proof -
  have "[1..<dim] = map (\<lambda>d. dim - 1 - d) (rev [0..<dim - 1])"
    by (rule nth_equalityI) (auto simp: rev_nth)
  then have "column_strides dim shape f s =
      fold (\<lambda>d s. s[dim - 1 - d := s ! (dim - 1 - d - 1) * shape ! (dim - 1 - d - 1)]) (rev [0..<dim - 1]) (s[0 := f])"
    by (simp add: column_strides_def fold_map comp_def)
  also have "\<dots> = dirs_strides dim shape (map (\<lambda>d. dim - 1 - d) [0..<dim]) f s"
    unfolding dirs_strides_def using that by (intro fold_cong) auto
  finally show ?thesis .
qed

section \<open>Flat and multidimensional indices\<close>

definition in_shape :: "int list \<Rightarrow> int list \<Rightarrow> bool" where
  "in_shape shape mi \<longleftrightarrow> length mi = length shape \<and> (\<forall>i < length shape. 0 \<le> mi ! i \<and> mi ! i < shape ! i)"

abbreviation flat :: "int list \<Rightarrow> (nat \<Rightarrow> int) \<Rightarrow> nat list \<Rightarrow> int" where
  "flat strides x ds \<equiv> (\<Sum>d\<leftarrow>ds. x d * strides ! d)"

abbreviation digits_ok :: "int list \<Rightarrow> (nat \<Rightarrow> int) \<Rightarrow> nat list \<Rightarrow> bool" where
  "digits_ok shape x ds \<equiv> (\<forall>d \<in> set ds. 0 \<le> x d \<and> x d < shape ! d)"

abbreviation volume :: "int list \<Rightarrow> nat list \<Rightarrow> int" where
  "volume shape ds \<equiv> prod_list (map ((!) shape) ds)"

lemma volume_pos: "\<forall>d \<in> set ds. 0 < shape ! d \<Longrightarrow> 0 < volume shape ds"
  by (induction ds) auto

lemma flat_bounds:
  assumes "strides_for f shape strides ds" and "digits_ok shape x ds" and "0 < f"
  shows "0 \<le> flat strides x ds" and "flat strides x ds < f * volume shape ds"
  using assms
proof (induction ds)
  case (Cons d ds)
  {
    case 1
    then have "0 \<le> flat strides x ds" "flat strides x ds < f * volume shape ds" using Cons.IH by auto
    then show ?case using 1 by simp
  next
    case 2
    let ?S = "f * volume shape ds"
    have R: "0 \<le> flat strides x ds" "flat strides x ds < ?S" using 2 Cons.IH by auto
    have "x d * ?S \<le> (shape ! d - 1) * ?S" using 2 R by (intro mult_right_mono) auto
    then have "x d * ?S + flat strides x ds < shape ! d * ?S" using R by (simp add: left_diff_distrib)
    then show ?case using 2 by (simp add: ac_simps)
  }
qed auto

lemma sdiv_nonneg: "0 \<le> a \<Longrightarrow> 0 < b \<Longrightarrow> a sdiv b = a div (b :: int)"
  by (cases "a = 0") (simp_all add: signed_divide_int_def)

lemma multi_loop_digits:
  assumes "strides_for f shape strides ds" and "digits_ok shape x ds" and "0 < f" and "distinct ds" and "\<forall>d \<in> set ds. d < length mi"
  shows "\<exists>mi'. multi_loop strides ds mi (flat strides x ds) = Some mi' \<and> length mi' = length mi \<and>
    (\<forall>e < length mi. mi' ! e = (if e \<in> set ds then x e else mi ! e))"
  using assms
proof (induction ds arbitrary: mi)
  case (Cons d ds)
  let ?R = "flat strides x ds"
  have R: "0 \<le> ?R" "?R < strides ! d" using flat_bounds [of f shape strides ds x] Cons.prems by auto
  have x: "0 \<le> x d" using Cons.prems by auto
  have "(x d * strides ! d + ?R) sdiv (strides ! d) = (x d * strides ! d + ?R) div (strides ! d)"
    using R x by (intro sdiv_nonneg) auto
  also have "\<dots> = x d" using R by simp
  finally have "multi_loop strides (d # ds) mi (flat strides x (d # ds)) = multi_loop strides ds (mi[d := x d]) ?R" using R by simp
  moreover obtain mi' where "multi_loop strides ds (mi[d := x d]) ?R = Some mi'" "length mi' = length mi"
      "\<forall>e < length mi. mi' ! e = (if e \<in> set ds then x e else mi[d := x d] ! e)"
    using Cons.IH [of "mi[d := x d]"] Cons.prems by auto
  ultimately show ?case using Cons.prems by (intro exI [of _ mi']) (auto simp: nth_list_update)
qed simp

lemma digits_exist:
  assumes "strides_for f shape strides ds" and "distinct ds" and "0 \<le> k" and "k < volume shape ds" and "\<forall>d \<in> set ds. 0 < shape ! d"
  shows "\<exists>x. digits_ok shape x ds \<and> flat strides x ds = f * k"
  using assms
proof (induction ds arbitrary: k)
  case (Cons d ds)
  let ?V = "volume shape ds"
  have V: "0 < ?V" using Cons.prems(5) volume_pos [of ds shape] by simp
  obtain x where x: "digits_ok shape x ds" "flat strides x ds = f * (k mod ?V)"
    using Cons.IH [of "k mod ?V"] Cons.prems V by auto
  let ?x = "x(d := k div ?V)"
  have "flat strides ?x ds = flat strides x ds" using Cons.prems(2) by (intro arg_cong [of _ _ sum_list] map_cong) auto
  then have "flat strides ?x (d # ds) = f * k"
    using x(2) Cons.prems(1) by (simp add: algebra_simps flip: distrib_left)
  moreover have "0 \<le> k div ?V" using Cons.prems(3) V by (simp add: pos_imp_zdiv_nonneg_iff)
  moreover have "k div ?V < shape ! d"
  proof (rule ccontr)
    assume "\<not> k div ?V < shape ! d"
    then have "shape ! d * ?V \<le> k div ?V * ?V" using V by (intro mult_right_mono) auto
    also have "\<dots> \<le> k" using V div_mult_mod_eq [of k ?V] pos_mod_sign [OF V, of k] by linarith
    finally show False using Cons.prems(4) by simp
  qed
  ultimately have "flat strides ?x (d # ds) = f * k \<and> digits_ok shape ?x (d # ds)" using x(1) by auto
  then show ?case by blast
qed simp

lemma dot_product_flat: "0 < dim \<Longrightarrow> dot_product u v dim = flat v ((!) u) [0..<dim]"
proof -
  assume "0 < dim"
  have "fold (\<lambda>i res. res + u ! i * v ! i) ds r = r + flat v ((!) u) ds" for ds r by (induction ds arbitrary: r) auto
  moreover have "[0..<dim] = 0 # [1..<dim]" using \<open>0 < dim\<close> by (simp add: upt_conv_Cons)
  ultimately show ?thesis by (simp add: dot_product_def)
qed

lemma flat_dirs:
  assumes "dir_list dim dirs"
  shows "flat strides x [0..<dim] = flat strides x dirs" and "volume shape [0..<dim] = volume shape dirs"
proof -
  have "mset (map g [0..<dim]) = mset (map g dirs)" for g :: "nat \<Rightarrow> int" unfolding mset_map assms ..
  then show "flat strides x [0..<dim] = flat strides x dirs" "volume shape [0..<dim] = volume shape dirs"
    unfolding sum_mset_sum_list [symmetric] prod_mset_prod_list [symmetric] by (simp_all only:)
qed

lemma shape_mapping:
  assumes dirs: "dir_list dim dirs" and shape: "length shape = dim" "\<forall>n \<in> set shape. 0 < n" and f: "0 < f" and u: "length u = dim" and dim: "0 < dim"
    and m: "strides_for f shape (m_strides m) dirs" "m_slowestDirs m = dirs"
  shows "in_shape shape mi \<Longrightarrow> 0 \<le> toFlatIndex dim m mi \<and> toFlatIndex dim m mi < f * prod_list shape \<and>
      toMultiIndex u m (toFlatIndex dim m mi) = Some mi"
    and "0 \<le> k \<Longrightarrow> k < prod_list shape \<Longrightarrow> \<exists>mi. in_shape shape mi \<and> toFlatIndex dim m mi = f * k"
proof -
  note D = dir_listD [OF dirs]
  have vol: "volume shape dirs = prod_list shape" using flat_dirs(2) [OF dirs, of shape] map_nth [of shape] shape(1) by simp
  have flat: "toFlatIndex dim m mi = flat (m_strides m) ((!) mi) dirs" if "0 < dim" for mi
    using dot_product_flat [OF that] flat_dirs(1) [OF dirs] by (simp add: toFlatIndex_def)
  show "0 \<le> toFlatIndex dim m mi \<and> toFlatIndex dim m mi < f * prod_list shape \<and> toMultiIndex u m (toFlatIndex dim m mi) = Some mi"
    if mi: "in_shape shape mi"
  proof -
    have ok: "digits_ok shape ((!) mi) dirs" using mi shape(1) D(2) by (auto simp: in_shape_def)
    obtain mi' where "multi_loop (m_strides m) dirs u (flat (m_strides m) ((!) mi) dirs) = Some mi'" "length mi' = dim"
        "\<forall>e < dim. mi' ! e = (if e \<in> set dirs then mi ! e else u ! e)"
      using multi_loop_digits [OF m(1) ok f D(1), of u] u D(2) by auto
    moreover from this have "mi' = mi" using D(2) mi shape(1) by (intro nth_equalityI) (auto simp: in_shape_def)
    ultimately show ?thesis using flat_bounds [OF m(1) ok f] by (simp add: flat [OF dim] toMultiIndex_def m(2) vol)
  qed
  show "\<exists>mi. in_shape shape mi \<and> toFlatIndex dim m mi = f * k" if k: "0 \<le> k" "k < prod_list shape"
  proof -
    have "\<forall>d \<in> set dirs. 0 < shape ! d" using D(2) shape by auto
    then obtain x where x: "digits_ok shape x dirs" "flat (m_strides m) x dirs = f * k"
      using digits_exist [OF m(1) D(1) k(1)] k(2) vol by auto
    let ?mi = "map x [0..<dim]"
    have "in_shape shape ?mi" using x(1) D(2) shape(1) by (auto simp: in_shape_def)
    moreover have "flat (m_strides m) ((!) ?mi) dirs = flat (m_strides m) x dirs" using D(2) by (intro arg_cong [of _ _ sum_list] map_cong) auto
    ultimately show ?thesis using flat [OF dim] x(2) by (intro exI [of _ ?mi]) simp
  qed
qed

text \<open>Within the range of the indices.\<close>

lemma strides_for_le:
  assumes "strides_for f shape s ds" and "\<forall>d \<in> set ds. 0 < shape ! d" and "0 < f" and "d \<in> set ds"
  shows "0 < s ! d \<and> s ! d * shape ! d \<le> f * volume shape ds"
  using assms
proof (induction ds)
  case (Cons e es)
  have V: "0 < volume shape es" using Cons.prems(2) volume_pos [of es shape] by simp
  show ?case
  proof (cases "d \<in> set es")
    case True
    then have IH: "0 < s ! d" "s ! d * shape ! d \<le> f * volume shape es" using Cons by auto
    have "1 * (f * volume shape es) \<le> shape ! e * (f * volume shape es)" using V Cons.prems(2,3) by (intro mult_right_mono) auto
    then show ?thesis using IH by (simp add: ac_simps)
  next
    case False
    then show ?thesis using Cons.prems V by (auto simp: ac_simps)
  qed
qed simp

lemma flat_prefix:
  assumes "\<And>d. d < dim \<Longrightarrow> 0 \<le> x d * s ! d" and "n \<le> dim"
  shows "0 \<le> flat s x [0..<n] \<and> flat s x [0..<n] \<le> flat s x [0..<dim]"
proof -
  have part: "0 \<le> flat s x ds" if "set ds \<subseteq> {..<dim}" for ds using that assms(1) by (induction ds) auto
  have "[0..<dim] = [0..<n] @ [n..<dim]" using upt_add_eq_append [of 0 n "dim - n"] assms(2) by simp
  moreover have "0 \<le> flat s x [0..<n]" "0 \<le> flat s x [n..<dim]" using assms(2) by (intro part; auto)+
  ultimately show ?thesis by simp
qed

lemma shape_in_range:
  assumes dirs: "dir_list dim dirs" and shape: "length shape = dim" "\<forall>n \<in> set shape. 0 < n" and f: "0 < f" "f * prod_list shape \<le> M" and dim: "0 < dim"
    and s: "strides_for f shape s dirs"
  shows "d < dim \<Longrightarrow> 0 < s ! d \<and> s ! d * shape ! d \<le> M" and "in_shape shape mi \<Longrightarrow> no_overflow M dim mi s"
proof -
  note D = dir_listD [OF dirs]
  have vol: "volume shape dirs = prod_list shape" using flat_dirs(2) [OF dirs, of shape] map_nth [of shape] shape(1) by simp
  have pos: "\<forall>d \<in> set dirs. 0 < shape ! d" using D(2) shape by auto
  show st: "0 < s ! d \<and> s ! d * shape ! d \<le> M" if "d < dim" for d
    using strides_for_le [OF s pos f(1), of d] that D(2) f(2) vol by auto
  show "no_overflow M dim mi s" if mi: "in_shape shape mi"
  proof -
    have ok: "digits_ok shape ((!) mi) dirs" using mi shape(1) D(2) by (auto simp: in_shape_def)
    have p: "0 \<le> mi ! d * s ! d \<and> mi ! d * s ! d \<le> M" if "d < dim" for d
    proof -
      have "0 \<le> mi ! d" "mi ! d \<le> shape ! d" using mi shape(1) that by (auto simp: in_shape_def less_imp_le)
      moreover from this have "s ! d * mi ! d \<le> s ! d * shape ! d" using st [OF that] by (intro mult_left_mono) auto
      ultimately show ?thesis using st [OF that] order_trans [of "s ! d * mi ! d" "s ! d * shape ! d" M] by (simp add: mult.commute [of "mi ! d"])
    qed
    have "flat s ((!) mi) [0..<dim] \<le> M" using flat_bounds(2) [OF s ok f(1)] f(2) vol flat_dirs(1) [OF dirs] by auto
    then have "0 \<le> dot_product mi s n \<and> dot_product mi s n \<le> M" if "n \<le> dim" "0 < n" for n
      using flat_prefix [of dim "(!) mi" s n] p that by (auto simp: dot_product_flat)
    then show ?thesis using p by (simp add: no_overflow_def)
  qed
qed

section \<open>The order of the directions\<close>

lemma sort_inner:
  fixes strides :: "int list"
  assumes "s \<le> n" and "n \<le> length dirs"
  shows "mset (fold (sort_step strides s) [s..<n] dirs) = mset dirs \<and> take s (fold (sort_step strides s) [s..<n] dirs) = take s dirs \<and>
    (\<forall>j. s \<le> j \<and> j < n \<longrightarrow> strides ! (fold (sort_step strides s) [s..<n] dirs ! j) \<le> strides ! (fold (sort_step strides s) [s..<n] dirs ! s))"
  using assms
proof (induction n rule: dec_induct)
  case (step n)
  let ?r = "fold (sort_step strides s) [s..<n] dirs"
  have IH: "mset ?r = mset dirs" "take s ?r = take s dirs" "\<And>j. s \<le> j \<Longrightarrow> j < n \<Longrightarrow> strides ! (?r ! j) \<le> strides ! (?r ! s)"
    using step by auto
  have len: "length ?r = length dirs" using mset_eq_length [OF IH(1)] .
  have e: "fold (sort_step strides s) [s..<Suc n] dirs = sort_step strides s n ?r" using step.hyps(1) by simp
  show ?case
  proof (cases "strides ! (?r ! s) < strides ! (?r ! n)")
    case True
    then have sw: "sort_step strides s n ?r = ?r[s := ?r ! n, n := ?r ! s]" "s \<noteq> n" by (auto simp: sort_step_def)
    have "mset (?r[s := ?r ! n, n := ?r ! s]) = mset ?r" using step len by (intro mset_swap) auto
    moreover have "take s (?r[s := ?r ! n, n := ?r ! s]) = take s ?r" using step.hyps(1) by simp
    moreover have "strides ! (?r[s := ?r ! n, n := ?r ! s] ! j) \<le> strides ! (?r[s := ?r ! n, n := ?r ! s] ! s)" if "s \<le> j" "j < Suc n" for j
      using that IH(3) [of j] True sw(2) step len by (auto simp: nth_list_update less_Suc_eq)
    ultimately show ?thesis unfolding e sw(1) using IH by simp
  next
    case False
    then show ?thesis unfolding e using IH by (auto simp: sort_step_def less_Suc_eq)
  qed
qed simp

lemma sort_outer:
  fixes strides :: "int list"
  assumes "length dirs = dim" and "s \<le> dim"
  shows "mset (fold (\<lambda>s. fold (sort_step strides s) [s..<dim]) [0..<s] dirs) = mset dirs \<and>
    (\<forall>i j. i < s \<and> i < j \<and> j < dim \<longrightarrow>
      strides ! (fold (\<lambda>s. fold (sort_step strides s) [s..<dim]) [0..<s] dirs ! j) \<le>
      strides ! (fold (\<lambda>s. fold (sort_step strides s) [s..<dim]) [0..<s] dirs ! i))"
  using assms(2)
proof (induction s)
  case (Suc s)
  let ?r = "fold (\<lambda>s. fold (sort_step strides s) [s..<dim]) [0..<s] dirs" and ?q = "\<lambda>r. fold (sort_step strides s) [s..<dim] r"
  have IH: "mset ?r = mset dirs" "\<And>i j. i < s \<Longrightarrow> i < j \<Longrightarrow> j < dim \<Longrightarrow> strides ! (?r ! j) \<le> strides ! (?r ! i)" using Suc by auto
  have len: "length ?r = dim" using mset_eq_length [OF IH(1)] assms(1) by simp
  have I: "mset (?q ?r) = mset ?r" "take s (?q ?r) = take s ?r" "\<And>j. s \<le> j \<Longrightarrow> j < dim \<Longrightarrow> strides ! (?q ?r ! j) \<le> strides ! (?q ?r ! s)"
    using sort_inner [of s dim ?r strides] Suc.prems len by auto
  have lq: "length (?q ?r) = dim" using mset_eq_length [OF I(1)] len by simp
  have "mset (drop s (?q ?r)) = mset (drop s ?r)"
  proof -
    have "mset (take s (?q ?r)) + mset (drop s (?q ?r)) = mset (take s ?r) + mset (drop s ?r)"
      unfolding mset_append [symmetric] append_take_drop_id by (rule I(1))
    then show ?thesis unfolding I(2) by simp
  qed
  then have tail: "set (drop s (?q ?r)) = set (drop s ?r)" by (rule mset_eq_setD)
  have front: "?q ?r ! i = ?r ! i" if "i < s" for i using that arg_cong [OF I(2), of "\<lambda>xs. xs ! i"] by simp
  have "strides ! (?q ?r ! j) \<le> strides ! (?q ?r ! i)" if "i < Suc s" "i < j" "j < dim" for i j
  proof (cases "i = s")
    case True
    then show ?thesis using I(3) [of j] that by simp
  next
    case False
    then have i: "i < s" using that by simp
    show ?thesis
    proof (cases "j < s")
      case True
      then show ?thesis using IH(2) [of i j] front i that by simp
    next
      case False
      then have "?q ?r ! j \<in> set (drop s ?r)" unfolding tail [symmetric] using that lq by (auto simp: in_set_conv_nth intro!: exI [of _ "j - s"])
      then obtain l where "l < dim - s" "?q ?r ! j = ?r ! (s + l)" using len by (auto simp: in_set_conv_nth)
      then show ?thesis using IH(2) [of i "s + l"] front [OF i] i by simp
    qed
  qed
  then show ?case using I(1) IH(1) Suc.prems by simp
qed simp

abbreviation slow_first :: "int list \<Rightarrow> nat list \<Rightarrow> bool" where
  "slow_first strides dirs \<equiv> sorted_wrt (\<lambda>a b. strides ! b \<le> strides ! a) dirs"

lemma sort_dirs_correct:
  assumes "length dirs = dim"
  shows "mset (sort_dirs dim strides dirs) = mset dirs" and "slow_first strides (sort_dirs dim strides dirs)"
proof -
  show m: "mset (sort_dirs dim strides dirs) = mset dirs" using sort_outer [OF assms order_refl] by (simp add: sort_dirs_def)
  then have "length (sort_dirs dim strides dirs) = dim" using mset_eq_length assms by metis
  then show "slow_first strides (sort_dirs dim strides dirs)"
    using sort_outer [OF assms order_refl, of strides] by (auto simp: sort_dirs_def sorted_wrt_iff_nth_less)
qed

lemma slow_first_unique:
  assumes "dir_list dim ds" and "dir_list dim es" and "slow_first strides ds" and "slow_first strides es"
    and "distinct strides" and "length strides = dim"
  shows "ds = es"
proof -
  let ?k = "\<lambda>d. - (strides ! d)"
  note D = dir_listD [OF assms(1)] and E = dir_listD [OF assms(2)]
  have inj: "inj_on ?k {..<dim}" using assms(5,6) by (auto simp: inj_on_def nth_eq_iff_index_eq)
  have "sorted (map ?k ds)" "sorted (map ?k es)" using assms(3,4) by (simp_all add: sorted_wrt_map)
  moreover have "distinct (map ?k ds)" "distinct (map ?k es)" using inj D E by (simp_all add: distinct_map)
  moreover have "set (map ?k ds) = set (map ?k es)" using D(2) E(2) by simp
  ultimately have "map ?k ds = map ?k es" by (intro sorted_distinct_set_unique)
  moreover have "inj_on ?k (set ds \<union> set es)" using inj D(2) E(2) by simp
  ultimately show ?thesis by (rule map_inj_on)
qed

lemma strides_slow_first:
  assumes "strides_for f shape strides ds" and "\<forall>d \<in> set ds. 0 < shape ! d" and "0 < f"
  shows "slow_first strides ds"
  using assms
proof (induction ds)
  case (Cons d ds)
  then have IH: "slow_first strides ds" by simp
  show ?case
  proof (cases ds)
    case (Cons e es)
    have "0 < f * volume shape es" "1 \<le> shape ! e" using Cons.prems(2,3) volume_pos [of es shape] unfolding Cons by auto
    then have "1 * (f * volume shape es) \<le> shape ! e * (f * volume shape es)" by (intro mult_right_mono) auto
    then have "strides ! e \<le> strides ! d" using Cons.prems(1) unfolding Cons by (simp add: ac_simps)
    then show ?thesis using IH unfolding Cons by fastforce
  qed simp
qed simp

lemma mset_reversed: "dir_list dim (map (\<lambda>d. dim - 1 - d) [0..<dim])" and reversed_dirs: "map (\<lambda>d. dim - 1 - d) [0..<dim] = rev [0..<dim]"
proof -
  show e: "map (\<lambda>d. dim - 1 - d) [0..<dim] = rev [0..<dim]" by (rule nth_equalityI) (auto simp: rev_nth)
  show "dir_list dim (map (\<lambda>d. dim - 1 - d) [0..<dim])" unfolding e by simp
qed

text \<open>\<^verbatim>\<open>getStrideOrder\<close> compares neighbors.\<close>

lemma order_bits:
  "fold (\<lambda>d ord. ord AND (if P d then 1 else 2)) xs (3 :: nat) = of_bool (\<forall>d \<in> set xs. P d) + 2 * of_bool (\<forall>d \<in> set xs. \<not> P d)" for xs :: "nat list"
proof (induction xs rule: rev_induct)
  case (snoc x xs)
  then show ?case by (cases "P x"; cases "\<forall>d \<in> set xs. P d"; cases "\<forall>d \<in> set xs. \<not> P d") (auto simp: numeral_2_eq_2 [symmetric])
qed simp

lemma neighbors_sorted:
  assumes "dir_list dim dirs"
  shows "(\<forall>d < dim - 1. dirs ! d < dirs ! (d + 1)) \<longleftrightarrow> dirs = [0..<dim]" and "(\<forall>d < dim - 1. \<not> dirs ! d < dirs ! (d + 1)) \<longleftrightarrow> dirs = rev [0..<dim]"
proof -
  note D = dir_listD [OF assms]
  have up: "dirs = [0..<dim]" if "sorted dirs" using that D by (intro sorted_distinct_set_unique) (auto simp: atLeast0LessThan)
  have down: "dirs = rev [0..<dim]" if "sorted (rev dirs)"
    using that D sorted_distinct_set_unique [of "rev dirs" "[0..<dim]"] by (auto simp: atLeast0LessThan rev_swap)
  show "(\<forall>d < dim - 1. dirs ! d < dirs ! (d + 1)) \<longleftrightarrow> dirs = [0..<dim]"
  proof
    assume "\<forall>d < dim - 1. dirs ! d < dirs ! (d + 1)"
    then have "dirs ! i \<le> dirs ! Suc i" if "Suc i < dim" for i using that by (simp add: less_imp_le less_diff_conv)
    then show "dirs = [0..<dim]" using up D(3) by (simp add: sorted_iff_nth_Suc)
  next
    assume e: "dirs = [0..<dim]"
    show "\<forall>d < dim - 1. dirs ! d < dirs ! (d + 1)" unfolding e by auto
  qed
  have "sorted (rev dirs) \<longleftrightarrow> sorted_wrt (\<lambda>a b. b \<le> a) dirs" by (simp add: sorted_wrt_rev)
  also have "\<dots> \<longleftrightarrow> (\<forall>d. Suc d < dim \<longrightarrow> dirs ! Suc d \<le> dirs ! d)" using D(3) by (simp add: sorted_wrt_iff_nth_Suc_transp transp_def)
  finally show "(\<forall>d < dim - 1. \<not> dirs ! d < dirs ! (d + 1)) \<longleftrightarrow> dirs = rev [0..<dim]"
    using down by (auto simp: not_less rev_nth)
qed

lemma getStrideOrder_dirs:
  assumes "dir_list dim (m_slowestDirs m)" and "1 < dim"
  shows "getStrideOrder dim m = (if m_slowestDirs m = [0..<dim] then ROW else if m_slowestDirs m = rev [0..<dim] then COLUMN else ARBITRARY)"
proof -
  have "[0..<dim] ! 0 \<noteq> rev [0..<dim] ! 0" using assms(2) by (simp add: rev_nth)
  then have ne: "[0..<dim] \<noteq> rev [0..<dim]" by metis
  have a: "(\<forall>d \<in> set [0..<dim - 1]. m_slowestDirs m ! d < m_slowestDirs m ! (d + 1)) \<longleftrightarrow> m_slowestDirs m = [0..<dim]"
    "(\<forall>d \<in> set [0..<dim - 1]. \<not> m_slowestDirs m ! d < m_slowestDirs m ! (d + 1)) \<longleftrightarrow> m_slowestDirs m = rev [0..<dim]"
    using neighbors_sorted [OF assms(1)] by (auto simp: atLeast0LessThan)
  show ?thesis unfolding getStrideOrder_def order_bits a using ne by (auto simp: numeral_2_eq_2)
qed

section \<open>Properties\<close>

text \<open>What every initialisation with a shape gives.\<close>

lemma initializeShape_dirs_ok:
  assumes "isPermutation dim ds" and "length ds = dim" and "0 < dim" and "length (m_strides m0) = dim"
  obtains m where "initializeShape_dirs dim shape ds f m0 = Some m" and "dir_list dim (map nat ds)" and "m_slowestDirs m = map nat ds"
    and "strides_for f shape (m_strides m) (map nat ds)" and "length (m_strides m) = dim"
proof
  have d: "dir_list dim (map nat ds)" using isPermutation_dirs [OF assms(1,2)] .
  let ?m = "\<lparr>m_strides = dirs_strides dim shape (map nat ds) f (m_strides m0), m_slowestDirs = map nat ds\<rparr>"
  show "initializeShape_dirs dim shape ds f m0 = Some ?m" using assms(1) by (simp add: initializeShape_dirs_def Let_def)
  show "dir_list dim (map nat ds)" "m_slowestDirs ?m = map nat ds" using d by simp_all
  show "strides_for f shape (m_strides ?m) (map nat ds)" "length (m_strides ?m) = dim"
    using dirs_strides_for [OF d assms(4,3)] assms(4) by (simp_all add: dirs_strides_length)
qed

lemma fastest_of:
  assumes "dir_list dim dirs" and "0 < dim" and "strides_for f shape (m_strides m) dirs" and "m_slowestDirs m = dirs"
  shows "fastestStrideLength dim m = f"
proof -
  have "dirs \<noteq> []" using dir_listD(3) [OF assms(1)] assms(2) by auto
  then obtain es e where e: "dirs = es @ [e]" by (metis rev_exhaust)
  have "strides_for f shape (m_strides m) (es @ [e]) \<Longrightarrow> m_strides m ! e = f" by (induction es) auto
  moreover have "dim - 1 = length es" using e dir_listD(3) [OF assms(1)] by simp
  ultimately show ?thesis using assms(3,4) e by (simp add: fastestStrideLength_def nth_append)
qed

lemma initializeShape_orders:
  assumes "0 < dim" and "0 < f"
  shows "initializeShape dim shape ROW f m0 = initializeShape_dirs dim shape (map int [0..<dim]) f m0"
    and "initializeShape dim shape COLUMN f m0 = initializeShape_dirs dim shape (map int (rev [0..<dim])) f m0"
proof -
  have p: "isPermutation dim (map int [0..<dim])" "isPermutation dim (map int (rev [0..<dim]))" by (auto intro!: isPermutation_int)
  have n: "map nat (map int xs) = xs" for xs by (simp add: comp_def)
  have c: "column_strides dim shape f s = dirs_strides dim shape (rev [0..<dim]) f s" for s
    using column_strides_dirs [OF assms(1)] unfolding reversed_dirs .
  show "initializeShape dim shape ROW f m0 = initializeShape_dirs dim shape (map int [0..<dim]) f m0"
    "initializeShape dim shape COLUMN f m0 = initializeShape_dirs dim shape (map int (rev [0..<dim])) f m0"
    unfolding initializeShape_def initializeShape_dirs_def n Let_def
    using assms p by (simp_all add: row_strides_dirs c reversed_dirs del: One_nat_def)
qed

text \<open>
  C35. A mapping that is initialised with a shape without empty directions, any permutation of the directions and a positive stride \<open>f\<close> in the
  fastest one is a bijection, if \<open>f\<close> times the number of elements is at most the largest index \<open>M\<close>. Then the strides and all intermediate
  results of \<^verbatim>\<open>toFlatIndex\<close> stay in range, and \<^verbatim>\<open>toFlatIndex\<close> sends every index of the shape to one of the multiples of \<open>f\<close> below \<open>f\<close> times the number of
  elements, \<^verbatim>\<open>toMultiIndex\<close> inverts it, and every such multiple is reached.
\<close>

theorem md_mapping_bijection:
  assumes "isPermutation dim ds" and "length ds = dim" and "0 < dim" and "length shape = dim" and "list_all (\<lambda>n. 0 < n) shape" and "0 < f"
    and "length (m_strides m0) = dim" and "length u = dim" and "f < 2 ^ 31" and "f * prod_list shape \<le> M"
  shows "\<exists>m. initializeShape_dirs dim shape ds f m0 = Some m \<and> fastestStrideLength dim m = f \<and>
    (\<forall>d < dim. 0 < m_strides m ! d \<and> m_strides m ! d * shape ! d \<le> M) \<and>
    (\<forall>mi. in_shape shape mi \<longrightarrow> no_overflow M dim mi (m_strides m) \<and> 0 \<le> toFlatIndex dim m mi \<and> toFlatIndex dim m mi < f * prod_list shape \<and>
      toMultiIndex u m (toFlatIndex dim m mi) = Some mi) \<and>
    (\<forall>k. 0 \<le> k \<and> k < prod_list shape \<longrightarrow>
      (\<exists>mi. toMultiIndex u m (f * k) = Some mi \<and> in_shape shape mi \<and> toFlatIndex dim m mi = f * k))"
proof -
  obtain m where m: "initializeShape_dirs dim shape ds f m0 = Some m" "dir_list dim (map nat ds)" "m_slowestDirs m = map nat ds"
      "strides_for f shape (m_strides m) (map nat ds)"
    using initializeShape_dirs_ok [OF assms(1-3,7)] by blast
  have pos: "\<forall>n \<in> set shape. 0 < n" using assms(5) by (simp add: list_all_iff)
  note S = shape_mapping [OF m(2) assms(4) pos assms(6,8,3) m(4,3)] and R = shape_in_range [OF m(2) assms(4) pos assms(6,10,3) m(4)]
  have "fastestStrideLength dim m = f" using fastest_of [OF m(2) assms(3) m(4,3)] .
  moreover have "\<exists>mi. toMultiIndex u m (f * k) = Some mi \<and> in_shape shape mi \<and> toFlatIndex dim m mi = f * k" if "0 \<le> k" "k < prod_list shape" for k
    using S(2) [OF that] S(1) by metis
  ultimately show ?thesis using m(1) S(1) R by blast
qed

theorem md_mapping_bijection_witness:
  "\<exists>m mi. initializeShape_dirs 3 [2, 3, 4] [1, 2, 0] 5 \<lparr>m_strides = [7, 7, 7], m_slowestDirs = []\<rparr> = Some m \<and> toMultiIndex [9, 9, 9] m (5 * 23) = Some mi \<and>
     toFlatIndex 3 m mi = 115"
proof -
  have "isPermutation 3 [1, 2, 0]" by (simp add: isPermutation_iff)
  then obtain m where m: "initializeShape_dirs 3 [2, 3, 4] [1, 2, 0] 5 \<lparr>m_strides = [7, 7, 7], m_slowestDirs = []\<rparr> = Some m"
      "\<forall>k. 0 \<le> k \<and> k < prod_list [2, 3, 4] \<longrightarrow> (\<exists>mi. toMultiIndex [9, 9, 9] m (5 * k) = Some mi \<and> in_shape [2, 3, 4] mi \<and> toFlatIndex 3 m mi = 5 * k)"
    using md_mapping_bijection [of 3 "[1, 2, 0]" "[2, 3, 4]" 5 "\<lparr>m_strides = [7, 7, 7], m_slowestDirs = []\<rparr>" "[9, 9, 9]" "2 ^ 31 - 1"] by auto
  then show ?thesis using m(2) [rule_format, of 23] by auto
qed

text \<open>
  C36. Row-major order is the permutation that lists the directions in order and column-major order the reverse one: the specialised initialisers give the same
  mapping as the general one, and \<^verbatim>\<open>getStrideOrder\<close> recognises exactly these two among all permutations of at least two directions.
\<close>

theorem md_row_column_order:
  assumes "1 < dim" and "0 < f" and "length (m_strides m0) = dim" and "isPermutation dim ds" and "length ds = dim"
  shows "initializeShape dim shape ROW f m0 = initializeShape_dirs dim shape (map int [0..<dim]) f m0 \<and>
    initializeShape dim shape COLUMN f m0 = initializeShape_dirs dim shape (map int (rev [0..<dim])) f m0 \<and>
    (\<exists>m. initializeShape_dirs dim shape ds f m0 = Some m \<and>
      getStrideOrder dim m = (if ds = map int [0..<dim] then ROW else if ds = map int (rev [0..<dim]) then COLUMN else ARBITRARY))"
proof -
  have n: "map nat (map int xs) = xs" for xs by (simp add: comp_def)
  have "0 < dim" using assms(1) by simp
  note rc = initializeShape_orders [OF this assms(2), of shape m0]
  obtain m where m: "initializeShape_dirs dim shape ds f m0 = Some m" "dir_list dim (map nat ds)" "m_slowestDirs m = map nat ds"
    using initializeShape_dirs_ok [OF assms(4,5) \<open>0 < dim\<close> assms(3)] by blast
  have "0 \<le> v" if "v \<in> set ds" for v using assms(4) that by (auto simp: isPermutation_iff)
  then have "map int (map nat ds) = ds" by (simp add: comp_def map_idI)
  then have "map nat ds = xs \<longleftrightarrow> ds = map int xs" for xs using n by metis
  then show ?thesis using rc m getStrideOrder_dirs [of m dim] assms(1) by simp
qed

theorem md_row_column_order_witness:
  "\<exists>m. initializeShape_dirs 3 [2, 3, 4] [2, 1, 0] 1 \<lparr>m_strides = [0, 0, 0], m_slowestDirs = []\<rparr> = Some m \<and> getStrideOrder 3 m = COLUMN"
proof -
  have "isPermutation 3 [2, 1, 0]" by (simp add: isPermutation_iff)
  then show ?thesis
    using md_row_column_order [of 3 1 "\<lparr>m_strides = [0, 0, 0], m_slowestDirs = []\<rparr>" "[2, 1, 0]" "[2, 3, 4]"] by (simp add: upt_rec)
qed

lemma sorted_preference:
  fixes strides :: "int list"
  shows "dir_list dim (sort_dirs dim strides (map (\<lambda>d. if order = ROW then d else dim - 1 - d) [0..<dim]))"
    and "slow_first strides (sort_dirs dim strides (map (\<lambda>d. if order = ROW then d else dim - 1 - d) [0..<dim]))"
proof -
  have init: "dir_list dim (map (\<lambda>d. if order = ROW then d else dim - 1 - d) [0..<dim])" using mset_reversed [of dim] by (cases "order = ROW") auto
  show "dir_list dim (sort_dirs dim strides (map (\<lambda>d. if order = ROW then d else dim - 1 - d) [0..<dim]))"
    "slow_first strides (sort_dirs dim strides (map (\<lambda>d. if order = ROW then d else dim - 1 - d) [0..<dim]))"
    using sort_dirs_correct [OF dir_listD(3) [OF init], of strides] init by simp_all
qed

lemma initializeStrides_shape:
  assumes "dir_list dim dirs" and "length strides = dim" and "strides_for f shape strides dirs" and "0 < f"
    and "length shape = dim" and "\<forall>n \<in> set shape. 0 < n"
  shows "initializeStrides dim strides = (if distinct strides then Some \<lparr>m_strides = strides, m_slowestDirs = dirs\<rparr> else None)"
proof -
  have "\<forall>d \<in> set dirs. 0 < shape ! d" using dir_listD(2) [OF assms(1)] assms(5,6) by auto
  then have "slow_first strides dirs" using strides_slow_first [OF assms(3) _ assms(4)] by blast
  then have "sort_dirs dim strides (map (\<lambda>d. if ROW = ROW then d else dim - 1 - d) [0..<dim]) = dirs" if "distinct strides"
    using slow_first_unique [OF sorted_preference(1) assms(1) sorted_preference(2)] that assms(2) by blast
  then show ?thesis by (simp add: initializeStrides_def stridesAreUnique_iff [OF assms(2)] initializeStrides_pref_def)
qed

text \<open>
  C37. The exchange sort of \<^verbatim>\<open>initializeStrides\<close> gives a permutation of the directions along which the strides never grow, for all strides and both
  preferences; where the strides of a shape are unique it recovers the mapping from them, and otherwise it aborts.
\<close>

theorem md_strides_recover:
  assumes "0 < dim" and "length strides = dim"
  shows "(order \<in> {ROW, COLUMN} \<longrightarrow> (\<exists>m. initializeStrides_pref dim strides order = Some m \<and> m_strides m = strides \<and>
      isPermutation dim (map int (m_slowestDirs m)) \<and> length (m_slowestDirs m) = dim \<and>
      sorted_wrt (\<lambda>a b. strides ! b \<le> strides ! a) (m_slowestDirs m))) \<and>
    (isPermutation dim ds \<and> length ds = dim \<and> length shape = dim \<and> list_all (\<lambda>n. 0 < n) shape \<and> 0 < f \<and>
        length (m_strides m0) = dim \<and> initializeShape_dirs dim shape ds f m0 = Some \<lparr>m_strides = strides, m_slowestDirs = dirs\<rparr> \<longrightarrow>
      initializeStrides dim strides = (if distinct strides then Some \<lparr>m_strides = strides, m_slowestDirs = dirs\<rparr> else None))"
proof -
  have "\<exists>m. initializeStrides_pref dim strides order = Some m \<and> m_strides m = strides \<and> isPermutation dim (map int (m_slowestDirs m)) \<and>
      length (m_slowestDirs m) = dim \<and> slow_first strides (m_slowestDirs m)" if "order \<in> {ROW, COLUMN}"
    using that sorted_preference [where strides = strides and order = order and dim = dim] isPermutation_int [OF sorted_preference(1)]
      dir_listD(3) [OF sorted_preference(1), of dim strides order]
    by (auto simp: initializeStrides_pref_def)
  moreover have "initializeStrides dim strides = (if distinct strides then Some \<lparr>m_strides = strides, m_slowestDirs = dirs\<rparr> else None)"
    if h: "isPermutation dim ds" "length ds = dim" "length shape = dim" "list_all (\<lambda>n. 0 < n) shape" "0 < f"
      "length (m_strides m0) = dim" "initializeShape_dirs dim shape ds f m0 = Some \<lparr>m_strides = strides, m_slowestDirs = dirs\<rparr>"
  proof -
    obtain m where m: "initializeShape_dirs dim shape ds f m0 = Some m" "dir_list dim (map nat ds)" "m_slowestDirs m = map nat ds"
        "strides_for f shape (m_strides m) (map nat ds)"
      using initializeShape_dirs_ok [OF h(1,2) assms(1) h(6)] by blast
    then have "dir_list dim dirs" "strides_for f shape strides dirs" using h(7) by auto
    then show ?thesis using initializeStrides_shape [of dirs dim strides f shape] assms(2) h(3-5) by (simp add: list_all_iff)
  qed
  ultimately show ?thesis by blast
qed

theorem md_strides_recover_witness:
  "initializeStrides 3 [1, 6, 2] = Some \<lparr>m_strides = [1, 6, 2], m_slowestDirs = [1, 2, 0]\<rparr>"
proof -
  have "isPermutation 3 [1, 2, 0]" by (simp add: isPermutation_iff)
  moreover have "initializeShape_dirs 3 [2, 4, 3] [1, 2, 0] 1 \<lparr>m_strides = [0, 0, 0], m_slowestDirs = []\<rparr> = Some \<lparr>m_strides = [1, 6, 2], m_slowestDirs = [1, 2, 0]\<rparr>"
    by code_simp
  ultimately show ?thesis
    using md_strides_recover [of 3 "[1, 6, 2]" ROW "[1, 2, 0]" "[2, 4, 3]" 1 "\<lparr>m_strides = [0, 0, 0], m_slowestDirs = []\<rparr>" "[1, 2, 0]"] by simp
qed

end
