(* ===== verification/ArrayShape.thy ===== *)
theory ArrayShape
  imports ArrayMapping
begin

text \<open>
  Arrays and views of several dimensions: \<^verbatim>\<open>core/ArrayBase.hpp\<close> for more than one dimension, the view of \<^verbatim>\<open>core/ArrayView.hpp\<close> with
  \<^verbatim>\<open>subspan\<close>, and \<^verbatim>\<open>insertionSort\<close> of \<^verbatim>\<open>core/utilities/Utilities.hpp\<close>, which checks strides. An access is the address that it
  reads, in units of elements. As in a debug build, a failed assertion is the value \<open>None\<close>, as are an abort and the access through a null pointer.
\<close>

section \<open>The code\<close>

fun sift_down :: "('a \<Rightarrow> 'a \<Rightarrow> bool) \<Rightarrow> nat \<Rightarrow> 'a list \<Rightarrow> 'a list" where
  "sift_down cmp 0 a = a"
| "sift_down cmp (Suc j) a = (if cmp (a ! Suc j) (a ! j) then sift_down cmp j (a[Suc j := a ! j, j := a ! Suc j]) else a)"

definition insertionSort :: "('a \<Rightarrow> 'a \<Rightarrow> bool) \<Rightarrow> nat \<Rightarrow> 'a list \<Rightarrow> 'a list" where
  "insertionSort cmp n a = fold (sift_down cmp) [1..<n] a"

record ArrayBase =
  m_shape :: "int list"
  m_mapping :: MDMapping
  m_minStride :: int

definition ab_mapped :: "nat \<Rightarrow> int list \<Rightarrow> MDMapping \<Rightarrow> ArrayBase" where
  "ab_mapped dim shape m = \<lparr>m_shape = shape, m_mapping = m, m_minStride = fastestStrideLength dim m\<rparr>"

definition ArrayBase_shape :: "nat \<Rightarrow> int list \<Rightarrow> int \<Rightarrow> MDMapping \<Rightarrow> ArrayBase option" where
  "ArrayBase_shape dim shape min_stride m0 = map_option (ab_mapped dim shape) (initializeShape dim shape ROW min_stride m0)"

definition ArrayBase_mapping :: "nat \<Rightarrow> int list \<Rightarrow> MDMapping \<Rightarrow> MDMapping \<Rightarrow> ArrayBase option" where
  "ArrayBase_mapping dim shape mapping m0 =
     map_option (ab_mapped dim shape) (initializeShape_dirs dim shape (map int (m_slowestDirs mapping)) (fastestStrideLength dim mapping) m0)"

definition validateShapeAndStride :: "nat \<Rightarrow> int list \<Rightarrow> int list \<Rightarrow> bool" where
  "validateShapeAndStride dim shape stride =
     (let sorted_dims = insertionSort (\<lambda>dim_a dim_b. stride ! dim_a < stride ! dim_b) dim [0..<dim]
      in list_all (\<lambda>i. let minor_dim = sorted_dims ! i; major_dim = sorted_dims ! (i + 1) in
           stride ! major_dim \<ge> stride ! minor_dim * shape ! minor_dim \<and> stride ! minor_dim \<noteq> 0 \<and>
           stride ! major_dim smod stride ! minor_dim = 0) [0..<dim - 1])"

definition ArrayBase_strides :: "nat \<Rightarrow> int list \<Rightarrow> int list \<Rightarrow> ArrayBase option" where
  "ArrayBase_strides dim shape stride =
     Option.bind (initializeStrides_pref dim stride ROW) (\<lambda>m. if validateShapeAndStride dim shape stride then Some (ab_mapped dim shape m) else None)"

definition updateStrides :: "nat \<Rightarrow> int \<Rightarrow> 'a ArrayBase_scheme \<Rightarrow> 'a ArrayBase_scheme option" where
  "updateStrides dim min_stride ab =
     map_option (\<lambda>m. ab\<lparr>m_mapping := m, m_minStride := fastestStrideLength dim m\<rparr>)
       (initializeShape_dirs dim (m_shape ab) (map int (m_slowestDirs (m_mapping ab))) min_stride (m_mapping ab))"

definition ArrayBase_default :: "nat \<Rightarrow> MDMapping \<Rightarrow> ArrayBase option" where
  "ArrayBase_default dim m0 =
     Option.bind (MDMapping_empty dim ROW m0) (\<lambda>m. updateStrides dim 1 (ab_mapped dim (replicate dim 0) m))"

definition setShape :: "nat \<Rightarrow> int list \<Rightarrow> 'a ArrayBase_scheme \<Rightarrow> 'a ArrayBase_scheme option" where
  "setShape dim shape ab = (if \<not> list_all (\<lambda>s. s \<ge> 0) shape then None else updateStrides dim 1 (ab\<lparr>m_shape := shape\<rparr>))"

definition setShapeAndStride :: "nat \<Rightarrow> int list \<Rightarrow> int list \<Rightarrow> 'a ArrayBase_scheme \<Rightarrow> 'a ArrayBase_scheme option" where
  "setShapeAndStride dim shape stride ab =
     (if \<not> validateShapeAndStride dim shape stride then None
      else map_option (\<lambda>m. ab\<lparr>m_shape := shape, m_mapping := m, m_minStride := fastestStrideLength dim m\<rparr>) (initializeStrides dim stride))"

definition ab_blockSize :: "'a ArrayBase_scheme \<Rightarrow> int" where
  "ab_blockSize ab = (let slowestDir = m_slowestDirs (m_mapping ab) ! 0 in m_strides (m_mapping ab) ! slowestDir)"

definition updateShapeOnInsert :: "nat \<Rightarrow> int list \<Rightarrow> 'a ArrayBase_scheme \<Rightarrow> 'a ArrayBase_scheme option" where
  "updateShapeOnInsert dim range_shape ab =
     (if tl (m_shape ab) \<noteq> tl range_shape then None
      else updateStrides dim 1 (ab\<lparr>m_shape := (m_shape ab)[0 := m_shape ab ! 0 + range_shape ! 0]\<rparr>))"

definition ab_offset :: "nat \<Rightarrow> 'a ArrayBase_scheme \<Rightarrow> int list \<Rightarrow> int" where
  "ab_offset dim ab idx = toFlatIndex dim (m_mapping ab) idx"

definition memorySize :: "'a ArrayBase_scheme \<Rightarrow> int" where
  "memorySize ab = (let slowestDir = m_slowestDirs (m_mapping ab) ! 0 in m_strides (m_mapping ab) ! slowestDir * m_shape ab ! slowestDir)"

definition ab_inBounds :: "'a ArrayBase_scheme \<Rightarrow> int \<Rightarrow> bool" where
  "ab_inBounds ab idx \<longleftrightarrow> idx \<ge> 0 \<and> idx < memorySize ab"

definition packProduct :: "int list \<Rightarrow> int" where
  "packProduct arr = fold (\<lambda>x prod. prod * x) arr 1"

text \<open>Views; the pointer is an address or null.\<close>

record ArrayView = ArrayBase +
  m_data :: "int option"
  m_num_elements :: int

definition view_on :: "int option \<Rightarrow> ArrayBase \<Rightarrow> ArrayView" where
  "view_on data ab = ArrayBase.extend ab (ArrayView.fields data (if data \<noteq> None then packProduct (m_shape ab) else 0))"

definition ArrayView_new :: "nat \<Rightarrow> int option \<Rightarrow> int list \<Rightarrow> int \<Rightarrow> MDMapping \<Rightarrow> ArrayView option" where
  "ArrayView_new dim data shape min_stride m0 = map_option (view_on data) (ArrayBase_shape dim shape min_stride m0)"

definition ArrayView_strides :: "nat \<Rightarrow> int option \<Rightarrow> int list \<Rightarrow> int list \<Rightarrow> ArrayView option" where
  "ArrayView_strides dim data shape stride = map_option (view_on data) (ArrayBase_strides dim shape stride)"

definition sliceImpl :: "nat \<Rightarrow> ArrayView \<Rightarrow> int list \<Rightarrow> int option" where
  "sliceImpl dim v idx =
     (let baseIdx = ab_offset dim v idx in if \<not> ab_inBounds v baseIdx then None else map_option (\<lambda>p. p + baseIdx) (m_data v))"

definition flatIndex :: "ArrayView \<Rightarrow> int \<Rightarrow> int option" where
  "flatIndex v idx = (if \<not> ab_inBounds v idx then None else map_option (\<lambda>p. p + idx * m_minStride v) (m_data v))"

definition span_shape :: "nat \<Rightarrow> int list \<Rightarrow> int list \<Rightarrow> int list \<Rightarrow> int list" where
  "span_shape dim shape offsets counts = map (\<lambda>d. if counts ! d < 0 then shape ! d - offsets ! d else counts ! d) [0..<dim]"

definition subspan :: "nat \<Rightarrow> int list \<Rightarrow> int list \<Rightarrow> ArrayView \<Rightarrow> ArrayView option" where
  "subspan dim offsets counts v =
     (if \<not> list_all (\<lambda>d. offsets ! d \<ge> 0 \<and> offsets ! d < m_shape v ! d \<and> (counts ! d \<ge> 0 \<longrightarrow> offsets ! d + counts ! d \<le> m_shape v ! d)) [0..<dim]
      then None
      else let offset = dot_product offsets (m_strides (m_mapping v)) dim; newShape = span_shape dim (m_shape v) offsets counts
           in setShapeAndStride dim newShape (m_strides (m_mapping v))
                (v\<lparr>m_data := map_option (\<lambda>p. p + offset) (m_data v), m_num_elements := packProduct newShape\<rparr>))"

section \<open>Insertion sort\<close>

lemma sift_down_sorted:
  fixes k :: "'a \<Rightarrow> int"
  assumes "j \<le> n" and "n < length a" and "\<And>p q. p < q \<Longrightarrow> q \<le> n \<Longrightarrow> p \<noteq> j \<Longrightarrow> q \<noteq> j \<Longrightarrow> k (a ! p) \<le> k (a ! q)"
    and "\<And>q. j < q \<Longrightarrow> q \<le> n \<Longrightarrow> k (a ! j) \<le> k (a ! q)"
  shows "mset (sift_down (\<lambda>x y. k x < k y) j a) = mset a \<and>
    (\<forall>p q. p < q \<and> q \<le> n \<longrightarrow> k (sift_down (\<lambda>x y. k x < k y) j a ! p) \<le> k (sift_down (\<lambda>x y. k x < k y) j a ! q))"
  using assms
proof (induction j arbitrary: a)
  case 0
  have "k (a ! p) \<le> k (a ! q)" if "p < q" "q \<le> n" for p q using 0(3) [of p q] 0(4) [of q] that by (cases "p = 0") auto
  then show ?case by simp
next
  case (Suc j)
  let ?a = "a[Suc j := a ! j, j := a ! Suc j]"
  have nth: "?a ! i = (if i = j then a ! Suc j else if i = Suc j then a ! j else a ! i)" if "i \<le> n" for i
    using Suc.prems(1,2) that by (simp add: nth_list_update)
  show ?case
  proof (cases "k (a ! Suc j) < k (a ! j)")
    case True
    have "mset ?a = mset a" using Suc.prems(1,2) mset_swap [of j a "Suc j"] by simp
    moreover have "k (?a ! p) \<le> k (?a ! q)" if "p < q" "q \<le> n" "p \<noteq> j" "q \<noteq> j" for p q
      using that Suc.prems(3) [of p q] Suc.prems(3) [of p j] Suc.prems(3) [of j q] Suc.prems(1)
      unfolding nth [OF that(2)] nth [OF less_imp_le [OF less_le_trans [OF that(1,2)]]] by auto
    moreover have "k (?a ! j) \<le> k (?a ! q)" if "j < q" "q \<le> n" for q
      using that True Suc.prems(4) [of q] Suc.prems(1) unfolding nth [OF that(2)] nth [OF less_imp_le [OF less_le_trans [OF that]]] by auto
    ultimately show ?thesis using Suc.IH [of ?a] Suc.prems(1,2) True by simp
  next
    case False
    have "k (a ! p) \<le> k (a ! q)" if pq: "p < q" "q \<le> n" for p q
    proof -
      consider "p = Suc j" | "q = Suc j" "p = j" | "q = Suc j" "p < j" | "p \<noteq> Suc j" "q \<noteq> Suc j" using pq by linarith
      then show ?thesis
        using Suc.prems(3) [of p q] Suc.prems(3) [of p j] Suc.prems(4) [of q] Suc.prems(1) pq False by cases auto
    qed
    then show ?thesis using False by simp
  qed
qed

lemma insertionSort_sorted:
  fixes k :: "'a \<Rightarrow> int"
  assumes "n \<le> length a"
  shows "mset (insertionSort (\<lambda>x y. k x < k y) n a) = mset a \<and>
    (\<forall>p q. p < q \<and> q < n \<longrightarrow> k (insertionSort (\<lambda>x y. k x < k y) n a ! p) \<le> k (insertionSort (\<lambda>x y. k x < k y) n a ! q))"
  using assms
proof (induction n)
  case (Suc n)
  let ?r = "insertionSort (\<lambda>x y. k x < k y) n a"
  have IH: "mset ?r = mset a" "\<And>p q. p < q \<Longrightarrow> q < n \<Longrightarrow> k (?r ! p) \<le> k (?r ! q)" using Suc by auto
  have len: "length ?r = length a" using mset_eq_length [OF IH(1)] .
  show ?case
  proof (cases n)
    case 0
    then show ?thesis by (simp add: insertionSort_def)
  next
    case (Suc n')
    then have e: "insertionSort (\<lambda>x y. k x < k y) (Suc n) a = sift_down (\<lambda>x y. k x < k y) n ?r" by (simp add: insertionSort_def)
    show ?thesis unfolding e using sift_down_sorted [of n n ?r k] IH len Suc.prems by (simp add: less_Suc_eq_le)
  qed
qed (simp add: insertionSort_def)

lemma sorted_dims:
  assumes dirs: "dir_list dim dirs" "slow_first strides dirs" and strides: "distinct strides" "length strides = dim"
  shows "insertionSort (\<lambda>a b. strides ! a < strides ! b) dim [0..<dim] = rev dirs"
proof -
  let ?r = "insertionSort (\<lambda>a b. strides ! a < strides ! b) dim [0..<dim]"
  note S = insertionSort_sorted [of dim "[0..<dim]" "\<lambda>d. strides ! d"]
  have m: "dir_list dim ?r" using S by simp
  have "length ?r = dim" using dir_listD(3) [OF m] .
  then have "sorted_wrt (\<lambda>a b. strides ! a \<le> strides ! b) ?r" using S by (simp add: sorted_wrt_iff_nth_less)
  then have "slow_first strides (rev ?r)" by (simp add: sorted_wrt_rev)
  then have "rev ?r = dirs" using slow_first_unique [of "rev ?r" dim dirs] m dirs strides by simp
  then show ?thesis by auto
qed

section \<open>Well-formed arrays\<close>

definition ab_ok :: "nat \<Rightarrow> nat list \<Rightarrow> int \<Rightarrow> 'a ArrayBase_scheme \<Rightarrow> bool" where
  "ab_ok dim dirs f ab \<longleftrightarrow> 0 < dim \<and> 0 < f \<and> dir_list dim dirs \<and> length (m_shape ab) = dim \<and> (\<forall>n \<in> set (m_shape ab). 0 < n) \<and>
     m_slowestDirs (m_mapping ab) = dirs \<and> strides_for f (m_shape ab) (m_strides (m_mapping ab)) dirs \<and>
     length (m_strides (m_mapping ab)) = dim \<and> m_minStride ab = f"

lemma ab_okD:
  assumes "ab_ok dim dirs f ab"
  shows "0 < dim" "0 < f" "dir_list dim dirs" "length (m_shape ab) = dim" "\<forall>n \<in> set (m_shape ab). 0 < n" "m_slowestDirs (m_mapping ab) = dirs"
    "strides_for f (m_shape ab) (m_strides (m_mapping ab)) dirs" "length (m_strides (m_mapping ab)) = dim" "m_minStride ab = f"
  using assms by (simp_all add: ab_ok_def)

lemma packProduct_prod: "packProduct arr = prod_list arr"
proof -
  have "fold (\<lambda>x prod. prod * x) arr c = c * prod_list arr" for c by (induction arr arbitrary: c) (simp_all add: ac_simps)
  then show ?thesis by (simp add: packProduct_def)
qed

lemma memorySize_ok:
  assumes "ab_ok dim dirs f ab"
  shows "memorySize ab = f * prod_list (m_shape ab)"
proof -
  note A = ab_okD [OF assms]
  obtain d ds where d: "dirs = d # ds" using dir_listD(3) [OF A(3)] A(1) by (cases dirs) auto
  have "volume (m_shape ab) dirs = prod_list (m_shape ab)"
    using flat_dirs(2) [OF A(3), of "m_shape ab"] map_nth [of "m_shape ab"] A(4) by simp
  then show ?thesis using A(6,7) d by (simp add: memorySize_def ac_simps)
qed

lemma initializeShape_ok:
  assumes "dir_list dim dirs" and "0 < dim" and "0 < f" and "length shape = dim" and "\<forall>n \<in> set shape. 0 < n" and "length (m_strides m0) = dim"
  obtains m where "initializeShape_dirs dim shape (map int dirs) f m0 = Some m" and "fastestStrideLength dim m = f"
    and "ab_ok dim dirs f (ab_mapped dim shape m)"
proof -
  have n: "map nat (map int dirs) = dirs" by (simp add: comp_def)
  have "length (map int dirs) = dim" using dir_listD(3) [OF assms(1)] by simp
  then obtain m where m: "initializeShape_dirs dim shape (map int dirs) f m0 = Some m" "m_slowestDirs m = dirs" "strides_for f shape (m_strides m) dirs"
      "length (m_strides m) = dim"
    using initializeShape_dirs_ok [OF isPermutation_int [OF assms(1)] _ assms(2,6), of shape f] n by metis
  moreover have "fastestStrideLength dim m = f" using fastest_of [OF assms(1,2) m(3,2)] .
  ultimately show ?thesis using that assms by (simp add: ab_ok_def ab_mapped_def)
qed

text \<open>Accesses.\<close>

lemma element_ok:
  assumes ok: "ab_ok dim dirs f v" and idx: "in_shape (m_shape v) idx"
  shows "sliceImpl dim v idx = map_option (\<lambda>p. p + ab_offset dim v idx) (m_data v)" and "0 \<le> ab_offset dim v idx" and "ab_offset dim v idx < memorySize v"
    and "in_shape (m_shape v) idx' \<Longrightarrow> ab_offset dim v idx' = ab_offset dim v idx \<Longrightarrow> idx' = idx"
proof -
  note A = ab_okD [OF ok]
  note S = shape_mapping(1) [OF A(3,4,5,2) length_replicate [of dim 0] A(1,7,6)]
  show "0 \<le> ab_offset dim v idx" "ab_offset dim v idx < memorySize v" using S [OF idx] by (simp_all add: ab_offset_def memorySize_ok [OF ok])
  then show "sliceImpl dim v idx = map_option (\<lambda>p. p + ab_offset dim v idx) (m_data v)" by (simp add: sliceImpl_def ab_inBounds_def Let_def)
  show "idx' = idx" if "in_shape (m_shape v) idx'" "ab_offset dim v idx' = ab_offset dim v idx"
    using S [OF idx] S [OF that(1)] that(2) by (simp add: ab_offset_def)
qed

lemma flat_ok:
  assumes ok: "ab_ok dim dirs f v" and k: "0 \<le> k" "k < prod_list (m_shape v)"
  shows "\<exists>idx. in_shape (m_shape v) idx \<and> flatIndex v k = sliceImpl dim v idx"
proof -
  note A = ab_okD [OF ok]
  obtain idx where i: "in_shape (m_shape v) idx" "toFlatIndex dim (m_mapping v) idx = f * k"
    using shape_mapping(2) [OF A(3,4,5,2) length_replicate [of dim 0] A(1,7,6) k] by blast
  have "1 * k \<le> f * k" using A(2) k(1) by (intro mult_right_mono) auto
  moreover have "f * k < memorySize v" using element_ok(3) [OF ok i(1)] i(2) by (simp add: ab_offset_def)
  ultimately have "ab_inBounds v k" using k(1) by (simp add: ab_inBounds_def)
  then show ?thesis using i element_ok(1) [OF ok i(1)] A(9) by (intro exI [of _ idx]) (simp add: flatIndex_def ab_offset_def mult.commute)
qed

lemma view_on_simps [simp]:
  "m_shape (view_on data ab) = m_shape ab" "m_mapping (view_on data ab) = m_mapping ab" "m_minStride (view_on data ab) = m_minStride ab"
  "m_data (view_on data ab) = data" "m_num_elements (view_on data ab) = (if data \<noteq> None then packProduct (m_shape ab) else 0)"
  by (simp_all add: view_on_def ArrayBase.defs ArrayView.defs)

lemma view_on_ok: "ab_ok dim dirs f (view_on data ab) \<longleftrightarrow> ab_ok dim dirs f ab"
  by (simp add: ab_ok_def)

lemma ArrayView_new_ok:
  assumes "0 < dim" and "0 < f" and "length shape = dim" and "list_all (\<lambda>n. 0 < n) shape" and "length (m_strides m0) = dim"
  obtains v where "ArrayView_new dim data shape f m0 = Some v" and "ab_ok dim [0..<dim] f v" and "m_shape v = shape" and "m_data v = data"
    and "data \<noteq> None \<Longrightarrow> m_num_elements v = prod_list shape"
proof -
  have pos: "\<forall>n \<in> set shape. 0 < n" using assms(4) by (simp add: list_all_iff)
  obtain m where m: "initializeShape_dirs dim shape (map int [0..<dim]) f m0 = Some m" "ab_ok dim [0..<dim] f (ab_mapped dim shape m)"
    using initializeShape_ok [OF refl assms(1-3) pos assms(5)] by blast
  let ?v = "view_on data (ab_mapped dim shape m)"
  have "ArrayView_new dim data shape f m0 = Some ?v"
    using m(1) by (simp add: ArrayView_new_def ArrayBase_shape_def initializeShape_orders(1) [OF assms(1,2)])
  moreover have "m_shape ?v = shape" by (simp add: ab_mapped_def)
  ultimately show ?thesis using that [of ?v] m(2) by (simp add: view_on_ok packProduct_prod ab_mapped_def)
qed

lemma prefix_product:
  assumes "\<forall>n \<in> set xs. 0 < (n :: int)"
  shows "0 < prod_list (take k xs) \<and> prod_list (take k xs) \<le> prod_list xs"
proof -
  have pos: "0 < prod_list ys" if "\<forall>n \<in> set ys. 0 < n" for ys :: "int list" using that by (induction ys) auto
  have "0 < prod_list (take k xs)" "0 < prod_list (drop k xs)" using assms by (auto intro!: pos dest: in_set_takeD in_set_dropD)
  moreover have "prod_list xs = prod_list (take k xs) * prod_list (drop k xs)" by (simp flip: prod_list.append)
  ultimately show ?thesis by (simp add: mult_le_cancel_left1)
qed

lemma view_in_range:
  assumes ok: "ab_ok dim dirs f v" and M: "f * prod_list (m_shape v) \<le> M"
  shows "prod_list (take k (m_shape v)) \<le> M" and "d < dim \<Longrightarrow> 0 < m_strides (m_mapping v) ! d \<and> m_strides (m_mapping v) ! d * m_shape v ! d \<le> M"
    and "in_shape (m_shape v) idx \<Longrightarrow> no_overflow M dim idx (m_strides (m_mapping v))"
proof -
  note A = ab_okD [OF ok]
  have "1 * prod_list (m_shape v) \<le> f * prod_list (m_shape v)"
    using prefix_product [OF A(5), of "length (m_shape v)"] A(2) by (intro mult_right_mono) auto
  then show "prod_list (take k (m_shape v)) \<le> M" using prefix_product [OF A(5), of k] M by linarith
  note R = shape_in_range [OF A(3-5,2) M A(1,7)]
  show "0 < m_strides (m_mapping v) ! d \<and> m_strides (m_mapping v) ! d * m_shape v ! d \<le> M" if "d < dim" using R(1) [OF that] .
  show "no_overflow M dim idx (m_strides (m_mapping v))" if "in_shape (m_shape v) idx" using R(2) [OF that] .
qed

text \<open>
  C38. A row-major view that is constructed with a minimum stride \<open>f\<close>, when \<open>f\<close> times the number of elements is at most the largest index \<open>M\<close>:
  no product or sum that computes its size or an offset overflows, every index of the shape is accepted and reads an address of the view, different indices
  different addresses, and the positions of \<^verbatim>\<open>flatIndex\<close> below the number of elements enumerate them. The assertion of \<^verbatim>\<open>flatIndex\<close>,
  however, compares the position with the memory size and not with the number of elements: for \<open>f > 1\<close> it accepts positions that read behind the view
  (where the product with the stride is an index).
\<close>

theorem array_view_access:
  assumes "1 < dim" and "0 < f" and "length shape = dim" and "list_all (\<lambda>n. 0 < n) shape" and "length (m_strides m0) = dim"
    and "f < 2 ^ 31" and "f * prod_list shape \<le> M"
  shows "\<exists>v. ArrayView_new dim (Some p) shape f m0 = Some v \<and> m_num_elements v = prod_list shape \<and> memorySize v = f * prod_list shape \<and>
    (\<forall>k. prod_list (take k shape) \<le> M) \<and> (\<forall>d < dim. 0 < m_strides (m_mapping v) ! d \<and> m_strides (m_mapping v) ! d * shape ! d \<le> M) \<and>
    (\<forall>idx. in_shape shape idx \<longrightarrow> no_overflow M dim idx (m_strides (m_mapping v)) \<and> (\<exists>off. sliceImpl dim v idx = Some (p + off) \<and> 0 \<le> off \<and> off < memorySize v \<and>
      (\<forall>idx'. in_shape shape idx' \<and> sliceImpl dim v idx' = Some (p + off) \<longrightarrow> idx' = idx))) \<and>
    (\<forall>k. 0 \<le> k \<and> k < prod_list shape \<longrightarrow> (\<exists>idx. in_shape shape idx \<and> flatIndex v k = sliceImpl dim v idx)) \<and>
    (\<forall>k. prod_list shape \<le> k \<and> k < f * prod_list shape \<and> k * f \<le> M \<longrightarrow> flatIndex v k = Some (p + k * f) \<and> memorySize v \<le> k * f)"
proof -
  have d: "0 < dim" using assms(1) by simp
  obtain v where v: "ArrayView_new dim (Some p) shape f m0 = Some v" "ab_ok dim [0..<dim] f v" "m_shape v = shape" "m_data v = Some p"
      "m_num_elements v = prod_list shape"
    using ArrayView_new_ok [OF d assms(2-5), of "Some p"] by blast
  have mem: "memorySize v = f * prod_list shape" using memorySize_ok [OF v(2)] v(3) by simp
  note E = element_ok [OF v(2), unfolded v(3)]
  have "\<exists>off. sliceImpl dim v idx = Some (p + off) \<and> 0 \<le> off \<and> off < memorySize v \<and>
      (\<forall>idx'. in_shape shape idx' \<and> sliceImpl dim v idx' = Some (p + off) \<longrightarrow> idx' = idx)" if "in_shape shape idx" for idx
    using E(1-3) [OF that] E(4) [OF that] E(1) v(4) by (intro exI [of _ "ab_offset dim v idx"]) (auto simp only: option.map option.inject add_left_cancel)
  moreover have "\<exists>idx. in_shape shape idx \<and> flatIndex v k = sliceImpl dim v idx" if "0 \<le> k" "k < prod_list shape" for k
    using flat_ok [OF v(2)] that v(3) by simp
  moreover have "flatIndex v k = Some (p + k * f) \<and> memorySize v \<le> k * f" if "prod_list shape \<le> k" "k < f * prod_list shape" for k
  proof -
    have "0 \<le> prod_list shape" using assms(4) by (induction shape) auto
    then show ?thesis using that mem v(4) ab_okD(9) [OF v(2)] assms(2) by (simp add: flatIndex_def ab_inBounds_def mult.commute mult_left_mono)
  qed
  moreover note R = view_in_range [OF v(2) assms(7) [folded v(3)], unfolded v(3)]
  ultimately show ?thesis using v(1,5) mem by blast
qed

theorem array_view_access_witness:
  "\<exists>v. ArrayView_new 2 (Some 100) [2, 3] 4 \<lparr>m_strides = [0, 0], m_slowestDirs = []\<rparr> = Some v \<and> flatIndex v 6 = Some 124 \<and> memorySize v = 24"
  using array_view_access [of 2 4 "[2, 3]" "\<lparr>m_strides = [0, 0], m_slowestDirs = []\<rparr>" "2 ^ 31 - 1" 100] by fastforce

section \<open>Subspans\<close>

lemma strides_for_nth:
  "strides_for f shape strides ds \<Longrightarrow> Suc i < length ds \<Longrightarrow> strides ! (ds ! i) = strides ! (ds ! Suc i) * shape ! (ds ! Suc i)"
proof (induction ds arbitrary: i)
  case (Cons d ds)
  show ?case
  proof (cases i)
    case 0
    then obtain e es where "ds = e # es" using Cons.prems(2) by (cases ds) auto
    then show ?thesis using Cons.prems(1) 0 by (simp add: ac_simps)
  next
    case (Suc j)
    then show ?thesis using Cons.IH [of j] Cons.prems by simp
  qed
qed simp

lemma strides_pos: "strides_for f shape strides ds \<Longrightarrow> \<forall>d \<in> set ds. 0 < shape ! d \<Longrightarrow> 0 < f \<Longrightarrow> d \<in> set ds \<Longrightarrow> 0 < strides ! d"
  by (induction ds) (auto simp: volume_pos)

lemma shape_dirs_pos: "ab_ok dim dirs f ab \<Longrightarrow> \<forall>d \<in> set dirs. 0 < m_shape ab ! d"
  using dir_listD(2) [of dirs dim] by (auto simp: ab_ok_def)

lemma validate_smaller:
  assumes ok: "ab_ok dim dirs f ab" and new: "\<And>d. d < dim \<Longrightarrow> new ! d \<le> m_shape ab ! d" and dist: "distinct (m_strides (m_mapping ab))"
  shows "validateShapeAndStride dim new (m_strides (m_mapping ab))"
proof -
  note A = ab_okD [OF ok] and D = dir_listD [OF ab_okD(3) [OF ok]]
  let ?s = "m_strides (m_mapping ab)"
  have r: "insertionSort (\<lambda>a b. ?s ! a < ?s ! b) dim [0..<dim] = rev dirs"
    using sorted_dims [OF A(3) strides_slow_first [OF A(7) shape_dirs_pos [OF ok] A(2)] dist A(8)] .
  have "?s ! (rev dirs ! (i + 1)) \<ge> ?s ! (rev dirs ! i) * new ! (rev dirs ! i) \<and> ?s ! (rev dirs ! i) \<noteq> 0 \<and>
      ?s ! (rev dirs ! (i + 1)) smod ?s ! (rev dirs ! i) = 0" if i: "i < dim - 1" for i
  proof -
    let ?j = "dim - 2 - i"
    have j: "rev dirs ! i = dirs ! Suc ?j" "rev dirs ! (i + 1) = dirs ! ?j" "Suc ?j < length dirs" using i D(3) by (auto simp: rev_nth Suc_diff_Suc numeral_2_eq_2)
    have d: "dirs ! Suc ?j < dim" "dirs ! Suc ?j \<in> set dirs" using j(3) D(2) nth_mem [of "Suc ?j" dirs] by auto
    have p: "0 < ?s ! (dirs ! Suc ?j)" using strides_pos [OF A(7) shape_dirs_pos [OF ok] A(2) d(2)] .
    have e: "?s ! (dirs ! ?j) = ?s ! (dirs ! Suc ?j) * m_shape ab ! (dirs ! Suc ?j)" using strides_for_nth [OF A(7) j(3)] .
    have "?s ! (dirs ! Suc ?j) * new ! (dirs ! Suc ?j) \<le> ?s ! (dirs ! ?j)" unfolding e using p new [OF d(1)] by (intro mult_left_mono) auto
    moreover have "?s ! (dirs ! ?j) smod ?s ! (dirs ! Suc ?j) = 0" unfolding e by (simp add: signed_modulo_int_def abs_mult)
    ultimately show ?thesis unfolding j(1,2) using p by simp
  qed
  then show ?thesis unfolding validateShapeAndStride_def r Let_def by (simp add: list_all_iff)
qed

lemma strictly_slower:
  assumes "strides_for f shape strides ds" and "\<forall>d \<in> set (tl ds). 1 < shape ! d" and "0 < f"
  shows "sorted_wrt (\<lambda>a b. strides ! b < strides ! a) ds"
  using assms
proof (induction ds)
  case (Cons d ds)
  have pos: "\<forall>d \<in> set ds. 0 < shape ! d" using Cons.prems(2) by fastforce
  have IH: "sorted_wrt (\<lambda>a b. strides ! b < strides ! a) ds" using Cons by (cases ds) auto
  show ?case
  proof (cases ds)
    case (Cons e es)
    have "0 < strides ! e" using strides_pos [of f shape strides ds e] Cons.prems(1,3) pos Cons by simp
    then have "1 * strides ! e < shape ! e * strides ! e" using Cons.prems(2) Cons by (intro mult_strict_right_mono) auto
    then have "strides ! e < strides ! d" using strides_for_nth [OF Cons.prems(1), of 0] Cons by (simp add: mult.commute)
    then show ?thesis using IH unfolding Cons by fastforce
  qed simp
qed simp

lemma row_strides_distinct:
  assumes ok: "ab_ok dim [0..<dim] f ab"
  shows "distinct (m_strides (m_mapping ab)) \<longleftrightarrow> (\<forall>d. 0 < d \<and> d < dim \<longrightarrow> m_shape ab ! d \<noteq> 1)"
proof
  note A = ab_okD [OF ok]
  assume dist: "distinct (m_strides (m_mapping ab))"
  show "\<forall>d. 0 < d \<and> d < dim \<longrightarrow> m_shape ab ! d \<noteq> 1"
  proof (intro allI impI notI)
    fix d
    assume d: "0 < d \<and> d < dim" and "m_shape ab ! d = 1"
    moreover have p: "d - 1 < dim" "d - 1 \<noteq> d" using d by auto
    ultimately have "m_strides (m_mapping ab) ! (d - 1) = m_strides (m_mapping ab) ! d" using strides_for_nth [OF A(7), of "d - 1"] by simp
    then show False using p d A(8) nth_eq_iff_index_eq [OF dist, of "d - 1" d] by simp
  qed
next
  note A = ab_okD [OF ok]
  assume no: "\<forall>d. 0 < d \<and> d < dim \<longrightarrow> m_shape ab ! d \<noteq> 1"
  have "1 < m_shape ab ! d" if "d \<in> set (tl [0..<dim])" for d
  proof -
    have "0 < d" "d < dim" using that by (auto simp: tl_upt)
    moreover have "0 < m_shape ab ! d" using A(4,5) \<open>d < dim\<close> by auto
    ultimately show ?thesis using no by force
  qed
  then have "sorted_wrt (\<lambda>a b. m_strides (m_mapping ab) ! b < m_strides (m_mapping ab) ! a) [0..<dim]"
    using strictly_slower [OF A(7) _ A(2)] by blast
  then have "m_strides (m_mapping ab) ! j < m_strides (m_mapping ab) ! i" if "i < j" "j < dim" for i j using that by (simp add: sorted_wrt_iff_nth_less)
  then show "distinct (m_strides (m_mapping ab))" unfolding distinct_conv_nth A(8) by (metis less_irrefl linorder_neqE_nat)
qed

lemma dot_product_add:
  assumes "0 < dim" and "length u = dim" and "length v = dim"
  shows "dot_product (map2 (+) u v) s dim = dot_product u s dim + dot_product v s dim"
proof -
  have "flat s ((!) (map2 (+) u v)) ds = flat s ((!) u) ds + flat s ((!) v) ds" if "set ds \<subseteq> {..<dim}" for ds
    using that assms by (induction ds) (auto simp: algebra_simps)
  from this [of "[0..<dim]"] show ?thesis using assms(1) by (simp add: dot_product_flat atLeast0LessThan)
qed

lemma smaller_in_bounds:
  assumes ok: "ab_ok dim dirs f v" and w: "m_mapping w = m_mapping v" "m_shape w = new" and new: "length new = dim" "\<And>d. d < dim \<Longrightarrow> new ! d \<le> m_shape v ! d"
    and idx: "in_shape new idx"
  shows "sliceImpl dim w idx = map_option (\<lambda>p. p + ab_offset dim v idx) (m_data w)"
proof -
  note A = ab_okD [OF ok] and D = dir_listD [OF ab_okD(3) [OF ok]]
  let ?s = "m_strides (m_mapping v)"
  obtain d ds where d: "dirs = d # ds" using D(3) A(1) by (cases dirs) auto
  have x: "0 \<le> idx ! e \<and> idx ! e < new ! e \<and> idx ! e < m_shape v ! e" if "e \<in> set dirs" for e
    using that idx new D(2) by (fastforce simp: in_shape_def)
  have off: "ab_offset dim v idx = flat ?s ((!) idx) dirs"
    using dot_product_flat [OF A(1)] flat_dirs(1) [OF A(3)] by (simp add: ab_offset_def toFlatIndex_def)
  have R: "0 \<le> flat ?s ((!) idx) ds" "flat ?s ((!) idx) ds < ?s ! d" using flat_bounds [of f "m_shape v" ?s ds "(!) idx"] A(2,7) x d by auto
  have "idx ! d * ?s ! d \<le> (new ! d - 1) * ?s ! d" using x [of d] R d by (intro mult_right_mono) auto
  then have "ab_offset dim v idx < ?s ! d * new ! d" using off d R by (simp add: algebra_simps)
  moreover have "0 \<le> ab_offset dim v idx" using off d R x [of d] by simp
  ultimately show ?thesis using w d A(6) by (simp add: sliceImpl_def ab_inBounds_def memorySize_def ab_offset_def Let_def)
qed

text \<open>
  C39. \<^verbatim>\<open>subspan\<close> of a row-major view that is constructed with a minimum stride, where the stride times the number of elements is at most the
  largest index \<open>M\<close>: the offset of the first element is computed without overflow, and so are the indices of the result. When no direction but the slowest has the extent 1, the result has the requested shape, and each of its
  elements is the element of the view at the sum of the offsets and its index. When another direction has the extent 1 two strides are equal, and
  \<^verbatim>\<open>subspan\<close> aborts the program for every request.
\<close>

theorem array_view_subspan:
  assumes "1 < dim" and "0 < f" and "length shape = dim" and "list_all (\<lambda>n. 0 < n) shape" and "ArrayView_new dim data shape f m0 = Some v"
    and "length (m_strides m0) = dim" and "length offsets = dim" and "length counts = dim"
    and "\<forall>d. d < dim \<longrightarrow> 0 \<le> offsets ! d \<and> offsets ! d < shape ! d \<and> offsets ! d + counts ! d \<le> shape ! d"
    and "f < 2 ^ 31" and "f * prod_list shape \<le> M"
  shows "(if \<exists>d. 0 < d \<and> d < dim \<and> shape ! d = 1 then subspan dim offsets counts v = None
    else \<exists>w. subspan dim offsets counts v = Some w \<and> m_shape w = span_shape dim shape offsets counts \<and>
      no_overflow M dim offsets (m_strides (m_mapping v)) \<and>
      (\<forall>idx. in_shape (m_shape w) idx \<longrightarrow> no_overflow M dim idx (m_strides (m_mapping w)) \<and> sliceImpl dim w idx = sliceImpl dim v (map2 (+) offsets idx) \<and>
        in_shape shape (map2 (+) offsets idx)))"
proof -
  have d0: "0 < dim" using assms(1) by simp
  obtain v' where "ArrayView_new dim data shape f m0 = Some v'" "ab_ok dim [0..<dim] f v'" "m_shape v' = shape"
    using ArrayView_new_ok [OF d0 assms(2-4,6), of data] by blast
  then have ok: "ab_ok dim [0..<dim] f v" and sh: "m_shape v = shape" using assms(5) by auto
  note A = ab_okD [OF ok]
  let ?s = "m_strides (m_mapping v)" and ?n = "span_shape dim shape offsets counts"
  let ?w = "v\<lparr>m_data := map_option (\<lambda>p. p + dot_product offsets ?s dim) (m_data v), m_num_elements := packProduct ?n\<rparr>"
  have sub: "subspan dim offsets counts v = setShapeAndStride dim ?n ?s ?w"
    using assms(9) sh by (auto simp: subspan_def list_all_iff Let_def)
  note init = initializeStrides_shape [OF A(3,8,7,2,4,5)]
  show ?thesis
  proof (cases "\<exists>d. 0 < d \<and> d < dim \<and> shape ! d = 1")
    case True
    then have "\<not> distinct ?s" using row_strides_distinct [OF ok] sh by auto
    then have "subspan dim offsets counts v = None" unfolding sub by (simp add: setShapeAndStride_def init)
    then show ?thesis using True by simp
  next
    case False
    then have dist: "distinct ?s" using row_strides_distinct [OF ok] sh by auto
    have n: "length ?n = dim" "\<And>d. d < dim \<Longrightarrow> ?n ! d \<le> m_shape v ! d" "\<And>d. d < dim \<Longrightarrow> offsets ! d + ?n ! d \<le> shape ! d"
      using assms(9) sh by (auto simp: span_shape_def)
    have m: "\<lparr>m_strides = ?s, m_slowestDirs = [0..<dim]\<rparr> = m_mapping v" using A(6) by (cases "m_mapping v") simp
    let ?r = "?w\<lparr>m_shape := ?n, m_mapping := m_mapping v, m_minStride := fastestStrideLength dim (m_mapping v)\<rparr>"
    have "subspan dim offsets counts v = Some ?r"
      unfolding sub using validate_smaller [OF ok n(2) dist] dist by (simp add: setShapeAndStride_def init m)
    moreover have "no_overflow M dim offsets ?s"
      using view_in_range(3) [OF ok assms(11) [folded sh], of offsets] assms(3,7,9) sh by (simp add: in_shape_def)
    moreover have "no_overflow M dim idx ?s \<and> sliceImpl dim ?r idx = sliceImpl dim v (map2 (+) offsets idx) \<and> in_shape shape (map2 (+) offsets idx)" if idx: "in_shape ?n idx" for idx
    proof -
      have len: "length idx = dim" using idx n(1) by (simp add: in_shape_def)
      have i: "in_shape shape (map2 (+) offsets idx)"
        using idx n assms(3,7,9) len by (fastforce simp: in_shape_def)
      have "ab_offset dim v (map2 (+) offsets idx) = dot_product offsets ?s dim + ab_offset dim v idx"
        using dot_product_add [OF d0 assms(7) len] by (simp add: ab_offset_def toFlatIndex_def)
      moreover have "in_shape shape idx" using idx n(1,2) assms(3) sh by (fastforce simp: in_shape_def)
      ultimately show ?thesis
        using view_in_range(3) [OF ok assms(11) [folded sh], of idx] sh
          smaller_in_bounds [OF ok _ _ n(1,2) idx, of ?r] element_ok(1) [OF ok i [folded sh]] i by (cases "m_data v") auto
    qed
    ultimately show ?thesis using False by auto
  qed
qed

theorem array_view_subspan_witness:
  "\<exists>v. ArrayView_new 2 (Some 0) [3, 1] 1 \<lparr>m_strides = [0, 0], m_slowestDirs = []\<rparr> = Some v \<and> subspan 2 [0, 0] [2, 1] v = None"
proof -
  obtain v where "ArrayView_new 2 (Some 0) [3, 1] 1 \<lparr>m_strides = [0, 0], m_slowestDirs = []\<rparr> = Some v"
    using ArrayView_new_ok [of 2 1 "[3, 1]" "\<lparr>m_strides = [0, 0], m_slowestDirs = []\<rparr>" "Some 0"] by auto
  moreover have "\<forall>d. d < 2 \<longrightarrow> 0 \<le> ([0, 0] ! d :: int) \<and> [0, 0] ! d < ([3, 1] ! d :: int) \<and> [0, 0] ! d + [2, 1] ! d \<le> ([3, 1] ! d :: int)"
    by (auto simp: less_2_cases_iff)
  moreover have "\<exists>d. 0 < d \<and> d < 2 \<and> [3, 1] ! d = (1 :: int)" by (intro exI [of _ 1]) simp
  ultimately show ?thesis
    using array_view_subspan [of 2 1 "[3, 1]" "Some 0" "\<lparr>m_strides = [0, 0], m_slowestDirs = []\<rparr>" v "[0, 0]" "[2, 1]" "2 ^ 31 - 1"] by auto
qed

text \<open>The check of given strides sorts equal strides by their number, so that it refuses the strides that the array computes itself for such a shape.\<close>

lemma own_strides_refused:
  "map_option (\<lambda>ab. m_strides (m_mapping ab)) (ArrayBase_shape 2 [3, 1] 1 \<lparr>m_strides = [0, 0], m_slowestDirs = []\<rparr>) = Some [1, 1]"
  "ArrayBase_strides 2 [3, 1] [1, 1] = None"
  by code_simp+

section \<open>Appending\<close>

lemma same_strides:
  "strides_for f shape s ds \<Longrightarrow> strides_for f shape' s' ds \<Longrightarrow> \<forall>d \<in> set (tl ds). shape ! d = shape' ! d \<Longrightarrow> d \<in> set ds \<Longrightarrow> s ! d = s' ! d"
proof (induction ds)
  case (Cons e es)
  have v: "volume shape es = volume shape' es" using Cons.prems(3) by (intro arg_cong [of _ _ prod_list]) simp
  show ?case
  proof (cases "d = e")
    case True
    then show ?thesis using Cons.prems(1,2) v by simp
  next
    case False
    have "\<forall>d \<in> set (tl es). shape ! d = shape' ! d" using Cons.prems(3) by (cases es) auto
    then show ?thesis using False Cons by auto
  qed
qed simp

lemma insert_shape_ok:
  assumes ok: "ab_ok dim dirs f ab" and r: "tl (m_shape ab) = tl rs" "0 < rs ! 0"
  obtains ab' where "updateShapeOnInsert dim rs ab = Some ab'" and "ab_ok dim dirs 1 ab'" and "m_shape ab' = (m_shape ab)[0 := m_shape ab ! 0 + rs ! 0]"
proof -
  note A = ab_okD [OF ok]
  let ?n = "(m_shape ab)[0 := m_shape ab ! 0 + rs ! 0]"
  have "0 < m_shape ab ! 0" using A(1,4,5) nth_mem [of 0 "m_shape ab"] by auto
  then have "\<forall>n \<in> set ?n. 0 < n" using A(5) r(2) set_update_subset_insert [of "m_shape ab" 0] by fastforce
  then obtain m where m: "initializeShape_dirs dim ?n (map int dirs) 1 (m_mapping ab) = Some m" "ab_ok dim dirs 1 (ab_mapped dim ?n m)"
    using initializeShape_ok [OF A(3,1) zero_less_one, of ?n "m_mapping ab"] A(4,8) by auto
  let ?ab = "ab\<lparr>m_shape := ?n, m_mapping := m, m_minStride := fastestStrideLength dim m\<rparr>"
  have "updateShapeOnInsert dim rs ab = Some ?ab" using m(1) r(1) A(6) by (simp add: updateShapeOnInsert_def updateStrides_def)
  moreover have "ab_ok dim dirs 1 ?ab" using m(2) by (simp add: ab_ok_def ab_mapped_def)
  ultimately show ?thesis using that by simp
qed

lemma unit_offset:
  assumes "j < dim"
  shows "dot_product ((replicate dim 0)[j := 1]) s dim = s ! j"
proof -
  have "flat s ((!) ((replicate dim 0)[j := 1])) ds = (if j \<in> set ds then s ! j else 0)" if "distinct ds" "set ds \<subseteq> {..<dim}" for ds
    using that by (induction ds) (auto simp: nth_list_update)
  from this [of "[0..<dim]"] show ?thesis using assms by (simp add: dot_product_flat atLeast0LessThan)
qed

text \<open>
  C40. What appending a block along the first direction does to the offsets of the elements that are there. In a row-major array with the
  minimum stride 1 they stay as they are. \<^verbatim>\<open>updateShapeOnInsert\<close> sets the minimum stride to 1, so with another stride they change, and so they
  do in a column-major array, where the first direction is not the slowest one.
\<close>

theorem array_append_offsets:
  assumes "1 < dim" and "0 < f" and "length shape = dim" and "list_all (\<lambda>n. 0 < n) shape" and "length (m_strides m0) = dim"
    and "tl shape = tl rs" and "0 < rs ! 0"
  shows "(\<exists>ab ab'. ArrayBase_shape dim shape f m0 = Some ab \<and> updateShapeOnInsert dim rs ab = Some ab' \<and> m_shape ab' = shape[0 := shape ! 0 + rs ! 0] \<and>
      memorySize ab' = prod_list (shape[0 := shape ! 0 + rs ! 0]) \<and> (f = 1 \<longrightarrow> (\<forall>idx. ab_offset dim ab' idx = ab_offset dim ab idx)) \<and>
      ab_offset dim ab ((replicate dim 0)[dim - 1 := 1]) = f \<and> ab_offset dim ab' ((replicate dim 0)[dim - 1 := 1]) = 1) \<and>
    (m_slowestDirs mapping = rev [0..<dim] \<and> fastestStrideLength dim mapping = 1 \<longrightarrow>
      (\<exists>ab ab'. ArrayBase_mapping dim shape mapping m0 = Some ab \<and> updateShapeOnInsert dim rs ab = Some ab' \<and>
        ab_offset dim ab ((replicate dim 0)[1 := 1]) = shape ! 0 \<and> ab_offset dim ab' ((replicate dim 0)[1 := 1]) = shape ! 0 + rs ! 0))"
proof -
  have d0: "0 < dim" using assms(1) by simp
  have pos: "\<forall>n \<in> set shape. 0 < n" using assms(4) by (simp add: list_all_iff)
  let ?n = "shape[0 := shape ! 0 + rs ! 0]"
  have fast: "m_strides (m_mapping ab) ! (dirs ! (dim - 1)) = g" if "ab_ok dim dirs g ab" for ab :: ArrayBase and dirs g
    using fastest_of [OF ab_okD(3,1,7,6) [OF that]] ab_okD(6) [OF that] by (simp add: fastestStrideLength_def)
  obtain m where m: "initializeShape_dirs dim shape (map int [0..<dim]) f m0 = Some m" "ab_ok dim [0..<dim] f (ab_mapped dim shape m)"
    using initializeShape_ok [OF refl d0 assms(2,3) pos assms(5)] by blast
  let ?ab = "ab_mapped dim shape m"
  have sh: "m_shape (ab_mapped dim shape c) = shape" for c by (simp add: ab_mapped_def)
  obtain ab' where ab': "updateShapeOnInsert dim rs ?ab = Some ab'" "ab_ok dim [0..<dim] 1 ab'" "m_shape ab' = ?n"
    by (rule insert_shape_ok [OF m(2), of rs]) (use assms(6,7) in \<open>simp_all add: sh\<close>)
  have "ab_offset dim ab' idx = ab_offset dim ?ab idx" if "f = 1" for idx
  proof -
    note S = ab_okD(7,8) [OF m(2)] ab_okD(7,8) [OF ab'(2)]
    have "\<forall>d \<in> set (tl [0..<dim]). ?n ! d = shape ! d" by (auto simp: tl_upt)
    then have "m_strides (m_mapping ab') ! d = m_strides (m_mapping ?ab) ! d" if "d < dim" for d
      using same_strides [OF S(3) S(1) [unfolded \<open>f = 1\<close>]] that ab'(3) sh by simp
    then have "m_strides (m_mapping ab') = m_strides (m_mapping ?ab)" using S(2,4) by (intro nth_equalityI) auto
    then show ?thesis by (simp add: ab_offset_def toFlatIndex_def)
  qed
  moreover have "ArrayBase_shape dim shape f m0 = Some ?ab" using m(1) by (simp add: ArrayBase_shape_def initializeShape_orders(1) [OF d0 assms(2)])
  moreover have "memorySize ab' = prod_list ?n" using memorySize_ok [OF ab'(2)] ab'(3) by simp
  moreover have "ab_offset dim ?ab ((replicate dim 0)[dim - 1 := 1]) = f" "ab_offset dim ab' ((replicate dim 0)[dim - 1 := 1]) = 1"
    using fast [OF m(2)] fast [OF ab'(2)] d0 by (simp_all add: ab_offset_def toFlatIndex_def unit_offset)
  moreover have "\<exists>ab ab'. ArrayBase_mapping dim shape mapping m0 = Some ab \<and> updateShapeOnInsert dim rs ab = Some ab' \<and>
      ab_offset dim ab ((replicate dim 0)[1 := 1]) = shape ! 0 \<and> ab_offset dim ab' ((replicate dim 0)[1 := 1]) = shape ! 0 + rs ! 0"
    if c: "m_slowestDirs mapping = rev [0..<dim]" "fastestStrideLength dim mapping = 1"
  proof -
    obtain c where c': "initializeShape_dirs dim shape (map int (rev [0..<dim])) 1 m0 = Some c" "ab_ok dim (rev [0..<dim]) 1 (ab_mapped dim shape c)"
      using initializeShape_ok [of "rev [0..<dim]" dim 1 shape m0] d0 assms(3,5) pos by auto
    obtain cb where cb: "updateShapeOnInsert dim rs (ab_mapped dim shape c) = Some cb" "ab_ok dim (rev [0..<dim]) 1 cb" "m_shape cb = ?n"
      by (rule insert_shape_ok [OF c'(2), of rs]) (use assms(6,7) in \<open>simp_all add: sh\<close>)
    have one: "m_strides (m_mapping ab) ! 1 = m_shape ab ! 0" if ok: "ab_ok dim (rev [0..<dim]) 1 ab" for ab :: ArrayBase
    proof -
      have "rev [0..<dim] ! (dim - 2) = 1" "rev [0..<dim] ! Suc (dim - 2) = 0" "rev [0..<dim] ! (dim - 1) = 0" using assms(1) by (auto simp: rev_nth)
      then show ?thesis using strides_for_nth [OF ab_okD(7) [OF ok], of "dim - 2"] fast [OF ok] assms(1) by simp
    qed
    have "ArrayBase_mapping dim shape mapping m0 = Some (ab_mapped dim shape c)" using c'(1) c by (simp add: ArrayBase_mapping_def)
    moreover have "ab_offset dim (ab_mapped dim shape c) ((replicate dim 0)[1 := 1]) = shape ! 0" "ab_offset dim cb ((replicate dim 0)[1 := 1]) = shape ! 0 + rs ! 0"
      using unit_offset [of 1 dim] one [OF c'(2)] one [OF cb(2)] cb(3) assms(1,3) d0 sh by (simp_all add: ab_offset_def toFlatIndex_def)
    ultimately show ?thesis using cb(1) by blast
  qed
  ultimately show ?thesis using ab'(1,3) by blast
qed

theorem array_append_offsets_witness:
  "\<exists>ab ab'. ArrayBase_shape 2 [2, 3] 1 \<lparr>m_strides = [0, 0], m_slowestDirs = []\<rparr> = Some ab \<and> updateShapeOnInsert 2 [4, 3] ab = Some ab' \<and>
     ab_offset 2 ab' [1, 2] = ab_offset 2 ab [1, 2] \<and> memorySize ab' = 18"
proof -
  obtain ab ab' where "ArrayBase_shape 2 [2, 3] 1 \<lparr>m_strides = [0, 0], m_slowestDirs = []\<rparr> = Some ab" "updateShapeOnInsert 2 [4, 3] ab = Some ab'"
      "memorySize ab' = prod_list ([2, 3][0 := [2, 3] ! 0 + [4, 3] ! 0])" "\<forall>idx. ab_offset 2 ab' idx = ab_offset 2 ab idx"
    using array_append_offsets [of 2 1 "[2, 3]" "\<lparr>m_strides = [0, 0], m_slowestDirs = []\<rparr>" "[4, 3]", THEN conjunct1] by auto
  then show ?thesis by (intro exI [of _ ab] exI [of _ ab']) simp
qed

end
