(* ===== verification/CoreMap.thy ===== *)
theory CoreMap
  imports Containers
begin

text \<open>
  The chained hash map \<^verbatim>\<open>axom::experimental::Map\<close> (\<^verbatim>\<open>core/Map.hpp\<close>) for sequential execution. A bucket is
  an array of nodes of fixed length that holds two linked lists, of the nodes in use and of the free
  ones; links are indices, \<^verbatim>\<open>-1\<close> ends a list. An access outside the array, a division by zero or a walk that
  does not end is the value \<open>None\<close>. Keys are looked up with a hash function that is a parameter.
\<close>

section \<open>Buckets\<close>

record ('k, 'v) node =
  n_next :: int
  n_key :: 'k
  n_value :: 'v

record ('k, 'v) Bucket =
  k_list :: "('k, 'v) node list"
  k_head :: int
  k_free :: int
  k_capacity :: int
  k_size :: int

text \<open>The node that an operation returns a reference to, or the end node.\<close>

datatype node_ref = At int | EndNode

definition node_at :: "('k, 'v) node list \<Rightarrow> int \<Rightarrow> ('k, 'v) node option" where
  "node_at ns i = (if 0 \<le> i \<and> i < int (length ns) then Some (ns ! nat i) else None)"

definition set_node :: "int \<Rightarrow> ('k, 'v) node \<Rightarrow> ('k, 'v) node list \<Rightarrow> ('k, 'v) node list" where
  "set_node i n ns = ns[nat i := n]"

text \<open>\<open>k0\<close> and \<open>v0\<close> are what the allocated memory happens to contain.\<close>

definition Bucket_init :: "'k \<Rightarrow> 'v \<Rightarrow> int \<Rightarrow> ('k, 'v) Bucket option" where
  "Bucket_init k0 v0 len =
     (if len \<le> 0 then None
      else Some \<lparr>k_list = map (\<lambda>i. \<lparr>n_next = (if i = nat len - 1 then -1 else int i + 1), n_key = k0, n_value = v0\<rparr>) [0..<nat len],
                 k_head = -1, k_free = 0, k_capacity = len, k_size = 0\<rparr>)"

text \<open>
  The loop of the insertions, which looks at every node but the last: the node with the key, or the last
  node, and whether it is the former.
\<close>

fun walk :: "nat \<Rightarrow> ('k, 'v) node list \<Rightarrow> 'k \<Rightarrow> int \<Rightarrow> (bool \<times> int) option" where
  "walk 0 ns key ind = None"
| "walk (Suc fuel) ns key ind =
     (case node_at ns ind of
        None \<Rightarrow> None
      | Some n \<Rightarrow> if n_next n = -1 then Some (False, ind)
                 else if n_key n = key then Some (True, ind)
                 else walk fuel ns key (n_next n))"

text \<open>Taking the first free node for a new pair, as the first node or behind the node \<open>ind\<close>.\<close>

definition add_first :: "'k \<Rightarrow> 'v \<Rightarrow> ('k, 'v) Bucket \<Rightarrow> (('k, 'v) Bucket \<times> node_ref \<times> bool) option" where
  "add_first key v b =
     (case node_at (k_list b) (k_free b) of
        None \<Rightarrow> None
      | Some n \<Rightarrow> Some (b\<lparr>k_head := k_free b, k_free := n_next n,
            k_list := set_node (k_free b) \<lparr>n_next = -1, n_key = key, n_value = v\<rparr> (k_list b), k_size := k_size b + 1\<rparr>,
          At (k_free b), True))"

definition add_behind :: "'k \<Rightarrow> 'v \<Rightarrow> int \<Rightarrow> ('k, 'v) Bucket \<Rightarrow> (('k, 'v) Bucket \<times> node_ref \<times> bool) option" where
  "add_behind key v ind b =
     (case node_at (k_list b) ind of
        None \<Rightarrow> None
      | Some l \<Rightarrow> let ns = set_node ind (l\<lparr>n_next := k_free b\<rparr>) (k_list b) in
          (case node_at ns (k_free b) of
             None \<Rightarrow> None
           | Some n \<Rightarrow> Some (b\<lparr>k_free := n_next n,
                 k_list := set_node (k_free b) \<lparr>n_next = -1, n_key = key, n_value = v\<rparr> ns, k_size := k_size b + 1\<rparr>,
               At (k_free b), True)))"

definition insert_no_update :: "'k \<Rightarrow> 'v \<Rightarrow> ('k, 'v) Bucket \<Rightarrow> (('k, 'v) Bucket \<times> node_ref \<times> bool) option" where
  "insert_no_update key v b =
     (if k_free b \<noteq> -1
      then if k_head b = -1 then add_first key v b
           else (case walk (length (k_list b)) (k_list b) key (k_head b) of
                   None \<Rightarrow> None
                 | Some (True, ind) \<Rightarrow> Some (b, At ind, False)
                 | Some (False, ind) \<Rightarrow> add_behind key v ind b)
      else Some (b, EndNode, False))"

definition set_value :: "'v \<Rightarrow> int \<Rightarrow> ('k, 'v) Bucket \<Rightarrow> (('k, 'v) Bucket \<times> node_ref \<times> bool) option" where
  "set_value v ind b =
     (case node_at (k_list b) ind of
        None \<Rightarrow> None
      | Some n \<Rightarrow> Some (b\<lparr>k_list := set_node ind (n\<lparr>n_value := v\<rparr>) (k_list b)\<rparr>, At ind, False))"

definition insert_update :: "'k \<Rightarrow> 'v \<Rightarrow> ('k, 'v) Bucket \<Rightarrow> (('k, 'v) Bucket \<times> node_ref \<times> bool) option" where
  "insert_update key v b =
     (if k_head b = -1 then add_first key v b
      else (case walk (length (k_list b)) (k_list b) key (k_head b) of
              None \<Rightarrow> None
            | Some (True, ind) \<Rightarrow> set_value v ind b
            | Some (False, ind) \<Rightarrow>
                (case node_at (k_list b) ind of
                   None \<Rightarrow> None
                 | Some n \<Rightarrow> if n_key n = key then set_value v ind b
                            else if k_free b \<noteq> -1 then add_behind key v ind b
                            else Some (b, EndNode, False))))"

text \<open>The loops of \<^verbatim>\<open>remove\<close> and \<^verbatim>\<open>find\<close>: the node with the key and the one before it.\<close>

fun locate :: "nat \<Rightarrow> ('k, 'v) node list \<Rightarrow> 'k \<Rightarrow> int \<Rightarrow> int \<Rightarrow> (int \<times> int) option option" where
  "locate 0 ns key prev ind = None"
| "locate (Suc fuel) ns key prev ind =
     (case node_at ns ind of
        None \<Rightarrow> None
      | Some n \<Rightarrow> if n_key n = key then Some (Some (prev, ind))
                 else if n_next n = -1 then Some None
                 else locate fuel ns key ind (n_next n))"

definition unlink :: "int \<Rightarrow> int \<Rightarrow> ('k, 'v) Bucket \<Rightarrow> ('k, 'v) Bucket option" where
  "unlink prev ind b =
     (case node_at (k_list b) ind of
        None \<Rightarrow> None
      | Some n \<Rightarrow>
          (case (if prev \<noteq> -1 then map_option (\<lambda>p. set_node prev (p\<lparr>n_next := n_next n\<rparr>) (k_list b)) (node_at (k_list b) prev)
                 else Some (k_list b)) of
             None \<Rightarrow> None
           | Some ns \<Rightarrow> Some (b\<lparr>k_head := (if ind = k_head b then n_next n else k_head b),
               k_list := set_node ind (n\<lparr>n_next := k_free b\<rparr>) ns, k_free := ind, k_size := k_size b - 1\<rparr>)))"

definition Bucket_remove :: "'k \<Rightarrow> ('k, 'v) Bucket \<Rightarrow> (('k, 'v) Bucket \<times> bool) option" where
  "Bucket_remove key b =
     (if k_head b = -1 then Some (b, False)
      else (case locate (length (k_list b)) (k_list b) key (-1) (k_head b) of
              None \<Rightarrow> None
            | Some None \<Rightarrow> Some (b, False)
            | Some (Some (prev, ind)) \<Rightarrow> map_option (\<lambda>b. (b, True)) (unlink prev ind b)))"

definition Bucket_find :: "'k \<Rightarrow> ('k, 'v) Bucket \<Rightarrow> node_ref option" where
  "Bucket_find key b =
     (if k_head b = -1 then Some EndNode
      else (case locate (length (k_list b)) (k_list b) key (-1) (k_head b) of
              None \<Rightarrow> None
            | Some None \<Rightarrow> Some EndNode
            | Some (Some (prev, ind)) \<Rightarrow> Some (At ind)))"

section \<open>Map\<close>

text \<open>
  \<^verbatim>\<open>m_load_factor\<close> is only compared with a quotient of integers; \<open>p_load_threshold\<close> is the least
  integer that is not below it, for quotients that a \<^verbatim>\<open>float\<close> holds exactly.
\<close>

record ('k, 'v) Map =
  p_buckets :: "('k, 'v) Bucket list"
  p_bucket_count :: int
  p_bucket_len :: int
  p_size :: int
  p_load_threshold :: int
  p_bucket_fill :: bool

fun alloc_buckets :: "'k \<Rightarrow> 'v \<Rightarrow> int \<Rightarrow> nat \<Rightarrow> ('k, 'v) Bucket list option" where
  "alloc_buckets k0 v0 len 0 = Some []"
| "alloc_buckets k0 v0 len (Suc n) =
     (case Bucket_init k0 v0 len of None \<Rightarrow> None
      | Some b \<Rightarrow> map_option ((#) b) (alloc_buckets k0 v0 len n))"

definition alloc_map :: "'k \<Rightarrow> 'v \<Rightarrow> int \<Rightarrow> int \<Rightarrow> ('k, 'v) Bucket list option" where
  "alloc_map k0 v0 bucount bucklen = alloc_buckets k0 v0 bucklen (nat bucount)"

definition Map_init :: "'k \<Rightarrow> 'v \<Rightarrow> int \<Rightarrow> int \<Rightarrow> ('k, 'v) Map option" where
  "Map_init k0 v0 num_buckets bucket_len =
     map_option (\<lambda>bs. \<lparr>p_buckets = bs, p_bucket_count = num_buckets, p_bucket_len = bucket_len, p_size = 0,
        p_load_threshold = 0, p_bucket_fill = False\<rparr>) (alloc_map k0 v0 num_buckets bucket_len)"

definition Map_clear :: "('k, 'v) Map \<Rightarrow> ('k, 'v) Map" where
  "Map_clear M = M\<lparr>p_buckets := [], p_bucket_count := 0, p_bucket_len := 0, p_size := 0, p_load_threshold := 0\<rparr>"

definition Map_bucket :: "('k \<Rightarrow> nat) \<Rightarrow> 'k \<Rightarrow> ('k, 'v) Map \<Rightarrow> nat option" where
  "Map_bucket hash key M =
     (let i = hash key mod nat (p_bucket_count M) in if p_bucket_count M = 0 \<or> i \<ge> length (p_buckets M) then None else Some i)"

text \<open>The two insertions differ in the call on the bucket.\<close>

definition insert_with :: "('k \<Rightarrow> nat) \<Rightarrow> ('k \<Rightarrow> 'v \<Rightarrow> ('k, 'v) Bucket \<Rightarrow> (('k, 'v) Bucket \<times> node_ref \<times> bool) option) \<Rightarrow>
    'k \<Rightarrow> 'v \<Rightarrow> ('k, 'v) Map \<Rightarrow> (('k, 'v) Map \<times> node_ref \<times> bool) option" where
  "insert_with hash ins key v M =
     (if p_bucket_count M * p_bucket_len M = 0 then Some (M, EndNode, False)
      else (case Map_bucket hash key M of
              None \<Rightarrow> None
            | Some i \<Rightarrow>
                (case ins key v (p_buckets M ! i) of
                   None \<Rightarrow> None
                 | Some (b, r, ok) \<Rightarrow>
                     let M = M\<lparr>p_buckets := (p_buckets M)[i := b]\<rparr>
                     in Some (if ok then M\<lparr>p_size := p_size M + 1, p_bucket_fill := (p_bucket_fill M \<or> k_size b = k_capacity b)\<rparr>
                              else M, r, ok))))"

definition Map_insert :: "('k \<Rightarrow> nat) \<Rightarrow> 'k \<Rightarrow> 'v \<Rightarrow> ('k, 'v) Map \<Rightarrow> (('k, 'v) Map \<times> node_ref \<times> bool) option" where
  "Map_insert hash = insert_with hash insert_no_update"

definition Map_insert_or_assign :: "('k \<Rightarrow> nat) \<Rightarrow> 'k \<Rightarrow> 'v \<Rightarrow> ('k, 'v) Map \<Rightarrow> (('k, 'v) Map \<times> node_ref \<times> bool) option" where
  "Map_insert_or_assign hash = insert_with hash insert_update"

definition Map_erase :: "('k \<Rightarrow> nat) \<Rightarrow> 'k \<Rightarrow> ('k, 'v) Map \<Rightarrow> (('k, 'v) Map \<times> bool) option" where
  "Map_erase hash key M =
     (case Map_bucket hash key M of
        None \<Rightarrow> None
      | Some i \<Rightarrow>
          (case Bucket_remove key (p_buckets M ! i) of
             None \<Rightarrow> None
           | Some (b, ok) \<Rightarrow>
               let M = M\<lparr>p_buckets := (p_buckets M)[i := b]\<rparr> in Some (if ok then M\<lparr>p_size := p_size M - 1\<rparr> else M, ok)))"

text \<open>\<^verbatim>\<open>find\<close> with the pair that the returned reference shows; the end node shows no pair of the map.\<close>

definition Map_find :: "('k \<Rightarrow> nat) \<Rightarrow> 'k \<Rightarrow> ('k, 'v) Map \<Rightarrow> ('k \<times> 'v) option option" where
  "Map_find hash key M =
     (case Map_bucket hash key M of
        None \<Rightarrow> None
      | Some i \<Rightarrow>
          (case Bucket_find key (p_buckets M ! i) of
             None \<Rightarrow> None
           | Some EndNode \<Rightarrow> Some None
           | Some (At j) \<Rightarrow> map_option (\<lambda>n. Some (n_key n, n_value n)) (node_at (k_list (p_buckets M ! i)) j)))"

definition check_rehash :: "('k, 'v) Map \<Rightarrow> bool option" where
  "check_rehash M =
     (if p_bucket_count M = 0 then None
      else Some (p_size M div p_bucket_count M \<ge> p_load_threshold M \<or> p_bucket_fill M))"

text \<open>\<^verbatim>\<open>rehash\<close>: the pairs of every chain are inserted in the new buckets.\<close>

fun move_chain :: "nat \<Rightarrow> ('k \<Rightarrow> nat) \<Rightarrow> nat \<Rightarrow> ('k, 'v) node list \<Rightarrow> int \<Rightarrow> ('k, 'v) Bucket list \<Rightarrow> ('k, 'v) Bucket list option" where
  "move_chain fuel hash newlen ns ind bs =
     (if ind = -1 then Some bs
      else case fuel of 0 \<Rightarrow> None
        | Suc fuel \<Rightarrow>
          (case node_at ns ind of
             None \<Rightarrow> None
           | Some n \<Rightarrow>
               let i = hash (n_key n) mod newlen in
               (case insert_no_update (n_key n) (n_value n) (bs ! i) of
                  None \<Rightarrow> None
                | Some (b, r, ok) \<Rightarrow> move_chain fuel hash newlen ns (n_next n) (bs[i := b]))))"

declare move_chain.simps [simp del]

fun move_buckets :: "('k \<Rightarrow> nat) \<Rightarrow> nat \<Rightarrow> ('k, 'v) Bucket list \<Rightarrow> ('k, 'v) Bucket list \<Rightarrow> ('k, 'v) Bucket list option" where
  "move_buckets hash newlen [] bs = Some bs"
| "move_buckets hash newlen (b # old) bs =
     Option.bind (move_chain (length (k_list b)) hash newlen (k_list b) (k_head b) bs) (move_buckets hash newlen old)"

text \<open>The number of new buckets, as long as the product is an \<^verbatim>\<open>IndexType\<close> (below \<open>2 ^ 31\<close> by default); \<open>None\<close> is a failed assertion.\<close>

definition rehash_len :: "int \<Rightarrow> int \<Rightarrow> int \<Rightarrow> int option" where
  "rehash_len buckets factor count =
     (if buckets \<noteq> -1 \<and> buckets > count then Some buckets
      else if factor \<noteq> -1 \<and> factor > 1 then Some (factor * count)
      else if factor = -1 \<and> buckets = -1 then Some (2 * count) else None)"

definition Map_rehash :: "'k \<Rightarrow> 'v \<Rightarrow> ('k \<Rightarrow> nat) \<Rightarrow> int \<Rightarrow> int \<Rightarrow> ('k, 'v) Map \<Rightarrow> (('k, 'v) Map \<times> bool) option" where
  "Map_rehash k0 v0 hash buckets factor M =
     Option.bind (rehash_len buckets factor (p_bucket_count M)) (\<lambda>newlen.
     Option.bind (alloc_map k0 v0 newlen (p_bucket_len M)) (\<lambda>new_list.
     Option.bind (move_buckets hash (nat newlen) (p_buckets M) new_list) (\<lambda>bs.
     let M = M\<lparr>p_buckets := bs, p_bucket_count := newlen, p_bucket_fill := list_ex (\<lambda>b. k_size b = k_capacity b) bs\<rparr>
     in map_option (Pair M) (check_rehash M))))"

text \<open>The move assignment; the flag for full buckets is not taken over.\<close>

definition Map_move_assign :: "('k, 'v) Map \<Rightarrow> ('k, 'v) Map \<Rightarrow> ('k, 'v) Map \<times> ('k, 'v) Map" where
  "Map_move_assign other M = (other\<lparr>p_bucket_fill := p_bucket_fill M\<rparr>, Map_clear other)"

definition Map_move_construct :: "('k, 'v) Map \<Rightarrow> ('k, 'v) Map \<times> ('k, 'v) Map" where
  "Map_move_construct other =
     Map_move_assign other \<lparr>p_buckets = [], p_bucket_count = 0, p_bucket_len = 0, p_size = 0, p_load_threshold = 0, p_bucket_fill = False\<rparr>"

text \<open>\<^verbatim>\<open>operator[]\<close>: the value that \<^verbatim>\<open>find\<close> shows; \<open>zero\<close> is the value of the end node, \<^verbatim>\<open>T{0}\<close>.\<close>

definition Map_at :: "'v \<Rightarrow> ('k \<Rightarrow> nat) \<Rightarrow> ('k, 'v) Map \<Rightarrow> 'k \<Rightarrow> 'v option" where
  "Map_at zero hash M key = map_option (\<lambda>r. case r of None \<Rightarrow> zero | Some p \<Rightarrow> snd p) (Map_find hash key M)"

section \<open>Chains\<close>

text \<open>The indices on the linked list that starts at \<open>i\<close>, and the pairs they hold.\<close>

fun chain :: "('k, 'v) node list \<Rightarrow> int \<Rightarrow> nat list \<Rightarrow> bool" where
  "chain ns i [] \<longleftrightarrow> i = -1"
| "chain ns i (j # js) \<longleftrightarrow> i = int j \<and> j < length ns \<and> chain ns (n_next (ns ! j)) js"

definition pairs :: "('k, 'v) node list \<Rightarrow> nat list \<Rightarrow> ('k \<times> 'v) list" where
  "pairs ns us = map (\<lambda>j. (n_key (ns ! j), n_value (ns ! j))) us"

definition bucket_rep :: "nat list \<Rightarrow> nat list \<Rightarrow> ('k, 'v) Bucket \<Rightarrow> bool" where
  "bucket_rep us fs b \<longleftrightarrow> chain (k_list b) (k_head b) us \<and> chain (k_list b) (k_free b) fs \<and> distinct (us @ fs) \<and>
     length us + length fs = length (k_list b) \<and> k_capacity b = int (length (k_list b)) \<and> k_size b = int (length us)"

definition holds_pairs :: "('k \<times> 'v) list \<Rightarrow> ('k, 'v) Bucket \<Rightarrow> bool" where
  "holds_pairs ps b \<longleftrightarrow> (\<exists>us fs. bucket_rep us fs b \<and> ps = pairs (k_list b) us)"

lemma node_at_nat [simp]: "j < length ns \<Longrightarrow> node_at ns (int j) = Some (ns ! j)"
  by (simp add: node_at_def)

lemma set_node_nat [simp]: "set_node (int j) n ns = ns[j := n]"
  by (simp add: set_node_def)

lemma chain_head: "chain ns i us \<Longrightarrow> i = -1 \<longleftrightarrow> us = []"
  by (cases us) auto

lemma chain_less: "chain ns i us \<Longrightarrow> j \<in> set us \<Longrightarrow> j < length ns"
  by (induction us arbitrary: i) auto

lemma chain_cong:
  "chain ns i us \<Longrightarrow> length ns' = length ns \<Longrightarrow> (\<And>j. j \<in> set us \<Longrightarrow> n_next (ns' ! j) = n_next (ns ! j)) \<Longrightarrow> chain ns' i us"
  by (induction us arbitrary: i) auto

lemma chain_split: "chain ns i (xs @ j # ys) \<Longrightarrow> j < length ns \<and> chain ns (n_next (ns ! j)) ys \<and> (xs = [] \<longrightarrow> i = int j)"
  by (induction xs arbitrary: i) auto

lemma chain_snoc:
  assumes "chain ns i us" and "us \<noteq> []" and "length ns' = length ns" and "f < length ns"
    and "\<And>j. j \<in> set (butlast us) \<Longrightarrow> n_next (ns' ! j) = n_next (ns ! j)"
    and "n_next (ns' ! last us) = int f" and "n_next (ns' ! f) = -1"
  shows "chain ns' i (us @ [f])"
  using assms
proof (induction us arbitrary: i)
  case (Cons u us)
  show ?case
  proof (cases "us = []")
    case False
    have "chain ns' (n_next (ns ! u)) (us @ [f])"
      by (rule Cons.IH) (use Cons.prems False in auto)
    then show ?thesis using Cons.prems False by auto
  qed (use Cons.prems in auto)
qed simp

lemma chain_remove:
  assumes "chain ns i (xs @ j # ys)" and "xs \<noteq> []" and "length ns' = length ns"
    and "\<And>k. k \<in> set (butlast xs) \<union> set ys \<Longrightarrow> n_next (ns' ! k) = n_next (ns ! k)"
    and "n_next (ns' ! last xs) = n_next (ns ! j)"
  shows "chain ns' i (xs @ ys)"
  using assms
proof (induction xs arbitrary: i)
  case (Cons x xs)
  show ?case
  proof (cases "xs = []")
    case True
    have "chain ns (n_next (ns ! j)) ys" using Cons.prems(1) True by auto
    then have "chain ns' (n_next (ns ! j)) ys" by (rule chain_cong) (use Cons.prems in auto)
    then show ?thesis using Cons.prems True by auto
  next
    case False
    have "chain ns' (n_next (ns ! x)) (xs @ ys)"
      by (rule Cons.IH) (use Cons.prems False in auto)
    then show ?thesis using Cons.prems False by auto
  qed
qed simp

lemma walk_chain:
  assumes "chain ns i us" and "us \<noteq> []" and "length us \<le> fuel"
  shows "(\<exists>xs j ys. us = xs @ j # ys \<and> ys \<noteq> [] \<and> n_key (ns ! j) = key \<and> (\<forall>x\<in>set xs. n_key (ns ! x) \<noteq> key) \<and>
      walk fuel ns key i = Some (True, int j)) \<or>
    ((\<forall>x\<in>set (butlast us). n_key (ns ! x) \<noteq> key) \<and> walk fuel ns key i = Some (False, int (last us)))"
  using assms
proof (induction us arbitrary: i fuel)
  case (Cons u us)
  then obtain f where fuel: "fuel = Suc f" by (cases fuel) auto
  have u: "i = int u" "u < length ns" "chain ns (n_next (ns ! u)) us" using Cons.prems(1) by auto
  consider "us = []" | "us \<noteq> []" "n_key (ns ! u) = key" | "us \<noteq> []" "n_key (ns ! u) \<noteq> key" by blast
  then show ?case
  proof cases
    case 1
    then show ?thesis using u fuel by simp
  next
    case 2
    then have "walk fuel ns key i = Some (True, int u)" using u fuel chain_head [OF u(3)] by simp
    then show ?thesis using 2 by (intro disjI1 exI [of _ "[]"] exI [of _ u] exI [of _ us]) simp
  next
    case 3
    then have w: "walk fuel ns key i = walk f ns key (n_next (ns ! u))" using u fuel chain_head [OF u(3)] by simp
    from Cons.IH [OF u(3) 3(1), of f] Cons.prems(3) fuel consider
      xs j ys where "us = xs @ j # ys" "ys \<noteq> []" "n_key (ns ! j) = key" "\<forall>x\<in>set xs. n_key (ns ! x) \<noteq> key"
        "walk f ns key (n_next (ns ! u)) = Some (True, int j)"
      | "\<forall>x\<in>set (butlast us). n_key (ns ! x) \<noteq> key" "walk f ns key (n_next (ns ! u)) = Some (False, int (last us))" by auto
    then show ?thesis
    proof cases
      case 1
      then show ?thesis using 3 w by (intro disjI1 exI [of _ "u # xs"] exI [of _ j] exI [of _ ys]) simp
    next
      case 2
      then show ?thesis using 3 w by simp
    qed
  qed
qed simp

lemma locate_chain:
  assumes "chain ns i us" and "us \<noteq> []" and "length us \<le> fuel"
  shows "(\<exists>xs j ys. us = xs @ j # ys \<and> n_key (ns ! j) = key \<and> (\<forall>x\<in>set xs. n_key (ns ! x) \<noteq> key) \<and>
      locate fuel ns key prev i = Some (Some (if xs = [] then prev else int (last xs), int j))) \<or>
    ((\<forall>x\<in>set us. n_key (ns ! x) \<noteq> key) \<and> locate fuel ns key prev i = Some None)"
  using assms
proof (induction us arbitrary: i fuel prev)
  case (Cons u us)
  then obtain f where fuel: "fuel = Suc f" by (cases fuel) auto
  have u: "i = int u" "u < length ns" "chain ns (n_next (ns ! u)) us" using Cons.prems(1) by auto
  consider "n_key (ns ! u) = key" | "n_key (ns ! u) \<noteq> key" "us = []" | "n_key (ns ! u) \<noteq> key" "us \<noteq> []" by blast
  then show ?case
  proof cases
    case 1
    then show ?thesis using u fuel by (intro disjI1 exI [of _ "[]"] exI [of _ u] exI [of _ us]) simp
  next
    case 2
    then show ?thesis using u fuel by simp
  next
    case 3
    then have w: "locate fuel ns key prev i = locate f ns key (int u) (n_next (ns ! u))" using u fuel chain_head [OF u(3)] by simp
    from Cons.IH [OF u(3) 3(2), of f "int u"] Cons.prems(3) fuel consider
      xs j ys where "us = xs @ j # ys" "n_key (ns ! j) = key" "\<forall>x\<in>set xs. n_key (ns ! x) \<noteq> key"
        "locate f ns key (int u) (n_next (ns ! u)) = Some (Some (if xs = [] then int u else int (last xs), int j))"
      | "\<forall>x\<in>set us. n_key (ns ! x) \<noteq> key" "locate f ns key (int u) (n_next (ns ! u)) = Some None" by auto
    then show ?thesis
    proof cases
      case 1
      then show ?thesis using 3 w by (intro disjI1 exI [of _ "u # xs"] exI [of _ j] exI [of _ ys]) simp
    next
      case 2
      then show ?thesis using 3 w by simp
    qed
  qed
qed simp

section \<open>Buckets hold lists of pairs\<close>

lemma bucket_repD:
  assumes "bucket_rep us fs b"
  shows "chain (k_list b) (k_head b) us" and "chain (k_list b) (k_free b) fs" and "distinct (us @ fs)"
    and "k_head b = -1 \<longleftrightarrow> us = []" and "k_free b = -1 \<longleftrightarrow> fs = []" and "length us \<le> length (k_list b)"
    and "length us + length fs = length (k_list b)" and "k_capacity b = int (length (k_list b))" and "k_size b = int (length us)"
  using assms chain_head by (auto simp: bucket_rep_def)

lemma pairs_cong: "(\<And>j. j \<in> set us \<Longrightarrow> n_key (ns' ! j) = n_key (ns ! j) \<and> n_value (ns' ! j) = n_value (ns ! j)) \<Longrightarrow> pairs ns' us = pairs ns us"
  by (simp add: pairs_def)

lemma pairs_append [simp]: "pairs ns (us @ vs) = pairs ns us @ pairs ns vs" "pairs ns [] = []"
  "pairs ns (u # us) = (n_key (ns ! u), n_value (ns ! u)) # pairs ns us" "length (pairs ns us) = length us"
  "pairs ns us = [] \<longleftrightarrow> us = []"
  by (simp_all add: pairs_def)

lemma key_in_pairs: "key \<in> fst ` set (pairs ns us) \<longleftrightarrow> (\<exists>x\<in>set us. n_key (ns ! x) = key)"
  by (force simp: pairs_def)

lemma butlast_pairs: "butlast (pairs ns us) = pairs ns (butlast us)"
  by (simp add: pairs_def map_butlast)

lemma add_first_ok:
  assumes "bucket_rep [] (f # fs) b"
  shows "\<exists>b'. add_first key v b = Some (b', At (int f), True) \<and> bucket_rep [f] fs b' \<and> pairs (k_list b') [f] = [(key, v)] \<and>
    k_capacity b' = k_capacity b"
proof -
  note D = bucket_repD [OF assms]
  have f: "k_free b = int f" "f < length (k_list b)" "chain (k_list b) (n_next (k_list b ! f)) fs" using D(2) by auto
  let ?ns = "(k_list b)[f := \<lparr>n_next = -1, n_key = key, n_value = v\<rparr>]"
  have "chain ?ns (n_next (k_list b ! f)) fs" using f(3) by (rule chain_cong) (use D(3) in \<open>auto, metis nth_list_update_neq\<close>)
  then show ?thesis using f D(3,7,8,9) by (auto simp: add_first_def bucket_rep_def)
qed

lemma add_behind_ok:
  assumes "bucket_rep us (f # fs) b" and "us \<noteq> []"
  shows "\<exists>b'. add_behind key v (int (last us)) b = Some (b', At (int f), True) \<and> bucket_rep (us @ [f]) fs b' \<and>
    pairs (k_list b') (us @ [f]) = pairs (k_list b) us @ [(key, v)] \<and> k_capacity b' = k_capacity b"
proof -
  note D = bucket_repD [OF assms(1)]
  let ?l = "last us"
  have f: "k_free b = int f" "f < length (k_list b)" "chain (k_list b) (n_next (k_list b ! f)) fs" using D(2) by auto
  have l: "?l < length (k_list b)" "?l \<noteq> f" "?l \<in> set us" using chain_less [OF D(1)] assms(2) D(3) by auto
  define ns where "ns = (k_list b)[?l := (k_list b ! ?l)\<lparr>n_next := int f\<rparr>, f := \<lparr>n_next = -1, n_key = key, n_value = v\<rparr>]"
  have [simp]: "length ns = length (k_list b)" by (simp add: ns_def)
  have at: "ns ! j = (if j = f then \<lparr>n_next = -1, n_key = key, n_value = v\<rparr> else if j = ?l then (k_list b ! ?l)\<lparr>n_next := int f\<rparr> else k_list b ! j)"
    if "j < length (k_list b)" for j using that l by (simp add: ns_def nth_list_update)
  have fs: "chain ns (n_next (k_list b ! f)) fs"
    by (rule chain_cong [OF f(3)]) (use D(3) l(3) at chain_less [OF f(3)] in auto)
  have "?l \<notin> set (butlast us)" using D(3) assms(2) by (metis append_butlast_last_id distinct_append not_distinct_conv_prefix)
  then have us: "chain ns (k_head b) (us @ [f])"
    using D(3) l f(2) at chain_less [OF D(1)] in_set_butlastD [of _ us]
    by (intro chain_snoc [OF D(1) assms(2)]) auto
  have "pairs ns us = pairs (k_list b) us"
    by (rule pairs_cong) (use D(3) at chain_less [OF D(1)] in auto)
  moreover have "(k_list b)[?l := (k_list b ! ?l)\<lparr>n_next := int f\<rparr>] ! f = k_list b ! f" using l(2) by simp
  ultimately show ?thesis
    using f l us fs D(3,7,8,9) at [OF f(2)] by (auto simp: add_behind_def bucket_rep_def Let_def ns_def [symmetric])
qed

lemma set_value_ok:
  assumes "bucket_rep (xs @ j # ys) fs b"
  shows "\<exists>b'. set_value v (int j) b = Some (b', At (int j), False) \<and> bucket_rep (xs @ j # ys) fs b' \<and>
    pairs (k_list b') (xs @ j # ys) = pairs (k_list b) xs @ (n_key (k_list b ! j), v) # pairs (k_list b) ys \<and> k_capacity b' = k_capacity b"
proof -
  note D = bucket_repD [OF assms]
  have j: "j < length (k_list b)" using chain_less [OF D(1)] by simp
  define ns where "ns = (k_list b)[j := (k_list b ! j)\<lparr>n_value := v\<rparr>]"
  have len: "length ns = length (k_list b)" by (simp add: ns_def)
  have at: "ns ! k = (if k = j then (k_list b ! j)\<lparr>n_value := v\<rparr> else k_list b ! k)" if "k < length (k_list b)" for k
    using that j by (simp add: ns_def nth_list_update)
  have "chain ns (k_head b) (xs @ j # ys)" by (rule chain_cong [OF D(1)]) (use at len chain_less [OF D(1)] in auto)
  moreover have "chain ns (k_free b) fs" by (rule chain_cong [OF D(2)]) (use at len chain_less [OF D(2)] in auto)
  moreover have "pairs ns xs = pairs (k_list b) xs" "pairs ns ys = pairs (k_list b) ys"
    by (rule pairs_cong; use D(3) at chain_less [OF D(1)] in force)+
  ultimately show ?thesis using j D(3,7,8,9) at [OF j] len by (auto simp: set_value_def bucket_rep_def ns_def [symmetric])
qed

lemma unlink_ok:
  assumes "bucket_rep (xs @ j # ys) fs b"
  shows "\<exists>b'. unlink (if xs = [] then -1 else int (last xs)) (int j) b = Some b' \<and> bucket_rep (xs @ ys) (j # fs) b' \<and>
    pairs (k_list b') (xs @ ys) = pairs (k_list b) xs @ pairs (k_list b) ys \<and> k_capacity b' = k_capacity b"
proof -
  note D = bucket_repD [OF assms]
  let ?ns = "k_list b" and ?l = "last xs"
  have less: "k \<in> set (xs @ j # ys) \<Longrightarrow> k < length ?ns" "k \<in> set fs \<Longrightarrow> k < length ?ns" for k
    using chain_less [OF D(1)] chain_less [OF D(2)] by auto
  have j: "j < length ?ns" "chain ?ns (n_next (?ns ! j)) ys" "xs = [] \<Longrightarrow> k_head b = int j" using chain_split [OF D(1)] by auto
  have head: "k_head b = int j \<longleftrightarrow> xs = []" using j(3) D(1,3) by (cases xs) auto
  define ns where "ns = (if xs = [] then ?ns else ?ns[?l := (?ns ! ?l)\<lparr>n_next := n_next (?ns ! j)\<rparr>])[j := (?ns ! j)\<lparr>n_next := k_free b\<rparr>]"
  have len: "length ns = length ?ns" by (simp add: ns_def)
  have at: "ns ! k = (if k = j then (?ns ! j)\<lparr>n_next := k_free b\<rparr> else if xs \<noteq> [] \<and> k = ?l then (?ns ! ?l)\<lparr>n_next := n_next (?ns ! j)\<rparr> else ?ns ! k)"
    if "k < length ?ns" for k using that j(1) by (auto simp: ns_def nth_list_update)
  have l: "xs \<noteq> [] \<Longrightarrow> ?l \<in> set xs \<and> ?l \<noteq> j \<and> ?l < length ?ns \<and> ?l \<notin> set (butlast xs)"
    using D(3) less(1) by (cases xs rule: rev_cases) auto
  have "chain ns (k_free b) fs"
  proof (rule chain_cong [OF D(2) len])
    fix k assume k: "k \<in> set fs"
    have "set xs \<inter> set fs = {}" "j \<notin> set fs" using D(3) by auto
    then have "k \<noteq> j" "xs \<noteq> [] \<Longrightarrow> k \<noteq> ?l" using k last_in_set [of xs] by blast+
    then show "n_next (ns ! k) = n_next (?ns ! k)" using at [OF less(2) [OF k]] by auto
  qed
  then have fs: "chain ns (int j) (j # fs)" using at [OF j(1)] j(1) len by simp
  have us: "chain ns (if xs = [] then n_next (?ns ! j) else k_head b) (xs @ ys)"
  proof (cases "xs = []")
    case True
    have "chain ns (n_next (?ns ! j)) ys"
      by (rule chain_cong [OF j(2) len]) (use at less(1) D(3) True in auto)
    then show ?thesis using True by simp
  next
    case False
    have "chain ns (k_head b) (xs @ ys)"
      by (rule chain_remove [OF D(1) False]) (use at less(1) D(3) l [OF False] in_set_butlastD [of _ xs] len in auto)
    then show ?thesis using False by simp
  qed
  have "pairs ns (xs @ ys) = pairs ?ns (xs @ ys)" by (rule pairs_cong) (use at less(1) in auto)
  moreover have "unlink (if xs = [] then -1 else int ?l) (int j) b =
      Some (b\<lparr>k_head := (if xs = [] then n_next (?ns ! j) else k_head b), k_list := ns, k_free := int j, k_size := k_size b - 1\<rparr>)"
    using j(1) l head by (auto simp: unlink_def ns_def)
  ultimately show ?thesis using us fs D(3,7,8,9) len by (auto simp: bucket_rep_def)
qed

text \<open>The first pair with a key replaced, or dropped.\<close>

fun put_first :: "'k \<Rightarrow> 'v \<Rightarrow> ('k \<times> 'v) list \<Rightarrow> ('k \<times> 'v) list" where
  "put_first k v [] = []"
| "put_first k v (p # ps) = (if fst p = k then (k, v) # ps else p # put_first k v ps)"

fun drop_first :: "'k \<Rightarrow> ('k \<times> 'v) list \<Rightarrow> ('k \<times> 'v) list" where
  "drop_first k [] = []"
| "drop_first k (p # ps) = (if fst p = k then ps else p # drop_first k ps)"

lemma first_split:
  assumes "k \<notin> fst ` set xs"
  shows "put_first k v (xs @ (k, w) # ys) = xs @ (k, v) # ys" and "drop_first k (xs @ (k, w) # ys) = xs @ ys"
    and "map_of (xs @ (k, w) # ys) k = Some w"
  using assms by (induction xs) auto

lemma chain_fresh:
  assumes "\<And>j. j < n \<Longrightarrow> n_next (ns ! j) = (if j = n - 1 then -1 else int j + 1)" and "length ns = n" and "i < n"
  shows "chain ns (int i) [i..<n]"
  using assms(3)
proof (induction "n - i" arbitrary: i)
  case (Suc m)
  show ?case
  proof (cases "Suc i < n")
    case True
    then have "chain ns (int (Suc i)) [Suc i..<n]" using Suc by (intro Suc.hyps(1)) auto
    then show ?thesis using Suc.prems assms(1) [of i] assms(2) True by (simp add: upt_conv_Cons [of i n] add.commute)
  next
    case False
    then have "[i..<n] = [i]" "i = n - 1" using Suc.prems by (auto simp: upt_conv_Cons)
    then show ?thesis using Suc.prems assms(1) [of i] assms(2) by simp
  qed
qed simp

lemma Bucket_init_ok:
  assumes "0 < len"
  shows "\<exists>b. Bucket_init k0 v0 len = Some b \<and> holds_pairs [] b \<and> k_capacity b = len"
proof -
  let ?ns = "map (\<lambda>i. \<lparr>n_next = (if i = nat len - 1 then -1 else int i + 1), n_key = k0, n_value = v0\<rparr>) [0..<nat len]"
  have "chain ?ns (int 0) [0..<nat len]" by (rule chain_fresh) (use assms in auto)
  then have "bucket_rep [] [0..<nat len] \<lparr>k_list = ?ns, k_head = -1, k_free = 0, k_capacity = len, k_size = 0\<rparr>"
    using assms by (simp add: bucket_rep_def)
  then have "holds_pairs [] \<lparr>k_list = ?ns, k_head = -1, k_free = 0, k_capacity = len, k_size = 0\<rparr>"
    unfolding holds_pairs_def by (intro exI [of _ "[]"] exI [of _ "[0..<nat len]"]) simp
  then show ?thesis using assms by (simp add: Bucket_init_def)
qed

lemma holds_pairsE:
  assumes "holds_pairs ps b"
  obtains us fs where "bucket_rep us fs b" and "ps = pairs (k_list b) us" and "length us = length ps"
    and "k_head b = -1 \<longleftrightarrow> ps = []" and "k_free b = -1 \<longleftrightarrow> int (length ps) = k_capacity b" and "fs = [] \<longleftrightarrow> int (length ps) = k_capacity b"
    and "length us \<le> length (k_list b)"
proof -
  from assms obtain us fs where r: "bucket_rep us fs b" "ps = pairs (k_list b) us" by (auto simp: holds_pairs_def)
  show ?thesis by (rule that [OF r]) (use bucket_repD [OF r(1)] r(2) in auto)
qed

lemma holds_pairs_size: "holds_pairs ps b \<Longrightarrow> k_size b = int (length ps) \<and> int (length ps) \<le> k_capacity b"
  by (auto simp: holds_pairs_def bucket_rep_def)

lemma append_ok:
  assumes "bucket_rep us fs b" and "ps = pairs (k_list b) us" and "fs \<noteq> []"
  shows "\<exists>b' r. (if us = [] then add_first key v b else add_behind key v (int (last us)) b) = Some (b', r, True) \<and>
    holds_pairs (ps @ [(key, v)]) b' \<and> k_capacity b' = k_capacity b"
proof -
  obtain f fs' where fs: "fs = f # fs'" using assms(3) by (cases fs) auto
  show ?thesis
  proof (cases "us = []")
    case True
    then show ?thesis using add_first_ok [of f fs' b key v] assms fs by (fastforce simp: holds_pairs_def)
  next
    case False
    then show ?thesis using add_behind_ok [of us f fs' b key v] assms fs unfolding holds_pairs_def by metis
  qed
qed

lemma insert_no_update_spec:
  assumes "holds_pairs ps b"
  shows "if int (length ps) = k_capacity b then insert_no_update key v b = Some (b, EndNode, False)
    else if key \<in> fst ` set (butlast ps) then \<exists>j. insert_no_update key v b = Some (b, At j, False)
    else \<exists>b' r. insert_no_update key v b = Some (b', r, True) \<and> holds_pairs (ps @ [(key, v)]) b' \<and> k_capacity b' = k_capacity b"
proof -
  from assms obtain us fs where r: "bucket_rep us fs b" "ps = pairs (k_list b) us" "length us = length ps"
    "k_head b = -1 \<longleftrightarrow> ps = []" "k_free b = -1 \<longleftrightarrow> int (length ps) = k_capacity b" "fs = [] \<longleftrightarrow> int (length ps) = k_capacity b"
    "length us \<le> length (k_list b)" by (rule holds_pairsE)
  have us: "us = [] \<longleftrightarrow> ps = []" using r(3) by auto
  show ?thesis
  proof (cases "int (length ps) = k_capacity b")
    case False
    note app = append_ok [OF r(1,2), of key v]
    show ?thesis
    proof (cases "us = []")
      case True
      then show ?thesis using app False r(4,5,6) us by (simp add: insert_no_update_def)
    next
      case ne: False
      note w = walk_chain [OF bucket_repD(1) [OF r(1)] ne r(7), of key]
      show ?thesis
      proof (cases "key \<in> fst ` set (butlast ps)")
        case True
        then have "\<not> (\<forall>x\<in>set (butlast us). n_key (k_list b ! x) \<noteq> key)" by (simp add: r(2) butlast_pairs key_in_pairs)
        then show ?thesis using w True False ne r(4,5) us by (auto simp: insert_no_update_def)
      next
        case absent: False
        then have "\<forall>x\<in>set (butlast us). n_key (k_list b ! x) \<noteq> key" by (simp add: r(2) butlast_pairs key_in_pairs)
        then have "walk (length (k_list b)) (k_list b) key (k_head b) = Some (False, int (last us))"
          using w by (auto simp: butlast_append)
        then show ?thesis using app absent False ne r(4,5,6) us by (simp add: insert_no_update_def)
      qed
    qed
  qed (simp add: insert_no_update_def r(5))
qed

lemma insert_update_spec:
  assumes "holds_pairs ps b" and "0 < k_capacity b"
  shows "if key \<in> fst ` set ps then \<exists>b' r. insert_update key v b = Some (b', r, False) \<and> holds_pairs (put_first key v ps) b' \<and> k_capacity b' = k_capacity b
    else if int (length ps) = k_capacity b then insert_update key v b = Some (b, EndNode, False)
    else \<exists>b' r. insert_update key v b = Some (b', r, True) \<and> holds_pairs (ps @ [(key, v)]) b' \<and> k_capacity b' = k_capacity b"
proof -
  from assms(1) obtain us fs where r: "bucket_rep us fs b" "ps = pairs (k_list b) us" "length us = length ps"
    "k_head b = -1 \<longleftrightarrow> ps = []" "k_free b = -1 \<longleftrightarrow> int (length ps) = k_capacity b" "fs = [] \<longleftrightarrow> int (length ps) = k_capacity b"
    "length us \<le> length (k_list b)" by (rule holds_pairsE)
  have us: "us = [] \<longleftrightarrow> ps = []" using r(3) by auto
  note app = append_ok [OF r(1,2), of key v]
  show ?thesis
  proof (cases "us = []")
    case True
    then show ?thesis using app r(4,6) us assms(2) by (simp add: insert_update_def)
  next
    case ne: False
    have set: "\<exists>b' r. set_value v (int j) b = Some (b', r, False) \<and> holds_pairs (put_first key v ps) b' \<and> k_capacity b' = k_capacity b"
      if "us = xs @ j # ys" "n_key (k_list b ! j) = key" "\<forall>x\<in>set xs. n_key (k_list b ! x) \<noteq> key" for xs j ys
    proof -
      have "put_first key v ps = pairs (k_list b) xs @ (n_key (k_list b ! j), v) # pairs (k_list b) ys"
        using that first_split(1) [of key "pairs (k_list b) xs" v] by (simp add: r(2) key_in_pairs)
      then show ?thesis using set_value_ok [of xs j ys fs b v] r(1) that(1) unfolding holds_pairs_def by metis
    qed
    have in_ps: "key \<in> fst ` set ps" if "j \<in> set us" "n_key (k_list b ! j) = key" for j
      using that by (auto simp: r(2) key_in_pairs)
    let ?l = "last us"
    have l: "?l < length (k_list b)" using chain_less [OF bucket_repD(1) [OF r(1)], of ?l] ne by simp
    have snoc: "us = butlast us @ ?l # []" using ne by simp
    have all: "key \<in> fst ` set ps \<longleftrightarrow> key = n_key (k_list b ! ?l)" if "\<forall>x\<in>set (butlast us). n_key (k_list b ! x) \<noteq> key"
      using that unfolding r(2) key_in_pairs by (subst snoc) auto
    from walk_chain [OF bucket_repD(1) [OF r(1)] ne r(7), of key] show ?thesis
    proof (elim disjE exE conjE)
      fix xs j ys
      assume "us = xs @ j # ys" "n_key (k_list b ! j) = key" "\<forall>x\<in>set xs. n_key (k_list b ! x) \<noteq> key"
        and w: "walk (length (k_list b)) (k_list b) key (k_head b) = Some (True, int j)"
      then show ?thesis using set in_ps [of j] ne r(4) us by (auto simp: insert_update_def)
    next
      assume b: "\<forall>x\<in>set (butlast us). n_key (k_list b ! x) \<noteq> key"
        and w: "walk (length (k_list b)) (k_list b) key (k_head b) = Some (False, int ?l)"
      show ?thesis
      proof (cases "n_key (k_list b ! ?l) = key")
        case True
        then show ?thesis using set [OF snoc True b] all [OF b] w ne r(4) us l by (simp add: insert_update_def)
      next
        case False
        then show ?thesis using app all [OF b] w ne r(4,5,6) us l by (auto simp: insert_update_def)
      qed
    qed
  qed
qed

lemma remove_find_spec:
  assumes "holds_pairs ps b"
  shows "if key \<in> fst ` set ps then \<exists>b'. Bucket_remove key b = Some (b', True) \<and> holds_pairs (drop_first key ps) b' \<and> k_capacity b' = k_capacity b
    else Bucket_remove key b = Some (b, False)" (is ?rem)
    and "case map_of ps key of None \<Rightarrow> Bucket_find key b = Some EndNode
      | Some v \<Rightarrow> \<exists>j n. Bucket_find key b = Some (At j) \<and> node_at (k_list b) j = Some n \<and> n_key n = key \<and> n_value n = v" (is ?fnd)
proof -
  from assms obtain us fs where r: "bucket_rep us fs b" "ps = pairs (k_list b) us" "length us = length ps"
    "k_head b = -1 \<longleftrightarrow> ps = []" "length us \<le> length (k_list b)" by (rule holds_pairsE)
  have us: "us = [] \<longleftrightarrow> ps = []" using r(3) by auto
  have "?rem \<and> ?fnd" if ne: "us \<noteq> []"
    using locate_chain [OF bucket_repD(1) [OF r(1)] ne r(5), of key "-1"]
  proof (elim disjE exE conjE)
    fix xs j ys
    assume s: "us = xs @ j # ys" "n_key (k_list b ! j) = key" "\<forall>x\<in>set xs. n_key (k_list b ! x) \<noteq> key"
      and w: "locate (length (k_list b)) (k_list b) key (-1) (k_head b) = Some (Some (if xs = [] then -1 else int (last xs), int j))"
    have j: "j < length (k_list b)" using chain_less [OF bucket_repD(1) [OF r(1)]] s(1) by simp
    have k: "key \<notin> fst ` set (pairs (k_list b) xs)" using s(3) by (simp add: key_in_pairs)
    have ps: "ps = pairs (k_list b) xs @ (key, n_value (k_list b ! j)) # pairs (k_list b) ys" using s(1,2) by (simp add: r(2))
    obtain b' where "unlink (if xs = [] then -1 else int (last xs)) (int j) b = Some b'" "holds_pairs (drop_first key ps) b'" "k_capacity b' = k_capacity b"
      using unlink_ok [of xs j ys fs b] r(1) s(1) first_split(2) [OF k] ps unfolding holds_pairs_def by metis
    then show ?thesis
      using w ne us r(4) j s(2) first_split(3) [OF k, of "n_value (k_list b ! j)" "pairs (k_list b) ys"] ps
      by (auto simp: Bucket_remove_def Bucket_find_def)
  next
    assume s: "\<forall>x\<in>set us. n_key (k_list b ! x) \<noteq> key" and w: "locate (length (k_list b)) (k_list b) key (-1) (k_head b) = Some None"
    have k: "key \<notin> fst ` set ps" using s by (simp add: r(2) key_in_pairs)
    then have "map_of ps key = None" by (simp add: map_of_eq_None_iff)
    with k show ?thesis using w ne us r(4) by (simp add: Bucket_remove_def Bucket_find_def)
  qed
  moreover have "?rem \<and> ?fnd" if "us = []"
    using that us r(4) by (simp add: Bucket_remove_def Bucket_find_def)
  ultimately show ?rem ?fnd by blast+
qed

section \<open>The contents of a map\<close>

fun chain_pairs :: "nat \<Rightarrow> ('k, 'v) node list \<Rightarrow> int \<Rightarrow> ('k \<times> 'v) list" where
  "chain_pairs 0 ns ind = []"
| "chain_pairs (Suc fuel) ns ind =
     (case node_at ns ind of None \<Rightarrow> [] | Some n \<Rightarrow> (n_key n, n_value n) # chain_pairs fuel ns (n_next n))"

definition bucket_pairs :: "('k, 'v) Bucket \<Rightarrow> ('k \<times> 'v) list" where
  "bucket_pairs b = chain_pairs (length (k_list b)) (k_list b) (k_head b)"

definition Map_contents :: "('k, 'v) Map \<Rightarrow> ('k \<times> 'v) list" where
  "Map_contents M = concat (map bucket_pairs (p_buckets M))"

lemma chain_pairs_chain: "chain ns i us \<Longrightarrow> length us \<le> fuel \<Longrightarrow> chain_pairs fuel ns i = pairs ns us"
proof (induction us arbitrary: i fuel)
  case Nil
  then show ?case by (cases fuel) (simp_all add: node_at_def)
next
  case (Cons u us)
  then show ?case by (cases fuel) simp_all
qed

lemma bucket_pairs_holds: "holds_pairs ps b \<Longrightarrow> bucket_pairs b = ps"
  by (auto simp: holds_pairs_def bucket_pairs_def bucket_repD(1,6) chain_pairs_chain)

text \<open>
  \<open>bucket_at\<close>: a well-formed bucket of a given capacity whose keys belong to it; \<open>map_rep\<close>: what
  every operation keeps; \<open>keys_once\<close>: what \<open>Map_insert\<close> alone does not keep.
\<close>

definition bucket_at :: "('k \<Rightarrow> nat) \<Rightarrow> int \<Rightarrow> nat \<Rightarrow> nat \<Rightarrow> ('k, 'v) Bucket \<Rightarrow> bool" where
  "bucket_at hash len n i b \<longleftrightarrow> holds_pairs (bucket_pairs b) b \<and> k_capacity b = len \<and>
     (\<forall>k \<in> fst ` set (bucket_pairs b). hash k mod n = i)"

definition map_rep :: "('k \<Rightarrow> nat) \<Rightarrow> ('k, 'v) Map \<Rightarrow> bool" where
  "map_rep hash M \<longleftrightarrow> p_bucket_count M = int (length (p_buckets M)) \<and> 0 < p_bucket_count M \<and> 0 < p_bucket_len M \<and>
     (\<forall>i < length (p_buckets M). bucket_at hash (p_bucket_len M) (length (p_buckets M)) i (p_buckets M ! i)) \<and>
     p_size M = int (length (Map_contents M))"

definition keys_once :: "('k, 'v) Map \<Rightarrow> bool" where
  "keys_once M \<longleftrightarrow> (\<forall>b \<in> set (p_buckets M). distinct (map fst (bucket_pairs b)))"

definition Map_abs :: "('k, 'v) Map \<Rightarrow> 'k \<Rightarrow> 'v option" where
  "Map_abs M = map_of (Map_contents M)"

text \<open>Lists that are separated by a function of their keys.\<close>

lemma map_of_concat:
  assumes "\<And>i p. i < length xss \<Longrightarrow> p \<in> set (xss ! i) \<Longrightarrow> h (fst p) = i" and "h k < length xss"
  shows "map_of (concat xss) k = map_of (xss ! h k) k"
proof -
  let ?i = "h k"
  have absent: "map_of (concat ys) k = None" if "\<And>xs. xs \<in> set ys \<Longrightarrow> k \<notin> fst ` set xs" for ys :: "('a \<times> 'b) list list"
    using that by (induction ys) (auto simp: map_add_None map_of_eq_None_iff)
  have not_in: "k \<notin> fst ` set (xss ! j)" if "j < length xss" "j \<noteq> ?i" for j using assms(1) that by force
  have "map_of (concat (take ?i xss)) k = None"
  proof (rule absent)
    fix xs
    assume "xs \<in> set (take ?i xss)"
    then obtain j where "j < ?i" "xs = xss ! j" by (auto simp: in_set_conv_nth)
    then show "k \<notin> fst ` set xs" using not_in [of j] assms(2) by simp
  qed
  moreover have "map_of (concat (drop (Suc ?i) xss)) k = None"
  proof (rule absent)
    fix xs
    assume "xs \<in> set (drop (Suc ?i) xss)"
    then obtain j where "j < length xss - Suc ?i" "xs = xss ! (Suc ?i + j)" by (auto simp: in_set_conv_nth)
    then show "k \<notin> fst ` set xs" using not_in [of "Suc ?i + j"] by simp
  qed
  moreover have "concat xss = concat (take ?i xss) @ xss ! ?i @ concat (drop (Suc ?i) xss)"
    using id_take_nth_drop [OF assms(2)] by (metis concat.simps(2) concat_append)
  ultimately show ?thesis by (simp add: map_add_def split: option.splits)
qed

lemma distinct_concat_keys:
  assumes "\<And>i p. i < length xss \<Longrightarrow> p \<in> set (xss ! i) \<Longrightarrow> h (fst p) = i + m" and "\<And>xs. xs \<in> set xss \<Longrightarrow> distinct (map fst xs)"
  shows "distinct (map fst (concat xss))"
  using assms
proof (induction xss arbitrary: m)
  case (Cons xs xss)
  have "distinct (map fst (concat xss))"
    by (rule Cons.IH [of "Suc m"]) (use Cons.prems(1) [of "Suc _"] Cons.prems(2) in \<open>auto simp flip: add_Suc_right\<close>)
  moreover have "fst p \<noteq> fst q" if "p \<in> set xs" "ys \<in> set xss" "q \<in> set ys" for p q ys
    using Cons.prems(1) [of 0 p] Cons.prems(1) [of "Suc _" q] that by (force simp: in_set_conv_nth)
  ultimately show ?case using Cons.prems(2) [of xs] by auto
qed simp

lemma length_concat_update:
  "i < length xss \<Longrightarrow> int (length (concat (xss[i := ys]))) = int (length (concat xss)) + int (length ys) - int (length (xss ! i))"
  by (induction xss arbitrary: i) (auto split: nat.splits)

lemma map_repD:
  assumes "map_rep hash M"
  shows "p_bucket_count M = int (length (p_buckets M))" and "0 < length (p_buckets M)" and "0 < p_bucket_len M"
    and "p_size M = int (length (Map_contents M))" and "p_bucket_count M * p_bucket_len M \<noteq> 0"
    and "Map_bucket hash key M = Some (hash key mod length (p_buckets M))"
    and "i < length (p_buckets M) \<Longrightarrow> bucket_at hash (p_bucket_len M) (length (p_buckets M)) i (p_buckets M ! i)"
    and "hash key mod length (p_buckets M) < length (p_buckets M)"
  using assms by (auto simp: map_rep_def Map_bucket_def Let_def not_le)

lemma Map_abs_bucket:
  assumes "map_rep hash M"
  shows "Map_abs M k = map_of (bucket_pairs (p_buckets M ! (hash k mod length (p_buckets M)))) k"
proof -
  let ?n = "length (p_buckets M)"
  have "map_of (concat (map bucket_pairs (p_buckets M))) k = map_of (map bucket_pairs (p_buckets M) ! (hash k mod ?n)) k"
    by (rule map_of_concat [where h = "\<lambda>k. hash k mod ?n"])
      (use map_repD(7) [OF assms] map_repD(2,8) [OF assms] in \<open>auto simp: bucket_at_def\<close>)
  then show ?thesis using map_repD(8) [OF assms, of k] by (simp add: Map_abs_def Map_contents_def)
qed

text \<open>An operation that replaces the bucket of its key.\<close>

lemma map_rep_update:
  assumes M: "map_rep hash M" and i: "i = hash key mod length (p_buckets M)"
    and b: "holds_pairs ps b" "k_capacity b = p_bucket_len M"
    and ps: "fst ` set ps \<subseteq> insert key (fst ` set (bucket_pairs (p_buckets M ! i)))"
    and M': "p_buckets M' = (p_buckets M)[i := b]" "p_bucket_count M' = p_bucket_count M" "p_bucket_len M' = p_bucket_len M"
      "p_size M' = p_size M + int (length ps) - int (length (bucket_pairs (p_buckets M ! i)))"
  shows "map_rep hash M'" and "Map_abs M' k = (if hash k mod length (p_buckets M) = i then map_of ps k else Map_abs M k)"
    and "keys_once M \<Longrightarrow> distinct (map fst ps) \<Longrightarrow> keys_once M'"
proof -
  note D = map_repD [OF M]
  have i_less: "i < length (p_buckets M)" using D(8) i by simp
  have bp: "bucket_pairs b = ps" using b(1) by (rule bucket_pairs_holds)
  have "bucket_at hash (p_bucket_len M) (length (p_buckets M)) i b"
    unfolding bucket_at_def bp using b(1,2) ps D(7) [OF i_less] i unfolding bucket_at_def by blast
  then have at: "bucket_at hash (p_bucket_len M) (length (p_buckets M)) j ((p_buckets M)[i := b] ! j)" if "j < length (p_buckets M)" for j
    using D(7) [OF that] that by (cases "j = i") simp_all
  have "int (length (Map_contents M')) = int (length (Map_contents M)) + int (length ps) - int (length (bucket_pairs (p_buckets M ! i)))"
    unfolding Map_contents_def M'(1) map_update bp using i_less by (subst length_concat_update) simp_all
  then show rep: "map_rep hash M'" using at D(1-4) M' by (simp add: map_rep_def)
  show "Map_abs M' k = (if hash k mod length (p_buckets M) = i then map_of ps k else Map_abs M k)"
    using Map_abs_bucket [OF rep, of k] Map_abs_bucket [OF M, of k] i_less bp by (simp add: M'(1))
  show "keys_once M'" if "keys_once M" "distinct (map fst ps)"
    using that set_update_subset_insert [of "p_buckets M" i b] bp unfolding keys_once_def M'(1) by fastforce
qed

section \<open>The operations of a map\<close>

text \<open>The pairs in the bucket of a key, and a map that differs from another in these.\<close>

definition pairs_of :: "('k \<Rightarrow> nat) \<Rightarrow> 'k \<Rightarrow> ('k, 'v) Map \<Rightarrow> ('k \<times> 'v) list" where
  "pairs_of hash key M = bucket_pairs (p_buckets M ! (hash key mod length (p_buckets M)))"

definition replaced :: "('k \<Rightarrow> nat) \<Rightarrow> 'k \<Rightarrow> ('k \<times> 'v) list \<Rightarrow> ('k, 'v) Map \<Rightarrow> ('k, 'v) Map \<Rightarrow> bool" where
  "replaced hash key ps M M' \<longleftrightarrow> map_rep hash M' \<and> p_bucket_count M' = p_bucket_count M \<and> p_bucket_len M' = p_bucket_len M \<and>
     length (p_buckets M') = length (p_buckets M) \<and>
     (\<forall>k. pairs_of hash k M' = (if hash k mod length (p_buckets M) = hash key mod length (p_buckets M) then ps else pairs_of hash k M)) \<and>
     p_size M' = p_size M + int (length ps) - int (length (pairs_of hash key M)) \<and>
     (keys_once M \<longrightarrow> distinct (map fst ps) \<longrightarrow> keys_once M') \<and>
     (\<forall>b \<in> set (p_buckets M'). bucket_pairs b = ps \<or> b \<in> set (p_buckets M))"

lemma replacedI:
  assumes "map_rep hash M" and "i = hash key mod length (p_buckets M)" and "holds_pairs ps b" and "k_capacity b = p_bucket_len M"
    and "fst ` set ps \<subseteq> insert key (fst ` set (pairs_of hash key M))"
    and "p_buckets M' = (p_buckets M)[i := b]" and "p_bucket_count M' = p_bucket_count M" and "p_bucket_len M' = p_bucket_len M"
    and "p_size M' = p_size M + int (length ps) - int (length (pairs_of hash key M))"
  shows "replaced hash key ps M M'"
proof -
  note U = map_rep_update [OF assms(1-4) _ assms(6-8)]
  have "bucket_pairs b = ps" using assms(3) by (rule bucket_pairs_holds)
  moreover have "pairs_of hash k M' = (if hash k mod length (p_buckets M) = hash key mod length (p_buckets M) then ps else pairs_of hash k M)" for k
    using calculation assms(2) map_repD(8) [OF assms(1), of k] by (simp add: pairs_of_def assms(6))
  moreover have "b' = b \<or> b' \<in> set (p_buckets M)" if "b' \<in> set (p_buckets M')" for b'
    using that set_update_subset_insert [of "p_buckets M" i b] assms(6) by auto
  ultimately show ?thesis
    using U(1,3) assms(2,5-9) unfolding replaced_def pairs_of_def by auto
qed

lemma Map_abs_pairs: "map_rep hash M \<Longrightarrow> Map_abs M k = map_of (pairs_of hash k M) k"
  by (simp add: Map_abs_bucket pairs_of_def)

lemma pairs_of_once: "map_rep hash M \<Longrightarrow> keys_once M \<Longrightarrow> distinct (map fst (pairs_of hash k M))"
  using map_repD(8) [of hash M k] by (simp add: keys_once_def pairs_of_def)

lemma replaced_abs:
  assumes "replaced hash key ps M M'" and "map_rep hash M"
    and "\<And>k. map_of ps k = f k (map_of (pairs_of hash key M) k)" and "\<And>k w. k \<noteq> key \<Longrightarrow> f k w = w"
  shows "Map_abs M' k = f k (Map_abs M k)"
proof -
  have M': "map_rep hash M'" and p: "pairs_of hash k M' = (if hash k mod length (p_buckets M) = hash key mod length (p_buckets M) then ps else pairs_of hash k M)"
    using assms(1) by (auto simp: replaced_def)
  show ?thesis
  proof (cases "hash k mod length (p_buckets M) = hash key mod length (p_buckets M)")
    case True
    then have "pairs_of hash key M = pairs_of hash k M" by (simp add: pairs_of_def)
    with True show ?thesis using p assms(3) [of k] by (simp add: Map_abs_pairs [OF assms(2)] Map_abs_pairs [OF M'])
  next
    case False
    then have "k \<noteq> key" by auto
    with False show ?thesis using p assms(4) by (simp add: Map_abs_pairs [OF assms(2)] Map_abs_pairs [OF M'])
  qed
qed

lemma map_of_put_first: "map_of (put_first key v ps) k = (if k = key \<and> map_of ps key \<noteq> None then Some v else map_of ps k)"
  by (induction ps) auto

lemma map_of_drop_first:
  "distinct (map fst ps) \<Longrightarrow> map_of (drop_first key ps) k = (if k = key then None else map_of ps k)"
proof (induction ps)
  case (Cons p ps)
  moreover have "map_of ps (fst p) = None" using Cons.prems by (simp add: map_of_eq_None_iff)
  ultimately show ?case by auto
qed simp

lemma length_first [simp]:
  "length (put_first key v ps) = length ps" "length (drop_first key ps) = length ps - (if key \<in> fst ` set ps then 1 else 0)"
  "map fst (put_first key v ps) = map fst ps" "set (drop_first key ps) \<subseteq> set ps"
  by (induction ps) (auto dest: length_pos_if_in_set)

lemma distinct_drop_first: "distinct (map fst ps) \<Longrightarrow> distinct (map fst (drop_first key ps))"
  by (induction ps) (auto dest: subsetD [OF length_first(4)])

text \<open>The bucket on which an operation works.\<close>

lemma bucket_of:
  assumes "map_rep hash M"
  shows "holds_pairs (pairs_of hash key M) (p_buckets M ! (hash key mod length (p_buckets M)))"
    and "k_capacity (p_buckets M ! (hash key mod length (p_buckets M))) = p_bucket_len M"
    and "int (length (pairs_of hash key M)) \<le> p_bucket_len M"
  using map_repD(7) [OF assms map_repD(8) [OF assms, of key]] holds_pairs_size unfolding bucket_at_def pairs_of_def by metis+

lemma insert_with_kept:
  assumes M: "map_rep hash M" and ins: "ins key v (p_buckets M ! (hash key mod length (p_buckets M))) = Some (b, r, False)"
    and b: "holds_pairs ps b" "k_capacity b = p_bucket_len M" "map fst ps = map fst (pairs_of hash key M)"
  shows "\<exists>M'. insert_with hash ins key v M = Some (M', r, False) \<and> replaced hash key ps M M'"
    and "b = p_buckets M ! (hash key mod length (p_buckets M)) \<Longrightarrow> insert_with hash ins key v M = Some (M, r, False)"
proof -
  let ?M = "M\<lparr>p_buckets := (p_buckets M)[hash key mod length (p_buckets M) := b]\<rparr>"
  have ok: "insert_with hash ins key v M = Some (?M, r, False)" using ins map_repD(5,6) [OF M] by (simp add: insert_with_def)
  moreover have "fst ` set ps = fst ` set (pairs_of hash key M)" "length ps = length (pairs_of hash key M)"
    using b(3) by (metis list.set_map, metis length_map)
  then have "replaced hash key ps M ?M" by (intro replacedI [OF M refl b(1,2)]) auto
  ultimately show "\<exists>M'. insert_with hash ins key v M = Some (M', r, False) \<and> replaced hash key ps M M'" by blast
  show "insert_with hash ins key v M = Some (M, r, False)" if "b = p_buckets M ! (hash key mod length (p_buckets M))"
    using ok that by simp
qed

lemma insert_with_added:
  assumes M: "map_rep hash M" and ins: "ins key v (p_buckets M ! (hash key mod length (p_buckets M))) = Some (b, r, True)"
    and b: "holds_pairs (pairs_of hash key M @ [(key, v)]) b" "k_capacity b = p_bucket_len M"
  shows "\<exists>M'. insert_with hash ins key v M = Some (M', r, True) \<and> replaced hash key (pairs_of hash key M @ [(key, v)]) M M'"
proof -
  let ?M = "M\<lparr>p_buckets := (p_buckets M)[hash key mod length (p_buckets M) := b], p_size := p_size M + 1,
    p_bucket_fill := p_bucket_fill M \<or> k_size b = k_capacity b\<rparr>"
  have "insert_with hash ins key v M = Some (?M, r, True)" using ins map_repD(5,6) [OF M] by (simp add: insert_with_def)
  moreover have "replaced hash key (pairs_of hash key M @ [(key, v)]) M ?M" by (rule replacedI [OF M refl b]) auto
  ultimately show ?thesis by blast
qed

lemma Map_insert_exact:
  assumes M: "map_rep hash M"
  shows "if int (length (pairs_of hash key M)) = p_bucket_len M then Map_insert hash key v M = Some (M, EndNode, False)
    else if key \<in> fst ` set (butlast (pairs_of hash key M)) then \<exists>j. Map_insert hash key v M = Some (M, At j, False)
    else \<exists>M' r. Map_insert hash key v M = Some (M', r, True) \<and> replaced hash key (pairs_of hash key M @ [(key, v)]) M M'"
proof -
  note B = bucket_of [OF M, of key]
  note S = insert_no_update_spec [OF B(1), of key v, unfolded B(2)]
  note kept = insert_with_kept(2) [OF M _ B(1,2) refl refl, of insert_no_update v, folded Map_insert_def]
    and added = insert_with_added [OF M, of insert_no_update key v, folded Map_insert_def]
  show ?thesis
  proof (cases "int (length (pairs_of hash key M)) = p_bucket_len M")
    case True
    then show ?thesis using S kept by simp
  next
    case False
    show ?thesis
    proof (cases "key \<in> fst ` set (butlast (pairs_of hash key M))")
      case True
      then obtain j where "insert_no_update key v (p_buckets M ! (hash key mod length (p_buckets M))) =
          Some (p_buckets M ! (hash key mod length (p_buckets M)), At j, False)" using S False by auto
      then show ?thesis using kept False True by auto
    next
      case absent: False
      show ?thesis using S added False absent unfolding if_not_P [OF False] if_not_P [OF absent] by metis
    qed
  qed
qed

lemma Map_insert_or_assign_exact:
  assumes M: "map_rep hash M"
  shows "if key \<in> fst ` set (pairs_of hash key M)
      then \<exists>M' r. Map_insert_or_assign hash key v M = Some (M', r, False) \<and> replaced hash key (put_first key v (pairs_of hash key M)) M M'
    else if int (length (pairs_of hash key M)) = p_bucket_len M then Map_insert_or_assign hash key v M = Some (M, EndNode, False)
    else \<exists>M' r. Map_insert_or_assign hash key v M = Some (M', r, True) \<and> replaced hash key (pairs_of hash key M @ [(key, v)]) M M'"
proof -
  note B = bucket_of [OF M, of key]
  have "0 < k_capacity (p_buckets M ! (hash key mod length (p_buckets M)))" using B(2) map_repD(3) [OF M] by simp
  note S = insert_update_spec [OF B(1) this, of key v, unfolded B(2)]
  note kept = insert_with_kept(2) [OF M _ B(1,2) refl refl, of insert_update v, folded Map_insert_or_assign_def]
    and set = insert_with_kept(1) [OF M _ _ _ length_first(3), of insert_update key v, folded Map_insert_or_assign_def]
    and added = insert_with_added [OF M, of insert_update key v, folded Map_insert_or_assign_def]
  show ?thesis
  proof (cases "key \<in> fst ` set (pairs_of hash key M)")
    case True
    show ?thesis using S set unfolding if_P [OF True] by metis
  next
    case absent: False
    show ?thesis
    proof (cases "int (length (pairs_of hash key M)) = p_bucket_len M")
      case True
      then show ?thesis using S kept absent by simp
    next
      case False
      show ?thesis using S added unfolding if_not_P [OF False] if_not_P [OF absent] by metis
    qed
  qed
qed

lemma Map_erase_exact:
  assumes M: "map_rep hash M"
  shows "if key \<in> fst ` set (pairs_of hash key M)
      then \<exists>M'. Map_erase hash key M = Some (M', True) \<and> replaced hash key (drop_first key (pairs_of hash key M)) M M'
    else Map_erase hash key M = Some (M, False)"
proof -
  let ?i = "hash key mod length (p_buckets M)" and ?ps = "pairs_of hash key M"
  note B = bucket_of [OF M, of key] and D = map_repD(6) [OF M, of key]
  note S = remove_find_spec(1) [OF B(1), of key, unfolded B(2)]
  show ?thesis
  proof (cases "key \<in> fst ` set ?ps")
    case True
    then obtain b where b: "Bucket_remove key (p_buckets M ! ?i) = Some (b, True)" "holds_pairs (drop_first key ?ps) b" "k_capacity b = p_bucket_len M"
      using S by auto
    have "?ps \<noteq> []" using True by auto
    have "replaced hash key (drop_first key ?ps) M (M\<lparr>p_buckets := (p_buckets M)[?i := b], p_size := p_size M - 1\<rparr>)"
    proof (rule replacedI [OF M refl b(2,3)])
      show "fst ` set (drop_first key ?ps) \<subseteq> insert key (fst ` set ?ps)"
        by (rule subset_insertI2 [OF image_mono [OF length_first(4)]])
    qed (use True \<open>?ps \<noteq> []\<close> in \<open>auto simp: of_nat_diff Suc_leI\<close>)
    then show ?thesis using b(1) D True by (simp add: Map_erase_def)
  next
    case False
    then show ?thesis using S D by (simp add: Map_erase_def)
  qed
qed

lemma Map_find_exact:
  assumes M: "map_rep hash M"
  shows "Map_find hash key M = Some (map_option (Pair key) (Map_abs M key))"
proof -
  note B = bucket_of [OF M, of key]
  show ?thesis
    using remove_find_spec(2) [OF B(1), of key] map_repD(6) [OF M, of key]
    by (auto simp: Map_find_def Map_abs_pairs [OF M] split: option.splits)
qed

section \<open>Sequences of calls\<close>

definition map_within :: "('k \<Rightarrow> nat) \<Rightarrow> int \<Rightarrow> int \<Rightarrow> nat \<Rightarrow> ('k, 'v) Map \<Rightarrow> bool" where
  "map_within hash count len N M \<longleftrightarrow> map_rep hash M \<and> keys_once M \<and> p_bucket_count M = count \<and> p_bucket_len M = len \<and>
     (\<forall>b \<in> set (p_buckets M). length (bucket_pairs b) \<le> N)"

lemma alloc_buckets_ok:
  assumes "0 < len"
  shows "\<exists>bs. alloc_buckets k0 v0 len n = Some bs \<and> length bs = n \<and> (\<forall>b \<in> set bs. holds_pairs [] b \<and> k_capacity b = len)"
proof (induction n)
  case (Suc n)
  then show ?case using Bucket_init_ok [OF assms, of k0 v0] by auto
qed simp

lemma alloc_map_ok:
  assumes "0 < count" and "0 < len"
  shows "\<exists>bs. alloc_map k0 v0 count len = Some bs \<and> int (length bs) = count \<and> (\<forall>b \<in> set bs. holds_pairs [] b \<and> k_capacity b = len)"
  using alloc_buckets_ok [OF assms(2), of k0 v0 "nat count"] assms(1) by (auto simp: alloc_map_def)

lemma Map_init_ok:
  assumes "0 < count" and "0 < len"
  shows "\<exists>M. Map_init k0 v0 count len = Some M \<and> map_within hash count len 0 M \<and> Map_abs M = Map.empty"
proof -
  obtain bs where bs: "alloc_map k0 v0 count len = Some bs" "int (length bs) = count" "\<And>b. b \<in> set bs \<Longrightarrow> holds_pairs [] b \<and> k_capacity b = len"
    using alloc_map_ok [OF assms, of k0 v0] by blast
  have e: "bucket_pairs b = []" if "b \<in> set bs" for b using bs(3) [OF that] bucket_pairs_holds by blast
  then have c: "concat (map bucket_pairs bs) = []" by simp
  moreover have "bucket_at hash len (length bs) i (bs ! i)" if "i < length bs" for i
    using bs(3) [of "bs ! i"] e [of "bs ! i"] that by (simp add: bucket_at_def)
  ultimately have "map_within hash count len 0 \<lparr>p_buckets = bs, p_bucket_count = count, p_bucket_len = len, p_size = 0,
      p_load_threshold = 0, p_bucket_fill = False\<rparr>"
    unfolding map_within_def map_rep_def keys_once_def Map_contents_def using bs(2) assms by (simp add: e)
  then show ?thesis using bs(1) c by (simp add: Map_init_def Map_abs_def Map_contents_def)
qed

lemma map_of_snoc: "map_of (ps @ [(key, v)]) k = (if k = key \<and> map_of ps key = None then Some v else map_of ps k)"
  by (auto simp: map_add_def split: option.splits)

lemma butlast_keys: "k \<notin> fst ` set ps \<Longrightarrow> k \<notin> fst ` set (butlast ps)"
  by (auto dest: in_set_butlastD)

lemma keys_map_of: "k \<in> fst ` set ps \<longleftrightarrow> map_of ps k \<noteq> None"
  by (simp add: map_of_eq_None_iff)

text \<open>The calls that change a map with buckets, with what they return: whether a pair was inserted or removed.\<close>

datatype ('k, 'v) map_call = CallInsert 'k 'v | CallAssign 'k 'v | CallErase 'k

fun Map_call :: "('k \<Rightarrow> nat) \<Rightarrow> ('k, 'v) map_call \<Rightarrow> ('k, 'v) Map \<Rightarrow> (('k, 'v) Map \<times> bool) option" where
  "Map_call hash (CallInsert key v) M = map_option (\<lambda>(M, r, ok). (M, ok)) (Map_insert hash key v M)"
| "Map_call hash (CallAssign key v) M = map_option (\<lambda>(M, r, ok). (M, ok)) (Map_insert_or_assign hash key v M)"
| "Map_call hash (CallErase key) M = Map_erase hash key M"

primrec Map_calls :: "('k \<Rightarrow> nat) \<Rightarrow> ('k, 'v) map_call list \<Rightarrow> ('k, 'v) Map \<Rightarrow> (('k, 'v) Map \<times> bool list) option" where
  "Map_calls hash [] M = Some (M, [])"
| "Map_calls hash (c # cs) M =
     Option.bind (Map_call hash c M) (\<lambda>(M, ok). map_option (\<lambda>(M, oks). (M, ok # oks)) (Map_calls hash cs M))"

text \<open>
  The same calls on a table of chains, each a list of at most \<open>len\<close> pairs. \<^verbatim>\<open>insert\<close> looks for the key in all pairs
  but the last one.
\<close>

fun call_key :: "('k, 'v) map_call \<Rightarrow> 'k" where
  "call_key (CallInsert key v) = key"
| "call_key (CallAssign key v) = key"
| "call_key (CallErase key) = key"

fun chain_call :: "int \<Rightarrow> ('k, 'v) map_call \<Rightarrow> ('k \<times> 'v) list \<Rightarrow> ('k \<times> 'v) list \<times> bool" where
  "chain_call len (CallInsert key v) ps =
     (if int (length ps) = len \<or> key \<in> fst ` set (butlast ps) then (ps, False) else (ps @ [(key, v)], True))"
| "chain_call len (CallAssign key v) ps =
     (if key \<in> fst ` set ps then (put_first key v ps, False)
      else if int (length ps) = len then (ps, False) else (ps @ [(key, v)], True))"
| "chain_call len (CallErase key) ps = (if key \<in> fst ` set ps then (drop_first key ps, True) else (ps, False))"

definition table_call :: "('k \<Rightarrow> nat) \<Rightarrow> int \<Rightarrow> int \<Rightarrow> ('k, 'v) map_call \<Rightarrow> (nat \<Rightarrow> ('k \<times> 'v) list) \<Rightarrow> (nat \<Rightarrow> ('k \<times> 'v) list) \<times> bool" where
  "table_call hash count len c T =
     (let i = hash (call_key c) mod nat count; (ps, ok) = chain_call len c (T i) in (T(i := ps), ok))"

primrec table_calls :: "('k \<Rightarrow> nat) \<Rightarrow> int \<Rightarrow> int \<Rightarrow> ('k, 'v) map_call list \<Rightarrow> (nat \<Rightarrow> ('k \<times> 'v) list) \<Rightarrow> (nat \<Rightarrow> ('k \<times> 'v) list) \<times> bool list" where
  "table_calls hash count len [] T = (T, [])"
| "table_calls hash count len (c # cs) T =
     (let (T, ok) = table_call hash count len c T; (T, oks) = table_calls hash count len cs T in (T, ok # oks))"

text \<open>A map whose buckets hold the chains of a table.\<close>

definition has_chains :: "('k \<Rightarrow> nat) \<Rightarrow> int \<Rightarrow> int \<Rightarrow> (nat \<Rightarrow> ('k \<times> 'v) list) \<Rightarrow> ('k, 'v) Map \<Rightarrow> bool" where
  "has_chains hash count len T M \<longleftrightarrow> map_rep hash M \<and> p_bucket_count M = count \<and> p_bucket_len M = len \<and>
     (\<forall>key. pairs_of hash key M = T (hash key mod nat count)) \<and> p_size M = (\<Sum>i<nat count. int (length (T i)))"

lemma sum_chain_update:
  "(i :: nat) < n \<Longrightarrow> (\<Sum>j<n. int (length ((T(i := ps)) j))) = (\<Sum>j<n. int (length (T j))) + int (length ps) - int (length (T i))"
proof -
  assume i: "i < n"
  have "(\<Sum>j\<in>{..<n} - {i}. int (length ((T(i := ps)) j))) = (\<Sum>j\<in>{..<n} - {i}. int (length (T j)))" by (rule sum.cong) auto
  then show ?thesis
    using i sum.remove [OF finite_lessThan, of i n "\<lambda>j. int (length ((T(i := ps)) j))"]
      sum.remove [OF finite_lessThan, of i n "\<lambda>j. int (length (T j))"] by simp
qed

lemma has_chains_replaced:
  assumes "has_chains hash count len T M" and "replaced hash key ps M M'"
  shows "has_chains hash count len (T(hash key mod nat count := ps)) M'"
proof -
  have M: "map_rep hash M" "p_bucket_count M = count" "\<And>key. pairs_of hash key M = T (hash key mod nat count)"
    "p_size M = (\<Sum>i<nat count. int (length (T i)))" using assms(1) by (auto simp: has_chains_def)
  have n: "length (p_buckets M) = nat count" using map_repD(1) [OF M(1)] M(2) by simp
  have "hash key mod nat count < nat count" using map_repD(8) [OF M(1), of key] n by simp
  note sum = sum_chain_update [OF this, of T ps]
  have "p_size M' = (\<Sum>j<nat count. int (length ((T(hash key mod nat count := ps)) j)))"
    unfolding sum using assms(2) M(3) [of key] M(4) by (simp add: replaced_def)
  then show ?thesis using assms M(3) unfolding has_chains_def replaced_def n by auto
qed

lemma Map_call_chains:
  assumes M: "has_chains hash count len T M"
  shows "\<exists>M'. Map_call hash c M = Some (M', snd (table_call hash count len c T)) \<and> has_chains hash count len (fst (table_call hash count len c T)) M'"
proof -
  let ?key = "call_key c" and ?i = "hash (call_key c) mod nat count"
  have rep: "map_rep hash M" and len: "p_bucket_len M = len" and ps: "pairs_of hash ?key M = T ?i"
    using M by (auto simp: has_chains_def)
  have "\<exists>M'. Map_call hash c M = Some (M', snd (chain_call len c (T ?i))) \<and>
      (M' = M \<and> fst (chain_call len c (T ?i)) = T ?i \<or> replaced hash ?key (fst (chain_call len c (T ?i))) M M')"
  proof (cases c)
    case (CallInsert key v)
    note S = Map_insert_exact [OF rep, of key v]
    consider "int (length (T ?i)) = len" | "int (length (T ?i)) \<noteq> len" "key \<in> fst ` set (butlast (T ?i))"
      | "int (length (T ?i)) \<noteq> len" "key \<notin> fst ` set (butlast (T ?i))" by blast
    then show ?thesis using S ps len CallInsert by cases auto
  next
    case (CallAssign key v)
    note S = Map_insert_or_assign_exact [OF rep, of key v]
    consider "key \<in> fst ` set (T ?i)" | "key \<notin> fst ` set (T ?i)" "int (length (T ?i)) = len"
      | "key \<notin> fst ` set (T ?i)" "int (length (T ?i)) \<noteq> len" by blast
    then show ?thesis using S ps len CallAssign by cases auto
  next
    case (CallErase key)
    then show ?thesis using Map_erase_exact [OF rep, of key] ps by (cases "key \<in> fst ` set (T ?i)") auto
  qed
  then obtain M' where M': "Map_call hash c M = Some (M', snd (chain_call len c (T ?i)))"
    "M' = M \<and> fst (chain_call len c (T ?i)) = T ?i \<or> replaced hash ?key (fst (chain_call len c (T ?i))) M M'" by blast
  then have "has_chains hash count len (T(?i := fst (chain_call len c (T ?i)))) M'"
    using M has_chains_replaced [OF M] by auto
  then show ?thesis using M'(1) by (auto simp: table_call_def Let_def split_beta)
qed

lemma Map_calls_chains:
  "has_chains hash count len T M \<Longrightarrow>
     \<exists>M'. Map_calls hash cs M = Some (M', snd (table_calls hash count len cs T)) \<and>
       has_chains hash count len (fst (table_calls hash count len cs T)) M'"
proof (induction cs arbitrary: T M)
  case (Cons c cs)
  obtain M1 where M1: "Map_call hash c M = Some (M1, snd (table_call hash count len c T))"
    "has_chains hash count len (fst (table_call hash count len c T)) M1" using Map_call_chains [OF Cons.prems] by blast
  from Cons.IH [OF M1(2)] M1(1) show ?case by (auto simp: split_beta)
qed simp

lemma has_chains_find:
  "has_chains hash count len T M \<Longrightarrow> Map_find hash key M = Some (map_option (Pair key) (map_of (T (hash key mod nat count)) key))"
  using Map_find_exact [of hash M key] Map_abs_pairs [of hash M key] by (auto simp: has_chains_def)

lemma has_chains_size:
  assumes "has_chains hash count len T M"
  shows "p_size M \<le> count * len"
proof -
  have M: "map_rep hash M" "p_bucket_count M = count" "p_bucket_len M = len" using assms by (auto simp: has_chains_def)
  note D = map_repD [OF M(1)]
  have le: "length (bucket_pairs b) \<le> nat len" if "b \<in> set (p_buckets M)" for b
    using that D(7) holds_pairs_size D(3) M(3) unfolding bucket_at_def by (fastforce simp: in_set_conv_nth le_nat_iff)
  have "length (Map_contents M) = (\<Sum>b\<leftarrow>p_buckets M. length (bucket_pairs b))" by (simp add: Map_contents_def length_concat comp_def)
  also have "\<dots> \<le> (\<Sum>b\<leftarrow>p_buckets M. nat len)" by (rule sum_list_mono) (rule le)
  also have "\<dots> = length (p_buckets M) * nat len" by (simp add: sum_list_triv)
  finally have "int (length (Map_contents M)) \<le> int (length (p_buckets M)) * int (nat len)" by (metis of_nat_le_iff of_nat_mult)
  then show ?thesis using D(1,3,4) M(2,3) by simp
qed

text \<open>
  Calls that keep to the contract of the map: a key is inserted only where it is absent, and no bucket
  overflows. On these, the table is a partial map.
\<close>

fun chain_fits :: "int \<Rightarrow> ('k, 'v) map_call \<Rightarrow> ('k \<times> 'v) list \<Rightarrow> bool" where
  "chain_fits len (CallInsert key v) ps \<longleftrightarrow> key \<notin> fst ` set ps \<and> int (length ps) < len"
| "chain_fits len (CallAssign key v) ps \<longleftrightarrow> key \<in> fst ` set ps \<or> int (length ps) < len"
| "chain_fits len (CallErase key) ps \<longleftrightarrow> True"

primrec calls_fit :: "('k \<Rightarrow> nat) \<Rightarrow> int \<Rightarrow> int \<Rightarrow> ('k, 'v) map_call list \<Rightarrow> (nat \<Rightarrow> ('k \<times> 'v) list) \<Rightarrow> bool" where
  "calls_fit hash count len [] T \<longleftrightarrow> True"
| "calls_fit hash count len (c # cs) T \<longleftrightarrow>
     chain_fits len c (T (hash (call_key c) mod nat count)) \<and> calls_fit hash count len cs (fst (table_call hash count len c T))"

fun call_spec :: "('k, 'v) map_call \<Rightarrow> ('k \<rightharpoonup> 'v) \<Rightarrow> ('k \<rightharpoonup> 'v)" where
  "call_spec (CallInsert key v) f = f(key \<mapsto> v)"
| "call_spec (CallAssign key v) f = f(key \<mapsto> v)"
| "call_spec (CallErase key) f = f(key := None)"

lemma chain_call_spec:
  assumes "distinct (map fst ps)" and "chain_fits len c ps"
  shows "map_of (fst (chain_call len c ps)) k = call_spec c (map_of ps) k" and "distinct (map fst (fst (chain_call len c ps)))"
proof -
  have "map_of (fst (chain_call len c ps)) k = call_spec c (map_of ps) k \<and> distinct (map fst (fst (chain_call len c ps)))"
  proof (cases c)
    case (CallInsert key v)
    then have "key \<notin> fst ` set ps" "chain_call len c ps = (ps @ [(key, v)], True)" using assms(2) butlast_keys [of key ps] by auto
    then show ?thesis using CallInsert assms(1) keys_map_of [of key ps] by (simp add: map_of_snoc del: map_of_append)
  next
    case (CallAssign key v)
    then show ?thesis
      using assms keys_map_of [of key ps]
      by (cases "key \<in> fst ` set ps") (simp_all add: map_of_snoc map_of_put_first del: map_of_append)
  next
    case (CallErase key)
    then show ?thesis
      using assms map_of_eq_None_iff [of ps key]
      by (cases "key \<in> fst ` set ps") (auto simp: map_of_drop_first distinct_drop_first)
  qed
  then show "map_of (fst (chain_call len c ps)) k = call_spec c (map_of ps) k" and "distinct (map fst (fst (chain_call len c ps)))"
    by blast+
qed

lemma call_spec_other: "k \<noteq> call_key c \<Longrightarrow> call_spec c f k = f k"
  by (cases c) simp_all

lemma call_spec_local: "f k = g k \<Longrightarrow> call_spec c f k = call_spec c g k"
  by (cases c) simp_all

lemma table_call_spec:
  assumes "chain_fits len c (T (hash (call_key c) mod nat count))" and "\<And>i. distinct (map fst (T i))"
  shows "(\<lambda>k. map_of (fst (table_call hash count len c T) (hash k mod nat count)) k) = call_spec c (\<lambda>k. map_of (T (hash k mod nat count)) k)"
    and "distinct (map fst (fst (table_call hash count len c T) i))"
proof -
  let ?i = "hash (call_key c) mod nat count"
  have T: "fst (table_call hash count len c T) = T(?i := fst (chain_call len c (T ?i)))" by (simp add: table_call_def Let_def split_beta)
  note C = chain_call_spec [OF assms(2,1)]
  show "distinct (map fst (fst (table_call hash count len c T) i))" using assms(2) C(2) by (simp add: T)
  show "(\<lambda>k. map_of (fst (table_call hash count len c T) (hash k mod nat count)) k) = call_spec c (\<lambda>k. map_of (T (hash k mod nat count)) k)"
  proof
    fix k
    show "map_of (fst (table_call hash count len c T) (hash k mod nat count)) k = call_spec c (\<lambda>k. map_of (T (hash k mod nat count)) k) k"
    proof (cases "hash k mod nat count = ?i")
      case True
      then show ?thesis
        using C(1) [of k] call_spec_local [of "map_of (T ?i)" k "\<lambda>k. map_of (T (hash k mod nat count)) k" c] by (simp add: T)
    next
      case False
      then have "k \<noteq> call_key c" by auto
      with False show ?thesis by (simp add: T call_spec_other)
    qed
  qed
qed

lemma table_calls_spec:
  "calls_fit hash count len cs T \<Longrightarrow> (\<And>i. distinct (map fst (T i))) \<Longrightarrow>
     (\<lambda>k. map_of (fst (table_calls hash count len cs T) (hash k mod nat count)) k) = fold call_spec cs (\<lambda>k. map_of (T (hash k mod nat count)) k) \<and>
     (\<forall>i. distinct (map fst (fst (table_calls hash count len cs T) i)))"
proof (induction cs arbitrary: T)
  case (Cons c cs)
  then have fit: "chain_fits len c (T (hash (call_key c) mod nat count))" "calls_fit hash count len cs (fst (table_call hash count len c T))"
    by simp_all
  note S = table_call_spec [where hash = hash and count = count and T = T, OF fit(1) Cons.prems(2)]
  from Cons.IH [OF fit(2) S(2)] S(1) show ?case by (simp add: split_beta)
qed simp

lemma has_chains_once:
  assumes M: "has_chains hash count len T M" and d: "\<And>i. distinct (map fst (T i))"
  shows "keys_once M"
  unfolding keys_once_def
proof
  fix b assume "b \<in> set (p_buckets M)"
  then obtain i where i: "i < length (p_buckets M)" "b = p_buckets M ! i" by (auto simp: in_set_conv_nth)
  have rep: "map_rep hash M" using M by (simp add: has_chains_def)
  show "distinct (map fst (bucket_pairs b))"
  proof (cases "bucket_pairs b")
    case (Cons q qs)
    then have "hash (fst q) mod length (p_buckets M) = i" using map_repD(7) [OF rep i(1)] i(2) by (auto simp: bucket_at_def)
    then have "bucket_pairs b = pairs_of hash (fst q) M" using i(2) by (simp add: pairs_of_def)
    then show ?thesis using M d by (simp add: has_chains_def)
  qed simp
qed

section \<open>Rehashing\<close>

text \<open>The two loops of \<^verbatim>\<open>rehash\<close> insert the contents of the map in order.\<close>

fun move_pairs :: "('k \<Rightarrow> nat) \<Rightarrow> nat \<Rightarrow> ('k \<times> 'v) list \<Rightarrow> ('k, 'v) Bucket list \<Rightarrow> ('k, 'v) Bucket list option" where
  "move_pairs hash n [] bs = Some bs"
| "move_pairs hash n (p # qs) bs =
     (case insert_no_update (fst p) (snd p) (bs ! (hash (fst p) mod n)) of
        None \<Rightarrow> None
      | Some (b, r, ok) \<Rightarrow> move_pairs hash n qs (bs[hash (fst p) mod n := b]))"

lemma move_pairs_append: "move_pairs hash n (qs @ rs) bs = Option.bind (move_pairs hash n qs bs) (move_pairs hash n rs)"
  by (induction qs arbitrary: bs) (auto split: option.splits)

lemma move_chain_pairs:
  "chain ns ind us \<Longrightarrow> length us \<le> fuel \<Longrightarrow> move_chain fuel hash n ns ind bs = move_pairs hash n (pairs ns us) bs"
proof (induction us arbitrary: ind fuel bs)
  case Nil
  then show ?case by (simp add: move_chain.simps)
next
  case (Cons u us)
  then obtain m where "fuel = Suc m" by (cases fuel) auto
  with Cons show ?case by (auto simp: move_chain.simps [of "Suc m"] Let_def split: option.splits)
qed

lemma move_buckets_pairs:
  "(\<And>b. b \<in> set old \<Longrightarrow> holds_pairs (bucket_pairs b) b) \<Longrightarrow>
    move_buckets hash n old bs = move_pairs hash n (concat (map bucket_pairs old)) bs"
proof (induction old arbitrary: bs)
  case (Cons b old)
  from Cons.prems [of b] obtain us fs where "bucket_rep us fs b" "bucket_pairs b = pairs (k_list b) us"
    by (auto simp: holds_pairs_def)
  then have "move_chain (length (k_list b)) hash n (k_list b) (k_head b) bs = move_pairs hash n (bucket_pairs b) bs"
    using move_chain_pairs [OF bucket_repD(1,6)] by metis
  moreover have "move_buckets hash n old = move_pairs hash n (concat (map bucket_pairs old))"
    using Cons by (auto simp: fun_eq_iff)
  ultimately show ?case by (simp add: move_pairs_append)
qed simp

text \<open>Every new bucket has the pairs that belong to it, as many as it can hold.\<close>

definition filled :: "('k \<Rightarrow> nat) \<Rightarrow> nat \<Rightarrow> nat \<Rightarrow> ('k \<times> 'v) list \<Rightarrow> ('k, 'v) Bucket list \<Rightarrow> bool" where
  "filled hash len n qs bs \<longleftrightarrow> length bs = n \<and>
     (\<forall>j < n. holds_pairs (take len (filter (\<lambda>p. hash (fst p) mod n = j) qs)) (bs ! j) \<and> k_capacity (bs ! j) = int len)"

lemma move_step:
  assumes F: "filled hash len n ps bs" and n: "0 < n" and q: "fst q \<notin> fst ` set ps"
  shows "\<exists>b r ok. insert_no_update (fst q) (snd q) (bs ! (hash (fst q) mod n)) = Some (b, r, ok) \<and>
    filled hash len n (ps @ [q]) (bs[hash (fst q) mod n := b])"
proof -
  let ?i = "hash (fst q) mod n"
  let ?f = "filter (\<lambda>p. hash (fst p) mod n = ?i) ps"
  have i: "?i < n" using n by simp
  have b: "holds_pairs (take len ?f) (bs ! ?i)" "k_capacity (bs ! ?i) = int len" using F i by (auto simp: filled_def)
  have absent: "fst q \<notin> fst ` set (butlast (take len ?f))" using q by (auto dest!: in_set_butlastD in_set_takeD)
  have ok: "filled hash len n (ps @ [q]) (bs[?i := b])"
    if "holds_pairs (take len (?f @ [q])) b" "k_capacity b = int len" for b
  proof -
    have "holds_pairs (take len (filter (\<lambda>p. hash (fst p) mod n = j) (ps @ [q]))) (bs[?i := b] ! j) \<and> k_capacity (bs[?i := b] ! j) = int len"
      if "j < n" for j using that F i \<open>holds_pairs (take len (?f @ [q])) b\<close> \<open>k_capacity b = int len\<close>
      by (cases "j = ?i") (auto simp: filled_def)
    then show ?thesis using F by (simp add: filled_def)
  qed
  note S = insert_no_update_spec [OF b(1), of "fst q" "snd q"]
  show ?thesis
  proof (cases "len \<le> length ?f")
    case True
    then have "insert_no_update (fst q) (snd q) (bs ! ?i) = Some (bs ! ?i, EndNode, False)" using S b(2) by simp
    then show ?thesis using ok [of "bs ! ?i"] b True by auto
  next
    case False
    then have "\<exists>b r. insert_no_update (fst q) (snd q) (bs ! ?i) = Some (b, r, True) \<and> holds_pairs (?f @ [q]) b \<and> k_capacity b = int len"
      using S b(2) absent by simp
    then show ?thesis using ok False by fastforce
  qed
qed

lemma move_pairs_filled:
  assumes "0 < n"
  shows "filled hash len n ps bs \<Longrightarrow> distinct (map fst (ps @ qs)) \<Longrightarrow>
    \<exists>bs'. move_pairs hash n qs bs = Some bs' \<and> filled hash len n (ps @ qs) bs'"
proof (induction qs arbitrary: ps bs)
  case (Cons q qs)
  then obtain b r ok where b: "insert_no_update (fst q) (snd q) (bs ! (hash (fst q) mod n)) = Some (b, r, ok)"
    "filled hash len n (ps @ [q]) (bs[hash (fst q) mod n := b])"
    using move_step [OF Cons.prems(1) assms, of q] by auto
  with Cons.IH [OF b(2)] Cons.prems(2) show ?case by simp
qed simp

lemma contents_once:
  assumes "\<And>i. i < length bs \<Longrightarrow> bucket_at hash len (length bs) i (bs ! i)" and "\<And>b. b \<in> set bs \<Longrightarrow> distinct (map fst (bucket_pairs b))"
  shows "distinct (map fst (concat (map bucket_pairs bs)))"
  by (rule distinct_concat_keys [where h = "\<lambda>k. hash k mod length bs" and m = 0]) (use assms in \<open>auto simp: bucket_at_def\<close>)

lemma rehash_len_pos: "rehash_len buckets factor count = Some n \<Longrightarrow> 0 < count \<Longrightarrow> count < n"
  by (auto simp: rehash_len_def split: if_splits)

lemma Map_rehash_filled:
  assumes M: "map_rep hash M" "keys_once M" and n: "rehash_len buckets factor (p_bucket_count M) = Some n"
  shows "\<exists>bs full. Map_rehash k0 v0 hash buckets factor M = Some (M\<lparr>p_buckets := bs, p_bucket_count := n, p_bucket_fill := full\<rparr>,
      p_size M div n \<ge> p_load_threshold M \<or> full) \<and>
    filled hash (nat (p_bucket_len M)) (nat n) (Map_contents M) bs \<and> full = list_ex (\<lambda>b. k_size b = k_capacity b) bs"
proof -
  note D = map_repD [OF M(1)]
  have pos: "0 < n" using rehash_len_pos [OF n] D(1,2) by simp
  obtain new where new: "alloc_map k0 v0 n (p_bucket_len M) = Some new" "int (length new) = n"
    "\<And>b. b \<in> set new \<Longrightarrow> holds_pairs [] b \<and> k_capacity b = p_bucket_len M"
    using alloc_map_ok [OF pos D(3), of k0 v0] by blast
  have "filled hash (nat (p_bucket_len M)) (nat n) [] new" using new(2,3) D(3) by (auto simp: filled_def)
  moreover have "distinct (map fst ([] @ Map_contents M))"
    using contents_once [OF D(7)] M(2) unfolding keys_once_def Map_contents_def by simp
  ultimately obtain bs where bs: "move_pairs hash (nat n) (Map_contents M) new = Some bs"
    "filled hash (nat (p_bucket_len M)) (nat n) (Map_contents M) bs"
    using move_pairs_filled [of "nat n" hash "nat (p_bucket_len M)" "[]" new "Map_contents M"] pos by auto
  have "move_buckets hash (nat n) (p_buckets M) new = Some bs"
    using bs(1) move_buckets_pairs [of "p_buckets M" hash "nat n" new] D(7)
    unfolding Map_contents_def bucket_at_def by (metis in_set_conv_nth)
  then show ?thesis using n new(1) bs(2) pos by (auto simp: Map_rehash_def check_rehash_def Let_def)
qed

text \<open>When the new number of buckets is a multiple of the old one, a new bucket gets pairs of one old bucket.\<close>

lemma multiple_fits:
  assumes M: "map_rep hash M" "keys_once M" and n: "nat n = f * length (p_buckets M)"
  shows "length (filter (\<lambda>p. hash (fst p) mod nat n = j) (Map_contents M)) \<le> nat (p_bucket_len M)"
proof -
  let ?c = "length (p_buckets M)" and ?F = "filter (\<lambda>p. hash (fst p) mod nat n = j) (Map_contents M)"
  note D = map_repD [OF M(1)]
  let ?b = "p_buckets M ! (j mod ?c)"
  have jc: "j mod ?c < ?c" using D(2) by simp
  have "p \<in> set (bucket_pairs ?b)" if "p \<in> set ?F" for p
  proof -
    from that obtain b where "b \<in> set (p_buckets M)" "p \<in> set (bucket_pairs b)" and j: "hash (fst p) mod nat n = j"
      by (auto simp: Map_contents_def)
    then obtain i where i: "i < ?c" "p \<in> set (bucket_pairs (p_buckets M ! i))" by (metis in_set_conv_nth)
    have "hash (fst p) mod ?c = i" using D(7) [OF i(1)] i(2) by (auto simp: bucket_at_def)
    moreover have "hash (fst p) mod nat n mod ?c = hash (fst p) mod ?c" by (simp add: n mod_mod_cancel)
    ultimately show ?thesis using i(2) j by simp
  qed
  moreover have "distinct ?F" using contents_once [OF D(7)] M(2) unfolding keys_once_def Map_contents_def
    by (metis distinct_filter distinct_map)
  ultimately have "length ?F \<le> card (set (bucket_pairs ?b))" by (metis List.finite_set card_mono distinct_card subsetI)
  also have "\<dots> \<le> length (bucket_pairs ?b)" by (rule card_length)
  also have "\<dots> \<le> nat (p_bucket_len M)"
    using D(7) [OF jc] holds_pairs_size [of "bucket_pairs ?b" ?b] D(3) by (simp add: bucket_at_def le_nat_iff)
  finally show ?thesis .
qed

lemma filled_all_rep:
  assumes M: "map_rep hash M" "keys_once M" and pos: "0 < n"
    and fits: "\<And>j. length (filter (\<lambda>p. hash (fst p) mod nat n = j) (Map_contents M)) \<le> nat (p_bucket_len M)"
    and F: "filled hash (nat (p_bucket_len M)) (nat n) (Map_contents M) bs"
    and M': "M' = M\<lparr>p_buckets := bs, p_bucket_count := n, p_bucket_fill := full\<rparr>"
  shows "map_rep hash M'" and "keys_once M'" and "Map_abs M' = Map_abs M"
proof -
  note D = map_repD [OF M(1)]
  let ?F = "\<lambda>j. filter (\<lambda>p. hash (fst p) mod nat n = j) (Map_contents M)"
  have len: "length bs = nat n" using F by (simp add: filled_def)
  have h: "holds_pairs (?F j) (bs ! j)" "k_capacity (bs ! j) = p_bucket_len M" if "j < length bs" for j
    using F fits [of j] that len D(3) by (auto simp: filled_def)
  have bp: "bucket_pairs (bs ! j) = ?F j" if "j < length bs" for j using h(1) [OF that] by (rule bucket_pairs_holds)
  have once: "distinct (map fst (Map_contents M))"
    using contents_once [OF D(7)] M(2) unfolding keys_once_def Map_contents_def by simp
  have at: "bucket_at hash (p_bucket_len M) (length bs) j (bs ! j)" if "j < length bs" for j
    using h [OF that] bp [OF that] len by (auto simp: bucket_at_def)
  have once': "distinct (map fst (bucket_pairs b))" if "b \<in> set bs" for b
    using that bp once by (auto simp: in_set_conv_nth distinct_map_filter)
  then show "keys_once M'" by (simp add: keys_once_def M')
  have c: "distinct (map fst (Map_contents M'))" using contents_once [OF at once'] by (simp add: Map_contents_def M')
  have "set (Map_contents M') = (\<Union>j<length bs. set (bucket_pairs (bs ! j)))"
    by (simp add: Map_contents_def M' set_conv_nth [of bs]) blast
  also have "\<dots> = (\<Union>j<length bs. set (?F j))" using bp by simp
  also have "\<dots> = set (Map_contents M)" using pos by (auto simp: len)
  finally have s: "set (Map_contents M') = set (Map_contents M)" .
  then show "Map_abs M' = Map_abs M" unfolding Map_abs_def using map_of_inject_set [OF c once] by simp
  have "length (Map_contents M') = length (Map_contents M)" using s c once by (metis distinct_card distinct_map)
  then show "map_rep hash M'" using at len pos D(3,4) by (simp add: map_rep_def M')
qed

lemma Map_size_card:
  assumes "map_rep hash M" and "keys_once M"
  shows "p_size M = int (card (dom (Map_abs M)))"
proof -
  have "distinct (map fst (Map_contents M))"
    using contents_once [OF map_repD(7) [OF assms(1)]] assms(2) unfolding keys_once_def Map_contents_def by simp
  then have "length (Map_contents M) = card (fst ` set (Map_contents M))" by (metis distinct_card length_map list.set_map)
  then show ?thesis using map_repD(4) [OF assms(1)] by (simp add: Map_abs_def dom_map_of_conv_image_fst)
qed

section \<open>Properties\<close>

text \<open>
  C27. The chained map is a table of chains, for every hash function: on a map that was just initialised with \<open>count\<close> buckets of \<open>len\<close> nodes
  (their product an \<^verbatim>\<open>IndexType\<close>), every sequence of \<^verbatim>\<open>insert\<close>, \<^verbatim>\<open>insert_or_assign\<close> and \<^verbatim>\<open>erase\<close> returns, each call reports the success that the reference
  reports, \<^verbatim>\<open>find\<close> then shows for every key the first pair of its chain with that key or the end node, and \<^verbatim>\<open>size\<close> is the number of pairs in the chains, at most \<open>count * len\<close>. If in addition \<^verbatim>\<open>insert\<close> is
  called only with keys that are absent and no call needs a node in a full bucket (\<open>calls_fit\<close>), then the map is a partial map:
  \<^verbatim>\<open>find\<close> shows what the same calls leave in a partial map and \<^verbatim>\<open>size\<close> is its number of keys.
\<close>

theorem core_map_refines_partial_map:
  fixes hash :: "'k \<Rightarrow> nat" and cs :: "('k, 'v) map_call list"
  assumes "0 < count" and "0 < len" and "count * len < 2 ^ 31"
  shows "\<exists>M M'. Map_init k0 v0 count len = Some M \<and> Map_calls hash cs M = Some (M', snd (table_calls hash count len cs (\<lambda>i. []))) \<and>
    (\<forall>key. Map_find hash key M' = Some (map_option (Pair key) (map_of (fst (table_calls hash count len cs (\<lambda>i. [])) (hash key mod nat count)) key))) \<and>
    p_size M' = (\<Sum>i<nat count. int (length (fst (table_calls hash count len cs (\<lambda>i. [])) i))) \<and> p_size M' \<le> count * len \<and> p_size M' < 2 ^ 31 \<and>
    (calls_fit hash count len cs (\<lambda>i. []) \<longrightarrow>
       (\<forall>key. Map_find hash key M' = Some (map_option (Pair key) (fold call_spec cs Map.empty key))) \<and>
       p_size M' = int (card (dom (fold call_spec cs (Map.empty :: 'k \<rightharpoonup> 'v)))))"
proof -
  obtain M where M: "Map_init k0 v0 count len = Some M" "map_within hash count len 0 M"
    using Map_init_ok [OF assms(1,2), of k0 v0 hash] by blast
  have "p_size M = 0" using M(1) by (auto simp: Map_init_def)
  then have "has_chains hash count len (\<lambda>i. []) M"
    using M(2) map_repD(8) [of hash M] by (auto simp: has_chains_def map_within_def pairs_of_def)
  from Map_calls_chains [OF this, of cs] obtain M' where
    M': "Map_calls hash cs M = Some (M', snd (table_calls hash count len cs (\<lambda>i. [])))"
      "has_chains hash count len (fst (table_calls hash count len cs (\<lambda>i. []))) M'" by blast
  have rep: "map_rep hash M'" using M'(2) by (simp add: has_chains_def)
  note find = has_chains_find [OF M'(2)]
  have "(\<forall>key. Map_find hash key M' = Some (map_option (Pair key) (fold call_spec cs Map.empty key))) \<and>
       p_size M' = int (card (dom (fold call_spec cs (Map.empty :: 'k \<rightharpoonup> 'v))))" if fit: "calls_fit hash count len cs (\<lambda>i. [])"
  proof -
    have spec: "(\<lambda>k. map_of (fst (table_calls hash count len cs (\<lambda>i. [])) (hash k mod nat count)) k) = fold call_spec cs Map.empty"
      using table_calls_spec [OF fit] by simp
    have once: "keys_once M'" using has_chains_once [OF M'(2)] table_calls_spec [OF fit] by simp
    have "Map_abs M' = fold call_spec cs Map.empty"
      using Map_abs_pairs [OF rep] M'(2) unfolding spec [symmetric] has_chains_def by (auto simp: fun_eq_iff)
    then show ?thesis using Map_find_exact [OF rep] Map_size_card [OF rep once] by simp
  qed
  then show ?thesis using M(1) M' find has_chains_size [OF M'(2)] assms(3) by (auto simp: has_chains_def)
qed

theorem core_map_refines_partial_map_witness:
  "\<exists>M M'. Map_init 0 0 2 3 = Some M \<and>
     Map_calls (\<lambda>k. k) [CallAssign (4::nat) (7::int), CallInsert 6 8, CallErase 4, CallInsert 6 9] M = Some (M', [True, True, True, True]) \<and>
     Map_find (\<lambda>k. k) 6 M' = Some (Some (6, 8)) \<and> p_size M' = 2"
proof -
  let ?cs = "[CallAssign (4::nat) (7::int), CallInsert 6 8, CallErase 4, CallInsert 6 9]"
  have "snd (table_calls (\<lambda>k. k) 2 3 ?cs (\<lambda>i. [])) = [True, True, True, True]"
    "map_of (fst (table_calls (\<lambda>k. k) 2 3 ?cs (\<lambda>i. [])) (6 mod nat 2)) 6 = Some 8"
    "(\<Sum>i<nat 2. int (length (fst (table_calls (\<lambda>k. k) 2 3 ?cs (\<lambda>i. [])) i))) = 2" by code_simp+
  then show ?thesis using core_map_refines_partial_map [of 2 3 0 0 "\<lambda>k. k" ?cs] by fastforce
qed

text \<open>
  C28. \<^verbatim>\<open>insert\<close> takes a key that it already has: it never compares the key with the last node of a chain. After a key that was
  absent is inserted in a bucket with two free nodes, a second \<^verbatim>\<open>insert\<close> of the same key succeeds too, \<^verbatim>\<open>size\<close> counts it
  twice, \<^verbatim>\<open>find\<close> shows the first value, and after \<^verbatim>\<open>erase\<close> of the key \<^verbatim>\<open>find\<close> shows the second value instead of the end node.
\<close>

theorem core_map_insert_twice:
  assumes M: "map_rep hash M" and new: "Map_find hash key M = Some None"
    and room: "int (length (pairs_of hash key M)) + 2 \<le> p_bucket_len M"
  shows "\<exists>M1 r1 M2 r2 M3. Map_insert hash key v M = Some (M1, r1, True) \<and> Map_insert hash key w M1 = Some (M2, r2, True) \<and>
    p_size M2 = p_size M + 2 \<and> Map_find hash key M2 = Some (Some (key, v)) \<and>
    Map_erase hash key M2 = Some (M3, True) \<and> Map_find hash key M3 = Some (Some (key, w))"
proof -
  let ?ps = "pairs_of hash key M"
  have none: "map_of ?ps key = None" using new Map_find_exact [OF M, of key] Map_abs_pairs [OF M, of key] by simp
  then have absent: "key \<notin> fst ` set ?ps" by (simp add: map_of_eq_None_iff)
  obtain M1 r1 where M1: "Map_insert hash key v M = Some (M1, r1, True)" and R1: "replaced hash key (?ps @ [(key, v)]) M M1"
    using Map_insert_exact [OF M, of key v] room butlast_keys [OF absent] by auto
  have rep1: "map_rep hash M1" and p1: "pairs_of hash key M1 = ?ps @ [(key, v)]" and s1: "p_size M1 = p_size M + 1" "p_bucket_len M1 = p_bucket_len M"
    using R1 by (auto simp: replaced_def)
  obtain M2 r2 where M2: "Map_insert hash key w M1 = Some (M2, r2, True)" and R2: "replaced hash key (?ps @ [(key, v), (key, w)]) M1 M2"
    using Map_insert_exact [OF rep1, of key w] room absent s1(2) by (auto simp: p1)
  have rep2: "map_rep hash M2" and p2: "pairs_of hash key M2 = ?ps @ [(key, v), (key, w)]" and s2: "p_size M2 = p_size M + 2"
    using R2 s1(1) by (auto simp: replaced_def p1)
  have "key \<in> fst ` set (pairs_of hash key M2)" "drop_first key (pairs_of hash key M2) = ?ps @ [(key, w)]"
    using first_split(2) [OF absent, of v "[(key, w)]"] by (simp_all add: p2)
  then obtain M3 where M3: "Map_erase hash key M2 = Some (M3, True)" and R3: "replaced hash key (?ps @ [(key, w)]) M2 M3"
    using Map_erase_exact [OF rep2, of key] by auto
  have rep3: "map_rep hash M3" and p3: "pairs_of hash key M3 = ?ps @ [(key, w)]" using R3 by (auto simp: replaced_def)
  have "Map_find hash key M2 = Some (Some (key, v))" "Map_find hash key M3 = Some (Some (key, w))"
    by (simp_all add: Map_find_exact [OF rep2] Map_find_exact [OF rep3] Map_abs_pairs [OF rep2] Map_abs_pairs [OF rep3] p2 p3 none map_add_def)
  then show ?thesis using M1 M2 M3 s2 by blast
qed

theorem core_map_insert_twice_witness:
  "\<exists>M M1 r1 M2 r2 M3. Map_init (0::nat) (0::int) 2 3 = Some M \<and> Map_insert (\<lambda>k. k) 5 7 M = Some (M1, r1, True) \<and>
     Map_insert (\<lambda>k. k) 5 8 M1 = Some (M2, r2, True) \<and> p_size M2 = p_size M + 2 \<and> Map_find (\<lambda>k. k) 5 M2 = Some (Some (5, 7)) \<and>
     Map_erase (\<lambda>k. k) 5 M2 = Some (M3, True) \<and> Map_find (\<lambda>k. k) 5 M3 = Some (Some (5, 8))"
proof -
  obtain M :: "(nat, int) Map" where M: "Map_init 0 0 2 3 = Some M" "map_within (\<lambda>k. k) 2 3 0 M" "Map_abs M = Map.empty"
    using Map_init_ok [of 2 3 0 0 "\<lambda>k. k"] by auto
  have rep: "map_rep (\<lambda>k. k) M" and len: "p_bucket_len M = 3" using M(2) by (auto simp: map_within_def)
  have "pairs_of (\<lambda>k. k) 5 M = []" using M(2) map_repD(8) [OF rep, of 5] by (simp add: map_within_def pairs_of_def)
  then show ?thesis
    using core_map_insert_twice [OF rep, of 5 7 8] M(1,3) len Map_find_exact [OF rep, of 5] by auto
qed

text \<open>
  C29. \<^verbatim>\<open>rehash\<close> of a map without double keys returns, and every new bucket then holds the pairs that belong to it, in the order of
  the old map, but no more than the length of a bucket; the others are dropped while \<^verbatim>\<open>size\<close> stays as it was. When the new
  number of buckets is a multiple of the old one (the default, or a given factor) none is dropped: the map is
  well-formed and shows the same pairs.
\<close>

theorem core_map_rehash_correct:
  assumes M: "map_rep hash M" "keys_once M" and n: "rehash_len buckets factor (p_bucket_count M) = Some n"
  shows "\<exists>M' full. Map_rehash k0 v0 hash buckets factor M = Some (M', full) \<and> p_bucket_count M' = n \<and> p_size M' = p_size M \<and>
    (\<forall>j < nat n. bucket_pairs (p_buckets M' ! j) =
       take (nat (p_bucket_len M)) (filter (\<lambda>p. hash (fst p) mod nat n = j) (Map_contents M))) \<and>
    (buckets \<le> p_bucket_count M \<longrightarrow> map_rep hash M' \<and> keys_once M' \<and> Map_abs M' = Map_abs M)"
proof -
  note D = map_repD [OF M(1)]
  obtain bs full where r: "Map_rehash k0 v0 hash buckets factor M = Some (M\<lparr>p_buckets := bs, p_bucket_count := n, p_bucket_fill := full\<rparr>,
      p_size M div n \<ge> p_load_threshold M \<or> full)" and F: "filled hash (nat (p_bucket_len M)) (nat n) (Map_contents M) bs"
    using Map_rehash_filled [OF M n, of k0 v0] by blast
  let ?M = "M\<lparr>p_buckets := bs, p_bucket_count := n, p_bucket_fill := full\<rparr>"
  have bp: "bucket_pairs (bs ! j) = take (nat (p_bucket_len M)) (filter (\<lambda>p. hash (fst p) mod nat n = j) (Map_contents M))"
    if "j < nat n" for j using F that by (intro bucket_pairs_holds) (simp add: filled_def)
  have "map_rep hash ?M \<and> keys_once ?M \<and> Map_abs ?M = Map_abs M" if "buckets \<le> p_bucket_count M"
  proof -
    have "n = factor * p_bucket_count M \<and> 1 < factor \<or> n = 2 * p_bucket_count M" using n that by (auto simp: rehash_len_def split: if_splits)
    then obtain f where f: "n = f * p_bucket_count M" "1 < f" by fastforce
    have "nat n = nat f * length (p_buckets M)" using f D(1) by (simp add: nat_mult_distrib)
    note fits = multiple_fits [OF M this]
    have "0 < n" using rehash_len_pos [OF n] D(1,2) by simp
    then show ?thesis using filled_all_rep [OF M _ fits F refl] by blast
  qed
  then show ?thesis using r bp by auto
qed

theorem core_map_rehash_correct_witness:
  "\<exists>M M' full. Map_init (0::nat) (0::int) 2 3 = Some M \<and> Map_rehash 0 0 (\<lambda>k. k) (-1) 3 M = Some (M', full) \<and>
     p_bucket_count M' = 6 \<and> map_rep (\<lambda>k. k) M' \<and> Map_abs M' = Map_abs M"
proof -
  obtain M :: "(nat, int) Map" where M: "Map_init 0 0 2 3 = Some M" "map_within (\<lambda>k. k) 2 3 0 M"
    using Map_init_ok [of 2 3 0 0 "\<lambda>k. k"] by auto
  have "map_rep (\<lambda>k. k) M" "keys_once M" "p_bucket_count M = 2" using M(2) by (auto simp: map_within_def)
  then show ?thesis using core_map_rehash_correct [of "\<lambda>k. k" M "-1" 3 6 0 0] M(1) by (auto simp: rehash_len_def)
qed

text \<open>
  \<^verbatim>\<open>rehash\<close> to a given number of buckets that is no multiple can lose pairs without a sign: of two
  pairs in two buckets of one node, both with a hash that is a multiple of three, only one is left in three buckets, and \<^verbatim>\<open>size\<close> still says two.
\<close>

lemma core_map_rehash_loses_pair:
  "Option.bind (Map_init (0::nat) (0::int) 2 1) (\<lambda>M.
   Option.bind (Map_insert (\<lambda>k. k) 0 10 M) (\<lambda>(M, r1, ok1).
   Option.bind (Map_insert (\<lambda>k. k) 3 20 M) (\<lambda>(M, r2, ok2).
   Option.bind (Map_rehash 0 0 (\<lambda>k. k) 3 (-1) M) (\<lambda>(M', full).
   Some (ok1, ok2, Map_find (\<lambda>k. k) 3 M, Map_find (\<lambda>k. k) 3 M', p_size M'))))) =
   Some (True, True, Some (Some (3, 20)), Some None, 2)"
  by code_simp

end
