(* ===== verification/LumberjackMessage.thy ===== *)
theory LumberjackMessage
  imports StringUtilities
begin

text \<open>
  Messages of the logging library \<^verbatim>\<open>lumberjack\<close> and the text format in which they travel between ranks
  (\<^verbatim>\<open>lumberjack/Message.hpp\<close>, \<^verbatim>\<open>Message.cpp\<close>). Positions in strings are \<^verbatim>\<open>size_t\<close>: \<^verbatim>\<open>npos + 1\<close> is zero, which
  decides what happens to a truncated message. Exceptions of the standard library are values of \<open>lj_error\<close>;
  \<open>Blocked\<close> is a receive that never returns.
\<close>

section \<open>Numbers as text\<close>

text \<open>\<^verbatim>\<open>std::to_string\<close> and \<^verbatim>\<open>std::stoi\<close> of a 32-bit \<^verbatim>\<open>int\<close>.\<close>

datatype lj_error = Invalid_argument | Out_of_range | Blocked

fun lj_bind :: "lj_error + 'a \<Rightarrow> ('a \<Rightarrow> lj_error + 'b) \<Rightarrow> lj_error + 'b" where
  "lj_bind (Inl e) f = Inl e"
| "lj_bind (Inr x) f = f x"

definition digit :: "nat \<Rightarrow> char" where "digit d = ''0123456789'' ! d"

definition isdigit :: "char \<Rightarrow> bool" where "isdigit c \<longleftrightarrow> c \<in> set ''0123456789''"

definition digit_value :: "char \<Rightarrow> nat" where "digit_value c = of_char c - 48"

definition isspace :: "char \<Rightarrow> bool" where "isspace c \<longleftrightarrow> c = CHR '' '' \<or> (9 \<le> (of_char c :: nat) \<and> (of_char c :: nat) \<le> 13)"

function digits_of :: "nat \<Rightarrow> string \<Rightarrow> string" where
  "digits_of n acc = (let acc = digit (n mod 10) # acc in if n < 10 then acc else digits_of (n div 10) acc)"
  by pat_completeness auto
termination by (relation "measure fst") auto

declare digits_of.simps [simp del]

definition to_string :: "int \<Rightarrow> string" where
  "to_string i = (if i < 0 then CHR ''-'' # digits_of (nat (- i)) [] else digits_of (nat i) [])"

definition int_range :: "int \<Rightarrow> bool" where "int_range i \<longleftrightarrow> - (2 ^ 31) \<le> i \<and> i < 2 ^ 31"

definition stoi :: "string \<Rightarrow> lj_error + int" where
  "stoi s =
     (let s = dropWhile isspace s;
          neg = (s \<noteq> [] \<and> hd s = CHR ''-'');
          s = (if s \<noteq> [] \<and> (hd s = CHR ''-'' \<or> hd s = CHR ''+'') then tl s else s);
          ds = takeWhile isdigit s;
          v = fold (\<lambda>c v. 10 * v + int (digit_value c)) ds 0;
          v = (if neg then - v else v)
      in if ds = [] then Inl Invalid_argument else if int_range v then Inr v else Inl Out_of_range)"

section \<open>Messages\<close>

record Message =
  m_text :: string
  m_ranks :: "int list"
  m_ranksLimitReached :: bool
  m_count :: int
  m_fileName :: string
  m_lineNumber :: int
  m_level :: int
  m_tag :: string

definition Message_empty :: Message where
  "Message_empty = \<lparr>m_text = '''', m_ranks = [], m_ranksLimitReached = False, m_count = 0, m_fileName = '''', m_lineNumber = 0, m_level = 0, m_tag = ''''\<rparr>"

definition Message_new :: "string \<Rightarrow> int \<Rightarrow> string \<Rightarrow> int \<Rightarrow> int \<Rightarrow> string \<Rightarrow> Message" where
  "Message_new txt rank fileName lineNumber level tag =
     \<lparr>m_text = txt, m_ranks = [rank], m_ranksLimitReached = False, m_count = 1, m_fileName = fileName,
      m_lineNumber = lineNumber, m_level = level, m_tag = tag\<rparr>"

text \<open>The setters.\<close>

definition Message_set_text :: "string \<Rightarrow> Message \<Rightarrow> Message" where "Message_set_text newText m = m\<lparr>m_text := newText\<rparr>"

definition Message_set_fileName :: "string \<Rightarrow> Message \<Rightarrow> Message" where "Message_set_fileName newFileName m = m\<lparr>m_fileName := newFileName\<rparr>"

definition Message_set_lineNumber :: "int \<Rightarrow> Message \<Rightarrow> Message" where "Message_set_lineNumber newLineNumber m = m\<lparr>m_lineNumber := newLineNumber\<rparr>"

definition Message_set_level :: "int \<Rightarrow> Message \<Rightarrow> Message" where "Message_set_level newLevel m = m\<lparr>m_level := newLevel\<rparr>"

definition Message_set_tag :: "string \<Rightarrow> Message \<Rightarrow> Message" where "Message_set_tag newTag m = m\<lparr>m_tag := newTag\<rparr>"

text \<open>The limit is an \<^verbatim>\<open>int\<close> that is compared as a \<^verbatim>\<open>size_type\<close>.\<close>

definition limit_size :: "int \<Rightarrow> nat" where "limit_size ranksLimit = nat (ranksLimit mod 2 ^ 64)"

definition push_rank :: "int \<Rightarrow> int \<Rightarrow> Message \<Rightarrow> Message" where
  "push_rank newRank ranksLimit m =
     (if length (m_ranks m) < limit_size ranksLimit \<and> (m_ranks m = [] \<or> newRank \<notin> set (m_ranks m))
      then m\<lparr>m_ranks := m_ranks m @ [newRank]\<rparr> else m)"

definition note_limit :: "int \<Rightarrow> Message \<Rightarrow> Message" where
  "note_limit ranksLimit m =
     (if \<not> m_ranksLimitReached m \<and> length (m_ranks m) = limit_size ranksLimit then m\<lparr>m_ranksLimitReached := True\<rparr> else m)"

definition addRank :: "int \<Rightarrow> int \<Rightarrow> Message \<Rightarrow> Message" where
  "addRank newRank ranksLimit m =
     (let m = note_limit ranksLimit (push_rank newRank ranksLimit m) in m\<lparr>m_count := m_count m + 1\<rparr>)"

fun addRanks_loop :: "int list \<Rightarrow> int \<Rightarrow> Message \<Rightarrow> Message" where
  "addRanks_loop [] ranksLimit m = m"
| "addRanks_loop (r # rs) ranksLimit m =
     (if length (m_ranks m) \<ge> limit_size ranksLimit then m else addRanks_loop rs ranksLimit (push_rank r ranksLimit m))"

definition addRanks :: "int list \<Rightarrow> int \<Rightarrow> int \<Rightarrow> Message \<Rightarrow> Message" where
  "addRanks newRanks count ranksLimit m =
     (let m = note_limit ranksLimit (addRanks_loop newRanks ranksLimit m) in m\<lparr>m_count := m_count m + count\<rparr>)"

definition Message_of_ranks :: "string \<Rightarrow> int list \<Rightarrow> int \<Rightarrow> int \<Rightarrow> string \<Rightarrow> int \<Rightarrow> int \<Rightarrow> string \<Rightarrow> Message" where
  "Message_of_ranks txt ranks count ranksLimit fileName lineNumber level tag =
     addRanks ranks count ranksLimit
       (Message_empty\<lparr>m_text := txt, m_fileName := fileName, m_lineNumber := lineNumber, m_level := level, m_tag := tag\<rparr>)"

fun join_ranks :: "string \<Rightarrow> int list \<Rightarrow> string" where
  "join_ranks delimiter [] = []"
| "join_ranks delimiter [r] = to_string r"
| "join_ranks delimiter (r # rs) = to_string r @ delimiter @ join_ranks delimiter rs"

definition stringOfRanks :: "string \<Rightarrow> Message \<Rightarrow> string" where
  "stringOfRanks delimiter m = join_ranks delimiter (m_ranks m) @ (if m_ranksLimitReached m then ''...'' else '''')"

section \<open>Packing and unpacking\<close>

abbreviation memberDelimiter :: char where "memberDelimiter \<equiv> CHR ''*''"
abbreviation rankDelimiter :: char where "rankDelimiter \<equiv> CHR '',''"

definition zeroMessage :: string where "zeroMessage = ''0''"

definition pack :: "Message \<Rightarrow> string" where
  "pack m = join_ranks [rankDelimiter] (m_ranks m) @ [memberDelimiter] @ to_string (m_count m) @ [memberDelimiter] @
     m_fileName m @ [memberDelimiter] @ (if m_lineNumber m > 0 then to_string (m_lineNumber m) else '''') @ [memberDelimiter] @
     to_string (m_level m) @ [memberDelimiter] @ m_tag m @ [memberDelimiter] @ m_text m"

text \<open>The loop of \<^verbatim>\<open>unpackRanks\<close> on the part of the string it has not read.\<close>

function unpackRanks_loop :: "string \<Rightarrow> int \<Rightarrow> Message \<Rightarrow> lj_error + Message" where
  "unpackRanks_loop s ranksLimit m =
     (let sec = takeWhile (\<lambda>c. c \<noteq> rankDelimiter) s; rest = dropWhile (\<lambda>c. c \<noteq> rankDelimiter) s
      in if rest = [] then lj_bind (stoi s) (\<lambda>r. Inr (addRank r ranksLimit m))
         else lj_bind (stoi sec) (\<lambda>r. unpackRanks_loop (tl rest) ranksLimit (addRank r ranksLimit m)))"
  by pat_completeness auto
termination
proof (relation "measure (\<lambda>(s, ranksLimit, m). length s)")
  fix s :: string and rest
  assume "rest = dropWhile (\<lambda>c. c \<noteq> rankDelimiter) s" "rest \<noteq> []"
  then have "length rest \<le> length s" "0 < length rest" using length_dropWhile_le by auto
  then have "length (tl rest) < length s" unfolding length_tl by linarith
  then show "((tl rest, l, m'), s, l, m) \<in> measure (\<lambda>(s, ranksLimit, m). length s)" for l :: int and m m' :: Message by simp
qed simp

declare unpackRanks_loop.simps [simp del]

definition unpackRanks :: "string \<Rightarrow> int \<Rightarrow> Message \<Rightarrow> lj_error + Message" where
  "unpackRanks ranksString ranksLimit m =
     (let m = m\<lparr>m_ranks := []\<rparr> in if ranksString = [] then Inr m else unpackRanks_loop ranksString ranksLimit m)"

text \<open>
  \<^verbatim>\<open>find(memberDelimiter, start)\<close>, and one section: the text between \<^verbatim>\<open>start\<close> and the next delimiter,
  with the position of the delimiter. \<^verbatim>\<open>substr\<close> throws when the position is behind the end.
\<close>

definition find_member :: "string \<Rightarrow> nat \<Rightarrow> nat" where
  "find_member s start =
     (if start \<le> length s \<and> memberDelimiter \<in> set (drop start s)
      then start + length (takeWhile (\<lambda>c. c \<noteq> memberDelimiter) (drop start s)) else size_npos)"

definition size_next :: "nat \<Rightarrow> nat" where "size_next e = (e + 1) mod 2 ^ 64"

definition grab :: "string \<Rightarrow> nat \<Rightarrow> lj_error + string \<times> nat" where
  "grab s start =
     (let e = find_member s start
      in if start \<le> length s then Inr (substr s start (size_sub e start), e) else Inl Out_of_range)"

definition unpack :: "string \<Rightarrow> int \<Rightarrow> Message \<Rightarrow> lj_error + Message" where
  "unpack packedMessage ranksLimit m =
     lj_bind (grab packedMessage 0) (\<lambda>(sec, e).
     lj_bind (unpackRanks sec ranksLimit m) (\<lambda>m.
     lj_bind (grab packedMessage (size_next e)) (\<lambda>(sec, e).
     lj_bind (stoi sec) (\<lambda>count.
     let m = m\<lparr>m_count := count\<rparr> in
     lj_bind (grab packedMessage (size_next e)) (\<lambda>(sec, e).
     let m = m\<lparr>m_fileName := sec\<rparr>; start = size_next e; e = find_member packedMessage start in
     lj_bind (if size_sub e start > 0
              then lj_bind (grab packedMessage start) (\<lambda>(sec, e). lj_bind (stoi sec) (\<lambda>l. Inr (m\<lparr>m_lineNumber := l\<rparr>)))
              else Inr m) (\<lambda>m.
     lj_bind (grab packedMessage (size_next e)) (\<lambda>(sec, e).
     lj_bind (stoi sec) (\<lambda>level.
     let m = m\<lparr>m_level := level\<rparr> in
     lj_bind (grab packedMessage (size_next e)) (\<lambda>(sec, e).
     let m = m\<lparr>m_tag := sec\<rparr>; start = size_next e in
     if start \<le> length packedMessage then Inr (m\<lparr>m_text := drop start packedMessage\<rparr>) else Inl Out_of_range)))))))))"

text \<open>\<^verbatim>\<open>packMessages\<close> ends its buffer with a null character; the receiver makes a string of what is before it.\<close>

definition packMessages :: "Message list \<Rightarrow> string" where
  "packMessages messages =
     (if messages = [] then zeroMessage
      else to_string (int (length messages)) @ [memberDelimiter] @
        concat (map (\<lambda>m. to_string (int (length (pack m))) @ [memberDelimiter] @ pack m) messages))"

definition c_string :: "string \<Rightarrow> string" where
  "c_string s = takeWhile (\<lambda>c. c \<noteq> CHR 0x00) s"

definition isPackedMessagesEmpty :: "string \<Rightarrow> bool" where
  "isPackedMessagesEmpty packed \<longleftrightarrow> c_string packed = [] \<or> c_string packed = zeroMessage"

primrec unpackMessages_loop :: "nat \<Rightarrow> string \<Rightarrow> nat \<Rightarrow> int \<Rightarrow> Message list \<Rightarrow> lj_error + Message list" where
  "unpackMessages_loop 0 s start ranksLimit messages = Inr messages"
| "unpackMessages_loop (Suc n) s start ranksLimit messages =
     lj_bind (grab s start) (\<lambda>(sec, e).
     lj_bind (stoi sec) (\<lambda>messageSize.
     let start = size_next e; size = nat (messageSize mod 2 ^ 64) in
     if start > length s then Inl Out_of_range
     else lj_bind (unpack (substr s start size) ranksLimit Message_empty) (\<lambda>m.
       unpackMessages_loop n s ((start + size) mod 2 ^ 64) ranksLimit (messages @ [m]))))"

definition unpackMessages :: "Message list \<Rightarrow> string \<Rightarrow> int \<Rightarrow> lj_error + Message list" where
  "unpackMessages messages packed ranksLimit =
     (let s = c_string packed
      in lj_bind (grab s 0) (\<lambda>(sec, e). lj_bind (stoi sec) (\<lambda>messageCount.
         unpackMessages_loop (nat messageCount) s (size_next e) ranksLimit messages)))"

section \<open>Numbers travel unchanged\<close>

lemma digit_facts: "d < 10 \<Longrightarrow> digit_value (digit d) = d \<and> isdigit (digit d)"
proof -
  assume "d < 10"
  then have "d \<in> {0, 1, 2, 3, 4, 5, 6, 7, 8, 9}" by auto
  then show ?thesis by (auto simp: digit_def digit_value_def isdigit_def numeral_eq_Suc)
qed

lemma digits_of_acc: "digits_of n acc = digits_of n [] @ acc"
proof (induction n arbitrary: acc rule: less_induct)
  case (less n)
  show ?case
  proof (cases "n < 10")
    case False
    then have "digits_of n acc = digits_of (n div 10) (digit (n mod 10) # acc)" for acc
      by (subst digits_of.simps) simp
    then show ?thesis
      using less.IH [of "n div 10" "digit (n mod 10) # acc"] less.IH [of "n div 10" "[digit (n mod 10)]"] False by simp
  qed (simp add: digits_of.simps [of n])
qed

lemma digits_of_step: "digits_of n [] = (if n < 10 then [digit n] else digits_of (n div 10) [] @ [digit (n mod 10)])"
  by (subst digits_of.simps) (simp add: Let_def digits_of_acc [of "n div 10" "[digit (n mod 10)]"])

lemma digits_of_ne: "digits_of n [] \<noteq> []"
  by (subst digits_of_step) simp

lemma isdigit_digits: "c \<in> set (digits_of n []) \<Longrightarrow> isdigit c"
proof (induction n rule: less_induct)
  case (less n)
  then have "c = digit (n mod 10) \<or> (\<not> n < 10 \<and> c \<in> set (digits_of (n div 10) []))"
    by (subst (asm) (2) digits_of_step) (auto split: if_splits)
  then show ?case using less.IH [of "n div 10"] digit_facts [of "n mod 10"] by auto
qed

lemma digits_value: "fold (\<lambda>c v. 10 * v + int (digit_value c)) (digits_of n []) 0 = int n"
proof (induction n rule: less_induct)
  case (less n)
  show ?case
  proof (cases "n < 10")
    case False
    then have "int n = 10 * int (n div 10) + int (n mod 10)" by presburger
    with False show ?thesis using less [of "n div 10"] by (subst digits_of_step) (simp add: digit_facts)
  qed (subst digits_of_step, simp add: digit_facts)
qed

lemma length_digits: "n < 10 ^ k \<Longrightarrow> 0 < k \<Longrightarrow> length (digits_of n []) \<le> k"
proof (induction k arbitrary: n)
  case (Suc k)
  show ?case
  proof (cases "n < 10")
    case False
    then have "0 < k" "n div 10 < 10 ^ k" using Suc.prems by (cases k; auto simp: less_mult_imp_div_less)+
    then show ?thesis using Suc.IH [of "n div 10"] False by (subst digits_of_step) simp
  qed (subst digits_of_step, simp)
qed simp

lemma not_isdigit: "\<not> isdigit (CHR ''-'')" "\<not> isdigit (CHR ''+'')" "\<not> isdigit (CHR '','')" "\<not> isdigit (CHR ''*'')"
  "\<not> isdigit (CHR 0x00)" "isdigit c \<Longrightarrow> \<not> isspace c"
  by (auto simp: isdigit_def isspace_def)

lemma set_to_string: "c \<in> set (to_string i) \<Longrightarrow> isdigit c \<or> c = CHR ''-''"
  by (auto simp: to_string_def isdigit_digits split: if_splits)

lemma to_string_free: "CHR ''*'' \<notin> set (to_string i)" "CHR '','' \<notin> set (to_string i)" "CHR 0x00 \<notin> set (to_string i)" "to_string i \<noteq> []"
  using set_to_string [of _ i] not_isdigit by (fastforce, fastforce, fastforce, simp add: to_string_def digits_of_ne)

lemma length_to_string: "int_range i \<Longrightarrow> length (to_string i) \<le> 11"
proof -
  assume i: "int_range i"
  then have "nat i < 10 ^ 10" "nat (- i) < 10 ^ 10" by (auto simp: int_range_def)
  then show ?thesis
    using length_digits [of "nat i" 10] length_digits [of "nat (- i)" 10] by (simp add: to_string_def)
qed

lemma stoi_to_string: "int_range i \<Longrightarrow> stoi (to_string i) = Inr i"
proof -
  assume i: "int_range i"
  have tw: "takeWhile isdigit (digits_of n []) = digits_of n []" for n
    using isdigit_digits [of _ n] by (auto simp: takeWhile_eq_all_conv)
  have hd: "isdigit (hd (digits_of n []))" for n
    using isdigit_digits [of "hd (digits_of n [])" n] digits_of_ne by simp
  have dw: "dropWhile isspace (digits_of n []) = digits_of n []" for n
    using not_isdigit(6) [OF hd [of n]] digits_of_ne [of n] by (cases "digits_of n []") auto
  have nosign: "hd (digits_of n []) \<noteq> CHR ''-''" "hd (digits_of n []) \<noteq> CHR ''+''" for n
    using hd [of n] not_isdigit(1,2) by metis+
  have "\<not> isspace (CHR ''-'')" by (simp add: isspace_def)
  then show ?thesis
    using i by (auto simp: stoi_def to_string_def Let_def tw dw nosign digits_of_ne digits_value)
qed

section \<open>Sections\<close>

lemma grab_section:
  assumes "memberDelimiter \<notin> set sec" and "length s < 2 ^ 63" and "s = pre @ sec @ memberDelimiter # post"
  shows "grab s (length pre) = Inr (sec, length pre + length sec)"
    and "find_member s (length pre) = length pre + length sec"
    and "size_next (length pre + length sec) = length (pre @ sec @ [memberDelimiter])"
proof -
  have tw: "takeWhile (\<lambda>c. c \<noteq> memberDelimiter) (sec @ memberDelimiter # post) = sec"
    using assms(1) by (simp add: takeWhile_append takeWhile_eq_all_conv)
  show f: "find_member s (length pre) = length pre + length sec"
    using assms(3) tw by (simp add: find_member_def)
  show "size_next (length pre + length sec) = length (pre @ sec @ [memberDelimiter])"
    using assms(2,3) by (simp add: size_next_def)
  show "grab s (length pre) = Inr (sec, length pre + length sec)"
    using assms(2,3) f size_sub_le [of "length pre" "length pre + length sec"]
    by (simp add: grab_def substr_def size_npos_def)
qed

section \<open>A message travels unchanged\<close>

text \<open>
  Messages that the format can carry: the numbers are of type \<^verbatim>\<open>int\<close>, there is a rank and the ranks are
  tracked within the limit, the file name and the tag do not contain the delimiter, and no string contains
  the null character.
\<close>

definition msg_ok :: "int \<Rightarrow> Message \<Rightarrow> bool" where
  "msg_ok ranksLimit m \<longleftrightarrow> m_ranks m \<noteq> [] \<and> distinct (m_ranks m) \<and> length (m_ranks m) \<le> limit_size ranksLimit \<and>
     list_all int_range (m_ranks m) \<and> int_range (m_count m) \<and> int_range (m_lineNumber m) \<and> int_range (m_level m) \<and>
     memberDelimiter \<notin> set (m_fileName m) \<and> memberDelimiter \<notin> set (m_tag m) \<and>
     CHR 0x00 \<notin> set (m_fileName m) \<and> CHR 0x00 \<notin> set (m_tag m) \<and> CHR 0x00 \<notin> set (m_text m)"

text \<open>What arrives: the line number of a message without one becomes zero, the limit is noted.\<close>

definition received :: "int \<Rightarrow> Message \<Rightarrow> Message" where
  "received ranksLimit m =
     m\<lparr>m_lineNumber := max 0 (m_lineNumber m), m_ranksLimitReached := (length (m_ranks m) = limit_size ranksLimit)\<rparr>"

lemma addRank_new:
  "length (m_ranks m) < limit_size L \<Longrightarrow> r \<notin> set (m_ranks m) \<Longrightarrow>
     addRank r L m = m\<lparr>m_ranks := m_ranks m @ [r], m_count := m_count m + 1,
       m_ranksLimitReached := (m_ranksLimitReached m \<or> Suc (length (m_ranks m)) = limit_size L)\<rparr>"
  by (cases m) (auto simp: addRank_def push_rank_def note_limit_def Let_def)

lemma fold_addRank:
  assumes "distinct (m_ranks m @ rs)" and "length (m_ranks m @ rs) \<le> limit_size L" and "rs \<noteq> []"
  shows "fold (\<lambda>r. addRank r L) rs m = m\<lparr>m_ranks := m_ranks m @ rs, m_count := m_count m + int (length rs),
     m_ranksLimitReached := (m_ranksLimitReached m \<or> length (m_ranks m @ rs) = limit_size L)\<rparr>"
  using assms
proof (induction rs arbitrary: m)
  case (Cons r rs)
  show ?case
  proof (cases "rs = []")
    case True
    then show ?thesis using Cons.prems by (simp add: addRank_new)
  next
    case False
    let ?m = "m\<lparr>m_ranks := m_ranks m @ [r], m_count := m_count m + 1\<rparr>"
    have "Suc (length (m_ranks m)) \<noteq> limit_size L" using Cons.prems False by (cases rs) auto
    then have "addRank r L m = ?m" using Cons.prems addRank_new [of m L r] by (cases m) auto
    then show ?thesis using Cons.IH [of ?m] Cons.prems False by simp
  qed
qed simp

lemma unpackRanks_loop_join:
  "rs \<noteq> [] \<Longrightarrow> list_all int_range rs \<Longrightarrow>
     unpackRanks_loop (join_ranks [rankDelimiter] rs) L m = Inr (fold (\<lambda>r. addRank r L) rs m)"
proof (induction "[rankDelimiter]" rs arbitrary: m rule: join_ranks.induct)
  case (2 r)
  have "dropWhile (\<lambda>c. c \<noteq> rankDelimiter) (to_string r) = []"
    using to_string_free(2) [of r] by auto
  then show ?case using 2 by (subst unpackRanks_loop.simps) (simp add: stoi_to_string)
next
  case (3 r s rs)
  let ?rest = "join_ranks [rankDelimiter] (s # rs)"
  have "takeWhile (\<lambda>c. c \<noteq> rankDelimiter) (to_string r @ rankDelimiter # ?rest) = to_string r"
    "dropWhile (\<lambda>c. c \<noteq> rankDelimiter) (to_string r @ rankDelimiter # ?rest) = rankDelimiter # ?rest"
    using to_string_free(2) [of r] by (simp_all add: takeWhile_append dropWhile_append takeWhile_eq_all_conv)
  then show ?case using 3 by (subst unpackRanks_loop.simps) (simp add: stoi_to_string)
qed simp

lemma join_ranks_free:
  "c \<in> set (join_ranks [rankDelimiter] rs) \<Longrightarrow> c = rankDelimiter \<or> (\<exists>r\<in>set rs. c \<in> set (to_string r))"
  "rs \<noteq> [] \<Longrightarrow> join_ranks [rankDelimiter] rs \<noteq> []"
  by (induction "[rankDelimiter]" rs rule: join_ranks.induct) (auto simp: to_string_free)

lemma unpackRanks_pack:
  assumes "msg_ok L m"
  shows "unpackRanks (join_ranks [rankDelimiter] (m_ranks m)) L Message_empty =
    Inr (Message_empty\<lparr>m_ranks := m_ranks m, m_count := int (length (m_ranks m)), m_ranksLimitReached := (length (m_ranks m) = limit_size L)\<rparr>)"
proof -
  let ?m = "Message_empty\<lparr>m_ranks := []\<rparr>"
  have "m_ranks m \<noteq> []" "list_all int_range (m_ranks m)" "distinct (m_ranks m)" "length (m_ranks m) \<le> limit_size L"
    using assms by (auto simp: msg_ok_def)
  then show ?thesis
    using unpackRanks_loop_join [of "m_ranks m" L ?m] fold_addRank [of ?m "m_ranks m" L] join_ranks_free(2) [of "m_ranks m"]
    by (simp add: unpackRanks_def Message_empty_def)
qed

lemma unpack_pack:
  assumes "msg_ok L m" and "length (pack m) < 2 ^ 63"
  shows "unpack (pack m) L Message_empty = Inr (received L m)"
proof -
  define s where "s = pack m"
  define rs where "rs = join_ranks [rankDelimiter] (m_ranks m)"
  define cnt where "cnt = to_string (m_count m)"
  define line where "line = (if m_lineNumber m > 0 then to_string (m_lineNumber m) else '''')"
  define lev where "lev = to_string (m_level m)"
  let ?d = "[memberDelimiter]"
  let ?p1 = "rs @ ?d" let ?p2 = "?p1 @ cnt @ ?d" let ?p3 = "?p2 @ m_fileName m @ ?d" let ?p4 = "?p3 @ line @ ?d"
  let ?p5 = "?p4 @ lev @ ?d" let ?p6 = "?p5 @ m_tag m @ ?d"
  have s: "s = ?p6 @ m_text m" by (simp add: s_def pack_def rs_def cnt_def line_def lev_def)
  have len: "length s < 2 ^ 63" using assms(2) by (simp add: s_def)
  have ok: "memberDelimiter \<notin> set (m_fileName m)" "memberDelimiter \<notin> set (m_tag m)"
    "int_range (m_count m)" "int_range (m_lineNumber m)" "int_range (m_level m)" using assms(1) by (auto simp: msg_ok_def)
  have free: "memberDelimiter \<notin> set rs" "memberDelimiter \<notin> set cnt" "memberDelimiter \<notin> set line" "memberDelimiter \<notin> set lev"
    using join_ranks_free(1) [of memberDelimiter "m_ranks m"] to_string_free(1) by (auto simp: rs_def cnt_def line_def lev_def)
  note g1 = grab_section [OF free(1) len, of "[]"] and g2 = grab_section [OF free(2) len, of ?p1]
    and g3 = grab_section [OF ok(1) len, of ?p2] and g4 = grab_section [OF free(3) len, of ?p3]
    and g5 = grab_section [OF free(4) len, of ?p4] and g6 = grab_section [OF ok(2) len, of ?p5]
  have grabs: "grab s 0 = Inr (rs, length rs)" "size_next (length rs) = length ?p1"
    "grab s (length ?p1) = Inr (cnt, length ?p1 + length cnt)" "size_next (length ?p1 + length cnt) = length ?p2"
    "grab s (length ?p2) = Inr (m_fileName m, length ?p2 + length (m_fileName m))" "size_next (length ?p2 + length (m_fileName m)) = length ?p3"
    "grab s (length ?p3) = Inr (line, length ?p3 + length line)" "find_member s (length ?p3) = length ?p3 + length line"
    "size_next (length ?p3 + length line) = length ?p4"
    "grab s (length ?p4) = Inr (lev, length ?p4 + length lev)" "size_next (length ?p4 + length lev) = length ?p5"
    "grab s (length ?p5) = Inr (m_tag m, length ?p5 + length (m_tag m))" "size_next (length ?p5 + length (m_tag m)) = length ?p6"
    using g1 [where post = "cnt @ ?d @ m_fileName m @ ?d @ line @ ?d @ lev @ ?d @ m_tag m @ ?d @ m_text m"]
      g2 [where post = "m_fileName m @ ?d @ line @ ?d @ lev @ ?d @ m_tag m @ ?d @ m_text m"]
      g3 [where post = "line @ ?d @ lev @ ?d @ m_tag m @ ?d @ m_text m"]
      g4 [where post = "lev @ ?d @ m_tag m @ ?d @ m_text m"] g5 [where post = "m_tag m @ ?d @ m_text m"]
      g6 [where post = "m_text m"] s by simp_all
  have sub: "size_sub (length ?p3 + length line) (length ?p3) = length line"
    using len s size_sub_le [of "length ?p3" "length ?p3 + length line"] by (simp add: size_npos_def)
  have line: "line \<noteq> [] \<longleftrightarrow> m_lineNumber m > 0" "m_lineNumber m > 0 \<Longrightarrow> stoi line = Inr (m_lineNumber m)"
    using ok(4) by (auto simp: line_def to_string_free stoi_to_string)
  have last: "length ?p6 \<le> length s" "drop (length ?p6) s = m_text m"
    using s append_eq_conv_conj [of ?p6 "m_text m" s] by simp_all
  show ?thesis
    unfolding s_def [symmetric] unpack_def grabs(1,2) lj_bind.simps prod.case unpackRanks_pack [OF assms(1), folded rs_def] Let_def grabs sub
    using line last ok(3,5)
    by (auto simp: cnt_def lev_def stoi_to_string received_def Message_empty_def max_def)
qed

lemma pack_free: "msg_ok L m \<Longrightarrow> CHR 0x00 \<notin> set (pack m)"
  using join_ranks_free(1) [of "CHR 0x00" "m_ranks m"] to_string_free(3)
  by (auto simp: pack_def msg_ok_def)

text \<open>The size of the text of one message in the buffer.\<close>

definition framed :: "Message \<Rightarrow> string" where
  "framed m = to_string (int (length (pack m))) @ [memberDelimiter] @ pack m"

lemma unpackMessages_loop_ok:
  assumes "list_all (msg_ok L) ms" and "s = pre @ concat (map framed ms)" and "length s < 2 ^ 31"
  shows "unpackMessages_loop (length ms) s (length pre) L acc = Inr (acc @ map (received L) ms)"
  using assms(1,2)
proof (induction ms arbitrary: pre acc)
  case (Cons m ms)
  let ?size = "to_string (int (length (pack m)))"
  let ?post = "concat (map framed ms)"
  let ?p = "pre @ ?size @ [memberDelimiter]"
  have s: "s = pre @ ?size @ memberDelimiter # (pack m @ ?post)" using Cons.prems(2) by (simp add: framed_def [of m])
  have len: "length (pack m) < 2 ^ 31" "length s < 2 ^ 63" using assms(3) s by auto
  note g = grab_section [OF to_string_free(1) len(2) s]
  have st: "stoi ?size = Inr (int (length (pack m)))" using len(1) by (intro stoi_to_string) (auto simp: int_range_def)
  have sz: "nat (int (length (pack m)) mod 2 ^ 64) = length (pack m)" using len(1) by simp
  have sub: "length ?p \<le> length s" "substr s (length ?p) (length (pack m)) = pack m"
    by (simp_all add: s substr_def)
  have nxt: "(length ?p + length (pack m)) mod 2 ^ 64 = length (?p @ pack m)"
    using len(2) s by simp
  have "unpack (pack m) L Message_empty = Inr (received L m)" using Cons.prems(1) len(1) by (intro unpack_pack) auto
  moreover have "unpackMessages_loop (length ms) s (length (?p @ pack m)) L (acc @ [received L m]) =
      Inr ((acc @ [received L m]) @ map (received L) ms)"
    by (rule Cons.IH) (use Cons.prems(1) s in auto)
  ultimately show ?case
    unfolding list.size(4) add_Suc_right add_0_right unpackMessages_loop.simps g(1) lj_bind.simps prod.case st g(3) Let_def sz sub(2) nxt
    using sub(1) by simp
qed simp

lemma c_string_packMessages:
  assumes "list_all (msg_ok L) ms"
  shows "c_string (packMessages ms) = packMessages ms"
proof -
  have "CHR 0x00 \<notin> set (to_string (int (length (pack m))) @ [memberDelimiter] @ pack m)" if "m \<in> set ms" for m
    using that assms to_string_free(3) pack_free [of L m] by (auto simp: list_all_iff)
  then have "CHR 0x00 \<notin> set (packMessages ms)"
    using to_string_free(3) by (auto simp: packMessages_def zeroMessage_def)
  then show ?thesis by (auto simp: c_string_def takeWhile_eq_all_conv)
qed

lemma unpackMessages_packMessages:
  assumes "list_all (msg_ok L) ms" and "ms \<noteq> []" and "length (packMessages ms) < 2 ^ 31"
  shows "unpackMessages acc (packMessages ms) L = Inr (acc @ map (received L) ms)"
proof -
  let ?n = "to_string (int (length ms))"
  define s where "s = packMessages ms"
  have s: "s = [] @ ?n @ memberDelimiter # concat (map framed ms)"
    using assms(2) by (simp add: s_def packMessages_def framed_def [abs_def])
  have len: "length s < 2 ^ 31" "length s < 2 ^ 63" using assms(3) by (simp_all add: s_def)
  have c: "c_string s = s" unfolding s_def using assms(1) by (rule c_string_packMessages)
  have "length ms \<le> length (concat (map framed ms))"
    by (induction ms) (auto simp: framed_def)
  then have n: "stoi ?n = Inr (int (length ms))" using len(1) s by (intro stoi_to_string) (auto simp: int_range_def)
  note g = grab_section [OF to_string_free(1) len(2) s]
  show ?thesis
    unfolding s_def [symmetric] unpackMessages_def Let_def c
    using g(1,3) n unpackMessages_loop_ok [OF assms(1) _ len(1), of "?n @ [memberDelimiter]" acc] s by simp
qed

lemma empty_packet:
  assumes "list_all (msg_ok L) ms"
  shows "isPackedMessagesEmpty (packMessages ms) \<longleftrightarrow> ms = []"
proof (cases "ms = []")
  case False
  then have "memberDelimiter \<in> set (packMessages ms)" by (simp add: packMessages_def)
  then show ?thesis
    using False c_string_packMessages [OF assms] by (auto simp: isPackedMessagesEmpty_def zeroMessage_def)
qed (simp add: isPackedMessagesEmpty_def packMessages_def c_string_def zeroMessage_def)

text \<open>
  C25. Messages that the format can carry (\<open>msg_ok\<close>: no asterisk in the file name or the tag, no null character in a string,
  at least one rank, the ranks distinct and within the limit, all numbers of type \<^verbatim>\<open>int\<close>), in a buffer of less than \<open>2 ^ 31\<close> characters,
  arrive as they were sent: unpacking the buffer of a non-empty
  list of messages appends exactly these messages, in order, with the same text, tag, file, level,
  ranks and count, where a line number that was not positive arrives as zero. The buffer of an empty list is
  recognised as empty, and that of no other list is.
\<close>

theorem lumberjack_pack_roundtrip:
  assumes "list_all (msg_ok L) ms" and "length (packMessages ms) < 2 ^ 31"
  shows "if ms = [] then isPackedMessagesEmpty (packMessages ms)
    else \<not> isPackedMessagesEmpty (packMessages ms) \<and>
      unpackMessages acc (packMessages ms) L = Inr (acc @ map (received L) ms)"
  using empty_packet [OF assms(1)] unpackMessages_packMessages [OF assms(1) _ assms(2)] by (cases "ms = []") simp_all

definition sample_message :: Message where
  "sample_message = Message_new ''a*b'' 3 ''f.cpp'' (-1) 2 ''io''"

lemma sample_message_ok: "msg_ok 5 sample_message"
  by (simp add: msg_ok_def sample_message_def Message_new_def limit_size_def int_range_def)

theorem lumberjack_pack_roundtrip_witness:
  "packMessages [sample_message] = ''1*19*3*1*f.cpp**2*io*a*b'' \<and>
   unpackMessages [] ''1*19*3*1*f.cpp**2*io*a*b'' 5 = Inr [sample_message\<lparr>m_lineNumber := 0\<rparr>]"
proof -
  have "digits_of 1 [] = ''1''" "digits_of 2 [] = ''2''" "digits_of 3 [] = ''3''" "digits_of 19 [] = ''19''"
    by (simp_all add: digits_of_step [of "Suc 0"] digits_of_step [of 2] digits_of_step [of 3] digits_of_step [of 19] digit_def)
  then have p: "packMessages [sample_message] = ''1*19*3*1*f.cpp**2*io*a*b''"
    by (simp add: packMessages_def pack_def sample_message_def Message_new_def to_string_def)
  moreover have "received 5 sample_message = sample_message\<lparr>m_lineNumber := 0\<rparr>"
    by (simp add: received_def sample_message_def Message_new_def limit_size_def)
  ultimately show ?thesis
    using lumberjack_pack_roundtrip [of 5 "[sample_message]" "[]"] sample_message_ok by simp
qed

text \<open>Delimiters inside the members.\<close>

lemma pack_tag_delimiter:
  "m_tag m = a @ memberDelimiter # b \<Longrightarrow> pack m = pack (m\<lparr>m_tag := a, m_text := b @ memberDelimiter # m_text m\<rparr>)"
  by (simp add: pack_def)

lemma unpack_bad_line:
  assumes "msg_ok L (m\<lparr>m_fileName := a\<rparr>)" and "m_fileName m = a @ memberDelimiter # b" and "memberDelimiter \<notin> set b"
    and "b \<noteq> []" and "stoi b = Inl e" and "length (pack m) < 2 ^ 63"
  shows "unpack (pack m) L Message_empty = Inl e"
proof -
  define s where "s = pack m"
  define rs where "rs = join_ranks [rankDelimiter] (m_ranks m)"
  define cnt where "cnt = to_string (m_count m)"
  define post where "post = (if m_lineNumber m > 0 then to_string (m_lineNumber m) else []) @ [memberDelimiter] @
     to_string (m_level m) @ [memberDelimiter] @ m_tag m @ [memberDelimiter] @ m_text m"
  let ?d = "[memberDelimiter]"
  let ?p1 = "rs @ ?d" let ?p2 = "?p1 @ cnt @ ?d" let ?p3 = "?p2 @ a @ ?d"
  have s: "s = ?p3 @ b @ ?d @ post" by (simp add: s_def pack_def rs_def cnt_def post_def assms(2))
  have len: "length s < 2 ^ 63" using assms(6) by (simp add: s_def)
  have ok: "memberDelimiter \<notin> set a" "int_range (m_count m)" using assms(1) by (auto simp: msg_ok_def)
  have free: "memberDelimiter \<notin> set rs" "memberDelimiter \<notin> set cnt"
    using join_ranks_free(1) [of memberDelimiter "m_ranks m"] to_string_free(1) by (auto simp: rs_def cnt_def)
  have grabs: "grab s 0 = Inr (rs, length rs)" "size_next (length rs) = length ?p1"
    "grab s (length ?p1) = Inr (cnt, length ?p1 + length cnt)" "size_next (length ?p1 + length cnt) = length ?p2"
    "grab s (length ?p2) = Inr (a, length ?p2 + length a)" "size_next (length ?p2 + length a) = length ?p3"
    "grab s (length ?p3) = Inr (b, length ?p3 + length b)" "find_member s (length ?p3) = length ?p3 + length b"
    using grab_section [OF free(1) len, of "[]" "cnt @ ?d @ a @ ?d @ b @ ?d @ post"]
      grab_section [OF free(2) len, of ?p1 "a @ ?d @ b @ ?d @ post"]
      grab_section [OF ok(1) len, of ?p2 "b @ ?d @ post"] grab_section [OF assms(3) len, of ?p3 post] s by simp_all
  have sub: "size_sub (length ?p3 + length b) (length ?p3) = length b"
    using len s size_sub_le [of "length ?p3" "length ?p3 + length b"] by (simp add: size_npos_def)
  have ranks: "unpackRanks rs L Message_empty = Inr (Message_empty\<lparr>m_ranks := m_ranks m, m_count := int (length (m_ranks m)),
      m_ranksLimitReached := (length (m_ranks m) = limit_size L)\<rparr>)"
    using unpackRanks_pack [OF assms(1)] by (simp add: rs_def)
  show ?thesis
    unfolding s_def [symmetric] unpack_def grabs(1,2) lj_bind.simps prod.case ranks Let_def grabs sub
    using ok(2) assms(4,5) by (simp add: cnt_def stoi_to_string)
qed

text \<open>
  The delimiter inside a member. When the tag contains it, the receiver takes the part before it as the
  tag and the rest as the beginning of the text. When the file name contains it and what follows does
  not begin like a number, the receiver throws an exception.
\<close>

theorem lumberjack_delimiter_in_members:
  assumes "msg_ok L m" and "c \<noteq> []" and "memberDelimiter \<notin> set c" and "CHR 0x00 \<notin> set c"
    and "length (pack m) + length c < 2 ^ 31"
  shows "unpack (pack (m\<lparr>m_tag := m_tag m @ memberDelimiter # c\<rparr>)) L Message_empty =
      Inr (received L (m\<lparr>m_text := c @ memberDelimiter # m_text m\<rparr>)) \<and>
    (stoi c = Inl Invalid_argument \<longrightarrow>
      unpack (pack (m\<lparr>m_fileName := m_fileName m @ memberDelimiter # c\<rparr>)) L Message_empty = Inl Invalid_argument)"
proof
  let ?t = "m\<lparr>m_text := c @ memberDelimiter # m_text m\<rparr>"
  have "pack (m\<lparr>m_tag := m_tag m @ memberDelimiter # c\<rparr>) = pack ?t"
    by (subst pack_tag_delimiter [of _ "m_tag m" c]) simp_all
  moreover have "msg_ok L ?t" using assms(1,4) by (simp add: msg_ok_def)
  moreover have "length (pack ?t) = length (pack m) + length c + 1" by (simp add: pack_def)
  then have "length (pack ?t) < 2 ^ 63" using assms(5) by simp
  ultimately show "unpack (pack (m\<lparr>m_tag := m_tag m @ memberDelimiter # c\<rparr>)) L Message_empty = Inr (received L ?t)"
    using unpack_pack by simp
  show "stoi c = Inl Invalid_argument \<longrightarrow>
      unpack (pack (m\<lparr>m_fileName := m_fileName m @ memberDelimiter # c\<rparr>)) L Message_empty = Inl Invalid_argument"
  proof
    have "length (pack (m\<lparr>m_fileName := m_fileName m @ memberDelimiter # c\<rparr>)) = length (pack m) + length c + 1"
      by (simp add: pack_def)
    then have "length (pack (m\<lparr>m_fileName := m_fileName m @ memberDelimiter # c\<rparr>)) < 2 ^ 63" using assms(5) by simp
    moreover assume "stoi c = Inl Invalid_argument"
    ultimately show "unpack (pack (m\<lparr>m_fileName := m_fileName m @ memberDelimiter # c\<rparr>)) L Message_empty = Inl Invalid_argument"
      using unpack_bad_line [where L = L and m = "m\<lparr>m_fileName := m_fileName m @ memberDelimiter # c\<rparr>" and a = "m_fileName m" and b = c] assms by simp
  qed
qed

theorem lumberjack_delimiter_in_members_witness:
  "unpack (pack (sample_message\<lparr>m_fileName := ''f.cpp*x''\<rparr>)) 5 Message_empty = Inl Invalid_argument"
proof -
  have "stoi ''x'' = Inl Invalid_argument" by (simp add: stoi_def isspace_def isdigit_def)
  moreover have "length (pack sample_message) + length ''x'' < 2 ^ 31"
    using length_to_string [of 3] length_to_string [of 1] length_to_string [of 2]
    by (simp add: pack_def sample_message_def Message_new_def int_range_def)
  ultimately show ?thesis
    using lumberjack_delimiter_in_members [OF sample_message_ok, of "''x''"]
    by (simp add: sample_message_def Message_new_def)
qed

end
