(* ===== verification/LumberjackNetwork.thy ===== *)
theory LumberjackNetwork
  imports LumberjackMessage "HOL-Library.Multiset"
begin

text \<open>
  The logging library \<^verbatim>\<open>lumberjack\<close>: combiners (\<^verbatim>\<open>TextEqualityCombiner.hpp\<close>, \<^verbatim>\<open>TextTagCombiner.hpp\<close>), the
  queue of each rank and its combination (\<^verbatim>\<open>Lumberjack.cpp\<close>), and the two communicators
  (\<^verbatim>\<open>BinaryTreeCommunicator.cpp\<close>, \<^verbatim>\<open>RootCommunicator.cpp\<close>). MPI is a parameter: the function \<open>deliver\<close> says in which
  order the packets sent to a rank arrive in a round. The ranks run the same calls, and the barriers
  at both ends of \<^verbatim>\<open>push\<close> make a round of pushes one step of all of them.
\<close>

section \<open>Combiners\<close>

record combiner =
  c_id :: string
  c_should :: "Message \<Rightarrow> Message \<Rightarrow> bool"
  c_combine :: "Message \<Rightarrow> Message \<Rightarrow> int \<Rightarrow> Message"

definition TextEqualityCombiner :: combiner where
  "TextEqualityCombiner = \<lparr>c_id = ''TextEqualityCombiner'', c_should = (\<lambda>l r. m_text l = m_text r),
     c_combine = (\<lambda>combined combinee ranksLimit. addRanks (m_ranks combinee) (m_count combinee) ranksLimit combined)\<rparr>"

definition TextTagCombiner :: combiner where
  "TextTagCombiner = \<lparr>c_id = ''TextTagCombiner'', c_should = (\<lambda>l r. m_text l = m_text r \<and> m_tag l = m_tag r),
     c_combine = (\<lambda>combined combinee ranksLimit. addRanks (m_ranks combinee) (m_count combinee) ranksLimit combined)\<rparr>"

text \<open>
  The inner loops of \<^verbatim>\<open>combineMessages\<close>: the first final message, and for it the first combiner, that
  takes the message.
\<close>

fun absorb :: "combiner list \<Rightarrow> int \<Rightarrow> Message list \<Rightarrow> Message \<Rightarrow> Message list option" where
  "absorb cs ranksLimit [] m = None"
| "absorb cs ranksLimit (f # fs) m =
     (case List.find (\<lambda>c. c_should c f m) cs of
        Some c \<Rightarrow> Some (c_combine c f m ranksLimit # fs)
      | None \<Rightarrow> map_option ((#) f) (absorb cs ranksLimit fs m))"

definition combine_one :: "combiner list \<Rightarrow> int \<Rightarrow> Message \<Rightarrow> Message list \<Rightarrow> Message list" where
  "combine_one cs ranksLimit m final = (case absorb cs ranksLimit final m of Some fs \<Rightarrow> fs | None \<Rightarrow> final @ [m])"

definition combineMessages :: "combiner list \<Rightarrow> int \<Rightarrow> Message list \<Rightarrow> Message list" where
  "combineMessages cs ranksLimit ms =
     (if length ms < 2 then ms else fold (combine_one cs ranksLimit) (tl ms) [hd ms])"

section \<open>Communicators\<close>

text \<open>\<^verbatim>\<open>int(log2(n))\<close> of a positive number.\<close>

function ilog2 :: "nat \<Rightarrow> nat" where
  "ilog2 n = (if n < 2 then 0 else Suc (ilog2 (n div 2)))"
  by pat_completeness auto
termination by (relation "measure id") auto

declare ilog2.simps [simp del]

record BinaryTreeCommunicator =
  bt_rank :: int
  bt_size :: int
  bt_ranksLimit :: int
  bt_treeHeight :: int
  bt_parentRank :: int
  bt_leftChildRank :: int
  bt_rightChildRank :: int
  bt_childCount :: nat

definition BinaryTree_initialize :: "int \<Rightarrow> int \<Rightarrow> int \<Rightarrow> BinaryTreeCommunicator" where
  "BinaryTree_initialize rank n ranksLimit =
     (let left = rank * 2 + 1; right = rank * 2 + 2; count = 0 :: nat;
          (left, count) = (if left < n then (left, count + 1) else (-1, count));
          (right, count) = (if right < n then (right, count + 1) else (-1, count))
      in \<lparr>bt_rank = rank, bt_size = n, bt_ranksLimit = ranksLimit, bt_treeHeight = int (ilog2 (nat n)) + 1,
          bt_parentRank = (rank - 1) div 2, bt_leftChildRank = left, bt_rightChildRank = right, bt_childCount = count\<rparr>)"

record RootCommunicator =
  rc_rank :: int
  rc_size :: int
  rc_ranksLimit :: int

definition Root_initialize :: "int \<Rightarrow> int \<Rightarrow> int \<Rightarrow> RootCommunicator" where
  "Root_initialize rank n ranksLimit = \<lparr>rc_rank = rank, rc_size = n, rc_ranksLimit = ranksLimit\<rparr>"

datatype Communicator = BinaryTree BinaryTreeCommunicator | Root RootCommunicator

fun comm_rank :: "Communicator \<Rightarrow> int" where
  "comm_rank (BinaryTree c) = bt_rank c"
| "comm_rank (Root c) = rc_rank c"

definition comm_isOutputNode :: "Communicator \<Rightarrow> bool" where
  "comm_isOutputNode c \<longleftrightarrow> comm_rank c = 0"

fun comm_numPushesToFlush :: "Communicator \<Rightarrow> int" where
  "comm_numPushesToFlush (BinaryTree c) = bt_treeHeight c - 1"
| "comm_numPushesToFlush (Root c) = 1"

fun comm_set_ranksLimit :: "int \<Rightarrow> Communicator \<Rightarrow> Communicator" where
  "comm_set_ranksLimit v (BinaryTree c) = BinaryTree (c\<lparr>bt_ranksLimit := v\<rparr>)"
| "comm_set_ranksLimit v (Root c) = Root (c\<lparr>rc_ranksLimit := v\<rparr>)"

text \<open>\<^verbatim>\<open>push\<close> between the barriers: what the rank sends and to whom, and what it keeps of the packets that arrive.\<close>

definition packet :: "string \<Rightarrow> string" where
  "packet packed = c_string (if isPackedMessagesEmpty packed then zeroMessage else packed)"

definition BinaryTree_send :: "BinaryTreeCommunicator \<Rightarrow> string \<Rightarrow> (int \<times> string) option" where
  "BinaryTree_send c packed = (if bt_rank c \<noteq> 0 then Some (bt_parentRank c, packet packed) else None)"

definition Root_send :: "RootCommunicator \<Rightarrow> string \<Rightarrow> (int \<times> string) option" where
  "Root_send c packed = (if rc_rank c = 0 then None else Some (0, packet packed))"

fun comm_send :: "Communicator \<Rightarrow> string \<Rightarrow> (int \<times> string) option" where
  "comm_send (BinaryTree c) packed = BinaryTree_send c packed"
| "comm_send (Root c) packed = Root_send c packed"

definition receive_loop :: "nat \<Rightarrow> string list \<Rightarrow> lj_error + string list" where
  "receive_loop n arriving =
     (if length arriving < n then Inl Blocked else Inr (filter (\<lambda>p. \<not> isPackedMessagesEmpty p) (take n arriving)))"

definition BinaryTree_receive :: "BinaryTreeCommunicator \<Rightarrow> string list \<Rightarrow> lj_error + string list" where
  "BinaryTree_receive c arriving = receive_loop (bt_childCount c) arriving"

definition Root_receive :: "RootCommunicator \<Rightarrow> string list \<Rightarrow> lj_error + string list" where
  "Root_receive c arriving = (if rc_rank c = 0 then receive_loop (nat (rc_size c - 1)) arriving else Inr [])"

fun comm_receive :: "Communicator \<Rightarrow> string list \<Rightarrow> lj_error + string list" where
  "comm_receive (BinaryTree c) arriving = BinaryTree_receive c arriving"
| "comm_receive (Root c) arriving = Root_receive c arriving"

section \<open>Lumberjack\<close>

record Lumberjack =
  l_comm :: Communicator
  l_ranksLimit :: int
  l_combiners :: "combiner list"
  l_messages :: "Message list"

definition Lumberjack_initialize :: "Communicator \<Rightarrow> int \<Rightarrow> Lumberjack" where
  "Lumberjack_initialize comm ranksLimit =
     \<lparr>l_comm = comm, l_ranksLimit = ranksLimit, l_combiners = [TextTagCombiner], l_messages = []\<rparr>"

definition addCombiner :: "combiner \<Rightarrow> Lumberjack \<Rightarrow> Lumberjack" where
  "addCombiner c lj =
     (if list_ex (\<lambda>d. c_id d = c_id c) (l_combiners lj) then lj else lj\<lparr>l_combiners := l_combiners lj @ [c]\<rparr>)"

fun remove_first :: "('a \<Rightarrow> bool) \<Rightarrow> 'a list \<Rightarrow> 'a list" where
  "remove_first P [] = []"
| "remove_first P (x # xs) = (if P x then xs else x # remove_first P xs)"

definition removeCombiner :: "string \<Rightarrow> Lumberjack \<Rightarrow> Lumberjack" where
  "removeCombiner i lj = lj\<lparr>l_combiners := remove_first (\<lambda>c. c_id c = i) (l_combiners lj)\<rparr>"

definition clearCombiners :: "Lumberjack \<Rightarrow> Lumberjack" where
  "clearCombiners lj = lj\<lparr>l_combiners := []\<rparr>"

definition Lumberjack_ranksLimit :: "int \<Rightarrow> Lumberjack \<Rightarrow> Lumberjack" where
  "Lumberjack_ranksLimit v lj = lj\<lparr>l_ranksLimit := v, l_comm := comm_set_ranksLimit v (l_comm lj)\<rparr>"

definition clearMessages :: "Lumberjack \<Rightarrow> Lumberjack" where
  "clearMessages lj = lj\<lparr>l_messages := []\<rparr>"

definition queueMessage :: "string \<Rightarrow> string \<Rightarrow> int \<Rightarrow> int \<Rightarrow> string \<Rightarrow> Lumberjack \<Rightarrow> Lumberjack" where
  "queueMessage txt fileName lineNumber level tag lj =
     lj\<lparr>l_messages := l_messages lj @ [Message_new txt (comm_rank (l_comm lj)) fileName lineNumber level tag]\<rparr>"

definition queueMessage_text :: "string \<Rightarrow> Lumberjack \<Rightarrow> Lumberjack" where
  "queueMessage_text txt lj = queueMessage txt '''' (-1) 0 '''' lj"

text \<open>\<^verbatim>\<open>finalize\<close>; the communicator is not used after it.\<close>

definition Lumberjack_finalize :: "Lumberjack \<Rightarrow> Lumberjack" where
  "Lumberjack_finalize lj = clearMessages (clearCombiners lj)"

definition Lumberjack_combine :: "Lumberjack \<Rightarrow> Lumberjack" where
  "Lumberjack_combine lj = lj\<lparr>l_messages := combineMessages (l_combiners lj) (l_ranksLimit lj) (l_messages lj)\<rparr>"

text \<open>One pass of the loop of \<^verbatim>\<open>pushMessagesFully\<close> on a rank: before and after the packets travel.\<close>

definition prepare :: "Lumberjack \<Rightarrow> Lumberjack \<times> string" where
  "prepare lj =
     (if comm_isOutputNode (l_comm lj) then (lj, '''')
      else let lj = Lumberjack_combine lj in (clearMessages lj, packMessages (l_messages lj)))"

fun unpack_all :: "int \<Rightarrow> Message list \<Rightarrow> string list \<Rightarrow> lj_error + Message list" where
  "unpack_all ranksLimit ms [] = Inr ms"
| "unpack_all ranksLimit ms (p # ps) = lj_bind (unpackMessages ms p ranksLimit) (\<lambda>ms. unpack_all ranksLimit ms ps)"

definition absorb_packets :: "Lumberjack \<Rightarrow> string list \<Rightarrow> lj_error + Lumberjack" where
  "absorb_packets lj arriving =
     lj_bind (comm_receive (l_comm lj) arriving) (\<lambda>ps.
     lj_bind (unpack_all (l_ranksLimit lj) (l_messages lj) ps) (\<lambda>ms. Inr (lj\<lparr>l_messages := ms\<rparr>)))"

text \<open>A round: every rank prepares, the packets travel, every rank takes in what arrives.\<close>

fun all_ranks :: "('a \<Rightarrow> lj_error + 'b) \<Rightarrow> 'a list \<Rightarrow> lj_error + 'b list" where
  "all_ranks f [] = Inr []"
| "all_ranks f (x # xs) = lj_bind (f x) (\<lambda>y. lj_bind (all_ranks f xs) (\<lambda>ys. Inr (y # ys)))"

definition sent_to :: "(Lumberjack \<times> string) list \<Rightarrow> int \<Rightarrow> string list" where
  "sent_to prepared r =
     List.map_filter (\<lambda>(lj, packed). case comm_send (l_comm lj) packed of
        Some (dest, p) \<Rightarrow> if dest = r then Some p else None | None \<Rightarrow> None) prepared"

definition push_round :: "(int \<Rightarrow> string list \<Rightarrow> string list) \<Rightarrow> Lumberjack list \<Rightarrow> lj_error + Lumberjack list" where
  "push_round deliver nodes =
     (let prepared = map prepare nodes
      in all_ranks (\<lambda>(lj, _). absorb_packets lj (deliver (comm_rank (l_comm lj)) (sent_to prepared (comm_rank (l_comm lj))))) prepared)"

primrec push_rounds :: "(nat \<Rightarrow> int \<Rightarrow> string list \<Rightarrow> string list) \<Rightarrow> nat \<Rightarrow> Lumberjack list \<Rightarrow> lj_error + Lumberjack list" where
  "push_rounds deliver 0 nodes = Inr nodes"
| "push_rounds deliver (Suc n) nodes = lj_bind (push_round (deliver n) nodes) (push_rounds deliver n)"

definition pushMessagesOnce :: "(nat \<Rightarrow> int \<Rightarrow> string list \<Rightarrow> string list) \<Rightarrow> Lumberjack list \<Rightarrow> lj_error + Lumberjack list" where
  "pushMessagesOnce deliver nodes = lj_bind (push_rounds deliver 1 nodes) (\<lambda>nodes. Inr (map Lumberjack_combine nodes))"

definition pushMessagesFully :: "(nat \<Rightarrow> int \<Rightarrow> string list \<Rightarrow> string list) \<Rightarrow> Lumberjack list \<Rightarrow> lj_error + Lumberjack list" where
  "pushMessagesFully deliver nodes =
     lj_bind (push_rounds deliver (nat (comm_numPushesToFlush (l_comm (hd nodes)))) nodes) (\<lambda>nodes. Inr (map Lumberjack_combine nodes))"

section \<open>Combining keeps what is counted\<close>

text \<open>The ranks that a message tracks after ranks have been added.\<close>

lemma push_rank_facts:
  "m_text (push_rank r L m) = m_text m" "m_tag (push_rank r L m) = m_tag m" "m_count (push_rank r L m) = m_count m"
  "m_fileName (push_rank r L m) = m_fileName m" "m_lineNumber (push_rank r L m) = m_lineNumber m" "m_level (push_rank r L m) = m_level m"
  "set (m_ranks m) \<subseteq> set (m_ranks (push_rank r L m))" "set (m_ranks (push_rank r L m)) \<subseteq> insert r (set (m_ranks m))"
  "distinct (m_ranks m) \<Longrightarrow> distinct (m_ranks (push_rank r L m))"
  "length (m_ranks m) \<le> limit_size L \<Longrightarrow> length (m_ranks (push_rank r L m)) \<le> limit_size L"
  "length (m_ranks m) < limit_size L \<Longrightarrow> r \<in> set (m_ranks (push_rank r L m))"
  by (auto simp: push_rank_def)

lemma addRanks_loop_members:
  "m_text (addRanks_loop rs L m) = m_text m" "m_tag (addRanks_loop rs L m) = m_tag m" "m_count (addRanks_loop rs L m) = m_count m"
  "m_fileName (addRanks_loop rs L m) = m_fileName m" "m_lineNumber (addRanks_loop rs L m) = m_lineNumber m" "m_level (addRanks_loop rs L m) = m_level m"
  by (induction rs L m rule: addRanks_loop.induct) (simp_all add: push_rank_facts(1-6))

lemma addRanks_loop_keeps: "set (m_ranks m) \<subseteq> set (m_ranks (addRanks_loop rs L m))"
proof (induction rs L m rule: addRanks_loop.induct)
  case (2 r rs L m)
  then show ?case using push_rank_facts(7) [of m r L] by auto
qed simp

lemma addRanks_loop_only: "set (m_ranks (addRanks_loop rs L m)) \<subseteq> set rs \<union> set (m_ranks m)"
proof (induction rs L m rule: addRanks_loop.induct)
  case (2 r rs L m)
  then show ?case using push_rank_facts(8) [of r L m] by auto
qed simp

lemma addRanks_loop_distinct:
  "distinct (m_ranks m) \<Longrightarrow> distinct (m_ranks (addRanks_loop rs L m))"
  "length (m_ranks m) \<le> limit_size L \<Longrightarrow> length (m_ranks (addRanks_loop rs L m)) \<le> limit_size L"
  by (induction rs L m rule: addRanks_loop.induct) (simp_all add: push_rank_facts(9,10))

lemmas addRanks_loop_facts = addRanks_loop_members addRanks_loop_keeps addRanks_loop_only addRanks_loop_distinct

text \<open>No rank is dropped while all of them fit the limit.\<close>

lemma addRanks_loop_all:
  assumes "distinct (m_ranks m)" and "card (set rs \<union> set (m_ranks m)) \<le> limit_size L"
  shows "set rs \<subseteq> set (m_ranks (addRanks_loop rs L m))"
  using assms
proof (induction rs L m rule: addRanks_loop.induct)
  case (2 r rs L m)
  show ?case
  proof (cases "limit_size L \<le> length (m_ranks m)")
    case True
    then have "card (set (r # rs) \<union> set (m_ranks m)) \<le> card (set (m_ranks m))"
      using "2.prems" by (simp add: distinct_card)
    then have "set (r # rs) \<union> set (m_ranks m) = set (m_ranks m)"
      by (metis List.finite_set card_seteq finite_Un sup_ge2)
    then show ?thesis using addRanks_loop_facts(7) by blast
  next
    case False
    let ?m = "push_rank r L m"
    have "set rs \<union> set (m_ranks ?m) \<subseteq> set (r # rs) \<union> set (m_ranks m)" using push_rank_facts(8) by auto
    then have "card (set rs \<union> set (m_ranks ?m)) \<le> limit_size L"
      using "2.prems"(2) by (meson List.finite_set card_mono finite_Un order_trans)
    then have "set rs \<subseteq> set (m_ranks (addRanks_loop rs L ?m))"
      using "2.IH" False "2.prems"(1) push_rank_facts(9) by simp
    moreover have "r \<in> set (m_ranks (addRanks_loop rs L ?m))"
      using False push_rank_facts(11) [of m L r] addRanks_loop_facts(7) by fastforce
    ultimately show ?thesis using False by simp
  qed
qed simp

lemma addRanks_eq:
  "m_text (addRanks rs n L m) = m_text m" "m_tag (addRanks rs n L m) = m_tag m" "m_count (addRanks rs n L m) = m_count m + n"
  "m_fileName (addRanks rs n L m) = m_fileName m" "m_lineNumber (addRanks rs n L m) = m_lineNumber m" "m_level (addRanks rs n L m) = m_level m"
  "m_ranks (addRanks rs n L m) = m_ranks (addRanks_loop rs L m)"
  by (auto simp: addRanks_def Let_def note_limit_def addRanks_loop_facts)

lemma addRanks_ok:
  assumes "msg_ok L m" and "int_range (m_count m + n)" and "list_all int_range rs"
  shows "msg_ok L (addRanks rs n L m)"
proof -
  have "m_ranks (addRanks_loop rs L m) \<noteq> []"
    using assms(1) addRanks_loop_facts(7) [of m rs L] by (auto simp: msg_ok_def)
  moreover have "list_all int_range (m_ranks (addRanks_loop rs L m))"
    using assms(1,3) addRanks_loop_facts(8) [of rs L m] by (auto simp: msg_ok_def list_all_iff)
  ultimately show ?thesis using assms by (simp add: msg_ok_def addRanks_eq addRanks_loop_facts)
qed

text \<open>
  What is observed of a list of messages by a key: the number of messages counted under it, and the ranks
  tracked under it. \<open>weight\<close> bounds the size of the text of a message in a packet, whatever it is combined with.
\<close>

definition total :: "(Message \<Rightarrow> 'k) \<Rightarrow> 'k \<Rightarrow> Message multiset \<Rightarrow> int" where
  "total key k M = (\<Sum>m\<in>#M. if key m = k then m_count m else 0)"

definition tracked :: "(Message \<Rightarrow> 'k) \<Rightarrow> 'k \<Rightarrow> Message multiset \<Rightarrow> int set" where
  "tracked key k M = (\<Union>m\<in>set_mset M. if key m = k then set (m_ranks m) else {})"

definition weight :: "int \<Rightarrow> Message \<Rightarrow> nat" where
  "weight L m = length (m_text m) + length (m_fileName m) + length (m_tag m) + 12 * limit_size L + 60"

definition carried :: "int \<Rightarrow> Message multiset \<Rightarrow> bool" where
  "carried L M \<longleftrightarrow> (\<forall>m\<in>#M. msg_ok L m \<and> 0 \<le> m_count m) \<and> (\<Sum>m\<in>#M. m_count m) < 2 ^ 31 \<and> (\<Sum>m\<in>#M. weight L m) < 2 ^ 30"

lemma observe_simps [simp]:
  "total key k {#} = 0" "total key k (add_mset m M) = (if key m = k then m_count m else 0) + total key k M"
  "total key k (M + N) = total key k M + total key k N"
  "tracked key k {#} = {}" "tracked key k (add_mset m M) = (if key m = k then set (m_ranks m) else {}) \<union> tracked key k M"
  "tracked key k (M + N) = tracked key k M \<union> tracked key k N"
  by (auto simp: total_def tracked_def)

lemma finite_tracked [simp]: "finite (tracked key k M)"
  by (simp add: tracked_def)

lemma sum_mset_nonneg: "(\<And>m. m \<in># M \<Longrightarrow> 0 \<le> f m) \<Longrightarrow> 0 \<le> (\<Sum>m\<in>#M. f m :: int)"
  by (induction M) auto

lemma carried_mono:
  assumes "carried L N" and "M \<subseteq># N"
  shows "carried L M"
proof -
  obtain R where N: "N = M + R" using assms(2) by (auto simp: subset_mset.le_iff_add)
  have "0 \<le> (\<Sum>m\<in>#R. m_count m)" using assms(1) N by (intro sum_mset_nonneg) (auto simp: carried_def)
  then show ?thesis using assms(1) by (auto simp: carried_def N)
qed

text \<open>\<open>N\<close> shows the same as \<open>M\<close> under every key, and fits where \<open>M\<close> fits.\<close>

definition observed :: "(Message \<Rightarrow> 'k) \<Rightarrow> int \<Rightarrow> Message multiset \<Rightarrow> Message multiset \<Rightarrow> bool" where
  "observed key L M N \<longleftrightarrow> (\<forall>k. total key k N = total key k M) \<and>
     (\<forall>k. tracked key k N \<subseteq> tracked key k M \<and> (carried L M \<and> card (tracked key k M) \<le> limit_size L \<longrightarrow> tracked key k N = tracked key k M)) \<and>
     (\<Sum>m\<in>#N. m_count m) = (\<Sum>m\<in>#M. m_count m) \<and> (\<Sum>m\<in>#N. weight L m) \<le> (\<Sum>m\<in>#M. weight L m) \<and>
     (carried L M \<longrightarrow> (\<forall>m\<in>#N. msg_ok L m \<and> 0 \<le> m_count m))"

lemma observed_carried: "observed key L M N \<Longrightarrow> carried L M \<Longrightarrow> carried L N"
  unfolding observed_def carried_def using le_less_trans by metis

lemma observed_refl: "observed key L M M"
  unfolding observed_def carried_def by blast

lemma observed_trans: "observed key L M N \<Longrightarrow> observed key L N P \<Longrightarrow> observed key L M P"
proof -
  assume MN: "observed key L M N" and NP: "observed key L N P"
  have "carried L M \<Longrightarrow> carried L N" using observed_carried [OF MN] .
  moreover have "tracked key k P \<subseteq> tracked key k M" for k using MN NP unfolding observed_def by blast
  ultimately show ?thesis using MN NP unfolding observed_def by auto
qed

lemma observed_frame:
  assumes "observed key L M N"
  shows "observed key L (M + R) (N + R)"
  unfolding observed_def
proof (intro conjI allI impI ballI)
  fix k
  show "total key k (N + R) = total key k (M + R)" using assms by (simp add: observed_def)
  show "tracked key k (N + R) \<subseteq> tracked key k (M + R)" using assms by (auto simp: observed_def)
  assume c: "carried L (M + R) \<and> card (tracked key k (M + R)) \<le> limit_size L"
  then have "carried L M" using carried_mono [of L "M + R" M] by auto
  moreover have "card (tracked key k M) \<le> card (tracked key k (M + R))" by (intro card_mono) auto
  ultimately have "carried L M \<and> card (tracked key k M) \<le> limit_size L" using c by simp
  then show "tracked key k (N + R) = tracked key k (M + R)" using assms by (auto simp: observed_def)
next
  fix m assume c: "carried L (M + R)" and m: "m \<in># N + R"
  have "carried L M" "carried L R" using carried_mono [OF c] by auto
  then show "msg_ok L m" "0 \<le> m_count m" using assms m by (auto simp: observed_def carried_def)
qed (use assms in \<open>auto simp: observed_def\<close>)

lemma observed_add: "observed key L M N \<Longrightarrow> observed key L P Q \<Longrightarrow> observed key L (M + P) (N + Q)"
  using observed_frame [of key L M N P] observed_frame [of key L P Q N] observed_trans [of key L "M + P" "N + P" "N + Q"]
  by (simp add: add.commute)

lemma observed_sum:
  "(\<And>x. x \<in># X \<Longrightarrow> observed key L (f x) (g x)) \<Longrightarrow> observed key L (\<Sum>x\<in>#X. f x) (\<Sum>x\<in>#X. g x)"
  by (induction X) (auto intro: observed_refl observed_add)

text \<open>A list without its repetitions, each element at its first occurrence.\<close>

definition add_key :: "'k \<Rightarrow> 'k list \<Rightarrow> 'k list" where
  "add_key k ks = (if k \<in> set ks then ks else ks @ [k])"

definition first_occurrences :: "'k list \<Rightarrow> 'k list" where
  "first_occurrences xs = fold add_key xs []"

text \<open>What a combiner must promise: it takes messages with the same key only, and adds up.\<close>

locale message_key =
  fixes key :: "Message \<Rightarrow> 'k" and cs :: "combiner list"
  assumes should_key: "c \<in> set cs \<Longrightarrow> c_should c l r \<Longrightarrow> key l = key r"
    and combine_adds: "c \<in> set cs \<Longrightarrow> c_combine c l r L = addRanks (m_ranks r) (m_count r) L l"
    and key_members: "m_text l = m_text r \<Longrightarrow> m_tag l = m_tag r \<Longrightarrow> key l = key r"
begin

lemma absorb_Some:
  "absorb cs L fs m = Some fs' \<Longrightarrow>
     \<exists>us f vs. fs = us @ f # vs \<and> key f = key m \<and> fs' = us @ addRanks (m_ranks m) (m_count m) L f # vs"
proof (induction fs arbitrary: fs')
  case (Cons f fs)
  show ?case
  proof (cases "List.find (\<lambda>c. c_should c f m) cs")
    case (Some c)
    then have "c \<in> set cs" "c_should c f m" by (auto simp: find_Some_iff)
    then show ?thesis using Cons.prems Some should_key combine_adds
      by (intro exI [of _ "[]"] exI [of _ f] exI [of _ fs]) auto
  next
    case None
    then obtain fs1 where "absorb cs L fs m = Some fs1" "fs' = f # fs1" using Cons.prems by auto
    with Cons.IH obtain us g vs where "fs = us @ g # vs" "key g = key m" "fs1 = us @ addRanks (m_ranks m) (m_count m) L g # vs"
      by blast
    with \<open>fs' = f # fs1\<close> show ?thesis by (intro exI [of _ "f # us"] exI [of _ g] exI [of _ vs]) auto
  qed
qed simp

lemma key_addRanks: "key (addRanks rs n L m) = key m"
  by (rule key_members) (simp_all add: addRanks_eq)

lemma observed_combined:
  assumes "key f = key m"
  shows "observed key L {#f, m#} {#addRanks (m_ranks m) (m_count m) L f#}" (is "observed key L ?M ?N")
proof -
  let ?f = "addRanks (m_ranks m) (m_count m) L f"
  have keys: "key ?f = key m" using assms by (simp add: key_addRanks)
  have tot: "total key k ?N = total key k ?M" for k using assms keys by (simp add: addRanks_eq)
  have sub: "tracked key k ?N \<subseteq> tracked key k ?M" for k
    using addRanks_loop_facts(8) [of "m_ranks m" L f] assms keys by (auto simp: addRanks_eq)
  have all: "tracked key k ?N = tracked key k ?M" if "carried L ?M" "card (tracked key k ?M) \<le> limit_size L" for k
  proof (cases "key m = k")
    case True
    have "distinct (m_ranks f)" using that(1) by (simp add: carried_def msg_ok_def)
    moreover have "card (set (m_ranks m) \<union> set (m_ranks f)) \<le> limit_size L" using that(2) True assms by (simp add: Un_commute)
    ultimately have "set (m_ranks m) \<subseteq> set (m_ranks ?f)" using addRanks_loop_all by (simp add: addRanks_eq)
    moreover have "set (m_ranks f) \<subseteq> set (m_ranks ?f)" using addRanks_loop_facts(7) by (simp add: addRanks_eq)
    ultimately show ?thesis using sub [of k] True assms keys by auto
  qed (simp add: assms keys)
  have ok: "msg_ok L ?f \<and> 0 \<le> m_count ?f" if "carried L ?M"
  proof -
    have "msg_ok L f" "msg_ok L m" "0 \<le> m_count f" "0 \<le> m_count m" "m_count f + m_count m < 2 ^ 31"
      using that by (auto simp: carried_def)
    then show ?thesis using addRanks_ok [of L f "m_count m" "m_ranks m"] by (simp add: int_range_def msg_ok_def [of L m] addRanks_eq)
  qed
  show ?thesis unfolding observed_def using tot sub all ok by (simp add: addRanks_eq weight_def)
qed

lemma observed_combine_one: "observed key L (add_mset m (mset fs)) (mset (combine_one cs L m fs))"
proof (cases "absorb cs L fs m")
  case None
  then show ?thesis by (simp add: combine_one_def observed_refl)
next
  case (Some fs')
  then obtain us f vs where "fs = us @ f # vs" "key f = key m" "fs' = us @ addRanks (m_ranks m) (m_count m) L f # vs"
    using absorb_Some by blast
  then show ?thesis
    using Some observed_frame [OF observed_combined [of f m L], of "mset us + mset vs"] by (simp add: combine_one_def add_mset_commute)
qed

lemma observed_combineMessages: "observed key L (mset ms) (mset (combineMessages cs L ms))"
proof -
  have "observed key L (mset fs + mset ms) (mset (fold (combine_one cs L) ms fs))" for fs ms
  proof (induction ms arbitrary: fs)
    case (Cons m ms)
    show ?case
      using observed_trans [OF observed_frame [OF observed_combine_one [of L m fs], of "mset ms"] Cons.IH] by simp
  qed (simp add: observed_refl)
  from this [of "[hd ms]" "tl ms"] show ?thesis
    by (cases ms) (auto simp: combineMessages_def observed_refl)
qed

lemma observed_received: "observed key L M (image_mset (received L) M)"
proof -
  have "key (received L m) = key m" for m by (rule key_members) (simp_all add: received_def)
  then have "observed key L {#m#} {#received L m#}" for m
    by (auto simp: observed_def weight_def received_def carried_def msg_ok_def int_range_def)
  then show ?thesis
  proof (induction M)
    case (add m M)
    then show ?case using observed_add [of key L "{#m#}" "{#received L m#}" M "image_mset (received L) M"] by simp
  qed (simp add: observed_refl)
qed

text \<open>A combiner that takes every pair with the same key leaves one message per key, in the order of the first occurrences.\<close>

lemma combine_keys:
  assumes "c \<in> set cs" and "\<And>l r. key l = key r \<Longrightarrow> c_should c l r"
  shows "map key (combineMessages cs L ms) = first_occurrences (map key ms)"
proof -
  have unabsorbed: "absorb cs L fs m = None \<Longrightarrow> key m \<notin> key ` set fs" for fs m
    by (induction fs) (use assms in \<open>auto simp: find_None_iff split: option.splits\<close>)
  have step: "map key (combine_one cs L m fs) = add_key (key m) (map key fs)" for fs m
  proof (cases "absorb cs L fs m")
    case None
    then show ?thesis using unabsorbed [OF None] by (simp add: combine_one_def add_key_def)
  qed (auto simp: combine_one_def add_key_def key_addRanks dest!: absorb_Some)
  have "map key (fold (combine_one cs L) ms fs) = fold add_key (map key ms) (map key fs)" for fs ms
    by (induction ms arbitrary: fs) (simp_all add: step)
  from this [of "tl ms" "[hd ms]"] show ?thesis
    by (cases ms) (auto simp: combineMessages_def first_occurrences_def add_key_def)
qed

lemma distinct_combine:
  assumes "c \<in> set cs" and "\<And>l r. key l = key r \<Longrightarrow> c_should c l r"
  shows "distinct (map key (combineMessages cs L ms))"
proof -
  have "distinct ks \<Longrightarrow> distinct (fold add_key xs ks)" for xs ks :: "'k list"
    by (induction xs arbitrary: ks) (auto simp: add_key_def)
  then have "distinct (first_occurrences (map key ms))" by (simp add: first_occurrences_def)
  moreover have "map key (combineMessages cs L ms) = first_occurrences (map key ms)" by (rule combine_keys) (rule assms)+
  ultimately show ?thesis by simp
qed

end

interpretation text_tag: message_key "\<lambda>m. (m_text m, m_tag m)" "[TextTagCombiner]"
  by unfold_locales (auto simp: TextTagCombiner_def)

interpretation text_only: message_key m_text "[TextTagCombiner, TextEqualityCombiner]"
  by unfold_locales (auto simp: TextTagCombiner_def TextEqualityCombiner_def)

section \<open>Packets\<close>

lemma length_join_ranks: "list_all int_range rs \<Longrightarrow> length (join_ranks [rankDelimiter] rs) \<le> 12 * length rs"
proof (induction "[rankDelimiter]" rs rule: join_ranks.induct)
  case (2 r)
  then show ?case using length_to_string [of r] by simp
next
  case (3 r s rs)
  then show ?case using length_to_string [of r] by simp
qed simp

lemma length_framed:
  assumes "msg_ok L m" and "weight L m < 2 ^ 30"
  shows "length (framed m) \<le> weight L m"
proof -
  have "length (join_ranks [rankDelimiter] (m_ranks m)) \<le> 12 * limit_size L"
    using length_join_ranks [of "m_ranks m"] assms(1) by (simp add: msg_ok_def)
  moreover have "length (to_string (m_count m)) \<le> 11" "length (to_string (m_level m)) \<le> 11"
    "length (if m_lineNumber m > 0 then to_string (m_lineNumber m) else '''') \<le> 11"
    using assms(1) length_to_string by (auto simp: msg_ok_def)
  ultimately have p: "length (pack m) + 12 \<le> weight L m" by (simp add: pack_def weight_def)
  then have "int_range (int (length (pack m)))" using assms(2) by (simp add: int_range_def)
  then show ?thesis using p length_to_string [of "int (length (pack m))"] by (simp add: framed_def)
qed

lemma length_packMessages:
  assumes "list_all (msg_ok L) ms" and "(\<Sum>m\<leftarrow>ms. weight L m) < 2 ^ 30"
  shows "length (packMessages ms) < 2 ^ 31"
proof -
  have "length (concat (map framed ms)) \<le> (\<Sum>m\<leftarrow>ms. weight L m) \<and> length ms \<le> (\<Sum>m\<leftarrow>ms. weight L m)"
    using assms
  proof (induction ms)
    case (Cons m ms)
    then show ?case using length_framed [of L m] by (auto simp: weight_def)
  qed simp
  moreover have "int_range (int (length ms))" using calculation assms(2) by (simp add: int_range_def)
  ultimately show ?thesis
    using length_to_string [of "int (length ms)"] assms(2)
    by (simp add: packMessages_def framed_def [abs_def] zeroMessage_def)
qed

lemma packet_packMessages: "list_all (msg_ok L) ms \<Longrightarrow> packet (packMessages ms) = packMessages ms"
  using empty_packet [of L ms] c_string_packMessages [of L ms] by (auto simp: packet_def packMessages_def zeroMessage_def c_string_def)

lemma unpack_all_ok:
  "(\<And>ms. ms \<in> set lss \<Longrightarrow> ms \<noteq> [] \<and> list_all (msg_ok L) ms \<and> length (packMessages ms) < 2 ^ 31) \<Longrightarrow>
     unpack_all L acc (map packMessages lss) = Inr (acc @ concat (map (map (received L)) lss))"
  by (induction lss arbitrary: acc) (simp_all add: unpackMessages_packMessages)

text \<open>Packets that arrive in another order are the packets of the same lists in another order.\<close>

lemma permuted_map:
  "mset ys = mset (map f xs) \<Longrightarrow> \<exists>xs'. mset xs' = mset xs \<and> ys = map f xs'"
proof (induction ys arbitrary: xs)
  case (Cons y ys)
  then have "y \<in> set (map f xs)" by (metis list.set_intros(1) mset_eq_setD)
  then obtain x where x: "x \<in> set xs" "y = f x" by auto
  then have "mset ys = mset (map f (remove1 x xs))"
    using Cons.prems by (simp add: image_mset_Diff) (metis add_mset_remove_trivial)
  then obtain xs' where "mset xs' = mset (remove1 x xs)" "ys = map f xs'" using Cons.IH by blast
  then show ?case using x by (intro exI [of _ "x # xs'"]) simp
qed simp

section \<open>Networks\<close>

definition network :: "(nat \<Rightarrow> Communicator) \<Rightarrow> nat \<Rightarrow> int \<Rightarrow> combiner list \<Rightarrow> (nat \<Rightarrow> Message list) \<Rightarrow> Lumberjack list" where
  "network comm n L cs f = map (\<lambda>r. \<lparr>l_comm = comm r, l_ranksLimit = L, l_combiners = cs, l_messages = f r\<rparr>) [0..<n]"

text \<open>MPI delivers every packet of a round exactly once, in any order.\<close>

definition delivers :: "(int \<Rightarrow> string list \<Rightarrow> string list) \<Rightarrow> bool" where
  "delivers deliver \<longleftrightarrow> (\<forall>r ps. mset (deliver r ps) = mset ps)"

lemma all_ranks_Inr: "(\<And>x. x \<in> set xs \<Longrightarrow> f (p x) = Inr (g x)) \<Longrightarrow> all_ranks f (map p xs) = Inr (map g xs)"
  by (induction xs) auto

lemma observed_set_sum:
  "finite S \<Longrightarrow> (\<And>x. x \<in> S \<Longrightarrow> observed key L (f x) (g x)) \<Longrightarrow> observed key L (\<Sum>x\<in>S. f x) (\<Sum>x\<in>S. g x)"
  by (induction S rule: finite_induct) (auto intro: observed_refl observed_add)

locale push_network =
  fixes n :: nat and parent depth :: "nat \<Rightarrow> nat" and pushes :: nat and comm :: "nat \<Rightarrow> Communicator"
  assumes n_pos: "0 < n"
    and parent_less: "0 < c \<Longrightarrow> c < n \<Longrightarrow> parent c < n"
    and depth_parent: "0 < c \<Longrightarrow> c < n \<Longrightarrow> depth c = Suc (depth (parent c))"
    and depth_le: "c < n \<Longrightarrow> depth c \<le> pushes"
    and comm_rank: "r < n \<Longrightarrow> comm_rank (comm r) = int r"
    and comm_send: "r < n \<Longrightarrow> comm_send (comm r) p = (if r = 0 then None else Some (int (parent r), packet p))"
    and comm_receive: "r < n \<Longrightarrow> length ps = card {c \<in> {0<..<n}. parent c = r} \<Longrightarrow>
      comm_receive (comm r) ps = Inr (filter (\<lambda>p. \<not> isPackedMessagesEmpty p) ps)"
    and comm_pushes: "comm_numPushesToFlush (comm 0) = int pushes"
begin

abbreviation children :: "nat \<Rightarrow> nat list" where
  "children r \<equiv> filter (\<lambda>c. 0 < c \<and> parent c = r) [0..<n]"

lemma set_children: "set (children r) = {c \<in> {0<..<n}. parent c = r}" "distinct (children r)"
  "length (children r) = card {c \<in> {0<..<n}. parent c = r}"
proof -
  show s: "set (children r) = {c \<in> {0<..<n}. parent c = r}" by auto
  show "distinct (children r)" by simp
  then show "length (children r) = card {c \<in> {0<..<n}. parent c = r}" using s distinct_card by metis
qed

lemma prepared:
  "map prepare (network comm n L cs f) =
     map (\<lambda>r. if r = 0 then (\<lparr>l_comm = comm r, l_ranksLimit = L, l_combiners = cs, l_messages = f r\<rparr>, '''')
       else (\<lparr>l_comm = comm r, l_ranksLimit = L, l_combiners = cs, l_messages = []\<rparr>, packMessages (combineMessages cs L (f r)))) [0..<n]"
  by (auto simp: network_def prepare_def comm_isOutputNode_def comm_rank Lumberjack_combine_def clearMessages_def Let_def)

lemma sent_to_eq:
  "sent_to (map prepare (network comm n L cs f)) (int r) =
     map (\<lambda>c. packet (packMessages (combineMessages cs L (f c)))) (children r)"
proof -
  have "List.map_filter (\<lambda>(lj, packed). case comm_send (l_comm lj) packed of
        Some (dest, p) \<Rightarrow> if dest = int r then Some p else None | None \<Rightarrow> None)
      (map (\<lambda>r. if r = 0 then (\<lparr>l_comm = comm r, l_ranksLimit = L, l_combiners = cs, l_messages = f r\<rparr>, '''')
       else (\<lparr>l_comm = comm r, l_ranksLimit = L, l_combiners = cs, l_messages = []\<rparr>, packMessages (combineMessages cs L (f r)))) xs) =
      map (\<lambda>c. packet (packMessages (combineMessages cs L (f c)))) (filter (\<lambda>c. 0 < c \<and> parent c = r) xs)"
    if "set xs \<subseteq> {..<n}" for xs
    using that by (induction xs) (auto simp: List.map_filter_simps comm_send)
  from this [of "[0..<n]"] show ?thesis unfolding sent_to_def prepared by (simp add: atLeast0LessThan)
qed

end

text \<open>The messages that all ranks together hold, and ranks that log over a network.\<close>

definition held :: "nat \<Rightarrow> (nat \<Rightarrow> Message list) \<Rightarrow> Message multiset" where
  "held n f = (\<Sum>r<n. mset (f r))"

locale log_network = push_network + message_key
begin

abbreviation combined :: "int \<Rightarrow> (nat \<Rightarrow> Message list) \<Rightarrow> nat \<Rightarrow> Message list" where
  "combined L f c \<equiv> combineMessages cs L (f c)"

lemma carried_combined:
  assumes "carried L (held n f)" and "c < n"
  shows "list_all (msg_ok L) (combined L f c)" and "length (packMessages (combined L f c)) < 2 ^ 31"
proof -
  have "mset (f c) \<subseteq># held n f"
    unfolding held_def using assms(2) by (subst sum.remove [of _ c]) auto
  then have "carried L (mset (combined L f c))"
    using observed_carried [OF observed_combineMessages] carried_mono [OF assms(1)] by blast
  then show ok: "list_all (msg_ok L) (combined L f c)" and "length (packMessages (combined L f c)) < 2 ^ 31"
    using length_packMessages [of L "combined L f c"]
    by (auto simp: carried_def list_all_iff simp flip: sum_mset_sum_list)
qed

text \<open>What a rank holds after it has taken in the packets of its children.\<close>

lemma absorb_packets_ok:
  assumes "carried L (held n f)" and "delivers deliver" and "r < n"
  shows "\<exists>ms. absorb_packets \<lparr>l_comm = comm r, l_ranksLimit = L, l_combiners = cs, l_messages = own\<rparr>
      (deliver (int r) (map (\<lambda>c. packet (packMessages (combined L f c))) (children r))) =
        Inr \<lparr>l_comm = comm r, l_ranksLimit = L, l_combiners = cs, l_messages = ms\<rparr> \<and>
      mset ms = mset own + (\<Sum>c\<in>{c \<in> {0<..<n}. parent c = r}. image_mset (received L) (mset (combined L f c)))"
proof -
  let ?lists = "map (combined L f) (children r)"
  have ok: "list_all (msg_ok L) (combined L f c)" "length (packMessages (combined L f c)) < 2 ^ 31" if "c \<in> set (children r)" for c
    using carried_combined [OF assms(1), of c] that by auto
  have sent: "map (\<lambda>c. packet (packMessages (combined L f c))) (children r) = map packMessages ?lists"
    using ok(1) packet_packMessages by auto
  obtain lss where lss: "mset lss = mset ?lists" "deliver (int r) (map packMessages ?lists) = map packMessages lss"
    using permuted_map [of "deliver (int r) (map packMessages ?lists)" packMessages ?lists] assms(2) unfolding delivers_def by blast
  have in_lss: "\<exists>c\<in>set (children r). ms = combined L f c" if "ms \<in> set lss" for ms
    using that mset_eq_setD [OF lss(1)] by auto
  have len: "length (map packMessages lss) = card {c \<in> {0<..<n}. parent c = r}"
    using mset_eq_length [OF lss(1)] set_children(3) [of r] by simp
  have ne: "filter (\<lambda>p. \<not> isPackedMessagesEmpty p) (map packMessages lss) = map packMessages (filter (\<lambda>ms. ms \<noteq> []) lss)"
  proof -
    have "isPackedMessagesEmpty (packMessages ms) \<longleftrightarrow> ms = []" if ms: "ms \<in> set lss" for ms
    proof -
      obtain c where "c \<in> set (children r)" "ms = combined L f c" using in_lss [OF ms] by blast
      then show ?thesis using empty_packet [OF ok(1)] by simp
    qed
    then show ?thesis by (auto simp: filter_map o_def cong: filter_cong)
  qed
  have un: "unpack_all L own (map packMessages (filter (\<lambda>ms. ms \<noteq> []) lss)) =
      Inr (own @ concat (map (map (received L)) (filter (\<lambda>ms. ms \<noteq> []) lss)))"
    by (rule unpack_all_ok) (use in_lss ok in fastforce)
  have "mset (concat (map (map (received L)) (filter (\<lambda>ms. ms \<noteq> []) lss))) = (\<Sum>ms\<in>#mset lss. image_mset (received L) (mset ms))"
    by (induction lss) auto
  also have "\<dots> = (\<Sum>c\<in>#mset (children r). image_mset (received L) (mset (combined L f c)))"
    unfolding lss(1) by (simp add: image_mset.compositionality o_def)
  also have "\<dots> = (\<Sum>c\<in>set (children r). image_mset (received L) (mset (combined L f c)))"
    by (simp only: sum_unfold_sum_mset mset_set_set [OF set_children(2)])
  finally have "mset (own @ concat (map (map (received L)) (filter (\<lambda>ms. ms \<noteq> []) lss))) =
      mset own + (\<Sum>c\<in>set (children r). image_mset (received L) (mset (combined L f c)))" by simp
  then show ?thesis
    unfolding set_children(1) [symmetric] sent lss(2) absorb_packets_def
    using comm_receive [OF assms(3) len] ne un by auto
qed

lemma push_round_ok:
  assumes "carried L (held n f)" and "delivers deliver"
  shows "\<exists>g. push_round deliver (network comm n L cs f) = Inr (network comm n L cs g) \<and>
    (\<forall>r<n. mset (g r) = (if r = 0 then mset (f r) else {#}) +
       (\<Sum>c\<in>{c \<in> {0<..<n}. parent c = r}. image_mset (received L) (mset (combined L f c))))"
proof -
  let ?node = "\<lambda>r ms. \<lparr>l_comm = comm r, l_ranksLimit = L, l_combiners = cs, l_messages = ms\<rparr>"
  let ?own = "\<lambda>r. if r = 0 then f r else []"
  let ?pk = "\<lambda>r. deliver (int r) (map (\<lambda>c. packet (packMessages (combined L f c))) (children r))"
  have "\<forall>r. \<exists>ms. r < n \<longrightarrow> absorb_packets (?node r (?own r)) (?pk r) = Inr (?node r ms) \<and>
    mset ms = mset (?own r) + (\<Sum>c\<in>{c \<in> {0<..<n}. parent c = r}. image_mset (received L) (mset (combined L f c)))"
    using absorb_packets_ok [OF assms] by blast
  from choice [OF this] obtain g where "\<forall>r. r < n \<longrightarrow> absorb_packets (?node r (?own r)) (?pk r) = Inr (?node r (g r)) \<and>
    mset (g r) = mset (?own r) + (\<Sum>c\<in>{c \<in> {0<..<n}. parent c = r}. image_mset (received L) (mset (combined L f c)))" ..
  then have g: "absorb_packets (?node r (?own r)) (?pk r) = Inr (?node r (g r))"
    "mset (g r) = mset (?own r) + (\<Sum>c\<in>{c \<in> {0<..<n}. parent c = r}. image_mset (received L) (mset (combined L f c)))"
    if "r < n" for r using that by blast+
  let ?prep = "\<lambda>r. if r = 0 then (?node r (f r), '''') else (?node r [], packMessages (combined L f r))"
  let ?take = "\<lambda>(lj, _ :: string). absorb_packets lj (deliver (comm_rank (l_comm lj)) (sent_to (map prepare (network comm n L cs f)) (comm_rank (l_comm lj))))"
  have "?take (?prep r) = Inr (?node r (g r))" if "r < n" for r
    using g(1) [OF that] sent_to_eq [of L cs f r] comm_rank [OF that] by (cases "r = 0") simp_all
  then have "all_ranks ?take (map ?prep [0..<n]) = Inr (network comm n L cs g)"
    unfolding network_def by (intro all_ranks_Inr) simp
  then show ?thesis using g(2) by (intro exI [of _ g]) (simp add: push_round_def prepared)
qed

lemma held_round:
  assumes "carried L (held n f)"
    and "\<And>r. r < n \<Longrightarrow> mset (g r) = (if r = 0 then mset (f r) else {#}) +
       (\<Sum>c\<in>{c \<in> {0<..<n}. parent c = r}. image_mset (received L) (mset (combined L f c)))"
  shows "observed key L (held n f) (held n g)"
proof -
  let ?R = "\<lambda>c. image_mset (received L) (mset (combined L f c))"
  have "held n g = (\<Sum>r<n. if r = 0 then mset (f r) else {#}) + (\<Sum>r<n. \<Sum>c\<in>{c \<in> {0<..<n}. parent c = r}. ?R c)"
    unfolding held_def sum.distrib [symmetric] by (rule sum.cong) (use assms(2) in auto)
  also have "(\<Sum>r<n. \<Sum>c\<in>{c \<in> {0<..<n}. parent c = r}. ?R c) = (\<Sum>c\<in>{0<..<n}. ?R c)"
    by (rule sum.group) (use parent_less in auto)
  also have "(\<Sum>r<n. if r = 0 then mset (f r) else {#}) = mset (f 0)"
    using n_pos by (simp add: sum.delta)
  finally have g: "held n g = mset (f 0) + (\<Sum>c\<in>{0<..<n}. ?R c)" .
  have "{..<n} = insert 0 {0<..<n}" using n_pos by auto
  then have f: "held n f = mset (f 0) + (\<Sum>c\<in>{0<..<n}. mset (f c))" by (simp add: held_def)
  have "observed key L (mset (f c)) (?R c)" for c
    using observed_trans [OF observed_combineMessages observed_received] by blast
  then have "observed key L (\<Sum>c\<in>{0<..<n}. mset (f c)) (\<Sum>c\<in>{0<..<n}. ?R c)" by (intro observed_set_sum) auto
  then show ?thesis unfolding f g by (intro observed_add observed_refl)
qed

lemma push_rounds_ok:
  assumes "carried L (held n f)" and "\<And>k. delivers (deliver k)" and "\<And>r. 0 < r \<Longrightarrow> r < n \<Longrightarrow> pushes < depth r + j \<Longrightarrow> f r = []"
  shows "\<exists>g. push_rounds deliver k (network comm n L cs f) = Inr (network comm n L cs g) \<and> observed key L (held n f) (held n g) \<and>
    (\<forall>r. 0 < r \<and> r < n \<and> pushes < depth r + (j + k) \<longrightarrow> g r = [])"
  using assms(1,3)
proof (induction k arbitrary: f j)
  case 0
  then show ?case by (auto intro!: exI [of _ f] observed_refl)
next
  case (Suc k)
  obtain h where h: "push_round (deliver k) (network comm n L cs f) = Inr (network comm n L cs h)"
    "\<And>r. r < n \<Longrightarrow> mset (h r) = (if r = 0 then mset (f r) else {#}) +
       (\<Sum>c\<in>{c \<in> {0<..<n}. parent c = r}. image_mset (received L) (mset (combined L f c)))"
    using push_round_ok [OF Suc.prems(1) assms(2) [of k]] by blast
  have o: "observed key L (held n f) (held n h)" by (rule held_round [OF Suc.prems(1) h(2)])
  have empty: "h r = []" if r: "0 < r" "r < n" "pushes < depth r + Suc j" for r
  proof -
    have "f c = []" if "c \<in> {c \<in> {0<..<n}. parent c = r}" for c
      using that Suc.prems(2) [of c] depth_parent [of c] r(3) by auto
    then have "mset (h r) = {#}" using h(2) [OF r(2)] r(1) by (simp add: combineMessages_def)
    then show ?thesis by simp
  qed
  have "\<exists>g. push_rounds deliver k (network comm n L cs h) = Inr (network comm n L cs g) \<and> observed key L (held n h) (held n g) \<and>
    (\<forall>r. 0 < r \<and> r < n \<and> pushes < depth r + (Suc j + k) \<longrightarrow> g r = [])"
    by (rule Suc.IH [OF observed_carried [OF o Suc.prems(1)]]) (rule empty)
  then obtain g where
    "push_rounds deliver k (network comm n L cs h) = Inr (network comm n L cs g)" "observed key L (held n h) (held n g)"
    "\<forall>r. 0 < r \<and> r < n \<and> pushes < depth r + (Suc j + k) \<longrightarrow> g r = []" by auto
  then show ?case using h(1) observed_trans [OF o] by auto
qed

lemma flush_ok:
  assumes "carried L (held n f)" and "\<And>k. delivers (deliver k)"
  shows "\<exists>ms. pushMessagesFully deliver (network comm n L cs f) = Inr (network comm n L cs (\<lambda>r. if r = 0 then ms else [])) \<and>
    observed key L (held n f) (mset ms) \<and> (\<exists>l. ms = combineMessages cs L l)"
proof -
  have hd: "comm_numPushesToFlush (l_comm (hd (network comm n L cs f))) = int pushes"
    using n_pos comm_pushes by (simp add: network_def hd_map upt_conv_Cons)
  have "\<exists>g. push_rounds deliver pushes (network comm n L cs f) = Inr (network comm n L cs g) \<and> observed key L (held n f) (held n g) \<and>
    (\<forall>r. 0 < r \<and> r < n \<and> pushes < depth r + (0 + pushes) \<longrightarrow> g r = [])"
    by (rule push_rounds_ok [OF assms]) (use depth_le in fastforce)
  then obtain g where
    g: "push_rounds deliver pushes (network comm n L cs f) = Inr (network comm n L cs g)" "observed key L (held n f) (held n g)"
      "\<forall>r. 0 < r \<and> r < n \<and> pushes < depth r + (0 + pushes) \<longrightarrow> g r = []" by blast
  have empty: "g r = []" if "0 < r" "r < n" for r using g(3) depth_parent [OF that] that by auto
  let ?ms = "combineMessages cs L (g 0)"
  have "map Lumberjack_combine (network comm n L cs g) = network comm n L cs (\<lambda>r. if r = 0 then ?ms else [])"
    using empty by (auto simp: network_def Lumberjack_combine_def combineMessages_def)
  moreover have "held n g = mset (g 0)"
    unfolding held_def using n_pos empty by (subst sum.remove [of _ 0]) auto
  ultimately show ?thesis
    using g(1) hd observed_trans [OF g(2)] observed_combineMessages [of L "g 0"]
    by (intro exI [of _ ?ms]) (auto simp: pushMessagesFully_def)
qed

end

section \<open>The two communicators\<close>

lemma ilog2_mono: "a \<le> b \<Longrightarrow> ilog2 a \<le> ilog2 b"
proof (induction b arbitrary: a rule: less_induct)
  case (less b)
  show ?case
  proof (cases "a < 2")
    case False
    then have "ilog2 a = Suc (ilog2 (a div 2))" "ilog2 b = Suc (ilog2 (b div 2))"
      using less.prems by (simp_all add: ilog2.simps [of a] ilog2.simps [of b])
    then show ?thesis using less.IH [of "b div 2" "a div 2"] less.prems False by (simp add: div_le_mono)
  qed (simp add: ilog2.simps [of a])
qed

abbreviation tree_comm :: "nat \<Rightarrow> int \<Rightarrow> nat \<Rightarrow> Communicator" where
  "tree_comm n L r \<equiv> BinaryTree (BinaryTree_initialize (int r) (int n) L)"

abbreviation root_comm :: "nat \<Rightarrow> int \<Rightarrow> nat \<Rightarrow> Communicator" where
  "root_comm n L r \<equiv> Root (Root_initialize (int r) (int n) L)"

lemma tree_children: "{c \<in> {0<..<n :: nat}. (c - 1) div 2 = r} = {c \<in> {2 * r + 1, 2 * r + 2}. c < n}"
proof -
  have "0 < c \<and> (c - 1) div 2 = r \<longleftrightarrow> c = 2 * r + 1 \<or> c = 2 * r + 2" for c :: nat by presburger
  then show ?thesis by auto
qed

lemma tree_child_count:
  "bt_childCount (BinaryTree_initialize (int r) (int n) L) = card {c \<in> {0<..<n}. (c - 1) div 2 = r}"
proof -
  have "{c \<in> {2 * r + 1, 2 * r + 2}. c < n} = (if 2 * r + 2 < n then {2 * r + 1, 2 * r + 2} else if 2 * r + 1 < n then {2 * r + 1} else {})"
    by auto
  then show ?thesis unfolding tree_children by (auto simp: BinaryTree_initialize_def Let_def)
qed

interpretation tree: push_network "Suc n" "\<lambda>c. (c - 1) div 2" "\<lambda>c. ilog2 (Suc c)" "ilog2 (Suc n)" "tree_comm (Suc n) L" for n L
proof unfold_locales
  fix c :: nat
  show "(c - 1) div 2 < Suc n" if "0 < c" "c < Suc n" using that by (simp add: less_Suc_eq_le div_le_dividend order_trans)
  have "Suc c div 2 = Suc ((c - 1) div 2)" if "0 < c" using that by (cases c) auto
  then show "ilog2 (Suc c) = Suc (ilog2 (Suc ((c - 1) div 2)))" if "0 < c" "c < Suc n"
    using that by (subst ilog2.simps) simp
  show "ilog2 (Suc c) \<le> ilog2 (Suc n)" if "c < Suc n" using that by (intro ilog2_mono) simp
  fix r p ps
  show "comm_rank (tree_comm (Suc n) L r) = int r" by (simp add: BinaryTree_initialize_def Let_def)
  show "comm_send (tree_comm (Suc n) L r) p = (if r = 0 then None else Some (int ((r - 1) div 2), packet p))"
    by (cases r) (auto simp: BinaryTree_send_def BinaryTree_initialize_def Let_def zdiv_int)
  show "comm_receive (tree_comm (Suc n) L r) ps = Inr (filter (\<lambda>p. \<not> isPackedMessagesEmpty p) ps)"
    if "length ps = card {c \<in> {0<..<Suc n}. (c - 1) div 2 = r}"
    using that tree_child_count [of r "Suc n" L] by (simp add: BinaryTree_receive_def receive_loop_def)
  show "comm_numPushesToFlush (tree_comm (Suc n) L 0) = int (ilog2 (Suc n))"
    using nat_int [of "Suc n"] by (simp add: BinaryTree_initialize_def Let_def del: of_nat_Suc nat_int)
qed simp

interpretation root: push_network "Suc n" "\<lambda>c. 0" "\<lambda>c. if c = 0 then 0 else 1" 1 "root_comm (Suc n) L" for n L
proof unfold_locales
  fix r ps
  have "{c \<in> {0<..<Suc n}. (0 :: nat) = r} = (if r = 0 then {0<..<Suc n} else {})" by auto
  then show "comm_receive (root_comm (Suc n) L r) ps = Inr (filter (\<lambda>p. \<not> isPackedMessagesEmpty p) ps)"
    if "length ps = card {c \<in> {0<..<Suc n}. 0 = r}"
    using that by (auto simp: Root_receive_def Root_initialize_def receive_loop_def split: if_splits)
qed (auto simp: Root_send_def Root_initialize_def)

abbreviation text_and_tag :: "Message \<Rightarrow> string \<times> string" where "text_and_tag m \<equiv> (m_text m, m_tag m)"

interpretation tree_log: log_network "Suc n" "\<lambda>c. (c - 1) div 2" "\<lambda>c. ilog2 (Suc c)" "ilog2 (Suc n)" "tree_comm (Suc n) L"
  text_and_tag "[TextTagCombiner]" for n L ..

interpretation root_log: log_network "Suc n" "\<lambda>c. 0" "\<lambda>c. if c = 0 then 0 else 1" 1 "root_comm (Suc n) L"
  text_and_tag "[TextTagCombiner]" for n L ..

text \<open>
  C4. Flushing, with the binary tree and with the root communicator, and any order in which MPI delivers
  the packets of a round: \<^verbatim>\<open>pushMessagesFully\<close> on all ranks returns, every message reaches the output
  rank and no other rank holds one. The output rank has one message for each text and tag that was logged anywhere,
  its count is the number of times it was logged on all ranks, the ranks it tracks are ranks that logged it,
  and all of these when they are no more than the limit. The messages must be \<open>carried\<close>: each fits the format (no
  asterisk in its file name or tag, no null character in a string, distinct ranks within the limit, numbers of type \<^verbatim>\<open>int\<close>;
  without this \<^verbatim>\<open>unpack\<close> can throw), and all ranks together hold counts below \<open>2 ^ 31\<close> and text below \<open>2 ^ 30\<close> characters.
\<close>

theorem lumberjack_flush_complete:
  assumes "0 < n" and "\<forall>k. delivers (deliver k)" and "carried L (held n f)"
    and "comm = tree_comm n L \<or> comm = root_comm n L"
  shows "\<exists>ms. pushMessagesFully deliver (network comm n L [TextTagCombiner] f) =
      Inr (network comm n L [TextTagCombiner] (\<lambda>r. if r = 0 then ms else [])) \<and>
    distinct (map text_and_tag ms) \<and>
    (\<forall>k. total text_and_tag k (mset ms) = total text_and_tag k (held n f) \<and>
      tracked text_and_tag k (mset ms) \<subseteq> tracked text_and_tag k (held n f) \<and>
      (card (tracked text_and_tag k (held n f)) \<le> limit_size L \<longrightarrow>
        tracked text_and_tag k (mset ms) = tracked text_and_tag k (held n f)))"
proof -
  obtain k where n: "n = Suc k" using assms(1) by (cases n) auto
  have "\<exists>ms. pushMessagesFully deliver (network comm n L [TextTagCombiner] f) =
      Inr (network comm n L [TextTagCombiner] (\<lambda>r. if r = 0 then ms else [])) \<and>
    observed text_and_tag L (held n f) (mset ms) \<and> (\<exists>l. ms = combineMessages [TextTagCombiner] L l)"
    using assms(2-4) tree_log.flush_ok [of L k f deliver L] root_log.flush_ok [of L k f deliver L] unfolding n by blast
  then obtain ms where ms: "pushMessagesFully deliver (network comm n L [TextTagCombiner] f) =
      Inr (network comm n L [TextTagCombiner] (\<lambda>r. if r = 0 then ms else []))"
    "observed text_and_tag L (held n f) (mset ms)" "\<exists>l. ms = combineMessages [TextTagCombiner] L l" by blast
  have "distinct (map text_and_tag ms)"
    using ms(3) text_tag.distinct_combine [of TextTagCombiner] by (auto simp: TextTagCombiner_def)
  then show ?thesis using ms(1,2) assms(3) unfolding observed_def by blast
qed

definition sample_logs :: "nat \<Rightarrow> Message list" where
  "sample_logs r = (if r = 0 then [] else [Message_new ''disk full'' (int r) ''io.cpp'' 7 1 ''io''])"

lemma sample_logs_carried: "carried 5 (held 3 sample_logs)"
  by (simp add: carried_def held_def sample_logs_def numeral_3_eq_3 lessThan_Suc msg_ok_def Message_new_def limit_size_def
    int_range_def weight_def)

theorem lumberjack_flush_complete_witness:
  "\<exists>ms. pushMessagesFully (\<lambda>k r ps. rev ps) (network (tree_comm 3 5) 3 5 [TextTagCombiner] sample_logs) =
      Inr (network (tree_comm 3 5) 3 5 [TextTagCombiner] (\<lambda>r. if r = 0 then ms else [])) \<and>
    total text_and_tag (''disk full'', ''io'') (mset ms) = 2"
proof -
  have "total text_and_tag (''disk full'', ''io'') (held 3 sample_logs) = 2"
    by (simp add: held_def sample_logs_def numeral_3_eq_3 lessThan_Suc Message_new_def)
  moreover have "\<forall>k. delivers ((\<lambda>k r ps. rev ps) k)" by (simp add: delivers_def)
  ultimately show ?thesis
    using lumberjack_flush_complete [OF _ _ sample_logs_carried, of "\<lambda>k r ps. rev ps" "tree_comm 3 5"] by auto
qed

text \<open>
  C26. Combining the queue of one rank, whose messages are \<open>carried\<close> (they fit the packet format and their counts and sizes
  together stay in range). With the combiner on text and tag, and with the one on text added,
  the result has one message for each key, in the order of first occurrence; the counts under each key add up to what
  they were; the tracked ranks are a subset of the ranks of the messages combined, and all of them when they are no more than the limit;
  and the result is carried. The combiner on text merges messages whose tags differ and keeps the tag of the first, a case that
  its documentation calls undefined.
\<close>

theorem lumberjack_combine_correct:
  assumes "carried L (mset ms)"
  shows "(let rs = combineMessages [TextTagCombiner] L ms in
      map text_and_tag rs = first_occurrences (map text_and_tag ms) \<and> observed text_and_tag L (mset ms) (mset rs) \<and> carried L (mset rs)) \<and>
    (let rs = combineMessages [TextTagCombiner, TextEqualityCombiner] L ms in
      map m_text rs = first_occurrences (map m_text ms) \<and> observed m_text L (mset ms) (mset rs) \<and> carried L (mset rs))"
proof -
  have "map text_and_tag (combineMessages [TextTagCombiner] L ms) = first_occurrences (map text_and_tag ms)"
    by (rule text_tag.combine_keys [of TextTagCombiner]) (simp_all add: TextTagCombiner_def)
  moreover have "map m_text (combineMessages [TextTagCombiner, TextEqualityCombiner] L ms) = first_occurrences (map m_text ms)"
    by (rule text_only.combine_keys [of TextEqualityCombiner]) (simp_all add: TextEqualityCombiner_def)
  ultimately show ?thesis
    using text_tag.observed_combineMessages [of L ms] text_only.observed_combineMessages [of L ms] observed_carried assms
    by (metis (no_types, lifting))
qed

theorem lumberjack_combine_correct_witness:
  "map m_text (combineMessages [TextTagCombiner, TextEqualityCombiner] 5 (sample_logs 1 @ sample_logs 2)) = [''disk full'']"
proof -
  have "mset (sample_logs 1 @ sample_logs 2) \<subseteq># held 3 sample_logs"
    by (simp add: held_def numeral_3_eq_3 lessThan_Suc sample_logs_def)
  then have "carried 5 (mset (sample_logs 1 @ sample_logs 2))" using carried_mono [OF sample_logs_carried] by blast
  from lumberjack_combine_correct [OF this] show ?thesis
    by (simp add: sample_logs_def Message_new_def first_occurrences_def add_key_def Let_def)
qed

end
