(* ===== verification/Spec2Isabelle.thy ===== *)
theory Spec2Isabelle
  imports FlatMap BitSet SidreTreeMachine SidreAttributes Octree CoreArray ArrayShape CoreMap LumberjackNetwork
begin

text \<open>
  \<^bold>\<open>A verification library for Axom\<close>, a C++ library of components for simulation
  software. All source paths below are relative to \<^verbatim>\<open>src/src/axom/\<close>.

  \<^bold>\<open>The program and its parts.\<close> Axom is a set of libraries over one base. \<^verbatim>\<open>core\<close>
  holds containers (arrays, two hash maps), string and bit utilities. \<^verbatim>\<open>sidre\<close> is a data store: a tree of groups whose leaves
  are views, each of which describes data in a buffer, in memory of the application, or a
  scalar or string it holds itself. Groups keep their children in collections
  (\<^verbatim>\<open>ItemCollection\<close> and its three implementations), walk paths with \<^verbatim>\<open>core/Path\<close>, and views and
  buffers point at each other. \<^verbatim>\<open>slam\<close> holds sets and relations for meshes, among them the run-time
  sized \<^verbatim>\<open>BitSet\<close>, which scans words with the bit utilities of \<^verbatim>\<open>core\<close>. \<^verbatim>\<open>spin\<close> holds spatial
  indices, among them the octree, whose levels are arrays or hash maps of blocks numbered by Morton indices. \<^verbatim>\<open>lumberjack\<close> collects the log
  messages of all ranks of a parallel run at one of them. The other libraries (\<^verbatim>\<open>primal\<close>, \<^verbatim>\<open>quest\<close>,
  \<^verbatim>\<open>mint\<close>, \<^verbatim>\<open>multimat\<close>, \<^verbatim>\<open>klee\<close>, \<^verbatim>\<open>inlet\<close>, \<^verbatim>\<open>slic\<close>) build on these.

  \<^bold>\<open>Theories and the code they model.\<close>
  \<^item> \<open>Prelude\<close>: machine-integer synonyms, the counting search loop \<open>for_find\<close>, shared list and
    word facts, and the collections of simplification rules.
  \<^item> \<open>BitUtilities\<close>, \<open>Popcount\<close>: the portable branches of \<^verbatim>\<open>countr_zero\<close>, \<^verbatim>\<open>countl_zero\<close> and
    \<^verbatim>\<open>popcount\<close> (\<^verbatim>\<open>core/utilities/BitUtilities.hpp\<close>) on 64- and 32-bit words. Shown: they count what
    they are named after, on every word.
  \<^item> \<open>Containers\<close>: the contract of an associative container as a locale, over operation
    sequences, and the refinement proved once inside it.
  \<^item> \<open>FlatTable\<close>, \<open>FlatMap\<close>: \<^verbatim>\<open>core/detail/FlatTable.hpp\<close> and \<^verbatim>\<open>core/FlatMap.hpp\<close>, the open-addressing
    hash map: groups of 15 metadata bytes and an overflow byte, quadratic probing, growth,
    erasure, iteration, copies. It interprets the locale of \<open>Containers\<close>. Shown: every sequence of operations denotes the same sequence on
    partial maps; probing visits every group once; rehashing and iteration end and lose nothing.
  \<^item> \<open>ItemCollection\<close>, \<open>SidreCollections\<close>: \<^verbatim>\<open>sidre/core/ItemCollection.hpp\<close> as a locale, with the
    iterators as its client, and \<^verbatim>\<open>IndexedCollection\<close>, \<^verbatim>\<open>ListCollection\<close>, \<^verbatim>\<open>MapCollection\<close> as
    interpretations. Shown: indices are stable and recycled last-in first-out, names and indices agree, iteration
    visits every item once.
  \<^item> \<open>SidreStore\<close>, \<open>SidreInvariant\<close>, \<open>SidreMachine\<close>: \<^verbatim>\<open>sidre/core/Buffer.cpp\<close>, \<^verbatim>\<open>View.cpp\<close> and the buffer
    table of \<^verbatim>\<open>DataStore.cpp\<close>: one record \<open>store\<close> of buffers, views, the blocks of memory in use and the
    table. Every public operation is a step of a machine; the invariant (\<open>store_inv\<close>) says that the
    pointers between views and buffers agree, view states match their contents, applied views
    describe no more bytes than their buffer has (the code leaves their offset out of this check), and blocks have one owner.
  \<^item> \<open>StringUtilities\<close>, \<open>Path\<close>: \<^verbatim>\<open>core/utilities/StringUtilities.cpp\<close> and \<^verbatim>\<open>core/Path.cpp\<close>, with \<^verbatim>\<open>size_t\<close>
    arithmetic where it wraps. Shown: \<^verbatim>\<open>rsplitN\<close>, the replacing loops, parse/print round trips.
  \<^item> \<open>SidreGroup\<close>: \<^verbatim>\<open>sidre/core/Group.cpp\<close>: the record \<open>world\<close> adds the groups, and the name, owner and
    index of each view, to the store. Null dereferences and invalid casts are values of the type
    \<open>fault\<close>. \<open>SidreTree\<close> states the invariant of the tree and proves it for the primitive changes
    (attach, detach), \<open>SidrePaths\<close> for walking and creating, \<open>SidreDelete\<close> for destructors,
    \<open>SidreWorld\<close> for every other operation; \<open>SidreTreeMachine\<close> is the machine over all of them and holds
    the properties of the tree.
  \<^item> \<open>BitSet\<close>: \<^verbatim>\<open>slam/BitSet.hpp\<close>, \<^verbatim>\<open>BitSet.cpp\<close>. Shown: every sequence of operations denotes the same
    sequence on sets of numbers, and the \<^verbatim>\<open>find_next\<close> loop lists exactly the members.
  \<^item> \<open>SidreAttributes\<close>: \<^verbatim>\<open>sidre/core/Attribute.cpp\<close>, \<^verbatim>\<open>AttrValues.cpp\<close>, the attribute table of \<^verbatim>\<open>DataStore.cpp\<close> and the
    attribute operations of \<^verbatim>\<open>View.cpp\<close>, with export and import. Shown: reading back what was set, defaults, the round trip
    through a Conduit object, and that destroying an attribute leaves its values in the views.
  \<^item> \<open>CoreArray\<close>: \<^verbatim>\<open>core/Array.hpp\<close> for one dimension: a buffer with a capacity, growth, insertion, erasure, copies and moves. Slots of
    memory know whether an object lives in them or was moved from. Shown: every sequence of operations denotes the same sequence on lists, failed
    assertions, null pointers and overflows of \<^verbatim>\<open>IndexType\<close> included, with the number of moved-from objects that are never destroyed.
  \<^item> \<open>ArrayMapping\<close>, \<open>ArrayShape\<close>: \<^verbatim>\<open>core/MDMapping.hpp\<close>, \<^verbatim>\<open>core/ArrayBase.hpp\<close> for several dimensions and the views of \<^verbatim>\<open>core/ArrayView.hpp\<close>: strides
    for a shape and an order of the directions, flat and multidimensional indices, element access, appending, subspans. Shown: the index
    conversions are inverse bijections without overflow as long as the memory of the array is an \<^verbatim>\<open>IndexType\<close>, the sort of the directions recovers a mapping from its strides, accesses stay inside, subspans show
    the right elements, and where strides that are equal or not 1 break this.
  \<^item> \<open>CoreMap\<close>: \<^verbatim>\<open>core/Map.hpp\<close>, the chained hash map: buckets of fixed length with a list of used and a list of free nodes. Shown:
    every sequence of calls acts as on a table of bounded chains, and as on a partial map where no bucket overflows and keys are inserted once; what \<^verbatim>\<open>rehash\<close> keeps and loses, and where \<^verbatim>\<open>insert\<close> takes a key twice.
  \<^item> \<open>Morton\<close>: \<^verbatim>\<open>spin/MortonIndex.hpp\<close>. Shown: the loops over masks interleave bits, and take them apart again.
  \<^item> \<open>MortonWidths\<close>: the same file at the widths of 16, 32 and 64 bits that octree levels use. Shown: a bijection between grid points and
    indices, from the contracts of spreading and gathering bits, which are interpreted at each width.
  \<^item> \<open>OctreeLevel\<close>: \<^verbatim>\<open>spin/OctreeLevel.hpp\<close>, \<^verbatim>\<open>DenseOctreeLevel.hpp\<close>, \<^verbatim>\<open>SparseOctreeLevel.hpp\<close>, \<^verbatim>\<open>Brood.hpp\<close>. The locale \<open>octree_level\<close> says what a tree relies
    on, \<open>brood_level\<close> derives it from the storage of whole broods, and both kinds of level are interpretations. Shown: iteration
    visits the blocks of a level once.
  \<^item> \<open>Octree\<close>: \<^verbatim>\<open>spin/OctreeBase.hpp\<close>: block indices and the tree of 31 or 63 levels. The abstraction of a tree is its set of internal blocks (\<open>oct_rep\<close>);
    reachable trees are those that refinement makes of the root. Shown: the tree is well formed, refinement changes only
    what it should, every valid block has one covering leaf, casts of levels are right, and which accesses leave the arrays.
  \<^item> \<open>LumberjackMessage\<close>, \<open>LumberjackNetwork\<close>: \<^verbatim>\<open>lumberjack/Message.cpp\<close>, \<^verbatim>\<open>Lumberjack.cpp\<close>, the combiners and the two communicators. One state holds
    the queues of all ranks, and a push between two barriers is one step. Shown: packed messages are read back, combining adds up the
    counts, and a full push brings every message to the output rank.

  \<^bold>\<open>Parameters.\<close> Conduit and the allocator are not part of the source: the record \<open>env\<close>
  holds the functions of Conduit's \<^verbatim>\<open>DataType\<close> that the code calls, and \<open>env_laws\<close> what is relied on (the bytes
  of a compact array of a default type); \<open>sample_env\<close> is an instance. An allocation returns a fresh block.
  The hash functions of \<^verbatim>\<open>FlatMap\<close> and \<^verbatim>\<open>Map\<close> are arguments without any hypothesis. An Array takes the product of its capacity with the
  resize ratio as a function, since it is computed in floating point. A Conduit object is the list of its named children. MPI is the
  function \<open>deliver\<close> that orders the packets of one round, with the hypothesis \<open>delivers\<close> that it loses and invents none.

  \<^bold>\<open>Bounds and fuel.\<close> \<^verbatim>\<open>IndexType\<close> has 32 bits by default and 64 as an option; both are covered, by a parameter where the width matters (the largest index of
  \<open>CoreArray\<close>, \<open>ArrayMapping\<close> and \<open>ArrayShape\<close>, the number of levels of \<open>Octree\<close>). A rehash of a \<^verbatim>\<open>FlatMap\<close> inserts into a table that is large enough not to grow
  again, so the recursion \<^verbatim>\<open>rehash\<close>--\<^verbatim>\<open>insert\<close> is unfolded twice and the theorems show that this gives a
  result, for fewer than \<open>2 ^ 29\<close> insertions. They leave at most \<open>2 ^ 27\<close> groups, below \<open>2 ^ 31 - 1\<close> buckets, which is
  what the \<^verbatim>\<open>int\<close> arithmetic on bucket numbers allows; well-formed tables (\<open>table_shape\<close>) have no more. The index loops of groups run once per slot of the collection
  (\<open>index_loop\<close>), destructors and copies at most as deep as the number of groups ever
  created, \<^verbatim>\<open>getPath\<close> climbs at most as many; the theorems show that the fuel never runs out in
  a reachable world. The octree has as many levels as \<^verbatim>\<open>IndexType\<close> has digits, 31 or 63; the search for a covering leaf
  climbs them at most once, and a level iterator makes one step per stored block. Coordinates and block ids of the octree are mathematical integers: the
  coordinates of a block on these levels are representable, and ids stay in range below \<open>2 ^ 31\<close> draws from the counter. The hash map of a sparse level is the list of its pairs in
  iteration order. Strides and flat indices are integers without a width; the properties assume that the minimum stride times the number of elements is an index
  and show that then nothing overflows; shapes are those without an
  empty direction. Walks along a chain of a \<^verbatim>\<open>Map\<close> have the length of the node array as fuel; its capacity, and the new number of buckets of a
  \<^verbatim>\<open>rehash\<close>, are assumed to be indices. The messages of \<open>LumberjackNetwork\<close> are bounded so that
  counts stay below \<open>2 ^ 31\<close> and positions below \<open>2 ^ 64\<close>. \<^verbatim>\<open>removeAllInstances\<close> shortens its string in each round; with an empty
  substring it does not end, which is a theorem.

  \<^bold>\<open>What the theorems say where the code fails.\<close> Several theorems show a defect: \<^verbatim>\<open>FlatMap::erase\<close> never lowers the
  size, reallocating a buffer directly, importing an array into a view with a buffer, views with an offset past their buffer, operations on views of list-format groups, moving a
  group below itself, values of a destroyed attribute that appear under the next one, an Array that inserts an element of its own or moves elements without destroying what they leave,
  a log message with a delimiter in its tag, \<^verbatim>\<open>Map::insert\<close> of a key that is in the last node,
  octree queries outside the levels and the bounds, subspans of views with an extent of 1, flat positions of strided arrays. Where such a step would
  break an invariant, the machine has a guard for it, which is stated at the step.

  \<^bold>\<open>Not modelled.\<close> File input and output, Conduit import and export of groups, printing, and the
  logging of \<^verbatim>\<open>slic\<close> have no effect on the modelled state. The bytes inside buffers, and so deep
  copies, are not represented. Floating-point code (\<^verbatim>\<open>primal\<close>, \<^verbatim>\<open>quest\<close>, most of \<^verbatim>\<open>mint\<close>, \<^verbatim>\<open>numerics\<close>) is not
  modelled: its results depend on rounding. Device execution, the body of MPI and the bindings are outside.
\<close>

end
